(* ===== verification/Prelude.thy ===== *)
theory Prelude
  imports Main "HOL-Library.Word"
begin

unbundle bit_operations_syntax

text \<open>
  The shared base of the development: how a C function that may panic or loop is
  represented, the flag words of the process tables, the error numbers of
  \<^verbatim>\<open>src/src/include/errno.h\<close>, and the null-terminated chains of table slots that MINIX
  threads through its static tables (\<^verbatim>\<open>h_next\<close>, \<^verbatim>\<open>p_nextready\<close>, \<^verbatim>\<open>p_sendlink\<close>,
  \<^verbatim>\<open>b_next\<close>, \<^verbatim>\<open>b_hash\<close>).
\<close>

section \<open>Fact collections\<close>

named_theorems flag_simps \<open>flag words: testing, setting and clearing single bits\<close>
named_theorems errno_defs \<open>the numeric values of the error codes\<close>

section \<open>Outcomes\<close>

text \<open>
  A call of \<^verbatim>\<open>panic()\<close> stops the server, so a function that may panic returns an
  \<open>outcome\<close>. A function with a loop whose end is not obvious returns an \<open>option\<close> on top of
  that, and \<open>None\<close> means that the loop does not end.
\<close>

datatype 'a outcome = Ret 'a | Panic string

definition and_then :: "'a outcome option \<Rightarrow> ('a \<Rightarrow> 'b outcome option) \<Rightarrow> 'b outcome option" where
  "and_then r f = (case r of None \<Rightarrow> None | Some (Panic p) \<Rightarrow> Some (Panic p) | Some (Ret x) \<Rightarrow> f x)"

text \<open>A \<^verbatim>\<open>for\<close> loop over table slots.\<close>

fun each :: "('a \<Rightarrow> 's \<Rightarrow> 's outcome option) \<Rightarrow> 'a list \<Rightarrow> 's \<Rightarrow> 's outcome option" where
  "each f [] s = Some (Ret s)"
| "each f (x # xs) s = and_then (f x s) (each f xs)"

section \<open>Error numbers\<close>

text \<open>Inside the system \<^verbatim>\<open>_SYSTEM\<close> is defined, so the error numbers are negative.\<close>

definition OK :: int where [errno_defs]: "OK = 0"
definition EPERM :: int where [errno_defs]: "EPERM = - 1"
definition ENOENT :: int where [errno_defs]: "ENOENT = - 2"
definition ESRCH :: int where [errno_defs]: "ESRCH = - 3"
definition EINTR :: int where [errno_defs]: "EINTR = - 4"
definition EIO :: int where [errno_defs]: "EIO = - 5"
definition EBADF :: int where [errno_defs]: "EBADF = - 9"
definition ECHILD :: int where [errno_defs]: "ECHILD = - 10"
definition EAGAIN :: int where [errno_defs]: "EAGAIN = - 11"
definition ENOMEM :: int where [errno_defs]: "ENOMEM = - 12"
definition EACCES :: int where [errno_defs]: "EACCES = - 13"
definition EFAULT :: int where [errno_defs]: "EFAULT = - 14"
definition EINVAL :: int where [errno_defs]: "EINVAL = - 22"
definition ENFILE :: int where [errno_defs]: "ENFILE = - 23"
definition EMFILE :: int where [errno_defs]: "EMFILE = - 24"
definition ENOSPC :: int where [errno_defs]: "ENOSPC = - 28"
definition EROFS :: int where [errno_defs]: "EROFS = - 30"
definition EPIPE :: int where [errno_defs]: "EPIPE = - 32"
definition ENOLCK :: int where [errno_defs]: "ENOLCK = - 37"
definition ELOCKED :: int where [errno_defs]: "ELOCKED = - 101"
definition EBADCALL :: int where [errno_defs]: "EBADCALL = - 102"

section \<open>Flag words\<close>

text \<open>
  \<^verbatim>\<open>p_flags\<close>, \<^verbatim>\<open>mp_flags\<close> and \<^verbatim>\<open>sigset_t\<close> are words of which single bits are tested, set
  and cleared: \<open>flag n\<close> is the mask \<^verbatim>\<open>1 << n\<close>, \<open>has w m\<close> the C condition \<^verbatim>\<open>w & m\<close>.
\<close>

definition flag :: "nat \<Rightarrow> 'a::len word" where
  "flag n = push_bit n 1"

definition has :: "'a::len word \<Rightarrow> 'a word \<Rightarrow> bool" where
  "has w m \<longleftrightarrow> w AND m \<noteq> 0"

text \<open>
  Signal sets, \<^verbatim>\<open>src/src/lib/posix/_sigset.c\<close>. An invalid signal number leaves the set
  alone and makes \<^verbatim>\<open>sigismember\<close> return -1, which the callers' conditions read as true.
\<close>

definition NSIG :: int where "NSIG = 16"

definition sigisvalid :: "int \<Rightarrow> bool" where
  "sigisvalid signo \<longleftrightarrow> 0 \<le> signo \<and> signo \<le> NSIG"

definition sigaddset :: "int \<Rightarrow> 32 word \<Rightarrow> 32 word" where
  "sigaddset signo m = (if sigisvalid signo then m OR flag (nat signo) else m)"

definition sigdelset :: "int \<Rightarrow> 32 word \<Rightarrow> 32 word" where
  "sigdelset signo m = (if sigisvalid signo then m AND NOT (flag (nat signo)) else m)"

definition sigismember :: "32 word \<Rightarrow> int \<Rightarrow> bool" where
  "sigismember m signo \<longleftrightarrow> \<not> sigisvalid signo \<or> has m (flag (nat signo))"

section \<open>Chains of table slots\<close>

text \<open>\<open>chain nxt p xs\<close>: following \<open>nxt\<close> from \<open>p\<close> visits exactly \<open>xs\<close> and then hits NIL.\<close>

fun chain :: "('a \<Rightarrow> 'a option) \<Rightarrow> 'a option \<Rightarrow> 'a list \<Rightarrow> bool" where
  "chain nxt p [] \<longleftrightarrow> p = None"
| "chain nxt p (x # xs) \<longleftrightarrow> p = Some x \<and> chain nxt (nxt x) xs"

text \<open>\<open>seg nxt p xs q\<close>: following \<open>nxt\<close> from \<open>p\<close> visits \<open>xs\<close> and arrives at \<open>q\<close>.\<close>

fun seg :: "('a \<Rightarrow> 'a option) \<Rightarrow> 'a option \<Rightarrow> 'a list \<Rightarrow> 'a option \<Rightarrow> bool" where
  "seg nxt p [] q \<longleftrightarrow> p = q"
| "seg nxt p (x # xs) q \<longleftrightarrow> p = Some x \<and> seg nxt (nxt x) xs q"

lemma and_then_simps [simp]:
  "and_then None f = None"
  "and_then (Some (Panic p)) f = Some (Panic p)"
  "and_then (Some (Ret x)) f = f x"
  by (simp_all add: and_then_def)

text \<open>
  \<open>yields r Q\<close>: if the computation returns a value, the value satisfies \<open>Q\<close>. The equations push the
  statement through the steps of a function, as in a calculus of weakest preconditions.
\<close>

definition yields :: "'a outcome option \<Rightarrow> ('a \<Rightarrow> bool) \<Rightarrow> bool" where
  "yields r Q \<longleftrightarrow> (\<forall>x. r = Some (Ret x) \<longrightarrow> Q x)"

lemma yields_simps [simp]:
  "yields None Q"
  "yields (Some (Panic p)) Q"
  "yields (Some (Ret x)) Q \<longleftrightarrow> Q x"
  by (simp_all add: yields_def)

lemma yields_then [simp]: "yields (and_then r f) Q \<longleftrightarrow> yields r (\<lambda>x. yields (f x) Q)"
  by (auto simp: yields_def and_then_def split: option.splits outcome.splits)

lemma yieldsD: "yields r Q \<Longrightarrow> r = Some (Ret x) \<Longrightarrow> Q x"
  by (simp add: yields_def)

lemma yields_mono: "yields r P \<Longrightarrow> (\<And>x. P x \<Longrightarrow> Q x) \<Longrightarrow> yields r Q"
  by (simp add: yields_def)

lemma yields_each:
  assumes "P s" and step: "\<And>x t. x \<in> set xs \<Longrightarrow> P t \<Longrightarrow> yields (f x t) P"
  shows "yields (each f xs s) P"
  using assms
proof (induction xs arbitrary: s)
  case (Cons x xs)
  have "yields (f x s) P" using Cons.prems by simp
  then show ?case by simp (rule yields_mono, assumption, rule Cons.IH, use Cons.prems(2) in auto)
qed simp

lemma bit_flag [flag_simps, simp]:
  "bit (flag n :: 'a::len word) m \<longleftrightarrow> m = n \<and> n < LENGTH('a)"
  by (auto simp: flag_def bit_simps)

lemma has_flag [flag_simps]: "has w (flag n :: 'a::len word) \<longleftrightarrow> bit w n"
proof
  assume "has w (flag n)"
  then obtain m where "bit (w AND flag n) m"
    by (auto simp: has_def bit_eq_iff)
  then show "bit w n"
    by (auto simp: bit_and_iff)
next
  assume "bit w n"
  then have "bit (w AND flag n) n"
    by (auto simp: bit_and_iff intro: bit_imp_le_length)
  then have "w AND flag n \<noteq> 0" by fastforce
  then show "has w (flag n)" by (simp add: has_def)
qed

lemma sigset_simps [simp]:
  "sigisvalid m \<Longrightarrow> sigismember (sigaddset n w) m \<longleftrightarrow> (m = n \<or> sigismember w m)"
  "sigisvalid m \<Longrightarrow> sigismember (sigdelset n w) m \<longleftrightarrow> (m \<noteq> n \<and> sigismember w m)"
  "sigisvalid m \<Longrightarrow> \<not> sigismember 0 m"
  by (auto simp: sigismember_def sigaddset_def sigdelset_def sigisvalid_def NSIG_def has_flag
      bit_or_iff bit_and_iff bit_not_iff nat_eq_iff2)

lemma chain_NilI: "chain nxt None xs \<longleftrightarrow> xs = []"
  by (cases xs) auto

lemma chain_SomeE:
  assumes "chain nxt (Some x) xs"
  obtains ys where "xs = x # ys" and "chain nxt (nxt x) ys"
  using assms by (cases xs) auto

lemma chain_fun_upd [simp]:
  "x \<notin> set xs \<Longrightarrow> chain (nxt(x := q)) p xs \<longleftrightarrow> chain nxt p xs"
  by (induction xs arbitrary: p) auto

lemma chain_cong: "(\<And>x. x \<in> set xs \<Longrightarrow> nxt x = nxt' x) \<Longrightarrow> chain nxt p xs = chain nxt' p xs"
  by (induction xs arbitrary: p) auto

lemma chain_unique: "chain nxt p xs \<Longrightarrow> chain nxt p ys \<Longrightarrow> xs = ys"
  by (induction xs arbitrary: p ys) (auto simp: chain_NilI elim: chain_SomeE)

lemma chain_suffix: "chain nxt p (xs @ x # ys) \<Longrightarrow> chain nxt (Some x) (x # ys)"
  by (induction xs arbitrary: p) auto

lemma chain_distinct: "chain nxt p xs \<Longrightarrow> distinct xs"
proof (induction xs arbitrary: p)
  case (Cons x xs)
  have "x \<notin> set xs"
  proof
    assume "x \<in> set xs"
    then obtain us vs where xs: "xs = us @ x # vs"
      by (auto simp: in_set_conv_decomp)
    with Cons.prems have "chain nxt (Some x) (x # vs)"
      by (metis chain_suffix append_Cons)
    moreover from Cons.prems have "chain nxt (Some x) (x # xs)" by simp
    ultimately have "x # vs = x # xs" by (rule chain_unique)
    with xs show False by simp
  qed
  with Cons show ?case by auto
qed simp

lemma seg_fun_upd [simp]:
  "x \<notin> set xs \<Longrightarrow> seg (nxt(x := r)) p xs q \<longleftrightarrow> seg nxt p xs q"
  by (induction xs arbitrary: p) auto

lemma chain_append: "chain nxt p (xs @ ys) \<longleftrightarrow> (\<exists>q. seg nxt p xs q \<and> chain nxt q ys)"
  by (induction xs arbitrary: p) auto

text \<open>
  The four ways in which the C code edits a chain: unlink the successor of \<open>a\<close>, unlink the
  head, link \<open>x\<close> in after \<open>a\<close>, and push \<open>x\<close> in front.
\<close>

lemma chain_unlink:
  assumes "chain nxt p (us @ a # h # vs)"
  shows "chain (nxt(a := nxt h)) p (us @ a # vs)"
  using assms chain_distinct [OF assms] by (auto simp: chain_append)

lemma chain_link:
  assumes "chain nxt p (us @ a # vs)" and "x \<notin> set (us @ a # vs)"
  shows "chain (nxt(x := nxt a, a := Some x)) p (us @ a # x # vs)"
  using assms chain_distinct [OF assms(1)] by (auto simp: chain_append)

lemma chain_push:
  assumes "chain nxt p xs" and "x \<notin> set xs"
  shows "chain (nxt(x := p)) (Some x) (x # xs)"
  using assms by auto

lemma chain_snoc:
  assumes "chain nxt p (us @ [t])" and "x \<notin> set (us @ [t])"
  shows "chain (nxt(t := Some x, x := None)) p (us @ [t, x])"
  using assms chain_distinct [OF assms(1)] by (auto simp: chain_append)

lemma chain_head: "chain nxt p (x # xs) \<Longrightarrow> p = Some x \<and> chain nxt (nxt x) xs"
  by simp

lemma chain_next: "chain nxt p (us @ a # vs) \<Longrightarrow> chain nxt (nxt a) vs"
  by (auto simp: chain_append)

lemma find_SomeD: "List.find P xs = Some x \<Longrightarrow> x \<in> set xs \<and> P x"
  by (induction xs) (auto split: if_splits)

lemma find_first: "List.find P xs = Some x \<longleftrightarrow> (\<exists>us vs. xs = us @ x # vs \<and> P x \<and> (\<forall>u \<in> set us. \<not> P u))"
proof (induction xs)
  case (Cons a xs)
  show ?case
  proof (cases "P a")
    case True
    then show ?thesis by (auto simp: Cons_eq_append_conv)
  next
    case False
    then have "(\<exists>us vs. a # xs = us @ x # vs \<and> P x \<and> (\<forall>u \<in> set us. \<not> P u)) \<longleftrightarrow>
        (\<exists>us vs. xs = us @ x # vs \<and> P x \<and> (\<forall>u \<in> set us. \<not> P u))"
      by (auto simp: Cons_eq_append_conv) (metis append_Cons set_ConsD)
    then show ?thesis using False Cons.IH by simp
  qed
qed simp

end
