(* ===== verification/Kernel_Proc.thy ===== *)
theory Kernel_Proc
  imports Prelude
begin

unbundle bit_operations_syntax

text \<open>
  Process and message handling of the kernel, \<^verbatim>\<open>src/src/kernel/proc.c\<close>, with the signal
  notification \<^verbatim>\<open>cause_sig\<close>/\<^verbatim>\<open>inform\<close> of \<^verbatim>\<open>src/src/kernel/system.c\<close> that it calls. A process
  pointer is a process number (tasks are negative), \<^verbatim>\<open>NIL_PROC\<close> is \<open>None\<close>; the linked lists
  (\<^verbatim>\<open>p_nextready\<close>, \<^verbatim>\<open>p_sendlink\<close>, \<^verbatim>\<open>p_nextheld\<close>) are kept as pointers. The configuration is
  that of \<^verbatim>\<open>config.h\<close>: an Atari (\<^verbatim>\<open>CHIP == M68000\<close>) with \<^verbatim>\<open>SHADOWING == 1\<close> and
  \<^verbatim>\<open>ALLOW_GAP_MESSAGES == 1\<close>. \<^verbatim>\<open>lock()\<close> and \<^verbatim>\<open>unlock()\<close> only mask interrupts and leave no
  trace in the state. Physical memory is seen as a store of messages indexed by address:
  message buffers do not overlap partially.
\<close>

section \<open>Data\<close>

record mem_map =
  mem_vir :: "32 word"
  mem_phys :: "32 word"
  mem_len :: "32 word"

record message =
  m_source :: int
  m_type :: int
  m_body :: "int list"

text \<open>
  \<open>p_stguard_ok\<close> tells whether the guard word \<^verbatim>\<open>*p_stguard\<close> still holds \<^verbatim>\<open>STACK_GUARD\<close>;
  \<open>map_D\<close> and \<open>map_S\<close> are \<^verbatim>\<open>p_map[D]\<close> and \<^verbatim>\<open>p_map[S]\<close>.
\<close>

record proc =
  p_stguard_ok :: bool
  p_shadow :: "32 word"
  p_int_blocked :: bool
  p_int_held :: bool
  p_nextheld :: "int option"
  p_flags :: "32 word"
  map_D :: mem_map
  map_S :: mem_map
  p_callerq :: "int option"
  p_sendlink :: "int option"
  p_messbuf :: "32 word"
  p_getfrom :: int
  p_sendto :: int
  p_nextready :: "int option"
  p_pending :: "32 word"
  p_pendcount :: nat

text \<open>
  The kernel's globals; \<open>mess_size\<close> is \<^verbatim>\<open>sizeof(message)\<close> of the compiler used, \<open>m_addr\<close>
  the address of the message \<^verbatim>\<open>m\<close> of \<^verbatim>\<open>system.c\<close>.
\<close>

record kernel =
  proc :: "int \<Rightarrow> proc"
  proc_ptr :: int
  bill_ptr :: int
  rdy_head :: "nat \<Rightarrow> int option"
  rdy_tail :: "nat \<Rightarrow> int option"
  held_head :: "int option"
  held_tail :: "int option"
  k_reenter :: int
  switching :: bool
  sig_procs :: int
  kmem :: "32 word \<Rightarrow> message"
  mess_size :: "32 word"
  m_addr :: "32 word"

definition P_SLOT_FREE :: "32 word" where [flag_simps]: "P_SLOT_FREE = flag 0"
definition NO_MAP :: "32 word" where [flag_simps]: "NO_MAP = flag 1"
definition SENDING :: "32 word" where [flag_simps]: "SENDING = flag 2"
definition RECEIVING :: "32 word" where [flag_simps]: "RECEIVING = flag 3"
definition PENDING :: "32 word" where [flag_simps]: "PENDING = flag 4"
definition SIG_PENDING :: "32 word" where [flag_simps]: "SIG_PENDING = flag 5"
definition P_STOP :: "32 word" where [flag_simps]: "P_STOP = flag 6"

definition NR_TASKS :: int where "NR_TASKS = 11"
definition NR_PROCS :: int where "NR_PROCS = 64"
definition ANY :: int where "ANY = NR_PROCS + 100"
definition IDLE :: int where "IDLE = - 7"
definition HARDWARE :: int where "HARDWARE = - 1"
definition MM_PROC_NR :: int where "MM_PROC_NR = 0"
definition FS_PROC_NR :: int where "FS_PROC_NR = 1"
definition LOW_USER :: int where "LOW_USER = 3"
definition HARD_INT :: int where "HARD_INT = 2"
definition KSIG :: int where "KSIG = 64"
definition SIGSTKFLT :: int where "SIGSTKFLT = 16"
definition CLICK_SHIFT :: nat where "CLICK_SHIFT = 8"

definition SEND :: int where "SEND = 1"
definition RECEIVE :: int where "RECEIVE = 2"
definition BOTH :: int where "BOTH = 3"

definition E_BAD_DEST :: int where [errno_defs]: "E_BAD_DEST = - 1001"
definition E_BAD_SRC :: int where [errno_defs]: "E_BAD_SRC = - 1002"
definition E_NO_PERM :: int where [errno_defs]: "E_NO_PERM = - 1008"

abbreviation TASK_Q :: nat where "TASK_Q \<equiv> 0"
abbreviation SERVER_Q :: nat where "SERVER_Q \<equiv> 1"
abbreviation USER_Q :: nat where "USER_Q \<equiv> 2"
abbreviation SHADOW_Q :: nat where "SHADOW_Q \<equiv> 3"

text \<open>The classification macros of \<^verbatim>\<open>proc.h\<close>.\<close>

definition isokprocn :: "int \<Rightarrow> bool" where
  "isokprocn n \<longleftrightarrow> - NR_TASKS \<le> n \<and> n < NR_PROCS"

definition isoksrc_dest :: "int \<Rightarrow> bool" where
  "isoksrc_dest n \<longleftrightarrow> isokprocn n \<or> n = ANY"

definition isrxhardware :: "int \<Rightarrow> bool" where
  "isrxhardware n \<longleftrightarrow> n = ANY \<or> n = HARDWARE"

definition issysentn :: "int \<Rightarrow> bool" where
  "issysentn n \<longleftrightarrow> n = FS_PROC_NR \<or> n = MM_PROC_NR"

definition istaskp :: "int \<Rightarrow> bool" where
  "istaskp p \<longleftrightarrow> p < 0 \<and> p \<noteq> IDLE"

definition isuserp :: "int \<Rightarrow> bool" where
  "isuserp p \<longleftrightarrow> p \<ge> LOW_USER"

definition isshadowp :: "kernel \<Rightarrow> int \<Rightarrow> bool" where
  "isshadowp s p \<longleftrightarrow> p_shadow (proc s p) \<noteq> 0"

definition upd_proc :: "int \<Rightarrow> (proc \<Rightarrow> proc) \<Rightarrow> kernel \<Rightarrow> kernel" where
  "upd_proc p f s = s\<lparr>proc := (proc s)(p := f (proc s p))\<rparr>"

definition set_rdy_head :: "nat \<Rightarrow> int option \<Rightarrow> kernel \<Rightarrow> kernel" where
  "set_rdy_head q v s = s\<lparr>rdy_head := (rdy_head s)(q := v)\<rparr>"

definition set_rdy_tail :: "nat \<Rightarrow> int option \<Rightarrow> kernel \<Rightarrow> kernel" where
  "set_rdy_tail q v s = s\<lparr>rdy_tail := (rdy_tail s)(q := v)\<rparr>"

section \<open>Scheduling\<close>

definition pick_proc :: "kernel \<Rightarrow> kernel" where
  "pick_proc s =
     (case rdy_head s TASK_Q of
        Some rp \<Rightarrow> s\<lparr>proc_ptr := rp\<rparr>
      | None \<Rightarrow>
         (case rdy_head s SERVER_Q of
            Some rp \<Rightarrow> s\<lparr>proc_ptr := rp\<rparr>
          | None \<Rightarrow>
             (case rdy_head s USER_Q of
                Some rp \<Rightarrow> s\<lparr>proc_ptr := rp, bill_ptr := rp\<rparr>
              | None \<Rightarrow> s\<lparr>proc_ptr := IDLE, bill_ptr := IDLE\<rparr>)))"

text \<open>Appending to a ready queue, the pattern \<^verbatim>\<open>ready\<close> and \<^verbatim>\<open>interrupt\<close> repeat in line.\<close>

definition enqueue_tail :: "nat \<Rightarrow> int \<Rightarrow> kernel \<Rightarrow> kernel" where
  "enqueue_tail q rp s =
     (let s1 = (case rdy_head s q of
                  Some _ \<Rightarrow> upd_proc (the (rdy_tail s q)) (p_nextready_update (\<lambda>_. Some rp)) s
                | None \<Rightarrow> set_rdy_head q (Some rp) s)
      in upd_proc rp (p_nextready_update (\<lambda>_. None)) (set_rdy_tail q (Some rp) s1))"

definition ready :: "int \<Rightarrow> kernel \<Rightarrow> kernel" where
  "ready rp s =
     (if istaskp rp then
        enqueue_tail TASK_Q rp (if rdy_head s TASK_Q = None then s\<lparr>proc_ptr := rp\<rparr> else s)
      else if \<not> isuserp rp then enqueue_tail SERVER_Q rp s
      else if isshadowp s rp then enqueue_tail SHADOW_Q rp s
      else
        let s1 = (if rdy_head s USER_Q = None then set_rdy_tail USER_Q (Some rp) s else s);
            s2 = upd_proc rp (p_nextready_update (\<lambda>_. rdy_head s1 USER_Q)) s1
        in set_rdy_head USER_Q (Some rp) s2)"

text \<open>The queue that \<^verbatim>\<open>ready\<close> and \<^verbatim>\<open>unready\<close> select for a process.\<close>

definition queue_of :: "kernel \<Rightarrow> int \<Rightarrow> nat" where
  "queue_of s p =
     (if istaskp p then TASK_Q else if \<not> isuserp p then SERVER_Q
      else if isshadowp s p then SHADOW_Q else USER_Q)"

text \<open>The search of \<^verbatim>\<open>unready\<close>: the element whose successor is \<open>rp\<close>, or NIL.\<close>

partial_function (option) unready_search :: "kernel \<Rightarrow> int \<Rightarrow> int option \<Rightarrow> int option option" where
  "unready_search s rp xp =
     (case xp of
        None \<Rightarrow> Some None
      | Some x \<Rightarrow> if p_nextready (proc s x) = Some rp then Some xp
                  else unready_search s rp (p_nextready (proc s x)))"

definition unready :: "int \<Rightarrow> kernel \<Rightarrow> kernel outcome option" where
  "unready rp s =
     (if istaskp rp \<and> \<not> p_stguard_ok (proc s rp) then Some (Panic ''stack overrun by task'')
      else let q = queue_of s rp in
        case rdy_head s q of
          None \<Rightarrow> Some (Ret s)
        | Some xp \<Rightarrow>
            if xp = rp then
              let s1 = set_rdy_head q (p_nextready (proc s xp)) s
              in Some (Ret (if rp = proc_ptr s1 then pick_proc s1 else s1))
            else case unready_search s rp (Some xp) of
                   None \<Rightarrow> None
                 | Some None \<Rightarrow> Some (Ret s)
                 | Some (Some x) \<Rightarrow>
                     let s1 = upd_proc x (p_nextready_update
                                (\<lambda>_. p_nextready (proc s (the (p_nextready (proc s x)))))) s
                     in Some (Ret (if rdy_tail s1 q = Some rp then set_rdy_tail q (Some x) s1 else s1)))"

definition sched :: "kernel \<Rightarrow> kernel" where
  "sched s =
     (case rdy_head s USER_Q of
        None \<Rightarrow> s
      | Some h \<Rightarrow>
          let s1 = upd_proc (the (rdy_tail s USER_Q)) (p_nextready_update (\<lambda>_. Some h)) s;
              s2 = set_rdy_tail USER_Q (Some h) s1;
              s3 = set_rdy_head USER_Q (p_nextready (proc s2 h)) s2;
              s4 = upd_proc h (p_nextready_update (\<lambda>_. None)) s3
          in pick_proc s4)"

definition lock_pick_proc :: "kernel \<Rightarrow> kernel" where
  "lock_pick_proc s = (pick_proc (s\<lparr>switching := True\<rparr>))\<lparr>switching := False\<rparr>"

definition lock_ready :: "int \<Rightarrow> kernel \<Rightarrow> kernel" where
  "lock_ready rp s = (ready rp (s\<lparr>switching := True\<rparr>))\<lparr>switching := False\<rparr>"

definition lock_unready :: "int \<Rightarrow> kernel \<Rightarrow> kernel outcome option" where
  "lock_unready rp s =
     and_then (unready rp (s\<lparr>switching := True\<rparr>)) (\<lambda>s1. Some (Ret (s1\<lparr>switching := False\<rparr>)))"

definition lock_sched :: "kernel \<Rightarrow> kernel" where
  "lock_sched s = (sched (s\<lparr>switching := True\<rparr>))\<lparr>switching := False\<rparr>"

section \<open>Messages\<close>

text \<open>\<^verbatim>\<open>cp_mess\<close>: a shadowed process keeps its image at \<^verbatim>\<open>p_shadow\<close> instead of \<^verbatim>\<open>p_map[D].mem_phys\<close>.\<close>

definition mess_phys :: "kernel \<Rightarrow> int \<Rightarrow> 32 word \<Rightarrow> 32 word" where
  "mess_phys s p a =
     (let correction = p_shadow (proc s p) in
      if correction \<noteq> 0
      then a + push_bit CLICK_SHIFT (correction - mem_phys (map_D (proc s p)))
      else a)"

definition cp_mess :: "int \<Rightarrow> int \<Rightarrow> 32 word \<Rightarrow> int \<Rightarrow> 32 word \<Rightarrow> kernel \<Rightarrow> kernel" where
  "cp_mess src src_p src_m dst_p dst_m s =
     s\<lparr>kmem := (kmem s)(mess_phys s dst_p dst_m := (kmem s (mess_phys s src_p src_m))\<lparr>m_source := src\<rparr>)\<rparr>"

definition mess_fault :: "kernel \<Rightarrow> int \<Rightarrow> 32 word \<Rightarrow> bool" where
  "mess_fault s p vb =
     (let vlo = drop_bit CLICK_SHIFT vb;
          vhi = drop_bit CLICK_SHIFT (vb + mess_size s - 1)
      in vlo < mem_vir (map_D (proc s p)) \<or> vlo > vhi \<or>
         vhi \<ge> mem_vir (map_S (proc s p)) + mem_len (map_S (proc s p)))"

text \<open>The deadlock check of \<^verbatim>\<open>mini_send\<close>: follow \<^verbatim>\<open>p_sendto\<close> as long as the target is sending.\<close>

partial_function (option) send_chain :: "kernel \<Rightarrow> int \<Rightarrow> int \<Rightarrow> bool option" where
  "send_chain s caller next_ptr =
     (if next_ptr = caller then Some True
      else if has (p_flags (proc s next_ptr)) SENDING
      then send_chain s caller (p_sendto (proc s next_ptr))
      else Some False)"

text \<open>The end of a caller queue.\<close>

partial_function (option) last_sender :: "kernel \<Rightarrow> int \<Rightarrow> int option" where
  "last_sender s next_ptr =
     (if p_sendlink (proc s next_ptr) = None then Some next_ptr
      else last_sender s (the (p_sendlink (proc s next_ptr))))"

definition is_waiting_for :: "kernel \<Rightarrow> int \<Rightarrow> int \<Rightarrow> bool" where
  "is_waiting_for s dest caller \<longleftrightarrow>
     p_flags (proc s dest) AND (RECEIVING OR SENDING) = RECEIVING \<and>
     (p_getfrom (proc s dest) = ANY \<or> p_getfrom (proc s dest) = caller)"

text \<open>The branch of \<^verbatim>\<open>mini_send\<close> in which the destination waits for the message.\<close>

definition deliver :: "int \<Rightarrow> int \<Rightarrow> 32 word \<Rightarrow> kernel \<Rightarrow> kernel" where
  "deliver caller dest m_ptr s =
     (let s1 = cp_mess caller caller m_ptr dest (p_messbuf (proc s dest)) s;
          s2 = upd_proc dest (p_flags_update (\<lambda>f. f AND NOT RECEIVING)) s1
      in if p_flags (proc s2 dest) = 0 then ready dest s2 else s2)"

text \<open>The branch in which the caller is blocked and queued.\<close>

definition block_sender :: "int \<Rightarrow> int \<Rightarrow> 32 word \<Rightarrow> kernel \<Rightarrow> kernel outcome option" where
  "block_sender caller dest m_ptr s =
     (let s1 = upd_proc caller (p_messbuf_update (\<lambda>_. m_ptr)) s in
      and_then (if p_flags (proc s1 caller) = 0 then unready caller s1 else Some (Ret s1))
       (\<lambda>s2.
         let s3 = upd_proc caller (\<lambda>r. r\<lparr>p_flags := p_flags r OR SENDING, p_sendto := dest\<rparr>) s2
         in case p_callerq (proc s3 dest) of
              None \<Rightarrow> Some (Ret (upd_proc caller (p_sendlink_update (\<lambda>_. None))
                       (upd_proc dest (p_callerq_update (\<lambda>_. Some caller)) s3)))
            | Some n \<Rightarrow>
                (case last_sender s3 n of
                   None \<Rightarrow> None
                 | Some l \<Rightarrow> Some (Ret (upd_proc caller (p_sendlink_update (\<lambda>_. None))
                       (upd_proc l (p_sendlink_update (\<lambda>_. Some caller)) s3))))))"

definition mini_send :: "int \<Rightarrow> int \<Rightarrow> 32 word \<Rightarrow> kernel \<Rightarrow> (int \<times> kernel) outcome option" where
  "mini_send caller dest m_ptr s =
     (if isuserp caller \<and> \<not> issysentn dest then Some (Ret (E_BAD_DEST, s))
      else if has (p_flags (proc s dest)) P_SLOT_FREE then Some (Ret (E_BAD_DEST, s))
      else if mess_fault s caller m_ptr then Some (Ret (EFAULT, s))
      else case (if has (p_flags (proc s dest)) SENDING
                 then send_chain s caller (p_sendto (proc s dest)) else Some False) of
        None \<Rightarrow> None
      | Some True \<Rightarrow> Some (Ret (ELOCKED, s))
      | Some False \<Rightarrow>
          if is_waiting_for s dest caller then Some (Ret (OK, deliver caller dest m_ptr s))
          else and_then (block_sender caller dest m_ptr s) (\<lambda>s1. Some (Ret (OK, s1))))"

definition lock_mini_send :: "int \<Rightarrow> int \<Rightarrow> 32 word \<Rightarrow> kernel \<Rightarrow> (int \<times> kernel) outcome option" where
  "lock_mini_send caller dest m_ptr s =
     and_then (mini_send caller dest m_ptr (s\<lparr>switching := True\<rparr>))
       (\<lambda>(n, s1). Some (Ret (n, s1\<lparr>switching := False\<rparr>)))"

section \<open>Signals from the kernel to MM\<close>

text \<open>The first server or user process with the \<^verbatim>\<open>PENDING\<close> flag, in table order.\<close>

definition find_pending :: "kernel \<Rightarrow> int option" where
  "find_pending s =
     List.find (\<lambda>p. has (p_flags (proc s p)) PENDING) [0 .. NR_PROCS - 1]"

definition inform :: "kernel \<Rightarrow> kernel outcome option" where
  "inform s =
     (case find_pending s of
        None \<Rightarrow> Some (Ret s)
      | Some rp \<Rightarrow>
          let sig_map = p_pending (proc s rp);
              s1 = s\<lparr>kmem := (kmem s)(m_addr s := (kmem s (m_addr s))
                       \<lparr>m_type := KSIG, m_body := [rp, uint sig_map]\<rparr>),
                     sig_procs := sig_procs s - 1\<rparr>
          in and_then (lock_mini_send HARDWARE MM_PROC_NR (m_addr s) s1)
              (\<lambda>(n, s2).
                if n \<noteq> OK then Some (Panic ''can't inform MM'')
                else
                  let s3 = upd_proc rp (\<lambda>r. r\<lparr>p_pending := 0, p_flags := p_flags r AND NOT PENDING\<rparr>) s2;
                      s4 = (if sigismember sig_map SIGSTKFLT \<and> p_pendcount (proc s3 rp) \<noteq> 0
                            then let s5 = upd_proc rp (p_pendcount_update (\<lambda>c. c - 1)) s3 in
                                 if p_pendcount (proc s5 rp) = 0
                                 then let s6 = upd_proc rp (p_flags_update (\<lambda>f. f AND NOT SIG_PENDING)) s5
                                      in if p_flags (proc s6 rp) = 0 then lock_ready rp s6 else s6
                                 else s5
                            else s3)
                  in Some (Ret (lock_pick_proc s4))))"

definition cause_sig :: "int \<Rightarrow> int \<Rightarrow> kernel \<Rightarrow> kernel outcome option" where
  "cause_sig proc_nr sig_nr s =
     (if sigismember (p_pending (proc s proc_nr)) sig_nr then Some (Ret s)
      else
        let s1 = upd_proc proc_nr (\<lambda>r. r\<lparr>p_pending := sigaddset sig_nr (p_pending r),
                                          p_pendcount := p_pendcount r + 1\<rparr>) s
        in if has (p_flags (proc s1 proc_nr)) PENDING then Some (Ret s1)
           else and_then (if p_flags (proc s1 proc_nr) = 0 then lock_unready proc_nr s1
                          else Some (Ret s1))
             (\<lambda>s2.
               let s3 = (upd_proc proc_nr (p_flags_update (\<lambda>f. f OR PENDING OR SIG_PENDING)) s2)
                          \<lparr>sig_procs := sig_procs s2 + 1\<rparr>
               in if \<not> has (p_flags (proc s3 MM_PROC_NR)) RECEIVING \<or> p_getfrom (proc s3 MM_PROC_NR) \<noteq> ANY
                  then Some (Ret s3)
                  else inform s3))"

section \<open>Receiving, system calls and interrupts\<close>

text \<open>The scan of the caller queue by \<^verbatim>\<open>mini_rec\<close>, with its \<^verbatim>\<open>previous_ptr\<close>.\<close>

partial_function (option) find_sender ::
  "kernel \<Rightarrow> int \<Rightarrow> int option \<Rightarrow> int option \<Rightarrow> (int option \<times> int) option option" where
  "find_sender s src previous_ptr sender_ptr =
     (case sender_ptr of
        None \<Rightarrow> Some None
      | Some x \<Rightarrow> if src = ANY \<or> src = x then Some (Some (previous_ptr, x))
                  else find_sender s src sender_ptr (p_sendlink (proc s x)))"

text \<open>Taking the message of a queued sender.\<close>

definition accept_from :: "int \<Rightarrow> int option \<Rightarrow> int \<Rightarrow> 32 word \<Rightarrow> kernel \<Rightarrow> kernel" where
  "accept_from caller previous_ptr sender m_ptr s =
     (let s1 = cp_mess sender sender (p_messbuf (proc s sender)) caller m_ptr s;
          s2 = (if Some sender = p_callerq (proc s1 caller)
                then upd_proc caller (p_callerq_update (\<lambda>_. p_sendlink (proc s1 sender))) s1
                else upd_proc (the previous_ptr) (p_sendlink_update (\<lambda>_. p_sendlink (proc s1 sender))) s1);
          s3 = upd_proc sender (p_flags_update (\<lambda>f. f AND NOT SENDING)) s2
      in if p_flags (proc s3 sender) = 0 then ready sender s3 else s3)"

definition hard_int_message :: "32 word \<Rightarrow> kernel \<Rightarrow> kernel" where
  "hard_int_message a s =
     s\<lparr>kmem := (kmem s)(a := (kmem s a)\<lparr>m_source := HARDWARE, m_type := HARD_INT\<rparr>)\<rparr>"

definition block_receiver :: "int \<Rightarrow> int \<Rightarrow> 32 word \<Rightarrow> kernel \<Rightarrow> (int \<times> kernel) outcome option" where
  "block_receiver caller src m_ptr s =
     (let s1 = upd_proc caller (\<lambda>r. r\<lparr>p_getfrom := src, p_messbuf := m_ptr\<rparr>) s in
      and_then (if p_flags (proc s1 caller) = 0 then unready caller s1 else Some (Ret s1))
        (\<lambda>s2. let s3 = upd_proc caller (p_flags_update (\<lambda>f. f OR RECEIVING)) s2 in
          if sig_procs s3 > 0 \<and> caller = MM_PROC_NR \<and> src = ANY
          then and_then (inform s3) (\<lambda>s4. Some (Ret (OK, s4)))
          else Some (Ret (OK, s3))))"

definition mini_rec :: "int \<Rightarrow> int \<Rightarrow> 32 word \<Rightarrow> kernel \<Rightarrow> (int \<times> kernel) outcome option" where
  "mini_rec caller src m_ptr s =
     (if \<not> has (p_flags (proc s caller)) SENDING then
        (case find_sender s src None (p_callerq (proc s caller)) of
           None \<Rightarrow> None
         | Some (Some (prev, sender)) \<Rightarrow> Some (Ret (OK, accept_from caller prev sender m_ptr s))
         | Some None \<Rightarrow>
             if p_int_blocked (proc s caller) \<and> isrxhardware src
             then Some (Ret (OK, upd_proc caller (p_int_blocked_update (\<lambda>_. False)) (hard_int_message m_ptr s)))
             else block_receiver caller src m_ptr s)
      else block_receiver caller src m_ptr s)"

definition sys_call :: "int \<Rightarrow> int \<Rightarrow> 32 word \<Rightarrow> kernel \<Rightarrow> (int \<times> kernel) outcome option" where
  "sys_call func src_dest m_ptr s =
     (if \<not> isoksrc_dest src_dest then Some (Ret (E_BAD_SRC, s))
      else let rp = proc_ptr s in
        if isuserp rp \<and> func \<noteq> BOTH then Some (Ret (E_NO_PERM, s))
        else if odd func then
          and_then (mini_send rp src_dest m_ptr s)
            (\<lambda>(n, s1). if func = SEND \<or> n \<noteq> OK then Some (Ret (n, s1))
                       else mini_rec rp src_dest m_ptr s1)
        else mini_rec rp src_dest m_ptr s)"

definition hold_interrupt :: "int \<Rightarrow> kernel \<Rightarrow> kernel" where
  "hold_interrupt rp s =
     (if p_int_held (proc s rp) then s
      else
        let s1 = upd_proc rp (p_int_held_update (\<lambda>_. True)) s;
            s2 = (case held_head s1 of
                    Some _ \<Rightarrow> upd_proc (the (held_tail s1)) (p_nextheld_update (\<lambda>_. Some rp)) s1
                  | None \<Rightarrow> s1\<lparr>held_head := Some rp\<rparr>)
        in upd_proc rp (p_nextheld_update (\<lambda>_. None)) (s2\<lparr>held_tail := Some rp\<rparr>))"

definition interrupt :: "int \<Rightarrow> kernel \<Rightarrow> kernel" where
  "interrupt rp s =
     (if k_reenter s \<noteq> 0 \<or> switching s then hold_interrupt rp s
      else if p_flags (proc s rp) AND (RECEIVING OR SENDING) \<noteq> RECEIVING \<or>
              \<not> isrxhardware (p_getfrom (proc s rp))
      then upd_proc rp (p_int_blocked_update (\<lambda>_. True)) s
      else
        let s1 = hard_int_message (p_messbuf (proc s rp)) s;
            s2 = upd_proc rp (\<lambda>r. r\<lparr>p_flags := p_flags r AND NOT RECEIVING, p_int_blocked := False\<rparr>) s1;
            s3 = (case rdy_head s2 TASK_Q of
                    Some _ \<Rightarrow> upd_proc (the (rdy_tail s2 TASK_Q)) (p_nextready_update (\<lambda>_. Some rp)) s2
                  | None \<Rightarrow> (set_rdy_head TASK_Q (Some rp) s2)\<lparr>proc_ptr := rp\<rparr>)
        in upd_proc rp (p_nextready_update (\<lambda>_. None)) (set_rdy_tail TASK_Q (Some rp) s3))"

partial_function (option) unhold_loop :: "int \<Rightarrow> kernel \<Rightarrow> kernel option" where
  "unhold_loop rp s =
     (let s1 = s\<lparr>held_head := p_nextheld (proc s rp)\<rparr>;
          s2 = (if held_head s1 = None then s1\<lparr>held_tail := None\<rparr> else s1);
          s3 = interrupt rp (upd_proc rp (p_int_held_update (\<lambda>_. False)) s2)
      in if held_head s3 \<noteq> None then unhold_loop (the (held_head s3)) s3 else Some s3)"

text \<open>\<^verbatim>\<open>held_head\<close> must not be NIL when \<^verbatim>\<open>unhold\<close> is called.\<close>

definition unhold :: "kernel \<Rightarrow> kernel option" where
  "unhold s = (if switching s then Some s else unhold_loop (the (held_head s)) s)"

end
