(* ===== verification/Kernel_Sched.thy ===== *)
theory Kernel_Sched
  imports Kernel_Proc
begin

unbundle bit_operations_syntax

text \<open>
  The ready queues of \<^verbatim>\<open>proc.c\<close>. \<open>ready_rel s Q\<close> relates the pointers \<^verbatim>\<open>rdy_head\<close>,
  \<^verbatim>\<open>rdy_tail\<close> and \<^verbatim>\<open>p_nextready\<close> to one list of processes per queue. \<^verbatim>\<open>ready\<close>, \<^verbatim>\<open>unready\<close>
  and \<^verbatim>\<open>sched\<close> are shown to be insertion, removal and rotation on these lists, and to leave
  everything else alone. The locale \<open>run_queue\<close> is the contract the message primitives use.
\<close>

section \<open>Reading updated states\<close>

lemma upd_proc_sel [simp]:
  "proc (upd_proc p f s) = (proc s)(p := f (proc s p))"
  "proc_ptr (upd_proc p f s) = proc_ptr s" "bill_ptr (upd_proc p f s) = bill_ptr s"
  "rdy_head (upd_proc p f s) = rdy_head s" "rdy_tail (upd_proc p f s) = rdy_tail s"
  "held_head (upd_proc p f s) = held_head s" "held_tail (upd_proc p f s) = held_tail s"
  "k_reenter (upd_proc p f s) = k_reenter s" "switching (upd_proc p f s) = switching s"
  "sig_procs (upd_proc p f s) = sig_procs s" "kmem (upd_proc p f s) = kmem s"
  "mess_size (upd_proc p f s) = mess_size s" "m_addr (upd_proc p f s) = m_addr s"
  by (simp_all add: upd_proc_def)

lemma set_rdy_sel [simp]:
  "rdy_head (set_rdy_head q v s) = (rdy_head s)(q := v)" "rdy_tail (set_rdy_head q v s) = rdy_tail s"
  "rdy_head (set_rdy_tail q v s) = rdy_head s" "rdy_tail (set_rdy_tail q v s) = (rdy_tail s)(q := v)"
  "proc (set_rdy_head q v s) = proc s" "proc (set_rdy_tail q v s) = proc s"
  "proc_ptr (set_rdy_head q v s) = proc_ptr s" "proc_ptr (set_rdy_tail q v s) = proc_ptr s"
  by (simp_all add: set_rdy_head_def set_rdy_tail_def)

lemma pick_proc_sel [simp]:
  "proc (pick_proc s) = proc s" "rdy_head (pick_proc s) = rdy_head s" "rdy_tail (pick_proc s) = rdy_tail s"
  by (auto simp: pick_proc_def split: option.split)

section \<open>The lists behind the pointers\<close>

definition nextr :: "kernel \<Rightarrow> int \<Rightarrow> int option" where
  "nextr s p = p_nextready (proc s p)"

definition ready_rel :: "kernel \<Rightarrow> (nat \<Rightarrow> int list) \<Rightarrow> bool" where
  "ready_rel s Q \<longleftrightarrow>
     (\<forall>q. chain (nextr s) (rdy_head s q) (Q q) \<and> (Q q \<noteq> [] \<longrightarrow> rdy_tail s q = Some (last (Q q)))) \<and>
     (\<forall>q q' x. x \<in> set (Q q) \<longrightarrow> x \<in> set (Q q') \<longrightarrow> q = q')"

text \<open>What the scheduling operations leave alone.\<close>

definition but_next :: "proc \<Rightarrow> proc \<Rightarrow> bool" where
  "but_next r r' \<longleftrightarrow> (\<exists>v. r' = r\<lparr>p_nextready := v\<rparr>)"

definition sched_frame :: "kernel \<Rightarrow> kernel \<Rightarrow> bool" where
  "sched_frame s s' \<longleftrightarrow>
     (\<forall>p. but_next (proc s p) (proc s' p)) \<and>
     kmem s' = kmem s \<and> held_head s' = held_head s \<and> held_tail s' = held_tail s \<and>
     k_reenter s' = k_reenter s \<and> switching s' = switching s \<and> sig_procs s' = sig_procs s \<and>
     mess_size s' = mess_size s \<and> m_addr s' = m_addr s"

definition insert_ready :: "kernel \<Rightarrow> int \<Rightarrow> (nat \<Rightarrow> int list) \<Rightarrow> nat \<Rightarrow> int list" where
  "insert_ready s p Q =
     (let q = queue_of s p in Q(q := (if q = USER_Q then p # Q q else Q q @ [p])))"

definition remove_ready :: "kernel \<Rightarrow> int \<Rightarrow> (nat \<Rightarrow> int list) \<Rightarrow> nat \<Rightarrow> int list" where
  "remove_ready s p Q = (let q = queue_of s p in Q(q := remove1 p (Q q)))"

definition in_queue :: "(nat \<Rightarrow> int list) \<Rightarrow> int \<Rightarrow> bool" where
  "in_queue Q p \<longleftrightarrow> (\<exists>q. p \<in> set (Q q))"

lemma nextr_simps [simp]:
  "nextr (upd_proc p (p_nextready_update (\<lambda>_. v)) s) = (nextr s)(p := v)"
  "nextr (set_rdy_head q w s) = nextr s" "nextr (set_rdy_tail q w s) = nextr s"
  "nextr (pick_proc s) = nextr s" "nextr (s\<lparr>proc_ptr := x\<rparr>) = nextr s"
  "nextr (s\<lparr>switching := b\<rparr>) = nextr s" "nextr (s\<lparr>bill_ptr := x\<rparr>) = nextr s"
  by (auto simp: nextr_def)

lemma nextr_fold: "p_nextready (proc s p) = nextr s p"
  by (simp add: nextr_def)

lemma ready_relD:
  assumes "ready_rel s Q"
  shows "chain (nextr s) (rdy_head s q) (Q q)" "Q q \<noteq> [] \<Longrightarrow> rdy_tail s q = Some (last (Q q))"
    "distinct (Q q)" "x \<in> set (Q q) \<Longrightarrow> x \<in> set (Q q') \<Longrightarrow> q = q'"
  using assms by (auto simp: ready_rel_def intro: chain_distinct)

lemma ready_rel_head: "ready_rel s Q \<Longrightarrow> rdy_head s q = (if Q q = [] then None else Some (hd (Q q)))"
  using ready_relD(1) [of s Q q] by (cases "Q q") auto

lemma but_next_refl [simp]: "but_next r r"
  by (cases r) (simp add: but_next_def)

lemma but_next_trans: "but_next r r1 \<Longrightarrow> but_next r1 r2 \<Longrightarrow> but_next r r2"
  by (auto simp: but_next_def)

lemma but_next_upd [simp]: "but_next r (r'\<lparr>p_nextready := v\<rparr>) \<longleftrightarrow> but_next r r'"
  by (cases r; cases r') (simp add: but_next_def)

lemma sched_frame_refl [simp]: "sched_frame s s"
  by (simp add: sched_frame_def)

lemma sched_frame_trans: "sched_frame s s1 \<Longrightarrow> sched_frame s1 s2 \<Longrightarrow> sched_frame s s2"
  unfolding sched_frame_def by (simp, blast intro: but_next_trans)

lemma sched_frame_next: "sched_frame s (upd_proc p (p_nextready_update (\<lambda>_. v)) s') \<longleftrightarrow> sched_frame s s'"
  by (auto simp: sched_frame_def upd_proc_def)

lemma sched_frame_simps [simp]:
  "sched_frame s (set_rdy_head q w s') = sched_frame s s'"
  "sched_frame s (set_rdy_tail q w s') = sched_frame s s'"
  "sched_frame s (s'\<lparr>proc_ptr := x\<rparr>) = sched_frame s s'"
  "sched_frame s (s'\<lparr>bill_ptr := x\<rparr>) = sched_frame s s'"
  by (auto simp: sched_frame_def set_rdy_head_def set_rdy_tail_def)

lemma sched_frame_pick [simp]: "sched_frame s (pick_proc s') = sched_frame s s'"
  by (auto simp: pick_proc_def split: option.split)

text \<open>Reading the fields a frame leaves alone.\<close>

lemma sched_frame_sel:
  assumes "sched_frame s s'"
  shows "p_flags (proc s' p) = p_flags (proc s p)" "p_shadow (proc s' p) = p_shadow (proc s p)"
    "p_callerq (proc s' p) = p_callerq (proc s p)" "p_sendlink (proc s' p) = p_sendlink (proc s p)"
    "p_sendto (proc s' p) = p_sendto (proc s p)" "p_getfrom (proc s' p) = p_getfrom (proc s p)"
    "p_messbuf (proc s' p) = p_messbuf (proc s p)" "p_stguard_ok (proc s' p) = p_stguard_ok (proc s p)"
    "p_pending (proc s' p) = p_pending (proc s p)" "p_pendcount (proc s' p) = p_pendcount (proc s p)"
    "map_D (proc s' p) = map_D (proc s p)" "map_S (proc s' p) = map_S (proc s p)"
    "p_int_blocked (proc s' p) = p_int_blocked (proc s p)" "p_int_held (proc s' p) = p_int_held (proc s p)"
    "p_nextheld (proc s' p) = p_nextheld (proc s p)"
    "kmem s' = kmem s" "sig_procs s' = sig_procs s" "switching s' = switching s" "k_reenter s' = k_reenter s"
    "held_head s' = held_head s" "held_tail s' = held_tail s" "mess_size s' = mess_size s" "m_addr s' = m_addr s"
proof -
  from assms obtain v where "proc s' p = (proc s p)\<lparr>p_nextready := v\<rparr>" by (auto simp: sched_frame_def but_next_def)
  then show "p_flags (proc s' p) = p_flags (proc s p)" "p_shadow (proc s' p) = p_shadow (proc s p)"
    "p_callerq (proc s' p) = p_callerq (proc s p)" "p_sendlink (proc s' p) = p_sendlink (proc s p)"
    "p_sendto (proc s' p) = p_sendto (proc s p)" "p_getfrom (proc s' p) = p_getfrom (proc s p)"
    "p_messbuf (proc s' p) = p_messbuf (proc s p)" "p_stguard_ok (proc s' p) = p_stguard_ok (proc s p)"
    "p_pending (proc s' p) = p_pending (proc s p)" "p_pendcount (proc s' p) = p_pendcount (proc s p)"
    "map_D (proc s' p) = map_D (proc s p)" "map_S (proc s' p) = map_S (proc s p)"
    "p_int_blocked (proc s' p) = p_int_blocked (proc s p)" "p_int_held (proc s' p) = p_int_held (proc s p)"
    "p_nextheld (proc s' p) = p_nextheld (proc s p)" by simp_all
qed (use assms in \<open>simp_all add: sched_frame_def\<close>)

section \<open>Insertion\<close>

lemma enqueue_tail_rel:
  assumes rel: "ready_rel s Q" and new: "\<not> in_queue Q rp"
  shows "ready_rel (enqueue_tail q rp s) (Q(q := Q q @ [rp]))"
proof -
  note D = ready_relD [OF rel]
  have notin: "rp \<notin> set (Q k)" for k using new by (auto simp: in_queue_def)
  show ?thesis
  proof (cases "Q q = []")
    case True
    then have "rdy_head s q = None" using ready_rel_head [OF rel] by simp
    then show ?thesis using True notin D(1,2) D(4)
      by (auto simp: ready_rel_def enqueue_tail_def Let_def)
  next
    case False
    then obtain us t where Qq: "Q q = us @ [t]" by (metis rev_exhaust)
    have hd: "rdy_head s q \<noteq> None" using False ready_rel_head [OF rel] by simp
    have tl: "rdy_tail s q = Some t" using D(2) [OF False] Qq by simp
    have t: "t \<notin> set (Q k)" if "k \<noteq> q" for k using D(4) [of t k q] Qq that by auto
    have us: "x \<notin> set (Q k)" if "k \<noteq> q" "x \<in> set us" for x k using D(4) [of x k q] Qq that by auto
    have "chain ((nextr s)(t := Some rp, rp := None)) (rdy_head s q) (us @ [t, rp])"
      using chain_snoc [of "nextr s" "rdy_head s q" us t rp] D(1) [of q] Qq notin [of q] by simp
    then show ?thesis using hd tl t us notin D(1,2) D(4) Qq
      by (auto simp: ready_rel_def enqueue_tail_def Let_def)
  qed
qed

lemma enqueue_tail_frame [simp]: "sched_frame s (enqueue_tail q rp s') = sched_frame s s'"
  by (auto simp: enqueue_tail_def Let_def sched_frame_next split: option.split)

lemma ready_rel_proc_ptr [simp]:
  "ready_rel (s\<lparr>proc_ptr := x\<rparr>) Q = ready_rel s Q" "ready_rel (s\<lparr>bill_ptr := x\<rparr>) Q = ready_rel s Q"
  "ready_rel (s\<lparr>switching := b\<rparr>) Q = ready_rel s Q" "ready_rel (pick_proc s) Q = ready_rel s Q"
  by (simp_all add: ready_rel_def)

lemma push_user_rel:
  assumes rel: "ready_rel s Q" and new: "\<not> in_queue Q rp"
    and s1: "s1 = (if rdy_head s q = None then set_rdy_tail q (Some rp) s else s)"
  shows "ready_rel (set_rdy_head q (Some rp) (upd_proc rp (p_nextready_update (\<lambda>_. rdy_head s1 q)) s1))
           (Q(q := rp # Q q))"
proof -
  note D = ready_relD [OF rel]
  have notin: "rp \<notin> set (Q k)" for k using new by (auto simp: in_queue_def)
  have "Q q \<noteq> [] \<longleftrightarrow> rdy_head s q \<noteq> None" using ready_rel_head [OF rel, of q] by simp
  then show ?thesis using notin D(1,2) D(4) s1 by (auto simp: ready_rel_def)
qed

lemma ready_ready_rel:
  assumes "ready_rel s Q" and "\<not> in_queue Q rp"
  shows "ready_rel (ready rp s) (insert_ready s rp Q)"
  using assms push_user_rel [OF assms refl, of USER_Q]
  by (auto simp: ready_def insert_ready_def queue_of_def Let_def intro!: enqueue_tail_rel)

lemma ready_frame: "sched_frame s (ready rp s)"
  by (auto simp: ready_def Let_def sched_frame_next)

section \<open>Removal\<close>

lemma unready_search_found:
  "chain (nextr s) xp (us @ x # rp # vs) \<Longrightarrow> unready_search s rp xp = Some (Some x)"
proof (induction us arbitrary: xp)
  case Nil
  then show ?case by (simp add: unready_search.simps nextr_fold)
next
  case (Cons u us)
  then have "chain (nextr s) (nextr s u) (us @ x # rp # vs)" "xp = Some u" by auto
  moreover have "nextr s u \<noteq> Some rp"
    using chain_distinct [OF Cons.prems] \<open>chain (nextr s) (nextr s u) _\<close> by (cases us) auto
  ultimately show ?case using Cons.IH by (simp add: unready_search.simps [of s rp "Some u"] nextr_fold)
qed

lemma unready_search_absent:
  "chain (nextr s) xp xs \<Longrightarrow> rp \<notin> set (tl xs) \<Longrightarrow> unready_search s rp xp = Some None"
proof (induction xs arbitrary: xp)
  case Nil
  then show ?case by (simp add: unready_search.simps)
next
  case (Cons x xs)
  then have ch: "chain (nextr s) (nextr s x) xs" "xp = Some x" and ne: "rp \<notin> set xs" by auto
  then have "nextr s x \<noteq> Some rp" by (cases xs) auto
  moreover have "rp \<notin> set (tl xs)" using ne by (cases xs) auto
  ultimately show ?case using Cons.IH [OF ch(1)] ch(2)
    by (simp add: unready_search.simps [of s rp "Some x"] nextr_fold)
qed

lemma unready_absent:
  assumes rel: "ready_rel s Q" and g: "istaskp rp \<longrightarrow> p_stguard_ok (proc s rp)"
    and notin: "rp \<notin> set (Q (queue_of s rp))"
  shows "unready rp s = Some (Ret s)"
proof -
  have "rp \<notin> set (tl (Q (queue_of s rp)))" using notin by (cases "Q (queue_of s rp)") auto
  from unready_search_absent [OF ready_relD(1) [OF rel] this]
  show ?thesis using g notin ready_rel_head [OF rel, of "queue_of s rp"]
    by (cases "Q (queue_of s rp)") (auto simp: unready_def Let_def)
qed

lemma unready_rel:
  assumes rel: "ready_rel s Q" and g: "istaskp rp \<longrightarrow> p_stguard_ok (proc s rp)"
    and mem: "rp \<in> set (Q (queue_of s rp))"
  shows "\<exists>s'. unready rp s = Some (Ret s') \<and> ready_rel s' (remove_ready s rp Q) \<and> sched_frame s s' \<and>
     (if rp = proc_ptr s \<and> rdy_head s (queue_of s rp) = Some rp
      then proc_ptr s' = proc_ptr (pick_proc s') else proc_ptr s' = proc_ptr s)"
proof -
  define q where "q = queue_of s rp"
  note D = ready_relD [OF rel]
  from mem obtain us vs where Qq: "Q q = us @ rp # vs"
    by (auto simp: q_def in_set_conv_decomp)
  have dist: "distinct (us @ rp # vs)" using D(3) [of q] Qq by simp
  have rem: "remove1 rp (Q q) = us @ vs" using dist Qq by (simp add: remove1_append)
  have other: "rp \<notin> set (Q k)" if "k \<noteq> q" for k using D(4) [of rp k q] Qq that by auto
  show ?thesis
  proof (cases us rule: rev_cases)
    case Nil
    define s1 where "s1 = set_rdy_head q (nextr s rp) s"
    have head: "rdy_head s q = Some rp" using ready_rel_head [OF rel, of q] Qq Nil by simp
    have "chain (nextr s) (nextr s rp) vs" using D(1) [of q] Qq Nil by simp
    have "ready_rel s1 (Q(q := vs))"
      unfolding ready_rel_def
    proof (intro conjI allI impI)
      fix k
      show "chain (nextr s1) (rdy_head s1 k) ((Q(q := vs)) k)"
        using \<open>chain (nextr s) (nextr s rp) vs\<close> D(1) [of k] by (auto simp: s1_def)
      show "(Q(q := vs)) k \<noteq> [] \<Longrightarrow> rdy_tail s1 k = Some (last ((Q(q := vs)) k))"
        using D(2) [of k] Qq Nil by (auto simp: s1_def)
      fix k' y
      show "y \<in> set ((Q(q := vs)) k) \<Longrightarrow> y \<in> set ((Q(q := vs)) k') \<Longrightarrow> k = k'"
        using D(4) [of y k k'] Qq Nil by (auto split: if_splits)
    qed
    moreover have "unready rp s = Some (Ret (if rp = proc_ptr s then pick_proc s1 else s1))"
      using g head by (simp add: unready_def s1_def nextr_fold flip: q_def)
    moreover have "pick_proc (pick_proc s1) = pick_proc s1"
      by (auto simp: pick_proc_def split: option.splits)
    ultimately show ?thesis using rem Nil head
      by (auto simp: remove_ready_def s1_def simp flip: q_def)
  next
    case (snoc us' x)
    have "chain (nextr s) (rdy_head s q) (us' @ x # rp # vs)" using D(1) [of q] Qq snoc by simp
    note srch = unready_search_found [OF this] and unl = chain_unlink [OF this]
    obtain h where h: "rdy_head s q = Some h" "h \<noteq> rp"
      using ready_rel_head [OF rel, of q] Qq snoc dist by (cases us') auto
    define s1 where "s1 = upd_proc x (p_nextready_update (\<lambda>_. nextr s rp)) s"
    define s2 where "s2 = (if rdy_tail s1 q = Some rp then set_rdy_tail q (Some x) s1 else s1)"
    have nx: "nextr s x = Some rp" using chain_next [of "nextr s" "rdy_head s q" us' x "rp # vs"] D(1) [of q] Qq snoc by simp
    have un: "unready rp s = Some (Ret s2)"
      using g h srch nx by (simp add: unready_def nextr_fold s1_def s2_def flip: q_def)
    have tail: "rdy_tail s q = Some (last (us @ rp # vs))" using D(2) [of q] Qq by simp
    have x: "x \<notin> set (Q k)" if "k \<noteq> q" for k using D(4) [of x k q] Qq that snoc by auto
    have last2: "rdy_tail s2 q = Some (last (us @ vs))"
      using tail dist snoc by (cases vs rule: rev_cases) (auto simp: s2_def s1_def)
    have "ready_rel s2 (Q(q := us @ vs))"
      unfolding ready_rel_def
    proof (intro conjI allI impI)
      fix k
      show "chain (nextr s2) (rdy_head s2 k) ((Q(q := us @ vs)) k)"
        using unl snoc D(1) [of k] x by (auto simp: s2_def s1_def)
      show "(Q(q := us @ vs)) k \<noteq> [] \<Longrightarrow> rdy_tail s2 k = Some (last ((Q(q := us @ vs)) k))"
        using last2 D(2) [of k] by (auto simp: s2_def s1_def)
      fix k' y
      show "y \<in> set ((Q(q := us @ vs)) k) \<Longrightarrow> y \<in> set ((Q(q := us @ vs)) k') \<Longrightarrow> k = k'"
        using D(4) [of y k k'] Qq by (auto split: if_splits)
    qed
    moreover have "sched_frame s s2" by (simp add: s2_def s1_def sched_frame_next)
    moreover have "proc_ptr s2 = proc_ptr s" by (simp add: s2_def s1_def)
    ultimately show ?thesis using un rem h by (auto simp: remove_ready_def simp flip: q_def)
  qed
qed

section \<open>Rotation and selection\<close>

lemma sched_rel:
  assumes rel: "ready_rel s Q"
  shows "ready_rel (sched s) (Q(USER_Q := rotate1 (Q USER_Q)))"
proof (cases "Q USER_Q")
  case Nil
  then have "rdy_head s USER_Q = None" using ready_rel_head [OF rel] by simp
  then show ?thesis using rel Nil by (simp add: sched_def fun_upd_idem)
next
  case (Cons h us)
  note D = ready_relD [OF rel]
  have head: "rdy_head s USER_Q = Some h" using ready_rel_head [OF rel] Cons by simp
  have other: "x \<notin> set (Q k)" if "k \<noteq> USER_Q" "x \<in> set (Q USER_Q)" for k x using D(4) [of x k USER_Q] that by auto
  show ?thesis
  proof (cases us rule: rev_cases)
    case Nil
    then have "rdy_tail s USER_Q = Some h" using D(2) [of USER_Q] Cons by simp
    then show ?thesis using head D(1,2,4) Cons Nil other
      by (auto simp: sched_def ready_rel_def nextr_fold Let_def)
  next
    case (snoc vs t)
    then have tl: "rdy_tail s USER_Q = Some t" using D(2) [of USER_Q] Cons by simp
    have dist: "distinct (h # vs @ [t])" using D(3) [of USER_Q] Cons snoc by simp
    have "chain (nextr s) (nextr s h) (vs @ [t])" using D(1) [of USER_Q] Cons snoc by simp
    from chain_snoc [OF this, of h] dist
    have ch: "chain ((nextr s)(t := Some h, h := None)) (nextr s h) (vs @ [t, h])" by simp
    have "t \<noteq> h" using dist by auto
    then show ?thesis using head tl ch D(1,2) D(4) Cons snoc other
      by (auto simp: sched_def ready_rel_def nextr_fold Let_def)
  qed
qed

lemma sched_sched_frame: "sched_frame s (sched s)"
  by (auto simp: sched_def Let_def sched_frame_next split: option.split)

lemma pick_proc_idem [simp]: "pick_proc (pick_proc s) = pick_proc s"
  by (auto simp: pick_proc_def split: option.splits)

section \<open>The contract of the ready queues\<close>

text \<open>
  What the message primitives rely on: a process enters and leaves the queue its kind selects,
  everything outside the queues is left alone. \<open>holds s R\<close> says that the queues hold exactly the
  processes of \<open>R\<close>, each in its own queue.
\<close>

locale run_queue =
  fixes rel :: "'s \<Rightarrow> (nat \<Rightarrow> 'p list) \<Rightarrow> bool"
    and queue :: "'s \<Rightarrow> 'p \<Rightarrow> nat"
    and place :: "nat \<Rightarrow> 'p \<Rightarrow> 'p list \<Rightarrow> 'p list"
    and enter :: "'p \<Rightarrow> 's \<Rightarrow> 's"
    and leave :: "'p \<Rightarrow> 's \<Rightarrow> 's outcome option"
    and healthy :: "'s \<Rightarrow> 'p \<Rightarrow> bool"
    and frame :: "'s \<Rightarrow> 's \<Rightarrow> bool"
  assumes enter_rel: "rel s Q \<Longrightarrow> (\<And>q. p \<notin> set (Q q)) \<Longrightarrow>
        rel (enter p s) (Q(queue s p := place (queue s p) p (Q (queue s p))))"
    and enter_frame: "frame s (enter p s)"
    and leave_rel: "rel s Q \<Longrightarrow> healthy s p \<Longrightarrow> p \<in> set (Q (queue s p)) \<Longrightarrow>
        \<exists>s'. leave p s = Some (Ret s') \<and> rel s' (Q(queue s p := remove1 p (Q (queue s p)))) \<and> frame s s'"
    and rel_distinct: "rel s Q \<Longrightarrow> distinct (Q q)"
    and place_set: "set (place q p xs) = insert p (set xs)"
    and place_remove: "p \<notin> set xs \<Longrightarrow> remove1 p (place q p xs) = xs"
    and frame_trans: "frame s s1 \<Longrightarrow> frame s1 s2 \<Longrightarrow> frame s s2"
    and frame_queue: "frame s s' \<Longrightarrow> queue s' p = queue s p"
    and frame_healthy: "frame s s' \<Longrightarrow> healthy s p \<Longrightarrow> healthy s' p"
begin

definition holds :: "'s \<Rightarrow> 'p set \<Rightarrow> bool" where
  "holds s R \<longleftrightarrow> (\<exists>Q. rel s Q \<and> (\<forall>q p. p \<in> set (Q q) \<longleftrightarrow> p \<in> R \<and> queue s p = q))"

lemma enter_holds:
  assumes "holds s R" and "p \<notin> R"
  shows "holds (enter p s) (insert p R)"
proof -
  from assms(1) obtain Q where Q: "rel s Q" "\<And>q p. p \<in> set (Q q) \<longleftrightarrow> p \<in> R \<and> queue s p = q"
    unfolding holds_def by blast
  let ?Q = "Q(queue s p := place (queue s p) p (Q (queue s p)))"
  have "rel (enter p s) ?Q" using enter_rel [OF Q(1)] Q(2) assms(2) by blast
  moreover have "x \<in> set (?Q q) \<longleftrightarrow> x \<in> insert p R \<and> queue (enter p s) x = q" for x q
    using Q(2) [of x q] assms(2) by (auto simp: place_set frame_queue [OF enter_frame])
  ultimately show ?thesis unfolding holds_def by blast
qed

lemma leave_holds:
  assumes "holds s R" and "p \<in> R" and "healthy s p"
  shows "\<exists>s'. leave p s = Some (Ret s') \<and> holds s' (R - {p}) \<and> frame s s'"
proof -
  from assms(1) obtain Q where Q: "rel s Q" "\<And>q p. p \<in> set (Q q) \<longleftrightarrow> p \<in> R \<and> queue s p = q"
    unfolding holds_def by blast
  let ?Q = "Q(queue s p := remove1 p (Q (queue s p)))"
  obtain s' where s': "leave p s = Some (Ret s')" "rel s' ?Q" "frame s s'"
    using leave_rel [OF Q(1) assms(3)] Q(2) assms(2) by auto
  have "x \<in> set (?Q q) \<longleftrightarrow> x \<in> R - {p} \<and> queue s' x = q" for x q
    using Q(2) [of x q] rel_distinct [OF Q(1)] by (auto simp: frame_queue [OF s'(3)])
  with s' show ?thesis unfolding holds_def by blast
qed

lemma enter_leave:
  assumes "rel s Q" and "\<And>q. p \<notin> set (Q q)" and "healthy s p"
  shows "\<exists>s'. leave p (enter p s) = Some (Ret s') \<and> rel s' Q \<and> frame s s'"
proof -
  let ?q = "queue s p"
  let ?Q = "Q(?q := place ?q p (Q ?q))"
  have "queue (enter p s) p = ?q" by (rule frame_queue [OF enter_frame])
  moreover have "p \<in> set (?Q ?q)" by (simp add: place_set)
  ultimately obtain s' where "leave p (enter p s) = Some (Ret s')"
      "rel s' (?Q(?q := remove1 p (?Q ?q)))" "frame (enter p s) s'"
    using leave_rel [OF enter_rel [OF assms(1,2)], of p] frame_healthy [OF enter_frame assms(3), of p] by auto
  moreover have "?Q(?q := remove1 p (?Q ?q)) = Q" using assms(2) by (auto simp: place_remove)
  ultimately show ?thesis using frame_trans [OF enter_frame] by metis
qed

end

definition healthy_task :: "kernel \<Rightarrow> int \<Rightarrow> bool" where
  "healthy_task s p \<longleftrightarrow> (istaskp p \<longrightarrow> p_stguard_ok (proc s p))"

definition place_in :: "nat \<Rightarrow> int \<Rightarrow> int list \<Rightarrow> int list" where
  "place_in q p xs = (if q = USER_Q then p # xs else xs @ [p])"

lemma insert_ready_place: "insert_ready s p Q = Q(queue_of s p := place_in (queue_of s p) p (Q (queue_of s p)))"
  by (simp add: insert_ready_def place_in_def Let_def)

lemma sched_frame_queue: "sched_frame s s' \<Longrightarrow> queue_of s' p = queue_of s p"
  by (simp add: queue_of_def isshadowp_def sched_frame_sel)

interpretation rq: run_queue ready_rel queue_of place_in ready unready healthy_task sched_frame
proof unfold_locales
  fix s Q and p :: int
  assume "ready_rel s Q"
  show "ready_rel (ready p s) (Q(queue_of s p := place_in (queue_of s p) p (Q (queue_of s p))))"
    if "\<And>q. p \<notin> set (Q q)"
    using ready_ready_rel [OF \<open>ready_rel s Q\<close>, of p] that by (simp add: in_queue_def insert_ready_place)
  show "\<exists>s'. unready p s = Some (Ret s') \<and> ready_rel s' (Q(queue_of s p := remove1 p (Q (queue_of s p)))) \<and> sched_frame s s'"
    if "healthy_task s p" "p \<in> set (Q (queue_of s p))"
    using unready_rel [OF \<open>ready_rel s Q\<close>, of p] that by (auto simp: healthy_task_def remove_ready_def Let_def)
  show "distinct (Q q)" for q by (rule ready_relD(3) [OF \<open>ready_rel s Q\<close>])
qed (auto simp: ready_frame place_in_def remove1_append sched_frame_queue healthy_task_def sched_frame_sel
     intro: sched_frame_trans)

section \<open>Properties of the scheduler\<close>

lemma pick_proc_ptr:
  assumes "ready_rel s Q"
  shows "proc_ptr (pick_proc s) = hd (Q TASK_Q @ Q SERVER_Q @ Q USER_Q @ [IDLE])"
  using ready_rel_head [OF assms] by (auto simp: pick_proc_def split: option.splits)

lemma sched_proc_ptr:
  assumes "ready_rel s Q" and "Q USER_Q \<noteq> []"
  shows "proc_ptr (sched s) = hd (Q TASK_Q @ Q SERVER_Q @ rotate1 (Q USER_Q))"
proof -
  have "rdy_head s USER_Q \<noteq> None" using ready_rel_head [OF assms(1)] assms(2) by simp
  then obtain s' where "sched s = pick_proc s'" by (auto simp: sched_def Let_def)
  then have "proc_ptr (sched s) = proc_ptr (pick_proc (sched s))" by simp
  also have "\<dots> = hd (Q TASK_Q @ Q SERVER_Q @ rotate1 (Q USER_Q) @ [IDLE])"
    using pick_proc_ptr [OF sched_rel [OF assms(1)]] by simp
  also have "\<dots> = hd (Q TASK_Q @ Q SERVER_Q @ rotate1 (Q USER_Q))" using assms(2) by (simp add: hd_append)
  finally show ?thesis .
qed

lemma sched_funpow_rel: "ready_rel s Q \<Longrightarrow> ready_rel ((sched ^^ n) s) (Q(USER_Q := rotate n (Q USER_Q)))"
proof (induction n)
  case (Suc n)
  from sched_rel [OF Suc.IH [OF Suc.prems]] show ?case
    by (simp only: funpow.simps o_apply rotate_Suc fun_upd_upd fun_upd_same)
qed simp

text \<open>A state for the witnesses: the clock task, the servers and three user processes.\<close>

definition blank_proc :: proc where
  "blank_proc = \<lparr>p_stguard_ok = True, p_shadow = 0, p_int_blocked = False, p_int_held = False, p_nextheld = None,
     p_flags = 0, map_D = \<lparr>mem_vir = 0, mem_phys = 0, mem_len = 16\<rparr>, map_S = \<lparr>mem_vir = 16, mem_phys = 16, mem_len = 16\<rparr>,
     p_callerq = None, p_sendlink = None, p_messbuf = 0, p_getfrom = 0, p_sendto = 0, p_nextready = None,
     p_pending = 0, p_pendcount = 0\<rparr>"

definition blank_message :: message where
  "blank_message = \<lparr>m_source = 0, m_type = 0, m_body = []\<rparr>"

definition idle_kernel :: kernel where
  "idle_kernel = \<lparr>proc = \<lambda>_. blank_proc, proc_ptr = IDLE, bill_ptr = IDLE, rdy_head = \<lambda>_. None, rdy_tail = \<lambda>_. None,
     held_head = None, held_tail = None, k_reenter = 0, switching = False, sig_procs = 0,
     kmem = \<lambda>_. blank_message, mess_size = 24, m_addr = 256\<rparr>"

definition three_users :: kernel where
  "three_users = ready 5 (ready 4 (ready 3 idle_kernel))"

lemma idle_kernel_rel: "ready_rel idle_kernel (\<lambda>_. [])"
  by (simp add: ready_rel_def idle_kernel_def)

lemma queue_of_user [simp]: "queue_of idle_kernel 3 = USER_Q" "queue_of (ready 3 idle_kernel) 4 = USER_Q"
    "queue_of (ready 4 (ready 3 idle_kernel)) 5 = USER_Q"
  by (simp_all add: sched_frame_queue [OF ready_frame])
     (simp_all add: queue_of_def istaskp_def isuserp_def LOW_USER_def isshadowp_def idle_kernel_def blank_proc_def)

lemma three_users_rel: "ready_rel three_users ((\<lambda>_. [])(USER_Q := [5, 4, 3]))"
proof -
  have "ready_rel (ready 3 idle_kernel) ((\<lambda>_. [])(USER_Q := [3]))"
    using ready_ready_rel [OF idle_kernel_rel, of 3] by (simp add: in_queue_def insert_ready_def)
  then have "ready_rel (ready 4 (ready 3 idle_kernel)) ((\<lambda>_. [])(USER_Q := [4, 3]))"
    using ready_ready_rel [of "ready 3 idle_kernel" _ 4] by (fastforce simp: in_queue_def insert_ready_def split: if_splits)
  then show ?thesis unfolding three_users_def
    using ready_ready_rel [of "ready 4 (ready 3 idle_kernel)" _ 5]
    by (fastforce simp: in_queue_def insert_ready_def split: if_splits)
qed

text \<open>
  (C19) Round robin: a call of \<^verbatim>\<open>sched\<close> moves the first user process to the end of its queue and
  selects the first ready process in the order tasks, servers, users; the other queues and every
  other field of the process table are unchanged, and after as many calls as there are ready
  users the queue is as it was.
\<close>

theorem sched_round_robin:
  assumes "ready_rel s Q" and "Q USER_Q \<noteq> []"
  shows "ready_rel (sched s) (Q(USER_Q := tl (Q USER_Q) @ [hd (Q USER_Q)])) \<and>
         proc_ptr (sched s) = hd (Q TASK_Q @ Q SERVER_Q @ tl (Q USER_Q) @ [hd (Q USER_Q)]) \<and>
         sched_frame s (sched s) \<and>
         ready_rel ((sched ^^ length (Q USER_Q)) s) Q"
proof -
  have "rotate1 (Q USER_Q) = tl (Q USER_Q) @ [hd (Q USER_Q)]" by (simp add: assms(2) rotate1_hd_tl)
  then show ?thesis
    using sched_rel [OF assms(1)] sched_proc_ptr [OF assms] sched_sched_frame
      sched_funpow_rel [OF assms(1), of "length (Q USER_Q)"] by simp
qed

theorem sched_round_robin_witness:
  "ready_rel (sched three_users) ((\<lambda>_. [])(USER_Q := [4, 3, 5])) \<and> proc_ptr (sched three_users) = 4"
  using sched_round_robin [OF three_users_rel] by (simp add: fun_upd_def cong: if_cong)

text \<open>
  (C20) \<^verbatim>\<open>ready\<close> puts a task, a server or a shadow at the end of its queue, but a user process at
  the front of the user queue; \<^verbatim>\<open>unready\<close> then takes it out again, whatever its place, and the
  queues are as before. Neither changes anything but the links of the queues.
\<close>

theorem ready_unready_inverse:
  assumes "ready_rel s Q" and "\<And>q. p \<notin> set (Q q)" and "healthy_task s p"
  shows "ready_rel (ready p s) (Q(queue_of s p := (if queue_of s p = USER_Q then p # Q USER_Q
                                                   else Q (queue_of s p) @ [p]))) \<and>
         sched_frame s (ready p s) \<and>
         (\<exists>s'. unready p (ready p s) = Some (Ret s') \<and> ready_rel s' Q \<and> sched_frame s s')"
  using rq.enter_rel [OF assms(1,2)] rq.enter_leave [OF assms] ready_frame [of s p]
  by (auto simp: place_in_def cong: if_cong)

theorem ready_unready_inverse_witness:
  "\<exists>s'. unready 6 (ready 6 three_users) = Some (Ret s') \<and> ready_rel s' ((\<lambda>_. [])(USER_Q := [5, 4, 3]))"
  using ready_unready_inverse [OF three_users_rel, of 6] by (fastforce simp: healthy_task_def istaskp_def split: if_splits)

end
