(* ===== verification/Kernel_Ipc.thy ===== *)
theory Kernel_Ipc
  imports Kernel_Sched
begin

unbundle bit_operations_syntax

text \<open>
  The message primitives of \<^verbatim>\<open>proc.c\<close>. \<open>kinv\<close> is the invariant of the process table: the ready
  queues hold exactly the runnable processes, the caller queue of a process holds exactly the
  processes blocked on sending to it, nobody waits in a circle, and the running process is ready.
  Every entry point (\<^verbatim>\<open>sys_call\<close>, \<^verbatim>\<open>interrupt\<close>, \<^verbatim>\<open>lock_sched\<close>, \<^verbatim>\<open>cause_sig\<close>) returns and keeps it.
\<close>

section \<open>Flags\<close>

lemma flags_word [simp]:
  "has (w AND NOT RECEIVING) SENDING = has w SENDING" "has (w AND NOT SENDING) RECEIVING = has w RECEIVING"
  "has (w OR RECEIVING) SENDING = has w SENDING" "has (w OR SENDING) RECEIVING = has w RECEIVING"
  "has (w OR SENDING) SENDING" "has (w OR RECEIVING) RECEIVING"
  "\<not> has (w AND NOT SENDING) SENDING" "\<not> has (w AND NOT RECEIVING) RECEIVING"
  "has (w AND NOT RECEIVING) PENDING = has w PENDING" "has (w AND NOT SENDING) PENDING = has w PENDING"
  "has (w OR RECEIVING) PENDING = has w PENDING" "has (w OR SENDING) PENDING = has w PENDING"
  "has (w AND NOT RECEIVING) SIG_PENDING = has w SIG_PENDING" "has (w AND NOT SENDING) SIG_PENDING = has w SIG_PENDING"
  "has (w OR RECEIVING) SIG_PENDING = has w SIG_PENDING" "has (w OR SENDING) SIG_PENDING = has w SIG_PENDING"
  "has (w AND NOT RECEIVING) P_SLOT_FREE = has w P_SLOT_FREE" "has (w AND NOT SENDING) P_SLOT_FREE = has w P_SLOT_FREE"
  "has (w OR RECEIVING) P_SLOT_FREE = has w P_SLOT_FREE" "has (w OR SENDING) P_SLOT_FREE = has w P_SLOT_FREE"
  "\<not> has 0 m"
  by (auto simp: flag_simps bit_and_iff bit_or_iff bit_not_iff) (simp add: has_def)

lemma sig_flags_word [simp]:
  "has (w OR PENDING OR SIG_PENDING) PENDING" "has (w OR PENDING OR SIG_PENDING) SIG_PENDING"
  "has (w OR PENDING OR SIG_PENDING) SENDING = has w SENDING"
  "has (w OR PENDING OR SIG_PENDING) RECEIVING = has w RECEIVING"
  "has (w OR PENDING OR SIG_PENDING) P_SLOT_FREE = has w P_SLOT_FREE"
  "\<not> has (w AND NOT PENDING) PENDING" "has (w AND NOT PENDING) SENDING = has w SENDING"
  "has (w AND NOT PENDING) RECEIVING = has w RECEIVING" "has (w AND NOT PENDING) SIG_PENDING = has w SIG_PENDING"
  "has (w AND NOT PENDING) P_SLOT_FREE = has w P_SLOT_FREE"
  "\<not> has (w AND NOT SIG_PENDING) SIG_PENDING" "has (w AND NOT SIG_PENDING) SENDING = has w SENDING"
  "has (w AND NOT SIG_PENDING) RECEIVING = has w RECEIVING" "has (w AND NOT SIG_PENDING) PENDING = has w PENDING"
  "has (w AND NOT SIG_PENDING) P_SLOT_FREE = has w P_SLOT_FREE"
  by (auto simp: flag_simps bit_and_iff bit_or_iff bit_not_iff)

lemma flags_nonzero: "has w m \<Longrightarrow> w \<noteq> 0"
  by auto

lemma only_receiving: "w AND (RECEIVING OR SENDING) = RECEIVING \<longleftrightarrow> has w RECEIVING \<and> \<not> has w SENDING"
proof
  assume "w AND (RECEIVING OR SENDING) = RECEIVING"
  then have "bit (w AND (RECEIVING OR SENDING)) n = bit RECEIVING n" for n by simp
  from this [of 2] this [of 3] show "has w RECEIVING \<and> \<not> has w SENDING"
    by (simp add: flag_simps bit_and_iff bit_or_iff)
next
  assume "has w RECEIVING \<and> \<not> has w SENDING"
  then show "w AND (RECEIVING OR SENDING) = RECEIVING"
    by (intro bit_eqI) (auto simp: flag_simps bit_and_iff bit_or_iff)
qed

section \<open>The invariant\<close>

definition schedulable :: "int \<Rightarrow> bool" where
  "schedulable p \<longleftrightarrow> isokprocn p \<and> p \<noteq> IDLE \<and> p \<noteq> HARDWARE"

definition runnable :: "kernel \<Rightarrow> int set" where
  "runnable s = {p. schedulable p \<and> p_flags (proc s p) = 0}"

definition sending :: "kernel \<Rightarrow> int \<Rightarrow> bool" where
  "sending s p \<longleftrightarrow> has (p_flags (proc s p)) SENDING"

definition receiving :: "kernel \<Rightarrow> int \<Rightarrow> bool" where
  "receiving s p \<longleftrightarrow> has (p_flags (proc s p)) RECEIVING"

definition pending :: "kernel \<Rightarrow> int \<Rightarrow> bool" where
  "pending s p \<longleftrightarrow> has (p_flags (proc s p)) PENDING"

definition sendto :: "kernel \<Rightarrow> int \<Rightarrow> int" where
  "sendto s p = p_sendto (proc s p)"

definition sends :: "kernel \<Rightarrow> (int \<times> int) set" where
  "sends s = {(p, d). sending s p \<and> sendto s p = d}"

definition slink :: "kernel \<Rightarrow> int \<Rightarrow> int option" where
  "slink s p = p_sendlink (proc s p)"

definition callq :: "kernel \<Rightarrow> int \<Rightarrow> int option" where
  "callq s p = p_callerq (proc s p)"

text \<open>\<open>C d\<close> is the list of processes in the caller queue of \<open>d\<close>.\<close>

definition waiting :: "kernel \<Rightarrow> (int \<Rightarrow> int list) \<Rightarrow> bool" where
  "waiting s C \<longleftrightarrow> (\<forall>d. chain (slink s) (callq s d) (C d) \<and>
     (\<forall>p. p \<in> set (C d) \<longleftrightarrow> sending s p \<and> sendto s p = d))"

text \<open>
  The running process: the first ready task when there is one, otherwise the idle process or the
  first of the servers or of the users.
\<close>

definition cur_ok :: "kernel \<Rightarrow> bool" where
  "cur_ok s \<longleftrightarrow>
     (case rdy_head s TASK_Q of
        Some t \<Rightarrow> proc_ptr s = t
      | None \<Rightarrow> proc_ptr s = IDLE \<or> rdy_head s SERVER_Q = Some (proc_ptr s) \<or> rdy_head s USER_Q = Some (proc_ptr s))"

definition ipc_only :: "32 word \<Rightarrow> bool" where
  "ipc_only w \<longleftrightarrow> (\<forall>n. bit w n \<longrightarrow> bit (SENDING OR RECEIVING) n)"

definition blocked_ok :: "kernel \<Rightarrow> int \<Rightarrow> bool" where
  "blocked_ok s p \<longleftrightarrow>
     (sending s p \<or> receiving s p \<longrightarrow> schedulable p) \<and>
     (sending s p \<longrightarrow> isokprocn (sendto s p) \<and> (isuserp p \<longrightarrow> issysentn (sendto s p))) \<and>
     (sending s p \<and> receiving s p \<longrightarrow> p_getfrom (proc s p) = sendto s p) \<and>
     (pending s p \<longrightarrow> 0 \<le> p \<and> p < NR_PROCS \<and> has (p_flags (proc s p)) SIG_PENDING) \<and>
     (istaskp p \<and> schedulable p \<longrightarrow> p_stguard_ok (proc s p) \<and> ipc_only (p_flags (proc s p)))"

text \<open>
  What the rest of the kernel provides: MM's slot is in use and the kernel's own message lies in
  the segment of the pseudo process \<^verbatim>\<open>HARDWARE\<close>.
\<close>

definition setup_ok :: "kernel \<Rightarrow> bool" where
  "setup_ok s \<longleftrightarrow> \<not> has (p_flags (proc s MM_PROC_NR)) P_SLOT_FREE \<and> \<not> mess_fault s HARDWARE (m_addr s)"

definition core :: "kernel \<Rightarrow> (int \<Rightarrow> int list) \<Rightarrow> bool" where
  "core s C \<longleftrightarrow> waiting s C \<and> acyclic (sends s) \<and> (\<forall>p. blocked_ok s p) \<and> setup_ok s"

definition kinv :: "kernel \<Rightarrow> bool" where
  "kinv s \<longleftrightarrow> rq.holds s (runnable s) \<and> cur_ok s \<and> (\<exists>C. core s C) \<and> sig_procs s = int (card {p. pending s p})"

lemmas field_defs = sending_def receiving_def pending_def sendto_def slink_def callq_def

section \<open>Loops\<close>

lemma sends_rtrancl:
  "(x, c) \<in> (sends s)\<^sup>* \<longleftrightarrow> x = c \<or> sending s x \<and> (sendto s x, c) \<in> (sends s)\<^sup>*"
proof
  assume "(x, c) \<in> (sends s)\<^sup>*"
  then show "x = c \<or> sending s x \<and> (sendto s x, c) \<in> (sends s)\<^sup>*"
    by (cases rule: converse_rtranclE) (auto simp: sends_def)
next
  assume "x = c \<or> sending s x \<and> (sendto s x, c) \<in> (sends s)\<^sup>*"
  then show "(x, c) \<in> (sends s)\<^sup>*"
  proof
    assume "sending s x \<and> (sendto s x, c) \<in> (sends s)\<^sup>*"
    then have "(x, sendto s x) \<in> sends s" "(sendto s x, c) \<in> (sends s)\<^sup>*" by (auto simp: sends_def)
    then show ?thesis by (rule converse_rtrancl_into_rtrancl)
  qed simp
qed

lemma send_chain_rtrancl:
  assumes "wf ((sends s)\<inverse>)"
  shows "send_chain s c x = Some ((x, c) \<in> (sends s)\<^sup>*)"
  using assms
proof (induction x rule: wf_induct_rule)
  case (less x)
  show ?case
  proof (cases "x \<noteq> c \<and> sending s x")
    case True
    then have "(x, sendto s x) \<in> sends s" by (simp add: sends_def)
    then have "send_chain s c (sendto s x) = Some ((sendto s x, c) \<in> (sends s)\<^sup>*)" by (intro less.IH) simp
    moreover have "(x, c) \<in> (sends s)\<^sup>* \<longleftrightarrow> (sendto s x, c) \<in> (sends s)\<^sup>*"
      using True sends_rtrancl [of x c s] by simp
    ultimately show ?thesis using True by (simp only: send_chain.simps [of s c x] field_defs if_False if_True simp_thms)
  next
    case False
    then have "(x, c) \<in> (sends s)\<^sup>* \<longleftrightarrow> x = c" using sends_rtrancl [of x c s] by auto
    then show ?thesis using False
      by (cases "x = c") (simp_all add: send_chain.simps [of s c] sending_def)
  qed
qed

lemma last_sender_last: "chain (slink s) (Some n) xs \<Longrightarrow> last_sender s n = Some (last xs)"
proof (induction xs arbitrary: n)
  case (Cons x xs)
  then show ?case
    by (cases xs) (auto simp: last_sender.simps slink_def)
qed simp

lemma find_sender_none:
  "chain (slink s) p xs \<Longrightarrow> (\<forall>x \<in> set xs. \<not> (src = ANY \<or> src = x)) \<Longrightarrow> find_sender s src prev p = Some None"
proof (induction xs arbitrary: p prev)
  case (Cons x xs)
  then show ?case by (simp add: find_sender.simps [of s src prev "Some x"] slink_def)
qed (simp add: find_sender.simps)

lemma find_sender_some:
  "chain (slink s) p (us @ x # vs) \<Longrightarrow> (\<forall>u \<in> set us. \<not> (src = ANY \<or> src = u)) \<Longrightarrow> src = ANY \<or> src = x \<Longrightarrow>
   find_sender s src prev p = Some (Some (if us = [] then prev else Some (last us), x))"
proof (induction us arbitrary: p prev)
  case Nil
  then show ?case by (simp add: find_sender.simps)
next
  case (Cons u us)
  then have "p = Some u" "chain (slink s) (slink s u) (us @ x # vs)" by auto
  with Cons.IH [of "slink s u" "Some u"] Cons.prems show ?case
    by (subst find_sender.simps) (auto simp: slink_def)
qed

section \<open>Blocking and waking\<close>

lemma rel_cong:
  assumes "nextr s' = nextr s" "rdy_head s' = rdy_head s" "rdy_tail s' = rdy_tail s"
  shows "ready_rel s' Q = ready_rel s Q"
  using assms by (simp add: ready_rel_def)

lemma queue_of_cong: "p_shadow (proc s' p) = p_shadow (proc s p) \<Longrightarrow> queue_of s' p = queue_of s p"
  by (simp add: queue_of_def isshadowp_def)

text \<open>Two states that agree on everything the scheduler looks at.\<close>

definition same_queues :: "kernel \<Rightarrow> kernel \<Rightarrow> bool" where
  "same_queues s s' \<longleftrightarrow> nextr s' = nextr s \<and> rdy_head s' = rdy_head s \<and> rdy_tail s' = rdy_tail s \<and>
     proc_ptr s' = proc_ptr s \<and> (\<forall>p. p_shadow (proc s' p) = p_shadow (proc s p) \<and>
       p_stguard_ok (proc s' p) = p_stguard_ok (proc s p))"

lemma same_queuesD:
  assumes "same_queues s s'"
  shows "rq.holds s' R = rq.holds s R" "cur_ok s' = cur_ok s" "proc_ptr s' = proc_ptr s" "queue_of s' p = queue_of s p"
    "ready_rel s' Q = ready_rel s Q"
  using assms rel_cong [of s' s] queue_of_cong [of s' _ s]
  by (simp_all add: same_queues_def rq.holds_def cur_ok_def cong: option.case_cong)

lemma cur_ok_iff:
  assumes "ready_rel s Q"
  shows "cur_ok s \<longleftrightarrow>
    (if Q TASK_Q \<noteq> [] then proc_ptr s = hd (Q TASK_Q)
     else proc_ptr s = IDLE \<or> (Q SERVER_Q \<noteq> [] \<and> proc_ptr s = hd (Q SERVER_Q)) \<or>
          (Q USER_Q \<noteq> [] \<and> proc_ptr s = hd (Q USER_Q)))"
  using ready_rel_head [OF assms] by (auto simp: cur_ok_def)

lemma cur_ok_pick: "ready_rel s Q \<Longrightarrow> proc_ptr s = proc_ptr (pick_proc s) \<Longrightarrow> cur_ok s"
  using pick_proc_ptr [of s Q] by (auto simp: cur_ok_iff hd_append)

lemma holdsE:
  assumes "rq.holds s R"
  obtains Q where "ready_rel s Q" and "\<And>q p. p \<in> set (Q q) \<longleftrightarrow> p \<in> R \<and> queue_of s p = q"
  using assms unfolding rq.holds_def by blast

lemma cur_ok_lock_pick:
  assumes "rq.holds s R" shows "cur_ok (lock_pick_proc s)" "rq.holds (lock_pick_proc s) R"
proof -
  obtain Q where Q: "ready_rel s Q" by (rule holdsE [OF assms]) blast
  then show "cur_ok (lock_pick_proc s)"
    by (intro cur_ok_pick [of _ Q]) (auto simp: lock_pick_proc_def pick_proc_def split: option.splits)
  have "queue_of (lock_pick_proc s) p = queue_of s p" for p
    by (rule queue_of_cong) (simp add: lock_pick_proc_def)
  moreover have "ready_rel (lock_pick_proc s) Q = ready_rel s Q" for Q by (simp add: lock_pick_proc_def)
  ultimately show "rq.holds (lock_pick_proc s) R" using assms by (simp add: rq.holds_def)
qed

lemma unready_block:
  assumes h: "rq.holds s R" and c: "cur_ok s" and p: "p \<in> R" and g: "healthy_task s p"
  shows "\<exists>s'. unready p s = Some (Ret s') \<and> rq.holds s' (R - {p}) \<and> cur_ok s' \<and> sched_frame s s'"
proof -
  obtain Q where Q: "ready_rel s Q" "\<And>q p. p \<in> set (Q q) \<longleftrightarrow> p \<in> R \<and> queue_of s p = q"
    by (rule holdsE [OF h]) blast
  let ?q = "queue_of s p"
  have mem: "p \<in> set (Q ?q)" using Q(2) p by simp
  obtain s' where s': "unready p s = Some (Ret s')" "ready_rel s' (remove_ready s p Q)" "sched_frame s s'"
     "if p = proc_ptr s \<and> rdy_head s ?q = Some p then proc_ptr s' = proc_ptr (pick_proc s') else proc_ptr s' = proc_ptr s"
    using unready_rel [OF Q(1) _ mem] g unfolding healthy_task_def by blast
  have "rq.holds s' (R - {p})" using rq.leave_holds [OF h p g] s'(1) by auto
  moreover have "cur_ok s'"
  proof (cases "p = proc_ptr s \<and> rdy_head s ?q = Some p")
    case True
    then show ?thesis using s'(2,4) cur_ok_pick by auto
  next
    case False
    have hd: "hd (remove1 p (Q k)) = hd (Q k) \<and> remove1 p (Q k) \<noteq> []" if "Q k \<noteq> []" "hd (Q k) \<noteq> p" for k
      using that by (cases "Q k") auto
    have ne: "hd (Q k) \<noteq> p" if "Q k \<noteq> []" "proc_ptr s = hd (Q k)" for k
    proof
      assume "hd (Q k) = p"
      then have "p \<in> set (Q k)" using that by auto
      then have "k = ?q" using Q(2) by simp
      then show False using False that \<open>hd (Q k) = p\<close> ready_rel_head [OF Q(1), of k] by simp
    qed
    have rem: "remove_ready s p Q k = Q k \<or> remove_ready s p Q k = remove1 p (Q k)" for k
      by (simp add: remove_ready_def Let_def)
    have keep: "remove_ready s p Q k \<noteq> [] \<and> hd (remove_ready s p Q k) = hd (Q k)"
      if "Q k \<noteq> []" "proc_ptr s = hd (Q k)" for k
      using rem [of k] hd [of k] ne [of k] that by auto
    have empty: "remove_ready s p Q k = []" if "Q k = []" for k using rem [of k] that by auto
    have "proc_ptr s' = proc_ptr s" using s'(4) False by (simp only: if_False)
    then show ?thesis using c keep [of 0] keep [of 1] keep [of 2] empty [of 0]
      by (auto simp: cur_ok_iff [OF Q(1)] cur_ok_iff [OF s'(2)] split: if_splits)
  qed
  ultimately show ?thesis using s' by blast
qed

lemma user_in_user_queue:
  assumes "rq.holds s R" "rdy_head s USER_Q = Some x" shows "isuserp x"
proof -
  obtain Q where Q: "ready_rel s Q" "\<And>q p. p \<in> set (Q q) \<longleftrightarrow> p \<in> R \<and> queue_of s p = q"
    by (rule holdsE [OF assms(1)]) blast
  from ready_rel_head [OF Q(1), of USER_Q] assms(2) have "x \<in> set (Q USER_Q)"
    by (auto split: if_splits)
  then show ?thesis using Q(2) by (auto simp: queue_of_def split: if_splits)
qed

lemma ready_cur_ok:
  assumes "rq.holds s R" and "cur_ok s" and "isuserp p \<Longrightarrow> \<not> isuserp (proc_ptr s)"
  shows "cur_ok (ready p s)"
  using assms(2,3) user_in_user_queue [OF assms(1)]
  by (auto simp: ready_def cur_ok_def enqueue_tail_def Let_def split: option.splits)

lemma ready_wake:
  assumes "rq.holds s (runnable s - {p})" and "cur_ok s" and "schedulable p"
    and "isuserp p \<Longrightarrow> \<not> isuserp (proc_ptr s)"
  shows "rq.holds (if p_flags (proc s p) = 0 then ready p s else s) (runnable s) \<and>
         cur_ok (if p_flags (proc s p) = 0 then ready p s else s)"
proof (cases "p_flags (proc s p) = 0")
  case True
  then have "insert p (runnable s - {p}) = runnable s" using assms(3) by (auto simp: runnable_def)
  then show ?thesis using True rq.enter_holds [OF assms(1), of p] ready_cur_ok [OF assms(1,2,4)] by auto
next
  case False
  then have "runnable s - {p} = runnable s" by (auto simp: runnable_def)
  then show ?thesis using False assms by simp
qed

lemma runnable_frame: "sched_frame s s' \<Longrightarrow> runnable s' = runnable s"
  by (simp add: runnable_def sched_frame_sel)

section \<open>The caller queues\<close>

lemma mess_fault_frame: "sched_frame s s' \<Longrightarrow> mess_fault s' p m = mess_fault s p m"
  by (simp add: mess_fault_def sched_frame_sel)

lemma field_frame:
  assumes "sched_frame s s'"
  shows "sending s' = sending s" "receiving s' = receiving s" "pending s' = pending s" "sendto s' = sendto s"
    "slink s' = slink s" "callq s' = callq s" "sends s' = sends s" "blocked_ok s' p = blocked_ok s p"
    "setup_ok s' = setup_ok s"
  by (auto simp: fun_eq_iff field_defs sends_def blocked_ok_def setup_ok_def sched_frame_sel [OF assms] mess_fault_frame [OF assms])

lemma core_frame: "sched_frame s s' \<Longrightarrow> core s' C = core s C"
  by (simp add: core_def waiting_def field_frame)

lemma core_cong:
  assumes "core s C" "sending s' = sending s" "\<And>p. sending s p \<Longrightarrow> sendto s' p = sendto s p"
    "\<And>p. sending s p \<Longrightarrow> slink s' p = slink s p" "callq s' = callq s" "\<And>p. blocked_ok s' p" "setup_ok s'"
  shows "core s' C"
proof -
  have "sends s' = sends s" using assms(2,3) by (auto simp: sends_def)
  moreover have "chain (slink s') (callq s d) (C d) = chain (slink s) (callq s d) (C d)" for d
    by (rule chain_cong) (use assms(1,4) in \<open>auto simp: core_def waiting_def\<close>)
  ultimately show ?thesis using assms by (auto simp: core_def waiting_def)
qed

lemma sends_finite:
  assumes "\<And>p. blocked_ok s p" shows "finite (sends s)"
proof (rule finite_subset)
  show "sends s \<subseteq> {- NR_TASKS..<NR_PROCS} \<times> {- NR_TASKS..<NR_PROCS}"
    using assms by (fastforce simp: sends_def blocked_ok_def schedulable_def isokprocn_def)
qed simp

lemma core_send_chain:
  assumes "core s C" shows "send_chain s c x = Some ((x, c) \<in> (sends s)\<^sup>*)"
  by (rule send_chain_rtrancl, rule finite_acyclic_wf_converse)
     (use assms sends_finite in \<open>auto simp: core_def\<close>)

lemma ANY_not_proc [simp]: "\<not> isokprocn ANY"
  by (simp add: isokprocn_def ANY_def NR_PROCS_def)

lemma waitingD:
  assumes "waiting s C"
  shows "chain (slink s) (callq s d) (C d)" "p \<in> set (C d) \<longleftrightarrow> sending s p \<and> sendto s p = d"
  using assms by (auto simp: waiting_def)

text \<open>Appending the sender \<open>c\<close> to the caller queue of \<open>d\<close>.\<close>

lemma waiting_snoc:
  assumes w: "waiting s C" and c: "\<not> sending s c"
    and s': "sending s' = (sending s)(c := True)" "sendto s' = (sendto s)(c := d)"
    and links: "if C d = [] then callq s' = (callq s)(d := Some c) \<and> slink s' = (slink s)(c := None)
                else callq s' = callq s \<and> slink s' = (slink s)(last (C d) := Some c, c := None)"
  shows "waiting s' (C(d := C d @ [c]))"
proof -
  have ch: "chain (slink s) (callq s k) (C k)" and mem: "p \<in> set (C k) \<longleftrightarrow> sending s p \<and> sendto s p = k" for k p
    using w by (auto simp: waiting_def)
  have notin: "c \<notin> set (C k)" for k using mem c by blast
  have lastd: "last (C d) \<notin> set (C k)" if "k \<noteq> d" "C d \<noteq> []" for k
    using mem [of "last (C d)" d] mem [of "last (C d)" k] last_in_set [OF that(2)] that(1) by blast
  have "chain (slink s') (callq s' k) ((C(d := C d @ [c])) k)" for k
  proof (cases "C d = []")
    case True
    then show ?thesis using links ch [of k] notin [of k] by (cases "k = d") auto
  next
    case False
    have "chain ((slink s)(last (C d) := Some c, c := None)) (callq s d) (butlast (C d) @ [last (C d), c])"
      by (rule chain_snoc) (use ch [of d] notin [of d] False in auto)
    moreover have "butlast (C d) @ [last (C d), c] = C d @ [c]"
      using append_butlast_last_id [OF False] by (metis append.assoc append_Cons append_Nil)
    ultimately show ?thesis using links False ch [of k] notin [of k] lastd [of k] by (cases "k = d") auto
  qed
  moreover have "p \<in> set ((C(d := C d @ [c])) k) \<longleftrightarrow> sending s' p \<and> sendto s' p = k" for p k
    using mem [of p k] c by (auto simp: s')
  ultimately show ?thesis unfolding waiting_def by blast
qed

text \<open>Taking the sender \<open>x\<close> out of the caller queue of \<open>d\<close>.\<close>

lemma waiting_remove:
  assumes w: "waiting s C" and Cd: "C d = us @ x # vs"
    and s': "sending s' = (sending s)(x := False)" "\<And>p. p \<noteq> x \<Longrightarrow> sendto s' p = sendto s p"
    and links: "if us = [] then callq s' = (callq s)(d := slink s x) \<and> slink s' = slink s
                else callq s' = callq s \<and> slink s' = (slink s)(last us := slink s x)"
  shows "waiting s' (C(d := us @ vs))"
proof -
  have ch: "chain (slink s) (callq s k) (C k)" and mem: "p \<in> set (C k) \<longleftrightarrow> sending s p \<and> sendto s p = k" for k p
    using w by (auto simp: waiting_def)
  have dist: "distinct (us @ x # vs)" using chain_distinct [OF ch [of d]] Cd by simp
  have other: "y \<notin> set (C k)" if "k \<noteq> d" "y \<in> set (C d)" for k y using mem [of y k] mem [of y d] that by blast
  have "chain (slink s') (callq s' k) ((C(d := us @ vs)) k)" for k
  proof (cases "us = []")
    case True
    then show ?thesis using links ch [of k] ch [of d] Cd by (cases "k = d") auto
  next
    case False
    have eq: "us = butlast us @ [last us]" using False by simp
    have "chain ((slink s)(last us := slink s x)) (callq s d) (butlast us @ last us # vs)"
      by (rule chain_unlink) (use ch [of d] Cd eq in \<open>metis append.assoc append_Cons append_Nil\<close>)
    then have "chain ((slink s)(last us := slink s x)) (callq s d) (us @ vs)"
      using eq by (metis append.assoc append_Cons append_Nil)
    moreover have "last us \<notin> set (C k)" if "k \<noteq> d" using other [OF that, of "last us"] Cd False by simp
    ultimately show ?thesis using links False ch [of k] by (cases "k = d") auto
  qed
  moreover have "p \<in> set ((C(d := us @ vs)) k) \<longleftrightarrow> sending s' p \<and> sendto s' p = k" for p k
    using mem [of p k] mem [of x d] s'(2) [of p] Cd dist by (cases "p = x") (auto simp: s'(1))
  ultimately show ?thesis unfolding waiting_def by blast
qed

section \<open>Sending\<close>

definition kstate :: "kernel \<Rightarrow> (int \<Rightarrow> int list) \<Rightarrow> bool" where
  "kstate s C \<longleftrightarrow> rq.holds s (runnable s) \<and> cur_ok s \<and> core s C"

lemma kinv_kstate: "kinv s \<longleftrightarrow> (\<exists>C. kstate s C) \<and> sig_procs s = int (card {p. pending s p})"
  by (auto simp: kinv_def kstate_def)

lemma kstateD:
  assumes "kstate s C"
  shows "rq.holds s (runnable s)" "cur_ok s" "core s C" "waiting s C" "acyclic (sends s)" "blocked_ok s p" "setup_ok s"
    "schedulable p \<Longrightarrow> healthy_task s p"
  using assms by (auto simp: kstate_def core_def blocked_ok_def healthy_task_def)

lemma kstate_frame:
  assumes "sched_frame s s'" "rq.holds s' (runnable s)" "cur_ok s'" "core s C"
  shows "kstate s' C"
  using assms by (simp add: kstate_def runnable_frame core_frame)

lemma kstate_pending_finite:
  assumes "\<And>p. blocked_ok s p" shows "finite {p. pending s p}"
  by (rule finite_subset [of _ "{0..<NR_PROCS}"]) (use assms in \<open>auto simp: blocked_ok_def\<close>)

lemma same_queues_upd:
  assumes "\<And>r. p_nextready (f r) = p_nextready r" "\<And>r. p_shadow (f r) = p_shadow r"
    "\<And>r. p_stguard_ok (f r) = p_stguard_ok r" "same_queues s s1"
  shows "same_queues s (upd_proc p f s1)"
  using assms by (auto simp: same_queues_def nextr_def fun_eq_iff)

lemma same_queues_refl [simp]: "same_queues s s"
  by (simp add: same_queues_def)

lemma same_queues_global [simp]:
  "same_queues s (s1\<lparr>kmem := k\<rparr>) = same_queues s s1" "same_queues s (s1\<lparr>switching := b\<rparr>) = same_queues s s1"
  "same_queues s (s1\<lparr>sig_procs := i\<rparr>) = same_queues s s1" "same_queues s (s1\<lparr>held_head := h\<rparr>) = same_queues s s1"
  "same_queues s (s1\<lparr>held_tail := h\<rparr>) = same_queues s s1"
  by (simp_all add: same_queues_def nextr_def fun_eq_iff)

lemma cp_mess_sel [simp]:
  "proc (cp_mess n a x b y s) = proc s" "proc_ptr (cp_mess n a x b y s) = proc_ptr s"
  "sig_procs (cp_mess n a x b y s) = sig_procs s" "m_addr (cp_mess n a x b y s) = m_addr s"
  "mess_size (cp_mess n a x b y s) = mess_size s" "same_queues s' (cp_mess n a x b y s) = same_queues s' s"
  "switching (cp_mess n a x b y s) = switching s"
  by (simp_all add: cp_mess_def)

lemma ready_proc_ptr: "proc_ptr (ready p s) = proc_ptr s \<or> istaskp (proc_ptr (ready p s)) \<and> proc_ptr (ready p s) = p"
  by (auto simp: ready_def enqueue_tail_def Let_def split: option.splits)

lemma istaskp_not_user: "istaskp p \<Longrightarrow> \<not> isuserp p"
  by (simp add: istaskp_def isuserp_def LOW_USER_def)

definition wake :: "int \<Rightarrow> kernel \<Rightarrow> kernel" where
  "wake p s = (if p_flags (proc s p) = 0 then ready p s else s)"

lemma wake_frame: "sched_frame s (wake p s)"
  by (simp add: wake_def ready_frame)

lemma wake_proc_ptr: "proc_ptr (wake p s) = proc_ptr s \<or> istaskp (proc_ptr (wake p s))"
  using ready_proc_ptr [of p s] by (auto simp: wake_def)

lemma wake_kstate:
  assumes "rq.holds s (runnable s - {p})" "cur_ok s" "schedulable p" "isuserp p \<Longrightarrow> \<not> isuserp (proc_ptr s)" "core s C"
  shows "kstate (wake p s) C"
  by (rule kstate_frame [OF wake_frame]) (use ready_wake [OF assms(1-4)] assms(5) in \<open>auto simp: wake_def\<close>)

lemma ipc_only_simps [simp]:
  "ipc_only w \<Longrightarrow> ipc_only (w AND NOT RECEIVING)" "ipc_only w \<Longrightarrow> ipc_only (w AND NOT SENDING)"
  "ipc_only w \<Longrightarrow> ipc_only (w OR SENDING)" "ipc_only w \<Longrightarrow> ipc_only (w OR RECEIVING)"
  by (auto simp: ipc_only_def flag_simps bit_and_iff bit_or_iff)

lemma single_flags [simp]:
  "\<not> has RECEIVING SENDING" "has RECEIVING RECEIVING" "\<not> has RECEIVING PENDING" "\<not> has SENDING RECEIVING"
  "has SENDING SENDING" "\<not> has SENDING PENDING" "ipc_only RECEIVING" "ipc_only SENDING" "RECEIVING AND NOT RECEIVING = 0"
  "SENDING AND NOT SENDING = 0"
  by (simp_all add: flag_simps ipc_only_def bit_or_iff)

lemma is_waiting_for_iff:
  "is_waiting_for s d c \<longleftrightarrow> receiving s d \<and> \<not> sending s d \<and> (p_getfrom (proc s d) = ANY \<or> p_getfrom (proc s d) = c)"
  by (simp add: is_waiting_for_def only_receiving receiving_def sending_def)

text \<open>Clearing \<^verbatim>\<open>RECEIVING\<close> of the destination of a delivered message.\<close>

lemma unreceive_core:
  assumes "core s C"
  shows "core (upd_proc d (p_flags_update (\<lambda>f. f AND NOT RECEIVING)) s) C" (is "core ?s C")
proof (rule core_cong [OF assms])
  fix p
  have "blocked_ok s p" using assms by (simp add: core_def)
  then show "blocked_ok ?s p"
    by (auto simp: blocked_ok_def field_defs)
  show "setup_ok ?s" using assms by (auto simp: core_def setup_ok_def mess_fault_def)
qed (auto simp: fun_eq_iff field_defs)

lemma deliver_wake:
  "deliver c d m s = wake d (upd_proc d (p_flags_update (\<lambda>f. f AND NOT RECEIVING))
      (cp_mess c c m d (p_messbuf (proc s d)) s))"
  by (simp add: deliver_def wake_def Let_def)

lemma core_kmem [simp]: "core (s\<lparr>kmem := k\<rparr>) C = core s C"
proof -
  have "blocked_ok (s\<lparr>kmem := k\<rparr>) p = blocked_ok s p" for p by (simp add: blocked_ok_def field_defs)
  moreover have "slink (s\<lparr>kmem := k\<rparr>) = slink s" by (simp add: slink_def fun_eq_iff)
  ultimately show ?thesis by (simp add: core_def waiting_def sends_def field_defs setup_ok_def mess_fault_def)
qed

lemma deliver_kstate:
  assumes "kstate s C" "is_waiting_for s d c" "isuserp d \<Longrightarrow> \<not> isuserp (proc_ptr s)"
  shows "kstate (deliver c d m s) C"
proof -
  let ?s = "upd_proc d (p_flags_update (\<lambda>f. f AND NOT RECEIVING)) (cp_mess c c m d (p_messbuf (proc s d)) s)"
  note S = kstateD [OF assms(1)]
  have sq: "same_queues s ?s" by (rule same_queues_upd) simp_all
  have rec: "receiving s d" using assms(2) by (simp add: is_waiting_for_iff)
  then have "runnable ?s - {d} = runnable s" by (auto simp: runnable_def receiving_def)
  then have "rq.holds ?s (runnable ?s - {d})" "cur_ok ?s" using S(1,2) by (simp_all add: same_queuesD [OF sq])
  moreover have "schedulable d" using S(6) [of d] rec by (simp add: blocked_ok_def)
  moreover have "core ?s C" by (rule unreceive_core) (use S(3) in \<open>simp add: cp_mess_def\<close>)
  ultimately show ?thesis unfolding deliver_wake using assms(3)
    by (intro wake_kstate) (simp_all add: same_queuesD [OF sq])
qed

text \<open>Setting \<^verbatim>\<open>SENDING\<close> and linking the caller to the end of the queue of \<open>d\<close>.\<close>

definition link_sender :: "int \<Rightarrow> int \<Rightarrow> int option \<Rightarrow> kernel \<Rightarrow> kernel" where
  "link_sender c d prev s =
     (let s3 = upd_proc c (\<lambda>r. r\<lparr>p_flags := p_flags r OR SENDING, p_sendto := d\<rparr>) s in
      upd_proc c (p_sendlink_update (\<lambda>_. None))
        (case prev of None \<Rightarrow> upd_proc d (p_callerq_update (\<lambda>_. Some c)) s3
                    | Some l \<Rightarrow> upd_proc l (p_sendlink_update (\<lambda>_. Some c)) s3))"

lemma link_sender_fields:
  "sending (link_sender c d pv s) = (sending s)(c := True)" "sendto (link_sender c d pv s) = (sendto s)(c := d)"
  "receiving (link_sender c d pv s) = receiving s" "pending (link_sender c d pv s) = pending s"
  "callq (link_sender c d pv s) = (if pv = None then (callq s)(d := Some c) else callq s)"
  "slink (link_sender c d pv s) = (case pv of None \<Rightarrow> (slink s)(c := None) | Some l \<Rightarrow> (slink s)(l := Some c, c := None))"
  "p_getfrom (proc (link_sender c d pv s) p) = p_getfrom (proc s p)"
  "p_messbuf (proc (link_sender c d pv s) p) = p_messbuf (proc s p)"
  "p_stguard_ok (proc (link_sender c d pv s) p) = p_stguard_ok (proc s p)"
  "map_D (proc (link_sender c d pv s) p) = map_D (proc s p)" "map_S (proc (link_sender c d pv s) p) = map_S (proc s p)"
  "m_addr (link_sender c d pv s) = m_addr s" "mess_size (link_sender c d pv s) = mess_size s"
  "sig_procs (link_sender c d pv s) = sig_procs s" "kmem (link_sender c d pv s) = kmem s"
  "p_shadow (proc (link_sender c d pv s) p) = p_shadow (proc s p)"
  "p_flags (proc (link_sender c d pv s) p) = (if p = c then p_flags (proc s c) OR SENDING else p_flags (proc s p))"
  by (auto simp: link_sender_def field_defs fun_eq_iff Let_def split: option.splits)

lemma link_sender_queues: "same_queues s (link_sender c d pv s)"
  unfolding link_sender_def Let_def
  by (intro same_queues_upd) (auto intro!: same_queues_upd split: option.split)

lemma link_sender_core:
  assumes core: "core s C" and fl: "p_flags (proc s c) = 0" and c: "schedulable c"
    and d: "isokprocn d" "isuserp c \<Longrightarrow> issysentn d" and free: "(d, c) \<notin> (sends s)\<^sup>*"
    and pv: "pv = (if C d = [] then None else Some (last (C d)))"
  shows "core (link_sender c d pv s) (C(d := C d @ [c]))"
proof -
  let ?s = "link_sender c d pv s"
  have cf: "\<not> sending s c" "\<not> receiving s c" using fl by (simp_all add: field_defs)
  have "waiting ?s (C(d := C d @ [c]))"
    by (rule waiting_snoc [of s C c]) (use core cf pv in \<open>auto simp: core_def link_sender_fields\<close>)
  moreover have "sends ?s = insert (c, d) (sends s)"
    using cf by (auto simp: sends_def link_sender_fields split: if_splits)
  then have "acyclic (sends ?s)" using core free by (simp add: core_def acyclic_insert)
  moreover have "blocked_ok ?s p" for p
  proof -
    have "blocked_ok s p" using core by (simp add: core_def)
    then show ?thesis using c d cf
      by (cases "p = c") (simp_all add: blocked_ok_def link_sender_fields)
  qed
  moreover have "setup_ok ?s" using core by (auto simp: core_def setup_ok_def mess_fault_def link_sender_fields Let_def)
  ultimately show ?thesis by (simp add: core_def)
qed

lemma block_sender_link:
  assumes "waiting s C" "p_flags (proc s c) = 0" "c \<noteq> d"
    and un: "unready c (upd_proc c (p_messbuf_update (\<lambda>_. m)) s) = Some (Ret s2)"
      "sched_frame (upd_proc c (p_messbuf_update (\<lambda>_. m)) s) s2"
  shows "block_sender c d m s = Some (Ret (link_sender c d (if C d = [] then None else Some (last (C d))) s2))"
proof -
  let ?s3 = "upd_proc c (\<lambda>r. r\<lparr>p_flags := p_flags r OR SENDING, p_sendto := d\<rparr>) s2"
  have eq: "slink ?s3 = slink s" "p_callerq (proc ?s3 d) = callq s d"
    using sched_frame_sel [OF un(2)] assms(3) by (auto simp: field_defs fun_eq_iff)
  have ch: "chain (slink ?s3) (callq s d) (C d)" using assms(1) eq by (simp add: waiting_def)
  show ?thesis
  proof (cases "callq s d")
    case None
    then have "C d = []" using ch by (simp add: chain_NilI)
    then show ?thesis using assms(2) un None eq by (simp add: block_sender_def link_sender_def Let_def)
  next
    case (Some n)
    then have ne: "C d \<noteq> []" and "last_sender ?s3 n = Some (last (C d))"
      using ch last_sender_last [of ?s3 n "C d"] by auto
    then show ?thesis using assms(2) un Some eq by (simp add: block_sender_def link_sender_def Let_def)
  qed
qed

lemma messbuf_core [simp]: "core (upd_proc c (p_messbuf_update (\<lambda>_. m)) s) C = core s C"
proof -
  let ?s = "upd_proc c (p_messbuf_update (\<lambda>_. m)) s"
  have "sending ?s = sending s" "sendto ?s = sendto s" "slink ?s = slink s" "callq ?s = callq s" "sends ?s = sends s"
    by (auto simp: field_defs fun_eq_iff sends_def split: if_splits)
  moreover have "blocked_ok ?s p = blocked_ok s p" for p by (simp add: blocked_ok_def field_defs)
  moreover have "setup_ok ?s = setup_ok s" by (simp add: setup_ok_def mess_fault_def Let_def)
  ultimately show ?thesis by (simp add: core_def waiting_def)
qed

lemma block_sender_kstate:
  assumes k: "kstate s C" and c: "c \<in> runnable s" and d: "isokprocn d" "isuserp c \<Longrightarrow> issysentn d"
    and free: "(d, c) \<notin> (sends s)\<^sup>*"
  shows "\<exists>s'. block_sender c d m s = Some (Ret s') \<and> kstate s' (C(d := C d @ [c])) \<and> sending s' = (sending s)(c := True) \<and>
     receiving s' = receiving s \<and> pending s' = pending s \<and> sendto s' = (sendto s)(c := d) \<and> sig_procs s' = sig_procs s \<and>
     kmem s' = kmem s \<and> p_messbuf (proc s' c) = m \<and> (\<forall>p. p_getfrom (proc s' p) = p_getfrom (proc s p)) \<and>
     (\<forall>p a. mess_phys s' p a = mess_phys s p a) \<and>
     (\<forall>p. p_flags (proc s' p) = (if p = c then SENDING else p_flags (proc s p)))"
proof -
  let ?s1 = "upd_proc c (p_messbuf_update (\<lambda>_. m)) s"
  let ?pv = "if C d = [] then None else Some (last (C d))"
  note S = kstateD [OF k]
  have fl: "p_flags (proc s c) = 0" and sc: "schedulable c" using c by (auto simp: runnable_def)
  have sq: "same_queues s ?s1" by (rule same_queues_upd) simp_all
  have run: "runnable ?s1 = runnable s" by (auto simp: runnable_def)
  obtain s2 where s2: "unready c ?s1 = Some (Ret s2)" "rq.holds s2 (runnable s - {c})" "cur_ok s2" "sched_frame ?s1 s2"
    using unready_block [of ?s1 "runnable s" c] S(1,2) S(8) [OF sc] c
    by (auto simp: same_queuesD [OF sq] healthy_task_def)
  let ?s = "link_sender c d ?pv s2"
  have blk: "block_sender c d m s = Some (Ret ?s)"
    by (rule block_sender_link [OF S(4) fl _ s2(1,4)]) (use free in auto)
  have fr: "sending s2 = sending s" "sendto s2 = sendto s" "receiving s2 = receiving s" "pending s2 = pending s"
    "sends s2 = sends s" "sig_procs s2 = sig_procs s" "kmem s2 = kmem s" "p_flags (proc s2 p) = p_flags (proc s p)"
    "p_getfrom (proc s2 p) = p_getfrom (proc s p)" "p_messbuf (proc s2 c) = m" for p
    by (auto simp: field_defs sends_def fun_eq_iff sched_frame_sel [OF s2(4)] split: if_splits)
  have "core s2 C" using core_frame [OF s2(4)] S(3) by simp
  then have "core ?s (C(d := C d @ [c]))"
    by (rule link_sender_core) (use fl sc d free in \<open>auto simp: fr\<close>)
  moreover have "runnable ?s = runnable s - {c}"
  proof -
    have "w OR SENDING \<noteq> 0" for w by (rule flags_nonzero [of _ SENDING]) simp
    then show ?thesis by (auto simp: runnable_def link_sender_fields fr)
  qed
  then have "rq.holds ?s (runnable ?s)" "cur_ok ?s"
    using s2(2,3) by (simp_all add: same_queuesD [OF link_sender_queues])
  ultimately have "kstate ?s (C(d := C d @ [c]))" by (simp add: kstate_def)
  moreover have "mess_phys ?s p a = mess_phys s p a" for p a
    by (simp add: mess_phys_def Let_def link_sender_fields sched_frame_sel [OF s2(4)])
  ultimately show ?thesis using blk fl by (simp add: link_sender_fields fr)
qed

lemma deliver_fields:
  "sending (deliver c d m s) = sending s" "receiving (deliver c d m s) = (receiving s)(d := False)"
  "pending (deliver c d m s) = pending s" "sendto (deliver c d m s) = sendto s" "sig_procs (deliver c d m s) = sig_procs s"
  "p_getfrom (proc (deliver c d m s) p) = p_getfrom (proc s p)"
  "p_flags (proc (deliver c d m s) p) = (if p = d then p_flags (proc s d) AND NOT RECEIVING else p_flags (proc s p))"
  "kmem (deliver c d m s) = (kmem s)(mess_phys s d (p_messbuf (proc s d)) := (kmem s (mess_phys s c m))\<lparr>m_source := c\<rparr>)"
  by (auto simp: deliver_wake field_defs fun_eq_iff sched_frame_sel [OF wake_frame] cp_mess_def mess_phys_def)

lemma deliver_proc_ptr: "proc_ptr (deliver c d m s) = proc_ptr s \<or> istaskp (proc_ptr (deliver c d m s))"
  using wake_proc_ptr [of d "upd_proc d (p_flags_update (\<lambda>f. f AND NOT RECEIVING)) (cp_mess c c m d (p_messbuf (proc s d)) s)"]
  by (simp add: deliver_wake)

lemma mini_send_cases:
  assumes "core s C" "c \<noteq> d"
  shows "mini_send c d m s =
    (if isuserp c \<and> \<not> issysentn d \<or> has (p_flags (proc s d)) P_SLOT_FREE then Some (Ret (E_BAD_DEST, s))
     else if mess_fault s c m then Some (Ret (EFAULT, s))
     else if (d, c) \<in> (sends s)\<^sup>+ then Some (Ret (ELOCKED, s))
     else if is_waiting_for s d c then Some (Ret (OK, deliver c d m s))
     else and_then (block_sender c d m s) (\<lambda>s1. Some (Ret (OK, s1))))"
proof -
  have "(d, c) \<in> (sends s)\<^sup>+ \<longleftrightarrow> (d, c) \<in> (sends s)\<^sup>*" using assms(2) by (auto simp: rtrancl_eq_or_trancl)
  also have "\<dots> \<longleftrightarrow> sending s d \<and> (sendto s d, c) \<in> (sends s)\<^sup>*" using sends_rtrancl [of d c s] assms(2) by simp
  finally show ?thesis
    by (auto simp: mini_send_def core_send_chain [OF assms(1)] sending_def sendto_def)
qed

lemma mini_send_kstate:
  assumes k: "kstate s C" and d: "isokprocn d" "c \<noteq> d" and u: "isuserp d \<Longrightarrow> \<not> isuserp c \<Longrightarrow> \<not> isuserp (proc_ptr s)"
    and c: "c \<in> runnable s \<or> is_waiting_for s d c"
  shows "\<exists>n s'. mini_send c d m s = Some (Ret (n, s')) \<and> (\<exists>C'. kstate s' C') \<and> pending s' = pending s \<and>
     sig_procs s' = sig_procs s \<and>
     (if n \<noteq> OK then s' = s
      else if is_waiting_for s d c then s' = deliver c d m s
      else sending s' c \<and> sendto s' c = d \<and> receiving s' c = receiving s c)"
proof -
  note S = kstateD [OF k] and cases = mini_send_cases [OF kstateD(3) [OF k] d(2), of m]
  have ne: "E_BAD_DEST \<noteq> OK" "EFAULT \<noteq> OK" "ELOCKED \<noteq> OK" by (simp_all add: errno_defs)
  consider (err) n where "mini_send c d m s = Some (Ret (n, s))" "n \<noteq> OK"
    | (del) "mini_send c d m s = Some (Ret (OK, deliver c d m s))" "is_waiting_for s d c" "isuserp c \<longrightarrow> issysentn d"
    | (blk) "mini_send c d m s = and_then (block_sender c d m s) (\<lambda>s1. Some (Ret (OK, s1)))"
        "\<not> is_waiting_for s d c" "isuserp c \<longrightarrow> issysentn d" "(d, c) \<notin> (sends s)\<^sup>+"
    using cases ne by (simp split: if_splits)
  then show ?thesis
  proof cases
    case err
    then show ?thesis using k by auto
  next
    case del
    have "\<not> isuserp d" if "issysentn d"
      using that by (auto simp: issysentn_def isuserp_def LOW_USER_def FS_PROC_NR_def MM_PROC_NR_def)
    then have "kstate (deliver c d m s) C" using del u by (intro deliver_kstate [OF k]) auto
    then show ?thesis using del by (auto simp: deliver_fields)
  next
    case blk
    have "(d, c) \<notin> (sends s)\<^sup>*" using blk(4) d(2) by (auto simp: rtrancl_eq_or_trancl)
    then obtain s' where "block_sender c d m s = Some (Ret s')" "kstate s' (C(d := C d @ [c]))"
       "sending s' = (sending s)(c := True)" "receiving s' = receiving s" "pending s' = pending s"
       "sendto s' = (sendto s)(c := d)" "sig_procs s' = sig_procs s"
      using block_sender_kstate [OF k _ d(1), of c m] c blk(2,3) by auto
    then show ?thesis using blk(1,2) by auto
  qed
qed

section \<open>Kernel signals\<close>

lemma switching_frame [simp]: "core (s\<lparr>switching := b\<rparr>) C = core s C" "runnable (s\<lparr>switching := b\<rparr>) = runnable s"
  "rq.holds (s\<lparr>switching := b\<rparr>) R = rq.holds s R" "cur_ok (s\<lparr>switching := b\<rparr>) = cur_ok s"
  "pending (s\<lparr>switching := b\<rparr>) = pending s" "kstate (s\<lparr>switching := b\<rparr>) C = kstate s C"
  "sending (s\<lparr>switching := b\<rparr>) = sending s" "receiving (s\<lparr>switching := b\<rparr>) = receiving s"
  "is_waiting_for (s\<lparr>switching := b\<rparr>) d c = is_waiting_for s d c"
proof -
  have f: "slink (s\<lparr>switching := b\<rparr>) = slink s" "callq (s\<lparr>switching := b\<rparr>) = callq s" "sends (s\<lparr>switching := b\<rparr>) = sends s"
    "sendto (s\<lparr>switching := b\<rparr>) = sendto s"
    and p: "pending (s\<lparr>switching := b\<rparr>) = pending s"
    and g: "sending (s\<lparr>switching := b\<rparr>) = sending s" "receiving (s\<lparr>switching := b\<rparr>) = receiving s"
    by (auto simp: field_defs sends_def fun_eq_iff)
  moreover have "blocked_ok (s\<lparr>switching := b\<rparr>) p = blocked_ok s p" for p by (simp add: blocked_ok_def field_defs)
  ultimately show c: "core (s\<lparr>switching := b\<rparr>) C = core s C"
    by (simp add: core_def waiting_def setup_ok_def mess_fault_def)
  show r: "runnable (s\<lparr>switching := b\<rparr>) = runnable s" by (simp add: runnable_def)
  have sq: "same_queues s (s\<lparr>switching := b\<rparr>)" by simp
  show h: "rq.holds (s\<lparr>switching := b\<rparr>) R = rq.holds s R" and cu: "cur_ok (s\<lparr>switching := b\<rparr>) = cur_ok s" for R
    by (simp_all only: same_queuesD [OF sq])
  show "kstate (s\<lparr>switching := b\<rparr>) C = kstate s C" by (simp add: kstate_def c r h cu)
  show "is_waiting_for (s\<lparr>switching := b\<rparr>) d c = is_waiting_for s d c" by (simp add: is_waiting_for_def)
qed (auto simp: field_defs fun_eq_iff)

lemma sigprocs_frame [simp]: "core (s\<lparr>sig_procs := i\<rparr>) C = core s C" "runnable (s\<lparr>sig_procs := i\<rparr>) = runnable s"
  "pending (s\<lparr>sig_procs := i\<rparr>) = pending s" "kstate (s\<lparr>sig_procs := i\<rparr>) C = kstate s C"
proof -
  have f: "slink (s\<lparr>sig_procs := i\<rparr>) = slink s" "callq (s\<lparr>sig_procs := i\<rparr>) = callq s" "sends (s\<lparr>sig_procs := i\<rparr>) = sends s"
    "sendto (s\<lparr>sig_procs := i\<rparr>) = sendto s" "sending (s\<lparr>sig_procs := i\<rparr>) = sending s"
    by (auto simp: field_defs sends_def fun_eq_iff)
  moreover have "blocked_ok (s\<lparr>sig_procs := i\<rparr>) p = blocked_ok s p" for p by (simp add: blocked_ok_def field_defs)
  ultimately show c: "core (s\<lparr>sig_procs := i\<rparr>) C = core s C"
    by (simp add: core_def waiting_def setup_ok_def mess_fault_def)
  show r: "runnable (s\<lparr>sig_procs := i\<rparr>) = runnable s" by (simp add: runnable_def)
  have sq: "same_queues s (s\<lparr>sig_procs := i\<rparr>)" by simp
  show "kstate (s\<lparr>sig_procs := i\<rparr>) C = kstate s C" by (simp only: kstate_def c r same_queuesD [OF sq])
qed (auto simp: field_defs fun_eq_iff)

lemma lock_pick_kstate:
  assumes "rq.holds s (runnable s)" "core s C"
  shows "kstate (lock_pick_proc s) C" "pending (lock_pick_proc s) = pending s" "sig_procs (lock_pick_proc s) = sig_procs s"
proof -
  have fr: "sched_frame (s\<lparr>switching := True\<rparr>) (pick_proc (s\<lparr>switching := True\<rparr>))" by simp
  have run: "runnable (lock_pick_proc s) = runnable s"
    unfolding lock_pick_proc_def using runnable_frame [OF fr] by (simp only: switching_frame)
  have "core (lock_pick_proc s) C"
    unfolding lock_pick_proc_def using core_frame [OF fr] assms(2) by (simp only: switching_frame)
  then show "kstate (lock_pick_proc s) C"
    using cur_ok_lock_pick [OF assms(1)] by (simp add: kstate_def run)
  show "pending (lock_pick_proc s) = pending s"
    unfolding lock_pick_proc_def using field_frame(3) [OF fr] by (simp only: switching_frame)
  show "sig_procs (lock_pick_proc s) = sig_procs s"
    using sched_frame_sel(17) [OF fr] by (simp add: lock_pick_proc_def)
qed

text \<open>Clearing the signal flags of a process that is not runnable because of them.\<close>

lemma clear_pending_core:
  assumes "core s C" and "f = p_flags_update (\<lambda>w. w AND NOT PENDING) \<or>
     f = (\<lambda>r. r\<lparr>p_pending := 0, p_flags := p_flags r AND NOT PENDING\<rparr>) \<or>
     f = p_pendcount_update g \<or> f = p_flags_update (\<lambda>w. w AND NOT SIG_PENDING) \<and> \<not> pending s p"
    and "0 \<le> p"
  shows "core (upd_proc p f s) C"
proof (rule core_cong [OF assms(1)])
  have p: "\<not> istaskp p" using assms(3) by (simp add: istaskp_def)
  fix x
  have "blocked_ok s x" using assms(1) by (simp add: core_def)
  then show "blocked_ok (upd_proc p f s) x"
    using assms(2) p by (cases "x = p") (elim disjE; simp add: blocked_ok_def field_defs)+
  have "setup_ok s" using assms(1) by (simp add: core_def)
  then show "setup_ok (upd_proc p f s)" using assms(2) by (elim disjE; simp add: setup_ok_def mess_fault_def Let_def)
qed (use assms(2) in \<open>auto simp: fun_eq_iff field_defs\<close>)

lemma mm_waits:
  assumes "kstate s C" "receiving s MM_PROC_NR" "p_getfrom (proc s MM_PROC_NR) = ANY"
  shows "is_waiting_for s MM_PROC_NR HARDWARE"
  using kstateD(6) [OF assms(1), of MM_PROC_NR] assms(2,3) by (auto simp: blocked_ok_def is_waiting_for_iff)

lemma mm_tell:
  assumes k: "kstate s C" and w: "is_waiting_for s MM_PROC_NR HARDWARE"
  shows "mini_send HARDWARE MM_PROC_NR (m_addr s) s = Some (Ret (OK, deliver HARDWARE MM_PROC_NR (m_addr s) s))"
    "kstate (deliver HARDWARE MM_PROC_NR (m_addr s) s) C"
proof -
  have mm: "\<not> isuserp HARDWARE" "\<not> isuserp MM_PROC_NR" "HARDWARE \<noteq> MM_PROC_NR"
    by (auto simp: isuserp_def LOW_USER_def HARDWARE_def MM_PROC_NR_def)
  have "\<not> sending s MM_PROC_NR" using w by (simp add: is_waiting_for_iff)
  then have "(MM_PROC_NR, HARDWARE) \<notin> (sends s)\<^sup>+"
    using tranclD [of MM_PROC_NR HARDWARE "sends s"] by (auto simp: sends_def)
  then show "mini_send HARDWARE MM_PROC_NR (m_addr s) s = Some (Ret (OK, deliver HARDWARE MM_PROC_NR (m_addr s) s))"
    using mini_send_cases [OF kstateD(3) [OF k] mm(3)] mm(1,2) kstateD(7) [OF k] w by (simp add: setup_ok_def)
  show "kstate (deliver HARDWARE MM_PROC_NR (m_addr s) s) C"
    by (rule deliver_kstate [OF k w]) (use mm in simp)
qed

text \<open>The part of \<^verbatim>\<open>inform\<close> after MM has been told.\<close>

definition inform_tail :: "int \<Rightarrow> 32 word \<Rightarrow> kernel \<Rightarrow> kernel" where
  "inform_tail rp sig_map s2 =
     (let s3 = upd_proc rp (\<lambda>r. r\<lparr>p_pending := 0, p_flags := p_flags r AND NOT PENDING\<rparr>) s2
      in if sigismember sig_map SIGSTKFLT \<and> p_pendcount (proc s3 rp) \<noteq> 0
         then let s5 = upd_proc rp (p_pendcount_update (\<lambda>c. c - 1)) s3 in
              if p_pendcount (proc s5 rp) = 0
              then let s6 = upd_proc rp (p_flags_update (\<lambda>f. f AND NOT SIG_PENDING)) s5
                   in if p_flags (proc s6 rp) = 0 then lock_ready rp s6 else s6
              else s5
         else s3)"

lemma lock_ready_holds:
  assumes "rq.holds s R" "p \<notin> R" shows "rq.holds (lock_ready p s) (insert p R)"
  using rq.enter_holds [of "s\<lparr>switching := True\<rparr>" R p] assms by (simp add: lock_ready_def)

lemma lock_ready_fields:
  "runnable (lock_ready p s) = runnable s" "core (lock_ready p s) C = core s C" "pending (lock_ready p s) = pending s"
  "sig_procs (lock_ready p s) = sig_procs s"
  using runnable_frame [OF ready_frame] core_frame [OF ready_frame] field_frame(3) [OF ready_frame] sched_frame_sel(17) [OF ready_frame]
  by (simp_all add: lock_ready_def)

lemma inform_tail_ok:
  assumes h: "rq.holds s (runnable s)" and c: "core s C" and p: "pending s p"
  shows "rq.holds (inform_tail p w s) (runnable (inform_tail p w s)) \<and> core (inform_tail p w s) C \<and>
     pending (inform_tail p w s) = (pending s)(p := False) \<and> sig_procs (inform_tail p w s) = sig_procs s"
proof -
  have b: "0 \<le> p" "p < NR_PROCS" "has (p_flags (proc s p)) SIG_PENDING"
    using c p by (auto simp: core_def blocked_ok_def)
  have sch: "schedulable p"
    using b by (auto simp: schedulable_def isokprocn_def IDLE_def HARDWARE_def NR_TASKS_def)
  define s3 where "s3 = upd_proc p (\<lambda>r. r\<lparr>p_pending := 0, p_flags := p_flags r AND NOT PENDING\<rparr>) s"
  define s5 where "s5 = upd_proc p (p_pendcount_update (\<lambda>c. c - 1)) s3"
  define s6 where "s6 = upd_proc p (p_flags_update (\<lambda>f. f AND NOT SIG_PENDING)) s5"
  have pend: "pending s3 = (pending s)(p := False)" "pending s5 = (pending s)(p := False)" "pending s6 = (pending s)(p := False)"
    by (auto simp: s3_def s5_def s6_def pending_def fun_eq_iff)
  have cores: "core s3 C" "core s5 C" "core s6 C"
  proof -
    show c3: "core s3 C" unfolding s3_def by (rule clear_pending_core [OF c _ b(1)]) blast
    show c5: "core s5 C" unfolding s5_def by (rule clear_pending_core [OF c3 _ b(1)]) blast
    show "core s6 C" unfolding s6_def by (rule clear_pending_core [OF c5 _ b(1)]) (simp add: pend)
  qed
  have sqs: "same_queues s s3" "same_queues s s5" "same_queues s s6"
    unfolding s3_def s5_def s6_def by (intro same_queues_upd; simp)+
  have nz: "p_flags (proc s p) \<noteq> 0" "p_flags (proc s p) AND NOT PENDING \<noteq> 0"
    using b(3) flags_nonzero [of _ SIG_PENDING] by auto
  have run: "runnable s3 = runnable s" "runnable s5 = runnable s" "runnable s6 - {p} = runnable s"
    using nz by (auto simp: runnable_def s3_def s5_def s6_def)
  have hs: "rq.holds s3 (runnable s3)" "rq.holds s5 (runnable s5)" "rq.holds s6 (runnable s6 - {p})"
    using h run by (simp_all only: same_queuesD [OF sqs(1)] same_queuesD [OF sqs(2)] same_queuesD [OF sqs(3)])
  have "rq.holds (lock_ready p s6) (runnable (lock_ready p s6))" if "p_flags (proc s6 p) = 0"
  proof -
    have "insert p (runnable s6 - {p}) = runnable s6" using that sch by (auto simp: runnable_def)
    then show ?thesis using lock_ready_holds [OF hs(3), of p] by (simp add: lock_ready_fields)
  qed
  moreover have "rq.holds s6 (runnable s6)" if "p_flags (proc s6 p) \<noteq> 0"
  proof -
    have "runnable s6 - {p} = runnable s6" using that by (auto simp: runnable_def)
    then show ?thesis using hs(3) by simp
  qed
  moreover have "sig_procs s3 = sig_procs s" "sig_procs s5 = sig_procs s" "sig_procs s6 = sig_procs s"
    by (simp_all add: s3_def s5_def s6_def)
  moreover have "inform_tail p w s = (if sigismember w SIGSTKFLT \<and> p_pendcount (proc s3 p) \<noteq> 0
      then if p_pendcount (proc s5 p) = 0 then if p_flags (proc s6 p) = 0 then lock_ready p s6 else s6 else s5 else s3)"
    unfolding inform_tail_def Let_def s6_def s5_def s3_def by (rule refl)
  ultimately show ?thesis using hs(1,2) cores pend by (simp add: lock_ready_fields)
qed

lemma kstate_kmem [simp]: "kstate (s\<lparr>kmem := k\<rparr>) C = kstate s C"
proof -
  have sq: "same_queues s (s\<lparr>kmem := k\<rparr>)" by simp
  have "runnable (s\<lparr>kmem := k\<rparr>) = runnable s" by (simp add: runnable_def)
  then show ?thesis by (simp only: kstate_def core_kmem same_queuesD [OF sq])
qed

lemma inform_eq:
  assumes k: "kstate s C" and rec: "receiving s MM_PROC_NR" "p_getfrom (proc s MM_PROC_NR) = ANY"
    and rp: "find_pending s = Some rp"
  defines "s1 \<equiv> s\<lparr>kmem := (kmem s)(m_addr s := (kmem s (m_addr s))\<lparr>m_type := KSIG, m_body := [rp, uint (p_pending (proc s rp))]\<rparr>),
                   sig_procs := sig_procs s - 1, switching := True\<rparr>"
  defines "s2 \<equiv> (deliver HARDWARE MM_PROC_NR (m_addr s) s1)\<lparr>switching := False\<rparr>"
  shows "inform s = Some (Ret (lock_pick_proc (inform_tail rp (p_pending (proc s rp)) s2)))"
    "kstate s2 C" "pending s2 = pending s" "sig_procs s2 = sig_procs s - 1"
proof -
  have k1: "kstate s1 C" using k by (simp add: s1_def)
  have "is_waiting_for s1 MM_PROC_NR HARDWARE"
    using mm_waits [OF k rec] by (simp add: s1_def is_waiting_for_def)
  note tell = mm_tell [OF k1 this]
  have send: "lock_mini_send HARDWARE MM_PROC_NR (m_addr s)
      (s\<lparr>kmem := (kmem s)(m_addr s := (kmem s (m_addr s))\<lparr>m_type := KSIG, m_body := [rp, uint (p_pending (proc s rp))]\<rparr>),
         sig_procs := sig_procs s - 1\<rparr>) = Some (Ret (OK, s2))"
    using tell(1) by (simp add: lock_mini_send_def s2_def s1_def)
  show "inform s = Some (Ret (lock_pick_proc (inform_tail rp (p_pending (proc s rp)) s2)))"
    unfolding inform_def rp option.case Let_def send and_then_simps prod.case inform_tail_def by simp
  show "kstate s2 C" using tell(2) by (simp add: s2_def s1_def)
  show "pending s2 = pending s" "sig_procs s2 = sig_procs s - 1"
    by (simp_all add: s2_def s1_def deliver_fields) (simp add: pending_def fun_eq_iff)
qed

lemma find_pending_some: "find_pending s = Some p \<Longrightarrow> pending s p"
  by (auto simp: find_pending_def find_Some_iff pending_def)

lemma inform_kinv:
  assumes "kinv s" and "receiving s MM_PROC_NR" "p_getfrom (proc s MM_PROC_NR) = ANY"
  shows "\<exists>s'. inform s = Some (Ret s') \<and> kinv s'"
proof -
  obtain C where k: "kstate s C" using assms(1) by (auto simp: kinv_kstate)
  have cnt: "sig_procs s = int (card {p. pending s p})" using assms(1) by (simp add: kinv_def)
  show ?thesis
  proof (cases "find_pending s")
    case None
    then show ?thesis using assms(1) by (simp add: inform_def)
  next
    case (Some rp)
    note I = inform_eq [OF k assms(2,3) Some]
    have rp: "pending s rp" by (rule find_pending_some [OF Some])
    obtain s2 where s2: "inform s = Some (Ret (lock_pick_proc (inform_tail rp (p_pending (proc s rp)) s2)))"
      "kstate s2 C" "pending s2 = pending s" "sig_procs s2 = sig_procs s - 1"
      using I by blast
    let ?t = "inform_tail rp (p_pending (proc s rp)) s2"
    have T: "rq.holds ?t (runnable ?t)" "core ?t C" "pending ?t = (pending s)(rp := False)" "sig_procs ?t = sig_procs s - 1"
      using inform_tail_ok [of s2 C rp "p_pending (proc s rp)"] kstateD(1,3) [OF s2(2)] rp s2(3,4) by simp_all
    have fin: "finite {p. pending s p}" by (rule kstate_pending_finite) (use kstateD(6) [OF k] in simp)
    have "{p. pending ?t p} = {p. pending s p} - {rp}" using T(3) by auto
    moreover have "card {p. pending s p} > 0" using rp fin by (auto simp: card_gt_0_iff)
    ultimately have "sig_procs ?t = int (card {p. pending ?t p})"
      using cnt rp fin T(4) by (simp add: of_nat_diff)
    then have "kinv (lock_pick_proc ?t)"
      using lock_pick_kstate [OF T(1,2)] by (auto simp: kinv_kstate)
    then show ?thesis using s2(1) by blast
  qed
qed

lemma lock_unready_block:
  assumes k: "kstate s C" and p: "p \<in> runnable s"
  shows "\<exists>s'. lock_unready p s = Some (Ret s') \<and> rq.holds s' (runnable s - {p}) \<and> cur_ok s' \<and> core s' C \<and>
     (\<forall>x. p_flags (proc s' x) = p_flags (proc s x)) \<and> pending s' = pending s \<and> sig_procs s' = sig_procs s"
proof -
  let ?s = "s\<lparr>switching := True\<rparr>"
  obtain s' where s': "unready p ?s = Some (Ret s')" "rq.holds s' (runnable s - {p})" "cur_ok s'" "sched_frame ?s s'"
    using unready_block [of ?s "runnable s" p] kstateD(1,2) [OF k] kstateD(8) [OF k, of p] p
    by (auto simp: healthy_task_def runnable_def)
  have "core s' C" using core_frame [OF s'(4)] kstateD(3) [OF k] by simp
  moreover have "pending s' = pending s" using field_frame(3) [OF s'(4)] by simp
  ultimately show ?thesis using s' by (simp add: lock_unready_def sched_frame_sel [OF s'(4)])
qed

text \<open>Setting the signal flags of a process that is not in a ready queue.\<close>

lemma set_pending_kinv:
  assumes h: "rq.holds s (runnable s - {p})" "cur_ok s" "core s C" and p: "0 \<le> p" "p < NR_PROCS"
    and np: "\<not> pending s p" and cnt: "sig_procs s = int (card {x. pending s x})"
  shows "kinv ((upd_proc p (p_flags_update (\<lambda>f. f OR PENDING OR SIG_PENDING)) s)\<lparr>sig_procs := sig_procs s + 1\<rparr>)"
    (is "kinv (?s\<lparr>sig_procs := _\<rparr>)")
proof -
  have nt: "\<not> istaskp p" using p by (simp add: istaskp_def)
  have fin: "finite {x. pending s x}" by (rule kstate_pending_finite) (use h(3) in \<open>simp add: core_def\<close>)
  have sq: "same_queues s ?s" by (rule same_queues_upd) simp_all
  have "w OR PENDING OR SIG_PENDING \<noteq> 0" for w by (rule flags_nonzero [of _ PENDING]) simp
  then have "runnable ?s = runnable s - {p}" by (auto simp: runnable_def)
  then have "rq.holds ?s (runnable ?s)" "cur_ok ?s" using h(1,2) by (simp_all only: same_queuesD [OF sq])
  moreover have "core ?s C"
  proof (rule core_cong [OF h(3)])
    fix x
    have "blocked_ok s x" using h(3) by (simp add: core_def)
    then show "blocked_ok ?s x" using nt p by (cases "x = p") (simp_all add: blocked_ok_def field_defs)
    show "setup_ok ?s" using h(3) by (auto simp: core_def setup_ok_def mess_fault_def Let_def)
  qed (auto simp: fun_eq_iff field_defs)
  moreover have "{x. pending ?s x} = insert p {x. pending s x}" by (auto simp: pending_def)
  ultimately show ?thesis using cnt np fin by (auto simp: kinv_kstate kstate_def [of ?s])
qed

text \<open>Fields the invariant does not look at.\<close>

lemma irrelevant_core:
  assumes c: "core s C" and f: "\<And>r. p_flags (f r) = p_flags r" "\<And>r. p_sendto (f r) = p_sendto r" "\<And>r. p_sendlink (f r) = p_sendlink r"
      "\<And>r. p_callerq (f r) = p_callerq r" "\<And>r. p_getfrom (f r) = p_getfrom r" "\<And>r. p_stguard_ok (f r) = p_stguard_ok r"
      "\<And>r. map_D (f r) = map_D r" "\<And>r. map_S (f r) = map_S r"
  shows "core (upd_proc p f s) C" (is "core ?s C")
proof (rule core_cong [OF c])
  fix x
  have b: "blocked_ok s x" and u: "setup_ok s" using c by (simp_all add: core_def)
  show "blocked_ok ?s x" using b by (cases "x = p") (simp_all add: blocked_ok_def field_defs f)
  show "setup_ok ?s" using u by (auto simp: setup_ok_def mess_fault_def Let_def f)
qed (auto simp: fun_eq_iff field_defs f)

lemma irrelevant_kinv:
  assumes "kinv s" and f: "\<And>r. p_flags (f r) = p_flags r" "\<And>r. p_sendto (f r) = p_sendto r" "\<And>r. p_sendlink (f r) = p_sendlink r"
      "\<And>r. p_callerq (f r) = p_callerq r" "\<And>r. p_getfrom (f r) = p_getfrom r" "\<And>r. p_stguard_ok (f r) = p_stguard_ok r"
      "\<And>r. map_D (f r) = map_D r" "\<And>r. map_S (f r) = map_S r" "\<And>r. p_nextready (f r) = p_nextready r"
      "\<And>r. p_shadow (f r) = p_shadow r"
  shows "kinv (upd_proc p f s)" (is "kinv ?s")
proof -
  obtain C where k: "kstate s C" using assms(1) by (auto simp: kinv_kstate)
  have sq: "same_queues s ?s" by (rule same_queues_upd) (simp_all add: f)
  have pn: "pending ?s = pending s" by (simp add: pending_def fun_eq_iff f)
  have "runnable ?s = runnable s" by (auto simp: runnable_def f)
  moreover have "core ?s C" by (rule irrelevant_core [OF kstateD(3) [OF k]]) (simp_all add: f)
  ultimately have "kstate ?s C" using kstateD(1,2) [OF k] by (simp add: kstate_def same_queuesD [OF sq])
  then show ?thesis using assms(1) pn by (auto simp: kinv_kstate)
qed

lemma add_signal_kinv:
  "kinv s \<Longrightarrow> kinv (upd_proc p (\<lambda>r. r\<lparr>p_pending := f (p_pending r), p_pendcount := g (p_pendcount r)\<rparr>) s)"
  by (rule irrelevant_kinv) simp_all

lemma kmem_kinv [simp]: "kinv (s\<lparr>kmem := k\<rparr>) = kinv s"
proof -
  have "pending (s\<lparr>kmem := k\<rparr>) = pending s" by (simp add: pending_def fun_eq_iff)
  then show ?thesis by (simp add: kinv_kstate)
qed

lemma cause_sig_kinv:
  assumes "kinv s" and p: "0 \<le> p" "p < NR_PROCS"
  shows "\<exists>s'. cause_sig p n s = Some (Ret s') \<and> kinv s'"
proof (cases "sigismember (p_pending (proc s p)) n")
  case True
  then show ?thesis using assms(1) by (simp add: cause_sig_def)
next
  case False
  define s1 where "s1 = upd_proc p (\<lambda>r. r\<lparr>p_pending := sigaddset n (p_pending r), p_pendcount := p_pendcount r + 1\<rparr>) s"
  have i1: "kinv s1" unfolding s1_def by (rule add_signal_kinv [OF assms(1)])
  then obtain C where k1: "kstate s1 C" by (auto simp: kinv_kstate)
  show ?thesis
  proof (cases "has (p_flags (proc s1 p)) PENDING")
    case True
    then show ?thesis using False i1 unfolding cause_sig_def Let_def s1_def [symmetric] by simp
  next
    case np: False
    obtain s2 where s2: "(if p_flags (proc s1 p) = 0 then lock_unready p s1 else Some (Ret s1)) = Some (Ret s2)"
      and h: "rq.holds s2 (runnable s1 - {p})" "cur_ok s2" "core s2 C"
      and fl: "\<And>x. p_flags (proc s2 x) = p_flags (proc s1 x)" "sig_procs s2 = sig_procs s1"
    proof (cases "p_flags (proc s1 p) = 0")
      case True
      then have "p \<in> runnable s1"
        using p by (auto simp: runnable_def schedulable_def isokprocn_def IDLE_def HARDWARE_def NR_TASKS_def)
      from lock_unready_block [OF k1 this] True that show ?thesis by auto
    next
      case False
      then have "runnable s1 - {p} = runnable s1" by (auto simp: runnable_def)
      then show ?thesis using that [of s1] False kstateD(1,2,3) [OF k1] by simp
    qed
    have eqs: "runnable s2 = runnable s1" "pending s2 = pending s1" by (simp_all add: runnable_def pending_def fun_eq_iff fl)
    define s3 where "s3 = (upd_proc p (p_flags_update (\<lambda>f. f OR PENDING OR SIG_PENDING)) s2)\<lparr>sig_procs := sig_procs s2 + 1\<rparr>"
    have "kinv s3" unfolding s3_def
      by (rule set_pending_kinv) (use h p np i1 in \<open>simp_all add: eqs fl kinv_def pending_def\<close>)
    moreover have "cause_sig p n s = (if \<not> has (p_flags (proc s3 MM_PROC_NR)) RECEIVING \<or> p_getfrom (proc s3 MM_PROC_NR) \<noteq> ANY
        then Some (Ret s3) else inform s3)"
      using False np s2 unfolding cause_sig_def Let_def s1_def [symmetric] by (simp add: s3_def)
    ultimately show ?thesis using inform_kinv [of s3] by (auto simp: receiving_def)
  qed
qed

section \<open>Receiving\<close>

definition unlink_sender :: "int \<Rightarrow> int \<Rightarrow> int option \<Rightarrow> kernel \<Rightarrow> kernel" where
  "unlink_sender c x pv s =
     upd_proc x (p_flags_update (\<lambda>f. f AND NOT SENDING))
       (case pv of None \<Rightarrow> upd_proc c (p_callerq_update (\<lambda>_. slink s x)) s
                 | Some l \<Rightarrow> upd_proc l (p_sendlink_update (\<lambda>_. slink s x)) s)"

lemma unlink_sender_fields:
  "sending (unlink_sender c x pv s) = (sending s)(x := False)" "sendto (unlink_sender c x pv s) = sendto s"
  "receiving (unlink_sender c x pv s) = receiving s" "pending (unlink_sender c x pv s) = pending s"
  "callq (unlink_sender c x pv s) = (if pv = None then (callq s)(c := slink s x) else callq s)"
  "slink (unlink_sender c x pv s) = (case pv of None \<Rightarrow> slink s | Some l \<Rightarrow> (slink s)(l := slink s x))"
  "p_getfrom (proc (unlink_sender c x pv s) p) = p_getfrom (proc s p)"
  "p_messbuf (proc (unlink_sender c x pv s) p) = p_messbuf (proc s p)"
  "p_stguard_ok (proc (unlink_sender c x pv s) p) = p_stguard_ok (proc s p)"
  "map_D (proc (unlink_sender c x pv s) p) = map_D (proc s p)" "map_S (proc (unlink_sender c x pv s) p) = map_S (proc s p)"
  "m_addr (unlink_sender c x pv s) = m_addr s" "mess_size (unlink_sender c x pv s) = mess_size s"
  "sig_procs (unlink_sender c x pv s) = sig_procs s" "kmem (unlink_sender c x pv s) = kmem s"
  "proc_ptr (unlink_sender c x pv s) = proc_ptr s"
  "p_flags (proc (unlink_sender c x pv s) p) = (if p = x then p_flags (proc s x) AND NOT SENDING else p_flags (proc s p))"
  by (auto simp: unlink_sender_def field_defs fun_eq_iff split: option.splits)

lemma unlink_sender_queues: "same_queues s (unlink_sender c x pv s)"
  unfolding unlink_sender_def by (intro same_queues_upd) (auto intro!: same_queues_upd split: option.split)

lemma unlink_sender_core:
  assumes core: "core s C" and Cc: "C c = us @ x # vs" and pv: "pv = (if us = [] then None else Some (last us))"
  shows "core (unlink_sender c x pv s) (C(c := us @ vs))"
proof -
  let ?s = "unlink_sender c x pv s"
  have "waiting ?s (C(c := us @ vs))"
    by (rule waiting_remove [of s C c us x vs]) (use Cc core pv in \<open>auto simp: core_def unlink_sender_fields\<close>)
  moreover have "sends ?s \<subseteq> sends s" by (auto simp: sends_def unlink_sender_fields split: if_splits)
  then have "acyclic (sends ?s)" using core acyclic_subset by (auto simp: core_def)
  moreover have "blocked_ok ?s p" for p
  proof -
    have "blocked_ok s p" using core by (simp add: core_def)
    then show ?thesis by (cases "p = x") (simp_all add: blocked_ok_def unlink_sender_fields)
  qed
  moreover have "setup_ok ?s" using core by (auto simp: core_def setup_ok_def mess_fault_def unlink_sender_fields Let_def)
  ultimately show ?thesis by (simp add: core_def)
qed

lemma accept_from_wake:
  assumes w: "waiting s C" and Cc: "C c = us @ x # vs" and pv: "pv = (if us = [] then None else Some (last us))"
  shows "accept_from c pv x m s = wake x (unlink_sender c x pv (cp_mess x x (p_messbuf (proc s x)) c m s))"
proof -
  have ch: "chain (slink s) (callq s c) (us @ x # vs)" using waitingD(1) [OF w, of c] Cc by simp
  have "callq s c = Some x \<longleftrightarrow> us = []" using ch chain_distinct [OF ch] by (cases us) auto
  then have "Some x = p_callerq (proc s c) \<longleftrightarrow> pv = None" using pv by (auto simp: callq_def)
  then show ?thesis using pv
    by (cases pv) (simp_all add: accept_from_def wake_def unlink_sender_def slink_def Let_def)
qed

lemma accept_from_kstate:
  assumes k: "kstate s C" and Cc: "C c = us @ x # vs" and pv: "pv = (if us = [] then None else Some (last us))"
    and u: "\<not> isuserp c \<Longrightarrow> \<not> isuserp (proc_ptr s)"
  shows "kstate (accept_from c pv x m s) (C(c := us @ vs))"
proof -
  let ?k = "cp_mess x x (p_messbuf (proc s x)) c m s"
  let ?s = "unlink_sender c x pv ?k"
  have kk: "kstate ?k C" using k by (simp add: cp_mess_def)
  note S = kstateD [OF kk]
  have x: "sending ?k x" "sendto ?k x = c" using waitingD(2) [OF S(4), of x c] Cc by auto
  have bx: "schedulable x" "isuserp x \<Longrightarrow> issysentn c" using S(6) [of x] x by (auto simp: blocked_ok_def)
  have sq: "same_queues ?k ?s" by (rule unlink_sender_queues)
  have "runnable ?s - {x} = runnable ?k" using x by (auto simp: runnable_def unlink_sender_fields sending_def)
  then have "rq.holds ?s (runnable ?s - {x})" "cur_ok ?s" using S(1,2) by (simp_all only: same_queuesD [OF sq])
  moreover have "core ?s (C(c := us @ vs))" by (rule unlink_sender_core [OF S(3) Cc pv])
  moreover have "\<not> isuserp (proc_ptr ?s)" if "isuserp x"
    using bx(2) [OF that] u by (auto simp: unlink_sender_fields issysentn_def isuserp_def LOW_USER_def MM_PROC_NR_def FS_PROC_NR_def)
  ultimately show ?thesis using accept_from_wake [OF kstateD(4) [OF k] Cc pv] bx(1) by (simp add: wake_kstate)
qed

lemma accept_from_fields:
  assumes "waiting s C" "C c = us @ x # vs" "pv = (if us = [] then None else Some (last us))"
  shows "pending (accept_from c pv x m s) = pending s" "sig_procs (accept_from c pv x m s) = sig_procs s"
    "p_flags (proc (accept_from c pv x m s) p) = (if p = x then p_flags (proc s x) AND NOT SENDING else p_flags (proc s p))"
    "kmem (accept_from c pv x m s) = (kmem s)(mess_phys s c m := (kmem s (mess_phys s x (p_messbuf (proc s x))))\<lparr>m_source := x\<rparr>)"
  unfolding accept_from_wake [OF assms]
  by (simp_all add: sched_frame_sel [OF wake_frame] field_frame(3) [OF wake_frame] unlink_sender_fields)
     (auto simp: cp_mess_def pending_def fun_eq_iff)

text \<open>Setting \<^verbatim>\<open>RECEIVING\<close> of a process that is not in a ready queue.\<close>

lemma set_receiving_kinv:
  assumes h: "rq.holds s (runnable s - {c})" "cur_ok s" "core s C" and c: "schedulable c"
    and both: "sending s c \<Longrightarrow> sendto s c = p_getfrom (proc s c)" and cnt: "sig_procs s = int (card {p. pending s p})"
  shows "kinv (upd_proc c (p_flags_update (\<lambda>f. f OR RECEIVING)) s)" (is "kinv ?s")
proof -
  have sq: "same_queues s ?s" by (rule same_queues_upd) simp_all
  have "w OR RECEIVING \<noteq> 0" for w by (rule flags_nonzero [of _ RECEIVING]) simp
  then have "runnable ?s = runnable s - {c}" by (auto simp: runnable_def)
  then have "rq.holds ?s (runnable ?s)" "cur_ok ?s" using h(1,2) by (simp_all only: same_queuesD [OF sq])
  moreover have "core ?s C"
  proof (rule core_cong [OF h(3)])
    fix x
    have "blocked_ok s x" using h(3) by (simp add: core_def)
    then show "blocked_ok ?s x" using c both by (cases "x = c") (simp_all add: blocked_ok_def field_defs)
    show "setup_ok ?s" using h(3) by (auto simp: core_def setup_ok_def mess_fault_def Let_def)
  qed (auto simp: fun_eq_iff field_defs)
  moreover have "pending ?s = pending s" by (simp add: pending_def fun_eq_iff)
  ultimately show ?thesis using cnt by (auto simp: kinv_kstate kstate_def)
qed

lemma set_getfrom_core:
  assumes "core s C" and "receiving s c \<Longrightarrow> sending s c \<Longrightarrow> src = sendto s c"
  shows "core (upd_proc c (\<lambda>r. r\<lparr>p_getfrom := src, p_messbuf := m\<rparr>) s) C" (is "core ?s C")
proof (rule core_cong [OF assms(1)])
  fix x
  have "blocked_ok s x" using assms(1) by (simp add: core_def)
  then show "blocked_ok ?s x" using assms(2) by (cases "x = c") (simp_all add: blocked_ok_def field_defs)
  show "setup_ok ?s" using assms(1) by (auto simp: core_def setup_ok_def mess_fault_def Let_def)
qed (auto simp: fun_eq_iff field_defs)

lemma block_receiver_ok:
  assumes "kinv s" and c: "schedulable c" "p_flags (proc s c) = 0 \<or> sending s c \<and> sendto s c = src"
  shows "\<exists>s'. block_receiver c src m s = Some (Ret (OK, s')) \<and> kinv s'"
proof -
  obtain C where k: "kstate s C" and cnt: "sig_procs s = int (card {p. pending s p})"
    using assms(1) by (auto simp: kinv_kstate)
  define s1 where "s1 = upd_proc c (\<lambda>r. r\<lparr>p_getfrom := src, p_messbuf := m\<rparr>) s"
  have sq: "same_queues s s1" unfolding s1_def by (rule same_queues_upd) simp_all
  have eq1: "sending s1 = sending s" "sendto s1 = sendto s" "pending s1 = pending s" "runnable s1 = runnable s"
      "p_flags (proc s1 x) = p_flags (proc s x)" "sig_procs s1 = sig_procs s" "p_getfrom (proc s1 c) = src" for x
    by (auto simp: s1_def field_defs fun_eq_iff runnable_def)
  have core1: "core s1 C" unfolding s1_def
    by (rule set_getfrom_core [OF kstateD(3) [OF k]]) (use c(2) in \<open>auto simp: field_defs\<close>)
  have hc: "rq.holds s1 (runnable s)" "cur_ok s1" using kstateD(1,2) [OF k] by (simp_all only: same_queuesD [OF sq])
  obtain s2 where s2: "(if p_flags (proc s1 c) = 0 then unready c s1 else Some (Ret s1)) = Some (Ret s2)"
    "rq.holds s2 (runnable s - {c})" "cur_ok s2" "sched_frame s1 s2"
  proof (cases "p_flags (proc s1 c) = 0")
    case True
    have "healthy_task s1 c" using kstateD(8) [OF k c(1)] by (simp add: healthy_task_def s1_def)
    then show ?thesis using unready_block [OF hc, of c] that c(1) True by (auto simp: runnable_def eq1)
  next
    case False
    then have "runnable s - {c} = runnable s" by (auto simp: runnable_def eq1)
    then show ?thesis using that [of s1] hc False by simp
  qed
  let ?s3 = "upd_proc c (p_flags_update (\<lambda>f. f OR RECEIVING)) s2"
  have "kinv ?s3"
    by (rule set_receiving_kinv [where C = C])
       (use s2 c core1 cnt in \<open>auto simp: runnable_frame [OF s2(4)] core_frame [OF s2(4)] field_frame [OF s2(4)] sched_frame_sel [OF s2(4)] eq1 sending_def\<close>)
  moreover have "\<exists>s4. inform ?s3 = Some (Ret s4) \<and> kinv s4" if "c = MM_PROC_NR" "src = ANY"
    by (rule inform_kinv [OF \<open>kinv ?s3\<close>]) (use that eq1(7) in \<open>simp_all add: receiving_def sched_frame_sel [OF s2(4)]\<close>)
  moreover have "block_receiver c src m s =
      (if sig_procs ?s3 > 0 \<and> c = MM_PROC_NR \<and> src = ANY
       then and_then (inform ?s3) (\<lambda>s4. Some (Ret (OK, s4))) else Some (Ret (OK, ?s3)))"
    unfolding block_receiver_def Let_def s1_def [symmetric] s2(1) and_then_simps by (rule refl)
  ultimately show ?thesis by (auto split: if_splits)
qed

text \<open>What blocking in a receive leaves behind, when no kernel signal is passed on.\<close>

lemma block_receiver_fields:
  assumes k: "kstate s C" and c: "c \<in> runnable s" and ns: "\<not> (sig_procs s > 0 \<and> c = MM_PROC_NR \<and> src = ANY)"
  shows "\<exists>s'. block_receiver c src m s = Some (Ret (OK, s')) \<and> core s' C \<and>
     (\<forall>p. p_flags (proc s' p) = (if p = c then RECEIVING else p_flags (proc s p))) \<and>
     p_getfrom (proc s' c) = src \<and> p_messbuf (proc s' c) = m \<and> kmem s' = kmem s \<and>
     (\<forall>p a. mess_phys s' p a = mess_phys s p a) \<and> (\<forall>p a. mess_fault s' p a = mess_fault s p a)"
proof -
  define s1 where "s1 = upd_proc c (\<lambda>r. r\<lparr>p_getfrom := src, p_messbuf := m\<rparr>) s"
  have fl: "p_flags (proc s c) = 0" "schedulable c" using c by (auto simp: runnable_def)
  have sq: "same_queues s s1" unfolding s1_def by (rule same_queues_upd) simp_all
  have core1: "core s1 C" unfolding s1_def
    by (rule set_getfrom_core [OF kstateD(3) [OF k]]) (use fl in \<open>auto simp: field_defs\<close>)
  have hc: "rq.holds s1 (runnable s)" "cur_ok s1" using kstateD(1,2) [OF k] by (simp_all only: same_queuesD [OF sq])
  have "healthy_task s1 c" using kstateD(8) [OF k fl(2)] by (simp add: healthy_task_def s1_def)
  then obtain s2 where s2: "unready c s1 = Some (Ret s2)" "rq.holds s2 (runnable s - {c})" "cur_ok s2" "sched_frame s1 s2"
    using unready_block [OF hc c] by blast
  let ?s3 = "upd_proc c (p_flags_update (\<lambda>f. f OR RECEIVING)) s2"
  have flags: "p_flags (proc s2 p) = p_flags (proc s p)" "sig_procs s2 = sig_procs s" for p
    by (simp_all add: sched_frame_sel [OF s2(4)] s1_def)
  have blk: "block_receiver c src m s = Some (Ret (OK, ?s3))"
    using s2(1) ns fl flags unfolding block_receiver_def Let_def s1_def [symmetric] by (auto simp: s1_def)
  have "runnable s2 - {c} = runnable s - {c}" by (simp add: runnable_def flags)
  then have "core ?s3 C"
  proof -
    have c2: "core s2 C" using core1 core_frame [OF s2(4)] by simp
    show ?thesis
    proof (rule core_cong [OF c2])
      fix x
      have "blocked_ok s2 x" using c2 by (simp add: core_def)
      then show "blocked_ok ?s3 x" using fl by (cases "x = c") (simp_all add: blocked_ok_def field_defs flags)
      show "setup_ok ?s3" using c2 by (auto simp: core_def setup_ok_def mess_fault_def Let_def)
    qed (auto simp: fun_eq_iff field_defs)
  qed
  moreover have "mess_phys ?s3 p a = mess_phys s p a" "mess_fault ?s3 p a = mess_fault s p a" for p a
    by (simp_all add: mess_phys_def mess_fault_def Let_def sched_frame_sel [OF s2(4)] s1_def)
  ultimately show ?thesis using blk fl
    by (auto simp: flags sched_frame_sel [OF s2(4)] s1_def)
qed

definition int_pending :: "kernel \<Rightarrow> int \<Rightarrow> int \<Rightarrow> bool" where
  "int_pending s c src \<longleftrightarrow> p_int_blocked (proc s c) \<and> isrxhardware src"

lemma mini_rec_cases:
  assumes "waiting s C" "\<not> sending s c"
  shows "C c = us @ x # vs \<Longrightarrow> (\<forall>u \<in> set us. src \<noteq> ANY \<and> src \<noteq> u) \<Longrightarrow> src = ANY \<or> src = x \<Longrightarrow>
      mini_rec c src m s = Some (Ret (OK, accept_from c (if us = [] then None else Some (last us)) x m s))"
    "(\<forall>x \<in> set (C c). src \<noteq> ANY \<and> src \<noteq> x) \<Longrightarrow> mini_rec c src m s =
       (if int_pending s c src
        then Some (Ret (OK, upd_proc c (p_int_blocked_update (\<lambda>_. False)) (hard_int_message m s)))
        else block_receiver c src m s)"
  using find_sender_some [of s "callq s c" us x vs src None] find_sender_none [of s "callq s c" "C c" src None]
    waitingD(1) [OF assms(1), of c] assms(2)
  by (auto simp: mini_rec_def sending_def callq_def int_pending_def)

lemma mini_rec_kinv:
  assumes inv: "kinv s" and c: "schedulable c"
    and st: "p_flags (proc s c) = 0 \<and> (isuserp c \<or> \<not> isuserp (proc_ptr s)) \<or> sending s c \<and> sendto s c = src"
  shows "\<exists>s'. mini_rec c src m s = Some (Ret (OK, s')) \<and> kinv s'"
proof -
  obtain C where k: "kstate s C" and cnt: "sig_procs s = int (card {p. pending s p})"
    using inv by (auto simp: kinv_kstate)
  have blk: "\<exists>s'. block_receiver c src m s = Some (Ret (OK, s')) \<and> kinv s'"
    by (rule block_receiver_ok [OF inv c]) (use st in auto)
  show ?thesis
  proof (cases "sending s c")
    case True
    then show ?thesis using blk by (simp add: mini_rec_def sending_def)
  next
    case False
    note cases = mini_rec_cases [OF kstateD(4) [OF k] False]
    show ?thesis
    proof (cases "\<exists>x \<in> set (C c). src = ANY \<or> src = x")
      case True
      then obtain us x vs where d: "C c = us @ x # vs" "\<forall>u \<in> set us. src \<noteq> ANY \<and> src \<noteq> u" "src = ANY \<or> src = x"
        using split_list_first_prop [of "C c" "\<lambda>x. src = ANY \<or> src = x"] by auto
      let ?pv = "if us = [] then None else Some (last us)"
      have "kstate (accept_from c ?pv x m s) (C(c := us @ vs))"
        by (rule accept_from_kstate [OF k d(1) refl]) (use False st in auto)
      moreover note accept_from_fields [OF kstateD(4) [OF k] d(1) refl]
      ultimately have "kinv (accept_from c ?pv x m s)" using cnt by (auto simp: kinv_kstate)
      then show ?thesis using cases(1) [OF d] by auto
    next
      case False
      have "kinv (upd_proc c (p_int_blocked_update (\<lambda>_. False)) (hard_int_message m s))"
        by (rule irrelevant_kinv) (use inv in \<open>simp_all add: hard_int_message_def\<close>)
      then show ?thesis using cases(2) [of src m] False blk by auto
    qed
  qed
qed

section \<open>Entry points\<close>

lemma cur_runnable:
  assumes "rq.holds s (runnable s)" "cur_ok s" "proc_ptr s \<noteq> IDLE" shows "proc_ptr s \<in> runnable s"
proof -
  obtain Q where Q: "ready_rel s Q" "\<And>q p. p \<in> set (Q q) \<longleftrightarrow> p \<in> runnable s \<and> queue_of s p = q"
    by (rule holdsE [OF assms(1)]) blast
  have "\<exists>q. Q q \<noteq> [] \<and> proc_ptr s = hd (Q q)" using assms(2,3) by (auto simp: cur_ok_iff [OF Q(1)] split: if_splits)
  then obtain q where "Q q \<noteq> []" "proc_ptr s = hd (Q q)" by blast
  then have "proc_ptr s \<in> set (Q q)" by simp
  then show ?thesis using Q(2) by simp
qed

text \<open>
  The calls a process may issue: user processes may pass anything; the system processes are
  trusted not to send to \<^verbatim>\<open>ANY\<close> or to themselves.
\<close>

definition trusted_call :: "kernel \<Rightarrow> int \<Rightarrow> int \<Rightarrow> bool" where
  "trusted_call s func src_dest \<longleftrightarrow>
     isuserp (proc_ptr s) \<or> even func \<or> (src_dest \<noteq> ANY \<and> src_dest \<noteq> proc_ptr s)"

lemma sys_call_kinv:
  assumes inv: "kinv s" and cur: "proc_ptr s \<noteq> IDLE" and tr: "trusted_call s func sd"
  shows "\<exists>n s'. sys_call func sd m s = Some (Ret (n, s')) \<and> kinv s'"
proof -
  obtain C where k: "kstate s C" and cnt: "sig_procs s = int (card {p. pending s p})"
    using inv by (auto simp: kinv_kstate)
  let ?c = "proc_ptr s"
  have run: "?c \<in> runnable s" by (rule cur_runnable [OF kstateD(1,2) [OF k] cur])
  then have sc: "schedulable ?c" and fl: "p_flags (proc s ?c) = 0" by (auto simp: runnable_def)
  consider (bad) "\<not> isoksrc_dest sd \<or> isuserp ?c \<and> func \<noteq> BOTH"
    | (rec) "isoksrc_dest sd" "\<not> (isuserp ?c \<and> func \<noteq> BOTH)" "even func"
    | (snd) "isoksrc_dest sd" "\<not> (isuserp ?c \<and> func \<noteq> BOTH)" "odd func" "\<not> (isuserp ?c \<and> \<not> issysentn sd)"
    | (dst) "isoksrc_dest sd" "\<not> (isuserp ?c \<and> func \<noteq> BOTH)" "odd func" "isuserp ?c" "\<not> issysentn sd"
    by blast
  then show ?thesis
  proof cases
    case bad
    then show ?thesis using inv by (auto simp: sys_call_def Let_def)
  next
    case rec
    then have "sys_call func sd m s = mini_rec ?c sd m s" by (auto simp: sys_call_def Let_def)
    then show ?thesis using mini_rec_kinv [OF inv sc, of sd m] fl by auto
  next
    case dst
    then have "mini_send ?c sd m s = Some (Ret (E_BAD_DEST, s))" by (simp add: mini_send_def)
    then show ?thesis using dst inv by (auto simp: sys_call_def errno_defs)
  next
    case snd
    have sysent: "isokprocn p" "\<not> isuserp p" if "issysentn p" for p
      using that by (auto simp: issysentn_def isokprocn_def isuserp_def LOW_USER_def FS_PROC_NR_def MM_PROC_NR_def NR_TASKS_def NR_PROCS_def)
    have d: "isokprocn sd" "?c \<noteq> sd" using snd tr sysent [of sd] by (auto simp: trusted_call_def isoksrc_dest_def)
    obtain n s1 C1 where s1: "mini_send ?c sd m s = Some (Ret (n, s1))" "kstate s1 C1" "pending s1 = pending s"
       "sig_procs s1 = sig_procs s"
       "if n \<noteq> OK then s1 = s else if is_waiting_for s sd ?c then s1 = deliver ?c sd m s
        else sending s1 ?c \<and> sendto s1 ?c = sd \<and> receiving s1 ?c = receiving s ?c"
      using mini_send_kstate [OF k d, of m] run by auto
    have i1: "kinv s1" using s1(2,3,4) cnt by (auto simp: kinv_kstate)
    have "p_flags (proc s1 ?c) = 0 \<and> (isuserp ?c \<or> \<not> isuserp (proc_ptr s1)) \<or> sending s1 ?c \<and> sendto s1 ?c = sd" if "n = OK"
    proof (cases "is_waiting_for s sd ?c")
      case True
      then have "s1 = deliver ?c sd m s" using s1(5) that by simp
      then show ?thesis using fl d(2) deliver_proc_ptr [of ?c sd m s] istaskp_not_user by (auto simp: deliver_fields)
    qed (use s1(5) that in simp)
    then have "n = OK \<Longrightarrow> \<exists>s'. mini_rec ?c sd m s1 = Some (Ret (OK, s')) \<and> kinv s'"
      by (intro mini_rec_kinv [OF i1 sc]) blast
    then show ?thesis using snd s1(1) i1 inv by (auto simp: sys_call_def)
  qed
qed

lemma ready_task_inline:
  assumes "istaskp rp"
  shows "upd_proc rp (p_nextready_update (\<lambda>_. None)) (set_rdy_tail TASK_Q (Some rp)
           (case rdy_head s TASK_Q of
              Some _ \<Rightarrow> upd_proc (the (rdy_tail s TASK_Q)) (p_nextready_update (\<lambda>_. Some rp)) s
            | None \<Rightarrow> (set_rdy_head TASK_Q (Some rp) s)\<lparr>proc_ptr := rp\<rparr>)) = ready rp s"
  using assms by (auto simp: ready_def enqueue_tail_def Let_def set_rdy_head_def set_rdy_tail_def split: option.split)

lemma interrupt_wakes:
  assumes "istaskp rp" "k_reenter s = 0" "\<not> switching s" "receiving s rp" "\<not> sending s rp" "isrxhardware (p_getfrom (proc s rp))"
  shows "interrupt rp s = ready rp (upd_proc rp (\<lambda>r. r\<lparr>p_flags := p_flags r AND NOT RECEIVING, p_int_blocked := False\<rparr>)
            (hard_int_message (p_messbuf (proc s rp)) s))"
  using assms ready_task_inline [OF assms(1)]
  by (simp add: interrupt_def only_receiving receiving_def sending_def Let_def cong: option.case_cong)

lemma held_kinv [simp]: "kinv (t\<lparr>held_head := a\<rparr>) = kinv t" "kinv (t\<lparr>held_tail := a\<rparr>) = kinv t"
proof -
  have p: "pending (t\<lparr>held_head := a\<rparr>) = pending t" "pending (t\<lparr>held_tail := a\<rparr>) = pending t"
    and r: "runnable (t\<lparr>held_head := a\<rparr>) = runnable t" "runnable (t\<lparr>held_tail := a\<rparr>) = runnable t"
    and l: "slink (t\<lparr>held_head := a\<rparr>) = slink t" "slink (t\<lparr>held_tail := a\<rparr>) = slink t"
    by (simp_all add: pending_def runnable_def slink_def fun_eq_iff)
  have c: "core (t\<lparr>held_head := a\<rparr>) C = core t C" "core (t\<lparr>held_tail := a\<rparr>) C = core t C" for C
    using l by (simp_all add: core_def waiting_def sends_def blocked_ok_def setup_ok_def mess_fault_def
        sending_def receiving_def pending_def sendto_def callq_def)
  have q: "same_queues t (t\<lparr>held_head := a\<rparr>)" "same_queues t (t\<lparr>held_tail := a\<rparr>)" by simp_all
  show "kinv (t\<lparr>held_head := a\<rparr>) = kinv t" "kinv (t\<lparr>held_tail := a\<rparr>) = kinv t"
    by (simp_all add: kinv_def p r c same_queuesD [OF q(1)] same_queuesD [OF q(2)])
qed

lemma held_upd_kinv:
  "kinv t \<Longrightarrow> kinv (upd_proc p (p_int_held_update f) t)" "kinv t \<Longrightarrow> kinv (upd_proc p (p_nextheld_update g) t)"
  by (rule irrelevant_kinv; simp)+

lemma hold_interrupt_kinv: "kinv s \<Longrightarrow> kinv (hold_interrupt rp s)"
  by (auto simp: hold_interrupt_def Let_def intro!: held_upd_kinv split: option.split)

lemma interrupt_kinv:
  assumes inv: "kinv s" and t: "istaskp rp" "schedulable rp"
  shows "kinv (interrupt rp s)"
proof -
  consider (hold) "k_reenter s \<noteq> 0 \<or> switching s"
    | (late) "k_reenter s = 0" "\<not> switching s" "\<not> (receiving s rp \<and> \<not> sending s rp \<and> isrxhardware (p_getfrom (proc s rp)))"
    | (now) "k_reenter s = 0" "\<not> switching s" "receiving s rp" "\<not> sending s rp" "isrxhardware (p_getfrom (proc s rp))"
    by auto
  then show ?thesis
  proof cases
    case hold
    then show ?thesis using hold_interrupt_kinv [OF inv] by (auto simp: interrupt_def)
  next
    case late
    then have "interrupt rp s = upd_proc rp (p_int_blocked_update (\<lambda>_. True)) s"
      by (auto simp: interrupt_def only_receiving receiving_def sending_def)
    then show ?thesis by (auto intro: irrelevant_kinv [OF inv])
  next
    case now
    obtain C where k: "kstate s C" and cnt: "sig_procs s = int (card {p. pending s p})"
      using inv by (auto simp: kinv_kstate)
    let ?k = "hard_int_message (p_messbuf (proc s rp)) s"
    let ?r = "upd_proc rp (p_flags_update (\<lambda>f. f AND NOT RECEIVING)) ?k"
    let ?s = "upd_proc rp (p_int_blocked_update (\<lambda>_. False)) ?r"
    have eq: "interrupt rp s = ready rp ?s"
    proof -
      have "upd_proc rp (\<lambda>r. r\<lparr>p_flags := p_flags r AND NOT RECEIVING, p_int_blocked := False\<rparr>) ?k = ?s"
        by (cases "proc ?k rp") (simp add: upd_proc_def)
      then show ?thesis using interrupt_wakes [OF t(1) now] by (simp only:)
    qed
    have kk: "core ?k C" using kstateD(3) [OF k] by (simp add: hard_int_message_def)
    have sq: "same_queues s ?s" by (intro same_queues_upd) (simp_all add: hard_int_message_def)
    have "core ?s C" by (rule irrelevant_core [OF unreceive_core [OF kk]]) simp_all
    moreover have zero: "p_flags (proc ?s rp) = 0"
    proof -
      have "ipc_only (p_flags (proc s rp))" using kstateD(6) [OF k, of rp] t by (simp add: blocked_ok_def)
      then have "p_flags (proc s rp) AND NOT RECEIVING = 0"
        using now(4) by (intro bit_eqI) (auto simp: ipc_only_def flag_simps sending_def bit_and_iff bit_or_iff bit_not_iff)
      then show ?thesis by (simp add: hard_int_message_def)
    qed
    moreover have "rq.holds ?s (runnable ?s - {rp})" "cur_ok ?s"
    proof -
      have "runnable ?s - {rp} = runnable s"
        using now(3) by (auto simp: runnable_def receiving_def hard_int_message_def)
      then show "rq.holds ?s (runnable ?s - {rp})" "cur_ok ?s"
        using kstateD(1,2) [OF k] by (simp_all only: same_queuesD [OF sq])
    qed
    ultimately have "kstate (wake rp ?s) C"
      using t istaskp_not_user by (intro wake_kstate) auto
    moreover have "wake rp ?s = ready rp ?s" unfolding wake_def zero by simp
    moreover have "pending ?s = pending s" "sig_procs ?s = sig_procs s"
      by (auto simp: pending_def hard_int_message_def fun_eq_iff)
    ultimately show ?thesis using eq cnt
      by (auto simp: kinv_kstate field_frame(3) [OF ready_frame] sched_frame_sel(17) [OF ready_frame])
  qed
qed

lemma lock_sched_kinv:
  assumes "kinv s" shows "kinv (lock_sched s)"
proof -
  let ?t = "s\<lparr>switching := True\<rparr>"
  obtain C where k: "kstate s C" and cnt: "sig_procs s = int (card {p. pending s p})"
    using assms by (auto simp: kinv_kstate)
  obtain Q where Q: "ready_rel s Q" "\<And>q p. p \<in> set (Q q) \<longleftrightarrow> p \<in> runnable s \<and> queue_of s p = q"
    by (rule holdsE [OF kstateD(1) [OF k]]) blast
  have rel: "ready_rel (sched ?t) (Q(USER_Q := rotate1 (Q USER_Q)))" by (rule sched_rel) (use Q(1) in simp)
  note fr = sched_sched_frame [of ?t]
  have qo: "queue_of (sched ?t) p = queue_of s p" for p
    using sched_frame_queue [OF fr] queue_of_cong [of ?t p s] by simp
  have "rq.holds (sched ?t) (runnable s)"
    unfolding rq.holds_def by (intro exI [of _ "Q(USER_Q := rotate1 (Q USER_Q))"] conjI rel) (auto simp: Q(2) qo)
  moreover have "cur_ok (sched ?t)"
  proof (cases "rdy_head s USER_Q")
    case None
    then have "sched ?t = ?t" by (simp add: sched_def)
    then show ?thesis using kstateD(2) [OF k] by simp
  next
    case (Some h)
    then obtain t' where "sched ?t = pick_proc t'" by (auto simp: sched_def Let_def)
    then show ?thesis using cur_ok_pick [OF rel] by simp
  qed
  ultimately have "kstate (sched ?t) C" using kstateD(3) [OF k] by (intro kstate_frame [OF fr]) simp_all
  then show ?thesis using cnt
    by (auto simp: kinv_kstate lock_sched_def field_frame(3) [OF fr] sched_frame_sel(17) [OF fr])
qed

section \<open>Histories\<close>

text \<open>
  One step of the kernel: a trap of the running process, an interrupt for a task, the end of a
  time slice, or a signal for a process. \<open>kstep\<close> holds only if the call returns.
\<close>

inductive kstep :: "kernel \<Rightarrow> kernel \<Rightarrow> bool" where
  trap: "proc_ptr s \<noteq> IDLE \<Longrightarrow> trusted_call s func sd \<Longrightarrow> sys_call func sd m s = Some (Ret (n, s')) \<Longrightarrow> kstep s s'"
| intr: "istaskp t \<Longrightarrow> schedulable t \<Longrightarrow> kstep s (interrupt t s)"
| slice: "kstep s (lock_sched s)"
| signal: "0 \<le> p \<Longrightarrow> p < NR_PROCS \<Longrightarrow> cause_sig p n s = Some (Ret s') \<Longrightarrow> kstep s s'"

inductive_cases kstepE: "kstep s s'"

lemma kstep_kinv: "kstep s s' \<Longrightarrow> kinv s \<Longrightarrow> kinv s'"
proof (induction rule: kstep.induct)
  case (trap s func sd m n s')
  then show ?case using sys_call_kinv [of s func sd m] by auto
next
  case (intr t s)
  then show ?case by (simp add: interrupt_kinv)
next
  case (slice s)
  then show ?case by (rule lock_sched_kinv)
next
  case (signal p n s s')
  then show ?case using cause_sig_kinv [of s p n] by auto
qed

lemma ksteps_kinv: "kstep\<^sup>*\<^sup>* s s' \<Longrightarrow> kinv s \<Longrightarrow> kinv s'"
  by (induction rule: rtranclp_induct) (auto intro: kstep_kinv)

end
