(* ===== verification/Kernel_Boot.thy ===== *)
theory Kernel_Boot
  imports Kernel_Ipc
begin

unbundle bit_operations_syntax

text \<open>
  Set-up of the process table by \<^verbatim>\<open>main\<close> of \<^verbatim>\<open>src/src/kernel/stmain.c\<close>, the proof that it
  establishes the invariant of \<open>Kernel_Ipc\<close>, and the properties of the kernel along histories.
  \<open>sizes\<close> is the array the build tool patches into the kernel image; registers, names and the
  text segment are not part of the process record.
\<close>

section \<open>The boot loop\<close>

text \<open>The kernel's data before \<^verbatim>\<open>main\<close> runs is zero; NIL pointers are zero.\<close>

definition bss_proc :: proc where
  "bss_proc = \<lparr>p_stguard_ok = False, p_shadow = 0, p_int_blocked = False, p_int_held = False, p_nextheld = None,
     p_flags = 0, map_D = \<lparr>mem_vir = 0, mem_phys = 0, mem_len = 0\<rparr>, map_S = \<lparr>mem_vir = 0, mem_phys = 0, mem_len = 0\<rparr>,
     p_callerq = None, p_sendlink = None, p_messbuf = 0, p_getfrom = 0, p_sendto = 0, p_nextready = None,
     p_pending = 0, p_pendcount = 0\<rparr>"

definition bss_kernel :: "32 word \<Rightarrow> 32 word \<Rightarrow> kernel" where
  "bss_kernel size_m addr_m = \<lparr>proc = \<lambda>_. bss_proc, proc_ptr = - NR_TASKS, bill_ptr = - NR_TASKS, rdy_head = \<lambda>_. None,
     rdy_tail = \<lambda>_. None, held_head = None, held_tail = None, k_reenter = 0, switching = False, sig_procs = 0,
     kmem = \<lambda>_. \<lparr>m_source = 0, m_type = 0, m_body = []\<rparr>, mess_size = size_m, m_addr = addr_m\<rparr>"

definition init_slots :: "kernel \<Rightarrow> kernel" where
  "init_slots s = s\<lparr>proc := \<lambda>t. if isokprocn t then (proc s t)\<lparr>p_flags := P_SLOT_FREE\<rparr> else proc s t\<rparr>"

text \<open>\<^verbatim>\<open>table.c\<close> gives every task but \<^verbatim>\<open>HARDWARE\<close> a stack, so every other task gets its guard word.\<close>

definition boot_task :: "(nat \<Rightarrow> 32 word) \<Rightarrow> int \<Rightarrow> kernel \<Rightarrow> kernel" where
  "boot_task sizes t s =
     (let s1 = (if t \<noteq> HARDWARE then upd_proc t (p_stguard_ok_update (\<lambda>_. True)) s else s);
          s2 = (if t \<noteq> IDLE \<and> t \<noteq> HARDWARE then lock_ready t s1 else s1);
          size = sizes 0 + sizes 1
      in upd_proc t (\<lambda>r. r\<lparr>map_D := \<lparr>mem_vir = sizes 0, mem_phys = sizes 0, mem_len = sizes 1\<rparr>,
                            map_S := \<lparr>mem_vir = size, mem_phys = size, mem_len = mem_len (map_S r)\<rparr>\<rparr>) s2)"

definition boot_server :: "(nat \<Rightarrow> 32 word) \<Rightarrow> int \<Rightarrow> kernel \<times> 32 word \<Rightarrow> kernel \<times> 32 word" where
  "boot_server sizes t =
     (\<lambda>(s, base).
       let s1 = lock_ready t s;
           base1 = base + sizes (nat (2 * t + 2));
           base2 = base1 + sizes (nat (2 * t + 3))
       in (upd_proc t (\<lambda>r. r\<lparr>map_D := \<lparr>mem_vir = base1, mem_phys = base1, mem_len = sizes (nat (2 * t + 3))\<rparr>,
                              map_S := \<lparr>mem_vir = base2, mem_phys = base2, mem_len = 0\<rparr>\<rparr>) s1, base2))"

definition boot_slot :: "(nat \<Rightarrow> 32 word) \<Rightarrow> int \<Rightarrow> kernel \<times> 32 word \<Rightarrow> kernel \<times> 32 word" where
  "boot_slot sizes t =
     (\<lambda>(s, base).
       let (s1, base1) = (if t < 0 then (boot_task sizes t s, base) else boot_server sizes t (s, base))
       in (upd_proc t (p_flags_update (\<lambda>_. 0)) s1, base1))"

definition boot_main :: "(nat \<Rightarrow> 32 word) \<Rightarrow> kernel \<Rightarrow> kernel" where
  "boot_main sizes s =
     (let (s1, base) = fold (boot_slot sizes) [- NR_TASKS .. LOW_USER] (init_slots s, sizes 0 + sizes 1);
          s2 = upd_proc HARDWARE (map_D_update (\<lambda>_. \<lparr>mem_vir = 0, mem_phys = 0, mem_len = - 1\<rparr>)) s1
      in lock_pick_proc (s2\<lparr>bill_ptr := HARDWARE\<rparr>))"

section \<open>The loop establishes the invariant\<close>

text \<open>After the slots \<open>T\<close> have been set up.\<close>

definition boot_inv :: "(nat \<Rightarrow> 32 word) \<Rightarrow> 32 word \<Rightarrow> 32 word \<Rightarrow> int set \<Rightarrow> kernel \<Rightarrow> bool" where
  "boot_inv sizes size_m addr_m T s \<longleftrightarrow>
     rq.holds s {t \<in> T. schedulable t} \<and> mess_size s = size_m \<and> m_addr s = addr_m \<and> sig_procs s = 0 \<and>
     (\<forall>p. p_flags (proc s p) = (if isokprocn p \<and> p \<notin> T then P_SLOT_FREE else 0) \<and> p_callerq (proc s p) = None \<and>
          p_shadow (proc s p) = 0 \<and>
          (p \<in> T \<and> istaskp p \<and> p \<noteq> HARDWARE \<longrightarrow> p_stguard_ok (proc s p)) \<and>
          mem_len (map_S (proc s p)) = 0 \<and>
          (p \<in> T \<and> p = HARDWARE \<longrightarrow> mem_vir (map_S (proc s p)) = sizes 0 + sizes 1))"

lemma boot_inv_init: "boot_inv sizes a b {} (init_slots (bss_kernel a b))"
proof -
  have "ready_rel (init_slots (bss_kernel a b)) (\<lambda>_. [])" by (simp add: ready_rel_def init_slots_def bss_kernel_def)
  then have "rq.holds (init_slots (bss_kernel a b)) {}" unfolding rq.holds_def by (intro exI [of _ "\<lambda>_. []"]) simp
  then show ?thesis by (simp add: boot_inv_def init_slots_def bss_kernel_def bss_proc_def)
qed

lemma lock_ready_sel:
  "p_flags (proc (lock_ready t s) p) = p_flags (proc s p)" "p_callerq (proc (lock_ready t s) p) = p_callerq (proc s p)"
  "p_shadow (proc (lock_ready t s) p) = p_shadow (proc s p)" "p_stguard_ok (proc (lock_ready t s) p) = p_stguard_ok (proc s p)"
  "map_S (proc (lock_ready t s) p) = map_S (proc s p)" "mess_size (lock_ready t s) = mess_size s"
  "m_addr (lock_ready t s) = m_addr s" "sig_procs (lock_ready t s) = sig_procs s"
  by (simp_all add: lock_ready_def sched_frame_sel [OF ready_frame])

lemma boot_slot_inv:
  assumes inv: "boot_inv sizes a b T s" and t: "t \<notin> T" "isokprocn t"
  shows "boot_inv sizes a b (insert t T) (fst (boot_slot sizes t (s, base)))"
proof -
  define s1 where "s1 = (if t < 0 \<and> t \<noteq> HARDWARE then upd_proc t (p_stguard_ok_update (\<lambda>_. True)) s else s)"
  define s2 where "s2 = (if schedulable t then lock_ready t s1 else s1)"
  obtain f where f: "fst (boot_slot sizes t (s, base)) = upd_proc t (p_flags_update (\<lambda>_. 0)) (upd_proc t f s2)"
    and ff: "\<And>r. p_nextready (f r) = p_nextready r" "\<And>r. p_shadow (f r) = p_shadow r" "\<And>r. p_stguard_ok (f r) = p_stguard_ok r"
      "\<And>r. p_callerq (f r) = p_callerq r" "\<And>r. mem_len (map_S r) = 0 \<Longrightarrow> mem_len (map_S (f r)) = 0"
      "\<And>r. t = HARDWARE \<Longrightarrow> mem_vir (map_S (f r)) = sizes 0 + sizes 1"
  proof (cases "t < 0")
    case True
    then have "fst (boot_slot sizes t (s, base)) = upd_proc t (p_flags_update (\<lambda>_. 0)) (upd_proc t
       (\<lambda>r. r\<lparr>map_D := \<lparr>mem_vir = sizes 0, mem_phys = sizes 0, mem_len = sizes 1\<rparr>,
              map_S := \<lparr>mem_vir = sizes 0 + sizes 1, mem_phys = sizes 0 + sizes 1, mem_len = mem_len (map_S r)\<rparr>\<rparr>) s2)"
      using t by (simp add: boot_slot_def boot_task_def s2_def s1_def schedulable_def Let_def)
    then show ?thesis by (rule that) simp_all
  next
    case False
    then have "schedulable t" "t \<noteq> HARDWARE" using t by (auto simp: schedulable_def IDLE_def HARDWARE_def)
    then show ?thesis using False
      by (intro that [of "\<lambda>r. r\<lparr>map_D := \<lparr>mem_vir = base + sizes (nat (2 * t + 2)), mem_phys = base + sizes (nat (2 * t + 2)),
              mem_len = sizes (nat (2 * t + 3))\<rparr>, map_S := \<lparr>mem_vir = base + sizes (nat (2 * t + 2)) + sizes (nat (2 * t + 3)),
              mem_phys = base + sizes (nat (2 * t + 2)) + sizes (nat (2 * t + 3)), mem_len = 0\<rparr>\<rparr>"])
         (simp_all add: boot_slot_def boot_server_def s2_def s1_def Let_def)
  qed
  have h1: "rq.holds s1 {x \<in> T. schedulable x}"
  proof -
    have "ready_rel s1 Q = ready_rel s Q" for Q by (rule rel_cong) (auto simp: s1_def nextr_def fun_eq_iff)
    moreover have "queue_of s1 p = queue_of s p" for p by (rule queue_of_cong) (simp add: s1_def)
    ultimately show ?thesis using inv by (simp add: boot_inv_def rq.holds_def)
  qed
  have ins: "{x \<in> insert t T. schedulable x} = (if schedulable t then insert t {x \<in> T. schedulable x} else {x \<in> T. schedulable x})"
    by auto
  have h2: "rq.holds s2 {x \<in> insert t T. schedulable x}"
    using lock_ready_holds [OF h1, of t] h1 t(1) unfolding ins s2_def by simp
  let ?s = "upd_proc t (p_flags_update (\<lambda>_. 0)) (upd_proc t f s2)"
  have sq: "same_queues s2 ?s" by (intro same_queues_upd) (simp_all add: ff)
  have s2: "p_flags (proc s2 p) = p_flags (proc s p)" "p_callerq (proc s2 p) = p_callerq (proc s p)"
    "p_shadow (proc s2 p) = p_shadow (proc s p)" "map_S (proc s2 p) = map_S (proc s p)" "mess_size s2 = mess_size s"
    "m_addr s2 = m_addr s" "sig_procs s2 = sig_procs s"
    "p_stguard_ok (proc s2 p) = (if p = t \<and> t < 0 \<and> t \<noteq> HARDWARE then True else p_stguard_ok (proc s p))" for p
    by (auto simp: s2_def s1_def lock_ready_sel)
  have rest: "p_flags (proc ?s p) = (if isokprocn p \<and> p \<notin> insert t T then P_SLOT_FREE else 0) \<and> p_callerq (proc ?s p) = None \<and>
          p_shadow (proc ?s p) = 0 \<and>
          (p \<in> insert t T \<and> istaskp p \<and> p \<noteq> HARDWARE \<longrightarrow> p_stguard_ok (proc ?s p)) \<and>
          mem_len (map_S (proc ?s p)) = 0 \<and>
          (p \<in> insert t T \<and> p = HARDWARE \<longrightarrow> mem_vir (map_S (proc ?s p)) = sizes 0 + sizes 1)" for p
  proof -
    have "p_flags (proc s p) = (if isokprocn p \<and> p \<notin> T then P_SLOT_FREE else 0) \<and> p_callerq (proc s p) = None \<and>
          p_shadow (proc s p) = 0 \<and> (p \<in> T \<and> istaskp p \<and> p \<noteq> HARDWARE \<longrightarrow> p_stguard_ok (proc s p)) \<and>
          mem_len (map_S (proc s p)) = 0 \<and> (p \<in> T \<and> p = HARDWARE \<longrightarrow> mem_vir (map_S (proc s p)) = sizes 0 + sizes 1)"
      using inv unfolding boot_inv_def by blast
    then show ?thesis by (cases "p = t") (auto simp: ff s2 istaskp_def)
  qed
  have "rq.holds ?s {x \<in> insert t T. schedulable x}" using h2 by (simp only: same_queuesD [OF sq])
  moreover have "mess_size ?s = a" "m_addr ?s = b" "sig_procs ?s = 0" using inv by (simp_all add: s2 boot_inv_def)
  ultimately have "boot_inv sizes a b (insert t T) ?s" using rest unfolding boot_inv_def by blast
  then show ?thesis by (simp only: f)
qed

lemma boot_loop_inv:
  assumes "boot_inv sizes a b T s" and "distinct ts" "set ts \<inter> T = {}" "\<And>t. t \<in> set ts \<Longrightarrow> isokprocn t"
  shows "boot_inv sizes a b (set ts \<union> T) (fst (fold (boot_slot sizes) ts (s, base)))"
  using assms
proof (induction ts arbitrary: T s base)
  case (Cons t ts)
  obtain s1 base1 where st: "boot_slot sizes t (s, base) = (s1, base1)" by fastforce
  have "boot_inv sizes a b (insert t T) s1" using boot_slot_inv [of sizes a b T s t base] Cons.prems st by simp
  from Cons.IH [OF this, of base1] Cons.prems show ?case by (simp add: st)
qed simp

lemma boot_main_kinv:
  assumes "drop_bit CLICK_SHIFT (addr_m + size_m - 1) < sizes 0 + sizes 1"
    "drop_bit CLICK_SHIFT addr_m \<le> drop_bit CLICK_SHIFT (addr_m + size_m - 1)"
  shows "kinv (boot_main sizes (bss_kernel size_m addr_m))"
proof -
  let ?T = "{- NR_TASKS .. LOW_USER}"
  obtain s1 base where fold: "fold (boot_slot sizes) [- NR_TASKS .. LOW_USER] (init_slots (bss_kernel size_m addr_m), sizes 0 + sizes 1) = (s1, base)"
    by fastforce
  have ok: "isokprocn t" if "t \<in> set [- NR_TASKS .. LOW_USER]" for t
    using that by (auto simp: isokprocn_def LOW_USER_def NR_PROCS_def)
  have "boot_inv sizes size_m addr_m ?T s1"
    using boot_loop_inv [where ts = "[- NR_TASKS .. LOW_USER]" and base = "sizes 0 + sizes 1" and sizes = sizes
        and a = size_m and b = addr_m, OF boot_inv_init _ _ ok]
    by (simp add: fold del: One_nat_def)
  then have h: "rq.holds s1 {t \<in> ?T. schedulable t}" and g: "mess_size s1 = size_m" "m_addr s1 = addr_m" "sig_procs s1 = 0"
    and r: "p_flags (proc s1 p) = (if isokprocn p \<and> p \<notin> ?T then P_SLOT_FREE else 0)" "p_callerq (proc s1 p) = None"
      "p \<in> ?T \<and> istaskp p \<and> p \<noteq> HARDWARE \<longrightarrow> p_stguard_ok (proc s1 p)"
      "mem_len (map_S (proc s1 p)) = 0" "p \<in> ?T \<and> p = HARDWARE \<longrightarrow> mem_vir (map_S (proc s1 p)) = sizes 0 + sizes 1" for p
    by (simp_all add: boot_inv_def)
  define s2 where "s2 = (upd_proc HARDWARE (map_D_update (\<lambda>_. \<lparr>mem_vir = 0, mem_phys = 0, mem_len = - 1\<rparr>)) s1)\<lparr>bill_ptr := HARDWARE\<rparr>"
  have boot: "boot_main sizes (bss_kernel size_m addr_m) = lock_pick_proc s2"
    by (simp add: boot_main_def fold s2_def del: One_nat_def)
  have fl: "p_flags (proc s2 p) = p_flags (proc s1 p)" for p by (simp add: s2_def)
  have none: "\<not> has P_SLOT_FREE SENDING" "\<not> has P_SLOT_FREE RECEIVING" "\<not> has P_SLOT_FREE PENDING" "P_SLOT_FREE \<noteq> 0"
    "has P_SLOT_FREE P_SLOT_FREE"
    by (simp_all add: flag_simps) (simp add: flag_def)
  have f: "\<not> sending s2 p" "\<not> receiving s2 p" "\<not> pending s2 p" for p by (simp_all add: field_defs fl r(1) none)
  have run: "runnable s2 = {t \<in> ?T. schedulable t}"
    by (auto simp: runnable_def fl r(1) none schedulable_def split: if_splits)
  have "rq.holds s2 (runnable s2)"
  proof -
    have "ready_rel s2 Q = ready_rel s1 Q" for Q by (rule rel_cong) (auto simp: s2_def nextr_def fun_eq_iff)
    moreover have "queue_of s2 p = queue_of s1 p" for p by (rule queue_of_cong) (simp add: s2_def)
    ultimately show ?thesis using h by (simp add: run rq.holds_def)
  qed
  moreover have "core s2 (\<lambda>_. [])"
  proof -
    have "sends s2 = {}" using f by (auto simp: sends_def)
    moreover have "waiting s2 (\<lambda>_. [])" using f r(2) by (simp add: waiting_def callq_def s2_def)
    moreover have "blocked_ok s2 p" for p
    proof -
      have "p \<in> ?T" if "istaskp p" "schedulable p"
        using that by (auto simp: schedulable_def isokprocn_def istaskp_def LOW_USER_def)
      then show ?thesis using f r(1,3) [of p] by (auto simp: blocked_ok_def fl s2_def schedulable_def ipc_only_def)
    qed
    moreover have "setup_ok s2"
      using assms g r(4) [of HARDWARE] r(5) [of HARDWARE] none(5) r(1) [of MM_PROC_NR]
      by (simp add: setup_ok_def mess_fault_def Let_def s2_def MM_PROC_NR_def HARDWARE_def NR_TASKS_def LOW_USER_def linorder_not_le not_less)
    ultimately show ?thesis by (simp add: core_def acyclic_def)
  qed
  ultimately have "kstate (lock_pick_proc s2) (\<lambda>_. [])" by (rule lock_pick_kstate(1))
  moreover have "pending (lock_pick_proc s2) = pending s2" "sig_procs (lock_pick_proc s2) = 0"
    using lock_pick_kstate(2,3) [OF \<open>rq.holds s2 (runnable s2)\<close> \<open>core s2 (\<lambda>_. [])\<close>] g by (simp_all add: s2_def)
  ultimately show ?thesis unfolding boot using f by (auto simp: kinv_kstate)
qed

section \<open>Properties of the kernel\<close>

definition sample_boot :: kernel where
  "sample_boot = boot_main (\<lambda>_. 100) (bss_kernel 24 256)"

lemma sample_bounds:
  "drop_bit CLICK_SHIFT ((256 :: 32 word) + 24 - 1) < 100 + 100"
  "drop_bit CLICK_SHIFT (256 :: 32 word) \<le> drop_bit CLICK_SHIFT (256 + 24 - 1)"
  by (simp_all add: CLICK_SHIFT_def drop_bit_eq_div word_less_nat_alt word_le_nat_alt unat_div)

lemma sample_kinv: "kinv sample_boot"
  unfolding sample_boot_def by (rule boot_main_kinv) (use sample_bounds in simp_all)

text \<open>
  (C2) Consider the histories of the booted kernel in which no task or server sends to itself or to ANY
  (\<open>trusted_call\<close>; user processes may trap with any arguments): sequences of traps of the running process, when it is not
  IDLE, of interrupts, time slices and signals. \<^verbatim>\<open>mini_send\<close> does not reject a self-send, and a theorem
  below shows that one would break what follows. In every state of such a history the ready queues hold exactly the runnable processes, each in the queue of its
  kind and once; the caller queue of every process holds exactly the processes that are blocked
  on sending to it; no processes wait for each other in a circle; and the running process is
  the idle process or is itself ready, and it is a task whenever some task is ready.
\<close>

theorem kernel_history_invariant:
  assumes "drop_bit CLICK_SHIFT (addr_m + size_m - 1) < sizes 0 + sizes 1"
    and "drop_bit CLICK_SHIFT addr_m \<le> drop_bit CLICK_SHIFT (addr_m + size_m - 1)"
    and "kstep\<^sup>*\<^sup>* (boot_main sizes (bss_kernel size_m addr_m)) s"
  shows "(\<exists>Q. ready_rel s Q \<and> (\<forall>q p. p \<in> set (Q q) \<longleftrightarrow> schedulable p \<and> p_flags (proc s p) = 0 \<and> queue_of s p = q)) \<and>
         (\<exists>C. waiting s C) \<and> acyclic (sends s) \<and>
         (proc_ptr s = IDLE \<or> schedulable (proc_ptr s) \<and> p_flags (proc s (proc_ptr s)) = 0) \<and>
         (\<forall>t. istaskp t \<longrightarrow> schedulable t \<longrightarrow> p_flags (proc s t) = 0 \<longrightarrow> istaskp (proc_ptr s))"
proof -
  have "kinv s" by (rule ksteps_kinv [OF assms(3) boot_main_kinv [OF assms(1,2)]])
  then obtain C where k: "kstate s C" by (auto simp: kinv_kstate)
  obtain Q where Q: "ready_rel s Q" "\<And>q p. p \<in> set (Q q) \<longleftrightarrow> p \<in> runnable s \<and> queue_of s p = q"
    by (rule holdsE [OF kstateD(1) [OF k]]) blast
  have "istaskp (proc_ptr s)" if "istaskp t" "schedulable t" "p_flags (proc s t) = 0" for t
  proof -
    have "t \<in> set (Q TASK_Q)" using that by (simp add: Q(2) runnable_def queue_of_def)
    then have ne: "Q TASK_Q \<noteq> []" by auto
    then have "proc_ptr s = hd (Q TASK_Q)" using kstateD(2) [OF k] by (simp add: cur_ok_iff [OF Q(1)])
    then have "proc_ptr s \<in> set (Q TASK_Q)" using ne by simp
    then show ?thesis by (simp add: Q(2) queue_of_def split: if_splits)
  qed
  moreover have "proc_ptr s = IDLE \<or> schedulable (proc_ptr s) \<and> p_flags (proc s (proc_ptr s)) = 0"
    using cur_runnable [OF kstateD(1,2) [OF k]] by (auto simp: runnable_def)
  moreover have "\<exists>Q. ready_rel s Q \<and> (\<forall>q p. p \<in> set (Q q) \<longleftrightarrow> schedulable p \<and> p_flags (proc s p) = 0 \<and> queue_of s p = q)"
    using Q by (intro exI [of _ Q]) (auto simp: runnable_def)
  ultimately show ?thesis using kstateD(4,5) [OF k] by blast
qed

theorem kernel_history_invariant_witness: "acyclic (sends (lock_sched sample_boot))"
proof -
  have "kstep\<^sup>*\<^sup>* sample_boot (lock_sched sample_boot)" by (intro r_into_rtranclp kstep.slice)
  from kernel_history_invariant [OF _ _ this [unfolded sample_boot_def]] sample_bounds
  show ?thesis by (simp add: sample_boot_def)
qed

text \<open>
  (C5) In every state of these histories these entry points return: a trap of the running process, when it
  is not IDLE, with any arguments if it is a user process and with any but a send to itself or to ANY if it is
  a task or a server (after a self-send the next send can loop, as shown below), and a signal for any
  process. No list or deadlock search runs forever and no \<^verbatim>\<open>panic\<close> is reached.
\<close>

theorem kernel_calls_return:
  assumes "drop_bit CLICK_SHIFT (addr_m + size_m - 1) < sizes 0 + sizes 1"
    and "drop_bit CLICK_SHIFT addr_m \<le> drop_bit CLICK_SHIFT (addr_m + size_m - 1)"
    and "kstep\<^sup>*\<^sup>* (boot_main sizes (bss_kernel size_m addr_m)) s"
  shows "(proc_ptr s \<noteq> IDLE \<longrightarrow> trusted_call s func sd \<longrightarrow> (\<exists>n s'. sys_call func sd m s = Some (Ret (n, s')))) \<and>
         (0 \<le> p \<longrightarrow> p < NR_PROCS \<longrightarrow> (\<exists>s'. cause_sig p sig s = Some (Ret s')))"
proof -
  have "kinv s" by (rule ksteps_kinv [OF assms(3) boot_main_kinv [OF assms(1,2)]])
  then show ?thesis using sys_call_kinv [of s func sd m] cause_sig_kinv [of s p sig] by blast
qed

theorem kernel_calls_return_witness: "\<exists>s'. cause_sig 3 9 sample_boot = Some (Ret s')"
  using kernel_calls_return [OF _ _ rtranclp.rtrancl_refl, of 256 24 "\<lambda>_. 100" 0 0 0 3 9] sample_bounds
  by (simp add: sample_boot_def NR_PROCS_def)

section \<open>Properties of the message primitives\<close>

text \<open>States for the witnesses: nobody is blocked, MM waits for a message, FS is blocked on sending to task -2.\<close>

lemma idle_core: "core idle_kernel (\<lambda>_. [])"
proof -
  have f: "\<not> sending idle_kernel p" "\<not> receiving idle_kernel p" "\<not> pending idle_kernel p" for p
    by (simp_all add: field_defs idle_kernel_def blank_proc_def)
  have "waiting idle_kernel (\<lambda>_. [])" using f by (simp add: waiting_def callq_def idle_kernel_def blank_proc_def)
  moreover have "sends idle_kernel = {}" using f by (auto simp: sends_def)
  moreover have "blocked_ok idle_kernel p" for p
    using f by (simp add: blocked_ok_def) (simp add: idle_kernel_def blank_proc_def ipc_only_def)
  moreover have "setup_ok idle_kernel"
    by (simp add: setup_ok_def mess_fault_def idle_kernel_def blank_proc_def CLICK_SHIFT_def drop_bit_eq_div
        word_le_nat_alt word_less_nat_alt unat_div)
  ultimately show ?thesis by (simp add: core_def acyclic_def)
qed

definition fs_sends :: kernel where
  "fs_sends = link_sender FS_PROC_NR (-2) None idle_kernel"

lemma fs_sends_core: "core fs_sends ((\<lambda>_. [])(-2 := [FS_PROC_NR]))"
proof -
  have "core (link_sender FS_PROC_NR (-2) None idle_kernel) ((\<lambda>_. [])(-2 := [] @ [FS_PROC_NR]))"
  proof (rule link_sender_core [OF idle_core])
    show "(-2, FS_PROC_NR) \<notin> (sends idle_kernel)\<^sup>*"
      using sends_rtrancl [of "-2" FS_PROC_NR idle_kernel] by (simp add: sending_def idle_kernel_def blank_proc_def FS_PROC_NR_def)
  qed (auto simp: idle_kernel_def blank_proc_def schedulable_def isokprocn_def FS_PROC_NR_def NR_TASKS_def NR_PROCS_def
        IDLE_def HARDWARE_def isuserp_def LOW_USER_def)
  then show ?thesis by (simp add: fs_sends_def)
qed

definition mm_waiting :: kernel where
  "mm_waiting = upd_proc MM_PROC_NR (\<lambda>r. r\<lparr>p_flags := RECEIVING, p_getfrom := ANY, p_messbuf := 512\<rparr>) idle_kernel"


text \<open>
  (C15) A send to an existing process from a readable buffer is refused with \<^verbatim>\<open>ELOCKED\<close>, and leaves
  the state alone, exactly if the destination already waits, directly or through other senders,
  for the caller. The search for such a chain ends.
\<close>

theorem mini_send_deadlock_check:
  assumes "core s C" and "c \<noteq> d" and "isuserp c \<Longrightarrow> issysentn d"
    and "\<not> has (p_flags (proc s d)) P_SLOT_FREE" and "\<not> mess_fault s c m"
  shows "mini_send c d m s = Some (Ret (ELOCKED, s)) \<longleftrightarrow> (d, c) \<in> (sends s)\<^sup>+"
proof -
  have "ELOCKED \<noteq> OK" by (simp add: errno_defs)
  then have "and_then (block_sender c d m s) (\<lambda>s1. Some (Ret (OK, s1))) \<noteq> Some (Ret (ELOCKED, s))"
    by (auto simp: and_then_def split: option.splits outcome.splits)
  then show ?thesis using mini_send_cases [OF assms(1,2), of m] assms(3-5) \<open>ELOCKED \<noteq> OK\<close> by auto
qed

lemma small_buffer: "\<not> mess_fault fs_sends (-2) 256" "\<not> mess_fault mm_waiting 3 256"
  by (simp_all add: mess_fault_def fs_sends_def mm_waiting_def link_sender_fields MM_PROC_NR_def idle_kernel_def blank_proc_def
      CLICK_SHIFT_def drop_bit_eq_div word_le_nat_alt word_less_nat_alt unat_div)

theorem mini_send_deadlock_check_witness: "mini_send (-2) FS_PROC_NR 256 fs_sends = Some (Ret (ELOCKED, fs_sends))"
proof -
  have "sends fs_sends = {(FS_PROC_NR, -2)}"
    by (auto simp: sends_def fs_sends_def link_sender_fields field_defs idle_kernel_def blank_proc_def split: if_splits)
  then have "(FS_PROC_NR, -2) \<in> (sends fs_sends)\<^sup>+" by auto
  moreover have "\<not> has (p_flags (proc fs_sends FS_PROC_NR)) P_SLOT_FREE"
    by (simp add: fs_sends_def link_sender_fields idle_kernel_def blank_proc_def flag_simps)
  ultimately show ?thesis
    using mini_send_deadlock_check [OF fs_sends_core, of "-2" FS_PROC_NR 256] small_buffer
    by (simp add: FS_PROC_NR_def isuserp_def LOW_USER_def)
qed





text \<open>Two servers ready, all tasks waiting for work.\<close>

definition quiet_kernel :: kernel where
  "quiet_kernel = idle_kernel\<lparr>proc := \<lambda>p. if p = MM_PROC_NR \<or> p = FS_PROC_NR \<or> \<not> schedulable p then blank_proc
     else if p < 0 then blank_proc\<lparr>p_flags := RECEIVING, p_getfrom := ANY\<rparr> else blank_proc\<lparr>p_flags := P_SLOT_FREE\<rparr>\<rparr>"

definition two_servers :: kernel where
  "two_servers = ready FS_PROC_NR (ready MM_PROC_NR quiet_kernel)"

lemma sched_servers: "schedulable MM_PROC_NR" "schedulable FS_PROC_NR" "MM_PROC_NR \<noteq> FS_PROC_NR" "\<not> isuserp MM_PROC_NR"
  "\<not> isuserp FS_PROC_NR" "\<not> istaskp MM_PROC_NR" "\<not> istaskp FS_PROC_NR" "HARDWARE \<noteq> MM_PROC_NR" "HARDWARE \<noteq> FS_PROC_NR"
  by (auto simp: schedulable_def isokprocn_def MM_PROC_NR_def FS_PROC_NR_def IDLE_def HARDWARE_def NR_TASKS_def NR_PROCS_def
      isuserp_def LOW_USER_def istaskp_def)

lemma slot_free_flags: "\<not> has P_SLOT_FREE SENDING" "\<not> has P_SLOT_FREE RECEIVING" "\<not> has P_SLOT_FREE PENDING" "P_SLOT_FREE \<noteq> 0" "RECEIVING \<noteq> 0"
  by (simp_all add: flag_simps) (simp_all add: flag_def)

lemma quiet_core: "core quiet_kernel (\<lambda>_. [])"
proof -
  have f: "\<not> sending quiet_kernel p" "\<not> pending quiet_kernel p" "receiving quiet_kernel p \<Longrightarrow> schedulable p" for p
    by (auto simp: field_defs quiet_kernel_def blank_proc_def slot_free_flags split: if_splits)
  have "waiting quiet_kernel (\<lambda>_. [])" using f by (simp add: waiting_def callq_def quiet_kernel_def blank_proc_def)
  moreover have "sends quiet_kernel = {}" using f by (auto simp: sends_def)
  moreover have "blocked_ok quiet_kernel p" for p
    using f by (simp add: blocked_ok_def) (auto simp: quiet_kernel_def blank_proc_def ipc_only_def istaskp_def bit_or_iff)
  moreover have "setup_ok quiet_kernel"
    using idle_core sched_servers
    by (simp add: core_def setup_ok_def mess_fault_def quiet_kernel_def idle_kernel_def schedulable_def blank_proc_def)
  ultimately show ?thesis by (simp add: core_def acyclic_def)
qed

lemma quiet_runnable: "runnable quiet_kernel = {MM_PROC_NR, FS_PROC_NR}"
  using sched_servers by (auto simp: runnable_def quiet_kernel_def blank_proc_def slot_free_flags split: if_splits)

lemma two_servers_kstate: "kstate two_servers (\<lambda>_. [])" "runnable two_servers = {MM_PROC_NR, FS_PROC_NR}"
proof -
  have "ready_rel quiet_kernel (\<lambda>_. [])" by (simp add: ready_rel_def quiet_kernel_def idle_kernel_def)
  then have h: "rq.holds quiet_kernel {}" unfolding rq.holds_def by (intro exI [of _ "\<lambda>_. []"]) simp
  have c: "cur_ok quiet_kernel" by (simp add: cur_ok_def quiet_kernel_def idle_kernel_def)
  let ?s = "ready MM_PROC_NR quiet_kernel"
  have h1: "rq.holds ?s {MM_PROC_NR}" using rq.enter_holds [OF h, of MM_PROC_NR] by simp
  have c1: "cur_ok ?s" by (rule ready_cur_ok [OF h c]) (use sched_servers in simp)
  have "rq.holds two_servers (insert FS_PROC_NR {MM_PROC_NR})" unfolding two_servers_def
    by (rule rq.enter_holds [OF h1]) (use sched_servers in simp)
  moreover have "cur_ok two_servers" unfolding two_servers_def by (rule ready_cur_ok [OF h1 c1]) (use sched_servers in simp)
  moreover have r: "runnable two_servers = {MM_PROC_NR, FS_PROC_NR}"
    unfolding two_servers_def by (simp only: runnable_frame [OF ready_frame] quiet_runnable)
  moreover have "core two_servers (\<lambda>_. [])"
    unfolding two_servers_def by (simp only: core_frame [OF ready_frame] quiet_core)
  ultimately show "kstate two_servers (\<lambda>_. [])" by (simp add: kstate_def insert_commute)
  show "runnable two_servers = {MM_PROC_NR, FS_PROC_NR}" by (rule r)
qed

lemma two_servers_frame: "sched_frame quiet_kernel two_servers"
  unfolding two_servers_def by (rule sched_frame_trans [OF ready_frame ready_frame])

lemma two_servers_quiet: "k_reenter two_servers = 0" "\<not> switching two_servers" "sig_procs two_servers = 0"
  by (simp_all add: sched_frame_sel [OF two_servers_frame]) (simp_all add: quiet_kernel_def idle_kernel_def)

lemma two_servers_kinv: "kinv two_servers"
proof -
  have "\<not> pending two_servers p" for p
    by (auto simp: pending_def sched_frame_sel [OF two_servers_frame] quiet_kernel_def blank_proc_def slot_free_flags)
  then show ?thesis using two_servers_kstate(1) two_servers_quiet(3) by (auto simp: kinv_kstate)
qed

lemma two_servers_buffer: "\<not> mess_fault two_servers FS_PROC_NR 256"
  unfolding mess_fault_frame [OF two_servers_frame]
  by (simp add: mess_fault_def quiet_kernel_def idle_kernel_def blank_proc_def CLICK_SHIFT_def drop_bit_eq_div
      word_le_nat_alt word_less_nat_alt unat_div)

lemma task_2: "istaskp (-2)" "schedulable (-2)"
  by (simp_all add: istaskp_def schedulable_def isokprocn_def IDLE_def HARDWARE_def NR_TASKS_def NR_PROCS_def)

text \<open>
  (C17) Message passing is a rendezvous. Let a sender and a receiver, two processes, both be ready; let the receiver
  receive from ANY, with nobody in its caller queue and no interrupt kept for it, and let no signal be
  pending in the system (MM would be told of it instead); let the sender's buffer be valid, and the receiver a system process if
  the sender is a user process. Then it does not
  matter which of them traps first: both calls return OK in both orders, the same memory results
  (the receiver's buffer holds the sender's message, with its source), and both are ready again.
\<close>

theorem rendezvous_order_irrelevant:
  assumes k: "kstate s C" and c: "c \<in> runnable s" and d: "d \<in> runnable s" and ne: "c \<noteq> d" and Cd: "C d = []"
    and u: "isuserp c \<Longrightarrow> issysentn d" and f: "\<not> mess_fault s c m" and i: "\<not> p_int_blocked (proc s d)"
    and ns: "sig_procs s = 0"
  shows "\<exists>s1 s2 t1 t2.
     mini_send c d m s = Some (Ret (OK, s1)) \<and> mini_rec d ANY m' s1 = Some (Ret (OK, s2)) \<and>
     mini_rec d ANY m' s = Some (Ret (OK, t1)) \<and> mini_send c d m t1 = Some (Ret (OK, t2)) \<and>
     kmem s2 = (kmem s)(mess_phys s d m' := (kmem s (mess_phys s c m))\<lparr>m_source := c\<rparr>) \<and> kmem t2 = kmem s2 \<and>
     (\<forall>p. p_flags (proc s2 p) = p_flags (proc s p) \<and> p_flags (proc t2 p) = p_flags (proc s p))"
proof -
  have fl: "p_flags (proc s c) = 0" "p_flags (proc s d) = 0" and ok: "isokprocn d" using c d by (auto simp: runnable_def schedulable_def)
  have nd: "\<not> sending s d" "\<not> receiving s d" using fl by (simp_all add: field_defs)
  have free: "(d, c) \<notin> (sends s)\<^sup>*" using sends_rtrancl [of d c s] nd ne by simp
  then have free2: "(d, c) \<notin> (sends s)\<^sup>+" using trancl_into_rtrancl by metis
  obtain s1 where s1: "block_sender c d m s = Some (Ret s1)" "kstate s1 (C(d := C d @ [c]))" "kmem s1 = kmem s"
     "p_messbuf (proc s1 c) = m" "\<And>p a. mess_phys s1 p a = mess_phys s p a"
     "\<And>p. p_flags (proc s1 p) = (if p = c then SENDING else p_flags (proc s p))"
    using block_sender_kstate [OF k c ok u free, of m] by auto
  have A1: "mini_send c d m s = Some (Ret (OK, s1))"
    using mini_send_cases [OF kstateD(3) [OF k] ne, of m] u f fl free2 nd s1(1) by (auto simp: is_waiting_for_iff)
  let ?s2 = "accept_from d None c m' s1"
  note w1 = kstateD(4) [OF s1(2)]
  have "\<not> sending s1 d" using ne fl by (simp add: sending_def s1(6))
  from mini_rec_cases(1) [OF w1 this, where us = "[]" and x = c and src = ANY]
  have A2: "mini_rec d ANY m' s1 = Some (Ret (OK, ?s2))" using Cd by simp
  have F2: "p_flags (proc ?s2 p) = p_flags (proc s p)"
     "kmem ?s2 = (kmem s)(mess_phys s d m' := (kmem s (mess_phys s c m))\<lparr>m_source := c\<rparr>)" for p
    using accept_from_fields [OF w1, where c = d and us = "[]" and x = c and pv = None and m = m'] Cd fl s1(3-6) by simp_all
  obtain t1 where t1: "block_receiver d ANY m' s = Some (Ret (OK, t1))" "core t1 C"
     "\<And>p. p_flags (proc t1 p) = (if p = d then RECEIVING else p_flags (proc s p))" "p_getfrom (proc t1 d) = ANY"
     "p_messbuf (proc t1 d) = m'" "kmem t1 = kmem s" "\<And>p a. mess_phys t1 p a = mess_phys s p a" "\<And>p a. mess_fault t1 p a = mess_fault s p a"
    using block_receiver_fields [OF k d, of ANY m'] ns by auto
  have B1: "mini_rec d ANY m' s = Some (Ret (OK, t1))"
    using mini_rec_cases(2) [OF kstateD(4) [OF k] nd(1), of ANY m'] Cd i t1(1) by (simp add: int_pending_def)
  have wt: "is_waiting_for t1 d c" by (simp add: is_waiting_for_iff field_defs t1)
  have nf: "\<not> has (p_flags (proc t1 d)) P_SLOT_FREE" by (simp add: t1(3)) (simp add: flag_simps)
  from mini_send_cases [OF t1(2) ne, of m] u f t1(8) wt nf
  have "mini_send c d m t1 = (if (d, c) \<in> (sends t1)\<^sup>+ then Some (Ret (ELOCKED, t1)) else Some (Ret (OK, deliver c d m t1)))"
    by auto
  moreover have "(d, c) \<notin> (sends t1)\<^sup>+" using tranclD [of d c "sends t1"] by (auto simp: sends_def sending_def t1(3))
  ultimately have B2: "mini_send c d m t1 = Some (Ret (OK, deliver c d m t1))" by simp
  have "kmem (deliver c d m t1) = kmem ?s2" "p_flags (proc (deliver c d m t1) p) = p_flags (proc s p)" for p
    by (simp_all add: deliver_fields F2 t1 fl)
  then show ?thesis using A1 A2 B1 B2 F2 by blast
qed

theorem rendezvous_order_irrelevant_witness:
  "\<exists>s1 s2. mini_send FS_PROC_NR MM_PROC_NR 256 two_servers = Some (Ret (OK, s1)) \<and>
     mini_rec MM_PROC_NR ANY 512 s1 = Some (Ret (OK, s2)) \<and> m_source (kmem s2 512) = FS_PROC_NR"
proof -
  have q: "proc quiet_kernel MM_PROC_NR = blank_proc" by (simp add: quiet_kernel_def)
  have "\<not> p_int_blocked (proc two_servers MM_PROC_NR)" "mess_phys two_servers MM_PROC_NR 512 = 512"
    by (simp_all add: sched_frame_sel [OF two_servers_frame] q mess_phys_def blank_proc_def)
  then show ?thesis
    using rendezvous_order_irrelevant [OF two_servers_kstate(1), of FS_PROC_NR MM_PROC_NR 256 512] two_servers_kstate(2)
      sched_servers two_servers_buffer two_servers_quiet by fastforce
qed

text \<open>
  A receive takes the message of the first process in the caller's queue that is acceptable
  (the first of all for ANY), leaves the order of the others, stops that sender from sending, and
  changes no other flags: senders are served in the order in which they were queued.
\<close>

theorem mini_rec_takes_first:
  assumes "core s C" and "\<not> sending s c" and "C c = us @ x # vs"
    and "\<And>u. u \<in> set us \<Longrightarrow> src \<noteq> ANY \<and> src \<noteq> u" and "src = ANY \<or> src = x"
  shows "\<exists>s'. mini_rec c src m s = Some (Ret (OK, s')) \<and> core s' (C(c := us @ vs)) \<and>
     kmem s' = (kmem s)(mess_phys s c m := (kmem s (mess_phys s x (p_messbuf (proc s x))))\<lparr>m_source := x\<rparr>) \<and>
     (\<forall>p. p_flags (proc s' p) = (if p = x then p_flags (proc s x) AND NOT SENDING else p_flags (proc s p)))"
proof -
  let ?pv = "if us = [] then None else Some (last us)"
  have w: "waiting s C" using assms(1) by (simp add: core_def)
  let ?k = "cp_mess x x (p_messbuf (proc s x)) c m s"
  have "core ?k C" using assms(1) by (simp add: cp_mess_def)
  from unlink_sender_core [OF this assms(3) refl] have "core (accept_from c ?pv x m s) (C(c := us @ vs))"
    unfolding accept_from_wake [OF w assms(3) refl] core_frame [OF wake_frame] .
  then show ?thesis
    using mini_rec_cases(1) [OF w assms(2,3) _ assms(5), of m] assms(4) accept_from_fields(3,4) [OF w assms(3) refl, of m] by auto
qed

theorem mini_rec_takes_first_witness:
  "\<exists>s'. mini_rec (-2) ANY 512 fs_sends = Some (Ret (OK, s')) \<and> p_flags (proc s' FS_PROC_NR) = 0"
proof -
  have "\<not> sending fs_sends (-2)"
    by (simp add: fs_sends_def link_sender_fields FS_PROC_NR_def) (simp add: sending_def idle_kernel_def blank_proc_def)
  moreover have "p_flags (proc fs_sends FS_PROC_NR) = SENDING"
    by (simp add: fs_sends_def link_sender_fields idle_kernel_def blank_proc_def)
  ultimately show ?thesis
    using mini_rec_takes_first [OF fs_sends_core, of "-2" "[]" FS_PROC_NR "[]" ANY 512] by auto
qed

lemma send_chain_loop:
  assumes "sending s d" "sendto s d = d" "c \<noteq> d"
  shows "send_chain s c d = None"
proof -
  have "\<not> (c \<noteq> x \<and> sending s x \<and> sendto s x = x)" if "send_chain s c x = Some y" for s c x y
  proof (rule send_chain.raw_induct [where P = "\<lambda>s c x y. \<not> (c \<noteq> x \<and> sending s x \<and> sendto s x = x)", OF _ that])
    fix f s c x y
    assume ih: "\<And>s c x y. f s c x = Some y \<Longrightarrow> \<not> (c \<noteq> x \<and> sending s x \<and> sendto s x = x)"
      and body: "(if x = c then Some True else if has (p_flags (proc s x)) SENDING then f s c (p_sendto (proc s x)) else Some False) = Some y"
    show "\<not> (c \<noteq> x \<and> sending s x \<and> sendto s x = x)"
    proof
      assume a: "c \<noteq> x \<and> sending s x \<and> sendto s x = x"
      then have "f s c x = Some y" using body by (auto simp: sending_def sendto_def split: if_splits)
      from ih [OF this] a show False by blast
    qed
  qed
  then show ?thesis using assms by (cases "send_chain s c d") auto
qed

text \<open>
  (C21) The deadlock check does not see a process that sends to itself: the call succeeds and
  blocks the process on its own queue, and from then on the check of every other send to that
  process follows the same link forever, so \<^verbatim>\<open>mini_send\<close> does not return.
\<close>

theorem self_send_hangs:
  assumes k: "kstate s C" and d: "d \<in> runnable s" and nu: "\<not> isuserp d" and nf: "\<not> mess_fault s d m" and e: "C d = []"
  shows "\<exists>s'. mini_send d d m s = Some (Ret (OK, s')) \<and>
     (\<forall>c m'. c \<noteq> d \<longrightarrow> (isuserp c \<longrightarrow> issysentn d) \<longrightarrow> \<not> mess_fault s' c m' \<longrightarrow> mini_send c d m' s' = None)"
proof -
  let ?s1 = "upd_proc d (p_messbuf_update (\<lambda>_. m)) s"
  have fl: "p_flags (proc s d) = 0" and sc: "schedulable d" using d by (auto simp: runnable_def)
  have sq: "same_queues s ?s1" by (rule same_queues_upd) simp_all
  obtain s2 where s2: "unready d ?s1 = Some (Ret s2)" "sched_frame ?s1 s2"
    using unready_block [of ?s1 "runnable s" d] kstateD(1,2) [OF k] kstateD(8) [OF k sc] d
    by (auto simp: same_queuesD [OF sq] healthy_task_def)
  let ?s = "link_sender d d None s2"
  have cq: "p_callerq (proc s2 d) = None"
    using waitingD(1) [OF kstateD(4) [OF k], of d] e by (simp add: sched_frame_sel [OF s2(2)] callq_def)
  have "block_sender d d m s = Some (Ret ?s)"
    using s2(1) fl cq by (simp add: block_sender_def link_sender_def Let_def)
  then have "mini_send d d m s = Some (Ret (OK, ?s))"
    using nu nf fl by (simp add: mini_send_def is_waiting_for_iff field_defs)
  moreover have "mini_send c d m' ?s = None" if "c \<noteq> d" "isuserp c \<longrightarrow> issysentn d" "\<not> mess_fault ?s c m'" for c m'
  proof -
    have flags: "p_flags (proc ?s d) = SENDING" by (simp add: link_sender_fields sched_frame_sel [OF s2(2)] fl)
    have "p_sendto (proc ?s d) = d" using fun_cong [OF link_sender_fields(2) [of d d None s2], of d] by (simp add: sendto_def)
    moreover have "send_chain ?s c d = None"
      by (rule send_chain_loop) (use that in \<open>simp_all add: link_sender_fields\<close>)
    moreover have "\<not> has SENDING P_SLOT_FREE" by (simp add: flag_simps)
    ultimately show ?thesis using that flags by (simp add: mini_send_def)
  qed
  ultimately show ?thesis by blast
qed

theorem self_send_hangs_witness:
  "\<exists>s'. mini_send FS_PROC_NR FS_PROC_NR 256 two_servers = Some (Ret (OK, s'))"
  using self_send_hangs [OF two_servers_kstate(1), of FS_PROC_NR 256] two_servers_kstate(2) sched_servers two_servers_buffer
  by auto

section \<open>Interrupts\<close>

text \<open>A task waits for an interrupt.\<close>

definition awaits_int :: "kernel \<Rightarrow> int \<Rightarrow> bool" where
  "awaits_int s t \<longleftrightarrow> receiving s t \<and> \<not> sending s t \<and> isrxhardware (p_getfrom (proc s t))"


text \<open>
  An interrupt is not lost. A task that waits for it gets a HARD_INT message and is ready to
  run at once; otherwise the interrupt is remembered, and the task's next receive from ANY or
  HARDWARE that finds no message queued gets it without blocking.
\<close>

theorem interrupt_not_lost:
  assumes inv: "kinv s" and t: "istaskp t" "schedulable t" and on: "k_reenter s = 0" "\<not> switching s"
  shows "if awaits_int s t
         then p_flags (proc (interrupt t s) t) = 0 \<and> m_source (kmem (interrupt t s) (p_messbuf (proc s t))) = HARDWARE \<and>
              m_type (kmem (interrupt t s) (p_messbuf (proc s t))) = HARD_INT
         else \<forall>src m. isrxhardware src \<longrightarrow> \<not> sending s t \<longrightarrow> p_callerq (proc s t) = None \<longrightarrow>
              (\<exists>s'. mini_rec t src m (interrupt t s) = Some (Ret (OK, s')) \<and> m_source (kmem s' m) = HARDWARE \<and>
                    m_type (kmem s' m) = HARD_INT \<and> p_flags (proc s' t) = p_flags (proc s t) \<and> \<not> p_int_blocked (proc s' t))"
proof (cases "awaits_int s t")
  case True
  obtain C where k: "kstate s C" using inv by (auto simp: kinv_kstate)
  have "ipc_only (p_flags (proc s t))" using kstateD(6) [OF k, of t] t by (simp add: blocked_ok_def)
  then have z: "p_flags (proc s t) AND NOT RECEIVING = 0"
    using True by (intro bit_eqI) (auto simp: awaits_int_def ipc_only_def flag_simps sending_def bit_and_iff bit_or_iff bit_not_iff)
  have eq: "interrupt t s = ready t (upd_proc t (\<lambda>r. r\<lparr>p_flags := p_flags r AND NOT RECEIVING, p_int_blocked := False\<rparr>)
      (hard_int_message (p_messbuf (proc s t)) s))"
    by (rule interrupt_wakes [OF t(1) on]) (use True in \<open>simp_all add: awaits_int_def\<close>)
  have "p_flags (proc (interrupt t s) t) = 0" unfolding eq
    by (simp add: sched_frame_sel [OF ready_frame] hard_int_message_def z)
  moreover have "kmem (interrupt t s) = (kmem s)(p_messbuf (proc s t) := (kmem s (p_messbuf (proc s t)))\<lparr>m_source := HARDWARE, m_type := HARD_INT\<rparr>)"
    unfolding eq by (simp add: sched_frame_sel [OF ready_frame] hard_int_message_def)
  ultimately show ?thesis using True by simp
next
  case False
  then have i: "interrupt t s = upd_proc t (p_int_blocked_update (\<lambda>_. True)) s"
    using on by (auto simp: awaits_int_def interrupt_def only_receiving receiving_def sending_def)
  have "mini_rec t src m (interrupt t s) = Some (Ret (OK, upd_proc t (p_int_blocked_update (\<lambda>_. False)) (hard_int_message m (interrupt t s))))"
    if "isrxhardware src" "\<not> sending s t" "p_callerq (proc s t) = None" for src m
    using that by (simp add: mini_rec_def i sending_def find_sender.simps)
  then show ?thesis using False by (auto simp: hard_int_message_def i)
qed

theorem interrupt_not_lost_witness:
  "p_flags (proc (interrupt (-2) two_servers) (-2)) = 0"
proof -
  have r: "proc quiet_kernel (-2) = blank_proc\<lparr>p_flags := RECEIVING, p_getfrom := ANY\<rparr>"
    using task_2 by (simp add: quiet_kernel_def MM_PROC_NR_def FS_PROC_NR_def)
  have "awaits_int two_servers (-2)"
    by (simp add: awaits_int_def field_defs sched_frame_sel [OF two_servers_frame] r isrxhardware_def)
  then show ?thesis using interrupt_not_lost [OF two_servers_kinv task_2] two_servers_quiet by simp
qed







end
