(* ===== verification/Mm_Alloc.thy ===== *)
theory Mm_Alloc
  imports Prelude
begin

text \<open>
  The hole list of the memory manager, \<^verbatim>\<open>src/src/mm/alloc.c\<close>: a static table of
  \<^verbatim>\<open>NR_HOLES\<close> slots, threaded by \<^verbatim>\<open>h_next\<close> into the list of holes (\<^verbatim>\<open>hole_head\<close>, sorted by
  address) and the list of unused slots (\<^verbatim>\<open>free_slots\<close>). A slot pointer is an index into
  the table, \<^verbatim>\<open>NIL_HOLE\<close> is \<open>None\<close>. The pointer program is shown to implement first fit and
  coalescing free on the sorted list of holes, and that in turn to keep the set of free
  clicks exact. The theory provides the locale \<open>click_store\<close>, the contract the rest of the
  memory manager relies on, and interprets it for the pointer program.
\<close>

section \<open>The hole table\<close>

record hole =
  h_base :: nat
  h_len :: nat
  h_next :: "nat option"

record hole_state =
  hole :: "nat \<Rightarrow> hole"
  hole_head :: "nat option"
  free_slots :: "nat option"

definition NR_HOLES :: nat where "NR_HOLES = 128"

definition NO_MEM :: nat where "NO_MEM = 0"

definition set_next :: "nat \<Rightarrow> nat option \<Rightarrow> hole_state \<Rightarrow> hole_state" where
  "set_next i q s = s\<lparr>hole := (hole s)(i := (hole s i)\<lparr>h_next := q\<rparr>)\<rparr>"

definition set_extent :: "nat \<Rightarrow> nat \<Rightarrow> nat \<Rightarrow> hole_state \<Rightarrow> hole_state" where
  "set_extent i b l s = s\<lparr>hole := (hole s)(i := (hole s i)\<lparr>h_base := b, h_len := l\<rparr>)\<rparr>"

section \<open>The operations of alloc.c\<close>

text \<open>
  \<^verbatim>\<open>prev_ptr\<close> is not initialised before the first hole is looked at; it is read only when
  \<^verbatim>\<open>hp\<close> is not the head of the list, and then it has been set. It starts as \<open>None\<close> here.
\<close>

definition del_slot :: "nat option \<Rightarrow> nat \<Rightarrow> hole_state \<Rightarrow> hole_state" where
  "del_slot prev_ptr hp s =
     (let s1 = (if Some hp = hole_head s
                then s\<lparr>hole_head := h_next (hole s hp)\<rparr>
                else (case prev_ptr of
                        None \<Rightarrow> s
                      | Some pr \<Rightarrow> set_next pr (h_next (hole s hp)) s));
          s2 = set_next hp (free_slots s1) s1
      in s2\<lparr>free_slots := Some hp\<rparr>)"

partial_function (option) alloc_loop ::
  "nat \<Rightarrow> hole_state \<Rightarrow> nat option \<Rightarrow> nat option \<Rightarrow> (nat \<times> hole_state) option" where
  "alloc_loop clicks s prev_ptr hp =
     (case hp of
        None \<Rightarrow> Some (NO_MEM, s)
      | Some h \<Rightarrow>
          if clicks \<le> h_len (hole s h)
          then let old_base = h_base (hole s h);
                   s1 = set_extent h (old_base + clicks) (h_len (hole s h) - clicks) s
               in if h_len (hole s1 h) \<noteq> 0 then Some (old_base, s1)
                  else Some (old_base, del_slot prev_ptr h s1)
          else alloc_loop clicks s hp (h_next (hole s h)))"

definition alloc_mem :: "nat \<Rightarrow> hole_state \<Rightarrow> (nat \<times> hole_state) option" where
  "alloc_mem clicks s = alloc_loop clicks s None (hole_head s)"

text \<open>\<^verbatim>\<open>merge\<close>: absorb the successor, then the successor of what is now current.\<close>

definition merge_hole :: "nat \<Rightarrow> hole_state \<Rightarrow> hole_state" where
  "merge_hole hp0 s0 =
     (case h_next (hole s0 hp0) of
        None \<Rightarrow> s0
      | Some n0 \<Rightarrow>
          let (hp, s) =
                (if h_base (hole s0 hp0) + h_len (hole s0 hp0) = h_base (hole s0 n0)
                 then (hp0, del_slot (Some hp0) n0
                              (set_extent hp0 (h_base (hole s0 hp0))
                                 (h_len (hole s0 hp0) + h_len (hole s0 n0)) s0))
                 else (n0, s0))
          in case h_next (hole s hp) of
               None \<Rightarrow> s
             | Some n \<Rightarrow>
                 if h_base (hole s hp) + h_len (hole s hp) = h_base (hole s n)
                 then del_slot (Some hp) n
                        (set_extent hp (h_base (hole s hp))
                           (h_len (hole s hp) + h_len (hole s n)) s)
                 else s)"

text \<open>The search of \<^verbatim>\<open>free_mem\<close>: the last hole that starts below \<open>base\<close>.\<close>

partial_function (option) find_prev ::
  "nat \<Rightarrow> hole_state \<Rightarrow> nat option \<Rightarrow> nat option \<Rightarrow> nat option option" where
  "find_prev base s prev_ptr hp =
     (case hp of
        None \<Rightarrow> Some prev_ptr
      | Some h \<Rightarrow> if base > h_base (hole s h)
                  then find_prev base s hp (h_next (hole s h))
                  else Some prev_ptr)"

definition free_mem :: "nat \<Rightarrow> nat \<Rightarrow> hole_state \<Rightarrow> hole_state outcome option" where
  "free_mem base clicks s =
     (if clicks = 0 then Some (Ret s)
      else case free_slots s of
        None \<Rightarrow> Some (Panic ''Hole table full'')
      | Some new_ptr \<Rightarrow>
          let s1 = (set_extent new_ptr base clicks s)\<lparr>free_slots := h_next (hole s new_ptr)\<rparr>;
              hp = hole_head s1
          in if (case hp of None \<Rightarrow> True | Some h \<Rightarrow> base \<le> h_base (hole s1 h))
             then Some (Ret (merge_hole new_ptr
                    ((set_next new_ptr hp s1)\<lparr>hole_head := Some new_ptr\<rparr>)))
             else case find_prev base s1 None hp of
                    None \<Rightarrow> None
                  | Some p \<Rightarrow>
                      let prev_ptr = the p in
                      Some (Ret (merge_hole prev_ptr
                        (set_next prev_ptr (Some new_ptr)
                          (set_next new_ptr (h_next (hole s1 prev_ptr)) s1)))))"

partial_function (option) max_hole_loop :: "hole_state \<Rightarrow> nat option \<Rightarrow> nat \<Rightarrow> nat option" where
  "max_hole_loop s hp m =
     (case hp of
        None \<Rightarrow> Some m
      | Some h \<Rightarrow> max_hole_loop s (h_next (hole s h))
                    (if h_len (hole s h) > m then h_len (hole s h) else m))"

definition max_hole :: "hole_state \<Rightarrow> nat option" where
  "max_hole s = max_hole_loop s (hole_head s) 0"

text \<open>
  \<^verbatim>\<open>mem_init\<close> asks the kernel (\<^verbatim>\<open>SYS_MEM\<close>) for chunks of memory until it reports a size of
  zero. The kernel's replies are a parameter, in the order in which they arrive: \<open>None\<close> for a
  \<^verbatim>\<open>sendrec\<close> that fails, otherwise the base, the size and the total. Running out of replies
  means that \<^verbatim>\<open>sendrec\<close> does not return. The result carries \<^verbatim>\<open>*total\<close> and \<^verbatim>\<open>*free\<close>.
\<close>

definition link_slots :: "hole_state \<Rightarrow> hole_state" where
  "link_slots s =
     (let s1 = s\<lparr>hole := (\<lambda>i. if i < NR_HOLES then (hole s i)\<lparr>h_next := Some (i + 1)\<rparr> else hole s i)\<rparr>;
          s2 = set_next (NR_HOLES - 1) None s1
      in s2\<lparr>hole_head := None, free_slots := Some 0\<rparr>)"

fun mem_init_loop ::
  "(nat \<times> nat \<times> nat) option list \<Rightarrow> nat \<Rightarrow> nat \<Rightarrow> hole_state \<Rightarrow>
     (nat \<times> nat \<times> hole_state) outcome option" where
  "mem_init_loop [] tot0 free s = None"
| "mem_init_loop (None # reps) tot0 free s = Some (Panic ''bad SYS_MEM?'')"
| "mem_init_loop (Some (base, sz, tot) # reps) tot0 free s =
     (if sz = 0 then Some (Ret (tot0, free, s))
      else (case free_mem base sz s of
              None \<Rightarrow> None
            | Some (Panic p) \<Rightarrow> Some (Panic p)
            | Some (Ret s') \<Rightarrow> mem_init_loop reps tot (free + sz) s'))"

definition mem_init ::
  "(nat \<times> nat \<times> nat) option list \<Rightarrow> nat \<Rightarrow> hole_state \<Rightarrow> (nat \<times> nat \<times> hole_state) outcome option" where
  "mem_init reps tot0 s = mem_init_loop reps tot0 0 (link_slots s)"

section \<open>Specification: first fit and coalescing free on a sorted list of extents\<close>

type_synonym extent = "nat \<times> nat"

fun first_fit :: "nat \<Rightarrow> extent list \<Rightarrow> nat \<times> extent list" where
  "first_fit n [] = (NO_MEM, [])"
| "first_fit n ((b, l) # es) =
     (if n \<le> l then (b, if l - n \<noteq> 0 then (b + n, l - n) # es else es)
      else (case first_fit n es of (r, es') \<Rightarrow> (r, (b, l) # es')))"

fun add_extent :: "nat \<Rightarrow> nat \<Rightarrow> extent list \<Rightarrow> extent list" where
  "add_extent b l [] = [(b, l)]"
| "add_extent b l ((b1, l1) # es) =
     (if b \<le> b1 then (if b + l = b1 then (b, l + l1) # es else (b, l) # (b1, l1) # es)
      else if b1 + l1 = b
      then (case es of
              [] \<Rightarrow> [(b1, l1 + l)]
            | (b2, l2) # es' \<Rightarrow>
                if b + l = b2 then (b1, l1 + l + l2) # es' else (b1, l1 + l) # es)
      else (b1, l1) # add_extent b l es)"

text \<open>Sorted by address, no empty holes, no two holes touching, address 0 never free.\<close>

fun canon :: "extent list \<Rightarrow> bool" where
  "canon [] \<longleftrightarrow> True"
| "canon ((b, l) # es) \<longleftrightarrow>
     0 < b \<and> 0 < l \<and> (\<forall>(b2, l2) \<in> set es. b + l < b2) \<and> canon es"

definition clicks_of :: "extent list \<Rightarrow> nat set" where
  "clicks_of es = (\<Union>(b, l) \<in> set es. {b ..< b + l})"

text \<open>The abstraction: which slots are on the two lists, and the extents of the holes.\<close>

definition nx :: "hole_state \<Rightarrow> nat \<Rightarrow> nat option" where
  "nx s i = h_next (hole s i)"

definition ext :: "hole_state \<Rightarrow> nat \<Rightarrow> extent" where
  "ext s i = (h_base (hole s i), h_len (hole s i))"

definition hole_rel :: "hole_state \<Rightarrow> nat list \<Rightarrow> nat list \<Rightarrow> bool" where
  "hole_rel s xs ys \<longleftrightarrow>
     chain (nx s) (hole_head s) xs \<and> chain (nx s) (free_slots s) ys \<and>
     set xs \<inter> set ys = {} \<and> set xs \<union> set ys = {..<NR_HOLES}"

definition holes_of :: "hole_state \<Rightarrow> extent list \<Rightarrow> bool" where
  "holes_of s es \<longleftrightarrow> (\<exists>xs ys. hole_rel s xs ys \<and> es = map (ext s) xs \<and> canon es)"

definition hole_inv :: "hole_state \<Rightarrow> bool" where
  "hole_inv s \<longleftrightarrow> (\<exists>es. holes_of s es)"

definition free_clicks :: "hole_state \<Rightarrow> nat set" where
  "free_clicks s = (\<Union>es \<in> {es. holes_of s es}. clicks_of es)"

definition slots_left :: "hole_state \<Rightarrow> bool" where
  "slots_left s \<longleftrightarrow> free_slots s \<noteq> None"

text \<open>
  A history of the store: the blocks that are handed out, after any interleaving of
  successful \<^verbatim>\<open>alloc_mem\<close> calls and of \<^verbatim>\<open>free_mem\<close> calls on blocks that are handed out.
\<close>

inductive mem_run :: "hole_state \<Rightarrow> hole_state \<Rightarrow> extent list \<Rightarrow> bool" for s0 where
  start: "mem_run s0 s0 []"
| alloc: "mem_run s0 s bs \<Longrightarrow> alloc_mem n s = Some (r, s') \<Longrightarrow> r \<noteq> NO_MEM \<Longrightarrow> n \<noteq> 0 \<Longrightarrow>
     mem_run s0 s' ((r, n) # bs)"
| free: "mem_run s0 s (us @ (b, n) # vs) \<Longrightarrow> free_mem b n s = Some (Ret s') \<Longrightarrow>
     mem_run s0 s' (us @ vs)"

fun disjoint_blocks :: "extent list \<Rightarrow> bool" where
  "disjoint_blocks [] \<longleftrightarrow> True"
| "disjoint_blocks ((b, l) # bs) \<longleftrightarrow> {b ..< b + l} \<inter> clicks_of bs = {} \<and> disjoint_blocks bs"

text \<open>A store with the clicks 100 to 149 free, for concrete instances.\<close>

definition no_holes :: hole_state where
  "no_holes = \<lparr>hole = (\<lambda>_. \<lparr>h_base = 0, h_len = 0, h_next = None\<rparr>), hole_head = None, free_slots = None\<rparr>"

definition demo_holes :: hole_state where
  "demo_holes = (case free_mem 100 50 (link_slots no_holes) of Some (Ret s) \<Rightarrow> s | _ \<Rightarrow> no_holes)"

section \<open>Pointer level\<close>

lemma nx_simps [simp]:
  "nx (set_next i q s) = (nx s)(i := q)"
  "nx (set_extent i b l s) = nx s"
  "nx (s\<lparr>hole_head := p\<rparr>) = nx s"
  "nx (s\<lparr>free_slots := p\<rparr>) = nx s"
  by (auto simp: nx_def set_next_def set_extent_def)

lemma ext_simps [simp]:
  "ext (set_next i q s) = ext s"
  "ext (set_extent i b l s) = (ext s)(i := (b, l))"
  "ext (s\<lparr>hole_head := p\<rparr>) = ext s"
  "ext (s\<lparr>free_slots := p\<rparr>) = ext s"
  by (auto simp: ext_def set_next_def set_extent_def)

lemma ptr_simps [simp]:
  "hole_head (set_next i q s) = hole_head s" "free_slots (set_next i q s) = free_slots s"
  "hole_head (set_extent i b l s) = hole_head s" "free_slots (set_extent i b l s) = free_slots s"
  by (auto simp: set_next_def set_extent_def)

lemma hole_fields [simp]:
  "h_next (hole s i) = nx s i" "h_base (hole s i) = fst (ext s i)" "h_len (hole s i) = snd (ext s i)"
  by (auto simp: nx_def ext_def)

lemma hole_relD:
  assumes "hole_rel s xs ys"
  shows "chain (nx s) (hole_head s) xs" "chain (nx s) (free_slots s) ys"
    "distinct xs" "distinct ys" "set xs \<inter> set ys = {}" "set xs \<union> set ys = {..<NR_HOLES}"
  using assms by (auto simp: hole_rel_def chain_distinct)

lemma hole_rel_extent [simp]: "hole_rel (set_extent i b l s) xs ys = hole_rel s xs ys"
  by (simp add: hole_rel_def)

lemma ext_del_slot [simp]: "ext (del_slot p h s) = ext s"
  by (auto simp: del_slot_def Let_def split: option.split)

text \<open>Taking a slot off the hole list puts it on the list of unused slots.\<close>

lemma del_slot_rel:
  assumes rel: "hole_rel s (us @ h # vs) ys"
    and prev: "us \<noteq> [] \<Longrightarrow> p = Some (last us)"
  shows "hole_rel (del_slot p h s) (us @ vs) (h # ys)"
proof (cases us rule: rev_cases)
  case Nil
  then show ?thesis
    using hole_relD [OF rel] by (auto simp: hole_rel_def del_slot_def)
next
  case (snoc us' a)
  note D = hole_relD [OF rel, unfolded snoc]
  have "Some h \<noteq> hole_head s"
    using D(1,3) by (cases us') auto
  then have ds: "del_slot p h s = (set_next h (free_slots s) (set_next a (nx s h) s))\<lparr>free_slots := Some h\<rparr>"
    using prev snoc by (simp add: del_slot_def)
  have "chain (nx s) (hole_head s) (us' @ a # h # vs)" using D(1) by simp
  from chain_unlink [OF this] D show ?thesis
    unfolding hole_rel_def ds snoc by auto
qed

text \<open>Taking the first unused slot and linking it in front, or after a hole.\<close>

lemma push_slot_rel:
  assumes "hole_rel s xs (n # ys)"
  shows "hole_rel ((set_next n (hole_head s) (s\<lparr>free_slots := nx s n\<rparr>))\<lparr>hole_head := Some n\<rparr>) (n # xs) ys"
  using hole_relD [OF assms] by (auto simp: hole_rel_def)

lemma link_slot_rel:
  assumes "hole_rel s (us @ a # vs) (n # ys)"
  shows "hole_rel (set_next a (Some n) (set_next n (nx s a) (s\<lparr>free_slots := nx s n\<rparr>)))
           (us @ a # n # vs) ys"
proof -
  note D = hole_relD [OF assms]
  from D have "n \<notin> set (us @ a # vs)" by auto
  from chain_link [OF D(1) this] D show ?thesis
    by (auto simp: hole_rel_def)
qed

lemma alloc_loop_refines:
  assumes "hole_rel s (us @ vs) ys"
    and "hp = (if vs = [] then None else Some (hd vs))"
    and "us \<noteq> [] \<Longrightarrow> p = Some (last us)"
  shows "\<exists>r s' vs' ys'. alloc_loop n s p hp = Some (r, s') \<and> hole_rel s' (us @ vs') ys' \<and>
           first_fit n (map (ext s) vs) = (r, map (ext s') vs') \<and> (\<forall>u \<in> set us. ext s' u = ext s u)"
  using assms
proof (induction vs arbitrary: us p hp)
  case Nil
  then show ?case by (auto simp: alloc_loop.simps)
next
  case (Cons v vs)
  obtain b l where e: "ext s v = (b, l)" by fastforce
  note D = hole_relD [OF Cons.prems(1)]
  show ?case
  proof (cases "n \<le> l")
    case True
    define s1 where "s1 = set_extent v (b + n) (l - n) s"
    have s1: "hole_rel s1 (us @ v # vs) ys" using Cons.prems(1) by (simp add: s1_def)
    have al: "alloc_loop n s p hp = Some (b, if l - n \<noteq> 0 then s1 else del_slot p v s1)"
      using True e Cons.prems(2) by (simp add: alloc_loop.simps s1_def)
    have same: "map (ext s1) vs = map (ext s) vs" "\<forall>u \<in> set us. ext s1 u = ext s u"
      using D(3) by (auto simp: s1_def)
    show ?thesis
    proof (cases "l - n \<noteq> 0")
      case nz: True
      then show ?thesis using al s1 same True e
        by (intro exI [of _ b] exI [of _ s1] exI [of _ "v # vs"] exI [of _ ys])
           (auto simp: s1_def)
    next
      case False
      from del_slot_rel [OF s1 Cons.prems(3)] False show ?thesis using al same True e
        by (intro exI [of _ b] exI [of _ "del_slot p v s1"] exI [of _ vs] exI [of _ "v # ys"]) auto
    qed
  next
    case False
    have "nx s v = (if vs = [] then None else Some (hd vs))"
      using chain_next [OF D(1)] by (cases vs) auto
    then have "\<exists>r s' vs' ys'. alloc_loop n s hp (nx s v) = Some (r, s') \<and>
        hole_rel s' ((us @ [v]) @ vs') ys' \<and>
        first_fit n (map (ext s) vs) = (r, map (ext s') vs') \<and> (\<forall>u \<in> set (us @ [v]). ext s' u = ext s u)"
      using Cons.prems by (intro Cons.IH) auto
    then obtain r s' vs' ys' where *: "alloc_loop n s hp (nx s v) = Some (r, s')"
        "hole_rel s' (us @ v # vs') ys'" "first_fit n (map (ext s) vs) = (r, map (ext s') vs')"
        "\<forall>u \<in> set us. ext s' u = ext s u" "ext s' v = ext s v"
      by auto
    have "alloc_loop n s p hp = Some (r, s')"
      using False e Cons.prems(2) *(1) by (simp add: alloc_loop.simps [of n s p "Some v"])
    with * False e show ?thesis
      by (intro exI [of _ r] exI [of _ s'] exI [of _ "v # vs'"] exI [of _ ys']) auto
  qed
qed

text \<open>Merging, read off the list of extents from the current hole on.\<close>

fun absorb :: "extent list \<Rightarrow> extent list" where
  "absorb ((b, l) # (b2, l2) # es) =
     (if b + l = b2 then (b, l + l2) # es else (b, l) # (b2, l2) # es)"
| "absorb es = es"

fun merge_ext :: "extent list \<Rightarrow> extent list" where
  "merge_ext ((b, l) # (b2, l2) # es) =
     (if b + l = b2 then absorb ((b, l + l2) # es) else (b, l) # absorb ((b2, l2) # es))"
| "merge_ext es = es"

lemma absorb_rel:
  assumes "hole_rel s (us @ h # n # vs) ys"
  shows "hole_rel (del_slot (Some h) n (set_extent h b l s)) (us @ h # vs) (n # ys)"
  using assms del_slot_rel [of "set_extent h b l s" "us @ [h]" n vs ys "Some h"] by simp

text \<open>The second test of \<^verbatim>\<open>merge\<close> on its own.\<close>

definition merge_tail :: "nat \<Rightarrow> hole_state \<Rightarrow> hole_state" where
  "merge_tail hp s =
     (case nx s hp of
        None \<Rightarrow> s
      | Some n \<Rightarrow>
          if fst (ext s hp) + snd (ext s hp) = fst (ext s n)
          then del_slot (Some hp) n
                 (set_extent hp (fst (ext s hp)) (snd (ext s hp) + snd (ext s n)) s)
          else s)"

lemma merge_hole_alt:
  "merge_hole hp s =
     (case nx s hp of
        None \<Rightarrow> s
      | Some n \<Rightarrow>
          if fst (ext s hp) + snd (ext s hp) = fst (ext s n)
          then merge_tail hp (del_slot (Some hp) n
                 (set_extent hp (fst (ext s hp)) (snd (ext s hp) + snd (ext s n)) s))
          else merge_tail n s)"
  by (simp add: merge_hole_def merge_tail_def split: option.split)

lemma merge_tail_rel:
  assumes rel: "hole_rel s (us @ h # vs) ys"
  shows "\<exists>vs' ys'. hole_rel (merge_tail h s) (us @ h # vs') ys' \<and>
           map (ext (merge_tail h s)) (h # vs') = absorb (map (ext s) (h # vs)) \<and>
           (\<forall>u \<in> set us. ext (merge_tail h s) u = ext s u)"
proof (cases vs)
  case Nil
  with chain_next [OF hole_relD(1) [OF rel]] have "nx s h = None" by simp
  then show ?thesis using rel Nil
    by (intro exI [of _ "[]"] exI [of _ ys]) (simp add: merge_tail_def)
next
  case (Cons n ws)
  with chain_next [OF hole_relD(1) [OF rel]] have nx: "nx s h = Some n" by simp
  have dist: "distinct (us @ h # n # ws)" using hole_relD(3) [OF rel] Cons by simp
  obtain b l b2 l2 where e: "ext s h = (b, l)" "ext s n = (b2, l2)" by fastforce
  show ?thesis
  proof (cases "b + l = b2")
    case True
    then have "merge_tail h s = del_slot (Some h) n (set_extent h b (l + l2) s)"
      using nx e by (simp add: merge_tail_def)
    moreover from rel Cons have "hole_rel (del_slot (Some h) n (set_extent h b (l + l2) s)) (us @ h # ws) (n # ys)"
      by (intro absorb_rel) simp
    ultimately show ?thesis using True e Cons dist
      by (intro exI [of _ ws] exI [of _ "n # ys"]) auto
  next
    case False
    then show ?thesis using rel e Cons nx
      by (intro exI [of _ vs] exI [of _ ys]) (simp add: merge_tail_def)
  qed
qed

lemma merge_hole_rel:
  assumes rel: "hole_rel s (us @ h # vs) ys"
  shows "\<exists>vs' ys'. hole_rel (merge_hole h s) (us @ h # vs') ys' \<and>
           map (ext (merge_hole h s)) (h # vs') = merge_ext (map (ext s) (h # vs)) \<and>
           (\<forall>u \<in> set us. ext (merge_hole h s) u = ext s u)"
proof (cases vs)
  case Nil
  with chain_next [OF hole_relD(1) [OF rel]] have "nx s h = None" by simp
  then show ?thesis using rel Nil
    by (intro exI [of _ "[]"] exI [of _ ys]) (simp add: merge_hole_alt)
next
  case (Cons n ws)
  with chain_next [OF hole_relD(1) [OF rel]] have nx: "nx s h = Some n" by simp
  have dist: "distinct (us @ h # n # ws)" using hole_relD(3) [OF rel] Cons by simp
  obtain b l b2 l2 where e: "ext s h = (b, l)" "ext s n = (b2, l2)" by fastforce
  show ?thesis
  proof (cases "b + l = b2")
    case True
    define s1 where "s1 = del_slot (Some h) n (set_extent h b (l + l2) s)"
    have m: "merge_hole h s = merge_tail h s1"
      using nx e True by (simp add: merge_hole_alt s1_def)
    from rel Cons have "hole_rel s1 (us @ h # ws) (n # ys)"
      unfolding s1_def by (intro absorb_rel) simp
    from merge_tail_rel [OF this] show ?thesis
      using True e Cons dist unfolding m by (auto simp: s1_def)
  next
    case False
    then have m: "merge_hole h s = merge_tail n s"
      using nx e by (simp add: merge_hole_alt)
    from rel Cons have "hole_rel s ((us @ [h]) @ n # ws) ys" by simp
    from merge_tail_rel [OF this] obtain vs' ys' where
      "hole_rel (merge_tail n s) ((us @ [h]) @ n # vs') ys'"
      "map (ext (merge_tail n s)) (n # vs') = absorb (map (ext s) (n # ws))"
      "\<forall>u \<in> set (us @ [h]). ext (merge_tail n s) u = ext s u"
      by blast
    with False e Cons show ?thesis unfolding m
      by (intro exI [of _ "n # vs'"] exI [of _ ys']) auto
  qed
qed

lemma find_prev_spec:
  assumes "chain (nx s) hp vs"
  shows "find_prev b s p hp =
    (let A = takeWhile (\<lambda>v. fst (ext s v) < b) vs in Some (if A = [] then p else Some (last A)))"
  using assms
proof (induction vs arbitrary: p hp)
  case Nil
  then show ?case by (simp add: find_prev.simps)
next
  case (Cons v vs)
  then show ?case by (simp add: find_prev.simps [of b s p "Some v"] Let_def)
qed

section \<open>List level\<close>

lemma clicks_of_simps [simp]:
  "clicks_of [] = {}"
  "clicks_of ((b, l) # es) = {b ..< b + l} \<union> clicks_of es"
  by (auto simp: clicks_of_def)

lemma canon_below: "canon ((b, l) # es) \<Longrightarrow> (b', l') \<in> set es \<Longrightarrow> b + l < b'"
  by auto

lemma canon_clicks: "canon ((b, l) # es) \<Longrightarrow> c \<in> clicks_of es \<Longrightarrow> b + l < c"
  using canon_below [of b l es] by (fastforce simp: clicks_of_def)

lemma canon_pos: "canon es \<Longrightarrow> (b, l) \<in> set es \<Longrightarrow> 0 < b \<and> 0 < l"
  by (induction es) auto

lemma canon_replace_head:
  "canon ((b, l) # es) \<Longrightarrow> b \<le> b' \<Longrightarrow> b' + l' \<le> b + l \<Longrightarrow> 0 < l' \<Longrightarrow> canon ((b', l') # es)"
  by fastforce

lemma first_fit_base:
  "canon es \<Longrightarrow> first_fit n es = (r, es') \<Longrightarrow> r \<noteq> NO_MEM \<Longrightarrow> \<exists>l. (r, l) \<in> set es \<and> n \<le> l"
  by (induction es arbitrary: es') (auto split: if_splits prod.splits)

lemma first_fit_fails:
  assumes "canon es"
  shows "fst (first_fit n es) = NO_MEM \<longleftrightarrow> (\<forall>(b, l) \<in> set es. l < n)"
  using assms by (induction es) (auto simp: NO_MEM_def split: prod.splits)

lemma first_fit_none: "canon es \<Longrightarrow> first_fit n es = (NO_MEM, es') \<Longrightarrow> es' = es"
  by (induction es arbitrary: es') (auto simp: NO_MEM_def split: if_splits prod.splits)

text \<open>First fit: the hole that is used is the first one that is large enough.\<close>

lemma first_fit_bases:
  "first_fit n es = (r, es') \<Longrightarrow> canon es \<Longrightarrow> (b', l') \<in> set es' \<Longrightarrow>
     \<exists>b l. (b, l) \<in> set es \<and> b \<le> b' \<and> b' + l' = b + l"
  by (induction es arbitrary: es') (auto split: if_splits prod.splits, (fastforce)+)

lemma first_fit_canon: "canon es \<Longrightarrow> first_fit n es = (r, es') \<Longrightarrow> canon es'"
proof (induction es arbitrary: es')
  case (Cons e es)
  obtain b l where e: "e = (b, l)" by fastforce
  show ?case
  proof (cases "n \<le> l")
    case True
    with Cons.prems e canon_replace_head [of b l es "b + n" "l - n"] show ?thesis
      by (auto split: if_splits)
  next
    case False
    with Cons.prems e obtain es1 where ff: "first_fit n es = (r, es1)" "es' = (b, l) # es1"
      by (auto split: prod.splits)
    have "canon es1" using Cons e ff(1) by auto
    moreover have "\<And>b' l'. (b', l') \<in> set es1 \<Longrightarrow> b + l < b'"
      using first_fit_bases [OF ff(1)] canon_below [of b l es] Cons.prems(1) e by fastforce
    ultimately show ?thesis using Cons.prems(1) e ff(2) by auto
  qed
qed auto

lemma first_fit_clicks:
  "canon es \<Longrightarrow> first_fit n es = (r, es') \<Longrightarrow> r \<noteq> NO_MEM \<Longrightarrow>
     {r ..< r + n} \<subseteq> clicks_of es \<and> clicks_of es' = clicks_of es - {r ..< r + n}"
proof (induction es arbitrary: es')
  case (Cons e es)
  obtain b l where e: "e = (b, l)" by fastforce
  note above = canon_clicks [of b l es]
  show ?case
  proof (cases "n \<le> l")
    case True
    with Cons.prems e have r: "r = b" and es': "es' = (if l - n \<noteq> 0 then (b + n, l - n) # es else es)"
      by auto
    have "clicks_of es' = {b + n ..< b + l} \<union> clicks_of es"
      using es' True by auto
    moreover have "clicks_of es \<inter> {b ..< b + n} = {}"
      using above Cons.prems(1) e True by fastforce
    ultimately show ?thesis using r e True by auto
  next
    case False
    with Cons.prems e obtain es1 where ff: "first_fit n es = (r, es1)" "es' = (b, l) # es1"
      by (auto split: prod.splits)
    have IH: "{r ..< r + n} \<subseteq> clicks_of es" "clicks_of es1 = clicks_of es - {r ..< r + n}"
      using Cons e ff(1) by auto
    have "{b ..< b + l} \<inter> clicks_of es = {}"
      using above Cons.prems(1) e by fastforce
    with IH ff(2) e show ?thesis by auto
  qed
qed (simp add: NO_MEM_def)

lemma canon_absorb: "canon es \<Longrightarrow> absorb es = es"
  by (cases es rule: absorb.cases) auto

lemma canon_absorb_head:
  "canon ((b1, l1) # es) \<Longrightarrow> b + l = b1 + l1 \<Longrightarrow> absorb ((b, l) # es) = (b, l) # es"
  by (cases es) auto

text \<open>
  The specification of free agrees with what the code does: insert the block behind the last
  hole that starts below it and merge from there.
\<close>

lemma add_extent_split:
  assumes "canon es"
  shows "add_extent b l es =
    (let A = takeWhile (\<lambda>e. fst e < b) es; B = dropWhile (\<lambda>e. fst e < b) es
     in if A = [] then merge_ext ((b, l) # es) else butlast A @ merge_ext (last A # (b, l) # B))"
  using assms
proof (induction es)
  case (Cons e es)
  obtain b1 l1 where e: "e = (b1, l1)" by fastforce
  show ?case
  proof (cases "b \<le> b1")
    case True
    have "absorb ((b1, l1) # es) = (b1, l1) # es" using Cons.prems e canon_absorb by simp
    with True e Cons.prems canon_absorb_head [of b1 l1 es b "l + l1"] show ?thesis by auto
  next
    case False
    show ?thesis
    proof (cases es)
      case Nil
      with False e show ?thesis by auto
    next
      case (Cons e2 es')
      obtain b2 l2 where e2: "e2 = (b2, l2)" by fastforce
      with Cons.prems e Cons have "b1 + l1 < b2" by auto
      with Cons.IH Cons.prems False e e2 Cons show ?thesis by (auto simp: Let_def)
    qed
  qed
qed simp

lemma add_extent_bases:
  "(b', l') \<in> set (add_extent b l es) \<Longrightarrow> b' = b \<or> (\<exists>l1. (b', l1) \<in> set es)"
  by (induction es) (auto split: if_splits list.splits)

lemma add_extent_clicks:
  assumes "canon es" and "{b ..< b + l} \<inter> clicks_of es = {}"
  shows "clicks_of (add_extent b l es) = clicks_of es \<union> {b ..< b + l}"
  using assms
proof (induction es)
  case (Cons e es)
  obtain b1 l1 where e: "e = (b1, l1)" by fastforce
  show ?case
  proof (cases "\<not> b \<le> b1 \<and> b1 + l1 = b")
    case True
    then have "b1 < b" and b: "b = b1 + l1" by auto
    then show ?thesis using Cons.prems e by (cases es) (auto simp: b split: if_splits)
  next
    case False
    then show ?thesis using Cons e by auto
  qed
qed simp

lemma add_extent_canon:
  assumes "canon es" and "{b ..< b + l} \<inter> clicks_of es = {}" and "0 < b" and "0 < l"
  shows "canon (add_extent b l es)"
  using assms
proof (induction es)
  case (Cons e es)
  obtain b1 l1 where e: "e = (b1, l1)" by fastforce
  have b1: "b1 \<in> clicks_of (e # es)" and l1: "0 < l1" using Cons.prems(1) e by auto
  show ?case
  proof (cases "b \<le> b1")
    case True
    have "b + l \<le> b1"
      using Cons.prems(2) b1 True by (metis IntI atLeastLessThan_iff empty_iff not_le)
    with True Cons.prems e show ?thesis by fastforce
  next
    case False
    have lo: "b1 + l1 \<le> b"
    proof (rule ccontr)
      assume "\<not> b1 + l1 \<le> b"
      with False e have "b \<in> clicks_of (e # es)" by auto
      with Cons.prems(2,4) show False
        by (metis IntI atLeastLessThan_iff empty_iff le_refl less_add_same_cancel1)
    qed
    show ?thesis
    proof (cases "b1 + l1 = b")
      case True
      have up: "b + l \<le> b2" if "(b2, l2) \<in> set es" for b2 l2
      proof -
        from that Cons.prems(1) e have "b2 \<in> clicks_of (e # es)" "b1 + l1 < b2"
          using canon_pos [of es b2 l2] by (force simp: clicks_of_def)+
        with Cons.prems(2) True show ?thesis by (metis IntI atLeastLessThan_iff empty_iff less_imp_le not_le)
      qed
      show ?thesis
      proof (cases es)
        case Nil
        with True False e Cons.prems show ?thesis by auto
      next
        case (Cons e2 es')
        obtain b2 l2 where e2: "e2 = (b2, l2)" by fastforce
        with up Cons have "b + l \<le> b2" by auto
        with up True False e e2 Cons Cons.prems show ?thesis by fastforce
      qed
    next
      case False2: False
      have "canon (add_extent b l es)" using Cons e by auto
      moreover have "b1 + l1 < b'" if "(b', l') \<in> set (add_extent b l es)" for b' l'
        using add_extent_bases [OF that] lo False2 Cons.prems(1) e by auto
      ultimately show ?thesis using False False2 e Cons.prems(1) by auto
    qed
  qed
qed simp

section \<open>The pointer program implements the specification\<close>

lemma alloc_mem_refines:
  assumes "hole_rel s xs ys"
  shows "\<exists>r s' xs' ys'. alloc_mem n s = Some (r, s') \<and> hole_rel s' xs' ys' \<and>
           first_fit n (map (ext s) xs) = (r, map (ext s') xs')"
proof -
  have "hole_head s = (if xs = [] then None else Some (hd xs))"
    using hole_relD(1) [OF assms] by (cases xs) auto
  with alloc_loop_refines [of s "[]" xs ys "hole_head s" None n] assms show ?thesis
    by (auto simp: alloc_mem_def)
qed

lemma free_mem_refines:
  assumes rel: "hole_rel s xs (n # ys)" and canon: "canon (map (ext s) xs)" and l: "l \<noteq> 0"
  shows "\<exists>s' xs' ys'. free_mem b l s = Some (Ret s') \<and> hole_rel s' xs' ys' \<and>
           map (ext s') xs' = add_extent b l (map (ext s) xs)"
proof -
  note D = hole_relD [OF rel]
  have fs: "free_slots s = Some n" using D(2) by simp
  have n: "n \<notin> set xs" using D(5) by auto
  define s1 where "s1 = (set_extent n b l s)\<lparr>free_slots := nx s n\<rparr>"
  have s1: "ext s1 n = (b, l)" "map (ext s1) xs = map (ext s) xs" "nx s1 = nx s" "hole_head s1 = hole_head s"
    using n by (auto simp: s1_def)
  have rel0: "hole_rel (set_extent n b l s) xs (n # ys)" using rel by simp
  define A where "A = takeWhile (\<lambda>v. fst (ext s1 v) < b) xs"
  have AB: "xs = A @ dropWhile (\<lambda>v. fst (ext s1 v) < b) xs" by (simp add: A_def)
  have fp: "find_prev b s1 None (hole_head s1) = Some (if A = [] then None else Some (last A))"
    using find_prev_spec [of s1 "hole_head s1" xs b None] D(1) s1 by (simp add: A_def Let_def)
  have eA: "takeWhile (\<lambda>e. fst e < b) (map (ext s1) xs) = map (ext s1) A"
     "dropWhile (\<lambda>e. fst e < b) (map (ext s1) xs) = map (ext s1) (dropWhile (\<lambda>v. fst (ext s1 v) < b) xs)"
    by (simp_all add: A_def takeWhile_map dropWhile_map o_def)
  have "canon (map (ext s1) xs)" unfolding s1(2) by (rule canon)
  note spec = add_extent_split [OF this, of b l, unfolded eA Let_def]
  show ?thesis
  proof (cases "A = []")
    case True
    define s2 where "s2 = (set_next n (hole_head s1) s1)\<lparr>hole_head := Some n\<rparr>"
    have hd: "(case hole_head s1 of None \<Rightarrow> True | Some h \<Rightarrow> b \<le> fst (ext s1 h))"
      using D(1) s1(4) True by (cases xs) (auto simp: A_def split: if_splits)
    have fm: "free_mem b l s = Some (Ret (merge_hole n s2))"
      using l fs hd
      by (cases "hole_head s1") (simp_all add: free_mem_def Let_def s2_def flip: s1_def)
    have "hole_rel s2 ([] @ n # xs) ys"
      using push_slot_rel [OF rel0] by (simp add: s2_def s1_def)
    from merge_hole_rel [OF this] obtain vs' ys' where
      "hole_rel (merge_hole n s2) (n # vs') ys'"
      "map (ext (merge_hole n s2)) (n # vs') = merge_ext (map (ext s2) (n # xs))" by auto
    moreover have "ext s2 = ext s1" by (simp add: s2_def)
    ultimately have "map (ext (merge_hole n s2)) (n # vs') = add_extent b l (map (ext s) xs)"
      unfolding s1(2) [symmetric] using spec True s1(1) by simp
    with fm \<open>hole_rel (merge_hole n s2) (n # vs') ys'\<close> show ?thesis by blast
  next
    case False
    define a where "a = last A"
    define us where "us = butlast A"
    have A: "A = us @ [a]" using False by (simp add: a_def us_def)
    let ?B = "dropWhile (\<lambda>v. fst (ext s1 v) < b) xs"
    have xs: "xs = us @ a # ?B" using AB A by (metis append.assoc append_Cons append_Nil)
    define s2 where "s2 = set_next a (Some n) (set_next n (nx s1 a) s1)"
    obtain h where h: "hole_head s1 = Some h" "fst (ext s1 h) < b"
      using D(1) s1(4) False by (cases xs) (auto simp: A_def split: if_splits)
    have fm: "free_mem b l s = Some (Ret (merge_hole a s2))"
      using l fs h fp False by (simp add: free_mem_def Let_def s2_def a_def flip: s1_def)
    have "hole_rel s2 (us @ a # n # ?B) ys"
      using link_slot_rel [of "set_extent n b l s" us a ?B n ys] rel0 xs by (simp add: s2_def s1_def)
    from merge_hole_rel [OF this] obtain vs' ys' where m:
      "hole_rel (merge_hole a s2) (us @ a # vs') ys'"
      "map (ext (merge_hole a s2)) (a # vs') = merge_ext (map (ext s2) (a # n # ?B))"
      "\<forall>u \<in> set us. ext (merge_hole a s2) u = ext s2 u" by blast
    have e2: "ext s2 = ext s1" by (simp add: s2_def)
    have "map (ext (merge_hole a s2)) us = map (ext s1) us"
      using m(3) e2 by simp
    then have "map (ext (merge_hole a s2)) (us @ a # vs') = add_extent b l (map (ext s) xs)"
      unfolding s1(2) [symmetric] using spec False m(2) A s1(1) e2 by (simp add: map_butlast)
    with fm m(1) show ?thesis by blast
  qed
qed

lemma holes_of_unique: "holes_of s es \<Longrightarrow> holes_of s es' \<Longrightarrow> es = es'"
  unfolding holes_of_def hole_rel_def using chain_unique [of "nx s" "hole_head s"] by blast

lemma free_clicks_eq: "holes_of s es \<Longrightarrow> free_clicks s = clicks_of es"
proof -
  assume "holes_of s es"
  then have "{es. holes_of s es} = {es}" using holes_of_unique by blast
  then show ?thesis by (simp add: free_clicks_def)
qed

lemma alloc_mem_holes:
  assumes "holes_of s es"
  shows "\<exists>r s' es'. alloc_mem n s = Some (r, s') \<and> first_fit n es = (r, es') \<and> holes_of s' es'"
proof -
  from assms obtain xs ys where rel: "hole_rel s xs ys" and es: "es = map (ext s) xs" "canon es"
    by (auto simp: holes_of_def)
  from alloc_mem_refines [OF rel, of n] obtain r s' xs' ys' where
    "alloc_mem n s = Some (r, s')" "hole_rel s' xs' ys'" "first_fit n es = (r, map (ext s') xs')"
    using es by auto
  with first_fit_canon [OF es(2)] show ?thesis unfolding holes_of_def by blast
qed

lemma free_mem_holes:
  assumes hs: "holes_of s es" and left: "slots_left s" and n: "n \<noteq> 0"
    and b: "0 < b" and dis: "{b ..< b + n} \<inter> clicks_of es = {}"
  shows "\<exists>s'. free_mem b n s = Some (Ret s') \<and> holes_of s' (add_extent b n es)"
proof -
  from hs obtain xs ys where rel: "hole_rel s xs ys" and es: "es = map (ext s) xs" "canon es"
    by (auto simp: holes_of_def)
  with left obtain m zs where "ys = m # zs"
    by (cases ys) (auto simp: slots_left_def hole_rel_def)
  with free_mem_refines [of s xs m zs n b] rel es n obtain s' xs' ys' where
    "free_mem b n s = Some (Ret s')" "hole_rel s' xs' ys'" "map (ext s') xs' = add_extent b n es"
    by auto
  with add_extent_canon [OF es(2) dis b] n show ?thesis
    unfolding holes_of_def by (metis gr0I)
qed

section \<open>The contract of the click store\<close>

text \<open>
  What the rest of the memory manager relies on: allocation always returns and hands out
  clicks that were free, freeing gives back exactly the freed clicks.
\<close>

locale click_store =
  fixes inv :: "'s \<Rightarrow> bool"
    and avail :: "'s \<Rightarrow> nat set"
    and room :: "'s \<Rightarrow> bool"
    and alloc :: "nat \<Rightarrow> 's \<Rightarrow> (nat \<times> 's) option"
    and free :: "nat \<Rightarrow> nat \<Rightarrow> 's \<Rightarrow> 's outcome option"
  assumes alloc_returns: "inv s \<Longrightarrow> \<exists>r s'. alloc n s = Some (r, s')"
    and alloc_inv: "inv s \<Longrightarrow> alloc n s = Some (r, s') \<Longrightarrow> inv s'"
    and alloc_avail: "inv s \<Longrightarrow> alloc n s = Some (r, s') \<Longrightarrow> r \<noteq> NO_MEM \<Longrightarrow>
          {r ..< r + n} \<subseteq> avail s \<and> avail s' = avail s - {r ..< r + n}"
    and alloc_fail: "inv s \<Longrightarrow> alloc n s = Some (NO_MEM, s') \<Longrightarrow> avail s' = avail s"
    and free_avail: "inv s \<Longrightarrow> room s \<Longrightarrow> n \<noteq> 0 \<Longrightarrow> 0 < b \<Longrightarrow> {b ..< b + n} \<inter> avail s = {} \<Longrightarrow>
          \<exists>s'. free b n s = Some (Ret s') \<and> inv s' \<and> avail s' = avail s \<union> {b ..< b + n}"
begin

lemma alloc_disjoint:
  assumes "inv s" and "alloc n s = Some (r, s1)" and "alloc m s1 = Some (q, s2)"
    and "r \<noteq> NO_MEM" and "q \<noteq> NO_MEM"
  shows "{r ..< r + n} \<inter> {q ..< q + m} = {}"
proof -
  have "{q ..< q + m} \<subseteq> avail s - {r ..< r + n}"
    using assms alloc_avail [of s n r s1] alloc_avail [of s1 m q s2] alloc_inv [of s n r s1] by simp
  then show ?thesis by blast
qed

lemma alloc_free_restores:
  assumes "inv s" and "alloc n s = Some (r, s1)" and "r \<noteq> NO_MEM" and "n \<noteq> 0" and "room s1"
  shows "\<exists>s2. free r n s1 = Some (Ret s2) \<and> inv s2 \<and> avail s2 = avail s"
proof -
  have a: "inv s1" "{r ..< r + n} \<subseteq> avail s" "avail s1 = avail s - {r ..< r + n}"
    using assms alloc_inv alloc_avail by blast+
  have "0 < r" using assms(3) by (simp add: NO_MEM_def)
  moreover have "{r ..< r + n} \<inter> avail s1 = {}" using a(3) by auto
  ultimately obtain s2 where "free r n s1 = Some (Ret s2)" "inv s2" "avail s2 = avail s1 \<union> {r ..< r + n}"
    using free_avail [of s1 n r] a(1) assms(4,5) by blast
  with a show ?thesis by auto
qed

end

interpretation holes: click_store hole_inv free_clicks slots_left alloc_mem free_mem
proof
  fix s n r s' b
  show "hole_inv s \<Longrightarrow> \<exists>r s'. alloc_mem n s = Some (r, s')"
    using alloc_mem_holes unfolding hole_inv_def by blast
  show "hole_inv s \<Longrightarrow> alloc_mem n s = Some (r, s') \<Longrightarrow> hole_inv s'"
    using alloc_mem_holes [of s _ n] unfolding hole_inv_def by fastforce
  show "{r ..< r + n} \<subseteq> free_clicks s \<and> free_clicks s' = free_clicks s - {r ..< r + n}"
    if inv: "hole_inv s" and al: "alloc_mem n s = Some (r, s')" and r: "r \<noteq> NO_MEM"
  proof -
    from inv obtain es where es: "holes_of s es" by (auto simp: hole_inv_def)
    with al alloc_mem_holes [OF es, of n] obtain es' where
      "first_fit n es = (r, es')" "holes_of s' es'" by auto
    with first_fit_clicks [of es n r es'] es r show ?thesis
      by (auto simp: free_clicks_eq holes_of_def)
  qed
  show "free_clicks s' = free_clicks s" if inv: "hole_inv s" and al: "alloc_mem n s = Some (NO_MEM, s')"
  proof -
    from inv obtain es where es: "holes_of s es" by (auto simp: hole_inv_def)
    with al alloc_mem_holes [OF es, of n] obtain es' where
      "first_fit n es = (NO_MEM, es')" "holes_of s' es'" by auto
    with first_fit_none [of es n es'] es show ?thesis
      by (metis free_clicks_eq holes_of_def)
  qed
  show "\<exists>s'. free_mem b n s = Some (Ret s') \<and> hole_inv s' \<and> free_clicks s' = free_clicks s \<union> {b ..< b + n}"
    if "hole_inv s" "slots_left s" "n \<noteq> 0" "0 < b" "{b ..< b + n} \<inter> free_clicks s = {}"
  proof -
    from that(1) obtain es where es: "holes_of s es" by (auto simp: hole_inv_def)
    then have dis: "{b ..< b + n} \<inter> clicks_of es = {}" using that(5) by (simp add: free_clicks_eq)
    from free_mem_holes [OF es that(2-4) dis] add_extent_clicks [OF _ dis] es show ?thesis
      by (metis free_clicks_eq hole_inv_def holes_of_def)
  qed
qed

section \<open>Initialisation and the largest hole\<close>

lemma link_slots_nx:
  "nx (link_slots s) i = (if i + 1 < NR_HOLES then Some (i + 1) else if i < NR_HOLES then None else nx s i)"
  by (simp add: link_slots_def nx_def set_next_def NR_HOLES_def Let_def del: hole_fields)

lemma link_slots_chain:
  "i < NR_HOLES \<Longrightarrow> chain (nx (link_slots s)) (Some i) [i ..< NR_HOLES]"
proof (induction "NR_HOLES - i" arbitrary: i)
  case 0
  then show ?case by simp
next
  case (Suc k)
  show ?case
  proof (cases "i + 1 < NR_HOLES")
    case True
    with Suc have "chain (nx (link_slots s)) (Some (i + 1)) [i + 1 ..< NR_HOLES]" by simp
    with True show ?thesis by (simp add: upt_conv_Cons link_slots_nx)
  next
    case False
    with Suc.prems have "[i ..< NR_HOLES] = [i]" by (simp add: upt_conv_Cons)
    with False Suc.prems show ?thesis by (simp add: link_slots_nx)
  qed
qed

lemma link_slots_holes: "holes_of (link_slots s) []"
proof -
  have "hole_rel (link_slots s) [] [0 ..< NR_HOLES]"
    using link_slots_chain [of 0 s]
    by (auto simp: hole_rel_def NR_HOLES_def link_slots_def Let_def)
  then show ?thesis unfolding holes_of_def
    by (intro exI [of _ "[]"] exI [of _ "[0 ..< NR_HOLES]"]) simp
qed

lemma hole_rel_length: "hole_rel s xs ys \<Longrightarrow> length xs + length ys = NR_HOLES"
proof -
  assume rel: "hole_rel s xs ys"
  note D = hole_relD [OF rel]
  have "card (set xs \<union> set ys) = card (set xs) + card (set ys)"
    using D(5) by (simp add: card_Un_disjoint)
  then show ?thesis using D by (simp add: distinct_card)
qed

lemma slots_left_iff: "holes_of s es \<Longrightarrow> slots_left s \<longleftrightarrow> length es < NR_HOLES"
proof -
  assume "holes_of s es"
  then obtain xs ys where rel: "hole_rel s xs ys" and es: "es = map (ext s) xs"
    by (auto simp: holes_of_def)
  have "slots_left s \<longleftrightarrow> ys \<noteq> []"
    using hole_relD(2) [OF rel] by (cases ys) (auto simp: slots_left_def)
  with hole_rel_length [OF rel] es show ?thesis by (cases ys) auto
qed

lemma max_hole_loop_spec:
  "chain (nx s) hp xs \<Longrightarrow> max_hole_loop s hp m = Some (Max (insert m (snd ` set (map (ext s) xs))))"
proof (induction xs arbitrary: hp m)
  case Nil
  then show ?case by (simp add: max_hole_loop.simps)
next
  case (Cons x xs)
  then have "max_hole_loop s hp m = max_hole_loop s (nx s x) (max (snd (ext s x)) m)"
    by (simp add: max_hole_loop.simps [of s "Some x"] max_def)
  with Cons show ?case
    by (cases "xs = []") (simp_all add: image_image max.assoc max.commute max.left_commute)
qed

text \<open>The chunks reported by the kernel, up to the one of size 0.\<close>

fun chunks :: "(nat \<times> nat \<times> nat) list \<Rightarrow> extent list \<Rightarrow> extent list" where
  "chunks [] es = es"
| "chunks ((b, l, t) # cs) es = chunks cs (add_extent b l es)"

fun chunks_ok :: "(nat \<times> nat \<times> nat) list \<Rightarrow> nat set \<Rightarrow> bool" where
  "chunks_ok [] A \<longleftrightarrow> True"
| "chunks_ok ((b, l, t) # cs) A \<longleftrightarrow>
     0 < b \<and> 0 < l \<and> {b ..< b + l} \<inter> A = {} \<and> chunks_ok cs (A \<union> {b ..< b + l})"

lemma add_extent_length: "length (add_extent b l es) \<le> length es + 1"
  by (induction es) (auto split: list.splits)

lemma mem_init_loop_holes:
  assumes "holes_of s es" and "chunks_ok cs (clicks_of es)" and "length es + length cs \<le> NR_HOLES"
  shows "\<exists>s'. mem_init_loop (map Some cs @ [Some (b0, 0, t0)]) t f s =
            Some (Ret (last (t # map (\<lambda>(b, l, t). t) cs), f + sum_list (map (\<lambda>(b, l, t). l) cs), s')) \<and>
           holes_of s' (chunks cs es) \<and>
           clicks_of (chunks cs es) = clicks_of es \<union> (\<Union>(b, l, t) \<in> set cs. {b ..< b + l})"
  using assms
proof (induction cs arbitrary: s es t f)
  case Nil
  then show ?case by auto
next
  case (Cons c cs)
  obtain b l t' where c: "c = (b, l, t')" by (cases c)
  with Cons.prems have ok: "0 < b" "0 < l" "{b ..< b + l} \<inter> clicks_of es = {}"
    "chunks_ok cs (clicks_of es \<union> {b ..< b + l})" by auto
  have "slots_left s" using Cons.prems(1,3) by (simp add: slots_left_iff)
  with free_mem_holes [OF Cons.prems(1) _ _ ok(1,3)] ok(2) obtain s1 where
    s1: "free_mem b l s = Some (Ret s1)" "holes_of s1 (add_extent b l es)" by auto
  have cl: "clicks_of (add_extent b l es) = clicks_of es \<union> {b ..< b + l}"
    using add_extent_clicks [OF _ ok(3)] Cons.prems(1) unfolding holes_of_def by blast
  have "length (add_extent b l es) + length cs \<le> NR_HOLES"
    using add_extent_length [of b l es] Cons.prems(3) by simp
  from Cons.IH [OF s1(2) _ this, of t' "f + l"] cl ok(4) s1(1) c ok(2) show ?case
    by (auto simp: add.assoc)
qed

section \<open>Histories of the store\<close>

lemma clicks_of_append [simp]: "clicks_of (xs @ ys) = clicks_of xs \<union> clicks_of ys"
  by (auto simp: clicks_of_def)

lemma disjoint_blocks_middle:
  "disjoint_blocks (us @ (b, l) # vs) \<longleftrightarrow>
     disjoint_blocks (us @ vs) \<and> {b ..< b + l} \<inter> clicks_of (us @ vs) = {}"
proof (induction us)
  case (Cons e us)
  obtain b1 l1 where "e = (b1, l1)" by fastforce
  with Cons show ?case by (simp add: Int_Un_distrib) blast
qed auto

lemma free_mem_full: "n \<noteq> 0 \<Longrightarrow> \<not> slots_left s \<Longrightarrow> free_mem b n s = Some (Panic ''Hole table full'')"
  by (simp add: free_mem_def slots_left_def)

lemma mem_run_inv:
  assumes "mem_run s0 s bs" and "hole_inv s0"
  shows "hole_inv s \<and> disjoint_blocks bs \<and> (\<forall>(b, l) \<in> set bs. 0 < b \<and> 0 < l) \<and>
    clicks_of bs \<inter> free_clicks s = {} \<and> clicks_of bs \<union> free_clicks s = free_clicks s0"
  using assms
proof (induction rule: mem_run.induct)
  case start
  then show ?case by simp
next
  case (alloc s bs n r s')
  have a: "{r ..< r + n} \<subseteq> free_clicks s" "free_clicks s' = free_clicks s - {r ..< r + n}" "hole_inv s'"
    using holes.alloc_avail [of s n r s'] holes.alloc_inv [of s n r s'] alloc by simp_all
  have IH: "clicks_of bs \<inter> free_clicks s = {}" "clicks_of bs \<union> free_clicks s = free_clicks s0"
    using alloc by blast+
  have "{r ..< r + n} \<inter> clicks_of bs = {}" "clicks_of ((r, n) # bs) \<inter> free_clicks s' = {}"
    "clicks_of ((r, n) # bs) \<union> free_clicks s' = free_clicks s0"
    unfolding a(2) clicks_of_simps using a(1) IH by blast+
  with a(3) alloc show ?case by (simp add: NO_MEM_def)
next
  case (free s us b n vs s')
  then have IH: "hole_inv s" "disjoint_blocks (us @ (b, n) # vs)" "0 < b" "0 < n"
    "clicks_of (us @ (b, n) # vs) \<inter> free_clicks s = {}"
    "clicks_of (us @ (b, n) # vs) \<union> free_clicks s = free_clicks s0"
    and pos: "\<forall>(b, l) \<in> set (us @ vs). 0 < b \<and> 0 < l"
    by auto
  have "slots_left s" using free_mem_full [of n s b] IH(4) free.hyps(2) by auto
  moreover have "{b ..< b + n} \<inter> free_clicks s = {}" using IH(5) by auto
  ultimately have f: "hole_inv s'" "free_clicks s' = free_clicks s \<union> {b ..< b + n}"
    using holes.free_avail [of s n b] free.hyps(2) IH by auto
  have dis: "disjoint_blocks (us @ vs)" "{b ..< b + n} \<inter> clicks_of (us @ vs) = {}"
    using IH(2) by (simp_all add: disjoint_blocks_middle)
  have "clicks_of (us @ vs) \<inter> free_clicks s' = {}" "clicks_of (us @ vs) \<union> free_clicks s' = free_clicks s0"
    unfolding f(2) using IH(5,6) dis(2) by (simp_all add: Int_Un_distrib) blast+
  with f(1) dis(1) pos show ?case by blast
qed

lemma demo_holes_of: "holes_of demo_holes [(100, 50)]"
proof -
  have "slots_left (link_slots no_holes)" using slots_left_iff [OF link_slots_holes] by (simp add: NR_HOLES_def)
  from free_mem_holes [OF link_slots_holes this, of 50 100] show ?thesis
    by (auto simp: demo_holes_def)
qed

section \<open>Properties\<close>

text \<open>
  (C13) First fit. On a well-formed hole table whose hole list is \<open>es\<close>, \<^verbatim>\<open>alloc_mem\<close> returns,
  its result and the new hole list are those of first fit on \<open>es\<close>, the table stays
  well-formed, and it returns \<^verbatim>\<open>NO_MEM\<close> exactly if every hole is too small.
\<close>

theorem alloc_mem_first_fit:
  assumes "holes_of s es"
  shows "\<exists>r s' es'. alloc_mem n s = Some (r, s') \<and> first_fit n es = (r, es') \<and> holes_of s' es' \<and>
    (r = NO_MEM \<longleftrightarrow> (\<forall>(b, l) \<in> set es. l < n))"
proof -
  obtain r s' es' where *: "alloc_mem n s = Some (r, s')" "first_fit n es = (r, es')" "holes_of s' es'"
    using alloc_mem_holes [OF assms] by blast
  moreover have "canon es" using assms by (auto simp: holes_of_def)
  ultimately show ?thesis using first_fit_fails [of es n] by fastforce
qed

theorem alloc_mem_first_fit_witness:
  "holes_of demo_holes [(100, 50)] \<and> (\<exists>s'. alloc_mem 10 demo_holes = Some (100, s') \<and> holes_of s' [(110, 40)])"
  using demo_holes_of alloc_mem_first_fit [OF demo_holes_of, of 10] by auto

text \<open>
  (C14) Coalescing free. Freeing a block that is not free inserts it in address order and
  merges it with the holes that touch it: the new hole list is sorted, without empty or
  touching holes, and its clicks are the old ones and those of the block.
\<close>

theorem free_mem_coalesces:
  assumes "holes_of s es" and "length es < NR_HOLES" and "0 < b" and "0 < n"
    and "{b ..< b + n} \<inter> clicks_of es = {}"
  shows "\<exists>s'. free_mem b n s = Some (Ret s') \<and> holes_of s' (add_extent b n es) \<and>
    canon (add_extent b n es) \<and> clicks_of (add_extent b n es) = clicks_of es \<union> {b ..< b + n}"
proof -
  have es: "canon es" using assms(1) by (auto simp: holes_of_def)
  have "slots_left s" using assms(1,2) by (simp add: slots_left_iff)
  with free_mem_holes [of s es n b] assms add_extent_clicks [OF es assms(5)]
    add_extent_canon [OF es assms(5,3,4)] show ?thesis by auto
qed

theorem free_mem_coalesces_witness:
  "\<exists>s'. free_mem 150 10 demo_holes = Some (Ret s') \<and> holes_of s' [(100, 60)]"
  using free_mem_coalesces [OF demo_holes_of, of 150 10] by (auto simp: NR_HOLES_def)

text \<open>
  (C12) No click is ever handed out twice and none is lost: whatever the order of
  allocations and frees, the blocks in use are pairwise disjoint and, with the free clicks,
  make up exactly the memory the store started with.
\<close>

theorem mem_run_conserves:
  assumes "hole_inv s0" and "mem_run s0 s bs"
  shows "disjoint_blocks bs \<and> clicks_of bs \<inter> free_clicks s = {} \<and>
    clicks_of bs \<union> free_clicks s = free_clicks s0"
  using mem_run_inv [OF assms(2,1)] by simp

theorem mem_run_conserves_witness:
  "\<exists>s bs. bs = [(100, 10)] \<and> mem_run demo_holes s bs \<and> disjoint_blocks bs \<and>
     clicks_of bs \<union> free_clicks s = {100 ..< 150}"
proof -
  have inv: "hole_inv demo_holes" using demo_holes_of by (auto simp: hole_inv_def)
  obtain s where "alloc_mem 10 demo_holes = Some (100, s)"
    using alloc_mem_holes [OF demo_holes_of, of 10] by auto
  then have "mem_run demo_holes s [(100, 10)]"
    by (rule mem_run.alloc [OF mem_run.start]) (simp_all add: NO_MEM_def)
  with mem_run_conserves [OF inv this] free_clicks_eq [OF demo_holes_of] show ?thesis by auto
qed

text \<open>
  Allocating and freeing the same block is the identity on the free clicks, provided a
  table slot is left; the call never panics then and never loops.
\<close>

theorem alloc_mem_free_mem_roundtrip:
  assumes "hole_inv s" and "alloc_mem n s = Some (r, s1)" and "r \<noteq> NO_MEM" and "n \<noteq> 0"
    and "slots_left s1"
  shows "\<exists>s2. free_mem r n s1 = Some (Ret s2) \<and> hole_inv s2 \<and> free_clicks s2 = free_clicks s"
  using assms by (rule holes.alloc_free_restores)

theorem alloc_mem_free_mem_roundtrip_witness:
  "\<exists>s1 s2. alloc_mem 10 demo_holes = Some (100, s1) \<and> free_mem 100 10 s1 = Some (Ret s2) \<and>
     free_clicks s2 = {100 ..< 150}"
proof -
  obtain s1 where s1: "alloc_mem 10 demo_holes = Some (100, s1)" "holes_of s1 [(110, 40)]"
    using alloc_mem_holes [OF demo_holes_of, of 10] by auto
  have "slots_left s1" using slots_left_iff [OF s1(2)] by (simp add: NR_HOLES_def)
  moreover have "hole_inv demo_holes" using demo_holes_of by (auto simp: hole_inv_def)
  ultimately show ?thesis
    using alloc_mem_free_mem_roundtrip [OF _ s1(1)] s1(1) free_clicks_eq [OF demo_holes_of]
    by (auto simp: NO_MEM_def)
qed

text \<open>
  The hole table has room for \<^verbatim>\<open>NR_HOLES\<close> holes: once they are all in use,
  \<^verbatim>\<open>free_mem\<close> panics for every non-empty block, also for one that would merge with its
  neighbours and need no slot of its own.
\<close>

theorem free_mem_table_full:
  assumes "holes_of s es" and "n \<noteq> 0"
  shows "free_mem b n s = Some (Panic ''Hole table full'') \<longleftrightarrow> length es = NR_HOLES"
proof (cases "slots_left s")
  case True
  from assms(1) obtain xs ys where rel: "hole_rel s xs ys" "es = map (ext s) xs" "canon es"
    by (auto simp: holes_of_def)
  with True obtain m zs where "ys = m # zs" by (cases ys) (auto simp: slots_left_def hole_rel_def)
  with free_mem_refines [of s xs m zs n b] rel assms(2) True slots_left_iff [OF assms(1)] show ?thesis
    by auto
next
  case False
  moreover have "length es \<le> NR_HOLES"
    using assms(1) hole_rel_length unfolding holes_of_def by fastforce
  ultimately show ?thesis using free_mem_full [OF assms(2)] slots_left_iff [OF assms(1)] by auto
qed

theorem free_mem_table_full_witness:
  "free_mem 150 10 demo_holes \<noteq> Some (Panic ''Hole table full'')"
  using free_mem_table_full [OF demo_holes_of, of 10 150] by (simp add: NR_HOLES_def)

text \<open>\<^verbatim>\<open>max_hole\<close> returns the length of the largest hole, 0 if there is none.\<close>

theorem max_hole_largest:
  assumes "holes_of s es"
  shows "max_hole s = Some (Max (insert 0 (snd ` set es)))"
proof -
  from assms obtain xs ys where "hole_rel s xs ys" "es = map (ext s) xs" by (auto simp: holes_of_def)
  then show ?thesis
    using max_hole_loop_spec [of s "hole_head s" xs 0] by (simp add: max_hole_def hole_rel_def)
qed

theorem max_hole_largest_witness: "max_hole demo_holes = Some 50"
  using max_hole_largest [OF demo_holes_of] by simp

text \<open>
  \<^verbatim>\<open>mem_init\<close> with at most \<^verbatim>\<open>NR_HOLES\<close> disjoint chunks from the kernel builds a
  well-formed hole table whose free clicks are those of the chunks; \<^verbatim>\<open>*free\<close> is their sum
  and \<^verbatim>\<open>*total\<close> the total of the last reply, whatever the table held before.
\<close>

theorem mem_init_holes:
  assumes "chunks_ok cs {}" and "length cs \<le> NR_HOLES"
  shows "\<exists>s'. mem_init (map Some cs @ [Some (b0, 0, t0)]) t s =
            Some (Ret (last (t # map (\<lambda>(b, l, t). t) cs), sum_list (map (\<lambda>(b, l, t). l) cs), s')) \<and>
           hole_inv s' \<and> free_clicks s' = (\<Union>(b, l, t) \<in> set cs. {b ..< b + l})"
proof -
  obtain s' where "mem_init_loop (map Some cs @ [Some (b0, 0, t0)]) t 0 (link_slots s) =
      Some (Ret (last (t # map (\<lambda>(b, l, t). t) cs), sum_list (map (\<lambda>(b, l, t). l) cs), s'))"
    "holes_of s' (chunks cs [])" "clicks_of (chunks cs []) = (\<Union>(b, l, t) \<in> set cs. {b ..< b + l})"
    using mem_init_loop_holes [OF link_slots_holes [of s], of cs b0 t0 t 0] assms by auto
  then show ?thesis
    using free_clicks_eq [of s' "chunks cs []"] by (auto simp: mem_init_def hole_inv_def)
qed

theorem mem_init_holes_witness:
  "\<exists>s'. mem_init [Some (100, 50, 400), Some (300, 20, 400), Some (0, 0, 0)] 0 no_holes = Some (Ret (400, 70, s')) \<and>
     free_clicks s' = {100 ..< 150} \<union> {300 ..< 320}"
  using mem_init_holes [of "[(100, 50, 400), (300, 20, 400)]" 0 0 0 no_holes] by (auto simp: NR_HOLES_def)

end
