(* ===== verification/Mm_Proc.thy ===== *)
theory Mm_Proc
  imports Mm_Alloc Kernel_Proc
begin

unbundle bit_operations_syntax

text \<open>
  The memory manager's process table and the helpers that all its system calls use:
  \<^verbatim>\<open>mproc.h\<close>, \<^verbatim>\<open>glo.h\<close>, \<^verbatim>\<open>param.h\<close>, \<^verbatim>\<open>utility.c\<close>, \<^verbatim>\<open>reply\<close> of \<^verbatim>\<open>main.c\<close> and \<^verbatim>\<open>break.c\<close>
  (\<^verbatim>\<open>src/src/mm\<close>). The kernel, the clock task, the file system and the callers' memory are
  outside the memory manager: every call to one of them is appended to the list \<open>out\<close>, and its
  answer is a function of that list, given by an \<open>env\<close>. Integers and clicks are 32 bits wide,
  pointers 4 bytes; \<^verbatim>\<open>char\<close> is signed. \<^verbatim>\<open>SHADOWING\<close> and \<^verbatim>\<open>OLDSIGNAL_COMPAT\<close> are 1.
\<close>

section \<open>Data\<close>

record sigaction =
  sa_handler :: "32 word"
  sa_mask :: "32 word"
  sa_flags :: "32 word"

text \<open>
  \<^verbatim>\<open>mp_seg\<close> is split into its three segments; the fields only \<^verbatim>\<open>exec.c\<close> uses (\<^verbatim>\<open>mp_ino\<close>,
  \<^verbatim>\<open>mp_dev\<close>, \<^verbatim>\<open>mp_ctime\<close>, \<^verbatim>\<open>mp_procargs\<close>) are left out.
\<close>

record mproc =
  seg_T :: mem_map
  seg_D :: mem_map
  seg_S :: mem_map
  mp_exitstatus :: int
  mp_sigstatus :: int
  mp_pid :: int
  mp_procgrp :: int
  mp_wpid :: int
  mp_parent :: int
  mp_realuid :: int
  mp_effuid :: int
  mp_realgid :: int
  mp_effgid :: int
  mp_ignore :: "32 word"
  mp_catch :: "32 word"
  mp_sigmask :: "32 word"
  mp_sigmask2 :: "32 word"
  mp_sigpending :: "32 word"
  mp_sigact :: "int \<Rightarrow> sigaction"
  mp_sigreturn :: "32 word"
  mp_func :: "32 word"
  mp_flags :: "32 word"

definition IN_USE :: "32 word" where [flag_simps]: "IN_USE = flag 0"
definition WAITING :: "32 word" where [flag_simps]: "WAITING = flag 1"
definition HANGING :: "32 word" where [flag_simps]: "HANGING = flag 2"
definition PAUSED :: "32 word" where [flag_simps]: "PAUSED = flag 3"
definition ALARM_ON :: "32 word" where [flag_simps]: "ALARM_ON = flag 4"
definition SEPARATE :: "32 word" where [flag_simps]: "SEPARATE = flag 5"
definition TRACED :: "32 word" where [flag_simps]: "TRACED = flag 6"
definition STOPPED :: "32 word" where [flag_simps]: "STOPPED = flag 7"
definition SIGSUSPENDED :: "32 word" where [flag_simps]: "SIGSUSPENDED = flag 8"

definition SIGHUP :: int where "SIGHUP = 1"
definition SIGINT :: int where "SIGINT = 2"
definition SIGQUIT :: int where "SIGQUIT = 3"
definition SIGILL :: int where "SIGILL = 4"
definition SIGTRAP :: int where "SIGTRAP = 5"
definition SIGKILL :: int where "SIGKILL = 9"
definition SIGSEGV :: int where "SIGSEGV = 11"
definition SIGALRM :: int where "SIGALRM = 14"

definition SIG_DFL :: "32 word" where "SIG_DFL = 0"
definition SIG_IGN :: "32 word" where "SIG_IGN = 1"
definition SA_RESETHAND :: "32 word" where [flag_simps]: "SA_RESETHAND = flag 1"
definition SA_NODEFER :: "32 word" where [flag_simps]: "SA_NODEFER = flag 2"
definition SA_COMPAT :: "32 word" where [flag_simps]: "SA_COMPAT = flag 7"

definition SUPER_USER :: int where "SUPER_USER = 0"
definition INIT_PROC_NR :: int where "INIT_PROC_NR = 3"
definition INIT_PID :: int where "INIT_PID = 1"
definition CLICK_SIZE :: "32 word" where "CLICK_SIZE = 256"
definition HZ :: "32 word" where "HZ = 60"

definition EXIT_CALL :: int where "EXIT_CALL = 1"
definition FORK_CALL :: int where "FORK_CALL = 2"
definition WAIT_CALL :: int where "WAIT_CALL = 7"
definition CHDIR_CALL :: int where "CHDIR_CALL = 12"
definition GETPID_CALL :: int where "GETPID_CALL = 20"
definition SETUID_CALL :: int where "SETUID_CALL = 23"
definition GETUID_CALL :: int where "GETUID_CALL = 24"
definition SYNC_CALL :: int where "SYNC_CALL = 36"
definition SETGID_CALL :: int where "SETGID_CALL = 46"
definition GETGID_CALL :: int where "GETGID_CALL = 47"
definition EXEC_CALL :: int where "EXEC_CALL = 59"
definition SETSID_CALL :: int where "SETSID_CALL = 62"
definition GETPGRP_CALL :: int where "GETPGRP_CALL = 63"
definition UNPAUSE_CALL :: int where "UNPAUSE_CALL = 65"
definition NCALLS :: int where "NCALLS = 77"

text \<open>
  The calls the memory manager makes. The last is one of \<^verbatim>\<open>do_exec\<close>, which is a parameter: the process, the block of its new
  image and its size, the clicks a fork will ask for, and the block that the kernel gives back.
\<close>

datatype event =
    Reply int int int "32 word"
  | TellFs int int int int
  | SysXit int int
  | SysFork int int int nat
  | SysNewmap int mem_map mem_map mem_map
  | SysGetsp int
  | SysTrace int int int int
  | SysSendsig int "32 word" int "32 word" "32 word" "32 word"
  | SysOldsig int int "32 word"
  | SysEndsig int
  | SysSigreturn int "32 word" int
  | SetAlarm int "32 word"
  | CopyOut int "32 word"
  | CopyIn int "32 word"
  | OpenCore int
  | WriteCore int
  | SysAbort int
  | SysFresh int nat nat nat nat nat

text \<open>The answers, as functions of the calls made so far.\<close>

record env =
  send_ok :: "event list \<Rightarrow> bool"
  getsp_val :: "event list \<Rightarrow> 32 word"
  xit_val :: "event list \<Rightarrow> nat \<times> nat"
  seconds_left :: "event list \<Rightarrow> int"
  clock_ok :: "event list \<Rightarrow> bool"
  trace_val :: "event list \<Rightarrow> int \<times> int"
  errno_val :: "event list \<Rightarrow> int"
  sigreturn_val :: "event list \<Rightarrow> int"
  copy_val :: "event list \<Rightarrow> int"
  sigaction_in :: "event list \<Rightarrow> sigaction"
  monitor_in :: "event list \<Rightarrow> int list"
  core_ok :: "event list \<Rightarrow> bool"
  frame_bytes :: "32 word"
  oldframe_bytes :: "32 word"

text \<open>The incoming message: the union's members \<^verbatim>\<open>m1_i1\<close>, \<^verbatim>\<open>m2_i1\<close>, \<^verbatim>\<open>m6_i1\<close> share one word, and so on.\<close>

record mm_message =
  in_i1 :: int
  in_i2 :: int
  in_l1 :: int
  in_l2 :: int
  in_p1 :: "32 word"
  in_p2 :: "32 word"
  in_p3 :: "32 word"
  in_f1 :: "32 word"

record mm =
  mproc :: "int \<Rightarrow> mproc"
  mp :: int
  dont_reply :: bool
  procs_in_use :: int
  mm_in :: mm_message
  who :: int
  mm_call :: int
  result2 :: int
  res_ptr :: "32 word"
  core_sset :: "32 word"
  next_pid :: int
  holes :: hole_state
  ret_mask :: "32 word"
  out_l2 :: int
  out :: "event list"

definition upd_mproc :: "int \<Rightarrow> (mproc \<Rightarrow> mproc) \<Rightarrow> mm \<Rightarrow> mm" where
  "upd_mproc p f s = s\<lparr>mproc := (mproc s)(p := f (mproc s p))\<rparr>"

definition emit :: "event \<Rightarrow> mm \<Rightarrow> mm" where
  "emit ev s = s\<lparr>out := out s @ [ev]\<rparr>"

abbreviation set_flag :: "int \<Rightarrow> 32 word \<Rightarrow> mm \<Rightarrow> mm" where
  "set_flag p m \<equiv> upd_mproc p (mp_flags_update (\<lambda>f. f OR m))"

abbreviation clear_flag :: "int \<Rightarrow> 32 word \<Rightarrow> mm \<Rightarrow> mm" where
  "clear_flag p m \<equiv> upd_mproc p (mp_flags_update (\<lambda>f. f AND NOT m))"

abbreviation pflag :: "mm \<Rightarrow> int \<Rightarrow> 32 word \<Rightarrow> bool" where
  "pflag s p m \<equiv> has (mp_flags (mproc s p)) m"

text \<open>Storing an \<^verbatim>\<open>int\<close> in a signed \<^verbatim>\<open>char\<close> (also \<^verbatim>\<open>gid_t\<close>) or \<^verbatim>\<open>short\<close> (\<^verbatim>\<open>uid_t\<close>).\<close>

definition to_char :: "int \<Rightarrow> int" where
  "to_char n = (n + 128) mod 256 - 128"

definition to_short :: "int \<Rightarrow> int" where
  "to_short n = (n + 32768) mod 65536 - 32768"

section \<open>Talking to the outside\<close>

definition reply :: "env \<Rightarrow> int \<Rightarrow> int \<Rightarrow> int \<Rightarrow> 32 word \<Rightarrow> mm \<Rightarrow> mm outcome option" where
  "reply e proc_nr result res2 respt s =
     (if who s \<ge> 0 \<and> (\<not> pflag s proc_nr IN_USE \<or> pflag s proc_nr HANGING) then Some (Ret s)
      else let s1 = emit (Reply proc_nr result res2 respt) s
           in if send_ok e (out s1) then Some (Ret s1) else Some (Panic ''MM can't reply''))"

definition tell_fs :: "int \<Rightarrow> int \<Rightarrow> int \<Rightarrow> int \<Rightarrow> mm \<Rightarrow> mm" where
  "tell_fs what p1 p2 p3 s = emit (TellFs what p1 p2 p3) s"

definition sys_getsp :: "env \<Rightarrow> int \<Rightarrow> mm \<Rightarrow> 32 word \<times> mm" where
  "sys_getsp e p s = (let s1 = emit (SysGetsp p) s in (getsp_val e (out s1), s1))"

definition no_sys :: int where
  "no_sys = EINVAL"

section \<open>Growing segments, break.c\<close>

definition SAFETY_CLICKS :: "32 word" where
  "SAFETY_CLICKS = (384 * 4 + CLICK_SIZE - 1) div CLICK_SIZE"

definition size_ok :: "32 word \<Rightarrow> 32 word \<Rightarrow> 32 word \<Rightarrow> int" where
  "size_ok dc dvir s_vir = (if dvir + dc > s_vir then ENOMEM else OK)"

text \<open>
  \<^verbatim>\<open>long\<close> has 32 bits like the clicks, so \<^verbatim>\<open>base_of_stack\<close> and \<^verbatim>\<open>delta\<close> are words read as
  signed numbers; the comparison \<^verbatim>\<open>sp_click >= base_of_stack\<close> of an unsigned and a long of the
  same width is unsigned.
\<close>

definition adjust :: "int \<Rightarrow> 32 word \<Rightarrow> 32 word \<Rightarrow> mm \<Rightarrow> int \<times> mm" where
  "adjust rmp data_clicks sp s =
     (let mem_dp = seg_D (mproc s rmp); mem_sp = seg_S (mproc s rmp) in
      if mem_len mem_sp = 0 then (OK, s)
      else
       let base_of_stack = mem_vir mem_sp + mem_len mem_sp;
           sp_click = drop_bit CLICK_SHIFT sp
       in if sp_click \<ge> base_of_stack then (ENOMEM, s)
       else
         let delta = mem_vir mem_sp - sp_click;
             lower = (if sint delta > 0 then sp_click else mem_vir mem_sp);
             gap_base = mem_vir mem_dp + data_clicks + SAFETY_CLICKS
         in if lower < gap_base then (ENOMEM, s)
         else
           let old_clicks = mem_len mem_dp;
               data_changed = (data_clicks \<noteq> mem_len mem_dp);
               stack_changed = (sint delta > 0);
               s1 = upd_mproc rmp (seg_D_update (mem_len_update (\<lambda>_. data_clicks))) s;
               s2 = (if stack_changed
                     then upd_mproc rmp (seg_S_update (\<lambda>m. m\<lparr>mem_vir := mem_vir m - delta,
                            mem_phys := mem_phys m - delta, mem_len := mem_len m + delta\<rparr>)) s1
                     else s1);
               r = size_ok (mem_len (seg_D (mproc s2 rmp))) (mem_vir (seg_D (mproc s2 rmp)))
                     (mem_vir (seg_S (mproc s2 rmp)))
           in if r = OK
              then (OK, if data_changed \<or> stack_changed
                        then emit (SysNewmap rmp (seg_T (mproc s2 rmp)) (seg_D (mproc s2 rmp)) (seg_S (mproc s2 rmp))) s2
                        else s2)
              else
                let s3 = upd_mproc rmp (seg_D_update (mem_len_update (\<lambda>_. old_clicks))) s2;
                    s4 = (if stack_changed
                          then upd_mproc rmp (seg_S_update (\<lambda>m. m\<lparr>mem_vir := mem_vir m + delta,
                                 mem_phys := mem_phys m + delta, mem_len := mem_len m - delta\<rparr>)) s3
                          else s3)
                in (ENOMEM, s4))"

definition do_brk :: "env \<Rightarrow> mm \<Rightarrow> int \<times> mm" where
  "do_brk e s =
     (let v = in_p1 (mm_in s);
          new_clicks = word_of_int (sint (v + CLICK_SIZE - 1) div 256)
      in if new_clicks < mem_vir (seg_D (mproc s (mp s)))
         then (ENOMEM, s\<lparr>res_ptr := - 1\<rparr>)
         else
           let data_clicks = new_clicks - mem_vir (seg_D (mproc s (mp s)));
               (new_sp, s1) = sys_getsp e (who s) s;
               (r, s2) = adjust (mp s) data_clicks new_sp s1
           in (r, s2\<lparr>res_ptr := (if r = OK then v else - 1)\<rparr>))"

section \<open>Identities, getset.c\<close>

definition do_getset :: "mm \<Rightarrow> int \<times> mm" where
  "do_getset s =
     (let rmp = mproc s (mp s); usr_id = to_short (in_i1 (mm_in s)); grpid = to_char (in_i1 (mm_in s)) in
      if mm_call s = GETUID_CALL then (mp_realuid rmp, s\<lparr>result2 := mp_effuid rmp\<rparr>)
      else if mm_call s = GETGID_CALL then (mp_realgid rmp, s\<lparr>result2 := mp_effgid rmp\<rparr>)
      else if mm_call s = GETPID_CALL
      then (mp_pid (mproc s (who s)), s\<lparr>result2 := mp_pid (mproc s (mp_parent rmp))\<rparr>)
      else if mm_call s = SETUID_CALL then
        if mp_realuid rmp \<noteq> usr_id \<and> mp_effuid rmp \<noteq> SUPER_USER then (EPERM, s)
        else (OK, tell_fs SETUID_CALL (who s) usr_id usr_id
                    (upd_mproc (mp s) (\<lambda>r. r\<lparr>mp_realuid := usr_id, mp_effuid := usr_id\<rparr>) s))
      else if mm_call s = SETGID_CALL then
        if mp_realgid rmp \<noteq> grpid \<and> mp_effuid rmp \<noteq> SUPER_USER then (EPERM, s)
        else (OK, tell_fs SETGID_CALL (who s) grpid grpid
                    (upd_mproc (mp s) (\<lambda>r. r\<lparr>mp_realgid := grpid, mp_effgid := grpid\<rparr>) s))
      else if mm_call s = SETSID_CALL then
        if mp_procgrp rmp = mp_pid rmp then (EPERM, s)
        else (mp_pid rmp, tell_fs SETSID_CALL (who s) 0 0
                            (upd_mproc (mp s) (\<lambda>r. r\<lparr>mp_procgrp := mp_pid r\<rparr>) s))
      else if mm_call s = GETPGRP_CALL then (mp_procgrp rmp, s)
      else (EINVAL, s))"

section \<open>Sample states\<close>

text \<open>
  A system with MM, FS and INET in slots 0 to 2, INIT in slot 3 and two processes of one session
  in slots 4 (the leader, pid 10) and 5 (its child, pid 11), and an environment that answers
  every call with success. The witnesses start from it.
\<close>

definition blank_mproc :: mproc where
  "blank_mproc = \<lparr>seg_T = \<lparr>mem_vir = 0, mem_phys = 0, mem_len = 0\<rparr>,
     seg_D = \<lparr>mem_vir = 100, mem_phys = 1100, mem_len = 50\<rparr>, seg_S = \<lparr>mem_vir = 300, mem_phys = 1300, mem_len = 10\<rparr>,
     mp_exitstatus = 0, mp_sigstatus = 0, mp_pid = 0, mp_procgrp = 0, mp_wpid = 0, mp_parent = 0,
     mp_realuid = 0, mp_effuid = 0, mp_realgid = 0, mp_effgid = 0, mp_ignore = 0, mp_catch = 0, mp_sigmask = 0,
     mp_sigmask2 = 0, mp_sigpending = 0, mp_sigact = (\<lambda>_. \<lparr>sa_handler = 0, sa_mask = 0, sa_flags = 0\<rparr>),
     mp_sigreturn = 0, mp_func = 0, mp_flags = 0\<rparr>"

definition sample_table :: "int \<Rightarrow> mproc" where
  "sample_table p = (if p = 3 then blank_mproc\<lparr>mp_flags := IN_USE, mp_pid := INIT_PID\<rparr>
     else if p = 4 then blank_mproc\<lparr>mp_flags := IN_USE, mp_pid := 10, mp_procgrp := 10, mp_parent := 3, mp_realuid := 7, mp_effuid := 7\<rparr>
     else if p = 5 then blank_mproc\<lparr>mp_flags := IN_USE, mp_pid := 11, mp_procgrp := 10, mp_parent := 4, mp_realuid := 7, mp_effuid := 7\<rparr>
     else if 0 \<le> p \<and> p < 3 then blank_mproc\<lparr>mp_flags := IN_USE\<rparr>
     else blank_mproc)"

text \<open>The processes have the clicks 1000 to 2259, 210 each; the clicks 2260 to 3999 are free.\<close>

definition sample_holes :: hole_state where
  "sample_holes = (case free_mem 2260 1740 (link_slots no_holes) of Some (Ret s) \<Rightarrow> s | _ \<Rightarrow> no_holes)"

definition sample_mm :: "mm" where
  "sample_mm = \<lparr>mproc = sample_table, mp = 4, dont_reply = False, procs_in_use = 6,
     mm_in = \<lparr>in_i1 = 0, in_i2 = 0, in_l1 = 0, in_l2 = 0, in_p1 = 0, in_p2 = 0, in_p3 = 0, in_f1 = 0\<rparr>,
     who = 4, mm_call = 0, result2 = 0, res_ptr = 0, core_sset = 0, next_pid = 11, holes = sample_holes,
     ret_mask = 0, out_l2 = 0, out = []\<rparr>"

definition sample_env :: env where
  "sample_env = \<lparr>send_ok = (\<lambda>_. True), getsp_val = (\<lambda>_. 77000), xit_val = (\<lambda>_. (0, 0)), seconds_left = (\<lambda>_. 0),
     clock_ok = (\<lambda>_. True), trace_val = (\<lambda>_. (0, 0)), errno_val = (\<lambda>_. 0), sigreturn_val = (\<lambda>_. 0),
     copy_val = (\<lambda>_. 0), sigaction_in = (\<lambda>_. \<lparr>sa_handler = 0, sa_mask = 0, sa_flags = 0\<rparr>), monitor_in = (\<lambda>_. []),
     core_ok = (\<lambda>_. True), frame_bytes = 100, oldframe_bytes = 100\<rparr>"

end
