(* ===== verification/Mm_Signal.thy ===== *)
theory Mm_Signal
  imports Mm_Proc
begin

unbundle bit_operations_syntax

text \<open>
  Creating, ending and signalling processes: \<^verbatim>\<open>forkexit.c\<close>, \<^verbatim>\<open>signal.c\<close>, \<^verbatim>\<open>trace.c\<close>, \<^verbatim>\<open>stack_fault\<close>
  of \<^verbatim>\<open>break.c\<close> and the main loop of \<^verbatim>\<open>main.c\<close>. \<^verbatim>\<open>sig_proc\<close>, \<^verbatim>\<open>mm_exit\<close> and \<^verbatim>\<open>check_sig\<close> call each
  other: the death of a session leader sends SIGHUP to its group. The nesting is bounded by a
  fuel argument of \<open>mm_exit\<close>; \<open>EXIT_FUEL\<close> is shown to be enough, since every level ends a process.
\<close>

section \<open>Alarms and the end of a process\<close>

definition slots :: "int list" where
  "slots = [0 .. NR_PROCS - 1]"

definition INT_MAX :: int where "INT_MAX = 2147483647"

definition set_alarm :: "env \<Rightarrow> int \<Rightarrow> int \<Rightarrow> mm \<Rightarrow> (int \<times> mm) outcome option" where
  "set_alarm e proc_nr sec s =
     (let s1 = (if sec \<noteq> 0 then set_flag proc_nr ALARM_ON s else clear_flag proc_nr ALARM_ON s);
          usec = (word_of_int sec :: 32 word);
          ticks = HZ * usec;
          delta_ticks = (if ticks div HZ \<noteq> usec then 2147483647 else ticks);
          s2 = emit (SetAlarm proc_nr delta_ticks) s1
      in if \<not> clock_ok e (out s2) then Some (Panic ''alarm er'')
         else let remaining = seconds_left e (out s2)
              in Some (Ret (if remaining < 0 \<or> remaining > INT_MAX then INT_MAX else remaining, s2)))"

definition do_alarm :: "env \<Rightarrow> mm \<Rightarrow> (int \<times> mm) outcome option" where
  "do_alarm e s = set_alarm e (who s) (in_i1 (mm_in s)) s"

definition cleanup :: "env \<Rightarrow> int \<Rightarrow> mm \<Rightarrow> mm outcome option" where
  "cleanup e child s =
     (let c = mproc s child;
          exitstatus = push_bit 8 (mp_exitstatus c) OR (mp_sigstatus c AND 255)
      in and_then (reply e (mp_parent c) (mp_pid c) exitstatus 0 s)
          (\<lambda>s1. Some (Ret ((upd_mproc child (mp_flags_update (\<lambda>_. 0))
                     (clear_flag (mp_parent c) WAITING s1))\<lparr>procs_in_use := procs_in_use s1 - 1\<rparr>))))"

text \<open>One round of the loop of \<^verbatim>\<open>mm_exit\<close> that gives the children of \<open>proc_nr\<close> to INIT.\<close>

definition disinherit :: "env \<Rightarrow> int \<Rightarrow> int \<Rightarrow> mm \<Rightarrow> mm outcome option" where
  "disinherit e proc_nr rmp s =
     (if pflag s rmp IN_USE \<and> mp_parent (mproc s rmp) = proc_nr then
        let s1 = upd_mproc rmp (mp_parent_update (\<lambda>_. INIT_PROC_NR)) s
        in if pflag s1 INIT_PROC_NR WAITING \<and> pflag s1 rmp HANGING then cleanup e rmp s1 else Some (Ret s1)
      else Some (Ret s))"

text \<open>Does the parent wait for a child with this pid and process group?\<close>

definition right_child :: "int \<Rightarrow> mproc \<Rightarrow> bool" where
  "right_child pidarg c \<longleftrightarrow> pidarg = - 1 \<or> pidarg = mp_pid c \<or> - pidarg = mp_procgrp c"

text \<open>\<open>cs\<close> stands for \<^verbatim>\<open>check_sig\<close>.\<close>

definition mm_exit_with ::
  "(int \<Rightarrow> int \<Rightarrow> mm \<Rightarrow> (int \<times> mm) outcome option) \<Rightarrow> env \<Rightarrow> int \<Rightarrow> int \<Rightarrow> mm \<Rightarrow> mm outcome option" where
  "mm_exit_with cs e rmp exit_status s =
     (let procgrp = (if mp_pid (mproc s rmp) = mp_procgrp (mproc s (mp s)) then mp_procgrp (mproc s (mp s)) else 0)
      in and_then (if pflag s rmp ALARM_ON then set_alarm e rmp 0 s else Some (Ret (0, s)))
       (\<lambda>(_, s1).
         let s2 = emit (SysXit (mp_parent (mproc s1 rmp)) rmp) (tell_fs EXIT_CALL rmp 0 0 s1);
             (base, size) = xit_val e (out s2)
         in and_then (free_mem base size (holes s2))
          (\<lambda>h.
            let s3 = upd_mproc rmp (mp_exitstatus_update (\<lambda>_. to_char exit_status)) (s2\<lparr>holes := h\<rparr>);
                parent = mp_parent (mproc s3 rmp);
                pidarg = mp_wpid (mproc s3 parent)
            in and_then (if pflag s3 parent WAITING \<and> right_child pidarg (mproc s3 rmp)
                         then cleanup e rmp s3 else Some (Ret (set_flag rmp HANGING s3)))
             (\<lambda>s4. and_then (each (disinherit e rmp) slots s4)
               (\<lambda>s5. if procgrp \<noteq> 0
                     then and_then (cs (- procgrp) SIGHUP s5) (\<lambda>(_, s6). Some (Ret s6))
                     else Some (Ret s5))))))"

section \<open>Sending a signal\<close>

definition unpause :: "env \<Rightarrow> int \<Rightarrow> mm \<Rightarrow> mm outcome option" where
  "unpause e pro s =
     (if pflag s pro PAUSED \<and> \<not> pflag s pro HANGING then reply e pro EINTR 0 0 (clear_flag pro PAUSED s)
      else if pflag s pro WAITING \<and> \<not> pflag s pro HANGING then reply e pro EINTR 0 0 (clear_flag pro WAITING s)
      else if pflag s pro SIGSUSPENDED \<and> \<not> pflag s pro HANGING
      then reply e pro EINTR 0 0 (clear_flag pro SIGSUSPENDED s)
      else Some (Ret (tell_fs UNPAUSE_CALL pro 0 0 s)))"

definition stop_proc :: "env \<Rightarrow> int \<Rightarrow> int \<Rightarrow> mm \<Rightarrow> mm outcome option" where
  "stop_proc e rmp signo s =
     (let s1 = emit (SysTrace (- 1) rmp 0 0) s in
      if fst (trace_val e (out s1)) \<noteq> OK then Some (Ret s1)
      else
        let s2 = set_flag rmp STOPPED s1; parent = mp_parent (mproc s2 rmp)
        in if pflag s2 parent WAITING
           then reply e parent (mp_pid (mproc s2 rmp)) (127 OR push_bit 8 signo) 0 (clear_flag parent WAITING s2)
           else Some (Ret (upd_mproc rmp (mp_sigstatus_update (\<lambda>_. to_char signo)) s2)))"

text \<open>
  The core file is written through the file system; that it could be opened, and that its
  contents are written, are events.
\<close>

definition dump_core :: "env \<Rightarrow> int \<Rightarrow> mm \<Rightarrow> mm" where
  "dump_core e rmp s =
     (if mp_realuid (mproc s rmp) \<noteq> mp_effuid (mproc s rmp) then s
      else
        let s1 = emit (OpenCore rmp) s in
        if \<not> core_ok e (out s1) then s1
        else
          let s2 = upd_mproc rmp (mp_sigstatus_update (\<lambda>v. to_char (v OR 128))) s1;
              (current_sp, s3) = sys_getsp e rmp s2;
              (_, s4) = adjust rmp (mem_len (seg_D (mproc s3 rmp))) current_sp s3
          in emit (WriteCore rmp) s4)"

text \<open>The label \<^verbatim>\<open>doterminate\<close>; \<open>ex\<close> stands for \<^verbatim>\<open>mm_exit\<close>.\<close>

definition terminate :: "(int \<Rightarrow> int \<Rightarrow> mm \<Rightarrow> mm outcome option) \<Rightarrow> env \<Rightarrow> int \<Rightarrow> int \<Rightarrow> mm \<Rightarrow> mm outcome option" where
  "terminate ex e rmp signo s =
     (let s1 = upd_mproc rmp (mp_sigstatus_update (\<lambda>_. to_char signo)) s;
          s2 = (if sigismember (core_sset s1) signo then dump_core e rmp (tell_fs CHDIR_CALL rmp 0 0 s1) else s1)
      in ex rmp 0 s2)"

text \<open>The block of \<^verbatim>\<open>sig_proc\<close> for a signal that is caught and fits on the stack.\<close>

definition catch_signal :: "env \<Rightarrow> int \<Rightarrow> int \<Rightarrow> 32 word \<Rightarrow> sigaction \<Rightarrow> 32 word \<Rightarrow> mm \<Rightarrow> mm outcome option" where
  "catch_signal e rmp signo sm_mask act sm_stkptr s =
     (let m1 = mp_sigmask (mproc s rmp) OR sa_mask act;
          m2 = (if has (sa_flags act) SA_NODEFER then sigdelset signo m1 else sigaddset signo m1);
          s1 = upd_mproc rmp (mp_sigmask_update (\<lambda>_. m2)) s;
          s2 = (if has (sa_flags act) SA_RESETHAND
                then upd_mproc rmp (\<lambda>r. r\<lparr>mp_catch := sigdelset signo (mp_catch r),
                       mp_sigact := (mp_sigact r)(signo := (mp_sigact r signo)\<lparr>sa_handler := SIG_DFL\<rparr>)\<rparr>) s1
                else s1);
          s3 = (if has (sa_flags act) SA_COMPAT
                then emit (SysOldsig rmp signo (mp_func (mproc s2 rmp))) s2
                else emit (SysSendsig rmp sm_mask signo (sa_handler act) (mp_sigreturn (mproc s2 rmp)) sm_stkptr) s2);
          s4 = upd_mproc rmp (mp_sigpending_update (sigdelset signo)) s3
      in unpause e rmp s4)"

definition sig_proc_with ::
  "(int \<Rightarrow> int \<Rightarrow> mm \<Rightarrow> mm outcome option) \<Rightarrow> env \<Rightarrow> int \<Rightarrow> int \<Rightarrow> mm \<Rightarrow> mm outcome option" where
  "sig_proc_with ex e rmp signo s =
     (if \<not> pflag s rmp IN_USE then Some (Panic ''signal sent to dead process'')
      else if pflag s rmp HANGING then Some (Panic ''signal sent to HANGING process'')
      else if pflag s rmp TRACED \<and> signo \<noteq> SIGKILL then and_then (unpause e rmp s) (stop_proc e rmp signo)
      else if sigismember (mp_ignore (mproc s rmp)) signo then Some (Ret s)
      else if sigismember (mp_sigmask (mproc s rmp)) signo
      then Some (Ret (upd_mproc rmp (mp_sigpending_update (sigaddset signo)) s))
      else if sigismember (mp_catch (mproc s rmp)) signo then
        let act = mp_sigact (mproc s rmp) signo;
            sm_mask = (if pflag s rmp SIGSUSPENDED then mp_sigmask2 (mproc s rmp) else mp_sigmask (mproc s rmp));
            (sp, s1) = sys_getsp e rmp s;
            new_sp = sp - (if has (sa_flags act) SA_COMPAT then oldframe_bytes e else frame_bytes e);
            (r, s2) = adjust rmp (mem_len (seg_D (mproc s1 rmp))) new_sp s1
        in if r \<noteq> OK then terminate ex e rmp signo s2 else catch_signal e rmp signo sm_mask act sp s2
      else terminate ex e rmp signo s)"

definition selected :: "mm \<Rightarrow> int \<Rightarrow> int \<Rightarrow> int \<Rightarrow> bool" where
  "selected s proc_id signo rmp \<longleftrightarrow>
     pflag s rmp IN_USE \<and> \<not> (pflag s rmp HANGING \<and> signo \<noteq> 0) \<and>
     \<not> (proc_id > 0 \<and> proc_id \<noteq> mp_pid (mproc s rmp)) \<and>
     \<not> (proc_id = 0 \<and> mp_procgrp (mproc s (mp s)) \<noteq> mp_procgrp (mproc s rmp)) \<and>
     \<not> (proc_id = - 1 \<and> mp_pid (mproc s rmp) = INIT_PID) \<and>
     \<not> (proc_id < - 1 \<and> mp_procgrp (mproc s rmp) \<noteq> - proc_id)"

definition permitted :: "mm \<Rightarrow> int \<Rightarrow> bool" where
  "permitted s rmp \<longleftrightarrow>
     (let m = mproc s (mp s); r = mproc s rmp in
      mp_effuid m = SUPER_USER \<or> mp_realuid m = mp_realuid r \<or> mp_effuid m = mp_realuid r \<or>
      mp_realuid m = mp_effuid r \<or> mp_effuid m = mp_effuid r)"

fun check_sig_loop ::
  "(int \<Rightarrow> int \<Rightarrow> mm \<Rightarrow> mm outcome option) \<Rightarrow> int \<Rightarrow> int \<Rightarrow> int list \<Rightarrow> int \<Rightarrow> int \<Rightarrow> mm \<Rightarrow> ((int \<times> int) \<times> mm) outcome option" where
  "check_sig_loop sp proc_id signo [] count error_code s = Some (Ret ((count, error_code), s))"
| "check_sig_loop sp proc_id signo (rmp # rest) count error_code s =
     (if \<not> selected s proc_id signo rmp then check_sig_loop sp proc_id signo rest count error_code s
      else if \<not> permitted s rmp then check_sig_loop sp proc_id signo rest count EPERM s
      else if signo = 0 then check_sig_loop sp proc_id signo rest (count + 1) error_code s
      else and_then (sp rmp signo s)
        (\<lambda>s1. if proc_id > 0 then Some (Ret ((count + 1, error_code), s1))
              else check_sig_loop sp proc_id signo rest (count + 1) error_code s1))"

definition check_sig_with ::
  "(int \<Rightarrow> int \<Rightarrow> mm \<Rightarrow> mm outcome option) \<Rightarrow> int \<Rightarrow> int \<Rightarrow> mm \<Rightarrow> (int \<times> mm) outcome option" where
  "check_sig_with sp proc_id signo s =
     (if signo < 0 \<or> signo > NSIG then Some (Ret (EINVAL, s))
      else if proc_id = INIT_PID \<and> signo = SIGKILL then Some (Ret (EINVAL, s))
      else and_then (check_sig_loop sp proc_id signo [INIT_PROC_NR .. NR_PROCS - 1] 0 ESRCH s)
        (\<lambda>((count, error_code), s1).
          let s2 = (if \<not> pflag s1 (mp s1) IN_USE \<or> pflag s1 (mp s1) HANGING then s1\<lparr>dont_reply := True\<rparr> else s1)
          in Some (Ret (if count > 0 then OK else error_code, s2))))"

fun mm_exit :: "nat \<Rightarrow> env \<Rightarrow> int \<Rightarrow> int \<Rightarrow> mm \<Rightarrow> mm outcome option" where
  "mm_exit 0 e rmp exit_status s = None"
| "mm_exit (Suc n) e rmp exit_status s =
     mm_exit_with (check_sig_with (sig_proc_with (mm_exit n e) e)) e rmp exit_status s"

definition EXIT_FUEL :: nat where
  "EXIT_FUEL = nat NR_PROCS + 1"

definition sig_proc :: "env \<Rightarrow> int \<Rightarrow> int \<Rightarrow> mm \<Rightarrow> mm outcome option" where
  "sig_proc e = sig_proc_with (mm_exit EXIT_FUEL e) e"

definition check_sig :: "env \<Rightarrow> int \<Rightarrow> int \<Rightarrow> mm \<Rightarrow> (int \<times> mm) outcome option" where
  "check_sig e = check_sig_with (sig_proc e)"

section \<open>System calls\<close>

definition do_mm_exit :: "env \<Rightarrow> mm \<Rightarrow> (int \<times> mm) outcome option" where
  "do_mm_exit e s =
     and_then (mm_exit EXIT_FUEL e (mp s) (in_i1 (mm_in s)) s) (\<lambda>s1. Some (Ret (OK, s1\<lparr>dont_reply := True\<rparr>)))"

definition LAST_FEW :: int where "LAST_FEW = 2"

partial_function (option) new_pid_loop :: "int \<Rightarrow> mm \<Rightarrow> mm option" where
  "new_pid_loop rmc s =
     (let np = (if next_pid s < 30000 then next_pid s + 1 else INIT_PID + 1);
          t = (\<exists>r \<in> set slots. mp_pid (mproc s r) = np \<or> mp_procgrp (mproc s r) = np);
          s1 = (upd_mproc rmc (mp_pid_update (\<lambda>_. np)) s)\<lparr>next_pid := np\<rparr>
      in if t then new_pid_loop rmc s1 else Some s1)"

text \<open>The first slot that is not in use; the source relies on its existence.\<close>

definition free_slot :: "mm \<Rightarrow> int" where
  "free_slot s = (case List.find (\<lambda>r. \<not> pflag s r IN_USE) slots of Some r \<Rightarrow> r | None \<Rightarrow> NR_PROCS)"

definition do_fork :: "env \<Rightarrow> mm \<Rightarrow> (int \<times> mm) outcome option" where
  "do_fork e s =
     (let rmp = mproc s (mp s) in
      if procs_in_use s = NR_PROCS then Some (Ret (EAGAIN, s))
      else if procs_in_use s \<ge> NR_PROCS - LAST_FEW \<and> mp_effuid rmp \<noteq> 0 then Some (Ret (EAGAIN, s))
      else
        let prog_clicks = mem_len (seg_S rmp) + (mem_vir (seg_S rmp) - mem_vir (seg_D rmp)) in
        case alloc_mem (unat prog_clicks) (holes s) of
          None \<Rightarrow> None
        | Some (child_base, h) \<Rightarrow>
            if child_base = NO_MEM then Some (Ret (ENOMEM, s\<lparr>holes := h\<rparr>))
            else
              let child_nr = free_slot s;
                  s1 = s\<lparr>holes := h, procs_in_use := procs_in_use s + 1\<rparr>;
                  s2 = upd_mproc child_nr (\<lambda>_. rmp\<lparr>mp_parent := who s, mp_flags := mp_flags rmp AND NOT TRACED,
                         mp_exitstatus := 0, mp_sigstatus := 0\<rparr>) s1
              in case new_pid_loop child_nr s2 of
                   None \<Rightarrow> None
                 | Some s3 \<Rightarrow>
                     let s4 = emit (SysFork (who s) child_nr (mp_pid (mproc s3 child_nr)) child_base) s3;
                         s5 = tell_fs FORK_CALL (who s) child_nr (mp_pid (mproc s3 child_nr)) s4
                     in and_then (reply e child_nr 0 0 0 s5) (\<lambda>s6. Some (Ret (next_pid s6, s6))))"

definition WNOHANG :: int where "WNOHANG = 1"

text \<open>Which children \<^verbatim>\<open>do_waitpid\<close> accepts.\<close>

definition qualifies :: "int \<Rightarrow> mproc \<Rightarrow> bool" where
  "qualifies pidarg c \<longleftrightarrow> \<not> (pidarg > 0 \<and> pidarg \<noteq> mp_pid c) \<and> \<not> (pidarg < - 1 \<and> - pidarg \<noteq> mp_procgrp c)"

fun waitpid_loop :: "env \<Rightarrow> int \<Rightarrow> int list \<Rightarrow> int \<Rightarrow> mm \<Rightarrow> (int option \<times> mm) outcome option" where
  "waitpid_loop e pidarg [] children s = Some (Ret (Some children, s))"
| "waitpid_loop e pidarg (rp # rest) children s =
     (if pflag s rp IN_USE \<and> mp_parent (mproc s rp) = who s \<and> qualifies pidarg (mproc s rp) then
        if pflag s rp HANGING
        then and_then (cleanup e rp s) (\<lambda>s1. Some (Ret (None, s1\<lparr>dont_reply := True\<rparr>)))
        else if pflag s rp STOPPED \<and> mp_sigstatus (mproc s rp) \<noteq> 0
        then and_then (reply e (who s) (mp_pid (mproc s rp)) (127 OR push_bit 8 (mp_sigstatus (mproc s rp))) 0 s)
               (\<lambda>s1. Some (Ret (None, upd_mproc rp (mp_sigstatus_update (\<lambda>_. 0)) (s1\<lparr>dont_reply := True\<rparr>))))
        else waitpid_loop e pidarg rest (children + 1) s
      else waitpid_loop e pidarg rest children s)"

definition do_waitpid :: "env \<Rightarrow> mm \<Rightarrow> (int \<times> mm) outcome option" where
  "do_waitpid e s =
     (let pidarg0 = (if mm_call s = WAIT_CALL then - 1 else in_i1 (mm_in s));
          options = (if mm_call s = WAIT_CALL then 0 else in_i2 (mm_in s));
          pidarg = (if pidarg0 = 0 then - mp_procgrp (mproc s (mp s)) else pidarg0)
      in and_then (waitpid_loop e pidarg slots 0 s)
          (\<lambda>(children, s1).
            case children of
              None \<Rightarrow> Some (Ret (OK, s1))
            | Some n \<Rightarrow>
                if n > 0 then
                  if options AND WNOHANG \<noteq> 0 then Some (Ret (0, s1))
                  else Some (Ret (OK, (upd_mproc (mp s1) (\<lambda>r. r\<lparr>mp_flags := mp_flags r OR WAITING, mp_wpid := pidarg\<rparr>) s1)
                              \<lparr>dont_reply := True\<rparr>))
                else Some (Ret (ECHILD, s1))))"

definition do_signal :: "mm \<Rightarrow> int \<times> mm" where
  "do_signal s =
     (let sig = in_i1 (mm_in s); func = in_f1 (mm_in s); old_ignore = mp_ignore (mproc s (mp s)) in
      if sig < 1 \<or> sig > NSIG then (EINVAL, s)
      else if sig = SIGKILL then (OK, s)
      else
        let act = \<lparr>sa_handler = func, sa_mask = 0, sa_flags = SA_COMPAT OR SA_NODEFER\<rparr>;
            s1 = upd_mproc (mp s) (\<lambda>r. r\<lparr>mp_sigmask := sigdelset sig (mp_sigmask r), mp_sigact := (mp_sigact r)(sig := act)\<rparr>) s;
            s2 = (if func = SIG_IGN
                  then upd_mproc (mp s) (\<lambda>r. r\<lparr>mp_ignore := sigaddset sig (mp_ignore r), mp_catch := sigdelset sig (mp_catch r)\<rparr>) s1
                  else if func = SIG_DFL
                  then upd_mproc (mp s) (\<lambda>r. r\<lparr>mp_ignore := sigdelset sig (mp_ignore r), mp_catch := sigdelset sig (mp_catch r)\<rparr>) s1
                  else upd_mproc (mp s) (\<lambda>r. r\<lparr>mp_ignore := sigdelset sig (mp_ignore r), mp_catch := sigaddset sig (mp_catch r),
                         mp_sigact := (mp_sigact r)(sig := (if sig \<noteq> SIGILL \<and> sig \<noteq> SIGTRAP
                            then act\<lparr>sa_flags := sa_flags act OR SA_RESETHAND\<rparr> else act)), mp_func := func\<rparr>) s1)
        in (if sigismember old_ignore sig then 1 else OK, s2))"

definition do_sigaction :: "env \<Rightarrow> mm \<Rightarrow> int \<times> mm" where
  "do_sigaction e s =
     (let sig_nr = in_i2 (mm_in s); sig_nsa = in_p1 (mm_in s); sig_osa = in_p2 (mm_in s) in
      if sig_nr = SIGKILL then (OK, s)
      else if sig_nr < 1 \<or> sig_nr > NSIG then (EINVAL, s)
      else
        let s1 = (if sig_osa \<noteq> 0 then emit (CopyOut (who s) sig_osa) s else s) in
        if sig_osa \<noteq> 0 \<and> copy_val e (out s1) \<noteq> OK then (copy_val e (out s1), s1)
        else if sig_nsa = 0 then (OK, s1)
        else
          let s2 = emit (CopyIn (who s) sig_nsa) s1 in
          if copy_val e (out s2) \<noteq> OK then (copy_val e (out s2), s2)
          else
            let svec = sigaction_in e (out s2);
                s3 = (if sa_handler svec = SIG_IGN
                      then upd_mproc (mp s) (\<lambda>r. r\<lparr>mp_ignore := sigaddset sig_nr (mp_ignore r),
                             mp_sigpending := sigdelset sig_nr (mp_sigpending r), mp_catch := sigdelset sig_nr (mp_catch r)\<rparr>) s2
                      else if sa_handler svec = SIG_DFL
                      then upd_mproc (mp s) (\<lambda>r. r\<lparr>mp_ignore := sigdelset sig_nr (mp_ignore r), mp_catch := sigdelset sig_nr (mp_catch r)\<rparr>) s2
                      else upd_mproc (mp s) (\<lambda>r. r\<lparr>mp_ignore := sigdelset sig_nr (mp_ignore r), mp_catch := sigaddset sig_nr (mp_catch r)\<rparr>) s2)
            in (OK, upd_mproc (mp s) (\<lambda>r. r\<lparr>mp_sigact := (mp_sigact r)(sig_nr :=
                      \<lparr>sa_handler = sa_handler svec, sa_mask = sigdelset SIGKILL (sa_mask svec), sa_flags = sa_flags svec AND NOT SA_COMPAT\<rparr>),
                    mp_sigreturn := in_p3 (mm_in s)\<rparr>) s3))"

definition do_sigpending :: "mm \<Rightarrow> int \<times> mm" where
  "do_sigpending s = (OK, s\<lparr>ret_mask := mp_sigpending (mproc s (mp s))\<rparr>)"

definition check_pending :: "env \<Rightarrow> mm \<Rightarrow> mm outcome option" where
  "check_pending e s =
     (case List.find (\<lambda>i. sigismember (mp_sigpending (mproc s (mp s))) i \<and> \<not> sigismember (mp_sigmask (mproc s (mp s))) i) [1 .. NSIG - 1] of
        None \<Rightarrow> Some (Ret s)
      | Some i \<Rightarrow> sig_proc e (mp s) i (upd_mproc (mp s) (mp_sigpending_update (sigdelset i)) s))"

definition SIG_BLOCK :: int where "SIG_BLOCK = 0"
definition SIG_UNBLOCK :: int where "SIG_UNBLOCK = 1"
definition SIG_SETMASK :: int where "SIG_SETMASK = 2"
definition SIG_INQUIRE :: int where "SIG_INQUIRE = 4"

definition do_sigprocmask :: "env \<Rightarrow> mm \<Rightarrow> (int \<times> mm) outcome option" where
  "do_sigprocmask e s =
     (let sig_set = (word_of_int (in_l1 (mm_in s)) :: 32 word); sig_how = in_i1 (mm_in s);
          s1 = s\<lparr>ret_mask := mp_sigmask (mproc s (mp s))\<rparr>
      in if sig_how = SIG_BLOCK then
           let st = sigdelset SIGKILL sig_set
           in Some (Ret (OK, upd_mproc (mp s) (mp_sigmask_update
                (\<lambda>m. fold (\<lambda>i m. if sigismember st i then sigaddset i m else m) [1 .. NSIG - 1] m)) s1))
         else if sig_how = SIG_UNBLOCK then
           and_then (check_pending e (upd_mproc (mp s) (mp_sigmask_update
                (\<lambda>m. fold (\<lambda>i m. if sigismember sig_set i then sigdelset i m else m) [1 .. NSIG - 1] m)) s1))
             (\<lambda>s2. Some (Ret (OK, s2)))
         else if sig_how = SIG_SETMASK then
           and_then (check_pending e (upd_mproc (mp s) (mp_sigmask_update (\<lambda>_. sigdelset SIGKILL sig_set)) s1))
             (\<lambda>s2. Some (Ret (OK, s2)))
         else if sig_how = SIG_INQUIRE then Some (Ret (OK, s1))
         else Some (Ret (EINVAL, s1)))"

definition do_sigsuspend :: "env \<Rightarrow> mm \<Rightarrow> (int \<times> mm) outcome option" where
  "do_sigsuspend e s =
     (let s1 = (upd_mproc (mp s) (\<lambda>r. r\<lparr>mp_sigmask2 := mp_sigmask r, mp_sigmask := sigdelset SIGKILL (word_of_int (in_l1 (mm_in s))),
                  mp_flags := mp_flags r OR SIGSUSPENDED\<rparr>) s)\<lparr>dont_reply := True\<rparr>
      in and_then (check_pending e s1) (\<lambda>s2. Some (Ret (OK, s2))))"

definition do_sigreturn :: "env \<Rightarrow> mm \<Rightarrow> (int \<times> mm) outcome option" where
  "do_sigreturn e s =
     (let s1 = upd_mproc (mp s) (mp_sigmask_update (\<lambda>_. sigdelset SIGKILL (word_of_int (in_l1 (mm_in s))))) s;
          s2 = emit (SysSigreturn (who s) (in_p1 (mm_in s)) (in_i2 (mm_in s))) s1;
          r = sigreturn_val e (out s2)
      in and_then (check_pending e s2) (\<lambda>s3. Some (Ret (r, s3))))"

definition do_kill :: "env \<Rightarrow> mm \<Rightarrow> (int \<times> mm) outcome option" where
  "do_kill e s = check_sig e (in_i1 (mm_in s)) (in_i2 (mm_in s)) s"

definition stack_fault :: "env \<Rightarrow> int \<Rightarrow> mm \<Rightarrow> mm outcome option" where
  "stack_fault e proc_nr s =
     (let (new_sp, s1) = sys_getsp e proc_nr s;
          (r, s2) = adjust proc_nr (mem_len (seg_D (mproc s1 proc_nr))) (new_sp - CLICK_SIZE) s1
      in if r = OK then Some (Ret s2)
         else sig_proc e proc_nr SIGSEGV (upd_mproc proc_nr (mp_catch_update (sigdelset SIGSEGV)) s2))"

text \<open>One round of the loop of \<^verbatim>\<open>do_ksig\<close>.\<close>

definition ksig_one :: "env \<Rightarrow> int \<Rightarrow> int \<Rightarrow> 32 word \<Rightarrow> int \<Rightarrow> mm \<Rightarrow> mm outcome option" where
  "ksig_one e proc_nr proc_id sig_map i s =
     (if \<not> sigismember sig_map i \<or> i = SIGSTKFLT then Some (Ret s)
      else if i = SIGALRM \<and> \<not> pflag s proc_nr ALARM_ON then Some (Ret s)
      else
        let id = (if i = SIGINT \<or> i = SIGQUIT then 0 else if i = SIGKILL then - 1 else proc_id);
            s1 = (if i = SIGALRM then clear_flag proc_nr ALARM_ON s else s)
        in and_then (check_sig e id i s1) (\<lambda>(_, s2). Some (Ret (emit (SysEndsig proc_nr) s2))))"

definition do_ksig :: "env \<Rightarrow> mm \<Rightarrow> (int \<times> mm) outcome option" where
  "do_ksig e s =
     (if who s \<noteq> HARDWARE then Some (Ret (EPERM, s))
      else
        let s1 = s\<lparr>dont_reply := True\<rparr>; proc_nr = in_i1 (mm_in s); rmp = mproc s proc_nr in
        if \<not> pflag s1 proc_nr IN_USE \<or> pflag s1 proc_nr HANGING then Some (Ret (OK, s1))
        else
          let proc_id = mp_pid rmp; sig_map = word_of_int (in_l1 (mm_in s));
              s2 = upd_mproc 0 (mp_procgrp_update (\<lambda>_. mp_procgrp rmp)) (s1\<lparr>mp := 0\<rparr>)
          in and_then (if sigismember sig_map SIGSTKFLT then stack_fault e proc_nr s2 else Some (Ret s2))
              (\<lambda>s3. and_then (each (ksig_one e proc_nr proc_id sig_map) [1 .. NSIG] s3)
                (\<lambda>s4. Some (Ret (OK, s4)))))"

definition do_pause :: "mm \<Rightarrow> int \<times> mm" where
  "do_pause s = (OK, (set_flag (mp s) PAUSED s)\<lparr>dont_reply := True\<rparr>)"

text \<open>\<^verbatim>\<open>sys_abort\<close> does not return, so the value after it is never used. \<^verbatim>\<open>monitor_code\<close> has 64 characters.\<close>

definition do_reboot :: "env \<Rightarrow> mm \<Rightarrow> (int \<times> mm) outcome option" where
  "do_reboot e s =
     (let flag_nr = in_i1 (mm_in s); reboot_size = in_i2 (mm_in s);
          s1 = emit (CopyIn (who s) (in_p1 (mm_in s))) s
      in if mp_effuid (mproc s (mp s)) \<noteq> SUPER_USER then Some (Ret (EPERM, s))
         else if flag_nr \<notin> {0, 1, 2, 3, 4} then Some (Ret (EINVAL, s))
         else if flag_nr = 3 \<and> (reboot_size > 64 \<or> reboot_size < 0) then Some (Ret (EINVAL, s))
         else if flag_nr = 3 \<and> copy_val e (out s1) \<noteq> OK then Some (Ret (EFAULT, s1))
         else if flag_nr = 3 \<and> reboot_size = 64 \<and> last (monitor_in e (out s1)) \<noteq> 0 then Some (Ret (EINVAL, s1))
         else and_then (check_sig e (- 1) SIGKILL (if flag_nr = 3 then s1 else s))
           (\<lambda>(_, s2). Some (Ret (OK, emit (SysAbort flag_nr) (tell_fs SYNC_CALL 0 0 0 (tell_fs EXIT_CALL INIT_PROC_NR 0 0 s2))))))"

definition findproc :: "int \<Rightarrow> mm \<Rightarrow> int option" where
  "findproc lpid s = List.find (\<lambda>r. pflag s r IN_USE \<and> mp_pid (mproc s r) = lpid) [INIT_PROC_NR + 1 .. NR_PROCS - 1]"

definition do_trace :: "env \<Rightarrow> mm \<Rightarrow> (int \<times> mm) outcome option" where
  "do_trace e s =
     (let request = in_i2 (mm_in s); dat = in_l2 (mm_in s); taddr = in_l1 (mm_in s) in
      if request = 0 then Some (Ret (OK, (set_flag (mp s) TRACED s)\<lparr>out_l2 := 0\<rparr>))
      else case findproc (in_i1 (mm_in s)) s of
        None \<Rightarrow> Some (Ret (ESRCH, s))
      | Some child \<Rightarrow>
          if \<not> pflag s child STOPPED then Some (Ret (ESRCH, s))
          else if request = 8 then
            and_then (mm_exit EXIT_FUEL e child dat s) (\<lambda>s1. Some (Ret (OK, s1\<lparr>out_l2 := 0\<rparr>)))
          else if (request = 7 \<or> request = 9) \<and> (dat < 0 \<or> dat > NSIG) then Some (Ret (EIO, s))
          else and_then
            (if request = 7 \<or> request = 9 then
               and_then (if dat > 0
                         then and_then (sig_proc e child dat (clear_flag child TRACED s)) (\<lambda>s1. Some (Ret (set_flag child TRACED s1)))
                         else Some (Ret s))
                 (\<lambda>s2. Some (Ret (clear_flag child STOPPED s2)))
             else Some (Ret s))
            (\<lambda>s3.
              let s4 = emit (SysTrace request child taddr dat) s3; (st, v) = trace_val e (out s4)
              in if st \<noteq> OK then Some (Ret (- errno_val e (out s4), s4)) else Some (Ret (OK, s4\<lparr>out_l2 := v\<rparr>))))"

section \<open>The main loop\<close>

text \<open>\<^verbatim>\<open>call_vec\<close> of \<^verbatim>\<open>table.c\<close>; \<open>ex\<close> is \<^verbatim>\<open>do_exec\<close>, which is not modelled.\<close>

definition call_vec :: "env \<Rightarrow> (mm \<Rightarrow> (int \<times> mm) outcome option) \<Rightarrow> int \<Rightarrow> mm \<Rightarrow> (int \<times> mm) outcome option" where
  "call_vec e ex n s =
     (if n = EXIT_CALL then do_mm_exit e s
      else if n = FORK_CALL then do_fork e s
      else if n = WAIT_CALL \<or> n = 11 then do_waitpid e s
      else if n = 17 then Some (Ret (do_brk e s))
      else if n \<in> {GETPID_CALL, SETUID_CALL, GETUID_CALL, SETGID_CALL, GETGID_CALL, SETSID_CALL, GETPGRP_CALL}
      then Some (Ret (do_getset s))
      else if n = 26 then do_trace e s
      else if n = 27 then do_alarm e s
      else if n = 29 then Some (Ret (do_pause s))
      else if n = 37 then do_kill e s
      else if n = 48 then Some (Ret (do_signal s))
      else if n = EXEC_CALL then ex s
      else if n = KSIG then do_ksig e s
      else if n = 71 then Some (Ret (do_sigaction e s))
      else if n = 72 then do_sigsuspend e s
      else if n = 73 then Some (Ret (do_sigpending s))
      else if n = 74 then do_sigprocmask e s
      else if n = 75 then do_sigreturn e s
      else if n = 76 then do_reboot e s
      else Some (Ret (no_sys, s)))"

text \<open>One round of the loop of \<^verbatim>\<open>main\<close>, for a message of type \<open>call\<close> from \<open>src\<close>.\<close>

definition mm_main :: "env \<Rightarrow> (mm \<Rightarrow> (int \<times> mm) outcome option) \<Rightarrow> int \<Rightarrow> int \<Rightarrow> mm_message \<Rightarrow> mm \<Rightarrow> mm outcome option" where
  "mm_main e ex src call msg s =
     (let s1 = s\<lparr>mm_in := msg, who := src, mm_call := call, mp := src, dont_reply := False\<rparr>
      in and_then (if call < 0 \<or> call \<ge> NCALLS then Some (Ret (EBADCALL, s1)) else call_vec e ex call s1)
          (\<lambda>(error, s2).
            if dont_reply s2 then Some (Ret s2)
            else if mm_call s2 = EXEC_CALL \<and> error = OK then Some (Ret s2)
            else reply e (who s2) error (result2 s2) (res_ptr s2) s2))"

section \<open>Start-up\<close>

text \<open>
  The tables set up by \<^verbatim>\<open>mm_init\<close>; \<open>getmap\<close> is the answer of the kernel to \<^verbatim>\<open>sys_getmap\<close>, \<open>h\<close> the
  hole list \<^verbatim>\<open>mem_init\<close> has built.
\<close>

definition mm_init :: "(int \<Rightarrow> mem_map \<times> mem_map \<times> mem_map) \<Rightarrow> hole_state \<Rightarrow> mm \<Rightarrow> mm" where
  "mm_init getmap h s =
     (let s1 = s\<lparr>core_sset := fold sigaddset [SIGQUIT, SIGILL, SIGTRAP, 6, 7, 8, 10, SIGSEGV, 12] 0\<rparr>;
          s2 = fold (\<lambda>p t. upd_mproc p (\<lambda>r. let (mt, md, ms) = getmap p in
                 r\<lparr>seg_T := mt, seg_D := md, seg_S := ms,
                   mp_flags := (mp_flags r OR IN_USE) OR (if mem_len mt \<noteq> 0 then SEPARATE else 0)\<rparr>) t)
               [0 .. INIT_PROC_NR] s1;
          s3 = upd_mproc INIT_PROC_NR (\<lambda>r. r\<lparr>mp_pid := INIT_PID, mp_ignore := 0, mp_catch := 0\<rparr>) s2
      in s3\<lparr>procs_in_use := LOW_USER + 1, holes := h\<rparr>)"

end
