(* ===== verification/Mm_Break.thy ===== *)
theory Mm_Break
  imports Mm_Proc
begin

unbundle bit_operations_syntax

text \<open>
  Growing data and stack segments, \<^verbatim>\<open>src/src/mm/break.c\<close>: \<^verbatim>\<open>adjust\<close> is brought into a form without
  the intermediate updates, from which it follows that a refused adjustment leaves no trace and a
  granted one keeps data and stack apart.
\<close>

lemma upd_mproc_upd: "upd_mproc p g (upd_mproc p f s) = upd_mproc p (\<lambda>r. g (f r)) s"
  by (simp add: upd_mproc_def)

lemma upd_mproc_idem: "f (mproc s p) = mproc s p \<Longrightarrow> upd_mproc p f s = s"
  by (cases s) (simp add: upd_mproc_def fun_upd_idem)

lemma mproc_upd_mproc: "mproc (upd_mproc p f s) p = f (mproc s p)"
  by (simp add: upd_mproc_def)

definition grown :: "32 word \<Rightarrow> mem_map \<Rightarrow> mem_map" where
  "grown sp_click m = (let delta = mem_vir m - sp_click in
     if sint delta > 0 then m\<lparr>mem_vir := sp_click, mem_phys := mem_phys m - delta, mem_len := mem_len m + delta\<rparr> else m)"

lemma adjust_eq:
  "adjust p dc sp s =
     (let d = seg_D (mproc s p); st = seg_S (mproc s p); sp_click = drop_bit CLICK_SHIFT sp; st' = grown sp_click st;
          s' = upd_mproc p (\<lambda>r. r\<lparr>seg_D := d\<lparr>mem_len := dc\<rparr>, seg_S := st'\<rparr>) s
      in if mem_len st = 0 then (OK, s)
         else if sp_click \<ge> mem_vir st + mem_len st \<or> mem_vir st' < mem_vir d + dc + SAFETY_CLICKS \<or>
                 mem_vir d + dc > mem_vir st' then (ENOMEM, s)
         else (OK, if dc \<noteq> mem_len d \<or> sint (mem_vir st - sp_click) > 0
                   then emit (SysNewmap p (seg_T (mproc s p)) (d\<lparr>mem_len := dc\<rparr>) st') s' else s'))"
proof -
  obtain d st where r: "seg_D (mproc s p) = d" "seg_S (mproc s p) = st" by simp
  show ?thesis
    by (cases "mproc s p"; cases d; cases st)
       (use r in \<open>simp add: adjust_def Let_def size_ok_def grown_def upd_mproc_upd mproc_upd_mproc upd_mproc_idem errno_defs\<close>, simp add: upd_mproc_def)
qed

lemma sint_small:
  fixes a :: "32 word"
  assumes "uint a < 2147483648"
  shows "sint a = uint a"
proof -
  have "0 \<le> uint a" by simp
  then have "- 2147483648 \<le> uint a" by linarith
  then have b: "- (2 ^ 31) \<le> uint a" "uint a < 2 ^ 31" using assms by simp_all
  have l: "LENGTH(32) - Suc 0 = 31" by simp
  have "sint a = signed_take_bit 31 (uint a)" by (rule sint_uint [of a, unfolded l])
  also have "\<dots> = uint a" by (rule signed_take_bit_int_eq_self [OF b])
  finally show ?thesis .
qed

lemma sint_delta_pos:
  fixes a b :: "32 word"
  assumes "uint a < 2147483648" "uint b < 2147483648"
  shows "sint (a - b) > 0 \<longleftrightarrow> b < a"
proof -
  have nn: "0 \<le> uint a" "0 \<le> uint b" by simp_all
  let ?i = "uint a - uint b"
  have "- 2147483648 \<le> ?i" "?i < 2147483648" using assms nn by linarith+
  then have b: "- (2 ^ 31) \<le> ?i" "?i < 2 ^ 31" by simp_all
  have "a - b = word_of_int ?i" by simp
  then have "sint (a - b) = signed_take_bit (LENGTH(32) - 1) ?i" by (metis sint_sbintrunc')
  also have "\<dots> = signed_take_bit 31 ?i" by simp
  also have "\<dots> = ?i" by (rule signed_take_bit_int_eq_self [OF b])
  finally show ?thesis by (simp add: word_less_def)
qed

lemma sp_click_less: "uint (drop_bit CLICK_SHIFT sp :: 32 word) < 16777216"
proof -
  have "uint (drop_bit 8 sp) = uint sp div 256" by (simp add: drop_bit_eq_div uint_div)
  moreover have "uint sp < 4294967296" using uint_lt2p [of sp] by simp
  ultimately show ?thesis by (simp add: CLICK_SHIFT_def)
qed

text \<open>The stack segment after \<open>adjust\<close>, in plain arithmetic.\<close>

lemma grown_nat:
  assumes top: "uint (mem_vir m) + uint (mem_len m) \<le> 16777216" and sp: "uint sp_click < 16777216"
  shows "uint (mem_vir (grown sp_click m)) = min (uint (mem_vir m)) (uint sp_click)"
    "uint (mem_vir (grown sp_click m)) + uint (mem_len (grown sp_click m)) = uint (mem_vir m) + uint (mem_len m)"
    "mem_phys (grown sp_click m) - mem_vir (grown sp_click m) = mem_phys m - mem_vir m"
proof -
  have nn: "0 \<le> uint (mem_len m)" "0 \<le> uint (mem_vir m)" "0 \<le> uint sp_click" by simp_all
  have b: "uint (mem_vir m) < 2147483648" "uint sp_click < 2147483648" using top sp nn by linarith+
  note pos = sint_delta_pos [OF b]
  show "uint (mem_vir (grown sp_click m)) = min (uint (mem_vir m)) (uint sp_click)"
    by (auto simp: grown_def Let_def pos word_less_def)
  show "mem_phys (grown sp_click m) - mem_vir (grown sp_click m) = mem_phys m - mem_vir m"
    by (auto simp: grown_def Let_def)
  show "uint (mem_vir (grown sp_click m)) + uint (mem_len (grown sp_click m)) = uint (mem_vir m) + uint (mem_len m)"
  proof (cases "sp_click < mem_vir m")
    case True
    then have d: "uint (mem_vir m - sp_click) = uint (mem_vir m) - uint sp_click" by (simp add: uint_minus_simple_alt [symmetric])
    have "(uint (mem_len m) + (uint (mem_vir m) - uint sp_click)) mod 4294967296 = uint (mem_len m) + (uint (mem_vir m) - uint sp_click)"
      by (rule mod_pos_pos_trivial) (use top nn True [unfolded word_less_def] in linarith)+
    then have "uint (mem_len m + (mem_vir m - sp_click)) = uint (mem_len m) + (uint (mem_vir m) - uint sp_click)"
      by (simp add: uint_word_ariths(1) d)
    then show ?thesis using True by (simp add: grown_def Let_def pos)
  qed (simp add: grown_def Let_def pos)
qed

text \<open>The outcome of \<open>adjust\<close>, with the conditions in plain arithmetic.\<close>

lemma adjust_cases:
  assumes stack: "mem_len (seg_S (mproc s p)) \<noteq> 0"
    and top: "uint (mem_vir (seg_S (mproc s p))) + uint (mem_len (seg_S (mproc s p))) \<le> 16777216"
    and d: "d = seg_D (mproc s p)" and st: "st = seg_S (mproc s p)"
    and k: "k = drop_bit CLICK_SHIFT sp" and st': "st' = grown k st"
    and s': "s' = upd_mproc p (\<lambda>r. r\<lparr>seg_D := d\<lparr>mem_len := dc\<rparr>, seg_S := st'\<rparr>) s"
  shows "adjust p dc sp s =
    (if uint k < uint (mem_vir st) + uint (mem_len st) \<and> uint (mem_vir d + dc) + 6 \<le> min (uint (mem_vir st)) (uint k)
     then (OK, if dc \<noteq> mem_len d \<or> st' \<noteq> st then emit (SysNewmap p (seg_T (mproc s p)) (d\<lparr>mem_len := dc\<rparr>) st') s' else s')
     else (ENOMEM, s))"
proof -
  have kl: "uint k < 16777216" unfolding k by (rule sp_click_less)
  have top': "uint (mem_vir st) + uint (mem_len st) \<le> 16777216" using top st by simp
  note g = grown_nat [OF top' kl, folded st']
  have nn: "0 \<le> uint (mem_vir st)" "0 \<le> uint (mem_len st)" "0 \<le> uint k" "0 \<le> uint (mem_vir d + dc)" by simp_all
  have base: "uint (mem_vir st + mem_len st) = uint (mem_vir st) + uint (mem_len st)"
    using top' nn by (simp add: uint_word_ariths(1))
  have sc: "SAFETY_CLICKS = 6" by (simp add: SAFETY_CLICKS_def CLICK_SIZE_def)
  have vir: "uint (mem_vir st') < 16777216" using g(1) kl by linarith
  have gap: "(mem_vir st' < mem_vir d + dc + SAFETY_CLICKS \<or> mem_vir d + dc > mem_vir st') \<longleftrightarrow>
      \<not> uint (mem_vir d + dc) + 6 \<le> uint (mem_vir st')"
  proof (cases "mem_vir d + dc > mem_vir st'")
    case False
    then have "uint (mem_vir d + dc) \<le> uint (mem_vir st')" by (simp add: word_le_def not_less)
    then have "uint (mem_vir d + dc + 6) = uint (mem_vir d + dc) + 6"
      using vir nn(4) by (simp add: uint_word_ariths(1)[of "mem_vir d + dc" 6] del: uint_word_ariths)
    then show ?thesis using False by (simp add: sc word_less_def not_le)
  qed (auto simp: word_less_def)
  have delta: "sint (mem_vir st - k) > 0 \<longleftrightarrow> st' \<noteq> st"
    by (cases st) (auto simp: st' grown_def Let_def)
  have hi: "k \<ge> mem_vir st + mem_len st \<longleftrightarrow> \<not> uint k < uint (mem_vir st) + uint (mem_len st)"
    by (simp add: word_le_def base not_less)
  show ?thesis
    using stack unfolding adjust_eq d [symmetric] st [symmetric] Let_def k [symmetric] st' [symmetric] s' [symmetric] gap delta g(1) [symmetric] hi
    by simp
qed

text \<open>
  (C24) \<^verbatim>\<open>adjust\<close> lets the data segment of a process grow or shrink to \<open>dc\<close> clicks, and the stack down to
  the click of \<open>sp\<close>, exactly when the stack pointer is below the top of the stack and the safety
  margin of 6 clicks is left between the end of the data and the lower of stack segment and
  stack pointer. Then the data segment has \<open>dc\<close> clicks, the stack segment covers the stack
  pointer, its top and its place in physical memory are the old ones, and the kernel has been
  told the new map if there is one; otherwise ENOMEM is returned and nothing has changed. Clicks
  wrap at 32 bits; the stack is assumed to lie inside the 4 Gbyte address space.
\<close>

theorem adjust_keeps_apart:
  assumes stack: "mem_len (seg_S (mproc s p)) \<noteq> 0"
    and top: "uint (mem_vir (seg_S (mproc s p))) + uint (mem_len (seg_S (mproc s p))) \<le> 16777216"
  shows "let d = seg_D (mproc s p); st = seg_S (mproc s p); sp_click = drop_bit CLICK_SHIFT sp;
             (r, s') = adjust p dc sp s; d' = seg_D (mproc s' p); st' = seg_S (mproc s' p)
         in if uint sp_click < uint (mem_vir st) + uint (mem_len st) \<and>
               uint (mem_vir d + dc) + 6 \<le> min (uint (mem_vir st)) (uint sp_click)
            then r = OK \<and> d' = d\<lparr>mem_len := dc\<rparr> \<and> mem_vir st' \<le> sp_click \<and>
                 uint (mem_vir d' + mem_len d') + 6 \<le> uint (mem_vir st') \<and>
                 uint (mem_vir st') + uint (mem_len st') = uint (mem_vir st) + uint (mem_len st) \<and>
                 mem_phys st' - mem_vir st' = mem_phys st - mem_vir st \<and>
                 out s' = out s @ (if d' = d \<and> st' = st then [] else [SysNewmap p (seg_T (mproc s p)) d' st'])
            else r = ENOMEM \<and> s' = s"
proof -
  obtain d st where r: "seg_D (mproc s p) = d" "seg_S (mproc s p) = st" by simp
  define k where "k = (drop_bit CLICK_SHIFT sp :: 32 word)"
  define st' where "st' = grown k st"
  have k: "uint k < 16777216" unfolding k_def by (rule sp_click_less)
  note g = grown_nat [OF top [unfolded r] k, folded st'_def]
  have le: "mem_vir st' \<le> k" using g(1) by (simp add: word_le_def)
  have dl: "(d\<lparr>mem_len := dc\<rparr> = d) = (dc = mem_len d)" by (cases d) auto
  have adj: "adjust p dc sp s =
    (if uint k < uint (mem_vir st) + uint (mem_len st) \<and> uint (mem_vir d + dc) + 6 \<le> uint (mem_vir st')
     then (OK, if dc \<noteq> mem_len d \<or> st' \<noteq> st then emit (SysNewmap p (seg_T (mproc s p)) (d\<lparr>mem_len := dc\<rparr>) st')
         (upd_mproc p (\<lambda>r. r\<lparr>seg_D := d\<lparr>mem_len := dc\<rparr>, seg_S := st'\<rparr>) s)
       else upd_mproc p (\<lambda>r. r\<lparr>seg_D := d\<lparr>mem_len := dc\<rparr>, seg_S := st'\<rparr>) s)
     else (ENOMEM, s))"
    unfolding g(1) by (rule adjust_cases [OF stack top r [symmetric] k_def st'_def refl])
  show ?thesis unfolding adj Let_def r k_def [symmetric] g(1) [symmetric]
    using dl le by (auto simp: emit_def upd_mproc_def g(2,3))
qed

theorem adjust_keeps_apart_witness:
  "let (r, s') = adjust 4 60 (290 * 256) sample_mm
   in r = OK \<and> mem_len (seg_D (mproc s' 4)) = 60 \<and> mem_vir (seg_S (mproc s' 4)) \<le> 290 \<and> out s' \<noteq> []"
proof -
  have k: "drop_bit CLICK_SHIFT (290 * 256 :: 32 word) = 290" by (simp add: CLICK_SHIFT_def drop_bit_eq_div)
  have seg: "seg_D (mproc sample_mm 4) = \<lparr>mem_vir = 100, mem_phys = 1100, mem_len = 50\<rparr>"
    "seg_S (mproc sample_mm 4) = \<lparr>mem_vir = 300, mem_phys = 1300, mem_len = 10\<rparr>"
    by (simp_all add: sample_mm_def sample_table_def blank_mproc_def)
  show ?thesis
    using adjust_keeps_apart [of sample_mm 4 "290 * 256" 60] unfolding Let_def k seg
    by (auto split: prod.splits)
qed

text \<open>
  \<^verbatim>\<open>brk(addr)\<close> returns \<open>addr\<close> when the data segment can be made to end at the first click
  boundary at or above it, with the safety margin to the stack left; the segment then is the
  smallest number of clicks that reaches \<open>addr\<close>. Otherwise it returns -1 and ENOMEM and leaves
  every segment alone. (Addresses are read as signed, so they lie in the lower 2 Gbyte.)
\<close>

theorem do_brk_moves_end:
  assumes stack: "mem_len (seg_S (mproc s (mp s))) \<noteq> 0"
    and top: "uint (mem_vir (seg_S (mproc s (mp s)))) + uint (mem_len (seg_S (mproc s (mp s)))) \<le> 16777216"
    and addr: "uint (in_p1 (mm_in s)) < 2147483392"
  shows "let (r, s') = do_brk e s; v = in_p1 (mm_in s); d = seg_D (mproc s' (mp s)); st = seg_S (mproc s' (mp s))
         in r = OK \<and> res_ptr s' = v \<and> mem_vir d = mem_vir (seg_D (mproc s (mp s))) \<and>
            uint v \<le> 256 * (uint (mem_vir d) + uint (mem_len d)) \<and> 256 * (uint (mem_vir d) + uint (mem_len d)) < uint v + 256 \<and>
            uint (mem_vir d) + uint (mem_len d) + 6 \<le> uint (mem_vir st)
          \<or> r = ENOMEM \<and> res_ptr s' = - 1 \<and> mproc s' = mproc s"
proof -
  define v where "v = in_p1 (mm_in s)"
  define n :: "32 word" where "n = word_of_int (sint (v + CLICK_SIZE - 1) div 256)"
  let ?d = "seg_D (mproc s (mp s))"
  define s1 where "s1 = emit (SysGetsp (who s)) s"
  have n: "uint n = (uint v + 255) div 256"
  proof -
    have nn: "0 \<le> uint v" by simp
    have u: "uint (255 + v) = uint v + 255"
      using addr nn v_def by (simp add: uint_word_ariths(1))
    have "sint (255 + v) = uint v + 255" using sint_small [of "255 + v"] addr u v_def by simp
    then have "n = word_of_int ((uint v + 255) div 256)" by (simp add: n_def CLICK_SIZE_def)
    moreover have "0 \<le> (uint v + 255) div 256" "(uint v + 255) div 256 < 4294967296" using addr nn unfolding v_def by linarith+
    ultimately show ?thesis by (simp add: uint_word_of_int)
  qed
  show ?thesis
  proof (cases "n < mem_vir ?d")
    case True
    then show ?thesis by (simp add: do_brk_def Let_def v_def [symmetric] n_def [symmetric])
  next
    case False
    obtain r s2 where a: "adjust (mp s) (n - mem_vir ?d) (getsp_val e (out s1)) s1 = (r, s2)" by fastforce
    have eq: "do_brk e s = (r, s2\<lparr>res_ptr := (if r = OK then v else - 1)\<rparr>)"
      using False a by (simp add: do_brk_def Let_def v_def [symmetric] n_def [symmetric] sys_getsp_def s1_def [symmetric])
    have m: "mproc s1 = mproc s" by (simp add: s1_def emit_def)
    have len: "uint (n - mem_vir ?d) = uint n - uint (mem_vir ?d)"
      using False by (simp add: uint_minus_simple_alt [symmetric])
    have ends: "uint (mem_vir ?d) + uint (n - mem_vir ?d) = uint n" "mem_vir ?d + (n - mem_vir ?d) = n" using len by simp_all
    have cover: "uint v \<le> 256 * uint n" "256 * uint n < uint v + 256" unfolding n by linarith+
    note adj = adjust_cases [OF stack [folded m] top [folded m] refl refl refl refl refl, of "n - mem_vir ?d" "getsp_val e (out s1)", unfolded a m]
    show ?thesis
    proof (cases "r = OK")
      case True
      then show ?thesis unfolding eq Let_def
        using adj ends cover grown_nat(1) [OF top sp_click_less, of "getsp_val e (out s1)"]
        by (auto simp: v_def [symmetric] upd_mproc_def emit_def errno_defs split: if_splits)
    next
      case False
      then show ?thesis unfolding eq Let_def using adj by (auto simp: m split: if_splits)
    qed
  qed
qed

theorem do_brk_moves_end_witness:
  "let (r, s') = do_brk sample_env (sample_mm\<lparr>mm_in := (mm_in sample_mm)\<lparr>in_p1 := 40000\<rparr>\<rparr>)
   in r = OK \<and> res_ptr s' = 40000 \<and> mem_len (seg_D (mproc s' 4)) = 57"
proof -
  define s where "s = sample_mm\<lparr>mm_in := (mm_in sample_mm)\<lparr>in_p1 := 40000\<rparr>\<rparr>"
  have seg: "seg_D (mproc s 4) = \<lparr>mem_vir = 100, mem_phys = 1100, mem_len = 50\<rparr>"
    "seg_S (mproc s 4) = \<lparr>mem_vir = 300, mem_phys = 1300, mem_len = 10\<rparr>" "in_p1 (mm_in s) = 40000" "mp s = 4"
    by (simp_all add: s_def sample_mm_def sample_table_def blank_mproc_def)
  have ok: "fst (do_brk sample_env s) = OK" unfolding s_def by code_simp
  obtain s' where s': "do_brk sample_env s = (OK, s')" using ok by (cases "do_brk sample_env s") simp
  have "uint (mem_len (seg_D (mproc s' 4))) = 57 \<and> res_ptr s' = 40000"
    using do_brk_moves_end [of s sample_env] by (auto simp: seg s' errno_defs Let_def)
  then show ?thesis unfolding s_def [symmetric] s' by (simp add: word_uint_eq_iff)
qed

end
