(* ===== verification/Mm_Exit.thy ===== *)
theory Mm_Exit
  imports Mm_Signal Mm_Break
begin

unbundle bit_operations_syntax

text \<open>
  What signalling and exiting do to the process table. \<open>mmr J\<close> relates the states before and after:
  identities stay, no process comes to life, the count of used slots stays right, SIGKILL is never
  masked, caught or ignored, children only move to INIT. All of \<^verbatim>\<open>sig_proc\<close>, \<^verbatim>\<open>mm_exit\<close> and
  \<^verbatim>\<open>check_sig\<close> return within \<open>EXIT_FUEL\<close> and obey it.
\<close>

section \<open>Operations that return and obey a relation\<close>

locale step_relation =
  fixes R :: "'s \<Rightarrow> 's \<Rightarrow> bool"
  assumes R_refl: "R s s" and R_trans: "R s s1 \<Longrightarrow> R s1 s2 \<Longrightarrow> R s s2"
begin

definition runs :: "'s \<Rightarrow> 's outcome option \<Rightarrow> bool" where
  "runs s r \<longleftrightarrow> (\<exists>s'. r = Some (Ret s') \<and> R s s')"

definition runs2 :: "'s \<Rightarrow> ('a \<times> 's) outcome option \<Rightarrow> bool" where
  "runs2 s r \<longleftrightarrow> (\<exists>x s'. r = Some (Ret (x, s')) \<and> R s s')"

lemma runs_Ret: "R s s' \<Longrightarrow> runs s (Some (Ret s'))"
  by (simp add: runs_def)

lemma runs2_Ret: "R s s' \<Longrightarrow> runs2 s (Some (Ret (x, s')))"
  by (simp add: runs2_def)

lemma runs_from: "R s s1 \<Longrightarrow> runs s1 r \<Longrightarrow> runs s r"
  unfolding runs_def using R_trans by blast

lemma runs2_from: "R s s1 \<Longrightarrow> runs2 s1 r \<Longrightarrow> runs2 s r"
  unfolding runs2_def using R_trans by blast

lemma runs_bind: "runs s r \<Longrightarrow> (\<And>s'. R s s' \<Longrightarrow> runs s' (f s')) \<Longrightarrow> runs s (and_then r f)"
  unfolding runs_def using R_trans by fastforce

lemma runs2_bind: "runs2 s r \<Longrightarrow> (\<And>x s'. R s s' \<Longrightarrow> runs s' (f (x, s'))) \<Longrightarrow> runs s (and_then r f)"
  unfolding runs_def runs2_def using R_trans by fastforce

lemma runs_bind2: "runs s r \<Longrightarrow> (\<And>s'. R s s' \<Longrightarrow> runs2 s' (f s')) \<Longrightarrow> runs2 s (and_then r f)"
  unfolding runs_def runs2_def using R_trans by fastforce

lemma runs2_bind2: "runs2 s r \<Longrightarrow> (\<And>x s'. R s s' \<Longrightarrow> runs2 s' (f (x, s'))) \<Longrightarrow> runs2 s (and_then r f)"
  unfolding runs2_def using R_trans by fastforce

lemma runs_each:
  "(\<And>x s'. x \<in> set xs \<Longrightarrow> R s s' \<Longrightarrow> runs s' (f x s')) \<Longrightarrow> runs s (each f xs s)"
proof (induction xs arbitrary: s)
  case Nil
  then show ?case by (simp add: runs_Ret R_refl)
next
  case (Cons x xs)
  have "runs s (f x s)" using Cons.prems [of x s] R_refl by simp
  moreover have "runs s' (each f xs s')" if "R s s'" for s'
    by (rule Cons.IH) (use Cons.prems R_trans [OF that] in auto)
  ultimately show ?case by (simp add: runs_bind)
qed

end

section \<open>The relation\<close>

definition live :: "mm \<Rightarrow> int \<Rightarrow> bool" where
  "live s p \<longleftrightarrow> pflag s p IN_USE \<and> \<not> pflag s p HANGING"

definition used :: "mm \<Rightarrow> int set" where
  "used s = {p \<in> set slots. pflag s p IN_USE}"

definition live_slots :: "mm \<Rightarrow> int set" where
  "live_slots s = {p \<in> set slots. live s p}"

text \<open>SIGKILL is neither blocked nor ignored nor caught, and no handler blocks it.\<close>

definition kill_ok :: "mproc \<Rightarrow> bool" where
  "kill_ok r \<longleftrightarrow> \<not> sigismember (mp_sigmask r) SIGKILL \<and> \<not> sigismember (mp_ignore r) SIGKILL \<and>
     \<not> sigismember (mp_catch r) SIGKILL \<and> (\<forall>n. \<not> sigismember (sa_mask (mp_sigact r n)) SIGKILL)"

definition same_ids :: "mproc \<Rightarrow> mproc \<Rightarrow> bool" where
  "same_ids r r' \<longleftrightarrow> mp_pid r' = mp_pid r \<and> mp_procgrp r' = mp_procgrp r \<and> mp_realuid r' = mp_realuid r \<and>
     mp_effuid r' = mp_effuid r \<and> mp_realgid r' = mp_realgid r \<and> mp_effgid r' = mp_effgid r"

text \<open>The number of clicks \<^verbatim>\<open>do_fork\<close> asks for, and the live processes with these sizes.\<close>

definition clicks :: "mproc \<Rightarrow> nat" where
  "clicks r = unat (mem_len (seg_S r) + (mem_vir (seg_S r) - mem_vir (seg_D r)))"

definition live_sizes :: "mm \<Rightarrow> int \<Rightarrow> nat option" where
  "live_sizes s p = (if p \<in> set slots \<and> live s p then Some (clicks (mproc s p)) else None)"

text \<open>What is known of the hole list, after the calls to the outside made so far and for these live processes.\<close>

type_synonym books = "event list \<Rightarrow> (int \<Rightarrow> nat option) \<Rightarrow> hole_state \<Rightarrow> bool"

definition mmr :: "books \<Rightarrow> mm \<Rightarrow> mm \<Rightarrow> bool" where
  "mmr J s s' \<longleftrightarrow>
     who s' = who s \<and> mp s' = mp s \<and> mm_call s' = mm_call s \<and> mm_in s' = mm_in s \<and> next_pid s' = next_pid s \<and>
     core_sset s' = core_sset s \<and>
     (\<forall>p. same_ids (mproc s p) (mproc s' p)) \<and>
     (\<forall>p. pflag s' p IN_USE \<longrightarrow> pflag s p IN_USE) \<and> (\<forall>p. live s' p \<longrightarrow> live s p) \<and>
     procs_in_use s' - int (card (used s')) = procs_in_use s - int (card (used s)) \<and>
     ((\<forall>p. kill_ok (mproc s p)) \<longrightarrow> (\<forall>p. kill_ok (mproc s' p))) \<and>
     (\<forall>p. mp_parent (mproc s' p) = mp_parent (mproc s p) \<or> mp_parent (mproc s' p) = INIT_PROC_NR) \<and>
     (J (out s) (live_sizes s) (holes s) \<longrightarrow> J (out s') (live_sizes s') (holes s'))"

lemma same_ids_trans: "same_ids a b \<Longrightarrow> same_ids b c \<Longrightarrow> same_ids a c"
  by (simp add: same_ids_def)

lemma mmr_refl [simp]: "mmr J s s"
  by (simp add: mmr_def same_ids_def)

lemma mmrD:
  assumes "mmr J s s'"
  shows "who s' = who s" "mp s' = mp s" "mm_call s' = mm_call s" "mm_in s' = mm_in s" "next_pid s' = next_pid s"
    "core_sset s' = core_sset s" "same_ids (mproc s p) (mproc s' p)" "pflag s' p IN_USE \<Longrightarrow> pflag s p IN_USE"
    "live s' p \<Longrightarrow> live s p" "procs_in_use s' - int (card (used s')) = procs_in_use s - int (card (used s))"
    "(\<And>p. kill_ok (mproc s p)) \<Longrightarrow> kill_ok (mproc s' p)"
    "mp_parent (mproc s' p) = mp_parent (mproc s p) \<or> mp_parent (mproc s' p) = INIT_PROC_NR"
    "J (out s) (live_sizes s) (holes s) \<Longrightarrow> J (out s') (live_sizes s') (holes s')"
  using assms unfolding mmr_def by blast+

lemma mmr_trans: assumes a: "mmr J s s1" and b: "mmr J s1 s2" shows "mmr J s s2"
  unfolding mmr_def
proof (intro conjI allI impI)
  note A = mmrD [OF a] and B = mmrD [OF b]
  show "who s2 = who s" "mp s2 = mp s" "mm_call s2 = mm_call s" "mm_in s2 = mm_in s" "next_pid s2 = next_pid s"
    "core_sset s2 = core_sset s" "procs_in_use s2 - int (card (used s2)) = procs_in_use s - int (card (used s))"
    using A(1-6,10) B(1-6,10) by simp_all
  show "J (out s) (live_sizes s) (holes s) \<Longrightarrow> J (out s2) (live_sizes s2) (holes s2)" using A(13) B(13) by blast
  fix p
  show "same_ids (mproc s p) (mproc s2 p)" by (rule same_ids_trans [OF A(7) B(7)])
  show "pflag s2 p IN_USE \<Longrightarrow> pflag s p IN_USE" "live s2 p \<Longrightarrow> live s p" using A(8,9) B(8,9) by blast+
  show "\<forall>p. kill_ok (mproc s p) \<Longrightarrow> kill_ok (mproc s2 p)" using A(11) B(11) by blast
  show "mp_parent (mproc s2 p) = mp_parent (mproc s p) \<or> mp_parent (mproc s2 p) = INIT_PROC_NR"
    using A(12) [of p] B(12) [of p] by auto
qed

interpretation mr: step_relation "mmr J" for J
  by unfold_locales (auto intro: mmr_trans)

section \<open>Small operations\<close>

lemma upd_mproc_sel [simp]:
  "mproc (upd_mproc p f s) = (mproc s)(p := f (mproc s p))" "who (upd_mproc p f s) = who s" "mp (upd_mproc p f s) = mp s"
  "mm_call (upd_mproc p f s) = mm_call s" "mm_in (upd_mproc p f s) = mm_in s" "next_pid (upd_mproc p f s) = next_pid s"
  "core_sset (upd_mproc p f s) = core_sset s" "procs_in_use (upd_mproc p f s) = procs_in_use s" "holes (upd_mproc p f s) = holes s"
  "out (upd_mproc p f s) = out s" "dont_reply (upd_mproc p f s) = dont_reply s"
  by (simp_all add: upd_mproc_def)

lemma emit_sel [simp]:
  "mproc (emit ev s) = mproc s" "who (emit ev s) = who s" "mp (emit ev s) = mp s" "mm_call (emit ev s) = mm_call s"
  "mm_in (emit ev s) = mm_in s" "next_pid (emit ev s) = next_pid s" "core_sset (emit ev s) = core_sset s"
  "procs_in_use (emit ev s) = procs_in_use s" "holes (emit ev s) = holes s" "out (emit ev s) = out s @ [ev]"
  "dont_reply (emit ev s) = dont_reply s"
  by (simp_all add: emit_def)

text \<open>
  The environment does not make the memory manager panic: replies can be sent, the clock task
  answers, and the memory the kernel reports for a live process that exits can be freed. Only the calls that
  create, end or reload a process change what is known of the memory.
\<close>

definition quiet :: "event \<Rightarrow> bool" where
  "quiet ev \<longleftrightarrow> (case ev of SysXit q r \<Rightarrow> False | SysFork w c pid b \<Rightarrow> False | SysFresh p b n k ob on \<Rightarrow> False | _ \<Rightarrow> True)"

lemma quiet_simps [simp]:
  "quiet (Reply a b c w)" "quiet (TellFs a b c d)" "quiet (SysNewmap a m1 m2 m3)" "quiet (SysGetsp a)" "quiet (SysTrace a b c d)"
  "quiet (SysSendsig a w1 b w2 w3 w4)" "quiet (SysOldsig a b w)" "quiet (SysEndsig a)" "quiet (SysSigreturn a w b)" "quiet (SetAlarm a w)"
  "quiet (CopyOut a w)" "quiet (CopyIn a w)" "quiet (OpenCore a)" "quiet (WriteCore a)" "quiet (SysAbort a)"
  by (simp_all add: quiet_def)

definition calm :: "env \<Rightarrow> books \<Rightarrow> bool" where
  "calm e J \<longleftrightarrow> (\<forall>evs. send_ok e evs \<and> clock_ok e evs) \<and> (\<forall>evs ev I h. quiet ev \<longrightarrow> J evs I h \<longrightarrow> J (evs @ [ev]) I h) \<and>
     (\<forall>evs I h q r. J evs I h \<longrightarrow> I r \<noteq> None \<longrightarrow>
        (\<exists>h'. free_mem (fst (xit_val e (evs @ [SysXit q r]))) (snd (xit_val e (evs @ [SysXit q r]))) h = Some (Ret h') \<and>
              J (evs @ [SysXit q r]) (I(r := None)) h'))"

text \<open>The relation without the memory.\<close>

abbreviation mmt :: "mm \<Rightarrow> mm \<Rightarrow> bool" where "mmt \<equiv> mmr (\<lambda>_ _ _. True)"

lemma mmr_mmt: "mmr J s s' \<longleftrightarrow> mmt s s' \<and> (J (out s) (live_sizes s) (holes s) \<longrightarrow> J (out s') (live_sizes s') (holes s'))"
  unfolding mmr_def by blast

lemma mmt_mmr: "mmr J s s' \<Longrightarrow> mmt s s'" by (simp add: mmr_mmt [of J])

lemma used_upd:
  "used (upd_mproc p f s) = (if has (mp_flags (f (mproc s p))) IN_USE \<and> p \<in> set slots then insert p (used s) else used s - {p})"
  by (auto simp: used_def)

lemma mmt_upd:
  assumes "\<And>r. same_ids r (f r)" "\<And>r. has (mp_flags (f r)) IN_USE = has (mp_flags r) IN_USE"
    "\<And>r. has (mp_flags r) HANGING \<Longrightarrow> has (mp_flags (f r)) HANGING" "\<And>r. kill_ok r \<Longrightarrow> kill_ok (f r)"
    "\<And>r. mp_parent (f r) = mp_parent r \<or> mp_parent (f r) = INIT_PROC_NR"
  shows "mmt s (upd_mproc p f s)"
proof -
  have "used (upd_mproc p f s) = used s" by (auto simp: used_def assms(2))
  then show ?thesis using assms by (auto simp: mmr_def live_def same_ids_def)
qed

lemma live_sizes_upd:
  assumes "\<And>r. has (mp_flags (f r)) IN_USE = has (mp_flags r) IN_USE" "\<And>r. has (mp_flags (f r)) HANGING = has (mp_flags r) HANGING"
    "\<And>r. clicks (f r) = clicks r"
  shows "live_sizes (upd_mproc p f s) = live_sizes s"
  by (rule ext) (auto simp: live_sizes_def live_def assms)

lemma mmr_upd:
  assumes "\<And>r. same_ids r (f r)" "\<And>r. has (mp_flags (f r)) IN_USE = has (mp_flags r) IN_USE"
    "\<And>r. has (mp_flags (f r)) HANGING = has (mp_flags r) HANGING" "\<And>r. kill_ok r \<Longrightarrow> kill_ok (f r)"
    "\<And>r. mp_parent (f r) = mp_parent r \<or> mp_parent (f r) = INIT_PROC_NR" "\<And>r. clicks (f r) = clicks r"
  shows "mmr J s (upd_mproc p f s)"
  unfolding mmr_mmt [of J] using mmt_upd [of f s p] live_sizes_upd [of f p s] assms by simp

lemma live_sizes_frame [simp]:
  "live_sizes (emit ev s) = live_sizes s" "live_sizes (s\<lparr>holes := h\<rparr>) = live_sizes s" "live_sizes (s\<lparr>dont_reply := b\<rparr>) = live_sizes s" "live_sizes (s\<lparr>ret_mask := w\<rparr>) = live_sizes s"
  "live_sizes (s\<lparr>res_ptr := w\<rparr>) = live_sizes s" "live_sizes (s\<lparr>out_l2 := n\<rparr>) = live_sizes s" "live_sizes (s\<lparr>result2 := n\<rparr>) = live_sizes s" "live_sizes (s\<lparr>mp := n\<rparr>) = live_sizes s"
  "live_sizes (s\<lparr>procs_in_use := n\<rparr>) = live_sizes s" "live_sizes (s\<lparr>mm_in := i\<rparr>) = live_sizes s" "live_sizes (s\<lparr>who := n\<rparr>) = live_sizes s"
  "live_sizes (s\<lparr>mm_call := n\<rparr>) = live_sizes s"
  by (simp_all add: live_sizes_def live_def fun_eq_iff)

lemma mmr_emit: "calm e J \<Longrightarrow> quiet ev \<Longrightarrow> mmr J s (emit ev s)"
  by (auto simp: mmr_def live_def used_def same_ids_def calm_def)

lemma mmt_emit: "mmt s (emit ev s)"
  by (auto simp: mmr_def live_def used_def same_ids_def)

lemma mmt_holes: "mmt s (s\<lparr>holes := h\<rparr>)"
  by (auto simp: mmr_def live_def used_def same_ids_def)

lemma mmr_dont_reply: "mmr J s (s\<lparr>dont_reply := b\<rparr>)"
  by (simp add: mmr_def live_def used_def same_ids_def)

lemma clicks_simps [simp]:
  "clicks (mp_flags_update f r) = clicks r" "clicks (mp_sigstatus_update g r) = clicks r" "clicks (mp_exitstatus_update g r) = clicks r"
  "clicks (mp_parent_update g r) = clicks r" "clicks (mp_wpid_update g r) = clicks r" "clicks (mp_sigpending_update u r) = clicks r"
  "clicks (mp_sigmask_update u r) = clicks r" "clicks (mp_sigmask2_update u r) = clicks r" "clicks (mp_catch_update u r) = clicks r"
  "clicks (mp_ignore_update u r) = clicks r" "clicks (mp_sigact_update a r) = clicks r" "clicks (mp_func_update u r) = clicks r"
  "clicks (mp_sigreturn_update u r) = clicks r" "clicks (mp_procgrp_update g r) = clicks r" "clicks (mp_pid_update g r) = clicks r"
  "clicks (mp_realuid_update g r) = clicks r" "clicks (mp_effuid_update g r) = clicks r" "clicks (mp_realgid_update g r) = clicks r"
  "clicks (mp_effgid_update g r) = clicks r" "clicks (seg_T_update h r) = clicks r"
  by (simp_all add: clicks_def)

lemma mm_flags_simps [simp]:
  "has (w OR ALARM_ON) IN_USE = has w IN_USE" "has (w AND NOT ALARM_ON) IN_USE = has w IN_USE"
  "has (w OR ALARM_ON) HANGING = has w HANGING" "has (w AND NOT ALARM_ON) HANGING = has w HANGING"
  "has (w AND NOT WAITING) IN_USE = has w IN_USE" "has (w AND NOT WAITING) HANGING = has w HANGING"
  "has (w AND NOT PAUSED) IN_USE = has w IN_USE" "has (w AND NOT PAUSED) HANGING = has w HANGING"
  "has (w AND NOT SIGSUSPENDED) IN_USE = has w IN_USE" "has (w AND NOT SIGSUSPENDED) HANGING = has w HANGING"
  "has (w OR STOPPED) IN_USE = has w IN_USE" "has (w OR STOPPED) HANGING = has w HANGING"
  "has (w OR HANGING) IN_USE = has w IN_USE" "has (w OR HANGING) HANGING"
  "has (w OR TRACED) IN_USE = has w IN_USE" "has (w OR TRACED) HANGING = has w HANGING"
  "has (w AND NOT TRACED) IN_USE = has w IN_USE" "has (w AND NOT TRACED) HANGING = has w HANGING"
  "has (w AND NOT STOPPED) IN_USE = has w IN_USE" "has (w AND NOT STOPPED) HANGING = has w HANGING"
  "has (w OR WAITING) IN_USE = has w IN_USE" "has (w OR WAITING) HANGING = has w HANGING"
  "has (w OR PAUSED) IN_USE = has w IN_USE" "has (w OR PAUSED) HANGING = has w HANGING"
  "has (w OR SIGSUSPENDED) IN_USE = has w IN_USE" "has (w OR SIGSUSPENDED) HANGING = has w HANGING"
  "has (0 :: 32 word) m = False"
  by (auto simp: flag_simps bit_and_iff bit_or_iff bit_not_iff) (simp add: has_def)

lemma kill_ok_simps [simp]:
  "kill_ok (mp_flags_update f r) = kill_ok r" "kill_ok (mp_sigstatus_update g r) = kill_ok r"
  "kill_ok (mp_exitstatus_update g r) = kill_ok r" "kill_ok (mp_parent_update g r) = kill_ok r"
  "kill_ok (seg_D_update h r) = kill_ok r" "kill_ok (seg_S_update h r) = kill_ok r" "kill_ok (mp_sigpending_update u r) = kill_ok r"
  "kill_ok (mp_wpid_update g r) = kill_ok r"
  by (simp_all add: kill_ok_def)

lemma same_ids_simps [simp]:
  "same_ids r (mp_flags_update f r)" "same_ids r (mp_sigstatus_update g r)" "same_ids r (mp_exitstatus_update g r)"
  "same_ids r (mp_parent_update g r)" "same_ids r (seg_D_update h r)" "same_ids r (seg_S_update h r)"
  "same_ids r (mp_sigpending_update u r)" "same_ids r (mp_sigmask_update u r)"
  by (simp_all add: same_ids_def)

lemma sigkill_valid [simp]: "sigisvalid SIGKILL"
  by (simp add: sigisvalid_def SIGKILL_def NSIG_def)

lemma reply_runs:
  assumes "calm e J" shows "mr.runs J s (reply e p r r2 rp s)"
proof -
  have "send_ok e evs" for evs using assms by (simp add: calm_def)
  then show ?thesis using mmr_emit [OF assms] by (auto simp: reply_def Let_def intro!: mr.runs_Ret)
qed

lemma reply_result:
  assumes "calm e J" shows "\<exists>s1. reply e p r r2 rp s = Some (Ret s1) \<and> mmr J s s1 \<and> mproc s1 = mproc s \<and> procs_in_use s1 = procs_in_use s"
proof -
  have "send_ok e evs" for evs using assms by (simp add: calm_def)
  then show ?thesis using mmr_emit [OF assms] by (auto simp: reply_def Let_def)
qed

lemma tell_fs_mmr: "calm e J \<Longrightarrow> mmr J s (tell_fs a b c d s)"
  by (simp add: tell_fs_def mmr_emit)

lemma set_alarm_runs:
  assumes "calm e J" shows "mr.runs2 J s (set_alarm e p sec s)"
proof -
  have ok: "clock_ok e evs" for evs using assms by (simp add: calm_def)
  have m: "mmr J s (set_flag p ALARM_ON s)" "mmr J s (clear_flag p ALARM_ON s)" by (rule mmr_upd; simp)+
  show ?thesis using m mmr_trans [OF _ mmr_emit [OF assms]]
    by (auto simp: set_alarm_def ok Let_def intro!: mr.runs2_Ret)
qed

lemma adjust_mmr:
  assumes "calm e J" shows "mmr J s (snd (adjust p dc sp s))" "live (snd (adjust p dc sp s)) = live s" "mproc (snd (adjust p dc sp s)) q = mproc s q \<or> q = p"
    "mp_catch (mproc (snd (adjust p dc sp s)) q) = mp_catch (mproc s q)" "mp_sigmask (mproc (snd (adjust p dc sp s)) q) = mp_sigmask (mproc s q)"
    "mp_sigact (mproc (snd (adjust p dc sp s)) q) = mp_sigact (mproc s q)"
proof -
  define a b where "a = (seg_D (mproc s p))\<lparr>mem_len := dc\<rparr>" and "b = grown (drop_bit CLICK_SHIFT sp) (seg_S (mproc s p))"
  define ev t where "ev = SysNewmap p (seg_T (mproc s p)) a b" and t: "t = upd_mproc p (\<lambda>r. r\<lparr>seg_D := a, seg_S := b\<rparr>) s"
  have adj: "snd (adjust p dc sp s) = s \<or> snd (adjust p dc sp s) = t \<or> snd (adjust p dc sp s) = emit ev t"
    unfolding adjust_eq Let_def a_def [symmetric] b_def [symmetric] ev_def [symmetric] t [symmetric] by simp
  have "mmt s t" unfolding t by (rule mmt_upd) (simp_all add: same_ids_def)
  moreover have "clicks (r\<lparr>seg_D := (seg_D r)\<lparr>mem_len := dc\<rparr>, seg_S := grown c (seg_S r)\<rparr>) = clicks r" for c r
    by (simp add: clicks_def grown_def Let_def algebra_simps)
  then have "live_sizes t = live_sizes s" by (auto simp: t a_def b_def live_sizes_def live_def fun_eq_iff)
  ultimately have "mmr J s t" unfolding mmr_mmt [of J] by (simp add: t)
  then show "mmr J s (snd (adjust p dc sp s))" using adj mmr_trans [OF _ mmr_emit [OF assms]] by (auto simp: ev_def)
  show "live (snd (adjust p dc sp s)) = live s" using adj by (auto simp: live_def fun_eq_iff t split: if_splits)
  show "mproc (snd (adjust p dc sp s)) q = mproc s q \<or> q = p"
    "mp_catch (mproc (snd (adjust p dc sp s)) q) = mp_catch (mproc s q)" "mp_sigmask (mproc (snd (adjust p dc sp s)) q) = mp_sigmask (mproc s q)"
    "mp_sigact (mproc (snd (adjust p dc sp s)) q) = mp_sigact (mproc s q)"
    using adj t by auto
qed

lemma unpause_runs:
  assumes "calm e J" shows "mr.runs J s (unpause e p s)"
proof -
  have "mmr J s (clear_flag p m s)" if "m = PAUSED \<or> m = WAITING \<or> m = SIGSUSPENDED" for m
    by (rule mmr_upd) (use that in auto)
  then show ?thesis
    by (auto simp: unpause_def intro!: mr.runs_from [OF _ reply_runs [OF assms]] mr.runs_Ret tell_fs_mmr [OF assms])
qed

lemma stop_proc_runs:
  assumes "calm e J" shows "mr.runs J s (stop_proc e p n s)"
proof -
  let ?s1 = "emit (SysTrace (- 1) p 0 0) s"
  have 1: "mmr J s ?s1" by (rule mmr_emit [OF assms]) simp
  have 2: "mmr J ?s1 (set_flag p STOPPED ?s1)" by (rule mmr_upd) auto
  have 3: "mmr J t (clear_flag q WAITING t)" and 4: "mmr J t (upd_mproc q (mp_sigstatus_update f) t)" for t q f
    by (rule mmr_upd; simp)+
  show ?thesis using 1 mmr_trans [OF 1 2]
    by (auto simp: stop_proc_def Let_def simp del: upd_mproc_sel emit_sel
        intro!: mr.runs_Ret mr.runs_from [OF _ reply_runs [OF assms]] intro: mmr_trans [OF _ 3] mmr_trans [OF _ 4])
qed

lemma dump_core_mmr:
  assumes "calm e J" shows "mmr J s (dump_core e p s)" "live (dump_core e p s) = live s"
proof -
  let ?s1 = "emit (OpenCore p) s"
  let ?s2 = "upd_mproc p (mp_sigstatus_update (\<lambda>v. to_char (v OR 128))) ?s1"
  let ?s3 = "emit (SysGetsp p) ?s2"
  let ?s4 = "snd (adjust p (mem_len (seg_D (mproc ?s3 p))) (getsp_val e (out ?s3)) ?s3)"
  have eq: "dump_core e p s = (if mp_realuid (mproc s p) \<noteq> mp_effuid (mproc s p) then s
      else if \<not> core_ok e (out ?s1) then ?s1 else emit (WriteCore p) ?s4)"
    by (simp add: dump_core_def Let_def sys_getsp_def case_prod_beta)
  have 1: "mmr J s ?s1" by (rule mmr_emit [OF assms]) simp
  have 2: "mmr J ?s1 ?s2" by (rule mmr_upd) auto
  have 3: "mmr J ?s2 ?s3" by (rule mmr_emit [OF assms]) simp
  have 4: "mmr J ?s3 ?s4" by (rule adjust_mmr [OF assms])
  have 5: "mmr J ?s4 (emit (WriteCore p) ?s4)" by (rule mmr_emit [OF assms]) simp
  show "mmr J s (dump_core e p s)" unfolding eq
    using 1 mmr_trans [OF mmr_trans [OF mmr_trans [OF mmr_trans [OF 1 2] 3] 4] 5] by simp
  have "live ?s4 = live s" using adjust_mmr(2) [OF assms, of p "mem_len (seg_D (mproc ?s3 p))" "getsp_val e (out ?s3)" ?s3]
    by (auto simp: live_def fun_eq_iff)
  then show "live (dump_core e p s) = live s" unfolding eq by (auto simp: live_def fun_eq_iff)
qed

text \<open>The entry of a collected process is free; nothing is said to the kernel.\<close>

lemma cleanup_result:
  assumes c: "calm e J" and p: "p \<in> set slots" "pflag s p IN_USE"
  shows "\<exists>s'. cleanup e p s = Some (Ret s') \<and> mmt s s' \<and> \<not> pflag s' p IN_USE \<and> holes s' = holes s \<and>
    live_sizes s' = (live_sizes s)(p := None) \<and> (out s' = out s \<or> (\<exists>ev. quiet ev \<and> out s' = out s @ [ev]))"
proof -
  let ?q = "mp_parent (mproc s p)"
  define v where "v = push_bit 8 (mp_exitstatus (mproc s p)) OR (mp_sigstatus (mproc s p) AND 255)"
  have "send_ok e evs" for evs using c by (simp add: calm_def)
  then have "reply e ?q (mp_pid (mproc s p)) v 0 s = Some (Ret s) \<or>
      reply e ?q (mp_pid (mproc s p)) v 0 s = Some (Ret (emit (Reply ?q (mp_pid (mproc s p)) v 0) s))"
    by (auto simp: reply_def Let_def)
  then obtain s1 where r: "reply e ?q (mp_pid (mproc s p)) v 0 s = Some (Ret s1)" "s1 = s \<or> s1 = emit (Reply ?q (mp_pid (mproc s p)) v 0) s"
    by blast
  have r1: "mmt s s1" "mproc s1 = mproc s" "holes s1 = holes s" "live_sizes s1 = live_sizes s"
    "out s1 = out s \<or> (\<exists>ev. quiet ev \<and> out s1 = out s @ [ev])"
    using r(2) mmt_emit by auto
  let ?s2 = "clear_flag ?q WAITING s1"
  let ?s3 = "(upd_mproc p (mp_flags_update (\<lambda>_. 0)) ?s2)\<lparr>procs_in_use := procs_in_use s1 - 1\<rparr>"
  have eq: "cleanup e p s = Some (Ret ?s3)" using r(1) by (simp add: cleanup_def Let_def v_def)
  have 2: "mmt s1 ?s2" "live_sizes ?s2 = live_sizes s1" by (rule mmr_upd live_sizes_upd; simp)+
  have "p \<in> used ?s2" using p r1(2) by (auto simp: used_def)
  moreover have "finite (used ?s2)" by (simp add: used_def)
  ultimately have "card (used ?s2) > 0" by (simp only: card_gt_0_iff) blast
  moreover have "used ?s3 = used ?s2 - {p}" by (auto simp: used_def)
  ultimately have cnt: "procs_in_use ?s3 - int (card (used ?s3)) = procs_in_use ?s2 - int (card (used ?s2))"
    using \<open>p \<in> used ?s2\<close> by (simp add: of_nat_diff)
  have 3: "mmt ?s2 ?s3" using cnt by (auto simp: mmr_def live_def same_ids_def)
  have im: "live_sizes ?s3 = (live_sizes ?s2)(p := None)" by (auto simp: live_sizes_def live_def fun_eq_iff)
  show ?thesis unfolding eq
    using mmr_trans [OF mmr_trans [OF r1(1) 2(1)] 3] im 2(2) r1(3,4,5) by simp
qed

lemma books_later:
  assumes "calm e J" "J (out s) I h" "out s' = out s \<or> (\<exists>ev. quiet ev \<and> out s' = out s @ [ev])"
  shows "J (out s') I h"
  using assms unfolding calm_def by auto

lemma cleanup_runs:
  assumes c: "calm e J" and p: "p \<in> set slots" "pflag s p IN_USE" "pflag s p HANGING"
  shows "mr.runs J s (cleanup e p s)"
proof -
  obtain s' where s': "cleanup e p s = Some (Ret s')" "mmt s s'" "holes s' = holes s" "live_sizes s' = (live_sizes s)(p := None)"
    "out s' = out s \<or> (\<exists>ev. quiet ev \<and> out s' = out s @ [ev])"
    using cleanup_result [OF c p(1,2)] by blast
  have "live_sizes s' = live_sizes s" using s'(4) p(3) by (auto simp: live_sizes_def live_def)
  then have "mmr J s s'" unfolding mmr_mmt [of J] using s'(2,3) books_later [OF c _ s'(5)] by simp
  then show ?thesis unfolding s'(1) by (rule mr.runs_Ret)
qed

lemma disinherit_runs:
  assumes c: "calm e J" and p: "r \<in> set slots" shows "mr.runs J s (disinherit e q r s)"
proof -
  let ?s = "upd_mproc r (mp_parent_update (\<lambda>_. INIT_PROC_NR)) s"
  have m: "mmr J s ?s" by (rule mmr_upd) auto
  have "mr.runs J s (cleanup e r ?s)" if "pflag s r IN_USE" "pflag ?s r HANGING"
    by (rule mr.runs_from [OF m cleanup_runs [OF c p]]) (use that in simp_all)
  then show ?thesis using m by (auto simp: disinherit_def Let_def intro!: mr.runs_Ret)
qed

section \<open>Exit, signal and broadcast\<close>

text \<open>From the call of the kernel to the entry that hangs or is free: the memory of the process comes back.\<close>

definition entombed :: "env \<Rightarrow> int \<Rightarrow> mm \<Rightarrow> mm outcome option" where
  "entombed e r s = (if pflag s (mp_parent (mproc s r)) WAITING \<and> right_child (mp_wpid (mproc s (mp_parent (mproc s r)))) (mproc s r)
     then cleanup e r s else Some (Ret (set_flag r HANGING s)))"

lemma entombed_result:
  assumes c: "calm e J" and r: "r \<in> set slots" "pflag s r IN_USE"
  shows "\<exists>s'. entombed e r s = Some (Ret s') \<and> mmt s s' \<and> \<not> live s' r \<and> holes s' = holes s \<and>
    live_sizes s' = (live_sizes s)(r := None) \<and> (out s' = out s \<or> (\<exists>ev. quiet ev \<and> out s' = out s @ [ev]))"
proof -
  have "mmt s (set_flag r HANGING s)" by (rule mmt_upd) auto
  moreover have "live_sizes (set_flag r HANGING s) = (live_sizes s)(r := None)" by (auto simp: live_sizes_def live_def fun_eq_iff)
  moreover have "\<not> live (set_flag r HANGING s) r" by (simp add: live_def)
  ultimately show ?thesis using cleanup_result [OF c r] by (fastforce simp: entombed_def live_def)
qed

lemma memory_back:
  assumes c: "calm e J" and r: "r \<in> set slots" "live s r" and j: "J (out s) (live_sizes s) (holes s)"
  shows "\<exists>h s'. free_mem (fst (xit_val e (out s @ [SysXit q r]))) (snd (xit_val e (out s @ [SysXit q r]))) (holes s) = Some (Ret h) \<and>
    entombed e r (upd_mproc r (mp_exitstatus_update (\<lambda>_. v)) ((emit (SysXit q r) s)\<lparr>holes := h\<rparr>)) = Some (Ret s') \<and>
    mmr J s s' \<and> \<not> live s' r"
proof -
  have "live_sizes s r \<noteq> None" using r by (simp add: live_sizes_def)
  then obtain h where h: "free_mem (fst (xit_val e (out s @ [SysXit q r]))) (snd (xit_val e (out s @ [SysXit q r]))) (holes s) = Some (Ret h)"
      "J (out s @ [SysXit q r]) ((live_sizes s)(r := None)) h"
    using c j unfolding calm_def by blast
  let ?s3 = "upd_mproc r (mp_exitstatus_update (\<lambda>_. v)) ((emit (SysXit q r) s)\<lparr>holes := h\<rparr>)"
  have m: "mmt s ?s3" by (rule mmr_trans [OF mmr_trans [OF mmt_emit mmt_holes] mmr_upd]) auto
  have "live_sizes ?s3 = live_sizes ((emit (SysXit q r) s)\<lparr>holes := h\<rparr>)" by (rule live_sizes_upd) auto
  then have im: "live_sizes ?s3 = live_sizes s" by simp
  have "pflag ?s3 r IN_USE" using r(2) by (simp add: live_def)
  from entombed_result [OF c r(1) this] obtain s' where s': "entombed e r ?s3 = Some (Ret s')" "mmt ?s3 s'" "\<not> live s' r"
      "holes s' = holes ?s3" "live_sizes s' = (live_sizes ?s3)(r := None)" "out s' = out ?s3 \<or> (\<exists>ev. quiet ev \<and> out s' = out ?s3 @ [ev])"
    by blast
  have "J (out ?s3) ((live_sizes s)(r := None)) h" using h(2) by simp
  then have "J (out s') (live_sizes s') (holes s')" using books_later [OF c _ s'(6)] s'(4,5) im by simp
  then have "mmr J s s'" unfolding mmr_mmt [of J] using mmr_trans [OF m s'(2)] by blast
  then show ?thesis using h(1) s'(1,3) by blast
qed

lemma mm_exit_with_runs:
  assumes c: "calm e J" and r: "r \<in> set slots" "live s r" and j: "J (out s) (live_sizes s) (holes s)"
    and cs: "\<And>s' g. mmr J s s' \<Longrightarrow> \<not> live s' r \<Longrightarrow> mr.runs2 J s' (cs g SIGHUP s')"
  shows "\<exists>s'. mm_exit_with cs e r st s = Some (Ret s') \<and> mmr J s s' \<and> \<not> live s' r"
proof -
  obtain x s1 where s1: "(if pflag s r ALARM_ON then set_alarm e r 0 s else Some (Ret (0, s))) = Some (Ret (x, s1))" "mmr J s s1"
      "live s1 r"
  proof (cases "pflag s r ALARM_ON")
    case True
    have "clock_ok e evs" for evs using c by (simp add: calm_def)
    then show ?thesis using that set_alarm_runs [OF c, of s r 0] True r by (auto simp: mr.runs2_def set_alarm_def Let_def live_def)
  qed (use that r in auto)
  define s2 where "s2 = tell_fs EXIT_CALL r 0 0 s1"
  define q where "q = mp_parent (mproc s1 r)"
  have m2: "mmr J s s2" unfolding s2_def by (rule mmr_trans [OF s1(2) tell_fs_mmr [OF c]])
  have l2: "live s2 r" using s1(3) by (simp add: s2_def tell_fs_def live_def)
  obtain b n where bn: "xit_val e (out s2 @ [SysXit q r]) = (b, n)" by fastforce
  obtain h s4 where h: "free_mem b n (holes s2) = Some (Ret h)"
    and s4: "entombed e r (upd_mproc r (mp_exitstatus_update (\<lambda>_. to_char st)) ((emit (SysXit q r) s2)\<lparr>holes := h\<rparr>)) = Some (Ret s4)"
      "mmr J s2 s4" "\<not> live s4 r"
    using memory_back [OF c r(1) l2 mmrD(13) [OF m2 j], of q "to_char st"] bn by auto
  have "mr.runs J s4 (each (disinherit e r) slots s4)" by (rule mr.runs_each) (rule disinherit_runs [OF c])
  then obtain s5 where s5: "each (disinherit e r) slots s4 = Some (Ret s5)" "mmr J s4 s5" by (auto simp: mr.runs_def)
  have m5: "mmr J s s5" by (rule mmr_trans [OF mmr_trans [OF m2 s4(2)] s5(2)])
  have l5: "\<not> live s5 r" using mmrD(9) [OF s5(2)] s4(3) by blast
  define g where "g = (if mp_pid (mproc s r) = mp_procgrp (mproc s (mp s)) then mp_procgrp (mproc s (mp s)) else 0)"
  obtain s6 where s6: "(if g \<noteq> 0 then and_then (cs (- g) SIGHUP s5) (\<lambda>(_, s6). Some (Ret s6)) else Some (Ret s5)) = Some (Ret s6)" "mmr J s5 s6"
    using cs [OF m5 l5, of "- g"] that by (cases "g = 0") (auto simp: mr.runs2_def)
  have bn': "xit_val e (out (emit (SysXit q r) s2)) = (b, n)" "holes (emit (SysXit q r) s2) = holes s2" using bn by simp_all
  have eq: "mm_exit_with cs e r st s = Some (Ret s6)"
    unfolding mm_exit_with_def Let_def g_def [symmetric] s1(1) and_then_simps prod.case s2_def [symmetric] q_def [symmetric] bn' h
      s4(1) [unfolded entombed_def] s5(1) s6(1) by (rule refl)
  show ?thesis
  proof (intro exI conjI)
    show "mm_exit_with cs e r st s = Some (Ret s6)" by (rule eq)
    show "mmr J s s6" by (rule mmr_trans [OF m5 s6(2)])
    show "\<not> live s6 r" using mmrD(9) [OF s6(2)] l5 by blast
  qed
qed

lemma terminate_runs:
  assumes c: "calm e J" and r: "live s r"
    and ex: "\<And>s'. mmr J s s' \<Longrightarrow> live s' r \<Longrightarrow> mr.runs J s' (ex r 0 s')"
  shows "mr.runs J s (terminate ex e r n s)"
proof -
  let ?s1 = "upd_mproc r (mp_sigstatus_update (\<lambda>_. to_char n)) s"
  let ?s2 = "if sigismember (core_sset ?s1) n then dump_core e r (tell_fs CHDIR_CALL r 0 0 ?s1) else ?s1"
  have m1: "mmr J s ?s1" by (rule mmr_upd) auto
  have "mmr J ?s1 ?s2" using mmr_trans [OF tell_fs_mmr [OF c] dump_core_mmr(1) [OF c]] by simp
  then have m2: "mmr J s ?s2" by (rule mmr_trans [OF m1])
  have "live (tell_fs CHDIR_CALL r 0 0 ?s1) r" "live ?s1 r" using r by (auto simp: live_def tell_fs_def)
  then have "live ?s2 r" by (simp add: dump_core_mmr(2) [OF c])
  from mr.runs_from [OF m2 ex [OF m2 this]] show ?thesis by (simp add: terminate_def Let_def)
qed

lemma catch_signal_runs:
  assumes c: "calm e J" and n: "n \<noteq> SIGKILL" and m: "\<not> sigismember (sa_mask act) SIGKILL"
  shows "mr.runs J s (catch_signal e r n w act sp s)"
proof -
  define m2 where "m2 = (if has (sa_flags act) SA_NODEFER then sigdelset n (mp_sigmask (mproc s r) OR sa_mask act)
     else sigaddset n (mp_sigmask (mproc s r) OR sa_mask act))"
  have or: "sigismember (a OR b) SIGKILL = (sigismember a SIGKILL \<or> sigismember b SIGKILL)" for a b
    by (simp add: sigismember_def has_flag bit_or_iff)
  have k: "kill_ok (mproc s r) \<Longrightarrow> \<not> sigismember m2 SIGKILL" using n m by (auto simp: m2_def or kill_ok_def)
  define s1 where "s1 = upd_mproc r (mp_sigmask_update (\<lambda>_. m2)) s"
  have "used s1 = used s" by (auto simp: s1_def used_def)
  then have "mmt s s1" using k by (auto simp: s1_def mmr_def live_def same_ids_def kill_ok_def)
  moreover have "live_sizes s1 = live_sizes s" unfolding s1_def by (rule live_sizes_upd) auto
  ultimately have 1: "mmr J s s1" unfolding mmr_mmt [of J] by (simp add: s1_def)
  define f :: "mproc \<Rightarrow> mproc" where "f = (\<lambda>x. x\<lparr>mp_catch := sigdelset n (mp_catch x),
       mp_sigact := (mp_sigact x)(n := (mp_sigact x n)\<lparr>sa_handler := SIG_DFL\<rparr>)\<rparr>)"
  have "mmr J s1 (upd_mproc r f s1)" by (rule mmr_upd) (auto simp: f_def same_ids_def kill_ok_def)
  then have 2: "mmr J s (if has (sa_flags act) SA_RESETHAND then upd_mproc r f s1 else s1)" using 1 mmr_trans by auto
  have 3: "mmr J t (emit ev t)" if "quiet ev" for t ev by (rule mmr_emit [OF c that])
  have 4: "mmr J t (upd_mproc r (mp_sigpending_update g) t)" for t g by (rule mmr_upd) auto
  show ?thesis
    unfolding catch_signal_def Let_def m2_def [symmetric] s1_def [symmetric] f_def [symmetric]
    by (rule mr.runs_from [OF mmr_trans [OF mmr_trans [OF 2] 4] unpause_runs [OF c]]) (simp add: 3)
qed

lemma sig_proc_with_runs:
  assumes c: "calm e J" and r: "live s r" and k: "\<And>p. kill_ok (mproc s p)"
    and ex: "\<And>s'. mmr J s s' \<Longrightarrow> live s' r \<Longrightarrow> mr.runs J s' (ex r 0 s')"
  shows "mr.runs J s (sig_proc_with ex e r n s)"
proof -
  let ?act = "mp_sigact (mproc s r) n"
  let ?m = "if pflag s r SIGSUSPENDED then mp_sigmask2 (mproc s r) else mp_sigmask (mproc s r)"
  let ?s1 = "emit (SysGetsp r) s"
  let ?sp = "getsp_val e (out ?s1)"
  let ?a = "adjust r (mem_len (seg_D (mproc ?s1 r))) (?sp - (if has (sa_flags ?act) SA_COMPAT then oldframe_bytes e else frame_bytes e)) ?s1"
  have ma: "mmr J s (snd ?a)" by (rule mmr_trans [OF mmr_emit [OF c] adjust_mmr(1) [OF c]]) simp
  have la: "live (snd ?a) r" using r adjust_mmr(2) [OF c] by (simp add: live_def)
  have tm: "mr.runs J s (terminate ex e r n s)" by (rule terminate_runs [OF c r]) (rule ex)
  have tma: "mr.runs J s (terminate ex e r n (snd ?a))"
  proof (rule mr.runs_from [OF ma terminate_runs [OF c la]])
    fix s' assume "mmr J (snd ?a) s'" "live s' r"
    then show "mr.runs J s' (ex r 0 s')" by (intro ex mmr_trans [OF ma])
  qed
  have catch: "mr.runs J s (catch_signal e r n ?m ?act ?sp (snd ?a))" if "sigismember (mp_catch (mproc s r)) n"
    by (rule mr.runs_from [OF ma catch_signal_runs [OF c]]) (use k [of r] that in \<open>auto simp: kill_ok_def\<close>)
  have pend: "mmr J s (upd_mproc r (mp_sigpending_update f) s)" for f by (rule mmr_upd) auto
  have stop: "mr.runs J s (and_then (unpause e r s) (stop_proc e r n))"
    by (rule mr.runs_bind [OF unpause_runs [OF c] stop_proc_runs [OF c]])
  show ?thesis
    using r tm tma catch pend stop
    by (auto simp: sig_proc_with_def live_def sys_getsp_def Let_def case_prod_beta mr.runs_Ret)
qed

lemma selected_live: "selected s i n r \<Longrightarrow> n \<noteq> 0 \<Longrightarrow> live s r"
  by (auto simp: selected_def live_def)

lemma check_sig_loop_runs:
  assumes "\<And>s' r. mmr J s s' \<Longrightarrow> r \<in> set rs \<Longrightarrow> live s' r \<Longrightarrow> mr.runs J s' (sp r n s')"
  shows "mr.runs2 J s (check_sig_loop sp i n rs c er s)"
  using assms
proof (induction rs arbitrary: s c er)
  case Nil
  then show ?case by (simp add: mr.runs2_Ret)
next
  case (Cons r rs)
  have rest: "mr.runs2 J s' (check_sig_loop sp i n rs c' er' s')" if "mmr J s s'" for s' c' er'
    by (rule Cons.IH) (use Cons.prems mmr_trans [OF that] in auto)
  have "mr.runs2 J s (and_then (sp r n s) (\<lambda>s1. if i > 0 then Some (Ret ((c + 1, er), s1)) else check_sig_loop sp i n rs (c + 1) er s1))"
    if "live s r"
    by (rule mr.runs_bind2) (use Cons.prems [of s r] that rest in \<open>auto intro: mr.runs2_Ret\<close>)
  then show ?case using rest [OF mmr_refl] selected_live [of s i n r] by auto
qed

lemma check_sig_with_runs:
  assumes "\<And>s' r. mmr J s s' \<Longrightarrow> r \<in> set slots \<Longrightarrow> live s' r \<Longrightarrow> mr.runs J s' (sp r n s')"
  shows "mr.runs2 J s (check_sig_with sp i n s)"
proof -
  have sub: "set [INIT_PROC_NR .. NR_PROCS - 1] \<subseteq> set slots" by (auto simp: slots_def INIT_PROC_NR_def)
  have "mr.runs2 J s (check_sig_loop sp i n [INIT_PROC_NR .. NR_PROCS - 1] 0 ESRCH s)"
    by (rule check_sig_loop_runs) (use assms sub in blast)
  then have "mr.runs2 J s (and_then (check_sig_loop sp i n [INIT_PROC_NR .. NR_PROCS - 1] 0 ESRCH s)
        (\<lambda>((count, error_code), s1).
          let s2 = (if \<not> pflag s1 (mp s1) IN_USE \<or> pflag s1 (mp s1) HANGING then s1\<lparr>dont_reply := True\<rparr> else s1)
          in Some (Ret (if count > 0 then OK else error_code, s2))))"
    by (rule mr.runs2_bind2) (auto simp: Let_def case_prod_beta intro!: mr.runs2_Ret mmr_dont_reply)
  then show ?thesis by (auto simp: check_sig_with_def intro: mr.runs2_Ret)
qed

lemma live_slots_less:
  assumes "mmr J s s'" "live s r" "\<not> live s' r" "r \<in> set slots"
  shows "card (live_slots s') < card (live_slots s)"
proof (rule psubset_card_mono)
  show "finite (live_slots s)" by (simp add: live_slots_def)
  show "live_slots s' \<subset> live_slots s" using assms mmrD(9) [OF assms(1)] by (auto simp: live_slots_def)
qed

lemma mm_exit_runs:
  assumes c: "calm e J"
  shows "r \<in> set slots \<Longrightarrow> live s r \<Longrightarrow> J (out s) (live_sizes s) (holes s) \<Longrightarrow> (\<And>p. kill_ok (mproc s p)) \<Longrightarrow> card (live_slots s) \<le> n \<Longrightarrow>
    \<exists>s'. mm_exit n e r st s = Some (Ret s') \<and> mmr J s s' \<and> \<not> live s' r"
proof (induction n arbitrary: r s st)
  case 0
  then have "live_slots s = {}" by (simp add: live_slots_def)
  then show ?case using 0 by (auto simp: live_slots_def)
next
  case (Suc n)
  show ?case unfolding mm_exit.simps
  proof (rule mm_exit_with_runs [OF c Suc.prems(1,2,3)])
    fix s' g assume s': "mmr J s s'" "\<not> live s' r"
    show "mr.runs2 J s' (check_sig_with (sig_proc_with (mm_exit n e) e) g SIGHUP s')"
    proof (rule check_sig_with_runs)
      fix t p assume t: "mmr J s' t" "p \<in> set slots" "live t p"
      have st: "mmr J s t" by (rule mmr_trans [OF s'(1) t(1)])
      show "mr.runs J t (sig_proc_with (mm_exit n e) e p SIGHUP t)"
      proof (rule sig_proc_with_runs [OF c t(3)])
        show "kill_ok (mproc t q)" for q by (rule mmrD(11) [OF st Suc.prems(4)])
        fix u assume u: "mmr J t u" "live u p"
        have su: "mmr J s u" by (rule mmr_trans [OF st u(1)])
        have "\<not> live u r" using mmrD(9) [OF u(1)] mmrD(9) [OF t(1)] s'(2) by blast
        then have "card (live_slots u) \<le> n" using live_slots_less [OF su Suc.prems(2) _ Suc.prems(1)] Suc.prems(5) by simp
        moreover have "J (out u) (live_sizes u) (holes u)" by (rule mmrD(13) [OF su Suc.prems(3)])
        moreover have "kill_ok (mproc u q)" for q by (rule mmrD(11) [OF su Suc.prems(4)])
        ultimately show "mr.runs J u (mm_exit n e p 0 u)"
          using Suc.IH [OF t(2) u(2)] by (fastforce simp: mr.runs_def)
      qed
    qed
  qed
qed

end
