(* ===== verification/Mm_Memory.thy ===== *)
theory Mm_Memory
  imports Mm_Exit
begin

text \<open>
  The memory of the processes. The memory manager does not remember which block a process has: at an
  exit the kernel says which block becomes free (\<^verbatim>\<open>rmshadow\<close> of \<^verbatim>\<open>src/src/kernel/stshadow.c\<close>). This
  theory follows the blocks through the calls of the memory manager, states what a kernel
  has to answer (\<open>kernel_ok\<close>), and shows that the hole list and the blocks of the live processes then
  always divide up the memory (\<open>ledger\<close>), so that what an exiting process leaves can be freed. This is a
  specification of the kernel's side, not a translation of \<^verbatim>\<open>stshadow.c\<close>: contents are not followed, and the
  kernel may exchange the blocks of two processes that shadow each other at any time without a word to the
  memory manager, so the books are right up to such exchanges.
\<close>

section \<open>The book-keeping of the kernel\<close>

text \<open>The block of each process, and the number of clicks a shadow of it takes.\<close>

record mems =
  blk :: "int \<Rightarrow> extent option"
  img :: "int \<Rightarrow> nat"

text \<open>
  \<^verbatim>\<open>mkshadow\<close>: the child runs first, in the place of the parent, and the parent becomes a shadow in the new block.
\<close>

definition mkshadow :: "int \<Rightarrow> int \<Rightarrow> nat \<Rightarrow> mems \<Rightarrow> mems" where
  "mkshadow w c b m = m\<lparr>blk := (blk m)(c := blk m w, w := Some (b, img m w)), img := (img m)(c := img m w)\<rparr>"

text \<open>
  \<^verbatim>\<open>rmshadow\<close> with the answer \<open>x\<close>: process \<open>r\<close> loses its block. When \<open>x\<close> is not its own but that of a shadow of
  \<open>r\<close>, the shadow moves into the block of \<open>r\<close>, and its own becomes free. The same holds when the kernel
  has exchanged the two blocks before.
\<close>

definition rmshadow :: "extent \<Rightarrow> int \<Rightarrow> (int \<Rightarrow> extent option) \<Rightarrow> int \<Rightarrow> extent option" where
  "rmshadow x r B = (if B r = None then B else (\<lambda>q. if q = r then None else if B q = Some x then B r else B q))"

definition mem_step :: "extent \<Rightarrow> event \<Rightarrow> mems \<Rightarrow> mems" where
  "mem_step x ev m =
     (case ev of
        SysFork w c pid b \<Rightarrow> mkshadow w c b m
      | SysXit q r \<Rightarrow> m\<lparr>blk := rmshadow x r (blk m)\<rparr>
      | SysFresh p b n k ob on \<Rightarrow> m\<lparr>blk := (rmshadow (ob, on) p (blk m))(p := Some (b, n)), img := (img m)(p := k)\<rparr>
      | _ \<Rightarrow> m)"

text \<open>The books after the calls \<open>evs\<close>, which follow the calls \<open>past\<close>.\<close>

fun account :: "env \<Rightarrow> mems \<Rightarrow> event list \<Rightarrow> event list \<Rightarrow> mems" where
  "account e m past [] = m"
| "account e m past (ev # evs) = account e (mem_step (xit_val e (past @ [ev])) ev m) (past @ [ev]) evs"

lemma account_snoc:
  "account e m past (evs @ [ev]) = mem_step (xit_val e (past @ evs @ [ev])) ev (account e m past evs)"
  by (induction evs arbitrary: m past) simp_all

text \<open>
  A kernel that works: messages get through, the clock answers, and when a process with a block ends
  the answer is the block of some process, its own or that of a shadow.
\<close>

definition kernel_ok :: "env \<Rightarrow> mems \<Rightarrow> bool" where
  "kernel_ok e m0 \<longleftrightarrow> (\<forall>evs. send_ok e evs \<and> clock_ok e evs) \<and>
     (\<forall>evs q r. blk (account e m0 [] evs) r \<noteq> None \<longrightarrow>
        (\<exists>p. blk (account e m0 [] evs) p = Some (xit_val e (evs @ [SysXit q r]))))"

section \<open>Blocks that divide up the memory\<close>

definition held :: "(int \<Rightarrow> extent option) \<Rightarrow> nat set" where
  "held B = {c. \<exists>p b n. B p = Some (b, n) \<and> b \<le> c \<and> c < b + n}"

definition parted :: "(int \<Rightarrow> extent option) \<Rightarrow> bool" where
  "parted B \<longleftrightarrow> (\<forall>p b n. B p = Some (b, n) \<longrightarrow> 0 < b \<and> 0 < n) \<and>
     (\<forall>p q b n b' n'. p \<noteq> q \<longrightarrow> B p = Some (b, n) \<longrightarrow> B q = Some (b', n') \<longrightarrow> b + n \<le> b' \<or> b' + n' \<le> b)"

text \<open>The ends of the banks of memory.\<close>

definition ends :: "nat set \<Rightarrow> nat set" where
  "ends ram = {c. 0 < c \<and> c - 1 \<in> ram \<and> c \<notin> ram}"

definition few_banks :: "nat set \<Rightarrow> bool" where
  "few_banks ram \<longleftrightarrow> finite (ends ram) \<and> card (ends ram) < 64"

text \<open>
  The live processes \<open>I\<close>, with the sizes of their images, are those that have a block; the blocks and the
  holes are the memory \<open>ram\<close>.
\<close>

definition ledger :: "env \<Rightarrow> mems \<Rightarrow> nat set \<Rightarrow> books" where
  "ledger e m0 ram evs I h \<longleftrightarrow>
     (let m = account e m0 [] evs in
      hole_inv h \<and> (\<forall>p. blk m p = None \<longleftrightarrow> I p = None) \<and> (\<forall>p n. I p = Some n \<longrightarrow> p \<in> set slots \<and> 0 < n \<and> img m p = n) \<and>
      parted (blk m) \<and> held (blk m) \<inter> free_clicks h = {} \<and> held (blk m) \<union> free_clicks h = ram)"

lemma ledgerD:
  assumes "ledger e m0 ram evs I h"
  defines "m \<equiv> account e m0 [] evs"
  shows "hole_inv h" "blk m p = None \<longleftrightarrow> I p = None" "I p = Some n \<Longrightarrow> p \<in> set slots" "I p = Some n \<Longrightarrow> 0 < n" "I p = Some n \<Longrightarrow> img m p = n"
    "parted (blk m)" "held (blk m) \<inter> free_clicks h = {}" "held (blk m) \<union> free_clicks h = ram"
  using assms(1) unfolding ledger_def m_def [symmetric] Let_def by blast+

lemma heldI: "B p = Some (b, n) \<Longrightarrow> b \<le> c \<Longrightarrow> c < b + n \<Longrightarrow> c \<in> held B"
  unfolding held_def by blast

lemma parted_pos: "parted B \<Longrightarrow> B p = Some (b, n) \<Longrightarrow> 0 < b \<and> 0 < n"
  unfolding parted_def by blast

lemma parted_apart: "parted B \<Longrightarrow> p \<noteq> q \<Longrightarrow> B p = Some (b, n) \<Longrightarrow> B q = Some (b', n') \<Longrightarrow> b + n \<le> b' \<or> b' + n' \<le> b"
  unfolding parted_def by blast

lemma parted_inj: "parted B \<Longrightarrow> B p = Some x \<Longrightarrow> B q = Some x \<Longrightarrow> p = q"
  using parted_apart [of B p q "fst x" "snd x" "fst x" "snd x"] parted_pos [of B p "fst x" "snd x"] by (cases x) auto

lemma rmshadow_blocks:
  assumes B: "parted B" and r: "B r \<noteq> None" and q: "B q = Some (b, n)"
  shows "parted (rmshadow (b, n) r B)" "held (rmshadow (b, n) r B) = held B - {b ..< b + n}" "rmshadow (b, n) r B p = None \<longleftrightarrow> B p = None \<or> p = r"
proof -
  let ?C = "rmshadow (b, n) r B"
  have C: "?C p = (if p = r then None else if p = q then B r else B p)" for p
  proof (cases "B p = Some (b, n)")
    case True
    then have "p = q" using parted_inj [OF B _ q] by blast
    then show ?thesis using r True by (auto simp: rmshadow_def)
  next
    case False
    then have "p \<noteq> q" using q by blast
    then show ?thesis using r False by (simp add: rmshadow_def)
  qed
  show "?C p = None \<longleftrightarrow> B p = None \<or> p = r" using r q by (auto simp: C)
  have src: "\<exists>p'. p' \<noteq> q \<and> B p' = Some x \<and> p' = (if p = q then r else p)" if "?C p = Some x" for p x
    using that by (auto simp: C split: if_splits)
  show "parted ?C" unfolding parted_def
  proof (intro conjI allI impI)
    fix p c k assume "?C p = Some (c, k)"
    then obtain p' where "B p' = Some (c, k)" using src by blast
    then show "0 < c" "0 < k" using parted_pos [OF B] by blast+
  next
    fix p p2 c k c2 k2 assume p: "p \<noteq> p2" "?C p = Some (c, k)" "?C p2 = Some (c2, k2)"
    then have "p \<noteq> r" "p2 \<noteq> r" by (auto simp: C)
    then show "c + k \<le> c2 \<or> c2 + k2 \<le> c"
      using src [OF p(2)] src [OF p(3)] p(1) parted_apart [OF B, of "if p = q then r else p" "if p2 = q then r else p2" c k c2 k2] by auto
  qed
  show "held ?C = held B - {b ..< b + n}"
  proof (rule set_eqI)
    fix c
    show "c \<in> held ?C \<longleftrightarrow> c \<in> held B - {b ..< b + n}"
    proof
      assume "c \<in> held ?C"
      then obtain p b' n' where p: "?C p = Some (b', n')" "b' \<le> c" "c < b' + n'" by (auto simp: held_def)
      then obtain p' where p': "p' \<noteq> q" "B p' = Some (b', n')" using src by blast
      then show "c \<in> held B - {b ..< b + n}" using p parted_apart [OF B p'(1) p'(2) q] by (auto simp: held_def)
    next
      assume c: "c \<in> held B - {b ..< b + n}"
      then obtain p b' n' where p: "B p = Some (b', n')" "b' \<le> c" "c < b' + n'" by (auto simp: held_def)
      then have "p \<noteq> q" using q c by auto
      then have "?C (if p = r then q else p) = Some (b', n')" using p(1) C by auto
      then show "c \<in> held ?C" using p by (auto simp: held_def)
    qed
  qed
qed

lemma mkshadow_blocks:
  assumes B: "parted (blk m)" and w: "blk m w \<noteq> None" and c: "blk m c = None" and b: "0 < b" "0 < img m w"
    and d: "held (blk m) \<inter> {b ..< b + img m w} = {}"
  shows "parted (blk (mkshadow w c b m))" "held (blk (mkshadow w c b m)) = held (blk m) \<union> {b ..< b + img m w}"
    "blk (mkshadow w c b m) p = None \<longleftrightarrow> blk m p = None \<and> p \<noteq> c"
proof -
  let ?B = "blk m" and ?C = "blk (mkshadow w c b m)" and ?n = "img m w"
  have wc: "w \<noteq> c" using w c by auto
  have C: "?C p = (if p = w then Some (b, ?n) else if p = c then ?B w else ?B p)" for p by (simp add: mkshadow_def)
  show "?C p = None \<longleftrightarrow> ?B p = None \<and> p \<noteq> c" using w c by (auto simp: C)
  have far: "b + ?n \<le> b' \<or> b' + n' \<le> b" if "?B p = Some (b', n')" for p b' n'
  proof (rule ccontr)
    assume "\<not> ?thesis"
    then have "max b b' \<in> {b ..< b + ?n}" "b' \<le> max b b'" "max b b' < b' + n'"
      using b parted_pos [OF B that] by auto
    then show False using d heldI [of ?B, OF that] by blast
  qed
  have src: "p \<noteq> w \<Longrightarrow> ?C p = Some x \<Longrightarrow> ?B (if p = c then w else p) = Some x" for p x by (auto simp: C)
  show "parted ?C" unfolding parted_def
  proof (intro conjI allI impI)
    fix p b' n' assume p: "?C p = Some (b', n')"
    show "0 < b'" "0 < n'" using b p src [of p "(b', n')"] parted_pos [OF B, of "if p = c then w else p" b' n'] by (cases "p = w"; auto simp: C)+
  next
    fix p q b1 n1 b2 n2 assume pq: "p \<noteq> q" "?C p = Some (b1, n1)" "?C q = Some (b2, n2)"
    consider "p = w" | "q = w" | "p \<noteq> w" "q \<noteq> w" by blast
    then show "b1 + n1 \<le> b2 \<or> b2 + n2 \<le> b1"
    proof cases
      case 1
      then show ?thesis using pq far src [of q "(b2, n2)"] by (auto simp: C [of w])
    next
      case 2
      then show ?thesis using pq far [of "if p = c then w else p"] src [of p "(b1, n1)"] by (auto simp: C [of w])
    next
      case 3
      then show ?thesis
        using pq(1) src [OF 3(1) pq(2)] src [OF 3(2) pq(3)] parted_apart [OF B, of "if p = c then w else p" "if q = c then w else q" b1 n1 b2 n2] c
        by (auto split: if_splits)
    qed
  qed
  show "held ?C = held ?B \<union> {b ..< b + ?n}"
  proof (rule set_eqI)
    fix x
    show "x \<in> held ?C \<longleftrightarrow> x \<in> held ?B \<union> {b ..< b + ?n}"
    proof
      assume "x \<in> held ?C"
      then obtain p b' n' where p: "?C p = Some (b', n')" "b' \<le> x" "x < b' + n'" by (auto simp: held_def)
      then show "x \<in> held ?B \<union> {b ..< b + ?n}" using src [of p "(b', n')"] by (cases "p = w") (auto simp: C held_def)
    next
      assume "x \<in> held ?B \<union> {b ..< b + ?n}"
      then consider p b' n' where "?B p = Some (b', n')" "b' \<le> x" "x < b' + n'" | "x \<in> {b ..< b + ?n}" by (auto simp: held_def)
      then show "x \<in> held ?C"
      proof cases
        case 1
        then have "?C (if p = w then c else p) = Some (b', n')" using c wc by (auto simp: C)
        then show ?thesis using 1 by (auto simp: held_def)
      next
        case 2
        then have "?C w = Some (b, ?n)" "b \<le> x" "x < b + ?n" by (auto simp: C)
        then show ?thesis unfolding held_def by blast
      qed
    qed
  qed
qed


section \<open>Few holes\<close>

lemma canon_distinct: "canon es \<Longrightarrow> distinct (map (\<lambda>(b, l). b + l) es)"
  by (induction es) (auto dest: canon_below)

lemma canon_apart: "canon es \<Longrightarrow> (b, l) \<in> set es \<Longrightarrow> b + l \<notin> clicks_of es"
proof (induction es)
  case (Cons e es)
  obtain b1 l1 where e: "e = (b1, l1)" by fastforce
  have es: "canon es" using Cons.prems e by simp
  show ?case
  proof (cases "(b, l) = e")
    case True
    then show ?thesis using canon_clicks [of b l es "b + l"] Cons.prems(1) by auto
  next
    case False
    then have m: "(b, l) \<in> set es" using Cons.prems by simp
    then have "b1 + l1 < b" using canon_below [of b1 l1 es b l] Cons.prems(1) e by blast
    then show ?thesis using Cons.IH [OF es m] e by simp
  qed
qed simp

text \<open>Where a hole ends, a block begins or the memory ends.\<close>

lemma hole_end:
  assumes es: "canon es" "(b, l) \<in> set es" and B: "parted B" "held B \<inter> clicks_of es = {}"
  shows "b + l \<in> ends (held B \<union> clicks_of es) \<union> fst ` ran B"
proof -
  have pos: "0 < b \<and> 0 < l" by (rule canon_pos [OF es])
  have out: "b + l \<notin> clicks_of es" by (rule canon_apart [OF es])
  have last: "b + l - 1 \<in> clicks_of es" using es(2) pos by (auto simp: clicks_of_def intro!: bexI [of _ "(b, l)"])
  show ?thesis
  proof (cases "b + l \<in> held B")
    case False
    then show ?thesis using out last pos by (auto simp: ends_def)
  next
    case True
    then obtain p c n where p: "B p = Some (c, n)" "c \<le> b + l" "b + l < c + n" by (auto simp: held_def)
    have "\<not> c \<le> b + l - 1"
    proof
      assume "c \<le> b + l - 1"
      then have "b + l - 1 \<in> held B" using p heldI [of B, OF p(1)] by simp
      then show False using last B(2) by blast
    qed
    then have "c = b + l" using p(2) pos by linarith
    then show ?thesis using p(1) by (force simp: ran_def)
  qed
qed

lemma few_holes:
  assumes h: "holes_of h es" and B: "parted B" "held B \<inter> free_clicks h = {}" and ram: "held B \<union> free_clicks h = ram" "few_banks ram"
    and dom: "dom B \<subseteq> set slots"
  shows "slots_left h"
proof -
  have c: "canon es" "free_clicks h = clicks_of es" using h free_clicks_eq [OF h] by (auto simp: holes_of_def)
  have ranB: "ran B = (\<lambda>p. the (B p)) ` dom B" by (force simp: ran_def dom_def image_iff)
  have fin: "finite (dom B)" by (rule finite_subset [OF dom]) simp
  have "card (fst ` ran B) \<le> card (ran B)" "card (ran B) \<le> card (dom B)" unfolding ranB by (simp_all add: card_image_le fin)
  moreover have "card (dom B) \<le> 64" using card_mono [OF _ dom] by (simp add: slots_def NR_PROCS_def)
  moreover have "length es = card ((\<lambda>(b, l). b + l) ` set es)"
    using distinct_card [OF canon_distinct [OF c(1)]] by simp
  moreover have "card ((\<lambda>(b, l). b + l) ` set es) \<le> card (ends ram \<union> fst ` ran B)"
  proof (rule card_mono)
    show "finite (ends ram \<union> fst ` ran B)" using ram(2) fin unfolding ranB by (simp add: few_banks_def)
    show "(\<lambda>(b, l). b + l) ` set es \<subseteq> ends ram \<union> fst ` ran B"
      using hole_end [OF c(1) _ B(1) B(2) [unfolded c(2)]] ram(1) unfolding c(2) by auto
  qed
  moreover have "card (ends ram \<union> fst ` ran B) \<le> card (ends ram) + card (fst ` ran B)" by (rule card_Un_le)
  moreover have "card (ends ram) < 64" using ram(2) by (simp add: few_banks_def)
  ultimately have "length es < NR_HOLES" unfolding NR_HOLES_def by linarith
  then show ?thesis using slots_left_iff [OF h] by simp
qed

section \<open>What the memory manager relies on\<close>

lemma ledger_quiet: "quiet ev \<Longrightarrow> ledger e m0 ram evs I h \<Longrightarrow> ledger e m0 ram (evs @ [ev]) I h"
  by (cases ev) (simp_all add: ledger_def account_snoc mem_step_def quiet_def)

lemma ledger_dom: "ledger e m0 ram evs I h \<Longrightarrow> dom (blk (account e m0 [] evs)) \<subseteq> set slots"
proof
  fix p assume l: "ledger e m0 ram evs I h" and "p \<in> dom (blk (account e m0 [] evs))"
  then obtain n where "I p = Some n" using ledgerD(2) [OF l, of p] by auto
  then show "p \<in> set slots" by (rule ledgerD(3) [OF l])
qed

lemma ledger_exit:
  assumes k: "kernel_ok e m0" and ram: "few_banks ram" and l: "ledger e m0 ram evs I h" and r: "I r \<noteq> None"
    and x_def: "x = xit_val e (evs @ [SysXit q r])"
  shows "\<exists>h'. free_mem (fst x) (snd x) h = Some (Ret h') \<and> ledger e m0 ram (evs @ [SysXit q r]) (I(r := None)) h'"
proof -
  define m where "m = account e m0 [] evs"
  note L = ledgerD [OF l, folded m_def]
  have br: "blk m r \<noteq> None" using r L(2) by simp
  then obtain p where p: "blk m p = Some x" using k unfolding kernel_ok_def m_def x_def by blast
  obtain b n where x: "x = (b, n)" by fastforce
  have p': "blk m p = Some (b, n)" using p x by simp
  have pos: "0 < b" "0 < n" using parted_pos [OF L(6) p'] by simp_all
  have sub: "{b ..< b + n} \<subseteq> held (blk m)" using heldI [of "blk m", OF p'] by auto
  obtain es where es: "holes_of h es" using L(1) by (auto simp: hole_inv_def)
  have left: "slots_left h" by (rule few_holes [OF es L(6,7,8) ram]) (use ledger_dom [OF l] in \<open>simp add: m_def\<close>)
  have dis: "{b ..< b + n} \<inter> free_clicks h = {}" using sub L(7) by blast
  obtain h' where h': "free_mem b n h = Some (Ret h')" "hole_inv h'" "free_clicks h' = free_clicks h \<union> {b ..< b + n}"
    using holes.free_avail [OF L(1) left _ pos(1) dis] pos(2) by blast
  note R = rmshadow_blocks [OF L(6) br p']
  have acc: "account e m0 [] (evs @ [SysXit q r]) = m\<lparr>blk := rmshadow (b, n) r (blk m)\<rparr>"
    unfolding account_snoc m_def [symmetric] by (simp add: mem_step_def x_def [symmetric] x)
  have "ledger e m0 ram (evs @ [SysXit q r]) (I(r := None)) h'"
    unfolding ledger_def acc Let_def
  proof (intro conjI allI impI)
    show "hole_inv h'" by (rule h'(2))
    show "parted (blk (m\<lparr>blk := rmshadow (b, n) r (blk m)\<rparr>))" using R(1) by simp
    show "held (blk (m\<lparr>blk := rmshadow (b, n) r (blk m)\<rparr>)) \<inter> free_clicks h' = {}" using R(2) h'(3) L(7) by auto
    show "held (blk (m\<lparr>blk := rmshadow (b, n) r (blk m)\<rparr>)) \<union> free_clicks h' = ram" using R(2) h'(3) L(8) sub by auto
    fix p2
    show "blk (m\<lparr>blk := rmshadow (b, n) r (blk m)\<rparr>) p2 = None \<longleftrightarrow> (I(r := None)) p2 = None" using R(3) [of p2] L(2) [of p2] by simp
    fix k assume "(I(r := None)) p2 = Some k"
    then have "I p2 = Some k" by (auto split: if_splits)
    then show "p2 \<in> set slots" "0 < k" "img (m\<lparr>blk := rmshadow (b, n) r (blk m)\<rparr>) p2 = k" using L(3-5) [of p2 k] by simp_all
  qed
  then show ?thesis using h'(1) x by auto
qed

lemma ledger_calm: "kernel_ok e m0 \<Longrightarrow> few_banks ram \<Longrightarrow> calm e (ledger e m0 ram)"
  unfolding calm_def using ledger_quiet ledger_exit [OF _ _ _ _ refl] by (auto simp: kernel_ok_def)

text \<open>The allocator answers every request of a fork, and the books stay right with what it hands out.\<close>

definition lends :: "books \<Rightarrow> bool" where
  "lends J \<longleftrightarrow> (\<forall>evs I h w n. J evs I h \<longrightarrow> I w = Some n \<longrightarrow>
     (\<exists>b h'. alloc_mem n h = Some (b, h') \<and> (b = NO_MEM \<longrightarrow> J evs I h') \<and>
        (b \<noteq> NO_MEM \<longrightarrow> (\<forall>c pid. c \<in> set slots \<longrightarrow> I c = None \<longrightarrow> J (evs @ [SysFork w c pid b]) (I(c := Some n)) h'))))"

lemma ledger_fork:
  assumes l: "ledger e m0 ram evs I h" and w: "I w = Some n" and c: "c \<in> set slots" "I c = None"
    and al: "alloc_mem n h = Some (b, h')" "b \<noteq> NO_MEM"
  shows "ledger e m0 ram (evs @ [SysFork w c pid b]) (I(c := Some n)) h'"
proof -
  define m where "m = account e m0 [] evs"
  note L = ledgerD [OF l, folded m_def]
  have n: "img m w = n" "0 < n" using L(4,5) [OF w] by simp_all
  have a: "{b ..< b + n} \<subseteq> free_clicks h" "free_clicks h' = free_clicks h - {b ..< b + n}" "hole_inv h'"
    using holes.alloc_avail [OF L(1) al] holes.alloc_inv [OF L(1) al(1)] by blast+
  have "blk m w \<noteq> None" "blk m c = None" "0 < b" using L(2) w c(2) al(2) by (auto simp: NO_MEM_def)
  moreover have "held (blk m) \<inter> {b ..< b + img m w} = {}" using a(1) L(7) n by blast
  ultimately have M: "parted (blk (mkshadow w c b m))" "held (blk (mkshadow w c b m)) = held (blk m) \<union> {b ..< b + n}"
      "blk (mkshadow w c b m) p = None \<longleftrightarrow> blk m p = None \<and> p \<noteq> c" for p
    using mkshadow_blocks [OF L(6), of w c b] n by auto
  have acc: "account e m0 [] (evs @ [SysFork w c pid b]) = mkshadow w c b m"
    unfolding account_snoc m_def [symmetric] by (simp add: mem_step_def)
  show ?thesis unfolding ledger_def acc Let_def
  proof (intro conjI allI impI)
    show "hole_inv h'" "parted (blk (mkshadow w c b m))" using a(3) M(1) by simp_all
    show "held (blk (mkshadow w c b m)) \<inter> free_clicks h' = {}" using M(2) a(2) L(7) by auto
    show "held (blk (mkshadow w c b m)) \<union> free_clicks h' = ram" using M(2) a(1,2) L(8) by auto
    fix p
    show "blk (mkshadow w c b m) p = None \<longleftrightarrow> (I(c := Some n)) p = None" using M(3) [of p] L(2) [of p] by simp
    fix k assume "(I(c := Some n)) p = Some k"
    then show "p \<in> set slots" "0 < k" "img (mkshadow w c b m) p = k"
      using L(3-5) [of p k] c(1) n by (auto simp: mkshadow_def split: if_splits)
  qed
qed

lemma ledger_lends: "lends (ledger e m0 ram)"
  unfolding lends_def
proof (intro allI impI)
  fix evs I h w n assume l: "ledger e m0 ram evs I h" and w: "I w = Some n"
  obtain b h' where al: "alloc_mem n h = Some (b, h')" using holes.alloc_returns [OF ledgerD(1) [OF l]] by blast
  have "ledger e m0 ram evs I h'" if "b = NO_MEM"
    using holes.alloc_fail [OF ledgerD(1) [OF l] al [unfolded that]] holes.alloc_inv [OF ledgerD(1) [OF l] al] l
    unfolding ledger_def Let_def by simp
  then show "\<exists>b h'. alloc_mem n h = Some (b, h') \<and> (b = NO_MEM \<longrightarrow> ledger e m0 ram evs I h') \<and>
      (b \<noteq> NO_MEM \<longrightarrow> (\<forall>c pid. c \<in> set slots \<longrightarrow> I c = None \<longrightarrow> ledger e m0 ram (evs @ [SysFork w c pid b]) (I(c := Some n)) h'))"
    using al ledger_fork [OF l w _ _ al] by blast
qed


section \<open>A kernel that works\<close>

text \<open>
  The memory of the sample state, and a kernel that keeps books and gives back the block of the process that ends.
\<close>

definition sample_mems :: mems where
  "sample_mems = \<lparr>blk = (\<lambda>p. if 0 \<le> p \<and> p \<le> 5 then Some (1000 + 210 * nat p, 210) else None), img = (\<lambda>_. 210)\<rparr>"

fun leaver :: "event \<Rightarrow> int" where
  "leaver (SysXit q r) = r"
| "leaver _ = 0"

definition own_block :: "mems \<Rightarrow> event \<Rightarrow> extent" where
  "own_block m ev = (case blk m (leaver ev) of Some x \<Rightarrow> x | None \<Rightarrow> (0, 0))"

definition books_of :: "event list \<Rightarrow> mems" where
  "books_of evs = fold (\<lambda>ev m. mem_step (own_block m ev) ev m) evs sample_mems"

definition sample_kernel :: env where
  "sample_kernel = sample_env\<lparr>xit_val := (\<lambda>evs. own_block (books_of (butlast evs)) (last evs))\<rparr>"

lemma sample_account: "account sample_kernel sample_mems [] evs = books_of evs"
proof (induction evs rule: rev_induct)
  case (snoc ev evs)
  then show ?case by (simp add: account_snoc sample_kernel_def books_of_def)
qed (simp add: books_of_def)

lemma sample_kernel_ok: "kernel_ok sample_kernel sample_mems"
  unfolding kernel_ok_def sample_account
  by (auto simp: sample_kernel_def sample_env_def own_block_def split: option.split)

lemma sample_banks: "few_banks {1000 ..< 4000}"
proof -
  have "ends {1000 ..< 4000} = {4000}" by (auto simp: ends_def)
  then show ?thesis by (simp add: few_banks_def)
qed

lemma sample_holes_of: "holes_of sample_holes [(2260, 1740)]"
proof -
  have h: "holes_of (link_slots no_holes) []" by (rule link_slots_holes)
  have "slots_left (link_slots no_holes)" using slots_left_iff [OF h] by (simp add: NR_HOLES_def)
  from free_mem_holes [OF h this, of 1740 2260] show ?thesis by (auto simp: sample_holes_def)
qed

lemma sample_live_sizes: "live_sizes sample_mm p = (if 0 \<le> p \<and> p \<le> 5 then Some 210 else None)"
  by (auto simp: live_sizes_def live_def slots_def NR_PROCS_def sample_mm_def sample_table_def blank_mproc_def flag_simps clicks_def)

lemma sample_held: "held (blk sample_mems) = {1000 ..< 2260}"
proof (rule set_eqI)
  fix c
  have "c \<in> held (blk sample_mems)" if "1000 \<le> c" "c < 2260"
  proof (rule heldI)
    let ?p = "int ((c - 1000) div 210)"
    show "blk sample_mems ?p = Some (1000 + 210 * ((c - 1000) div 210), 210)" using that by (simp add: sample_mems_def)
    show "1000 + 210 * ((c - 1000) div 210) \<le> c" "c < 1000 + 210 * ((c - 1000) div 210) + 210" using that by linarith+
  qed
  then show "c \<in> held (blk sample_mems) \<longleftrightarrow> c \<in> {1000 ..< 2260}" by (auto simp: held_def sample_mems_def split: if_splits)
qed

lemma sample_ledger: "ledger sample_kernel sample_mems {1000 ..< 4000} [] (live_sizes sample_mm) sample_holes"
  unfolding ledger_def Let_def account.simps
proof (intro conjI allI impI)
  have f: "free_clicks sample_holes = {2260 ..< 4000}" using free_clicks_eq [OF sample_holes_of] by simp
  show "hole_inv sample_holes" using sample_holes_of by (auto simp: hole_inv_def)
  show "held (blk sample_mems) \<inter> free_clicks sample_holes = {}" "held (blk sample_mems) \<union> free_clicks sample_holes = {1000 ..< 4000}"
    unfolding f sample_held by auto
  show "parted (blk sample_mems)"
    unfolding parted_def by (auto simp: sample_mems_def split: if_splits)
  fix p
  show "blk sample_mems p = None \<longleftrightarrow> live_sizes sample_mm p = None" by (simp add: sample_live_sizes sample_mems_def)
  fix n assume "live_sizes sample_mm p = Some n"
  then show "p \<in> set slots" "0 < n" "img sample_mems p = n" by (auto simp: sample_live_sizes sample_mems_def slots_def NR_PROCS_def split: if_splits)
qed

end
