(* ===== verification/Mm_Calls.thy ===== *)
theory Mm_Calls
  imports Mm_Memory
begin

unbundle bit_operations_syntax

text \<open>
  The system calls of the memory manager as a whole: every message is answered without a panic
  or an endless loop, and the process table stays consistent. The theory collects what each call
  does in the relation of \<open>Mm_Exit\<close>, treats \<^verbatim>\<open>fork\<close>, which creates a process, by itself, and
  states the properties of the calls.
\<close>

section \<open>Signals and exits with enough fuel\<close>

text \<open>
  The table is consistent: the count of processes is right, SIGKILL always gets through, the
  last pid given out is in range.
\<close>

definition mm_inv :: "books \<Rightarrow> mm \<Rightarrow> bool" where
  "mm_inv J s \<longleftrightarrow> procs_in_use s = int (card (used s)) \<and> (\<forall>p. kill_ok (mproc s p)) \<and> J (out s) (live_sizes s) (holes s) \<and>
     1 \<le> next_pid s \<and> next_pid s \<le> 30000"

lemma mm_inv_mmr: "mm_inv J s \<Longrightarrow> mmr J s s' \<Longrightarrow> mm_inv J s'"
  using mmrD(5,10,11,13) [of J s s'] by (auto simp: mm_inv_def)

lemma card_live_slots: "card (live_slots s) \<le> EXIT_FUEL"
proof -
  have "card (live_slots s) \<le> card (set slots)" by (rule card_mono) (auto simp: live_slots_def)
  also have "\<dots> = nat NR_PROCS" by (simp add: slots_def)
  finally show ?thesis by (simp add: EXIT_FUEL_def)
qed

lemma mm_exit_full:
  assumes "calm e J" "mm_inv J s" "r \<in> set slots" "live s r"
  shows "\<exists>s'. mm_exit EXIT_FUEL e r st s = Some (Ret s') \<and> mmr J s s' \<and> \<not> live s' r"
  by (rule mm_exit_runs [OF assms(1,3,4) _ _ card_live_slots]) (use assms(2) in \<open>auto simp: mm_inv_def\<close>)

lemma sig_proc_runs:
  assumes c: "calm e J" and i: "mm_inv J s" and r: "r \<in> set slots" "live s r"
  shows "mr.runs J s (sig_proc e r n s)"
  unfolding sig_proc_def
proof (rule sig_proc_with_runs [OF c r(2)])
  show "kill_ok (mproc s p)" for p using i by (simp add: mm_inv_def)
  fix s' assume "mmr J s s'" "live s' r"
  then show "mr.runs J s' (mm_exit EXIT_FUEL e r 0 s')"
    using mm_exit_full [OF c mm_inv_mmr [OF i] r(1)] by (fastforce simp: mr.runs_def)
qed

lemma check_sig_runs:
  assumes c: "calm e J" and i: "mm_inv J s"
  shows "mr.runs2 J s (check_sig e g n s)"
  unfolding check_sig_def
  by (rule check_sig_with_runs) (rule sig_proc_runs [OF c mm_inv_mmr [OF i]])

lemma check_pending_runs:
  assumes c: "calm e J" and i: "mm_inv J s" and r: "mp s \<in> set slots" "live s (mp s)"
  shows "mr.runs J s (check_pending e s)"
proof -
  have m: "mmr J s (upd_mproc (mp s) (mp_sigpending_update f) s)" for f by (rule mmr_upd) auto
  have "mr.runs J s (sig_proc e (mp s) n (upd_mproc (mp s) (mp_sigpending_update f) s))" for f n
    by (rule mr.runs_from [OF m sig_proc_runs [OF c mm_inv_mmr [OF i m] r(1)]]) (use r(2) in \<open>simp add: live_def\<close>)
  then show ?thesis by (auto simp: check_pending_def mr.runs_Ret split: option.split)
qed

section \<open>The calls that obey the relation\<close>

lemma mmr_out_fields:
  "mmr J s (s\<lparr>ret_mask := a\<rparr>)" "mmr J s (s\<lparr>res_ptr := b\<rparr>)" "mmr J s (s\<lparr>out_l2 := c\<rparr>)" "mmr J s (s\<lparr>result2 := d\<rparr>)"
  by (simp_all add: mmr_def live_def used_def same_ids_def)

lemma do_mm_exit_runs:
  assumes "calm e J" "mm_inv J s" "mp s \<in> set slots" "live s (mp s)"
  shows "mr.runs2 J s (do_mm_exit e s)"
proof -
  obtain s' where "mm_exit EXIT_FUEL e (mp s) (in_i1 (mm_in s)) s = Some (Ret s')" "mmr J s s'"
    using mm_exit_full [OF assms] by blast
  then show ?thesis using mmr_trans mmr_dont_reply by (auto simp: do_mm_exit_def intro!: mr.runs2_Ret)
qed

lemma waitpid_loop_runs:
  assumes c: "calm e J" and "set rs \<subseteq> set slots"
  shows "mr.runs2 J s (waitpid_loop e pa rs n s)"
  using assms(2)
proof (induction rs arbitrary: n)
  case Nil
  then show ?case by (simp add: mr.runs2_Ret)
next
  case (Cons r rs)
  have cl: "mr.runs2 J s (and_then (cleanup e r s) (\<lambda>s1. Some (Ret (None :: int option, s1\<lparr>dont_reply := True\<rparr>))))" if "pflag s r IN_USE" "pflag s r HANGING"
    by (rule mr.runs_bind2 [OF cleanup_runs [OF c]]) (use that Cons.prems in \<open>auto intro: mr.runs2_Ret mmr_dont_reply\<close>)
  have m: "mmr J t (upd_mproc r (mp_sigstatus_update (\<lambda>_. 0)) (t\<lparr>dont_reply := True\<rparr>))" for t
    by (rule mmr_trans [OF mmr_dont_reply mmr_upd]) auto
  have rp: "mr.runs2 J s (and_then (reply e a b d 0 s)
      (\<lambda>s1. Some (Ret (None :: int option, upd_mproc r (mp_sigstatus_update (\<lambda>_. 0)) (s1\<lparr>dont_reply := True\<rparr>)))))" for a b d
    by (rule mr.runs_bind2 [OF reply_runs [OF c]]) (rule mr.runs2_Ret [OF m])
  show ?case using Cons cl rp by simp
qed

lemma do_waitpid_runs:
  assumes c: "calm e J" shows "mr.runs2 J s (do_waitpid e s)"
  unfolding do_waitpid_def Let_def
proof (rule mr.runs2_bind2 [OF waitpid_loop_runs [OF c]])
  fix x s1
  have "mmr J s1 ((upd_mproc (mp s1) (\<lambda>r. r\<lparr>mp_flags := mp_flags r OR WAITING, mp_wpid := w\<rparr>) s1)\<lparr>dont_reply := True\<rparr>)" for w
    by (rule mmr_trans [OF mmr_upd mmr_dont_reply]) (auto simp: same_ids_def)
  then show "mr.runs2 J s1 (case (x, s1) of (children, s1) \<Rightarrow> case children of None \<Rightarrow> Some (Ret (OK, s1))
    | Some n \<Rightarrow> if n > 0 then if b AND WNOHANG \<noteq> 0 then Some (Ret (0, s1))
        else Some (Ret (OK, (upd_mproc (mp s1) (\<lambda>r. r\<lparr>mp_flags := mp_flags r OR WAITING, mp_wpid := w\<rparr>) s1)\<lparr>dont_reply := True\<rparr>))
      else Some (Ret (ECHILD, s1)))" for b w
    by (auto intro: mr.runs2_Ret split: option.split)
qed simp

lemma do_signal_mmr: "mmr J s (snd (do_signal s))"
proof -
  define sig func where "sig = in_i1 (mm_in s)" and "func = in_f1 (mm_in s)"
  have k: "\<not> sigismember (0 :: 32 word) SIGKILL" by simp
  have m: "mmr J t (upd_mproc (mp s) f t)" if "\<And>r. same_ids r (f r) \<and> mp_flags (f r) = mp_flags r \<and> mp_parent (f r) = mp_parent r \<and> clicks (f r) = clicks r"
    "\<And>r. kill_ok r \<Longrightarrow> kill_ok (f r)" for f t
    by (rule mmr_upd) (use that in auto)
  show ?thesis
    unfolding do_signal_def Let_def sig_def [symmetric] func_def [symmetric]
    by (auto intro!: mmr_trans [OF m m] simp: same_ids_def kill_ok_def)
qed

lemma do_sigaction_mmr:
  assumes "calm e J" shows "mmr J s (snd (do_sigaction e s))"
proof -
  note em = mmr_emit [OF assms]
  have m: "mmr J t (upd_mproc (mp s) f t)" if "\<And>r. same_ids r (f r) \<and> mp_flags (f r) = mp_flags r \<and> mp_parent (f r) = mp_parent r \<and> clicks (f r) = clicks r"
    "\<And>r. kill_ok r \<Longrightarrow> kill_ok (f r)" for f t
    by (rule mmr_upd) (use that in auto)
  define n s1 where "n = in_i2 (mm_in s)" and "s1 = (if in_p2 (mm_in s) \<noteq> 0 then emit (CopyOut (who s) (in_p2 (mm_in s))) s else s)"
  define s2 where "s2 = emit (CopyIn (who s) (in_p1 (mm_in s))) s1"
  define v where "v = sigaction_in e (out s2)"
  define s3 where "s3 = (if sa_handler v = SIG_IGN
      then upd_mproc (mp s) (\<lambda>r. r\<lparr>mp_ignore := sigaddset n (mp_ignore r),
             mp_sigpending := sigdelset n (mp_sigpending r), mp_catch := sigdelset n (mp_catch r)\<rparr>) s2
      else if sa_handler v = SIG_DFL
      then upd_mproc (mp s) (\<lambda>r. r\<lparr>mp_ignore := sigdelset n (mp_ignore r), mp_catch := sigdelset n (mp_catch r)\<rparr>) s2
      else upd_mproc (mp s) (\<lambda>r. r\<lparr>mp_ignore := sigdelset n (mp_ignore r), mp_catch := sigaddset n (mp_catch r)\<rparr>) s2)"
  define f :: "mproc \<Rightarrow> mproc" where "f = (\<lambda>r. r\<lparr>mp_sigact := (mp_sigact r)(n :=
      \<lparr>sa_handler = sa_handler v, sa_mask = sigdelset SIGKILL (sa_mask v), sa_flags = sa_flags v AND NOT SA_COMPAT\<rparr>),
    mp_sigreturn := in_p3 (mm_in s)\<rparr>)"
  have 1: "mmr J s s1" by (simp add: s1_def em)
  have 2: "mmr J s s2" unfolding s2_def by (rule mmr_trans [OF 1 em]) simp
  have 3: "mmr J s2 s3" if "n \<noteq> SIGKILL" using that unfolding s3_def by (auto intro!: m simp: same_ids_def kill_ok_def)
  have 4: "mmr J s3 (upd_mproc (mp s) f s3)" by (rule m) (auto simp: f_def same_ids_def kill_ok_def)
  show ?thesis
    unfolding do_sigaction_def Let_def n_def [symmetric] s1_def [symmetric] s2_def [symmetric] v_def [symmetric]
      s3_def [symmetric] f_def [symmetric]
    using 1 2 mmr_trans [OF mmr_trans [OF 2 3] 4] by simp
qed

lemma sigmask_fold:
  "sigisvalid n \<Longrightarrow> sigismember (fold (\<lambda>i m. if sigismember w i then sigaddset i m else m) xs m) n =
     (sigismember m n \<or> (n \<in> set xs \<and> sigismember w n))"
  "sigisvalid n \<Longrightarrow> sigismember (fold (\<lambda>i m. if sigismember w i then sigdelset i m else m) xs m) n =
     (sigismember m n \<and> \<not> (n \<in> set xs \<and> sigismember w n))"
  by (induction xs arbitrary: m) auto

lemma mmr_sigmask:
  "(\<And>m. \<not> sigismember m SIGKILL \<Longrightarrow> \<not> sigismember (g m) SIGKILL) \<Longrightarrow> mmr J s (upd_mproc p (mp_sigmask_update g) s)"
  by (rule mmr_upd) (auto simp: kill_ok_def)

lemma pending_after:
  assumes c: "calm e J" and i: "mm_inv J s" and r: "mp s \<in> set slots" "live s (mp s)"
    and m: "mmr J s s1" and l: "live s1 (mp s)"
  shows "mr.runs2 J s (and_then (check_pending e s1) (\<lambda>s2. Some (Ret (v, s2))))"
proof (rule mr.runs2_from [OF m mr.runs_bind2 [OF check_pending_runs [OF c mm_inv_mmr [OF i m]]]])
  show "mp s1 \<in> set slots" "live s1 (mp s1)" using r(1) l mmrD(2) [OF m] by simp_all
  show "mr.runs2 J s' (Some (Ret (v, s')))" for s' by (simp add: mr.runs2_Ret)
qed

lemma do_sigprocmask_runs:
  assumes c: "calm e J" and i: "mm_inv J s" and r: "mp s \<in> set slots" "live s (mp s)"
  shows "mr.runs2 J s (do_sigprocmask e s)"
proof -
  let ?s = "s\<lparr>ret_mask := mp_sigmask (mproc s (mp s))\<rparr>"
  have m: "mmr J s (upd_mproc (mp s) (mp_sigmask_update g) ?s)"
    if "\<And>m. \<not> sigismember m SIGKILL \<Longrightarrow> \<not> sigismember (g m) SIGKILL" for g
    by (rule mmr_trans [OF mmr_out_fields(1) mmr_sigmask]) (rule that)
  have l: "live (upd_mproc (mp s) (mp_sigmask_update g) ?s) (mp s)" for g using r(2) by (simp add: live_def)
  show ?thesis unfolding do_sigprocmask_def Let_def
    by (auto intro!: mr.runs2_Ret m pending_after [OF c i r] l mmr_out_fields simp: sigmask_fold)
qed

lemma do_sigsuspend_runs:
  assumes c: "calm e J" and i: "mm_inv J s" and r: "mp s \<in> set slots" "live s (mp s)"
  shows "mr.runs2 J s (do_sigsuspend e s)"
  unfolding do_sigsuspend_def Let_def
proof (rule pending_after [OF c i r])
  let ?f = "\<lambda>r :: mproc. r\<lparr>mp_sigmask2 := mp_sigmask r, mp_sigmask := sigdelset SIGKILL (word_of_int (in_l1 (mm_in s))),
                  mp_flags := mp_flags r OR SIGSUSPENDED\<rparr>"
  show "mmr J s ((upd_mproc (mp s) ?f s)\<lparr>dont_reply := True\<rparr>)"
    by (rule mmr_trans [OF mmr_upd mmr_dont_reply]) (auto simp: same_ids_def kill_ok_def)
  show "live ((upd_mproc (mp s) ?f s)\<lparr>dont_reply := True\<rparr>) (mp s)" using r(2) by (simp add: live_def)
qed

lemma do_sigreturn_runs:
  assumes c: "calm e J" and i: "mm_inv J s" and r: "mp s \<in> set slots" "live s (mp s)"
  shows "mr.runs2 J s (do_sigreturn e s)"
  unfolding do_sigreturn_def Let_def
  by (rule pending_after [OF c i r mmr_trans [OF mmr_sigmask mmr_emit [OF c]]]) (use r(2) in \<open>auto simp: live_def\<close>)

lemma do_brk_mmr:
  assumes "calm e J" shows "mmr J s (snd (do_brk e s))"
proof -
  have "mmr J s ((snd (adjust p d n (emit ev s)))\<lparr>res_ptr := v\<rparr>)" if "quiet ev" for p d n ev v
    by (rule mmr_trans [OF mmr_trans [OF mmr_emit [OF assms that] adjust_mmr(1) [OF assms]] mmr_out_fields(2)])
  then show ?thesis by (simp add: do_brk_def Let_def sys_getsp_def case_prod_beta mmr_out_fields)
qed

lemma do_pause_mmr: "mmr J s (snd (do_pause s))"
  unfolding do_pause_def snd_conv by (rule mmr_trans [OF mmr_upd mmr_dont_reply]) auto

lemma stack_fault_runs:
  assumes c: "calm e J" and i: "mm_inv J s" and r: "p \<in> set slots" "live s p"
  shows "mr.runs J s (stack_fault e p s)"
proof -
  have m: "mmr J s (snd (adjust p d n (emit ev s)))" if "quiet ev" for d n ev
    by (rule mmr_trans [OF mmr_emit [OF c] adjust_mmr(1) [OF c]]) (rule that)
  have m2: "mmr J s (upd_mproc p (mp_catch_update (sigdelset SIGSEGV)) (snd (adjust p d n (emit ev s))))" if "quiet ev" for d n ev
    by (rule mmr_trans [OF m mmr_upd]) (use that in \<open>auto simp: same_ids_def kill_ok_def\<close>)
  have "live (upd_mproc p (mp_catch_update (sigdelset SIGSEGV)) (snd (adjust p d n (emit ev s)))) p" for d n ev
    using r(2) adjust_mmr(2) [OF c, of p d n "emit ev s"] by (auto simp: live_def fun_eq_iff)
  then show ?thesis
    using m mr.runs_from [OF m2 sig_proc_runs [OF c mm_inv_mmr [OF i m2] r(1)]]
    by (simp add: stack_fault_def Let_def sys_getsp_def case_prod_beta mr.runs_Ret)
qed

lemma ksig_one_runs:
  assumes c: "calm e J" and i: "mm_inv J s" shows "mr.runs J s (ksig_one e p g w n s)"
proof -
  let ?s = "if n = SIGALRM then clear_flag p ALARM_ON s else s"
  have m: "mmr J s ?s" by (auto intro!: mmr_upd)
  have "mr.runs J s (and_then (check_sig e k n ?s) (\<lambda>(_, s2). Some (Ret (emit (SysEndsig p) s2))))" for k
    by (rule mr.runs_from [OF m mr.runs2_bind [OF check_sig_runs [OF c mm_inv_mmr [OF i m]]]])
       (auto intro!: mr.runs_Ret mmr_emit [OF c])
  then show ?thesis by (simp add: ksig_one_def Let_def mr.runs_Ret del: upd_mproc_sel)
qed

section \<open>Calls outside the relation\<close>

definition keeps :: "books \<Rightarrow> ('a \<times> mm) outcome option \<Rightarrow> bool" where
  "keeps J r \<longleftrightarrow> (\<exists>x s'. r = Some (Ret (x, s')) \<and> mm_inv J s')"

lemma keeps_runs2: "mm_inv J s \<Longrightarrow> mr.runs2 J s r \<Longrightarrow> keeps J r"
  using mm_inv_mmr unfolding keeps_def mr.runs2_def by blast

lemma keeps_Ret: "mm_inv J (snd r) \<Longrightarrow> keeps J (Some (Ret r))"
  by (cases r) (simp add: keeps_def)

lemma mm_inv_upd:
  assumes "mm_inv J s" "\<And>r. has (mp_flags (f r)) IN_USE = has (mp_flags r) IN_USE"
    "\<And>r. has (mp_flags (f r)) HANGING = has (mp_flags r) HANGING" "\<And>r. kill_ok r \<Longrightarrow> kill_ok (f r)" "\<And>r. clicks (f r) = clicks r"
  shows "mm_inv J (upd_mproc p f s)"
proof -
  have "live_sizes (upd_mproc p f s) = live_sizes s" by (rule live_sizes_upd [OF assms(2,3,5)])
  moreover
  have "used (upd_mproc p f s) = used s" by (auto simp: used_def assms(2))
  ultimately show ?thesis using assms by (auto simp: mm_inv_def)
qed

lemma mm_inv_emit: "calm e J \<Longrightarrow> mm_inv J s \<Longrightarrow> quiet ev \<Longrightarrow> mm_inv J (emit ev s)"
  by (rule mm_inv_mmr [OF _ mmr_emit])

lemma do_getset_keeps:
  assumes c: "calm e J" and i: "mm_inv J s" shows "mm_inv J (snd (do_getset s))"
proof -
  have u: "mm_inv J (upd_mproc (mp s) f s)" if "\<And>r. mp_flags (f r) = mp_flags r \<and> kill_ok (f r) = kill_ok r \<and> clicks (f r) = clicks r" for f
    by (rule mm_inv_upd [OF i]) (use that in auto)
  have t: "mm_inv J (tell_fs a b x y (upd_mproc (mp s) f s))" if "\<And>r. mp_flags (f r) = mp_flags r \<and> kill_ok (f r) = kill_ok r \<and> clicks (f r) = clicks r" for f a b x y
    unfolding tell_fs_def by (rule mm_inv_emit [OF c u [OF that]]) simp
  have k: "kill_ok (r\<lparr>mp_realuid := a, mp_effuid := b\<rparr>) = kill_ok r" "kill_ok (r\<lparr>mp_realgid := a, mp_effgid := b\<rparr>) = kill_ok r"
    "kill_ok (r\<lparr>mp_procgrp := a\<rparr>) = kill_ok r" for r a b by (simp_all add: kill_ok_def)
  have o: "mm_inv J (s\<lparr>result2 := v\<rparr>)" for v by (rule mm_inv_mmr [OF i mmr_out_fields(4)])
  show ?thesis unfolding do_getset_def Let_def
    by (simp add: i o t k)
qed

lemma do_ksig_keeps:
  assumes c: "calm e J" and i: "mm_inv J s" and p0: "who s = HARDWARE \<Longrightarrow> in_i1 (mm_in s) \<in> set slots"
  shows "keeps J (do_ksig e s)"
proof (cases "who s = HARDWARE \<and> live s (in_i1 (mm_in s))")
  case False
  then show ?thesis using i mm_inv_mmr [OF i mmr_dont_reply]
    by (auto simp: do_ksig_def live_def Let_def keeps_def)
next
  case True
  let ?p = "in_i1 (mm_in s)"
  have p: "?p \<in> set slots" using p0 True by simp
  define w g where "w = (word_of_int (in_l1 (mm_in s)) :: 32 word)" and "g = mp_pid (mproc s ?p)"
  define s2 where "s2 = upd_mproc 0 (mp_procgrp_update (\<lambda>_. mp_procgrp (mproc s ?p))) (s\<lparr>dont_reply := True, mp := 0\<rparr>)"
  have "mm_inv J (s\<lparr>dont_reply := True, mp := 0\<rparr>)" using i by (simp add: mm_inv_def used_def)
  then have i2: "mm_inv J s2" unfolding s2_def by (rule mm_inv_upd) (auto simp: kill_ok_def)
  have l2: "live s2 ?p" using True by (auto simp: s2_def live_def)
  have sf: "mr.runs J s2 (if sigismember w SIGSTKFLT then stack_fault e ?p s2 else Some (Ret s2))"
    using stack_fault_runs [OF c i2 p l2] by (simp add: mr.runs_Ret)
  define r where "r = and_then (if sigismember w SIGSTKFLT then stack_fault e ?p s2 else Some (Ret s2))
      (\<lambda>s3. and_then (each (ksig_one e ?p g w) [1 .. NSIG] s3) (\<lambda>s4. Some (Ret (OK, s4))))"
  have "mr.runs2 J s2 r" unfolding r_def
  proof (rule mr.runs_bind2 [OF sf])
    fix s3 assume "mmr J s2 s3"
    then have i3: "mm_inv J s3" by (rule mm_inv_mmr [OF i2])
    show "mr.runs2 J s3 (and_then (each (ksig_one e ?p g w) [1 .. NSIG] s3) (\<lambda>s4. Some (Ret (OK, s4))))"
      by (rule mr.runs_bind2 [OF mr.runs_each [OF ksig_one_runs [OF c mm_inv_mmr [OF i3]]]]) (auto intro: mr.runs2_Ret)
  qed
  then have "keeps J r" by (rule keeps_runs2 [OF i2])
  moreover have "do_ksig e s = r"
    using True unfolding do_ksig_def Let_def w_def [symmetric] g_def [symmetric] r_def s2_def live_def by simp
  ultimately show ?thesis by (simp only:)
qed

lemma do_reboot_runs:
  assumes c: "calm e J" and i: "mm_inv J s" shows "mr.runs2 J s (do_reboot e s)"
proof -
  note em = mmr_emit [OF c]
  have fin: "mmr J t (emit d (tell_fs SYNC_CALL 0 0 0 (tell_fs EXIT_CALL INIT_PROC_NR 0 0 t)))" if "quiet d" for d t
    unfolding tell_fs_def by (rule mmr_trans [OF mmr_trans [OF em em] em]) (use that in simp_all)
  have k: "mr.runs2 J s (and_then (check_sig e (- 1) SIGKILL t) (\<lambda>(_, s2). Some (Ret (OK, emit (SysAbort d)
      (tell_fs SYNC_CALL 0 0 0 (tell_fs EXIT_CALL INIT_PROC_NR 0 0 s2))))))" if "mmr J s t" for t d
    by (rule mr.runs2_from [OF that mr.runs2_bind2 [OF check_sig_runs [OF c mm_inv_mmr [OF i that]]]]) (auto intro!: mr.runs2_Ret fin)
  show ?thesis unfolding do_reboot_def Let_def by (auto intro!: mr.runs2_Ret k em)
qed

text \<open>\<^verbatim>\<open>do_trace\<close> does not look at HANGING; it is safe when the process it finds is alive.\<close>

definition trace_safe :: "mm \<Rightarrow> bool" where
  "trace_safe s \<longleftrightarrow> in_i2 (mm_in s) = 0 \<or> (\<forall>c. findproc (in_i1 (mm_in s)) s = Some c \<longrightarrow> \<not> pflag s c HANGING)"

lemma findproc_Some:
  "findproc n s = Some r \<Longrightarrow> r \<in> set slots \<and> pflag s r IN_USE \<and> mp_pid (mproc s r) = n"
  unfolding findproc_def slots_def by (drule find_SomeD) (simp add: INIT_PROC_NR_def)

lemma do_trace_keeps:
  assumes c: "calm e J" and i: "mm_inv J s" and safe: "trace_safe s" shows "keeps J (do_trace e s)"
proof -
  define req dat where "req = in_i2 (mm_in s)" and "dat = in_l2 (mm_in s)"
  have setm: "mmr J t (set_flag q m t)" if "m = TRACED \<or> m = STOPPED" for q m t by (rule mmr_upd) (use that in auto)
  have clrm: "mmr J t (clear_flag q m t)" if "m = TRACED \<or> m = STOPPED" for q m t by (rule mmr_upd) (use that in auto)
  show ?thesis
  proof (cases "req = 0 \<or> findproc (in_i1 (mm_in s)) s = None")
    case True
    have "mm_inv J ((set_flag (mp s) TRACED s)\<lparr>out_l2 := 0\<rparr>)"
      by (rule mm_inv_mmr [OF i mmr_trans [OF setm mmr_out_fields(3)]]) simp
    then show ?thesis using True i by (auto simp: do_trace_def req_def Let_def keeps_def)
  next
    case False
    then obtain k where k: "findproc (in_i1 (mm_in s)) s = Some k" by auto
    then have lk: "k \<in> set slots" "live s k" using findproc_Some [OF k] safe False by (auto simp: trace_safe_def req_def live_def)
    have ex: "mr.runs2 J s (and_then (mm_exit EXIT_FUEL e k dat s) (\<lambda>s1. Some (Ret (OK, s1\<lparr>out_l2 := 0\<rparr>))))"
      using mm_exit_full [OF c i lk, of dat] mmr_trans mmr_out_fields(3) by (fastforce intro!: mr.runs2_Ret)
    let ?t = "clear_flag k TRACED s"
    have sg: "mr.runs J s (and_then (sig_proc e k dat ?t) (\<lambda>s1. Some (Ret (set_flag k TRACED s1))))"
      by (rule mr.runs_from [OF clrm mr.runs_bind [OF sig_proc_runs [OF c mm_inv_mmr [OF i clrm] lk(1)]]])
         (use lk(2) in \<open>auto simp: live_def intro!: mr.runs_Ret setm\<close>)
    define R where "R = (if req = 7 \<or> req = 9 then and_then (if dat > 0
         then and_then (sig_proc e k dat ?t) (\<lambda>s1. Some (Ret (set_flag k TRACED s1))) else Some (Ret s))
         (\<lambda>s2. Some (Ret (clear_flag k STOPPED s2))) else Some (Ret s))"
    have res: "mr.runs J s R" unfolding R_def
      using sg clrm by (auto intro!: mr.runs_bind [OF sg] mr.runs_Ret)
    define fin where "fin = (\<lambda>s3. let s4 = emit (SysTrace req k (in_l1 (mm_in s)) dat) s3; (st, v) = trace_val e (out s4)
              in if st \<noteq> OK then Some (Ret (- errno_val e (out s4), s4)) else Some (Ret (OK, s4\<lparr>out_l2 := v\<rparr>)))"
    have f: "mr.runs2 J t (fin t)" for t
      unfolding fin_def Let_def by (auto simp: case_prod_beta intro!: mr.runs2_Ret mmr_emit [OF c] mmr_trans [OF mmr_emit [OF c] mmr_out_fields(3)])
    have "do_trace e s = (if \<not> pflag s k STOPPED then Some (Ret (ESRCH, s))
        else if req = 8 then and_then (mm_exit EXIT_FUEL e k dat s) (\<lambda>s1. Some (Ret (OK, s1\<lparr>out_l2 := 0\<rparr>)))
        else if (req = 7 \<or> req = 9) \<and> (dat < 0 \<or> dat > NSIG) then Some (Ret (EIO, s)) else and_then R fin)"
      unfolding do_trace_def R_def fin_def req_def [symmetric] dat_def [symmetric] k Let_def using False by simp
    then have "mr.runs2 J s (do_trace e s)" using ex mr.runs_bind2 [OF res f] by (simp add: mr.runs2_Ret)
    then show ?thesis by (rule keeps_runs2 [OF i])
  qed
qed

section \<open>Fork\<close>

definition pid_after :: "int \<Rightarrow> int" where
  "pid_after n = (if n < 30000 then n + 1 else INIT_PID + 1)"

definition taken :: "int \<Rightarrow> mm \<Rightarrow> int set" where
  "taken c s = (\<lambda>r. mp_pid (mproc s r)) ` (set slots - {c}) \<union> (\<lambda>r. mp_procgrp (mproc s r)) ` set slots"

lemma taken_step:
  "(\<exists>r\<in>set slots. mp_pid (mproc s r) = n \<or> mp_procgrp (mproc s r) = n) \<Longrightarrow> n \<in> taken c s \<or> n = mp_pid (mproc s c)"
  "n \<in> taken c s \<Longrightarrow> \<exists>r\<in>set slots. mp_pid (mproc s r) = n \<or> mp_procgrp (mproc s r) = n"
  unfolding taken_def by blast+

lemma new_pid_loop_step:
  "new_pid_loop c s =
     (let n = pid_after (next_pid s); s1 = (upd_mproc c (mp_pid_update (\<lambda>_. n)) s)\<lparr>next_pid := n\<rparr>
      in if \<exists>r\<in>set slots. mp_pid (mproc s r) = n \<or> mp_procgrp (mproc s r) = n then new_pid_loop c s1 else Some s1)"
  by (subst new_pid_loop.simps) (simp add: pid_after_def Let_def)

lemma new_pid_loop_from:
  assumes "(pid_after ^^ Suc k) (next_pid s) \<notin> taken c s" "(pid_after ^^ Suc k) (next_pid s) \<noteq> mp_pid (mproc s c)"
  shows "\<exists>n j. new_pid_loop c s = Some ((upd_mproc c (mp_pid_update (\<lambda>_. n)) s)\<lparr>next_pid := n\<rparr>) \<and> n \<notin> taken c s \<and>
    n = (pid_after ^^ Suc j) (next_pid s)"
  using assms
proof (induction k arbitrary: s)
  case 0
  have "\<not> (\<exists>r\<in>set slots. mp_pid (mproc s r) = pid_after (next_pid s) \<or> mp_procgrp (mproc s r) = pid_after (next_pid s))"
    using 0 taken_step(1) by auto
  then have "new_pid_loop c s = Some ((upd_mproc c (mp_pid_update (\<lambda>_. pid_after (next_pid s))) s)\<lparr>next_pid := pid_after (next_pid s)\<rparr>)"
    by (subst new_pid_loop_step) (simp add: Let_def)
  then show ?case using 0 by (intro exI [of _ "pid_after (next_pid s)"] exI [of _ 0]) simp
next
  case (Suc k)
  define n where "n = pid_after (next_pid s)"
  define s1 where "s1 = (upd_mproc c (mp_pid_update (\<lambda>_. n)) s)\<lparr>next_pid := n\<rparr>"
  show ?case
  proof (cases "\<exists>r\<in>set slots. mp_pid (mproc s r) = n \<or> mp_procgrp (mproc s r) = n")
    case False
    then have "new_pid_loop c s = Some s1" by (subst new_pid_loop_step) (simp add: n_def s1_def Let_def)
    moreover have "n \<notin> taken c s" using False taken_step(2) by blast
    ultimately show ?thesis unfolding s1_def by (intro exI [of _ n] exI [of _ 0]) (simp add: n_def)
  next
    case True
    then have loop: "new_pid_loop c s = new_pid_loop c s1" by (subst new_pid_loop_step) (simp add: n_def s1_def Let_def)
    have tk: "taken c s1 = taken c s" by (auto simp: taken_def s1_def image_iff)
    have pid1: "mp_pid (mproc s1 c) = n" by (simp add: s1_def)
    have it: "(pid_after ^^ Suc j) (next_pid s1) = (pid_after ^^ Suc (Suc j)) (next_pid s)" for j
      by (simp add: s1_def n_def funpow_swap1)
    have "(pid_after ^^ Suc (Suc k)) (next_pid s) \<noteq> n" using True taken_step(1) Suc.prems by metis
    then have "\<exists>m j. new_pid_loop c s1 = Some ((upd_mproc c (mp_pid_update (\<lambda>_. m)) s1)\<lparr>next_pid := m\<rparr>) \<and> m \<notin> taken c s1 \<and>
        m = (pid_after ^^ Suc j) (next_pid s1)"
      by (intro Suc.IH; unfold it tk pid1) (use Suc.prems in blast)+
    moreover have "(upd_mproc c (mp_pid_update (\<lambda>_. m)) s1)\<lparr>next_pid := m\<rparr> = (upd_mproc c (mp_pid_update (\<lambda>_. m)) s)\<lparr>next_pid := m\<rparr>" for m
      by (simp add: s1_def upd_mproc_def)
    ultimately show ?thesis unfolding loop tk it by metis
  qed
qed

text \<open>The search for a pid goes through all of 2 to 30000, more than the table can take.\<close>

lemma pid_after_reaches: "1 \<le> n \<Longrightarrow> n \<le> 30000 \<Longrightarrow> 2 \<le> v \<Longrightarrow> v \<le> 30000 \<Longrightarrow> \<exists>k. (pid_after ^^ Suc k) n = v"
proof -
  have up: "(pid_after ^^ k) n = n + int k" if "n + int k \<le> 30000" for n k
    using that by (induction k) (auto simp: pid_after_def)
  assume a: "1 \<le> n" "n \<le> 30000" "2 \<le> v" "v \<le> 30000"
  show ?thesis
  proof (cases "n < v")
    case True
    then have "(pid_after ^^ Suc (nat (v - n - 1))) n = v" using a by (subst up) auto
    then show ?thesis by blast
  next
    case False
    have "(pid_after ^^ nat (v - 2)) ((pid_after ^^ 1) ((pid_after ^^ nat (30000 - n)) n)) = v"
      using up [of n "nat (30000 - n)"] up [of 2 "nat (v - 2)"] a by (simp add: pid_after_def INIT_PID_def)
    then have "(pid_after ^^ (nat (v - 2) + (1 + nat (30000 - n)))) n = v" unfolding funpow_add comp_apply .
    then show ?thesis by (metis add_Suc_right plus_1_eq_Suc)
  qed
qed

lemma pid_after_range: "(pid_after ^^ Suc k) n \<in> {2..30000}" if "1 \<le> n" for n
proof -
  have "1 \<le> (pid_after ^^ k) n \<and> (pid_after ^^ k) n \<le> max n 30000" 
    by (induction k) (use that in \<open>auto simp: pid_after_def INIT_PID_def\<close>)
  then show ?thesis by (auto simp: pid_after_def INIT_PID_def)
qed

lemma card_slots: "card (set slots) = 64"
  by (simp add: slots_def NR_PROCS_def)

lemma new_pid_loop_fresh:
  assumes "1 \<le> next_pid s" "next_pid s \<le> 30000"
  shows "\<exists>n. new_pid_loop c s = Some ((upd_mproc c (mp_pid_update (\<lambda>_. n)) s)\<lparr>next_pid := n\<rparr>) \<and> n \<notin> taken c s \<and> n \<in> {2..30000}"
proof -
  have "card (taken c s) \<le> card (set slots - {c}) + card (set slots)"
    unfolding taken_def by (rule order_trans [OF card_Un_le add_mono]) (simp_all add: card_image_le)
  also have "\<dots> \<le> card (set slots) + card (set slots)" by (simp add: card_mono)
  finally have "card (taken c s) \<le> 128" by (simp add: card_slots)
  then have "card (insert (mp_pid (mproc s c)) (taken c s)) \<le> 129" using card_insert_le_m1 [of 129] by simp
  moreover have "finite (insert (mp_pid (mproc s c)) (taken c s))" by (simp add: taken_def)
  ultimately have "\<not> {2 .. 30000} \<subseteq> insert (mp_pid (mproc s c)) (taken c s)"
    using card_mono [of "insert (mp_pid (mproc s c)) (taken c s)" "{2 .. 30000 :: int}"] by (auto simp del: card_insert_disjoint)
  then obtain v where v: "v \<in> {2..30000}" "v \<noteq> mp_pid (mproc s c)" "v \<notin> taken c s" by blast
  then obtain k where k: "(pid_after ^^ Suc k) (next_pid s) = v" using pid_after_reaches [OF assms, of v] by auto
  obtain n j where nj: "new_pid_loop c s = Some ((upd_mproc c (mp_pid_update (\<lambda>_. n)) s)\<lparr>next_pid := n\<rparr>)" "n \<notin> taken c s"
      "n = (pid_after ^^ Suc j) (next_pid s)"
    using new_pid_loop_from [of k s c, unfolded k, OF v(3,2)] by blast
  have "n \<in> {2..30000}" unfolding nj(3) by (rule pid_after_range [OF assms(1)])
  then show ?thesis using nj(1,2) by blast
qed

lemma free_slot_free:
  assumes "card (used s) < 64" shows "free_slot s \<in> set slots" "\<not> pflag s (free_slot s) IN_USE"
proof -
  have "\<exists>r. r \<in> set slots \<and> \<not> pflag s r IN_USE"
  proof (rule ccontr)
    assume "\<nexists>r. r \<in> set slots \<and> \<not> pflag s r IN_USE"
    then have "used s = set slots" by (auto simp: used_def)
    then show False using assms card_slots by simp
  qed
  then obtain r where r: "List.find (\<lambda>r. \<not> pflag s r IN_USE) slots = Some r"
    by (cases "List.find (\<lambda>r. \<not> pflag s r IN_USE) slots") (auto simp: find_None_iff)
  then show "free_slot s \<in> set slots" "\<not> pflag s (free_slot s) IN_USE"
    using find_SomeD [OF r] by (simp_all add: free_slot_def)
qed

definition fork_refused :: "mm \<Rightarrow> bool" where
  "fork_refused s \<longleftrightarrow> procs_in_use s = 64 \<or> procs_in_use s \<ge> 62 \<and> mp_effuid (mproc s (mp s)) \<noteq> SUPER_USER"

text \<open>The child's entry: the parent's, with its own parent, pid and exit status, and not traced.\<close>

definition child_of :: "int \<Rightarrow> int \<Rightarrow> mproc \<Rightarrow> mproc" where
  "child_of parent pid r = r\<lparr>mp_parent := parent, mp_flags := mp_flags r AND NOT TRACED, mp_exitstatus := 0, mp_sigstatus := 0, mp_pid := pid\<rparr>"

definition forked :: "int \<Rightarrow> int \<Rightarrow> nat \<Rightarrow> hole_state \<Rightarrow> mm \<Rightarrow> mm" where
  "forked c n b h s = s\<lparr>holes := h, procs_in_use := procs_in_use s + 1, next_pid := n,
     mproc := (mproc s)(c := child_of (who s) n (mproc s (mp s))),
     out := out s @ [SysFork (who s) c n b, TellFs FORK_CALL (who s) c n, Reply c 0 0 0]\<rparr>"

lemma do_fork_cases:
  assumes c: "calm e J" and l: "lends J" and i: "mm_inv J s" and caller: "who s = mp s" "mp s \<in> set slots" and live: "live s (mp s)"
    and ok: "\<not> fork_refused s"
  obtains (no_mem) h where "alloc_mem (clicks (mproc s (mp s))) (holes s) = Some (NO_MEM, h)"
      "do_fork e s = Some (Ret (ENOMEM, s\<lparr>holes := h\<rparr>))" "J (out s) (live_sizes s) h"
  | (child) b h n k where "alloc_mem (clicks (mproc s (mp s))) (holes s) = Some (b, h)" "b \<noteq> NO_MEM"
      "do_fork e s = Some (Ret (n, forked k n b h s))" "k \<in> set slots" "\<not> pflag s k IN_USE"
      "n \<in> {2..30000}" "\<forall>q \<in> set slots - {k}. mp_pid (mproc s q) \<noteq> n \<and> mp_procgrp (mproc s q) \<noteq> n"
      "J (out s @ [SysFork (who s) k n b]) ((live_sizes s)(k := Some (clicks (mproc s (mp s))))) h"
proof -
  let ?clicks = "unat (mem_len (seg_S (mproc s (mp s))) + (mem_vir (seg_S (mproc s (mp s))) - mem_vir (seg_D (mproc s (mp s)))))"
  have "live_sizes s (mp s) = Some (clicks (mproc s (mp s)))" using caller live by (simp add: live_sizes_def)
  moreover have "J (out s) (live_sizes s) (holes s)" using i by (simp add: mm_inv_def)
  ultimately obtain b h where al: "alloc_mem (clicks (mproc s (mp s))) (holes s) = Some (b, h)" "b = NO_MEM \<longrightarrow> J (out s) (live_sizes s) h"
      "b \<noteq> NO_MEM \<longrightarrow> (\<forall>c pid. c \<in> set slots \<longrightarrow> live_sizes s c = None \<longrightarrow>
         J (out s @ [SysFork (mp s) c pid b]) ((live_sizes s)(c := Some (clicks (mproc s (mp s))))) h)"
    using l unfolding lends_def by meson
  have bh: "alloc_mem ?clicks (holes s) = Some (b, h)" using al(1) by (simp add: clicks_def)
  have chk: "\<not> (procs_in_use s = NR_PROCS)" "\<not> (procs_in_use s \<ge> NR_PROCS - LAST_FEW \<and> mp_effuid (mproc s (mp s)) \<noteq> 0)"
    using ok by (auto simp: fork_refused_def NR_PROCS_def LAST_FEW_def SUPER_USER_def)
  show thesis
  proof (cases "b = NO_MEM")
    case True
    then have "do_fork e s = Some (Ret (ENOMEM, s\<lparr>holes := h\<rparr>))"
      unfolding do_fork_def Let_def bh using chk by auto
    then show thesis using no_mem al(1,2) True by blast
  next
    case False
    have "card (used s) \<le> 64" using card_mono [of "set slots" "used s"] card_slots by (auto simp: used_def)
    moreover have "card (used s) \<noteq> 64" using ok i by (auto simp: fork_refused_def mm_inv_def)
    ultimately have lt: "card (used s) < 64" by simp
    define k where "k = free_slot s"
    have k: "k \<in> set slots" "\<not> pflag s k IN_USE" using free_slot_free [OF lt] by (simp_all add: k_def)
    define s2 where "s2 = upd_mproc k (\<lambda>_. (mproc s (mp s))\<lparr>mp_parent := who s, mp_flags := mp_flags (mproc s (mp s)) AND NOT TRACED,
                         mp_exitstatus := 0, mp_sigstatus := 0\<rparr>) (s\<lparr>holes := h, procs_in_use := procs_in_use s + 1\<rparr>)"
    obtain n where n: "new_pid_loop k s2 = Some ((upd_mproc k (mp_pid_update (\<lambda>_. n)) s2)\<lparr>next_pid := n\<rparr>)" "n \<notin> taken k s2" "n \<in> {2..30000}"
      using new_pid_loop_fresh [of s2 k] i by (auto simp: s2_def mm_inv_def)
    define s3 where "s3 = (upd_mproc k (mp_pid_update (\<lambda>_. n)) s2)\<lparr>next_pid := n\<rparr>"
    define s5 where "s5 = tell_fs FORK_CALL (who s) k n (emit (SysFork (who s) k n b) s3)"
    have pid: "mp_pid (mproc s3 k) = n" by (simp add: s3_def)
    have rep: "reply e k 0 0 0 s5 = Some (Ret (emit (Reply k 0 0 0) s5))"
    proof -
      have "pflag s5 k IN_USE" "\<not> pflag s5 k HANGING" using live by (auto simp: s5_def s3_def s2_def tell_fs_def live_def)
      then show ?thesis using c by (simp add: reply_def Let_def calm_def)
    qed
    have eq: "do_fork e s = Some (Ret (next_pid (emit (Reply k 0 0 0) s5), emit (Reply k 0 0 0) s5))"
      unfolding do_fork_def Let_def bh option.case prod.case k_def [symmetric] s2_def [symmetric]
        n(1) s3_def [symmetric] pid s5_def [symmetric] rep and_then_simps using chk False by auto
    have "emit (Reply k 0 0 0) s5 = forked k n b h s" "next_pid (emit (Reply k 0 0 0) s5) = n"
      by (simp_all add: s5_def s3_def s2_def forked_def child_of_def tell_fs_def emit_def upd_mproc_def)
    then have "do_fork e s = Some (Ret (n, forked k n b h s))" using eq by simp
    moreover have "\<forall>q \<in> set slots - {k}. mp_pid (mproc s q) \<noteq> n \<and> mp_procgrp (mproc s q) \<noteq> n"
    proof
      fix q assume q: "q \<in> set slots - {k}"
      then have "mproc s2 q = mproc s q" by (simp add: s2_def)
      then show "mp_pid (mproc s q) \<noteq> n \<and> mp_procgrp (mproc s q) \<noteq> n" using n(2) q unfolding taken_def by force
    qed
    moreover have "live_sizes s k = None" using k(2) by (simp add: live_sizes_def live_def)
    then have "J (out s @ [SysFork (who s) k n b]) ((live_sizes s)(k := Some (clicks (mproc s (mp s))))) h"
      unfolding caller(1) using al(3) False k(1) by blast
    ultimately show thesis by (intro child [OF al(1) False _ k n(3)])
  qed
qed

lemma forked_inv:
  assumes c: "calm e J" and i: "mm_inv J s" and live: "live s (mp s)" and k: "k \<in> set slots" "\<not> pflag s k IN_USE"
    and j: "J (out s @ [SysFork (who s) k n b]) ((live_sizes s)(k := Some (clicks (mproc s (mp s))))) h"
    and n: "n \<in> {2..30000}"
  shows "mm_inv J (forked k n b h s)"
proof -
  have u: "used (forked k n b h s) = insert k (used s)"
    using live k by (auto simp: used_def forked_def child_of_def live_def)
  have "k \<notin> used s" "finite (used s)" using k by (auto simp: used_def)
  then have "procs_in_use (forked k n b h s) = int (card (used (forked k n b h s)))"
    unfolding u using i by (simp add: mm_inv_def forked_def)
  moreover have "kill_ok (mproc (forked k n b h s) p)" for p
    using i by (auto simp: mm_inv_def forked_def child_of_def kill_ok_def)
  moreover have "J (out (forked k n b h s)) (live_sizes (forked k n b h s)) (holes (forked k n b h s))"
  proof -
    have add: "quiet ev \<Longrightarrow> J evs I h \<Longrightarrow> J (evs @ [ev]) I h" for evs I ev using c by (simp add: calm_def)
    have "clicks (child_of a n r) = clicks r" for a n r by (simp add: clicks_def child_of_def)
    then have "live_sizes (forked k n b h s) = (live_sizes s)(k := Some (clicks (mproc s (mp s))))"
      using live k by (auto simp: live_sizes_def live_def forked_def fun_eq_iff) (auto simp: child_of_def)
    moreover have "out (forked k n b h s) = ((out s @ [SysFork (who s) k n b]) @ [TellFs FORK_CALL (who s) k n]) @ [Reply k 0 0 0]"
      "holes (forked k n b h s) = h" by (simp_all add: forked_def)
    ultimately show ?thesis by (simp only:) (intro add j quiet_simps)
  qed
  moreover have "next_pid (forked k n b h s) = n" by (simp add: forked_def)
  ultimately show ?thesis using n by (simp add: mm_inv_def)
qed

lemma do_fork_refused: "fork_refused s \<Longrightarrow> do_fork e s = Some (Ret (EAGAIN, s))"
  by (auto simp: do_fork_def fork_refused_def NR_PROCS_def LAST_FEW_def SUPER_USER_def Let_def)

lemma do_fork_keeps:
  assumes "calm e J" "lends J" "mm_inv J s" "who s = mp s" "mp s \<in> set slots" "live s (mp s)"
  shows "keeps J (do_fork e s)"
proof (cases "fork_refused s")
  case True
  then show ?thesis using assms(3) by (simp add: do_fork_refused keeps_def)
next
  case False
  show ?thesis
  proof (rule do_fork_cases [OF assms False])
    fix h assume "do_fork e s = Some (Ret (ENOMEM, s\<lparr>holes := h\<rparr>))" "J (out s) (live_sizes s) h"
    then show ?thesis using assms(3) by (auto simp: keeps_def mm_inv_def used_def)
  next
    fix b h n k assume "do_fork e s = Some (Ret (n, forked k n b h s))" "k \<in> set slots" "\<not> pflag s k IN_USE" "n \<in> {2..30000}"
      "J (out s @ [SysFork (who s) k n b]) ((live_sizes s)(k := Some (clicks (mproc s (mp s))))) h"
    then show ?thesis using forked_inv [OF assms(1,3,6)] by (simp add: keeps_def)
  qed
qed

section \<open>The main loop\<close>

lemma call_vec_keeps:
  assumes c: "calm e J" and l: "lends J" and i: "mm_inv J s" and r: "mp s \<in> set slots" "live s (mp s)" "who s \<noteq> HARDWARE" and w: "who s = mp s"
    and t: "n = 26 \<Longrightarrow> trace_safe s" and ex: "keeps J (ex s)"
  shows "keeps J (call_vec e ex n s)"
proof -
  note k2 = keeps_runs2 [OF i]
  have pure: "keeps J (Some (Ret q))" if "mmr J s (snd q)" for q :: "int \<times> mm" by (rule keeps_Ret [OF mm_inv_mmr [OF i that]])
  have "keeps J (do_kill e s)" unfolding do_kill_def by (rule k2 [OF check_sig_runs [OF c i]])
  moreover have "keeps J (do_alarm e s)" unfolding do_alarm_def by (rule k2 [OF set_alarm_runs [OF c]])
  moreover have "keeps J (Some (Ret (do_sigpending s)))" by (rule pure) (simp add: do_sigpending_def mmr_out_fields)
  moreover have "keeps J (do_ksig e s)" by (rule do_ksig_keeps [OF c i]) (use r(3) in simp)
  ultimately show ?thesis unfolding call_vec_def
    using t ex k2 [OF do_mm_exit_runs [OF c i r(1,2)]] do_fork_keeps [OF c l i w r(1,2)] k2 [OF do_waitpid_runs [OF c]]
      pure [OF do_brk_mmr [OF c]] keeps_Ret [OF do_getset_keeps [OF c i]] do_trace_keeps [OF c i] pure [OF do_pause_mmr]
      pure [OF do_signal_mmr] pure [OF do_sigaction_mmr [OF c]] k2 [OF do_sigsuspend_runs [OF c i r(1,2)]]
      k2 [OF do_sigprocmask_runs [OF c i r(1,2)]] k2 [OF do_sigreturn_runs [OF c i r(1,2)]] k2 [OF do_reboot_runs [OF c i]]
      keeps_Ret [of J "(no_sys, s)"] i
    by simp
qed

section \<open>One process killed by its pid\<close>

lemma adjust_row:
  "mp_flags (mproc (snd (adjust p dc sp s)) q) = mp_flags (mproc s q)" "mp_parent (mproc (snd (adjust p dc sp s)) q) = mp_parent (mproc s q)"
  by (auto simp: adjust_eq Let_def)

lemma terminate_exits:
  assumes c: "calm e J" and r: "live s r"
  obtains s2 where "terminate ex e r n s = ex r 0 s2" "mmr J s s2" "live s2 r"
    "\<And>q. mp_flags (mproc s2 q) = mp_flags (mproc s q)" "\<And>q. mp_parent (mproc s2 q) = mp_parent (mproc s q)"
proof -
  let ?s1 = "upd_mproc r (mp_sigstatus_update (\<lambda>_. to_char n)) s"
  let ?s2 = "if sigismember (core_sset ?s1) n then dump_core e r (tell_fs CHDIR_CALL r 0 0 ?s1) else ?s1"
  have m1: "mmr J s ?s1" by (rule mmr_upd) auto
  have "mmr J ?s1 ?s2" using mmr_trans [OF tell_fs_mmr [OF c] dump_core_mmr(1) [OF c]] by simp
  then have m2: "mmr J s ?s2" by (rule mmr_trans [OF m1])
  have "live (tell_fs CHDIR_CALL r 0 0 ?s1) r" "live ?s1 r" using r by (auto simp: live_def tell_fs_def)
  then have l: "live ?s2 r" by (simp add: dump_core_mmr(2) [OF c])
  have "mp_flags (mproc (dump_core e r t) q) = mp_flags (mproc t q)" "mp_parent (mproc (dump_core e r t) q) = mp_parent (mproc t q)" for t q
    by (auto simp: dump_core_def Let_def sys_getsp_def case_prod_beta adjust_row)
  then have "mp_flags (mproc ?s2 q) = mp_flags (mproc s q)" "mp_parent (mproc ?s2 q) = mp_parent (mproc s q)" for q
    by (auto simp: tell_fs_def)
  then show thesis using that [OF _ m2 l] by (simp add: terminate_def Let_def)
qed

lemma sig_proc_exits:
  assumes c: "calm e J" and i: "mm_inv J s" and r: "live s r"
  obtains s2 where "sig_proc e r SIGKILL s = mm_exit EXIT_FUEL e r 0 s2" "mmr J s s2" "live s2 r"
    "\<And>q. mp_flags (mproc s2 q) = mp_flags (mproc s q)" "\<And>q. mp_parent (mproc s2 q) = mp_parent (mproc s q)"
proof -
  obtain s2 where s2: "terminate (mm_exit EXIT_FUEL e) e r SIGKILL s = mm_exit EXIT_FUEL e r 0 s2" "mmr J s s2" "live s2 r"
    "\<And>q. mp_flags (mproc s2 q) = mp_flags (mproc s q)" "\<And>q. mp_parent (mproc s2 q) = mp_parent (mproc s q)"
    by (rule terminate_exits [OF c r, where ex = "mm_exit EXIT_FUEL e" and n = SIGKILL]) (use that in blast)
  have "kill_ok (mproc s r)" using i by (simp add: mm_inv_def)
  then have "sig_proc e r SIGKILL s = mm_exit EXIT_FUEL e r 0 s2"
    using r s2(1) by (simp add: sig_proc_def sig_proc_with_def live_def kill_ok_def)
  then show thesis using that s2 by blast
qed

lemma sig_proc_kill:
  assumes c: "calm e J" and i: "mm_inv J s" and r: "r \<in> set slots" "live s r"
  shows "\<exists>s'. sig_proc e r SIGKILL s = Some (Ret s') \<and> mmr J s s' \<and> \<not> live s' r"
proof -
  obtain s2 where s2: "sig_proc e r SIGKILL s = mm_exit EXIT_FUEL e r 0 s2" "mmr J s s2" "live s2 r"
    by (rule sig_proc_exits [OF c i r(2)])
  then show ?thesis using mm_exit_full [OF c mm_inv_mmr [OF i s2(2)] r(1) s2(3), of 0] mmr_trans [OF s2(2)] by auto
qed

lemma check_sig_loop_one:
  assumes "g > 0" "n \<noteq> 0" "r \<in> set rs" "selected s g n r" "permitted s r"
    "\<forall>q \<in> set rs. q \<noteq> r \<longrightarrow> \<not> selected s g n q" "sp r n s = Some (Ret s')"
  shows "check_sig_loop sp g n rs k er s = Some (Ret ((k + 1, er), s'))"
  using assms(3,6) by (induction rs) (use assms(1,2,4,5,7) in auto)

lemma do_kill_one:
  assumes r: "r \<in> {INIT_PROC_NR ..< NR_PROCS}" "live s r" "mp_pid (mproc s r) = in_i1 (mm_in s)"
    and uniq: "\<And>q. q \<in> {INIT_PROC_NR ..< NR_PROCS} \<Longrightarrow> live s q \<Longrightarrow> mp_pid (mproc s q) = mp_pid (mproc s r) \<Longrightarrow> q = r"
    and g: "in_i1 (mm_in s) > INIT_PID" and k: "in_i2 (mm_in s) = SIGKILL" and p: "permitted s r"
    and s1: "sig_proc e r SIGKILL s = Some (Ret s1)"
  shows "do_kill e s = Some (Ret (OK, if \<not> pflag s1 (mp s1) IN_USE \<or> pflag s1 (mp s1) HANGING then s1\<lparr>dont_reply := True\<rparr> else s1))"
proof -
  let ?g = "in_i1 (mm_in s)"
  have g: "?g > 1" using g by (simp add: INIT_PID_def)
  have sel: "selected s ?g SIGKILL r" using r g by (auto simp: selected_def live_def)
  have "check_sig_loop (sig_proc e) ?g SIGKILL [INIT_PROC_NR .. NR_PROCS - 1] 0 ESRCH s = Some (Ret ((0 + 1, ESRCH), s1))"
  proof (rule check_sig_loop_one [where sp = "sig_proc e" and r = r])
    show "?g > 0" "SIGKILL \<noteq> 0" "r \<in> set [INIT_PROC_NR .. NR_PROCS - 1]" using g r(1) by (simp_all add: SIGKILL_def)
    show "selected s ?g SIGKILL r" "permitted s r" "sig_proc e r SIGKILL s = Some (Ret s1)" using sel p s1 by simp_all
    have "\<not> selected s ?g SIGKILL q" if q: "q \<in> {INIT_PROC_NR ..< NR_PROCS}" "q \<noteq> r" for q
    proof
      assume sq: "selected s ?g SIGKILL q"
      then have "live s q" by (rule selected_live) (simp add: SIGKILL_def)
      moreover have "mp_pid (mproc s q) = mp_pid (mproc s r)" using sq r(3) g by (auto simp: selected_def)
      ultimately show False using uniq [OF q(1)] q(2) by blast
    qed
    then show "\<forall>q \<in> set [INIT_PROC_NR .. NR_PROCS - 1]. q \<noteq> r \<longrightarrow> \<not> selected s ?g SIGKILL q" by simp
  qed
  then show ?thesis
    using g k by (simp add: do_kill_def check_sig_def check_sig_with_def SIGKILL_def NSIG_def INIT_PID_def Let_def)
qed

text \<open>What happens to the entry of a process that ends while nobody waits for it, and that is no session leader of the caller.\<close>

lemma cleanup_row:
  assumes "cleanup e c s = Some (Ret s')" "r \<noteq> c" "r \<noteq> mp_parent (mproc s c)"
  shows "mproc s' r = mproc s r"
  using assms by (auto simp: cleanup_def Let_def reply_def split: if_splits)

lemma disinherit_row:
  assumes d: "disinherit e q c s = Some (Ret s')" and r: "r \<noteq> INIT_PROC_NR" "mp_parent (mproc s r) \<noteq> q"
  shows "mproc s' r = mproc s r"
proof (cases "pflag s c IN_USE \<and> mp_parent (mproc s c) = q")
  case True
  let ?s1 = "upd_mproc c (mp_parent_update (\<lambda>_. INIT_PROC_NR)) s"
  have rc: "r \<noteq> c" using r(2) True by auto
  have "mproc s' r = mproc ?s1 r"
  proof (cases "pflag ?s1 INIT_PROC_NR WAITING \<and> pflag ?s1 c HANGING")
    case True
    then have "cleanup e c ?s1 = Some (Ret s')" using d \<open>pflag s c IN_USE \<and> mp_parent (mproc s c) = q\<close>
      by (simp add: disinherit_def Let_def)
    then show ?thesis by (rule cleanup_row [OF _ rc]) (use r(1) in simp)
  next
    case False
    then have "s' = ?s1" using d \<open>pflag s c IN_USE \<and> mp_parent (mproc s c) = q\<close> by (auto simp: disinherit_def Let_def)
    then show ?thesis by simp
  qed
  then show ?thesis using rc by simp
qed (use d in \<open>auto simp: disinherit_def\<close>)

lemma disinherit_all_row:
  assumes "each (disinherit e q) cs s = Some (Ret s')" "r \<noteq> INIT_PROC_NR" "mp_parent (mproc s r) \<noteq> q"
  shows "mproc s' r = mproc s r"
  using assms
proof (induction cs arbitrary: s)
  case (Cons c cs)
  obtain s1 where s1: "disinherit e q c s = Some (Ret s1)" "each (disinherit e q) cs s1 = Some (Ret s')"
    using Cons.prems(1) by (auto simp: and_then_def split: option.splits outcome.splits)
  have "mproc s1 r = mproc s r" by (rule disinherit_row [OF s1(1) Cons.prems(2,3)])
  then show ?case using Cons.IH [OF s1(2) Cons.prems(2)] Cons.prems(3) by simp
qed simp


lemma mm_exit_hangs:
  assumes c: "calm e J" and i: "mm_inv J s" and r: "r \<in> set slots" "live s r" "r \<noteq> INIT_PROC_NR" "mp_parent (mproc s r) \<noteq> r"
    and w: "\<not> pflag s (mp_parent (mproc s r)) WAITING" and g: "mp_pid (mproc s r) \<noteq> mp_procgrp (mproc s (mp s))"
  shows "\<exists>s'. mm_exit EXIT_FUEL e r st s = Some (Ret s') \<and> mmr J s s' \<and> pflag s' r IN_USE \<and> pflag s' r HANGING \<and>
    pflag s' r STOPPED = pflag s r STOPPED"
proof -
  obtain s' where s': "mm_exit EXIT_FUEL e r st s = Some (Ret s')" "mmr J s s'"
    using mm_exit_full [OF c i r(1,2)] by blast
  have ok: "clock_ok e evs" for evs using c by (simp add: calm_def)
  let ?p = "mp_parent (mproc s r)"
  define s1 where "s1 = (if pflag s r ALARM_ON then emit (SetAlarm r 0) (clear_flag r ALARM_ON s) else s)"
  have s1: "\<exists>x. (if pflag s r ALARM_ON then set_alarm e r 0 s else Some (Ret (0, s))) = Some (Ret (x, s1))"
    using ok by (auto simp: s1_def set_alarm_def Let_def HZ_def)
  have p1: "mp_parent (mproc s1 q) = mp_parent (mproc s q)" "pflag s1 q WAITING = pflag s q WAITING" "pflag s1 q STOPPED = pflag s q STOPPED"
      "pflag s1 q IN_USE = pflag s q IN_USE" for q
    by (auto simp: s1_def flag_simps bit_and_iff bit_not_iff)
  define s2 where "s2 = emit (SysXit ?p r) (tell_fs EXIT_CALL r 0 0 s1)"
  obtain b n where bn: "xit_val e (out s2) = (b, n)" by fastforce
  have m2: "mproc s2 = mproc s1" by (simp add: s2_def tell_fs_def)
  let ?s3 = "\<lambda>h. upd_mproc r (mp_exitstatus_update (\<lambda>_. to_char st)) (s2\<lparr>holes := h\<rparr>)"
  have W: "\<not> pflag (?s3 h) (mp_parent (mproc (?s3 h) r)) WAITING" for h using w p1 by (auto simp: m2)
  obtain x where x: "(if pflag s r ALARM_ON then set_alarm e r 0 s else Some (Ret (0, s))) = Some (Ret (x, s1))" using s1 by blast
  obtain k where k: "EXIT_FUEL = Suc k" by (simp add: EXIT_FUEL_def)
  have "mm_exit EXIT_FUEL e r st s = and_then (free_mem b n (holes s2))
      (\<lambda>h. and_then (each (disinherit e r) slots (set_flag r HANGING (?s3 h))) (\<lambda>s5. Some (Ret s5)))"
    unfolding k mm_exit.simps mm_exit_with_def Let_def x and_then_simps prod.case p1(1) s2_def [symmetric] bn
    using W g by (simp del: upd_mproc_sel)
  then obtain h where h: "free_mem b n (holes s2) = Some (Ret h)" and d0: "each (disinherit e r) slots (set_flag r HANGING (?s3 h)) = Some (Ret s')"
    using s'(1) by (auto simp: and_then_def simp del: upd_mproc_sel split: option.splits outcome.splits)
  define s4 where "s4 = set_flag r HANGING (?s3 h)"
  have d: "each (disinherit e r) slots s4 = Some (Ret s')" using d0 by (simp only: s4_def)
  have "mproc s' r = mproc s4 r" by (rule disinherit_all_row [OF d r(3)]) (use r(4) p1 m2 in \<open>simp add: s4_def\<close>)
  moreover have "pflag s4 r IN_USE" "pflag s4 r HANGING" "pflag s4 r STOPPED = pflag s r STOPPED"
    using r(2) p1 [of r] by (auto simp: s4_def m2 live_def flag_simps bit_or_iff)
  ultimately show ?thesis using s' by auto
qed

lemma mm_main_keeps:
  assumes "calm e J" and "lends J" and "mm_inv J s"
    and caller: "src \<in> set slots \<and> live s src \<or> src = HARDWARE \<and> call = KSIG \<and> in_i1 msg \<in> set slots"
    and trace: "call = 26 \<Longrightarrow> trace_safe (s\<lparr>mm_in := msg\<rparr>)"
    and exec: "\<And>s. mm_inv J s \<Longrightarrow> \<exists>r s'. ex s = Some (Ret (r, s')) \<and> mm_inv J s'"
  shows "\<exists>s'. mm_main e ex src call msg s = Some (Ret s') \<and> mm_inv J s'"
proof -
  define s1 where "s1 = s\<lparr>mm_in := msg, who := src, mm_call := call, mp := src, dont_reply := False\<rparr>"
  have i: "mm_inv J s1" using assms(3) by (simp add: mm_inv_def s1_def used_def)
  have ex: "keeps J (ex s1)" using exec [OF i] by (simp add: keeps_def)
  have k: "keeps J (call_vec e ex call s1)"
  proof (cases "src = HARDWARE")
    case True
    have "keeps J (do_ksig e s1)"
      by (rule do_ksig_keeps [OF assms(1) i]) (use caller True in \<open>auto simp: s1_def slots_def HARDWARE_def\<close>)
    moreover have "call = KSIG" using caller True by (auto simp: slots_def HARDWARE_def)
    ultimately show ?thesis
      by (simp add: call_vec_def KSIG_def EXIT_CALL_def FORK_CALL_def WAIT_CALL_def GETPID_CALL_def SETUID_CALL_def
          GETUID_CALL_def SETGID_CALL_def GETGID_CALL_def SETSID_CALL_def GETPGRP_CALL_def EXEC_CALL_def)
  next
    case False
    then show ?thesis
      by (intro call_vec_keeps [where ex = ex] assms(1,2) i ex)
        (use caller trace in \<open>auto simp: s1_def live_def trace_safe_def findproc_def\<close>)
  qed
  have "keeps J (if call < 0 \<or> call \<ge> NCALLS then Some (Ret (EBADCALL, s1)) else call_vec e ex call s1)"
    using k i by (simp add: keeps_def)
  then obtain err s2 where r: "(if call < 0 \<or> call \<ge> NCALLS then Some (Ret (EBADCALL, s1)) else call_vec e ex call s1) = Some (Ret (err, s2))"
    and i2: "mm_inv J s2" unfolding keeps_def by blast
  obtain s3 where "reply e (who s2) err (result2 s2) (res_ptr s2) s2 = Some (Ret s3)" "mmr J s2 s3"
    using reply_runs [OF assms(1)] unfolding mr.runs_def by blast
  then show ?thesis
    using i2 mm_inv_mmr [OF i2] unfolding mm_main_def Let_def s1_def [symmetric] r by simp
qed

section \<open>Properties\<close>

text \<open>
  The state between two messages: the count of processes is right, SIGKILL always gets through, the last
  pid given out is in range, and the hole list and the blocks of the live processes divide up the memory.
\<close>

definition mm_ok :: "env \<Rightarrow> mems \<Rightarrow> nat set \<Rightarrow> mm \<Rightarrow> bool" where
  "mm_ok e m0 ram = mm_inv (ledger e m0 ram)"

lemma mm_ok_dead:
  assumes "mm_ok e m0 ram s" "\<not> live s r"
  shows "blk (account e m0 [] (out s)) r = None" "held (blk (account e m0 [] (out s))) \<union> free_clicks (holes s) = ram"
proof -
  have l: "ledger e m0 ram (out s) (live_sizes s) (holes s)" using assms(1) by (simp add: mm_ok_def mm_inv_def)
  show "blk (account e m0 [] (out s)) r = None" using ledgerD(2) [OF l, of r] assms(2) by (simp add: live_sizes_def)
  show "held (blk (account e m0 [] (out s))) \<union> free_clicks (holes s) = ram" by (rule ledgerD(8) [OF l])
qed

lemma sample_ok: "mm_ok sample_kernel sample_mems {1000 ..< 4000} sample_mm"
proof -
  have "used sample_mm = {0, 1, 2, 3, 4, 5}"
    by (auto simp: used_def sample_mm_def sample_table_def blank_mproc_def slots_def NR_PROCS_def flag_simps)
  moreover have "ledger sample_kernel sample_mems {1000 ..< 4000} (out sample_mm) (live_sizes sample_mm) (holes sample_mm)"
    using sample_ledger by (simp add: sample_mm_def)
  moreover have "kill_ok (mproc sample_mm p)" for p by (simp add: sample_mm_def sample_table_def blank_mproc_def kill_ok_def)
  moreover have "procs_in_use sample_mm = 6" "next_pid sample_mm = 11" by (simp_all add: sample_mm_def)
  ultimately show ?thesis by (simp add: mm_ok_def mm_inv_def)
qed

lemma mm_ok_fields [simp]:
  "mm_ok e m0 ram (s\<lparr>mm_in := i\<rparr>) = mm_ok e m0 ram s"
  by (simp add: mm_ok_def mm_inv_def used_def)

text \<open>
  (C3) The memory manager survives every message that a live process sends, with any call number and any
  parameters (a \<^verbatim>\<open>ptrace\<close> call must not name a HANGING process: that can panic, as shown below), and every KSIG message of the kernel:
  one round of the main loop ends without a panic. Afterwards the number of processes in use is again the number of
  table entries in use, no process has SIGKILL blocked, ignored or caught, the last pid given out is
  between 1 and 30000, exactly the live processes have a block of memory in the kernel's books, and these
  blocks and the holes of the hole list are disjoint and make up the memory \<open>ram\<close>. So nothing is lost or freed twice over all forks and exits, and the hole table does not
  overflow. Assumed of the kernel: \<open>kernel_ok\<close>; of the memory: fewer than 64 banks; of \<^verbatim>\<open>do_exec\<close>, a
  parameter: it returns and keeps this invariant.
\<close>

theorem mm_main_invariant:
  assumes "kernel_ok e m0" and "few_banks ram" and "mm_ok e m0 ram s"
    and caller: "src \<in> set slots \<and> live s src \<or> src = HARDWARE \<and> call = KSIG \<and> in_i1 msg \<in> set slots"
    and trace: "call = 26 \<Longrightarrow> trace_safe (s\<lparr>mm_in := msg\<rparr>)"
    and exec: "\<And>s. mm_ok e m0 ram s \<Longrightarrow> \<exists>r s'. ex s = Some (Ret (r, s')) \<and> mm_ok e m0 ram s'"
  shows "\<exists>s'. mm_main e ex src call msg s = Some (Ret s') \<and> mm_ok e m0 ram s'"
  unfolding mm_ok_def
  by (rule mm_main_keeps [OF ledger_calm [OF assms(1,2)] ledger_lends _ caller trace])
     (use assms(3) exec in \<open>simp_all add: mm_ok_def\<close>)

text \<open>Process 5 exits: its 210 clicks are free again.\<close>

theorem mm_main_invariant_witness:
  "\<exists>s'. mm_main sample_kernel (\<lambda>s. Some (Ret (OK, s))) 5 EXIT_CALL (mm_in sample_mm) sample_mm = Some (Ret s') \<and>
     mm_ok sample_kernel sample_mems {1000 ..< 4000} s'"
  by (rule mm_main_invariant [OF sample_kernel_ok sample_banks sample_ok])
     (auto simp: live_def sample_mm_def sample_table_def blank_mproc_def flag_simps slots_def NR_PROCS_def EXIT_CALL_def)

text \<open>
  (C22) \<^verbatim>\<open>fork\<close>: when the table is full, or all but two entries are used and the caller is not the
  super-user, it fails with EAGAIN and changes nothing. Otherwise \<^verbatim>\<open>alloc_mem\<close> is asked for the clicks from the
  start of the data to the end of the stack: exactly when no hole is that long the call fails with ENOMEM and leaves the table alone;
  otherwise it fills a free slot with a copy of the caller's entry that differs in
  parent, pid and exit status and is not traced, counts it, tells kernel and file system, with the block that was found, wakes
  the child with a 0 and returns the child's pid to the parent. The search for a pid ends; the
  pid is in 2..30000 and is neither the pid nor the process group of any other entry.
\<close>

theorem do_fork_creates_child:
  assumes "kernel_ok e m0" and "few_banks ram" and "mm_ok e m0 ram s" and caller: "who s = mp s" "mp s \<in> set slots" and "live s (mp s)"
  shows "if fork_refused s then do_fork e s = Some (Ret (EAGAIN, s))
    else \<exists>es b h. holes_of (holes s) es \<and> alloc_mem (clicks (mproc s (mp s))) (holes s) = Some (b, h) \<and>
      (b = NO_MEM \<longleftrightarrow> (\<forall>(a, l) \<in> set es. l < clicks (mproc s (mp s)))) \<and>
      (if b = NO_MEM then do_fork e s = Some (Ret (ENOMEM, s\<lparr>holes := h\<rparr>))
       else \<exists>k n. do_fork e s = Some (Ret (n, forked k n b h s)) \<and> k \<in> set slots \<and> \<not> pflag s k IN_USE \<and>
         2 \<le> n \<and> n \<le> 30000 \<and> (\<forall>q \<in> set slots - {k}. mp_pid (mproc s q) \<noteq> n \<and> mp_procgrp (mproc s q) \<noteq> n))"
proof (cases "fork_refused s")
  case True
  then show ?thesis by (simp add: do_fork_refused)
next
  case False
  have i: "mm_inv (ledger e m0 ram) s" using assms(3) by (simp add: mm_ok_def)
  then have "hole_inv (holes s)" unfolding mm_inv_def by (auto dest: ledgerD(1))
  then obtain es where es: "holes_of (holes s) es" by (auto simp: hole_inv_def)
  have nm: "b = NO_MEM \<longleftrightarrow> (\<forall>(a, l) \<in> set es. l < n)" if al: "alloc_mem n (holes s) = Some (b, h)" for b h n
  proof -
    have "canon es" using es by (auto simp: holes_of_def)
    then show ?thesis using alloc_mem_holes [OF es, of n] first_fit_fails [of es n] al by auto
  qed
  show ?thesis
  proof (rule do_fork_cases [OF ledger_calm [OF assms(1,2)] ledger_lends i caller assms(6) False])
    fix h assume h: "alloc_mem (clicks (mproc s (mp s))) (holes s) = Some (NO_MEM, h)" "do_fork e s = Some (Ret (ENOMEM, s\<lparr>holes := h\<rparr>))"
    show ?thesis unfolding if_not_P [OF False] by (rule exI [of _ es], rule exI [of _ NO_MEM], rule exI [of _ h]) (use h es nm [OF h(1)] in simp)
  next
    fix b h n k assume h: "alloc_mem (clicks (mproc s (mp s))) (holes s) = Some (b, h)" "b \<noteq> NO_MEM"
      and k: "do_fork e s = Some (Ret (n, forked k n b h s))" "k \<in> set slots" "\<not> pflag s k IN_USE"
      "n \<in> {2..30000}" "\<forall>q \<in> set slots - {k}. mp_pid (mproc s q) \<noteq> n \<and> mp_procgrp (mproc s q) \<noteq> n"
    have n: "2 \<le> n" "n \<le> 30000" using k(4) by simp_all
    show ?thesis unfolding if_not_P [OF False]
      by (rule exI [of _ es], rule exI [of _ b], rule exI [of _ h], unfold if_not_P [OF h(2)])
         (intro conjI es h(1) nm [OF h(1)] exI [of _ k] exI [of _ n] k(1-3,5) n)
  qed
qed

theorem do_fork_creates_child_witness:
  "\<exists>k n h. do_fork sample_kernel sample_mm = Some (Ret (n, forked k n 2260 h sample_mm)) \<and> \<not> pflag sample_mm k IN_USE \<and> 2 \<le> n \<and> n \<le> 30000"
proof -
  have l: "live sample_mm (mp sample_mm)" "who sample_mm = mp sample_mm" "mp sample_mm \<in> set slots"
    by (simp_all add: live_def sample_mm_def sample_table_def blank_mproc_def flag_simps slots_def NR_PROCS_def)
  have r: "\<not> fork_refused sample_mm" by (simp add: fork_refused_def sample_mm_def)
  have k: "clicks (mproc sample_mm (mp sample_mm)) = 210" by (simp add: clicks_def sample_mm_def sample_table_def blank_mproc_def)
  have "holes sample_mm = sample_holes" by (simp add: sample_mm_def)
  then obtain h where h: "alloc_mem 210 (holes sample_mm) = Some (2260, h)" using alloc_mem_holes [OF sample_holes_of, of 210] by auto
  have n: "(2260 :: nat) \<noteq> NO_MEM" by (simp add: NO_MEM_def)
  show ?thesis
    using do_fork_creates_child [OF sample_kernel_ok sample_banks sample_ok l(2,3,1)] n
    unfolding if_not_P [OF r] k h option.inject prod.inject by (metis (no_types, lifting))
qed

text \<open>
  (C23) Nothing survives \<^verbatim>\<open>kill -9\<close>: when a process that is allowed to signal it sends SIGKILL to a live
  process other than INIT, naming its pid, which no other live process has, the call returns OK and that process is dead (its slot
  is free or it waits to be collected), whether it was traced, stopped, paused, or had tried to
  block, ignore or catch the signal. It has no memory any more: the holes and the blocks of the other live processes make up the whole memory.
\<close>

theorem kill_9_kills:
  assumes "kernel_ok e m0" and "few_banks ram" and "mm_ok e m0 ram s"
    and r: "r \<in> {INIT_PROC_NR ..< NR_PROCS}" "live s r" "mp_pid (mproc s r) = in_i1 (mm_in s)"
    and uniq: "\<And>q. q \<in> {INIT_PROC_NR ..< NR_PROCS} \<Longrightarrow> live s q \<Longrightarrow> mp_pid (mproc s q) = mp_pid (mproc s r) \<Longrightarrow> q = r"
    and g: "in_i1 (mm_in s) > INIT_PID" and k: "in_i2 (mm_in s) = SIGKILL" and p: "permitted s r"
  shows "\<exists>s'. do_kill e s = Some (Ret (OK, s')) \<and> mm_ok e m0 ram s' \<and> \<not> live s' r \<and>
    blk (account e m0 [] (out s')) r = None \<and> held (blk (account e m0 [] (out s'))) \<union> free_clicks (holes s') = ram"
proof -
  let ?J = "ledger e m0 ram"
  have i: "mm_inv ?J s" using assms(3) by (simp add: mm_ok_def)
  have rs: "r \<in> set slots" using r(1) by (simp add: slots_def INIT_PROC_NR_def)
  obtain s1 where s1: "sig_proc e r SIGKILL s = Some (Ret s1)" "mmr ?J s s1" "\<not> live s1 r"
    using sig_proc_kill [OF ledger_calm [OF assms(1,2)] i rs r(2)] by blast
  define s' where "s' = (if \<not> pflag s1 (mp s1) IN_USE \<or> pflag s1 (mp s1) HANGING then s1\<lparr>dont_reply := True\<rparr> else s1)"
  have "mmr ?J s s'" using mmr_trans [OF s1(2) mmr_dont_reply] s1(2) by (simp add: s'_def)
  then have ok: "mm_ok e m0 ram s'" unfolding mm_ok_def by (rule mm_inv_mmr [OF i])
  have dead: "\<not> live s' r" using s1(3) by (auto simp: s'_def live_def)
  have "do_kill e s = Some (Ret (OK, s'))"
    unfolding s'_def by (rule do_kill_one [OF r uniq g k p s1(1)])
  then show ?thesis using ok dead mm_ok_dead [OF ok dead] by blast
qed

theorem kill_9_kills_witness:
  "\<exists>s'. do_kill sample_kernel (sample_mm\<lparr>mm_in := (mm_in sample_mm)\<lparr>in_i1 := 11, in_i2 := 9\<rparr>\<rparr>) = Some (Ret (OK, s')) \<and>
     mm_ok sample_kernel sample_mems {1000 ..< 4000} s' \<and> \<not> live s' 5 \<and>
     blk (account sample_kernel sample_mems [] (out s')) 5 = None \<and>
     held (blk (account sample_kernel sample_mems [] (out s'))) \<union> free_clicks (holes s') = {1000 ..< 4000}"
  by (rule kill_9_kills [OF sample_kernel_ok sample_banks])
     (auto simp: sample_ok, auto simp: live_def sample_mm_def sample_table_def blank_mproc_def flag_simps permitted_def INIT_PROC_NR_def INIT_PID_def
       NR_PROCS_def SIGKILL_def split: if_splits)

lemma check_sig_loop_probe:
  "check_sig_loop sp g 0 rs k er s = Some (Ret ((k + int (length (filter (\<lambda>r. selected s g 0 r \<and> permitted s r) rs)),
     if \<exists>r \<in> set rs. selected s g 0 r \<and> \<not> permitted s r then EPERM else er), s))"
  by (induction rs arbitrary: k er) auto

text \<open>
  \<^verbatim>\<open>kill(pid, 0)\<close> is a pure test: it changes nothing and returns OK when some process the pid
  names may be signalled, EPERM when there are such processes but none may be, and ESRCH when
  there is none.
\<close>

theorem kill_0_probes:
  assumes "in_i2 (mm_in s) = 0" and "live s (mp s)"
  shows "do_kill e s = Some (Ret (
     if \<exists>r \<in> {INIT_PROC_NR ..< NR_PROCS}. selected s (in_i1 (mm_in s)) 0 r \<and> permitted s r then OK
     else if \<exists>r \<in> {INIT_PROC_NR ..< NR_PROCS}. selected s (in_i1 (mm_in s)) 0 r then EPERM else ESRCH, s))"
proof -
  let ?rs = "[INIT_PROC_NR .. NR_PROCS - 1]"
  have set: "set ?rs = {INIT_PROC_NR ..< NR_PROCS}" by auto
  have cnt: "0 < int (length (filter P ?rs)) \<longleftrightarrow> (\<exists>r \<in> {INIT_PROC_NR ..< NR_PROCS}. P r)" for P
    unfolding set [symmetric] by (simp add: filter_empty_conv del: set_upto)
  show ?thesis
    using assms(2) unfolding do_kill_def check_sig_def check_sig_with_def assms(1) check_sig_loop_probe set and_then_simps prod.case add_0 cnt
    by (auto simp: live_def SIGKILL_def NSIG_def Let_def)
qed

theorem kill_0_probes_witness:
  "do_kill sample_env (sample_mm\<lparr>mm_in := (mm_in sample_mm)\<lparr>in_i1 := 1, in_i2 := 0\<rparr>\<rparr>) =
     Some (Ret (EPERM, sample_mm\<lparr>mm_in := (mm_in sample_mm)\<lparr>in_i1 := 1, in_i2 := 0\<rparr>\<rparr>))"
proof -
  define s where "s = sample_mm\<lparr>mm_in := (mm_in sample_mm)\<lparr>in_i1 := 1, in_i2 := 0\<rparr>\<rparr>"
  note defs = s_def live_def sample_mm_def sample_table_def blank_mproc_def flag_simps permitted_def selected_def INIT_PROC_NR_def
    INIT_PID_def NR_PROCS_def SUPER_USER_def
  have a: "selected s 1 0 3" "live s (mp s)" "in_i1 (mm_in s) = 1" "in_i2 (mm_in s) = 0" by (simp_all add: defs)
  have b: "\<not> (selected s 1 0 r \<and> permitted s r)" for r by (simp add: defs)
  have "3 \<in> {INIT_PROC_NR ..< NR_PROCS}" by (simp add: defs)
  then have "\<exists>r \<in> {INIT_PROC_NR ..< NR_PROCS}. selected s 1 0 r" using a(1) by blast
  then have "do_kill sample_env s = Some (Ret (EPERM, s))" using kill_0_probes [OF a(4,2), of sample_env] b by (simp add: a(3))
  then show ?thesis by (simp add: s_def)
qed

text \<open>\<^verbatim>\<open>do_trace\<close> panics when it is to resume a HANGING process with a signal.\<close>

lemma trace_hanging:
  assumes "findproc (in_i1 (mm_in s)) s = Some k" and "pflag s k STOPPED" and "pflag s k HANGING"
    and "in_i2 (mm_in s) \<in> {7, 9}" and "0 < in_l2 (mm_in s)" and "in_l2 (mm_in s) \<le> NSIG"
  shows "do_trace e s = Some (Panic ''signal sent to HANGING process'')"
proof -
  have "pflag s k IN_USE" using findproc_Some [OF assms(1)] by simp
  then have "sig_proc e k (in_l2 (mm_in s)) (clear_flag k TRACED s) = Some (Panic ''signal sent to HANGING process'')"
    using assms(3) by (simp add: sig_proc_def sig_proc_with_def)
  then show ?thesis using assms by (auto simp: do_trace_def Let_def)
qed

lemma findproc_unique:
  assumes "r \<in> {INIT_PROC_NR <..< NR_PROCS}" "pflag s r IN_USE" "mp_pid (mproc s r) = n"
    "\<And>q. q \<in> {INIT_PROC_NR <..< NR_PROCS} \<Longrightarrow> pflag s q IN_USE \<Longrightarrow> mp_pid (mproc s q) = n \<Longrightarrow> q = r"
  shows "findproc n s = Some r"
proof (cases "findproc n s")
  case None
  then show ?thesis using assms(1-3) by (auto simp: findproc_def find_None_iff)
next
  case (Some q)
  then have "q \<in> {INIT_PROC_NR <..< NR_PROCS} \<and> pflag s q IN_USE \<and> mp_pid (mproc s q) = n"
    unfolding findproc_def by (drule_tac find_SomeD) auto
  then show ?thesis using assms(4) Some by blast
qed

text \<open>
  (C25) \<^verbatim>\<open>do_trace\<close> looks for a stopped process but not for one that is alive. When a live and stopped process
  other than INIT is killed with SIGKILL by a process that may signal it and whose process group is not the victim's pid, and its parent
  is another process that does not wait, then the call returns OK, and if the next call is an attempt to resume or step
  the victim with a signal, by any process, it panics the system: \<^verbatim>\<open>sig_proc\<close> is called for a HANGING process.
\<close>

theorem trace_hanging_panics:
  assumes "kernel_ok e m0" and "few_banks ram" and "mm_ok e m0 ram s"
    and r: "r \<in> {INIT_PROC_NR <..< NR_PROCS}" "live s r" "pflag s r STOPPED" "mp_pid (mproc s r) = in_i1 (mm_in s)"
    and uniq: "\<And>q. q \<in> {INIT_PROC_NR ..< NR_PROCS} \<Longrightarrow> pflag s q IN_USE \<Longrightarrow> mp_pid (mproc s q) = mp_pid (mproc s r) \<Longrightarrow> q = r"
    and g: "in_i1 (mm_in s) > INIT_PID" and k: "in_i2 (mm_in s) = SIGKILL" and p: "permitted s r"
    and par: "mp_parent (mproc s r) \<noteq> r" "\<not> pflag s (mp_parent (mproc s r)) WAITING" and grp: "mp_procgrp (mproc s (mp s)) \<noteq> mp_pid (mproc s r)"
  shows "\<exists>s'. do_kill e s = Some (Ret (OK, s')) \<and>
    (\<forall>e' src msg. in_i1 msg = in_i1 (mm_in s) \<longrightarrow> in_i2 msg \<in> {7, 9} \<longrightarrow> 0 < in_l2 msg \<longrightarrow> in_l2 msg \<le> NSIG \<longrightarrow>
       do_trace e' (s'\<lparr>mm_in := msg, who := src, mp := src\<rparr>) = Some (Panic ''signal sent to HANGING process''))"
proof -
  let ?J = "ledger e m0 ram"
  note c = ledger_calm [OF assms(1,2)]
  have i: "mm_inv ?J s" using assms(3) by (simp add: mm_ok_def)
  have rs: "r \<in> set slots" "r \<in> {INIT_PROC_NR ..< NR_PROCS}" "r \<noteq> INIT_PROC_NR" using r(1) by (auto simp: slots_def INIT_PROC_NR_def)
  obtain s2 where s2: "sig_proc e r SIGKILL s = mm_exit EXIT_FUEL e r 0 s2" "mmr ?J s s2" "live s2 r"
    "\<And>q. mp_flags (mproc s2 q) = mp_flags (mproc s q)" "\<And>q. mp_parent (mproc s2 q) = mp_parent (mproc s q)"
    by (rule sig_proc_exits [OF c i r(2)]) (use that in blast)
  have same: "mp_pid (mproc s2 q) = mp_pid (mproc s q)" "mp_procgrp (mproc s2 q) = mp_procgrp (mproc s q)" for q
    using mmrD(7) [OF s2(2), of q] by (simp_all add: same_ids_def)
  obtain s1 where s1: "mm_exit EXIT_FUEL e r 0 s2 = Some (Ret s1)" "mmr ?J s2 s1" "pflag s1 r IN_USE" "pflag s1 r HANGING" "pflag s1 r STOPPED"
    using mm_exit_hangs [OF c mm_inv_mmr [OF i s2(2)] rs(1) s2(3) rs(3), of 0] par grp s2(4,5) same mmrD(2) [OF s2(2)] r(3) by fastforce
  have m: "mmr ?J s s1" by (rule mmr_trans [OF s2(2) s1(2)])
  define s' where "s' = (if \<not> pflag s1 (mp s1) IN_USE \<or> pflag s1 (mp s1) HANGING then s1\<lparr>dont_reply := True\<rparr> else s1)"
  have mp: "mproc s' = mproc s1" by (simp add: s'_def)
  have "do_kill e s = Some (Ret (OK, s'))"
    unfolding s'_def by (rule do_kill_one [OF rs(2) r(2,4) _ g k p]) (use uniq s2(1) s1(1) in \<open>auto simp: live_def\<close>)
  moreover have "do_trace e' (s'\<lparr>mm_in := msg, who := src, mp := src\<rparr>) = Some (Panic ''signal sent to HANGING process'')"
    if q: "in_i1 msg = in_i1 (mm_in s)" "in_i2 msg \<in> {7, 9}" "0 < in_l2 msg" "in_l2 msg \<le> NSIG" for e' src msg
  proof -
    let ?t = "s'\<lparr>mm_in := msg, who := src, mp := src\<rparr>"
    have pid: "mp_pid (mproc s1 q) = mp_pid (mproc s q)" for q using mmrD(7) [OF m, of q] by (simp add: same_ids_def)
    have "findproc (in_i1 (mm_in s)) ?t = Some r"
      by (rule findproc_unique [OF r(1)]) (use s1(3) pid mmrD(8) [OF m] uniq r(4) in \<open>auto simp: mp\<close>)
    then have "findproc (in_i1 (mm_in ?t)) ?t = Some r" using q(1) by simp
    then show ?thesis by (rule trace_hanging) (use s1 q in \<open>simp_all add: mp\<close>)
  qed
  ultimately show ?thesis by blast
qed

definition traced_mm :: mm where
  "traced_mm = (set_flag 5 (TRACED OR STOPPED) sample_mm)\<lparr>mm_in := (mm_in sample_mm)\<lparr>in_i1 := 11, in_i2 := 9\<rparr>\<rparr>"

theorem trace_hanging_panics_witness:
  "\<exists>s'. do_kill sample_kernel traced_mm = Some (Ret (OK, s')) \<and>
     do_trace sample_kernel (s'\<lparr>mm_in := (mm_in sample_mm)\<lparr>in_i1 := 11, in_i2 := 7, in_l2 := 1\<rparr>, who := 4, mp := 4\<rparr>)
       = Some (Panic ''signal sent to HANGING process'')"
proof -
  note defs = traced_mm_def sample_mm_def sample_table_def blank_mproc_def flag_simps INIT_PROC_NR_def INIT_PID_def NR_PROCS_def SIGKILL_def NSIG_def
  have "mm_inv (ledger sample_kernel sample_mems {1000 ..< 4000}) (set_flag 5 (TRACED OR STOPPED) sample_mm)"
    by (rule mm_inv_upd [OF sample_ok [unfolded mm_ok_def]]) (auto simp: flag_simps bit_or_iff)
  then have ok: "mm_ok sample_kernel sample_mems {1000 ..< 4000} traced_mm" unfolding traced_mm_def mm_ok_fields by (simp add: mm_ok_def)
  have "\<exists>s'. do_kill sample_kernel traced_mm = Some (Ret (OK, s')) \<and>
    (\<forall>e' src msg. in_i1 msg = in_i1 (mm_in traced_mm) \<longrightarrow> in_i2 msg \<in> {7, 9} \<longrightarrow> 0 < in_l2 msg \<longrightarrow> in_l2 msg \<le> NSIG \<longrightarrow>
       do_trace e' (s'\<lparr>mm_in := msg, who := src, mp := src\<rparr>) = Some (Panic ''signal sent to HANGING process''))"
    by (rule trace_hanging_panics [OF sample_kernel_ok sample_banks ok, of 5])
       (auto simp: live_def permitted_def defs bit_or_iff split: if_splits)
  then show ?thesis by (fastforce simp: defs)
qed

end
