(* ===== verification/Fs_Cache.thy ===== *)
theory Fs_Cache
  imports Prelude
begin

unbundle bit_operations_syntax

text \<open>
  The block cache of the file system, \<^verbatim>\<open>src/src/fs/cache.c\<close>, \<^verbatim>\<open>cache2.c\<close>, \<^verbatim>\<open>buf.h\<close> and \<^verbatim>\<open>buf_pool\<close> of
  \<^verbatim>\<open>main.c\<close>: a static table of \<^verbatim>\<open>NR_BUFS\<close> buffers, threaded by \<^verbatim>\<open>b_next\<close> and \<^verbatim>\<open>b_prev\<close> into the LRU
  chain of the buffers that nobody uses and by \<^verbatim>\<open>b_hash\<close> into hash chains, on top of a second
  level cache on the RAM disk. A buffer pointer is an index, \<^verbatim>\<open>NIL_BUF\<close> is \<open>None\<close>. Devices are
  outside: \<open>disk\<close> is what they hold, and the \<open>n\<close>-th transfer of a block moves \<open>io n\<close> bytes; a
  transfer that does not move all of \<^verbatim>\<open>BLOCK_SIZE\<close> changes neither memory nor disk.
\<close>

section \<open>Data\<close>

type_synonym data = "nat \<Rightarrow> 8 word"

record buf =
  b_data :: data
  b_next :: "nat option"
  b_prev :: "nat option"
  b_hash :: "nat option"
  b_blocknr :: nat
  b_dev :: int
  b_dirt :: bool
  b_count :: int

record buf2 =
  b2_blocknr :: nat
  b2_dev :: int
  b2_count :: "16 word"

record cache =
  buf :: "nat \<Rightarrow> buf"
  buf_hash :: "nat \<Rightarrow> nat option"
  front :: "nat option"
  rear :: "nat option"
  bufs_in_use :: int
  buf2 :: "nat \<Rightarrow> buf2"
  nr_buf2 :: nat
  buf2_idx :: nat
  disk :: "int \<Rightarrow> nat \<Rightarrow> data"
  io_nr :: nat
  rdwt_err :: int

definition NR_BUFS :: nat where "NR_BUFS = 256"
definition NR_BUF_HASH :: nat where "NR_BUF_HASH = 256"
definition MAX_BUF2 :: nat where "MAX_BUF2 = 1024"
definition BLOCK_SIZE :: int where "BLOCK_SIZE = 1024"
definition NR_IOREQS :: nat where "NR_IOREQS = 64"
definition NO_DEV :: int where "NO_DEV = 0"
definition NO_BLOCK :: nat where "NO_BLOCK = 0"
definition DEV_RAM :: int where "DEV_RAM = 256"
definition END_OF_FILE :: int where "END_OF_FILE = - 104"

datatype search = NORMAL | NO_READ | PREFETCH

definition WRITE_IMMED :: int where "WRITE_IMMED = 64"
definition ONE_SHOT :: int where "ONE_SHOT = 128"
definition INODE_BLOCK :: int where "INODE_BLOCK = 0"
definition DIRECTORY_BLOCK :: int where "DIRECTORY_BLOCK = 1"
definition INDIRECT_BLOCK :: int where "INDIRECT_BLOCK = 2"
definition MAP_BLOCK :: int where "MAP_BLOCK = 3"
definition ZUPER_BLOCK :: int where "ZUPER_BLOCK = 4 + WRITE_IMMED + ONE_SHOT"
definition FULL_DATA_BLOCK :: int where "FULL_DATA_BLOCK = 5"
definition PARTIAL_DATA_BLOCK :: int where "PARTIAL_DATA_BLOCK = 6"

definition upd_buf :: "nat \<Rightarrow> (buf \<Rightarrow> buf) \<Rightarrow> cache \<Rightarrow> cache" where
  "upd_buf i f c = c\<lparr>buf := (buf c)(i := f (buf c i))\<rparr>"

text \<open>\<^verbatim>\<open>block & HASH_MASK\<close>, where \<^verbatim>\<open>HASH_MASK\<close> is \<^verbatim>\<open>NR_BUF_HASH - 1\<close>, all ones.\<close>

definition hash_of :: "nat \<Rightarrow> nat" where
  "hash_of block = block mod NR_BUF_HASH"

section \<open>Transfers\<close>

text \<open>\<^verbatim>\<open>dev_io\<close> for one block; the result is the number of bytes moved, or negative.\<close>

definition dev_read :: "(nat \<Rightarrow> int) \<Rightarrow> int \<Rightarrow> nat \<Rightarrow> nat \<Rightarrow> cache \<Rightarrow> int \<times> cache" where
  "dev_read io dev block bp c =
     (let r = io (io_nr c); c1 = c\<lparr>io_nr := io_nr c + 1\<rparr>
      in (r, if r = BLOCK_SIZE then upd_buf bp (b_data_update (\<lambda>_. disk c dev block)) c1 else c1))"

definition dev_write :: "(nat \<Rightarrow> int) \<Rightarrow> int \<Rightarrow> nat \<Rightarrow> nat \<Rightarrow> cache \<Rightarrow> int \<times> cache" where
  "dev_write io dev block bp c =
     (let r = io (io_nr c); c1 = c\<lparr>io_nr := io_nr c + 1\<rparr>
      in (r, if r = BLOCK_SIZE
             then c1\<lparr>disk := (disk c)(dev := (disk c dev)(block := b_data (buf c bp)))\<rparr> else c1))"

definition rw_block :: "(nat \<Rightarrow> int) \<Rightarrow> nat \<Rightarrow> bool \<Rightarrow> cache \<Rightarrow> cache" where
  "rw_block io bp reading c =
     (let dev = b_dev (buf c bp);
          c1 = (if dev \<noteq> NO_DEV then
                  let (r, c2) = (if reading then dev_read io dev (b_blocknr (buf c bp)) bp c
                                 else dev_write io dev (b_blocknr (buf c bp)) bp c)
                  in if r \<noteq> BLOCK_SIZE then
                       let r1 = (if r \<ge> 0 then END_OF_FILE else r);
                           c3 = upd_buf bp (b_dev_update (\<lambda>_. NO_DEV)) c2
                       in if reading then c3\<lparr>rdwt_err := r1\<rparr> else c3
                     else c2
                else c)
      in upd_buf bp (b_dirt_update (\<lambda>_. False)) c1)"

section \<open>The LRU chain\<close>

definition rm_lru :: "nat \<Rightarrow> cache \<Rightarrow> cache" where
  "rm_lru bp c =
     (let next_ptr = b_next (buf c bp); prev_ptr = b_prev (buf c bp);
          c1 = c\<lparr>bufs_in_use := bufs_in_use c + 1\<rparr>;
          c2 = (case prev_ptr of Some p \<Rightarrow> upd_buf p (b_next_update (\<lambda>_. next_ptr)) c1 | None \<Rightarrow> c1\<lparr>front := next_ptr\<rparr>)
      in case next_ptr of Some n \<Rightarrow> upd_buf n (b_prev_update (\<lambda>_. prev_ptr)) c2 | None \<Rightarrow> c2\<lparr>rear := prev_ptr\<rparr>)"

definition lru_front :: "nat \<Rightarrow> cache \<Rightarrow> cache" where
  "lru_front bp c =
     (let c1 = upd_buf bp (\<lambda>b. b\<lparr>b_prev := None, b_next := front c\<rparr>) c;
          c2 = (case front c of None \<Rightarrow> c1\<lparr>rear := Some bp\<rparr> | Some f \<Rightarrow> upd_buf f (b_prev_update (\<lambda>_. Some bp)) c1)
      in c2\<lparr>front := Some bp\<rparr>)"

definition lru_rear :: "nat \<Rightarrow> cache \<Rightarrow> cache" where
  "lru_rear bp c =
     (let c1 = upd_buf bp (\<lambda>b. b\<lparr>b_prev := rear c, b_next := None\<rparr>) c;
          c2 = (case rear c of None \<Rightarrow> c1\<lparr>front := Some bp\<rparr> | Some r \<Rightarrow> upd_buf r (b_next_update (\<lambda>_. Some bp)) c1)
      in c2\<lparr>rear := Some bp\<rparr>)"

text \<open>\<open>None\<close> as the buffer stands for \<^verbatim>\<open>NIL_BUF\<close>.\<close>

definition put_block :: "(nat \<Rightarrow> int) \<Rightarrow> nat option \<Rightarrow> int \<Rightarrow> cache \<Rightarrow> cache" where
  "put_block io bpo block_type c =
     (case bpo of
        None \<Rightarrow> c
      | Some bp \<Rightarrow>
          let c1 = upd_buf bp (b_count_update (\<lambda>n. n - 1)) c
          in if b_count (buf c1 bp) \<noteq> 0 then c1
             else
               let c2 = c1\<lparr>bufs_in_use := bufs_in_use c1 - 1\<rparr>;
                   c3 = (if block_type AND ONE_SHOT \<noteq> 0 then lru_front bp c2 else lru_rear bp c2)
               in if block_type AND WRITE_IMMED \<noteq> 0 \<and> b_dirt (buf c3 bp) \<and> b_dev (buf c3 bp) \<noteq> NO_DEV
                  then rw_block io bp False c3 else c3)"

section \<open>Scattered transfers\<close>

text \<open>
  The Shell sort of the queue of buffers on their block numbers. \<open>sift\<close> is the innermost loop,
  with \<open>j\<close> for \<^verbatim>\<open>i + gap\<close>.
\<close>

function sift :: "(nat \<Rightarrow> nat) \<Rightarrow> nat \<Rightarrow> nat \<Rightarrow> nat list \<Rightarrow> nat list" where
  "sift key gap j q =
     (if gap = 0 \<or> j < gap then q
      else if key (q ! (j - gap)) > key (q ! j) then sift key gap (j - gap) (q[j - gap := q ! j, j := q ! (j - gap)])
      else q)"
  by auto
termination by (relation "measure (\<lambda>(key, gap, j, q). j)") auto

declare sift.simps [simp del]

definition sort_pass :: "(nat \<Rightarrow> nat) \<Rightarrow> nat \<Rightarrow> nat list \<Rightarrow> nat list" where
  "sort_pass key gap q = fold (sift key gap) [gap ..< length q] q"

function first_gap :: "nat \<Rightarrow> nat \<Rightarrow> nat" where
  "first_gap gap n = (let g = 3 * gap + 1 in if g \<le> n then first_gap g n else g)"
  by auto
termination by (relation "measure (\<lambda>(gap, n). n + 1 - gap)") auto

declare first_gap.simps [simp del]

fun sort_gaps :: "nat \<Rightarrow> (nat \<Rightarrow> nat) \<Rightarrow> nat list \<Rightarrow> nat list" where
  "sort_gaps gap key q = (if gap \<le> 1 then q else sort_gaps (gap div 3) key (sort_pass key (gap div 3) q))"

declare sort_gaps.simps [simp del]

definition shell_sort :: "(nat \<Rightarrow> nat) \<Rightarrow> nat list \<Rightarrow> nat list" where
  "shell_sort key q = sort_gaps (first_gap 1 (length q)) key q"

text \<open>
  The transfers of one i/o vector of at most \<^verbatim>\<open>NR_IOREQS\<close> requests, and the harvest of its
  results.
\<close>

definition vec_io :: "(nat \<Rightarrow> int) \<Rightarrow> int \<Rightarrow> bool \<Rightarrow> nat \<Rightarrow> bool list \<times> cache \<Rightarrow> bool list \<times> cache" where
  "vec_io io dev reading bp st =
     (let (oks, c) = st;
          (r, c1) = (if reading then dev_read io dev (b_blocknr (buf c bp)) bp c
                     else dev_write io dev (b_blocknr (buf c bp)) bp c)
      in (oks @ [r = BLOCK_SIZE], c1))"

definition harvest :: "(nat \<Rightarrow> int) \<Rightarrow> int \<Rightarrow> bool \<Rightarrow> nat \<times> bool \<Rightarrow> cache \<Rightarrow> cache" where
  "harvest io dev reading r c =
     (let (bp, ok) = r
      in if reading
         then put_block io (Some bp) PARTIAL_DATA_BLOCK (if ok then upd_buf bp (b_dev_update (\<lambda>_. dev)) c else c)
         else upd_buf bp (b_dirt_update (\<lambda>_. False)) (if \<not> ok then upd_buf bp (b_dev_update (\<lambda>_. NO_DEV)) c else c))"

function scatter_loop :: "(nat \<Rightarrow> int) \<Rightarrow> int \<Rightarrow> nat list \<Rightarrow> bool \<Rightarrow> cache \<Rightarrow> cache" where
  "scatter_loop io dev bufq reading c =
     (if bufq = [] then c
      else
        let batch = take NR_IOREQS bufq;
            (oks, c1) = fold (vec_io io dev reading) batch ([], c);
            c2 = fold (harvest io dev reading) (zip batch oks) c1
        in scatter_loop io dev (drop NR_IOREQS bufq) reading c2)"
  by auto
termination by (relation "measure (\<lambda>(io, dev, q, rd, c). length q)") (auto simp: NR_IOREQS_def)

declare scatter_loop.simps [simp del]

definition rw_scattered :: "(nat \<Rightarrow> int) \<Rightarrow> int \<Rightarrow> nat list \<Rightarrow> bool \<Rightarrow> cache \<Rightarrow> cache" where
  "rw_scattered io dev bufq reading c =
     scatter_loop io dev (shell_sort (\<lambda>i. b_blocknr (buf c i)) bufq) reading c"

definition flushall :: "(nat \<Rightarrow> int) \<Rightarrow> int \<Rightarrow> cache \<Rightarrow> cache" where
  "flushall io dev c =
     rw_scattered io dev (filter (\<lambda>i. b_dirt (buf c i) \<and> b_dev (buf c i) = dev) [0 ..< NR_BUFS]) False c"

section \<open>The second level cache\<close>

definition init_cache2 :: "nat \<Rightarrow> cache \<Rightarrow> cache" where
  "init_cache2 n c = c\<lparr>nr_buf2 := (if n > MAX_BUF2 then MAX_BUF2 else n)\<rparr>"

definition hash2 :: "nat \<Rightarrow> nat" where
  "hash2 block = block mod MAX_BUF2"

text \<open>
  The backward search of \<^verbatim>\<open>get_block2\<close> looks at the slots below \<^verbatim>\<open>buf2_idx\<close>, wraps around and stops
  after \<^verbatim>\<open>buf2_idx\<close> itself: at the newest block first.
\<close>

definition order2 :: "nat \<Rightarrow> nat \<Rightarrow> nat list" where
  "order2 idx n = rev [0 ..< idx] @ rev [idx ..< n]"

definition find2 :: "int \<Rightarrow> nat \<Rightarrow> cache \<Rightarrow> nat option" where
  "find2 dev block c =
     List.find (\<lambda>b. b2_blocknr (buf2 c b) = block \<and> b2_dev (buf2 c b) = dev) (order2 (buf2_idx c) (nr_buf2 c))"

definition get_block2 :: "(nat \<Rightarrow> int) \<Rightarrow> nat \<Rightarrow> search \<Rightarrow> cache \<Rightarrow> bool \<times> cache" where
  "get_block2 io bp only_search c0 =
     (let c = (if b_dev (buf c0 bp) = DEV_RAM then c0\<lparr>nr_buf2 := 0\<rparr> else c0) in
      if nr_buf2 c = 0 \<or> only_search = NO_READ \<or> b2_count (buf2 c (hash2 (b_blocknr (buf c bp)))) = 0 then (False, c)
      else case find2 (b_dev (buf c bp)) (b_blocknr (buf c bp)) c of
             None \<Rightarrow> (False, c)
           | Some b \<Rightarrow> let (r, c1) = dev_read io DEV_RAM b bp c in (r = BLOCK_SIZE, c1))"

definition upd_buf2 :: "nat \<Rightarrow> (buf2 \<Rightarrow> buf2) \<Rightarrow> cache \<Rightarrow> cache" where
  "upd_buf2 i f c = c\<lparr>buf2 := (buf2 c)(i := f (buf2 c i))\<rparr>"

definition put_block2 :: "(nat \<Rightarrow> int) \<Rightarrow> nat \<Rightarrow> cache \<Rightarrow> cache" where
  "put_block2 io bp c =
     (if nr_buf2 c = 0 then c
      else
        let b = buf2_idx c;
            c1 = c\<lparr>buf2_idx := (if buf2_idx c + 1 = nr_buf2 c then 0 else buf2_idx c + 1)\<rparr>;
            (r, c2) = dev_write io DEV_RAM b bp c1
        in if r = BLOCK_SIZE then
             let c3 = (if b2_dev (buf2 c2 b) \<noteq> NO_DEV
                       then upd_buf2 (hash2 (b2_blocknr (buf2 c2 b))) (b2_count_update (\<lambda>n. n - 1)) c2 else c2);
                 c4 = upd_buf2 b (\<lambda>x. x\<lparr>b2_dev := b_dev (buf c bp), b2_blocknr := b_blocknr (buf c bp)\<rparr>) c3
             in upd_buf2 (hash2 (b2_blocknr (buf2 c4 b))) (b2_count_update (\<lambda>n. n + 1)) c4
           else c2)"

definition invalidate2 :: "int \<Rightarrow> cache \<Rightarrow> cache" where
  "invalidate2 device c =
     fold (\<lambda>b c. if b2_dev (buf2 c b) = device
                 then upd_buf2 (hash2 (b2_blocknr (buf2 c b))) (b2_count_update (\<lambda>n. n - 1)) (upd_buf2 b (b2_dev_update (\<lambda>_. NO_DEV)) c)
                 else c) [0 ..< nr_buf2 c] c"

section \<open>Getting a block\<close>

partial_function (option) search_hash :: "cache \<Rightarrow> nat option \<Rightarrow> int \<Rightarrow> nat \<Rightarrow> nat option outcome option" where
  "search_hash c bp dev block =
     (case bp of
        None \<Rightarrow> Some (Ret None)
      | Some i \<Rightarrow> if b_blocknr (buf c i) = block \<and> b_dev (buf c i) = dev then Some (Ret (Some i))
                  else search_hash c (b_hash (buf c i)) dev block)"

text \<open>The loop that unlinks \<open>bp\<close> from a hash chain of which it is not the head.\<close>

partial_function (option) unhash_loop :: "nat \<Rightarrow> cache \<Rightarrow> nat \<Rightarrow> cache option" where
  "unhash_loop bp c prev_ptr =
     (case b_hash (buf c prev_ptr) of
        None \<Rightarrow> Some c
      | Some n \<Rightarrow> if n = bp then Some (upd_buf prev_ptr (b_hash_update (\<lambda>_. b_hash (buf c bp))) c)
                  else unhash_loop bp c n)"

text \<open>An empty chain would be a null pointer dereference in the source, a \<open>Panic\<close> here.\<close>

definition unhash :: "nat \<Rightarrow> cache \<Rightarrow> cache outcome option" where
  "unhash bp c =
     (let b = hash_of (b_blocknr (buf c bp)) in
      if buf_hash c b = Some bp then Some (Ret (c\<lparr>buf_hash := (buf_hash c)(b := b_hash (buf c bp))\<rparr>))
      else case buf_hash c b of
             None \<Rightarrow> Some (Panic ''null pointer'')
           | Some p \<Rightarrow> (case unhash_loop bp c p of None \<Rightarrow> None | Some c1 \<Rightarrow> Some (Ret c1)))"

text \<open>What \<^verbatim>\<open>get_block\<close> does to the buffer it has taken from the front of the chain.\<close>

definition fill_block :: "(nat \<Rightarrow> int) \<Rightarrow> int \<Rightarrow> nat \<Rightarrow> search \<Rightarrow> nat \<Rightarrow> cache \<Rightarrow> cache" where
  "fill_block io dev block only_search bp c =
     (let c1 = (if b_dev (buf c bp) \<noteq> NO_DEV
                then put_block2 io bp (if b_dirt (buf c bp) then flushall io (b_dev (buf c bp)) c else c)
                else c);
          b = hash_of block;
          c2 = upd_buf bp (\<lambda>x. x\<lparr>b_dev := dev, b_blocknr := block, b_count := b_count x + 1, b_hash := buf_hash c1 b\<rparr>) c1;
          c3 = c2\<lparr>buf_hash := (buf_hash c2)(b := Some bp)\<rparr>
      in if dev \<noteq> NO_DEV then
           let (hit, c4) = get_block2 io bp only_search c3
           in if hit then c4
              else if only_search = PREFETCH then upd_buf bp (b_dev_update (\<lambda>_. NO_DEV)) c4
              else if only_search = NORMAL then rw_block io bp True c4
              else c4
         else c3)"

definition evict_block :: "(nat \<Rightarrow> int) \<Rightarrow> int \<Rightarrow> nat \<Rightarrow> search \<Rightarrow> cache \<Rightarrow> (nat \<times> cache) outcome option" where
  "evict_block io dev block only_search c =
     (case front c of
        None \<Rightarrow> Some (Panic ''all buffers in use'')
      | Some bp \<Rightarrow> and_then (unhash bp (rm_lru bp c)) (\<lambda>c1. Some (Ret (bp, fill_block io dev block only_search bp c1))))"

definition get_block :: "(nat \<Rightarrow> int) \<Rightarrow> int \<Rightarrow> nat \<Rightarrow> search \<Rightarrow> cache \<Rightarrow> (nat \<times> cache) outcome option" where
  "get_block io dev block only_search c =
     (if dev \<noteq> NO_DEV then
        and_then (search_hash c (buf_hash c (hash_of block)) dev block)
          (\<lambda>r. case r of
                Some bp \<Rightarrow>
                  Some (Ret (bp, upd_buf bp (b_count_update (\<lambda>n. n + 1)) (if b_count (buf c bp) = 0 then rm_lru bp c else c)))
              | None \<Rightarrow> evict_block io dev block only_search c)
      else evict_block io dev block only_search c)"

definition invalidate :: "int \<Rightarrow> cache \<Rightarrow> cache" where
  "invalidate device c =
     invalidate2 device (c\<lparr>buf := (\<lambda>i. if i < NR_BUFS \<and> b_dev (buf c i) = device then (buf c i)\<lparr>b_dev := NO_DEV\<rparr> else buf c i)\<rparr>)"

text \<open>The tables in the bss segment are zero when \<^verbatim>\<open>buf_pool\<close> runs.\<close>

definition buf_pool :: "cache \<Rightarrow> cache" where
  "buf_pool c =
     c\<lparr>bufs_in_use := 0, front := Some 0, rear := Some (NR_BUFS - 1),
       buf := (\<lambda>i. if i < NR_BUFS
                   then (buf c i)\<lparr>b_blocknr := NO_BLOCK, b_dev := NO_DEV,
                                  b_next := (if i = NR_BUFS - 1 then None else Some (i + 1)),
                                  b_prev := (if i = 0 then None else Some (i - 1)),
                                  b_hash := (if i = NR_BUFS - 1 then None else Some (i + 1))\<rparr>
                   else buf c i),
       buf_hash := (buf_hash c)(0 := Some 0)\<rparr>"

end
