(* ===== verification/Fs_Blocks.thy ===== *)
theory Fs_Blocks
  imports Fs_Cache "HOL-Library.Multiset"
begin

text \<open>
  The block cache does its work. Its tables are consistent: the LRU chain holds exactly the unused
  buffers, the hash chains all buffers, no block is in two buffers; and it is transparent: what a
  caller sees of a block (\<open>view\<close>) is the last thing written to it, whether it is in a buffer, on
  the disk or in the second level cache. The locale \<open>block_store\<close> states this as the contract the
  rest of the file system relies on.
\<close>

section \<open>Buffers\<close>

lemma upd_buf_sel [simp]:
  "buf (upd_buf i f c) = (buf c)(i := f (buf c i))" "buf_hash (upd_buf i f c) = buf_hash c" "front (upd_buf i f c) = front c"
  "rear (upd_buf i f c) = rear c" "bufs_in_use (upd_buf i f c) = bufs_in_use c" "buf2 (upd_buf i f c) = buf2 c"
  "nr_buf2 (upd_buf i f c) = nr_buf2 c" "buf2_idx (upd_buf i f c) = buf2_idx c" "disk (upd_buf i f c) = disk c"
  "io_nr (upd_buf i f c) = io_nr c" "rdwt_err (upd_buf i f c) = rdwt_err c"
  by (simp_all add: upd_buf_def)

abbreviation nxt :: "cache \<Rightarrow> nat \<Rightarrow> nat option" where "nxt c \<equiv> \<lambda>i. b_next (buf c i)"
abbreviation prv :: "cache \<Rightarrow> nat \<Rightarrow> nat option" where "prv c \<equiv> \<lambda>i. b_prev (buf c i)"
abbreviation hsh :: "cache \<Rightarrow> nat \<Rightarrow> nat option" where "hsh c \<equiv> \<lambda>i. b_hash (buf c i)"

section \<open>The LRU chain\<close>

definition lru :: "cache \<Rightarrow> nat list \<Rightarrow> bool" where
  "lru c ys \<longleftrightarrow> chain (nxt c) (front c) ys \<and> chain (prv c) (rear c) (rev ys)"

lemma chain_back:
  assumes "chain pv r (rev (us @ i # vs))" shows "pv i = (if us = [] then None else Some (last us))"
proof -
  have "chain pv r (rev vs @ i # rev us)" using assms by simp
  then have "chain pv (pv i) (rev us)" by (rule chain_next)
  then show ?thesis by (cases us rule: rev_cases) (auto simp: chain_NilI)
qed

text \<open>Taking an element out of a chain, given its predecessor.\<close>

lemma chain_take_out:
  assumes ch: "chain nx f (us @ i # vs)" and p: "p = (if us = [] then None else Some (last us))"
  shows "chain (case p of None \<Rightarrow> nx | Some q \<Rightarrow> nx(q := nx i)) (case p of None \<Rightarrow> nx i | Some q \<Rightarrow> f) (us @ vs)"
proof (cases us rule: rev_cases)
  case Nil
  then show ?thesis using ch p by simp
next
  case (snoc ws a)
  then show ?thesis using chain_unlink [of nx f ws a i vs] ch p by simp
qed

lemma rm_lru_sel [simp]:
  "buf_hash (rm_lru i c) = buf_hash c" "buf2 (rm_lru i c) = buf2 c" "nr_buf2 (rm_lru i c) = nr_buf2 c" "buf2_idx (rm_lru i c) = buf2_idx c"
  "disk (rm_lru i c) = disk c" "io_nr (rm_lru i c) = io_nr c" "rdwt_err (rm_lru i c) = rdwt_err c" "bufs_in_use (rm_lru i c) = bufs_in_use c + 1"
  "b_data (buf (rm_lru i c) j) = b_data (buf c j)" "b_hash (buf (rm_lru i c) j) = b_hash (buf c j)"
  "b_blocknr (buf (rm_lru i c) j) = b_blocknr (buf c j)" "b_dev (buf (rm_lru i c) j) = b_dev (buf c j)"
  "b_dirt (buf (rm_lru i c) j) = b_dirt (buf c j)" "b_count (buf (rm_lru i c) j) = b_count (buf c j)"
  by (simp_all add: rm_lru_def Let_def split: option.split)

lemma rm_lru_lru:
  assumes "lru c (us @ i # vs)" shows "lru (rm_lru i c) (us @ vs)"
proof -
  have n: "chain (nxt c) (front c) (us @ i # vs)" and p: "chain (prv c) (rear c) (rev vs @ i # rev us)" using assms by (simp_all add: lru_def)
  have pi: "b_prev (buf c i) = (if us = [] then None else Some (last us))" using chain_back [of "prv c" "rear c" us i vs] p by simp
  have ni: "b_next (buf c i) = (if rev vs = [] then None else Some (last (rev vs)))"
    using chain_back [of "nxt c" "front c" "rev vs" i "rev us"] n by simp
  have f: "nxt (rm_lru i c) = (case b_prev (buf c i) of None \<Rightarrow> nxt c | Some q \<Rightarrow> (nxt c)(q := b_next (buf c i)))"
    "front (rm_lru i c) = (case b_prev (buf c i) of None \<Rightarrow> b_next (buf c i) | Some q \<Rightarrow> front c)"
    by (auto simp: rm_lru_def Let_def fun_eq_iff split: option.split)
  have r: "prv (rm_lru i c) = (case b_next (buf c i) of None \<Rightarrow> prv c | Some q \<Rightarrow> (prv c)(q := b_prev (buf c i)))"
    "rear (rm_lru i c) = (case b_next (buf c i) of None \<Rightarrow> b_prev (buf c i) | Some q \<Rightarrow> rear c)"
    by (auto simp: rm_lru_def Let_def fun_eq_iff split: option.split)
  show ?thesis unfolding lru_def f r using chain_take_out [OF n pi] chain_take_out [OF p ni] by simp
qed

lemma lru_front_lru:
  assumes "lru c ys" "i \<notin> set ys" shows "lru (lru_front i c) (i # ys)"
proof (cases ys)
  case Nil
  then show ?thesis using assms by (auto simp: lru_def lru_front_def Let_def)
next
  case (Cons a zs)
  have f: "front c = Some a" using assms(1) Cons by (simp add: lru_def)
  have "nxt (lru_front i c) = (nxt c)(i := front c)" "prv (lru_front i c) = (prv c)(a := Some i, i := None)"
    "front (lru_front i c) = Some i" "rear (lru_front i c) = rear c"
    using assms(2) Cons f by (auto simp: lru_front_def Let_def fun_eq_iff)
  moreover have "chain ((prv c)(a := Some i, i := None)) (rear c) (rev zs @ [a, i])"
    by (rule chain_snoc) (use assms Cons in \<open>auto simp: lru_def\<close>)
  ultimately show ?thesis using assms Cons chain_push [of "nxt c" "front c" ys i] by (simp add: lru_def)
qed

lemma lru_rear_lru:
  assumes "lru c ys" "i \<notin> set ys" shows "lru (lru_rear i c) (ys @ [i])"
proof (cases ys rule: rev_cases)
  case Nil
  then show ?thesis using assms by (auto simp: lru_def lru_rear_def Let_def)
next
  case (snoc zs a)
  have r: "rear c = Some a" using assms(1) snoc by (simp add: lru_def)
  have "prv (lru_rear i c) = (prv c)(i := rear c)" "nxt (lru_rear i c) = (nxt c)(a := Some i, i := None)"
    "rear (lru_rear i c) = Some i" "front (lru_rear i c) = front c"
    using assms(2) snoc r by (auto simp: lru_rear_def Let_def fun_eq_iff)
  moreover have "chain ((nxt c)(a := Some i, i := None)) (front c) (zs @ [a, i])"
    by (rule chain_snoc) (use assms snoc in \<open>auto simp: lru_def\<close>)
  ultimately show ?thesis using assms snoc chain_push [of "prv c" "rear c" "rev ys" i] by (simp add: lru_def)
qed

lemma lru_put_sel [simp]:
  "buf_hash (lru_front i c) = buf_hash c" "buf2 (lru_front i c) = buf2 c" "nr_buf2 (lru_front i c) = nr_buf2 c" "buf2_idx (lru_front i c) = buf2_idx c"
  "disk (lru_front i c) = disk c" "io_nr (lru_front i c) = io_nr c" "bufs_in_use (lru_front i c) = bufs_in_use c"
  "b_data (buf (lru_front i c) j) = b_data (buf c j)" "b_hash (buf (lru_front i c) j) = b_hash (buf c j)"
  "b_blocknr (buf (lru_front i c) j) = b_blocknr (buf c j)" "b_dev (buf (lru_front i c) j) = b_dev (buf c j)"
  "b_dirt (buf (lru_front i c) j) = b_dirt (buf c j)" "b_count (buf (lru_front i c) j) = b_count (buf c j)"
  "buf_hash (lru_rear i c) = buf_hash c" "buf2 (lru_rear i c) = buf2 c" "nr_buf2 (lru_rear i c) = nr_buf2 c" "buf2_idx (lru_rear i c) = buf2_idx c"
  "disk (lru_rear i c) = disk c" "io_nr (lru_rear i c) = io_nr c" "bufs_in_use (lru_rear i c) = bufs_in_use c"
  "b_data (buf (lru_rear i c) j) = b_data (buf c j)" "b_hash (buf (lru_rear i c) j) = b_hash (buf c j)"
  "b_blocknr (buf (lru_rear i c) j) = b_blocknr (buf c j)" "b_dev (buf (lru_rear i c) j) = b_dev (buf c j)"
  "b_dirt (buf (lru_rear i c) j) = b_dirt (buf c j)" "b_count (buf (lru_rear i c) j) = b_count (buf c j)"
  by (simp_all add: lru_front_def lru_rear_def Let_def split: option.split)

section \<open>The Shell sort\<close>

lemma sift_mset: "j < length q \<Longrightarrow> mset (sift key gap j q) = mset q \<and> length (sift key gap j q) = length q"
proof (induction key gap j q rule: sift.induct)
  case (1 key gap j q)
  show ?case
  proof (cases "gap = 0 \<or> j < gap \<or> \<not> key (q ! (j - gap)) > key (q ! j)")
    case True
    then show ?thesis by (subst (1 2) sift.simps) auto
  next
    case False
    have "mset (q[j - gap := q ! j, j := q ! (j - gap)]) = mset q"
      using False 1(2) by (intro mset_swap) auto
    then show ?thesis using 1 False by (subst (1 2) sift.simps) auto
  qed
qed

lemma sort_pass_mset: "mset (sort_pass key gap q) = mset q"
proof -
  have f: "set js \<subseteq> {..< length q} \<Longrightarrow> mset (fold (sift key gap) js q) = mset q" for js q
    by (induction js arbitrary: q) (simp_all add: sift_mset)
  show ?thesis unfolding sort_pass_def by (rule f) auto
qed

lemma sort_gaps_mset: "mset (sort_gaps gap key q) = mset q"
  by (induction gap key q rule: sort_gaps.induct) (subst sort_gaps.simps, simp add: sort_pass_mset)

lemma sift_insert:
  "sorted (map key xs) \<Longrightarrow> \<exists>ws. sift key 1 (length xs) (xs @ x # zs) = ws @ zs \<and> mset ws = mset (x # xs) \<and> sorted (map key ws)"
proof (induction xs arbitrary: zs rule: rev_induct)
  case Nil
  show ?case by (subst sift.simps) simp
next
  case (snoc y ys)
  have ys: "sorted (map key ys)" "\<forall>v \<in> set ys. key v \<le> key y" using snoc.prems by (auto simp: sorted_append)
  show ?case
  proof (cases "key y > key x")
    case True
    have "sift key 1 (length (ys @ [y])) ((ys @ [y]) @ x # zs) = sift key 1 (length ys) (ys @ x # y # zs)"
      using True by (subst sift.simps) (simp add: nth_append list_update_append)
    moreover obtain ws where "sift key 1 (length ys) (ys @ x # y # zs) = ws @ y # zs" "mset ws = mset (x # ys)" "sorted (map key ws)"
      using snoc.IH [OF ys(1)] by blast
    moreover have "set ws = insert x (set ys)" using \<open>mset ws = mset (x # ys)\<close> by (metis mset_eq_setD list.simps(15))
    ultimately show ?thesis using ys(2) True by (intro exI [of _ "ws @ [y]"]) (auto simp: sorted_append)
  next
    case False
    have "sift key 1 (length (ys @ [y])) ((ys @ [y]) @ x # zs) = (ys @ [y]) @ x # zs"
      using False by (subst sift.simps) (simp add: nth_append)
    then show ?thesis using False snoc.prems ys(2) by (intro exI [of _ "ys @ [y, x]"]) (auto simp: sorted_append)
  qed
qed

lemma sort_pass_1_sorted: "sorted (map key (sort_pass key 1 q))"
proof -
  have "k \<le> length q - 1 \<Longrightarrow> \<exists>ws. fold (sift key 1) [1 ..< 1 + k] q = ws @ drop (1 + k) q \<and> sorted (map key ws) \<and> length ws = 1 + k"
    if "q \<noteq> []" for k
  proof (induction k)
    case 0
    show ?case using that by (intro exI [of _ "take 1 q"]) (cases q; simp)
  next
    case (Suc k)
    then obtain ws where ws: "fold (sift key 1) [1 ..< 1 + k] q = ws @ drop (1 + k) q" "sorted (map key ws)" "length ws = 1 + k" by auto
    have d: "drop (1 + k) q = q ! (1 + k) # drop (1 + Suc k) q" using Suc.prems by (simp add: Cons_nth_drop_Suc)
    obtain vs where vs: "sift key 1 (length ws) (ws @ q ! (1 + k) # drop (1 + Suc k) q) = vs @ drop (1 + Suc k) q"
      "mset vs = mset (q ! (1 + k) # ws)" "sorted (map key vs)"
      using sift_insert [OF ws(2)] by blast
    have "length vs = 1 + Suc k" using vs(2) ws(3) by (metis size_mset length_Cons plus_1_eq_Suc)
    moreover have "fold (sift key 1) [1 ..< 1 + Suc k] q = sift key 1 (1 + k) (fold (sift key 1) [1 ..< 1 + k] q)" by simp
    ultimately show ?case using vs ws d by (intro exI [of _ vs]) simp
  qed
  from this [of "length q - 1"] show ?thesis by (cases "q = []") (auto simp: sort_pass_def)
qed

fun shell_gap :: "nat \<Rightarrow> bool" where
  "shell_gap g \<longleftrightarrow> (if g \<le> 4 then g = 4 else g mod 3 = 1 \<and> shell_gap (g div 3))"

declare shell_gap.simps [simp del]

lemma first_gap_shell: "gap = 1 \<or> shell_gap gap \<Longrightarrow> shell_gap (first_gap gap n)"
proof (induction gap n rule: first_gap.induct)
  case (1 gap n)
  have "gap > 0" using "1.prems" by (cases gap) (auto simp: shell_gap.simps)
  moreover have "(3 * gap + 1) div 3 = gap" "(3 * gap + 1) mod 3 = 1" by presburger+
  ultimately have g: "shell_gap (3 * gap + 1)" using "1.prems" by (subst shell_gap.simps) auto
  show ?case
  proof (cases "3 * gap + 1 \<le> n")
    case True
    then show ?thesis using 1(1) [OF refl True] g by (subst first_gap.simps) (simp add: Let_def)
  next
    case False
    then show ?thesis using g by (subst first_gap.simps) (simp add: Let_def)
  qed
qed

lemma sort_gaps_sorted: "shell_gap gap \<Longrightarrow> sorted (map key (sort_gaps gap key q))"
proof (induction gap key q rule: sort_gaps.induct)
  case (1 gap key q)
  have big: "\<not> gap \<le> 1" using "1.prems" by (subst (asm) shell_gap.simps) auto
  show ?case
  proof (cases "gap = 4")
    case True
    then have "sort_gaps gap key q = sort_pass key 1 q" by (subst (1) sort_gaps.simps, subst sort_gaps.simps) simp
    then show ?thesis using sort_pass_1_sorted [of key q] by (simp only:)
  next
    case False
    then have "shell_gap (gap div 3)" using "1.prems" by (subst (asm) shell_gap.simps) (auto split: if_splits)
    then show ?thesis using "1.IH" big by (subst sort_gaps.simps) simp
  qed
qed

lemma shell_sort_sorted: "mset (shell_sort key q) = mset q" "sorted (map key (shell_sort key q))"
  unfolding shell_sort_def by (simp_all add: sort_gaps_mset sort_gaps_sorted first_gap_shell)

section \<open>Hash chains\<close>

definition hash_inv :: "cache \<Rightarrow> nat set \<Rightarrow> bool" where
  "hash_inv c X \<longleftrightarrow> (\<forall>h < NR_BUF_HASH. \<exists>xs. chain (hsh c) (buf_hash c h) xs \<and>
     set xs = {i. i < NR_BUFS \<and> i \<notin> X \<and> hash_of (b_blocknr (buf c i)) = h})"

lemma hash_of_less [simp]: "hash_of b < NR_BUF_HASH"
  by (simp add: hash_of_def NR_BUF_HASH_def)

lemma hash_invE:
  assumes "hash_inv c X" "h < NR_BUF_HASH"
  obtains xs where "chain (hsh c) (buf_hash c h) xs" "set xs = {i. i < NR_BUFS \<and> i \<notin> X \<and> hash_of (b_blocknr (buf c i)) = h}"
  using assms unfolding hash_inv_def by blast

lemma search_hash_chain:
  assumes "chain (hsh c) p xs"
  shows "search_hash c p dev block = Some (Ret (List.find (\<lambda>i. b_blocknr (buf c i) = block \<and> b_dev (buf c i) = dev) xs))"
  using assms
proof (induction xs arbitrary: p)
  case Nil
  then show ?case by (subst search_hash.simps) simp
next
  case (Cons x xs)
  then show ?case by (subst search_hash.simps) auto
qed

lemma unhash_loop_chain:
  assumes "chain (hsh c) (Some p) (p # us @ i # vs)"
  shows "unhash_loop i c p = Some (upd_buf (last (p # us)) (b_hash_update (\<lambda>_. b_hash (buf c i))) c)"
  using assms
proof (induction us arbitrary: p)
  case Nil
  then show ?case by (subst unhash_loop.simps) auto
next
  case (Cons u us)
  have d: "distinct (p # (u # us) @ i # vs)" by (rule chain_distinct [OF Cons.prems])
  have "unhash_loop i c p = unhash_loop i c u" using Cons.prems d by (subst unhash_loop.simps) auto
  then show ?case using Cons.IH [of u] Cons.prems by auto
qed

definition relinked :: "cache \<Rightarrow> cache \<Rightarrow> bool" where
  "relinked c c' \<longleftrightarrow> front c' = front c \<and> rear c' = rear c \<and> bufs_in_use c' = bufs_in_use c \<and> disk c' = disk c \<and>
     nr_buf2 c' = nr_buf2 c \<and> buf2 c' = buf2 c \<and> buf2_idx c' = buf2_idx c \<and> (\<forall>j. buf c' j = (buf c j)\<lparr>b_hash := b_hash (buf c' j)\<rparr>)"

text \<open>\<open>unhash\<close> takes a buffer out of its chain and touches nothing but the links.\<close>

lemma unhash_inv:
  assumes inv: "hash_inv c {}" and i: "i < NR_BUFS"
  obtains c' where "unhash i c = Some (Ret c')" "hash_inv c' {i}"
    "relinked c c'"
proof -
  let ?h = "hash_of (b_blocknr (buf c i))"
  obtain xs where xs: "chain (hsh c) (buf_hash c ?h) xs" "set xs = {j. j < NR_BUFS \<and> hash_of (b_blocknr (buf c j)) = ?h}"
    by (rule hash_invE [OF inv, of ?h]) auto
  then obtain us vs where sp: "xs = us @ i # vs" using i by (metis (mono_tags, lifting) mem_Collect_eq split_list)
  have dist: "distinct (us @ i # vs)" using chain_distinct [OF xs(1)] sp by simp
  have st: "set (us @ vs) = {j. j < NR_BUFS \<and> j \<notin> {i} \<and> hash_of (b_blocknr (buf c j)) = ?h}"
    using xs(2) dist unfolding sp by auto
  show thesis
  proof (cases us)
    case Nil
    let ?c = "c\<lparr>buf_hash := (buf_hash c)(?h := b_hash (buf c i))\<rparr>"
    have "unhash i c = Some (Ret ?c)" using xs(1) sp Nil by (simp add: unhash_def Let_def)
    moreover have "hash_inv ?c {i}" unfolding hash_inv_def
    proof (intro allI impI)
      fix h assume h: "h < NR_BUF_HASH"
      show "\<exists>ws. chain (hsh ?c) (buf_hash ?c h) ws \<and> set ws = {j. j < NR_BUFS \<and> j \<notin> {i} \<and> hash_of (b_blocknr (buf ?c j)) = h}"
      proof (cases "h = ?h")
        case True
        then show ?thesis using xs(1) sp st Nil by (intro exI [of _ vs]) simp
      next
        case False
        obtain ws where "chain (hsh c) (buf_hash c h) ws" "set ws = {j. j < NR_BUFS \<and> hash_of (b_blocknr (buf c j)) = h}"
          by (rule hash_invE [OF inv h]) auto
        then show ?thesis using False by (intro exI [of _ ws]) auto
      qed
    qed
    moreover have "relinked c ?c" by (simp add: relinked_def)
    ultimately show thesis by (rule that)
  next
    case (Cons p ps)
    let ?l = "last us"
    let ?c = "upd_buf ?l (b_hash_update (\<lambda>_. b_hash (buf c i))) c"
    have hd: "buf_hash c ?h = Some p" "p \<noteq> i" using xs(1) sp Cons dist by auto
    then have "unhash i c = Some (Ret ?c)"
      using unhash_loop_chain [of c p ps i vs] xs(1) sp Cons by (simp add: unhash_def Let_def)
    moreover have "hash_inv ?c {i}" unfolding hash_inv_def
    proof (intro allI impI)
      fix h assume h: "h < NR_BUF_HASH"
      have bn: "b_blocknr (buf ?c j) = b_blocknr (buf c j)" for j by simp
      have hs: "hsh ?c = (hsh c)(?l := b_hash (buf c i))" by auto
      show "\<exists>ws. chain (hsh ?c) (buf_hash ?c h) ws \<and> set ws = {j. j < NR_BUFS \<and> j \<notin> {i} \<and> hash_of (b_blocknr (buf ?c j)) = h}"
      proof (cases "h = ?h")
        case True
        have us: "us @ zs = butlast us @ ?l # zs" for zs using Cons append_butlast_last_id [of us] by (metis append.assoc append_Cons append_Nil list.distinct(1))
        have "chain (hsh c) (buf_hash c ?h) (butlast us @ ?l # i # vs)" using xs(1) unfolding sp us .
        then have "chain ((hsh c)(?l := b_hash (buf c i))) (buf_hash c ?h) (us @ vs)" unfolding us by (rule chain_unlink)
        then show ?thesis using st True hs bn by (intro exI [of _ "us @ vs"]) simp
      next
        case False
        obtain ws where ws: "chain (hsh c) (buf_hash c h) ws" "set ws = {j. j < NR_BUFS \<and> hash_of (b_blocknr (buf c j)) = h}"
          by (rule hash_invE [OF inv h]) auto
        have "?l \<in> set xs" using sp Cons by simp
        then have "?l \<notin> set ws" using ws(2) xs(2) False by auto
        then have "chain (hsh ?c) (buf_hash ?c h) ws" using ws(1) unfolding hs by simp
        then show ?thesis using ws(2) False bn by (intro exI [of _ ws]) auto
      qed
    qed
    moreover have "relinked c ?c" by (simp add: relinked_def upd_buf_def)
    ultimately show thesis by (rule that)
  qed
qed

section \<open>Flushing\<close>

text \<open>The devices move every block they are asked to move.\<close>

definition sound :: "(nat \<Rightarrow> int) \<Rightarrow> bool" where
  "sound io \<longleftrightarrow> (\<forall>n. io n = BLOCK_SIZE)"

definition wr :: "int \<Rightarrow> cache \<Rightarrow> nat \<Rightarrow> (int \<Rightarrow> nat \<Rightarrow> data) \<Rightarrow> int \<Rightarrow> nat \<Rightarrow> data" where
  "wr dev c bp D = D(dev := (D dev)(b_blocknr (buf c bp) := b_data (buf c bp)))"

definition cleaned :: "nat set \<Rightarrow> cache \<Rightarrow> nat \<Rightarrow> buf" where
  "cleaned S c i = (if i \<in> S then (buf c i)\<lparr>b_dirt := False\<rparr> else buf c i)"

lemma cleaned_empty [simp]: "cleaned {} c = buf c"
  by (simp add: cleaned_def fun_eq_iff)

lemma cleaned_upd [simp]: "cleaned S (c\<lparr>disk := D, io_nr := n\<rparr>) = cleaned S c"
  by (simp add: cleaned_def fun_eq_iff)

lemma wr_at: "wr dev c x D dev b = (if b = b_blocknr (buf c x) then b_data (buf c x) else D dev b)"
  by (simp add: wr_def)

lemma vec_io_write:
  assumes "sound io"
  shows "fold (vec_io io dev False) q (oks, c) =
    (oks @ replicate (length q) True, c\<lparr>disk := fold (wr dev c) q (disk c), io_nr := io_nr c + length q\<rparr>)"
proof (induction q arbitrary: oks c)
  case (Cons x q)
  have "vec_io io dev False x (oks, c) = (oks @ [True], c\<lparr>disk := wr dev c x (disk c), io_nr := io_nr c + 1\<rparr>)"
    using assms by (simp add: vec_io_def dev_write_def sound_def wr_def Let_def)
  moreover have "wr dev (c\<lparr>disk := D, io_nr := n\<rparr>) = wr dev c" for D n by (simp add: wr_def fun_eq_iff)
  ultimately show ?case by (simp add: Cons.IH)
qed simp

lemma harvest_write:
  "fold (harvest io dev False) (zip q (replicate (length q) True)) c = c\<lparr>buf := cleaned (set q) c\<rparr>"
proof (induction q arbitrary: c)
  case Nil
  then show ?case by (simp add: cleaned_def)
next
  case (Cons x q)
  have "fold (harvest io dev False) (zip (x # q) (replicate (length (x # q)) True)) c =
      (upd_buf x (b_dirt_update (\<lambda>_. False)) c)\<lparr>buf := cleaned (set q) (upd_buf x (b_dirt_update (\<lambda>_. False)) c)\<rparr>"
    by (simp add: harvest_def Cons.IH)
  also have "\<dots> = c\<lparr>buf := cleaned (set (x # q)) c\<rparr>" by (auto simp: cleaned_def upd_buf_def fun_eq_iff)
  finally show ?case .
qed

lemma scatter_write:
  assumes "sound io"
  shows "scatter_loop io dev q False c =
    c\<lparr>disk := fold (wr dev c) q (disk c), io_nr := io_nr c + length q, buf := cleaned (set q) c\<rparr>"
proof (induction q arbitrary: c rule: length_induct)
  case (1 q)
  show ?case
  proof (cases "q = []")
    case True
    then show ?thesis by (subst scatter_loop.simps) simp
  next
    case False
    let ?b = "take NR_IOREQS q" and ?r = "drop NR_IOREQS q"
    define c2 where "c2 = c\<lparr>disk := fold (wr dev c) ?b (disk c), io_nr := io_nr c + length ?b, buf := cleaned (set ?b) c\<rparr>"
    have lt: "length ?r < length q" using False by (simp add: NR_IOREQS_def)
    have "scatter_loop io dev q False c = scatter_loop io dev ?r False c2"
      using False by (subst scatter_loop.simps) (simp add: vec_io_write [OF assms] Let_def harvest_write c2_def cleaned_def)
    also have "\<dots> = c2\<lparr>disk := fold (wr dev c2) ?r (disk c2), io_nr := io_nr c2 + length ?r, buf := cleaned (set ?r) c2\<rparr>"
      using 1 lt by blast
    also have "wr dev c2 = wr dev c" by (auto simp: wr_def c2_def cleaned_def fun_eq_iff)
    also have "c2\<lparr>disk := fold (wr dev c) ?r (disk c2), io_nr := io_nr c2 + length ?r, buf := cleaned (set ?r) c2\<rparr> =
        c\<lparr>disk := fold (wr dev c) (?b @ ?r) (disk c), io_nr := io_nr c + length (?b @ ?r), buf := cleaned (set (?b @ ?r)) c\<rparr>"
      by (auto simp: c2_def cleaned_def fun_eq_iff simp del: append_take_drop_id)
    finally show ?thesis by simp
  qed
qed

lemma wr_fold:
  assumes "\<And>i j. i \<in> set q \<Longrightarrow> j \<in> set q \<Longrightarrow> b_blocknr (buf c i) = b_blocknr (buf c j) \<Longrightarrow> b_data (buf c i) = b_data (buf c j)"
  shows "i \<in> set q \<Longrightarrow> fold (wr dev c) q D dev (b_blocknr (buf c i)) = b_data (buf c i)"
    "b \<notin> (\<lambda>i. b_blocknr (buf c i)) ` set q \<Longrightarrow> fold (wr dev c) q D dev b = D dev b"
    "d \<noteq> dev \<Longrightarrow> fold (wr dev c) q D d = D d"
proof -
  show "b \<notin> (\<lambda>i. b_blocknr (buf c i)) ` set q \<Longrightarrow> fold (wr dev c) q D dev b = D dev b"
    by (induction q arbitrary: D) (auto simp: wr_def)
  show "d \<noteq> dev \<Longrightarrow> fold (wr dev c) q D d = D d"
    by (induction q arbitrary: D) (auto simp: wr_def)
  show "i \<in> set q \<Longrightarrow> fold (wr dev c) q D dev (b_blocknr (buf c i)) = b_data (buf c i)"
    using assms
  proof (induction q arbitrary: D i rule: rev_induct)
    case (snoc x q)
    show ?case
    proof (cases "b_blocknr (buf c i) = b_blocknr (buf c x)")
      case True
      then have "b_data (buf c x) = b_data (buf c i)" using snoc.prems(1) snoc.prems(2) [of x i] by simp
      then show ?thesis using True by (simp add: wr_at)
    next
      case False
      then have "i \<in> set q" using snoc.prems(1) by auto
      then have "fold (wr dev c) q D dev (b_blocknr (buf c i)) = b_data (buf c i)" using snoc.IH snoc.prems(2) by simp
      then show ?thesis using False by (simp add: wr_at)
    qed
  qed simp
qed

definition named :: "cache \<Rightarrow> int \<Rightarrow> nat \<Rightarrow> nat \<Rightarrow> bool" where
  "named c d b i \<longleftrightarrow> i < NR_BUFS \<and> b_dev (buf c i) = d \<and> b_blocknr (buf c i) = b"

definition uniq :: "cache \<Rightarrow> bool" where
  "uniq c \<longleftrightarrow> (\<forall>d b i j. d \<noteq> NO_DEV \<longrightarrow> named c d b i \<longrightarrow> named c d b j \<longrightarrow> i = j)"

definition dirty_set :: "cache \<Rightarrow> int \<Rightarrow> nat set" where
  "dirty_set c dev = {i. i < NR_BUFS \<and> b_dirt (buf c i) \<and> b_dev (buf c i) = dev}"

lemma flushall_result:
  assumes "sound io" "uniq c" "dev \<noteq> NO_DEV"
  obtains D n where "flushall io dev c = c\<lparr>disk := D, io_nr := n, buf := cleaned (dirty_set c dev) c\<rparr>"
    "\<And>i. i \<in> dirty_set c dev \<Longrightarrow> D dev (b_blocknr (buf c i)) = b_data (buf c i)"
    "\<And>d b. \<not> (\<exists>i \<in> dirty_set c dev. named c d b i) \<Longrightarrow> D d b = disk c d b"
proof -
  define q where "q = shell_sort (\<lambda>i. b_blocknr (buf c i)) (filter (\<lambda>i. b_dirt (buf c i) \<and> b_dev (buf c i) = dev) [0 ..< NR_BUFS])"
  have set: "set q = dirty_set c dev"
    using mset_eq_setD [OF shell_sort_sorted(1)] unfolding q_def by (auto simp: dirty_set_def)
  have inj: "b_data (buf c i) = b_data (buf c j)" if "i \<in> set q" "j \<in> set q" "b_blocknr (buf c i) = b_blocknr (buf c j)" for i j
  proof -
    have "named c dev (b_blocknr (buf c j)) i" "named c dev (b_blocknr (buf c j)) j" using that unfolding set by (auto simp: dirty_set_def named_def)
    then show ?thesis using assms(2,3) unfolding uniq_def by blast
  qed
  let ?D = "fold (wr dev c) q (disk c)"
  have "flushall io dev c = c\<lparr>disk := ?D, io_nr := io_nr c + length q, buf := cleaned (dirty_set c dev) c\<rparr>"
    unfolding flushall_def rw_scattered_def q_def [symmetric] scatter_write [OF assms(1)] set ..
  moreover have "?D dev (b_blocknr (buf c i)) = b_data (buf c i)" if "i \<in> dirty_set c dev" for i
    by (rule wr_fold(1) [OF inj]) (simp_all add: set that)
  moreover have "?D d b = disk c d b" if "\<not> (\<exists>i \<in> dirty_set c dev. named c d b i)" for d b
  proof (cases "d = dev")
    case True
    have "b \<notin> (\<lambda>i. b_blocknr (buf c i)) ` set q" using that True unfolding set by (auto simp: named_def dirty_set_def)
    then show ?thesis unfolding True by (intro wr_fold(2) inj) simp_all
  next
    case False
    have "?D d = disk c d" by (intro wr_fold(3) inj False)
    then show ?thesis by simp
  qed
  ultimately show thesis by (rule that)
qed

section \<open>What a caller sees\<close>

definition cached :: "cache \<Rightarrow> int \<Rightarrow> nat \<Rightarrow> nat option" where
  "cached c d b = List.find (\<lambda>i. b_dev (buf c i) = d \<and> b_blocknr (buf c i) = b) [0 ..< NR_BUFS]"

definition view :: "cache \<Rightarrow> int \<Rightarrow> nat \<Rightarrow> data" where
  "view c d b = (case cached c d b of Some i \<Rightarrow> b_data (buf c i) | None \<Rightarrow> disk c d b)"

lemma cached_Some: "uniq c \<Longrightarrow> d \<noteq> NO_DEV \<Longrightarrow> cached c d b = Some i \<longleftrightarrow> named c d b i"
proof
  assume "cached c d b = Some i"
  then show "named c d b i" unfolding cached_def by (drule_tac find_SomeD) (simp add: named_def)
next
  assume u: "uniq c" "d \<noteq> NO_DEV" and n: "named c d b i"
  then have "cached c d b \<noteq> None" by (auto simp: cached_def find_None_iff named_def)
  then obtain j where j: "cached c d b = Some j" by blast
  then have "named c d b j" unfolding cached_def by (drule_tac find_SomeD) (simp add: named_def)
  then show "cached c d b = Some i" using u n j unfolding uniq_def by blast
qed

lemma cached_None: "cached c d b = None \<longleftrightarrow> (\<forall>i. \<not> named c d b i)"
  by (auto simp: cached_def find_None_iff named_def)

lemma view_named: "uniq c \<Longrightarrow> d \<noteq> NO_DEV \<Longrightarrow> named c d b i \<Longrightarrow> view c d b = b_data (buf c i)"
  by (simp add: view_def cached_Some [THEN iffD2])

lemma view_uncached: "\<forall>i. \<not> named c d b i \<Longrightarrow> view c d b = disk c d b"
  by (simp add: view_def cached_None [THEN iffD2])

section \<open>The invariant\<close>

definition free_set :: "cache \<Rightarrow> nat set" where
  "free_set c = {i. i < NR_BUFS \<and> b_count (buf c i) = 0}"

definition coh :: "cache \<Rightarrow> nat \<Rightarrow> bool" where
  "coh c i \<longleftrightarrow> b_dev (buf c i) = NO_DEV \<or> b_dirt (buf c i) \<or> b_data (buf c i) = disk c (b_dev (buf c i)) (b_blocknr (buf c i))"

text \<open>
  The second level cache agrees with the disk on every block that is in no buffer outside \<open>X\<close>. It
  lives on the RAM disk, of which no block is in a buffer while it is in use.
\<close>

definition c2_inv :: "cache \<Rightarrow> nat set \<Rightarrow> bool" where
  "c2_inv c X \<longleftrightarrow> nr_buf2 c \<noteq> 0 \<longrightarrow>
     buf2_idx c < nr_buf2 c \<and> (\<forall>i < NR_BUFS. b_dev (buf c i) \<noteq> DEV_RAM) \<and> (\<forall>k < nr_buf2 c. b2_dev (buf2 c k) \<noteq> DEV_RAM) \<and>
     (\<forall>d b k. d \<noteq> NO_DEV \<longrightarrow> (\<forall>i. i \<notin> X \<longrightarrow> \<not> named c d b i) \<longrightarrow> find2 d b c = Some k \<longrightarrow> disk c DEV_RAM k = disk c d b)"

definition lru_inv :: "cache \<Rightarrow> nat set \<Rightarrow> bool" where
  "lru_inv c X \<longleftrightarrow> (\<exists>ys. lru c ys \<and> set ys = free_set c - X) \<and> (\<forall>i < NR_BUFS. 0 \<le> b_count (buf c i)) \<and>
     bufs_in_use c = int (card ({..< NR_BUFS} - (free_set c - X)))"

text \<open>\<open>cache_core c X\<close> is the invariant while the unused buffers in \<open>X\<close> are out of the chains.\<close>

definition cache_core :: "cache \<Rightarrow> nat set \<Rightarrow> bool" where
  "cache_core c X \<longleftrightarrow> X \<subseteq> free_set c \<and> lru_inv c X \<and> hash_inv c X \<and> uniq c \<and> (\<forall>i \<in> free_set c. coh c i)"

definition cache_inv :: "cache \<Rightarrow> bool" where
  "cache_inv c \<longleftrightarrow> cache_core c {} \<and> c2_inv c {}"

definition usable :: "cache \<Rightarrow> int \<Rightarrow> bool" where
  "usable c d \<longleftrightarrow> d \<noteq> NO_DEV \<and> (d = DEV_RAM \<longrightarrow> nr_buf2 c = 0)"

text \<open>States that agree on the contents and names of all buffers.\<close>

definition same_bufs :: "cache \<Rightarrow> cache \<Rightarrow> bool" where
  "same_bufs c c' \<longleftrightarrow> (\<forall>i. b_data (buf c' i) = b_data (buf c i) \<and> b_dev (buf c' i) = b_dev (buf c i) \<and>
     b_blocknr (buf c' i) = b_blocknr (buf c i) \<and> b_count (buf c' i) = b_count (buf c i))"

lemma same_bufs_simps:
  assumes "same_bufs c c'"
  shows "named c' = named c" "free_set c' = free_set c" "uniq c' = uniq c" "cached c' = cached c"
  using assms by (auto simp: same_bufs_def named_def free_set_def uniq_def cached_def fun_eq_iff)

lemma view_same: "same_bufs c c' \<Longrightarrow> disk c' = disk c \<Longrightarrow> view c' = view c"
  by (auto simp: view_def same_bufs_simps fun_eq_iff split: option.split) (simp add: same_bufs_def)

lemma find2_cong: "buf2 c' = buf2 c \<Longrightarrow> buf2_idx c' = buf2_idx c \<Longrightarrow> nr_buf2 c' = nr_buf2 c \<Longrightarrow> find2 d b c' = find2 d b c"
  by (simp add: find2_def)

text \<open>Taking the front buffer out of both chains.\<close>

lemma unlink_front:
  assumes inv: "cache_inv c" and f: "front c = Some i"
  obtains c2 where "unhash i (rm_lru i c) = Some (Ret c2)" "cache_core c2 {i}" "c2_inv c2 {}" "same_bufs c c2"
    "disk c2 = disk c" "nr_buf2 c2 = nr_buf2 c" "\<And>j. b_dirt (buf c2 j) = b_dirt (buf c j)"
proof -
  have cc: "cache_core c {}" "c2_inv c {}" using inv by (simp_all add: cache_inv_def)
  obtain ys where ys: "lru c ys" "set ys = free_set c" using cc(1) by (auto simp: cache_core_def lru_inv_def)
  then obtain zs where zs: "ys = i # zs" using f by (cases ys) (auto simp: lru_def)
  have i: "i \<in> free_set c" "i < NR_BUFS" using ys zs by (auto simp: free_set_def)
  have dist: "distinct ys" using ys(1) chain_distinct by (auto simp: lru_def)
  define c1 where "c1 = rm_lru i c"
  have l1: "lru c1 zs" unfolding c1_def using rm_lru_lru [of c "[]" i zs] ys(1) zs by simp
  have h1: "hash_inv c1 {}" using cc(1) by (simp add: cache_core_def hash_inv_def c1_def)
  obtain c2 where c2: "unhash i c1 = Some (Ret c2)" "hash_inv c2 {i}" "relinked c1 c2" by (rule unhash_inv [OF h1 i(2)])
  have flds: "buf c2 j = (buf c1 j)\<lparr>b_hash := b_hash (buf c2 j)\<rparr>" for j using c2(3) by (simp add: relinked_def)
  have b: "b_data (buf c2 j) = b_data (buf c j)" "b_dev (buf c2 j) = b_dev (buf c j)" "b_blocknr (buf c2 j) = b_blocknr (buf c j)"
    "b_count (buf c2 j) = b_count (buf c j)" "b_dirt (buf c2 j) = b_dirt (buf c j)"
    "b_next (buf c2 j) = b_next (buf c1 j)" "b_prev (buf c2 j) = b_prev (buf c1 j)" for j
    using arg_cong [OF flds [of j], of b_data] arg_cong [OF flds [of j], of b_dev] arg_cong [OF flds [of j], of b_blocknr]
      arg_cong [OF flds [of j], of b_count] arg_cong [OF flds [of j], of b_dirt] arg_cong [OF flds [of j], of b_next]
      arg_cong [OF flds [of j], of b_prev] by (simp_all add: c1_def)
  have rest: "front c2 = front c1" "rear c2 = rear c1" "bufs_in_use c2 = bufs_in_use c + 1" "disk c2 = disk c"
    "nr_buf2 c2 = nr_buf2 c" "buf2 c2 = buf2 c" "buf2_idx c2 = buf2_idx c"
    using c2(3) by (simp_all add: relinked_def c1_def)
  have sb: "same_bufs c c2" by (simp add: same_bufs_def b)
  have "lru c2 zs" using l1 by (simp add: lru_def b rest)
  moreover have "set zs = free_set c - {i}" using ys(2) zs dist by auto
  moreover have "card ({..< NR_BUFS} - (free_set c - {i})) = Suc (card ({..< NR_BUFS} - free_set c))"
  proof -
    have "{..< NR_BUFS} - (free_set c - {i}) = insert i ({..< NR_BUFS} - free_set c)" using i by (auto simp: free_set_def)
    then show ?thesis using i(1) by simp
  qed
  ultimately have "lru_inv c2 {i}" using cc(1) by (auto simp: lru_inv_def cache_core_def same_bufs_simps [OF sb] b rest)
  then have "cache_core c2 {i}" using cc(1) c2(2) i by (auto simp: cache_core_def same_bufs_simps [OF sb] coh_def b rest)
  moreover have "c2_inv c2 {}" using cc(2) find2_cong [of c2 c] by (simp add: c2_inv_def same_bufs_simps [OF sb] b rest)
  ultimately show thesis using that [of c2] c2(1) sb rest b(5) by (simp add: c1_def)
qed

text \<open>Flushing a device changes no name and nothing a caller sees.\<close>

lemma flushall_core:
  assumes io: "sound io" and core: "cache_core c X" and c2: "c2_inv c {}" and d: "dev \<noteq> NO_DEV"
    and ram: "nr_buf2 c \<noteq> 0 \<Longrightarrow> dev \<noteq> DEV_RAM" and c': "c' = flushall io dev c"
  shows "cache_core c' X" "c2_inv c' {}" "same_bufs c c'" "nr_buf2 c' = nr_buf2 c"
    "\<And>d b. d \<noteq> NO_DEV \<Longrightarrow> view c' d b = view c d b" "\<And>d b. \<forall>i. \<not> named c d b i \<Longrightarrow> disk c' d b = disk c d b"
    "\<And>i. b_dirt (buf c' i) = (b_dirt (buf c i) \<and> i \<notin> dirty_set c dev)"
    "\<And>i. i \<in> dirty_set c dev \<Longrightarrow> disk c' dev (b_blocknr (buf c i)) = b_data (buf c i)"
    "buf_hash c' = buf_hash c" "\<And>i. b_hash (buf c' i) = b_hash (buf c i)" "\<And>i. i < NR_BUFS \<Longrightarrow> coh c i \<Longrightarrow> coh c' i"
proof -
  have u: "uniq c" using core by (simp add: cache_core_def)
  obtain D n where e: "c' = c\<lparr>disk := D, io_nr := n, buf := cleaned (dirty_set c dev) c\<rparr>"
    and D1: "\<And>i. i \<in> dirty_set c dev \<Longrightarrow> D dev (b_blocknr (buf c i)) = b_data (buf c i)"
    and D2: "\<And>d b. \<not> (\<exists>i \<in> dirty_set c dev. named c d b i) \<Longrightarrow> D d b = disk c d b"
    using flushall_result [OF io u d] unfolding c' by metis
  have b: "b_data (buf c' i) = b_data (buf c i)" "b_dev (buf c' i) = b_dev (buf c i)" "b_blocknr (buf c' i) = b_blocknr (buf c i)"
    "b_count (buf c' i) = b_count (buf c i)" "b_next (buf c' i) = b_next (buf c i)" "b_prev (buf c' i) = b_prev (buf c i)"
    "b_hash (buf c' i) = b_hash (buf c i)" "b_dirt (buf c' i) = (b_dirt (buf c i) \<and> i \<notin> dirty_set c dev)" for i
    by (auto simp: e cleaned_def)
  have r: "front c' = front c" "rear c' = rear c" "bufs_in_use c' = bufs_in_use c" "buf_hash c' = buf_hash c" "buf2 c' = buf2 c"
    "nr_buf2 c' = nr_buf2 c" "buf2_idx c' = buf2_idx c" "disk c' = D" by (simp_all add: e)
  show sb: "same_bufs c c'" by (simp add: same_bufs_def b)
  show "nr_buf2 c' = nr_buf2 c" "buf_hash c' = buf_hash c" "\<And>i. b_hash (buf c' i) = b_hash (buf c i)" by (simp_all add: r b)
  show un: "\<And>d b. \<forall>i. \<not> named c d b i \<Longrightarrow> disk c' d b = disk c d b" using D2 by (simp add: r)
  show "\<And>i. b_dirt (buf c' i) = (b_dirt (buf c i) \<and> i \<notin> dirty_set c dev)" by (rule b(8))
  show "\<And>i. i \<in> dirty_set c dev \<Longrightarrow> disk c' dev (b_blocknr (buf c i)) = b_data (buf c i)" using D1 by (simp add: r)
  show coh: "coh c' i" if i: "i < NR_BUFS" "coh c i" for i
  proof (cases "i \<in> dirty_set c dev")
    case True
    then show ?thesis using D1 [OF True] by (auto simp: coh_def b r dirty_set_def)
  next
    case False
    have "D (b_dev (buf c i)) (b_blocknr (buf c i)) = disk c (b_dev (buf c i)) (b_blocknr (buf c i))" if "b_dev (buf c i) \<noteq> NO_DEV"
    proof (rule D2, rule notI)
      assume "\<exists>j \<in> dirty_set c dev. named c (b_dev (buf c i)) (b_blocknr (buf c i)) j"
      then obtain j where "j \<in> dirty_set c dev" "named c (b_dev (buf c i)) (b_blocknr (buf c i)) j" by blast
      moreover have "named c (b_dev (buf c i)) (b_blocknr (buf c i)) i" using i(1) by (simp add: named_def)
      ultimately show False using u that False unfolding uniq_def by blast
    qed
    then show ?thesis using i(2) False by (auto simp: coh_def b r)
  qed
  show "cache_core c' X"
    using core coh by (auto simp: cache_core_def lru_inv_def lru_def hash_inv_def same_bufs_simps [OF sb] b r free_set_def)
  have ramk: "D DEV_RAM k = disk c DEV_RAM k" if "nr_buf2 c \<noteq> 0" for k
  proof (rule D2)
    show "\<not> (\<exists>i \<in> dirty_set c dev. named c DEV_RAM k i)" using that ram by (auto simp: dirty_set_def named_def)
  qed
  show "c2_inv c' {}"
    using c2 ramk un find2_cong [of c' c] by (simp add: c2_inv_def same_bufs_simps [OF sb] b r)
  show "view c' d b = view c d b" if "d \<noteq> NO_DEV" for d b
  proof (cases "cached c d b")
    case None
    then have "disk c' d b = disk c d b" by (intro un) (simp add: cached_None)
    then show ?thesis using None by (simp add: view_def same_bufs_simps [OF sb])
  next
    case (Some i)
    then show ?thesis by (simp add: view_def same_bufs_simps [OF sb] b)
  qed
qed

lemma order2_step:
  assumes "idx < n"
  obtains os where "order2 idx n = os @ [idx]" "order2 (if idx + 1 = n then 0 else idx + 1) n = idx # os" "idx \<notin> set os"
proof
  have "[idx ..< n] = idx # [idx + 1 ..< n]" using assms by (simp add: upt_conv_Cons)
  then show "order2 idx n = (rev [0 ..< idx] @ rev [idx + 1 ..< n]) @ [idx]" by (simp add: order2_def)
  show "order2 (if idx + 1 = n then 0 else idx + 1) n = idx # rev [0 ..< idx] @ rev [idx + 1 ..< n]"
    using assms by (auto simp: order2_def)
  show "idx \<notin> set (rev [0 ..< idx] @ rev [idx + 1 ..< n])" by auto
qed

lemma find_cong_on: "(\<And>x. x \<in> set xs \<Longrightarrow> P x = Q x) \<Longrightarrow> List.find P xs = List.find Q xs"
  by (induction xs) auto

lemma find_append: "List.find P (xs @ ys) = (case List.find P xs of None \<Rightarrow> List.find P ys | Some x \<Rightarrow> Some x)"
  by (induction xs) auto

lemma put_block2_fields:
  assumes "sound io" "nr_buf2 c \<noteq> 0" "c' = put_block2 io i c"
  shows "buf c' = buf c" "buf_hash c' = buf_hash c" "front c' = front c" "rear c' = rear c" "bufs_in_use c' = bufs_in_use c"
    "nr_buf2 c' = nr_buf2 c" "buf2_idx c' = (if buf2_idx c + 1 = nr_buf2 c then 0 else buf2_idx c + 1)"
    "disk c' = (disk c)(DEV_RAM := (disk c DEV_RAM)(buf2_idx c := b_data (buf c i)))"
    "b2_dev (buf2 c' k) = (if k = buf2_idx c then b_dev (buf c i) else b2_dev (buf2 c k))"
    "b2_blocknr (buf2 c' k) = (if k = buf2_idx c then b_blocknr (buf c i) else b2_blocknr (buf2 c k))"
  using assms by (simp_all add: put_block2_def dev_write_def sound_def upd_buf2_def Let_def)

text \<open>A clean buffer that goes to the second level cache may be forgotten.\<close>

lemma put_block2_core:
  assumes io: "sound io" and core: "cache_core c {i}" and c2: "c2_inv c {}" and i: "b_dev (buf c i) \<noteq> NO_DEV" "\<not> b_dirt (buf c i)"
    and c': "c' = put_block2 io i c"
  shows "cache_core c' {i}" "c2_inv c' {i}" "buf c' = buf c" "buf_hash c' = buf_hash c" "nr_buf2 c' = nr_buf2 c"
    "\<And>d b. usable c d \<Longrightarrow> view c' d b = view c d b" "\<And>d b. usable c d \<Longrightarrow> disk c' d b = disk c d b"
    "\<And>j. j < NR_BUFS \<Longrightarrow> coh c j \<Longrightarrow> coh c' j"
proof -
  have eqs: "cache_core c' {i} \<and> c2_inv c' {i} \<and> buf c' = buf c \<and> buf_hash c' = buf_hash c \<and> nr_buf2 c' = nr_buf2 c \<and>
    (\<forall>d b. usable c d \<longrightarrow> disk c' d b = disk c d b) \<and> (\<forall>j < NR_BUFS. coh c j \<longrightarrow> coh c' j)"
  proof (cases "nr_buf2 c = 0")
    case True
    then show ?thesis using core by (simp add: c' put_block2_def c2_inv_def)
  next
    case nz: False
    note f = put_block2_fields [OF io nz c']
    have idx: "buf2_idx c < nr_buf2 c" and noram: "\<And>j. j < NR_BUFS \<Longrightarrow> b_dev (buf c j) \<noteq> DEV_RAM"
      and noram2: "\<And>k. k < nr_buf2 c \<Longrightarrow> b2_dev (buf2 c k) \<noteq> DEV_RAM"
      and old: "\<And>d b k. d \<noteq> NO_DEV \<Longrightarrow> \<forall>j. \<not> named c d b j \<Longrightarrow> find2 d b c = Some k \<Longrightarrow> disk c DEV_RAM k = disk c d b"
      using c2 nz by (auto simp: c2_inv_def)
    have iN: "i < NR_BUFS" "i \<in> free_set c" using core by (auto simp: cache_core_def free_set_def)
    have data: "b_data (buf c i) = disk c (b_dev (buf c i)) (b_blocknr (buf c i))"
      using core i iN by (auto simp: cache_core_def coh_def)
    have nm: "named c' = named c" "free_set c' = free_set c" by (auto simp: named_def free_set_def f(1) fun_eq_iff)
    have us: "disk c' d b = disk c d b" if "d \<noteq> DEV_RAM" for d b using that by (simp add: f(8))
    have co: "coh c' j" if "j < NR_BUFS" "coh c j" for j
      using that noram [of j] by (auto simp: coh_def f(1) us)
    then have cc: "cache_core c' {i}"
      using core nm by (auto simp: cache_core_def lru_inv_def lru_def hash_inv_def uniq_def f(1-5) free_set_def)
    obtain os where os: "order2 (buf2_idx c) (nr_buf2 c) = os @ [buf2_idx c]" "order2 (buf2_idx c') (nr_buf2 c') = buf2_idx c # os"
      "buf2_idx c \<notin> set os" using order2_step [OF idx] unfolding f(6,7) by metis
    have new: "disk c' DEV_RAM k = disk c' d b"
      if d: "d \<noteq> NO_DEV" "\<forall>j. j \<notin> {i} \<longrightarrow> \<not> named c d b j" "find2 d b c' = Some k" for d b k
    proof (cases "d = b_dev (buf c i) \<and> b = b_blocknr (buf c i)")
      case True
      then have "k = buf2_idx c" using d(3) unfolding find2_def os(2) by (simp add: f(9,10))
      then show ?thesis using True data us [of d b] noram [OF iN(1)] by (simp add: f(8))
    next
      case False
      then have no: "\<forall>j. \<not> named c d b j" using d(2) by (auto simp: named_def)
      have "find2 d b c' = List.find (\<lambda>k. b2_blocknr (buf2 c' k) = b \<and> b2_dev (buf2 c' k) = d) os"
        unfolding find2_def os(2) using False by (auto simp: f(9,10))
      also have "\<dots> = List.find (\<lambda>k. b2_blocknr (buf2 c k) = b \<and> b2_dev (buf2 c k) = d) os"
        by (rule find_cong_on) (use os(3) in \<open>auto simp: f(9,10)\<close>)
      finally have fk: "List.find (\<lambda>k. b2_blocknr (buf2 c k) = b \<and> b2_dev (buf2 c k) = d) os = Some k" using d(3) by simp
      then have ok: "find2 d b c = Some k" unfolding find2_def os(1) find_append by simp
      have kn: "k \<in> set os" "b2_dev (buf2 c k) = d" using find_SomeD [OF fk] by simp_all
      have "k \<in> set (order2 (buf2_idx c) (nr_buf2 c))" using kn(1) os(1) by simp
      then have "k < nr_buf2 c" using idx by (auto simp: order2_def)
      then have "d \<noteq> DEV_RAM" using noram2 kn(2) by blast
      moreover have "k \<noteq> buf2_idx c" using kn(1) os(3) by auto
      ultimately show ?thesis using old [OF d(1) no ok] by (simp add: f(8))
    qed
    have "c2_inv c' {i}" unfolding c2_inv_def
    proof (intro impI conjI allI)
      show "buf2_idx c' < nr_buf2 c'" using idx by (auto simp: f)
      show "b_dev (buf c' j) \<noteq> DEV_RAM" if "j < NR_BUFS" for j using noram that by (simp add: f(1))
      show "b2_dev (buf2 c' k) \<noteq> DEV_RAM" if "k < nr_buf2 c'" for k using noram2 noram [OF iN(1)] that by (simp add: f)
      show "disk c' DEV_RAM k = disk c' d b"
        if "d \<noteq> NO_DEV" "\<forall>j. j \<notin> {i} \<longrightarrow> \<not> named c' d b j" "find2 d b c' = Some k" for d b k
        using new that by (simp add: nm)
    qed
    then show ?thesis using cc us nz co by (auto simp: f usable_def)
  qed
  then show "cache_core c' {i}" "c2_inv c' {i}" and b: "buf c' = buf c" and "buf_hash c' = buf_hash c" "nr_buf2 c' = nr_buf2 c"
    and d: "\<And>d b. usable c d \<Longrightarrow> disk c' d b = disk c d b" and "\<And>j. j < NR_BUFS \<Longrightarrow> coh c j \<Longrightarrow> coh c' j" by auto
  have "cached c' = cached c" by (simp add: cached_def b fun_eq_iff)
  then show "\<And>d b. usable c d \<Longrightarrow> view c' d b = view c d b" using d by (simp add: view_def b split: option.split)
qed

section \<open>Getting a block\<close>

definition make_room :: "(nat \<Rightarrow> int) \<Rightarrow> nat \<Rightarrow> cache \<Rightarrow> cache" where
  "make_room io i c = (if b_dev (buf c i) \<noteq> NO_DEV
     then put_block2 io i (if b_dirt (buf c i) then flushall io (b_dev (buf c i)) c else c) else c)"

text \<open>After \<open>make_room\<close> the contents of the buffer are on the disk.\<close>

lemma make_room_core:
  assumes io: "sound io" and core: "cache_core c {i}" and c2: "c2_inv c {}" and c': "c' = make_room io i c"
  shows "cache_core c' {i}" "c2_inv c' {i}" "same_bufs c c'" "nr_buf2 c' = nr_buf2 c"
    "\<And>d b. usable c d \<Longrightarrow> view c' d b = view c d b"
    "b_dev (buf c i) \<noteq> NO_DEV \<Longrightarrow> disk c' (b_dev (buf c i)) (b_blocknr (buf c i)) = b_data (buf c i)"
    "\<And>d b. usable c d \<Longrightarrow> \<forall>j. \<not> named c d b j \<Longrightarrow> disk c' d b = disk c d b"
    "\<And>j. j < NR_BUFS \<Longrightarrow> coh c j \<Longrightarrow> coh c' j"
proof -
  have i: "i < NR_BUFS" "i \<in> free_set c" using core by (auto simp: cache_core_def free_set_def)
  have ram: "b_dev (buf c i) \<noteq> DEV_RAM" if "nr_buf2 c \<noteq> 0" using c2 that i(1) by (auto simp: c2_inv_def)
  have "cache_core c' {i} \<and> c2_inv c' {i} \<and> same_bufs c c' \<and> nr_buf2 c' = nr_buf2 c \<and> (\<forall>d b. usable c d \<longrightarrow> view c' d b = view c d b) \<and>
    (b_dev (buf c i) \<noteq> NO_DEV \<longrightarrow> disk c' (b_dev (buf c i)) (b_blocknr (buf c i)) = b_data (buf c i)) \<and>
    (\<forall>d b. usable c d \<longrightarrow> (\<forall>j. \<not> named c d b j) \<longrightarrow> disk c' d b = disk c d b) \<and> (\<forall>j < NR_BUFS. coh c j \<longrightarrow> coh c' j)"
  proof (cases "b_dev (buf c i) = NO_DEV")
    case True
    have "c2_inv c {i}" unfolding c2_inv_def
    proof (intro impI conjI allI)
      assume nz: "nr_buf2 c \<noteq> 0"
      then show "buf2_idx c < nr_buf2 c" "\<And>j. j < NR_BUFS \<Longrightarrow> b_dev (buf c j) \<noteq> DEV_RAM" "\<And>k. k < nr_buf2 c \<Longrightarrow> b2_dev (buf2 c k) \<noteq> DEV_RAM"
        using c2 by (auto simp: c2_inv_def)
      fix d b k assume "d \<noteq> NO_DEV" "\<forall>j. j \<notin> {i} \<longrightarrow> \<not> named c d b j" "find2 d b c = Some k"
      moreover then have "\<forall>j. \<not> named c d b j" using True by (auto simp: named_def)
      ultimately show "disk c DEV_RAM k = disk c d b" using c2 nz by (auto simp: c2_inv_def)
    qed
    then show ?thesis using True core by (simp add: c' make_room_def same_bufs_def)
  next
    case dev: False
    let ?d = "b_dev (buf c i)"
    define c1 where "c1 = (if b_dirt (buf c i) then flushall io ?d c else c)"
    have c1: "cache_core c1 {i}" "c2_inv c1 {}" "same_bufs c c1" "nr_buf2 c1 = nr_buf2 c"
      "\<And>d b. d \<noteq> NO_DEV \<Longrightarrow> view c1 d b = view c d b" "\<And>d b. \<forall>j. \<not> named c d b j \<Longrightarrow> disk c1 d b = disk c d b"
      "\<not> b_dirt (buf c1 i)" "disk c1 ?d (b_blocknr (buf c i)) = b_data (buf c i)" "\<And>j. j < NR_BUFS \<Longrightarrow> coh c j \<Longrightarrow> coh c1 j"
    proof -
      have in_set: "b_dirt (buf c i) \<Longrightarrow> i \<in> dirty_set c ?d" using i(1) by (simp add: dirty_set_def)
      note fl = flushall_core [OF io core c2 dev ram refl]
      have "coh c i" using core i by (simp add: cache_core_def)
      then have cl: "\<not> b_dirt (buf c i) \<Longrightarrow> disk c ?d (b_blocknr (buf c i)) = b_data (buf c i)" using dev by (simp add: coh_def)
      show "cache_core c1 {i}" "c2_inv c1 {}" "same_bufs c c1" "nr_buf2 c1 = nr_buf2 c" using fl(1-4) core c2 by (auto simp: c1_def same_bufs_def)
      show "\<And>d b. d \<noteq> NO_DEV \<Longrightarrow> view c1 d b = view c d b" "\<And>d b. \<forall>j. \<not> named c d b j \<Longrightarrow> disk c1 d b = disk c d b"
        using fl(5,6) by (auto simp: c1_def)
      show "\<And>j. j < NR_BUFS \<Longrightarrow> coh c j \<Longrightarrow> coh c1 j" using fl(11) by (simp add: c1_def)
      show "\<not> b_dirt (buf c1 i)" "disk c1 ?d (b_blocknr (buf c i)) = b_data (buf c i)"
        using fl(7) [of i] fl(8) [of i] in_set cl by (auto simp: c1_def)
    qed
    have s1: "b_dev (buf c1 i) = ?d" "b_blocknr (buf c1 i) = b_blocknr (buf c i)" "b_data (buf c1 i) = b_data (buf c i)"
      using c1(3) by (simp_all add: same_bufs_def)
    have c'1: "c' = put_block2 io i c1" using dev by (simp add: c' make_room_def c1_def)
    note p = put_block2_core [OF io c1(1,2) _ c1(7) c'1, unfolded s1, OF dev]
    have us: "usable c1 d = usable c d" for d by (simp add: usable_def c1(4))
    have ud: "usable c ?d" using dev ram by (auto simp: usable_def)
    have "same_bufs c c'" using c1(3) p(3) by (simp add: same_bufs_def)
    moreover have "view c' d b = view c d b" if "usable c d" for d b using p(6) [of d b] c1(5) [of d b] that us [of d] by (auto simp: usable_def)
    moreover have "disk c' d b = disk c d b" if "usable c d" "\<forall>j. \<not> named c d b j" for d b using p(7) [of d b] c1(6) [of d b] that us by simp
    ultimately show ?thesis using p(1,2,5) c1(4,8,9) p(7) [of ?d] p(8) ud us by auto
  qed
  then show "cache_core c' {i}" "c2_inv c' {i}" "same_bufs c c'" "nr_buf2 c' = nr_buf2 c"
    "\<And>d b. usable c d \<Longrightarrow> view c' d b = view c d b"
    "b_dev (buf c i) \<noteq> NO_DEV \<Longrightarrow> disk c' (b_dev (buf c i)) (b_blocknr (buf c i)) = b_data (buf c i)"
    "\<And>d b. usable c d \<Longrightarrow> \<forall>j. \<not> named c d b j \<Longrightarrow> disk c' d b = disk c d b"
    "\<And>j. j < NR_BUFS \<Longrightarrow> coh c j \<Longrightarrow> coh c' j" by auto
qed

definition rename_buf :: "int \<Rightarrow> nat \<Rightarrow> nat \<Rightarrow> cache \<Rightarrow> cache" where
  "rename_buf dev block i c =
     (let b = hash_of block;
          c2 = upd_buf i (\<lambda>x. x\<lparr>b_dev := dev, b_blocknr := block, b_count := b_count x + 1, b_hash := buf_hash c b\<rparr>) c
      in c2\<lparr>buf_hash := (buf_hash c2)(b := Some i)\<rparr>)"

lemma rename_sel [simp]:
  "disk (rename_buf d b i c) = disk c" "nr_buf2 (rename_buf d b i c) = nr_buf2 c" "buf2 (rename_buf d b i c) = buf2 c"
  "buf2_idx (rename_buf d b i c) = buf2_idx c" "front (rename_buf d b i c) = front c" "rear (rename_buf d b i c) = rear c"
  "bufs_in_use (rename_buf d b i c) = bufs_in_use c" "io_nr (rename_buf d b i c) = io_nr c"
  "buf (rename_buf d b i c) = (buf c)(i := (buf c i)\<lparr>b_dev := d, b_blocknr := b, b_count := b_count (buf c i) + 1, b_hash := buf_hash c (hash_of b)\<rparr>)"
  "buf_hash (rename_buf d b i c) = (buf_hash c)(hash_of b := Some i)"
  by (simp_all add: rename_buf_def Let_def)

lemma rename_hash:
  assumes "hash_inv c {i}" "i < NR_BUFS" shows "hash_inv (rename_buf d b i c) {}"
  unfolding hash_inv_def
proof (intro allI impI)
  fix h assume h: "h < NR_BUF_HASH"
  let ?c = "rename_buf d b i c"
  obtain xs where xs: "chain (hsh c) (buf_hash c h) xs" "set xs = {j. j < NR_BUFS \<and> j \<notin> {i} \<and> hash_of (b_blocknr (buf c j)) = h}"
    by (rule hash_invE [OF assms(1) h])
  have hs: "hsh ?c = (hsh c)(i := buf_hash c (hash_of b))" by auto
  show "\<exists>ws. chain (hsh ?c) (buf_hash ?c h) ws \<and> set ws = {j. j < NR_BUFS \<and> j \<notin> {} \<and> hash_of (b_blocknr (buf ?c j)) = h}"
  proof (cases "h = hash_of b")
    case True
    have "chain (hsh ?c) (buf_hash ?c h) (i # xs)" unfolding hs True using xs chain_push [of "hsh c" "buf_hash c h" xs i] True by auto
    then show ?thesis using xs(2) True assms(2) by (intro exI [of _ "i # xs"]) auto
  next
    case False
    have "chain (hsh ?c) (buf_hash ?c h) xs" unfolding hs using xs False by simp
    then show ?thesis using xs(2) False by (intro exI [of _ xs]) auto
  qed
qed

lemma rename_core:
  assumes core: "cache_core c {i}" and c2: "c2_inv c {i}" and new: "dev \<noteq> NO_DEV \<Longrightarrow> \<forall>j. \<not> named c dev block j"
    and ram: "dev = DEV_RAM \<Longrightarrow> nr_buf2 c = 0" and c': "c' = rename_buf dev block i c"
  shows "cache_core c' {}" "c2_inv c' {i}" "free_set c' = free_set c - {i}"
    "\<And>d b. d \<noteq> NO_DEV \<Longrightarrow> named c' d b = (if d = dev \<and> b = block then (\<lambda>j. j = i) else (\<lambda>j. j \<noteq> i \<and> named c d b j))"
proof -
  have i: "i < NR_BUFS" "i \<in> free_set c" "b_count (buf c i) = 0" using core by (auto simp: cache_core_def free_set_def)
  show fs: "free_set c' = free_set c - {i}" using i by (auto simp: free_set_def c')
  show nm: "named c' d b = (if d = dev \<and> b = block then (\<lambda>j. j = i) else (\<lambda>j. j \<noteq> i \<and> named c d b j))" if "d \<noteq> NO_DEV" for d b
    using new i(1) that by (auto simp: c' named_def fun_eq_iff)
  have un: "uniq c'" using core unfolding uniq_def cache_core_def by (auto simp: nm)
  have lru: "lru c' ys = lru c ys" for ys
  proof -
    have "nxt c' = nxt c" "prv c' = prv c" by (auto simp: c')
    then show ?thesis by (simp add: lru_def c')
  qed
  have "lru_inv c' {}" using core i unfolding cache_core_def lru_inv_def lru fs by (auto simp: c')
  moreover have "hash_inv c' {}" unfolding c' by (rule rename_hash) (use core i in \<open>auto simp: cache_core_def\<close>)
  moreover have "coh c' j" if "j \<in> free_set c'" for j
  proof -
    have "j \<noteq> i" "coh c j" using that fs core by (auto simp: cache_core_def)
    then show ?thesis by (simp add: coh_def c')
  qed
  ultimately show "cache_core c' {}" using un by (simp add: cache_core_def)
  have f2: "find2 d b c' = find2 d b c" for d b by (rule find2_cong) (simp_all add: c')
  have "named c' d b j = named c d b j" if "j \<noteq> i" for d b j using that by (simp add: c' named_def)
  then have "(\<forall>j. j \<notin> {i} \<longrightarrow> \<not> named c' d b j) = (\<forall>j. j \<notin> {i} \<longrightarrow> \<not> named c d b j)" for d b by auto
  then show "c2_inv c' {i}" using c2 ram unfolding c2_inv_def f2 by (auto simp: c')
qed

text \<open>Giving the renamed buffer its contents, or its name up, and telling the second level cache.\<close>

lemma c2_inv_more: "c2_inv c X \<Longrightarrow> Y \<subseteq> X \<Longrightarrow> c2_inv c Y"
  unfolding c2_inv_def by blast

lemma cache_inv_pinned:
  assumes core: "cache_core c {}" and c2: "c2_inv c {i}" and i: "i \<notin> free_set c" "i < NR_BUFS"
    and f: "\<And>x. b_count (f x) = b_count x \<and> b_next (f x) = b_next x \<and> b_prev (f x) = b_prev x \<and> b_hash (f x) = b_hash x \<and> b_blocknr (f x) = b_blocknr x"
    and dev: "b_dev (f (buf c i)) = b_dev (buf c i) \<or> b_dev (f (buf c i)) = NO_DEV"
    and n: "n = nr_buf2 c \<or> n = 0"
  shows "cache_inv ((upd_buf i f c)\<lparr>io_nr := m, nr_buf2 := n\<rparr>)"
proof -
  let ?c = "(upd_buf i f c)\<lparr>io_nr := m, nr_buf2 := n\<rparr>"
  have b: "b_count (buf ?c j) = b_count (buf c j)" "b_next (buf ?c j) = b_next (buf c j)" "b_prev (buf ?c j) = b_prev (buf c j)"
    "b_hash (buf ?c j) = b_hash (buf c j)" "b_blocknr (buf ?c j) = b_blocknr (buf c j)" for j using f by auto
  have fs: "free_set ?c = free_set c" by (simp only: free_set_def b)
  have nm: "named ?c d b j \<Longrightarrow> d \<noteq> NO_DEV \<Longrightarrow> named c d b j" for d b j using dev f by (auto simp: named_def split: if_splits)
  have nm2: "j \<noteq> i \<Longrightarrow> named ?c d b j = named c d b j" for d b j by (simp add: named_def)
  have "lru_inv ?c {}" using core unfolding cache_core_def lru_inv_def lru_def fs b by simp
  moreover have "hash_inv ?c {}" using core unfolding cache_core_def hash_inv_def b by simp
  moreover have "uniq ?c" using core nm unfolding cache_core_def uniq_def by blast
  moreover have "coh ?c j" if "j \<in> free_set c" for j
  proof -
    have "j \<noteq> i" using that i by auto
    then show ?thesis using that core by (auto simp: coh_def cache_core_def)
  qed
  ultimately have "cache_core ?c {}" by (simp add: cache_core_def fs)
  moreover have "c2_inv ?c {i}"
  proof (cases "n = 0")
    case True
    then show ?thesis by (simp add: c2_inv_def)
  next
    case False
    then have n': "n = nr_buf2 c" using n by simp
    have f2: "find2 d b ?c = find2 d b c" for d b by (rule find2_cong) (simp_all add: n')
    have "(\<forall>j. j \<notin> {i} \<longrightarrow> \<not> named ?c d b j) = (\<forall>j. j \<notin> {i} \<longrightarrow> \<not> named c d b j)" for d b using nm2 by auto
    moreover have "b_dev (buf ?c j) \<noteq> DEV_RAM" if "b_dev (buf c j) \<noteq> DEV_RAM" for j using that dev by (auto simp: NO_DEV_def DEV_RAM_def)
    ultimately show ?thesis using c2 unfolding c2_inv_def f2 by (auto simp: n')
  qed
  ultimately show ?thesis using c2_inv_more by (auto simp: cache_inv_def)
qed

end
