(* ===== verification/Fs_Store.thy ===== *)
theory Fs_Store
  imports Fs_Blocks
begin

text \<open>
  What \<^verbatim>\<open>get_block\<close> and \<^verbatim>\<open>put_block\<close> promise their callers. Inside a transaction a caller holds
  buffers (\<open>holds\<close>): while it holds one, nobody takes it away, and the buffer is what everybody
  sees of the block. The locale \<open>block_store\<close> is this contract; the map of free zones, the inodes
  and the files are clients of it.
\<close>

section \<open>The buffer of a block\<close>

text \<open>The last step of \<^verbatim>\<open>get_block\<close>, on a buffer that has its new name.\<close>

definition fetch :: "(nat \<Rightarrow> int) \<Rightarrow> int \<Rightarrow> search \<Rightarrow> nat \<Rightarrow> cache \<Rightarrow> cache" where
  "fetch io dev mode i c =
     (if dev \<noteq> NO_DEV then
        let (hit, c4) = get_block2 io i mode c
        in if hit then c4
           else if mode = PREFETCH then upd_buf i (b_dev_update (\<lambda>_. NO_DEV)) c4
           else if mode = NORMAL then rw_block io i True c4
           else c4
      else c)"

lemma fill_block_stages: "fill_block io dev block mode i c = fetch io dev mode i (rename_buf dev block i (make_room io i c))"
  by (simp add: fill_block_def fetch_def rename_buf_def make_room_def Let_def)

lemma fetch_result:
  assumes io: "sound io" and b: "b_dev (buf c i) = dev" "b_blocknr (buf c i) = block" and us: "dev \<noteq> NO_DEV \<Longrightarrow> usable c dev"
    and c2: "\<And>k. dev \<noteq> NO_DEV \<Longrightarrow> nr_buf2 c \<noteq> 0 \<Longrightarrow> find2 dev block c = Some k \<Longrightarrow> disk c DEV_RAM k = disk c dev block"
  obtains f m where "fetch io dev mode i c = (upd_buf i f c)\<lparr>io_nr := m, nr_buf2 := nr_buf2 c\<rparr>"
    "\<And>x. b_count (f x) = b_count x \<and> b_next (f x) = b_next x \<and> b_prev (f x) = b_prev x \<and> b_hash (f x) = b_hash x \<and> b_blocknr (f x) = b_blocknr x"
    "b_dev (f (buf c i)) = dev \<or> b_dev (f (buf c i)) = NO_DEV \<and> mode = PREFETCH"
    "dev \<noteq> NO_DEV \<Longrightarrow> mode \<noteq> NO_READ \<Longrightarrow> b_dev (f (buf c i)) = dev \<Longrightarrow> b_data (f (buf c i)) = disk c dev block"
proof (cases "dev = NO_DEV")
  case True
  have "fetch io dev mode i c = (upd_buf i (\<lambda>x. x) c)\<lparr>io_nr := io_nr c, nr_buf2 := nr_buf2 c\<rparr>" using True by (simp add: fetch_def upd_buf_def)
  then show thesis by (rule that) (use b True in auto)
next
  case False
  note found = that
  have ram: "dev = DEV_RAM \<Longrightarrow> nr_buf2 c = 0" using us False by (auto simp: usable_def)
  have noop: "(if b_dev (buf c i) = DEV_RAM then c\<lparr>nr_buf2 := 0\<rparr> else c) = c" using ram b by auto
  have miss: thesis if g: "get_block2 io i mode c = (False, c)"
  proof (cases mode)
    case NORMAL
    have "fetch io dev mode i c = (upd_buf i (\<lambda>x. x\<lparr>b_data := disk c dev block, b_dirt := False\<rparr>) c)\<lparr>io_nr := io_nr c + 1, nr_buf2 := nr_buf2 c\<rparr>"
      using False g NORMAL io b by (simp add: fetch_def rw_block_def dev_read_def sound_def upd_buf_def Let_def)
    then show ?thesis by (rule found) (use b False NORMAL in auto)
  next
    case NO_READ
    have "fetch io dev mode i c = (upd_buf i (\<lambda>x. x) c)\<lparr>io_nr := io_nr c, nr_buf2 := nr_buf2 c\<rparr>"
      using False g NO_READ by (simp add: fetch_def upd_buf_def)
    then show ?thesis by (rule found) (use b False NO_READ in auto)
  next
    case PREFETCH
    have "fetch io dev mode i c = (upd_buf i (b_dev_update (\<lambda>_. NO_DEV)) c)\<lparr>io_nr := io_nr c, nr_buf2 := nr_buf2 c\<rparr>"
      using False g PREFETCH by (simp add: fetch_def upd_buf_def)
    then show ?thesis by (rule found) (use b False PREFETCH in auto)
  qed
  show thesis
  proof (cases "nr_buf2 c = 0 \<or> mode = NO_READ \<or> b2_count (buf2 c (hash2 block)) = 0 \<or> find2 dev block c = None")
    case True
    then have "get_block2 io i mode c = (False, c)" using b noop by (auto simp: get_block2_def Let_def)
    then show ?thesis by (rule miss)
  next
    case hit: False
    then obtain k where k: "find2 dev block c = Some k" by blast
    have "get_block2 io i mode c = (True, upd_buf i (\<lambda>x. x\<lparr>b_data := disk c DEV_RAM k\<rparr>) (c\<lparr>io_nr := io_nr c + 1\<rparr>))"
      using hit k b noop io by (simp add: get_block2_def dev_read_def sound_def Let_def)
    then have "fetch io dev mode i c = (upd_buf i (\<lambda>x. x\<lparr>b_data := disk c dev block\<rparr>) c)\<lparr>io_nr := io_nr c + 1, nr_buf2 := nr_buf2 c\<rparr>"
      using False hit c2 [OF False _ k] by (simp add: fetch_def upd_buf_def)
    then show ?thesis by (rule that) (use b False in auto)
  qed
qed

text \<open>What the caller of \<^verbatim>\<open>get_block\<close> may rely on.\<close>

definition got :: "cache \<Rightarrow> int \<Rightarrow> nat \<Rightarrow> search \<Rightarrow> nat \<Rightarrow> cache \<Rightarrow> bool" where
  "got c dev block mode i c' \<longleftrightarrow>
     cache_inv c' \<and> i < NR_BUFS \<and> nr_buf2 c' = nr_buf2 c \<and>
     (\<forall>j. b_count (buf c' j) = b_count (buf c j) + (if j = i then 1 else 0)) \<and>
     b_blocknr (buf c' i) = block \<and>
     (b_dev (buf c' i) = dev \<or> b_dev (buf c' i) = NO_DEV \<and> mode = PREFETCH) \<and>
     (dev \<noteq> NO_DEV \<longrightarrow> mode \<noteq> NO_READ \<longrightarrow> b_dev (buf c' i) = dev \<longrightarrow> b_data (buf c' i) = view c dev block) \<and>
     (mode = NORMAL \<longrightarrow> (b_count (buf c i) \<noteq> 0 \<longrightarrow> coh c i) \<longrightarrow> coh c' i) \<and>
     (\<forall>d b. usable c d \<longrightarrow> (mode = NO_READ \<longrightarrow> (d, b) \<noteq> (dev, block)) \<longrightarrow> view c' d b = view c d b) \<and>
     (\<forall>j < NR_BUFS. b_count (buf c j) \<noteq> 0 \<longrightarrow> b_dev (buf c' j) = b_dev (buf c j) \<and> b_blocknr (buf c' j) = b_blocknr (buf c j) \<and>
        b_data (buf c' j) = b_data (buf c j) \<and> (coh c j \<longrightarrow> coh c' j))"

lemma fill_block_got:
  assumes io: "sound io" and core: "cache_core c {i}" and c2: "c2_inv c {}" and us: "dev \<noteq> NO_DEV \<Longrightarrow> usable c dev"
    and new: "dev \<noteq> NO_DEV \<Longrightarrow> \<forall>j. \<not> named c dev block j"
  shows "got c dev block mode i (fill_block io dev block mode i c)"
proof -
  define c1 where "c1 = make_room io i c"
  define c3 where "c3 = rename_buf dev block i c1"
  note m = make_room_core [OF io core c2 c1_def]
  have sb: "b_data (buf c1 j) = b_data (buf c j)" "b_dev (buf c1 j) = b_dev (buf c j)" "b_blocknr (buf c1 j) = b_blocknr (buf c j)"
    "b_count (buf c1 j) = b_count (buf c j)" for j using m(3) by (simp_all add: same_bufs_def)
  have nm: "named c1 = named c" by (rule same_bufs_simps(1) [OF m(3)])
  have i: "i < NR_BUFS" "b_count (buf c i) = 0" using core by (auto simp: cache_core_def free_set_def)
  have ram: "dev = DEV_RAM \<Longrightarrow> nr_buf2 c1 = 0" using us m(4) by (auto simp: usable_def NO_DEV_def DEV_RAM_def)
  have rn: "cache_core c3 {}" "c2_inv c3 {i}" "free_set c3 = free_set c1 - {i}"
    "\<And>d b. d \<noteq> NO_DEV \<Longrightarrow> named c3 d b = (if d = dev \<and> b = block then (\<lambda>j. j = i) else (\<lambda>j. j \<noteq> i \<and> named c d b j))"
    using rename_core [OF m(1,2) _ _ c3_def] new ram unfolding nm by blast+
  have bi: "b_dev (buf c3 i) = dev" "b_blocknr (buf c3 i) = block" by (simp_all add: c3_def)
  have nr: "nr_buf2 c3 = nr_buf2 c" by (simp add: c3_def m(4))
  have us3: "usable c3 d = usable c d" for d by (simp add: usable_def nr)
  have c2': "disk c3 DEV_RAM k = disk c3 dev block" if "dev \<noteq> NO_DEV" "nr_buf2 c3 \<noteq> 0" "find2 dev block c3 = Some k" for k
  proof -
    have "\<forall>j. j \<notin> {i} \<longrightarrow> \<not> named c3 dev block j" using rn(4) [OF that(1)] by simp
    then show ?thesis using rn(2) that by (auto simp: c2_inv_def)
  qed
  obtain f n where f: "fetch io dev mode i c3 = (upd_buf i f c3)\<lparr>io_nr := n, nr_buf2 := nr_buf2 c3\<rparr>"
    "\<And>x. b_count (f x) = b_count x \<and> b_next (f x) = b_next x \<and> b_prev (f x) = b_prev x \<and> b_hash (f x) = b_hash x \<and> b_blocknr (f x) = b_blocknr x"
    "b_dev (f (buf c3 i)) = dev \<or> b_dev (f (buf c3 i)) = NO_DEV \<and> mode = PREFETCH"
    "dev \<noteq> NO_DEV \<Longrightarrow> mode \<noteq> NO_READ \<Longrightarrow> b_dev (f (buf c3 i)) = dev \<Longrightarrow> b_data (f (buf c3 i)) = disk c3 dev block"
    by (rule fetch_result [OF io bi, of mode]) (use us us3 c2' in auto)
  define c' where "c' = fill_block io dev block mode i c"
  have c': "c' = (upd_buf i f c3)\<lparr>io_nr := n, nr_buf2 := nr_buf2 c3\<rparr>" unfolding c'_def fill_block_stages c1_def [symmetric] c3_def [symmetric] by (rule f(1))
  have inv: "cache_inv c'" unfolding c' by (rule cache_inv_pinned [OF rn(1,2) _ i(1) f(2)]) (use i f(3) rn(3) bi in auto)
  have disk: "disk c' = disk c1" by (simp add: c' c3_def)
  have oth: "buf c' j = buf c1 j" if "j \<noteq> i" for j using that by (simp add: c' c3_def)
  have bi': "buf c' i = f (buf c3 i)" by (simp add: c')
  have vnew: "disk c1 dev block = view c dev block" if "dev \<noteq> NO_DEV"
    using m(7) [OF us [OF that] new [OF that]] view_uncached [OF new [OF that]] by simp
  have u: "uniq c" "uniq c'" using core inv by (simp_all add: cache_core_def cache_inv_def)
  have view: "view c' d b = view c d b" if d: "usable c d" "mode = NO_READ \<longrightarrow> (d, b) \<noteq> (dev, block)" for d b
  proof -
    have dn: "d \<noteq> NO_DEV" using d by (simp add: usable_def)
    have nm': "named c' d b j = named c d b j" if "j \<noteq> i" for j using that oth sb by (simp add: named_def)
    consider (here) "named c' d b i" | (there) j where "j \<noteq> i" "named c d b j" | (no) "\<not> named c' d b i" "\<forall>j. j \<noteq> i \<longrightarrow> \<not> named c d b j" by blast
    then show ?thesis
    proof cases
      case here
      then have e: "d = dev" "b = block" "b_dev (f (buf c3 i)) = dev" using f(2,3) bi dn by (auto simp: named_def bi')
      have "view c' d b = b_data (f (buf c3 i))" using view_named [OF u(2) dn here] bi' by simp
      also have "\<dots> = view c d b" using f(4) dn e d(2) vnew by (simp add: c3_def)
      finally show ?thesis .
    next
      case there
      have "named c' d b j" using there nm' by simp
      then show ?thesis using view_named [OF u(2) dn, of b j] view_named [OF u(1) dn there(2)] oth [OF there(1)] sb by simp
    next
      case no
      have "\<forall>j. \<not> named c' d b j" using no nm' by metis
      then have e: "view c' d b = disk c1 d b" by (simp add: view_uncached disk)
      show ?thesis
      proof (cases "named c d b i")
        case True
        then have "d = b_dev (buf c i)" "b = b_blocknr (buf c i)" by (simp_all add: named_def)
        then show ?thesis using e m(6) dn view_named [OF u(1) dn True] by simp
      next
        case False
        then have "\<forall>j. \<not> named c d b j" using no(2) by metis
        then show ?thesis using e m(7) [OF d(1)] view_uncached by simp
      qed
    qed
  qed
  have "b_count (buf c' j) = b_count (buf c j) + (if j = i then 1 else 0)" for j using f(2) sb oth by (auto simp: bi' c3_def)
  moreover have "coh c' j" if "j < NR_BUFS" "j \<noteq> i" "coh c j" for j using m(8) [OF that(1,3)] oth [OF that(2)] by (simp add: coh_def disk)
  moreover have "nr_buf2 c' = nr_buf2 c" by (simp add: c' nr)
  moreover have "b_dev (buf c' j) = b_dev (buf c j) \<and> b_blocknr (buf c' j) = b_blocknr (buf c j) \<and>
      b_data (buf c' j) = b_data (buf c j) \<and> (coh c j \<longrightarrow> coh c' j)" if "j < NR_BUFS" "b_count (buf c j) \<noteq> 0" for j
  proof -
    have "j \<noteq> i" using that i by auto
    then show ?thesis using that calculation oth [of j] sb [of j] by simp
  qed
  moreover have "b_data (buf c' i) = view c dev block" if "dev \<noteq> NO_DEV" "mode \<noteq> NO_READ" "b_dev (buf c' i) = dev"
    using f(4) that vnew by (simp add: bi' c3_def)
  moreover have "coh c' i" if "mode = NORMAL" using f(3,4) that bi f(2) by (auto simp: coh_def bi' disk c3_def)
  moreover have "b_blocknr (buf c' i) = block" using f(2) bi by (simp add: bi')
  moreover have "b_dev (buf c' i) = dev \<or> b_dev (buf c' i) = NO_DEV \<and> mode = PREFETCH" using f(3) by (simp add: bi')
  ultimately show ?thesis unfolding got_def c'_def [symmetric] using inv i(1) view by blast
qed

text \<open>Changing the LRU chain and the counts only.\<close>

definition same_names :: "cache \<Rightarrow> cache \<Rightarrow> bool" where
  "same_names c c' \<longleftrightarrow> (\<forall>j. b_data (buf c' j) = b_data (buf c j) \<and> b_dev (buf c' j) = b_dev (buf c j) \<and> b_blocknr (buf c' j) = b_blocknr (buf c j) \<and>
     b_dirt (buf c' j) = b_dirt (buf c j) \<and> b_hash (buf c' j) = b_hash (buf c j)) \<and> buf_hash c' = buf_hash c \<and> disk c' = disk c \<and>
     nr_buf2 c' = nr_buf2 c \<and> buf2 c' = buf2 c \<and> buf2_idx c' = buf2_idx c"

lemma same_names_simps:
  assumes "same_names c c'"
  shows "named c' = named c" "cached c' = cached c" "view c' = view c" "coh c' = coh c" "uniq c' = uniq c" "hash_inv c' X = hash_inv c X"
    "c2_inv c' X = c2_inv c X" "usable c' = usable c"
proof -
  have b: "b_data (buf c' j) = b_data (buf c j)" "b_dev (buf c' j) = b_dev (buf c j)" "b_blocknr (buf c' j) = b_blocknr (buf c j)"
    "b_dirt (buf c' j) = b_dirt (buf c j)" "b_hash (buf c' j) = b_hash (buf c j)" for j using assms by (simp_all add: same_names_def)
  have r: "buf_hash c' = buf_hash c" "disk c' = disk c" "nr_buf2 c' = nr_buf2 c" "buf2 c' = buf2 c" "buf2_idx c' = buf2_idx c"
    using assms by (simp_all add: same_names_def)
  show n: "named c' = named c" "cached c' = cached c" by (simp_all add: named_def cached_def b fun_eq_iff)
  show "view c' = view c" by (simp add: view_def n b r fun_eq_iff split: option.split)
  show "coh c' = coh c" "hash_inv c' X = hash_inv c X" "uniq c' = uniq c" "usable c' = usable c"
    by (simp_all add: coh_def hash_inv_def uniq_def usable_def n b r fun_eq_iff)
  show "c2_inv c' X = c2_inv c X" using find2_cong [OF r(4,5,3)] by (simp add: c2_inv_def n b r)
qed

lemma relink_inv:
  assumes "cache_inv c" "same_names c c'" "lru_inv c' {}" "\<And>j. j \<in> free_set c' \<Longrightarrow> j \<in> free_set c \<or> coh c j"
  shows "cache_inv c'"
  using assms by (auto simp: cache_inv_def cache_core_def same_names_simps [OF assms(2)])

lemma take_inv:
  assumes inv: "cache_inv c" and i: "i < NR_BUFS" and c': "c' = upd_buf i (b_count_update (\<lambda>n. n + 1)) (if b_count (buf c i) = 0 then rm_lru i c else c)"
  shows "cache_inv c'" "same_names c c'" "\<And>j. b_count (buf c' j) = b_count (buf c j) + (if j = i then 1 else 0)"
proof -
  show cnt: "b_count (buf c' j) = b_count (buf c j) + (if j = i then 1 else 0)" for j by (simp add: c')
  show sn: "same_names c c'" by (simp add: same_names_def c')
  have li: "lru_inv c {}" using inv by (simp add: cache_inv_def cache_core_def)
  then obtain ys where ys: "lru c ys" "set ys = free_set c" by (auto simp: lru_inv_def)
  have nn: "\<And>j. j < NR_BUFS \<Longrightarrow> 0 \<le> b_count (buf c j)" using li by (simp add: lru_inv_def)
  have fs: "free_set c' = free_set c - {i}" using nn [OF i] by (auto simp: free_set_def cnt)
  have links: "lru c' zs = lru (if b_count (buf c i) = 0 then rm_lru i c else c) zs" for zs
  proof -
    have "nxt c' = nxt (if b_count (buf c i) = 0 then rm_lru i c else c)" "prv c' = prv (if b_count (buf c i) = 0 then rm_lru i c else c)"
      by (auto simp: c' fun_eq_iff)
    then show ?thesis by (simp add: lru_def c')
  qed
  have "lru_inv c' {}"
  proof (cases "b_count (buf c i) = 0")
    case True
    then have "i \<in> set ys" using ys i by (simp add: free_set_def)
    then obtain us vs where sp: "ys = us @ i # vs" by (meson split_list)
    have "distinct ys" using ys(1) chain_distinct by (auto simp: lru_def)
    then have "set (us @ vs) = free_set c'" using ys(2) sp fs by auto
    moreover have "lru c' (us @ vs)" using rm_lru_lru [of c us i vs] ys(1) sp True by (simp add: links)
    moreover have "card ({..< NR_BUFS} - (free_set c - {i})) = Suc (card ({..< NR_BUFS} - free_set c))"
    proof -
      have "{..< NR_BUFS} - (free_set c - {i}) = insert i ({..< NR_BUFS} - free_set c)" using i by auto
      then show ?thesis using True i by (simp add: free_set_def)
    qed
    moreover have "bufs_in_use c' = bufs_in_use c + 1" by (simp add: c' True)
    ultimately show ?thesis using li nn by (auto simp: lru_inv_def fs cnt)
  next
    case False
    then have "free_set c' = free_set c" using fs by (auto simp: free_set_def)
    moreover have "lru c' ys" "bufs_in_use c' = bufs_in_use c" using ys(1) False by (simp_all add: links) (simp add: c')
    ultimately show ?thesis using ys nn li by (auto simp: lru_inv_def cnt)
  qed
  then show "cache_inv c'" by (rule relink_inv [OF inv sn]) (simp add: fs)
qed

lemma take_got:
  assumes inv: "cache_inv c" and n: "named c dev block i" "dev \<noteq> NO_DEV"
    and c': "c' = upd_buf i (b_count_update (\<lambda>n. n + 1)) (if b_count (buf c i) = 0 then rm_lru i c else c)"
  shows "got c dev block mode i c'"
proof -
  have i: "i < NR_BUFS" "b_dev (buf c i) = dev" "b_blocknr (buf c i) = block" using n by (simp_all add: named_def)
  note t = take_inv [OF inv i(1) c']
  have u: "uniq c" using inv by (simp add: cache_inv_def cache_core_def)
  have b: "b_data (buf c' j) = b_data (buf c j)" "b_dev (buf c' j) = b_dev (buf c j)" "b_blocknr (buf c' j) = b_blocknr (buf c j)" "nr_buf2 c' = nr_buf2 c" for j
    using t(2) by (simp_all add: same_names_def)
  have "b_count (buf c i) = 0 \<Longrightarrow> coh c i" using inv i(1) by (auto simp: cache_inv_def cache_core_def free_set_def)
  then show ?thesis unfolding got_def using t(1,3) i b view_named [OF u n(2,1)] by (cases "b_count (buf c i) = 0") (simp_all add: same_names_simps [OF t(2)])
qed

text \<open>The branches of \<^verbatim>\<open>get_block\<close>.\<close>

lemma search_found:
  assumes "cache_inv c" "dev \<noteq> NO_DEV"
  shows "search_hash c (buf_hash c (hash_of block)) dev block = Some (Ret (cached c dev block))"
proof -
  have "hash_inv c {}" and u: "uniq c" using assms(1) by (simp_all add: cache_inv_def cache_core_def)
  then obtain xs where xs: "chain (hsh c) (buf_hash c (hash_of block)) xs" "set xs = {i. i < NR_BUFS \<and> hash_of (b_blocknr (buf c i)) = hash_of block}"
    by (metis (no_types, lifting) hash_invE hash_of_less empty_iff Collect_cong)
  let ?r = "List.find (\<lambda>i. b_blocknr (buf c i) = block \<and> b_dev (buf c i) = dev) xs"
  have "?r = cached c dev block"
  proof (cases ?r)
    case None
    then have "\<not> named c dev block i" for i using xs(2) by (auto simp: find_None_iff named_def)
    then show ?thesis using None cached_None by metis
  next
    case (Some i)
    then have "named c dev block i" using find_SomeD [OF Some] xs(2) by (auto simp: named_def)
    then have "cached c dev block = Some i" by (rule cached_Some [OF u assms(2), THEN iffD2])
    then show ?thesis using Some by simp
  qed
  then show ?thesis using search_hash_chain [OF xs(1)] by simp
qed

lemma got_same:
  assumes "got c1 dev block mode i c'" "same_bufs c c1" "disk c1 = disk c" "nr_buf2 c1 = nr_buf2 c" "\<And>j. b_dirt (buf c1 j) = b_dirt (buf c j)"
  shows "got c dev block mode i c'"
proof -
  have "coh c1 = coh c" using assms by (simp add: same_bufs_def coh_def fun_eq_iff)
  then show ?thesis using assms view_same [OF assms(2,3)] by (simp add: got_def usable_def same_bufs_def)
qed

lemma evict_block_got:
  assumes io: "sound io" and inv: "cache_inv c" and us: "dev \<noteq> NO_DEV \<Longrightarrow> usable c dev" and new: "dev \<noteq> NO_DEV \<Longrightarrow> \<forall>j. \<not> named c dev block j"
  shows "if free_set c = {} then evict_block io dev block mode c = Some (Panic ''all buffers in use'')
    else \<exists>i c'. evict_block io dev block mode c = Some (Ret (i, c')) \<and> got c dev block mode i c'"
proof -
  obtain ys where ys: "lru c ys" "set ys = free_set c" using inv by (auto simp: cache_inv_def cache_core_def lru_inv_def)
  show ?thesis
  proof (cases "front c")
    case None
    then have "ys = []" using ys by (simp add: lru_def chain_NilI)
    then show ?thesis using ys None by (auto simp: evict_block_def)
  next
    case (Some i)
    then have ne: "free_set c \<noteq> {}" using ys by (cases ys) (auto simp: lru_def)
    obtain c2 where c2: "unhash i (rm_lru i c) = Some (Ret c2)" "cache_core c2 {i}" "c2_inv c2 {}" "same_bufs c c2"
      "disk c2 = disk c" "nr_buf2 c2 = nr_buf2 c" "\<And>j. b_dirt (buf c2 j) = b_dirt (buf c j)" by (rule unlink_front [OF inv Some]) blast
    have "got c2 dev block mode i (fill_block io dev block mode i c2)"
      by (rule fill_block_got [OF io c2(2,3)]) (use us new c2(6) same_bufs_simps [OF c2(4)] in \<open>auto simp: usable_def\<close>)
    then have "got c dev block mode i (fill_block io dev block mode i c2)" using c2(4-7) by (rule got_same)
    then show ?thesis using ne c2(1) Some by (auto simp: evict_block_def)
  qed
qed

lemma get_block_cases:
  assumes io: "sound io" and inv: "cache_inv c" and us: "dev \<noteq> NO_DEV \<Longrightarrow> usable c dev"
  shows "if free_set c = {} \<and> (dev = NO_DEV \<or> cached c dev block = None) then get_block io dev block mode c = Some (Panic ''all buffers in use'')
    else \<exists>i c'. get_block io dev block mode c = Some (Ret (i, c')) \<and> got c dev block mode i c'"
proof (cases "dev \<noteq> NO_DEV \<and> cached c dev block \<noteq> None")
  case True
  then obtain i where i: "cached c dev block = Some i" "dev \<noteq> NO_DEV" by blast
  have "uniq c" using inv by (simp add: cache_inv_def cache_core_def)
  then have n: "named c dev block i" using i by (simp add: cached_Some)
  show ?thesis using take_got [OF inv n i(2) refl, of mode] i search_found [OF inv i(2)] by (simp add: get_block_def)
next
  case False
  have "get_block io dev block mode c = evict_block io dev block mode c"
    using False search_found [OF inv] by (cases "dev = NO_DEV") (simp_all add: get_block_def)
  moreover have "dev \<noteq> NO_DEV \<Longrightarrow> \<forall>j. \<not> named c dev block j" using False cached_None by blast
  ultimately show ?thesis using evict_block_got [OF io inv us, of block mode] False by auto
qed

section \<open>Releasing and changing a block\<close>

text \<open>The release proper, before the block may be written.\<close>

definition release :: "nat \<Rightarrow> int \<Rightarrow> cache \<Rightarrow> cache" where
  "release i block_type c =
     (let c1 = upd_buf i (b_count_update (\<lambda>n. n - 1)) c
      in if b_count (buf c1 i) \<noteq> 0 then c1
         else let c2 = c1\<lparr>bufs_in_use := bufs_in_use c1 - 1\<rparr>
              in if block_type AND ONE_SHOT \<noteq> 0 then lru_front i c2 else lru_rear i c2)"

lemma put_block_release:
  "put_block io (Some i) block_type c =
     (let c3 = release i block_type c
      in if b_count (buf c i) = 1 \<and> block_type AND WRITE_IMMED \<noteq> 0 \<and> b_dirt (buf c3 i) \<and> b_dev (buf c3 i) \<noteq> NO_DEV
         then rw_block io i False c3 else c3)"
  by (auto simp: put_block_def release_def Let_def)

lemma release_inv:
  assumes inv: "cache_inv c" and i: "i < NR_BUFS" "0 < b_count (buf c i)" "b_count (buf c i) = 1 \<Longrightarrow> coh c i" and c': "c' = release i block_type c"
  shows "cache_inv c'" "same_names c c'" "\<And>j. b_count (buf c' j) = b_count (buf c j) - (if j = i then 1 else 0)"
proof -
  show cnt: "b_count (buf c' j) = b_count (buf c j) - (if j = i then 1 else 0)" for j by (simp add: c' release_def Let_def)
  show sn: "same_names c c'" by (simp add: same_names_def c' release_def Let_def)
  have li: "lru_inv c {}" using inv by (simp add: cache_inv_def cache_core_def)
  then obtain ys where ys: "lru c ys" "set ys = free_set c" by (auto simp: lru_inv_def)
  have nn: "0 \<le> b_count (buf c' j)" if "j < NR_BUFS" for j using li i that by (auto simp: lru_inv_def cnt)
  have "lru_inv c' {} \<and> (\<forall>j \<in> free_set c'. j \<in> free_set c \<or> coh c j)"
  proof (cases "b_count (buf c i) = 1")
    case True
    define c2 where "c2 = (upd_buf i (b_count_update (\<lambda>n. n - 1)) c)\<lparr>bufs_in_use := bufs_in_use c - 1\<rparr>"
    have fs: "free_set c' = insert i (free_set c)" using True i(1) by (auto simp: free_set_def cnt)
    have ni: "i \<notin> free_set c" using i by (simp add: free_set_def)
    have "nxt c2 = nxt c" "prv c2 = prv c" by (auto simp: c2_def)
    then have "lru c2 ys" using ys(1) by (simp add: lru_def c2_def)
    moreover have "c' = (if block_type AND ONE_SHOT \<noteq> 0 then lru_front i c2 else lru_rear i c2)"
      using True by (simp add: c' release_def c2_def Let_def)
    moreover have "i \<notin> set ys" using ni ys by simp
    ultimately have "lru c' (i # ys) \<or> lru c' (ys @ [i])" using lru_front_lru [of c2 ys i] lru_rear_lru [of c2 ys i] by (simp split: if_splits)
    moreover have "set (i # ys) = free_set c'" "set (ys @ [i]) = free_set c'" using ys(2) fs by simp_all
    ultimately have "\<exists>zs. lru c' zs \<and> set zs = free_set c'" by blast
    moreover have "bufs_in_use c' = bufs_in_use c - 1" using True by (simp add: c' release_def Let_def)
    moreover have "card ({..< NR_BUFS} - free_set c) = Suc (card ({..< NR_BUFS} - free_set c'))"
    proof -
      have "{..< NR_BUFS} - free_set c = insert i ({..< NR_BUFS} - free_set c')" using i(1) ni fs by auto
      moreover have "i \<notin> {..< NR_BUFS} - free_set c'" by (simp add: fs)
      ultimately show ?thesis by (metis card_insert_disjoint finite_Diff finite_lessThan)
    qed
    ultimately have "lru_inv c' {}" using li nn by (simp add: lru_inv_def)
    moreover have "\<forall>j \<in> free_set c'. j \<in> free_set c \<or> coh c j" using i(3) True by (simp add: fs)
    ultimately show ?thesis ..
  next
    case False
    then have fs: "free_set c' = free_set c" using i by (auto simp: free_set_def cnt)
    have "c' = upd_buf i (b_count_update (\<lambda>n. n - 1)) c" using False by (simp add: c' release_def)
    then have "nxt c' = nxt c" "prv c' = prv c" "front c' = front c" "rear c' = rear c" "bufs_in_use c' = bufs_in_use c" by auto
    then have "lru_inv c' {}" using li nn fs by (simp add: lru_inv_def lru_def)
    then show ?thesis using fs by simp
  qed
  then show "cache_inv c'" by (intro relink_inv [OF inv sn]) auto
qed

lemma write_back_inv:
  assumes io: "sound io" and inv: "cache_inv c" and i: "i < NR_BUFS" "b_dev (buf c i) \<noteq> NO_DEV" and c': "c' = rw_block io i False c"
  shows "cache_inv c'" "same_bufs c c'" "nr_buf2 c' = nr_buf2 c" "\<And>d b. d \<noteq> NO_DEV \<Longrightarrow> view c' d b = view c d b"
    "\<And>j. j < NR_BUFS \<Longrightarrow> coh c j \<Longrightarrow> coh c' j"
proof -
  let ?d = "b_dev (buf c i)" and ?b = "b_blocknr (buf c i)"
  have e: "c' = (upd_buf i (b_dirt_update (\<lambda>_. False)) c)\<lparr>io_nr := io_nr c + 1, disk := (disk c)(?d := (disk c ?d)(?b := b_data (buf c i)))\<rparr>"
    using io i(2) by (simp add: c' rw_block_def dev_write_def sound_def upd_buf_def Let_def)
  have b: "b_data (buf c' j) = b_data (buf c j)" "b_dev (buf c' j) = b_dev (buf c j)" "b_blocknr (buf c' j) = b_blocknr (buf c j)"
    "b_count (buf c' j) = b_count (buf c j)" "b_next (buf c' j) = b_next (buf c j)" "b_prev (buf c' j) = b_prev (buf c j)"
    "b_hash (buf c' j) = b_hash (buf c j)" "j \<noteq> i \<Longrightarrow> b_dirt (buf c' j) = b_dirt (buf c j)" for j by (simp_all add: e)
  have r: "front c' = front c" "rear c' = rear c" "bufs_in_use c' = bufs_in_use c" "buf_hash c' = buf_hash c" "buf2 c' = buf2 c"
    "nr_buf2 c' = nr_buf2 c" "buf2_idx c' = buf2_idx c" by (simp_all add: e)
  have u: "uniq c" using inv by (simp add: cache_inv_def cache_core_def)
  have ni: "named c ?d ?b i" using i(1) by (simp add: named_def)
  show sb: "same_bufs c c'" by (simp add: same_bufs_def b)
  show "nr_buf2 c' = nr_buf2 c" by (rule r(6))
  have "disk c' = (disk c)(?d := (disk c ?d)(?b := b_data (buf c i)))" by (simp add: e)
  then have dk: "disk c' d b = disk c d b" if "\<not> named c d b i" for d b using that i(1) by (auto simp: named_def)
  show coh: "coh c' j" if "j < NR_BUFS" "coh c j" for j
  proof (cases "j = i")
    case True
    then show ?thesis by (simp add: coh_def e)
  next
    case False
    have "\<not> named c (b_dev (buf c j)) (b_blocknr (buf c j)) i" if "b_dev (buf c j) \<noteq> NO_DEV"
    proof
      assume "named c (b_dev (buf c j)) (b_blocknr (buf c j)) i"
      moreover have "named c (b_dev (buf c j)) (b_blocknr (buf c j)) j" using \<open>j < NR_BUFS\<close> by (simp add: named_def)
      ultimately have "i = j" using u that unfolding uniq_def by blast
      then show False using False by simp
    qed
    then show ?thesis using that(2) dk b False by (auto simp: coh_def)
  qed
  have "lru_inv c' {}" "hash_inv c' {}" "uniq c'"
    using inv by (simp_all add: cache_inv_def cache_core_def lru_inv_def lru_def hash_inv_def same_bufs_simps [OF sb] b r)
  moreover have "coh c' j" if "j \<in> free_set c" for j using that inv coh by (auto simp: free_set_def cache_inv_def cache_core_def)
  ultimately have core: "cache_core c' {}" by (simp add: cache_core_def same_bufs_simps [OF sb])
  have "c2_inv c' {}"
  proof -
    have "disk c' DEV_RAM k = disk c DEV_RAM k" if "nr_buf2 c \<noteq> 0" for k
      by (rule dk) (use inv that i in \<open>auto simp: cache_inv_def c2_inv_def named_def\<close>)
    then show ?thesis using inv dk find2_cong [of c' c] by (simp add: cache_inv_def c2_inv_def same_bufs_simps [OF sb] b r)
  qed
  then show "cache_inv c'" using core by (simp add: cache_inv_def)
  show "view c' d b = view c d b" if "d \<noteq> NO_DEV" for d b
  proof (cases "\<exists>j. named c d b j")
    case True
    then obtain j where "named c d b j" "named c' d b j" using same_bufs_simps(1) [OF sb] by auto
    then show ?thesis using view_named [OF _ that] u same_bufs_simps(3) [OF sb] b by simp
  next
    case False
    then show ?thesis using view_uncached [of c d b] view_uncached [of c' d b] same_bufs_simps(1) [OF sb] dk by simp
  qed
qed

lemma put_block_inv:
  assumes io: "sound io" and inv: "cache_inv c" and i: "i < NR_BUFS" "0 < b_count (buf c i)" "b_count (buf c i) = 1 \<Longrightarrow> coh c i"
    and c': "c' = put_block io (Some i) block_type c"
  shows "cache_inv c'" "nr_buf2 c' = nr_buf2 c" "\<And>d b. d \<noteq> NO_DEV \<Longrightarrow> view c' d b = view c d b"
    "\<And>j. b_count (buf c' j) = b_count (buf c j) - (if j = i then 1 else 0)"
    "\<And>j. b_dev (buf c' j) = b_dev (buf c j) \<and> b_blocknr (buf c' j) = b_blocknr (buf c j) \<and> b_data (buf c' j) = b_data (buf c j)"
    "\<And>j. j < NR_BUFS \<Longrightarrow> coh c j \<Longrightarrow> coh c' j"
proof -
  define c3 where "c3 = release i block_type c"
  note rl = release_inv [OF inv i c3_def]
  have b: "b_data (buf c3 j) = b_data (buf c j)" "b_dev (buf c3 j) = b_dev (buf c j)" "b_blocknr (buf c3 j) = b_blocknr (buf c j)" "nr_buf2 c3 = nr_buf2 c" for j
    using rl(2) by (simp_all add: same_names_def)
  note v = same_names_simps [OF rl(2)]
  have "c' = c3 \<or> c' = rw_block io i False c3 \<and> b_dev (buf c3 i) \<noteq> NO_DEV" unfolding c' put_block_release c3_def [symmetric] by (auto simp: Let_def)
  then have "cache_inv c' \<and> nr_buf2 c' = nr_buf2 c \<and> same_bufs c3 c' \<and> (\<forall>d b. d \<noteq> NO_DEV \<longrightarrow> view c' d b = view c d b) \<and> (\<forall>j < NR_BUFS. coh c j \<longrightarrow> coh c' j)"
  proof (elim disjE conjE)
    assume "c' = c3"
    then show ?thesis using rl(1) v b by (simp add: same_bufs_def)
  next
    assume "c' = rw_block io i False c3" "b_dev (buf c3 i) \<noteq> NO_DEV"
    from write_back_inv [OF io rl(1) i(1) this(2,1)] show ?thesis by (simp add: v b)
  qed
  then show "cache_inv c'" "nr_buf2 c' = nr_buf2 c" "\<And>d b. d \<noteq> NO_DEV \<Longrightarrow> view c' d b = view c d b" "\<And>j. j < NR_BUFS \<Longrightarrow> coh c j \<Longrightarrow> coh c' j"
    "\<And>j. b_count (buf c' j) = b_count (buf c j) - (if j = i then 1 else 0)"
    "\<And>j. b_dev (buf c' j) = b_dev (buf c j) \<and> b_blocknr (buf c' j) = b_blocknr (buf c j) \<and> b_data (buf c' j) = b_data (buf c j)"
    using rl(3) b by (auto simp: same_bufs_def)
qed

text \<open>A caller changes the data of a buffer it holds and marks it dirty.\<close>

definition set_block :: "nat \<Rightarrow> data \<Rightarrow> cache \<Rightarrow> cache" where
  "set_block i v c = upd_buf i (\<lambda>x. x\<lparr>b_data := v, b_dirt := True\<rparr>) c"

lemma set_block_inv:
  assumes inv: "cache_inv c" and i: "i < NR_BUFS" "0 < b_count (buf c i)" "usable c (b_dev (buf c i))" and c': "c' = set_block i v c"
  shows "cache_inv c'" "nr_buf2 c' = nr_buf2 c" "\<And>j. b_count (buf c' j) = b_count (buf c j)" "\<And>d b j. named c' d b j = named c d b j"
    "\<And>d b. d \<noteq> NO_DEV \<Longrightarrow> view c' d b = (if named c d b i then v else view c d b)" "\<And>j. j \<noteq> i \<Longrightarrow> buf c' j = buf c j" "\<And>j. coh c j \<Longrightarrow> coh c' j"
proof -
  have b: "b_dev (buf c' j) = b_dev (buf c j)" "b_blocknr (buf c' j) = b_blocknr (buf c j)"
    "b_count (buf c' j) = b_count (buf c j)" "b_next (buf c' j) = b_next (buf c j)" "b_prev (buf c' j) = b_prev (buf c j)"
    "b_hash (buf c' j) = b_hash (buf c j)" "j \<noteq> i \<Longrightarrow> buf c' j = buf c j" for j by (simp_all add: c' set_block_def)
  have r: "front c' = front c" "rear c' = rear c" "bufs_in_use c' = bufs_in_use c" "buf_hash c' = buf_hash c" "buf2 c' = buf2 c"
    "nr_buf2 c' = nr_buf2 c" "buf2_idx c' = buf2_idx c" "disk c' = disk c" by (simp_all add: c' set_block_def)
  have u: "uniq c" using inv by (simp add: cache_inv_def cache_core_def)
  have nm: "named c' = named c" "free_set c' = free_set c" by (simp_all add: named_def free_set_def b fun_eq_iff)
  show "nr_buf2 c' = nr_buf2 c" "\<And>j. b_count (buf c' j) = b_count (buf c j)" "\<And>d b j. named c' d b j = named c d b j" "\<And>j. j \<noteq> i \<Longrightarrow> buf c' j = buf c j"
    using b r nm by simp_all
  show coh: "coh c' j" if "coh c j" for j
    by (cases "j = i") (use that in \<open>simp_all add: coh_def b r\<close>, simp add: c' set_block_def)
  have "cache_core c' {}" using inv coh by (auto simp: cache_inv_def cache_core_def lru_inv_def lru_def hash_inv_def uniq_def nm b r)
  moreover have "c2_inv c' {}" using inv find2_cong [OF r(5,7,6)] by (simp add: cache_inv_def c2_inv_def nm b r)
  ultimately show "cache_inv c'" by (simp add: cache_inv_def)
  have u': "uniq c'" using u by (simp add: uniq_def nm)
  show "view c' d b = (if named c d b i then v else view c d b)" if "d \<noteq> NO_DEV" for d b
  proof (cases "\<exists>j. named c d b j")
    case True
    then obtain j where j: "named c d b j" by blast
    then have "view c' d b = b_data (buf c' j)" "view c d b = b_data (buf c j)" using view_named [OF u' that] view_named [OF u that] nm by simp_all
    moreover have "named c d b i \<longleftrightarrow> j = i" using u j that unfolding uniq_def by blast
    ultimately show ?thesis using b(7) by (auto simp: c' set_block_def)
  next
    case False
    then show ?thesis using view_uncached [of c d b] view_uncached [of c' d b] nm r by simp
  qed
qed

section \<open>Emptying the cache\<close>

lemma invalidate2_sel:
  fixes c :: cache
  assumes "c' = invalidate2 dev c"
  shows "buf c' = buf c" "buf_hash c' = buf_hash c" "front c' = front c" "rear c' = rear c" "bufs_in_use c' = bufs_in_use c" "disk c' = disk c"
    "nr_buf2 c' = nr_buf2 c" "buf2_idx c' = buf2_idx c" "b2_blocknr (buf2 c' k) = b2_blocknr (buf2 c k)"
    "b2_dev (buf2 c' k) = (if k < nr_buf2 c \<and> b2_dev (buf2 c k) = dev then NO_DEV else b2_dev (buf2 c k))"
proof -
  define f where "f = (\<lambda>b (c :: cache). if b2_dev (buf2 c b) = dev
    then upd_buf2 (hash2 (b2_blocknr (buf2 c b))) (b2_count_update (\<lambda>n. n - 1)) (upd_buf2 b (b2_dev_update (\<lambda>_. NO_DEV)) c) else c)"
  have one: "buf (f b c) = buf c \<and> buf_hash (f b c) = buf_hash c \<and> front (f b c) = front c \<and> rear (f b c) = rear c \<and> bufs_in_use (f b c) = bufs_in_use c \<and>
      disk (f b c) = disk c \<and> nr_buf2 (f b c) = nr_buf2 c \<and> buf2_idx (f b c) = buf2_idx c \<and> b2_blocknr (buf2 (f b c) k) = b2_blocknr (buf2 c k) \<and>
      b2_dev (buf2 (f b c) k) = (if k = b \<and> b2_dev (buf2 c k) = dev then NO_DEV else b2_dev (buf2 c k))" for b c k
    by (auto simp: f_def upd_buf2_def)
  have all: "buf (fold f bs c) = buf c \<and> buf_hash (fold f bs c) = buf_hash c \<and> front (fold f bs c) = front c \<and> rear (fold f bs c) = rear c \<and>
      bufs_in_use (fold f bs c) = bufs_in_use c \<and> disk (fold f bs c) = disk c \<and> nr_buf2 (fold f bs c) = nr_buf2 c \<and> buf2_idx (fold f bs c) = buf2_idx c \<and>
      b2_blocknr (buf2 (fold f bs c) k) = b2_blocknr (buf2 c k) \<and>
      b2_dev (buf2 (fold f bs c) k) = (if k \<in> set bs \<and> b2_dev (buf2 c k) = dev then NO_DEV else b2_dev (buf2 c k))" for bs c k
    by (induction bs arbitrary: c) (auto simp: one)
  have e: "c' = fold f [0 ..< nr_buf2 c] c" unfolding assms invalidate2_def f_def ..
  show "buf c' = buf c" "buf_hash c' = buf_hash c" "front c' = front c" "rear c' = rear c" "bufs_in_use c' = bufs_in_use c" "disk c' = disk c"
    "nr_buf2 c' = nr_buf2 c" "buf2_idx c' = buf2_idx c" "b2_blocknr (buf2 c' k) = b2_blocknr (buf2 c k)"
    "b2_dev (buf2 c' k) = (if k < nr_buf2 c \<and> b2_dev (buf2 c k) = dev then NO_DEV else b2_dev (buf2 c k))"
    unfolding e using all by simp_all
qed

text \<open>
  \<^verbatim>\<open>invalidate\<close> forgets a device: afterwards its blocks are what is on the disk, and no other
  device notices.
\<close>

lemma invalidate_inv:
  assumes inv: "cache_inv c" and d: "dev \<noteq> NO_DEV" and c': "c' = invalidate dev c"
  shows "cache_inv c'" "nr_buf2 c' = nr_buf2 c" "\<And>d b. d \<noteq> NO_DEV \<Longrightarrow> view c' d b = (if d = dev then disk c d b else view c d b)" "disk c' = disk c"
    "\<And>j. b_count (buf c' j) = b_count (buf c j)" "\<And>j. coh c j \<Longrightarrow> coh c' j"
proof -
  define c1 where "c1 = c\<lparr>buf := (\<lambda>i. if i < NR_BUFS \<and> b_dev (buf c i) = dev then (buf c i)\<lparr>b_dev := NO_DEV\<rparr> else buf c i)\<rparr>"
  have e: "c' = invalidate2 dev c1" by (simp add: c' invalidate_def c1_def)
  note s = invalidate2_sel [OF e]
  have b: "b_data (buf c' j) = b_data (buf c j)" "b_blocknr (buf c' j) = b_blocknr (buf c j)" "b_dirt (buf c' j) = b_dirt (buf c j)"
    "b_count (buf c' j) = b_count (buf c j)" "b_next (buf c' j) = b_next (buf c j)" "b_prev (buf c' j) = b_prev (buf c j)"
    "b_hash (buf c' j) = b_hash (buf c j)" "b_dev (buf c' j) = (if j < NR_BUFS \<and> b_dev (buf c j) = dev then NO_DEV else b_dev (buf c j))" for j
    unfolding s(1) by (simp_all add: c1_def)
  have r: "front c' = front c" "rear c' = rear c" "bufs_in_use c' = bufs_in_use c" "buf_hash c' = buf_hash c" "nr_buf2 c' = nr_buf2 c"
    "buf2_idx c' = buf2_idx c" unfolding s by (simp_all add: c1_def)
  show "nr_buf2 c' = nr_buf2 c" and dk: "disk c' = disk c" and "\<And>j. b_count (buf c' j) = b_count (buf c j)" unfolding s by (simp_all add: c1_def)
  have u: "uniq c" using inv by (simp add: cache_inv_def cache_core_def)
  have nm: "named c' d' b' j = (d' \<noteq> dev \<and> named c d' b' j)" if "d' \<noteq> NO_DEV" for d' b' j using that d by (auto simp: named_def b)
  have fs: "free_set c' = free_set c" by (simp add: free_set_def b)
  show coh: "\<And>j. coh c j \<Longrightarrow> coh c' j" by (auto simp: coh_def b dk)
  have "lru_inv c' {}" "hash_inv c' {}" using inv by (simp_all add: cache_inv_def cache_core_def lru_inv_def lru_def hash_inv_def b r fs)
  moreover have u': "uniq c'" using u nm unfolding uniq_def by blast
  ultimately have "cache_core c' {}" using inv coh by (simp add: cache_core_def fs cache_inv_def)
  moreover have "c2_inv c' {}" unfolding c2_inv_def
  proof (intro impI conjI allI)
    assume "nr_buf2 c' \<noteq> 0"
    then have nz: "nr_buf2 c \<noteq> 0" by (simp add: r)
    have old: "buf2_idx c < nr_buf2 c" "\<And>j. j < NR_BUFS \<Longrightarrow> b_dev (buf c j) \<noteq> DEV_RAM" "\<And>k. k < nr_buf2 c \<Longrightarrow> b2_dev (buf2 c k) \<noteq> DEV_RAM"
      "\<And>d b k. d \<noteq> NO_DEV \<Longrightarrow> \<forall>j. \<not> named c d b j \<Longrightarrow> find2 d b c = Some k \<Longrightarrow> disk c DEV_RAM k = disk c d b"
      using inv nz by (auto simp: cache_inv_def c2_inv_def)
    have b2: "b2_blocknr (buf2 c' k) = b2_blocknr (buf2 c k)" "b2_dev (buf2 c' k) = (if k < nr_buf2 c \<and> b2_dev (buf2 c k) = dev then NO_DEV else b2_dev (buf2 c k))" for k
      unfolding s by (simp_all add: c1_def)
    show "buf2_idx c' < nr_buf2 c'" using old(1) by (simp add: r)
    show "b_dev (buf c' j) \<noteq> DEV_RAM" if "j < NR_BUFS" for j using old(2) [OF that] by (simp add: b NO_DEV_def DEV_RAM_def)
    show "b2_dev (buf2 c' k) \<noteq> DEV_RAM" if "k < nr_buf2 c'" for k using old(3) that by (simp add: b2 r NO_DEV_def DEV_RAM_def)
    fix d' b' k assume h: "d' \<noteq> NO_DEV" "\<forall>j. j \<notin> {} \<longrightarrow> \<not> named c' d' b' j" "find2 d' b' c' = Some k"
    have os: "set (order2 (buf2_idx c) (nr_buf2 c)) \<subseteq> {..< nr_buf2 c}" using old(1) by (auto simp: order2_def)
    have "find2 d' b' c' = List.find (\<lambda>k. b2_blocknr (buf2 c k) = b' \<and> d' \<noteq> dev \<and> b2_dev (buf2 c k) = d') (order2 (buf2_idx c) (nr_buf2 c))"
      unfolding find2_def r by (rule find_cong_on) (use os h(1) in \<open>auto simp: b2\<close>)
    then have fd: "List.find (\<lambda>k. b2_blocknr (buf2 c k) = b' \<and> d' \<noteq> dev \<and> b2_dev (buf2 c k) = d') (order2 (buf2_idx c) (nr_buf2 c)) = Some k"
      using h(3) by simp
    have ne: "d' \<noteq> dev" using find_SomeD [OF fd] by simp
    then have "find2 d' b' c = Some k" using fd by (simp add: find2_def)
    then show "disk c' DEV_RAM k = disk c' d' b'" using old(4) [OF h(1)] h(2) nm [OF h(1)] ne by (simp add: dk)
  qed
  ultimately show "cache_inv c'" by (simp add: cache_inv_def)
  show "view c' d' b' = (if d' = dev then disk c d' b' else view c d' b')" if dn: "d' \<noteq> NO_DEV" for d' b'
  proof (cases "\<exists>j. named c' d' b' j")
    case True
    then obtain j where "named c' d' b' j" "named c d' b' j" "d' \<noteq> dev" using nm [OF dn] by blast
    then show ?thesis using view_named [OF u' dn] view_named [OF u dn] b by simp
  next
    case False
    then show ?thesis using view_uncached [of c' d' b'] view_uncached [of c d' b'] nm [OF dn] dk by auto
  qed
qed

section \<open>Start-up\<close>

text \<open>The cache before \<^verbatim>\<open>main\<close>, with all variables zero, and devices that hold \<open>D\<close>.\<close>

definition bss :: "(int \<Rightarrow> nat \<Rightarrow> data) \<Rightarrow> cache" where
  "bss D = \<lparr>buf = (\<lambda>_. \<lparr>b_data = (\<lambda>_. 0), b_next = None, b_prev = None, b_hash = None, b_blocknr = 0, b_dev = 0, b_dirt = False, b_count = 0\<rparr>),
     buf_hash = (\<lambda>_. None), front = None, rear = None, bufs_in_use = 0,
     buf2 = (\<lambda>_. \<lparr>b2_blocknr = 0, b2_dev = 0, b2_count = 0\<rparr>), nr_buf2 = 0, buf2_idx = 0, disk = D, io_nr = 0, rdwt_err = 0\<rparr>"

definition start :: "nat \<Rightarrow> (int \<Rightarrow> nat \<Rightarrow> data) \<Rightarrow> cache" where
  "start n D = init_cache2 n (buf_pool (bss D))"

lemma upt_chain:
  "m \<le> n \<Longrightarrow> (\<And>i. i < n \<Longrightarrow> nx i = (if i = n - 1 then None else Some (i + 1))) \<Longrightarrow> chain nx (if m = n then None else Some m) [m ..< n]"
proof (induction "n - m" arbitrary: m)
  case (Suc k)
  then have "[m ..< n] = m # [m + 1 ..< n]" by (simp add: upt_conv_Cons)
  moreover have "chain nx (if m + 1 = n then None else Some (m + 1)) [m + 1 ..< n]" using Suc by (intro Suc(1)) auto
  ultimately show ?case using Suc by (auto split: if_splits)
qed simp

lemma rev_upt_chain:
  "(\<And>i. i < n \<Longrightarrow> pv i = (if i = 0 then None else Some (i - 1))) \<Longrightarrow> chain pv (if n = 0 then None else Some (n - 1)) (rev [0 ..< n])"
  by (induction n) auto

lemma start_inv: "cache_inv (start n D)" "\<And>d b. d \<noteq> NO_DEV \<Longrightarrow> view (start n D) d b = D d b" "\<And>i. b_count (buf (start n D) i) = 0"
  "\<And>i. coh (start n D) i"
proof -
  let ?c = "start n D"
  have N: "NR_BUFS \<noteq> 0" "NR_BUF_HASH \<noteq> 0" by (simp_all add: NR_BUFS_def NR_BUF_HASH_def)
  have b: "b_dev (buf ?c i) = NO_DEV" "b_count (buf ?c i) = 0" "b_blocknr (buf ?c i) = 0" "b2_dev (buf2 ?c k) = NO_DEV" "buf2_idx ?c = 0" "disk ?c = D"
    "i < NR_BUFS \<Longrightarrow> b_next (buf ?c i) = (if i = NR_BUFS - 1 then None else Some (i + 1))" "i < NR_BUFS \<Longrightarrow> b_hash (buf ?c i) = (if i = NR_BUFS - 1 then None else Some (i + 1))"
    "i < NR_BUFS \<Longrightarrow> b_prev (buf ?c i) = (if i = 0 then None else Some (i - 1))" "front ?c = Some 0" "rear ?c = Some (NR_BUFS - 1)" "bufs_in_use ?c = 0"
    "buf_hash ?c h = (if h = 0 then Some 0 else None)" for i k h
    by (simp_all add: start_def init_cache2_def buf_pool_def bss_def NO_DEV_def NO_BLOCK_def)
  show cnt: "\<And>i. b_count (buf ?c i) = 0" and coh: "\<And>i. coh ?c i" by (simp_all add: b coh_def)
  have nm: "\<not> named ?c d b' i" if "d \<noteq> NO_DEV" for d b' i using that by (simp add: named_def b)
  then show "\<And>d b. d \<noteq> NO_DEV \<Longrightarrow> view ?c d b = D d b" by (simp add: view_uncached b)
  have fs: "free_set ?c = {..< NR_BUFS}" by (auto simp: free_set_def b)
  have "lru ?c [0 ..< NR_BUFS]" unfolding lru_def b
    using upt_chain [of 0 NR_BUFS "nxt ?c"] rev_upt_chain [of NR_BUFS "prv ?c"] b N by simp
  then have "lru_inv ?c {}" by (auto simp: lru_inv_def fs b intro!: exI [of _ "[0 ..< NR_BUFS]"])
  moreover have "hash_inv ?c {}" unfolding hash_inv_def
  proof (intro allI impI)
    fix h assume "h < NR_BUF_HASH"
    show "\<exists>xs. chain (hsh ?c) (buf_hash ?c h) xs \<and> set xs = {i. i < NR_BUFS \<and> i \<notin> {} \<and> hash_of (b_blocknr (buf ?c i)) = h}"
    proof (cases "h = 0")
      case True
      have "chain (hsh ?c) (buf_hash ?c h) [0 ..< NR_BUFS]" using upt_chain [of 0 NR_BUFS "hsh ?c"] b N True by simp
      then show ?thesis using True by (intro exI [of _ "[0 ..< NR_BUFS]"]) (auto simp: b hash_of_def)
    next
      case False
      then show ?thesis using N by (intro exI [of _ "[]"]) (auto simp: b hash_of_def)
    qed
  qed
  moreover have "uniq ?c" using nm by (auto simp: uniq_def)
  ultimately have "cache_core ?c {}" using coh by (simp add: cache_core_def)
  moreover have "c2_inv ?c {}" unfolding c2_inv_def
  proof (intro impI conjI allI)
    fix d b' k assume "d \<noteq> NO_DEV" "find2 d b' ?c = Some k"
    then show "disk ?c DEV_RAM k = disk ?c d b'" using find_SomeD by (fastforce simp: find2_def b)
  qed (auto simp: b NO_DEV_def DEV_RAM_def)
  ultimately show "cache_inv ?c" by (simp add: cache_inv_def)
qed

section \<open>The contract\<close>

text \<open>
  A block store hands out buffers for blocks: \<open>holds c d b i\<close> says that buffer \<open>i\<close> is in use for
  block \<open>b\<close> of device \<open>d\<close>, \<open>uses c i\<close> how often it has been handed out, \<open>sees c d b\<close> what the
  block contains.
\<close>

locale block_store =
  fixes fetch_buf :: "int \<Rightarrow> nat \<Rightarrow> 'c \<Rightarrow> (nat \<times> 'c) outcome option"
    and fresh_buf :: "int \<Rightarrow> nat \<Rightarrow> data \<Rightarrow> 'c \<Rightarrow> (nat \<times> 'c) outcome option"
    and change :: "nat \<Rightarrow> data \<Rightarrow> 'c \<Rightarrow> 'c"
    and give_back :: "int \<Rightarrow> nat \<Rightarrow> 'c \<Rightarrow> 'c"
    and contents :: "'c \<Rightarrow> nat \<Rightarrow> data"
    and good :: "'c \<Rightarrow> bool"
    and device :: "'c \<Rightarrow> int \<Rightarrow> bool"
    and sees :: "'c \<Rightarrow> int \<Rightarrow> nat \<Rightarrow> data"
    and holds :: "'c \<Rightarrow> int \<Rightarrow> nat \<Rightarrow> nat \<Rightarrow> bool"
    and uses :: "'c \<Rightarrow> nat \<Rightarrow> int"
    and room :: "'c \<Rightarrow> bool"
  assumes fetch_law: "good c \<Longrightarrow> device c d \<Longrightarrow> room c \<Longrightarrow> \<exists>i c'. fetch_buf d b c = Some (Ret (i, c')) \<and> good c' \<and> device c' = device c \<and>
      holds c' d b i \<and> uses c' = (uses c)(i := uses c i + 1) \<and> (\<forall>d b. device c d \<longrightarrow> sees c' d b = sees c d b) \<and>
      (\<forall>d b j. holds c d b j \<longrightarrow> holds c' d b j)"
    and fresh_law: "good c \<Longrightarrow> device c d \<Longrightarrow> room c \<Longrightarrow> \<exists>i c'. fresh_buf d b v c = Some (Ret (i, c')) \<and> good c' \<and> device c' = device c \<and>
      holds c' d b i \<and> uses c' = (uses c)(i := uses c i + 1) \<and>
      (\<forall>d' b'. device c d' \<longrightarrow> sees c' d' b' = (if (d', b') = (d, b) then v else sees c d' b')) \<and> (\<forall>d b j. holds c d b j \<longrightarrow> holds c' d b j)"
    and change_law: "good c \<Longrightarrow> holds c d b i \<Longrightarrow> good (change i v c) \<and> device (change i v c) = device c \<and> uses (change i v c) = uses c \<and>
      (\<forall>d' b'. device c d' \<longrightarrow> sees (change i v c) d' b' = (if (d', b') = (d, b) then v else sees c d' b')) \<and>
      (\<forall>d b j. holds c d b j \<longrightarrow> holds (change i v c) d b j)"
    and give_back_law: "good c \<Longrightarrow> holds c d b i \<Longrightarrow> good (give_back t i c) \<and> device (give_back t i c) = device c \<and>
      uses (give_back t i c) = (uses c)(i := uses c i - 1) \<and> (\<forall>d b. device c d \<longrightarrow> sees (give_back t i c) d b = sees c d b) \<and>
      (\<forall>d b j. holds c d b j \<longrightarrow> j \<noteq> i \<or> uses c i > 1 \<longrightarrow> holds (give_back t i c) d b j)"
    and holds_law: "good c \<Longrightarrow> holds c d b i \<Longrightarrow> device c d \<and> uses c i > 0 \<and> contents c i = sees c d b"
    and room_law: "uses c' = uses c \<Longrightarrow> room c' = room c"
begin

text \<open>Fetching a block, looking at it and giving it back: nobody notices.\<close>

lemma read_transaction:
  assumes c: "good c" "device c d" "room c"
  obtains i c' where "fetch_buf d b c = Some (Ret (i, c'))" "contents c' i = sees c d b" "good (give_back t i c')"
    "device (give_back t i c') = device c" "uses (give_back t i c') = uses c" "\<And>d b. device c d \<Longrightarrow> sees (give_back t i c') d b = sees c d b"
    "\<And>d b j. holds c d b j \<Longrightarrow> holds (give_back t i c') d b j"
proof -
  obtain i c' where f: "fetch_buf d b c = Some (Ret (i, c'))" "good c'" "device c' = device c" "holds c' d b i" "uses c' = (uses c)(i := uses c i + 1)"
    "\<forall>d b. device c d \<longrightarrow> sees c' d b = sees c d b" "\<forall>d b j. holds c d b j \<longrightarrow> holds c' d b j"
    using fetch_law [OF c, of b] by blast
  let ?c = "give_back t i c'"
  have g: "good ?c" "device ?c = device c'" "uses ?c = (uses c')(i := uses c' i - 1)" "\<forall>d b. device c' d \<longrightarrow> sees ?c d b = sees c' d b"
    "\<forall>d b j. holds c' d b j \<longrightarrow> j \<noteq> i \<or> uses c' i > 1 \<longrightarrow> holds ?c d b j" using give_back_law [OF f(2,4), of t] by blast+
  have k: "holds ?c d b j" if "holds c d b j" for d b j
  proof -
    have "j \<noteq> i \<or> uses c' i > 1" using holds_law [OF c(1) that] by (auto simp: f(5))
    then show ?thesis using f(7) that g(5) by blast
  qed
  show thesis
    by (rule that [OF f(1) _ g(1)]) (use holds_law [OF f(2,4)] f(3,6) c(2) g(2,3,4) k in \<open>simp_all add: f(5)\<close>)
qed

text \<open>Changing a block that is held and giving it back changes this block and no other.\<close>

lemma modify_and_release:
  assumes c: "good c" "holds c d b i"
  shows "good (give_back t i (change i v c))" "device (give_back t i (change i v c)) = device c"
    "uses (give_back t i (change i v c)) = (uses c)(i := uses c i - 1)"
    "\<And>d' b'. device c d' \<Longrightarrow> sees (give_back t i (change i v c)) d' b' = (if (d', b') = (d, b) then v else sees c d' b')"
    "\<And>d b j. holds c d b j \<Longrightarrow> j \<noteq> i \<or> uses c i > 1 \<Longrightarrow> holds (give_back t i (change i v c)) d b j"
proof -
  let ?m = "change i v c"
  have m: "good ?m" "device ?m = device c" "uses ?m = uses c" "\<forall>d' b'. device c d' \<longrightarrow> sees ?m d' b' = (if (d', b') = (d, b) then v else sees c d' b')"
    "\<forall>d b j. holds c d b j \<longrightarrow> holds ?m d b j" using change_law [OF c, of v] by blast+
  have h: "holds ?m d b i" using m(5) c(2) by blast
  let ?c = "give_back t i ?m"
  have g: "good ?c" "device ?c = device ?m" "uses ?c = (uses ?m)(i := uses ?m i - 1)" "\<forall>d b. device ?m d \<longrightarrow> sees ?c d b = sees ?m d b"
    "\<forall>d b j. holds ?m d b j \<longrightarrow> j \<noteq> i \<or> uses ?m i > 1 \<longrightarrow> holds ?c d b j" using give_back_law [OF m(1) h, of t] by blast+
  show "good ?c" by (rule g(1))
  show "device ?c = device c" "uses ?c = (uses c)(i := uses c i - 1)" using g(2,3) m(2,3) by simp_all
  show "\<And>d' b'. device c d' \<Longrightarrow> sees ?c d' b' = (if (d', b') = (d, b) then v else sees c d' b')" using g(4) m(2,4) by simp
  show "holds ?c d b j" if "holds c d b j" "j \<noteq> i \<or> uses c i > 1" for d b j
  proof -
    have "holds ?m d b j" using m(5) that(1) by blast
    then show ?thesis using g(5) that(2) m(3) by simp
  qed
qed

lemma write_transaction:
  assumes c: "good c" "device c d" "room c"
  obtains i c' where "fetch_buf d b c = Some (Ret (i, c'))" "contents c' i = sees c d b"
    "\<And>v. good (give_back t i (change i v c')) \<and> device (give_back t i (change i v c')) = device c \<and> uses (give_back t i (change i v c')) = uses c \<and>
       (\<forall>d' b'. device c d' \<longrightarrow> sees (give_back t i (change i v c')) d' b' = (if (d', b') = (d, b) then v else sees c d' b')) \<and>
       (\<forall>d b j. holds c d b j \<longrightarrow> holds (give_back t i (change i v c')) d b j)"
proof -
  obtain i c' where f: "fetch_buf d b c = Some (Ret (i, c'))" "good c'" "device c' = device c" "holds c' d b i" "uses c' = (uses c)(i := uses c i + 1)"
    "\<forall>d b. device c d \<longrightarrow> sees c' d b = sees c d b" "\<forall>d b j. holds c d b j \<longrightarrow> holds c' d b j"
    using fetch_law [OF c, of b] by blast
  have "contents c' i = sees c d b" using holds_law [OF f(2,4)] f(6) c(2) by simp
  moreover have "good (give_back t i (change i v c')) \<and> device (give_back t i (change i v c')) = device c \<and> uses (give_back t i (change i v c')) = uses c \<and>
      (\<forall>d' b'. device c d' \<longrightarrow> sees (give_back t i (change i v c')) d' b' = (if (d', b') = (d, b) then v else sees c d' b')) \<and>
      (\<forall>d b j. holds c d b j \<longrightarrow> holds (give_back t i (change i v c')) d b j)" for v
  proof (intro conjI allI impI)
    note m = modify_and_release [OF f(2,4), where t = t and v = v]
    show "good (give_back t i (change i v c'))" by (rule m(1))
    show "device (give_back t i (change i v c')) = device c" "uses (give_back t i (change i v c')) = uses c" using m(2,3) f(3) by (simp_all add: f(5))
    show "sees (give_back t i (change i v c')) d' b' = (if (d', b') = (d, b) then v else sees c d' b')" if "device c d'" for d' b'
      using m(4) [of d' b'] f(3,6) that by simp
    show "holds (give_back t i (change i v c')) d b j" if "holds c d b j" for d b j
    proof -
      have "j \<noteq> i \<or> uses c' i > 1" using holds_law [OF c(1) that] by (auto simp: f(5))
      then show ?thesis using m(5) f(7) that by blast
    qed
  qed
  ultimately show thesis using that [OF f(1)] by blast
qed

end

definition store_inv :: "cache \<Rightarrow> bool" where
  "store_inv c \<longleftrightarrow> cache_inv c \<and> (\<forall>i < NR_BUFS. coh c i)"

definition in_use :: "cache \<Rightarrow> int \<Rightarrow> nat \<Rightarrow> nat \<Rightarrow> bool" where
  "in_use c d b i \<longleftrightarrow> named c d b i \<and> b_count (buf c i) > 0 \<and> usable c d"

definition has_room :: "cache \<Rightarrow> bool" where
  "has_room c \<longleftrightarrow> free_set c \<noteq> {}"

text \<open>A block that the caller overwrites at once.\<close>

definition new_buf :: "(nat \<Rightarrow> int) \<Rightarrow> int \<Rightarrow> nat \<Rightarrow> data \<Rightarrow> cache \<Rightarrow> (nat \<times> cache) outcome option" where
  "new_buf io d b v c = and_then (get_block io d b NO_READ c) (\<lambda>(i, c'). Some (Ret (i, set_block i v c')))"

lemma got_in_use:
  assumes g: "got c d b mode i c'" and us: "usable c d" and m: "mode \<noteq> PREFETCH" and nn: "0 \<le> b_count (buf c i)"
  shows "in_use c' d b i" "usable c' = usable c" "(\<lambda>j. b_count (buf c' j)) = (\<lambda>j. b_count (buf c j))(i := b_count (buf c i) + 1)"
    "\<And>d b j. in_use c d b j \<Longrightarrow> in_use c' d b j"
proof -
  have c: "b_count (buf c' j) = b_count (buf c j) + (if j = i then 1 else 0)" for j using g by (simp add: got_def)
  show u: "usable c' = usable c" using g by (simp add: got_def usable_def fun_eq_iff)
  show "(\<lambda>j. b_count (buf c' j)) = (\<lambda>j. b_count (buf c j))(i := b_count (buf c i) + 1)" using c by auto
  have i: "b_dev (buf c' i) = d" "b_blocknr (buf c' i) = b" "i < NR_BUFS" using g m unfolding got_def by blast+
  then show "in_use c' d b i" using us u nn c [of i] by (simp add: in_use_def named_def)
  show "in_use c' d b j" if "in_use c d b j" for d b j
  proof -
    have j: "j < NR_BUFS" "b_count (buf c j) \<noteq> 0" using that by (auto simp: in_use_def named_def)
    have "b_dev (buf c' j) = b_dev (buf c j) \<and> b_blocknr (buf c' j) = b_blocknr (buf c j)" using g j unfolding got_def by blast
    then show ?thesis using that u c [of j] by (auto simp: in_use_def named_def)
  qed
qed

lemma counts_nonneg: "cache_inv c \<Longrightarrow> i < NR_BUFS \<Longrightarrow> 0 \<le> b_count (buf c i)"
  by (simp add: cache_inv_def cache_core_def lru_inv_def)

lemma got_coh:
  assumes s: "store_inv c" and g: "got c d b mode i c'" and j: "j < NR_BUFS" "j \<noteq> i \<or> mode = NORMAL"
  shows "coh c' j"
proof (cases "b_count (buf c' j) = 0")
  case True
  then show ?thesis using g j(1) by (auto simp: got_def cache_inv_def cache_core_def free_set_def)
next
  case False
  have cj: "coh c j" using s j(1) by (simp add: store_inv_def)
  show ?thesis
  proof (cases "j = i")
    case True
    then show ?thesis using g j(2) cj by (auto simp: got_def)
  next
    case ne: False
    then have "b_count (buf c j) \<noteq> 0" using g False by (auto simp: got_def)
    then show ?thesis using g j(1) cj unfolding got_def by blast
  qed
qed

lemma store_fetch:
  assumes io: "sound io" and c: "store_inv c" "usable c d" "has_room c"
  shows "\<exists>i c'. get_block io d b NORMAL c = Some (Ret (i, c')) \<and> got c d b NORMAL i c' \<and> store_inv c'"
proof -
  have inv: "cache_inv c" using c by (simp add: store_inv_def)
  obtain i c' where g: "get_block io d b NORMAL c = Some (Ret (i, c'))" "got c d b NORMAL i c'"
    using get_block_cases [OF io inv c(2), of b NORMAL] c(3) by (auto simp: has_room_def)
  have "store_inv c'" using g(2) got_coh [OF c(1) g(2)] by (auto simp: store_inv_def got_def)
  then show ?thesis using g by blast
qed

lemma store_change:
  assumes c: "cache_inv c" "\<And>j. j < NR_BUFS \<Longrightarrow> j \<noteq> i \<Longrightarrow> coh c j" "in_use c d b i"
  shows "store_inv (set_block i v c)" "usable (set_block i v c) = usable c" "(\<lambda>j. b_count (buf (set_block i v c) j)) = (\<lambda>j. b_count (buf c j))"
    "\<And>d' b'. usable c d' \<Longrightarrow> view (set_block i v c) d' b' = (if (d', b') = (d, b) then v else view c d' b')"
    "\<And>d b j. in_use c d b j \<Longrightarrow> in_use (set_block i v c) d b j"
proof -
  have i: "i < NR_BUFS" "0 < b_count (buf c i)" "usable c (b_dev (buf c i))" "named c d b i" using c(3) by (auto simp: in_use_def named_def)
  note s = set_block_inv [OF c(1) i(1-3) refl, where v = v]
  have "coh (set_block i v c) j" if "j < NR_BUFS" for j
  proof (cases "j = i")
    case True
    then show ?thesis by (simp add: coh_def set_block_def)
  next
    case False
    then show ?thesis using s(7) c(2) that by blast
  qed
  then show "store_inv (set_block i v c)" using s(1) by (simp add: store_inv_def)
  show u: "usable (set_block i v c) = usable c" using s(2) by (simp add: usable_def fun_eq_iff)
  show "(\<lambda>j. b_count (buf (set_block i v c) j)) = (\<lambda>j. b_count (buf c j))" using s(3) by simp
  show "view (set_block i v c) d' b' = (if (d', b') = (d, b) then v else view c d' b')" if "usable c d'" for d' b'
  proof -
    have "named c d' b' i = ((d', b') = (d, b))" using i(4) by (auto simp: named_def)
    then show ?thesis using s(5) [of d' b'] that by (simp add: usable_def)
  qed
  show "\<And>d b j. in_use c d b j \<Longrightarrow> in_use (set_block i v c) d b j" using s(3,4) u by (simp add: in_use_def)
qed

lemma store_fresh:
  assumes io: "sound io" and c: "store_inv c" "usable c d" "has_room c"
  obtains i c' where "get_block io d b NO_READ c = Some (Ret (i, c'))" "got c d b NO_READ i c'" "cache_inv c'" "in_use c' d b i"
    "\<And>j. j < NR_BUFS \<Longrightarrow> j \<noteq> i \<Longrightarrow> coh c' j"
proof -
  have inv: "cache_inv c" using c by (simp add: store_inv_def)
  obtain i c' where g: "get_block io d b NO_READ c = Some (Ret (i, c'))" "got c d b NO_READ i c'"
    using get_block_cases [OF io inv c(2), of b NO_READ] c(3) by (auto simp: has_room_def)
  have "in_use c' d b i" by (rule got_in_use(1) [OF g(2) c(2)]) (use counts_nonneg [OF inv] g(2) in \<open>auto simp: got_def\<close>)
  then show thesis using that [OF g] g(2) got_coh [OF c(1) g(2)] by (simp add: got_def)
qed

interpretation store: block_store "\<lambda>d b. get_block io d b NORMAL" "new_buf io" set_block "\<lambda>t i. put_block io (Some i) t"
  "\<lambda>c i. b_data (buf c i)" "\<lambda>c. sound io \<and> store_inv c" usable view in_use "\<lambda>c i. b_count (buf c i)" has_room
  for io
proof unfold_locales
  fix c :: cache and d b
  assume a: "sound io \<and> store_inv c" "usable c d" "has_room c"
  have inv: "cache_inv c" using a by (simp add: store_inv_def)
  obtain i c' where g: "get_block io d b NORMAL c = Some (Ret (i, c'))" "got c d b NORMAL i c'" "store_inv c'" using store_fetch a by blast
  have "i < NR_BUFS" using g(2) by (simp add: got_def)
  note u = got_in_use [OF g(2) a(2) _ counts_nonneg [OF inv this]]
  have "\<forall>d b. usable c d \<longrightarrow> view c' d b = view c d b" using g(2) by (auto simp: got_def)
  then show "\<exists>i c'. get_block io d b NORMAL c = Some (Ret (i, c')) \<and> (sound io \<and> store_inv c') \<and> usable c' = usable c \<and> in_use c' d b i \<and>
      (\<lambda>i. b_count (buf c' i)) = (\<lambda>i. b_count (buf c i))(i := b_count (buf c i) + 1) \<and> (\<forall>d b. usable c d \<longrightarrow> view c' d b = view c d b) \<and>
      (\<forall>d b j. in_use c d b j \<longrightarrow> in_use c' d b j)" using g a(1) u by blast
next
  fix c :: cache and d b v
  assume a: "sound io \<and> store_inv c" "usable c d" "has_room c"
  have inv: "cache_inv c" using a by (simp add: store_inv_def)
  obtain i c' where g: "get_block io d b NO_READ c = Some (Ret (i, c'))" "got c d b NO_READ i c'" "cache_inv c'" "in_use c' d b i"
    "\<And>j. j < NR_BUFS \<Longrightarrow> j \<noteq> i \<Longrightarrow> coh c' j" using store_fresh [of io c d b] a by blast
  have "i < NR_BUFS" using g(2) by (simp add: got_def)
  note u = got_in_use [OF g(2) a(2) _ counts_nonneg [OF inv this]]
  note s = store_change [OF g(3,5,4), where v = v]
  have "view (set_block i v c') d' b' = (if (d', b') = (d, b) then v else view c d' b')" if "usable c d'" for d' b'
    using s(4) [of d' b'] that u(2) g(2) by (simp add: got_def)
  moreover have "usable (set_block i v c') = usable c" using s(2) u(2) by simp
  moreover have "(\<lambda>j. b_count (buf (set_block i v c') j)) = (\<lambda>j. b_count (buf c j))(i := b_count (buf c i) + 1)" using s(3) u(3) by simp
  moreover have "new_buf io d b v c = Some (Ret (i, set_block i v c'))" using g(1) by (simp add: new_buf_def)
  ultimately show "\<exists>i c'. new_buf io d b v c = Some (Ret (i, c')) \<and> (sound io \<and> store_inv c') \<and> usable c' = usable c \<and> in_use c' d b i \<and>
      (\<lambda>i. b_count (buf c' i)) = (\<lambda>i. b_count (buf c i))(i := b_count (buf c i) + 1) \<and>
      (\<forall>d' b'. usable c d' \<longrightarrow> view c' d' b' = (if (d', b') = (d, b) then v else view c d' b')) \<and> (\<forall>d b j. in_use c d b j \<longrightarrow> in_use c' d b j)"
    using a(1) s(1,5) u(4) g(4) by blast
next
  fix c :: cache and d b i v
  assume a: "sound io \<and> store_inv c" "in_use c d b i"
  note s = store_change [OF _ _ a(2), where v = v]
  show "(sound io \<and> store_inv (set_block i v c)) \<and> usable (set_block i v c) = usable c \<and>
      (\<lambda>j. b_count (buf (set_block i v c) j)) = (\<lambda>j. b_count (buf c j)) \<and>
      (\<forall>d' b'. usable c d' \<longrightarrow> view (set_block i v c) d' b' = (if (d', b') = (d, b) then v else view c d' b')) \<and>
      (\<forall>d b j. in_use c d b j \<longrightarrow> in_use (set_block i v c) d b j)" using a s by (simp add: store_inv_def)
next
  fix c :: cache and d b i t
  assume a: "sound io \<and> store_inv c" "in_use c d b i"
  have inv: "cache_inv c" and i: "i < NR_BUFS" "0 < b_count (buf c i)" "coh c i" using a by (auto simp: store_inv_def in_use_def named_def)
  let ?c = "put_block io (Some i) t c"
  note p = put_block_inv [OF conjunct1 [OF a(1)] inv i refl, where block_type = t]
  have u: "usable ?c = usable c" using p(2) by (simp add: usable_def fun_eq_iff)
  have "store_inv ?c" using p(1,6) a(1) by (simp add: store_inv_def)
  moreover have "\<forall>d b. usable c d \<longrightarrow> view ?c d b = view c d b" using p(3) by (simp add: usable_def)
  moreover have "(\<lambda>j. b_count (buf ?c j)) = (\<lambda>j. b_count (buf c j))(i := b_count (buf c i) - 1)" using p(4) by auto
  moreover have "in_use ?c d b j" if "in_use c d b j" "j \<noteq> i \<or> b_count (buf c i) > 1" for d b j
    using that p(4) [of j] p(5) [of j] u by (auto simp: in_use_def named_def)
  ultimately show "(sound io \<and> store_inv ?c) \<and> usable ?c = usable c \<and> (\<lambda>j. b_count (buf ?c j)) = (\<lambda>j. b_count (buf c j))(i := b_count (buf c i) - 1) \<and>
      (\<forall>d b. usable c d \<longrightarrow> view ?c d b = view c d b) \<and> (\<forall>d b j. in_use c d b j \<longrightarrow> j \<noteq> i \<or> b_count (buf c i) > 1 \<longrightarrow> in_use ?c d b j)"
    using a(1) u by blast
next
  fix c :: cache and d b i
  assume a: "sound io \<and> store_inv c" "in_use c d b i"
  have "uniq c" using a(1) by (simp add: store_inv_def cache_inv_def cache_core_def)
  then show "usable c d \<and> b_count (buf c i) > 0 \<and> b_data (buf c i) = view c d b"
    using a(2) view_named [of c d b i] by (simp add: in_use_def usable_def)
next
  fix c c' :: cache
  assume "(\<lambda>j. b_count (buf c' j)) = (\<lambda>j. b_count (buf c j))"
  then show "has_room c' = has_room c" by (simp add: has_room_def free_set_def fun_eq_iff)
qed

section \<open>Histories\<close>

text \<open>After a flush the disk holds what callers see of the device.\<close>

lemma flush_store:
  assumes io: "sound io" and c: "store_inv c" "usable c d" and c': "c' = flushall io d c"
  shows "store_inv c'" "usable c' = usable c" "\<And>d' b. d' \<noteq> NO_DEV \<Longrightarrow> view c' d' b = view c d' b" "\<And>b. disk c' d b = view c d b"
    "\<And>i. i < NR_BUFS \<Longrightarrow> b_dev (buf c' i) = d \<Longrightarrow> \<not> b_dirt (buf c' i)" "\<And>d b i. in_use c d b i \<Longrightarrow> in_use c' d b i"
proof -
  have inv: "cache_core c {}" "c2_inv c {}" using c(1) by (simp_all add: store_inv_def cache_inv_def)
  have dn: "d \<noteq> NO_DEV" "nr_buf2 c \<noteq> 0 \<Longrightarrow> d \<noteq> DEV_RAM" using c(2) by (auto simp: usable_def)
  note f = flushall_core [OF io inv dn c']
  have sb: "b_dev (buf c' i) = b_dev (buf c i)" "b_data (buf c' i) = b_data (buf c i)" "b_blocknr (buf c' i) = b_blocknr (buf c i)" "b_count (buf c' i) = b_count (buf c i)" for i
    using f(3) by (simp_all add: same_bufs_def)
  show st: "store_inv c'" using f(1,2,11) c(1) by (simp add: store_inv_def cache_inv_def)
  show us: "usable c' = usable c" using f(4) by (simp add: usable_def fun_eq_iff)
  show vw: "\<And>d' b. d' \<noteq> NO_DEV \<Longrightarrow> view c' d' b = view c d' b" by (rule f(5))
  show cl: "\<not> b_dirt (buf c' i)" if "i < NR_BUFS" "b_dev (buf c' i) = d" for i using f(7) [of i] that sb by (simp add: dirty_set_def)
  show "\<And>d b i. in_use c d b i \<Longrightarrow> in_use c' d b i" using sb us by (simp add: in_use_def named_def)
  have u: "uniq c'" using f(1) by (simp add: cache_core_def)
  show "disk c' d b = view c d b" for b
  proof (cases "\<exists>i. named c' d b i")
    case True
    then obtain i where i: "named c' d b i" by blast
    then have "coh c' i" "\<not> b_dirt (buf c' i)" using st cl by (auto simp: store_inv_def named_def)
    then have "disk c' d b = b_data (buf c' i)" using i dn by (simp add: coh_def named_def)
    also have "\<dots> = view c d b" using view_named [OF u dn(1) i] vw [OF dn(1), of b] by simp
    finally show ?thesis .
  next
    case False
    then show ?thesis using view_uncached [of c' d b] vw [OF dn(1), of b] by simp
  qed
qed

text \<open>Everything the file system does to its cache, with the store of blocks it stands for.\<close>

inductive cache_run :: "(nat \<Rightarrow> int) \<Rightarrow> cache \<Rightarrow> (int \<Rightarrow> nat \<Rightarrow> data) \<Rightarrow> bool" for io where
  boot: "cache_run io (start n D) D"
| get: "cache_run io c A \<Longrightarrow> usable c d \<Longrightarrow> get_block io d b NORMAL c = Some (Ret (i, c')) \<Longrightarrow> cache_run io c' A"
| fresh: "cache_run io c A \<Longrightarrow> usable c d \<Longrightarrow> get_block io d b NO_READ c = Some (Ret (i, c')) \<Longrightarrow> cache_run io (set_block i v c') (A(d := (A d)(b := v)))"
| change: "cache_run io c A \<Longrightarrow> in_use c d b i \<Longrightarrow> cache_run io (set_block i v c) (A(d := (A d)(b := v)))"
| put: "cache_run io c A \<Longrightarrow> in_use c d b i \<Longrightarrow> cache_run io (put_block io (Some i) t c) A"
| flush: "cache_run io c A \<Longrightarrow> usable c d \<Longrightarrow> cache_run io (flushall io d c) A"
| forget: "cache_run io c A \<Longrightarrow> usable c d \<Longrightarrow> cache_run io (invalidate d (flushall io d c)) A"

lemma cache_run_store:
  assumes io: "sound io" and run: "cache_run io c A"
  shows "store_inv c \<and> (\<forall>d b. usable c d \<longrightarrow> view c d b = A d b)"
  using run
proof (induction rule: cache_run.induct)
  case (boot n D)
  show ?case using start_inv [where n = n and D = D] by (auto simp: store_inv_def usable_def)
next
  case (get c A d b i c')
  then have inv: "cache_inv c" by (simp add: store_inv_def)
  have g: "got c d b NORMAL i c'" using get_block_cases [OF io inv get.hyps(2), of b NORMAL] get.hyps(3) by (auto split: if_splits)
  then have "store_inv c'" using got_coh [OF conjunct1 [OF get.IH] g] by (auto simp: store_inv_def got_def)
  moreover have "view c' d' b' = A d' b'" if "usable c' d'" for d' b'
    using g get.IH that by (auto simp: got_def usable_def)
  ultimately show ?case by blast
next
  case (fresh c A d b i c' v)
  then have inv: "cache_inv c" by (simp add: store_inv_def)
  have g: "got c d b NO_READ i c'" using get_block_cases [OF io inv fresh.hyps(2), of b NO_READ] fresh.hyps(3) by (auto split: if_splits)
  then have i: "i < NR_BUFS" "cache_inv c'" by (simp_all add: got_def)
  note u = got_in_use [OF g fresh.hyps(2) _ counts_nonneg [OF inv i(1)], simplified]
  note s = store_change [OF i(2) got_coh [OF conjunct1 [OF fresh.IH] g] u(1), simplified, where v = v]
  have "view (set_block i v c') d' b' = (A(d := (A d)(b := v))) d' b'" if "usable c' d'" for d' b'
  proof -
    have "(d', b') \<noteq> (d, b) \<Longrightarrow> view c' d' b' = A d' b'" using g fresh.IH that u(2) by (auto simp: got_def)
    then show ?thesis using s(4) that by auto
  qed
  then show ?case using s(1,2) by simp
next
  case (change c A d b i v)
  then have c: "cache_inv c" "\<And>j. j < NR_BUFS \<Longrightarrow> j \<noteq> i \<Longrightarrow> coh c j" by (simp_all add: store_inv_def)
  note s = store_change [OF c change.hyps(2), where v = v]
  show ?case using s(1,2,4) change.IH by auto
next
  case (put c A d b i t)
  note p = store.give_back_law [of io c d b i t, OF _ put.hyps(2)]
  show ?case using p io put.IH by auto
next
  case (flush c A d)
  note f = flush_store [OF io conjunct1 [OF flush.IH] flush.hyps(2) refl]
  show ?case using f(1,2,3) flush.IH by (auto simp: usable_def)
next
  case (forget c A d)
  note f = flush_store [OF io conjunct1 [OF forget.IH] forget.hyps(2) refl]
  have "d \<noteq> NO_DEV" using forget.hyps(2) by (simp add: usable_def)
  note v = invalidate_inv [OF _ this refl]
  have inv: "cache_inv (flushall io d c)" using f(1) by (simp add: store_inv_def)
  have "store_inv (invalidate d (flushall io d c))" using v(1,6) [OF inv] f(1) by (simp add: store_inv_def)
  moreover have "view (invalidate d (flushall io d c)) d' b' = A d' b'" if "usable (invalidate d (flushall io d c)) d'" for d' b'
  proof -
    have us: "usable c d'" "d' \<noteq> NO_DEV" using that v(2) [OF inv] f(2) by (auto simp: usable_def fun_eq_iff)
    then show ?thesis using v(3) [OF inv us(2)] f(3) [OF us(2)] f(4) forget.IH by auto
  qed
  ultimately show ?case by blast
qed

text \<open>
  (C4) The block cache is transparent. Whatever sequence of gets, overwrites, changes, releases,
  flushes and invalidations led to the present state, a \<^verbatim>\<open>get_block\<close> of any block on any device
  either finds all buffers in use and panics, or returns a buffer that is named after the block and
  holds exactly what was last written to it, be it found in the cache, in the second level cache or
  read from the device. The devices are assumed to work.
\<close>

theorem cache_history_refines:
  assumes "sound io" "cache_run io c A" "usable c d"
  shows "if free_set c = {} \<and> cached c d b = None then get_block io d b NORMAL c = Some (Panic ''all buffers in use'')
    else \<exists>i c'. get_block io d b NORMAL c = Some (Ret (i, c')) \<and> i < NR_BUFS \<and> b_dev (buf c' i) = d \<and> b_blocknr (buf c' i) = b \<and>
      b_data (buf c' i) = A d b \<and> b_count (buf c' i) = b_count (buf c i) + 1 \<and>
      (\<forall>j < NR_BUFS. b_count (buf c j) \<noteq> 0 \<longrightarrow> b_data (buf c' j) = b_data (buf c j) \<and> b_dev (buf c' j) = b_dev (buf c j) \<and> b_blocknr (buf c' j) = b_blocknr (buf c j))"
proof -
  have s: "store_inv c" "view c d b = A d b" using cache_run_store [OF assms(1,2)] assms(3) by auto
  then have inv: "cache_inv c" by (simp add: store_inv_def)
  have dn: "d \<noteq> NO_DEV" using assms(3) by (simp add: usable_def)
  have "got c d b NORMAL i c' \<Longrightarrow> i < NR_BUFS \<and> b_dev (buf c' i) = d \<and> b_blocknr (buf c' i) = b \<and> b_data (buf c' i) = A d b \<and>
      b_count (buf c' i) = b_count (buf c i) + 1 \<and>
      (\<forall>j < NR_BUFS. b_count (buf c j) \<noteq> 0 \<longrightarrow> b_data (buf c' j) = b_data (buf c j) \<and> b_dev (buf c' j) = b_dev (buf c j) \<and> b_blocknr (buf c' j) = b_blocknr (buf c j))"
    for i c' using s(2) dn unfolding got_def by auto
  then show ?thesis using get_block_cases [OF assms(1) inv assms(3), of b NORMAL] dn by (auto split: if_splits)
qed

definition good_io :: "nat \<Rightarrow> int" where
  "good_io n = BLOCK_SIZE"

lemma good_io_sound: "sound good_io"
  by (simp add: sound_def good_io_def)

lemma start_room: "has_room (start n D)"
proof -
  have "0 \<in> free_set (start n D)" using start_inv(3) by (simp add: free_set_def NR_BUFS_def)
  then show ?thesis unfolding has_room_def by blast
qed

lemma start_run: "\<exists>c. cache_run good_io c ((\<lambda>_ _ _. 0)(768 := (\<lambda>_ _. 0)(5 := (\<lambda>_. 42)))) \<and> usable c 768"
proof -
  let ?D = "\<lambda>_ _ _. 0 :: 8 word" and ?s = "start 100 (\<lambda>_ _ _. 0)"
  have us: "usable ?s 768" by (simp add: usable_def NO_DEV_def DEV_RAM_def)
  have st: "store_inv ?s" using start_inv [where n = 100 and D = ?D] by (simp add: store_inv_def)
  obtain i c' where g: "get_block good_io 768 5 NO_READ ?s = Some (Ret (i, c'))" "got ?s 768 5 NO_READ i c'"
    by (rule store_fresh [OF good_io_sound st us start_room])
  have "cache_run good_io (set_block i (\<lambda>_. 42) c') ((\<lambda>_ _ _. 0)(768 := (\<lambda>_ _. 0)(5 := (\<lambda>_. 42))))"
    using cache_run.fresh [OF cache_run.boot us g(1)] by simp
  moreover have "usable (set_block i (\<lambda>_. 42) c') 768" by (simp add: usable_def set_block_def NO_DEV_def DEV_RAM_def)
  ultimately show ?thesis by blast
qed

theorem cache_history_refines_witness:
  "\<exists>c. cache_run good_io c ((\<lambda>_ _ _. 0)(768 := (\<lambda>_ _. 0)(5 := (\<lambda>_. 42)))) \<and>
     (if free_set c = {} \<and> cached c 768 5 = None then get_block good_io 768 5 NORMAL c = Some (Panic ''all buffers in use'')
      else \<exists>i c'. get_block good_io 768 5 NORMAL c = Some (Ret (i, c')) \<and> b_data (buf c' i) = (\<lambda>_. 42))"
proof -
  obtain c where "cache_run good_io c ((\<lambda>_ _ _. 0)(768 := (\<lambda>_ _. 0)(5 := (\<lambda>_. 42))))" "usable c 768" using start_run by blast
  then show ?thesis using cache_history_refines [OF good_io_sound, of c "(\<lambda>_ _ _. 0)(768 := (\<lambda>_ _. 0)(5 := (\<lambda>_. 42)))" 768 5]
    by (intro exI [of _ c] conjI) (auto split: if_splits)
qed

text \<open>
  (C26) \<^verbatim>\<open>flushall\<close> makes the disk current: afterwards every block of the device is on the disk
  with the contents callers see, no buffer of the device is dirty, and neither the contents of any
  block nor any use of a buffer has changed.
\<close>

theorem flushall_writes_all:
  assumes "sound io" "cache_run io c A" "usable c d"
  shows "disk (flushall io d c) d b = A d b \<and> (\<forall>i < NR_BUFS. b_dev (buf (flushall io d c) i) = d \<longrightarrow> \<not> b_dirt (buf (flushall io d c) i)) \<and>
    (\<forall>d' b'. usable c d' \<longrightarrow> view (flushall io d c) d' b' = A d' b') \<and> (\<forall>d' b' i. in_use c d' b' i \<longrightarrow> in_use (flushall io d c) d' b' i)"
proof -
  have s: "store_inv c" "\<forall>d b. usable c d \<longrightarrow> view c d b = A d b" using cache_run_store [OF assms(1,2)] by auto
  note f = flush_store [OF assms(1) s(1) assms(3) refl]
  show ?thesis using f(3,4,5,6) s(2) assms(3) by (auto simp: usable_def)
qed

theorem flushall_writes_all_witness:
  "\<exists>c. cache_run good_io c ((\<lambda>_ _ _. 0)(768 := (\<lambda>_ _. 0)(5 := (\<lambda>_. 42)))) \<and> disk (flushall good_io 768 c) 768 5 = (\<lambda>_. 42) \<and> disk (flushall good_io 768 c) 768 6 = (\<lambda>_. 0)"
proof -
  obtain c where "cache_run good_io c ((\<lambda>_ _ _. 0)(768 := (\<lambda>_ _. 0)(5 := (\<lambda>_. 42))))" "usable c 768" using start_run by blast
  then show ?thesis
    using flushall_writes_all [OF good_io_sound, of c "(\<lambda>_ _ _. 0)(768 := (\<lambda>_ _. 0)(5 := (\<lambda>_. 42)))" 768 5]
      flushall_writes_all [OF good_io_sound, of c "(\<lambda>_ _ _. 0)(768 := (\<lambda>_ _. 0)(5 := (\<lambda>_. 42)))" 768 6] by (intro exI [of _ c]) auto
qed

text \<open>
  The Shell sort in \<^verbatim>\<open>rw_scattered\<close> with its gaps 1, 4, 13, 40 ends, and hands over the same
  buffers in the order of their block numbers.
\<close>

theorem shell_sort_correct:
  "mset (shell_sort key q) = mset q \<and> sorted (map key (shell_sort key q))"
  using shell_sort_sorted [of key q] by simp

end
