(* ===== verification/Fs_Super.thy ===== *)
theory Fs_Super
  imports Fs_Store
begin

unbundle bit_operations_syntax

text \<open>
  The bit maps and the super block table, \<^verbatim>\<open>src/src/fs/super.c\<close>, the byte order conversions of
  \<^verbatim>\<open>utility.c\<close> and the allocation of zones of \<^verbatim>\<open>cache.c\<close>. A map is a sequence of blocks on the
  device; it is read as 16-bit words, which on the 68000 have their high byte first. Fields of 16
  and 32 bits keep their width.
\<close>

section \<open>Byte order\<close>

text \<open>The argument of \<^verbatim>\<open>conv2\<close> is an \<^verbatim>\<open>int\<close>, the result an \<^verbatim>\<open>unsigned\<close>.\<close>

definition conv2 :: "bool \<Rightarrow> 32 word \<Rightarrow> 32 word" where
  "conv2 norm w = (if norm then w AND 0xFFFF else push_bit 8 (w AND 0xFF) OR (signed_drop_bit 8 w AND 0xFF))"

definition conv4 :: "bool \<Rightarrow> 32 word \<Rightarrow> 32 word" where
  "conv4 norm x =
     (if norm then x
      else let lo = conv2 False (x AND 0xFFFF); hi = conv2 False (signed_drop_bit 16 x AND 0xFFFF)
           in push_bit 16 lo OR hi)"

text \<open>\<^verbatim>\<open>conv2\<close> from a 16-bit field to a 16-bit field.\<close>

definition conv2h :: "bool \<Rightarrow> 16 word \<Rightarrow> 16 word" where
  "conv2h norm w = ucast (conv2 norm (ucast w))"

text \<open>Words of 16 and 32 bits at a byte offset of a block.\<close>

definition get2 :: "data \<Rightarrow> nat \<Rightarrow> 16 word" where
  "get2 d i = push_bit 8 (ucast (d i)) OR ucast (d (i + 1))"

definition set2 :: "nat \<Rightarrow> 16 word \<Rightarrow> data \<Rightarrow> data" where
  "set2 i w d = d(i := ucast (drop_bit 8 w), i + 1 := ucast w)"

definition get4 :: "data \<Rightarrow> nat \<Rightarrow> 32 word" where
  "get4 d i = push_bit 16 (ucast (get2 d i)) OR ucast (get2 d (i + 2))"

definition set4 :: "nat \<Rightarrow> 32 word \<Rightarrow> data \<Rightarrow> data" where
  "set4 i w d = set2 (i + 2) (ucast w) (set2 i (ucast (drop_bit 16 w)) d)"

section \<open>The super block table\<close>

record super_block =
  s_ninodes :: "16 word"
  s_nzones :: "16 word"
  s_imap_blocks :: "16 word"
  s_zmap_blocks :: "16 word"
  s_firstdatazone :: "16 word"
  s_log_zone_size :: "16 word"
  s_max_size :: "32 word"
  s_magic :: "16 word"
  s_zones :: "32 word"
  s_isup :: "nat option"
  s_imount :: "nat option"
  s_inodes_per_block :: nat
  s_dev :: int
  s_rd_only :: bool
  s_native :: bool
  s_version :: nat
  s_ndzones :: nat
  s_nindirs :: nat
  s_isearch :: nat
  s_zsearch :: nat

datatype map_kind = IMAP | ZMAP

definition NR_SUPERS :: nat where "NR_SUPERS = 8"
definition SUPER_BLOCK :: nat where "SUPER_BLOCK = 1"
definition NO_BIT :: nat where "NO_BIT = 0"
definition NO_ZONE :: "32 word" where "NO_ZONE = 0"
definition BITMAP_CHUNKS :: nat where "BITMAP_CHUNKS = 512"
definition BITCHUNK_BITS :: nat where "BITCHUNK_BITS = 16"
definition BITS_PER_BLOCK :: nat where "BITS_PER_BLOCK = BITMAP_CHUNKS * BITCHUNK_BITS"
definition SUPER_MAGIC :: "16 word" where "SUPER_MAGIC = 0x137F"
definition SUPER_V2 :: "16 word" where "SUPER_V2 = 0x2468"

section \<open>Bit maps\<close>

text \<open>\<^verbatim>\<open>start_block\<close>, \<^verbatim>\<open>map_bits\<close> and \<^verbatim>\<open>bit_blocks\<close> of \<^verbatim>\<open>alloc_bit\<close>.\<close>

definition start_block :: "super_block \<Rightarrow> map_kind \<Rightarrow> nat" where
  "start_block sp m = (case m of IMAP \<Rightarrow> SUPER_BLOCK + 1 | ZMAP \<Rightarrow> SUPER_BLOCK + 1 + unat (scast (s_imap_blocks sp) :: 32 word))"

definition map_bits :: "super_block \<Rightarrow> map_kind \<Rightarrow> nat" where
  "map_bits sp m = (case m of IMAP \<Rightarrow> unat (s_ninodes sp) + 1 | ZMAP \<Rightarrow> unat (s_zones sp - (ucast (s_firstdatazone sp) - 1)))"

definition bit_blocks :: "super_block \<Rightarrow> map_kind \<Rightarrow> nat" where
  "bit_blocks sp m = (case m of IMAP \<Rightarrow> unat (scast (s_imap_blocks sp) :: 32 word) | ZMAP \<Rightarrow> unat (scast (s_zmap_blocks sp) :: 32 word))"

text \<open>\<^verbatim>\<open>for (i = 0; (k & (1 << i)) != 0; ++i) {}\<close>; bits from 16 on are zero.\<close>

function first_zero :: "16 word \<Rightarrow> nat \<Rightarrow> nat" where
  "first_zero k i = (if bit k i then first_zero k (i + 1) else i)"
  by auto
termination
proof (relation "measure (\<lambda>(k, i). 16 - i)")
  fix k :: "16 word" and i assume "bit k i"
  then have "i < 16" using bit_imp_le_length by fastforce
  then show "((k, i + 1), (k, i)) \<in> measure (\<lambda>(k, i). 16 - i)" by simp
qed simp

declare first_zero.simps [simp del]

text \<open>The words of one block from \<open>w\<close> on: the bit found and the changed block, if any.\<close>

function scan_words :: "bool \<Rightarrow> nat \<Rightarrow> nat \<Rightarrow> data \<Rightarrow> nat \<Rightarrow> (nat \<times> data) option" where
  "scan_words native limit block d w =
     (if w \<ge> BITMAP_CHUNKS then None
      else if get2 d (2 * w) = - 1 then scan_words native limit block d (w + 1)
      else
        let k = conv2h native (get2 d (2 * w)); i = first_zero k 0;
            b = block * BITS_PER_BLOCK + w * BITCHUNK_BITS + i
        in if b \<ge> limit then None
           else Some (b, set2 (2 * w) (conv2h native (k OR flag i)) d))"
  by auto
termination by (relation "measure (\<lambda>(n, l, b, d, w). BITMAP_CHUNKS - w)") auto

declare scan_words.simps [simp del]

fun alloc_bit_loop :: "(nat \<Rightarrow> int) \<Rightarrow> super_block \<Rightarrow> map_kind \<Rightarrow> nat \<Rightarrow> nat \<Rightarrow> nat \<Rightarrow> cache \<Rightarrow> (nat \<times> cache) outcome option" where
  "alloc_bit_loop io sp m block word 0 c = Some (Ret (NO_BIT, c))"
| "alloc_bit_loop io sp m block word (Suc bcount) c =
     and_then (get_block io (s_dev sp) (start_block sp m + block) NORMAL c)
       (\<lambda>(bp, c1).
          case scan_words (s_native sp) (map_bits sp m) block (b_data (buf c1 bp)) word of
            Some (b, d) \<Rightarrow> Some (Ret (b, put_block io (Some bp) MAP_BLOCK (set_block bp d c1)))
          | None \<Rightarrow>
              alloc_bit_loop io sp m (if block + 1 \<ge> bit_blocks sp m then 0 else block + 1) 0 bcount
                (put_block io (Some bp) MAP_BLOCK c1))"

definition alloc_bit :: "(nat \<Rightarrow> int) \<Rightarrow> super_block \<Rightarrow> map_kind \<Rightarrow> nat \<Rightarrow> cache \<Rightarrow> (nat \<times> cache) outcome option" where
  "alloc_bit io sp m origin0 c =
     (if s_rd_only sp then Some (Panic ''can't allocate bit on read-only filesys.'')
      else
        let origin = (if origin0 \<ge> map_bits sp m then 0 else origin0)
        in alloc_bit_loop io sp m (origin div BITS_PER_BLOCK) (origin mod BITS_PER_BLOCK div BITCHUNK_BITS) (bit_blocks sp m + 1) c)"

definition free_bit :: "(nat \<Rightarrow> int) \<Rightarrow> super_block \<Rightarrow> map_kind \<Rightarrow> nat \<Rightarrow> cache \<Rightarrow> cache outcome option" where
  "free_bit io sp m bit_returned c =
     (if s_rd_only sp then Some (Panic ''can't free bit on read-only filesys.'')
      else
        let block = bit_returned div BITS_PER_BLOCK;
            word = bit_returned mod BITS_PER_BLOCK div BITCHUNK_BITS;
            mask = flag (bit_returned mod BITCHUNK_BITS)
        in and_then (get_block io (s_dev sp) (start_block sp m + block) NORMAL c)
             (\<lambda>(bp, c1).
                let k = conv2h (s_native sp) (get2 (b_data (buf c1 bp)) (2 * word))
                in if \<not> has k mask then Some (Panic (if m = IMAP then ''tried to free unused inode'' else ''tried to free unused block''))
                   else Some (Ret (put_block io (Some bp) MAP_BLOCK
                               (set_block bp (set2 (2 * word) (conv2h (s_native sp) (k AND NOT mask)) (b_data (buf c1 bp))) c1)))))"

section \<open>The tables\<close>

text \<open>An entry of the inode table, \<^verbatim>\<open>inode.h\<close>; \<^verbatim>\<open>i_sp\<close> is the index of the super block.\<close>

record inode =
  i_mode :: "16 word"
  i_nlinks :: "8 word"
  i_uid :: "16 word"
  i_gid :: "8 word"
  i_size :: "32 word"
  i_atime :: "32 word"
  i_mtime :: "32 word"
  i_ctime :: "32 word"
  i_zone :: "nat \<Rightarrow> 32 word"
  i_dev :: int
  i_num :: "16 word"
  i_count :: int
  i_ndzones :: nat
  i_nindirs :: nat
  i_sp :: nat
  i_dirt :: bool
  i_pipe :: bool
  i_mount :: bool
  i_seek :: bool
  i_update :: "8 word"

record fs =
  fs_cache :: cache
  super_blocks :: "nat \<Rightarrow> super_block"
  inode :: "nat \<Rightarrow> inode"
  err_code :: int

definition upd_super :: "nat \<Rightarrow> (super_block \<Rightarrow> super_block) \<Rightarrow> fs \<Rightarrow> fs" where
  "upd_super i f s = s\<lparr>super_blocks := (super_blocks s)(i := f (super_blocks s i))\<rparr>"

definition get_super :: "int \<Rightarrow> fs \<Rightarrow> nat outcome option" where
  "get_super dev s =
     (case List.find (\<lambda>i. s_dev (super_blocks s i) = dev) [0 ..< NR_SUPERS] of
        Some i \<Rightarrow> Some (Ret i)
      | None \<Rightarrow> Some (Panic ''can't find superblock for device (in decimal)''))"

text \<open>
  \<^verbatim>\<open>read_super\<close> copies the whole structure from the disk. Where the compiler puts the fields that
  exist in memory only, and so what the copy leaves in them, is the argument \<open>rest\<close>.
\<close>

definition super_magic :: "16 word \<Rightarrow> (nat \<times> bool) option" where
  "super_magic magic =
     (if magic = SUPER_MAGIC \<or> magic = conv2h False SUPER_MAGIC then Some (1, magic = SUPER_MAGIC)
      else if magic = SUPER_V2 \<or> magic = conv2h False SUPER_V2 then Some (2, magic = SUPER_V2)
      else None)"

definition decode_super :: "(data \<Rightarrow> super_block \<Rightarrow> super_block) \<Rightarrow> data \<Rightarrow> super_block \<Rightarrow> super_block" where
  "decode_super rest d sp =
     (rest d sp)\<lparr>s_ninodes := get2 d 0, s_nzones := get2 d 2, s_imap_blocks := get2 d 4, s_zmap_blocks := get2 d 6, s_firstdatazone := get2 d 8,
        s_log_zone_size := get2 d 10, s_max_size := get4 d 12, s_magic := get2 d 16, s_zones := get4 d 20, s_dev := NO_DEV\<rparr>"

definition swap_super :: "bool \<Rightarrow> super_block \<Rightarrow> super_block" where
  "swap_super native sp =
     sp\<lparr>s_ninodes := conv2h native (s_ninodes sp), s_nzones := conv2h native (s_nzones sp), s_imap_blocks := conv2h native (s_imap_blocks sp),
        s_zmap_blocks := conv2h native (s_zmap_blocks sp), s_firstdatazone := conv2h native (s_firstdatazone sp),
        s_log_zone_size := conv2h native (s_log_zone_size sp), s_max_size := conv4 native (s_max_size sp), s_zones := conv4 native (s_zones sp)\<rparr>"

definition read_super :: "(nat \<Rightarrow> int) \<Rightarrow> (data \<Rightarrow> super_block \<Rightarrow> super_block) \<Rightarrow> nat \<Rightarrow> fs \<Rightarrow> (int \<times> fs) outcome option" where
  "read_super io rest i s =
     (let dev = s_dev (super_blocks s i) in
      and_then (get_block io dev SUPER_BLOCK NORMAL (fs_cache s))
        (\<lambda>(bp, c1).
           let sp = decode_super rest (b_data (buf c1 bp)) (super_blocks s i);
               s1 = s\<lparr>fs_cache := put_block io (Some bp) ZUPER_BLOCK c1\<rparr>
           in case super_magic (s_magic sp) of
                None \<Rightarrow> Some (Ret (EINVAL, upd_super i (\<lambda>_. sp) s1))
              | Some (version, native) \<Rightarrow>
                  let sp1 = swap_super native sp;
                      sp2 = (if version = 1
                             then sp1\<lparr>s_zones := ucast (s_nzones sp1), s_inodes_per_block := 32, s_ndzones := 7, s_nindirs := 512\<rparr>
                             else sp1\<lparr>s_inodes_per_block := 16, s_ndzones := 7, s_nindirs := 256\<rparr>);
                      sp3 = sp2\<lparr>s_isearch := 0, s_zsearch := 0, s_version := version, s_native := native\<rparr>
                  in if sint (s_imap_blocks sp3) < 1 \<or> sint (s_zmap_blocks sp3) < 1 \<or> unat (s_ninodes sp3) < 1 \<or> unat (s_zones sp3) < 1 \<or>
                        unat (scast (s_log_zone_size sp3) :: 32 word) > 4
                     then Some (Ret (EINVAL, upd_super i (\<lambda>_. sp3) s1))
                     else Some (Ret (OK, upd_super i (\<lambda>_. sp3\<lparr>s_dev := dev\<rparr>) s1))))"

section \<open>Zones\<close>

definition alloc_zone :: "(nat \<Rightarrow> int) \<Rightarrow> int \<Rightarrow> 32 word \<Rightarrow> fs \<Rightarrow> (32 word \<times> fs) outcome option" where
  "alloc_zone io dev z s =
     and_then (get_super dev s)
       (\<lambda>i. let sp = super_blocks s i;
                bit = (if z = ucast (s_firstdatazone sp) then s_zsearch sp else unat (z - (ucast (s_firstdatazone sp) - 1)))
            in and_then (alloc_bit io sp ZMAP bit (fs_cache s))
                 (\<lambda>(b, c1).
                    let s1 = s\<lparr>fs_cache := c1\<rparr>
                    in if b = NO_BIT then Some (Ret (NO_ZONE, s1\<lparr>err_code := ENOSPC\<rparr>))
                       else Some (Ret (ucast (s_firstdatazone sp) - 1 + word_of_nat b,
                              if z = ucast (s_firstdatazone sp) then upd_super i (s_zsearch_update (\<lambda>_. b)) s1 else s1))))"

definition free_zone :: "(nat \<Rightarrow> int) \<Rightarrow> int \<Rightarrow> 32 word \<Rightarrow> fs \<Rightarrow> fs outcome option" where
  "free_zone io dev numb s =
     and_then (get_super dev s)
       (\<lambda>i. let sp = super_blocks s i in
            if numb < ucast (s_firstdatazone sp) \<or> numb \<ge> s_zones sp then Some (Ret s)
            else
              let bit = unat (numb - (ucast (s_firstdatazone sp) - 1))
              in and_then (free_bit io sp ZMAP bit (fs_cache s))
                   (\<lambda>c1. Some (Ret (if bit < s_zsearch sp then upd_super i (s_zsearch_update (\<lambda>_. bit)) (s\<lparr>fs_cache := c1\<rparr>) else s\<lparr>fs_cache := c1\<rparr>))))"

section \<open>Conversions are permutations of bits\<close>

lemma and_masks: "w AND 0xFF = take_bit 8 w" "w AND 0xFFFF = take_bit 16 w" for w :: "32 word"
  by (simp_all add: take_bit_eq_mask mask_eq_exp_minus_1)

lemma bit_conv2: "bit (conv2 norm w) n \<longleftrightarrow> n < 16 \<and> bit w (if norm then n else (n + 8) mod 16)"
proof (cases norm)
  case True
  then show ?thesis unfolding conv2_def and_masks by (simp add: bit_take_bit_iff)
next
  case False
  consider "n < 8" | "8 \<le> n" "n < 16" | "16 \<le> n" by linarith
  then show ?thesis
  proof cases
    case 1
    then show ?thesis using False unfolding conv2_def and_masks
      by (simp add: bit_or_iff bit_take_bit_iff bit_push_bit_iff bit_signed_drop_bit_iff add.commute)
  next
    case 2
    then have "n - 8 < 8" "(n - 8 + 16) mod 16 = n - 8" "n - 8 + 16 = n + 8" using mod_mult_self4 [of 16 1 "n - 8"] by (simp_all add: add.commute)
    then have "(n + 8) mod 16 = n - 8" "n - 8 < 8" by simp_all
    then show ?thesis using False 2 unfolding conv2_def and_masks
      by (simp add: bit_or_iff bit_take_bit_iff bit_push_bit_iff bit_signed_drop_bit_iff)
  next
    case 3
    then have "\<not> n - 8 < 8" by linarith
    then show ?thesis using False 3 unfolding conv2_def and_masks
      by (simp add: bit_or_iff bit_take_bit_iff bit_push_bit_iff bit_signed_drop_bit_iff)
  qed
qed

lemma bit_conv2h: "bit (conv2h norm w) n \<longleftrightarrow> n < 16 \<and> bit w (if norm then n else (n + 8) mod 16)"
  by (auto simp: conv2h_def bit_ucast_iff bit_conv2)

lemma conv2h_inv [simp]: "conv2h norm (conv2h norm w) = w"
proof (rule bit_word_eqI)
  fix n assume "n < LENGTH(16)"
  then have n: "n < 16" by simp
  then have "((n + 8) mod 16 + 8) mod 16 = n" "(n + 8) mod 16 < 16" by (simp_all add: mod_simps)
  then show "bit (conv2h norm (conv2h norm w)) n = bit w n" using n by (simp add: bit_conv2h)
qed

lemma bit_swap4: "bit (conv4 False x) n \<longleftrightarrow> n < 16 \<and> bit x ((n + 8) mod 16 + 16) \<or> 16 \<le> n \<and> n < 32 \<and> bit x ((n - 16 + 8) mod 16)"
  unfolding conv4_def and_masks Let_def
  by (auto simp: bit_or_iff bit_push_bit_iff bit_conv2 bit_take_bit_iff bit_signed_drop_bit_iff add.commute dest: bit_imp_le_length)

lemma bit_conv4: "bit (conv4 norm x) n \<longleftrightarrow> n < 32 \<and> bit x (if norm then n else 24 - 8 * (n div 8) + n mod 8)"
proof (cases norm)
  case True
  then show ?thesis by (auto simp: conv4_def dest: bit_imp_le_length)
next
  case False
  define k where "k = n mod 8"
  have k: "k < 8" "n = 8 * (n div 8) + k" by (simp_all add: k_def)
  have m: "(k + 8) mod 16 = k + 8" "(k + 16) mod 16 = k" using k(1) mod_mult_self4 [of 16 1 k] by (simp_all add: add.commute)
  consider "n div 8 = 0" | "n div 8 = 1" | "n div 8 = 2" | "n div 8 = 3" | "n div 8 \<ge> 4" by linarith
  then show ?thesis
  proof cases
    case 1
    then have "n = k" using k by simp
    then show ?thesis using False m k(1) by (simp add: bit_swap4 add.commute)
  next
    case 2
    then have n: "n = 8 + k" "n div 8 = 1" "n mod 8 = k" using k by (simp_all add: k_def)
    have "(n + 8) mod 16 = k" using m(2) by (simp add: n(1) add.commute)
    then show ?thesis using False n k(1) by (simp add: bit_swap4 add.commute)
  next
    case 3
    then have n: "n = 16 + k" "n div 8 = 2" "n mod 8 = k" using k by (simp_all add: k_def)
    have "(n - 16 + 8) mod 16 = k + 8" using m(1) by (simp add: n(1))
    then show ?thesis using False n k(1) by (simp add: bit_swap4 add.commute)
  next
    case 4
    then have n: "n = 24 + k" "n div 8 = 3" "n mod 8 = k" using k by (simp_all add: k_def)
    have "(n - 16 + 8) mod 16 = k" using m(2) by (simp add: n(1) add.commute)
    then show ?thesis using False n k(1) by (simp add: bit_swap4 add.commute)
  next
    case 5
    then show ?thesis using k(2) by (auto dest: bit_imp_le_length)
  qed
qed

lemma conv4_inv [simp]: "conv4 norm (conv4 norm x) = x"
proof (rule bit_word_eqI)
  fix n assume "n < LENGTH(32)"
  then have n: "n div 8 \<le> 3" "n < 32" by simp_all
  define f where "f = (\<lambda>m :: nat. 24 - 8 * (m div 8) + m mod 8)"
  have fn: "f n = 8 * (3 - n div 8) + n mod 8" using n by (simp add: f_def)
  moreover have "n mod 8 < 8" by simp
  ultimately have "f n < 32" by linarith
  moreover have "f (f n) = 24 - 8 * (3 - n div 8) + n mod 8" unfolding fn unfolding f_def by simp
  moreover have "24 - 8 * (3 - n div 8) + n mod 8 = n" using n by (simp add: diff_mult_distrib2)
  ultimately have "f n < 32" "f (f n) = n" by simp_all
  moreover have "bit (conv4 norm y) m \<longleftrightarrow> m < 32 \<and> bit y (if norm then m else f m)" for y m by (simp add: bit_conv4 f_def)
  ultimately show "bit (conv4 norm (conv4 norm x)) n = bit x n" using n(2) by simp
qed

section \<open>Words in a block\<close>

lemma bit_get2: "bit (get2 d i) n \<longleftrightarrow> n < 16 \<and> (if n < 8 then bit (d (i + 1)) n else bit (d i) (n - 8))"
  by (auto simp: get2_def bit_or_iff bit_push_bit_iff bit_ucast_iff dest: bit_imp_le_length)

lemma get2_set2 [simp]: "get2 (set2 i w d) i = w"
  by (rule bit_word_eqI) (auto simp: bit_get2 set2_def bit_ucast_iff bit_drop_bit_eq)

lemma get2_set2_other: "j + 1 < i \<or> i + 1 < j \<Longrightarrow> get2 (set2 i w d) j = get2 d j"
  by (auto simp: get2_def set2_def)

lemma set2_get2 [simp]: "set2 i (get2 d i) d = d"
proof -
  have "ucast (drop_bit 8 (get2 d i)) = d i" "ucast (get2 d i) = d (i + 1)"
    by (rule bit_word_eqI, simp add: bit_ucast_iff bit_drop_bit_eq bit_get2)+
  then show ?thesis by (simp add: set2_def)
qed

lemma set2_set2 [simp]: "set2 i w (set2 i v d) = set2 i w d"
  by (auto simp: set2_def)

lemma get4_set4 [simp]: "get4 (set4 i w d) i = w"
proof -
  have "get2 (set4 i w d) i = ucast (drop_bit 16 w)" "get2 (set4 i w d) (i + 2) = ucast w"
    by (simp_all add: set4_def get2_set2_other)
  then show ?thesis by (intro bit_word_eqI) (auto simp: get4_def bit_or_iff bit_push_bit_iff bit_ucast_iff bit_drop_bit_eq)
qed

end
