(* ===== verification/Fs_Bitmap.thy ===== *)
theory Fs_Bitmap
  imports Fs_Super
begin

unbundle bit_operations_syntax

text \<open>
  The bit maps as sets: \<^verbatim>\<open>alloc_bit\<close> adds one element that was not there, \<^verbatim>\<open>free_bit\<close> removes the
  one it is told to, nothing else on any device changes, and \<^verbatim>\<open>alloc_bit\<close> fails only when the map is
  full. The proofs see the block cache through the contract of \<open>block_store\<close> only.
\<close>

section \<open>One block\<close>

definition chunk_bit :: "bool \<Rightarrow> data \<Rightarrow> nat \<Rightarrow> bool" where
  "chunk_bit native d n = bit (conv2h native (get2 d (2 * (n div 16)))) (n mod 16)"

definition put_bit :: "bool \<Rightarrow> nat \<Rightarrow> bool \<Rightarrow> data \<Rightarrow> data" where
  "put_bit native n v d =
     (let k = conv2h native (get2 d (2 * (n div 16)))
      in set2 (2 * (n div 16)) (conv2h native (if v then k OR flag (n mod 16) else k AND NOT (flag (n mod 16)))) d)"

lemma chunk_bit_put: "chunk_bit native (put_bit native n v d) m = (if m = n then v else chunk_bit native d m)"
proof (cases "m div 16 = n div 16")
  case True
  then have "m = n \<longleftrightarrow> m mod 16 = n mod 16" by (metis div_mult_mod_eq)
  then show ?thesis using True by (auto simp: chunk_bit_def put_bit_def Let_def bit_or_iff bit_and_iff bit_not_iff)
next
  case False
  then have "2 * (m div 16) + 1 < 2 * (n div 16) \<or> 2 * (n div 16) + 1 < 2 * (m div 16)" by linarith
  then show ?thesis using False by (auto simp: chunk_bit_def put_bit_def Let_def get2_set2_other)
qed

text \<open>Clearing a bit that was just set gives the same bytes again.\<close>

lemma put_bit_undo:
  assumes "\<not> chunk_bit native d n" shows "put_bit native n False (put_bit native n True d) = d"
proof -
  let ?k = "conv2h native (get2 d (2 * (n div 16)))"
  have "(?k OR flag (n mod 16)) AND NOT (flag (n mod 16)) = ?k"
    using assms by (intro bit_word_eqI) (auto simp: chunk_bit_def bit_or_iff bit_and_iff bit_not_iff)
  then show ?thesis by (simp add: put_bit_def Let_def)
qed

lemma first_zero_props: "\<not> bit k (first_zero k i) \<and> i \<le> first_zero k i \<and> (\<forall>j. i \<le> j \<longrightarrow> j < first_zero k i \<longrightarrow> bit k j)"
proof (induction k i rule: first_zero.induct)
  case (1 k i)
  show ?case
  proof (cases "bit k i")
    case True
    have e: "first_zero k i = first_zero k (i + 1)" using True by (subst first_zero.simps) simp
    have "bit k j" if "i \<le> j" "j < first_zero k (i + 1)" for j
      using 1 [OF True] True that by (cases "j = i") auto
    then show ?thesis using 1 [OF True] by (auto simp: e)
  next
    case False
    then have "first_zero k i = i" by (subst first_zero.simps) simp
    then show ?thesis using False by simp
  qed
qed

lemma first_zero_less: "k \<noteq> - 1 \<Longrightarrow> first_zero k 0 < 16"
proof -
  assume "k \<noteq> - 1"
  then obtain n where n: "n < 16" "\<not> bit k n" by (auto simp: bit_eq_iff)
  then have "\<not> n < first_zero k 0" using first_zero_props [of k 0] by blast
  then show ?thesis using n(1) by simp
qed

lemma conv2h_full: "conv2h native w = - 1 \<longleftrightarrow> w = - 1"
proof
  assume "conv2h native w = - 1"
  then have "conv2h native (conv2h native w) = conv2h native (- 1)" by simp
  moreover have "conv2h native (- 1) = - 1" by (rule bit_word_eqI) (simp add: bit_conv2h)
  ultimately show "w = - 1" by simp
next
  assume "w = - 1"
  then show "conv2h native w = - 1" by (intro bit_word_eqI) (simp add: bit_conv2h)
qed

lemma block_sizes: "BITS_PER_BLOCK = 8192" "BITMAP_CHUNKS = 512" "BITCHUNK_BITS = 16"
  by (simp_all add: BITS_PER_BLOCK_def BITMAP_CHUNKS_def BITCHUNK_BITS_def)

lemma scan_words_None:
  "scan_words native limit block d w = None \<Longrightarrow> n < 8192 \<Longrightarrow> w * 16 \<le> n \<Longrightarrow> block * 8192 + n < limit \<Longrightarrow> chunk_bit native d n"
proof (induction native limit block d w rule: scan_words.induct)
  case (1 native limit block d w)
  have w: "\<not> w \<ge> BITMAP_CHUNKS" using "1.prems" by (simp add: block_sizes)
  show ?case
  proof (cases "get2 d (2 * w) = - 1")
    case full: True
    show ?thesis
    proof (cases "n div 16 = w")
      case True
      have "conv2h native (get2 d (2 * (n div 16))) = - 1" using full True by (simp add: conv2h_full)
      then show ?thesis by (simp add: chunk_bit_def)
    next
      case False
      moreover have "w \<le> n div 16" using "1.prems"(3) by (simp add: less_eq_div_iff_mult_less_eq)
      ultimately have "(w + 1) * 16 \<le> n" by (simp add: less_eq_div_iff_mult_less_eq [symmetric])
      moreover have "scan_words native limit block d (w + 1) = None" using "1.prems"(1) w full by (subst (asm) scan_words.simps) simp
      ultimately show ?thesis using 1(1) [OF w full] "1.prems" by blast
    qed
  next
    case False
    let ?k = "conv2h native (get2 d (2 * w))"
    have out: "limit \<le> block * 8192 + w * 16 + first_zero ?k 0"
      using "1.prems"(1) w False by (subst (asm) scan_words.simps) (auto simp: Let_def block_sizes split: if_splits)
    have fz: "first_zero ?k 0 < 16" by (rule first_zero_less) (simp add: conv2h_full False)
    have lt: "n < w * 16 + first_zero ?k 0" using out "1.prems"(4) by linarith
    obtain r where r: "n = w * 16 + r" using "1.prems"(3) le_Suc_ex by blast
    then have "n div 16 = w" "n mod 16 < first_zero ?k 0" using lt fz by simp_all
    then show ?thesis using first_zero_props [of ?k 0] by (simp add: chunk_bit_def)
  qed
qed

lemma scan_words_Some:
  "scan_words native limit block d w = Some (b, d') \<Longrightarrow>
     \<exists>n. b = block * 8192 + n \<and> n < 8192 \<and> w * 16 \<le> n \<and> b < limit \<and> \<not> chunk_bit native d n \<and> d' = put_bit native n True d"
proof (induction native limit block d w rule: scan_words.induct)
  case (1 native limit block d w)
  have w: "\<not> w \<ge> BITMAP_CHUNKS" using "1.prems" by (subst (asm) scan_words.simps) (auto split: if_splits)
  show ?case
  proof (cases "get2 d (2 * w) = - 1")
    case True
    then have "scan_words native limit block d (w + 1) = Some (b, d')" using "1.prems" w by (subst (asm) scan_words.simps) simp
    then obtain n where "b = block * 8192 + n" "n < 8192" "(w + 1) * 16 \<le> n" "b < limit" "\<not> chunk_bit native d n" "d' = put_bit native n True d"
      using 1(1) [OF w True] by blast
    then show ?thesis by (intro exI [of _ n]) auto
  next
    case False
    let ?k = "conv2h native (get2 d (2 * w))" and ?n = "w * 16 + first_zero (conv2h native (get2 d (2 * w))) 0"
    have fz: "first_zero ?k 0 < 16" by (rule first_zero_less) (simp add: conv2h_full False)
    then have n: "?n div 16 = w" "?n mod 16 = first_zero ?k 0" by simp_all
    have "b = block * 8192 + ?n" "b < limit" "d' = set2 (2 * w) (conv2h native (?k OR flag (first_zero ?k 0))) d"
      using "1.prems" w False by (subst (asm) scan_words.simps; auto simp: Let_def block_sizes split: if_splits)+
    moreover have "?n < 8192" using w fz by (simp add: block_sizes)
    ultimately show ?thesis using first_zero_props [of ?k 0] n
      by (intro exI [of _ ?n]) (simp add: chunk_bit_def put_bit_def Let_def)
  qed
qed

section \<open>Transactions on the cache\<close>

text \<open>\<open>moved c c' V\<close>: from \<open>c\<close> to \<open>c'\<close> no buffer was taken or given up and the blocks are now \<open>V\<close>.\<close>

definition moved :: "cache \<Rightarrow> cache \<Rightarrow> (int \<Rightarrow> nat \<Rightarrow> data) \<Rightarrow> bool" where
  "moved c c' V \<longleftrightarrow> store_inv c' \<and> usable c' = usable c \<and> (\<lambda>i. b_count (buf c' i)) = (\<lambda>i. b_count (buf c i)) \<and>
     (\<forall>d b. usable c d \<longrightarrow> view c' d b = V d b) \<and> (\<forall>d b i. in_use c d b i \<longrightarrow> in_use c' d b i)"

definition ready :: "(nat \<Rightarrow> int) \<Rightarrow> int \<Rightarrow> cache \<Rightarrow> bool" where
  "ready io d c \<longleftrightarrow> sound io \<and> store_inv c \<and> usable c d \<and> has_room c"

definition set_view :: "int \<Rightarrow> nat \<Rightarrow> data \<Rightarrow> (int \<Rightarrow> nat \<Rightarrow> data) \<Rightarrow> int \<Rightarrow> nat \<Rightarrow> data" where
  "set_view d b v V = V(d := (V d)(b := v))"

lemma moved_ready: "moved c c' V \<Longrightarrow> ready io d c \<Longrightarrow> ready io d c'"
  using store.room_law [of c' c] by (simp add: moved_def ready_def)

lemma moved_trans:
  assumes "moved c c1 V1" "moved c1 c2 V2" shows "moved c c2 V2"
  using assms by (auto simp: moved_def)

lemma moved_cong: "moved c c' V \<Longrightarrow> (\<And>d b. usable c d \<Longrightarrow> V d b = W d b) \<Longrightarrow> moved c c' W"
  by (simp add: moved_def)

lemma transaction:
  assumes r: "ready io d c"
  obtains i c' where "get_block io d b NORMAL c = Some (Ret (i, c'))" "b_data (buf c' i) = view c d b"
    "\<And>t. moved c (put_block io (Some i) t c') (view c)"
    "\<And>t v. moved c (put_block io (Some i) t (set_block i v c')) (set_view d b v (view c))"
proof -
  have a: "sound io \<and> store_inv c" "usable c d" "has_room c" using r by (auto simp: ready_def)
  obtain i c' where g: "get_block io d b NORMAL c = Some (Ret (i, c'))" "b_data (buf c' i) = view c d b"
    using store.read_transaction [OF a, of b] by metis
  have "moved c (put_block io (Some i) t c') (view c)" for t
    by (rule store.read_transaction [OF a, of b t]) (use g(1) in \<open>auto simp: moved_def\<close>)
  moreover have "moved c (put_block io (Some i) t (set_block i v c')) (set_view d b v (view c))" for t v
  proof (rule store.write_transaction [OF a, of b t])
    fix j c1 assume "get_block io d b NORMAL c = Some (Ret (j, c1))"
      and w: "\<And>v. (sound io \<and> store_inv (put_block io (Some j) t (set_block j v c1))) \<and>
        usable (put_block io (Some j) t (set_block j v c1)) = usable c \<and>
        (\<lambda>i. b_count (buf (put_block io (Some j) t (set_block j v c1)) i)) = (\<lambda>i. b_count (buf c i)) \<and>
        (\<forall>d' b'. usable c d' \<longrightarrow> view (put_block io (Some j) t (set_block j v c1)) d' b' = (if (d', b') = (d, b) then v else view c d' b')) \<and>
        (\<forall>d b i. in_use c d b i \<longrightarrow> in_use (put_block io (Some j) t (set_block j v c1)) d b i)"
    then have "j = i" "c1 = c'" using g(1) by simp_all
    then show ?thesis using w [of v] by (simp add: moved_def set_view_def)
  qed
  ultimately show thesis using that g by blast
qed

section \<open>The map as a set\<close>

definition map_block :: "super_block \<Rightarrow> map_kind \<Rightarrow> nat \<Rightarrow> nat" where
  "map_block sp m n = start_block sp m + n div 8192"

definition marked :: "super_block \<Rightarrow> map_kind \<Rightarrow> (int \<Rightarrow> nat \<Rightarrow> data) \<Rightarrow> nat \<Rightarrow> bool" where
  "marked sp m V n = chunk_bit (s_native sp) (V (s_dev sp) (map_block sp m n)) (n mod 8192)"

definition set_map :: "super_block \<Rightarrow> map_kind \<Rightarrow> nat \<Rightarrow> bool \<Rightarrow> (int \<Rightarrow> nat \<Rightarrow> data) \<Rightarrow> int \<Rightarrow> nat \<Rightarrow> data" where
  "set_map sp m n v V = set_view (s_dev sp) (map_block sp m n) (put_bit (s_native sp) (n mod 8192) v (V (s_dev sp) (map_block sp m n))) V"

lemma marked_set_map: "marked sp m (set_map sp m n v V) k = (if k = n then v else marked sp m V k)"
proof (cases "map_block sp m k = map_block sp m n")
  case True
  then have "k = n \<longleftrightarrow> k mod 8192 = n mod 8192" by (metis add_left_cancel div_mult_mod_eq map_block_def)
  then show ?thesis using True by (simp add: marked_def set_map_def set_view_def chunk_bit_put)
next
  case False
  then show ?thesis by (auto simp: marked_def set_map_def set_view_def)
qed

lemma set_map_undo: "\<not> marked sp m V n \<Longrightarrow> set_map sp m n False (set_map sp m n True V) = V"
  by (simp add: set_map_def set_view_def marked_def put_bit_undo)

lemma set_map_cong:
  "(\<And>b. V (s_dev sp) b = W (s_dev sp) b) \<Longrightarrow> V d b = W d b \<Longrightarrow> set_map sp m n v V d b = set_map sp m n v W d b"
  by (auto simp: set_map_def set_view_def)

lemma marked_cong: "(\<And>b. V (s_dev sp) b = W (s_dev sp) b) \<Longrightarrow> marked sp m V n = marked sp m W n"
  by (simp add: marked_def)

section \<open>Allocation\<close>

definition covered :: "nat \<Rightarrow> nat \<Rightarrow> nat \<Rightarrow> nat \<Rightarrow> nat \<Rightarrow> bool" where
  "covered N block word k n \<longleftrightarrow> (k > 0 \<and> n div 8192 = block \<and> word * 16 \<le> n mod 8192) \<or> (\<exists>j. 0 < j \<and> j < k \<and> n div 8192 = (block + j) mod N)"

lemma covered_Suc:
  assumes "block < N" "covered N block word (Suc k) n"
  shows "(n div 8192 = block \<and> word * 16 \<le> n mod 8192) \<or> covered N ((block + 1) mod N) 0 k n"
proof -
  consider "n div 8192 = block \<and> word * 16 \<le> n mod 8192" | j where "0 < j" "j < Suc k" "n div 8192 = (block + j) mod N"
    using assms(2) by (auto simp: covered_def)
  then show ?thesis
  proof cases
    case 2
    have "((block + 1) mod N + (j - 1)) mod N = (block + 1 + (j - 1)) mod N" by (rule mod_add_left_eq)
    then have e: "n div 8192 = ((block + 1) mod N + (j - 1)) mod N" using 2 by simp
    show ?thesis
    proof (cases "j = 1")
      case True
      then show ?thesis using e 2 by (auto simp: covered_def)
    next
      case False
      then have "0 < j - 1 \<and> j - 1 < k" using 2 by auto
      then show ?thesis using e unfolding covered_def by blast
    qed
  qed blast
qed

lemma next_block: "block < N \<Longrightarrow> (if block + 1 \<ge> N then 0 else block + 1) = (block + 1) mod N" for N :: nat
  by (cases "block + 1 = N") auto

lemma alloc_bit_loop_result:
  assumes "ready io (s_dev sp) c" "block < bit_blocks sp m"
  shows "\<exists>b c'. alloc_bit_loop io sp m block word k c = Some (Ret (b, c')) \<and>
    (b < map_bits sp m \<and> b < bit_blocks sp m * 8192 \<and> \<not> marked sp m (view c) b \<and> moved c c' (set_map sp m b True (view c)) \<or>
     b = NO_BIT \<and> moved c c' (view c) \<and> (\<forall>n < map_bits sp m. covered (bit_blocks sp m) block word k n \<longrightarrow> marked sp m (view c) n))"
  using assms
proof (induction k arbitrary: block word c)
  case 0
  have "moved c c (view c)" using 0 by (simp add: moved_def ready_def)
  then show ?case by (auto simp: covered_def)
next
  case (Suc k)
  let ?d = "s_dev sp" and ?b = "start_block sp m + block" and ?N = "bit_blocks sp m"
  obtain i c' where g: "get_block io ?d ?b NORMAL c = Some (Ret (i, c'))" "b_data (buf c' i) = view c ?d ?b"
    "\<And>t. moved c (put_block io (Some i) t c') (view c)"
    "\<And>t v. moved c (put_block io (Some i) t (set_block i v c')) (set_view ?d ?b v (view c))"
    by (rule transaction [OF Suc.prems(1)]) blast
  show ?case
  proof (cases "scan_words (s_native sp) (map_bits sp m) block (b_data (buf c' i)) word")
    case (Some r)
    obtain b d where r: "r = (b, d)" by (cases r)
    obtain n where n: "b = block * 8192 + n" "n < 8192" "b < map_bits sp m" "\<not> chunk_bit (s_native sp) (view c ?d ?b) n"
      "d = put_bit (s_native sp) n True (view c ?d ?b)"
      using scan_words_Some [OF Some [unfolded r]] g(2) by auto
    have mb: "map_block sp m b = ?b" "b mod 8192 = n" using n by (simp_all add: map_block_def)
    have "set_view ?d ?b d (view c) = set_map sp m b True (view c)" using n mb by (simp add: set_map_def)
    then have "moved c (put_block io (Some i) MAP_BLOCK (set_block i d c')) (set_map sp m b True (view c))" using g(4) [of MAP_BLOCK d] by simp
    moreover have "\<not> marked sp m (view c) b" using n(4) mb by (simp add: marked_def)
    moreover have "b < ?N * 8192"
    proof -
      have "(block + 1) * 8192 \<le> ?N * 8192" using Suc.prems(2) by (intro mult_le_mono1) simp
      then show ?thesis using n(1,2) by simp
    qed
    ultimately show ?thesis using g(1) Some r n(3) by simp
  next
    case None
    define c1 where "c1 = put_block io (Some i) MAP_BLOCK c'"
    have m1: "moved c c1 (view c)" unfolding c1_def by (rule g(3))
    have vw: "view c1 ?d b = view c ?d b" for b using m1 Suc.prems(1) by (simp add: moved_def ready_def)
    let ?next = "(block + 1) mod ?N"
    have "?next < ?N" using Suc.prems(2) by simp
    then obtain b c2 where r: "alloc_bit_loop io sp m ?next 0 k c1 = Some (Ret (b, c2))"
      "b < map_bits sp m \<and> b < ?N * 8192 \<and> \<not> marked sp m (view c1) b \<and> moved c1 c2 (set_map sp m b True (view c1)) \<or>
       b = NO_BIT \<and> moved c1 c2 (view c1) \<and> (\<forall>n < map_bits sp m. covered ?N ?next 0 k n \<longrightarrow> marked sp m (view c1) n)"
      using Suc.IH [OF moved_ready [OF m1 Suc.prems(1)], of ?next 0] by blast
    have e: "alloc_bit_loop io sp m block word (Suc k) c = Some (Ret (b, c2))"
      using g(1) None r(1) next_block [OF Suc.prems(2)] by (simp add: c1_def)
    have mk: "marked sp m (view c1) n = marked sp m (view c) n" for n by (rule marked_cong) (rule vw)
    have vu: "usable c d \<Longrightarrow> view c1 d b = view c d b" for d b using m1 by (simp add: moved_def)
    from r(2) show ?thesis
    proof
      assume f: "b < map_bits sp m \<and> b < ?N * 8192 \<and> \<not> marked sp m (view c1) b \<and> moved c1 c2 (set_map sp m b True (view c1))"
      have "moved c c2 (set_map sp m b True (view c))"
      proof (rule moved_cong)
        show "moved c c2 (set_map sp m b True (view c1))" using moved_trans [OF m1] f by blast
        show "set_map sp m b True (view c1) d b' = set_map sp m b True (view c) d b'" if "usable c d" for d b'
          by (rule set_map_cong) (simp_all add: vw vu that)
      qed
      then show ?thesis using e f mk by blast
    next
      assume f: "b = NO_BIT \<and> moved c1 c2 (view c1) \<and> (\<forall>n < map_bits sp m. covered ?N ?next 0 k n \<longrightarrow> marked sp m (view c1) n)"
      then have "moved c c2 (view c1)" using moved_trans [OF m1] by blast
      then have "moved c c2 (view c)" by (rule moved_cong) (rule vu)
      moreover have "marked sp m (view c) n" if n: "n < map_bits sp m" "covered ?N block word (Suc k) n" for n
      proof (cases "covered ?N ?next 0 k n")
        case True
        then show ?thesis using f n(1) mk by blast
      next
        case False
        then have h: "n div 8192 = block" "word * 16 \<le> n mod 8192" using covered_Suc [OF Suc.prems(2) n(2)] by auto
        have "block * 8192 + n mod 8192 = n" using h(1) by (metis div_mult_mod_eq)
        then show ?thesis using scan_words_None [OF None, of "n mod 8192"] h n(1) g(2) by (simp add: marked_def map_block_def)
      qed
      ultimately show ?thesis using e f by blast
    qed
  qed
qed

lemma all_covered:
  assumes "block < N" "n < N * 8192" shows "covered N block word (N + 1) n"
proof -
  let ?x = "n div 8192"
  have x: "?x < N" using assms(2) by (simp add: less_mult_imp_div_less)
  define j where "j = (if ?x > block then ?x - block else ?x + N - block)"
  have "(block + j) mod N = ?x"
  proof (cases "?x > block")
    case True
    then show ?thesis using x by (simp add: j_def)
  next
    case False
    then have "block + j = ?x + N" using assms(1) by (simp add: j_def)
    then show ?thesis using x by simp
  qed
  moreover have "0 < j" "j < N + 1" using x assms(1) by (auto simp: j_def)
  ultimately show ?thesis unfolding covered_def by metis
qed

definition map_ok :: "super_block \<Rightarrow> map_kind \<Rightarrow> bool" where
  "map_ok sp m \<longleftrightarrow> 0 < bit_blocks sp m \<and> map_bits sp m \<le> bit_blocks sp m * 8192"

lemma alloc_bit_result:
  assumes r: "ready io (s_dev sp) c" and ok: "map_ok sp m" and rw: "\<not> s_rd_only sp"
  shows "\<exists>b c'. alloc_bit io sp m origin c = Some (Ret (b, c')) \<and>
    (if \<forall>n < map_bits sp m. marked sp m (view c) n then b = NO_BIT \<and> moved c c' (view c)
     else b < map_bits sp m \<and> \<not> marked sp m (view c) b \<and> moved c c' (set_map sp m b True (view c)))"
proof -
  let ?o = "if origin \<ge> map_bits sp m then 0 else origin"
  have lt: "?o div 8192 < bit_blocks sp m"
  proof (rule less_mult_imp_div_less)
    show "?o < bit_blocks sp m * 8192" using ok by (auto simp: map_ok_def)
  qed
  from alloc_bit_loop_result [OF r lt, of "?o mod 8192 div 16" "bit_blocks sp m + 1"]
  obtain b c' where e: "alloc_bit_loop io sp m (?o div 8192) (?o mod 8192 div 16) (bit_blocks sp m + 1) c = Some (Ret (b, c'))"
    and res: "b < map_bits sp m \<and> b < bit_blocks sp m * 8192 \<and> \<not> marked sp m (view c) b \<and> moved c c' (set_map sp m b True (view c)) \<or>
      b = NO_BIT \<and> moved c c' (view c) \<and>
      (\<forall>n < map_bits sp m. covered (bit_blocks sp m) (?o div 8192) (?o mod 8192 div 16) (bit_blocks sp m + 1) n \<longrightarrow> marked sp m (view c) n)"
    by blast
  have "alloc_bit io sp m origin c = Some (Ret (b, c'))" using e rw by (simp add: alloc_bit_def block_sizes Let_def)
  moreover have "covered (bit_blocks sp m) (?o div 8192) (?o mod 8192 div 16) (bit_blocks sp m + 1) n" if "n < map_bits sp m" for n
    by (rule all_covered [OF lt]) (use that ok in \<open>auto simp: map_ok_def\<close>)
  ultimately show ?thesis using res by (intro exI [of _ b] exI [of _ c']) auto
qed

lemma free_bit_result:
  assumes r: "ready io (s_dev sp) c" and rw: "\<not> s_rd_only sp"
  shows "if marked sp m (view c) n then \<exists>c'. free_bit io sp m n c = Some (Ret c') \<and> moved c c' (set_map sp m n False (view c))
    else free_bit io sp m n c = Some (Panic (if m = IMAP then ''tried to free unused inode'' else ''tried to free unused block''))"
proof -
  let ?d = "s_dev sp" and ?b = "map_block sp m n"
  obtain i c' where g: "get_block io ?d ?b NORMAL c = Some (Ret (i, c'))" "b_data (buf c' i) = view c ?d ?b"
    "\<And>t v. moved c (put_block io (Some i) t (set_block i v c')) (set_view ?d ?b v (view c))"
    by (rule transaction [OF r]) blast
  have md: "n mod 8192 mod 16 = n mod 16" by (simp add: mod_mod_cancel)
  let ?k = "conv2h (s_native sp) (get2 (view c ?d ?b) (2 * (n mod 8192 div 16)))"
  have mk: "marked sp m (view c) n = has ?k (flag (n mod 16))" by (simp add: marked_def chunk_bit_def has_flag md)
  have pb: "set2 (2 * (n mod 8192 div 16)) (conv2h (s_native sp) (?k AND NOT (flag (n mod 16)))) (view c ?d ?b) =
      put_bit (s_native sp) (n mod 8192) False (view c ?d ?b)" by (simp add: put_bit_def Let_def md)
  have "free_bit io sp m n c = (if \<not> has ?k (flag (n mod 16)) then Some (Panic (if m = IMAP then ''tried to free unused inode'' else ''tried to free unused block''))
      else Some (Ret (put_block io (Some i) MAP_BLOCK (set_block i (put_bit (s_native sp) (n mod 8192) False (view c ?d ?b)) c'))))"
    using g(1,2) rw pb by (simp add: free_bit_def block_sizes Let_def map_block_def)
  then show ?thesis using mk g(3) by (simp add: set_map_def)
qed

section \<open>Properties of the maps\<close>

text \<open>A file system for the witnesses: 31 inodes, 100 zones, the first data zone is 5, all bytes are 1.\<close>

definition sample_super :: super_block where
  "sample_super = \<lparr>s_ninodes = 31, s_nzones = 100, s_imap_blocks = 1, s_zmap_blocks = 1, s_firstdatazone = 5, s_log_zone_size = 0, s_max_size = 0x7FFFFFFF,
     s_magic = SUPER_V2, s_zones = 100, s_isup = None, s_imount = None, s_inodes_per_block = 16, s_dev = 768, s_rd_only = False, s_native = True, s_version = 2,
     s_ndzones = 7, s_nindirs = 256, s_isearch = 0, s_zsearch = 0\<rparr>"

definition sample_cache :: cache where
  "sample_cache = start 0 (\<lambda>_ _ _. 1)"

lemma sample_ready: "ready good_io 768 sample_cache"
  using start_inv [where n = 0 and D = "\<lambda>_ _ _. 1"] start_room [of 0 "\<lambda>_ _ _. 1"] good_io_sound
  by (simp add: ready_def sample_cache_def store_inv_def usable_def NO_DEV_def DEV_RAM_def)

lemma sample_sizes: "bit_blocks sample_super m = 1" "map_bits sample_super IMAP = 32" "map_bits sample_super ZMAP = 96" "s_dev sample_super = 768"
  "\<not> s_rd_only sample_super" "s_native sample_super" "start_block sample_super IMAP = 2" "start_block sample_super ZMAP = 3"
  by (simp_all add: sample_super_def bit_blocks_def map_bits_def start_block_def SUPER_BLOCK_def split: map_kind.split)

lemma sample_map_ok: "map_ok sample_super m"
  by (cases m) (simp_all add: map_ok_def sample_sizes)

lemma sample_marked: "marked sample_super m (view sample_cache) n \<longleftrightarrow> n mod 8 = 0"
proof -
  have v: "view sample_cache 768 b = (\<lambda>_. 1)" for b using start_inv(2) [of 768 0 "\<lambda>_ _ _. 1" b] by (simp add: sample_cache_def NO_DEV_def)
  have "get2 (\<lambda>_. 1) j = 0x101" for j by (simp add: get2_def push_bit_eq_mult)
  then have "marked sample_super m (view sample_cache) n \<longleftrightarrow> bit (0x101 :: 16 word) (n mod 8192 mod 16)"
    by (simp add: marked_def sample_sizes v chunk_bit_def bit_conv2h)
  also have "\<dots> \<longleftrightarrow> n mod 8192 mod 16 = 0 \<or> n mod 8192 mod 16 = 8"
  proof -
    have e: "(0x101 :: 16 word) = flag 0 OR flag 8" by (simp add: flag_def push_bit_eq_mult)
    show ?thesis unfolding e bit_or_iff bit_flag by simp
  qed
  also have "\<dots> \<longleftrightarrow> n mod 8 = 0"
  proof -
    have e: "n mod 8192 mod 16 = n mod 16" by (simp add: mod_mod_cancel)
    have "n mod 16 mod 8 = n mod 8" by (simp add: mod_mod_cancel)
    moreover have "m = 0 \<or> m = 8 \<longleftrightarrow> m mod 8 = 0" if "m < 16" for m :: nat
    proof
      assume "m mod 8 = 0"
      then obtain k where "m = 8 * k" by blast
      then show "m = 0 \<or> m = 8" using that by (cases k) auto
    qed auto
    ultimately show ?thesis unfolding e by (metis mod_less_divisor zero_less_numeral)
  qed
  finally show ?thesis .
qed

text \<open>
  (C27) \<^verbatim>\<open>alloc_bit\<close> searches the whole map from any origin: with bit 0 taken, as \<^verbatim>\<open>mkfs\<close> leaves it, it
  returns \<^verbatim>\<open>NO_BIT\<close> exactly if every bit below the size of the map is set, and then nothing has
  changed. Otherwise it returns the number of a bit below the size of the map that was clear, and
  exactly this bit is now set: all other bits of the map, all other blocks of all devices and the
  use of the buffers are as before. It never panics or runs out of blocks to look at.
\<close>

theorem alloc_bit_finds_free:
  assumes "ready io (s_dev sp) c" "map_ok sp m" "\<not> s_rd_only sp" "marked sp m (view c) 0"
  shows "\<exists>b c'. alloc_bit io sp m origin c = Some (Ret (b, c')) \<and>
    (b = NO_BIT \<longleftrightarrow> (\<forall>n < map_bits sp m. marked sp m (view c) n)) \<and>
    (b = NO_BIT \<longrightarrow> moved c c' (view c)) \<and>
    (b \<noteq> NO_BIT \<longrightarrow> b < map_bits sp m \<and> \<not> marked sp m (view c) b \<and> moved c c' (set_map sp m b True (view c)) \<and>
       (\<forall>n. marked sp m (set_map sp m b True (view c)) n = (n = b \<or> marked sp m (view c) n)))"
proof -
  obtain b c' where r: "alloc_bit io sp m origin c = Some (Ret (b, c'))"
    "if \<forall>n < map_bits sp m. marked sp m (view c) n then b = NO_BIT \<and> moved c c' (view c)
     else b < map_bits sp m \<and> \<not> marked sp m (view c) b \<and> moved c c' (set_map sp m b True (view c))"
    using alloc_bit_result [OF assms(1-3)] by blast
  have "b \<noteq> NO_BIT" if "\<not> marked sp m (view c) b"
  proof
    assume "b = NO_BIT"
    then have "b = 0" by (simp add: NO_BIT_def)
    then show False using that assms(4) by simp
  qed
  then show ?thesis using r by (intro exI [of _ b] exI [of _ c']) (auto simp: marked_set_map split: if_splits)
qed

theorem alloc_bit_finds_free_witness:
  "\<exists>b c'. alloc_bit good_io sample_super IMAP 20 sample_cache = Some (Ret (b, c')) \<and> b < 32 \<and> b mod 8 \<noteq> 0 \<and>
     moved sample_cache c' (set_map sample_super IMAP b True (view sample_cache))"
proof -
  have "\<not> (\<forall>n < map_bits sample_super IMAP. marked sample_super IMAP (view sample_cache) n)"
    by (auto simp: sample_marked sample_sizes intro!: exI [of _ 1])
  moreover have "ready good_io (s_dev sample_super) sample_cache" "marked sample_super IMAP (view sample_cache) 0"
    using sample_ready by (simp_all add: sample_sizes sample_marked)
  ultimately show ?thesis using alloc_bit_finds_free [of good_io sample_super sample_cache IMAP 20] sample_map_ok [of IMAP]
    by (auto simp: sample_sizes sample_marked)
qed

text \<open>
  \<^verbatim>\<open>free_bit\<close> undoes \<^verbatim>\<open>alloc_bit\<close>: freeing the bit just allocated succeeds, and afterwards every
  block of every device has the bytes it had before the allocation, whatever the byte order of the
  file system.
\<close>

theorem alloc_free_bit_roundtrip:
  assumes "ready io (s_dev sp) c" "map_ok sp m" "\<not> s_rd_only sp" "marked sp m (view c) 0"
    and "alloc_bit io sp m origin c = Some (Ret (b, c1))" "b \<noteq> NO_BIT"
  shows "\<exists>c2. free_bit io sp m b c1 = Some (Ret c2) \<and> moved c c2 (view c)"
proof -
  have f: "\<not> marked sp m (view c) b" "moved c c1 (set_map sp m b True (view c))"
    using alloc_bit_result [OF assms(1-3), of origin] assms(5,6) by (auto split: if_splits)
  have us: "usable c (s_dev sp)" using assms(1) by (simp add: ready_def)
  have v1: "view c1 d b' = set_map sp m b True (view c) d b'" if "usable c d" for d b' using f(2) that by (simp add: moved_def)
  have "marked sp m (view c1) b = marked sp m (set_map sp m b True (view c)) b" by (rule marked_cong) (rule v1 [OF us])
  then have "marked sp m (view c1) b" by (simp add: marked_set_map)
  then obtain c2 where c2: "free_bit io sp m b c1 = Some (Ret c2)" "moved c1 c2 (set_map sp m b False (view c1))"
    using free_bit_result [OF moved_ready [OF f(2) assms(1)] assms(3), of m b] by auto
  have "moved c c2 (view c)"
  proof (rule moved_cong [OF moved_trans [OF f(2) c2(2)]])
    fix d b' assume d: "usable c d"
    have "set_map sp m b False (view c1) d b' = set_map sp m b False (set_map sp m b True (view c)) d b'"
      by (rule set_map_cong) (simp_all add: v1 us d)
    then show "set_map sp m b False (view c1) d b' = view c d b'" using set_map_undo [OF f(1)] by simp
  qed
  then show ?thesis using c2(1) by blast
qed

lemma sample_alloc: "\<exists>b c'. alloc_bit good_io sample_super IMAP 20 sample_cache = Some (Ret (b, c')) \<and> b \<noteq> NO_BIT"
proof -
  have ne: "\<not> (\<forall>n < map_bits sample_super IMAP. marked sample_super IMAP (view sample_cache) n)"
    by (auto simp: sample_marked sample_sizes intro!: exI [of _ 1])
  have "ready good_io (s_dev sample_super) sample_cache" using sample_ready by (simp add: sample_sizes)
  from alloc_bit_result [OF this sample_map_ok [of IMAP] sample_sizes(5), of 20] ne
  obtain b c' where "alloc_bit good_io sample_super IMAP 20 sample_cache = Some (Ret (b, c'))" "\<not> marked sample_super IMAP (view sample_cache) b" by auto
  moreover have "b \<noteq> NO_BIT" using calculation(2) by (auto simp: sample_marked NO_BIT_def)
  ultimately show ?thesis by blast
qed

theorem alloc_free_bit_roundtrip_witness:
  "\<exists>b c1 c2. alloc_bit good_io sample_super IMAP 20 sample_cache = Some (Ret (b, c1)) \<and> b \<noteq> NO_BIT \<and>
     free_bit good_io sample_super IMAP b c1 = Some (Ret c2) \<and> moved sample_cache c2 (view sample_cache)"
proof -
  obtain b c1 where a: "alloc_bit good_io sample_super IMAP 20 sample_cache = Some (Ret (b, c1))" "b \<noteq> NO_BIT" using sample_alloc by blast
  have "ready good_io (s_dev sample_super) sample_cache" "marked sample_super IMAP (view sample_cache) 0"
    using sample_ready by (simp_all add: sample_sizes sample_marked)
  then show ?thesis using alloc_free_bit_roundtrip [OF _ sample_map_ok [of IMAP] sample_sizes(5) _ a] a by blast
qed

text \<open>
  \<^verbatim>\<open>free_bit\<close> clears exactly the bit it is given, and panics exactly if the file system is read
  only or the bit is clear already, so that no zone or inode is ever freed twice.
\<close>

theorem free_bit_exact:
  assumes "ready io (s_dev sp) c"
  shows "if s_rd_only sp then free_bit io sp m n c = Some (Panic ''can't free bit on read-only filesys.'')
    else if \<not> marked sp m (view c) n then free_bit io sp m n c = Some (Panic (if m = IMAP then ''tried to free unused inode'' else ''tried to free unused block''))
    else \<exists>c'. free_bit io sp m n c = Some (Ret c') \<and> moved c c' (set_map sp m n False (view c)) \<and>
      (\<forall>k. marked sp m (set_map sp m n False (view c)) k = (k \<noteq> n \<and> marked sp m (view c) k))"
proof (cases "s_rd_only sp")
  case True
  then show ?thesis by (simp add: free_bit_def)
next
  case False
  then show ?thesis using free_bit_result [OF assms False, of m n] by (auto simp: marked_set_map)
qed

theorem free_bit_exact_witness:
  "(\<exists>c'. free_bit good_io sample_super IMAP 24 sample_cache = Some (Ret c') \<and> moved sample_cache c' (set_map sample_super IMAP 24 False (view sample_cache))) \<and>
   free_bit good_io sample_super IMAP 25 sample_cache = Some (Panic ''tried to free unused inode'')"
proof -
  have "ready good_io (s_dev sample_super) sample_cache" using sample_ready by (simp add: sample_sizes)
  then show ?thesis
    using free_bit_exact [of good_io sample_super sample_cache IMAP 24] free_bit_exact [of good_io sample_super sample_cache IMAP 25]
    by (simp add: sample_sizes sample_marked) blast
qed

text \<open>
  The byte order conversions are permutations of bytes and their own inverses, so that a file
  system written by a machine of the other byte order and read here, or read here and written back,
  keeps its numbers. With \<^verbatim>\<open>norm\<close> they do nothing.
\<close>

theorem byte_order_roundtrip:
  "conv2h norm (conv2h norm w) = w \<and> conv4 norm (conv4 norm x) = x \<and> conv2h True w = w \<and> conv4 True x = x \<and>
   (\<forall>n. bit (conv2h False w) n \<longleftrightarrow> n < 16 \<and> bit w ((n + 8) mod 16)) \<and>
   (\<forall>n. bit (conv4 False x) n \<longleftrightarrow> n < 32 \<and> bit x (24 - 8 * (n div 8) + n mod 8))"
proof -
  have "conv2h True w = w" by (rule bit_word_eqI) (simp add: bit_conv2h)
  moreover have "conv4 True x = x" by (simp add: conv4_def)
  ultimately show ?thesis by (simp add: bit_conv2h bit_conv4)
qed

end
