(* ===== verification/Fs_Zone.thy ===== *)
theory Fs_Zone
  imports Fs_Bitmap
begin

unbundle bit_operations_syntax

text \<open>
  Zones and super blocks: \<^verbatim>\<open>alloc_zone\<close> and \<^verbatim>\<open>free_zone\<close> on top of the zone map, and \<^verbatim>\<open>read_super\<close>.
\<close>

section \<open>Zone numbers\<close>

lemma word_bound: "unat (w :: 'a::len word) < 2 ^ LENGTH('a)"
  by (rule unsigned_less)

definition zone_bit :: "super_block \<Rightarrow> 32 word \<Rightarrow> nat" where
  "zone_bit sp z = unat (z - (ucast (s_firstdatazone sp) - 1))"

definition zones_ok :: "super_block \<Rightarrow> bool" where
  "zones_ok sp \<longleftrightarrow> 1 \<le> unat (s_firstdatazone sp) \<and> unat (s_firstdatazone sp) \<le> unat (s_zones sp) \<and> map_ok sp ZMAP"

lemma fdz_word:
  assumes "zones_ok sp"
  shows "ucast (s_firstdatazone sp) - 1 = (word_of_nat (unat (s_firstdatazone sp) - 1) :: 32 word)"
    "unat (ucast (s_firstdatazone sp) - 1 :: 32 word) = unat (s_firstdatazone sp) - 1"
proof -
  let ?f = "unat (s_firstdatazone sp)"
  have f: "1 \<le> ?f" "?f < 65536" using assms word_bound [of "s_firstdatazone sp"] by (simp_all add: zones_ok_def)
  have "(ucast (s_firstdatazone sp) :: 32 word) = word_of_nat ?f" by simp
  then show e: "ucast (s_firstdatazone sp) - 1 = (word_of_nat (?f - 1) :: 32 word)" using f(1) by (simp add: of_nat_diff)
  show "unat (ucast (s_firstdatazone sp) - 1 :: 32 word) = ?f - 1" unfolding e using f(2) by (simp add: unat_of_nat)
qed

lemma map_bits_zones:
  assumes "zones_ok sp" shows "map_bits sp ZMAP = unat (s_zones sp) - (unat (s_firstdatazone sp) - 1)"
proof -
  have le: "(ucast (s_firstdatazone sp) - 1 :: 32 word) \<le> s_zones sp"
    using fdz_word(2) [OF assms] assms unfolding word_le_nat_alt zones_ok_def by linarith
  show ?thesis using unat_sub [OF le] fdz_word(2) [OF assms] by (simp add: map_bits_def)
qed

lemma zone_of_bit:
  assumes ok: "zones_ok sp" and b: "0 < b" "b < map_bits sp ZMAP" and z: "z = ucast (s_firstdatazone sp) - 1 + word_of_nat b"
  shows "unat z = unat (s_firstdatazone sp) - 1 + b" "zone_bit sp z = b" "ucast (s_firstdatazone sp) \<le> z" "z < s_zones sp" "z \<noteq> NO_ZONE"
proof -
  let ?f = "unat (s_firstdatazone sp)"
  have f: "1 \<le> ?f" "?f < 65536" using ok word_bound [of "s_firstdatazone sp"] by (simp_all add: zones_ok_def)
  have lt: "?f - 1 + b < unat (s_zones sp)" using b(2) map_bits_zones [OF ok] by linarith
  have "unat (s_zones sp) < 2 ^ 32" using word_bound [of "s_zones sp"] by simp
  then have "?f - 1 + b < 2 ^ 32" using lt by linarith
  moreover have "z = word_of_nat (?f - 1 + b)" unfolding z fdz_word(1) [OF ok] by simp
  ultimately show u: "unat z = ?f - 1 + b" by (simp only: unat_of_nat) simp
  have "z - (ucast (s_firstdatazone sp) - 1) = word_of_nat b" unfolding z by simp
  moreover have "b < 2 ^ 32" using lt \<open>unat (s_zones sp) < 2 ^ 32\<close> by linarith
  ultimately show "zone_bit sp z = b" by (simp add: zone_bit_def unat_of_nat)
  have "unat (ucast (s_firstdatazone sp) :: 32 word) = ?f" using f(2) by (simp add: unsigned_ucast_eq take_bit_nat_eq_self)
  then show "ucast (s_firstdatazone sp) \<le> z" using u b(1) f(1) by (simp add: word_le_nat_alt)
  show "z < s_zones sp" using u lt by (simp add: word_less_nat_alt)
  show "z \<noteq> NO_ZONE" using u b(1) by (auto simp: NO_ZONE_def)
qed

section \<open>Allocating and freeing\<close>

text \<open>The super block slot of a device that is mounted read-write, with a sound zone map.\<close>

definition mounted_rw :: "(nat \<Rightarrow> int) \<Rightarrow> int \<Rightarrow> nat \<Rightarrow> fs \<Rightarrow> bool" where
  "mounted_rw io dev i s \<longleftrightarrow> ready io dev (fs_cache s) \<and> get_super dev s = Some (Ret i) \<and> zones_ok (super_blocks s i) \<and>
     \<not> s_rd_only (super_blocks s i) \<and> marked (super_blocks s i) ZMAP (view (fs_cache s)) 0"

lemma get_super_Ret: "get_super dev s = Some (Ret i) \<Longrightarrow> i < NR_SUPERS \<and> s_dev (super_blocks s i) = dev"
  unfolding get_super_def by (auto split: option.splits dest: find_SomeD)

lemma get_super_cong: "(\<And>i. s_dev (super_blocks s' i) = s_dev (super_blocks s i)) \<Longrightarrow> get_super dev s' = get_super dev s"
  by (simp add: get_super_def)

definition same_layout :: "super_block \<Rightarrow> super_block \<Rightarrow> bool" where
  "same_layout sp sp' \<longleftrightarrow> sp' = sp\<lparr>s_zsearch := s_zsearch sp'\<rparr>"

lemma same_layout_simps:
  assumes "same_layout sp sp'"
  shows "s_dev sp' = s_dev sp" "s_rd_only sp' = s_rd_only sp" "zones_ok sp' = zones_ok sp" "zone_bit sp' = zone_bit sp" "map_bits sp' = map_bits sp"
    "marked sp' = marked sp" "set_map sp' = set_map sp" "s_firstdatazone sp' = s_firstdatazone sp" "s_zones sp' = s_zones sp"
proof -
  have e: "sp' = sp\<lparr>s_zsearch := s_zsearch sp'\<rparr>" using assms by (simp add: same_layout_def)
  show "s_dev sp' = s_dev sp" "s_rd_only sp' = s_rd_only sp" "zones_ok sp' = zones_ok sp" "zone_bit sp' = zone_bit sp" "map_bits sp' = map_bits sp"
    "marked sp' = marked sp" "set_map sp' = set_map sp" "s_firstdatazone sp' = s_firstdatazone sp" "s_zones sp' = s_zones sp"
    by (subst e; simp add: zones_ok_def zone_bit_def map_bits_def marked_def set_map_def map_block_def start_block_def map_ok_def bit_blocks_def
        fun_eq_iff cong: map_kind.case_cong)+
qed

lemma alloc_zone_result:
  assumes m: "mounted_rw io dev i s"
  defines "sp \<equiv> super_blocks s i" and "V \<equiv> view (fs_cache s)"
  shows "\<exists>z' s'. alloc_zone io dev z s = Some (Ret (z', s')) \<and> same_layout sp (super_blocks s' i) \<and> (\<forall>j. j \<noteq> i \<longrightarrow> super_blocks s' j = super_blocks s j) \<and>
    (if \<forall>n < map_bits sp ZMAP. marked sp ZMAP V n then z' = NO_ZONE \<and> err_code s' = ENOSPC \<and> moved (fs_cache s) (fs_cache s') V
     else ucast (s_firstdatazone sp) \<le> z' \<and> z' < s_zones sp \<and> z' \<noteq> NO_ZONE \<and> \<not> marked sp ZMAP V (zone_bit sp z') \<and>
       moved (fs_cache s) (fs_cache s') (set_map sp ZMAP (zone_bit sp z') True V))"
proof -
  have gs: "get_super dev s = Some (Ret i)" and rd: "ready io (s_dev sp) (fs_cache s)" and ok: "zones_ok sp" and rw: "\<not> s_rd_only sp" and m0: "marked sp ZMAP V 0"
    using m get_super_Ret [of dev s i] by (auto simp: mounted_rw_def sp_def V_def)
  define bit where "bit = (if z = ucast (s_firstdatazone sp) then s_zsearch sp else unat (z - (ucast (s_firstdatazone sp) - 1)))"
  obtain b c1 where a: "alloc_bit io sp ZMAP bit (fs_cache s) = Some (Ret (b, c1))"
    and res: "if \<forall>n < map_bits sp ZMAP. marked sp ZMAP V n then b = NO_BIT \<and> moved (fs_cache s) c1 V
      else b < map_bits sp ZMAP \<and> \<not> marked sp ZMAP V b \<and> moved (fs_cache s) c1 (set_map sp ZMAP b True V)"
    using alloc_bit_result [OF rd _ rw, of ZMAP bit] ok unfolding zones_ok_def V_def by blast
  define s1 where "s1 = s\<lparr>fs_cache := c1\<rparr>"
  define z' where "z' = (ucast (s_firstdatazone sp) - 1 + word_of_nat b :: 32 word)"
  have e: "alloc_zone io dev z s = Some (Ret (if b = NO_BIT then (NO_ZONE, s1\<lparr>err_code := ENOSPC\<rparr>)
      else (z', if z = ucast (s_firstdatazone sp) then upd_super i (s_zsearch_update (\<lambda>_. b)) s1 else s1)))"
    using a by (cases "z = ucast (s_firstdatazone sp)") (simp_all add: alloc_zone_def gs Let_def sp_def bit_def s1_def z'_def)
  have lay: "same_layout sp (super_blocks s2 i) \<and> (\<forall>j. j \<noteq> i \<longrightarrow> super_blocks s2 j = super_blocks s j)"
    if "s2 = s1\<lparr>err_code := k\<rparr> \<or> s2 = s1 \<or> s2 = upd_super i (s_zsearch_update (\<lambda>_. b)) s1" for s2 k
    using that by (auto simp: same_layout_def s1_def sp_def upd_super_def)
  show ?thesis
  proof (cases "\<forall>n < map_bits sp ZMAP. marked sp ZMAP V n")
    case True
    then have "b = NO_BIT" "moved (fs_cache s) c1 V" using res by simp_all
    then show ?thesis using e True lay [of "s1\<lparr>err_code := ENOSPC\<rparr>" ENOSPC] by (simp add: s1_def)
  next
    case False
    then have r: "b < map_bits sp ZMAP" "\<not> marked sp ZMAP V b" "moved (fs_cache s) c1 (set_map sp ZMAP b True V)" using res by auto
    have b0: "b \<noteq> 0"
    proof
      assume "b = 0"
      then show False using r(2) m0 by simp
    qed
    note z = zone_of_bit [OF ok _ r(1) z'_def]
    let ?s2 = "if z = ucast (s_firstdatazone sp) then upd_super i (s_zsearch_update (\<lambda>_. b)) s1 else s1"
    have "alloc_zone io dev z s = Some (Ret (z', ?s2))" using e b0 by (simp add: NO_BIT_def)
    moreover have "fs_cache ?s2 = c1" by (simp add: s1_def upd_super_def)
    moreover have "same_layout sp (super_blocks ?s2 i) \<and> (\<forall>j. j \<noteq> i \<longrightarrow> super_blocks ?s2 j = super_blocks s j)" by (rule lay [of _ 0]) simp
    ultimately show ?thesis using False r z b0 by (intro exI [of _ z'] exI [of _ ?s2]) (simp del: not_all)
  qed
qed

lemma free_zone_result:
  assumes gs: "get_super dev s = Some (Ret i)" and rd: "ready io dev (fs_cache s)" and rw: "\<not> s_rd_only (super_blocks s i)"
    and r: "ucast (s_firstdatazone (super_blocks s i)) \<le> z" "z < s_zones (super_blocks s i)"
    and mk: "marked (super_blocks s i) ZMAP (view (fs_cache s)) (zone_bit (super_blocks s i) z)"
  shows "\<exists>s'. free_zone io dev z s = Some (Ret s') \<and> same_layout (super_blocks s i) (super_blocks s' i) \<and> (\<forall>j. j \<noteq> i \<longrightarrow> super_blocks s' j = super_blocks s j) \<and>
    moved (fs_cache s) (fs_cache s') (set_map (super_blocks s i) ZMAP (zone_bit (super_blocks s i) z) False (view (fs_cache s)))"
proof -
  let ?sp = "super_blocks s i"
  have dev: "s_dev ?sp = dev" using get_super_Ret [OF gs] by simp
  obtain c1 where c1: "free_bit io ?sp ZMAP (zone_bit ?sp z) (fs_cache s) = Some (Ret c1)"
    "moved (fs_cache s) c1 (set_map ?sp ZMAP (zone_bit ?sp z) False (view (fs_cache s)))"
    using free_bit_result [of io ?sp "fs_cache s" ZMAP "zone_bit ?sp z"] rd dev rw mk by auto
  have "\<not> z < ucast (s_firstdatazone ?sp)" "\<not> z \<ge> s_zones ?sp" using r by simp_all
  then show ?thesis using gs c1 unfolding free_zone_def zone_bit_def [symmetric]
    by (simp add: Let_def same_layout_def upd_super_def)
qed

text \<open>
  (C28) \<^verbatim>\<open>alloc_zone\<close> returns a zone of the data area of the device, never one that is in use: the
  number lies between the first data zone and the size of the file system, its bit in the zone map
  was clear and is the only thing that changes on any device. Only if all zones are in use does it
  return \<^verbatim>\<open>NO_ZONE\<close>, with \<^verbatim>\<open>ENOSPC\<close>. A zone that has been allocated can be returned with \<^verbatim>\<open>free_zone\<close>,
  which restores every byte.
\<close>

theorem alloc_zone_fresh:
  assumes "mounted_rw io dev i s"
  shows "\<exists>z' s'. alloc_zone io dev z s = Some (Ret (z', s')) \<and>
    (if \<forall>n < map_bits (super_blocks s i) ZMAP. marked (super_blocks s i) ZMAP (view (fs_cache s)) n
     then z' = NO_ZONE \<and> err_code s' = ENOSPC \<and> moved (fs_cache s) (fs_cache s') (view (fs_cache s))
     else ucast (s_firstdatazone (super_blocks s i)) \<le> z' \<and> z' < s_zones (super_blocks s i) \<and> z' \<noteq> NO_ZONE \<and>
       \<not> marked (super_blocks s i) ZMAP (view (fs_cache s)) (zone_bit (super_blocks s i) z') \<and>
       moved (fs_cache s) (fs_cache s') (set_map (super_blocks s i) ZMAP (zone_bit (super_blocks s i) z') True (view (fs_cache s))) \<and>
       (\<exists>s''. free_zone io dev z' s' = Some (Ret s'') \<and> moved (fs_cache s) (fs_cache s'') (view (fs_cache s))))"
proof -
  let ?sp = "super_blocks s i" and ?V = "view (fs_cache s)"
  obtain z' s' where a: "alloc_zone io dev z s = Some (Ret (z', s'))" "same_layout ?sp (super_blocks s' i)" "\<forall>j. j \<noteq> i \<longrightarrow> super_blocks s' j = super_blocks s j"
    and res: "if \<forall>n < map_bits ?sp ZMAP. marked ?sp ZMAP ?V n then z' = NO_ZONE \<and> err_code s' = ENOSPC \<and> moved (fs_cache s) (fs_cache s') ?V
     else ucast (s_firstdatazone ?sp) \<le> z' \<and> z' < s_zones ?sp \<and> z' \<noteq> NO_ZONE \<and> \<not> marked ?sp ZMAP ?V (zone_bit ?sp z') \<and>
       moved (fs_cache s) (fs_cache s') (set_map ?sp ZMAP (zone_bit ?sp z') True ?V)"
    using alloc_zone_result [OF assms, of z] by blast
  show ?thesis
  proof (cases "\<forall>n < map_bits ?sp ZMAP. marked ?sp ZMAP ?V n")
    case True
    then show ?thesis using a(1) res by (intro exI [of _ z'] exI [of _ s']) simp
  next
    case False
    let ?n = "zone_bit ?sp z'" and ?c = "fs_cache s" and ?c' = "fs_cache s'"
    have r: "ucast (s_firstdatazone ?sp) \<le> z'" "z' < s_zones ?sp" "z' \<noteq> NO_ZONE" "\<not> marked ?sp ZMAP ?V ?n" "moved ?c ?c' (set_map ?sp ZMAP ?n True ?V)"
      using res False by (simp_all del: not_all)
    note lay = same_layout_simps [OF a(2)]
    have h: "ready io dev ?c" "get_super dev s = Some (Ret i)" "s_dev ?sp = dev" "\<not> s_rd_only ?sp"
      using assms get_super_Ret [of dev s i] by (auto simp: mounted_rw_def)
    have us: "usable ?c dev" using h(1) by (simp add: ready_def)
    have v: "view ?c' d b = set_map ?sp ZMAP ?n True ?V d b" if "usable ?c d" for d b using r(5) that by (simp add: moved_def)
    have "marked ?sp ZMAP (view ?c') ?n = marked ?sp ZMAP (set_map ?sp ZMAP ?n True ?V) ?n" by (rule marked_cong) (simp add: v us h(3))
    then have mk: "marked ?sp ZMAP (view ?c') ?n" by (simp add: marked_set_map)
    have "get_super dev s' = get_super dev s"
    proof (rule get_super_cong)
      show "s_dev (super_blocks s' j) = s_dev (super_blocks s j)" for j using a(3) lay(1) by (cases "j = i") simp_all
    qed
    then obtain s'' where f: "free_zone io dev z' s' = Some (Ret s'')" "moved ?c' (fs_cache s'') (set_map ?sp ZMAP ?n False (view ?c'))"
      using free_zone_result [of dev s' i io z'] moved_ready [OF r(5) h(1)] h(2,4) r(1,2) mk unfolding lay by auto
    have "moved ?c (fs_cache s'') ?V"
    proof (rule moved_cong [OF moved_trans [OF r(5) f(2)]])
      fix d b assume d: "usable ?c d"
      have "set_map ?sp ZMAP ?n False (view ?c') d b = set_map ?sp ZMAP ?n False (set_map ?sp ZMAP ?n True ?V) d b"
        by (rule set_map_cong) (simp_all add: v us d h(3))
      then show "set_map ?sp ZMAP ?n False (view ?c') d b = ?V d b" using set_map_undo [OF r(4)] by simp
    qed
    then show ?thesis using a(1) r f(1) False by (intro exI [of _ z'] exI [of _ s']) (simp del: not_all)
  qed
qed

definition blank_inode :: inode where
  "blank_inode = \<lparr>i_mode = 0, i_nlinks = 0, i_uid = 0, i_gid = 0, i_size = 0, i_atime = 0, i_mtime = 0, i_ctime = 0, i_zone = (\<lambda>_. 0),
     i_dev = 0, i_num = 0, i_count = 0, i_ndzones = 0, i_nindirs = 0, i_sp = 0, i_dirt = False, i_pipe = False, i_mount = False, i_seek = False, i_update = 0\<rparr>"

definition sample_fs :: fs where
  "sample_fs = \<lparr>fs_cache = sample_cache, super_blocks = (\<lambda>_. sample_super), inode = (\<lambda>_. blank_inode), err_code = 0\<rparr>"

lemma sample_mounted: "mounted_rw good_io 768 0 sample_fs"
proof -
  have "get_super 768 sample_fs = Some (Ret 0)" by (simp add: get_super_def sample_fs_def sample_sizes NR_SUPERS_def upt_conv_Cons)
  moreover have "zones_ok sample_super" using sample_map_ok by (simp add: zones_ok_def sample_super_def)
  ultimately show ?thesis using sample_ready by (simp add: mounted_rw_def sample_fs_def sample_sizes sample_marked)
qed

theorem alloc_zone_fresh_witness:
  "\<exists>z' s' s''. alloc_zone good_io 768 5 sample_fs = Some (Ret (z', s')) \<and> 5 \<le> z' \<and> z' < 100 \<and> free_zone good_io 768 z' s' = Some (Ret s'') \<and>
     moved sample_cache (fs_cache s'') (view sample_cache)"
proof -
  have e: "super_blocks sample_fs 0 = sample_super" "fs_cache sample_fs = sample_cache" "ucast (s_firstdatazone sample_super) = (5 :: 32 word)" "s_zones sample_super = 100"
    by (simp_all add: sample_fs_def sample_super_def)
  have ne: "\<not> (\<forall>n < map_bits sample_super ZMAP. marked sample_super ZMAP (view sample_cache) n)"
    by (auto simp: sample_marked sample_sizes intro!: exI [of _ 1])
  show ?thesis using alloc_zone_fresh [OF sample_mounted, of 5] unfolding e if_not_P [OF ne] by blast
qed

section \<open>Reading a super block\<close>

lemma conv2h_swap: "conv2h False w = push_bit 8 w OR drop_bit 8 w"
proof (rule bit_word_eqI)
  fix n assume "n < LENGTH(16)"
  then have n: "n < 16" by simp
  show "bit (conv2h False w) n = bit (push_bit 8 w OR drop_bit 8 w) n"
  proof (cases "n < 8")
    case True
    then show ?thesis by (simp add: bit_conv2h bit_or_iff bit_push_bit_iff bit_drop_bit_eq add.commute)
  next
    case False
    then have "\<not> bit w (8 + n)" using bit_imp_le_length [of w "8 + n"] by auto
    moreover have "(n + 8) mod 16 = n - 8"
    proof -
      have "n + 8 = (n - 8) + 16" using False by simp
      then show ?thesis using n by (metis mod_add_self2 mod_less less_imp_diff_less)
    qed
    ultimately show ?thesis using n False by (simp add: bit_conv2h bit_or_iff bit_push_bit_iff bit_drop_bit_eq)
  qed
qed

lemma conv4_halves: "conv4 False x = push_bit 16 (ucast (conv2h False (ucast x))) OR ucast (conv2h False (ucast (drop_bit 16 x)))"
proof (rule bit_word_eqI)
  fix n assume "n < LENGTH(32)"
  then show "bit (conv4 False x) n = bit (push_bit 16 (ucast (conv2h False (ucast x))) OR ucast (conv2h False (ucast (drop_bit 16 x))) :: 32 word) n"
    by (auto simp: bit_swap4 bit_or_iff bit_push_bit_iff bit_ucast_iff bit_conv2h bit_drop_bit_eq add.commute dest: bit_imp_le_length)
qed

lemma magics: "conv2h False 0x137F = 0x7F13" "conv2h False 0x2468 = 0x6824" "conv2h True w = w"
proof -
  show "conv2h False 0x137F = 0x7F13" "conv2h False 0x2468 = 0x6824" by (simp_all add: conv2h_swap push_bit_eq_mult)
  show "conv2h True w = w" by (rule bit_word_eqI) (simp add: bit_conv2h)
qed

lemma super_magic_found: "super_magic (conv2h native (if v1 then SUPER_MAGIC else SUPER_V2)) = Some (if v1 then 1 else 2, native)"
  by (cases native; cases v1) (simp_all add: super_magic_def magics SUPER_MAGIC_def SUPER_V2_def)

text \<open>What is left to do with a block that was read.\<close>

definition judge_super :: "(data \<Rightarrow> super_block \<Rightarrow> super_block) \<Rightarrow> data \<Rightarrow> int \<Rightarrow> super_block \<Rightarrow> int \<times> super_block" where
  "judge_super rest d dev sp0 =
     (let sp = decode_super rest d sp0
      in case super_magic (s_magic sp) of
           None \<Rightarrow> (EINVAL, sp)
         | Some (version, native) \<Rightarrow>
             let sp1 = swap_super native sp;
                 sp2 = (if version = 1
                        then sp1\<lparr>s_zones := ucast (s_nzones sp1), s_inodes_per_block := 32, s_ndzones := 7, s_nindirs := 512\<rparr>
                        else sp1\<lparr>s_inodes_per_block := 16, s_ndzones := 7, s_nindirs := 256\<rparr>);
                 sp3 = sp2\<lparr>s_isearch := 0, s_zsearch := 0, s_version := version, s_native := native\<rparr>
             in if sint (s_imap_blocks sp3) < 1 \<or> sint (s_zmap_blocks sp3) < 1 \<or> unat (s_ninodes sp3) < 1 \<or> unat (s_zones sp3) < 1 \<or>
                   unat (scast (s_log_zone_size sp3) :: 32 word) > 4
                then (EINVAL, sp3) else (OK, sp3\<lparr>s_dev := dev\<rparr>))"

lemma read_super_judges:
  assumes r: "ready io dev (fs_cache s)" and dev: "s_dev (super_blocks s i) = dev"
  shows "\<exists>c'. read_super io rest i s = Some (Ret (fst (judge_super rest (view (fs_cache s) dev SUPER_BLOCK) dev (super_blocks s i)),
      upd_super i (\<lambda>_. snd (judge_super rest (view (fs_cache s) dev SUPER_BLOCK) dev (super_blocks s i))) (s\<lparr>fs_cache := c'\<rparr>))) \<and>
    moved (fs_cache s) c' (view (fs_cache s))"
proof -
  obtain k c1 where g: "get_block io dev SUPER_BLOCK NORMAL (fs_cache s) = Some (Ret (k, c1))" "b_data (buf c1 k) = view (fs_cache s) dev SUPER_BLOCK"
    "\<And>t. moved (fs_cache s) (put_block io (Some k) t c1) (view (fs_cache s))" by (rule transaction [OF r]) blast
  show ?thesis using g(1,2) g(3) [of ZUPER_BLOCK] dev
    by (intro exI [of _ "put_block io (Some k) ZUPER_BLOCK c1"]) (simp add: read_super_def judge_super_def Let_def split: option.split prod.split)
qed

text \<open>
  (C29) A super block written on a machine of either byte order, of a V1 or a V2 file system, is read
  as the same numbers: \<^verbatim>\<open>read_super\<close> recognises version and byte order from the magic number and
  returns \<^verbatim>\<open>OK\<close> if the sizes make sense, with every field of the slot in the order of this machine,
  the number of zones where the version keeps it, and both searches starting at 0.
\<close>

theorem read_super_any_byte_order:
  assumes "ready io dev (fs_cache s)" "s_dev (super_blocks s i) = dev" "d = view (fs_cache s) dev SUPER_BLOCK"
    and "get2 d 0 = conv2h native ninodes" "get2 d 2 = conv2h native nzones" "get2 d 4 = conv2h native imap" "get2 d 6 = conv2h native zmap"
    and "get2 d 8 = conv2h native fdz" "get2 d 10 = conv2h native lz" "get4 d 12 = conv4 native msize" "get4 d 20 = conv4 native zones"
    and "get2 d 16 = conv2h native (if v1 then SUPER_MAGIC else SUPER_V2)"
    and "1 \<le> sint imap" "1 \<le> sint zmap" "ninodes \<noteq> 0" "(if v1 then ucast nzones else zones) \<noteq> (0 :: 32 word)" "unat (scast lz :: 32 word) \<le> 4"
  shows "\<exists>s'. read_super io rest i s = Some (Ret (OK, s')) \<and> moved (fs_cache s) (fs_cache s') (view (fs_cache s)) \<and>
    (let sp = super_blocks s' i
     in s_ninodes sp = ninodes \<and> s_imap_blocks sp = imap \<and> s_zmap_blocks sp = zmap \<and> s_firstdatazone sp = fdz \<and> s_log_zone_size sp = lz \<and>
        s_max_size sp = msize \<and> s_zones sp = (if v1 then ucast nzones else zones) \<and> s_version sp = (if v1 then 1 else 2) \<and> s_native sp = native \<and>
        s_inodes_per_block sp = (if v1 then 32 else 16) \<and> s_nindirs sp = (if v1 then 512 else 256) \<and> s_ndzones sp = 7 \<and>
        s_dev sp = dev \<and> s_isearch sp = 0 \<and> s_zsearch sp = 0)"
proof -
  have mg: "super_magic (get2 d 16) = Some (if v1 then 1 else 2, native)" unfolding assms(12) by (rule super_magic_found)
  have "ninodes \<noteq> 0 \<longleftrightarrow> 1 \<le> unat ninodes" by (simp add: Suc_le_eq unat_gt_0)
  then have nz: "1 \<le> unat ninodes" "1 \<le> unat (if v1 then ucast nzones else zones :: 32 word)" using assms(15,16) by (simp_all add: Suc_le_eq unat_gt_0)
  let ?j = "judge_super rest d dev (super_blocks s i)"
  have "fst ?j = OK \<and> s_ninodes (snd ?j) = ninodes \<and> s_imap_blocks (snd ?j) = imap \<and> s_zmap_blocks (snd ?j) = zmap \<and> s_firstdatazone (snd ?j) = fdz \<and>
      s_log_zone_size (snd ?j) = lz \<and> s_max_size (snd ?j) = msize \<and> s_zones (snd ?j) = (if v1 then ucast nzones else zones) \<and>
      s_version (snd ?j) = (if v1 then 1 else 2) \<and> s_native (snd ?j) = native \<and> s_inodes_per_block (snd ?j) = (if v1 then 32 else 16) \<and>
      s_nindirs (snd ?j) = (if v1 then 512 else 256) \<and> s_ndzones (snd ?j) = 7 \<and> s_dev (snd ?j) = dev \<and> s_isearch (snd ?j) = 0 \<and> s_zsearch (snd ?j) = 0"
    using mg nz assms(4-11,13,14,17) by (cases v1) (simp_all add: judge_super_def decode_super_def swap_super_def Let_def)
  moreover obtain c' where "read_super io rest i s = Some (Ret (fst ?j, upd_super i (\<lambda>_. snd ?j) (s\<lparr>fs_cache := c'\<rparr>)))" "moved (fs_cache s) c' (view (fs_cache s))"
    using read_super_judges [OF assms(1,2), of rest] assms(3) by blast
  ultimately show ?thesis by (intro exI [of _ "upd_super i (\<lambda>_. snd ?j) (s\<lparr>fs_cache := c'\<rparr>)"]) (simp add: upd_super_def Let_def)
qed

text \<open>
  Anything else is refused: without one of the four magic numbers, or with an impossible size,
  \<^verbatim>\<open>read_super\<close> returns \<^verbatim>\<open>EINVAL\<close> and leaves the slot free, \<^verbatim>\<open>s_dev\<close> being \<^verbatim>\<open>NO_DEV\<close>; the device is
  unchanged.
\<close>

theorem read_super_rejects:
  assumes "ready io dev (fs_cache s)" "s_dev (super_blocks s i) = dev" "d = view (fs_cache s) dev SUPER_BLOCK"
    and "get2 d 16 \<notin> {0x137F, 0x7F13, 0x2468, 0x6824} \<or>
      (\<exists>native \<in> {True, False}. get2 d 16 \<in> {conv2h native SUPER_MAGIC, conv2h native SUPER_V2} \<and>
         (sint (conv2h native (get2 d 4)) < 1 \<or> sint (conv2h native (get2 d 6)) < 1 \<or> get2 d 0 = 0))"
  shows "\<exists>s'. read_super io rest i s = Some (Ret (EINVAL, s')) \<and> s_dev (super_blocks s' i) = NO_DEV \<and> moved (fs_cache s) (fs_cache s') (view (fs_cache s))"
proof -
  let ?j = "judge_super rest d dev (super_blocks s i)"
  have "fst ?j = EINVAL \<and> s_dev (snd ?j) = NO_DEV"
    using assms(4)
  proof
    assume "get2 d 16 \<notin> {0x137F, 0x7F13, 0x2468, 0x6824}"
    then have "super_magic (get2 d 16) = None" by (simp add: super_magic_def SUPER_MAGIC_def SUPER_V2_def magics)
    then show ?thesis by (simp add: judge_super_def decode_super_def Let_def)
  next
    assume "\<exists>native \<in> {True, False}. get2 d 16 \<in> {conv2h native SUPER_MAGIC, conv2h native SUPER_V2} \<and>
         (sint (conv2h native (get2 d 4)) < 1 \<or> sint (conv2h native (get2 d 6)) < 1 \<or> get2 d 0 = 0)"
    then obtain native where n: "get2 d 16 = conv2h native SUPER_MAGIC \<or> get2 d 16 = conv2h native SUPER_V2"
      and bad: "sint (conv2h native (get2 d 4)) < 1 \<or> sint (conv2h native (get2 d 6)) < 1 \<or> get2 d 0 = 0" by blast
    define v1 where "v1 \<longleftrightarrow> get2 d 16 = conv2h native SUPER_MAGIC"
    have mg: "get2 d 16 = conv2h native (if v1 then SUPER_MAGIC else SUPER_V2)" using n by (cases v1) (simp_all add: v1_def)
    have zero: "conv2h native 0 = 0" by (rule bit_word_eqI) (simp add: bit_conv2h)
    have "super_magic (get2 d 16) = Some (if v1 then 1 else 2, native)" unfolding mg by (rule super_magic_found)
    then show ?thesis using bad zero by (cases v1) (auto simp: judge_super_def decode_super_def swap_super_def Let_def)
  qed
  moreover obtain c' where "read_super io rest i s = Some (Ret (fst ?j, upd_super i (\<lambda>_. snd ?j) (s\<lparr>fs_cache := c'\<rparr>)))" "moved (fs_cache s) c' (view (fs_cache s))"
    using read_super_judges [OF assms(1,2), of rest] assms(3) by blast
  ultimately show ?thesis by (intro exI [of _ "upd_super i (\<lambda>_. snd ?j) (s\<lparr>fs_cache := c'\<rparr>)"]) (simp add: upd_super_def)
qed

theorem read_super_rejects_witness:
  "\<exists>s'. read_super good_io (\<lambda>d sp. sp) 0 sample_fs = Some (Ret (EINVAL, s')) \<and> s_dev (super_blocks s' 0) = NO_DEV"
proof -
  have v: "view (fs_cache sample_fs) 768 SUPER_BLOCK = (\<lambda>_. 1)"
    using start_inv(2) [of 768 0 "\<lambda>_ _ _. 1" SUPER_BLOCK] by (simp add: sample_fs_def sample_cache_def NO_DEV_def)
  have "get2 (\<lambda>_. 1) 16 = 0x101" by (simp add: get2_def push_bit_eq_mult)
  then show ?thesis using read_super_rejects [of good_io 768 sample_fs 0 "\<lambda>_. 1" "\<lambda>d sp. sp"] sample_ready v
    by (simp add: sample_fs_def sample_sizes) blast
qed

text \<open>A V2 super block in the order of the Intel machines, on a fresh device.\<close>

definition intel_super :: data where
  "intel_super = (\<lambda>i. if i = 0 then 31 else if i = 4 then 1 else if i = 6 then 1 else if i = 8 then 5 else if i = 16 then 0x68 else if i = 17 then 0x24 else
     if i = 20 then 100 else 0)"

definition intel_fs :: fs where
  "intel_fs = \<lparr>fs_cache = start 0 (\<lambda>_ _. intel_super), super_blocks = (\<lambda>_. sample_super), inode = (\<lambda>_. blank_inode), err_code = 0\<rparr>"

theorem read_super_any_byte_order_witness:
  "\<exists>s'. read_super good_io (\<lambda>d sp. sp) 0 intel_fs = Some (Ret (OK, s')) \<and> s_ninodes (super_blocks s' 0) = 31 \<and> s_zones (super_blocks s' 0) = 100 \<and>
     \<not> s_native (super_blocks s' 0) \<and> s_version (super_blocks s' 0) = 2"
proof -
  let ?c = "start 0 (\<lambda>_ _. intel_super)"
  have v: "view ?c 768 SUPER_BLOCK = intel_super" using start_inv(2) [of 768 0 "\<lambda>_ _. intel_super" SUPER_BLOCK] by (simp add: NO_DEV_def)
  have rd: "ready good_io 768 (fs_cache intel_fs)"
    using start_inv [where n = 0 and D = "\<lambda>_ _. intel_super"] start_room [of 0 "\<lambda>_ _. intel_super"] good_io_sound
    by (simp add: ready_def intel_fs_def store_inv_def usable_def NO_DEV_def DEV_RAM_def)
  have f: "get2 intel_super 0 = conv2h False 31" "get2 intel_super 2 = conv2h False 0" "get2 intel_super 4 = conv2h False 1" "get2 intel_super 6 = conv2h False 1"
    "get2 intel_super 8 = conv2h False 5" "get2 intel_super 10 = conv2h False 0" "get4 intel_super 12 = conv4 False 0" "get4 intel_super 20 = conv4 False 100"
    "get2 intel_super 16 = conv2h False (if False then SUPER_MAGIC else SUPER_V2)"
    by (simp_all add: get4_def get2_def intel_super_def conv2h_swap conv4_halves SUPER_V2_def push_bit_eq_mult)
  have "s_dev (super_blocks intel_fs 0) = 768" "intel_super = view (fs_cache intel_fs) 768 SUPER_BLOCK" using v by (simp_all add: intel_fs_def sample_sizes)
  from read_super_any_byte_order [OF rd this f, of "\<lambda>d sp. sp"] show ?thesis by (simp add: Let_def) blast
qed

end
