(* ===== verification/Fs_Inode.thy ===== *)
theory Fs_Inode
  imports Fs_Zone
begin

unbundle bit_operations_syntax

text \<open>
  Inodes: the inode table and the two disk formats of \<^verbatim>\<open>src/src/fs/inode.c\<close>, the maps from file
  positions to blocks of \<^verbatim>\<open>read.c\<close> and \<^verbatim>\<open>write.c\<close>, and \<^verbatim>\<open>truncate\<close> of \<^verbatim>\<open>link.c\<close>. An inode pointer is an
  index into the table. File positions and zone numbers are 32-bit words, block numbers are numbers
  again.
\<close>

section \<open>Disk inodes\<close>

definition V1_NR_TZONES :: nat where "V1_NR_TZONES = 9"
definition V2_NR_TZONES :: nat where "V2_NR_TZONES = 10"
definition V1_NR_DZONES :: nat where "V1_NR_DZONES = 7"
definition V2_NR_DZONES :: nat where "V2_NR_DZONES = 7"
definition V1_INDIRECTS :: nat where "V1_INDIRECTS = 512"
definition V2_INDIRECTS :: nat where "V2_INDIRECTS = 256"
definition V1_INODES_PER_BLOCK :: nat where "V1_INODES_PER_BLOCK = 32"
definition V2_INODES_PER_BLOCK :: nat where "V2_INODES_PER_BLOCK = 16"
definition V1_INODE_SIZE :: nat where "V1_INODE_SIZE = 32"
definition V2_INODE_SIZE :: nat where "V2_INODE_SIZE = 64"
definition NR_INODES :: nat where "NR_INODES = 64"
definition ATIME :: "8 word" where "ATIME = 2"
definition CTIME :: "8 word" where "CTIME = 4"
definition MTIME :: "8 word" where "MTIME = 8"

text \<open>The two directions of \<^verbatim>\<open>old_icopy\<close>, for the disk inode at offset \<open>o\<close> of a block.\<close>

definition old_icopy_in :: "bool \<Rightarrow> data \<Rightarrow> nat \<Rightarrow> inode \<Rightarrow> inode" where
  "old_icopy_in norm d p rip =
     (let mtime = conv4 norm (get4 d (p + 8))
      in rip\<lparr>i_mode := conv2h norm (get2 d p), i_uid := conv2h norm (get2 d (p + 2)), i_size := conv4 norm (get4 d (p + 4)),
             i_mtime := mtime, i_atime := mtime, i_ctime := mtime, i_nlinks := d (p + 13), i_gid := d (p + 12),
             i_ndzones := V1_NR_DZONES, i_nindirs := V1_INDIRECTS,
             i_zone := (\<lambda>i. if i < V1_NR_TZONES then conv2 norm (ucast (get2 d (p + 14 + 2 * i))) else i_zone rip i)\<rparr>)"

definition old_icopy_out :: "bool \<Rightarrow> inode \<Rightarrow> nat \<Rightarrow> data \<Rightarrow> data" where
  "old_icopy_out norm rip p d =
     (let d1 = set2 p (conv2h norm (i_mode rip)) d;
          d2 = set2 (p + 2) (conv2h norm (i_uid rip)) d1;
          d3 = set4 (p + 4) (conv4 norm (i_size rip)) d2;
          d4 = set4 (p + 8) (conv4 norm (i_mtime rip)) d3;
          d5 = d4(p + 13 := i_nlinks rip);
          d6 = d5(p + 12 := i_gid rip)
      in fold (\<lambda>i. set2 (p + 14 + 2 * i) (ucast (conv2 norm (i_zone rip i)))) [0 ..< V1_NR_TZONES] d6)"

text \<open>
  \<^verbatim>\<open>new_icopy\<close>: link count and group are a \<^verbatim>\<open>char\<close> in memory and 16 bits on the disk; a \<^verbatim>\<open>char\<close> is
  sign-extended when it is passed to \<^verbatim>\<open>conv2\<close>.
\<close>

definition new_icopy_in :: "bool \<Rightarrow> data \<Rightarrow> nat \<Rightarrow> inode \<Rightarrow> inode" where
  "new_icopy_in norm d p rip =
     rip\<lparr>i_mode := conv2h norm (get2 d p), i_uid := conv2h norm (get2 d (p + 4)),
         i_nlinks := ucast (conv2 norm (ucast (get2 d (p + 2)))), i_gid := ucast (conv2 norm (ucast (get2 d (p + 6)))),
         i_size := conv4 norm (get4 d (p + 8)), i_atime := conv4 norm (get4 d (p + 12)), i_ctime := conv4 norm (get4 d (p + 20)),
         i_mtime := conv4 norm (get4 d (p + 16)), i_ndzones := V2_NR_DZONES, i_nindirs := V2_INDIRECTS,
         i_zone := (\<lambda>i. if i < V2_NR_TZONES then conv4 norm (get4 d (p + 24 + 4 * i)) else i_zone rip i)\<rparr>"

definition new_icopy_out :: "bool \<Rightarrow> inode \<Rightarrow> nat \<Rightarrow> data \<Rightarrow> data" where
  "new_icopy_out norm rip p d =
     (let d1 = set2 p (conv2h norm (i_mode rip)) d;
          d2 = set2 (p + 4) (conv2h norm (i_uid rip)) d1;
          d3 = set2 (p + 2) (ucast (conv2 norm (scast (i_nlinks rip)))) d2;
          d4 = set2 (p + 6) (ucast (conv2 norm (scast (i_gid rip)))) d3;
          d5 = set4 (p + 8) (conv4 norm (i_size rip)) d4;
          d6 = set4 (p + 12) (conv4 norm (i_atime rip)) d5;
          d7 = set4 (p + 20) (conv4 norm (i_ctime rip)) d6;
          d8 = set4 (p + 16) (conv4 norm (i_mtime rip)) d7
      in fold (\<lambda>i. set4 (p + 24 + 4 * i) (conv4 norm (i_zone rip i))) [0 ..< V2_NR_TZONES] d8)"

section \<open>Reading and writing inodes\<close>

definition upd_inode :: "nat \<Rightarrow> (inode \<Rightarrow> inode) \<Rightarrow> fs \<Rightarrow> fs" where
  "upd_inode i f s = s\<lparr>inode := (inode s)(i := f (inode s i))\<rparr>"

text \<open>\<open>now\<close> is what the clock task answers.\<close>

definition update_times :: "32 word \<Rightarrow> nat \<Rightarrow> fs \<Rightarrow> fs" where
  "update_times now rip s =
     (if s_rd_only (super_blocks s (i_sp (inode s rip))) then s
      else upd_inode rip
        (\<lambda>r. r\<lparr>i_atime := (if has (i_update r) ATIME then now else i_atime r), i_ctime := (if has (i_update r) CTIME then now else i_ctime r),
               i_mtime := (if has (i_update r) MTIME then now else i_mtime r), i_update := 0\<rparr>) s)"

text \<open>Block and byte offset of a disk inode; \<^verbatim>\<open>i_num - 1\<close> is unsigned in both divisions.\<close>

definition inode_block :: "super_block \<Rightarrow> 16 word \<Rightarrow> nat" where
  "inode_block sp num =
     unat (ucast num - 1 :: 32 word) div s_inodes_per_block sp + unat (scast (s_imap_blocks sp) + scast (s_zmap_blocks sp) + 2 :: 32 word)"

definition inode_offset :: "super_block \<Rightarrow> 16 word \<Rightarrow> nat" where
  "inode_offset sp num =
     (if s_version sp = 1 then V1_INODE_SIZE * (unat (ucast num - 1 :: 32 word) mod V1_INODES_PER_BLOCK)
      else V2_INODE_SIZE * (unat (ucast num - 1 :: 32 word) mod V2_INODES_PER_BLOCK))"

definition rw_inode :: "(nat \<Rightarrow> int) \<Rightarrow> 32 word \<Rightarrow> nat \<Rightarrow> bool \<Rightarrow> fs \<Rightarrow> fs outcome option" where
  "rw_inode io now rip reading s =
     and_then (get_super (i_dev (inode s rip)) s)
       (\<lambda>i. let sp = super_blocks s i;
                s1 = upd_inode rip (i_sp_update (\<lambda>_. i)) s;
                num = i_num (inode s rip)
            in and_then (get_block io (i_dev (inode s rip)) (inode_block sp num) NORMAL (fs_cache s1))
                 (\<lambda>(bp, c).
                    let s2 = s1\<lparr>fs_cache := c\<rparr>;
                        d = b_data (buf c bp);
                        p = inode_offset sp num;
                        s3 = (if reading
                              then upd_inode rip (if s_version sp = 1 then old_icopy_in (s_native sp) d p else new_icopy_in (s_native sp) d p) s2
                              else
                                let s4 = (if i_update (inode s2 rip) \<noteq> 0 then update_times now rip s2 else s2);
                                    c1 = (if \<not> s_rd_only sp then upd_buf bp (b_dirt_update (\<lambda>_. True)) c else c);
                                    d1 = (if s_version sp = 1 then old_icopy_out (s_native sp) (inode s4 rip) p d
                                          else new_icopy_out (s_native sp) (inode s4 rip) p d)
                                in s4\<lparr>fs_cache := upd_buf bp (b_data_update (\<lambda>_. d1)) c1\<rparr>)
                    in Some (Ret (upd_inode rip (i_dirt_update (\<lambda>_. False)) (s3\<lparr>fs_cache := put_block io (Some bp) INODE_BLOCK (fs_cache s3)\<rparr>)))))"

text \<open>
  The search through the table remembers the last free slot; \<open>None\<close> in the result is \<^verbatim>\<open>NIL_INODE\<close>.
\<close>

fun inode_search :: "(nat \<Rightarrow> inode) \<Rightarrow> int \<Rightarrow> 16 word \<Rightarrow> nat list \<Rightarrow> nat option \<Rightarrow> bool \<times> nat option" where
  "inode_search tab dev numb [] xp = (False, xp)"
| "inode_search tab dev numb (rip # rips) xp =
     (if i_count (tab rip) > 0
      then if i_dev (tab rip) = dev \<and> i_num (tab rip) = numb then (True, Some rip) else inode_search tab dev numb rips xp
      else inode_search tab dev numb rips (Some rip))"

definition get_inode :: "(nat \<Rightarrow> int) \<Rightarrow> 32 word \<Rightarrow> int \<Rightarrow> 16 word \<Rightarrow> fs \<Rightarrow> (nat option \<times> fs) outcome option" where
  "get_inode io now dev numb s =
     (case inode_search (inode s) dev numb [0 ..< NR_INODES] None of
        (True, Some rip) \<Rightarrow> Some (Ret (Some rip, upd_inode rip (i_count_update (\<lambda>n. n + 1)) s))
      | (_, None) \<Rightarrow> Some (Ret (None, s\<lparr>err_code := ENFILE\<rparr>))
      | (False, Some xp) \<Rightarrow>
          let s1 = upd_inode xp (\<lambda>r. r\<lparr>i_dev := dev, i_num := numb, i_count := 1\<rparr>) s
          in and_then (if dev \<noteq> NO_DEV then rw_inode io now xp True s1 else Some (Ret s1))
               (\<lambda>s2. Some (Ret (Some xp, upd_inode xp (i_update_update (\<lambda>_. 0)) s2))))"

definition dup_inode :: "nat \<Rightarrow> fs \<Rightarrow> fs" where
  "dup_inode ip s = upd_inode ip (i_count_update (\<lambda>n. n + 1)) s"

definition wipe_inode :: "nat \<Rightarrow> fs \<Rightarrow> fs" where
  "wipe_inode rip s =
     upd_inode rip (\<lambda>r. r\<lparr>i_size := 0, i_update := ATIME OR CTIME OR MTIME, i_dirt := True,
                          i_zone := (\<lambda>i. if i < V2_NR_TZONES then NO_ZONE else i_zone r i)\<rparr>) s"

definition free_inode :: "(nat \<Rightarrow> int) \<Rightarrow> int \<Rightarrow> 16 word \<Rightarrow> fs \<Rightarrow> fs outcome option" where
  "free_inode io dev inumb s =
     and_then (get_super dev s)
       (\<lambda>i. let sp = super_blocks s i; b = unat inumb in
            if inumb = 0 \<or> inumb > s_ninodes sp then Some (Ret s)
            else and_then (free_bit io sp IMAP b (fs_cache s))
                   (\<lambda>c. Some (Ret (if b < s_isearch sp then upd_super i (s_isearch_update (\<lambda>_. b)) (s\<lparr>fs_cache := c\<rparr>) else s\<lparr>fs_cache := c\<rparr>))))"

text \<open>\<open>effuid\<close> and \<open>effgid\<close> belong to the caller, \<^verbatim>\<open>fp\<close> in the source.\<close>

definition alloc_inode ::
  "(nat \<Rightarrow> int) \<Rightarrow> 32 word \<Rightarrow> 16 word \<Rightarrow> 8 word \<Rightarrow> int \<Rightarrow> 16 word \<Rightarrow> fs \<Rightarrow> (nat option \<times> fs) outcome option" where
  "alloc_inode io now effuid effgid dev bits s =
     and_then (get_super dev s)
       (\<lambda>i. let sp = super_blocks s i in
            if s_rd_only sp then Some (Ret (None, s\<lparr>err_code := EROFS\<rparr>))
            else and_then (alloc_bit io sp IMAP (s_isearch sp) (fs_cache s))
              (\<lambda>(b, c).
                 let s1 = s\<lparr>fs_cache := c\<rparr> in
                 if b = NO_BIT then Some (Ret (None, s1\<lparr>err_code := ENFILE\<rparr>))
                 else
                   let s2 = upd_super i (s_isearch_update (\<lambda>_. b)) s1
                   in and_then (get_inode io now NO_DEV (word_of_nat b) s2)
                        (\<lambda>(r, s3).
                           case r of
                             None \<Rightarrow> and_then (free_bit io (super_blocks s3 i) IMAP b (fs_cache s3)) (\<lambda>c1. Some (Ret (None, s3\<lparr>fs_cache := c1\<rparr>)))
                           | Some rip \<Rightarrow>
                               Some (Ret (Some rip,
                                 wipe_inode rip
                                   (upd_inode rip (\<lambda>r. r\<lparr>i_mode := bits, i_nlinks := 0, i_uid := effuid, i_gid := effgid, i_dev := dev,
                                                         i_ndzones := s_ndzones sp, i_nindirs := s_nindirs sp, i_sp := i\<rparr>) s3))))))"

end
