(* ===== verification/Fs_Inodes.thy ===== *)
theory Fs_Inodes
  imports Fs_Inode
begin

unbundle bit_operations_syntax

text \<open>
  Inodes survive the disk: what \<^verbatim>\<open>rw_inode\<close> writes is what it reads, in both formats and byte orders,
  and its neighbours in the block are not touched. The table holds no inode twice.
\<close>

section \<open>Fields at fixed offsets\<close>

lemma set2_byte: "set2 i w d k = (if k = i then ucast (drop_bit 8 w) else if k = i + 1 then ucast w else d k)"
  by (simp add: set2_def)

lemma get4_alt: "get4 d i = push_bit 16 (ucast (get2 d i)) OR ucast (get2 d (i + 2))"
  by (simp add: get4_def)

lemma get2_cong: "d i = e i \<Longrightarrow> d (i + 1) = e (i + 1) \<Longrightarrow> get2 d i = get2 e i"
  by (simp add: get2_def)

lemma set4_byte: "k < i \<or> i + 3 < k \<Longrightarrow> set4 i w d k = d k"
  by (auto simp: set4_def set2_byte)

lemma other_fields [simp]:
  "k < i \<or> i + 1 < k \<Longrightarrow> set2 i w d k = d k"
  "j + 1 < i \<or> i + 3 < j \<Longrightarrow> get2 (set4 i v d) j = get2 d j"
  "j + 3 < i \<or> i + 1 < j \<Longrightarrow> get4 (set2 i w d) j = get4 d j"
  "j + 3 < i \<or> i + 3 < j \<Longrightarrow> get4 (set4 i v d) j = get4 d j"
  "j + 1 < k \<or> k < j \<Longrightarrow> get2 (d(k := b)) j = get2 d j"
  "j + 3 < k \<or> k < j \<Longrightarrow> get4 (d(k := b)) j = get4 d j"
  by (auto simp: set2_byte set4_def get4_def get2_def)

declare get2_set2_other [simp] set4_byte [simp]

lemma zones4:
  "j < n \<Longrightarrow> get4 (fold (\<lambda>i. set4 (q + 4 * i) (f i)) [0 ..< n] d) (q + 4 * j) = f j"
  "k < q \<or> q + 4 * n \<le> k \<Longrightarrow> fold (\<lambda>i. set4 (q + 4 * i) (f i)) [0 ..< n] d k = d k"
proof -
  show "k < q \<or> q + 4 * n \<le> k \<Longrightarrow> fold (\<lambda>i. set4 (q + 4 * i) (f i)) [0 ..< n] d k = d k" by (induction n) auto
  show "j < n \<Longrightarrow> get4 (fold (\<lambda>i. set4 (q + 4 * i) (f i)) [0 ..< n] d) (q + 4 * j) = f j"
  proof (induction n)
    case (Suc n)
    then show ?case by (cases "j = n") auto
  qed simp
qed

lemma zones2:
  "j < n \<Longrightarrow> get2 (fold (\<lambda>i. set2 (q + 2 * i) (f i)) [0 ..< n] d) (q + 2 * j) = f j"
  "k < q \<or> q + 2 * n \<le> k \<Longrightarrow> fold (\<lambda>i. set2 (q + 2 * i) (f i)) [0 ..< n] d k = d k"
proof -
  show "k < q \<or> q + 2 * n \<le> k \<Longrightarrow> fold (\<lambda>i. set2 (q + 2 * i) (f i)) [0 ..< n] d k = d k" by (induction n) auto
  show "j < n \<Longrightarrow> get2 (fold (\<lambda>i. set2 (q + 2 * i) (f i)) [0 ..< n] d) (q + 2 * j) = f j"
  proof (induction n)
    case (Suc n)
    then show ?case by (cases "j = n") auto
  qed simp
qed

section \<open>Narrow fields\<close>

lemma conv2_twice: "conv2 norm (ucast (ucast (conv2 norm y) :: 16 word)) = take_bit 16 y"
proof (rule bit_word_eqI)
  fix n assume "n < LENGTH(32)"
  have "n < 16 \<Longrightarrow> ((n + 8) mod 16 + 8) mod 16 = n" by (simp add: mod_simps)
  then show "bit (conv2 norm (ucast (ucast (conv2 norm y) :: 16 word))) n = bit (take_bit 16 y) n"
    by (auto simp: bit_conv2 bit_ucast_iff bit_take_bit_iff)
qed

lemma char_roundtrip: "ucast (conv2 norm (ucast (ucast (conv2 norm (scast (x :: 8 word))) :: 16 word))) = x"
  unfolding conv2_twice
proof (rule bit_word_eqI)
  fix n assume "n < LENGTH(8)"
  then have "n < 8" by simp
  then show "bit (ucast (take_bit 16 (scast x :: 32 word)) :: 8 word) n = bit x n"
    by (cases "n = 7") (auto simp: bit_ucast_iff bit_take_bit_iff bit_signed_iff min_def)
qed

section \<open>The two formats\<close>

definition from_v1 :: "inode \<Rightarrow> inode \<Rightarrow> inode" where
  "from_v1 r r0 =
     r0\<lparr>i_mode := i_mode r, i_nlinks := i_nlinks r, i_uid := i_uid r, i_gid := i_gid r, i_size := i_size r, i_atime := i_mtime r, i_mtime := i_mtime r,
        i_ctime := i_mtime r, i_zone := (\<lambda>i. if i < V1_NR_TZONES then take_bit 16 (i_zone r i) else i_zone r0 i), i_ndzones := 7, i_nindirs := 512\<rparr>"

definition from_v2 :: "inode \<Rightarrow> inode \<Rightarrow> inode" where
  "from_v2 r r0 =
     r0\<lparr>i_mode := i_mode r, i_nlinks := i_nlinks r, i_uid := i_uid r, i_gid := i_gid r, i_size := i_size r, i_atime := i_atime r, i_mtime := i_mtime r,
        i_ctime := i_ctime r, i_zone := (\<lambda>i. if i < V2_NR_TZONES then i_zone r i else i_zone r0 i), i_ndzones := 7, i_nindirs := 256\<rparr>"

lemma v2_roundtrip: "new_icopy_in norm (new_icopy_out norm r p d) p r0 = from_v2 r r0"
proof -
  define h where "h = (let d1 = set2 p (conv2h norm (i_mode r)) d;
          d2 = set2 (p + 4) (conv2h norm (i_uid r)) d1;
          d3 = set2 (p + 2) (ucast (conv2 norm (scast (i_nlinks r)))) d2;
          d4 = set2 (p + 6) (ucast (conv2 norm (scast (i_gid r)))) d3;
          d5 = set4 (p + 8) (conv4 norm (i_size r)) d4;
          d6 = set4 (p + 12) (conv4 norm (i_atime r)) d5;
          d7 = set4 (p + 20) (conv4 norm (i_ctime r)) d6
      in set4 (p + 16) (conv4 norm (i_mtime r)) d7)"
  define e where "e = new_icopy_out norm r p d"
  have e': "e = fold (\<lambda>i. set4 (p + 24 + 4 * i) (conv4 norm (i_zone r i))) [0 ..< V2_NR_TZONES] h"
    by (simp add: e_def new_icopy_out_def h_def Let_def)
  have lo: "e k = h k" if "k < p + 24" for k unfolding e' by (rule zones4(2)) (simp add: that)
  have g2: "get2 e (p + j) = get2 h (p + j)" if "j + 1 < 24" for j by (rule get2_cong) (use that lo in simp_all)
  have g4: "get4 e (p + j) = get4 h (p + j)" if "j + 3 < 24" for j
    using g2 [of j] g2 [of "j + 2"] that by (simp add: get4_alt add.assoc)
  have z: "get4 e (p + 24 + 4 * i) = conv4 norm (i_zone r i)" if "i < V2_NR_TZONES" for i unfolding e' by (rule zones4(1) [OF that])
  have "get2 e p = conv2h norm (i_mode r)" using g2 [of 0] by (simp add: h_def Let_def)
  moreover have "get2 e (p + 4) = conv2h norm (i_uid r)" "get2 e (p + 2) = ucast (conv2 norm (scast (i_nlinks r)))"
    "get2 e (p + 6) = ucast (conv2 norm (scast (i_gid r)))" using g2 [of 4] g2 [of 2] g2 [of 6] by (simp_all add: h_def Let_def)
  moreover have "get4 e (p + 8) = conv4 norm (i_size r)" "get4 e (p + 12) = conv4 norm (i_atime r)" "get4 e (p + 20) = conv4 norm (i_ctime r)"
    "get4 e (p + 16) = conv4 norm (i_mtime r)" using g4 [of 8] g4 [of 12] g4 [of 20] g4 [of 16] by (simp_all add: h_def Let_def)
  moreover have "(\<lambda>i. if i < V2_NR_TZONES then conv4 norm (get4 e (p + 24 + 4 * i)) else i_zone r0 i) =
      (\<lambda>i. if i < V2_NR_TZONES then i_zone r i else i_zone r0 i)" using z by auto
  ultimately show ?thesis
    unfolding e_def [symmetric] by (simp add: new_icopy_in_def from_v2_def char_roundtrip V2_NR_DZONES_def V2_INDIRECTS_def)
qed

lemma v1_roundtrip: "old_icopy_in norm (old_icopy_out norm r p d) p r0 = from_v1 r r0"
proof -
  define h where "h = (let d1 = set2 p (conv2h norm (i_mode r)) d;
          d2 = set2 (p + 2) (conv2h norm (i_uid r)) d1;
          d3 = set4 (p + 4) (conv4 norm (i_size r)) d2;
          d4 = set4 (p + 8) (conv4 norm (i_mtime r)) d3;
          d5 = d4(p + 13 := i_nlinks r)
      in d5(p + 12 := i_gid r))"
  define e where "e = old_icopy_out norm r p d"
  have e': "e = fold (\<lambda>i. set2 (p + 14 + 2 * i) (ucast (conv2 norm (i_zone r i)))) [0 ..< V1_NR_TZONES] h"
    by (simp add: e_def old_icopy_out_def h_def Let_def)
  have lo: "e k = h k" if "k < p + 14" for k unfolding e' by (rule zones2(2)) (simp add: that)
  have g2: "get2 e (p + j) = get2 h (p + j)" if "j + 1 < 14" for j by (rule get2_cong) (use that lo in simp_all)
  have g4: "get4 e (p + j) = get4 h (p + j)" if "j + 3 < 14" for j
    using g2 [of j] g2 [of "j + 2"] that by (simp add: get4_alt add.assoc)
  have z: "get2 e (p + 14 + 2 * i) = ucast (conv2 norm (i_zone r i))" if "i < V1_NR_TZONES" for i unfolding e' by (rule zones2(1) [OF that])
  have "get2 e p = conv2h norm (i_mode r)" "get2 e (p + 2) = conv2h norm (i_uid r)" using g2 [of 0] g2 [of 2] by (simp_all add: h_def Let_def)
  moreover have "get4 e (p + 4) = conv4 norm (i_size r)" "get4 e (p + 8) = conv4 norm (i_mtime r)" using g4 [of 4] g4 [of 8] by (simp_all add: h_def Let_def)
  moreover have "e (p + 13) = i_nlinks r" "e (p + 12) = i_gid r" using lo [of "p + 13"] lo [of "p + 12"] by (simp_all add: h_def Let_def)
  moreover have "(\<lambda>i. if i < V1_NR_TZONES then conv2 norm (ucast (get2 e (p + 14 + 2 * i))) else i_zone r0 i) =
      (\<lambda>i. if i < V1_NR_TZONES then take_bit 16 (i_zone r i) else i_zone r0 i)" using z by (auto simp: conv2_twice)
  ultimately show ?thesis
    unfolding e_def [symmetric] by (simp add: old_icopy_in_def from_v1_def Let_def V1_NR_DZONES_def V1_INDIRECTS_def)
qed

lemma v2_bytes: "k < p \<or> p + 64 \<le> k \<Longrightarrow> new_icopy_out norm r p d k = d k"
  unfolding new_icopy_out_def Let_def by (subst zones4(2)) (auto simp: V2_NR_TZONES_def)

lemma v1_bytes: "k < p \<or> p + 32 \<le> k \<Longrightarrow> old_icopy_out norm r p d k = d k"
  unfolding old_icopy_out_def Let_def by (subst zones2(2)) (auto simp: V1_NR_TZONES_def)

section \<open>Through the cache\<close>

definition copy_in :: "super_block \<Rightarrow> data \<Rightarrow> 16 word \<Rightarrow> inode \<Rightarrow> inode" where
  "copy_in sp d num = (if s_version sp = 1 then old_icopy_in (s_native sp) d (inode_offset sp num) else new_icopy_in (s_native sp) d (inode_offset sp num))"

definition copy_out :: "super_block \<Rightarrow> inode \<Rightarrow> 16 word \<Rightarrow> data \<Rightarrow> data" where
  "copy_out sp r num = (if s_version sp = 1 then old_icopy_out (s_native sp) r (inode_offset sp num) else new_icopy_out (s_native sp) r (inode_offset sp num))"

definition from_disk :: "super_block \<Rightarrow> inode \<Rightarrow> inode \<Rightarrow> inode" where
  "from_disk sp = (if s_version sp = 1 then from_v1 else from_v2)"

lemma copy_roundtrip: "copy_in sp (copy_out sp r num d) num r0 = from_disk sp r r0"
  by (simp add: copy_in_def copy_out_def from_disk_def v1_roundtrip v2_roundtrip)

definition inode_bytes :: "super_block \<Rightarrow> 16 word \<Rightarrow> nat set" where
  "inode_bytes sp num = {inode_offset sp num ..< inode_offset sp num + (if s_version sp = 1 then 32 else 64)}"

lemma copy_out_bytes: "k \<notin> inode_bytes sp num \<Longrightarrow> copy_out sp r num d k = d k"
  unfolding copy_out_def inode_bytes_def using v1_bytes [of k "inode_offset sp num"] v2_bytes [of k "inode_offset sp num"]
  by (cases "s_version sp = 1") (auto simp: not_le)

lemma upd_inode_sel [simp]:
  "fs_cache (upd_inode i f s) = fs_cache s" "super_blocks (upd_inode i f s) = super_blocks s" "err_code (upd_inode i f s) = err_code s"
  "inode (upd_inode i f s) = (inode s)(i := f (inode s i))"
  by (simp_all add: upd_inode_def)

lemma get_super_inode: "super_blocks s' = super_blocks s \<Longrightarrow> get_super dev s' = get_super dev s"
  by (simp add: get_super_def)

lemma rw_inode_read:
  assumes gs: "get_super (i_dev (inode s rip)) s = Some (Ret i)" and rd: "ready io (i_dev (inode s rip)) (fs_cache s)"
  defines "sp \<equiv> super_blocks s i" and "num \<equiv> i_num (inode s rip)"
  defines "d \<equiv> view (fs_cache s) (i_dev (inode s rip)) (inode_block sp num)"
  obtains c where "rw_inode io now rip True s = Some (Ret (upd_inode rip (\<lambda>r. (copy_in sp d num (r\<lparr>i_sp := i\<rparr>))\<lparr>i_dirt := False\<rparr>) (s\<lparr>fs_cache := c\<rparr>)))"
    "moved (fs_cache s) c (view (fs_cache s))"
proof -
  obtain k c1 where g: "get_block io (i_dev (inode s rip)) (inode_block sp num) NORMAL (fs_cache s) = Some (Ret (k, c1))"
    "b_data (buf c1 k) = d" "\<And>t. moved (fs_cache s) (put_block io (Some k) t c1) (view (fs_cache s))"
    unfolding d_def by (rule transaction [OF rd]) blast
  have "rw_inode io now rip True s = Some (Ret (upd_inode rip (\<lambda>r. (copy_in sp d num (r\<lparr>i_sp := i\<rparr>))\<lparr>i_dirt := False\<rparr>)
      (s\<lparr>fs_cache := put_block io (Some k) INODE_BLOCK c1\<rparr>)))"
    using g(1,2) by (simp add: rw_inode_def gs sp_def num_def copy_in_def upd_inode_def Let_def)
  then show thesis using g(3) [of INODE_BLOCK] by (rule that)
qed

text \<open>The inode as \<^verbatim>\<open>rw_inode\<close> writes it, with its times filled in.\<close>

definition stamped :: "32 word \<Rightarrow> inode \<Rightarrow> inode" where
  "stamped now r =
     r\<lparr>i_atime := (if has (i_update r) ATIME then now else i_atime r), i_ctime := (if has (i_update r) CTIME then now else i_ctime r),
       i_mtime := (if has (i_update r) MTIME then now else i_mtime r), i_update := 0\<rparr>"

lemma stamped_idle: "i_update r = 0 \<Longrightarrow> stamped now r = r"
  by (simp add: stamped_def has_def)

lemma rw_inode_write:
  fixes now :: "32 word"
  assumes gs: "get_super (i_dev (inode s rip)) s = Some (Ret i)" and rd: "ready io (i_dev (inode s rip)) (fs_cache s)"
    and rw: "\<not> s_rd_only (super_blocks s i)"
  defines "sp \<equiv> super_blocks s i" and "num \<equiv> i_num (inode s rip)" and "dev \<equiv> i_dev (inode s rip)"
  defines "r \<equiv> stamped now ((inode s rip)\<lparr>i_sp := i\<rparr>)" and "V \<equiv> view (fs_cache s)"
  obtains c where "rw_inode io now rip False s = Some (Ret (upd_inode rip (\<lambda>_. r\<lparr>i_dirt := False\<rparr>) (s\<lparr>fs_cache := c\<rparr>)))"
    "moved (fs_cache s) c (set_view dev (inode_block sp num) (copy_out sp r num (V dev (inode_block sp num))) V)"
proof -
  let ?b = "inode_block sp num"
  obtain k c1 where g: "get_block io dev ?b NORMAL (fs_cache s) = Some (Ret (k, c1))" "b_data (buf c1 k) = V dev ?b"
    "\<And>t v. moved (fs_cache s) (put_block io (Some k) t (set_block k v c1)) (set_view dev ?b v V)"
    unfolding V_def dev_def by (rule transaction [OF rd]) blast
  let ?d1 = "copy_out sp r num (V dev ?b)"
  have sb: "upd_buf k (b_data_update (\<lambda>_. v)) (upd_buf k (b_dirt_update (\<lambda>_. True)) c1) = set_block k v c1" for v
  proof -
    show ?thesis unfolding upd_buf_def set_block_def by (cases "buf c1 k") simp
  qed
  have "rw_inode io now rip False s = Some (Ret (upd_inode rip (\<lambda>_. r\<lparr>i_dirt := False\<rparr>) (s\<lparr>fs_cache := put_block io (Some k) INODE_BLOCK (set_block k ?d1 c1)\<rparr>)))"
    using g(1,2) rw stamped_idle [of "(inode s rip)\<lparr>i_sp := i\<rparr>" now]
    by (cases "i_update (inode s rip) = 0")
      (simp_all add: rw_inode_def gs sp_def num_def dev_def copy_out_def Let_def sb update_times_def r_def stamped_def upd_inode_def)
  then show thesis using g(3) [of INODE_BLOCK ?d1] by (rule that)
qed

text \<open>
  (C30) An inode that is written and read again is the same inode, for both formats, both byte orders and
  whatever slot of the table it is read into: mode, owner, group, links, size, times and zones come
  back (V1 keeps one time and 16 bits of each zone). On the disk only the bytes of this inode have
  changed, no other inode of the block, and no other block.
\<close>

theorem rw_inode_roundtrip:
  assumes "get_super (i_dev (inode s rip)) s = Some (Ret i)" "ready io (i_dev (inode s rip)) (fs_cache s)" "\<not> s_rd_only (super_blocks s i)"
  shows "\<exists>s1 s2. rw_inode io now rip False s = Some (Ret s1) \<and>
    rw_inode io now' q True (upd_inode q (\<lambda>r. r\<lparr>i_dev := i_dev (inode s rip), i_num := i_num (inode s rip)\<rparr>) s1) = Some (Ret s2) \<and>
    (let r1 = inode s1 rip; r2 = inode s2 q; sp = super_blocks s i; b = inode_block sp (i_num (inode s rip))
     in i_mode r2 = i_mode r1 \<and> i_uid r2 = i_uid r1 \<and> i_gid r2 = i_gid r1 \<and> i_nlinks r2 = i_nlinks r1 \<and> i_size r2 = i_size r1 \<and> i_mtime r2 = i_mtime r1 \<and>
        (s_version sp \<noteq> 1 \<longrightarrow> i_atime r2 = i_atime r1 \<and> i_ctime r2 = i_ctime r1 \<and> (\<forall>n < 10. i_zone r2 n = i_zone r1 n)) \<and>
        (s_version sp = 1 \<longrightarrow> (\<forall>n < 9. i_zone r2 n = take_bit 16 (i_zone r1 n))) \<and>
        (\<forall>n < 10. i_zone r1 n = i_zone (inode s rip) n) \<and> i_size r1 = i_size (inode s rip) \<and> \<not> i_dirt r1 \<and>
        (\<exists>d. moved (fs_cache s) (fs_cache s2) (set_view (i_dev (inode s rip)) b d (view (fs_cache s))) \<and>
           (\<forall>k. k \<notin> inode_bytes sp (i_num (inode s rip)) \<longrightarrow> d k = view (fs_cache s) (i_dev (inode s rip)) b k)))"
proof -
  let ?sp = "super_blocks s i" and ?num = "i_num (inode s rip)" and ?dev = "i_dev (inode s rip)" and ?V = "view (fs_cache s)"
  let ?b = "inode_block ?sp ?num"
  let ?r = "stamped now ((inode s rip)\<lparr>i_sp := i\<rparr>)"
  let ?d = "copy_out ?sp ?r ?num (?V ?dev ?b)"
  obtain c where w: "rw_inode io now rip False s = Some (Ret (upd_inode rip (\<lambda>_. ?r\<lparr>i_dirt := False\<rparr>) (s\<lparr>fs_cache := c\<rparr>)))"
    "moved (fs_cache s) c (set_view ?dev ?b ?d ?V)" by (rule rw_inode_write [OF assms])
  define s1 where "s1 = upd_inode rip (\<lambda>_. ?r\<lparr>i_dirt := False\<rparr>) (s\<lparr>fs_cache := c\<rparr>)"
  define s1' where "s1' = upd_inode q (\<lambda>r. r\<lparr>i_dev := ?dev, i_num := ?num\<rparr>) s1"
  have f: "fs_cache s1' = c" "super_blocks s1' = super_blocks s" "i_dev (inode s1' q) = ?dev" "i_num (inode s1' q) = ?num"
    by (simp_all add: s1'_def s1_def)
  have gs: "get_super (i_dev (inode s1' q)) s1' = Some (Ret i)" using assms(1) get_super_inode [OF f(2)] by (simp add: f)
  have rd: "ready io (i_dev (inode s1' q)) (fs_cache s1')" using moved_ready [OF w(2) assms(2)] by (simp add: f)
  obtain c2 where g: "rw_inode io now' q True s1' =
      Some (Ret (upd_inode q (\<lambda>r. (copy_in ?sp (view c ?dev ?b) ?num (r\<lparr>i_sp := i\<rparr>))\<lparr>i_dirt := False\<rparr>) (s1'\<lparr>fs_cache := c2\<rparr>)))"
    "moved c c2 (view c)" by (rule rw_inode_read [OF gs rd, of now']) (simp add: f)
  have "usable (fs_cache s) ?dev" using assms(2) by (simp add: ready_def)
  then have "view c ?dev ?b = ?d" using w(2) by (simp add: moved_def set_view_def)
  then have rt: "copy_in ?sp (view c ?dev ?b) ?num r0 = from_disk ?sp ?r r0" for r0 by (simp add: copy_roundtrip)
  define s2 where "s2 = upd_inode q (\<lambda>r. (copy_in ?sp (view c ?dev ?b) ?num (r\<lparr>i_sp := i\<rparr>))\<lparr>i_dirt := False\<rparr>) (s1'\<lparr>fs_cache := c2\<rparr>)"
  have r2: "inode s2 q = (from_disk ?sp ?r ((inode s1' q)\<lparr>i_sp := i\<rparr>))\<lparr>i_dirt := False\<rparr>" by (simp add: s2_def rt)
  have r1: "inode s1 rip = ?r\<lparr>i_dirt := False\<rparr>" by (simp add: s1_def)
  have z: "i_zone ?r = i_zone (inode s rip)" "i_size ?r = i_size (inode s rip)" by (simp_all add: stamped_def)
  have mv: "moved (fs_cache s) (fs_cache s2) (set_view ?dev ?b ?d ?V)"
  proof (rule moved_cong)
    have "moved c (fs_cache s2) (view c)" using g(2) by (simp add: s2_def)
    with w(2) show "moved (fs_cache s) (fs_cache s2) (view c)" by (rule moved_trans)
    show "view c d b' = set_view ?dev ?b ?d ?V d b'" if "usable (fs_cache s) d" for d b' using w(2) that by (simp add: moved_def)
  qed
  have out: "\<forall>k. k \<notin> inode_bytes ?sp ?num \<longrightarrow> ?d k = ?V ?dev ?b k" by (simp add: copy_out_bytes)
  have e: "rw_inode io now rip False s = Some (Ret s1)"
    "rw_inode io now' q True (upd_inode q (\<lambda>r. r\<lparr>i_dev := ?dev, i_num := ?num\<rparr>) s1) = Some (Ret s2)"
    using w(1) g(1) by (simp_all only: s1_def s1'_def s2_def)
  have flds: "i_mode (inode s2 q) = i_mode (inode s1 rip) \<and> i_uid (inode s2 q) = i_uid (inode s1 rip) \<and> i_gid (inode s2 q) = i_gid (inode s1 rip) \<and>
      i_nlinks (inode s2 q) = i_nlinks (inode s1 rip) \<and> i_size (inode s2 q) = i_size (inode s1 rip) \<and> i_mtime (inode s2 q) = i_mtime (inode s1 rip) \<and>
      (s_version ?sp \<noteq> 1 \<longrightarrow> i_atime (inode s2 q) = i_atime (inode s1 rip) \<and> i_ctime (inode s2 q) = i_ctime (inode s1 rip) \<and> (\<forall>n < 10. i_zone (inode s2 q) n = i_zone (inode s1 rip) n)) \<and>
      (s_version ?sp = 1 \<longrightarrow> (\<forall>n < 9. i_zone (inode s2 q) n = take_bit 16 (i_zone (inode s1 rip) n))) \<and>
      (\<forall>n < 10. i_zone (inode s1 rip) n = i_zone (inode s rip) n) \<and> i_size (inode s1 rip) = i_size (inode s rip) \<and> \<not> i_dirt (inode s1 rip)"
    unfolding r1 r2 using z by (simp add: from_disk_def from_v1_def from_v2_def V1_NR_TZONES_def V2_NR_TZONES_def)
  show ?thesis unfolding Let_def using e flds mv out by blast
qed

text \<open>A file of the sample file system: inode 3, in slot 0.\<close>

definition file_fs :: fs where
  "file_fs = sample_fs\<lparr>inode := (\<lambda>k. if k = 0 then blank_inode\<lparr>i_mode := 0x81A4, i_nlinks := 1, i_uid := 7, i_gid := 200, i_size := 5000, i_zone := (\<lambda>n. of_nat (10 + n)),
     i_dev := 768, i_num := 3, i_count := 1, i_update := 2\<rparr> else blank_inode)\<rparr>"

lemma file_fs_sel:
  "fs_cache file_fs = sample_cache" "super_blocks file_fs = (\<lambda>_. sample_super)" "i_dev (inode file_fs 0) = 768" "i_num (inode file_fs 0) = 3"
  "i_size (inode file_fs 0) = 5000" "get_super 768 file_fs = Some (Ret 0)"
  by (simp_all add: file_fs_def sample_fs_def get_super_def sample_sizes NR_SUPERS_def upt_conv_Cons)

theorem rw_inode_roundtrip_witness:
  "\<exists>s1 s2. rw_inode good_io 1000 0 False file_fs = Some (Ret s1) \<and>
     rw_inode good_io 2000 5 True (upd_inode 5 (\<lambda>r. r\<lparr>i_dev := 768, i_num := 3\<rparr>) s1) = Some (Ret s2) \<and> i_size (inode s2 5) = 5000"
proof -
  have "get_super (i_dev (inode file_fs 0)) file_fs = Some (Ret 0)" "ready good_io (i_dev (inode file_fs 0)) (fs_cache file_fs)"
    "\<not> s_rd_only (super_blocks file_fs 0)" using sample_ready by (simp_all add: file_fs_sel sample_sizes)
  from rw_inode_roundtrip [OF this, of 1000 2000 5]
  obtain s1 s2 where "rw_inode good_io 1000 0 False file_fs = Some (Ret s1)"
    "rw_inode good_io 2000 5 True (upd_inode 5 (\<lambda>r. r\<lparr>i_dev := 768, i_num := 3\<rparr>) s1) = Some (Ret s2)"
    "i_size (inode s2 5) = i_size (inode s1 0)" "i_size (inode s1 0) = 5000" unfolding Let_def file_fs_sel by blast
  then show ?thesis by auto
qed

section \<open>The inode table\<close>

definition tab_ok :: "fs \<Rightarrow> bool" where
  "tab_ok s \<longleftrightarrow> (\<forall>i < NR_INODES. \<forall>j < NR_INODES. i_count (inode s i) > 0 \<longrightarrow> i_count (inode s j) > 0 \<longrightarrow> i_dev (inode s i) = i_dev (inode s j) \<longrightarrow>
     i_num (inode s i) = i_num (inode s j) \<longrightarrow> i = j)"

definition in_core :: "fs \<Rightarrow> int \<Rightarrow> 16 word \<Rightarrow> nat \<Rightarrow> bool" where
  "in_core s dev numb k \<longleftrightarrow> k < NR_INODES \<and> i_count (inode s k) > 0 \<and> i_dev (inode s k) = dev \<and> i_num (inode s k) = numb"

lemma inode_search_cases:
  "case inode_search tab dev numb xs xp of
     (True, r) \<Rightarrow> \<exists>k. r = Some k \<and> k \<in> set xs \<and> i_count (tab k) > 0 \<and> i_dev (tab k) = dev \<and> i_num (tab k) = numb
   | (False, r) \<Rightarrow> (\<forall>k \<in> set xs. i_count (tab k) > 0 \<longrightarrow> \<not> (i_dev (tab k) = dev \<and> i_num (tab k) = numb)) \<and>
       (case r of None \<Rightarrow> xp = None \<and> (\<forall>k \<in> set xs. i_count (tab k) > 0) | Some k \<Rightarrow> Some k = xp \<or> k \<in> set xs \<and> \<not> i_count (tab k) > 0)"
proof (induction xs arbitrary: xp)
  case Nil
  then show ?case by (simp split: option.split)
next
  case (Cons x xs)
  show ?case
  proof (cases "i_count (tab x) > 0 \<and> i_dev (tab x) = dev \<and> i_num (tab x) = numb")
    case True
    then show ?thesis by simp
  next
    case nx: False
    show ?thesis
    proof (cases "i_count (tab x) > 0")
      case True
      then show ?thesis using nx Cons.IH [of xp] by (auto split: prod.splits bool.splits option.splits)
    next
      case False
      then show ?thesis using Cons.IH [of "Some x"] by (auto split: prod.splits bool.splits option.splits)
    qed
  qed
qed

lemma tab_ok_keys:
  assumes "tab_ok s" "\<And>j. i_count (inode s' j) > 0 \<Longrightarrow> i_dev (inode s' j) = i_dev (inode s j) \<and> i_num (inode s' j) = i_num (inode s j)"
    "\<And>j. i_count (inode s' j) > 0 \<Longrightarrow> i_count (inode s j) > 0"
  shows "tab_ok s'"
  unfolding tab_ok_def
proof (intro allI impI)
  fix a b assume h: "a < NR_INODES" "b < NR_INODES" "i_count (inode s' a) > 0" "i_count (inode s' b) > 0" "i_dev (inode s' a) = i_dev (inode s' b)"
    "i_num (inode s' a) = i_num (inode s' b)"
  then have "i_dev (inode s a) = i_dev (inode s b)" "i_num (inode s a) = i_num (inode s b)" using assms(2) [OF h(3)] assms(2) [OF h(4)] by simp_all
  then show "a = b" using assms(1) h(1,2) assms(3) [OF h(3)] assms(3) [OF h(4)] unfolding tab_ok_def by blast
qed

lemma tab_ok_add:
  assumes "tab_ok s" "\<And>j. j \<noteq> k \<Longrightarrow> inode s' j = inode s j" "\<And>j. \<not> in_core s (i_dev (inode s' k)) (i_num (inode s' k)) j"
  shows "tab_ok s'"
  unfolding tab_ok_def
proof (intro allI impI)
  fix a b assume h: "a < NR_INODES" "b < NR_INODES" "i_count (inode s' a) > 0" "i_count (inode s' b) > 0" "i_dev (inode s' a) = i_dev (inode s' b)"
    "i_num (inode s' a) = i_num (inode s' b)"
  consider "a = k" "b = k" | "a = k" "b \<noteq> k" | "a \<noteq> k" "b = k" | "a \<noteq> k" "b \<noteq> k" by blast
  then show "a = b"
  proof cases
    case 2
    then show ?thesis using h assms(3) [of b] assms(2) [of b] by (simp add: in_core_def)
  next
    case 3
    then show ?thesis using h assms(3) [of a] assms(2) [of a] by (simp add: in_core_def)
  next
    case 4
    then have "inode s' a = inode s a" "inode s' b = inode s b" using assms(2) by blast+
    then show ?thesis using h assms(1) unfolding tab_ok_def by simp
  qed simp
qed

lemma get_inode_result:
  assumes "tab_ok s" "dev \<noteq> NO_DEV" "ready io dev (fs_cache s)" "get_super dev s = Some (Ret i)"
  shows "\<exists>r s'. get_inode io now dev numb s = Some (Ret (r, s')) \<and> tab_ok s' \<and> moved (fs_cache s) (fs_cache s') (view (fs_cache s)) \<and>
    (r = None \<longrightarrow> (\<forall>k < NR_INODES. i_count (inode s k) > 0) \<and> (\<forall>k. \<not> in_core s dev numb k) \<and> inode s' = inode s \<and> err_code s' = ENFILE) \<and>
    (\<forall>k. r = Some k \<longrightarrow> in_core s' dev numb k \<and> (\<forall>j. j \<noteq> k \<longrightarrow> inode s' j = inode s j) \<and>
       (in_core s dev numb k \<longrightarrow> inode s' k = (inode s k)\<lparr>i_count := i_count (inode s k) + 1\<rparr>) \<and>
       (\<not> in_core s dev numb k \<longrightarrow> (\<forall>j. \<not> in_core s dev numb j) \<and> \<not> i_count (inode s k) > 0 \<and> i_count (inode s' k) = 1 \<and>
          (let from = copy_in (super_blocks s i) (view (fs_cache s) dev (inode_block (super_blocks s i) numb)) numb (inode s k)
           in i_mode (inode s' k) = i_mode from \<and> i_size (inode s' k) = i_size from \<and> i_zone (inode s' k) = i_zone from \<and> i_nlinks (inode s' k) = i_nlinks from)))"
proof -
  note sc = inode_search_cases [where tab = "inode s" and dev = dev and numb = numb and xs = "[0 ..< NR_INODES]" and xp = None]
  have same: "moved (fs_cache s) (fs_cache s) (view (fs_cache s))" using assms(3) by (simp add: moved_def ready_def)
  obtain f r where fr: "inode_search (inode s) dev numb [0 ..< NR_INODES] None = (f, r)" by force
  consider (found) k where "f" "r = Some k" "in_core s dev numb k"
    | (full) "\<not> f" "r = None" "\<forall>k < NR_INODES. i_count (inode s k) > 0" "\<forall>j. \<not> in_core s dev numb j"
    | (free) k where "\<not> f" "r = Some k" "k < NR_INODES" "\<not> i_count (inode s k) > 0" "\<forall>j. \<not> in_core s dev numb j"
    using sc unfolding fr by (cases f; cases r) (auto simp: in_core_def)
  then show ?thesis
  proof cases
    case found
    let ?s = "upd_inode k (i_count_update (\<lambda>n. n + 1)) s"
    have k: "k < NR_INODES" "i_count (inode s k) > 0" "i_dev (inode s k) = dev" "i_num (inode s k) = numb" using found(3) by (simp_all add: in_core_def)
    have "get_inode io now dev numb s = Some (Ret (Some k, ?s))" using fr found(1,2) by (simp add: get_inode_def)
    moreover have "tab_ok ?s"
    proof (rule tab_ok_keys [OF assms(1)])
      show "i_dev (inode ?s j) = i_dev (inode s j) \<and> i_num (inode ?s j) = i_num (inode s j)" if "i_count (inode ?s j) > 0" for j by simp
      show "i_count (inode s j) > 0" if "i_count (inode ?s j) > 0" for j using that k(2) by (cases "j = k") simp_all
    qed
    moreover have "in_core ?s dev numb k" using k by (simp add: in_core_def)
    ultimately show ?thesis using found(3) same by (intro exI [of _ "Some k"] exI [of _ ?s]) simp
  next
    case full
    have "get_inode io now dev numb s = Some (Ret (None, s\<lparr>err_code := ENFILE\<rparr>))" using fr full(1,2) by (simp add: get_inode_def)
    then show ?thesis using full(3,4) same assms(1) by (intro exI [of _ None] exI [of _ "s\<lparr>err_code := ENFILE\<rparr>"]) (simp add: tab_ok_def)
  next
    case free
    define s1 where "s1 = upd_inode k (\<lambda>r. r\<lparr>i_dev := dev, i_num := numb, i_count := 1\<rparr>) s"
    have f1: "i_dev (inode s1 k) = dev" "i_num (inode s1 k) = numb" "super_blocks s1 = super_blocks s" "fs_cache s1 = fs_cache s" by (simp_all add: s1_def)
    have gs: "get_super (i_dev (inode s1 k)) s1 = Some (Ret i)" using assms(4) get_super_inode [OF f1(3)] by (simp add: f1)
    have rd: "ready io (i_dev (inode s1 k)) (fs_cache s1)" using assms(3) by (simp add: f1)
    define D where "D = view (fs_cache s) dev (inode_block (super_blocks s i) numb)"
    obtain c where w: "rw_inode io now k True s1 = Some (Ret (upd_inode k (\<lambda>r. (copy_in (super_blocks s i) D numb (r\<lparr>i_sp := i\<rparr>))\<lparr>i_dirt := False\<rparr>) (s1\<lparr>fs_cache := c\<rparr>)))"
      "moved (fs_cache s) c (view (fs_cache s))" by (rule rw_inode_read [OF gs rd, of now]) (simp add: f1 D_def)
    define s' where "s' = upd_inode k (i_update_update (\<lambda>_. 0)) (upd_inode k (\<lambda>r. (copy_in (super_blocks s i) D numb (r\<lparr>i_sp := i\<rparr>))\<lparr>i_dirt := False\<rparr>) (s1\<lparr>fs_cache := c\<rparr>))"
    have get: "get_inode io now dev numb s = Some (Ret (Some k, s'))"
      using fr free(1,2) assms(2) w(1) by (simp add: get_inode_def Let_def s1_def [symmetric] s'_def)
    have nk: "i_dev (inode s' k) = dev" "i_num (inode s' k) = numb" "i_count (inode s' k) = 1" and ot: "\<And>j. j \<noteq> k \<Longrightarrow> inode s' j = inode s j"
      by (simp_all add: s'_def s1_def copy_in_def old_icopy_in_def new_icopy_in_def Let_def)
    have tab: "tab_ok s'"
    proof (rule tab_ok_add [OF assms(1), of k])
      show "\<And>j. j \<noteq> k \<Longrightarrow> inode s' j = inode s j" by (rule ot)
      show "\<And>j. \<not> in_core s (i_dev (inode s' k)) (i_num (inode s' k)) j" using free(5) nk by simp
    qed
    have flds: "i_mode (inode s' k) = i_mode (copy_in (super_blocks s i) D numb (inode s k))" "i_size (inode s' k) = i_size (copy_in (super_blocks s i) D numb (inode s k))"
      "i_zone (inode s' k) = i_zone (copy_in (super_blocks s i) D numb (inode s k))" "i_nlinks (inode s' k) = i_nlinks (copy_in (super_blocks s i) D numb (inode s k))"
      by (simp_all add: s'_def s1_def copy_in_def old_icopy_in_def new_icopy_in_def Let_def fun_eq_iff)
    have c: "fs_cache s' = c" by (simp add: s'_def)
    have ic: "in_core s' dev numb k" "\<not> in_core s dev numb k" using nk free(3,5) by (simp_all add: in_core_def)
    show ?thesis unfolding Let_def D_def [symmetric]
      using get tab w(2) c ic flds ot free(4,5) nk(3) by (intro exI [of _ "Some k"] exI [of _ s']) simp
  qed
qed

text \<open>
  (C31) \<^verbatim>\<open>get_inode\<close> keeps one copy of every inode: an inode that is in the table is found and counted once
  more, with its contents as they are in memory; otherwise a free slot receives it from the disk;
  only if all slots are in use does it fail, with \<^verbatim>\<open>ENFILE\<close>. No other slot changes and the table
  stays free of duplicates.
\<close>

theorem get_inode_one_copy:
  assumes "tab_ok s" "dev \<noteq> NO_DEV" "ready io dev (fs_cache s)" "get_super dev s = Some (Ret i)"
  shows "\<exists>r s'. get_inode io now dev numb s = Some (Ret (r, s')) \<and> tab_ok s' \<and> moved (fs_cache s) (fs_cache s') (view (fs_cache s)) \<and>
    (r = None \<longrightarrow> (\<forall>k < NR_INODES. i_count (inode s k) > 0) \<and> (\<forall>k. \<not> in_core s dev numb k) \<and> inode s' = inode s \<and> err_code s' = ENFILE) \<and>
    (\<forall>k. r = Some k \<longrightarrow> in_core s' dev numb k \<and> (\<forall>j. j \<noteq> k \<longrightarrow> inode s' j = inode s j) \<and>
       (in_core s dev numb k \<longrightarrow> inode s' k = (inode s k)\<lparr>i_count := i_count (inode s k) + 1\<rparr>) \<and>
       (\<not> in_core s dev numb k \<longrightarrow> (\<forall>j. \<not> in_core s dev numb j) \<and> \<not> i_count (inode s k) > 0 \<and> i_count (inode s' k) = 1 \<and>
          (let from = copy_in (super_blocks s i) (view (fs_cache s) dev (inode_block (super_blocks s i) numb)) numb (inode s k)
           in i_mode (inode s' k) = i_mode from \<and> i_size (inode s' k) = i_size from \<and> i_zone (inode s' k) = i_zone from \<and> i_nlinks (inode s' k) = i_nlinks from)))"
  by (rule get_inode_result [OF assms])

theorem get_inode_one_copy_witness:
  "\<exists>s1. get_inode good_io 0 768 3 file_fs = Some (Ret (Some 0, s1)) \<and> i_count (inode s1 0) = 2"
proof -
  have t: "inode file_fs k = (if k = 0 then inode file_fs 0 else blank_inode)" for k by (simp add: file_fs_def)
  have c: "i_count (inode file_fs 0) = 1" "i_count blank_inode = 0" by (simp_all add: file_fs_def blank_inode_def)
  have cnt: "i_count (inode file_fs k) > 0 \<longleftrightarrow> k = 0" for k by (subst t) (simp add: c)
  have ok: "tab_ok file_fs" using cnt by (simp add: tab_ok_def)
  have h: "(768 :: int) \<noteq> NO_DEV" "ready good_io 768 (fs_cache file_fs)" "get_super 768 file_fs = Some (Ret 0)"
    using sample_ready by (simp_all add: file_fs_sel NO_DEV_def)
  have ic: "in_core file_fs 768 3 k \<longleftrightarrow> k = 0" for k using cnt [of k] by (auto simp: in_core_def file_fs_sel NR_INODES_def)
  have "\<exists>r s1. get_inode good_io 0 768 3 file_fs = Some (Ret (r, s1)) \<and> (r = None \<longrightarrow> (\<forall>k. \<not> in_core file_fs 768 3 k)) \<and>
    (\<forall>k. r = Some k \<longrightarrow> (in_core file_fs 768 3 k \<longrightarrow> inode s1 k = (inode file_fs k)\<lparr>i_count := i_count (inode file_fs k) + 1\<rparr>) \<and>
       (\<not> in_core file_fs 768 3 k \<longrightarrow> (\<forall>j. \<not> in_core file_fs 768 3 j)))"
    using get_inode_one_copy [OF ok h, of 0 3] apply (elim exE conjE)
    apply (rule exI)+
    apply (rule conjI, assumption)
    apply simp
    done
  then obtain r s1 where 1: "get_inode good_io 0 768 3 file_fs = Some (Ret (r, s1))" "r = None \<longrightarrow> (\<forall>k. \<not> in_core file_fs 768 3 k)"
    "\<forall>k. r = Some k \<longrightarrow> (in_core file_fs 768 3 k \<longrightarrow> inode s1 k = (inode file_fs k)\<lparr>i_count := i_count (inode file_fs k) + 1\<rparr>) \<and>
       (\<not> in_core file_fs 768 3 k \<longrightarrow> (\<forall>j. \<not> in_core file_fs 768 3 j))" by (elim exE conjE) (rule that)
  have "r = Some 0"
  proof (cases r)
    case None
    then show ?thesis using 1(2) ic by blast
  next
    case (Some k)
    then have "in_core file_fs 768 3 k" using 1(3) ic by blast
    then show ?thesis using Some ic by simp
  qed
  moreover have "i_count (inode s1 0) = 2" using 1(3) ic c calculation by simp
  ultimately show ?thesis using 1(1) by blast
qed

end
