(* ===== verification/Fs_Map.thy ===== *)
theory Fs_Map
  imports Fs_Inodes
begin

unbundle bit_operations_syntax

text \<open>
  From positions in a file to blocks on the disk: \<^verbatim>\<open>read_map\<close> and \<^verbatim>\<open>rd_indir\<close> of \<^verbatim>\<open>src/src/fs/read.c\<close>,
  \<^verbatim>\<open>write_map\<close>, \<^verbatim>\<open>wr_indir\<close>, \<^verbatim>\<open>clear_zone\<close>, \<^verbatim>\<open>new_block\<close> and \<^verbatim>\<open>zero_block\<close> of \<^verbatim>\<open>write.c\<close>, \<^verbatim>\<open>truncate\<close> of
  \<^verbatim>\<open>link.c\<close> and \<^verbatim>\<open>put_inode\<close> of \<^verbatim>\<open>inode.c\<close>. The first seven zones of a file are in its inode, then come
  a single and a double indirect block.
\<close>

section \<open>Reading the map\<close>

definition EFBIG :: int where "EFBIG = - 27"
definition I_TYPE :: "16 word" where "I_TYPE = 0xF000"
definition I_CHAR_SPECIAL :: "16 word" where "I_CHAR_SPECIAL = 0x2000"
definition I_BLOCK_SPECIAL :: "16 word" where "I_BLOCK_SPECIAL = 0x6000"
definition I_NOT_ALLOC :: "16 word" where "I_NOT_ALLOC = 0"
definition PIPE_SIZE :: "32 word" where "PIPE_SIZE = 7 * 1024"

text \<open>\<^verbatim>\<open>(block_t) z << scale\<close>\<close>

definition block_of_zone :: "32 word \<Rightarrow> nat \<Rightarrow> nat" where
  "block_of_zone z scale = unat (push_bit scale z)"

definition scale_of :: "fs \<Rightarrow> nat \<Rightarrow> nat" where
  "scale_of s rip = unat (s_log_zone_size (super_blocks s (i_sp (inode s rip))))"

definition entry :: "super_block \<Rightarrow> data \<Rightarrow> nat \<Rightarrow> 32 word" where
  "entry sp d index =
     (if s_version sp = 1 then conv2 (s_native sp) (ucast (get2 d (2 * index))) else conv4 (s_native sp) (get4 d (4 * index)))"

definition rd_indir :: "nat \<Rightarrow> nat \<Rightarrow> fs \<Rightarrow> 32 word outcome option" where
  "rd_indir bp index s =
     and_then (get_super (b_dev (buf (fs_cache s) bp)) s)
       (\<lambda>i. let sp = super_blocks s i; zone = entry sp (b_data (buf (fs_cache s) bp)) index
            in if zone \<noteq> NO_ZONE \<and> (zone < ucast (s_firstdatazone sp) \<or> zone \<ge> s_zones sp)
               then Some (Panic ''check file system'') else Some (Ret zone))"

text \<open>Fetching one entry of an indirect block and releasing the block again.\<close>

definition read_entry :: "(nat \<Rightarrow> int) \<Rightarrow> int \<Rightarrow> nat \<Rightarrow> nat \<Rightarrow> fs \<Rightarrow> (32 word \<times> fs) outcome option" where
  "read_entry io dev b index s =
     and_then (get_block io dev b NORMAL (fs_cache s))
       (\<lambda>(bp, c). let s1 = s\<lparr>fs_cache := c\<rparr>
          in and_then (rd_indir bp index s1)
               (\<lambda>z. Some (Ret (z, s1\<lparr>fs_cache := put_block io (Some bp) INDIRECT_BLOCK c\<rparr>))))"

definition read_map :: "(nat \<Rightarrow> int) \<Rightarrow> nat \<Rightarrow> 32 word \<Rightarrow> fs \<Rightarrow> (nat \<times> fs) outcome option" where
  "read_map io rip position s =
     (let r = inode s rip; scale = scale_of s rip;
          block_pos = unat position div 1024;
          zone = block_pos div 2 ^ scale;
          boff = block_pos - zone * 2 ^ scale;
          dzones = i_ndzones r; nr_indirects = i_nindirs r;
          found = (\<lambda>z s1. Some (Ret (if z = NO_ZONE then NO_BLOCK else unat (push_bit scale z + word_of_nat boff), s1)));
          single = (\<lambda>z excess s1. if z = NO_ZONE then Some (Ret (NO_BLOCK, s1))
                                  else and_then (read_entry io (i_dev r) (block_of_zone z scale) excess s1) (\<lambda>(z1, s2). found z1 s2))
      in if zone < dzones then found (i_zone r zone) s
         else
           let excess = zone - dzones in
           if excess < nr_indirects then single (i_zone r dzones) excess s
           else
             let z = i_zone r (dzones + 1); excess1 = excess - nr_indirects in
             if z = NO_ZONE then Some (Ret (NO_BLOCK, s))
             else and_then (read_entry io (i_dev r) (block_of_zone z scale) (excess1 div nr_indirects) s)
                    (\<lambda>(z1, s1). single z1 (excess1 mod nr_indirects) s1))"

section \<open>Writing the map\<close>

definition zero_data :: "data \<Rightarrow> data" where
  "zero_data d = (\<lambda>i. if i < 1024 then 0 else d i)"

definition zero_block :: "nat \<Rightarrow> cache \<Rightarrow> cache" where
  "zero_block bp c = set_block bp (zero_data (b_data (buf c bp))) c"

definition put_entry :: "super_block \<Rightarrow> nat \<Rightarrow> 32 word \<Rightarrow> data \<Rightarrow> data" where
  "put_entry sp index zone =
     (if s_version sp = 1 then set2 (2 * index) (ucast (conv2 (s_native sp) zone)) else set4 (4 * index) (conv4 (s_native sp) zone))"

definition wr_indir :: "nat \<Rightarrow> nat \<Rightarrow> 32 word \<Rightarrow> fs \<Rightarrow> fs outcome option" where
  "wr_indir bp index zone s =
     and_then (get_super (b_dev (buf (fs_cache s) bp)) s)
       (\<lambda>i. Some (Ret (s\<lparr>fs_cache := upd_buf bp (b_data_update (put_entry (super_blocks s i) index zone)) (fs_cache s)\<rparr>)))"

definition mark_dirty :: "nat \<Rightarrow> fs \<Rightarrow> fs" where
  "mark_dirty bp s = s\<lparr>fs_cache := upd_buf bp (b_dirt_update (\<lambda>_. True)) (fs_cache s)\<rparr>"

definition release_buf :: "(nat \<Rightarrow> int) \<Rightarrow> nat option \<Rightarrow> fs \<Rightarrow> fs" where
  "release_buf io bpo s = s\<lparr>fs_cache := put_block io bpo INDIRECT_BLOCK (fs_cache s)\<rparr>"

text \<open>An indirect block, read from the disk or cleared if it is new.\<close>

definition open_indirect :: "(nat \<Rightarrow> int) \<Rightarrow> int \<Rightarrow> nat \<Rightarrow> bool \<Rightarrow> fs \<Rightarrow> (nat \<times> fs) outcome option" where
  "open_indirect io dev b new s =
     and_then (get_block io dev b (if new then NO_READ else NORMAL) (fs_cache s))
       (\<lambda>(bp, c). Some (Ret (bp, s\<lparr>fs_cache := (if new then zero_block bp c else c)\<rparr>)))"

text \<open>The last part of \<^verbatim>\<open>write_map\<close>: the entry of the single indirect block.\<close>

definition write_entry :: "(nat \<Rightarrow> int) \<Rightarrow> int \<Rightarrow> nat \<Rightarrow> bool \<Rightarrow> nat \<Rightarrow> 32 word \<Rightarrow> fs \<Rightarrow> (int \<times> fs) outcome option" where
  "write_entry io dev b new excess new_zone s =
     and_then (open_indirect io dev b new s)
       (\<lambda>(bp, s1). and_then (wr_indir bp excess new_zone s1)
          (\<lambda>s2. Some (Ret (OK, release_buf io (Some bp) (mark_dirty bp s2)))))"

text \<open>The middle part: \<open>z1\<close> is the zone of the single indirect block or \<open>NO_ZONE\<close>, \<open>dbl\<close> the double indirect buffer and the index into it.\<close>

definition write_single ::
  "(nat \<Rightarrow> int) \<Rightarrow> nat \<Rightarrow> nat \<Rightarrow> (nat \<times> nat) option \<Rightarrow> 32 word \<Rightarrow> nat \<Rightarrow> 32 word \<Rightarrow> fs \<Rightarrow> (int \<times> fs) outcome option" where
  "write_single io rip scale dbl z1 excess new_zone s =
     (let dev = i_dev (inode s rip); zones = i_ndzones (inode s rip) in
      if z1 \<noteq> NO_ZONE then write_entry io dev (block_of_zone z1 scale) False excess new_zone (release_buf io (map_option fst dbl) s)
      else
        and_then (alloc_zone io dev (i_zone (inode s rip) 0) s)
          (\<lambda>(z, s1).
             and_then (case dbl of
                         None \<Rightarrow> Some (Ret (upd_inode rip (\<lambda>r. r\<lparr>i_zone := (i_zone r)(zones := z)\<rparr>) s1))
                       | Some (bp, ind_ex) \<Rightarrow> and_then (wr_indir bp ind_ex z s1) (\<lambda>s2. Some (Ret (mark_dirty bp s2))))
               (\<lambda>s3. let s4 = release_buf io (map_option fst dbl) s3
                     in if z = NO_ZONE then Some (Ret (err_code s4, s4))
                        else write_entry io dev (block_of_zone z scale) True excess new_zone s4)))"

definition write_map :: "(nat \<Rightarrow> int) \<Rightarrow> nat \<Rightarrow> 32 word \<Rightarrow> 32 word \<Rightarrow> fs \<Rightarrow> (int \<times> fs) outcome option" where
  "write_map io rip position new_zone s0 =
     (let s = upd_inode rip (i_dirt_update (\<lambda>_. True)) s0; r = inode s rip; scale = scale_of s rip;
          zone = unat position div 1024 div 2 ^ scale;
          zones = i_ndzones r; nr_indirects = i_nindirs r
      in if zone < zones then Some (Ret (OK, upd_inode rip (\<lambda>r. r\<lparr>i_zone := (i_zone r)(zone := new_zone)\<rparr>) s))
         else
           let excess = zone - zones in
           if excess < nr_indirects then write_single io rip scale None (i_zone r zones) excess new_zone s
           else
             and_then
               (if i_zone r (zones + 1) = NO_ZONE
                then and_then (alloc_zone io (i_dev r) (i_zone r 0) s)
                       (\<lambda>(z, s1). Some (Ret (z, True,
                          if z = NO_ZONE then s1 else upd_inode rip (\<lambda>r. r\<lparr>i_zone := (i_zone r)(zones + 1 := z)\<rparr>) s1)))
                else Some (Ret (i_zone r (zones + 1), False, s)))
               (\<lambda>(z, new_dbl, s1).
                  if z = NO_ZONE then Some (Ret (err_code s1, s1))
                  else
                    let excess1 = excess - nr_indirects; ind_ex = excess1 div nr_indirects; excess2 = excess1 mod nr_indirects
                    in if ind_ex \<ge> nr_indirects then Some (Ret (EFBIG, s1))
                       else and_then (open_indirect io (i_dev r) (block_of_zone z scale) new_dbl s1)
                         (\<lambda>(bp, s2). and_then (rd_indir bp ind_ex s2)
                            (\<lambda>z1. write_single io rip scale (Some (bp, ind_ex)) z1 excess2 new_zone s2))))"

section \<open>Blocks of a file\<close>

definition clear_zone :: "(nat \<Rightarrow> int) \<Rightarrow> nat \<Rightarrow> 32 word \<Rightarrow> bool \<Rightarrow> fs \<Rightarrow> fs outcome option" where
  "clear_zone io rip pos0 flg s =
     (let scale = scale_of s rip in
      if scale = 0 then Some (Ret s)
      else
        let zone_size = push_bit scale 1024;
            pos = (if flg then pos0 div zone_size * zone_size else pos0);
            next_pos = pos + 1024 - 1
        in if next_pos div zone_size \<noteq> pos div zone_size then Some (Ret s)
           else
             and_then (read_map io rip next_pos s)
               (\<lambda>(blo, s1).
                  if blo = NO_BLOCK then Some (Ret s1)
                  else
                    let bhi = (blo div 2 ^ scale + 1) * 2 ^ scale - 1
                    in each (\<lambda>b s2. and_then (get_block io (i_dev (inode s2 rip)) b NO_READ (fs_cache s2))
                               (\<lambda>(bp, c). Some (Ret (s2\<lparr>fs_cache := put_block io (Some bp) FULL_DATA_BLOCK (zero_block bp c)\<rparr>))))
                         [blo ..< bhi + 1] s1))"

definition new_block :: "(nat \<Rightarrow> int) \<Rightarrow> nat \<Rightarrow> 32 word \<Rightarrow> fs \<Rightarrow> (nat option \<times> fs) outcome option" where
  "new_block io rip position s =
     and_then (read_map io rip position s)
       (\<lambda>(b0, s1).
          let have_block = (\<lambda>b s2. and_then (get_block io (i_dev (inode s2 rip)) b NO_READ (fs_cache s2))
                                  (\<lambda>(bp, c). Some (Ret (Some bp, s2\<lparr>fs_cache := zero_block bp c\<rparr>))))
          in if b0 \<noteq> NO_BLOCK then have_block b0 s1
             else
               let r = inode s1 rip; sp = super_blocks s1 (i_sp r);
                   z0 = (if i_zone r 0 = NO_ZONE then ucast (s_firstdatazone sp) else i_zone r 0)
               in and_then (alloc_zone io (i_dev r) z0 s1)
                    (\<lambda>(z, s2).
                       if z = NO_ZONE then Some (Ret (None, s2))
                       else
                         and_then (write_map io rip position z s2)
                           (\<lambda>(e, s3).
                              if e \<noteq> OK then and_then (free_zone io (i_dev (inode s3 rip)) z s3) (\<lambda>s4. Some (Ret (None, s4\<lparr>err_code := e\<rparr>)))
                              else
                                and_then (if position \<noteq> i_size (inode s3 rip) then clear_zone io rip position True s3 else Some (Ret s3))
                                  (\<lambda>s4. let scale = scale_of s4 rip; zone_size = push_bit scale 1024
                                        in have_block (unat (push_bit scale z + position mod zone_size div 1024)) s4))))"

section \<open>Giving a file up\<close>

definition truncate_zones :: "(nat \<Rightarrow> int) \<Rightarrow> nat \<Rightarrow> int \<Rightarrow> nat \<Rightarrow> nat list \<Rightarrow> fs \<Rightarrow> fs outcome option" where
  "truncate_zones io rip dev scale =
     each (\<lambda>k s. and_then (read_map io rip (word_of_nat (k * (1024 * 2 ^ scale))) s)
             (\<lambda>(b, s1). if b \<noteq> NO_BLOCK then free_zone io dev (drop_bit scale (word_of_nat b)) s1 else Some (Ret s1)))"

text \<open>
  The loop of \<^verbatim>\<open>truncate\<close> visits the multiples of the zone size below the size of the file. The
  double indirect block is in use while its entries are freed.
\<close>

definition truncate :: "(nat \<Rightarrow> int) \<Rightarrow> nat \<Rightarrow> fs \<Rightarrow> fs outcome option" where
  "truncate io rip s =
     (let file_type = i_mode (inode s rip) AND I_TYPE in
      if file_type = I_CHAR_SPECIAL \<or> file_type = I_BLOCK_SPECIAL then Some (Ret s)
      else
        let dev = i_dev (inode s rip); scale = scale_of s rip; nr_indirects = i_nindirs (inode s rip);
            waspipe = i_pipe (inode s rip);
            s1 = (if waspipe then upd_inode rip (i_size_update (\<lambda>_. PIPE_SIZE)) s else s);
            zone_size = 1024 * 2 ^ scale
        in and_then (truncate_zones io rip dev scale [0 ..< (unat (i_size (inode s1 rip)) + zone_size - 1) div zone_size] s1)
             (\<lambda>s2.
                let s3 = upd_inode rip (i_dirt_update (\<lambda>_. True)) s2 in
                if waspipe then Some (Ret (wipe_inode rip s3))
                else
                  let single = i_ndzones (inode s3 rip) in
                  and_then (free_zone io dev (i_zone (inode s3 rip) single) s3)
                    (\<lambda>s4.
                       let z = i_zone (inode s4 rip) (single + 1) in
                       if z = NO_ZONE then Some (Ret s4)
                       else and_then (get_block io dev (block_of_zone z scale) NORMAL (fs_cache s4))
                         (\<lambda>(bp, c).
                            and_then (each (\<lambda>i s5. and_then (rd_indir bp i s5) (\<lambda>z1. free_zone io dev z1 s5)) [0 ..< nr_indirects] (s4\<lparr>fs_cache := c\<rparr>))
                              (\<lambda>s6. free_zone io dev z (release_buf io (Some bp) s6))))))"

definition put_inode :: "(nat \<Rightarrow> int) \<Rightarrow> 32 word \<Rightarrow> nat option \<Rightarrow> fs \<Rightarrow> fs outcome option" where
  "put_inode io now ripo s =
     (case ripo of
        None \<Rightarrow> Some (Ret s)
      | Some rip \<Rightarrow>
          let s1 = upd_inode rip (i_count_update (\<lambda>n. n - 1)) s
          in if i_count (inode s1 rip) \<noteq> 0 then Some (Ret s1)
             else
               and_then
                 (if i_nlinks (inode s1 rip) = 0
                  then and_then (truncate io rip s1)
                         (\<lambda>s2. let s3 = upd_inode rip (\<lambda>r. r\<lparr>i_mode := I_NOT_ALLOC, i_dirt := True\<rparr>) s2
                               in free_inode io (i_dev (inode s3 rip)) (i_num (inode s3 rip)) s3)
                  else if i_pipe (inode s1 rip) then truncate io rip s1
                  else Some (Ret s1))
                 (\<lambda>s4. let s5 = upd_inode rip (i_pipe_update (\<lambda>_. False)) s4
                       in if i_dirt (inode s5 rip) then rw_inode io now rip False s5 else Some (Ret s5)))"

end
