(* ===== verification/Fs_Files.thy ===== *)
theory Fs_Files
  imports Fs_Map
begin

unbundle bit_operations_syntax

text \<open>
  The map of a file as a function from zone indices to zones, read off the blocks of the device.
  \<^verbatim>\<open>read_map\<close> looks it up, \<^verbatim>\<open>write_map\<close> changes it at one index, with new indirect blocks where they
  are needed.
\<close>

section \<open>Entries of indirect blocks\<close>






section \<open>The map\<close>

definition thr :: "super_block \<Rightarrow> nat \<Rightarrow> (nat \<Rightarrow> data) \<Rightarrow> 32 word \<Rightarrow> nat \<Rightarrow> 32 word" where
  "thr sp sc D z k = (if z = NO_ZONE then NO_ZONE else entry sp (D (block_of_zone z sc)) k)"

text \<open>The indirect blocks: 0 is the single, 1 the double indirect block and \<open>2 + j\<close> the one in entry \<open>j\<close> of the latter.\<close>

definition link :: "super_block \<Rightarrow> nat \<Rightarrow> (nat \<Rightarrow> data) \<Rightarrow> inode \<Rightarrow> nat \<Rightarrow> 32 word" where
  "link sp sc D r k = (if k < 2 then i_zone r (i_ndzones r + k) else thr sp sc D (i_zone r (i_ndzones r + 1)) (k - 2))"

text \<open>Indirect block and entry for a zone index that is not direct.\<close>

definition slot :: "inode \<Rightarrow> nat \<Rightarrow> nat \<times> nat" where
  "slot r n =
     (let e = n - i_ndzones r in
      if e < i_nindirs r then (0, e) else (2 + (e - i_nindirs r) div i_nindirs r, (e - i_nindirs r) mod i_nindirs r))"

definition file_zone :: "super_block \<Rightarrow> nat \<Rightarrow> (nat \<Rightarrow> data) \<Rightarrow> inode \<Rightarrow> nat \<Rightarrow> 32 word" where
  "file_zone sp sc D r n =
     (if n < i_ndzones r then i_zone r n else thr sp sc D (link sp sc D r (fst (slot r n))) (snd (slot r n)))"

definition max_zones :: "inode \<Rightarrow> nat" where
  "max_zones r = i_ndzones r + i_nindirs r + i_nindirs r * i_nindirs r"




section \<open>Well-formed maps\<close>

definition in_area :: "super_block \<Rightarrow> 32 word \<Rightarrow> bool" where
  "in_area sp z \<longleftrightarrow> ucast (s_firstdatazone sp) \<le> z \<and> z < s_zones sp"


definition links_ok :: "super_block \<Rightarrow> (int \<Rightarrow> nat \<Rightarrow> data) \<Rightarrow> inode \<Rightarrow> bool" where
  "links_ok sp V r \<longleftrightarrow>
     (let L = link sp (unat (s_log_zone_size sp)) (V (s_dev sp)) r in
      (\<forall>k < i_nindirs r + 2. L k \<noteq> NO_ZONE \<longrightarrow> in_area sp (L k) \<and> marked sp ZMAP V (zone_bit sp (L k))) \<and>
      (\<forall>k < i_nindirs r + 2. \<forall>l < i_nindirs r + 2. L k = L l \<longrightarrow> L k \<noteq> NO_ZONE \<longrightarrow> k = l))"








section \<open>Changing the map\<close>





section \<open>Holding a buffer\<close>


text \<open>\<open>c'\<close> is \<open>c\<close> with buffer \<open>i\<close> handed out for a block.\<close>

definition held :: "cache \<Rightarrow> cache \<Rightarrow> int \<Rightarrow> nat \<Rightarrow> nat \<Rightarrow> bool" where
  "held c c' d b i \<longleftrightarrow> in_use c' d b i \<and> store_inv c' \<and> usable c' = usable c \<and>
     (\<lambda>j. b_count (buf c' j)) = (\<lambda>j. b_count (buf c j))(i := b_count (buf c i) + 1) \<and> (\<forall>d b j. in_use c d b j \<longrightarrow> in_use c' d b j)"

lemma held_dev: "held c c' d b i \<Longrightarrow> b_dev (buf c' i) = d"
  by (simp add: held_def in_use_def named_def)




lemma hold:
  assumes "ready io d c"
  obtains i c' where "get_block io d b NORMAL c = Some (Ret (i, c'))" "held c c' d b i" "b_data (buf c' i) = view c d b"
    "\<And>d b. usable c d \<Longrightarrow> view c' d b = view c d b"
proof -
  have a: "sound io \<and> store_inv c" "usable c d" "has_room c" using assms by (auto simp: ready_def)
  obtain i c' where g: "get_block io d b NORMAL c = Some (Ret (i, c'))" "sound io \<and> store_inv c'" "usable c' = usable c" "in_use c' d b i"
    "(\<lambda>j. b_count (buf c' j)) = (\<lambda>j. b_count (buf c j))(i := b_count (buf c i) + 1)" "\<forall>d b. usable c d \<longrightarrow> view c' d b = view c d b"
    "\<forall>d b j. in_use c d b j \<longrightarrow> in_use c' d b j" using store.fetch_law [OF a, of b] by blast
  have "b_data (buf c' i) = view c d b" using store.holds_law [OF g(2,4)] g(6) a(2) by simp
  then show thesis using that g by (simp add: held_def)
qed




section \<open>Looking up a block\<close>

definition bad :: "super_block \<Rightarrow> 32 word \<Rightarrow> bool" where
  "bad sp z \<longleftrightarrow> z \<noteq> NO_ZONE \<and> \<not> in_area sp z"

lemma rd_indir_result:
  assumes "get_super (b_dev (buf (fs_cache s) bp)) s = Some (Ret i)"
  shows "rd_indir bp k s = (let z = entry (super_blocks s i) (b_data (buf (fs_cache s) bp)) k
     in if bad (super_blocks s i) z then Some (Panic ''check file system'') else Some (Ret z))"
  unfolding rd_indir_def assms and_then_simps Let_def bad_def in_area_def de_Morgan_conj not_le not_less by (rule refl)

lemma get_super_cache [simp]: "get_super dev (s\<lparr>fs_cache := c\<rparr>) = get_super dev s"
  by (simp add: get_super_def)

lemma read_entry_result:
  fixes b k :: nat
  assumes "ready io dev (fs_cache s)" "get_super dev s = Some (Ret i)"
  defines "z \<equiv> entry (super_blocks s i) (view (fs_cache s) dev b) k"
  shows "if bad (super_blocks s i) z then read_entry io dev b k s = Some (Panic ''check file system'')
    else \<exists>c'. read_entry io dev b k s = Some (Ret (z, s\<lparr>fs_cache := c'\<rparr>)) \<and> moved (fs_cache s) c' (view (fs_cache s))"
proof -
  obtain j c' where g: "get_block io dev b NORMAL (fs_cache s) = Some (Ret (j, c'))" "b_data (buf c' j) = view (fs_cache s) dev b"
    "\<And>t. moved (fs_cache s) (put_block io (Some j) t c') (view (fs_cache s))" by (rule transaction [OF assms(1)]) blast
  obtain l c2 where l: "get_block io dev b NORMAL (fs_cache s) = Some (Ret (l, c2))" "held (fs_cache s) c2 dev b l" by (rule hold [OF assms(1)])
  have dev: "b_dev (buf c' j) = dev" using held_dev [OF l(2)] l(1) g(1) by simp
  have "rd_indir j k (s\<lparr>fs_cache := c'\<rparr>) = (if bad (super_blocks s i) z then Some (Panic ''check file system'') else Some (Ret z))"
    using rd_indir_result [of "s\<lparr>fs_cache := c'\<rparr>" j i k] dev assms(2) g(2) by (simp add: z_def Let_def)
  then show ?thesis using g(1,3) by (auto simp: read_entry_def)
qed

text \<open>An illegal zone number on the way to zone \<open>n\<close> of a file.\<close>

definition corrupt :: "super_block \<Rightarrow> nat \<Rightarrow> (nat \<Rightarrow> data) \<Rightarrow> inode \<Rightarrow> nat \<Rightarrow> bool" where
  "corrupt sp sc D r n \<longleftrightarrow>
     i_ndzones r \<le> n \<and> (fst (slot r n) \<ge> 2 \<and> bad sp (link sp sc D r (fst (slot r n))) \<or> bad sp (file_zone sp sc D r n))"

definition file_block :: "nat \<Rightarrow> 32 word \<Rightarrow> nat \<Rightarrow> nat" where
  "file_block sc z k = (if z = NO_ZONE then NO_BLOCK else unat (push_bit sc z + word_of_nat (k mod 2 ^ sc)))"

lemma read_map_result:
  fixes pos :: "32 word"
  assumes rd: "ready io (i_dev (inode s rip)) (fs_cache s)" and gs: "get_super (i_dev (inode s rip)) s = Some (Ret (i_sp (inode s rip)))"
  defines "r \<equiv> inode s rip" and "sc \<equiv> scale_of s rip" and "sp \<equiv> super_blocks s (i_sp (inode s rip))"
  defines "D \<equiv> view (fs_cache s) (i_dev (inode s rip))" and "k \<equiv> unat pos div 1024"
  defines "n \<equiv> k div 2 ^ sc"
  shows "if corrupt sp sc D r n then read_map io rip pos s = Some (Panic ''check file system'')
    else \<exists>c'. read_map io rip pos s = Some (Ret (file_block sc (file_zone sp sc D r n) k, s\<lparr>fs_cache := c'\<rparr>)) \<and> moved (fs_cache s) c' (view (fs_cache s))"
proof -
  let ?dev = "i_dev (inode s rip)"
  have boff: "k - n * 2 ^ sc = k mod 2 ^ sc" by (simp add: n_def minus_div_mult_eq_mod)
  have same: "moved (fs_cache s) (fs_cache s) (view (fs_cache s))" using rd by (simp add: moved_def ready_def)
  have self: "s\<lparr>fs_cache := fs_cache s\<rparr> = s" by simp
  define found where "found = (\<lambda>z s1 :: fs. Some (Ret (file_block sc z k, s1)))"
  define single where "single = (\<lambda>z excess s1. if z = NO_ZONE then found NO_ZONE s1
      else and_then (read_entry io ?dev (block_of_zone z sc) excess s1) (\<lambda>(z1, s2). found z1 s2))"
  have code: "read_map io rip pos s =
      (if n < i_ndzones r then found (i_zone r n) s
       else if n - i_ndzones r < i_nindirs r then single (i_zone r (i_ndzones r)) (n - i_ndzones r) s
       else if i_zone r (i_ndzones r + 1) = NO_ZONE then found NO_ZONE s
       else and_then (read_entry io ?dev (block_of_zone (i_zone r (i_ndzones r + 1)) sc) ((n - i_ndzones r - i_nindirs r) div i_nindirs r) s)
         (\<lambda>(z, s1). single z ((n - i_ndzones r - i_nindirs r) mod i_nindirs r) s1))"
    unfolding read_map_def single_def found_def Let_def r_def [symmetric] sc_def [symmetric] k_def [symmetric] n_def [symmetric] boff file_block_def
    by simp
  have one: "if bad sp (thr sp sc D z e) then single z e (s\<lparr>fs_cache := c\<rparr>) = Some (Panic ''check file system'')
     else \<exists>c'. single z e (s\<lparr>fs_cache := c\<rparr>) = Some (Ret (file_block sc (thr sp sc D z e) k, s\<lparr>fs_cache := c'\<rparr>)) \<and> moved (fs_cache s) c' (view (fs_cache s))"
    if c: "moved (fs_cache s) c (view (fs_cache s))" for z e c
  proof (cases "z = NO_ZONE")
    case True
    then show ?thesis using c by (auto simp: single_def found_def thr_def bad_def)
  next
    case False
    have v: "view c ?dev b = D b" for b using c rd by (simp add: moved_def ready_def D_def)
    have th: "thr sp sc D z e = entry sp (D (block_of_zone z sc)) e" using False by (simp add: thr_def)
    have re: "if bad sp (thr sp sc D z e) then read_entry io ?dev (block_of_zone z sc) e (s\<lparr>fs_cache := c\<rparr>) = Some (Panic ''check file system'')
       else \<exists>c'. read_entry io ?dev (block_of_zone z sc) e (s\<lparr>fs_cache := c\<rparr>) = Some (Ret (thr sp sc D z e, s\<lparr>fs_cache := c'\<rparr>)) \<and> moved c c' (view c)"
      using read_entry_result [of io ?dev "s\<lparr>fs_cache := c\<rparr>" "i_sp (inode s rip)" "block_of_zone z sc" e] moved_ready [OF c rd] gs v th by (simp add: sp_def cong: if_cong)
    show ?thesis
    proof (cases "bad sp (thr sp sc D z e)")
      case True
      then show ?thesis using re False by (simp add: single_def)
    next
      case nb: False
      then obtain c' where c': "read_entry io ?dev (block_of_zone z sc) e (s\<lparr>fs_cache := c\<rparr>) = Some (Ret (thr sp sc D z e, s\<lparr>fs_cache := c'\<rparr>))" "moved c c' (view c)"
        using re by auto
      have "moved (fs_cache s) c' (view (fs_cache s))" using moved_trans [OF c c'(2)] c by (auto simp: moved_def)
      then show ?thesis using nb False c'(1) by (auto simp: single_def found_def)
    qed
  qed
  consider (direct) "n < i_ndzones r" | (ind) "\<not> n < i_ndzones r" "n - i_ndzones r < i_nindirs r" | (dbl) "\<not> n < i_ndzones r" "\<not> n - i_ndzones r < i_nindirs r" by blast
  then show ?thesis
  proof cases
    case direct
    then show ?thesis using same self by (auto simp: code corrupt_def file_zone_def found_def intro: exI [of _ "fs_cache s"])
  next
    case ind
    have sl: "slot r n = (0, n - i_ndzones r)" using ind by (simp add: slot_def Let_def)
    have fz: "file_zone sp sc D r n = thr sp sc D (i_zone r (i_ndzones r)) (n - i_ndzones r)" using ind sl by (simp add: file_zone_def link_def)
    have "corrupt sp sc D r n = bad sp (file_zone sp sc D r n)" using ind sl by (simp add: corrupt_def)
    then show ?thesis using one [OF same, of "i_zone r (i_ndzones r)" "n - i_ndzones r"] ind unfolding code fz by (simp cong: if_cong)
  next
    case dbl
    let ?x = "n - i_ndzones r - i_nindirs r" and ?z = "i_zone r (i_ndzones r + 1)"
    define z1 where "z1 = thr sp sc D ?z (?x div i_nindirs r)"
    have sl: "slot r n = (2 + ?x div i_nindirs r, ?x mod i_nindirs r)" using dbl by (simp add: slot_def Let_def)
    have fz: "file_zone sp sc D r n = thr sp sc D z1 (?x mod i_nindirs r)" using dbl sl by (simp add: file_zone_def link_def z1_def)
    have cor: "corrupt sp sc D r n = (bad sp z1 \<or> bad sp (file_zone sp sc D r n))" using dbl sl by (simp add: corrupt_def link_def z1_def)
    show ?thesis
    proof (cases "?z = NO_ZONE")
      case True
      then have "z1 = NO_ZONE" by (simp add: z1_def thr_def)
      then have f0: "file_zone sp sc D r n = NO_ZONE" unfolding fz by (simp add: thr_def)
      then have "\<not> corrupt sp sc D r n" using cor \<open>z1 = NO_ZONE\<close> by (simp add: bad_def)
      then show ?thesis using dbl True same self f0 by (auto simp: code found_def intro: exI [of _ "fs_cache s"])
    next
      case False
      have e: "entry sp (D (block_of_zone ?z sc)) (?x div i_nindirs r) = z1" using False by (simp add: z1_def thr_def)
      have re: "if bad sp z1 then read_entry io ?dev (block_of_zone ?z sc) (?x div i_nindirs r) s = Some (Panic ''check file system'')
        else \<exists>c'. read_entry io ?dev (block_of_zone ?z sc) (?x div i_nindirs r) s = Some (Ret (z1, s\<lparr>fs_cache := c'\<rparr>)) \<and> moved (fs_cache s) c' (view (fs_cache s))"
        using read_entry_result [OF rd gs, of "block_of_zone ?z sc" "?x div i_nindirs r"] unfolding D_def [symmetric] sp_def [symmetric] e .
      show ?thesis
      proof (cases "bad sp z1")
        case True
        then show ?thesis using re dbl False cor by (simp add: code)
      next
        case nb: False
        then obtain c1 where c1: "read_entry io ?dev (block_of_zone ?z sc) (?x div i_nindirs r) s = Some (Ret (z1, s\<lparr>fs_cache := c1\<rparr>))"
          "moved (fs_cache s) c1 (view (fs_cache s))" using re by auto
        then have "read_map io rip pos s = single z1 (?x mod i_nindirs r) (s\<lparr>fs_cache := c1\<rparr>)" using dbl False by (simp add: code)
        then show ?thesis using one [OF c1(2), of z1 "?x mod i_nindirs r"] nb unfolding cor fz by (simp cong: if_cong)
      qed
    qed
  qed
qed

section \<open>Steps of a change\<close>

text \<open>\<open>stored\<close>: zone \<open>n\<close> of the file is now \<open>z\<close>; \<open>grown\<close>: only indirect blocks were added.\<close>

definition stored :: "super_block \<Rightarrow> (int \<Rightarrow> nat \<Rightarrow> data) \<Rightarrow> inode \<Rightarrow> (nat \<times> 32 word) option \<Rightarrow> (int \<Rightarrow> nat \<Rightarrow> data) \<Rightarrow> inode \<Rightarrow> bool" where
  "stored sp V r p V' r' \<longleftrightarrow>
     (let sc = unat (s_log_zone_size sp); dev = s_dev sp in
      links_ok sp V' r' \<and> i_nindirs r' = i_nindirs r \<and> i_ndzones r' = i_ndzones r \<and>
      (\<forall>m < max_zones r. file_zone sp sc (V' dev) r' m = (case p of Some (n, z) \<Rightarrow> if m = n then z else file_zone sp sc (V dev) r m | None \<Rightarrow> file_zone sp sc (V dev) r m)) \<and>
      (\<forall>b < map_bits sp ZMAP. marked sp ZMAP V b \<longrightarrow> marked sp ZMAP V' b))"

abbreviation "grown sp V r V' r' \<equiv> stored sp V r None V' r'"










section \<open>Indirect blocks in the cache\<close>






section \<open>Changing the map of a file\<close>











lemma release_None [simp]: "release_buf io None s = s"
  by (simp add: release_buf_def put_block_def)











section \<open>Properties of file maps\<close>

text \<open>
  (C11) \<^verbatim>\<open>read_map\<close> finds the block of a file position: through the zones of the inode, the single and the
  double indirect block it returns what the map of the file, read off the device as a function from
  zone indices to zones, contains, or \<^verbatim>\<open>NO_BLOCK\<close> for a hole; it panics exactly if it meets a zone number
  outside the data area in an indirect block. No block of any device and no inode changes.
\<close>

theorem read_map_is_lookup:
  fixes pos :: "32 word"
  assumes "ready io (i_dev (inode s rip)) (fs_cache s)" "get_super (i_dev (inode s rip)) s = Some (Ret (i_sp (inode s rip)))"
  shows "let sp = super_blocks s (i_sp (inode s rip)); sc = scale_of s rip; D = view (fs_cache s) (i_dev (inode s rip));
             k = unat pos div 1024; n = k div 2 ^ sc; z = file_zone sp sc D (inode s rip) n
    in if corrupt sp sc D (inode s rip) n then read_map io rip pos s = Some (Panic ''check file system'')
       else \<exists>c'. read_map io rip pos s = Some (Ret (if z = NO_ZONE then NO_BLOCK else unat (push_bit sc z + word_of_nat (k mod 2 ^ sc)), s\<lparr>fs_cache := c'\<rparr>)) \<and>
              moved (fs_cache s) c' (view (fs_cache s))"
  unfolding Let_def file_block_def [symmetric] by (rule read_map_result [OF assms])

text \<open>An empty file on the sample device.\<close>

definition map_fs :: fs where
  "map_fs = sample_fs\<lparr>inode := (\<lambda>_. blank_inode\<lparr>i_dev := 768, i_num := 3, i_count := 1, i_ndzones := 7, i_nindirs := 256\<rparr>)\<rparr>"

lemma map_fs_sel:
  "fs_cache map_fs = sample_cache" "super_blocks map_fs = (\<lambda>_. sample_super)" "i_dev (inode map_fs 0) = 768" "i_sp (inode map_fs 0) = 0"
  "i_zone (inode map_fs 0) k = NO_ZONE" "i_ndzones (inode map_fs 0) = 7" "i_nindirs (inode map_fs 0) = 256" "get_super 768 map_fs = Some (Ret 0)"
  by (simp_all add: map_fs_def sample_fs_def blank_inode_def NO_ZONE_def get_super_def sample_sizes NR_SUPERS_def upt_conv_Cons)

lemma map_fs_links: "link sp sc D (inode map_fs 0) k = NO_ZONE" "file_zone sp sc D (inode map_fs 0) n = NO_ZONE"
  by (simp_all add: link_def file_zone_def thr_def map_fs_sel)

theorem read_map_is_lookup_witness:
  "\<exists>c'. read_map good_io 0 300000 map_fs = Some (Ret (NO_BLOCK, map_fs\<lparr>fs_cache := c'\<rparr>)) \<and> moved sample_cache c' (view sample_cache)"
proof -
  have "ready good_io (i_dev (inode map_fs 0)) (fs_cache map_fs)" using sample_ready by (simp add: map_fs_sel)
  moreover have "get_super (i_dev (inode map_fs 0)) map_fs = Some (Ret (i_sp (inode map_fs 0)))" by (simp add: map_fs_sel)
  ultimately show ?thesis using read_map_is_lookup [of good_io map_fs 0 300000] by (simp add: Let_def map_fs_links corrupt_def bad_def map_fs_sel)
qed




end
