(* ===== verification/Fs_Desc.thy ===== *)
theory Fs_Desc
  imports Fs_Map Kernel_Proc
begin

unbundle bit_operations_syntax

text \<open>
  The tables above the inodes: file descriptors (\<^verbatim>\<open>src/src/fs/filedes.c\<close>, \<^verbatim>\<open>file.h\<close>), processes
  (\<^verbatim>\<open>fproc.h\<close>), locks (\<^verbatim>\<open>lock.c\<close>, \<^verbatim>\<open>lock.h\<close>), the suspension and revival of processes (\<^verbatim>\<open>pipe.c\<close>)
  and the calls to device tasks (\<^verbatim>\<open>device.c\<close>, \<^verbatim>\<open>dev.h\<close>). A pointer into \<^verbatim>\<open>fproc\<close> is a process number,
  a pointer into \<^verbatim>\<open>filp\<close> or \<^verbatim>\<open>file_lock\<close> the index of the slot. What FS sends is appended to \<open>sent\<close>;
  what \<^verbatim>\<open>sendrec\<close> and \<^verbatim>\<open>receive\<close> deliver from the tasks is taken from \<open>inbox\<close>, one pair of result and
  message for each call. With an empty \<open>inbox\<close> the call does not come back (\<open>None\<close>).
\<close>

section \<open>Data\<close>

record filp =
  filp_mode :: "16 word"
  filp_flags :: "32 word"
  filp_count :: int
  filp_ino :: nat
  filp_pos :: "32 word"

text \<open>\<^verbatim>\<open>fp_filp\<close> is indexed by the file descriptor; \<open>None\<close> is \<^verbatim>\<open>NIL_FILP\<close>.\<close>

record fproc =
  fp_umask :: "16 word"
  fp_workdir :: "nat option"
  fp_rootdir :: "nat option"
  fp_filp :: "nat \<Rightarrow> nat option"
  fp_realuid :: "16 word"
  fp_effuid :: "16 word"
  fp_realgid :: "8 word"
  fp_effgid :: "8 word"
  fp_tty :: int
  fp_fd :: int
  fp_buffer :: "32 word"
  fp_nbytes :: int
  fp_cum_io_partial :: int
  fp_suspended :: bool
  fp_revived :: bool
  fp_task :: int
  fp_sesldr :: bool
  fp_pid :: int
  fp_cloexec :: "32 word"

record file_lock =
  lock_type :: int
  lock_pid :: int
  lock_inode :: nat
  lock_first :: "32 word"
  lock_last :: "32 word"

text \<open>
  A message by its words: the formats m1 and m2 of \<^verbatim>\<open>type.h\<close> start with three integers, then come
  three pointers (m1) or two longs and a pointer (m2) in the same place. The string of the format m3 starts where
  the pointers do and is two bytes longer, \<open>m_tail\<close>.
\<close>

record mess =
  msg_source :: int
  msg_type :: int
  m_i1 :: int
  m_i2 :: int
  m_i3 :: int
  m_l1 :: "32 word"
  m_l2 :: "32 word"
  m_p1 :: "32 word"
  m_tail :: "16 word"

text \<open>\<^verbatim>\<open>struct flock\<close> in the memory of a process.\<close>

record flock =
  l_type :: int
  l_whence :: int
  l_start :: "32 word"
  l_len :: "32 word"
  l_pid :: int

text \<open>\<^verbatim>\<open>struct stat\<close>\<close>

record stat =
  st_dev :: int
  st_ino :: "16 word"
  st_mode :: "16 word"
  st_nlink :: int
  st_uid :: "16 word"
  st_gid :: int
  st_rdev :: int
  st_size :: "32 word"
  st_atime :: "32 word"
  st_mtime :: "32 word"
  st_ctime :: "32 word"

datatype event =
    Send int mess
  | Kill int int
  | Copy_flock int "32 word" flock
  | Copy_stat int "32 word" stat

text \<open>
  The globals of \<^verbatim>\<open>glo.h\<close>; \<open>mesg\<close> is the message \<^verbatim>\<open>m\<close> of the call, \<open>reply_mess\<close> the reply \<^verbatim>\<open>m1\<close>, \<open>umem\<close> the
  memory of the processes by process, segment and virtual address, \<open>user_path\<close> the array of that name and what
  is behind it in memory.
\<close>

record sys =
  fsys :: fs
  filp :: "nat \<Rightarrow> filp"
  fproc :: "int \<Rightarrow> fproc"
  file_lock :: "nat \<Rightarrow> file_lock"
  fp :: int
  super_user :: bool
  dont_reply :: bool
  susp_count :: int
  nr_locks :: int
  reviving :: int
  mesg :: mess
  reply_mess :: mess
  who :: int
  fs_call :: int
  root_dev :: int
  rdahed_inode :: "nat option"
  rdahedpos :: "32 word"
  umem :: "int \<Rightarrow> int \<Rightarrow> 32 word \<Rightarrow> 8 word"
  sent :: "event list"
  inbox :: "(int \<times> mess) list"
  user_path :: "nat \<Rightarrow> 8 word"

text \<open>
  What FS learns from outside: the transfers of the disks (\<open>disk_io\<close>, as in Fs_Cache), the time, and
  how the copies between address spaces end (a \<^verbatim>\<open>struct flock\<close> is read or not, it and a \<^verbatim>\<open>struct stat\<close> are written with
  \<open>copy_status\<close>; the bytes of files with \<open>user_copy\<close>). A copy that fails moves nothing. \<open>proc_times\<close> is what \<^verbatim>\<open>sys_times\<close> returns,
  \<open>super_rest\<close> the layout of the fields of a super block that exist in memory only, as for \<open>read_super\<close>.
\<close>

record env =
  disk_io :: "nat \<Rightarrow> int"
  time_now :: "32 word"
  user_flock :: "int \<Rightarrow> 32 word \<Rightarrow> flock option"
  copy_status :: "int \<Rightarrow> 32 word \<Rightarrow> int"
  user_copy :: "int \<Rightarrow> int \<Rightarrow> 32 word \<Rightarrow> nat \<Rightarrow> int"
  proc_times :: "int \<Rightarrow> nat \<Rightarrow> 32 word"
  super_rest :: "data \<Rightarrow> super_block \<Rightarrow> super_block"

definition OPEN_MAX :: nat where "OPEN_MAX = 20"
definition NR_FILPS :: nat where "NR_FILPS = 128"
definition NR_LOCKS :: nat where "NR_LOCKS = 8"
definition INIT_PROC_NR :: int where "INIT_PROC_NR = 3"
definition R_BIT :: "16 word" where "R_BIT = 4"
definition W_BIT :: "16 word" where "W_BIT = 2"
definition X_BIT :: "16 word" where "X_BIT = 1"
definition FILP_CLOSED :: "16 word" where "FILP_CLOSED = 0"
definition I_REGULAR :: "16 word" where "I_REGULAR = 0x8000"
definition I_NAMED_PIPE :: "16 word" where "I_NAMED_PIPE = 0x1000"
definition O_RDONLY :: "32 word" where "O_RDONLY = 0"
definition O_WRONLY :: "32 word" where "O_WRONLY = 1"
definition O_ACCMODE :: "32 word" where "O_ACCMODE = 3"
definition O_APPEND :: "32 word" where "O_APPEND = 0x400"
definition O_NONBLOCK :: "32 word" where "O_NONBLOCK = 0x800"
definition O_NOCTTY :: "32 word" where "O_NOCTTY = 0x100"

definition XPIPE :: int where "XPIPE = - NR_TASKS - 1"
definition XOPEN :: int where "XOPEN = - NR_TASKS - 2"
definition XLOCK :: int where "XLOCK = - NR_TASKS - 3"
definition XPOPEN :: int where "XPOPEN = - NR_TASKS - 4"
definition READ :: int where "READ = 3"
definition WRITE :: int where "WRITE = 4"
definition OPEN :: int where "OPEN = 5"
definition CREAT :: int where "CREAT = 8"
definition SIGPIPE :: int where "SIGPIPE = 13"
definition SUSPEND :: int where "SUSPEND = - 998"
definition ENXIO :: int where [errno_defs]: "ENXIO = - 6"
definition ENODEV :: int where [errno_defs]: "ENODEV = - 19"
definition ENOTTY :: int where [errno_defs]: "ENOTTY = - 25"
definition ESPIPE :: int where [errno_defs]: "ESPIPE = - 29"
definition ENOSYS :: int where [errno_defs]: "ENOSYS = - 38"
definition EGENERIC :: int where [errno_defs]: "EGENERIC = - 99"

definition in_fs :: "(fs \<Rightarrow> fs outcome option) \<Rightarrow> sys \<Rightarrow> sys outcome option" where
  "in_fs f s = and_then (f (fsys s)) (\<lambda>x. Some (Ret (s\<lparr>fsys := x\<rparr>)))"

definition upd_filp :: "nat \<Rightarrow> (filp \<Rightarrow> filp) \<Rightarrow> sys \<Rightarrow> sys" where
  "upd_filp f g s = s\<lparr>filp := (filp s)(f := g (filp s f))\<rparr>"

definition upd_fproc :: "int \<Rightarrow> (fproc \<Rightarrow> fproc) \<Rightarrow> sys \<Rightarrow> sys" where
  "upd_fproc p g s = s\<lparr>fproc := (fproc s)(p := g (fproc s p))\<rparr>"

definition upd_lock :: "nat \<Rightarrow> (file_lock \<Rightarrow> file_lock) \<Rightarrow> sys \<Rightarrow> sys" where
  "upd_lock i g s = s\<lparr>file_lock := (file_lock s)(i := g (file_lock s i))\<rparr>"

text \<open>\<^verbatim>\<open>fp->fp_filp[fd] = x\<close>\<close>

definition set_desc :: "nat \<Rightarrow> nat option \<Rightarrow> sys \<Rightarrow> sys" where
  "set_desc d x s = upd_fproc (fp s) (\<lambda>p. p\<lparr>fp_filp := (fp_filp p)(d := x)\<rparr>) s"

definition ino_of :: "sys \<Rightarrow> nat \<Rightarrow> inode" where
  "ino_of s rip = inode (fsys s) rip"

definition upd_ino :: "nat \<Rightarrow> (inode \<Rightarrow> inode) \<Rightarrow> sys \<Rightarrow> sys" where
  "upd_ino rip g s = s\<lparr>fsys := upd_inode rip g (fsys s)\<rparr>"

definition file_err :: "int \<Rightarrow> sys \<Rightarrow> sys" where
  "file_err e s = s\<lparr>fsys := (fsys s)\<lparr>err_code := e\<rparr>\<rparr>"

definition fproc_slots :: "int list" where
  "fproc_slots = [0 .. NR_PROCS - 1]"

section \<open>Descriptors (filedes.c)\<close>

text \<open>\<^verbatim>\<open>get_fd\<close>: an error, or the descriptor and the filp slot, whose mode is filled in.\<close>

definition get_fd :: "nat \<Rightarrow> 16 word \<Rightarrow> sys \<Rightarrow> (int + nat \<times> nat) \<times> sys" where
  "get_fd lo bits s =
     (case List.find (\<lambda>i. fp_filp (fproc s (fp s)) i = None) [lo ..< OPEN_MAX] of
        None \<Rightarrow> (Inl EMFILE, s)
      | Some k \<Rightarrow>
          (case List.find (\<lambda>f. filp_count (filp s f) = 0) [0 ..< NR_FILPS] of
             None \<Rightarrow> (Inl ENFILE, s)
           | Some f \<Rightarrow> (Inr (k, f), upd_filp f (\<lambda>x. x\<lparr>filp_mode := bits, filp_pos := 0, filp_flags := 0\<rparr>) s)))"

definition get_filp :: "int \<Rightarrow> sys \<Rightarrow> nat option \<times> sys" where
  "get_filp fild s =
     (if fild < 0 \<or> fild \<ge> int OPEN_MAX then None else fp_filp (fproc s (fp s)) (nat fild), file_err EBADF s)"

definition find_filp :: "nat \<Rightarrow> 16 word \<Rightarrow> sys \<Rightarrow> nat option" where
  "find_filp rip bits s =
     List.find (\<lambda>f. filp_count (filp s f) \<noteq> 0 \<and> filp_ino (filp s f) = rip \<and> has (filp_mode (filp s f)) bits) [0 ..< NR_FILPS]"

section \<open>Suspending and reviving (pipe.c)\<close>

text \<open>\<^verbatim>\<open>reply\<close> of \<^verbatim>\<open>main.c\<close>; the result of the send is not looked at.\<close>

definition reply_fs :: "int \<Rightarrow> int \<Rightarrow> sys \<Rightarrow> sys" where
  "reply_fs whom result s =
     (let m1 = (reply_mess s)\<lparr>msg_type := result\<rparr> in s\<lparr>reply_mess := m1, sent := sent s @ [Send whom m1]\<rparr>)"

text \<open>
  The parameters saved are those of \<^verbatim>\<open>read\<close> and \<^verbatim>\<open>write\<close>; those of \<^verbatim>\<open>fcntl\<close>, \<^verbatim>\<open>name1\<close> and \<^verbatim>\<open>request\<close>,
  are the same words of the message.
\<close>

definition suspend :: "int \<Rightarrow> sys \<Rightarrow> sys" where
  "suspend task s =
     (upd_fproc (fp s)
        (\<lambda>p. p\<lparr>fp_suspended := True, fp_fd := push_bit 8 (m_i1 (mesg s)) OR fs_call s, fp_task := - task,
               fp_buffer := m_l1 (mesg s), fp_nbytes := m_i2 (mesg s)\<rparr>)
        (if task = XPIPE \<or> task = XPOPEN then s\<lparr>susp_count := susp_count s + 1\<rparr> else s))\<lparr>dont_reply := True\<rparr>"

definition revive :: "int \<Rightarrow> int \<Rightarrow> sys \<Rightarrow> sys outcome option" where
  "revive proc_nr bytes s =
     (if proc_nr < 0 \<or> proc_nr \<ge> NR_PROCS then Some (Panic ''revive err'')
      else
        let rfp = fproc s proc_nr in
        if \<not> fp_suspended rfp \<or> fp_revived rfp then Some (Ret s)
        else
          let task = - fp_task rfp in
          if task = XPIPE \<or> task = XLOCK
          then Some (Ret ((upd_fproc proc_nr (fp_revived_update (\<lambda>_. True)) s)\<lparr>reviving := reviving s + 1\<rparr>))
          else
            let s1 = upd_fproc proc_nr (fp_suspended_update (\<lambda>_. False)) s in
            if task = XPOPEN then Some (Ret (reply_fs proc_nr (drop_bit 8 (fp_fd rfp)) s1))
            else Some (Ret (reply_fs proc_nr bytes (upd_fproc proc_nr (fp_nbytes_update (\<lambda>_. bytes)) s1))))"

text \<open>
  \<^verbatim>\<open>release\<close> visits the processes in order until \<open>cnt\<close> have been released; a suspended process always
  has the descriptor that it waits for.
\<close>

definition hangs_on :: "nat \<Rightarrow> int \<Rightarrow> sys \<Rightarrow> int \<Rightarrow> bool" where
  "hangs_on ip call_nr s rp \<longleftrightarrow>
     (let r = fproc s rp in
      fp_suspended r \<and> \<not> fp_revived r \<and> take_bit 8 (fp_fd r) = call_nr \<and>
      (case fp_filp r (nat (drop_bit 8 (fp_fd r))) of None \<Rightarrow> False | Some f \<Rightarrow> filp_ino (filp s f) = ip))"

fun release_loop :: "nat \<Rightarrow> int \<Rightarrow> int \<Rightarrow> int list \<Rightarrow> sys \<Rightarrow> sys outcome option" where
  "release_loop ip call_nr cnt [] s = Some (Ret s)"
| "release_loop ip call_nr cnt (rp # rps) s =
     (if hangs_on ip call_nr s rp
      then and_then (revive rp 0 s)
             (\<lambda>s1. let s2 = s1\<lparr>susp_count := susp_count s1 - 1\<rparr>
                   in if cnt - 1 = 0 then Some (Ret s2) else release_loop ip call_nr (cnt - 1) rps s2)
      else release_loop ip call_nr cnt rps s)"

definition release :: "nat \<Rightarrow> int \<Rightarrow> int \<Rightarrow> sys \<Rightarrow> sys outcome option" where
  "release ip call_nr cnt s = release_loop ip call_nr cnt fproc_slots s"

text \<open>
  \<^verbatim>\<open>pipe_check\<close> returns the result, \<^verbatim>\<open>*canwrite\<close> and the state; \<open>canwrite\<close> is its value before the call.
  The comparison with \<^verbatim>\<open>PIPE_SIZE\<close> is made on unsigned longs, \<^verbatim>\<open>*canwrite\<close> is an \<^verbatim>\<open>int\<close>.
\<close>

definition pipe_check ::
  "nat \<Rightarrow> bool \<Rightarrow> 32 word \<Rightarrow> int \<Rightarrow> 32 word \<Rightarrow> int \<Rightarrow> sys \<Rightarrow> (int \<times> int \<times> sys) outcome option" where
  "pipe_check rip reading oflags bytes position canwrite s =
     (if reading then
        if position \<ge> i_size (ino_of s rip) then
          if find_filp rip W_BIT s \<noteq> None then
            let nonblock = has oflags O_NONBLOCK;
                r = (if nonblock then EAGAIN else 0);
                s1 = (if nonblock then s else suspend XPIPE s)
            in and_then (if susp_count s1 > 0 then release rip WRITE (susp_count s1) s1 else Some (Ret s1))
                 (\<lambda>s2. Some (Ret (r, canwrite, s2)))
          else Some (Ret (0, canwrite, s))
        else Some (Ret (1, 0, s))
      else
        if find_filp rip R_BIT s = None
        then Some (Ret (EPIPE, canwrite, s\<lparr>sent := sent s @ [Kill (fp s) SIGPIPE]\<rparr>))
        else
          let room = sint (PIPE_SIZE - position);
              partial = and_then (release rip READ (susp_count s) s) (\<lambda>s1. Some (Ret (1, room, s1)))
          in if position + word_of_int bytes > PIPE_SIZE then
               if has oflags O_NONBLOCK \<and> bytes < sint PIPE_SIZE then Some (Ret (EAGAIN, canwrite, s))
               else if has oflags O_NONBLOCK \<and> bytes > sint PIPE_SIZE then
                 if room > 0 then partial else Some (Ret (EAGAIN, room, s))
               else if bytes > sint PIPE_SIZE \<and> room > 0 then partial
               else Some (Ret (0, (if bytes > sint PIPE_SIZE then room else canwrite), suspend XPIPE s))
             else
               and_then (if position = 0 then release rip READ (susp_count s) s else Some (Ret s))
                 (\<lambda>s1. Some (Ret (1, 0, s1))))"

end
