(* ===== verification/Fs_Lock.thy ===== *)
theory Fs_Lock
  imports Fs_Desc
begin

unbundle bit_operations_syntax

text \<open>
  Advisory locks on files, \<^verbatim>\<open>src/src/fs/lock.c\<close>. A lock covers the bytes from \<^verbatim>\<open>lock_first\<close> to
  \<^verbatim>\<open>lock_last\<close>; both are unsigned 32-bit numbers, as \<^verbatim>\<open>off_t\<close> is.
\<close>

definition F_DUPFD :: int where "F_DUPFD = 0"
definition F_GETFD :: int where "F_GETFD = 1"
definition F_SETFD :: int where "F_SETFD = 2"
definition F_GETFL :: int where "F_GETFL = 3"
definition F_SETFL :: int where "F_SETFL = 4"
definition F_GETLK :: int where "F_GETLK = 5"
definition F_SETLK :: int where "F_SETLK = 6"
definition F_SETLKW :: int where "F_SETLKW = 7"
definition F_RDLCK :: int where "F_RDLCK = 1"
definition F_WRLCK :: int where "F_WRLCK = 2"
definition F_UNLCK :: int where "F_UNLCK = 3"
definition SEEK_SET :: int where "SEEK_SET = 0"
definition SEEK_CUR :: int where "SEEK_CUR = 1"
definition SEEK_END :: int where "SEEK_END = 2"
definition MAX_FILE_POS :: "32 word" where "MAX_FILE_POS = - 1"

definition lock_revive :: "sys \<Rightarrow> sys outcome option" where
  "lock_revive =
     each (\<lambda>fptr s. if fp_suspended (fproc s fptr) \<and> - fp_task (fproc s fptr) = XLOCK then revive fptr 0 s else Some (Ret s))
       [INIT_PROC_NR + 1 .. NR_PROCS - 1]"

text \<open>The region of a lock, or an error: overflow is checked on the start only.\<close>

definition lock_region :: "flock \<Rightarrow> 32 word \<Rightarrow> 32 word \<Rightarrow> (32 word \<times> 32 word) option" where
  "lock_region fl pos eof =
     (case (if l_whence fl = SEEK_SET then Some 0 else if l_whence fl = SEEK_CUR then Some pos
            else if l_whence fl = SEEK_END then Some eof else None) of
        None \<Rightarrow> None
      | Some first0 \<Rightarrow>
          if sint (l_start fl) > 0 \<and> first0 + l_start fl < first0 then None
          else if sint (l_start fl) < 0 \<and> first0 + l_start fl > first0 then None
          else
            let first = first0 + l_start fl;
                lastb = (if l_len fl = 0 then MAX_FILE_POS else first + l_len fl - 1)
            in if lastb < first then None else Some (first, lastb))"

text \<open>
  The pass over the table. It ends the call (\<open>Lock_return\<close>) or leaves the first free slot that was
  seen, whether something has been unlocked, and the slot that conflicts with a \<^verbatim>\<open>F_GETLK\<close>.
\<close>

datatype lock_end = Lock_return int | Lock_end "nat option" bool "nat option"

definition harmless :: "nat \<Rightarrow> int \<Rightarrow> 32 word \<Rightarrow> 32 word \<Rightarrow> int \<Rightarrow> file_lock \<Rightarrow> bool" where
  "harmless ino ltype first lastb pid l \<longleftrightarrow>
     lock_inode l \<noteq> ino \<or> lastb < lock_first l \<or> first > lock_last l
     \<or> ltype = F_RDLCK \<and> lock_type l = F_RDLCK
     \<or> ltype \<noteq> F_UNLCK \<and> lock_pid l = pid"

text \<open>Taking the bytes from \<open>first\<close> to \<open>lastb\<close> out of one lock; \<open>None\<close> when it must be split and the table is full.\<close>

definition clear_lock :: "32 word \<Rightarrow> 32 word \<Rightarrow> nat \<Rightarrow> sys \<Rightarrow> sys option" where
  "clear_lock first lastb flp s =
     (let l = file_lock s flp in
      if first \<le> lock_first l \<and> lastb \<ge> lock_last l
      then Some ((upd_lock flp (lock_type_update (\<lambda>_. 0)) s)\<lparr>nr_locks := nr_locks s - 1\<rparr>)
      else if first \<le> lock_first l then Some (upd_lock flp (lock_first_update (\<lambda>_. lastb + 1)) s)
      else if lastb \<ge> lock_last l then Some (upd_lock flp (lock_last_update (\<lambda>_. first - 1)) s)
      else if nr_locks s = int NR_LOCKS then None
      else
        let flp2 = (case List.find (\<lambda>i. lock_type (file_lock s i) = 0) [0 ..< NR_LOCKS] of Some i \<Rightarrow> i | None \<Rightarrow> NR_LOCKS)
        in Some ((upd_lock flp (lock_last_update (\<lambda>_. first - 1)) (upd_lock flp2 (\<lambda>_. l\<lparr>lock_first := lastb + 1\<rparr>) s))
                   \<lparr>nr_locks := nr_locks s + 1\<rparr>))"

fun lock_scan :: "nat \<Rightarrow> int \<Rightarrow> int \<Rightarrow> 32 word \<Rightarrow> 32 word \<Rightarrow> nat list \<Rightarrow> nat option \<Rightarrow> bool \<Rightarrow> sys \<Rightarrow> lock_end \<times> sys" where
  "lock_scan ino req ltype first lastb [] free unlocking s = (Lock_end free unlocking None, s)"
| "lock_scan ino req ltype first lastb (flp # rest) free unlocking s =
     (if lock_type (file_lock s flp) = 0
      then lock_scan ino req ltype first lastb rest (if free = None then Some flp else free) unlocking s
      else if harmless ino ltype first lastb (fp_pid (fproc s (fp s))) (file_lock s flp)
      then lock_scan ino req ltype first lastb rest free unlocking s
      else if req = F_GETLK then (Lock_end free unlocking (Some flp), s)
      else if ltype = F_RDLCK \<or> ltype = F_WRLCK
      then if req = F_SETLK then (Lock_return EAGAIN, s) else (Lock_return 0, suspend XLOCK s)
      else
        case clear_lock first lastb flp s of
          None \<Rightarrow> (Lock_return ENOLCK, s)
        | Some s1 \<Rightarrow> lock_scan ino req ltype first lastb rest free True s1)"

text \<open>
  The end of \<^verbatim>\<open>lock_op\<close>: report the conflicting lock, or store the new one. The caller's
  \<^verbatim>\<open>struct flock\<close> is at the address \<^verbatim>\<open>name1\<close>.
\<close>

definition lock_report :: "env \<Rightarrow> flock \<Rightarrow> nat option \<Rightarrow> sys \<Rightarrow> int \<times> sys" where
  "lock_report e fl conflict s =
     (let fl2 = (case conflict of
                   None \<Rightarrow> fl\<lparr>l_type := F_UNLCK\<rparr>
                 | Some flp \<Rightarrow>
                     let l = file_lock s flp
                     in \<lparr>l_type = lock_type l, l_whence = SEEK_SET, l_start = lock_first l, l_len = lock_last l - lock_first l + 1, l_pid = lock_pid l\<rparr>)
      in (copy_status e (who s) (m_l1 (mesg s)), s\<lparr>sent := sent s @ [Copy_flock (who s) (m_l1 (mesg s)) fl2]\<rparr>))"

definition lock_store :: "nat \<Rightarrow> int \<Rightarrow> 32 word \<Rightarrow> 32 word \<Rightarrow> nat option \<Rightarrow> sys \<Rightarrow> int \<times> sys" where
  "lock_store ino ltype first lastb free s =
     (if ltype = F_UNLCK then (OK, s)
      else
        case free of
          None \<Rightarrow> (ENOLCK, s)
        | Some k \<Rightarrow>
            (OK, (upd_lock k (\<lambda>_. \<lparr>lock_type = ltype, lock_pid = fp_pid (fproc s (fp s)), lock_inode = ino, lock_first = first, lock_last = lastb\<rparr>) s)
                   \<lparr>nr_locks := nr_locks s + 1\<rparr>))"

definition lock_region_op :: "env \<Rightarrow> int \<Rightarrow> flock \<Rightarrow> nat \<Rightarrow> 32 word \<Rightarrow> 32 word \<Rightarrow> sys \<Rightarrow> (int \<times> sys) outcome option" where
  "lock_region_op e req fl ino first lastb s =
     (case lock_scan ino req (l_type fl) first lastb [0 ..< NR_LOCKS] None False s of
        (Lock_return r, s1) \<Rightarrow> Some (Ret (r, s1))
      | (Lock_end free unlocking conflict, s1) \<Rightarrow>
          and_then (if unlocking then lock_revive s1 else Some (Ret s1))
            (\<lambda>s2. Some (Ret (if req = F_GETLK then lock_report e fl conflict s2 else lock_store ino (l_type fl) first lastb free s2))))"

definition lock_op :: "env \<Rightarrow> nat \<Rightarrow> int \<Rightarrow> sys \<Rightarrow> (int \<times> sys) outcome option" where
  "lock_op e f req s =
     (case user_flock e (who s) (m_l1 (mesg s)) of
        None \<Rightarrow> Some (Ret (EINVAL, s))
      | Some fl \<Rightarrow>
          let ltype = l_type fl; mo = filp_mode (filp s f); ino = filp_ino (filp s f) in
          if ltype \<noteq> F_UNLCK \<and> ltype \<noteq> F_RDLCK \<and> ltype \<noteq> F_WRLCK then Some (Ret (EINVAL, s))
          else if req = F_GETLK \<and> ltype = F_UNLCK then Some (Ret (EINVAL, s))
          else if i_mode (ino_of s ino) AND I_TYPE \<noteq> I_REGULAR then Some (Ret (EINVAL, s))
          else if req \<noteq> F_GETLK \<and> ltype = F_RDLCK \<and> \<not> has mo R_BIT then Some (Ret (EBADF, s))
          else if req \<noteq> F_GETLK \<and> ltype = F_WRLCK \<and> \<not> has mo W_BIT then Some (Ret (EBADF, s))
          else
            case lock_region fl (filp_pos (filp s f)) (i_size (ino_of s ino)) of
              None \<Rightarrow> Some (Ret (EINVAL, s))
            | Some (first, lastb) \<Rightarrow> lock_region_op e req fl ino first lastb s)"

end
