(* ===== verification/Fs_Device.thy ===== *)
theory Fs_Device
  imports Fs_Desc
begin

unbundle bit_operations_syntax

text \<open>
  Calls to device tasks, \<^verbatim>\<open>src/src/fs/device.c\<close>, and the table \<^verbatim>\<open>dmap\<close> of \<^verbatim>\<open>table.c\<close>, which maps major
  device numbers to tasks and to the functions that talk to them. \<^verbatim>\<open>ENABLE_WINI\<close> and
  \<^verbatim>\<open>ENABLE_NETWORKING\<close> are 1, \<^verbatim>\<open>ENABLE_SCSI\<close> is 0. A jump through an entry outside of the table does not
  come back (\<open>None\<close>), nor does a message loop that waits for something that never comes.
\<close>

definition MEM :: int where "MEM = - 4"
definition FLOPPY :: int where "FLOPPY = - 5"
definition PRINTER :: int where "PRINTER = - 6"
definition WINCHESTER :: int where "WINCHESTER = - 9"
definition TTY :: int where "TTY = - 11"
definition INET_PROC_NR :: int where "INET_PROC_NR = 2"
definition CANCEL :: int where "CANCEL = 0"
definition DEV_READ :: int where "DEV_READ = 3"
definition DEV_WRITE :: int where "DEV_WRITE = 4"
definition DEV_IOCTL :: int where "DEV_IOCTL = 5"
definition DEV_OPEN :: int where "DEV_OPEN = 6"
definition DEV_CLOSE :: int where "DEV_CLOSE = 7"
definition REVIVE :: int where "REVIVE = 67"
definition ALL_MODES :: "16 word" where "ALL_MODES = 0xDFF"

section \<open>The device table\<close>

datatype dmap_fn = No_dev | Call_task | Call_ctty | Dev_opcl | Ctty_open | Ctty_close
datatype dmap_open_fn = Plain dmap_fn | Tty_open | Net_open

record dmap_entry =
  dmap_open :: dmap_open_fn
  dmap_rw :: dmap_fn
  dmap_close :: dmap_fn
  dmap_task :: int

definition DT :: "bool \<Rightarrow> dmap_open_fn \<Rightarrow> dmap_fn \<Rightarrow> dmap_fn \<Rightarrow> int \<Rightarrow> dmap_entry" where
  "DT enable op rw cl task =
     \<lparr>dmap_open = (if enable then op else Plain No_dev), dmap_rw = (if enable then rw else No_dev),
      dmap_close = (if enable then cl else No_dev), dmap_task = (if enable then task else 0)\<rparr>"

definition dmap_table :: "dmap_entry list" where
  "dmap_table =
     [DT True (Plain No_dev) No_dev No_dev 0,
      DT True (Plain Dev_opcl) Call_task Dev_opcl MEM,
      DT True (Plain Dev_opcl) Call_task Dev_opcl FLOPPY,
      DT True (Plain Dev_opcl) Call_task Dev_opcl WINCHESTER,
      DT True Tty_open Call_task Dev_opcl TTY,
      DT True (Plain Ctty_open) Call_ctty Ctty_close TTY,
      DT True (Plain Dev_opcl) Call_task Dev_opcl PRINTER,
      DT True Net_open Call_task Dev_opcl INET_PROC_NR,
      DT False (Plain Dev_opcl) Call_task Dev_opcl 0]"

definition max_major :: nat where "max_major = 9"

definition dmap :: "int \<Rightarrow> dmap_entry option" where
  "dmap maj = (if 0 \<le> maj \<and> maj < int max_major then Some (dmap_table ! nat maj) else None)"

text \<open>\<^verbatim>\<open>(dev >> MAJOR) & BYTE\<close>, \<^verbatim>\<open>(dev >> MINOR) & BYTE\<close> and the conversion of a zone number to \<^verbatim>\<open>dev_t\<close>.\<close>

definition major_of :: "int \<Rightarrow> int" where "major_of dev = take_bit 8 (drop_bit 8 dev)"
definition minor_of :: "int \<Rightarrow> int" where "minor_of dev = take_bit 8 dev"
definition dev_of :: "32 word \<Rightarrow> int" where "dev_of z = sint (ucast z :: 16 word)"

definition find_dev :: "int \<Rightarrow> int \<times> int" where
  "find_dev dev = (if major_of dev \<ge> int max_major then (0, 0) else (major_of dev, minor_of dev))"

section \<open>Messages to tasks\<close>

text \<open>
  The second loop of \<^verbatim>\<open>call_task\<close>: \<open>mp\<close> is the message that came back. A message that is neither the
  answer nor a \<^verbatim>\<open>REVIVE\<close> is looked at again and again.
\<close>

fun call_wait :: "int \<Rightarrow> mess \<Rightarrow> (int \<times> mess) list \<Rightarrow> sys \<Rightarrow> (mess \<times> sys) outcome option" where
  "call_wait proc_nr mp [] s =
     (if m_i1 mp = proc_nr then Some (Ret (mp, s\<lparr>inbox := []\<rparr>))
      else if msg_type mp \<noteq> REVIVE then None
      else and_then (revive (m_i1 mp) (m_i2 mp) s) (\<lambda>_. None))"
| "call_wait proc_nr mp ((r, mp') # inb) s =
     (if m_i1 mp = proc_nr then Some (Ret (mp, s\<lparr>inbox := (r, mp') # inb\<rparr>))
      else if msg_type mp \<noteq> REVIVE then None
      else and_then (revive (m_i1 mp) (m_i2 mp) s)
             (\<lambda>s1. if r \<noteq> OK then Some (Panic ''call_task: can't send/receive'') else call_wait proc_nr mp' inb s1))"

definition task_answer :: "int \<Rightarrow> int \<Rightarrow> mess \<Rightarrow> (int \<times> mess) list \<Rightarrow> sys \<Rightarrow> (mess \<times> sys) outcome option" where
  "task_answer proc_nr r mp inb s =
     (if r \<noteq> OK then Some (Panic ''call_task: can't send/receive'') else call_wait proc_nr mp inb s)"

text \<open>
  The first loop: \<^verbatim>\<open>ELOCKED\<close> means that the task is itself sending a \<^verbatim>\<open>REVIVE\<close>, which is received first.
\<close>

definition to_task :: "int \<Rightarrow> mess \<Rightarrow> sys \<Rightarrow> sys" where
  "to_task task mp s = s\<lparr>sent := sent s @ [Send task mp]\<rparr>"

fun call_send :: "int \<Rightarrow> int \<Rightarrow> mess \<Rightarrow> (int \<times> mess) list \<Rightarrow> sys \<Rightarrow> (mess \<times> sys) outcome option" where
  "call_send proc_nr task mp [] s = None"
| "call_send proc_nr task mp [(r, mp')] s =
     (if r = ELOCKED then None else task_answer proc_nr r mp' [] (to_task task mp s))"
| "call_send proc_nr task mp ((r, mp') # (r2, local_m) # inb) s =
     (let s1 = to_task task mp s in
      if r \<noteq> ELOCKED then task_answer proc_nr r mp' ((r2, local_m) # inb) s1
      else if r2 \<noteq> OK then Some (Panic ''call_task: can't send/receive'')
      else if msg_type mp = CANCEL \<and> m_i1 local_m = proc_nr then Some (Ret (mp, s1\<lparr>inbox := inb\<rparr>))
      else if msg_type local_m \<noteq> REVIVE then call_send proc_nr task mp inb s1
      else and_then (revive (m_i1 local_m) (m_i2 local_m) s1) (call_send proc_nr task mp inb))"

definition call_task :: "int \<Rightarrow> mess \<Rightarrow> sys \<Rightarrow> (mess \<times> sys) outcome option" where
  "call_task task mp s = call_send (m_i2 mp) task mp (inbox s) s"

definition call_ctty :: "mess \<Rightarrow> sys \<Rightarrow> (mess \<times> sys) outcome option" where
  "call_ctty mp s =
     (let tty = fp_tty (fproc s (fp s)) in
      if tty = 0 then Some (Ret (mp\<lparr>m_i2 := EIO\<rparr>, s))
      else
        case dmap (major_of tty) of
          None \<Rightarrow> None
        | Some d \<Rightarrow> call_task (dmap_task d) (mp\<lparr>m_i1 := minor_of tty\<rparr>) s)"

definition dev_opcl :: "int \<Rightarrow> mess \<Rightarrow> sys \<Rightarrow> (mess \<times> sys) outcome option" where
  "dev_opcl task_nr mp s =
     and_then (call_task task_nr (mp\<lparr>m_i1 := minor_of (m_i1 mp), m_i2 := fp s\<rparr>) s)
       (\<lambda>(mp1, s1).
          Some (Ret (mp1,
            if m_i2 mp1 = SUSPEND then suspend (if msg_type mp = DEV_OPEN then XPOPEN else task_nr) s1 else s1)))"

definition no_dev :: "mess \<Rightarrow> mess" where "no_dev mp = mp\<lparr>m_i2 := ENODEV\<rparr>"
definition ctty_open :: "mess \<Rightarrow> sys \<Rightarrow> mess" where
  "ctty_open mp s = mp\<lparr>m_i2 := (if fp_tty (fproc s (fp s)) = 0 then ENXIO else OK)\<rparr>"
definition ctty_close :: "mess \<Rightarrow> mess" where "ctty_close mp = mp\<lparr>m_i2 := OK\<rparr>"

text \<open>The call through a function pointer of the table.\<close>

fun dmap_call :: "dmap_fn \<Rightarrow> int \<Rightarrow> mess \<Rightarrow> sys \<Rightarrow> (mess \<times> sys) outcome option" where
  "dmap_call No_dev task mp s = Some (Ret (no_dev mp, s))"
| "dmap_call Call_task task mp s = call_task task mp s"
| "dmap_call Call_ctty task mp s = call_ctty mp s"
| "dmap_call Dev_opcl task mp s = dev_opcl task mp s"
| "dmap_call Ctty_open task mp s = Some (Ret (ctty_open mp s, s))"
| "dmap_call Ctty_close task mp s = Some (Ret (ctty_close mp, s))"

text \<open>
  The call that cancels a request which a process must not wait for. When the task has just finished
  it, \<^verbatim>\<open>call_task\<close> leaves the message alone.
\<close>

definition cancel :: "dmap_entry \<Rightarrow> int \<Rightarrow> int \<Rightarrow> mess \<Rightarrow> sys \<Rightarrow> (mess \<times> sys) outcome option" where
  "cancel d pr minor mp s =
     and_then (dmap_call (dmap_rw d) (dmap_task d) (mp\<lparr>msg_type := CANCEL, m_i2 := pr, m_i1 := minor\<rparr>) s)
       (\<lambda>(mp1, s1). Some (Ret (if m_i2 mp1 = EINTR then mp1\<lparr>m_i2 := EAGAIN\<rparr> else mp1, s1)))"

definition dev_io ::
  "int \<Rightarrow> 32 word \<Rightarrow> int \<Rightarrow> 32 word \<Rightarrow> int \<Rightarrow> int \<Rightarrow> 32 word \<Rightarrow> sys \<Rightarrow> (int \<times> sys) outcome option" where
  "dev_io op nonblock dev pos bytes pr buff s =
     (case dmap (fst (find_dev dev)) of
        None \<Rightarrow> None
      | Some d \<Rightarrow>
          and_then
            (dmap_call (dmap_rw d) (dmap_task d)
               \<lparr>msg_source = FS_PROC_NR, msg_type = op, m_i1 = minor_of dev, m_i2 = pr, m_i3 = bytes, m_l1 = pos, m_l2 = nonblock, m_p1 = buff, m_tail = 0\<rparr> s)
            (\<lambda>(mp, s1).
               if m_i2 mp \<noteq> SUSPEND then Some (Ret (m_i2 mp, s1))
               else if nonblock \<noteq> 0
               then and_then (cancel d pr (minor_of dev) mp s1) (\<lambda>(mp1, s2). Some (Ret (m_i2 mp1, s2)))
               else Some (Ret (SUSPEND, suspend (if op = DEV_OPEN then XPOPEN else dmap_task d) s1))))"

section \<open>Opening special files\<close>

text \<open>\<^verbatim>\<open>mode\<close> of the message is the second word.\<close>

definition tty_open :: "mess \<Rightarrow> sys \<Rightarrow> (mess \<times> sys) outcome option" where
  "tty_open mp s =
     (let dev = m_i1 mp; p = fproc s (fp s);
          taken = (\<exists>rfp \<in> set [LOW_USER .. NR_PROCS - 1]. fp_tty (fproc s rfp) = dev);
          flags = (if \<not> fp_sesldr p \<or> fp_tty p \<noteq> 0 \<or> taken then m_i3 mp OR uint O_NOCTTY else m_i3 mp)
      in and_then (dev_io DEV_OPEN (word_of_int (m_i2 (mesg s))) dev 0 flags (fp s) 0 s)
           (\<lambda>(r, s1).
              if r = 1 then Some (Ret (mp\<lparr>m_i2 := OK\<rparr>, upd_fproc (fp s1) (fp_tty_update (\<lambda>_. dev)) s1))
              else Some (Ret (mp\<lparr>m_i2 := r\<rparr>, s1))))"

text \<open>
  A network device is cloned: the descriptor gets a new inode with the minor number that the task
  has chosen. A descriptor that is not open would be a null pointer.
\<close>

definition net_open :: "env \<Rightarrow> mess \<Rightarrow> sys \<Rightarrow> (mess \<times> sys) outcome option" where
  "net_open e mp s =
     (let p = fproc s (fp s) in
      case fp_filp p (nat (m_i1 (mesg s))) of
        None \<Rightarrow> None
      | Some f \<Rightarrow>
          let rip = filp_ino (filp s f) in
          and_then (alloc_inode (disk_io e) (time_now e) (fp_effuid p) (fp_effgid p) (i_dev (ino_of s rip)) (ALL_MODES OR I_CHAR_SPECIAL) (fsys s))
            (\<lambda>(nrip, fs1).
               let s1 = s\<lparr>fsys := fs1\<rparr> in
               case nrip of
                 None \<Rightarrow> Some (Ret (mp\<lparr>m_i2 := err_code fs1\<rparr>, s1))
               | Some nr \<Rightarrow>
                   and_then (dev_io DEV_OPEN (word_of_int (m_i2 (mesg s))) (m_i1 mp) 0 (m_i3 mp) (fp s) 0 s1)
                     (\<lambda>(result, s2).
                        if result < 0
                        then and_then (in_fs (put_inode (disk_io e) (time_now e) (Some nr)) s2) (\<lambda>s3. Some (Ret (mp\<lparr>m_i2 := result\<rparr>, s3)))
                        else
                          let dev = dev_of (i_zone (ino_of s2 rip) 0);
                              dev' = (dev AND NOT 0xFF) OR take_bit 8 result
                          in and_then (in_fs (put_inode (disk_io e) (time_now e) (Some rip)) (upd_ino nr (\<lambda>r. r\<lparr>i_zone := (i_zone r)(0 := word_of_int dev')\<rparr>) s2))
                               (\<lambda>s3. Some (Ret (mp\<lparr>m_i2 := OK\<rparr>, upd_filp f (filp_ino_update (\<lambda>_. nr)) s3))))))"

fun dmap_open_call :: "env \<Rightarrow> dmap_open_fn \<Rightarrow> int \<Rightarrow> mess \<Rightarrow> sys \<Rightarrow> (mess \<times> sys) outcome option" where
  "dmap_open_call e (Plain g) task mp s = dmap_call g task mp s"
| "dmap_open_call e Tty_open task mp s = tty_open mp s"
| "dmap_open_call e Net_open task mp s = net_open e mp s"

end
