(* ===== verification/Fs_Calls.thy ===== *)
theory Fs_Calls
  imports Fs_Lock Fs_Device
begin

unbundle bit_operations_syntax

text \<open>
  The calls on open files and on processes: \<^verbatim>\<open>do_close\<close> and \<^verbatim>\<open>do_lseek\<close> of \<^verbatim>\<open>src/src/fs/open.c\<close>,
  \<^verbatim>\<open>do_pipe\<close> and \<^verbatim>\<open>do_unpause\<close> of \<^verbatim>\<open>pipe.c\<close>, \<^verbatim>\<open>misc.c\<close>, \<^verbatim>\<open>forbidden\<close>, \<^verbatim>\<open>read_only\<close> and \<^verbatim>\<open>do_umask\<close> of
  \<^verbatim>\<open>protect.c\<close>, \<^verbatim>\<open>mounted\<close> of \<^verbatim>\<open>super.c\<close>, \<^verbatim>\<open>do_setsid\<close> and \<^verbatim>\<open>do_ioctl\<close> of \<^verbatim>\<open>device.c\<close>, \<^verbatim>\<open>do_time\<close> and
  \<^verbatim>\<open>do_stime\<close> of \<^verbatim>\<open>time.c\<close>. A call gets its parameters from the message \<open>mesg\<close> and returns the result
  and the new state. Following a null pointer does not come back (\<open>None\<close>).
\<close>

definition DUP_MASK :: int where "DUP_MASK = 64"
definition RWX_MODES :: "16 word" where "RWX_MODES = 0x1FF"
definition I_DIRECTORY :: "16 word" where "I_DIRECTORY = 0x4000"
definition SU_UID :: "16 word" where "SU_UID = 0"
definition ROOT_INODE :: "16 word" where "ROOT_INODE = 1"
definition SETUID :: int where "SETUID = 23"
definition SETGID :: int where "SETGID = 46"
definition ACCESS :: int where "ACCESS = 33"
definition CLOCK :: int where "CLOCK = - 3"
definition SET_TIME :: int where "SET_TIME = 4"

definition set_i1 :: "int \<Rightarrow> sys \<Rightarrow> sys" where
  "set_i1 x s = s\<lparr>mesg := (mesg s)\<lparr>m_i1 := x\<rparr>\<rparr>"

section \<open>Flushing (misc.c)\<close>

definition sync_fs :: "env \<Rightarrow> fs \<Rightarrow> fs outcome option" where
  "sync_fs e s =
     and_then
       (each (\<lambda>rip s. if i_count (inode s rip) > 0 \<and> i_dirt (inode s rip) then rw_inode (disk_io e) (time_now e) rip False s else Some (Ret s))
          [0 ..< NR_INODES] s)
       (\<lambda>s1. Some (Ret (s1\<lparr>fs_cache :=
          fold (\<lambda>bp c. if b_dev (buf c bp) \<noteq> NO_DEV \<and> b_dirt (buf c bp) then flushall (disk_io e) (b_dev (buf c bp)) c else c)
            [0 ..< NR_BUFS] (fs_cache s1)\<rparr>)))"

definition do_sync :: "env \<Rightarrow> sys \<Rightarrow> (int \<times> sys) outcome option" where
  "do_sync e s = and_then (in_fs (sync_fs e) s) (\<lambda>s1. Some (Ret (OK, s1)))"

section \<open>Closing and seeking (open.c)\<close>

definition mounted :: "nat \<Rightarrow> sys \<Rightarrow> bool" where
  "mounted rip s \<longleftrightarrow>
     (let dev = dev_of (i_zone (ino_of s rip) 0)
      in dev = root_dev s \<or> (\<exists>i \<in> set [0 ..< NR_SUPERS]. s_dev (super_blocks (fsys s) i) = dev))"

text \<open>The message to the driver; the words that \<^verbatim>\<open>DEV_CLOSE\<close> does not use are zero here.\<close>

definition close_mess :: "int \<Rightarrow> mess" where
  "close_mess dev =
     \<lparr>msg_source = FS_PROC_NR, msg_type = DEV_CLOSE, m_i1 = dev, m_i2 = 0, m_i3 = 0, m_l1 = 0, m_l2 = 0, m_p1 = 0, m_tail = 0\<rparr>"

definition dev_close :: "int \<Rightarrow> sys \<Rightarrow> sys outcome option" where
  "dev_close dev s =
     (case dmap (major_of dev) of
        None \<Rightarrow> None
      | Some d \<Rightarrow> and_then (dmap_call (dmap_close d) (dmap_task d) (close_mess dev) s) (\<lambda>(_, s1). Some (Ret s1)))"

text \<open>The parts of \<^verbatim>\<open>do_close\<close>: special files, pipes, the filp slot, locks.\<close>

definition close_special :: "env \<Rightarrow> nat \<Rightarrow> sys \<Rightarrow> sys outcome option" where
  "close_special e f s =
     (let rip = filp_ino (filp s f); mode_word = i_mode (ino_of s rip) AND I_TYPE; dev = dev_of (i_zone (ino_of s rip) 0) in
      if filp_count (filp s f) - 1 = 0 \<and> filp_mode (filp s f) \<noteq> FILP_CLOSED \<and>
         (mode_word = I_CHAR_SPECIAL \<or> mode_word = I_BLOCK_SPECIAL)
      then
        and_then
          (if mode_word = I_BLOCK_SPECIAL \<and> \<not> mounted rip s
           then in_fs (\<lambda>x. and_then (sync_fs e x) (\<lambda>y. Some (Ret (y\<lparr>fs_cache := invalidate dev (fs_cache y)\<rparr>)))) s
           else Some (Ret s))
          (dev_close dev)
      else Some (Ret s))"

definition close_pipe :: "nat \<Rightarrow> sys \<Rightarrow> sys outcome option" where
  "close_pipe f s =
     (let rip = filp_ino (filp s f) in
      if i_pipe (ino_of s rip) then release rip (if has (filp_mode (filp s f)) R_BIT then WRITE else READ) NR_PROCS s else Some (Ret s))"

definition drop_filp :: "env \<Rightarrow> nat \<Rightarrow> sys \<Rightarrow> sys outcome option" where
  "drop_filp e f s =
     (let rip = filp_ino (filp s f); s1 = upd_filp f (filp_count_update (\<lambda>n. n - 1)) s in
      if filp_count (filp s1 f) \<noteq> 0 then Some (Ret s1)
      else
        in_fs (put_inode (disk_io e) (time_now e) (Some rip))
          (if i_pipe (ino_of s1 rip) \<and> i_count (ino_of s1 rip) > 1
           then upd_ino rip (\<lambda>r. r\<lparr>i_zone := (i_zone r)(if filp_mode (filp s1 f) = R_BIT then V2_NR_DZONES else V2_NR_DZONES + 1
                                              := filp_pos (filp s1 f))\<rparr>) s1
           else s1))"

definition drop_locks :: "nat \<Rightarrow> sys \<Rightarrow> sys" where
  "drop_locks rip =
     fold (\<lambda>i s. if lock_type (file_lock s i) \<noteq> 0 \<and> lock_inode (file_lock s i) = rip \<and> lock_pid (file_lock s i) = fp_pid (fproc s (fp s))
                 then (upd_lock i (lock_type_update (\<lambda>_. 0)) s)\<lparr>nr_locks := nr_locks s - 1\<rparr> else s)
       [0 ..< NR_LOCKS]"

definition close_locks :: "nat \<Rightarrow> sys \<Rightarrow> sys outcome option" where
  "close_locks rip s =
     (if nr_locks s = 0 then Some (Ret s)
      else let s1 = drop_locks rip s in if nr_locks s1 < nr_locks s then lock_revive s1 else Some (Ret s1))"

definition do_close :: "env \<Rightarrow> sys \<Rightarrow> (int \<times> sys) outcome option" where
  "do_close e s =
     (let fd = m_i1 (mesg s) in
      case get_filp fd s of
        (None, s1) \<Rightarrow> Some (Ret (err_code (fsys s1), s1))
      | (Some f, s1) \<Rightarrow>
          let rip = filp_ino (filp s1 f) in
          and_then (and_then (and_then (close_special e f s1) (close_pipe f)) (drop_filp e f))
            (\<lambda>s2.
               let s3 = set_desc (nat fd) None (upd_fproc (fp s2) (fp_cloexec_update (\<lambda>w. w AND NOT (flag (nat fd)))) s2)
               in and_then (close_locks rip s3) (\<lambda>s4. Some (Ret (OK, s4)))))"

text \<open>\<^verbatim>\<open>do_lseek\<close>: the sum is checked as a signed number.\<close>

definition do_lseek :: "sys \<Rightarrow> int \<times> sys" where
  "do_lseek s =
     (case get_filp (m_i1 (mesg s)) s of
        (None, s1) \<Rightarrow> (err_code (fsys s1), s1)
      | (Some f, s1) \<Rightarrow>
          let rip = filp_ino (filp s1 f); offset = m_l1 (mesg s1); whence = m_i2 (mesg s1) in
          if i_pipe (ino_of s1 rip) then (ESPIPE, s1)
          else
            case (if whence = 0 then Some 0 else if whence = 1 then Some (filp_pos (filp s1 f))
                  else if whence = 2 then Some (i_size (ino_of s1 rip)) else None) of
              None \<Rightarrow> (EINVAL, s1)
            | Some pos0 \<Rightarrow>
                if sint offset > 0 \<and> sint (pos0 + offset) < sint pos0 then (EINVAL, s1)
                else if sint offset < 0 \<and> sint (pos0 + offset) > sint pos0 then (EINVAL, s1)
                else
                  let pos = pos0 + offset;
                      s2 = (if pos \<noteq> filp_pos (filp s1 f) then upd_ino rip (i_seek_update (\<lambda>_. True)) s1 else s1);
                      s3 = upd_filp f (filp_pos_update (\<lambda>_. pos)) s2
                  in (OK, s3\<lparr>reply_mess := (reply_mess s3)\<lparr>m_l1 := pos\<rparr>\<rparr>))"

section \<open>Pipes\<close>

definition read_only :: "nat \<Rightarrow> sys \<Rightarrow> int" where
  "read_only ip s = (if s_rd_only (super_blocks (fsys s) (i_sp (ino_of s ip))) then EROFS else OK)"

definition claim :: "nat \<Rightarrow> nat \<Rightarrow> sys \<Rightarrow> sys" where
  "claim d f s = upd_filp f (filp_count_update (\<lambda>_. 1)) (set_desc d (Some f) s)"

definition unclaim :: "nat \<Rightarrow> nat \<Rightarrow> sys \<Rightarrow> sys" where
  "unclaim d f s = upd_filp f (filp_count_update (\<lambda>_. 0)) (set_desc d None s)"

text \<open>The new inode becomes a pipe, and both filp slots refer to it.\<close>

definition link_pipe :: "nat \<Rightarrow> nat \<Rightarrow> nat \<Rightarrow> sys \<Rightarrow> sys" where
  "link_pipe rip f0 f1 s =
     (let s1 = upd_ino rip (\<lambda>r. r\<lparr>i_pipe := True, i_mode := (i_mode r AND NOT I_REGULAR) OR I_NAMED_PIPE\<rparr>) s;
          s2 = upd_filp f0 (\<lambda>q. q\<lparr>filp_ino := rip, filp_flags := O_RDONLY\<rparr>) s1;
          s3 = s2\<lparr>fsys := dup_inode rip (fsys s2)\<rparr>
      in upd_filp f1 (\<lambda>q. q\<lparr>filp_ino := rip, filp_flags := O_WRONLY\<rparr>) s3)"

definition do_pipe :: "env \<Rightarrow> sys \<Rightarrow> (int \<times> sys) outcome option" where
  "do_pipe e s =
     (case get_fd 0 R_BIT s of
        (Inl r, s1) \<Rightarrow> Some (Ret (r, s1))
      | (Inr (d0, f0), s1) \<Rightarrow>
          let s2 = claim d0 f0 s1 in
          case get_fd 0 W_BIT s2 of
            (Inl r, s3) \<Rightarrow> Some (Ret (r, unclaim d0 f0 s3))
          | (Inr (d1, f1), s3) \<Rightarrow>
              let s4 = claim d1 f1 s3; p = fproc s4 (fp s4) in
              and_then (alloc_inode (disk_io e) (time_now e) (fp_effuid p) (fp_effgid p) (root_dev s4) I_REGULAR (fsys s4))
                (\<lambda>(ripo, x).
                   let s5 = s4\<lparr>fsys := x\<rparr> in
                   case ripo of
                     None \<Rightarrow> let s6 = unclaim d1 f1 (unclaim d0 f0 s5) in Some (Ret (err_code (fsys s6), s6))
                   | Some rip \<Rightarrow>
                       if read_only rip s5 \<noteq> OK then Some (Panic ''pipe device is read only'')
                       else
                         and_then (in_fs (rw_inode (disk_io e) (time_now e) rip False) (link_pipe rip f0 f1 s5))
                           (\<lambda>s6.
                              Some (Ret (OK,
                                upd_ino rip (i_update_update (\<lambda>_. ATIME OR CTIME OR MTIME))
                                  (s6\<lparr>reply_mess := (reply_mess s6)\<lparr>m_i1 := int d0, m_i2 := int d1\<rparr>\<rparr>))))))"

text \<open>
  \<^verbatim>\<open>do_unpause\<close>, first the branch for a process that waits for a device. The words of \<^verbatim>\<open>mess\<close> that
  \<^verbatim>\<open>CANCEL\<close> does not use are zero here.
\<close>

definition unpause_dev :: "int \<Rightarrow> sys \<Rightarrow> sys outcome option" where
  "unpause_dev proc_nr s =
     (let rfp = fproc s proc_nr; fild = nat (take_bit 8 (drop_bit 8 (fp_fd rfp))) in
      if fild \<ge> OPEN_MAX then Some (Panic ''unpause err 2'')
      else
        case fp_filp rfp fild of
          None \<Rightarrow> None
        | Some f \<Rightarrow>
            let dev = dev_of (i_zone (ino_of s (filp_ino (filp s f))) 0) in
            case dmap (major_of dev) of
              None \<Rightarrow> None
            | Some d \<Rightarrow>
                and_then
                  (dmap_call (dmap_rw d) (- fp_task rfp)
                     \<lparr>msg_source = FS_PROC_NR, msg_type = CANCEL, m_i1 = minor_of dev, m_i2 = proc_nr,
                      m_i3 = (if take_bit 8 (fp_fd rfp) = READ then uint R_BIT else uint W_BIT), m_l1 = 0, m_l2 = 0, m_p1 = 0, m_tail = 0\<rparr>
                     (s\<lparr>fp := proc_nr\<rparr>))
                  (\<lambda>(_, s1). Some (Ret s1)))"

definition do_unpause :: "sys \<Rightarrow> (int \<times> sys) outcome option" where
  "do_unpause s =
     (if who s > MM_PROC_NR then Some (Ret (EPERM, s))
      else
        let proc_nr = m_i1 (mesg s) in
        if proc_nr < 0 \<or> proc_nr \<ge> NR_PROCS then Some (Panic ''unpause err 1'')
        else
          let rfp = fproc s proc_nr; task = - fp_task rfp in
          if \<not> fp_suspended rfp then Some (Ret (OK, s))
          else
            and_then
              (if task = XPIPE then Some (Ret s)
               else if task = XOPEN then Some (Panic ''fs/do_unpause called with XOPEN'')
               else if task = XLOCK \<or> task = XPOPEN then Some (Ret s)
               else unpause_dev proc_nr s)
              (\<lambda>s1. Some (Ret (OK, reply_fs proc_nr EINTR (upd_fproc proc_nr (fp_suspended_update (\<lambda>_. False)) s1)))))"

end
