(* ===== verification/Fs_Misc.thy ===== *)
theory Fs_Misc
  imports Fs_Calls
begin

unbundle bit_operations_syntax

text \<open>
  More calls on descriptors and processes: the rest of \<^verbatim>\<open>src/src/fs/misc.c\<close> (\<^verbatim>\<open>dup\<close>, \<^verbatim>\<open>fcntl\<close>, and the
  parts of \<^verbatim>\<open>fork\<close>, \<^verbatim>\<open>exec\<close>, \<^verbatim>\<open>exit\<close>, \<^verbatim>\<open>setuid\<close> and \<^verbatim>\<open>setgid\<close> that concern files, \<^verbatim>\<open>revive\<close>), \<^verbatim>\<open>setsid\<close>
  and \<^verbatim>\<open>ioctl\<close> of \<^verbatim>\<open>device.c\<close>, access checks and \<^verbatim>\<open>umask\<close> of \<^verbatim>\<open>protect.c\<close>, the clock of \<^verbatim>\<open>time.c\<close>.
\<close>

section \<open>dup and fcntl\<close>

definition share :: "nat \<Rightarrow> nat \<Rightarrow> sys \<Rightarrow> sys" where
  "share d f s = set_desc d (Some f) (upd_filp f (filp_count_update (\<lambda>n. n + 1)) s)"

definition do_dup :: "env \<Rightarrow> sys \<Rightarrow> (int \<times> sys) outcome option" where
  "do_dup e s =
     (let fd = m_i1 (mesg s); rfd = fd AND NOT DUP_MASK; fd2 = m_i2 (mesg s) in
      case get_filp rfd s of
        (None, s1) \<Rightarrow> Some (Ret (err_code (fsys s1), s1))
      | (Some f, s1) \<Rightarrow>
          if fd = rfd then
            (case get_fd 0 0 s1 of
               (Inl r, s2) \<Rightarrow> Some (Ret (r, s2))
             | (Inr (d, _), s2) \<Rightarrow> Some (Ret (int d, share d f s2)))
          else if fd2 < 0 \<or> fd2 \<ge> int OPEN_MAX then Some (Ret (EBADF, s1))
          else if rfd = fd2 then Some (Ret (fd2, s1))
          else and_then (do_close e (set_i1 fd2 s1)) (\<lambda>(_, s2). Some (Ret (fd2, share (nat fd2) f s2))))"

definition do_fcntl :: "env \<Rightarrow> sys \<Rightarrow> (int \<times> sys) outcome option" where
  "do_fcntl e s =
     (let fd = m_i1 (mesg s); request = m_i2 (mesg s); addr = m_i3 (mesg s) in
      case get_filp fd s of
        (None, s1) \<Rightarrow> Some (Ret (err_code (fsys s1), s1))
      | (Some f, s1) \<Rightarrow>
          if request = F_DUPFD then
            if addr < 0 \<or> addr \<ge> int OPEN_MAX then Some (Ret (EINVAL, s1))
            else
              (case get_fd (nat addr) 0 s1 of
                 (Inl r, s2) \<Rightarrow> Some (Ret (r, s2))
               | (Inr (d, _), s2) \<Rightarrow> Some (Ret (int d, share d f s2)))
          else if request = F_GETFD then
            Some (Ret (if bit (fp_cloexec (fproc s1 (fp s1))) (nat fd) then 1 else 0, s1))
          else if request = F_SETFD then
            Some (Ret (OK, upd_fproc (fp s1)
              (fp_cloexec_update (\<lambda>w. (w AND NOT (flag (nat fd))) OR (if odd addr then flag (nat fd) else 0))) s1))
          else if request = F_GETFL then
            Some (Ret (uint (filp_flags (filp s1 f) AND (O_NONBLOCK OR O_APPEND OR O_ACCMODE)), s1))
          else if request = F_SETFL then
            let fl = O_NONBLOCK OR O_APPEND
            in Some (Ret (OK, upd_filp f (filp_flags_update (\<lambda>w. (w AND NOT fl) OR (word_of_int addr AND fl))) s1))
          else if request = F_GETLK \<or> request = F_SETLK \<or> request = F_SETLKW then lock_op e f request s1
          else Some (Ret (EINVAL, s1)))"

section \<open>fork, exec and exit\<close>

definition dup_dir :: "nat option \<Rightarrow> sys \<Rightarrow> sys outcome option" where
  "dup_dir d s = (case d of None \<Rightarrow> None | Some ip \<Rightarrow> Some (Ret (s\<lparr>fsys := dup_inode ip (fsys s)\<rparr>)))"

definition do_fork_fs :: "sys \<Rightarrow> (int \<times> sys) outcome option" where
  "do_fork_fs s =
     (if who s \<noteq> MM_PROC_NR then Some (Ret (EGENERIC, s))
      else
        let parent = m_i1 (mesg s); child = m_i2 (mesg s); pid = m_i3 (mesg s);
            s1 = s\<lparr>fproc := (fproc s)(child := fproc s parent)\<rparr>;
            s2 = fold (\<lambda>i s. case fp_filp (fproc s child) i of None \<Rightarrow> s | Some f \<Rightarrow> upd_filp f (filp_count_update (\<lambda>n. n + 1)) s)
                   [0 ..< OPEN_MAX] s1;
            s3 = upd_fproc child (\<lambda>p. p\<lparr>fp_pid := pid, fp_sesldr := False\<rparr>) s2
        in and_then (dup_dir (fp_rootdir (fproc s3 child)) s3)
             (\<lambda>s4. and_then (dup_dir (fp_workdir (fproc s4 child)) s4) (\<lambda>s5. Some (Ret (OK, s5)))))"

definition close_fd :: "env \<Rightarrow> nat \<Rightarrow> sys \<Rightarrow> sys outcome option" where
  "close_fd e i s = and_then (do_close e (set_i1 (int i) s)) (\<lambda>(_, s1). Some (Ret s1))"

definition do_exec_fs :: "env \<Rightarrow> sys \<Rightarrow> (int \<times> sys) outcome option" where
  "do_exec_fs e s =
     (if who s \<noteq> MM_PROC_NR then Some (Ret (EGENERIC, s))
      else
        let s1 = s\<lparr>fp := m_i1 (mesg s)\<rparr>; bitmap = fp_cloexec (fproc s1 (fp s1)) in
        if bitmap = 0 then Some (Ret (OK, s1))
        else
          and_then (each (\<lambda>i s. if bit bitmap i then close_fd e i s else Some (Ret (set_i1 (int i) s))) [0 ..< OPEN_MAX] s1)
            (\<lambda>s2. Some (Ret (OK, s2))))"

text \<open>Taking the controlling terminal of a session away from one process.\<close>

definition hang_up_fd :: "int \<Rightarrow> int \<Rightarrow> nat \<Rightarrow> sys \<Rightarrow> sys outcome option" where
  "hang_up_fd dev rfp i s =
     (case fp_filp (fproc s rfp) i of
        None \<Rightarrow> Some (Ret s)
      | Some f \<Rightarrow>
          let r = ino_of s (filp_ino (filp s f)) in
          if filp_mode (filp s f) = FILP_CLOSED \<or> i_mode r AND I_TYPE \<noteq> I_CHAR_SPECIAL \<or> dev_of (i_zone r 0) \<noteq> dev then Some (Ret s)
          else and_then (dev_close dev s) (\<lambda>s1. Some (Ret (upd_filp f (filp_mode_update (\<lambda>_. FILP_CLOSED)) s1))))"

definition hang_up :: "int \<Rightarrow> int \<Rightarrow> sys \<Rightarrow> sys outcome option" where
  "hang_up dev rfp s =
     each (hang_up_fd dev rfp) [0 ..< OPEN_MAX]
       (if fp_tty (fproc s rfp) = dev then upd_fproc rfp (fp_tty_update (\<lambda>_. 0)) s else s)"

definition exit_unpause :: "sys \<Rightarrow> sys outcome option" where
  "exit_unpause s =
     (let p = fproc s (fp s); task = - fp_task p in
      if \<not> fp_suspended p then Some (Ret s)
      else
        and_then (do_unpause (set_i1 (fp s) (if task = XPIPE \<or> task = XPOPEN then s\<lparr>susp_count := susp_count s - 1\<rparr> else s)))
          (\<lambda>(_, s1). Some (Ret (upd_fproc (fp s1) (fp_suspended_update (\<lambda>_. False)) s1))))"

definition drop_dirs :: "env \<Rightarrow> sys \<Rightarrow> sys outcome option" where
  "drop_dirs e s =
     and_then (in_fs (put_inode (disk_io e) (time_now e) (fp_rootdir (fproc s (fp s)))) s)
       (\<lambda>s1. and_then (in_fs (put_inode (disk_io e) (time_now e) (fp_workdir (fproc s1 (fp s1)))) s1)
          (\<lambda>s2. Some (Ret (upd_fproc (fp s2) (\<lambda>p. p\<lparr>fp_rootdir := None, fp_workdir := None\<rparr>) s2))))"

definition do_exit_fs :: "env \<Rightarrow> sys \<Rightarrow> (int \<times> sys) outcome option" where
  "do_exit_fs e s =
     (if who s \<noteq> MM_PROC_NR then Some (Ret (EGENERIC, s))
      else
        and_then (and_then (and_then (exit_unpause (s\<lparr>fp := m_i1 (mesg s)\<rparr>)) (each (close_fd e) [0 ..< OPEN_MAX])) (drop_dirs e))
          (\<lambda>s1.
             let p = fproc s1 (fp s1) in
             if \<not> fp_sesldr p then Some (Ret (OK, s1))
             else
               let s2 = upd_fproc (fp s1) (fp_sesldr_update (\<lambda>_. False)) s1 in
               if fp_tty p = 0 then Some (Ret (OK, s2))
               else and_then (each (hang_up (fp_tty p)) [LOW_USER .. NR_PROCS - 1] s2) (\<lambda>s3. Some (Ret (OK, s3)))))"

section \<open>Identity\<close>

definition do_set :: "sys \<Rightarrow> int \<times> sys" where
  "do_set s =
     (if who s \<noteq> MM_PROC_NR then (EGENERIC, s)
      else
        let m = mesg s;
            s1 = (if fs_call s = SETUID
                  then upd_fproc (m_i1 m) (\<lambda>p. p\<lparr>fp_realuid := word_of_int (m_i2 m), fp_effuid := word_of_int (m_i3 m)\<rparr>) s else s);
            s2 = (if fs_call s = SETGID
                  then upd_fproc (m_i1 m) (\<lambda>p. p\<lparr>fp_effgid := word_of_int (m_i3 m), fp_realgid := word_of_int (m_i2 m)\<rparr>) s1 else s1)
        in (OK, s2))"

definition do_revive :: "sys \<Rightarrow> (int \<times> sys) outcome option" where
  "do_revive s =
     (if who s \<ge> LOW_USER then Some (Ret (EPERM, s))
      else and_then (revive (m_i1 (mesg s)) (m_i2 (mesg s)) s) (\<lambda>s1. Some (Ret (OK, s1\<lparr>dont_reply := True\<rparr>))))"

text \<open>When it succeeds, \<^verbatim>\<open>do_setsid\<close> returns whatever is in the result register: \<open>junk\<close>.\<close>

definition do_setsid :: "int \<Rightarrow> sys \<Rightarrow> int \<times> sys" where
  "do_setsid junk s =
     (if who s \<noteq> MM_PROC_NR then (ENOSYS, s)
      else (junk, upd_fproc (m_i1 (mesg s)) (\<lambda>p. p\<lparr>fp_sesldr := True, fp_tty := 0\<rparr>) s))"

definition do_umask :: "sys \<Rightarrow> int \<times> sys" where
  "do_umask s =
     (uint (NOT (fp_umask (fproc s (fp s)))),
      upd_fproc (fp s) (fp_umask_update (\<lambda>_. NOT (word_of_int (m_i1 (mesg s)) AND RWX_MODES))) s)"

section \<open>Access\<close>

text \<open>The permission bits that a caller has on a file.\<close>

definition perm_bits :: "16 word \<Rightarrow> 8 word \<Rightarrow> inode \<Rightarrow> 16 word" where
  "perm_bits test_uid test_gid r =
     (if test_uid = SU_UID
      then if i_mode r AND I_TYPE = I_DIRECTORY \<or> has (i_mode r) (push_bit 6 X_BIT OR push_bit 3 X_BIT OR X_BIT)
           then R_BIT OR W_BIT OR X_BIT else R_BIT OR W_BIT
      else drop_bit (if test_uid = i_uid r then 6 else if test_gid = i_gid r then 3 else 0) (i_mode r) AND (R_BIT OR W_BIT OR X_BIT))"

text \<open>
  \<^verbatim>\<open>forbidden\<close>. If the inode is mounted on, the root of the mounted file system is meant; when the
  inode table has no room for it, the source follows a null pointer.
\<close>

definition forbidden :: "env \<Rightarrow> nat \<Rightarrow> 16 word \<Rightarrow> sys \<Rightarrow> (int \<times> sys) outcome option" where
  "forbidden e old_rip access_desired s =
     and_then
       (case (if i_mount (ino_of s old_rip) then List.find (\<lambda>i. s_imount (super_blocks (fsys s) i) = Some old_rip) [1 ..< NR_SUPERS] else None) of
          None \<Rightarrow> Some (Ret (Some old_rip, s))
        | Some i \<Rightarrow> and_then (get_inode (disk_io e) (time_now e) (s_dev (super_blocks (fsys s) i)) ROOT_INODE (fsys s))
                      (\<lambda>(r, x). Some (Ret (r, s\<lparr>fsys := x\<rparr>))))
       (\<lambda>(ripo, s1).
          case ripo of
            None \<Rightarrow> None
          | Some rip \<Rightarrow>
              let p = fproc s1 (fp s1);
                  perm = (if fs_call s1 = ACCESS then perm_bits (fp_realuid p) (fp_realgid p) (ino_of s1 rip)
                          else perm_bits (fp_effuid p) (fp_effgid p) (ino_of s1 rip));
                  r0 = (if (perm OR access_desired) \<noteq> perm then EACCES else OK);
                  r = (if r0 = OK \<and> has access_desired W_BIT then read_only rip s1 else r0)
              in and_then (if rip \<noteq> old_rip then in_fs (put_inode (disk_io e) (time_now e) (Some rip)) s1 else Some (Ret s1))
                   (\<lambda>s2. Some (Ret (r, s2))))"

section \<open>Devices and the clock\<close>

definition do_ioctl :: "sys \<Rightarrow> (int \<times> sys) outcome option" where
  "do_ioctl s =
     (case get_filp (m_i1 (mesg s)) s of
        (None, s1) \<Rightarrow> Some (Ret (err_code (fsys s1), s1))
      | (Some f, s1) \<Rightarrow>
          let r = ino_of s1 (filp_ino (filp s1 f)); ft = i_mode r AND I_TYPE in
          if ft \<noteq> I_CHAR_SPECIAL \<and> ft \<noteq> I_BLOCK_SPECIAL then Some (Ret (ENOTTY, s1))
          else
            let (maj, minor) = find_dev (dev_of (i_zone r 0)) in
            case dmap maj of
              None \<Rightarrow> None
            | Some d \<Rightarrow>
                and_then (dmap_call (dmap_rw d) (dmap_task d) ((mesg s1)\<lparr>msg_type := DEV_IOCTL, m_i2 := who s1, m_i1 := minor\<rparr>) s1)
                  (\<lambda>(mp, s2).
                     and_then
                       (if m_i2 mp \<noteq> SUSPEND then Some (Ret (mp, s2))
                        else if has (filp_flags (filp s2 f)) O_NONBLOCK then cancel d (who s2) minor mp s2
                        else Some (Ret (mp, suspend (dmap_task d) s2)))
                       (\<lambda>(mp1, s3). Some (Ret (m_i2 mp1, s3\<lparr>reply_mess := (reply_mess s3)\<lparr>m_l1 := m_l1 mp1, m_l2 := m_l2 mp1\<rparr>\<rparr>)))))"

definition do_time :: "env \<Rightarrow> sys \<Rightarrow> int \<times> sys" where
  "do_time e s = (OK, s\<lparr>reply_mess := (reply_mess s)\<lparr>m_l1 := time_now e\<rparr>\<rparr>)"

definition do_stime :: "sys \<Rightarrow> (int \<times> sys) outcome option" where
  "do_stime s =
     (if \<not> super_user s then Some (Ret (EPERM, s))
      else
        let s1 = to_task CLOCK \<lparr>msg_source = FS_PROC_NR, msg_type = SET_TIME, m_i1 = 0, m_i2 = 0, m_i3 = 0, m_l1 = m_l1 (mesg s), m_l2 = 0, m_p1 = 0, m_tail = 0\<rparr> s in
        case inbox s1 of
          [] \<Rightarrow> None
        | (k, _) # rest \<Rightarrow> if k \<noteq> OK then Some (Panic ''do_stime error'') else Some (Ret (OK, s1\<lparr>inbox := rest\<rparr>)))"

end
