(* ===== verification/Fs_Frame.thy ===== *)
theory Fs_Frame
  imports Fs_Misc
begin

text \<open>
  What each layer of FS leaves alone: the block cache changes no inode and no super block, the inode layer no
  descriptor, and so on. The invariants of Fs_Counts rest on these facts instead of unfolding the layers.
\<close>

section \<open>What the lower layers leave alone\<close>

definition fs_frame :: "fs \<Rightarrow> fs \<Rightarrow> bool" where
  "fs_frame s s' \<longleftrightarrow> (\<forall>i. i_count (inode s' i) = i_count (inode s i)) \<and>
     (\<forall>k. s_isup (super_blocks s' k) = s_isup (super_blocks s k) \<and> s_imount (super_blocks s' k) = s_imount (super_blocks s k))"

lemma yieldsI: "(\<And>x. r = Some (Ret x) \<Longrightarrow> Q x) \<Longrightarrow> yields r Q"
  by (simp add: yields_def)

lemma fs_frame_refl [simp]: "fs_frame s s" by (simp add: fs_frame_def)
lemma fs_frame_trans: "fs_frame s t \<Longrightarrow> fs_frame t u \<Longrightarrow> fs_frame s u" by (simp add: fs_frame_def)
lemma fs_frame_cache [simp]: "fs_frame s (t\<lparr>fs_cache := c\<rparr>) = fs_frame s t" by (simp add: fs_frame_def)
lemma fs_frame_err [simp]: "fs_frame s (t\<lparr>err_code := e\<rparr>) = fs_frame s t" by (simp add: fs_frame_def)
lemma fs_frame_upd: "(\<And>r. i_count (g r) = i_count r) \<Longrightarrow> fs_frame s (upd_inode i g t) = fs_frame s t"
  by (auto simp: fs_frame_def upd_inode_def)

lemma icopy_count [simp]: "i_count (old_icopy_in n d p r) = i_count r" "i_count (new_icopy_in n d p r) = i_count r"
  by (simp_all add: old_icopy_in_def new_icopy_in_def Let_def)

lemma frame_rw_inode: "yields (rw_inode io now rip rd s) (fs_frame s)"
  unfolding rw_inode_def by (auto simp: Let_def fs_frame_upd update_times_def intro!: yieldsI)


lemma yields_thenI: "yields r P \<Longrightarrow> (\<And>x. P x \<Longrightarrow> yields (f x) Q) \<Longrightarrow> yields (and_then r f) Q"
  by simp (rule yields_mono)

lemma yields_if: "(P \<Longrightarrow> yields a Q) \<Longrightarrow> (\<not> P \<Longrightarrow> yields b Q) \<Longrightarrow> yields (if P then a else b) Q"
  by simp

lemma yields_any: "(\<And>x. Q x) \<Longrightarrow> yields r Q"
  by (rule yieldsI)

definition cache_only :: "fs \<Rightarrow> fs \<Rightarrow> bool" where
  "cache_only s s' \<longleftrightarrow> (\<exists>c. s' = s\<lparr>fs_cache := c\<rparr>)"

lemma cache_only_simps [simp]: "cache_only s s" "cache_only s (t\<lparr>fs_cache := c\<rparr>) \<longleftrightarrow> cache_only s t"
proof -
  show "cache_only s s" unfolding cache_only_def by (rule exI [of _ "fs_cache s"]) simp
  show "cache_only s (t\<lparr>fs_cache := c\<rparr>) \<longleftrightarrow> cache_only s t"
  proof
    assume "cache_only s (t\<lparr>fs_cache := c\<rparr>)"
    then obtain c' where "t\<lparr>fs_cache := c\<rparr> = s\<lparr>fs_cache := c'\<rparr>" by (auto simp: cache_only_def)
    then have "t = s\<lparr>fs_cache := fs_cache t\<rparr>" by (cases s; cases t) simp
    then show "cache_only s t" unfolding cache_only_def by blast
  qed (auto simp: cache_only_def)
qed

lemma cache_only_trans: "cache_only s t \<Longrightarrow> cache_only t u \<Longrightarrow> cache_only s u"
  by (auto simp: cache_only_def)

lemma cache_only_frame: "cache_only s t \<Longrightarrow> fs_frame s t" "cache_only s t \<Longrightarrow> inode t = inode s"
  "cache_only s t \<Longrightarrow> super_blocks t = super_blocks s" "cache_only s t \<Longrightarrow> err_code t = err_code s"
  by (auto simp: cache_only_def)

lemma cache_read_entry: "yields (read_entry io dev b k s) (\<lambda>(z, s'). cache_only s s')"
  unfolding read_entry_def Let_def yields_then by (rule yields_any) (auto intro: yields_any)

lemma frame_map: "yields (read_map io rip pos s) (\<lambda>(b, s'). cache_only s s')"
proof -
  define scale boff where "scale = scale_of s rip" and "boff = unat pos div 1024 - unat pos div 1024 div 2 ^ scale * 2 ^ scale"
  have f: "yields (Some (Ret (if z = NO_ZONE then NO_BLOCK else unat (push_bit scale z + word_of_nat boff), t))) (\<lambda>(b, s'). cache_only s s')"
    if "cache_only s t" for z t using that by simp
  have g: "yields (if z = NO_ZONE then Some (Ret (NO_BLOCK, t)) else and_then (read_entry io dev (block_of_zone z scale) k t)
      (\<lambda>(z1, s2). Some (Ret (if z1 = NO_ZONE then NO_BLOCK else unat (push_bit scale z1 + word_of_nat boff), s2)))) (\<lambda>(b, s'). cache_only s s')"
    if "cache_only s t" for z t dev k using that by (auto intro!: yields_mono [OF cache_read_entry] intro: cache_only_trans)
  show ?thesis
    unfolding read_map_def Let_def scale_def [symmetric] boff_def [symmetric]
    by (auto simp: f g simp del: yields_then intro!: yields_thenI [OF cache_read_entry] simp del: cache_only_simps(2))
qed

lemma fs_frame_super: "(\<And>x. s_isup (g x) = s_isup x \<and> s_imount (g x) = s_imount x) \<Longrightarrow> fs_frame s (upd_super i g t) = fs_frame s t"
  by (auto simp: fs_frame_def upd_super_def)

lemma frame_free_zone [intro!]: "yields (free_zone io dev z s) (fs_frame s)"
  by (auto simp: free_zone_def Let_def fs_frame_super intro!: yieldsI)

lemma frame_free_inode: "yields (free_inode io dev n s) (fs_frame s)"
  by (auto simp: free_inode_def Let_def fs_frame_super intro!: yieldsI)

lemma frame_each:
  assumes "\<And>x t. yields (f x t) (fs_frame t)"
  shows "yields (each f xs s) (fs_frame s)"
  by (rule yields_each) (auto intro: yields_mono [OF assms] fs_frame_trans)

lemma frame_truncate_zones: "yields (truncate_zones io rip dev scale ks s) (fs_frame s)"
  unfolding truncate_zones_def
proof (rule frame_each)
  fix k t
  show "yields (and_then (read_map io rip (word_of_nat (k * (1024 * 2 ^ scale))) t)
      (\<lambda>(b, s1). if b \<noteq> NO_BLOCK then free_zone io dev (drop_bit scale (word_of_nat b)) s1 else Some (Ret s1))) (fs_frame t)"
    by (rule yields_thenI [OF frame_map])
      (auto dest!: cache_only_frame(1) intro!: frame_free_zone [THEN yields_mono] intro: fs_frame_trans)
qed

lemma frame_wipe [simp]: "fs_frame s (wipe_inode rip t) = fs_frame s t"
  by (simp add: wipe_inode_def fs_frame_upd)

lemma frame_truncate: "yields (Fs_Map.truncate io rip s) (fs_frame s)"
proof (cases "i_mode (inode s rip) AND I_TYPE = I_CHAR_SPECIAL \<or> i_mode (inode s rip) AND I_TYPE = I_BLOCK_SPECIAL")
  case False
  have one: "yields (if i_pipe (inode s rip) then g t else h t) (fs_frame s)"
    if "yields (g t) (fs_frame s)" "yields (h t) (fs_frame s)" for g h and t :: fs using that by simp
  have freed: "yields (free_zone io dev z t) (fs_frame s)" if "fs_frame s t" for dev z t
    by (rule yields_mono [OF frame_free_zone]) (use that in \<open>auto intro: fs_frame_trans\<close>)
  have dbl: "yields (and_then (get_block io dev b NORMAL (fs_cache t))
      (\<lambda>(bp, c). and_then (each (\<lambda>i s5. and_then (rd_indir bp i s5) (\<lambda>z1. free_zone io dev z1 s5)) xs (t\<lparr>fs_cache := c\<rparr>))
         (\<lambda>s6. free_zone io dev z (release_buf io (Some bp) s6)))) (fs_frame s)" if "fs_frame s t" for dev b t xs z
  proof (rule yields_thenI [of _ "\<lambda>_. True"], simp add: yields_any, clarify)
    fix bp c
    show "yields (and_then (each (\<lambda>i s5. and_then (rd_indir bp i s5) (\<lambda>z1. free_zone io dev z1 s5)) xs (t\<lparr>fs_cache := c\<rparr>))
         (\<lambda>s6. free_zone io dev z (release_buf io (Some bp) s6))) (fs_frame s)"
    proof (rule yields_thenI [of _ "fs_frame s"], rule yields_each)
      show "fs_frame s (t\<lparr>fs_cache := c\<rparr>)" using that by simp
      show "yields (and_then (rd_indir bp i u) (\<lambda>z1. free_zone io dev z1 u)) (fs_frame s)" if "fs_frame s u" for i u
        unfolding yields_then by (rule yields_any) (rule freed [OF that])
      show "yields (free_zone io dev z (release_buf io (Some bp) u)) (fs_frame s)" if "fs_frame s u" for u
        by (rule freed) (simp add: release_buf_def that)
    qed
  qed
  have up: "fs_frame s x" if "fs_frame (upd_inode rip (i_size_update (\<lambda>_. PIPE_SIZE)) s) x" for x
    by (rule fs_frame_trans [OF _ that]) (simp add: fs_frame_upd)
  show ?thesis
    using False unfolding Fs_Map.truncate_def Let_def
    by (simp del: yields_then, intro yields_thenI [OF frame_truncate_zones] impI conjI)
      (auto simp del: yields_then simp: fs_frame_upd dest: up intro!: yields_thenI [of "free_zone _ _ _ _", OF freed] dbl)
qed (auto simp: Fs_Map.truncate_def)

text \<open>Operations that change the reference count of one inode.\<close>

definition counted :: "nat \<Rightarrow> (int \<Rightarrow> int) \<Rightarrow> fs \<Rightarrow> fs \<Rightarrow> bool" where
  "counted i g s s' \<longleftrightarrow> (\<forall>j. i_count (inode s' j) = (if j = i then g (i_count (inode s j)) else i_count (inode s j))) \<and>
     (\<forall>k. s_isup (super_blocks s' k) = s_isup (super_blocks s k) \<and> s_imount (super_blocks s' k) = s_imount (super_blocks s k))"

lemma counted_upd: "(\<And>r. i_count (g r) = f (i_count r)) \<Longrightarrow> counted i f s (upd_inode i g s)"
  by (simp add: counted_def upd_inode_def)

lemma counted_update [simp]: "counted i f s (upd_inode k (i_update_update u) t) = counted i f s t"
  by (auto simp: counted_def upd_inode_def)

lemma counted_frame: "counted i f s t \<Longrightarrow> fs_frame t u \<Longrightarrow> counted i f s u"
  by (simp add: counted_def fs_frame_def)

lemma frame_counted: "fs_frame s t \<Longrightarrow> counted i f t u \<Longrightarrow> counted i f s u"
  by (simp add: counted_def fs_frame_def)

lemma counted_dup: "counted ip (\<lambda>n. n + 1) s (dup_inode ip s)"
  by (simp add: dup_inode_def counted_upd)

lemma counted_put_inode: "yields (put_inode io now (Some rip) s) (counted rip (\<lambda>n. n - 1) s)"
proof -
  let ?s1 = "upd_inode rip (i_count_update (\<lambda>n. n - 1)) s"
  have c: "counted rip (\<lambda>n. n - 1) s ?s1" by (simp add: counted_upd)
  have fin: "yields (let s5 = upd_inode rip (i_pipe_update (\<lambda>_. False)) t in if i_dirt (inode s5 rip) then rw_inode io now rip False s5 else Some (Ret s5))
      (counted rip (\<lambda>n. n - 1) s)" if "counted rip (\<lambda>n. n - 1) s t" for t
    unfolding Let_def using counted_frame [OF that, of "upd_inode rip (i_pipe_update (\<lambda>_. False)) t"]
    by (auto simp: fs_frame_upd intro: yields_mono [OF frame_rw_inode] counted_frame)
  have free: "yields (free_inode io d n (upd_inode rip (\<lambda>r. r\<lparr>i_mode := m, i_dirt := True\<rparr>) t)) (counted rip (\<lambda>n. n - 1) s)"
    if "fs_frame ?s1 t" for d n m t
    by (rule yields_mono [OF frame_free_inode], rule counted_frame [OF c], rule fs_frame_trans [OF that])
      (auto intro: fs_frame_trans simp: fs_frame_def upd_inode_def)
  have tr: "yields (Fs_Map.truncate io rip ?s1) (counted rip (\<lambda>n. n - 1) s)"
    by (rule yields_mono [OF frame_truncate]) (rule counted_frame [OF c])
  let ?A = "if i_nlinks (inode ?s1 rip) = 0
    then and_then (Fs_Map.truncate io rip ?s1)
           (\<lambda>s2. let s3 = upd_inode rip (\<lambda>r. r\<lparr>i_mode := I_NOT_ALLOC, i_dirt := True\<rparr>) s2
                 in free_inode io (i_dev (inode s3 rip)) (i_num (inode s3 rip)) s3)
    else if i_pipe (inode ?s1 rip) then Fs_Map.truncate io rip ?s1 else Some (Ret ?s1)"
  have "yields ?A (counted rip (\<lambda>n. n - 1) s)"
    using c tr by (auto simp del: yields_then simp: Let_def intro!: yields_thenI [OF frame_truncate free])
  then show ?thesis
    unfolding put_inode_def option.case Let_def [of ?s1]
    by (cases "i_count (inode ?s1 rip) \<noteq> 0") (simp_all only: c if_True if_False not_not simp_thms yields_simps yields_thenI [OF _ fin])
qed

lemma frame_put_None: "yields (put_inode io now None s) (fs_frame s)"
  by (simp add: put_inode_def)

lemma search_free: "inode_search tab dev n xs xp = (b, Some k) \<Longrightarrow> (\<And>j. xp = Some j \<Longrightarrow> j < m \<and> \<not> i_count (tab j) > 0) \<Longrightarrow> set xs \<subseteq> {..< m} \<Longrightarrow>
    k < m \<and> (i_count (tab k) > 0 \<longleftrightarrow> b)"
  by (induction xs arbitrary: xp) (auto split: if_splits)

definition taken :: "fs \<Rightarrow> nat option \<times> fs \<Rightarrow> bool" where
  "taken s = (\<lambda>(r, s'). case r of None \<Rightarrow> fs_frame s s' | Some k \<Rightarrow> k < NR_INODES \<and> counted k (\<lambda>n. max n 0 + 1) s s')"

lemma counted_cong: "f (i_count (inode s k)) = g (i_count (inode s k)) \<Longrightarrow> counted k f s s' = counted k g s s'"
  by (auto simp: counted_def)

lemma counted_get_inode: "yields (get_inode io now dev n s) (taken s)"
proof (cases "inode_search (inode s) dev n [0 ..< NR_INODES] None")
  case (Pair b r)
  show ?thesis
  proof (cases r)
    case None
    then show ?thesis using Pair by (cases b) (simp_all add: get_inode_def taken_def)
  next
    case (Some k)
    from search_free [OF Pair [unfolded Some], of NR_INODES] have k: "k < NR_INODES" "i_count (inode s k) > 0 \<longleftrightarrow> b"
      by (simp_all add: lessThan_atLeast0)
    let ?s1 = "upd_inode k (\<lambda>r. r\<lparr>i_dev := dev, i_num := n, i_count := 1\<rparr>) s"
    have "\<not> b \<Longrightarrow> counted k (\<lambda>n. max n 0 + 1) s ?s1" using k by (subst counted_cong [of _ _ _ "\<lambda>_. 1"]) (auto simp: counted_upd)
    then have new: "\<not> b \<Longrightarrow> yields (if dev \<noteq> NO_DEV then rw_inode io now k True ?s1 else Some (Ret ?s1)) (counted k (\<lambda>n. max n 0 + 1) s)"
      by (auto intro: yields_mono [OF frame_rw_inode] counted_frame)
    have old: "b \<Longrightarrow> counted k (\<lambda>n. max n 0 + 1) s (upd_inode k (i_count_update (\<lambda>n. n + 1)) s)"
      using k by (subst counted_cong [of _ _ _ "\<lambda>n. n + 1"]) (auto simp: counted_upd)
    show ?thesis
    proof (cases b)
      case True
      then show ?thesis using Pair Some k old by (simp add: get_inode_def taken_def)
    next
      case False
      then have e: "get_inode io now dev n s = and_then (if dev \<noteq> NO_DEV then rw_inode io now k True ?s1 else Some (Ret ?s1))
          (\<lambda>s2. Some (Ret (Some k, upd_inode k (i_update_update (\<lambda>_. 0)) s2)))"
        using Pair Some by (simp add: get_inode_def)
      show ?thesis unfolding e by (rule yields_thenI [OF new [OF False]]) (simp add: taken_def k)
    qed
  qed
qed

lemma taken_None: "fs_frame s s' \<Longrightarrow> taken s (None, s')" by (simp add: taken_def)

lemma taken_pre: "fs_frame s t \<Longrightarrow> taken t x \<Longrightarrow> taken s x"
  by (cases x) (auto simp: taken_def split: option.splits intro: fs_frame_trans frame_counted)

lemma taken_post: "taken s (r, t) \<Longrightarrow> fs_frame t u \<Longrightarrow> taken s (r, u)"
  by (auto simp: taken_def split: option.splits intro: fs_frame_trans counted_frame)

lemma counted_alloc_inode: "yields (alloc_inode io now uid gid dev bits s) (taken s)"
proof -
  have get: "yields (get_inode io now NO_DEV (word_of_nat b) (upd_super i (s_isearch_update (\<lambda>_. b)) (s\<lparr>fs_cache := c\<rparr>))) (taken s)" for b i c
    by (rule yields_mono [OF counted_get_inode], erule taken_pre [rotated]) (simp add: fs_frame_super)
  have fin: "yields (case r of
        None \<Rightarrow> and_then (free_bit io (super_blocks s3 i) IMAP b (fs_cache s3)) (\<lambda>c1. Some (Ret (None, s3\<lparr>fs_cache := c1\<rparr>)))
      | Some rip \<Rightarrow> Some (Ret (Some rip, wipe_inode rip (upd_inode rip (\<lambda>r. r\<lparr>i_mode := bits, i_nlinks := 0, i_uid := uid, i_gid := gid, i_dev := dev,
          i_ndzones := nd, i_nindirs := ni, i_sp := i\<rparr>) s3)))) (taken s)" if t: "taken s (r, s3)" for r s3 i b nd ni
  proof (cases r)
    case None
    have "taken s (None, s3\<lparr>fs_cache := c1\<rparr>)" for c1 using taken_post [OF t] None by simp
    then show ?thesis using None by (simp add: yields_any)
  next
    case (Some k)
    show ?thesis unfolding Some option.case yields_simps using t Some by (auto intro: taken_post simp: fs_frame_upd)
  qed
  show ?thesis
    unfolding alloc_inode_def Let_def
  proof (rule yields_thenI [OF yields_any [of "\<lambda>_. True"]], simp, rule yields_if, simp add: taken_None,
      rule yields_thenI [OF yields_any [of "\<lambda>_. True"]], simp, clarify, rule yields_if, simp add: taken_None, rule yields_thenI [OF get], clarify)
    fix i b c r s3 nd ni
    assume "taken s (r, s3)"
    then show "yields (case r of
        None \<Rightarrow> and_then (free_bit io (super_blocks s3 i) IMAP b (fs_cache s3)) (\<lambda>c1. Some (Ret (None, s3\<lparr>fs_cache := c1\<rparr>)))
      | Some rip \<Rightarrow> Some (Ret (Some rip, wipe_inode rip (upd_inode rip (\<lambda>r. r\<lparr>i_mode := bits, i_nlinks := 0, i_uid := uid, i_gid := gid, i_dev := dev,
          i_ndzones := s_ndzones (super_blocks s i), i_nindirs := s_nindirs (super_blocks s i), i_sp := i\<rparr>) s3)))) (taken s)" by (rule fin)
  qed
qed

lemma frame_sync: "yields (sync_fs e s) (fs_frame s)"
  unfolding sync_fs_def
  by (rule yields_thenI [of _ "fs_frame s"], rule yields_each) (auto intro: yields_mono [OF frame_rw_inode] fs_frame_trans)

end
