(* ===== verification/Fs_Counts.thy ===== *)
theory Fs_Counts
  imports Fs_Frame
begin

unbundle bit_operations_syntax

text \<open>
  The tables count each other: a filp slot its descriptors, an inode the filp slots, directories and
  super blocks that refer to it, \<^verbatim>\<open>nr_locks\<close> the locks and \<^verbatim>\<open>reviving\<close> the processes to be revived. Every
  call keeps the counts.
\<close>

section \<open>Counting\<close>

definition procs :: "int set" where "procs = {0 ..< NR_PROCS}"

definition desc :: "sys \<Rightarrow> int \<times> nat \<Rightarrow> nat option" where
  "desc s x = fp_filp (fproc s (fst x)) (snd x)"

definition slots :: "(int \<times> nat) set" where "slots = procs \<times> {..< OPEN_MAX}"

definition users :: "sys \<Rightarrow> nat \<Rightarrow> int" where
  "users s f = (\<Sum>x \<in> slots. of_bool (desc s x = Some f))"

definition opened :: "filp \<Rightarrow> nat \<Rightarrow> int" where
  "opened q i = of_bool (filp_count q \<noteq> 0 \<and> filp_ino q = i)"

definition in_dirs :: "fproc \<Rightarrow> nat \<Rightarrow> int" where
  "in_dirs p i = of_bool (fp_rootdir p = Some i) + of_bool (fp_workdir p = Some i)"

definition file_refs :: "sys \<Rightarrow> nat \<Rightarrow> int" where "file_refs s i = (\<Sum>f < NR_FILPS. opened (filp s f) i)"
definition dir_refs :: "sys \<Rightarrow> nat \<Rightarrow> int" where "dir_refs s i = (\<Sum>p \<in> procs. in_dirs (fproc s p) i)"

definition super_refs :: "sys \<Rightarrow> nat \<Rightarrow> int" where
  "super_refs s i = (\<Sum>k < NR_SUPERS. of_bool (s_isup (super_blocks (fsys s) k) = Some i) + of_bool (s_imount (super_blocks (fsys s) k) = Some i))"

definition used_locks :: "sys \<Rightarrow> int" where "used_locks s = (\<Sum>i < NR_LOCKS. of_bool (lock_type (file_lock s i) \<noteq> 0))"
definition revived :: "sys \<Rightarrow> int" where "revived s = (\<Sum>p \<in> procs. of_bool (fp_revived (fproc s p)))"

definition refs :: "sys \<Rightarrow> nat \<Rightarrow> int" where "refs s i = file_refs s i + dir_refs s i + super_refs s i"

definition filps_ok :: "sys \<Rightarrow> bool" where
  "filps_ok s \<longleftrightarrow> (\<forall>x \<in> slots. \<forall>f. desc s x = Some f \<longrightarrow> f < NR_FILPS) \<and> (\<forall>f < NR_FILPS. filp_count (filp s f) = users s f)"

text \<open>Nothing is mounted on another device than the root.\<close>

definition lone :: "sys \<Rightarrow> bool" where
  "lone s \<longleftrightarrow> (\<forall>k. 0 < k \<and> k < NR_SUPERS \<longrightarrow> s_imount (super_blocks (fsys s) k) = None)"

definition inodes_ok :: "sys \<Rightarrow> bool" where
  "inodes_ok s \<longleftrightarrow> (\<forall>i. i_count (ino_of s i) = refs s i) \<and> (\<forall>i \<ge> NR_INODES. i_count (ino_of s i) = 0) \<and> lone s"

definition revive_ok :: "sys \<Rightarrow> bool" where
  "revive_ok s \<longleftrightarrow> reviving s = revived s \<and> (\<forall>p \<in> procs. fp_revived (fproc s p) \<longrightarrow> fp_suspended (fproc s p))"

definition locks_ok :: "sys \<Rightarrow> bool" where "locks_ok s \<longleftrightarrow> nr_locks s = used_locks s"

definition sys_inv :: "sys \<Rightarrow> bool" where
  "sys_inv s \<longleftrightarrow> filps_ok s \<and> inodes_ok s \<and> locks_ok s \<and> revive_ok s"

lemma finite_tables [simp]: "finite procs" "finite slots"
  by (simp_all add: procs_def slots_def)

lemma sum_change:
  fixes g h :: "'a \<Rightarrow> int"
  assumes "finite A" "a \<in> A" "\<And>x. x \<in> A \<Longrightarrow> x \<noteq> a \<Longrightarrow> g x = h x"
  shows "sum g A = sum h A - h a + g a"
proof -
  have "sum g (A - {a}) = sum h (A - {a})" by (rule sum.cong) (use assms(3) in auto)
  then show ?thesis using assms(1,2) by (simp add: sum.remove)
qed

lemma users_nonneg: "users s f \<ge> 0" by (simp add: users_def sum_nonneg)

lemma refs_nonneg: "file_refs s i \<ge> 0" "dir_refs s i \<ge> 0" "super_refs s i \<ge> 0" "refs s i \<ge> 0"
  by (simp_all add: refs_def file_refs_def dir_refs_def super_refs_def opened_def in_dirs_def sum_nonneg)

section \<open>Steps that touch no count\<close>

definition erase :: "fproc \<Rightarrow> fproc" where
  "erase p = p\<lparr>fp_suspended := False, fp_revived := False, fp_fd := 0, fp_task := 0, fp_buffer := 0, fp_nbytes := 0, fp_tty := 0, fp_sesldr := False,
     fp_cloexec := 0, fp_umask := 0, fp_realuid := 0, fp_effuid := 0, fp_realgid := 0, fp_effgid := 0, fp_cum_io_partial := 0\<rparr>"

definition soft :: "sys \<Rightarrow> sys \<Rightarrow> bool" where
  "soft s s' \<longleftrightarrow> fs_frame (fsys s) (fsys s') \<and> (\<forall>f. filp_count (filp s' f) = filp_count (filp s f) \<and> filp_ino (filp s' f) = filp_ino (filp s f)) \<and>
     (\<forall>p. erase (fproc s' p) = erase (fproc s p)) \<and>
     file_lock s' = file_lock s \<and> nr_locks s' = nr_locks s \<and> fp s' = fp s \<and> mesg s' = mesg s \<and> who s' = who s \<and> (revive_ok s \<longrightarrow> revive_ok s')"

lemma soft_refl [simp]: "soft s s" by (simp add: soft_def)
lemma soft_trans: "soft s t \<Longrightarrow> soft t u \<Longrightarrow> soft s u" by (auto simp: soft_def intro: fs_frame_trans)

lemma erase_sel:
  assumes "erase p = erase q"
  shows "fp_filp p = fp_filp q" "fp_rootdir p = fp_rootdir q" "fp_workdir p = fp_workdir q" "fp_pid p = fp_pid q"
  using assms by (cases p; cases q; simp add: erase_def)+

lemma softD:
  assumes "soft s s'"
  shows "desc s' = desc s" "\<And>p i. in_dirs (fproc s' p) i = in_dirs (fproc s p) i" "\<And>f i. opened (filp s' f) i = opened (filp s f) i"
    "\<And>f. filp_count (filp s' f) = filp_count (filp s f)" "\<And>f. filp_ino (filp s' f) = filp_ino (filp s f)"
    "\<And>i. i_count (ino_of s' i) = i_count (ino_of s i)" "file_lock s' = file_lock s" "nr_locks s' = nr_locks s" "fp s' = fp s" "mesg s' = mesg s"
    "\<And>i. super_refs s' i = super_refs s i" "\<And>p. fp_pid (fproc s' p) = fp_pid (fproc s p)" "who s' = who s" "lone s' = lone s"
  using assms erase_sel [of "fproc s' p" "fproc s p" for p]
  by (auto simp: soft_def desc_def in_dirs_def opened_def ino_of_def fs_frame_def super_refs_def lone_def fun_eq_iff)

lemma soft_counts:
  assumes "soft s s'"
  shows "users s' = users s" "file_refs s' = file_refs s" "dir_refs s' = dir_refs s" "super_refs s' = super_refs s" "used_locks s' = used_locks s" "refs s' = refs s"
  by (simp_all add: fun_eq_iff users_def file_refs_def dir_refs_def used_locks_def refs_def softD [OF assms])

lemma soft_inv: "soft s s' \<Longrightarrow> sys_inv s \<Longrightarrow> sys_inv s'"
  by (simp add: sys_inv_def filps_ok_def inodes_ok_def locks_ok_def softD soft_counts) (auto simp: soft_def)


lemma revive_ok_flag:
  assumes "revive_ok s" "\<And>p. fp_revived (fproc s' p) = fp_revived (fproc s p)" "reviving s' = reviving s"
    "\<And>p. p \<in> procs \<Longrightarrow> fp_revived (fproc s p) \<Longrightarrow> fp_suspended (fproc s' p)"
  shows "revive_ok s'"
  using assms by (simp add: revive_ok_def revived_def)

lemma upd_fproc_sel [simp]:
  "fsys (upd_fproc p g s) = fsys s" "filp (upd_fproc p g s) = filp s" "fproc (upd_fproc p g s) = (fproc s)(p := g (fproc s p))"
  "file_lock (upd_fproc p g s) = file_lock s" "nr_locks (upd_fproc p g s) = nr_locks s" "fp (upd_fproc p g s) = fp s" "mesg (upd_fproc p g s) = mesg s"
  "who (upd_fproc p g s) = who s" "reviving (upd_fproc p g s) = reviving s" "susp_count (upd_fproc p g s) = susp_count s" "sent (upd_fproc p g s) = sent s"
  "inbox (upd_fproc p g s) = inbox s" "fs_call (upd_fproc p g s) = fs_call s" "root_dev (upd_fproc p g s) = root_dev s"
  by (simp_all add: upd_fproc_def)

lemma upd_filp_sel [simp]:
  "fsys (upd_filp f g s) = fsys s" "fproc (upd_filp f g s) = fproc s" "filp (upd_filp f g s) = (filp s)(f := g (filp s f))"
  "file_lock (upd_filp f g s) = file_lock s" "nr_locks (upd_filp f g s) = nr_locks s" "fp (upd_filp f g s) = fp s" "mesg (upd_filp f g s) = mesg s"
  "who (upd_filp f g s) = who s" "reviving (upd_filp f g s) = reviving s" "fs_call (upd_filp f g s) = fs_call s" "root_dev (upd_filp f g s) = root_dev s"
  by (simp_all add: upd_filp_def)

lemma soft_fproc:
  assumes "\<And>r. erase (g r) = erase r" "fp_revived (g (fproc s p)) = fp_revived (fproc s p)" "fp_revived (fproc s p) \<Longrightarrow> fp_suspended (g (fproc s p))"
  shows "soft s (upd_fproc p g s)"
proof -
  have "revive_ok (upd_fproc p g s)" if r: "revive_ok s"
    by (rule revive_ok_flag [OF r]) (use assms r in \<open>auto simp: revive_ok_def\<close>)
  then show ?thesis unfolding soft_def using assms(1) by simp
qed

lemma soft_same:
  assumes "\<And>r. erase (g r) = erase r \<and> fp_revived (g r) = fp_revived r \<and> fp_suspended (g r) = fp_suspended r"
  shows "soft s (upd_fproc p g s)"
proof -
  have "revive_ok (upd_fproc p g s)" if r: "revive_ok s"
    by (rule revive_ok_flag [OF r]) (use assms r in \<open>auto simp: revive_ok_def\<close>)
  then show ?thesis unfolding soft_def using assms by simp
qed

lemma soft_fields [simp]:
  "soft s (t\<lparr>susp_count := n\<rparr>) = soft s t" "soft s (t\<lparr>dont_reply := b\<rparr>) = soft s t" "soft s (t\<lparr>sent := ev\<rparr>) = soft s t"
  "soft s (t\<lparr>inbox := inb\<rparr>) = soft s t" "soft s (t\<lparr>reply_mess := m\<rparr>) = soft s t"
  by (simp_all add: soft_def revive_ok_def revived_def)

lemma soft_suspend: "soft s (suspend task s)"
proof -
  have "soft s (upd_fproc p g t)" if "soft s t" "\<And>r. erase (g r) = erase r" "\<And>r. fp_revived (g r) = fp_revived r" "\<And>r. fp_suspended (g r)" for p g t
    by (rule soft_trans [OF that(1)], rule soft_fproc) (use that in auto)
  then show ?thesis by (auto simp: suspend_def erase_def)
qed

lemma soft_reply [simp]: "soft s (reply_fs p r t) = soft s t"
  by (simp add: soft_def reply_fs_def revive_ok_def revived_def Let_def)

text \<open>Reviving a process changes what is known of it only.\<close>

definition woken :: "sys \<Rightarrow> sys \<Rightarrow> bool" where
  "woken s s' \<longleftrightarrow> soft s s' \<and> fsys s' = fsys s \<and> filp s' = filp s \<and> root_dev s' = root_dev s \<and> fs_call s' = fs_call s \<and>
     (\<forall>p. fp_fd (fproc s' p) = fp_fd (fproc s p) \<and> fp_task (fproc s' p) = fp_task (fproc s p) \<and> fp_tty (fproc s' p) = fp_tty (fproc s p) \<and>
        fp_sesldr (fproc s' p) = fp_sesldr (fproc s p) \<and>
        (fp_revived (fproc s' p) \<longrightarrow> fp_revived (fproc s p) \<or> - fp_task (fproc s p) \<in> {XPIPE, XLOCK}))"

lemma woken_refl [simp]: "woken s s" by (simp add: woken_def)
lemma woken_trans: "woken s t \<Longrightarrow> woken t u \<Longrightarrow> woken s u" by (auto simp: woken_def intro: soft_trans)

lemma woken_flag:
  assumes p: "p \<in> procs" "fp_suspended (fproc s p)" "\<not> fp_revived (fproc s p)" "- fp_task (fproc s p) \<in> {XPIPE, XLOCK}"
  shows "woken s ((upd_fproc p (fp_revived_update (\<lambda>_. True)) s)\<lparr>reviving := reviving s + 1\<rparr>)" (is "woken s ?t")
proof -
  have "revived ?t = revived s + 1"
    unfolding revived_def by (subst sum_change [of _ p]) (use p in auto)
  then have "revive_ok s \<Longrightarrow> revive_ok ?t" using p by (auto simp: revive_ok_def)
  then show ?thesis using p by (auto simp: woken_def soft_def erase_def)
qed

lemma woken_revive: "yields (revive p b s) (woken s)"
proof (cases "0 \<le> p \<and> p < NR_PROCS \<and> fp_suspended (fproc s p) \<and> \<not> fp_revived (fproc s p)")
  case True
  then have p: "p \<in> procs" "fp_suspended (fproc s p)" "\<not> fp_revived (fproc s p)" by (auto simp: procs_def)
  have w: "woken s (upd_fproc p g s)"
    if "g = fp_suspended_update (\<lambda>_. False) \<or> g = (\<lambda>r. fp_nbytes_update (\<lambda>_. b) (fp_suspended_update (\<lambda>_. False) r))" for g
    unfolding woken_def using p that soft_fproc [of g s p] by (auto simp: erase_def)
  have r: "woken s (reply_fs p k t)" if "woken s t" for k t
    using that by (simp add: woken_def) (simp add: reply_fs_def Let_def)
  have "upd_fproc p (fp_nbytes_update (\<lambda>_. b)) (upd_fproc p (fp_suspended_update (\<lambda>_. False)) s) =
      upd_fproc p (\<lambda>r. fp_nbytes_update (\<lambda>_. b) (fp_suspended_update (\<lambda>_. False) r)) s" by (simp add: upd_fproc_def)
  then show ?thesis using True w r woken_flag [OF p] by (auto simp: revive_def Let_def)
next
  case False
  then show ?thesis by (auto simp: revive_def Let_def)
qed

lemma woken_susp [simp]: "woken s (t\<lparr>susp_count := n\<rparr>) = woken s t"
  by (simp add: woken_def soft_def revive_ok_def revived_def)

lemma woken_release: "yields (release ip call n s) (woken s)"
proof -
  have "yields (release_loop ip call n ps t) (woken s)" if "woken s t" for ps t n
    using that
  proof (induction ps arbitrary: t n)
    case (Cons p ps)
    show ?case
    proof (cases "hangs_on ip call t p")
      case True
      then show ?thesis
        by (simp del: yields_then, intro yields_thenI [OF woken_revive])
          (auto simp: Let_def intro!: Cons.IH intro: woken_trans [OF Cons.prems])
    qed (use Cons in auto)
  qed simp
  then show ?thesis by (simp add: release_def)
qed

lemma woken_lock_revive: "yields (lock_revive s) (woken s)"
  unfolding lock_revive_def by (rule yields_each) (auto intro: yields_mono [OF woken_revive] woken_trans)


section \<open>Devices\<close>

lemma woken_fields [simp]:
  "woken s (t\<lparr>sent := ev\<rparr>) = woken s t" "woken s (t\<lparr>inbox := inb\<rparr>) = woken s t" "woken s (to_task k m t) = woken s t"
  by (simp_all add: woken_def to_task_def)

lemma woken_call_wait: "yields (call_wait p mp inb s) (\<lambda>(m', s'). woken s s')"
proof (induction p mp inb s rule: call_wait.induct)
  case (1 p mp s)
  then show ?case by (auto intro: yields_any)
next
  case (2 p mp r mp' inb s)
  show ?case
  proof (cases "m_i1 mp = p \<or> msg_type mp \<noteq> REVIVE")
    case False
    have "yields (if r \<noteq> OK then Some (Panic ''call_task: can't send/receive'') else call_wait p mp' inb t) (\<lambda>(m', s'). woken s s')" if t: "woken s t" for t
      using "2.IH" [of t] False by (auto elim!: yields_mono intro: woken_trans [OF t])
    then show ?thesis using False by (auto simp del: yields_then intro!: yields_thenI [OF woken_revive])
  qed auto
qed

lemma woken_task_answer: "yields (task_answer p r mp inb s) (\<lambda>(m', s'). woken s s')"
  by (simp add: task_answer_def woken_call_wait)

lemma woken_call_send: "yields (call_send p task mp inb s) (\<lambda>(m', s'). woken s s')"
proof (induction p task mp inb s rule: call_send.induct)
  case (2 p task mp r mp' s)
  have "yields (task_answer p r mp' [] (to_task task mp s)) (\<lambda>(m', s'). woken s s')"
    by (rule yields_mono [OF woken_task_answer]) (auto intro: woken_trans [of _ "to_task task mp s"])
  then show ?case by simp
next
  case (3 p task mp r mp' r2 lm inb s)
  let ?s1 = "to_task task mp s"
  have s1: "woken s ?s1" by simp
  have "yields (task_answer p r mp' ((r2, lm) # inb) ?s1) (\<lambda>(m', s'). woken s s')"
    by (rule yields_mono [OF woken_task_answer]) (auto intro: woken_trans [OF s1])
  moreover have "yields (and_then (revive (m_i1 lm) (m_i2 lm) ?s1) (call_send p task mp inb)) (\<lambda>(m', s'). woken s s')"
    if "r = ELOCKED" "r2 = OK" "msg_type lm = REVIVE" "\<not> (msg_type mp = CANCEL \<and> m_i1 lm = p)"
    by (rule yields_thenI [OF woken_revive], rule yields_mono [OF "3.IH"(2)]) (use that in \<open>auto dest!: woken_trans [OF s1] intro: woken_trans\<close>)
  moreover have "yields (call_send p task mp inb ?s1) (\<lambda>(m', s'). woken s s')"
    if "r = ELOCKED" "r2 = OK" "msg_type lm \<noteq> REVIVE" "\<not> (msg_type mp = CANCEL \<and> m_i1 lm = p)"
    by (rule yields_mono [OF "3.IH"(1)]) (use that in \<open>auto intro: woken_trans [OF s1]\<close>)
  ultimately show ?case by (auto simp: Let_def simp del: yields_then)
qed simp

lemma woken_call_task: "yields (call_task task mp s) (\<lambda>(m', s'). woken s s')"
  by (simp add: call_task_def woken_call_send)

definition rw_fn :: "dmap_fn \<Rightarrow> bool" where "rw_fn g \<longleftrightarrow> g \<in> {No_dev, Call_task, Call_ctty}"

lemma woken_rw: "rw_fn g \<Longrightarrow> yields (dmap_call g task mp s) (\<lambda>(m', s'). woken s s')"
  by (auto simp: rw_fn_def call_ctty_def Let_def woken_call_task split: option.splits)

lemma dmap_rw_fn: "dmap m = Some d \<Longrightarrow> rw_fn (dmap_rw d)"
proof -
  assume "dmap m = Some d"
  then have "nat m < length dmap_table \<and> d = dmap_table ! nat m" by (auto simp: dmap_def max_major_def dmap_table_def split: if_splits)
  then have "d \<in> set dmap_table" by simp
  then show ?thesis by (auto simp: dmap_table_def DT_def rw_fn_def)
qed

lemma woken_soft: "woken s s' \<Longrightarrow> soft s s'" by (simp add: woken_def)

lemma soft_dmap_call: "yields (dmap_call g task mp s) (\<lambda>(m', s'). soft s s')"
proof (cases "rw_fn g")
  case True
  then show ?thesis by (auto intro: yields_mono [OF woken_rw] woken_soft)
next
  case False
  have "yields (dev_opcl task mp s) (\<lambda>(m', s'). soft s s')"
    unfolding dev_opcl_def
    by (rule yields_thenI [OF woken_call_task]) (auto dest!: woken_soft intro: soft_trans [OF _ soft_suspend])
  then show ?thesis using False by (cases g) (auto simp: rw_fn_def)
qed

lemma soft_dev_close: "yields (dev_close dev s) (soft s)"
  by (auto simp: dev_close_def intro: yields_mono [OF soft_dmap_call] split: option.split)

lemma soft_cancel: "dmap m = Some d \<Longrightarrow> yields (cancel d pr mn mp s) (\<lambda>(m', s'). soft s s')"
  by (auto simp: cancel_def intro: yields_mono [OF soft_dmap_call])

lemma soft_frame: "fs_frame (fsys s) x \<Longrightarrow> soft s (s\<lparr>fsys := x\<rparr>)"
  by (auto simp: soft_def revive_ok_def revived_def)

lemma soft_in_fs: "yields (f (fsys s)) (fs_frame (fsys s)) \<Longrightarrow> yields (in_fs f s) (soft s)"
  by (auto simp: in_fs_def elim: yields_mono intro: soft_frame)

lemma soft_file_err [simp]: "soft s (file_err e s)"
  by (simp add: file_err_def soft_frame)

lemma soft_upd_ino: "(\<And>r. i_count (g r) = i_count r) \<Longrightarrow> soft s (upd_ino i g s)"
  by (simp add: upd_ino_def soft_frame fs_frame_upd)

lemma soft_upd_filp: "filp_count (g (filp s f)) = filp_count (filp s f) \<Longrightarrow> filp_ino (g (filp s f)) = filp_ino (filp s f) \<Longrightarrow> soft s (upd_filp f g s)"
  by (auto simp: soft_def revive_ok_def revived_def)

lemma get_filp_result: "get_filp fd s = (r, s1) \<Longrightarrow> s1 = file_err EBADF s \<and> (\<forall>f. r = Some f \<longrightarrow> 0 \<le> fd \<and> nat fd < OPEN_MAX \<and> fp_filp (fproc s (fp s)) (nat fd) = Some f)"
  by (auto simp: get_filp_def split: if_splits)


section \<open>Closing\<close>

lemma set_desc_sel [simp]:
  "fsys (set_desc d x s) = fsys s" "filp (set_desc d x s) = filp s" "file_lock (set_desc d x s) = file_lock s" "nr_locks (set_desc d x s) = nr_locks s"
  "fp (set_desc d x s) = fp s" "mesg (set_desc d x s) = mesg s" "who (set_desc d x s) = who s" "reviving (set_desc d x s) = reviving s"
  by (simp_all add: set_desc_def)

lemma desc_set [simp]: "desc (set_desc d x s) = (desc s)((fp s, d) := x)"
  by (auto simp: desc_def set_desc_def fun_eq_iff)

lemma users_change: "desc s' = (desc s)(a := x) \<Longrightarrow> a \<in> slots \<Longrightarrow> users s' f = users s f - of_bool (desc s a = Some f) + of_bool (x = Some f)"
  unfolding users_def by (subst sum_change [of slots a]) auto

lemma file_refs_change:
  assumes "filp s' = (filp s)(f := q)" "f < NR_FILPS"
  shows "file_refs s' i = file_refs s i - opened (filp s f) i + opened q i"
  unfolding file_refs_def by (subst sum_change [of "{..< NR_FILPS}" f]) (use assms in auto)

lemma in_users:
  assumes "filps_ok s" "a \<in> slots" "desc s a = Some f"
  shows "f < NR_FILPS" "filp_count (filp s f) \<ge> 1"
proof -
  show f: "f < NR_FILPS" using assms by (auto simp: filps_ok_def)
  have "(1 :: int) = (\<Sum>x \<in> {a}. of_bool (desc s x = Some f))" using assms(3) by simp
  also have "\<dots> \<le> users s f" unfolding users_def by (rule sum_mono2) (use assms(2) in auto)
  finally show "filp_count (filp s f) \<ge> 1" using assms(1) f by (simp add: filps_ok_def)
qed

lemma other_users: "desc s' = (desc s)(a := x) \<Longrightarrow> a \<notin> slots \<Longrightarrow> users s' = users s"
  unfolding users_def by (rule ext, rule sum.cong) auto

lemma dir_refs_cong: "(\<And>p. fp_rootdir (fproc s' p) = fp_rootdir (fproc s p) \<and> fp_workdir (fproc s' p) = fp_workdir (fproc s p)) \<Longrightarrow> dir_refs s' = dir_refs s"
  by (simp add: dir_refs_def in_dirs_def fun_eq_iff)

lemma super_refs_cong:
  "(\<And>k. s_isup (super_blocks (fsys s') k) = s_isup (super_blocks (fsys s) k) \<and> s_imount (super_blocks (fsys s') k) = s_imount (super_blocks (fsys s) k)) \<Longrightarrow>
   super_refs s' = super_refs s \<and> lone s' = lone s"
  by (simp add: super_refs_def lone_def fun_eq_iff)

text \<open>What \<^verbatim>\<open>drop_filp\<close> leaves: the count of the slot, and with the last one that of the inode.\<close>

definition dropped :: "nat \<Rightarrow> sys \<Rightarrow> sys \<Rightarrow> bool" where
  "dropped f s s' \<longleftrightarrow> (\<exists>x. s' = (upd_filp f (filp_count_update (\<lambda>n. n - 1)) s)\<lparr>fsys := x\<rparr> \<and>
     (if filp_count (filp s f) = 1 then counted (filp_ino (filp s f)) (\<lambda>n. n - 1) (fsys s) x else x = fsys s))"

lemma drop_filp_result: "yields (drop_filp e f s) (dropped f s)"
proof (cases "filp_count (filp s f) = 1")
  case True
  let ?rip = "filp_ino (filp s f)" and ?s1 = "upd_filp f (filp_count_update (\<lambda>n. n - 1)) s"
  have put: "yields (in_fs (put_inode io w (Some ?rip)) (upd_ino ?rip g ?s1)) (dropped f s)" if "\<And>r. i_count (g r) = i_count r" for io w g
  proof -
    have fr: "fs_frame (fsys s) (fsys (upd_ino ?rip g ?s1))" by (simp add: upd_ino_def fs_frame_upd that)
    have "upd_ino ?rip g ?s1\<lparr>fsys := x\<rparr> = ?s1\<lparr>fsys := x\<rparr>" for x by (simp add: upd_ino_def)
    then show ?thesis
      unfolding in_fs_def using True
      by (auto simp: dropped_def intro!: yields_mono [OF counted_put_inode] frame_counted [OF fr])
  qed
  have same: "upd_ino ?rip (\<lambda>r. r) ?s1 = ?s1" by (simp add: upd_ino_def upd_inode_def)
  show ?thesis using True put put [of "\<lambda>r. r"] same by (auto simp: drop_filp_def Let_def ino_of_def)
next
  case False
  then have "upd_filp f (filp_count_update (\<lambda>n. n - 1)) s = (upd_filp f (filp_count_update (\<lambda>n. n - 1)) s)\<lparr>fsys := fsys s\<rparr>" by (simp add: upd_filp_def)
  then show ?thesis using False unfolding dropped_def drop_filp_def Let_def by auto
qed

lemma close_counts:
  assumes inv: "sys_inv s" and a: "(fp s, d) \<in> slots" "desc s (fp s, d) = Some f" and dr: "dropped f s t"
  shows "sys_inv (set_desc d None (upd_fproc (fp t) (fp_cloexec_update w) t))" (is "sys_inv ?t")
proof -
  obtain x where t: "t = (upd_filp f (filp_count_update (\<lambda>n. n - 1)) s)\<lparr>fsys := x\<rparr>"
    and x: "if filp_count (filp s f) = 1 then counted (filp_ino (filp s f)) (\<lambda>n. n - 1) (fsys s) x else x = fsys s"
    using dr by (auto simp: dropped_def)
  have fo: "filps_ok s" and io: "inodes_ok s" and lo: "locks_ok s" and ro: "revive_ok s" using inv by (simp_all add: sys_inv_def)
  have f: "f < NR_FILPS" "filp_count (filp s f) \<ge> 1" using in_users [OF fo a] by auto
  have de: "desc ?t = (desc s)((fp s, d) := None)" by (auto simp: t desc_def set_desc_def)
  have us: "users ?t g = users s g - of_bool (g = f)" for g using users_change [OF de a(1)] a(2) by auto
  have fl: "filp ?t = (filp s)(f := filp_count_update (\<lambda>n. n - 1) (filp s f))" by (simp add: t)
  have "filps_ok ?t" unfolding filps_ok_def de us fl using fo by (auto simp: filps_ok_def)
  moreover have "file_refs ?t i = file_refs s i - of_bool (filp_count (filp s f) = 1 \<and> i = filp_ino (filp s f))" for i
    using file_refs_change [OF fl f(1)] f(2) by (auto simp: opened_def)
  moreover have "dir_refs ?t = dir_refs s" by (rule dir_refs_cong) (simp add: t set_desc_def)
  moreover have "super_refs ?t = super_refs s \<and> lone ?t = lone s" by (rule super_refs_cong) (use x in \<open>auto simp: t counted_def split: if_splits\<close>)
  moreover have "i_count (ino_of ?t i) = i_count (ino_of s i) - of_bool (filp_count (filp s f) = 1 \<and> i = filp_ino (filp s f))" for i
    using x by (cases "filp_count (filp s f) = 1") (auto simp: t ino_of_def counted_def)
  moreover have "filp_ino (filp s f) < NR_INODES"
  proof (rule ccontr)
    assume "\<not> filp_ino (filp s f) < NR_INODES"
    then have "refs s (filp_ino (filp s f)) = 0" using io by (auto simp: inodes_ok_def)
    moreover have "1 \<le> file_refs s (filp_ino (filp s f))"
      unfolding file_refs_def using f member_le_sum [of f "{..< NR_FILPS}" "\<lambda>g. opened (filp s g) (filp_ino (filp s f))"] by (auto simp: opened_def)
    ultimately show False using refs_nonneg(2,3) [of s "filp_ino (filp s f)"] by (simp add: refs_def)
  qed
  ultimately have "inodes_ok ?t" using io by (auto simp: inodes_ok_def refs_def)
  moreover have "revive_ok ?t" by (rule revive_ok_flag [OF ro]) (use ro in \<open>auto simp: t set_desc_def revive_ok_def\<close>)
  moreover have "locks_ok ?t" using lo by (simp add: locks_ok_def used_locks_def t)
  ultimately show ?thesis using \<open>filps_ok ?t\<close> by (simp add: sys_inv_def)
qed


section \<open>Locks\<close>

text \<open>Steps that change the lock table only.\<close>

definition relock :: "sys \<Rightarrow> sys \<Rightarrow> bool" where
  "relock s s' \<longleftrightarrow> (\<exists>l n. s' = s\<lparr>file_lock := l, nr_locks := n\<rparr>) \<and> (locks_ok s \<longrightarrow> locks_ok s')"

lemma relock_refl [simp]: "relock s s"
proof -
  have "s = s\<lparr>file_lock := file_lock s, nr_locks := nr_locks s\<rparr>" by simp
  then show ?thesis unfolding relock_def by blast
qed

lemma relock_trans:
  assumes "relock s t" "relock t u"
  shows "relock s u"
proof -
  obtain l n l' n' where "t = s\<lparr>file_lock := l, nr_locks := n\<rparr>" "u = t\<lparr>file_lock := l', nr_locks := n'\<rparr>" using assms by (auto simp: relock_def)
  then have "u = s\<lparr>file_lock := l', nr_locks := n'\<rparr>" by simp
  then show ?thesis using assms unfolding relock_def by blast
qed

lemma relock_inv: "relock s s' \<Longrightarrow> sys_inv s \<Longrightarrow> sys_inv s'"
  by (auto simp: relock_def sys_inv_def filps_ok_def inodes_ok_def revive_ok_def users_def desc_def refs_def file_refs_def dir_refs_def super_refs_def lone_def
      revived_def ino_of_def)

lemma relockD: "relock s s' \<Longrightarrow> desc s' = desc s \<and> fp s' = fp s \<and> mesg s' = mesg s \<and> who s' = who s \<and> fproc s' = fproc s \<and> filp s' = filp s"
  by (auto simp: relock_def desc_def fun_eq_iff)

lemma relock_slot:
  assumes "i < NR_LOCKS" "n = nr_locks s - of_bool (lock_type (file_lock s i) \<noteq> 0) + of_bool (lock_type (g (file_lock s i)) \<noteq> 0)"
  shows "relock s ((upd_lock i g s)\<lparr>nr_locks := n\<rparr>)" (is "relock s ?t")
proof -
  have "used_locks ?t = used_locks s - of_bool (lock_type (file_lock s i) \<noteq> 0) + of_bool (lock_type (g (file_lock s i)) \<noteq> 0)"
    unfolding used_locks_def by (subst sum_change [of "{..< NR_LOCKS}" i]) (use assms(1) in \<open>auto simp: upd_lock_def\<close>)
  moreover have "nr_locks ?t = n" by simp
  ultimately have "locks_ok ?t" if "locks_ok s" unfolding locks_ok_def using assms(2) that [unfolded locks_ok_def] by linarith
  then show ?thesis unfolding relock_def upd_lock_def by auto
qed

lemma relock_same:
  assumes "i < NR_LOCKS" "lock_type (g (file_lock s i)) = lock_type (file_lock s i)"
  shows "relock s (upd_lock i g s)"
  using relock_slot [OF assms(1), of "nr_locks s" s g] assms(2) by (simp add: upd_lock_def)

lemma relock_drop: "relock s (drop_locks rip s)"
  unfolding drop_locks_def
proof (rule fold_invariant [where Q = "\<lambda>i. i < NR_LOCKS"])
  fix i t assume "i < NR_LOCKS" "relock s t"
  then show "relock s (if lock_type (file_lock t i) \<noteq> 0 \<and> lock_inode (file_lock t i) = rip \<and> lock_pid (file_lock t i) = fp_pid (fproc t (fp t))
      then (upd_lock i (lock_type_update (\<lambda>_. 0)) t)\<lparr>nr_locks := nr_locks t - 1\<rparr> else t)"
    by (auto intro!: relock_trans [OF _ relock_slot])
qed simp_all

lemma drop_fewer: "nr_locks (drop_locks rip s) \<le> nr_locks s"
  unfolding drop_locks_def by (rule fold_invariant [where Q = "\<lambda>_. True"]) auto

lemma free_lock:
  assumes "locks_ok s" "nr_locks s \<noteq> int NR_LOCKS"
  obtains i where "i < NR_LOCKS" "List.find (\<lambda>i. lock_type (file_lock s i) = 0) [0 ..< NR_LOCKS] = Some i" "lock_type (file_lock s i) = 0"
proof (cases "List.find (\<lambda>i. lock_type (file_lock s i) = 0) [0 ..< NR_LOCKS]")
  case None
  then have "\<forall>i < NR_LOCKS. lock_type (file_lock s i) \<noteq> 0" by (auto simp: find_None_iff)
  then have "used_locks s = int NR_LOCKS" by (simp add: used_locks_def)
  then show thesis using assms by (simp add: locks_ok_def)
next
  case (Some i)
  then show thesis using that find_SomeD [OF Some] by auto
qed

lemma relock_clear:
  assumes "locks_ok s" "flp < NR_LOCKS" "lock_type (file_lock s flp) \<noteq> 0" "clear_lock frst lst flp s = Some t"
  shows "relock s t"
proof -
  let ?l = "file_lock s flp"
  consider "frst \<le> lock_first ?l \<and> lst \<ge> lock_last ?l" | "\<not> (frst \<le> lock_first ?l \<and> lst \<ge> lock_last ?l)" "frst \<le> lock_first ?l \<or> lst \<ge> lock_last ?l"
    | "\<not> frst \<le> lock_first ?l" "\<not> lst \<ge> lock_last ?l" "nr_locks s \<noteq> int NR_LOCKS"
    using assms(4) by (auto simp: clear_lock_def Let_def split: if_splits)
  then show ?thesis
  proof cases
    case 1
    then show ?thesis using assms(3,4) by (auto simp: clear_lock_def intro!: relock_slot assms(2))
  next
    case 2
    then show ?thesis using assms(4) by (auto simp: clear_lock_def Let_def split: if_splits intro!: relock_same assms(2))
  next
    case 3
    from free_lock [OF assms(1) 3(3)] obtain j where j: "j < NR_LOCKS"
      "List.find (\<lambda>i. lock_type (file_lock s i) = 0) [0 ..< NR_LOCKS] = Some j" "lock_type (file_lock s j) = 0" .
    let ?s1 = "(upd_lock j (\<lambda>_. ?l\<lparr>lock_first := lst + 1\<rparr>) s)\<lparr>nr_locks := nr_locks s + 1\<rparr>"
    have "relock s ?s1" by (rule relock_slot) (use j assms(3) in auto)
    moreover have "j \<noteq> flp" using j(3) assms(3) by auto
    then have "relock ?s1 (upd_lock flp (lock_last_update (\<lambda>_. frst - 1)) ?s1)" by (auto intro!: relock_same assms(2))
    moreover have "upd_lock flp (lock_last_update (\<lambda>_. frst - 1)) ?s1 = t"
      using 3 assms(4) j(2) by (auto simp: clear_lock_def Let_def upd_lock_def)
    ultimately show ?thesis by (auto intro: relock_trans)
  qed
qed

lemma lock_scan_locks:
  assumes "locks_ok s" "set xs \<subseteq> {..< NR_LOCKS}"
  shows "\<exists>t. relock s t \<and> (snd (lock_scan ino req ltype frst lst xs fr u s) = t \<or> snd (lock_scan ino req ltype frst lst xs fr u s) = suspend XLOCK t)"
  using assms
proof (induction ino req ltype frst lst xs fr u s rule: lock_scan.induct)
  case (2 ino req ltype frst lst flp rest fr u s)
  have ok: "flp < NR_LOCKS" "set rest \<subseteq> {..< NR_LOCKS}" using "2.prems" by auto
  show ?case
  proof (cases "lock_type (file_lock s flp) = 0 \<or> harmless ino ltype frst lst (fp_pid (fproc s (fp s))) (file_lock s flp)")
    case True
    then show ?thesis
      using "2.IH"(1) [OF _ "2.prems"(1) ok(2)] "2.IH"(2) [OF _ _ "2.prems"(1) ok(2)]
      by (cases "lock_type (file_lock s flp) = 0") simp_all
  next
    case False
    show ?thesis
    proof (cases "req = F_GETLK \<or> ltype = F_RDLCK \<or> ltype = F_WRLCK \<or> clear_lock frst lst flp s = None")
      case True
      then show ?thesis using False by (intro exI [of _ s]) (auto simp del: One_nat_def)
    next
      case F: False
      then obtain t where t: "clear_lock frst lst flp s = Some t" by auto
      have r: "relock s t" by (rule relock_clear [OF "2.prems"(1) ok(1) _ t]) (use False in auto)
      then have "locks_ok t" using "2.prems"(1) by (simp add: relock_def)
      then obtain v where v: "relock t v" "snd (lock_scan ino req ltype frst lst rest fr True t) = v \<or> snd (lock_scan ino req ltype frst lst rest fr True t) = suspend XLOCK v"
        using "2.IH"(3) [of t] F False t ok(2) by blast
      then show ?thesis using F False t by (intro exI [of _ v] conjI relock_trans [OF r]) simp_all
    qed
  qed
qed (simp, use relock_refl in blast)

lemma inv_sent [simp]: "sys_inv (t\<lparr>sent := x\<rparr>) = sys_inv t" "desc (t\<lparr>sent := x\<rparr>) = desc t"
  by (simp_all add: sys_inv_def filps_ok_def inodes_ok_def revive_ok_def locks_ok_def users_def desc_def refs_def file_refs_def dir_refs_def super_refs_def lone_def
      revived_def ino_of_def used_locks_def fun_eq_iff)

text \<open>A scan for a lock that is to be set, or only looked for, changes nothing and finds a free slot.\<close>

lemma lock_scan_keeps:
  assumes "lock_scan ino req ltype frst lst xs fr u s = (Lock_end fr' u' c, s')" "ltype \<noteq> F_UNLCK \<or> req = F_GETLK" "ltype \<in> {F_RDLCK, F_WRLCK, F_UNLCK}"
    "\<forall>k. fr = Some k \<longrightarrow> k < NR_LOCKS \<and> lock_type (file_lock s k) = 0" "set xs \<subseteq> {..< NR_LOCKS}"
  shows "s' = s \<and> u' = u \<and> (\<forall>k. fr' = Some k \<longrightarrow> k < NR_LOCKS \<and> lock_type (file_lock s k) = 0) \<and> (req \<noteq> F_GETLK \<longrightarrow> c = None)"
  using assms
proof (induction ino req ltype frst lst xs fr u s rule: lock_scan.induct)
  case (2 ino req ltype frst lst flp rest fr u s)
  show ?case
  proof (cases "lock_type (file_lock s flp) = 0")
    case True
    show ?thesis by (rule "2.IH"(1)) (use True "2.prems" in \<open>auto split: if_splits\<close>)
  next
    case False
    show ?thesis
    proof (cases "harmless ino ltype frst lst (fp_pid (fproc s (fp s))) (file_lock s flp)")
      case True
      show ?thesis by (rule "2.IH"(2)) (use True False "2.prems" in auto)
    next
      case n: False
      show ?thesis using n False "2.prems" by (auto split: if_splits)
    qed
  qed
qed auto

text \<open>What a call keeps for all others: the invariant and who is running.\<close>

definition kept :: "sys \<Rightarrow> sys \<Rightarrow> bool" where
  "kept s s' \<longleftrightarrow> sys_inv s' \<and> desc s' = desc s \<and> fp s' = fp s \<and> who s' = who s \<and> mesg s' = mesg s"

lemma kept_soft: "kept s t \<Longrightarrow> soft t u \<Longrightarrow> kept s u"
  using soft_inv softD(1,9,10,13) by (simp add: kept_def)

lemma kept_relock: "kept s t \<Longrightarrow> relock t u \<Longrightarrow> kept s u"
  using relock_inv relockD by (auto simp: kept_def)

lemma kept_refl: "sys_inv s \<Longrightarrow> kept s s" by (simp add: kept_def)

lemma kept_scan:
  assumes "sys_inv s" "snd (lock_scan ino req lt a b [0 ..< NR_LOCKS] None False s) = t"
  shows "kept s t"
proof -
  have "locks_ok s" using assms(1) by (simp add: sys_inv_def)
  from lock_scan_locks [OF this, of "[0 ..< NR_LOCKS]" ino req lt a b None False] assms(2)
  obtain u where u: "relock s u" "t = u \<or> t = suspend XLOCK u" by (auto simp: lessThan_atLeast0)
  have "kept s u" by (rule kept_relock [OF kept_refl [OF assms(1)] u(1)])
  then show ?thesis using u(2) kept_soft [OF _ soft_suspend] by auto
qed

lemma kept_region_op:
  assumes inv: "sys_inv s" and lt: "l_type fl \<in> {F_RDLCK, F_WRLCK, F_UNLCK}"
  shows "yields (lock_region_op e req fl ino a b s) (\<lambda>(r, s'). kept s s')"
proof (cases "lock_scan ino req (l_type fl) a b [0 ..< NR_LOCKS] None False s")
  case (Pair r s1)
  have k1: "kept s s1" using kept_scan [OF inv, of ino req "l_type fl" a b] Pair by simp
  show ?thesis
  proof (cases r)
    case (Lock_return v)
    then show ?thesis using Pair k1 by (simp add: lock_region_op_def)
  next
    case (Lock_end fr u c)
    have rv: "yields (if u then lock_revive s1 else Some (Ret s1)) (soft s1)"
      by (auto intro: yields_mono [OF woken_lock_revive] woken_soft)
    have fin: "kept s (snd (if req = F_GETLK then lock_report e fl c t else lock_store ino (l_type fl) a b fr t))" if so: "soft s1 t" for t
    proof -
      have kt: "kept s t" by (rule kept_soft [OF k1 so])
      have "kept s (t\<lparr>sent := x\<rparr>)" for x using kt by (simp add: kept_def)
      then have rep: "kept s (snd (lock_report e fl c t))" by (simp add: lock_report_def Let_def)
      have "kept s ((upd_lock k (\<lambda>_. L) t)\<lparr>nr_locks := nr_locks t + 1\<rparr>)"
        if "fr = Some k" "req \<noteq> F_GETLK" "l_type fl \<noteq> F_UNLCK" "lock_type L = l_type fl" for k L
      proof -
        have "s1 = s \<and> k < NR_LOCKS \<and> lock_type (file_lock s k) = 0"
          using lock_scan_keeps [OF Pair [unfolded Lock_end]] that(1-3) lt by (auto simp: lessThan_atLeast0)
        then have k: "k < NR_LOCKS" "lock_type (file_lock t k) = 0" using softD(7) [OF so] by auto
        have "l_type fl \<noteq> 0" using lt by (auto simp: F_RDLCK_def F_WRLCK_def F_UNLCK_def)
        then show ?thesis by (intro kept_relock [OF kt] relock_slot) (use k that(4) in auto)
      qed
      then show ?thesis using kt rep by (auto simp: lock_store_def split: option.split)
    qed
    show ?thesis
      unfolding lock_region_op_def Pair Lock_end prod.case lock_end.case
      by (rule yields_thenI [OF rv]) (use fin in \<open>auto simp: case_prod_beta\<close>)
  qed
qed

lemma kept_lock_op: "sys_inv s \<Longrightarrow> yields (lock_op e f req s) (\<lambda>(r, s'). kept s s')"
  unfolding lock_op_def Let_def
  by (auto split: option.split intro!: kept_region_op kept_refl)


section \<open>Calls on descriptors\<close>

text \<open>The caller is a process of the table.\<close>

definition caller :: "sys \<Rightarrow> bool" where "caller s \<longleftrightarrow> fp s \<in> procs"

lemma kept_then: "yields r (kept s) \<Longrightarrow> (\<And>t. kept s t \<Longrightarrow> yields (f t) Q) \<Longrightarrow> yields (and_then r f) Q"
  by (rule yields_thenI)

lemma soft_then: "yields r (soft s) \<Longrightarrow> (\<And>t. soft s t \<Longrightarrow> yields (f t) (soft t)) \<Longrightarrow> yields (and_then r f) (soft s)"
  by (auto simp: yields_def and_then_def intro: soft_trans split: option.splits outcome.splits)

lemma soft_close_special: "yields (close_special e f s) (soft s)"
proof -
  have inv: "yields (and_then (sync_fs e x) (\<lambda>y. Some (Ret (y\<lparr>fs_cache := invalidate dev (fs_cache y)\<rparr>)))) (fs_frame x)" for x dev
    by (auto intro: yields_mono [OF frame_sync])
  show ?thesis
    unfolding close_special_def Let_def
    by (auto simp del: yields_then intro!: soft_then soft_in_fs inv soft_dev_close)
qed

lemma woken_close_pipe: "yields (close_pipe f s) (woken s)"
  by (simp add: close_pipe_def Let_def woken_release)

lemma kept_close_locks: "sys_inv s \<Longrightarrow> yields (close_locks rip s) (kept s)"
proof -
  assume "sys_inv s"
  then have "kept s (drop_locks rip s)" by (rule kept_relock [OF kept_refl relock_drop])
  then show ?thesis
    using kept_refl [OF \<open>sys_inv s\<close>]
    by (auto simp: close_locks_def Let_def intro!: yields_mono [OF woken_lock_revive] intro: kept_soft woken_soft)
qed

definition closed :: "int \<Rightarrow> sys \<Rightarrow> int \<times> sys \<Rightarrow> bool" where
  "closed fd s = (\<lambda>(r, s'). sys_inv s' \<and> fp s' = fp s \<and> who s' = who s \<and> mesg s' = mesg s \<and>
     (if 0 \<le> fd \<and> nat fd < OPEN_MAX \<and> desc s (fp s, nat fd) \<noteq> None then r = OK \<and> desc s' = (desc s)((fp s, nat fd) := None)
      else r = EBADF \<and> desc s' = desc s))"

lemma closed_do_close:
  assumes inv: "sys_inv s" and c: "caller s"
  shows "yields (do_close e s) (closed (m_i1 (mesg s)) s)"
proof (cases "get_filp (m_i1 (mesg s)) s")
  case (Pair r s1)
  let ?fd = "m_i1 (mesg s)"
  from get_filp_result [OF Pair] have s1: "s1 = file_err EBADF s" by simp
  show ?thesis
  proof (cases r)
    case None
    then have "\<not> (0 \<le> ?fd \<and> nat ?fd < OPEN_MAX \<and> desc s (fp s, nat ?fd) \<noteq> None)"
      using Pair by (auto simp: get_filp_def desc_def split: if_splits)
    then show ?thesis
      using Pair None s1 soft_inv [OF soft_file_err inv] by (auto simp: do_close_def closed_def file_err_def desc_def fun_eq_iff)
  next
    case (Some f)
    from get_filp_result [OF Pair] Some have fd: "0 \<le> ?fd" "nat ?fd < OPEN_MAX" "desc s (fp s, nat ?fd) = Some f" by (auto simp: desc_def)
    have a: "(fp s, nat ?fd) \<in> slots" using fd c by (simp add: slots_def caller_def)
    have pre: "yields (and_then (close_special e f s1) (close_pipe f)) (soft s1)"
      by (rule soft_then [OF soft_close_special]) (rule yields_mono [OF woken_close_pipe], rule woken_soft)
    have mid: "yields (and_then (and_then (close_special e f s1) (close_pipe f)) (drop_filp e f)) (\<lambda>t. \<exists>u. soft s u \<and> dropped f u t)"
      by (rule yields_thenI [OF pre], rule yields_mono [OF drop_filp_result]) (use s1 soft_trans [OF soft_file_err] in auto)
    show ?thesis
      unfolding do_close_def Let_def Pair Some prod.case option.case
    proof (rule yields_thenI [OF mid], elim exE conjE)
      fix t u
      assume u: "soft s u" and t: "dropped f u t"
      let ?t = "set_desc (nat ?fd) None (upd_fproc (fp t) (fp_cloexec_update (\<lambda>w. w AND NOT (flag (nat ?fd)))) t)"
      have i: "sys_inv ?t" by (rule close_counts [OF soft_inv [OF u inv] _ _ t]) (use a fd(3) softD(1,9) [OF u] in auto)
      have d: "desc ?t = (desc s)((fp s, nat ?fd) := None)" "fp ?t = fp s" "who ?t = who s" "mesg ?t = mesg s"
        using softD(1,9,10,13) [OF u] t by (auto simp: dropped_def desc_def set_desc_def fun_eq_iff)
      have "kept ?t v \<Longrightarrow> closed ?fd s (OK, v)" for v using d fd by (simp add: closed_def kept_def)
      then show "yields (and_then (close_locks (filp_ino (filp s1 f)) ?t) (\<lambda>s4. Some (Ret (OK, s4)))) (closed ?fd s)"
        by simp (rule yields_mono [OF kept_close_locks [OF i]])
    qed
  qed
qed


lemma get_fd_result:
  assumes "get_fd lo bits s = (r, s')"
  shows "case r of Inl e \<Rightarrow> s' = s \<and> e \<in> {EMFILE, ENFILE}
    | Inr (k, f) \<Rightarrow> lo \<le> k \<and> k < OPEN_MAX \<and> desc s (fp s, k) = None \<and> f < NR_FILPS \<and> filp_count (filp s f) = 0 \<and>
        s' = upd_filp f (\<lambda>x. x\<lparr>filp_mode := bits, filp_pos := 0, filp_flags := 0\<rparr>) s"
  using assms by (auto simp: get_fd_def desc_def split: option.splits dest!: find_SomeD)

lemma get_fd_soft: "get_fd lo bits s = (r, s') \<Longrightarrow> soft s s'"
  by (drule get_fd_result) (auto split: sum.splits prod.splits intro!: soft_upd_filp)

lemma share_counts:
  assumes inv: "sys_inv s" and a: "(fp s, d) \<in> slots" "desc s (fp s, d) = None" and b: "b \<in> slots" "desc s b = Some f"
  shows "sys_inv (share d f s)" (is "sys_inv ?t")
proof -
  have fo: "filps_ok s" and io: "inodes_ok s" and lo: "locks_ok s" and ro: "revive_ok s" using inv by (simp_all add: sys_inv_def)
  have f: "f < NR_FILPS" "filp_count (filp s f) \<ge> 1" using in_users [OF fo b] by auto
  have de: "desc ?t = (desc s)((fp s, d) := Some f)" by (simp add: share_def) (simp add: desc_def fun_eq_iff)
  have us: "users ?t g = users s g + of_bool (g = f)" for g using users_change [OF de a(1)] a(2) by auto
  have fl: "filp ?t = (filp s)(f := filp_count_update (\<lambda>n. n + 1) (filp s f))" by (simp add: share_def)
  have "filps_ok ?t" unfolding filps_ok_def de us fl using fo f by (auto simp: filps_ok_def)
  moreover have "file_refs ?t = file_refs s" using file_refs_change [OF fl f(1)] f(2) by (auto simp: opened_def fun_eq_iff)
  moreover have "dir_refs ?t = dir_refs s" by (rule dir_refs_cong) (simp add: share_def set_desc_def)
  moreover have "super_refs ?t = super_refs s \<and> lone ?t = lone s" by (rule super_refs_cong) (simp add: share_def)
  moreover have "ino_of ?t = ino_of s" by (simp add: share_def ino_of_def fun_eq_iff)
  ultimately have "inodes_ok ?t" using io by (auto simp: inodes_ok_def refs_def)
  moreover have "revive_ok ?t" by (rule revive_ok_flag [OF ro]) (use ro in \<open>auto simp: share_def set_desc_def revive_ok_def\<close>)
  moreover have "locks_ok ?t" using lo by (simp add: locks_ok_def used_locks_def share_def)
  ultimately show ?thesis using \<open>filps_ok ?t\<close> by (simp add: sys_inv_def)
qed

lemma share_sel [simp]: "fp (share d f s) = fp s" "who (share d f s) = who s" "mesg (share d f s) = mesg s"
  by (simp_all add: share_def)

text \<open>Every call leaves the invariant and keeps the caller.\<close>

definition good :: "sys \<Rightarrow> int \<times> sys \<Rightarrow> bool" where "good s = (\<lambda>(r, s'). sys_inv s' \<and> who s' = who s)"

lemma kept_good: "kept s t \<Longrightarrow> good s (r, t)" by (simp add: kept_def good_def)

lemma good_dup_from:
  assumes inv: "sys_inv s" and c: "caller s" and b: "b \<in> slots" "desc s b = Some f"
  shows "case get_fd lo bits s of (Inl r, s2) \<Rightarrow> good s (r, s2) | (Inr (d, x), s2) \<Rightarrow> good s (int d, share d f s2)"
proof (cases "get_fd lo bits s")
  case (Pair r s2)
  have so: "soft s s2" by (rule get_fd_soft [OF Pair])
  note eq = softD(1,9,13) [OF so]
  show ?thesis
  proof (cases r)
    case (Inl e)
    then show ?thesis using Pair soft_inv [OF so inv] eq by (simp add: good_def)
  next
    case (Inr p)
    obtain d g where p: "p = (d, g)" by (cases p)
    have d: "d < OPEN_MAX" "desc s (fp s, d) = None" using get_fd_result [OF Pair] Inr p by auto
    have "sys_inv (share d f s2)"
      by (rule share_counts [OF soft_inv [OF so inv], of _ b]) (use d c b eq in \<open>auto simp: slots_def caller_def\<close>)
    then show ?thesis using Pair Inr p eq by (simp add: good_def)
  qed
qed

lemma set_i1_soft: "sys_inv (set_i1 x s) = sys_inv s" "desc (set_i1 x s) = desc s" "fp (set_i1 x s) = fp s" "who (set_i1 x s) = who s" "m_i1 (mesg (set_i1 x s)) = x"
  by (simp_all add: set_i1_def sys_inv_def filps_ok_def inodes_ok_def revive_ok_def locks_ok_def users_def desc_def refs_def file_refs_def dir_refs_def
      super_refs_def lone_def revived_def ino_of_def used_locks_def fun_eq_iff)

lemma good_do_dup:
  assumes inv: "sys_inv s" and c: "caller s"
  shows "yields (do_dup e s) (good s)"
proof (cases "get_filp (m_i1 (mesg s) AND NOT DUP_MASK) s")
  case (Pair r s1)
  let ?rfd = "m_i1 (mesg s) AND NOT DUP_MASK" and ?fd2 = "m_i2 (mesg s)"
  from get_filp_result [OF Pair] have s1: "s1 = file_err EBADF s" by simp
  have k: "soft s s1" by (simp add: s1)
  have i1: "sys_inv s1" by (rule soft_inv [OF k inv])
  have c1: "caller s1" using c softD(9) [OF k] by (simp add: caller_def)
  have g: "good s (x, s1)" for x using i1 softD(13) [OF k] by (simp add: good_def)
  show ?thesis
  proof (cases r)
    case None
    then show ?thesis using Pair g by (simp add: do_dup_def)
  next
    case (Some f)
    from get_filp_result [OF Pair] Some have fd: "0 \<le> ?rfd" "nat ?rfd < OPEN_MAX" "desc s (fp s, nat ?rfd) = Some f" by (auto simp: desc_def)
    have b: "(fp s1, nat ?rfd) \<in> slots" "desc s1 (fp s1, nat ?rfd) = Some f" using fd c softD(1,9) [OF k] by (auto simp: slots_def caller_def)
    have new: "case get_fd 0 0 s1 of (Inl r, s2) \<Rightarrow> good s (r, s2) | (Inr (d, x), s2) \<Rightarrow> good s (int d, share d f s2)"
      using good_dup_from [OF i1 c1 b, of 0 0] softD(13) [OF k] by (auto simp: good_def split: prod.splits sum.splits)
    have over: "yields (and_then (do_close e (set_i1 ?fd2 s1)) (\<lambda>(_, s2). Some (Ret (?fd2, share (nat ?fd2) f s2)))) (good s)"
      if "0 \<le> ?fd2" "?fd2 < int OPEN_MAX" "?rfd \<noteq> ?fd2"
    proof -
      let ?s2 = "set_i1 ?fd2 s1"
      have "good s (?fd2, share (nat ?fd2) f t)" if cl: "closed ?fd2 ?s2 (r', t)" for r' t
      proof -
        have t: "sys_inv t" "fp t = fp s1" "who t = who s1" "desc t = (desc s1)((fp s1, nat ?fd2) := None)"
          using cl \<open>0 \<le> ?fd2\<close> \<open>?fd2 < int OPEN_MAX\<close> by (auto simp: closed_def set_i1_soft fun_eq_iff split: if_splits)
        have "nat ?rfd \<noteq> nat ?fd2" using eq_nat_nat_iff [OF fd(1) \<open>0 \<le> ?fd2\<close>] \<open>?rfd \<noteq> ?fd2\<close> by blast
        then have "sys_inv (share (nat ?fd2) f t)"
          by (intro share_counts [OF t(1), of _ "(fp s1, nat ?rfd)"])
            (use t b \<open>0 \<le> ?fd2\<close> \<open>?fd2 < int OPEN_MAX\<close> in \<open>auto simp: slots_def\<close>)
        then show ?thesis using t softD(13) [OF k] by (simp add: good_def)
      qed
      then show ?thesis
        by (intro yields_thenI [OF closed_do_close]) (use i1 c1 in \<open>auto simp: set_i1_soft caller_def\<close>)
    qed
    show ?thesis
      unfolding do_dup_def Let_def Pair Some prod.case option.case
      by (intro yields_if) (use new g over in \<open>auto simp del: yields_then split: prod.splits sum.splits\<close>)
  qed
qed

lemma good_do_fcntl:
  assumes inv: "sys_inv s" and c: "caller s"
  shows "yields (do_fcntl e s) (good s)"
proof (cases "get_filp (m_i1 (mesg s)) s")
  case (Pair r s1)
  let ?fd = "m_i1 (mesg s)"
  from get_filp_result [OF Pair] have s1: "s1 = file_err EBADF s" by simp
  have k: "soft s s1" by (simp add: s1)
  have i1: "sys_inv s1" by (rule soft_inv [OF k inv])
  have c1: "caller s1" using c softD(9) [OF k] by (simp add: caller_def)
  have g: "good s (x, t)" if "soft s1 t" for x t using soft_inv [OF that i1] softD(13) [OF k] softD(13) [OF that] by (simp add: good_def)
  show ?thesis
  proof (cases r)
    case None
    then show ?thesis using Pair g by (simp add: do_fcntl_def)
  next
    case (Some f)
    from get_filp_result [OF Pair] Some have fd: "0 \<le> ?fd" "nat ?fd < OPEN_MAX" "desc s (fp s, nat ?fd) = Some f" by (auto simp: desc_def)
    have b: "(fp s1, nat ?fd) \<in> slots" "desc s1 (fp s1, nat ?fd) = Some f" using fd c softD(1,9) [OF k] by (auto simp: slots_def caller_def)
    have dup: "case get_fd lo 0 s1 of (Inl r, s2) \<Rightarrow> good s (r, s2) | (Inr (d, x), s2) \<Rightarrow> good s (int d, share d f s2)" for lo
      using good_dup_from [OF i1 c1 b, of lo 0] softD(13) [OF k] by (auto simp: good_def split: prod.splits sum.splits)
    have lk: "yields (lock_op e f q s1) (good s)" for q
      by (rule yields_mono [OF kept_lock_op [OF i1]]) (use softD(13) [OF k] in \<open>auto simp: kept_def good_def\<close>)
    have cx: "soft s1 (upd_fproc (fp s1) (fp_cloexec_update w) s1)" for w
      by (rule soft_fproc) (use i1 c1 in \<open>auto simp: erase_def sys_inv_def revive_ok_def caller_def\<close>)
    have fx: "soft s1 (upd_filp f (filp_flags_update w) s1)" for w by (rule soft_upd_filp) simp_all
    show ?thesis
      unfolding do_fcntl_def Let_def Pair Some prod.case option.case
      by (intro yields_if)
        (use dup [of "nat (m_i3 (mesg s))"] g [OF cx] g [OF fx] g [OF soft_refl] lk in \<open>auto simp del: yields_then split: prod.splits sum.splits\<close>)
  qed
qed


section \<open>Processes\<close>

text \<open>A slot that \<^verbatim>\<open>fork\<close> may use for the child: nothing in it refers to a file.\<close>

definition vacant :: "sys \<Rightarrow> int \<Rightarrow> bool" where
  "vacant s p \<longleftrightarrow> p \<in> procs \<and> (\<forall>d < OPEN_MAX. fp_filp (fproc s p) d = None) \<and> fp_rootdir (fproc s p) = None \<and> fp_workdir (fproc s p) = None"

definition row :: "sys \<Rightarrow> int \<Rightarrow> nat \<Rightarrow> int" where
  "row s p f = (\<Sum>d < OPEN_MAX. of_bool (fp_filp (fproc s p) d = Some f))"

lemma users_rows: "users s f = (\<Sum>p \<in> procs. row s p f)"
  unfolding users_def slots_def row_def desc_def by (subst sum.cartesian_product) (rule sum.cong, auto)

lemma fork_counts:
  "(let s2 = fold (\<lambda>i s. case fp_filp (fproc s c) i of None \<Rightarrow> s | Some f \<Rightarrow> upd_filp f (filp_count_update (\<lambda>n. n + 1)) s) [0 ..< n] s
    in s2 = s\<lparr>filp := filp s2\<rparr> \<and> (\<forall>f. filp s2 f = (filp s f)\<lparr>filp_count := filp_count (filp s f) + (\<Sum>d < n. of_bool (fp_filp (fproc s c) d = Some f))\<rparr>))"
proof (induction n)
  case 0
  then show ?case by simp
next
  case (Suc n)
  define t where "t = fold (\<lambda>i s. case fp_filp (fproc s c) i of None \<Rightarrow> s | Some f \<Rightarrow> upd_filp f (filp_count_update (\<lambda>n. n + 1)) s) [0 ..< n] s"
  have t: "t = s\<lparr>filp := filp t\<rparr>" "\<And>f. filp t f = (filp s f)\<lparr>filp_count := filp_count (filp s f) + (\<Sum>d < n. of_bool (fp_filp (fproc s c) d = Some f))\<rparr>"
    using Suc by (simp_all add: t_def Let_def)
  have fpt: "fproc t = fproc s" by (subst t(1)) simp
  show ?case
  proof (cases "fp_filp (fproc s c) n")
    case None
    then show ?thesis using t by (simp add: Let_def t_def [symmetric] fpt)
  next
    case (Some f)
    have "upd_filp f g t = s\<lparr>filp := (filp t)(f := g (filp t f))\<rparr>" for g unfolding upd_filp_def by (subst t(1)) simp
    then show ?thesis using t(2) Some by (simp add: Let_def t_def [symmetric] fpt)
  qed
qed

lemma quiet: "revive_ok s \<Longrightarrow> reviving s = 0 \<Longrightarrow> p \<in> procs \<Longrightarrow> \<not> fp_revived (fproc s p)"
  using sum_nonneg_eq_0_iff [of procs "\<lambda>p. of_bool (fp_revived (fproc s p)) :: int"] by (auto simp: revive_ok_def revived_def)

lemma refs_vacant: "vacant s c \<Longrightarrow> in_dirs (fproc s c) i = 0"
  by (simp add: vacant_def in_dirs_def)

lemma good_do_fork:
  assumes inv: "sys_inv s" and q: "reviving s = 0" and par: "m_i1 (mesg s) \<in> procs" and vac: "vacant s (m_i2 (mesg s))"
    and dif: "m_i1 (mesg s) \<noteq> m_i2 (mesg s)"
  shows "yields (do_fork_fs s) (good s)"
proof (cases "who s = MM_PROC_NR")
  case False
  then show ?thesis using inv by (simp add: do_fork_fs_def good_def)
next
  case True
  define p c where "p = m_i1 (mesg s)" and "c = m_i2 (mesg s)"
  have pc: "p \<in> procs" "c \<in> procs" "p \<noteq> c" using assms by (simp_all add: p_def c_def vacant_def)
  define s1 where "s1 = s\<lparr>fproc := (fproc s)(c := fproc s p)\<rparr>"
  define s2 where "s2 = fold (\<lambda>i s. case fp_filp (fproc s c) i of None \<Rightarrow> s | Some f \<Rightarrow> upd_filp f (filp_count_update (\<lambda>n. n + 1)) s) [0 ..< OPEN_MAX] s1"
  define s3 where "s3 = upd_fproc c (\<lambda>q. q\<lparr>fp_pid := m_i3 (mesg s), fp_sesldr := False\<rparr>) s2"
  have s2: "s2 = s1\<lparr>filp := filp s2\<rparr>" "\<And>f. filp s2 f = (filp s1 f)\<lparr>filp_count := filp_count (filp s1 f) + row s p f\<rparr>"
    using fork_counts [of c OPEN_MAX s1] by (simp_all add: s2_def Let_def row_def s1_def)
  have f3: "fproc s3 = (fproc s)(c := (fproc s p)\<lparr>fp_pid := m_i3 (mesg s), fp_sesldr := False\<rparr>)"
  proof -
    have "fproc s2 = (fproc s)(c := fproc s p)" by (subst s2(1)) (simp add: s1_def)
    then show ?thesis by (simp add: s3_def)
  qed
  have o3: "fsys s3 = fsys s" "file_lock s3 = file_lock s" "nr_locks s3 = nr_locks s" "reviving s3 = reviving s" "who s3 = who s"
    "\<And>f. filp s3 f = (filp s f)\<lparr>filp_count := filp_count (filp s f) + row s p f\<rparr>"
  proof -
    have "filp s1 = filp s" by (simp add: s1_def)
    then show "filp s3 f = (filp s f)\<lparr>filp_count := filp_count (filp s f) + row s p f\<rparr>" for f using s2(2) by (simp add: s3_def)
  qed (simp add: s3_def, subst s2(1), simp add: s1_def)+
  have fo: "filps_ok s" and io: "inodes_ok s" and lo: "locks_ok s" and ro: "revive_ok s" using inv by (simp_all add: sys_inv_def)
  have us: "users s3 f = users s f + row s p f" for f
    unfolding users_rows
    by (subst sum_change [of procs c _ "\<lambda>q. row s q f"]) (use pc vac in \<open>auto simp: row_def f3 vacant_def c_def\<close>)
  have dr: "dir_refs s3 i = dir_refs s i + in_dirs (fproc s p) i" for i
    unfolding dir_refs_def
    by (subst sum_change [of procs c _ "\<lambda>q. in_dirs (fproc s q) i"]) (use pc vac in \<open>auto simp: f3 refs_vacant c_def [symmetric]\<close>, simp add: in_dirs_def)
  have fo3: "filps_ok s3"
    unfolding filps_ok_def us o3(6) using fo pc by (auto simp: filps_ok_def desc_def f3 slots_def)
  have "filp_count (filp s f) + row s p f \<noteq> 0 \<longleftrightarrow> filp_count (filp s f) \<noteq> 0" if "f < NR_FILPS" for f
  proof -
    have "row s q f \<ge> 0" for q by (simp add: row_def sum_nonneg)
    then have "row s p f \<le> users s f" unfolding users_rows using pc(1) by (intro member_le_sum) auto
    then show ?thesis using fo that \<open>row s p f \<ge> 0\<close> by (auto simp: filps_ok_def)
  qed
  then have fr: "file_refs s3 i = file_refs s i" for i unfolding file_refs_def by (intro sum.cong) (auto simp: o3(6) opened_def)
  have lo3: "locks_ok s3" using lo by (simp add: locks_ok_def used_locks_def o3)
  have ro3: "revive_ok s3"
  proof -
    have np: "\<not> fp_revived (fproc s p)" and vc: "\<not> fp_revived (fproc s c)" using quiet [OF ro q] pc by auto
    have "revived s3 = revived s" unfolding revived_def by (rule sum.cong) (use np vc in \<open>auto simp: f3\<close>)
    then show ?thesis using ro np by (auto simp: revive_ok_def o3 f3)
  qed
  have tab: "i < NR_INODES" if "in_dirs (fproc s p) i > 0" for i
  proof (rule ccontr)
    assume "\<not> i < NR_INODES"
    then have "refs s i = 0" using io by (auto simp: inodes_ok_def)
    moreover have "in_dirs (fproc s p) i \<le> dir_refs s i"
      unfolding dir_refs_def using pc(1) by (intro member_le_sum) (auto simp: in_dirs_def)
    ultimately show False using that refs_nonneg(1,3) [of s i] by (simp add: refs_def)
  qed
  have fin: "sys_inv (s3\<lparr>fsys := dup_inode wd (dup_inode rd (fsys s3))\<rparr>)" (is "sys_inv ?t")
    if rw: "fp_rootdir (fproc s p) = Some rd" "fp_workdir (fproc s p) = Some wd" for rd wd
  proof -
    have e: "filps_ok ?t" "locks_ok ?t" "revive_ok ?t" "file_refs ?t = file_refs s3" "dir_refs ?t = dir_refs s3"
      using fo3 lo3 ro3
      by (simp_all add: filps_ok_def locks_ok_def revive_ok_def users_def desc_def used_locks_def revived_def file_refs_def dir_refs_def fun_eq_iff)
    have su: "super_refs ?t = super_refs s \<and> lone ?t = lone s" by (rule super_refs_cong) (simp add: dup_inode_def o3)
    have di: "in_dirs (fproc s p) i = of_bool (i = rd) + of_bool (i = wd)" for i using rw by (auto simp: in_dirs_def)
    have ic: "i_count (ino_of ?t i) = i_count (ino_of s i) + in_dirs (fproc s p) i" for i
      unfolding di by (simp add: ino_of_def dup_inode_def o3)
    have "refs ?t i = refs s i + in_dirs (fproc s p) i" for i by (simp add: refs_def e fr dr su)
    moreover have "in_dirs (fproc s p) i = 0" if "i \<ge> NR_INODES" for i
      using tab [of i] that by (cases "in_dirs (fproc s p) i > 0") (auto simp: di)
    ultimately have "inodes_ok ?t" using io su unfolding inodes_ok_def ic by auto
    then show ?thesis using e by (simp add: sys_inv_def)
  qed
  have "do_fork_fs s = and_then (dup_dir (fp_rootdir (fproc s3 c)) s3) (\<lambda>s4. and_then (dup_dir (fp_workdir (fproc s4 c)) s4) (\<lambda>s5. Some (Ret (OK, s5))))"
    using True unfolding do_fork_fs_def s3_def s2_def s1_def p_def c_def Let_def by simp
  then show ?thesis
    using fin by (auto simp: dup_dir_def f3 good_def o3 split: option.splits)
qed


lemma set_fp: "sys_inv (s\<lparr>fp := p\<rparr>) = sys_inv s" "desc (s\<lparr>fp := p\<rparr>) = desc s" "reviving (s\<lparr>fp := p\<rparr>) = reviving s"
  by (simp_all add: sys_inv_def filps_ok_def inodes_ok_def revive_ok_def locks_ok_def users_def desc_def refs_def file_refs_def dir_refs_def
      super_refs_def lone_def revived_def ino_of_def used_locks_def fun_eq_iff)

text \<open>Closing some descriptors of one process.\<close>

definition shut :: "sys \<Rightarrow> sys \<Rightarrow> bool" where
  "shut s s' \<longleftrightarrow> sys_inv s' \<and> fp s' = fp s \<and> who s' = who s"

lemma shut_close_fd:
  assumes "sys_inv s" "caller s"
  shows "yields (close_fd e i s) (shut s)"
  unfolding close_fd_def
  by (rule yields_thenI [OF closed_do_close]) (use assms in \<open>auto simp: set_i1_soft caller_def closed_def shut_def\<close>)

lemma shut_each:
  assumes s: "sys_inv s" "caller s" and f: "\<And>i t. f i t = close_fd e i t \<or> f i t = Some (Ret (set_i1 (int i) t))"
  shows "yields (each f xs s) (shut s)"
proof (rule yields_each)
  show "shut s s" using s by (simp add: shut_def)
  show "yields (f i t) (shut s)" if t: "shut s t" for i t
  proof -
    have "yields (close_fd e i t) (shut t)" using t s by (intro shut_close_fd) (auto simp: shut_def caller_def)
    moreover have "shut t (set_i1 (int i) t)" using t by (simp add: shut_def set_i1_soft)
    ultimately have "yields (f i t) (shut t)" using f [of i t] by auto
    then show ?thesis by (rule yields_mono) (use t in \<open>auto simp: shut_def\<close>)
  qed
qed

lemma good_do_exec:
  assumes inv: "sys_inv s" and p: "m_i1 (mesg s) \<in> procs"
  shows "yields (do_exec_fs e s) (good s)"
proof -
  let ?s1 = "s\<lparr>fp := m_i1 (mesg s)\<rparr>"
  have i1: "sys_inv ?s1" "caller ?s1" using inv p by (simp_all add: set_fp caller_def)
  have "yields (each (\<lambda>i s. if bit w i then close_fd e i s else Some (Ret (set_i1 (int i) s))) xs ?s1) (shut ?s1)" for w xs
    by (rule shut_each [OF i1]) auto
  then have "yields (each (\<lambda>i s. if bit w i then close_fd e i s else Some (Ret (set_i1 (int i) s))) xs ?s1) (\<lambda>t. good s (OK, t))" for w xs
    by (rule yields_mono) (auto simp: shut_def good_def)
  then show ?thesis using inv i1 by (auto simp: do_exec_fs_def Let_def good_def)
qed

text \<open>\<^verbatim>\<open>do_unpause\<close> is only called when no process is to be revived.\<close>

lemma soft_unsuspend: "revive_ok s \<Longrightarrow> (p \<in> procs \<Longrightarrow> \<not> fp_revived (fproc s p)) \<Longrightarrow> soft s (upd_fproc p (fp_suspended_update (\<lambda>_. False)) s)"
proof -
  assume ro: "revive_ok s" and p: "p \<in> procs \<Longrightarrow> \<not> fp_revived (fproc s p)"
  have "revive_ok (upd_fproc p (fp_suspended_update (\<lambda>_. False)) s)"
    by (rule revive_ok_flag [OF ro]) (use ro p in \<open>auto simp: revive_ok_def\<close>)
  then show ?thesis unfolding soft_def by (simp add: erase_def)
qed

definition unpaused :: "sys \<Rightarrow> int \<times> sys \<Rightarrow> bool" where
  "unpaused s = (\<lambda>(r, s'). sys_inv s' \<and> who s' = who s \<and> (fp s' = fp s \<or> fp s' = m_i1 (mesg s)) \<and>
     (who s \<le> MM_PROC_NR \<longrightarrow> \<not> fp_suspended (fproc s' (m_i1 (mesg s)))))"

lemma do_unpause_inv:
  assumes inv: "sys_inv s" and q: "reviving s = 0"
  shows "yields (do_unpause s) (unpaused s)"
proof -
  define pn where "pn = m_i1 (mesg s)"
  have ro: "revive_ok s" using inv by (simp add: sys_inv_def)
  have fin: "unpaused s (OK, reply_fs pn EINTR (upd_fproc pn (fp_suspended_update (\<lambda>_. False)) t))"
    if w: "woken s0 t" and s0: "s0 = s \<or> s0 = s\<lparr>fp := pn\<rparr>" and pn: "pn \<in> procs" and nr: "\<not> fp_revived (fproc t pn)" for s0 t
  proof -
    have i0: "sys_inv s0" using inv s0 by (auto simp: set_fp)
    have so: "soft s0 t" using w by (rule woken_soft)
    have it: "sys_inv t" by (rule soft_inv [OF so i0])
    let ?u = "upd_fproc pn (fp_suspended_update (\<lambda>_. False)) t"
    have "soft t (reply_fs pn EINTR ?u)" unfolding soft_reply by (rule soft_unsuspend) (use it nr in \<open>auto simp: sys_inv_def\<close>)
    moreover have "\<not> fp_suspended (fproc (reply_fs pn EINTR ?u) pn)" by (simp add: reply_fs_def Let_def)
    ultimately show ?thesis
      using soft_inv [of t "reply_fs pn EINTR ?u"] it softD(9,13) [of t "reply_fs pn EINTR ?u"] softD(9,13) [OF so] s0 by (auto simp: unpaused_def pn_def)
  qed
  have np: "\<not> fp_revived (fproc s p)" if "p \<in> procs" for p using quiet [OF ro q that] .
  have dev: "yields (unpause_dev pn s) (woken (s\<lparr>fp := pn\<rparr>))"
    unfolding unpause_dev_def Let_def
    by (auto split: option.split simp: case_prod_beta intro!: yields_mono [OF woken_rw [OF dmap_rw_fn]])
  have fd: "unpaused s (OK, reply_fs pn EINTR (upd_fproc pn (fp_suspended_update (\<lambda>_. False)) t))"
    if "woken (s\<lparr>fp := pn\<rparr>) t" "pn \<in> procs" "- fp_task (fproc s pn) \<notin> {XPIPE, XLOCK}" for t
    by (rule fin [of "s\<lparr>fp := pn\<rparr>"]) (use that np in \<open>auto simp: woken_def\<close>)
  have f: "unpaused s (OK, reply_fs pn EINTR (upd_fproc pn (fp_suspended_update (\<lambda>_. False)) s))" if "pn \<in> procs"
    using fin [of s s] that np by simp
  show ?thesis
  proof (cases "pn \<in> procs")
    case pn: True
    then show ?thesis
      using inv f [OF pn] yields_mono [OF dev fd [OF _ pn]]
      by (auto simp: do_unpause_def Let_def pn_def [symmetric] unpaused_def [of s, THEN fun_cong, of "(_, s)"] simp del: pn)
  next
    case False
    then show ?thesis using inv by (auto simp: do_unpause_def Let_def pn_def [symmetric] unpaused_def procs_def)
  qed
qed


lemma drop_dirs_counts:
  assumes inv: "sys_inv s" and c: "caller s"
  shows "yields (drop_dirs e s) (\<lambda>t. sys_inv t \<and> fp t = fp s \<and> who t = who s)"
proof -
  let ?p = "fproc s (fp s)" and ?put = "\<lambda>d. put_inode (disk_io e) (time_now e) d"
  have fo: "filps_ok s" and io: "inodes_ok s" and lo: "locks_ok s" and ro: "revive_ok s" using inv by (simp_all add: sys_inv_def)
  define less where "less = (\<lambda>d (x :: fs) (y :: fs). (\<forall>i. i_count (inode y i) = i_count (inode x i) - of_bool (d = Some i)) \<and>
     (\<forall>k. s_isup (super_blocks y k) = s_isup (super_blocks x k) \<and> s_imount (super_blocks y k) = s_imount (super_blocks x k)))"
  have put: "yields (?put d x) (less d x)" for d x
  proof (cases d)
    case None
    then show ?thesis by (simp add: put_inode_def less_def)
  next
    case (Some i)
    show ?thesis unfolding Some by (rule yields_mono [OF counted_put_inode]) (auto simp: counted_def less_def)
  qed
  have fin: "sys_inv (upd_fproc (fp s) (\<lambda>p. p\<lparr>fp_rootdir := None, fp_workdir := None\<rparr>) (s\<lparr>fsys := y\<rparr>))" (is "sys_inv ?t")
    if x: "less (fp_rootdir ?p) (fsys s) x" "less (fp_workdir ?p) x y" for x y
  proof -
    have de: "desc ?t = desc s" by (auto simp: desc_def fun_eq_iff)
    have e: "filps_ok ?t" "locks_ok ?t" "file_refs ?t = file_refs s"
      using fo lo by (simp_all add: filps_ok_def users_def de locks_ok_def used_locks_def file_refs_def fun_eq_iff)
    have "revive_ok ?t" by (rule revive_ok_flag [OF ro]) (use ro in \<open>auto simp: revive_ok_def\<close>)
    moreover have su: "super_refs ?t = super_refs s \<and> lone ?t = lone s" by (rule super_refs_cong) (use x in \<open>auto simp: less_def\<close>)
    moreover have dr: "dir_refs ?t i = dir_refs s i - in_dirs ?p i" for i
      unfolding dir_refs_def by (subst sum_change [of procs "fp s"]) (use c in \<open>auto simp: caller_def\<close>, simp add: in_dirs_def)
    moreover have ic: "i_count (ino_of ?t i) = i_count (ino_of s i) - in_dirs ?p i" for i
      using x by (auto simp: less_def ino_of_def in_dirs_def)
    moreover have "in_dirs ?p i = 0" if "i \<ge> NR_INODES" for i
    proof (rule ccontr)
      assume "in_dirs ?p i \<noteq> 0"
      moreover have "0 \<le> in_dirs ?p i" by (simp add: in_dirs_def)
      moreover have "in_dirs ?p i \<le> dir_refs s i"
        unfolding dir_refs_def using c by (intro member_le_sum) (auto simp: in_dirs_def caller_def)
      moreover have "refs s i = 0" using io that by (auto simp: inodes_ok_def)
      ultimately show False using refs_nonneg(1,3) [of s i] by (simp add: refs_def)
    qed
    ultimately have "inodes_ok ?t" using io unfolding inodes_ok_def ic by (auto simp: refs_def e)
    then show ?thesis using e \<open>revive_ok ?t\<close> by (simp add: sys_inv_def)
  qed
  show ?thesis
    unfolding drop_dirs_def in_fs_def
    by (auto intro!: yields_mono [OF put] fin)
qed

lemma soft_hang_up: "yields (each (hang_up dev) ps s) (soft s)"
proof -
  have fd: "yields (hang_up_fd dev p i t) (soft t)" for p i t
    unfolding hang_up_fd_def Let_def
    by (auto split: option.split intro!: yields_mono [OF soft_dev_close]) (auto elim!: soft_trans intro: soft_upd_filp)
  have one: "yields (hang_up dev p t) (soft t)" for p t
  proof -
    have tty: "soft t (if fp_tty (fproc t p) = dev then upd_fproc p (fp_tty_update (\<lambda>_. 0)) t else t)"
      by (auto intro!: soft_same simp: erase_def)
    show ?thesis unfolding hang_up_def
      by (rule yields_each [where P = "soft t"], rule tty) (rule yields_mono [OF fd], rule soft_trans)
  qed
  show ?thesis by (rule yields_each) (auto intro: yields_mono [OF one] soft_trans)
qed


lemma good_do_exit:
  assumes inv: "sys_inv s" and q: "reviving s = 0" and p: "m_i1 (mesg s) \<in> procs" and w: "who s = MM_PROC_NR"
  shows "yields (do_exit_fs e s) (good s)"
proof -
  let ?p = "m_i1 (mesg s)"
  let ?s1 = "s\<lparr>fp := ?p\<rparr>"
  let ?P = "\<lambda>t. sys_inv t \<and> fp t = ?p \<and> who t = who s"
  have susp: "sys_inv (t\<lparr>susp_count := n\<rparr>) = sys_inv t" "reviving (set_i1 x t) = reviving t" for t n x
    by (simp_all add: set_i1_def sys_inv_def filps_ok_def inodes_ok_def revive_ok_def locks_ok_def users_def desc_def refs_def file_refs_def dir_refs_def
      super_refs_def lone_def revived_def ino_of_def used_locks_def fun_eq_iff)
  have un: "yields (exit_unpause ?s1) ?P"
  proof -
    have "yields (and_then (do_unpause t) (\<lambda>(_, s1). Some (Ret (upd_fproc (fp s1) (fp_suspended_update (\<lambda>_. False)) s1)))) ?P"
      if t: "sys_inv t" "reviving t = 0" "fp t = ?p" "who t = who s" "m_i1 (mesg t) = ?p" for t
    proof (rule yields_thenI [OF do_unpause_inv [OF t(1,2)]], clarify)
      fix r u assume "unpaused t (r, u)"
      then have u: "sys_inv u" "fp u = ?p" "who u = who s" "\<not> fp_suspended (fproc u ?p)" using t w by (auto simp: unpaused_def)
      then have "soft u (upd_fproc ?p (fp_suspended_update (\<lambda>_. False)) u)"
        by (intro soft_unsuspend) (auto simp: sys_inv_def revive_ok_def)
      from soft_inv [OF this u(1)] show "yields (Some (Ret (upd_fproc (fp u) (fp_suspended_update (\<lambda>_. False)) u))) ?P" using u by simp
    qed
    then show ?thesis using inv q by (auto simp: exit_unpause_def Let_def set_fp set_i1_soft susp simp del: yields_then)
  qed
  have cl: "yields (each (close_fd e) xs t) ?P" if "?P t" for xs t
    by (rule yields_mono [OF shut_each]) (use that p in \<open>auto simp: caller_def shut_def\<close>)
  have dr: "yields (drop_dirs e t) ?P" if "?P t" for t
    by (rule yields_mono [OF drop_dirs_counts]) (use that p in \<open>auto simp: caller_def\<close>)
  have all: "yields (and_then (and_then (exit_unpause ?s1) (each (close_fd e) [0 ..< OPEN_MAX])) (drop_dirs e)) ?P"
    by (rule yields_thenI [OF yields_thenI [OF un cl] dr])
  have fin: "good s (OK, t)" if "?P u" "soft u t" for u t
    using soft_inv [OF that(2)] that softD(13) [OF that(2)] by (simp add: good_def)
  have ldr: "soft u (upd_fproc k (fp_sesldr_update (\<lambda>_. False)) u)" for u k
    by (rule soft_same) (simp add: erase_def)
  have hang: "yields (each (hang_up dev) xs (upd_fproc k (fp_sesldr_update (\<lambda>_. False)) u)) (soft u)" for dev xs k u
    by (rule yields_mono [OF soft_hang_up]) (rule soft_trans [OF ldr])
  show ?thesis
    using w unfolding do_exit_fs_def Let_def
    by (simp del: yields_then) (rule yields_thenI [OF all], auto intro: fin [OF _ soft_refl] fin [OF _ ldr] yields_mono [OF hang fin])
qed

text \<open>The other calls only change flags and identities.\<close>

lemma good_soft: "sys_inv s \<Longrightarrow> soft s t \<Longrightarrow> good s (r, t)"
  using soft_inv softD(13) by (simp add: good_def)

lemma good_do_unpause: "sys_inv s \<Longrightarrow> reviving s = 0 \<Longrightarrow> yields (do_unpause s) (good s)"
  by (rule yields_mono [OF do_unpause_inv]) (auto simp: unpaused_def good_def)

lemma good_do_sync: "sys_inv s \<Longrightarrow> yields (do_sync e s) (good s)"
proof -
  have "yields (in_fs (sync_fs e) s) (soft s)" by (rule soft_in_fs) (rule frame_sync)
  then show "sys_inv s \<Longrightarrow> yields (do_sync e s) (good s)" by (auto simp: do_sync_def intro!: good_soft elim!: yields_mono)
qed

lemma good_do_revive: "sys_inv s \<Longrightarrow> yields (do_revive s) (good s)"
  by (auto simp: do_revive_def intro!: yields_mono [OF woken_revive] good_soft dest: woken_soft)

lemma good_simple:
  assumes "sys_inv s"
  shows "good s (do_set s)" "good s (do_umask s)" "good s (do_setsid junk s)" "good s (do_time e s)" "good s (do_lseek s)" "yields (do_stime s) (good s)"
proof -
  have u: "soft s (upd_fproc p g s)" if "\<And>r. erase (g r) = erase r \<and> fp_revived (g r) = fp_revived r \<and> fp_suspended (g r) = fp_suspended r" for p g
    by (rule soft_same [OF that])
  have g: "good s (r, upd_fproc p g s)" if "\<And>r. erase (g r) = erase r \<and> fp_revived (g r) = fp_revived r \<and> fp_suspended (g r) = fp_suspended r" for p g r
    by (rule good_soft [OF assms u [OF that]])
  show "good s (do_set s)"
    using good_soft [OF assms soft_refl] by (auto simp: do_set_def Let_def SETUID_def SETGID_def erase_def intro!: g)
  show "good s (do_umask s)" "good s (do_setsid junk s)"
    using good_soft [OF assms soft_refl] by (auto simp: do_umask_def do_setsid_def erase_def intro!: g)
  show "good s (do_time e s)" using assms by (auto simp: do_time_def intro!: good_soft)
  show "yields (do_stime s) (good s)"
    using assms by (auto simp: do_stime_def Let_def to_task_def intro!: good_soft split: list.split)
  show "good s (do_lseek s)"
  proof -
    have f: "soft s (upd_filp f (filp_pos_update w) t)" if "soft s t" for f w t by (rule soft_trans [OF that]) (rule soft_upd_filp, simp_all)
    have i: "soft s (upd_ino k (i_seek_update w) t)" if "soft s t" for k w t by (rule soft_trans [OF that]) (rule soft_upd_ino, simp)
    show ?thesis
    proof (cases "get_filp (m_i1 (mesg s)) s")
      case (Pair r s1)
      have s1: "soft s s1" using get_filp_result [OF Pair] by simp
      then have g1: "good s (x, s1)" for x by (rule good_soft [OF assms])
      have fin: "good s (OK, t\<lparr>reply_mess := m\<rparr>)" if "soft s t" for t m by (rule good_soft [OF assms]) (simp add: that)
      have seek: "soft s (upd_filp f (filp_pos_update w) (if b then upd_ino k (i_seek_update w') s1 else s1))" for f w b k w'
        by (rule f) (simp add: i s1)
      have if_good: "good s (if b then x else y)" if "good s x" "good s y" for b x y using that by simp
      show ?thesis
      proof (cases r)
        case None
        then show ?thesis using Pair g1 by (simp add: do_lseek_def)
      next
        case (Some f)
        show ?thesis
          unfolding do_lseek_def Let_def Pair Some prod.case option.case
          by (intro if_good g1, split option.split, intro conjI allI impI if_good g1 fin seek)
      qed
    qed
  qed
qed

lemma good_do_ioctl: "sys_inv s \<Longrightarrow> yields (do_ioctl s) (good s)"
proof -
  assume inv: "sys_inv s"
  have rw: "yields (dmap_call (dmap_rw d) k m t) (\<lambda>(m', u). soft s u)" if "soft s t" for d k m t
    by (rule yields_mono [OF soft_dmap_call]) (use that in \<open>auto intro: soft_trans\<close>)
  have cn: "yields (cancel d pr mn m t) (\<lambda>(m', u). soft s u)" if "dmap k = Some d" "soft s t" for d k pr mn m t
    by (rule yields_mono [OF soft_cancel]) (use that in \<open>auto intro: soft_trans\<close>)
  have sp: "soft s (suspend k t)" if "soft s t" for k t by (rule soft_trans [OF that soft_suspend])
  have fin: "yields (and_then (if m_i2 mp \<noteq> SUSPEND then Some (Ret (mp, t)) else if b then cancel d pr mn mp t else Some (Ret (mp, suspend k t)))
      (\<lambda>(mp1, s3). Some (Ret (m_i2 mp1, s3\<lparr>reply_mess := (reply_mess s3)\<lparr>m_l1 := m_l1 mp1, m_l2 := m_l2 mp1\<rparr>\<rparr>)))) (good s)"
    if "soft s t" "dmap j = Some d" for mp t b d pr mn k j
    by (rule yields_thenI [where P = "\<lambda>(m', u). soft s u"]) (use that cn sp in \<open>auto intro!: good_soft inv\<close>)
  have e: "soft s t" if "get_filp fd s = (r, t)" for fd r t using get_filp_result [OF that] by simp
  show ?thesis
    unfolding do_ioctl_def Let_def
    by (auto simp del: yields_then split: prod.split option.split intro!: good_soft inv yields_thenI [OF rw] fin dest: e)
qed


section \<open>Pipes\<close>

lemma claim_sel [simp]:
  "fsys (claim d f s) = fsys s" "file_lock (claim d f s) = file_lock s" "nr_locks (claim d f s) = nr_locks s" "fp (claim d f s) = fp s"
  "who (claim d f s) = who s" "reviving (claim d f s) = reviving s" "mesg (claim d f s) = mesg s"
  "filp (claim d f s) = (filp s)(f := (filp s f)\<lparr>filp_count := 1\<rparr>)" "desc (claim d f s) = (desc s)((fp s, d) := Some f)"
  by (auto simp: claim_def desc_def set_desc_def fun_eq_iff)

text \<open>Two new filp slots on one inode, each with one descriptor.\<close>

lemma pipe_counts:
  assumes inv: "sys_inv s" and f: "f0 < NR_FILPS" "f1 < NR_FILPS" "f0 \<noteq> f1" "filp_count (filp s f0) = 0" "filp_count (filp s f1) = 0"
    and d: "(fp s, d0) \<in> slots" "(fp s, d1) \<in> slots" "d0 \<noteq> d1" "desc s (fp s, d0) = None" "desc s (fp s, d1) = None"
    and rip: "rip < NR_INODES" and ct: "counted rip (\<lambda>n. max n 0 + 2) (fsys s) (fsys t)"
    and t: "desc t = (desc s)((fp s, d0) := Some f0, (fp s, d1) := Some f1)" "\<And>f. f \<noteq> f0 \<Longrightarrow> f \<noteq> f1 \<Longrightarrow> filp_count (filp t f) = filp_count (filp s f) \<and> filp_ino (filp t f) = filp_ino (filp s f)"
      "\<And>f. f = f0 \<or> f = f1 \<Longrightarrow> filp_count (filp t f) = 1 \<and> filp_ino (filp t f) = rip"
    and o: "file_lock t = file_lock s" "nr_locks t = nr_locks s" "reviving t = reviving s" "\<And>p i. in_dirs (fproc t p) i = in_dirs (fproc s p) i"
      "\<And>p. fp_revived (fproc t p) = fp_revived (fproc s p)" "\<And>p. fp_suspended (fproc t p) = fp_suspended (fproc s p)"
  shows "sys_inv t"
proof -
  have fo: "filps_ok s" and io: "inodes_ok s" and lo: "locks_ok s" and ro: "revive_ok s" using inv by (simp_all add: sys_inv_def)
  have us: "users t f = users s f + of_bool (f = f0) + of_bool (f = f1)" for f
  proof -
    let ?m = "s\<lparr>fproc := (fproc s)(fp s := (fproc s (fp s))\<lparr>fp_filp := (fp_filp (fproc s (fp s)))(d0 := Some f0)\<rparr>)\<rparr>"
    have dm: "desc ?m = (desc s)((fp s, d0) := Some f0)" by (auto simp: desc_def fun_eq_iff)
    have "users ?m f = users s f + of_bool (f = f0)" using users_change [OF dm d(1)] d(4) by auto
    moreover have "desc t = (desc ?m)((fp s, d1) := Some f1)" by (simp add: t(1) dm)
    from users_change [OF this d(2)] have "users t f = users ?m f + of_bool (f = f1)" using d by (auto simp: dm)
    ultimately show ?thesis by simp
  qed
  have "filp_count (filp t f) = users t f" if "f < NR_FILPS" for f
    using fo f that t(2) [of f] t(3) [of f] by (auto simp: filps_ok_def us)
  then have "filps_ok t" using fo f by (auto simp: filps_ok_def t(1))
  moreover have fr: "file_refs t i = file_refs s i + of_bool (i = rip) + of_bool (i = rip)" for i
  proof -
    have "file_refs t i = (\<Sum>f < NR_FILPS. opened (filp s f) i + of_bool (i = rip) * (of_bool (f = f0) + of_bool (f = f1)))"
      unfolding file_refs_def by (rule sum.cong) (use t(2,3) f in \<open>auto simp: opened_def\<close>)
    also have "\<dots> = file_refs s i + of_bool (i = rip) * (\<Sum>f < NR_FILPS. of_bool (f = f0) + of_bool (f = f1))"
      by (simp add: sum.distrib sum_distrib_left file_refs_def)
    also have "(\<Sum>f < NR_FILPS. of_bool (f = f0) + of_bool (f = f1)) = (2 :: int)"
      using f(1,2) by (simp add: sum.distrib sum.delta of_bool_def)
    finally show ?thesis by simp
  qed
  have "dir_refs t = dir_refs s" by (simp add: dir_refs_def fun_eq_iff o)
  moreover have "super_refs t = super_refs s \<and> lone t = lone s" by (rule super_refs_cong) (use ct in \<open>auto simp: counted_def\<close>)
  moreover have "i_count (ino_of t i) = i_count (ino_of s i) + of_bool (i = rip) + of_bool (i = rip)" for i
  proof -
    have "0 \<le> i_count (ino_of s i)" using io refs_nonneg(4) by (auto simp: inodes_ok_def)
    then show ?thesis using ct by (auto simp: counted_def ino_of_def)
  qed
  ultimately have "inodes_ok t" using io fr rip by (auto simp: inodes_ok_def refs_def)
  moreover have "locks_ok t" using lo by (simp add: locks_ok_def used_locks_def o)
  moreover have "revive_ok t" using ro by (simp add: revive_ok_def revived_def o)
  ultimately show ?thesis using \<open>filps_ok t\<close> by (simp add: sys_inv_def)
qed

lemma inv_cong:
  assumes "sys_inv s" "desc t = desc s" "\<And>f. filp_count (filp t f) = filp_count (filp s f)" "\<And>f. filp_count (filp s f) \<noteq> 0 \<Longrightarrow> filp_ino (filp t f) = filp_ino (filp s f)"
    "\<And>p i. in_dirs (fproc t p) i = in_dirs (fproc s p) i" "fs_frame (fsys s) (fsys t)" "file_lock t = file_lock s" "nr_locks t = nr_locks s"
    "reviving t = reviving s" "\<And>p. fp_revived (fproc t p) = fp_revived (fproc s p)" "\<And>p. fp_suspended (fproc t p) = fp_suspended (fproc s p)"
  shows "sys_inv t"
proof -
  have "users t = users s" by (simp add: users_def assms(2) fun_eq_iff)
  moreover have "opened (filp t f) i = opened (filp s f) i" for f i using assms(3) [of f] assms(4) [of f] by (auto simp: opened_def)
  then have "file_refs t = file_refs s" by (simp add: file_refs_def fun_eq_iff)
  moreover have "dir_refs t = dir_refs s" by (simp add: dir_refs_def assms(5) fun_eq_iff)
  moreover have "super_refs t = super_refs s \<and> lone t = lone s" by (rule super_refs_cong) (use assms(6) in \<open>simp add: fs_frame_def\<close>)
  moreover have "i_count (ino_of t i) = i_count (ino_of s i)" for i using assms(6) by (simp add: ino_of_def fs_frame_def)
  moreover have "used_locks t = used_locks s" "revived t = revived s" by (simp_all add: used_locks_def revived_def assms(7,10))
  ultimately show ?thesis
    using assms(1,2,3,8,9,10,11) by (auto simp: sys_inv_def filps_ok_def inodes_ok_def locks_ok_def revive_ok_def refs_def)
qed

lemma unclaim_sel [simp]:
  "fsys (unclaim d f s) = fsys s" "file_lock (unclaim d f s) = file_lock s" "nr_locks (unclaim d f s) = nr_locks s" "fp (unclaim d f s) = fp s"
  "who (unclaim d f s) = who s" "reviving (unclaim d f s) = reviving s"
  "filp (unclaim d f s) = (filp s)(f := (filp s f)\<lparr>filp_count := 0\<rparr>)" "desc (unclaim d f s) = (desc s)((fp s, d) := None)"
  by (auto simp: unclaim_def desc_def set_desc_def fun_eq_iff)

lemma claim_flags [simp]:
  "in_dirs (fproc (claim d f s) p) i = in_dirs (fproc s p) i" "fp_revived (fproc (claim d f s) p) = fp_revived (fproc s p)"
  "fp_suspended (fproc (claim d f s) p) = fp_suspended (fproc s p)"
  "in_dirs (fproc (unclaim d f s) p) i = in_dirs (fproc s p) i" "fp_revived (fproc (unclaim d f s) p) = fp_revived (fproc s p)"
  "fp_suspended (fproc (unclaim d f s) p) = fp_suspended (fproc s p)"
  by (auto simp: claim_def unclaim_def set_desc_def in_dirs_def)

lemma desc_other [simp]:
  "desc (upd_filp f g s) = desc s" "desc (s\<lparr>fsys := x\<rparr>) = desc s" "desc (upd_ino i h s) = desc s" "desc (s\<lparr>reply_mess := m\<rparr>) = desc s"
  by (simp_all add: desc_def upd_ino_def fun_eq_iff)

lemma link_pipe_result:
  assumes "f0 \<noteq> f1" "i_count (inode (fsys s) rip) \<ge> 1"
  shows "counted rip (\<lambda>n. n + 1) (fsys s) (fsys (link_pipe rip f0 f1 s))" "desc (link_pipe rip f0 f1 s) = desc s"
    "filp (link_pipe rip f0 f1 s) = (filp s)(f0 := (filp s f0)\<lparr>filp_ino := rip, filp_flags := O_RDONLY\<rparr>, f1 := (filp s f1)\<lparr>filp_ino := rip, filp_flags := O_WRONLY\<rparr>)"
    "file_lock (link_pipe rip f0 f1 s) = file_lock s" "nr_locks (link_pipe rip f0 f1 s) = nr_locks s" "reviving (link_pipe rip f0 f1 s) = reviving s"
    "fproc (link_pipe rip f0 f1 s) = fproc s" "who (link_pipe rip f0 f1 s) = who s"
  using assms by (auto simp: link_pipe_def Let_def upd_ino_def counted_def dup_inode_def fun_eq_iff)

lemma good_do_pipe:
  assumes inv: "sys_inv s" and c: "caller s"
  shows "yields (do_pipe e s) (good s)"
proof (cases "get_fd 0 R_BIT s")
  case (Pair r s1)
  show ?thesis
  proof (cases r)
    case (Inl x)
    then show ?thesis using Pair get_fd_result [OF Pair] inv by (simp add: do_pipe_def good_def)
  next
    case (Inr p0)
    obtain d0 f0 where p0: "p0 = (d0, f0)" by (cases p0)
    have r0: "d0 < OPEN_MAX" "desc s (fp s, d0) = None" "f0 < NR_FILPS" "filp_count (filp s f0) = 0"
      "s1 = upd_filp f0 (\<lambda>x. x\<lparr>filp_mode := R_BIT, filp_pos := 0, filp_flags := 0\<rparr>) s" using get_fd_result [OF Pair] Inr p0 by auto
    have de1: "desc s1 = desc s" by (simp add: r0(5) desc_def fun_eq_iff)
    define s2 where "s2 = claim d0 f0 s1"
    show ?thesis
    proof (cases "get_fd 0 W_BIT s2")
      case (Pair r' s3)
      show ?thesis
      proof (cases r')
        case (Inl x)
        have s3: "s3 = s2" using get_fd_result [OF Pair] Inl by simp
        have "sys_inv (unclaim d0 f0 s2)"
          by (rule inv_cong [OF inv]) (use r0 in \<open>auto simp: s2_def de1 fun_eq_iff\<close>)
        moreover have "who (unclaim d0 f0 s2) = who s" by (simp add: s2_def r0(5))
        ultimately show ?thesis using \<open>get_fd 0 R_BIT s = (r, s1)\<close> Inr p0 Pair Inl s3 by (simp add: do_pipe_def good_def s2_def)
      next
        case (Inr p1)
        obtain d1 f1 where p1: "p1 = (d1, f1)" by (cases p1)
        have r1: "d1 < OPEN_MAX" "desc s2 (fp s2, d1) = None" "f1 < NR_FILPS" "filp_count (filp s2 f1) = 0"
          "s3 = upd_filp f1 (\<lambda>x. x\<lparr>filp_mode := W_BIT, filp_pos := 0, filp_flags := 0\<rparr>) s2" using get_fd_result [OF Pair] Inr p1 by auto
        define s4 where "s4 = claim d1 f1 s3"
        have ne: "f0 \<noteq> f1" "d0 \<noteq> d1" using r1 r0 by (auto simp: s2_def)
        have e2: "filp_count (filp s f1) = 0" "desc s (fp s, d1) = None" using r1(2,4) ne r0 by (auto simp: s2_def de1 split: if_splits)
        have de3: "desc s3 = desc s2" by (simp add: r1(5) desc_def fun_eq_iff)
        have e4: "fsys s4 = fsys s" "fp s4 = fp s" "who s4 = who s" "desc s4 = (desc s)((fp s, d0) := Some f0, (fp s, d1) := Some f1)"
          by (simp_all add: s4_def s2_def r1(5) r0(5) de3 [unfolded r1(5)] de1 [unfolded r0(5)])
        have o4: "file_lock s4 = file_lock s" "nr_locks s4 = nr_locks s" "reviving s4 = reviving s" "in_dirs (fproc s4 p) i = in_dirs (fproc s p) i"
          "fp_revived (fproc s4 p) = fp_revived (fproc s p)" "fp_suspended (fproc s4 p) = fp_suspended (fproc s p)" for p i
          by (simp_all add: s4_def s2_def r1(5) r0(5))
        have fl4: "filp_count (filp s4 f) = (if f = f0 \<or> f = f1 then 1 else filp_count (filp s f))" "f \<noteq> f0 \<Longrightarrow> f \<noteq> f1 \<Longrightarrow> filp s4 f = filp s f" for f
          using ne by (auto simp: s4_def s2_def r1(5) r0(5))
        have fail: "good s (v, unclaim d1 f1 (unclaim d0 f0 (s4\<lparr>fsys := x\<rparr>)))" (is "good s (v, ?u)") if "fs_frame (fsys s) x" for x v
        proof -
          have "sys_inv ?u"
            by (rule inv_cong [OF inv]) (use r0 e2 ne that fl4 in \<open>auto simp: e4 o4 fun_eq_iff\<close>)
          then show ?thesis by (simp add: good_def e4)
        qed
        have win: "good s (v, t)" if x: "taken (fsys s) (Some rip, x)" and w: "soft (link_pipe rip f0 f1 (s4\<lparr>fsys := x\<rparr>)) t" for x rip v t
        proof -
          let ?t = "link_pipe rip f0 f1 (s4\<lparr>fsys := x\<rparr>)"
          have x: "rip < NR_INODES" "counted rip (\<lambda>n. max n 0 + 1) (fsys s) x" using x by (auto simp: taken_def)
          have "i_count (inode (fsys (s4\<lparr>fsys := x\<rparr>)) rip) \<ge> 1" using x(2) by (simp add: counted_def)
          note lp = link_pipe_result [OF ne(1) this]
          have "counted rip (\<lambda>n. max n 0 + 2) (fsys s) (fsys ?t)" using x(2) lp(1) by (auto simp: counted_def)
          note ct = this
          have "sys_inv ?t"
            by (rule pipe_counts [OF inv r0(3) r1(3) ne(1) r0(4) e2(1) _ _ ne(2) r0(2) e2(2) x(1) ct])
              (use r0(1) r1(1) c fl4 in \<open>auto simp: lp e4 o4 slots_def caller_def\<close>)
          then show ?thesis using w soft_inv [OF w] softD(13) [OF w] by (simp add: good_def lp e4)
        qed
        show ?thesis
          unfolding do_pipe_def Let_def \<open>get_fd 0 R_BIT s = (r, s1)\<close> \<open>r = Inr p0\<close> p0 prod.case sum.case s2_def [symmetric] Pair Inr p1 s4_def [symmetric] e4(1)
        proof (rule yields_thenI [OF counted_alloc_inode], clarify)
          fix ripo x assume x: "taken (fsys s) (ripo, x)"
          show "yields (case ripo of None \<Rightarrow> Some (Ret (err_code (fsys (unclaim d1 f1 (unclaim d0 f0 (s4\<lparr>fsys := x\<rparr>)))), unclaim d1 f1 (unclaim d0 f0 (s4\<lparr>fsys := x\<rparr>))))
            | Some rip \<Rightarrow> if read_only rip (s4\<lparr>fsys := x\<rparr>) \<noteq> OK then Some (Panic ''pipe device is read only'')
                else and_then (in_fs (rw_inode (disk_io e) (time_now e) rip False) (link_pipe rip f0 f1 (s4\<lparr>fsys := x\<rparr>)))
                  (\<lambda>s6. Some (Ret (OK, upd_ino rip (i_update_update (\<lambda>_. ATIME OR CTIME OR MTIME))
                     (s6\<lparr>reply_mess := (reply_mess s6)\<lparr>m_i1 := int d0, m_i2 := int d1\<rparr>\<rparr>))))) (good s)"
          proof (cases ripo)
            case None
            then show ?thesis using x fail by (simp add: taken_def)
          next
            case (Some rip)
            have rw: "yields (in_fs (rw_inode (disk_io e) (time_now e) rip False) u) (soft u)" for u by (rule soft_in_fs) (rule frame_rw_inode)
            have so: "soft u (upd_ino rip (i_update_update h) (v\<lparr>reply_mess := m\<rparr>))" if "soft u v" for u v h m
              by (rule soft_trans [of _ "v\<lparr>reply_mess := m\<rparr>"]) (use that in \<open>auto intro: soft_upd_ino\<close>)
            show ?thesis unfolding Some option.case
              by (rule yields_if, simp) (rule yields_thenI [OF rw], simp, rule win [OF x [unfolded Some]], erule so)
          qed
        qed
      qed
    qed
  qed
qed

end
