(* ===== verification/Fs_Rw.thy ===== *)
theory Fs_Rw
  imports Fs_Misc
begin

unbundle bit_operations_syntax

text \<open>
  Reading and writing of files: \<^verbatim>\<open>read_write\<close>, \<^verbatim>\<open>rw_chunk\<close>, \<^verbatim>\<open>rahead\<close> and \<^verbatim>\<open>read_ahead\<close> of
  \<^verbatim>\<open>src/src/fs/read.c\<close>, \<^verbatim>\<open>do_write\<close> of \<^verbatim>\<open>write.c\<close>. A request is split into chunks that do not cross
  block boundaries. Counts of bytes that are not negative are numbers.
\<close>

definition BLOCKS_MINIMUM :: "32 word" where "BLOCKS_MINIMUM = 32"
definition LONG_MAX :: "32 word" where "LONG_MAX = 0x7FFFFFFF"
definition FD_MASK :: int where "FD_MASK = 63"
definition SEG_D :: int where "SEG_D = 1"

section \<open>Read ahead\<close>

text \<open>
  The loop of \<^verbatim>\<open>rahead\<close> that acquires buffers. \<open>room\<close> is the number of entries left in the array
  \<^verbatim>\<open>read_q\<close>; beyond its end the loop does not go on sensibly (\<open>None\<close>).
\<close>

fun prefetch ::
  "(nat \<Rightarrow> int) \<Rightarrow> int \<Rightarrow> nat \<Rightarrow> nat \<Rightarrow> 32 word \<Rightarrow> nat list \<Rightarrow> nat \<Rightarrow> cache \<Rightarrow> (nat list \<times> cache) outcome option" where
  "prefetch io dev 0 block blocks_ahead read_q bp c = None"
| "prefetch io dev (Suc room) block blocks_ahead read_q bp c =
     (let q = read_q @ [bp]; ahead = blocks_ahead - 1 in
      if ahead = 0 \<or> bufs_in_use c \<ge> int NR_BUFS - 4 then Some (Ret (q, c))
      else
        and_then (get_block io dev (block + 1) PREFETCH c)
          (\<lambda>(bp1, c1).
             if b_dev (buf c1 bp1) \<noteq> NO_DEV then Some (Ret (q, put_block io (Some bp1) FULL_DATA_BLOCK c1))
             else prefetch io dev room (block + 1) ahead q bp1 c1))"

text \<open>How many blocks to read; \<open>position\<close> is rounded down to a block.\<close>

definition ahead_count :: "nat \<Rightarrow> bool \<Rightarrow> 32 word \<Rightarrow> 32 word \<Rightarrow> fs \<Rightarrow> 32 word" where
  "ahead_count rip block_spec position bytes_ahead s =
     (let r = inode s rip;
          ahead0 = (bytes_ahead + 1023) div 1024;
          left0 = (if block_spec \<and> i_size r = 0 then of_nat NR_IOREQS else (i_size r - position + 1023) div 1024);
          ind1_pos = of_nat (i_ndzones r) * push_bit (scale_of s rip) 1024;
          near = \<not> block_spec \<and> position \<le> ind1_pos \<and> i_size r > ind1_pos;
          ahead1 = (if near then ahead0 + 1 else ahead0);
          left1 = (if near then left0 + 1 else left0);
          ahead2 = (if ahead1 > of_nat NR_IOREQS then of_nat NR_IOREQS else ahead1);
          ahead3 = (if ahead2 < BLOCKS_MINIMUM \<and> \<not> i_seek r then BLOCKS_MINIMUM else ahead2)
      in if ahead3 > left1 then left1 else ahead3)"

definition rahead :: "(nat \<Rightarrow> int) \<Rightarrow> nat \<Rightarrow> nat \<Rightarrow> 32 word \<Rightarrow> 32 word \<Rightarrow> fs \<Rightarrow> (nat \<times> fs) outcome option" where
  "rahead io rip baseblock position bytes_ahead s =
     (let r = inode s rip;
          block_spec = (i_mode r AND I_TYPE = I_BLOCK_SPECIAL);
          dev = (if block_spec then dev_of (i_zone r 0) else i_dev r)
      in and_then (get_block io dev baseblock PREFETCH (fs_cache s))
           (\<lambda>(bp, c).
              if b_dev (buf c bp) \<noteq> NO_DEV then Some (Ret (bp, s\<lparr>fs_cache := c\<rparr>))
              else
                let fragment = position mod 1024;
                    blocks_ahead = ahead_count rip block_spec (position - fragment) (bytes_ahead + fragment) s
                in and_then (prefetch io dev NR_BUFS baseblock blocks_ahead [] bp c)
                     (\<lambda>(q, c1).
                        and_then (get_block io dev baseblock NORMAL (rw_scattered io dev q True c1))
                          (\<lambda>(bp1, c2). Some (Ret (bp1, s\<lparr>fs_cache := c2\<rparr>))))))"

definition read_ahead :: "env \<Rightarrow> sys \<Rightarrow> sys outcome option" where
  "read_ahead e s =
     (case rdahed_inode s of
        None \<Rightarrow> None
      | Some rip \<Rightarrow>
          let io = disk_io e; s1 = s\<lparr>rdahed_inode := None\<rparr> in
          and_then (read_map io rip (rdahedpos s1) (fsys s1))
            (\<lambda>(b, x).
               if b = NO_BLOCK then Some (Ret (s1\<lparr>fsys := x\<rparr>))
               else
                 and_then (rahead io rip b (rdahedpos s1) 1024 x)
                   (\<lambda>(bp, y). Some (Ret (s1\<lparr>fsys := y\<lparr>fs_cache := put_block io (Some bp) PARTIAL_DATA_BLOCK (fs_cache y)\<rparr>\<rparr>)))))"

section \<open>One chunk\<close>

text \<open>The buffer for a chunk: a block of zeros, a new block, a block read ahead, or a block to be changed.\<close>

definition chunk_buf ::
  "(nat \<Rightarrow> int) \<Rightarrow> nat \<Rightarrow> 32 word \<Rightarrow> nat \<Rightarrow> nat \<Rightarrow> 32 word \<Rightarrow> bool \<Rightarrow> fs \<Rightarrow> (nat option \<times> fs) outcome option" where
  "chunk_buf io rip position off chunk left reading s =
     (let r = inode s rip;
          block_spec = (i_mode r AND I_TYPE = I_BLOCK_SPECIAL);
          dev = (if block_spec then dev_of (i_zone r 0) else i_dev r)
      in and_then (if block_spec then Some (Ret (unat position div 1024, s)) else read_map io rip position s)
           (\<lambda>(b, s1).
              if \<not> block_spec \<and> b = NO_BLOCK then
                if reading
                then and_then (get_block io NO_DEV NO_BLOCK NORMAL (fs_cache s1))
                       (\<lambda>(bp, c). Some (Ret (Some bp, s1\<lparr>fs_cache := zero_block bp c\<rparr>)))
                else new_block io rip position s1
              else if reading then and_then (rahead io rip b position left s1) (\<lambda>(bp, s2). Some (Ret (Some bp, s2)))
              else
                let n = (if \<not> block_spec \<and> off = 0 \<and> position \<ge> i_size (inode s1 rip) then NO_READ
                         else if chunk = 1024 then NO_READ else NORMAL)
                in and_then (get_block io dev b n (fs_cache s1)) (\<lambda>(bp, c). Some (Ret (Some bp, s1\<lparr>fs_cache := c\<rparr>)))))"

text \<open>The two copies: \<open>chunk\<close> bytes between offset \<open>off\<close> of a block and address \<open>buff\<close> of a process.\<close>

definition copy_out_user :: "nat \<Rightarrow> nat \<Rightarrow> 32 word \<Rightarrow> data \<Rightarrow> (32 word \<Rightarrow> 8 word) \<Rightarrow> 32 word \<Rightarrow> 8 word" where
  "copy_out_user off chunk buff d mem = (\<lambda>a. if unat (a - buff) < chunk then d (off + unat (a - buff)) else mem a)"

definition copy_in_user :: "nat \<Rightarrow> nat \<Rightarrow> 32 word \<Rightarrow> (32 word \<Rightarrow> 8 word) \<Rightarrow> data \<Rightarrow> data" where
  "copy_in_user off chunk buff mem d = (\<lambda>k. if off \<le> k \<and> k < off + chunk then mem (buff + of_nat (k - off)) else d k)"

definition rw_chunk ::
  "env \<Rightarrow> nat \<Rightarrow> 32 word \<Rightarrow> nat \<Rightarrow> nat \<Rightarrow> 32 word \<Rightarrow> bool \<Rightarrow> 32 word \<Rightarrow> int \<Rightarrow> int \<Rightarrow> sys \<Rightarrow> (int \<times> sys) outcome option" where
  "rw_chunk e rip position off chunk left reading buff sg usr s =
     and_then (chunk_buf (disk_io e) rip position off chunk left reading (fsys s))
       (\<lambda>(bpo, x).
          case bpo of
            None \<Rightarrow> Some (Ret (err_code x, s\<lparr>fsys := x\<rparr>))
          | Some bp \<Rightarrow>
              let r = inode x rip;
                  c1 = (if \<not> reading \<and> chunk \<noteq> 1024 \<and> i_mode r AND I_TYPE \<noteq> I_BLOCK_SPECIAL \<and> position \<ge> i_size r \<and> off = 0
                        then zero_block bp (fs_cache x) else fs_cache x);
                  res = user_copy e usr sg buff chunk;
                  s1 = (if reading \<and> res = OK
                        then s\<lparr>umem := (umem s)(usr := (umem s usr)(sg := copy_out_user off chunk buff (b_data (buf c1 bp)) (umem s usr sg)))\<rparr>
                        else s);
                  c2 = (if reading then c1
                        else upd_buf bp (b_dirt_update (\<lambda>_. True))
                               (if res = OK then upd_buf bp (b_data_update (copy_in_user off chunk buff (umem s usr sg))) c1 else c1));
                  n = (if off + chunk = 1024 then FULL_DATA_BLOCK else PARTIAL_DATA_BLOCK)
              in Some (Ret (res, s1\<lparr>fsys := x\<lparr>fs_cache := put_block (disk_io e) (Some bp) n c2\<rparr>\<rparr>)))"

section \<open>The whole request\<close>

text \<open>
  The loop over the chunks. \<open>partial\<close> is \<^verbatim>\<open>partial_cnt\<close> when \<^verbatim>\<open>partial_pipe\<close> is set; then it is less than
  \<open>nbytes\<close>. The result is the last \<^verbatim>\<open>r\<close> and the values of \<^verbatim>\<open>nbytes\<close>, \<^verbatim>\<open>buffer\<close>, \<^verbatim>\<open>cum_io\<close> and \<^verbatim>\<open>position\<close>.
\<close>

definition chunk_size :: "bool \<Rightarrow> 32 word \<Rightarrow> nat option \<Rightarrow> nat \<Rightarrow> 32 word \<Rightarrow> nat" where
  "chunk_size reading f_size partial nbytes position =
     (let c = min (case partial of Some k \<Rightarrow> k | None \<Rightarrow> nbytes) (1024 - unat (position mod 1024))
      in if reading then min c (unat (f_size - position)) else c)"

function rw_loop ::
  "env \<Rightarrow> nat \<Rightarrow> bool \<Rightarrow> 32 word \<Rightarrow> int \<Rightarrow> int \<Rightarrow> int \<Rightarrow> nat option \<Rightarrow> nat \<Rightarrow> 32 word \<Rightarrow> int \<Rightarrow> 32 word \<Rightarrow> sys
   \<Rightarrow> (int \<times> nat \<times> 32 word \<times> int \<times> 32 word \<times> sys) outcome option" where
  "rw_loop e rip reading f_size sg usr r partial nbytes buffer cum_io position s =
     (if nbytes = 0 \<or> reading \<and> position \<ge> f_size then Some (Ret (r, nbytes, buffer, cum_io, position, s))
      else
        let off = unat (position mod 1024); chunk = chunk_size reading f_size partial nbytes position in
        and_then (rw_chunk e rip position off chunk (of_nat nbytes) reading buffer sg usr s)
          (\<lambda>(r1, s1).
             if r1 \<noteq> OK \<or> rdwt_err (fs_cache (fsys s1)) < 0 then Some (Ret (r1, nbytes, buffer, cum_io, position, s1))
             else
               let nb = nbytes - chunk; bu = buffer + of_nat chunk; ci = cum_io + int chunk; po = position + of_nat chunk;
                   rest = map_option (\<lambda>k. k - chunk) partial
               in if rest = Some 0 then Some (Ret (r1, nb, bu, ci, po, s1))
                  else rw_loop e rip reading f_size sg usr r1 rest nb bu ci po s1))"
  by pat_completeness auto

lemma chunk_size_pos:
  assumes "nbytes \<noteq> 0" "\<not> (reading \<and> position \<ge> f_size)" "partial \<noteq> Some 0"
  shows "0 < chunk_size reading f_size partial nbytes position"
proof -
  have o: "unat (position mod 1024) < 1024" by (simp add: unat_mod)
  have "reading \<Longrightarrow> f_size - position \<noteq> 0" using assms(2) by auto
  then have "reading \<Longrightarrow> 0 < unat (f_size - position)" by (simp add: unat_gt_0)
  then show ?thesis using assms(1,3) o by (auto simp: chunk_size_def Let_def split: option.splits)
qed

termination rw_loop
  by (relation "measure (\<lambda>(e, rip, reading, f_size, sg, usr, r, partial, nbytes, buffer, cum_io, position, s).
        nbytes)") (auto intro!: diff_less chunk_size_pos)

declare rw_loop.simps [simp del]

text \<open>MM loads segments with a process and a segment in the upper bits of the descriptor.\<close>

definition rw_args :: "sys \<Rightarrow> int \<times> int \<times> sys" where
  "rw_args s =
     (let fd = m_i1 (mesg s) in
      if who s = MM_PROC_NR \<and> fd AND NOT 0xFF \<noteq> 0
      then (take_bit 8 (drop_bit 8 fd), take_bit 2 (drop_bit 6 fd), set_i1 (fd AND FD_MASK) s)
      else (who s, SEG_D, s))"

definition set_rdwt :: "int \<Rightarrow> sys \<Rightarrow> sys" where
  "set_rdwt e s = s\<lparr>fsys := (fsys s)\<lparr>fs_cache := (fs_cache (fsys s))\<lparr>rdwt_err := e\<rparr>\<rparr>\<rparr>"

text \<open>After the transfer: the size of the file, an empty pipe, the position, read ahead, the result.\<close>

definition rw_size :: "bool \<Rightarrow> nat \<Rightarrow> bool \<Rightarrow> 32 word \<Rightarrow> 32 word \<Rightarrow> sys \<Rightarrow> 32 word \<times> sys" where
  "rw_size reading rip plain f_size position s =
     (if \<not> reading then (position, if plain \<and> position > f_size then upd_ino rip (i_size_update (\<lambda>_. position)) s else s)
      else if i_pipe (ino_of s rip) \<and> position \<ge> i_size (ino_of s rip)
      then (0, let s1 = upd_ino rip (i_size_update (\<lambda>_. 0)) s
               in case find_filp rip W_BIT s1 of None \<Rightarrow> s1 | Some w \<Rightarrow> upd_filp w (filp_pos_update (\<lambda>_. 0)) s1)
      else (position, s))"

definition rw_seek :: "bool \<Rightarrow> nat \<Rightarrow> bool \<Rightarrow> 32 word \<Rightarrow> sys \<Rightarrow> sys" where
  "rw_seek reading rip plain position s =
     upd_ino rip (i_seek_update (\<lambda>_. False))
       (if reading \<and> \<not> i_seek (ino_of s rip) \<and> position mod 1024 = 0 \<and> plain
        then s\<lparr>rdahed_inode := Some rip, rdahedpos := position\<rparr> else s)"

definition rw_result :: "bool \<Rightarrow> nat \<Rightarrow> 32 word \<Rightarrow> bool \<Rightarrow> int \<Rightarrow> int \<Rightarrow> sys \<Rightarrow> int \<times> sys" where
  "rw_result reading rip oflags partial_pipe r cum_io s =
     (let err = rdwt_err (fs_cache (fsys s));
          r1 = (if err = END_OF_FILE then OK else if err \<noteq> OK then err else r)
      in if r1 = OK then
           let s1 = upd_ino rip (\<lambda>i. i\<lparr>i_update := i_update i OR (if reading then ATIME else CTIME OR MTIME), i_dirt := True\<rparr>) s;
               cum = (\<lambda>n. upd_fproc (fp s1) (fp_cum_io_partial_update (\<lambda>_. n)) s1)
           in if partial_pipe \<and> \<not> has oflags O_NONBLOCK then (0, suspend XPIPE (cum cum_io)) else (cum_io, cum 0)
         else (r1, s))"

definition rw_end :: "bool \<Rightarrow> nat \<Rightarrow> nat \<Rightarrow> bool \<Rightarrow> 32 word \<Rightarrow> bool \<Rightarrow> 32 word \<Rightarrow> int \<Rightarrow> int \<Rightarrow> 32 word \<Rightarrow> sys \<Rightarrow> int \<times> sys" where
  "rw_end reading f rip plain oflags partial_pipe f_size r cum_io position s =
     (let (pos, s1) = rw_size reading rip plain f_size position s
      in rw_result reading rip oflags partial_pipe r cum_io
           (rw_seek reading rip plain pos (upd_filp f (filp_pos_update (\<lambda>_. pos)) s1)))"

text \<open>Regular files, directories, pipes and block special files.\<close>

definition rw_file :: "env \<Rightarrow> bool \<Rightarrow> nat \<Rightarrow> int \<Rightarrow> int \<Rightarrow> sys \<Rightarrow> (int \<times> sys) outcome option" where
  "rw_file e reading f usr sg s =
     (let rip = filp_ino (filp s f); oflags = filp_flags (filp s f); r = ino_of s rip; nb = m_i2 (mesg s);
          mode_word = i_mode r AND I_TYPE; block_spec = (mode_word = I_BLOCK_SPECIAL);
          plain = (mode_word = I_REGULAR \<or> mode_word = I_NAMED_PIPE \<or> mode_word = I_DIRECTORY);
          f_size = (if block_spec then LONG_MAX else i_size r);
          pos0 = filp_pos (filp s f);
          checked = (\<not> reading \<and> \<not> block_spec)
      in if checked \<and> pos0 > s_max_size (super_blocks (fsys s) (i_sp r)) - word_of_int nb then Some (Ret (EFBIG, s))
         else
           let pos = (if checked \<and> has oflags O_APPEND then f_size else pos0) in
           and_then (if checked \<and> pos > f_size then in_fs (clear_zone (disk_io e) rip f_size False) s else Some (Ret s))
             (\<lambda>s1.
                and_then (if i_pipe r then pipe_check rip reading oflags nb pos 0 s1 else Some (Ret (1, 0, s1)))
                  (\<lambda>(go, canwrite, s2).
                     if go \<le> 0 then Some (Ret (go, s2))
                     else
                       and_then
                         (rw_loop e rip reading f_size sg usr (if i_pipe r then go else OK) (if canwrite > 0 then Some (nat canwrite) else None)
                            (nat nb) (m_l1 (mesg s2)) (if i_pipe r then fp_cum_io_partial (fproc s (fp s)) else 0) pos s2)
                         (\<lambda>(res, nbytes, buffer, cum_io, position, s3).
                            Some (Ret (rw_end reading f rip plain oflags (canwrite > 0) f_size res cum_io position
                              (s3\<lparr>mesg := (mesg s3)\<lparr>m_i2 := int nbytes, m_l1 := buffer\<rparr>\<rparr>)))))))"

definition rw_char :: "bool \<Rightarrow> nat \<Rightarrow> sys \<Rightarrow> (int \<times> sys) outcome option" where
  "rw_char reading f s =
     (let rip = filp_ino (filp s f); oflags = filp_flags (filp s f); r = ino_of s rip; pos = filp_pos (filp s f);
          cum0 = (if i_pipe r then fp_cum_io_partial (fproc s (fp s)) else 0)
      in and_then (dev_io (if reading then DEV_READ else DEV_WRITE) (oflags AND O_NONBLOCK) (dev_of (i_zone r 0)) pos (m_i2 (mesg s)) (who s) (m_l1 (mesg s)) s)
           (\<lambda>(n, s1).
              Some (Ret
                (if n \<ge> 0 then rw_end reading f rip False oflags False (i_size r) OK n (pos + word_of_int n) s1
                 else rw_end reading f rip False oflags False (i_size r) n cum0 pos s1))))"

definition read_write :: "env \<Rightarrow> bool \<Rightarrow> sys \<Rightarrow> (int \<times> sys) outcome option" where
  "read_write e reading s0 =
     (let (usr, sg, s) = rw_args s0; nb = m_i2 (mesg s) in
      if nb < 0 then Some (Ret (EINVAL, s))
      else
        case get_filp (m_i1 (mesg s)) s of
          (None, s1) \<Rightarrow> Some (Ret (err_code (fsys s1), s1))
        | (Some f, s1) \<Rightarrow>
            let q = filp s1 f; s2 = set_rdwt OK s1 in
            if filp_mode q AND (if reading then R_BIT else W_BIT) = 0
            then Some (Ret (if filp_mode q = FILP_CLOSED then EIO else EBADF, s1))
            else if nb = 0 then Some (Ret (0, s1))
            else if filp_pos q > MAX_FILE_POS then Some (Ret (EINVAL, s1))
            else if filp_pos q + word_of_int nb < filp_pos q then Some (Ret (EINVAL, s1))
            else if i_mode (ino_of s2 (filp_ino q)) AND I_TYPE = I_CHAR_SPECIAL then rw_char reading f s2
            else rw_file e reading f usr sg s2)"

definition do_read :: "env \<Rightarrow> sys \<Rightarrow> (int \<times> sys) outcome option" where
  "do_read e s = read_write e True s"

definition do_write :: "env \<Rightarrow> sys \<Rightarrow> (int \<times> sys) outcome option" where
  "do_write e s = read_write e False s"

end
