(* ===== verification/Fs_Rw_Counts.thy ===== *)
theory Fs_Rw_Counts
  imports Fs_Counts Fs_Rw
begin

text \<open>
  Reading and writing keep the counts of the tables: \<^verbatim>\<open>src/src/fs/write.c\<close>, \<^verbatim>\<open>read.c\<close> and \<^verbatim>\<open>pipe_check\<close>
  of \<^verbatim>\<open>pipe.c\<close> change no reference of an inode and no descriptor.
\<close>

section \<open>File maps\<close>

abbreviation with_fs :: "('a \<times> fs) outcome option \<Rightarrow> (fs \<Rightarrow> bool) \<Rightarrow> bool" where
  "with_fs r P \<equiv> yields r (\<lambda>(x, s'). P s')"

lemma yields_drop: "(\<And>x. yields (f x) Q) \<Longrightarrow> yields (and_then r f) Q"
  by (simp add: yields_any)

lemma frame_alloc_zone: "with_fs (alloc_zone io dev z s) (fs_frame s)"
  unfolding alloc_zone_def Let_def
  by (rule yields_drop)+ (auto simp: fs_frame_super intro!: yields_drop simp del: yields_then)

lemma frame_release [simp]: "fs_frame s (release_buf io b t) = fs_frame s t" "fs_frame s (mark_dirty k t) = fs_frame s t"
  by (simp_all add: release_buf_def mark_dirty_def)

lemma frame_wr_indir: "yields (wr_indir bp k z s) (fs_frame s)"
  by (auto simp: wr_indir_def intro!: yieldsI)

lemma frame_open_indirect: "with_fs (open_indirect io dev b new s) (fs_frame s)"
  by (auto simp: open_indirect_def intro!: yieldsI)

lemma frame_write_entry: "with_fs (write_entry io dev b new k z s) (fs_frame s)"
  unfolding write_entry_def
  by (auto simp del: yields_then intro!: yields_thenI [OF frame_open_indirect] yields_thenI [OF frame_wr_indir] intro: fs_frame_trans)

lemma with_fs_after: "fs_frame s t \<Longrightarrow> with_fs r (fs_frame t) \<Longrightarrow> with_fs r (fs_frame s)"
  by (erule yields_mono) (auto intro: fs_frame_trans)

lemma frame_after: "fs_frame s t \<Longrightarrow> yields r (fs_frame t) \<Longrightarrow> yields r (fs_frame s)"
  by (erule yields_mono) (auto intro: fs_frame_trans)

lemma with_fs_then: "with_fs r (fs_frame s) \<Longrightarrow> (\<And>x t. fs_frame s t \<Longrightarrow> with_fs (f x t) (fs_frame s)) \<Longrightarrow> with_fs (and_then r (\<lambda>(x, t). f x t)) (fs_frame s)"
  by (erule yields_thenI) auto

lemma frame_then: "yields r (fs_frame s) \<Longrightarrow> (\<And>t. fs_frame s t \<Longrightarrow> with_fs (f t) (fs_frame s)) \<Longrightarrow> with_fs (and_then r f) (fs_frame s)"
  by (erule yields_thenI) auto

lemma frame_write_single: "with_fs (write_single io rip scale dbl z1 excess zone s) (fs_frame s)"
proof -
  let ?rest = "\<lambda>z s3. let s4 = release_buf io (map_option fst dbl) s3
    in if z = NO_ZONE then Some (Ret (err_code s4, s4)) else write_entry io (i_dev (inode s rip)) (block_of_zone z scale) True excess zone s4"
  have rest: "with_fs (?rest z t) (fs_frame s)" if "fs_frame s t" for z t
    unfolding Let_def using that by (intro yields_if) (auto intro!: with_fs_after [OF _ frame_write_entry])
  have mid: "yields (case dbl of None \<Rightarrow> Some (Ret (upd_inode rip (\<lambda>r. r\<lparr>i_zone := (i_zone r)(i_ndzones (inode s rip) := z)\<rparr>) t))
      | Some (bp, k) \<Rightarrow> and_then (wr_indir bp k z t) (\<lambda>s2. Some (Ret (mark_dirty bp s2)))) (fs_frame s)" if "fs_frame s t" for z t
    using that frame_after [OF that frame_wr_indir] by (auto simp: fs_frame_upd split: option.split)
  show ?thesis
    unfolding write_single_def Let_def [of "i_dev _"] Let_def [of "i_ndzones _"]
    by (intro yields_if with_fs_then [OF frame_alloc_zone] frame_then [OF mid] rest with_fs_after [OF _ frame_write_entry]) auto
qed

lemma frame_write_map: "with_fs (write_map io rip pos z s0) (fs_frame s0)"
proof -
  define s where "s = upd_inode rip (i_dirt_update (\<lambda>_. True)) s0"
  have s: "fs_frame s0 s" by (simp add: s_def fs_frame_upd)
  have z: "fs_frame s0 (upd_inode rip (\<lambda>r. r\<lparr>i_zone := g r\<rparr>) t) = fs_frame s0 t" for g t by (rule fs_frame_upd) simp
  have alloc: "yields (if b then and_then (alloc_zone io d k s) (\<lambda>(x, t). Some (Ret (x, True, if x = NO_ZONE then t else upd_inode rip (\<lambda>r. r\<lparr>i_zone := g r x\<rparr>) t)))
      else Some (Ret (y, False, s))) (\<lambda>(x, b, t). fs_frame s0 t)" for b d k g y
    by (rule yields_if, rule yields_thenI [OF with_fs_after [OF s frame_alloc_zone]]) (auto simp: z s)
  have last: "with_fs (and_then (open_indirect io d b new t) (\<lambda>(bp, s2). and_then (rd_indir bp k s2)
      (\<lambda>z1. write_single io rip scale (Some (bp, k)) z1 n zone s2))) (fs_frame s0)" if "fs_frame s0 t" for d b new t k scale n zone
    by (intro with_fs_then [OF with_fs_after [OF that frame_open_indirect]] yields_drop with_fs_after [OF _ frame_write_single])
  show ?thesis
    unfolding write_map_def Let_def s_def [symmetric]
    by (intro yields_if with_fs_after [OF s frame_write_single] yields_thenI [OF alloc]) (auto simp del: yields_then simp: s z fs_frame_upd intro!: last)
qed

lemma frame_read_map: "with_fs (read_map io rip pos s) (fs_frame s)"
  by (rule yields_mono [OF frame_map]) (auto dest: cache_only_frame)

lemma frame_clear_zone: "yields (clear_zone io rip pos flg s) (fs_frame s)"
proof -
  have e: "yields (each (\<lambda>b s2. and_then (get_block io (i_dev (inode s2 rip)) b NO_READ (fs_cache s2))
      (\<lambda>(bp, c). Some (Ret (s2\<lparr>fs_cache := put_block io (Some bp) FULL_DATA_BLOCK (zero_block bp c)\<rparr>)))) bs t) (fs_frame s)"
    if "fs_frame s t" for bs t
    by (rule yields_each) (auto simp: that simp del: yields_then intro!: yields_drop)
  show ?thesis
    unfolding clear_zone_def
    by (auto simp: Let_def simp del: yields_then intro!: yields_thenI [OF frame_read_map] e)
qed

lemma frame_new_block: "with_fs (new_block io rip pos s) (fs_frame s)"
proof -
  have h: "with_fs (and_then (get_block io d b NO_READ c0) (\<lambda>(bp, c). Some (Ret (Some bp, t\<lparr>fs_cache := zero_block bp c\<rparr>)))) (fs_frame s)"
    if "fs_frame s t" for d b c0 t using that by (auto simp del: yields_then intro!: yields_drop)
  have fr: "with_fs (and_then (free_zone io d z t) (\<lambda>s4. Some (Ret (None, s4\<lparr>err_code := k\<rparr>)))) (fs_frame s)" if "fs_frame s t" for d z t k
    using frame_after [OF that frame_free_zone] by simp
  have cl: "yields (if b then clear_zone io rip pos True t else Some (Ret t)) (fs_frame s)" if "fs_frame s t" for t b
    using that by (auto intro: frame_after [OF _ frame_clear_zone])
  show ?thesis
    unfolding new_block_def Let_def
    by (intro with_fs_then [OF frame_read_map] yields_if h with_fs_then [OF with_fs_after [OF _ frame_alloc_zone]]
        with_fs_then [OF with_fs_after [OF _ frame_write_map]] fr frame_then [OF cl]) auto
qed

section \<open>Chunks\<close>

lemma frame_rahead: "with_fs (rahead io rip b pos n s) (fs_frame s)"
  unfolding rahead_def Let_def
  by (rule yields_drop) (auto simp del: yields_then intro!: yields_drop)

lemma frame_chunk_buf: "with_fs (chunk_buf io rip pos off chunk left reading s) (fs_frame s)"
proof -
  have m: "with_fs (if b then Some (Ret (k, s)) else read_map io rip pos s) (fs_frame s)" for b k
    by (simp add: frame_read_map)
  have g: "with_fs (and_then (get_block io d b k c0) (\<lambda>(bp, c). Some (Ret (Some bp, t\<lparr>fs_cache := h bp c\<rparr>)))) (fs_frame s)" if "fs_frame s t" for d b k c0 t h
    using that by (auto simp del: yields_then intro!: yields_drop)
  have r: "with_fs (and_then (rahead io rip b pos left t) (\<lambda>(bp, s2). Some (Ret (Some bp, s2)))) (fs_frame s)" if "fs_frame s t" for b t
    using with_fs_after [OF that frame_rahead] by (auto simp: case_prod_unfold)
  show ?thesis
    unfolding chunk_buf_def Let_def
    by (intro with_fs_then [OF m] yields_if g r with_fs_after [OF _ frame_new_block])
qed

lemma soft_umem [simp]: "soft s (t\<lparr>umem := u\<rparr>) = soft s t"
  by (simp add: soft_def revive_ok_def revived_def)

lemma soft_rw_chunk: "yields (rw_chunk e rip pos off chunk left reading buff sg usr s) (\<lambda>(r, s'). soft s s')"
proof -
  have c: "soft s (t\<lparr>fsys := x\<lparr>fs_cache := c\<rparr>\<rparr>)" if "fs_frame (fsys s) x" "t = s \<or> (\<exists>u. t = s\<lparr>umem := u\<rparr>)" for t x c
    using that soft_frame [of s "x\<lparr>fs_cache := c\<rparr>"] by (auto simp: soft_def revive_ok_def revived_def)
  show ?thesis
    unfolding rw_chunk_def
    by (rule yields_thenI [OF frame_chunk_buf]) (auto simp: Let_def soft_frame intro!: c split: option.splits)
qed

lemma soft_rw_loop: "yields (rw_loop e rip reading f_size sg usr r partial nbytes buffer cum_io position s) (\<lambda>(r, n, b, c, p, s'). soft s s')"
proof (induction e rip reading f_size sg usr r partial nbytes buffer cum_io position s rule: rw_loop.induct)
  case (1 e rip reading f_size sg usr r partial nbytes buffer cum_io position s)
  show ?case
    apply (subst rw_loop.simps)
    apply (unfold Let_def)
    apply (rule yields_if, simp)
    apply (rule yields_thenI [OF soft_rw_chunk])
    apply (simp only: case_prod_unfold)
    apply (intro yields_if)
      apply simp
     apply simp
    apply (rule yields_mono [OF "1.IH"])
          apply (auto intro: soft_trans)
    done
qed

section \<open>The calls\<close>

lemmas inv_fields = sys_inv_def filps_ok_def inodes_ok_def locks_ok_def revive_ok_def refs_def file_refs_def dir_refs_def super_refs_def lone_def
  users_def used_locks_def revived_def desc_def ino_of_def

lemma inv_mesg [simp]: "sys_inv (t\<lparr>mesg := m\<rparr>) = sys_inv t"
  by (simp add: inv_fields)

lemma inv_rdahed [simp]: "sys_inv (t\<lparr>rdahed_inode := r, rdahedpos := p\<rparr>) = sys_inv t" "sys_inv (t\<lparr>rdahed_inode := r\<rparr>) = sys_inv t"
  by (simp_all add: inv_fields)

lemma soft_pipe_check: "yields (pipe_check rip reading fl n pos k s) (\<lambda>(r, c, s'). soft s s')"
proof -
  have rel: "yields (if b then release ip call m t else Some (Ret t)) (soft s)" if "soft s t" for b ip call m t
    using that by (auto intro!: yields_mono [OF woken_release] dest: woken_soft intro: soft_trans)
  have rel': "yields (release ip call m s) (soft s)" for ip call m by (rule yields_mono [OF woken_release]) (rule woken_soft)
  show ?thesis
    unfolding pipe_check_def Let_def
    by (intro yields_if yields_thenI [OF rel] yields_thenI [OF rel']) (simp_all add: soft_suspend)
qed

definition held :: "sys \<Rightarrow> sys \<Rightarrow> bool" where "held s t \<longleftrightarrow> sys_inv t \<and> who t = who s"

lemma held_soft: "held s t \<Longrightarrow> soft t u \<Longrightarrow> held s u"
  by (auto simp: held_def intro: soft_inv dest: softD)

lemma held_good: "held s t \<Longrightarrow> good s (r, t)" by (simp add: held_def good_def)

lemma held_size: "held s t \<Longrightarrow> held s (snd (rw_size reading rip plain f_size pos t))"
  by (erule held_soft)
    (auto simp: rw_size_def Let_def soft_upd_ino split: option.split intro!: soft_trans [OF soft_upd_ino soft_upd_filp])

lemma held_upd_ino: "held s t \<Longrightarrow> (\<And>r. i_count (g r) = i_count r) \<Longrightarrow> held s (upd_ino i g t)"
  by (erule held_soft) (rule soft_upd_ino)

lemma held_seek: "held s t \<Longrightarrow> held s (rw_seek reading rip plain pos t)"
  unfolding rw_seek_def by (rule held_upd_ino) (auto simp: held_def)

lemma held_result: "held s t \<Longrightarrow> held s (snd (rw_result reading rip fl part r cum t))"
proof -
  assume h: "held s t"
  have c: "held s (upd_fproc p (fp_cum_io_partial_update g) u)" if "held s u" for p g u
    by (rule held_soft [OF that], rule soft_same) (simp add: erase_def)
  show ?thesis
    by (auto simp: rw_result_def Let_def h intro!: c held_upd_ino held_soft [OF _ soft_suspend])
qed

lemma held_end: "held s t \<Longrightarrow> held s (snd (rw_end reading f rip plain fl part f_size r cum pos t))"
  unfolding rw_end_def Let_def case_prod_unfold
  by (intro held_result held_seek, rule held_soft [OF held_size], assumption) (rule soft_upd_filp, simp_all)

lemma soft_dev_io: "yields (dev_io op nb dev pos n pr buff s) (\<lambda>(r, s'). soft s s')"
proof (cases "dmap (fst (find_dev dev))")
  case (Some d)
  have c: "yields (cancel d pr mn mp t) (\<lambda>(m, s'). soft s s')" if "soft s t" for mn mp t
    by (rule yields_mono [OF soft_cancel [OF Some]]) (auto intro: soft_trans [OF that])
  have d: "yields (dmap_call (dmap_rw d) (dmap_task d) m s) (\<lambda>(m', s'). soft s s')" for m by (rule soft_dmap_call)
  show ?thesis
    unfolding dev_io_def Some option.case
    by (auto simp del: yields_then intro!: yields_thenI [OF d] yields_thenI [OF c] intro: soft_trans [OF _ soft_suspend])
qed (simp add: dev_io_def)

lemma good_end: "held s t \<Longrightarrow> good s (rw_end reading f rip plain fl part f_size r cum pos t)"
  using held_end [of s t reading f rip plain fl part f_size r cum pos]
  by (cases "rw_end reading f rip plain fl part f_size r cum pos t") (simp add: held_def good_def)

lemma good_rw_char:
  assumes "held s t" shows "yields (rw_char reading f t) (good s)"
proof -
  have d: "yields (dev_io op nb dev pos n pr buff t) (\<lambda>(r, u). held s u)" for op nb dev pos n pr buff
    by (rule yields_mono [OF soft_dev_io]) (use assms in \<open>auto intro: held_soft\<close>)
  show ?thesis unfolding rw_char_def Let_def by (rule yields_thenI [OF d]) (auto intro: good_end)
qed

lemma yields_then3:
  "yields r (\<lambda>(a, b, v). P v) \<Longrightarrow> (\<And>a b v. P v \<Longrightarrow> yields (f a b v) Q) \<Longrightarrow> yields (and_then r (\<lambda>(a, b, v). f a b v)) Q"
  by (erule yields_thenI) auto

lemma good_rw_file:
  assumes h: "held s t"
  shows "yields (rw_file e reading f usr sg t) (good s)"
proof -
  have cl: "yields (if b then in_fs (clear_zone io rip k False) t else Some (Ret t)) (held s)" for b io rip k
    by (rule yields_if, rule yields_mono [OF soft_in_fs], rule frame_clear_zone) (use h in \<open>auto intro: held_soft\<close>)
  have pc: "yields (if b then pipe_check rip reading fl n pos k u else Some (Ret (1, 0, u))) (\<lambda>(r, c, v). held s v)" if "held s u" for b rip fl n pos k u
    using that by (auto intro: yields_mono [OF soft_pipe_check] held_soft)
  have lp: "yields (rw_loop e rip reading f_size sg usr r part n buffer cum pos u) (\<lambda>(r, n, b, c, p, v). held s v)" if "held s u"
    for rip f_size r part n buffer cum pos u
    by (rule yields_mono [OF soft_rw_loop]) (use that in \<open>auto intro: held_soft\<close>)
  have upd: "held s v \<Longrightarrow> held s (v\<lparr>mesg := m\<rparr>)" for v m by (simp add: held_def)
  have fin: "yields (and_then (rw_loop e rip reading f_size sg usr r part n buffer cum pos u)
      (\<lambda>(res, n, b, c, p, v). Some (Ret (rw_end reading f rip plain fl part' f_size res c p (v\<lparr>mesg := g v n b\<rparr>))))) (good s)" if "held s u"
    for rip f_size r part n buffer cum pos u plain fl part' g
    by (rule yields_thenI [OF lp [OF that]]) (clarsimp, rule good_end, rule upd)
  show ?thesis
    unfolding rw_file_def Let_def
    by (intro yields_if yields_thenI [OF cl] yields_then3 [OF pc] fin) (simp_all add: held_good h)
qed

lemma held_rdwt: "held s t \<Longrightarrow> held s (set_rdwt k t)"
  by (erule held_soft) (simp add: set_rdwt_def soft_frame)

lemma good_read_write:
  assumes inv: "sys_inv s"
  shows "yields (read_write e reading s) (good s)"
proof -
  obtain usr sg t where a: "rw_args s = (usr, sg, t)" by (cases "rw_args s") auto
  have h: "held s t" using a inv by (auto simp: rw_args_def Let_def set_i1_def held_def split: if_splits)
  obtain r u where g: "get_filp (m_i1 (mesg t)) t = (r, u)" by (cases "get_filp (m_i1 (mesg t)) t") auto
  have hu: "held s u" using get_filp_result [OF g] held_soft [OF h] by simp
  show ?thesis
    using h hu by (cases r) (auto simp: read_write_def a g Let_def intro: held_good good_rw_char good_rw_file held_rdwt)
qed

end
