(* ===== verification/Fs_Dir.thy ===== *)
theory Fs_Dir
  imports Fs_Misc
begin

unbundle bit_operations_syntax

text \<open>
  Directories: \<^verbatim>\<open>search_dir\<close> of \<^verbatim>\<open>src/src/fs/path.c\<close>. A directory is a file of entries of 16 bytes, an inode
  number and 14 characters; the number 0 marks a free entry. A name is the list of its characters
  before the terminating zero; \<open>Dot1\<close> and \<open>Dot2\<close> are the two strings that the source recognises by their address.
  Directories are smaller than 4 GB by a block, so that the position in \<^verbatim>\<open>search_dir\<close> does not wrap around.
\<close>

definition EEXIST :: int where [errno_defs]: "EEXIST = - 17"
definition EXDEV :: int where [errno_defs]: "EXDEV = - 18"
definition ENOTDIR :: int where [errno_defs]: "ENOTDIR = - 20"
definition EISDIR :: int where [errno_defs]: "EISDIR = - 21"
definition EMLINK :: int where [errno_defs]: "EMLINK = - 31"
definition ENAMETOOLONG :: int where [errno_defs]: "ENAMETOOLONG = - 36"
definition ENOTEMPTY :: int where [errno_defs]: "ENOTEMPTY = - 39"
definition ELOOP :: int where [errno_defs]: "ELOOP = - 40"
definition NAME_MAX :: nat where "NAME_MAX = 14"
definition PATH_MAX :: nat where "PATH_MAX = 255"
definition DIR_ENTRY_SIZE :: nat where "DIR_ENTRY_SIZE = 16"
definition NR_DIR_ENTRIES :: nat where "NR_DIR_ENTRIES = 64"

datatype dir_flag = LOOK_UP | ENTER | DELETE | IS_EMPTY

datatype name = Comp "8 word list" | Dot1 | Dot2

fun chars :: "name \<Rightarrow> 8 word list" where
  "chars (Comp cs) = cs"
| "chars Dot1 = [0x2E]"
| "chars Dot2 = [0x2E, 0x2E]"

section \<open>Entries\<close>

definition d_ino :: "data \<Rightarrow> nat \<Rightarrow> 16 word" where
  "d_ino d i = get2 d (DIR_ENTRY_SIZE * i)"

definition d_name :: "data \<Rightarrow> nat \<Rightarrow> 8 word list" where
  "d_name d i = takeWhile (\<lambda>c. c \<noteq> 0) (map (\<lambda>j. d (DIR_ENTRY_SIZE * i + 2 + j)) [0 ..< NAME_MAX])"

text \<open>The bytes of a new entry: the name is padded with zeros.\<close>

definition put_slot :: "nat \<Rightarrow> 16 word \<Rightarrow> 8 word list \<Rightarrow> data \<Rightarrow> data" where
  "put_slot i ino cs d =
     set2 (DIR_ENTRY_SIZE * i) ino
       (\<lambda>p. if DIR_ENTRY_SIZE * i + 2 \<le> p \<and> p < DIR_ENTRY_SIZE * i + 2 + NAME_MAX
            then (let j = p - (DIR_ENTRY_SIZE * i + 2) in if j < length cs then cs ! j else 0) else d p)"

text \<open>Deleting keeps the inode number in the last two characters of the name.\<close>

definition clear_slot :: "nat \<Rightarrow> data \<Rightarrow> data" where
  "clear_slot i d = set2 (DIR_ENTRY_SIZE * i) 0 (set2 (DIR_ENTRY_SIZE * i + 2 + (NAME_MAX - 2)) (d_ino d i) d)"

section \<open>Searching\<close>

text \<open>How the pass over a block ends: a match, room for a new entry, or neither.\<close>

datatype slot_end = Match nat | Room nat | Searched

fun scan_slots :: "dir_flag \<Rightarrow> 8 word list \<Rightarrow> nat \<Rightarrow> data \<Rightarrow> nat list \<Rightarrow> nat \<Rightarrow> slot_end \<times> nat" where
  "scan_slots flg cs old d [] new = (Searched, new)"
| "scan_slots flg cs old d (i # rest) new =
     (if new + 1 > old then (if flg = ENTER then Room i else Searched, new + 1)
      else if flg \<noteq> ENTER \<and> d_ino d i \<noteq> 0
              \<and> (if flg = IS_EMPTY then d_name d i \<noteq> chars Dot1 \<and> d_name d i \<noteq> chars Dot2 else d_name d i = cs)
      then (Match i, new + 1)
      else if flg = ENTER \<and> d_ino d i = 0 then (Room i, new + 1)
      else scan_slots flg cs old d rest (new + 1))"

text \<open>The pass over the blocks; when it ends at a slot the block is still in use.\<close>

fun scan_blocks ::
  "(nat \<Rightarrow> int) \<Rightarrow> nat \<Rightarrow> dir_flag \<Rightarrow> 8 word list \<Rightarrow> nat \<Rightarrow> nat list \<Rightarrow> nat \<Rightarrow> fs
   \<Rightarrow> ((nat \<times> slot_end) option \<times> nat \<times> fs) outcome option" where
  "scan_blocks io rip flg cs old [] new s = Some (Ret (None, new, s))"
| "scan_blocks io rip flg cs old (k # ks) new s =
     and_then (read_map io rip (word_of_nat (k * 1024)) s)
       (\<lambda>(b, s1). and_then (get_block io (i_dev (inode s1 rip)) b NORMAL (fs_cache s1))
          (\<lambda>(bp, c).
             case scan_slots flg cs old (b_data (buf c bp)) [0 ..< NR_DIR_ENTRIES] new of
               (Searched, n) \<Rightarrow> scan_blocks io rip flg cs old ks n (s1\<lparr>fs_cache := put_block io (Some bp) DIRECTORY_BLOCK c\<rparr>)
             | (r, n) \<Rightarrow> Some (Ret (Some (bp, r), n, s1\<lparr>fs_cache := c\<rparr>))))"

definition dir_changed :: "nat \<Rightarrow> fs \<Rightarrow> fs" where
  "dir_changed rip = upd_inode rip (\<lambda>r. r\<lparr>i_update := i_update r OR CTIME OR MTIME, i_dirt := True\<rparr>)"

definition native_of :: "nat \<Rightarrow> fs \<Rightarrow> bool" where
  "native_of rip s = s_native (super_blocks s (i_sp (inode s rip)))"

text \<open>What happens at the entry that was found; the second result is \<^verbatim>\<open>*numb\<close>.\<close>

definition dir_found :: "(nat \<Rightarrow> int) \<Rightarrow> nat \<Rightarrow> dir_flag \<Rightarrow> 16 word \<Rightarrow> nat \<Rightarrow> nat \<Rightarrow> fs \<Rightarrow> int \<times> 16 word \<times> fs" where
  "dir_found io rip flg numb bp i s =
     (let c = fs_cache s; d = b_data (buf c bp);
          s1 = (if flg = DELETE
                then dir_changed rip (s\<lparr>fs_cache := upd_buf bp (\<lambda>b. b\<lparr>b_data := clear_slot i d, b_dirt := True\<rparr>) c\<rparr>) else s)
      in (if flg = IS_EMPTY then ENOTEMPTY else OK,
          if flg = LOOK_UP then conv2h (native_of rip s) (d_ino d i) else numb,
          s1\<lparr>fs_cache := put_block io (Some bp) DIRECTORY_BLOCK (fs_cache s1)\<rparr>))"

definition dir_enter ::
  "(nat \<Rightarrow> int) \<Rightarrow> 32 word \<Rightarrow> nat \<Rightarrow> 8 word list \<Rightarrow> 16 word \<Rightarrow> nat \<Rightarrow> nat \<Rightarrow> nat \<Rightarrow> nat \<Rightarrow> bool \<Rightarrow> fs \<Rightarrow> (int \<times> 16 word \<times> fs) outcome option" where
  "dir_enter io now rip cs numb bp i new old extended s =
     (let c = fs_cache s; d = b_data (buf c bp);
          c1 = upd_buf bp (\<lambda>b. b\<lparr>b_data := put_slot i (conv2h (native_of rip s) numb) cs d, b_dirt := True\<rparr>) c;
          s1 = dir_changed rip (s\<lparr>fs_cache := put_block io (Some bp) DIRECTORY_BLOCK c1\<rparr>)
      in if new > old
         then
           let s2 = upd_inode rip (i_size_update (\<lambda>_. word_of_nat new * word_of_nat DIR_ENTRY_SIZE)) s1
           in and_then (if extended then rw_inode io now rip False s2 else Some (Ret s2)) (\<lambda>s3. Some (Ret (OK, numb, s3)))
         else Some (Ret (OK, numb, s1)))"

text \<open>\<^verbatim>\<open>search_dir\<close> behind the checks; \<^verbatim>\<open>new_slots\<close> and \<^verbatim>\<open>old_slots\<close> count entries.\<close>

definition dir_pass ::
  "(nat \<Rightarrow> int) \<Rightarrow> 32 word \<Rightarrow> nat \<Rightarrow> 8 word list \<Rightarrow> 16 word \<Rightarrow> dir_flag \<Rightarrow> fs \<Rightarrow> (int \<times> 16 word \<times> fs) outcome option" where
  "dir_pass io now rip cs numb flg s =
     (let size = unat (i_size (inode s rip)); old = size div DIR_ENTRY_SIZE in
      and_then (scan_blocks io rip flg cs old [0 ..< (size + 1023) div 1024] 0 s)
        (\<lambda>(r, new, s1).
           case r of
             Some (bp, Match i) \<Rightarrow> Some (Ret (dir_found io rip flg numb bp i s1))
           | Some (bp, Room i) \<Rightarrow> dir_enter io now rip cs numb bp i new old False s1
           | _ \<Rightarrow>
               if flg \<noteq> ENTER then Some (Ret (if flg = IS_EMPTY then OK else ENOENT, numb, s1))
               else if (word_of_nat (new + 1) :: 32 word) = 0 then Some (Ret (EFBIG, numb, s1))
               else and_then (new_block io rip (i_size (inode s1 rip)) s1)
                      (\<lambda>(bpo, s2).
                         case bpo of
                           None \<Rightarrow> Some (Ret (err_code s2, numb, s2))
                         | Some bp \<Rightarrow> dir_enter io now rip cs numb bp 0 (new + 1) old True s2)))"

definition with_sys :: "('a \<times> 'b \<times> fs) outcome option \<Rightarrow> sys \<Rightarrow> ('a \<times> 'b \<times> sys) outcome option" where
  "with_sys r s = and_then r (\<lambda>(a, b, x). Some (Ret (a, b, s\<lparr>fsys := x\<rparr>)))"

text \<open>The checks: \<open>Dot1\<close> and \<open>Dot2\<close> need no permission, only a writable device.\<close>

definition dir_check :: "env \<Rightarrow> nat \<Rightarrow> name \<Rightarrow> dir_flag \<Rightarrow> sys \<Rightarrow> (int \<times> sys) outcome option" where
  "dir_check e ldir_ptr string flg s =
     (if i_mode (ino_of s ldir_ptr) AND I_TYPE \<noteq> I_DIRECTORY then Some (Ret (ENOTDIR, s))
      else if flg = IS_EMPTY then Some (Ret (OK, s))
      else if string = Dot1 \<or> string = Dot2 then Some (Ret (if flg \<noteq> LOOK_UP then read_only ldir_ptr s else OK, s))
      else forbidden e ldir_ptr (if flg = LOOK_UP then X_BIT else W_BIT OR X_BIT) s)"

definition search_dir :: "env \<Rightarrow> nat \<Rightarrow> name \<Rightarrow> 16 word \<Rightarrow> dir_flag \<Rightarrow> sys \<Rightarrow> (int \<times> 16 word \<times> sys) outcome option" where
  "search_dir e ldir_ptr string numb flg s =
     and_then (dir_check e ldir_ptr string flg s)
       (\<lambda>(r, s1).
          if r \<noteq> OK then Some (Ret (r, numb, s1))
          else with_sys (dir_pass (disk_io e) (time_now e) ldir_ptr (chars string) numb flg (fsys s1)) s1)"

end
