(* ===== verification/Fs_Path.thy ===== *)
theory Fs_Path
  imports Fs_Dir Fs_Rw
begin

unbundle bit_operations_syntax

text \<open>
  Names of files: \<^verbatim>\<open>fetch_name\<close> of \<^verbatim>\<open>src/src/fs/utility.c\<close> and the rest of \<^verbatim>\<open>path.c\<close>. A path is a position in
  \<^verbatim>\<open>user_path\<close>. The result \<open>None\<close> stands for a loop that does not end, a null pointer that is followed, and a write
  outside of an array (\<^verbatim>\<open>slink_traverse\<close> checks neither \<^verbatim>\<open>temp\<close> nor \<^verbatim>\<open>path\<close>, and reads a component of 14
  characters beyond its end).
\<close>

definition M1 :: int where "M1 = 1"
definition M3 :: int where "M3 = 3"
definition M3_STRING :: int where "M3_STRING = 14"
definition I_SYMBOLIC_LINK :: "16 word" where "I_SYMBOLIC_LINK = 0xA000"
definition SLASH :: "8 word" where "SLASH = 0x2F"

lemma and_then_mono [partial_function_mono]:
  assumes r: "mono_option r" and g: "\<And>y. mono_option (\<lambda>f. g y f)"
  shows "mono_option (\<lambda>f. and_then (r f) (\<lambda>y. g y f))"
proof -
  have "and_then (r f) (\<lambda>y. g y f) = Option.bind (r f) (\<lambda>x. case x of Ret y \<Rightarrow> g y f | Panic p \<Rightarrow> Some (Panic p))" for f
    by (auto simp: and_then_def split: option.split outcome.split)
  moreover have "mono_option (\<lambda>f. case x of Ret y \<Rightarrow> g y f | Panic p \<Rightarrow> Some (Panic p))" for x
    using g by (cases x) (simp_all add: option.const_mono)
  ultimately show ?thesis using bind_mono [OF r, of "\<lambda>x f. case x of Ret y \<Rightarrow> g y f | Panic p \<Rightarrow> Some (Panic p)"] by simp
qed

section \<open>Getting the name\<close>

text \<open>\<^verbatim>\<open>pathname\<close>, the string in the message: its bytes are those of the words from \<open>m_l1\<close> on.\<close>

definition pathname :: "mess \<Rightarrow> nat \<Rightarrow> 8 word" where
  "pathname m k =
     (if k < 4 then ucast (drop_bit (8 * (3 - k)) (m_l1 m)) else if k < 8 then ucast (drop_bit (8 * (7 - k)) (m_l2 m))
      else if k < 12 then ucast (drop_bit (8 * (11 - k)) (m_p1 m)) else ucast (drop_bit (8 * (13 - k)) (m_tail m)))"

text \<open>When the copy fails \<^verbatim>\<open>err_code\<close> is not set, although all callers return it.\<close>

definition fetch_name :: "env \<Rightarrow> 32 word \<Rightarrow> int \<Rightarrow> int \<Rightarrow> sys \<Rightarrow> int \<times> sys" where
  "fetch_name e path len flg s =
     (if len \<le> 0 then (EGENERIC, file_err EINVAL s)
      else if len > int PATH_MAX then (EGENERIC, file_err ENAMETOOLONG s)
      else if flg = M3 \<and> len \<le> M3_STRING
      then (OK, s\<lparr>user_path := (\<lambda>k. if k < nat len then pathname (mesg s) k else user_path s k)\<rparr>)
      else
        let r = user_copy e (who s) SEG_D path (nat len) in
        (r, if r = OK
            then s\<lparr>user_path := (\<lambda>k. if k < nat len then umem s (who s) SEG_D (path + word_of_nat k) else user_path s k)\<rparr> else s))"

section \<open>Components of a path\<close>

partial_function (option) skip_slashes :: "(nat \<Rightarrow> 8 word) \<Rightarrow> nat \<Rightarrow> nat option" where
  "skip_slashes mem rnp = (if mem rnp = SLASH then skip_slashes mem (rnp + 1) else Some rnp)"

text \<open>At most \<open>n\<close> characters of a component, at most \<open>n\<close> slashes.\<close>

fun name_end :: "(nat \<Rightarrow> 8 word) \<Rightarrow> nat \<Rightarrow> nat \<Rightarrow> nat" where
  "name_end mem 0 rnp = rnp"
| "name_end mem (Suc n) rnp = (if mem rnp \<noteq> SLASH \<and> mem rnp \<noteq> 0 then name_end mem n (rnp + 1) else rnp)"

fun slashes_end :: "(nat \<Rightarrow> 8 word) \<Rightarrow> nat \<Rightarrow> nat \<Rightarrow> nat" where
  "slashes_end mem 0 rnp = rnp"
| "slashes_end mem (Suc n) rnp = (if mem rnp = SLASH then slashes_end mem n (rnp + 1) else rnp)"

text \<open>The component and the rest of the path, or no rest when the name is too long.\<close>

definition get_name :: "(nat \<Rightarrow> 8 word) \<Rightarrow> nat \<Rightarrow> (8 word list \<times> nat option) option" where
  "get_name mem old_name =
     Option.bind (skip_slashes mem old_name)
       (\<lambda>rnp. let lim = old_name + PATH_MAX; stop = name_end mem (lim - rnp) rnp; rest = slashes_end mem (lim - stop) stop
              in Some (take NAME_MAX (map mem [rnp ..< stop]), if rest \<ge> lim then None else Some rest))"

section \<open>One step along a path\<close>

definition iget :: "env \<Rightarrow> int \<Rightarrow> 16 word \<Rightarrow> sys \<Rightarrow> (nat option \<times> sys) outcome option" where
  "iget e dev numb s = and_then (get_inode (disk_io e) (time_now e) dev numb (fsys s)) (\<lambda>(r, x). Some (Ret (r, s\<lparr>fsys := x\<rparr>)))"

definition iput :: "env \<Rightarrow> nat option \<Rightarrow> sys \<Rightarrow> sys outcome option" where
  "iput e ripo s = in_fs (put_inode (disk_io e) (time_now e) ripo) s"

definition idup :: "nat \<Rightarrow> sys \<Rightarrow> sys" where
  "idup rip s = s\<lparr>fsys := dup_inode rip (fsys s)\<rparr>"

text \<open>The loop that goes down to the root of a mounted file system.\<close>

partial_function (option) to_mounted :: "env \<Rightarrow> nat option \<Rightarrow> sys \<Rightarrow> (nat option \<times> sys) outcome option" where
  "to_mounted e ripo s =
     (case ripo of
        None \<Rightarrow> Some (Ret (None, s))
      | Some rip \<Rightarrow>
          if \<not> i_mount (ino_of s rip) then Some (Ret (Some rip, s))
          else
            case List.find (\<lambda>i. s_imount (super_blocks (fsys s) i) = Some rip) [0 ..< NR_SUPERS] of
              None \<Rightarrow> to_mounted e ripo s
            | Some i \<Rightarrow>
                and_then (iput e (Some rip) s)
                  (\<lambda>s1. and_then (iget e (s_dev (super_blocks (fsys s1) i)) ROOT_INODE s1) (\<lambda>(r, s2). to_mounted e r s2)))"

text \<open>\<^verbatim>\<open>string[1] == '.'\<close>\<close>

definition dot_second :: "name \<Rightarrow> bool" where
  "dot_second string \<longleftrightarrow> length (chars string) > 1 \<and> chars string ! 1 = 0x2E"

text \<open>The super block of the device that \<open>rip\<close> is the root of, when a step goes up from the root of a mounted device.\<close>

definition going_up :: "nat \<Rightarrow> nat \<Rightarrow> name \<Rightarrow> sys \<Rightarrow> nat option" where
  "going_up dirp rip string s =
     (if i_num (ino_of s rip) = ROOT_INODE \<and> i_num (ino_of s dirp) = ROOT_INODE \<and> dot_second string
      then List.find (\<lambda>i. s_dev (super_blocks (fsys s) i) = i_dev (ino_of s rip)) [1 ..< NR_SUPERS] else None)"

partial_function (option) advance :: "env \<Rightarrow> nat \<Rightarrow> name \<Rightarrow> sys \<Rightarrow> (nat option \<times> sys) outcome option" where
  "advance e dirp string s =
     (let same = iget e (i_dev (ino_of s dirp)) (i_num (ino_of s dirp)) in
      if chars string = [] then same s
      else
        and_then (search_dir e dirp string 0 LOOK_UP s)
          (\<lambda>(r, numb, s1).
             if r \<noteq> OK then Some (Ret (None, file_err r s1))
             else if fp_rootdir (fproc s1 (fp s1)) = Some dirp \<and> chars string = chars Dot2 \<and> string \<noteq> Dot2 then same s1
             else
               and_then (iget e (i_dev (ino_of s1 dirp)) numb s1)
                 (\<lambda>(ripo, s2).
                    case ripo of
                      None \<Rightarrow> Some (Ret (None, s2))
                    | Some rip \<Rightarrow>
                        (case going_up dirp rip string s2 of
                           None \<Rightarrow> to_mounted e (Some rip) s2
                         | Some i \<Rightarrow>
                             and_then (iput e (Some rip) s2)
                               (\<lambda>s3.
                                  case s_imount (super_blocks (fsys s3) i) of
                                    None \<Rightarrow> None
                                  | Some mp \<Rightarrow>
                                      and_then (iget e (i_dev (ino_of s3 mp)) (i_num (ino_of s3 mp)) s3)
                                        (\<lambda>(rip2, s4).
                                           case rip2 of
                                             None \<Rightarrow> Some (Ret (None, s4))
                                           | Some r2 \<Rightarrow>
                                               and_then (advance e r2 string s4)
                                                 (\<lambda>(r3, s5). and_then (iput e (Some r2) s5) (to_mounted e r3))))))))"

section \<open>Symbolic links\<close>

text \<open>
  \<^verbatim>\<open>slink_traverse\<close> looks for the component \<^verbatim>\<open>string\<close> in the path again, to find out what follows it.
  \<open>next_slash\<close> is its inner loop to the next slash; \<open>link_pos\<close> is the search, with the position \<open>p\<close> in the
  path and \<open>q\<close> in the component, in the outer loop or, with \<^verbatim>\<open>old_path\<close>, in the inner one.
\<close>

partial_function (option) next_slash :: "(nat \<Rightarrow> 8 word) \<Rightarrow> nat \<Rightarrow> nat option" where
  "next_slash mem p = (if mem p = 0 then Some p else if mem (p + 1) = SLASH then Some (p + 1) else next_slash mem (p + 1))"

definition at :: "8 word list \<Rightarrow> nat \<Rightarrow> 8 word" where
  "at cs q = (if q < length cs then cs ! q else 0)"

partial_function (option) link_pos :: "(nat \<Rightarrow> 8 word) \<Rightarrow> 8 word list \<Rightarrow> nat option \<Rightarrow> nat \<Rightarrow> nat \<Rightarrow> nat option" where
  "link_pos mem cs old_path p q =
     (if at cs q = 0 then Some p
      else
        case old_path of
          None \<Rightarrow>
            Option.bind (skip_slashes mem p)
              (\<lambda>p1. if mem p1 \<noteq> at cs q
                    then Option.bind (next_slash mem p1) (\<lambda>p2. if mem p2 = 0 then Some p2 else link_pos mem cs None p2 q)
                    else link_pos mem cs (Some p1) p1 q)
        | Some old \<Rightarrow>
            if at cs (q + 1) = 0 then Some (p + 1)
            else if mem (p + 1) \<noteq> at cs (q + 1)
            then Option.bind (next_slash mem old)
                   (\<lambda>p2. if mem p2 = 0 then link_pos mem cs None p2 (q + 1) else link_pos mem cs (Some old) p2 0)
            else link_pos mem cs (Some old) (p + 1) (q + 1))"

partial_function (option) c_string :: "(nat \<Rightarrow> 8 word) \<Rightarrow> nat \<Rightarrow> 8 word list option" where
  "c_string mem p = (if mem p = 0 then Some [] else Option.bind (c_string mem (p + 1)) (\<lambda>cs. Some (mem p # cs)))"

text \<open>
  The new path: what the link holds and then what follows the component. \<^verbatim>\<open>path.c\<close> does not test any length: a
  name of 14 characters has no end in \<^verbatim>\<open>string\<close>, and a contents or a new path of \<^verbatim>\<open>PATH_MAX\<close> or more overruns \<^verbatim>\<open>temp\<close> or
  the path's buffer. There the behaviour of the code is undefined, and the value is None, as for a search that never ends.
\<close>

definition link_path :: "(nat \<Rightarrow> 8 word) \<Rightarrow> nat \<Rightarrow> 8 word list \<Rightarrow> 8 word list \<Rightarrow> (nat \<Rightarrow> 8 word) option" where
  "link_path mem path cs target =
     (if length cs \<ge> NAME_MAX then None
      else
        Option.bind (link_pos mem cs None path 0)
          (\<lambda>p. Option.bind (c_string mem p)
             (\<lambda>rest. let temp = takeWhile (\<lambda>c. c \<noteq> 0) target @ rest in
                     if length target \<ge> PATH_MAX \<or> length temp \<ge> PATH_MAX \<or> path + length temp \<ge> PATH_MAX then None
                     else Some (\<lambda>k. if path \<le> k \<and> k \<le> path + length temp then at temp (k - path) else mem k))))"

definition slink_traverse :: "env \<Rightarrow> nat \<Rightarrow> nat \<Rightarrow> 8 word list \<Rightarrow> nat \<Rightarrow> sys \<Rightarrow> (nat \<times> sys) outcome option" where
  "slink_traverse e rip path cs ldip s =
     and_then (read_map (disk_io e) rip 0 (fsys s))
       (\<lambda>(b, x). and_then (get_block (disk_io e) (i_dev (inode x rip)) b NORMAL (fs_cache x))
          (\<lambda>(bp, c).
             let target = map (b_data (buf c bp)) [0 ..< unat (i_size (inode x rip))];
                 s1 = s\<lparr>fsys := x\<lparr>fs_cache := put_block (disk_io e) (Some bp) INODE_BLOCK c\<rparr>\<rparr>
             in case link_path (user_path s1) path cs target of
                  None \<Rightarrow> None
                | Some mem \<Rightarrow>
                    and_then (iput e (Some rip) (s1\<lparr>user_path := mem\<rparr>))
                      (\<lambda>s2. case (if mem path = SLASH then fp_rootdir (fproc s2 (fp s2)) else Some ldip) of
                              None \<Rightarrow> None
                            | Some r \<Rightarrow> Some (Ret (r, idup r s2)))))"

definition is_link :: "nat \<Rightarrow> sys \<Rightarrow> bool" where
  "is_link rip s \<longleftrightarrow> i_mode (ino_of s rip) AND I_TYPE = I_SYMBOLIC_LINK"

section \<open>Walking a path\<close>

text \<open>The loop of \<^verbatim>\<open>last_dir\<close>: the directory, the last component and the state.\<close>

partial_function (option) walk :: "env \<Rightarrow> nat \<Rightarrow> nat \<Rightarrow> nat \<Rightarrow> sys \<Rightarrow> (nat option \<times> 8 word list \<times> sys) outcome option" where
  "walk e rip path loops s =
     (let fail = (\<lambda>s. and_then (iput e (Some rip) s) (\<lambda>s1. Some (Ret (None, [], s1)))) in
      case get_name (user_path s) path of
        None \<Rightarrow> None
      | Some (cs, None) \<Rightarrow> fail (file_err ENAMETOOLONG s)
      | Some (cs, Some new_name) \<Rightarrow>
          if user_path s new_name = 0 then
            if i_mode (ino_of s rip) AND I_TYPE = I_DIRECTORY then Some (Ret (Some rip, cs, s))
            else and_then (iput e (Some rip) s) (\<lambda>s1. Some (Ret (None, [], file_err ENOTDIR s1)))
          else
            and_then (advance e rip (Comp cs) s)
              (\<lambda>(ipo, s1).
                 case ipo of
                   None \<Rightarrow> fail s1
                 | Some new_ip \<Rightarrow>
                     if is_link new_ip s1 then
                       if loops + 1 > 8 then
                         and_then (iput e (Some rip) (file_err ELOOP s1))
                           (\<lambda>s2. and_then (iput e (Some new_ip) s2) (\<lambda>s3. Some (Ret (None, [], s3))))
                       else
                         and_then (slink_traverse e new_ip path cs rip s1)
                           (\<lambda>(ip, s2). and_then (iput e (Some rip) s2) (walk e ip path (loops + 1)))
                     else and_then (iput e (Some rip) s1) (walk e new_ip new_name loops)))"

definition last_dir :: "env \<Rightarrow> nat \<Rightarrow> sys \<Rightarrow> (nat option \<times> 8 word list \<times> sys) outcome option" where
  "last_dir e path s =
     (let p = fproc s (fp s) in
      case (if user_path s path = SLASH then fp_rootdir p else fp_workdir p) of
        None \<Rightarrow> None
      | Some rip \<Rightarrow>
          if i_nlinks (ino_of s rip) = 0 \<or> user_path s path = 0 then Some (Ret (None, [], file_err ENOENT s))
          else walk e rip path 0 (idup rip s))"

definition chdir_to :: "nat option \<Rightarrow> sys \<Rightarrow> sys" where
  "chdir_to d s = upd_fproc (fp s) (fp_workdir_update (\<lambda>_. d)) s"

text \<open>
  The loop of \<^verbatim>\<open>eat_path\<close>; \<open>left\<close> links may still be followed, \<open>old\<close> is \<^verbatim>\<open>old_workdir_ip\<close>. For the path \<^verbatim>\<open>/\<close> the
  working directory is not set back.
\<close>

fun eat_loop :: "env \<Rightarrow> nat \<Rightarrow> nat option \<Rightarrow> nat \<Rightarrow> sys \<Rightarrow> (nat option \<times> sys) outcome option" where
  "eat_loop e path old left s =
     and_then (last_dir e path s)
       (\<lambda>(ldipo, cs, s1).
          case ldipo of
            None \<Rightarrow> Some (Ret (None, chdir_to old s1))
          | Some ldip \<Rightarrow>
              if cs = [] then Some (Ret (Some ldip, s1))
              else
                and_then (advance e ldip (Comp cs) s1)
                  (\<lambda>(ripo, s2).
                     case ripo of
                       None \<Rightarrow> and_then (iput e (Some ldip) s2) (\<lambda>s3. Some (Ret (None, chdir_to old s3)))
                     | Some rip \<Rightarrow>
                         if \<not> is_link rip s2 then and_then (iput e (Some ldip) s2) (\<lambda>s3. Some (Ret (Some rip, chdir_to old s3)))
                         else
                           case left of
                             0 \<Rightarrow>
                               and_then (iput e (Some rip) s2)
                                 (\<lambda>s3. and_then (iput e (Some ldip) s3) (\<lambda>s4. Some (Ret (None, file_err ELOOP (chdir_to old s4)))))
                           | Suc n \<Rightarrow>
                               and_then (slink_traverse e rip path cs ldip s2)
                                 (\<lambda>(ip, s3). and_then (iput e (Some ip) (chdir_to (Some ip) s3))
                                    (\<lambda>s4. and_then (iput e (Some ldip) s4) (eat_loop e path old n)))))"

definition eat_path :: "env \<Rightarrow> nat \<Rightarrow> sys \<Rightarrow> (nat option \<times> sys) outcome option" where
  "eat_path e path s = eat_loop e path (fp_workdir (fproc s (fp s))) 8 s"

end
