(* ===== verification/Fs_Names.thy ===== *)
theory Fs_Names
  imports Fs_Path
begin

unbundle bit_operations_syntax

text \<open>
  The calls that take names of files: \<^verbatim>\<open>src/src/fs/link.c\<close>, \<^verbatim>\<open>open.c\<close>, \<^verbatim>\<open>mount.c\<close>, \<^verbatim>\<open>stadir.c\<close>, \<^verbatim>\<open>protect.c\<close> and \<^verbatim>\<open>time.c\<close>.
  Parameters come from the message \<open>mesg\<close>, by the names of \<^verbatim>\<open>param.h\<close>: \<^verbatim>\<open>name\<close> and its length are \<open>m_i3\<close> and \<open>m_i1\<close>, \<^verbatim>\<open>name1\<close> and
  \<^verbatim>\<open>name2\<close> are \<open>m_l1\<close> and \<open>m_l2\<close> with their lengths in \<open>m_i1\<close> and \<open>m_i2\<close>, \<^verbatim>\<open>mode\<close> is \<open>m_i2\<close>. The array \<^verbatim>\<open>user_path\<close> starts at position 0.
\<close>

definition LINK_MAX :: nat where "LINK_MAX = 127"
definition UNLINK :: int where "UNLINK = 10"
definition ENOTBLK :: int where [errno_defs]: "ENOTBLK = - 15"
definition EBUSY :: int where [errno_defs]: "EBUSY = - 16"
definition O_CREAT :: "32 word" where "O_CREAT = 0x40"
definition O_EXCL :: "32 word" where "O_EXCL = 0x80"
definition O_TRUNC :: "32 word" where "O_TRUNC = 0x200"
definition I_SET_UID_BIT :: "16 word" where "I_SET_UID_BIT = 0x800"
definition I_SET_GID_BIT :: "16 word" where "I_SET_GID_BIT = 0x400"
definition SAME :: int where "SAME = 1000"

type_synonym call = "sys \<Rightarrow> (int \<times> sys) outcome option"

section \<open>Common beginnings and ends\<close>

text \<open>\<^verbatim>\<open>return(err_code)\<close>\<close>

definition erring :: call where "erring s = Some (Ret (err_code (fsys s), s))"

text \<open>The inodes are released one after the other, then the result is returned.\<close>

fun finish :: "env \<Rightarrow> nat option list \<Rightarrow> int \<Rightarrow> call" where
  "finish e [] r s = Some (Ret (r, s))"
| "finish e (ripo # rips) r s = and_then (iput e ripo s) (finish e rips r)"

definition with_name :: "env \<Rightarrow> 32 word \<Rightarrow> int \<Rightarrow> int \<Rightarrow> call \<Rightarrow> call" where
  "with_name e path len flg k s = (let (r, s1) = fetch_name e path len flg s in if r \<noteq> OK then erring s1 else k s1)"

definition name_arg :: "sys \<Rightarrow> 32 word" where "name_arg s = word_of_int (m_i3 (mesg s))"

text \<open>The name is fetched and its inode, or its last directory, is found.\<close>

definition with_file :: "env \<Rightarrow> 32 word \<Rightarrow> int \<Rightarrow> int \<Rightarrow> (nat \<Rightarrow> call) \<Rightarrow> call" where
  "with_file e path len flg k =
     with_name e path len flg
       (\<lambda>s. and_then (eat_path e 0 s) (\<lambda>(ripo, s1). case ripo of None \<Rightarrow> erring s1 | Some rip \<Rightarrow> k rip s1))"

definition with_dir :: "env \<Rightarrow> 32 word \<Rightarrow> int \<Rightarrow> int \<Rightarrow> (nat \<Rightarrow> 8 word list \<Rightarrow> call) \<Rightarrow> call" where
  "with_dir e path len flg k =
     with_name e path len flg
       (\<lambda>s. and_then (last_dir e 0 s) (\<lambda>(dirpo, string, s1). case dirpo of None \<Rightarrow> erring s1 | Some dirp \<Rightarrow> k dirp string s1))"

definition is_dir :: "nat \<Rightarrow> sys \<Rightarrow> bool" where
  "is_dir rip s \<longleftrightarrow> i_mode (ino_of s rip) AND I_TYPE = I_DIRECTORY"

section \<open>Protection (protect.c)\<close>

definition do_chmod :: "env \<Rightarrow> call" where
  "do_chmod e s =
     with_file e (name_arg s) (m_i1 (mesg s)) M3
       (\<lambda>rip s.
          let p = fproc s (fp s);
              r = (if i_uid (ino_of s rip) \<noteq> fp_effuid p \<and> \<not> super_user s then EPERM else read_only rip s)
          in if r \<noteq> OK then finish e [Some rip] r s
             else
               finish e [Some rip] OK
                 (upd_ino rip
                    (\<lambda>i. let mo = (i_mode i AND NOT ALL_MODES) OR (word_of_int (m_i2 (mesg s)) AND ALL_MODES) in
                         i\<lparr>i_mode := (if \<not> super_user s \<and> i_gid i \<noteq> fp_effgid p then mo AND NOT I_SET_GID_BIT else mo),
                           i_update := i_update i OR CTIME, i_dirt := True\<rparr>) s)) s"

definition do_chown :: "env \<Rightarrow> call" where
  "do_chown e s =
     with_file e (m_l1 (mesg s)) (m_i1 (mesg s)) M1
       (\<lambda>rip s.
          let p = fproc s (fp s); owner = m_i2 (mesg s); group = m_i3 (mesg s); i = ino_of s rip;
              r = (if read_only rip s \<noteq> OK then read_only rip s
                   else if super_user s then OK
                   else if i_uid i \<noteq> fp_effuid p \<or> sint (i_uid i) \<noteq> owner \<or> sint (fp_effgid p) \<noteq> group then EPERM else OK);
              s1 = (if read_only rip s = OK \<and> super_user s then upd_ino rip (i_uid_update (\<lambda>_. word_of_int owner)) s else s);
              s2 = (if r = OK
                    then upd_ino rip (\<lambda>i. i\<lparr>i_gid := word_of_int group, i_mode := i_mode i AND NOT (I_SET_UID_BIT OR I_SET_GID_BIT),
                                            i_update := i_update i OR CTIME, i_dirt := True\<rparr>) s1
                    else s1)
          in finish e [Some rip] r s2) s"

definition do_access :: "env \<Rightarrow> call" where
  "do_access e s =
     (let mode = m_i2 (mesg s) in
      if mode AND NOT 7 \<noteq> 0 \<and> mode \<noteq> 0 then Some (Ret (EINVAL, s))
      else with_file e (name_arg s) (m_i1 (mesg s)) M3
             (\<lambda>rip s. and_then (forbidden e rip (word_of_int mode) s) (\<lambda>(r, s1). finish e [Some rip] r s1)) s)"

section \<open>Times (time.c)\<close>

definition do_utime :: "env \<Rightarrow> call" where
  "do_utime e s =
     (let len = m_i1 (mesg s) in
      with_file e (m_p1 (mesg s)) (if len = 0 then m_i2 (mesg s) else len) M1
        (\<lambda>rip s.
           let r0 = (if i_uid (ino_of s rip) \<noteq> fp_effuid (fproc s (fp s)) \<and> \<not> super_user s then EPERM else OK) in
           and_then (if len = 0 \<and> r0 \<noteq> OK then forbidden e rip W_BIT s else Some (Ret (r0, s)))
             (\<lambda>(r1, s1).
                let r = (if read_only rip s1 \<noteq> OK then EROFS else r1);
                    (a, mo) = (if len = 0 then (time_now e, time_now e) else (m_l1 (mesg s1), m_l2 (mesg s1)))
                in finish e [Some rip] r
                     (if r = OK then upd_ino rip (\<lambda>i. i\<lparr>i_atime := a, i_mtime := mo, i_update := CTIME, i_dirt := True\<rparr>) s1 else s1))) s)"

definition do_tims :: "env \<Rightarrow> sys \<Rightarrow> int \<times> sys" where
  "do_tims e s =
     (let t = proc_times e (who s) in
      (OK, s\<lparr>reply_mess := (reply_mess s)\<lparr>m_i1 := sint (t 0), m_i2 := sint (t 1), m_i3 := sint (t 2), m_l1 := t 3, m_l2 := t 4\<rparr>\<rparr>))"

section \<open>Status and directories (stadir.c)\<close>

text \<open>
  \<^verbatim>\<open>change\<close>: which of the two directories of the caller is meant is given by how it is read and how it is set. The pointer is
  read after the path has been walked.
\<close>

definition change :: "env \<Rightarrow> (fproc \<Rightarrow> nat option) \<Rightarrow> (nat option \<Rightarrow> fproc \<Rightarrow> fproc) \<Rightarrow> 32 word \<Rightarrow> int \<Rightarrow> call" where
  "change e dir set_dir name_ptr len =
     with_file e name_ptr len M3
       (\<lambda>rip s.
          and_then (if \<not> is_dir rip s then Some (Ret (ENOTDIR, s)) else forbidden e rip X_BIT s)
            (\<lambda>(r, s1).
               if r \<noteq> OK then finish e [Some rip] r s1
               else and_then (iput e (dir (fproc s1 (fp s1))) s1) (\<lambda>s2. Some (Ret (OK, upd_fproc (fp s2) (set_dir (Some rip)) s2)))))"

text \<open>A directory of MM is replaced by that of process \<open>p\<close>; its use is counted.\<close>

definition take_dir :: "env \<Rightarrow> (fproc \<Rightarrow> nat option) \<Rightarrow> (nat option \<Rightarrow> fproc \<Rightarrow> fproc) \<Rightarrow> int \<Rightarrow> sys \<Rightarrow> sys outcome option" where
  "take_dir e dir set_dir p s =
     and_then (iput e (dir (fproc s (fp s))) s)
       (\<lambda>s1. case dir (fproc s1 p) of
               None \<Rightarrow> None
             | Some rip \<Rightarrow> Some (Ret (idup rip (upd_fproc (fp s1) (set_dir (Some rip)) s1))))"

abbreviation set_rootdir :: "nat option \<Rightarrow> fproc \<Rightarrow> fproc" where "set_rootdir d \<equiv> fp_rootdir_update (\<lambda>_. d)"
abbreviation set_workdir :: "nat option \<Rightarrow> fproc \<Rightarrow> fproc" where "set_workdir d \<equiv> fp_workdir_update (\<lambda>_. d)"

definition do_chdir :: "env \<Rightarrow> call" where
  "do_chdir e s =
     (if who s = MM_PROC_NR
      then
        let p = m_i1 (mesg s) in
        and_then (and_then (take_dir e fp_rootdir set_rootdir p s) (take_dir e fp_workdir set_workdir p))
          (\<lambda>s1. let r = fproc s1 p in
                Some (Ret (OK, upd_fproc (fp s1) (\<lambda>x. x\<lparr>fp_realuid := fp_effuid r, fp_effuid := fp_effuid r, fp_realgid := fp_effgid r,
                                                        fp_effgid := fp_effgid r, fp_umask := fp_umask r\<rparr>) s1)))
      else change e fp_workdir set_workdir (name_arg s) (m_i1 (mesg s)) s)"

definition do_chroot :: "env \<Rightarrow> call" where
  "do_chroot e s =
     (if \<not> super_user s then Some (Ret (EPERM, s)) else change e fp_rootdir set_rootdir (name_arg s) (m_i1 (mesg s)) s)"

text \<open>\<^verbatim>\<open>statbuf\<close>, from the inode after its times have been updated.\<close>

definition statbuf :: "inode \<Rightarrow> filp option \<Rightarrow> stat" where
  "statbuf i fil_ptr =
     (let mo = i_mode i AND I_TYPE in
      \<lparr>st_dev = i_dev i, st_ino = i_num i, st_mode = (if i_pipe i then i_mode i AND NOT I_REGULAR else i_mode i), st_nlink = uint (i_nlinks i),
       st_uid = i_uid i, st_gid = uint (i_gid i),
       st_rdev = (if mo = I_CHAR_SPECIAL \<or> mo = I_BLOCK_SPECIAL then dev_of (i_zone i 0) else NO_DEV),
       st_size = (case fil_ptr of Some q \<Rightarrow> if i_pipe i \<and> has (filp_mode q) R_BIT then i_size i - filp_pos q else i_size i | None \<Rightarrow> i_size i),
       st_atime = i_atime i, st_mtime = i_mtime i, st_ctime = i_ctime i\<rparr>)"

definition stat_inode :: "env \<Rightarrow> nat \<Rightarrow> nat option \<Rightarrow> 32 word \<Rightarrow> sys \<Rightarrow> int \<times> sys" where
  "stat_inode e rip fil_ptr user_addr s =
     (let s1 = (if i_update (ino_of s rip) \<noteq> 0 then s\<lparr>fsys := update_times (time_now e) rip (fsys s)\<rparr> else s);
          st = statbuf (ino_of s1 rip) (map_option (filp s1) fil_ptr);
          r = copy_status e (who s1) user_addr
      in (r, if r = OK then s1\<lparr>sent := sent s1 @ [Copy_stat (who s1) user_addr st]\<rparr> else s1))"

definition do_stat :: "env \<Rightarrow> call" where
  "do_stat e s =
     with_file e (m_l1 (mesg s)) (m_i1 (mesg s)) M1
       (\<lambda>rip s. let (r, s1) = stat_inode e rip None (m_l2 (mesg s)) s in finish e [Some rip] r s1) s"

definition do_fstat :: "env \<Rightarrow> call" where
  "do_fstat e s =
     (case get_filp (m_i1 (mesg s)) s of
        (None, s1) \<Rightarrow> erring s1
      | (Some f, s1) \<Rightarrow> Some (Ret (stat_inode e (filp_ino (filp s1 f)) (Some f) (m_l1 (mesg s1)) s1)))"

text \<open>The file itself, also when it is a symbolic link.\<close>

definition with_last :: "env \<Rightarrow> 32 word \<Rightarrow> int \<Rightarrow> (nat \<Rightarrow> call) \<Rightarrow> call" where
  "with_last e path len k =
     with_dir e path len M1
       (\<lambda>ldip string s.
          and_then (advance e ldip (Comp string) s)
            (\<lambda>(ripo, s1). and_then (iput e (Some ldip) s1) (\<lambda>s2. case ripo of None \<Rightarrow> erring s2 | Some rip \<Rightarrow> k rip s2)))"

definition do_lstat :: "env \<Rightarrow> call" where
  "do_lstat e s =
     with_last e (m_l1 (mesg s)) (m_i1 (mesg s))
       (\<lambda>rip s. let (r, s1) = stat_inode e rip None (m_l2 (mesg s)) s in finish e [Some rip] r s1) s"

text \<open>The result of the copy is not looked at; \<^verbatim>\<open>bufsiz\<close> is \<open>m_i2\<close>.\<close>

definition do_rdlink :: "env \<Rightarrow> call" where
  "do_rdlink e s =
     with_last e (m_l1 (mesg s)) (m_i1 (mesg s))
       (\<lambda>rip s.
          if \<not> is_link rip s then finish e [Some rip] EINVAL s
          else
            and_then (read_map (disk_io e) rip 0 (fsys s))
              (\<lambda>(b, x). and_then (get_block (disk_io e) (i_dev (inode x rip)) b NORMAL (fs_cache x))
                 (\<lambda>(bp, c).
                    let buff = m_l2 (mesg s); len = unat (min (i_size (ino_of s rip)) (word_of_int (m_i2 (mesg s))));
                        s1 = (if user_copy e (who s) SEG_D buff len = OK
                              then s\<lparr>umem := (umem s)(who s := (umem s (who s))(SEG_D := copy_out_user 0 len buff (b_data (buf c bp)) (umem s (who s) SEG_D)))\<rparr>
                              else s)
                    in finish e [Some rip] (sint (i_size (inode x rip)))
                         (s1\<lparr>fsys := x\<lparr>fs_cache := put_block (disk_io e) (Some bp) INODE_BLOCK c\<rparr>\<rparr>)))) s"


section \<open>Links (link.c)\<close>

text \<open>Whether the last component is free in its directory: \<^verbatim>\<open>OK\<close> if it does not exist.\<close>

definition absent_there :: "env \<Rightarrow> nat \<Rightarrow> 8 word list \<Rightarrow> call" where
  "absent_there e ip string s =
     and_then (advance e ip (Comp string) s)
       (\<lambda>(newo, s1).
          case newo of
            None \<Rightarrow> Some (Ret (if err_code (fsys s1) = ENOENT then OK else err_code (fsys s1), s1))
          | Some new_ip \<Rightarrow> finish e [Some new_ip] EEXIST s1)"

text \<open>A search that does not look at \<^verbatim>\<open>*numb\<close>.\<close>

definition search_only :: "env \<Rightarrow> nat \<Rightarrow> name \<Rightarrow> 16 word \<Rightarrow> dir_flag \<Rightarrow> call" where
  "search_only e dirp string numb flg s = and_then (search_dir e dirp string numb flg s) (\<lambda>(r, _, s1). Some (Ret (r, s1)))"

definition do_link :: "env \<Rightarrow> call" where
  "do_link e s =
     with_file e (m_l1 (mesg s)) (m_i1 (mesg s)) M1
       (\<lambda>rip s.
          let r = (if unat (i_nlinks (ino_of s rip)) \<ge> LINK_MAX then EMLINK else if is_dir rip s \<and> \<not> super_user s then EPERM else OK);
              (r1, s1) = fetch_name e (m_l2 (mesg s)) (m_i2 (mesg s)) M1 s
          in if r \<noteq> OK then finish e [Some rip] r s
             else if r1 \<noteq> OK then and_then (iput e (Some rip) s1) erring
             else
               and_then (last_dir e 0 s1)
                 (\<lambda>(ipo, string, s2).
                    and_then
                      (case ipo of
                         None \<Rightarrow> if err_code (fsys s2) = OK then None else erring s2
                       | Some ip \<Rightarrow>
                           and_then (absent_there e ip string s2)
                             (\<lambda>(r, s3).
                                if r \<noteq> OK then Some (Ret (r, s3))
                                else if i_dev (ino_of s3 rip) \<noteq> i_dev (ino_of s3 ip) then Some (Ret (EXDEV, s3))
                                else
                                  and_then (search_only e ip (Comp string) (i_num (ino_of s3 rip)) ENTER s3)
                                    (\<lambda>(r, s4). Some (Ret (r,
                                       if r = OK then upd_ino rip (\<lambda>i. i\<lparr>i_nlinks := i_nlinks i + 1, i_update := i_update i OR CTIME, i_dirt := True\<rparr>) s4 else s4)))))
                      (\<lambda>(r, s5). finish e [Some rip, ipo] r s5))) s"

text \<open>\<^verbatim>\<open>unlink_file\<close>; without an inode the file is looked up.\<close>

definition unlink_file :: "env \<Rightarrow> nat \<Rightarrow> nat option \<Rightarrow> name \<Rightarrow> call" where
  "unlink_file e dirp ripo file_name s =
     and_then
       (case ripo of
          Some rip \<Rightarrow> Some (Ret (Some rip, idup rip s))
        | None \<Rightarrow>
            and_then (search_dir e dirp file_name 0 LOOK_UP s)
              (\<lambda>(err, numb, s1). if err = OK then iget e (i_dev (ino_of s1 dirp)) numb (file_err OK s1) else Some (Ret (None, file_err err s1))))
       (\<lambda>(rip1, s1).
          case rip1 of
            None \<Rightarrow> erring s1
          | Some rip \<Rightarrow>
              and_then (search_only e dirp file_name 0 DELETE s1)
                (\<lambda>(r, s2).
                   finish e [Some rip] r
                     (if r = OK then upd_ino rip (\<lambda>i. i\<lparr>i_nlinks := i_nlinks i - 1, i_update := i_update i OR CTIME, i_dirt := True\<rparr>) s2 else s2)))"

definition in_use_dir :: "nat \<Rightarrow> sys \<Rightarrow> bool" where
  "in_use_dir rip s \<longleftrightarrow>
     (\<exists>p \<in> set [INIT_PROC_NR + 1 .. NR_PROCS - 1]. fp_workdir (fproc s p) = Some rip \<or> fp_rootdir (fproc s p) = Some rip)"

definition dots_name :: "8 word list \<Rightarrow> bool" where
  "dots_name string \<longleftrightarrow> string = chars Dot1 \<or> string = chars Dot2"

definition remove_dir :: "env \<Rightarrow> nat \<Rightarrow> nat \<Rightarrow> 8 word list \<Rightarrow> call" where
  "remove_dir e rldirp rip dir_name s =
     and_then (search_only e rip (Comp []) 0 IS_EMPTY s)
       (\<lambda>(r, s1).
          if r \<noteq> OK then Some (Ret (r, s1))
          else if dots_name dir_name then Some (Ret (EINVAL, s1))
          else if i_num (ino_of s1 rip) = ROOT_INODE then Some (Ret (EBUSY, s1))
          else if in_use_dir rip s1 then Some (Ret (EBUSY, s1))
          else
            and_then (unlink_file e rldirp (Some rip) (Comp dir_name) s1)
              (\<lambda>(r, s2).
                 if r \<noteq> OK then Some (Ret (r, s2))
                 else
                   and_then (unlink_file e rip None Dot1 s2)
                     (\<lambda>(_, s3). and_then (unlink_file e rip None Dot2 s3) (\<lambda>(_, s4). Some (Ret (OK, s4))))))"

definition do_unlink :: "env \<Rightarrow> call" where
  "do_unlink e s =
     with_dir e (name_arg s) (m_i1 (mesg s)) M3
       (\<lambda>rldirp string s.
          and_then (advance e rldirp (Comp string) s)
            (\<lambda>(ripo, s1).
               case ripo of
                 None \<Rightarrow>
                   let r = err_code (fsys s1) in if r \<noteq> OK then finish e [Some rldirp] r s1 else None
               | Some rip \<Rightarrow>
                   if i_num (ino_of s1 rip) = ROOT_INODE then finish e [Some rldirp, Some rip] EBUSY s1
                   else
                     and_then
                       (if fs_call s1 = UNLINK
                        then if is_dir rip s1 \<and> \<not> super_user s1 then Some (Ret (EPERM, s1)) else unlink_file e rldirp (Some rip) (Comp string) s1
                        else remove_dir e rldirp rip string s1)
                       (\<lambda>(r, s2). finish e [Some rip, Some rldirp] r s2))) s"

text \<open>
  The loop of \<^verbatim>\<open>do_rename\<close> up to the root: whether \<open>old_ip\<close> is met. It may not end (\<open>None\<close>). The last inode is still in use.
\<close>

partial_function (option) superdirs :: "env \<Rightarrow> nat \<Rightarrow> nat \<Rightarrow> sys \<Rightarrow> ((nat option \<times> bool) \<times> sys) outcome option" where
  "superdirs e old_ip dirp s =
     (if dirp = old_ip then Some (Ret ((Some dirp, True), s))
      else
        and_then (advance e dirp Dot2 s)
          (\<lambda>(nexto, s1).
             and_then (iput e (Some dirp) s1)
               (\<lambda>s2.
                  case nexto of
                    None \<Rightarrow> Some (Ret ((None, True), s2))
                  | Some up \<Rightarrow> if up = dirp then Some (Ret ((Some up, False), s2)) else superdirs e old_ip up s2)))"

definition below :: "env \<Rightarrow> nat \<Rightarrow> nat \<Rightarrow> sys \<Rightarrow> (bool \<times> sys) outcome option" where
  "below e old_ip new_dirp s =
     and_then (superdirs e old_ip new_dirp (idup new_dirp s))
       (\<lambda>((lasto, found), s1). and_then (iput e lasto s1) (\<lambda>s2. Some (Ret (found, s2))))"

text \<open>All checks of \<^verbatim>\<open>do_rename\<close>; a later one overrides an earlier one.\<close>

definition rename_check :: "env \<Rightarrow> nat \<Rightarrow> nat \<Rightarrow> 8 word list \<Rightarrow> nat \<Rightarrow> nat option \<Rightarrow> 8 word list \<Rightarrow> call" where
  "rename_check e old_dirp old_ip old_name new_dirp newo new_name s =
     (let odir = is_dir old_ip s; same_pdir = (old_dirp = new_dirp) in
      and_then (if odir \<and> \<not> same_pdir then below e old_ip new_dirp s else Some (Ret (False, s)))
        (\<lambda>(found, s1).
           let r0 = (if found then EINVAL else OK);
               r1 = (if dots_name old_name \<or> dots_name new_name then EINVAL else r0);
               r2 = (if i_dev (ino_of s1 old_dirp) \<noteq> i_dev (ino_of s1 new_dirp) then EXDEV else r1)
           in and_then (forbidden e old_dirp (W_BIT OR X_BIT) s1)
                (\<lambda>(f1, s2). and_then (if f1 \<noteq> OK then Some (Ret (f1, s2)) else forbidden e new_dirp (W_BIT OR X_BIT) s2)
                   (\<lambda>(f2, s3).
                      let r3 = (if f2 \<noteq> OK then f2 else r2);
                          dev = (\<lambda>i. i_dev (ino_of s3 i));
                          r = (case newo of
                                 None \<Rightarrow>
                                   let r4 = (if dev old_ip \<noteq> dev old_dirp then EXDEV else r3) in
                                   if odir \<and> unat (i_nlinks (ino_of s3 new_dirp)) \<ge> LINK_MAX \<and> \<not> same_pdir \<and> r4 = OK then EMLINK else r4
                               | Some new_ip \<Rightarrow>
                                   let r4 = (if old_ip = new_ip then SAME else r3);
                                       r5 = (if dev old_ip \<noteq> dev new_ip then EXDEV else r4);
                                       ndir = is_dir new_ip s3
                                   in if odir \<and> \<not> ndir then ENOTDIR else if \<not> odir \<and> ndir then EISDIR else r5)
                      in Some (Ret (r, s3))))))"

text \<open>The entries are exchanged; results in parentheses are ignored by the source.\<close>

definition rename_move :: "env \<Rightarrow> nat \<Rightarrow> nat \<Rightarrow> 8 word list \<Rightarrow> nat \<Rightarrow> 8 word list \<Rightarrow> call" where
  "rename_move e old_dirp old_ip old_name new_dirp new_name s =
     (let numb = i_num (ino_of s old_ip) in
      if old_dirp = new_dirp then
        and_then (search_only e old_dirp (Comp old_name) 0 DELETE s)
          (\<lambda>(r, s1). if r \<noteq> OK then Some (Ret (r, s1))
                     else and_then (search_only e old_dirp (Comp new_name) numb ENTER s1) (\<lambda>(_, s2). Some (Ret (r, s2))))
      else
        and_then (search_only e new_dirp (Comp new_name) numb ENTER s)
          (\<lambda>(r, s1). if r \<noteq> OK then Some (Ret (r, s1))
                     else and_then (search_only e old_dirp (Comp old_name) 0 DELETE s1) (\<lambda>(_, s2). Some (Ret (r, s2)))))"

text \<open>The directory that has moved gets its new parent.\<close>

definition rename_parent :: "env \<Rightarrow> nat \<Rightarrow> nat \<Rightarrow> sys \<Rightarrow> sys outcome option" where
  "rename_parent e old_ip new_dirp s =
     (let numb = i_num (ino_of s new_dirp) in
      and_then (unlink_file e old_ip None Dot2 s)
        (\<lambda>(_, s1). and_then (search_only e old_ip Dot2 numb ENTER s1)
           (\<lambda>(r, s2). Some (Ret (if r = OK then upd_ino new_dirp (\<lambda>i. i\<lparr>i_nlinks := i_nlinks i + 1, i_dirt := True\<rparr>) s2 else s2)))))"

text \<open>
  \<^verbatim>\<open>do_rename\<close> goes on when the second name is bad; without a last directory \<^verbatim>\<open>advance\<close> returns a null pointer, as \<^verbatim>\<open>new_name\<close>, which is then
  not initialized, is taken not to be empty.
\<close>

definition rename_files :: "env \<Rightarrow> nat \<Rightarrow> nat \<Rightarrow> 8 word list \<Rightarrow> nat \<Rightarrow> nat option \<Rightarrow> 8 word list \<Rightarrow> call" where
  "rename_files e old_dirp old_ip old_name new_dirp newo new_name s =
     and_then (rename_check e old_dirp old_ip old_name new_dirp newo new_name s)
       (\<lambda>(r, s1).
          let odir = is_dir old_ip s in
          and_then
            (case newo of
               Some new_ip \<Rightarrow>
                 if r \<noteq> OK then Some (Ret (r, s1))
                 else if odir then remove_dir e new_dirp new_ip new_name s1
                 else unlink_file e new_dirp (Some new_ip) (Comp new_name) s1
             | None \<Rightarrow> Some (Ret (r, s1)))
            (\<lambda>(r, s2).
               and_then (if r = OK then rename_move e old_dirp old_ip old_name new_dirp new_name s2 else Some (Ret (r, s2)))
                 (\<lambda>(r, s3).
                    and_then (if r = OK \<and> odir \<and> old_dirp \<noteq> new_dirp then rename_parent e old_ip new_dirp s3 else Some (Ret s3))
                      (\<lambda>s4. Some (Ret (r, s4))))))"

definition do_rename :: "env \<Rightarrow> call" where
  "do_rename e s =
     with_dir e (m_l1 (mesg s)) (m_i1 (mesg s)) M1
       (\<lambda>old_dirp old_name s.
          and_then (advance e old_dirp (Comp old_name) s)
            (\<lambda>(oldo, s1).
               let r1 = (if oldo = None then err_code (fsys s1) else OK);
                   (f, s2) = fetch_name e (m_l2 (mesg s1)) (m_i2 (mesg s1)) M1 s1;
                   r2 = (if f \<noteq> OK then err_code (fsys s2) else r1)
               in and_then (last_dir e 0 s2)
                    (\<lambda>(ndo, new_name, s3).
                       let r3 = (if ndo = None then err_code (fsys s3) else r2) in
                       and_then (case ndo of None \<Rightarrow> Some (Ret (None, s3)) | Some nd \<Rightarrow> advance e nd (Comp new_name) s3)
                         (\<lambda>(newo, s4).
                            and_then
                              (if r3 \<noteq> OK then Some (Ret (r3, s4))
                               else case (oldo, ndo) of
                                      (Some old_ip, Some new_dirp) \<Rightarrow> rename_files e old_dirp old_ip old_name new_dirp newo new_name s4
                                    | _ \<Rightarrow> None)
                              (\<lambda>(r, s5). finish e [Some old_dirp, oldo, ndo, newo] (if r = SAME then OK else r) s5))))) s"

section \<open>Creating files (open.c)\<close>

text \<open>
  The loop of \<^verbatim>\<open>new_node\<close> over symbolic links. Unlike \<^verbatim>\<open>eat_path\<close> it never sets the working directory back when
  it goes on, and keeps the use of the new one. The result is the directory, the last component and the inode.
\<close>

fun node_loop :: "env \<Rightarrow> nat \<Rightarrow> nat option \<Rightarrow> nat \<Rightarrow> sys \<Rightarrow> (nat option \<times> 8 word list \<times> nat option \<times> sys) outcome option" where
  "node_loop e path old left s =
     and_then (last_dir e path s)
       (\<lambda>(dirpo, string, s1).
          case dirpo of
            None \<Rightarrow> Some (Ret (None, string, None, chdir_to old s1))
          | Some dirp \<Rightarrow>
              and_then (advance e dirp (Comp string) s1)
                (\<lambda>(ripo, s2).
                   case ripo of
                     None \<Rightarrow> Some (Ret (Some dirp, string, None, s2))
                   | Some rip \<Rightarrow>
                       if \<not> is_link rip s2 then Some (Ret (Some dirp, string, Some rip, s2))
                       else
                         case left of
                           0 \<Rightarrow> and_then (iput e (Some dirp) (chdir_to old s2)) (\<lambda>s3. Some (Ret (None, string, None, file_err ELOOP s3)))
                         | Suc n \<Rightarrow>
                             and_then (slink_traverse e rip path string dirp s2)
                               (\<lambda>(ip, s3). and_then (iput e (Some dirp) s3) (\<lambda>s4. node_loop e path old n (chdir_to (Some ip) s4)))))"

text \<open>A new inode in the directory; the result is the inode, the error is in \<^verbatim>\<open>err_code\<close>.\<close>

definition enter_node :: "env \<Rightarrow> nat \<Rightarrow> 8 word list \<Rightarrow> 16 word \<Rightarrow> 32 word \<Rightarrow> sys \<Rightarrow> (nat option \<times> sys) outcome option" where
  "enter_node e dirp string bits z0 s =
     (let p = fproc s (fp s) in
      and_then (alloc_inode (disk_io e) (time_now e) (fp_effuid p) (fp_effgid p) (i_dev (ino_of s dirp)) bits (fsys s))
        (\<lambda>(ripo, x).
           let s1 = s\<lparr>fsys := x\<rparr> in
           case ripo of
             None \<Rightarrow> and_then (iput e (Some dirp) s1) (\<lambda>s2. Some (Ret (None, s2)))
           | Some rip \<Rightarrow>
               and_then (in_fs (rw_inode (disk_io e) (time_now e) rip False)
                           (upd_ino rip (\<lambda>i. i\<lparr>i_nlinks := i_nlinks i + 1, i_zone := (i_zone i)(0 := z0)\<rparr>) s1))
                 (\<lambda>s2.
                    and_then (search_only e dirp (Comp string) (i_num (ino_of s2 rip)) ENTER s2)
                      (\<lambda>(r, s3).
                         if r \<noteq> OK then
                           and_then (iput e (Some dirp) s3)
                             (\<lambda>s4. and_then (iput e (Some rip) (upd_ino rip (\<lambda>i. i\<lparr>i_nlinks := i_nlinks i - 1, i_dirt := True\<rparr>) s4))
                                (\<lambda>s5. Some (Ret (None, file_err r s5))))
                         else and_then (iput e (Some dirp) s3) (\<lambda>s4. Some (Ret (Some rip, file_err r s4)))))))"

definition new_node :: "env \<Rightarrow> nat \<Rightarrow> 16 word \<Rightarrow> 32 word \<Rightarrow> sys \<Rightarrow> (nat option \<times> sys) outcome option" where
  "new_node e path bits z0 s =
     and_then (node_loop e path (fp_workdir (fproc s (fp s))) 8 s)
       (\<lambda>(dirpo, string, ripo, s1).
          case dirpo of
            None \<Rightarrow> Some (Ret (None, s1))
          | Some dirp \<Rightarrow>
              if ripo = None \<and> err_code (fsys s1) = ENOENT then enter_node e dirp string bits z0 s1
              else
                let r = (if ripo \<noteq> None then EEXIST else err_code (fsys s1)) in
                and_then (iput e (Some dirp) s1) (\<lambda>s2. Some (Ret (ripo, file_err r s2))))"

definition do_mknod :: "env \<Rightarrow> call" where
  "do_mknod e s =
     (let mode_bits = word_of_int (m_i2 (mesg s)) :: 16 word in
      if \<not> super_user s \<and> mode_bits AND I_TYPE \<noteq> I_NAMED_PIPE then Some (Ret (EPERM, s))
      else
        with_name e (m_l1 (mesg s)) (m_i1 (mesg s)) M1
          (\<lambda>s. let bits = (mode_bits AND I_TYPE) OR (mode_bits AND ALL_MODES AND fp_umask (fproc s (fp s))) in
               and_then (new_node e 0 bits (word_of_int (m_i3 (mesg s))) s) (\<lambda>(ip, s1). and_then (iput e ip s1) erring)) s)"

text \<open>The entries \<^verbatim>\<open>.\<close> and \<^verbatim>\<open>..\<close> of a new directory, and the links of both directories.\<close>

definition enter_dots :: "env \<Rightarrow> nat \<Rightarrow> nat \<Rightarrow> 8 word list \<Rightarrow> 16 word \<Rightarrow> sys \<Rightarrow> sys outcome option" where
  "enter_dots e ldirp rip string bits s =
     (let dotdot = i_num (ino_of s ldirp); dot = i_num (ino_of s rip);
          dirty = upd_ino rip (i_dirt_update (\<lambda>_. True))
      in and_then (search_only e rip Dot1 dot ENTER (upd_ino rip (i_mode_update (\<lambda>_. bits)) s))
           (\<lambda>(r1, s1). and_then (search_only e rip Dot2 dotdot ENTER s1)
              (\<lambda>(r2, s2).
                 if r1 = OK \<and> r2 = OK
                 then Some (Ret (dirty (upd_ino ldirp (\<lambda>i. i\<lparr>i_nlinks := i_nlinks i + 1, i_dirt := True\<rparr>)
                                          (upd_ino rip (\<lambda>i. i\<lparr>i_nlinks := i_nlinks i + 1\<rparr>) s2))))
                 else and_then (search_only e ldirp (Comp string) 0 DELETE s2)
                        (\<lambda>(_, s3). Some (Ret (dirty (upd_ino rip (\<lambda>i. i\<lparr>i_nlinks := i_nlinks i - 1\<rparr>) s3)))))))"

definition do_mkdir :: "env \<Rightarrow> call" where
  "do_mkdir e s =
     with_dir e (m_l1 (mesg s)) (m_i1 (mesg s)) M1
       (\<lambda>ldirp string s.
          if unat (i_nlinks (ino_of s ldirp)) \<ge> LINK_MAX then finish e [Some ldirp] EMLINK s
          else
            let bits = I_DIRECTORY OR (word_of_int (m_i2 (mesg s)) AND RWX_MODES AND fp_umask (fproc s (fp s))) in
            and_then (new_node e 0 bits 0 s)
              (\<lambda>(ripo, s1).
                 case ripo of
                   None \<Rightarrow> and_then (iput e (Some ldirp) s1) erring
                 | Some rip \<Rightarrow>
                     if err_code (fsys s1) = EEXIST then and_then (and_then (iput e (Some rip) s1) (iput e (Some ldirp))) erring
                     else
                       and_then (enter_dots e ldirp rip string bits s1)
                         (\<lambda>s2. and_then (and_then (iput e (Some ldirp) s2) (iput e (Some rip))) erring))) s"

text \<open>The name is the contents of the link; \<^verbatim>\<open>i_size\<close> is set before it is fetched.\<close>

definition fill_link :: "env \<Rightarrow> nat \<Rightarrow> call" where
  "fill_link e new_ip s =
     (let len = m_i1 (mesg s) in
      and_then (in_fs (Fs_Map.truncate (disk_io e) new_ip) s)
        (\<lambda>s1.
           let s2 = upd_ino new_ip (i_size_update (\<lambda>_. word_of_int len)) (s1\<lparr>fsys := wipe_inode new_ip (fsys s1)\<rparr>);
               (f, s3) = fetch_name e (m_l1 (mesg s2)) len M1 s2
           in if f \<noteq> OK then and_then (iput e (Some new_ip) s3) erring
              else
                and_then (new_block (disk_io e) new_ip 0 (fsys s3))
                  (\<lambda>(bpo, x).
                     case bpo of
                       None \<Rightarrow> and_then (iput e (Some new_ip) (s3\<lparr>fsys := x\<rparr>)) erring
                     | Some bp \<Rightarrow>
                         let c = upd_buf bp (\<lambda>b. b\<lparr>b_data := (\<lambda>k. if k < nat len then user_path s3 k else b_data b k), b_dirt := True\<rparr>) (fs_cache x);
                             s4 = s3\<lparr>fsys := x\<lparr>fs_cache := put_block (disk_io e) (Some bp) INODE_BLOCK c\<rparr>\<rparr>
                         in and_then (in_fs (rw_inode (disk_io e) (time_now e) new_ip False) (upd_ino new_ip (i_dirt_update (\<lambda>_. True)) s4))
                              (\<lambda>s5. and_then (iput e (Some new_ip) s5) erring))))"

definition do_symlink :: "env \<Rightarrow> call" where
  "do_symlink e s =
     with_dir e (m_l2 (mesg s)) (m_i2 (mesg s)) M1
       (\<lambda>ip string s.
          and_then (absent_there e ip string s)
            (\<lambda>(r, s1).
               and_then (iput e (Some ip) s1)
                 (\<lambda>s2.
                    if r \<noteq> OK then Some (Ret (r, s2))
                    else and_then (new_node e 0 (I_SYMBOLIC_LINK OR RWX_MODES) 0 s2)
                           (\<lambda>(newo, s3). case newo of None \<Rightarrow> erring s3 | Some new_ip \<Rightarrow> fill_link e new_ip s3)))) s"

section \<open>Opening files (open.c)\<close>

definition pipe_open :: "nat \<Rightarrow> 16 word \<Rightarrow> 32 word \<Rightarrow> call" where
  "pipe_open rip bits oflags s =
     (let done = (\<lambda>s1. Some (Ret (OK, upd_ino rip (i_pipe_update (\<lambda>_. True)) s1))) in
      if find_filp rip (if has bits W_BIT then R_BIT else W_BIT) s = None then
        if has oflags O_NONBLOCK then if has bits W_BIT then Some (Ret (ENXIO, s)) else done s
        else done (suspend XPOPEN s)
      else if susp_count s > 0
      then and_then (release rip OPEN (susp_count s) s) (\<lambda>s1. and_then (release rip CREAT (susp_count s1) s1) done)
      else done s)"

text \<open>Opening a pipe: a filp slot that is already in use for the same end is shared.\<close>

definition open_pipe :: "nat \<Rightarrow> 16 word \<Rightarrow> 32 word \<Rightarrow> nat \<Rightarrow> nat \<Rightarrow> call" where
  "open_pipe rip bits oflags d f s =
     (let oflags = oflags OR O_APPEND in
      and_then (pipe_open rip bits oflags (upd_filp f (filp_flags_update (\<lambda>_. oflags)) s))
        (\<lambda>(r, s1).
           if r \<noteq> OK then Some (Ret (r, s1))
           else
             let b = (if has bits R_BIT then R_BIT else W_BIT);
                 s2 = upd_filp f (filp_count_update (\<lambda>_. 0)) s1
             in case find_filp rip b s2 of
                  Some f2 \<Rightarrow>
                    Some (Ret (OK, upd_ino rip (i_count_update (\<lambda>n. n - 1))
                      (upd_filp f2 (\<lambda>q. q\<lparr>filp_count := filp_count q + 1, filp_ino := rip, filp_flags := oflags\<rparr>) (set_desc d (Some f2) s2))))
                | None \<Rightarrow>
                    let pos = i_zone (ino_of s2 rip) (if b = R_BIT then V2_NR_DZONES else V2_NR_DZONES + 1)
                    in Some (Ret (OK, upd_filp f (\<lambda>q. q\<lparr>filp_count := 1, filp_pos := pos\<rparr>) s2))))"

text \<open>Opening a special file by its driver; words of the message that are not set are zero here.\<close>

definition open_special :: "env \<Rightarrow> nat \<Rightarrow> 16 word \<Rightarrow> 32 word \<Rightarrow> call" where
  "open_special e rip bits oflags s =
     (let dev = dev_of (i_zone (ino_of s rip) 0); major = major_of dev in
      if major = 0 then Some (Ret (ENODEV, s))
      else
        case dmap major of
          None \<Rightarrow> Some (Ret (ENODEV, s))
        | Some d \<Rightarrow>
            and_then
              (dmap_open_call e (dmap_open d) (dmap_task d)
                 \<lparr>msg_source = FS_PROC_NR, msg_type = DEV_OPEN, m_i1 = dev, m_i2 = 0, m_i3 = sint (ucast bits OR (oflags AND NOT O_ACCMODE)),
                  m_l1 = 0, m_l2 = 0, m_p1 = 0, m_tail = 0\<rparr> s)
              (\<lambda>(mp, s1). Some (Ret (m_i2 mp, s1))))"

definition open_regular :: "env \<Rightarrow> nat \<Rightarrow> 32 word \<Rightarrow> call" where
  "open_regular e rip oflags s =
     (if \<not> has oflags O_TRUNC then Some (Ret (OK, s))
      else
        and_then (forbidden e rip W_BIT s)
          (\<lambda>(r, s1).
             if r \<noteq> OK then Some (Ret (r, s1))
             else and_then (in_fs (Fs_Map.truncate (disk_io e) rip) s1)
                    (\<lambda>s2. and_then (in_fs (rw_inode (disk_io e) (time_now e) rip False) (s2\<lparr>fsys := wipe_inode rip (fsys s2)\<rparr>))
                       (\<lambda>s3. Some (Ret (OK, s3))))))"

definition open_existing :: "env \<Rightarrow> nat \<Rightarrow> 16 word \<Rightarrow> 32 word \<Rightarrow> nat \<Rightarrow> nat \<Rightarrow> call" where
  "open_existing e rip bits oflags d f s =
     and_then (forbidden e rip bits s)
       (\<lambda>(r, s1).
          let ty = i_mode (ino_of s1 rip) AND I_TYPE in
          if r \<noteq> OK then Some (Ret (r, s1))
          else if ty = I_REGULAR then open_regular e rip oflags s1
          else if ty = I_DIRECTORY then Some (Ret (if has bits W_BIT then EISDIR else OK, s1))
          else if ty = I_CHAR_SPECIAL \<or> ty = I_BLOCK_SPECIAL then open_special e rip bits oflags s1
          else if ty = I_NAMED_PIPE then open_pipe rip bits oflags d f s1
          else Some (Ret (OK, s1)))"

text \<open>The descriptor and the filp slot are claimed; without an error they stay.\<close>

definition claim_file :: "nat \<Rightarrow> nat \<Rightarrow> nat \<Rightarrow> 32 word \<Rightarrow> sys \<Rightarrow> sys" where
  "claim_file d f rip oflags s = upd_filp f (\<lambda>q. q\<lparr>filp_count := 1, filp_ino := rip, filp_flags := oflags\<rparr>) (set_desc d (Some f) s)"

definition open_file :: "env \<Rightarrow> nat \<Rightarrow> 16 word \<Rightarrow> 32 word \<Rightarrow> nat \<Rightarrow> nat \<Rightarrow> int \<Rightarrow> bool \<Rightarrow> call" where
  "open_file e rip bits oflags d f r exist s =
     (let s1 = claim_file d f rip oflags s in
      and_then (if exist then open_existing e rip bits oflags d f s1 else Some (Ret (r, s1)))
        (\<lambda>(r, s2).
           if r \<noteq> OK then and_then (iput e (Some rip) (upd_filp f (filp_count_update (\<lambda>_. 0)) (set_desc d None s2))) (\<lambda>s3. Some (Ret (r, s3)))
           else Some (Ret (int d, s2))))"

definition mode_map :: "32 word \<Rightarrow> 16 word" where
  "mode_map oflags = [R_BIT, W_BIT, R_BIT OR W_BIT, 0] ! unat (oflags AND O_ACCMODE)"

text \<open>\<^verbatim>\<open>fd\<close> is a word of the message; \<open>omode\<close> is used with \<^verbatim>\<open>O_CREAT\<close> only.\<close>

definition common_open :: "env \<Rightarrow> 32 word \<Rightarrow> 16 word \<Rightarrow> call" where
  "common_open e oflags omode s =
     (let bits = mode_map oflags in
      case get_fd 0 bits s of
        (Inl r, s1) \<Rightarrow> Some (Ret (r, s1))
      | (Inr (d, f), s0) \<Rightarrow>
          let s1 = set_i1 (int d) s0 in
          if has oflags O_CREAT then
            and_then (new_node e 0 (I_REGULAR OR (omode AND ALL_MODES AND fp_umask (fproc s1 (fp s1)))) NO_ZONE s1)
              (\<lambda>(ripo, s2).
                 let r = err_code (fsys s2) in
                 if r \<noteq> OK \<and> r \<noteq> EEXIST then Some (Ret (r, s2))
                 else case ripo of None \<Rightarrow> None | Some rip \<Rightarrow> open_file e rip bits oflags d f r (r \<noteq> OK \<and> \<not> has oflags O_EXCL) s2)
          else
            and_then (eat_path e 0 s1)
              (\<lambda>(ripo, s2). case ripo of None \<Rightarrow> erring s2 | Some rip \<Rightarrow> open_file e rip bits oflags d f OK True s2))"

definition do_creat :: "env \<Rightarrow> call" where
  "do_creat e s =
     with_name e (name_arg s) (m_i1 (mesg s)) M3 (\<lambda>s. common_open e (O_WRONLY OR O_CREAT OR O_TRUNC) (word_of_int (m_i2 (mesg s))) s) s"

definition do_open :: "env \<Rightarrow> call" where
  "do_open e s =
     (let mode = word_of_int (m_i2 (mesg s)); creat = has mode O_CREAT in
      with_name e (if creat then m_l1 (mesg s) else name_arg s) (m_i1 (mesg s)) (if creat then M1 else M3)
        (common_open e mode (if creat then word_of_int (m_i3 (mesg s)) else 0)) s)"

section \<open>Mounting (mount.c)\<close>

text \<open>\<^verbatim>\<open>name_to_dev\<close> returns \<^verbatim>\<open>NO_DEV\<close> with the error in \<^verbatim>\<open>err_code\<close>.\<close>

definition name_to_dev :: "env \<Rightarrow> nat \<Rightarrow> sys \<Rightarrow> (int \<times> sys) outcome option" where
  "name_to_dev e path s =
     and_then (eat_path e path s)
       (\<lambda>(ripo, s1).
          case ripo of
            None \<Rightarrow> Some (Ret (NO_DEV, s1))
          | Some rip \<Rightarrow>
              if i_mode (ino_of s1 rip) AND I_TYPE \<noteq> I_BLOCK_SPECIAL
              then finish e [Some rip] NO_DEV (file_err ENOTBLK s1)
              else finish e [Some rip] (dev_of (i_zone (ino_of s1 rip) 0)) s1)"

definition upd_sup :: "nat \<Rightarrow> (super_block \<Rightarrow> super_block) \<Rightarrow> sys \<Rightarrow> sys" where
  "upd_sup i g s = s\<lparr>fsys := upd_super i g (fsys s)\<rparr>"

text \<open>Giving a device up again after an error.\<close>

definition unmount_dev :: "nat \<Rightarrow> int \<Rightarrow> sys \<Rightarrow> sys outcome option" where
  "unmount_dev i dev s = dev_close dev (upd_sup i (s_dev_update (\<lambda>_. NO_DEV)) s)"

text \<open>\<^verbatim>\<open>do_sync\<close> and \<^verbatim>\<open>invalidate\<close>\<close>

definition forget_dev :: "env \<Rightarrow> int \<Rightarrow> sys \<Rightarrow> sys outcome option" where
  "forget_dev e dev s =
     in_fs (\<lambda>x. and_then (sync_fs e x) (\<lambda>y. Some (Ret (y\<lparr>fs_cache := invalidate dev (fs_cache y)\<rparr>)))) s"

text \<open>The inode \<open>rip\<close> becomes a mount point of device \<open>dev\<close> in the slot \<open>i\<close>.\<close>

definition mount_on :: "env \<Rightarrow> nat \<Rightarrow> int \<Rightarrow> bool \<Rightarrow> nat \<Rightarrow> call" where
  "mount_on e i dev rd_only rip s =
     (let ty = i_mode (ino_of s rip) AND I_TYPE;
          r0 = (if ty = I_BLOCK_SPECIAL \<or> ty = I_CHAR_SPECIAL then ENOTDIR else if i_count (ino_of s rip) > 1 then EBUSY else OK)
      in and_then (if r0 = OK then iget e dev ROOT_INODE s else Some (Ret (None, s)))
           (\<lambda>(rooto, s1).
              let r1 = (if r0 = OK \<and> rooto = None then err_code (fsys s1) else r0);
                  r2 = (case rooto of Some root \<Rightarrow> if i_mode (ino_of s1 root) = 0 then EINVAL else r1 | None \<Rightarrow> r1)
              in if r2 = OK \<and> rooto = None then None
                 else
                   let r = (if r2 = OK \<and> \<not> is_dir rip s1 \<and> is_dir (the rooto) s1 then EISDIR else r2) in
                   if r \<noteq> OK then
                     and_then (and_then (iput e (Some rip) s1) (iput e rooto))
                       (\<lambda>s2. and_then (forget_dev e dev s2) (\<lambda>s3. and_then (unmount_dev i dev s3) (\<lambda>s4. Some (Ret (r, s4)))))
                   else
                     Some (Ret (OK, upd_sup i (\<lambda>sp. sp\<lparr>s_imount := Some rip, s_isup := rooto, s_rd_only := rd_only\<rparr>)
                       (upd_ino rip (i_mount_update (\<lambda>_. True)) s1)))))"

definition do_mount :: "env \<Rightarrow> call" where
  "do_mount e s =
     (if \<not> super_user s then Some (Ret (EPERM, s))
      else
        with_name e (m_l1 (mesg s)) (m_i1 (mesg s)) M1
          (\<lambda>s. and_then (name_to_dev e 0 s)
             (\<lambda>(dev, s).
                let free = List.find (\<lambda>i. s_dev (super_blocks (fsys s) i) = NO_DEV) (rev [0 ..< NR_SUPERS]);
                    rd_only = (take_bit 8 (m_i3 (mesg s)) \<noteq> 0)
                in if dev = NO_DEV then erring s
                   else if \<exists>i \<in> set [0 ..< NR_SUPERS]. s_dev (super_blocks (fsys s) i) = dev then Some (Ret (EBUSY, s))
                   else
                     case free of
                       None \<Rightarrow> Some (Ret (ENFILE, s))
                     | Some i \<Rightarrow>
                         (case (if major_of dev = 0 then None else dmap (major_of dev)) of
                            None \<Rightarrow> Some (Ret (ENODEV, s))
                          | Some d \<Rightarrow>
                              and_then
                                (dmap_open_call e (dmap_open d) (dmap_task d)
                                   \<lparr>msg_source = FS_PROC_NR, msg_type = DEV_OPEN, m_i1 = dev, m_i2 = 0,
                                    m_i3 = uint (if m_i3 (mesg s) \<noteq> 0 then R_BIT else R_BIT OR W_BIT), m_l1 = 0, m_l2 = 0, m_p1 = 0, m_tail = 0\<rparr> s)
                                (\<lambda>(mp, s).
                                   if m_i2 mp \<noteq> OK then Some (Ret (EINVAL, s))
                                   else
                                     and_then (read_super (disk_io e) (super_rest e) i (fsys (upd_sup i (s_dev_update (\<lambda>_. dev)) s)))
                                       (\<lambda>(r, x).
                                          let s1 = s\<lparr>fsys := x\<rparr> in
                                          if r \<noteq> OK then and_then (dev_close dev s1) (\<lambda>s2. Some (Ret (r, s2)))
                                          else
                                            let (f, s2) = fetch_name e (m_l2 (mesg s1)) (m_i2 (mesg s1)) M1 s1 in
                                            if f \<noteq> OK then and_then (unmount_dev i dev s2) erring
                                            else
                                              and_then (eat_path e 0 s2)
                                                (\<lambda>(ripo, s3).
                                                   case ripo of
                                                     None \<Rightarrow> and_then (unmount_dev i dev s3) erring
                                                   | Some rip \<Rightarrow> mount_on e i dev rd_only rip s3)))))) s)"

definition do_umount :: "env \<Rightarrow> call" where
  "do_umount e s =
     (if \<not> super_user s then Some (Ret (EPERM, s))
      else
        with_name e (name_arg s) (m_i1 (mesg s)) M3
          (\<lambda>s. and_then (name_to_dev e 0 s)
             (\<lambda>(dev, s).
                let uses = (\<Sum>i \<leftarrow> [0 ..< NR_INODES]. if i_count (ino_of s i) > 0 \<and> i_dev (ino_of s i) = dev then i_count (ino_of s i) else 0)
                in if dev = NO_DEV then erring s
                   else if uses > 1 then Some (Ret (EBUSY, s))
                   else
                     and_then (forget_dev e dev s)
                       (\<lambda>s1.
                          case List.find (\<lambda>i. s_dev (super_blocks (fsys s1) i) = dev) [0 ..< NR_SUPERS] of
                            None \<Rightarrow> Some (Ret (EINVAL, s1))
                          | Some i \<Rightarrow>
                              and_then (dev_close dev s1)
                                (\<lambda>s2.
                                   let sp = super_blocks (fsys s2) i in
                                   case s_imount sp of
                                     None \<Rightarrow> None
                                   | Some mp \<Rightarrow>
                                       and_then (and_then (iput e (Some mp) (upd_ino mp (i_mount_update (\<lambda>_. False)) s2)) (iput e (s_isup sp)))
                                         (\<lambda>s3. Some (Ret (OK, upd_sup i (\<lambda>sp. sp\<lparr>s_imount := None, s_dev := NO_DEV\<rparr>) s3))))))) s)"

end
