(* ===== verification/Fs_Main.thy ===== *)
theory Fs_Main
  imports Fs_Rw_Counts Fs_Names
begin

unbundle bit_operations_syntax

text \<open>
  The main program of the file system: \<^verbatim>\<open>src/src/fs/main.c\<close> and the call vector of \<^verbatim>\<open>table.c\<close>. What
  \<^verbatim>\<open>receive\<close> returns, its result and the message, is an argument of each round of the loop.
\<close>

section \<open>The first processes\<close>

text \<open>
  \<^verbatim>\<open>load_super\<close>, and the part of \<^verbatim>\<open>fs_init\<close> that follows it. When the inode table has no room the source
  follows a null pointer (\<open>None\<close>).
\<close>

definition load_super :: "env \<Rightarrow> (data \<Rightarrow> super_block \<Rightarrow> super_block) \<Rightarrow> int \<Rightarrow> fs \<Rightarrow> fs outcome option" where
  "load_super e rest super_dev s =
     (let s1 = s\<lparr>super_blocks := (\<lambda>i. if i < NR_SUPERS then (super_blocks s i)\<lparr>s_dev := NO_DEV\<rparr> else super_blocks s i)\<rparr>;
          bad = Panic ''Invalid root file system.  Possibly wrong diskette.''
      in and_then (read_super (disk_io e) rest 0 (upd_super 0 (s_dev_update (\<lambda>_. super_dev)) s1))
           (\<lambda>(r, s2).
              if r \<noteq> OK then Some bad
              else
                and_then (get_inode (disk_io e) (time_now e) super_dev ROOT_INODE s2)
                  (\<lambda>(ripo, s3).
                     case ripo of
                       None \<Rightarrow> None
                     | Some rip \<Rightarrow>
                         if i_mode (inode s3 rip) AND I_TYPE \<noteq> I_DIRECTORY \<or> sint (i_nlinks (inode s3 rip)) < 3 then Some bad
                         else Some (Ret (upd_super 0 (\<lambda>sp. sp\<lparr>s_imount := Some rip, s_isup := Some rip, s_rd_only := False\<rparr>) (dup_inode rip s3))))))"

definition init_proc :: "env \<Rightarrow> int \<Rightarrow> sys \<Rightarrow> sys outcome option" where
  "init_proc e i s =
     and_then (get_inode (disk_io e) (time_now e) (root_dev s) ROOT_INODE (fsys s))
       (\<lambda>(ripo, x).
          case ripo of
            None \<Rightarrow> None
          | Some rip \<Rightarrow>
              Some (Ret (upd_fproc i (\<lambda>p. p\<lparr>fp_rootdir := Some rip, fp_workdir := Some rip, fp_realuid := 0, fp_effuid := 0, fp_realgid := 0,
                                            fp_effgid := 0, fp_umask := NOT 0\<rparr>)
                           (s\<lparr>fsys := dup_inode rip x, fp := i\<rparr>))))"

definition fs_start :: "env \<Rightarrow> (data \<Rightarrow> super_block \<Rightarrow> super_block) \<Rightarrow> sys \<Rightarrow> sys outcome option" where
  "fs_start e rest s =
     and_then (in_fs (load_super e rest (root_dev s)) s)
       (each (\<lambda>i s. if i = FS_PROC_NR then Some (Ret s) else init_proc e i s) [0 .. LOW_USER])"

section \<open>The main loop\<close>

text \<open>A process to be revived goes first; then nothing is received.\<close>

definition get_work :: "int \<Rightarrow> mess \<Rightarrow> sys \<Rightarrow> sys outcome option" where
  "get_work status msg s =
     (if reviving s \<noteq> 0 then
        case List.find (\<lambda>rp. fp_revived (fproc s rp)) fproc_slots of
          None \<Rightarrow> Some (Panic ''get_work couldn't revive anyone'')
        | Some rp \<Rightarrow>
            let r = fproc s rp in
            Some (Ret ((upd_fproc rp (\<lambda>r. r\<lparr>fp_suspended := False, fp_revived := False\<rparr>) s)
              \<lparr>who := rp, fs_call := take_bit 8 (fp_fd r), reviving := reviving s - 1,
               mesg := (mesg s)\<lparr>m_i1 := take_bit 8 (drop_bit 8 (fp_fd r)), m_l1 := fp_buffer r, m_i2 := fp_nbytes r\<rparr>\<rparr>))
      else if status \<noteq> OK then Some (Panic ''fs receive error'')
      else Some (Ret (s\<lparr>mesg := msg, who := msg_source msg, fs_call := msg_type msg\<rparr>)))"

text \<open>The table of calls. \<open>junk\<close> is the value that \<^verbatim>\<open>do_setsid\<close> fails to return.\<close>

definition no_sys_fs :: call where "no_sys_fs s = Some (Ret (EINVAL, s))"

definition simple :: "(sys \<Rightarrow> int \<times> sys) \<Rightarrow> call" where "simple f s = Some (Ret (f s))"

definition call_vector :: "env \<Rightarrow> int \<Rightarrow> call list" where
  "call_vector e junk =
     [no_sys_fs, do_exit_fs e, do_fork_fs, do_read e, do_write e, do_open e, do_close e, no_sys_fs, do_creat e, do_link e,
      do_unlink e, no_sys_fs, do_chdir e, simple (do_time e), do_mknod e, do_chmod e, do_chown e, no_sys_fs, do_stat e, simple do_lseek,
      no_sys_fs, do_mount e, do_umount e, simple do_set, no_sys_fs, do_stime, no_sys_fs, no_sys_fs, do_fstat e, no_sys_fs,
      do_utime e, no_sys_fs, no_sys_fs, do_access e, no_sys_fs, no_sys_fs, do_sync e, no_sys_fs, do_rename e, do_mkdir e,
      do_unlink e, do_dup e, do_pipe e, simple (do_tims e), no_sys_fs, no_sys_fs, simple do_set, no_sys_fs, no_sys_fs, do_rdlink e,
      do_lstat e, no_sys_fs, no_sys_fs, no_sys_fs, do_ioctl, do_fcntl e, no_sys_fs, do_symlink e, no_sys_fs, do_exec_fs e,
      simple do_umask, do_chroot e, simple (do_setsid junk), no_sys_fs, no_sys_fs, do_unpause, no_sys_fs, do_revive, no_sys_fs, no_sys_fs,
      no_sys_fs, no_sys_fs, no_sys_fs, no_sys_fs, no_sys_fs, no_sys_fs, no_sys_fs]"

definition NCALLS :: int where "NCALLS = 77"

definition dispatch :: "env \<Rightarrow> int \<Rightarrow> call" where
  "dispatch e junk s =
     (if fs_call s < 0 \<or> fs_call s \<ge> NCALLS then Some (Ret (EBADCALL, s)) else (call_vector e junk ! nat (fs_call s)) s)"

definition answer :: "env \<Rightarrow> int \<Rightarrow> sys \<Rightarrow> sys outcome option" where
  "answer e error s =
     (if dont_reply s then Some (Ret s)
      else let s1 = reply_fs (who s) error s in if rdahed_inode s1 \<noteq> None then read_ahead e s1 else Some (Ret s1))"

definition set_caller :: "sys \<Rightarrow> sys" where
  "set_caller s = s\<lparr>fp := who s, super_user := (fp_effuid (fproc s (who s)) = SU_UID), dont_reply := False\<rparr>"

definition fs_main :: "env \<Rightarrow> int \<Rightarrow> int \<Rightarrow> mess \<Rightarrow> sys \<Rightarrow> sys outcome option" where
  "fs_main e junk status msg s =
     and_then (get_work status msg s) (\<lambda>s1. and_then (dispatch e junk (set_caller s1)) (\<lambda>(error, s2). answer e error s2))"

end
