(* ===== verification/Fs_Walk.thy ===== *)
theory Fs_Walk
  imports Fs_Rw_Counts Fs_Names "HOL-Library.Multiset"
begin

unbundle bit_operations_syntax

text \<open>
  The counts while a path is walked. A function that has taken an inode has to give it back: the multiset of these debts is kept
  beside the state, relative to the state in which the call began. The working directory of the caller may be changed meanwhile.
\<close>

section \<open>Inodes that a call holds\<close>

definition own :: "nat option \<Rightarrow> nat multiset" where
  "own r = (case r of None \<Rightarrow> {#} | Some i \<Rightarrow> {#i#})"

lemma own_simps [simp]: "own None = {#}" "own (Some i) = {#i#}"
  by (simp_all add: own_def)

definition cwd :: "sys \<Rightarrow> int \<Rightarrow> nat option" where "cwd s p = fp_workdir (fproc s p)"

definition beside :: "sys \<Rightarrow> nat option \<Rightarrow> sys \<Rightarrow> bool" where
  "beside s0 d s \<longleftrightarrow> sys_inv s0 \<and> caller s0 \<and> fp s = fp s0 \<and> who s = who s0 \<and> mesg s = mesg s0 \<and> desc s = desc s0 \<and> file_lock s = file_lock s0 \<and> nr_locks s = nr_locks s0 \<and>
     revive_ok s \<and> (\<forall>f. filp_count (filp s f) = filp_count (filp s0 f) \<and> filp_ino (filp s f) = filp_ino (filp s0 f)) \<and>
     (\<forall>p. fp_rootdir (fproc s p) = fp_rootdir (fproc s0 p) \<and> (p \<noteq> fp s0 \<longrightarrow> cwd s p = cwd s0 p)) \<and>
     cwd s (fp s0) = d \<and> (\<forall>i. d = Some i \<longrightarrow> i < NR_INODES) \<and>
     (\<forall>k. s_isup (super_blocks (fsys s) k) = s_isup (super_blocks (fsys s0) k) \<and> s_imount (super_blocks (fsys s) k) = s_imount (super_blocks (fsys s0) k))"

definition owes :: "sys \<Rightarrow> nat option \<Rightarrow> nat multiset \<Rightarrow> sys \<Rightarrow> bool" where
  "owes s0 d M s \<longleftrightarrow> beside s0 d s \<and> (\<forall>i. i_count (ino_of s i) = refs s0 i + int (count M i)) \<and> (\<forall>i. i \<in># M \<longrightarrow> i < NR_INODES)"

lemma refs_small: "sys_inv s \<Longrightarrow> refs s i > 0 \<Longrightarrow> i < NR_INODES"
  by (auto simp: sys_inv_def inodes_ok_def not_less [symmetric])

lemma dir_used:
  assumes "sys_inv s" "p \<in> procs" "fp_rootdir (fproc s p) = Some i \<or> fp_workdir (fproc s p) = Some i"
  shows "i < NR_INODES"
proof -
  have "1 \<le> in_dirs (fproc s p) i" using assms(3) by (auto simp: in_dirs_def)
  also have "\<dots> \<le> dir_refs s i" unfolding dir_refs_def by (rule member_le_sum) (use assms(2) in \<open>auto simp: in_dirs_def\<close>)
  finally have "refs s i > 0" using refs_nonneg(1,3) [of s i] by (simp add: refs_def)
  then show ?thesis by (rule refs_small [OF assms(1)])
qed

lemma beside_refl: "sys_inv s \<Longrightarrow> caller s \<Longrightarrow> beside s (cwd s (fp s)) s"
  using dir_used [of s "fp s"] by (auto simp: beside_def caller_def cwd_def) (simp add: sys_inv_def)

lemma owes_start: "sys_inv s \<Longrightarrow> caller s \<Longrightarrow> owes s (cwd s (fp s)) {#} s"
  by (simp add: owes_def beside_refl) (simp add: sys_inv_def inodes_ok_def)

lemma owes_parts:
  assumes o: "owes s0 (cwd s0 (fp s0)) M s"
  shows "filps_ok s" "locks_ok s" "revive_ok s" "lone s" "users s = users s0" "file_refs s = file_refs s0" "dir_refs s = dir_refs s0"
    "super_refs s = super_refs s0" "desc s = desc s0" "\<And>i. i_count (ino_of s i) = refs s i + int (count M i)" "\<And>i. NR_INODES \<le> i \<Longrightarrow> refs s i = 0"
    "fp s = fp s0" "who s = who s0" "mesg s = mesg s0" "caller s" "\<And>f. filp_count (filp s f) = filp_count (filp s0 f)" "\<And>f. filp_ino (filp s f) = filp_ino (filp s0 f)"
    "\<And>p. fp_rootdir (fproc s p) = fp_rootdir (fproc s0 p)" "\<And>p. fp_workdir (fproc s p) = fp_workdir (fproc s0 p)"
proof -
  have inv: "sys_inv s0" and b: "beside s0 (cwd s0 (fp s0)) s" and c: "\<And>i. i_count (ino_of s i) = refs s0 i + int (count M i)"
    using o by (auto simp: owes_def beside_def)
  have cw: "cwd s p = cwd s0 p" for p using b by (cases "p = fp s0") (auto simp: beside_def)
  have u: "users s = users s0" using b by (intro ext) (simp add: users_def beside_def)
  have f: "file_refs s = file_refs s0" using b by (intro ext) (simp add: file_refs_def opened_def beside_def)
  have d: "dir_refs s = dir_refs s0" using b cw by (intro dir_refs_cong) (simp add: beside_def cwd_def)
  have p: "super_refs s = super_refs s0 \<and> lone s = lone s0" using b by (intro super_refs_cong) (simp add: beside_def)
  have "used_locks s = used_locks s0" using b by (simp add: used_locks_def beside_def)
  note e = u f d p this
  have r: "refs s = refs s0" using e by (simp add: refs_def fun_eq_iff)
  show "filps_ok s" "locks_ok s" "revive_ok s" "lone s" using inv b e by (simp_all add: sys_inv_def filps_ok_def locks_ok_def inodes_ok_def beside_def)
  show "users s = users s0" "file_refs s = file_refs s0" "dir_refs s = dir_refs s0" "super_refs s = super_refs s0" using e by simp_all
  show "i_count (ino_of s i) = refs s i + int (count M i)" for i using c r by simp
  show "refs s i = 0" if "NR_INODES \<le> i" for i using inv that unfolding r by (auto simp: sys_inv_def inodes_ok_def)
  show "desc s = desc s0" "fp s = fp s0" "who s = who s0" "mesg s = mesg s0" "caller s" using b by (simp_all add: beside_def caller_def)
  show "filp_count (filp s f) = filp_count (filp s0 f)" "filp_ino (filp s f) = filp_ino (filp s0 f)" for f using b by (simp_all add: beside_def)
  show "fp_rootdir (fproc s p) = fp_rootdir (fproc s0 p)" "fp_workdir (fproc s p) = fp_workdir (fproc s0 p)" for p
    using b cw by (simp_all add: beside_def cwd_def)
qed

lemma owes_end:
  assumes o: "owes s0 (cwd s0 (fp s0)) {#} s"
  shows "sys_inv s" "who s = who s0"
  using owes_parts [OF o] by (simp_all add: sys_inv_def inodes_ok_def)

lemma beside_soft: "beside s0 d s \<Longrightarrow> soft s t \<Longrightarrow> beside s0 d t"
  using erase_sel [of "fproc t p" "fproc s p" for p] softD [of s t]
  by (simp add: beside_def cwd_def) (auto simp: soft_def fs_frame_def)

lemma owes_soft: "owes s0 d M s \<Longrightarrow> soft s t \<Longrightarrow> owes s0 d M t"
  using softD(6) [of s t] by (auto simp: owes_def intro: beside_soft)

lemma owes_fs: "owes s0 d M s \<Longrightarrow> fs_frame (fsys s) x \<Longrightarrow> owes s0 d M (s\<lparr>fsys := x\<rparr>)"
  by (rule owes_soft, assumption, rule soft_frame)

lemma owes_ino: "owes s0 d M s \<Longrightarrow> (\<And>r. i_count (g r) = i_count r) \<Longrightarrow> owes s0 d M (upd_ino i g s)"
  by (rule owes_soft, assumption, rule soft_upd_ino)

lemma owes_err [simp]: "owes s0 d M s \<Longrightarrow> owes s0 d M (file_err k s)"
  by (rule owes_soft, assumption) simp

lemma soft_path [simp]: "soft s (t\<lparr>user_path := u\<rparr>) = soft s t"
  by (simp add: soft_def revive_ok_def revived_def)

lemma owes_chdir:
  assumes "owes s0 d0 M s" "\<And>i. d = Some i \<Longrightarrow> i < NR_INODES"
  shows "owes s0 d M (chdir_to d s)"
proof -
  have b: "beside s0 d0 s" using assms(1) by (simp add: owes_def)
  have "revive_ok (chdir_to d s)" by (rule revive_ok_flag [of s]) (use b in \<open>auto simp: chdir_to_def beside_def revive_ok_def\<close>)
  moreover have "desc (chdir_to d s) = desc s" by (auto simp: desc_def fun_eq_iff chdir_to_def)
  ultimately have "beside s0 d (chdir_to d s)" using b assms(2) by (simp add: beside_def) (auto simp: chdir_to_def cwd_def)
  then show ?thesis using assms(1) by (simp add: owes_def ino_of_def chdir_to_def)
qed

lemma owes_count:
  assumes "owes s0 d M s" "counted i g (fsys s) x" "g (refs s0 i + int (count M i)) = refs s0 i + int (count N i)"
    "\<And>j. j \<noteq> i \<Longrightarrow> count N j = count M j" "\<And>j. j \<in># N \<Longrightarrow> j < NR_INODES"
  shows "owes s0 d N (s\<lparr>fsys := x\<rparr>)"
proof -
  have "beside s0 d (s\<lparr>fsys := x\<rparr>)" using assms(1,2) by (simp add: owes_def beside_def counted_def cwd_def desc_def fun_eq_iff revive_ok_def revived_def)
  then show ?thesis using assms by (auto simp: owes_def ino_of_def counted_def)
qed

lemma owes_iput: "owes s0 d (M + own r) s \<Longrightarrow> yields (iput e r s) (owes s0 d M)"
proof (cases r)
  case None
  then show ?thesis if "owes s0 d (M + own r) s"
    using that by (auto simp: iput_def in_fs_def intro!: yields_mono [OF frame_put_None] owes_fs)
next
  case (Some i)
  have "owes s0 d M (s\<lparr>fsys := x\<rparr>)" if "owes s0 d (add_mset i M) s" "counted i (\<lambda>n. n - 1) (fsys s) x" for x
    by (rule owes_count [OF that]) (use that(1) in \<open>auto simp: owes_def\<close>)
  then show ?thesis if "owes s0 d (M + own r) s"
    using that Some by (auto simp: iput_def in_fs_def intro!: yields_mono [OF counted_put_inode])
qed

lemma owes_iget: "owes s0 d M s \<Longrightarrow> yields (iget e dev n s) (\<lambda>(r, t). owes s0 d (M + own r) t)"
proof -
  assume o: "owes s0 d M s"
  have "owes s0 d (M + own r) (s\<lparr>fsys := x\<rparr>)" if "taken (fsys s) (r, x)" for r x
  proof (cases r)
    case None
    then show ?thesis using that o by (auto simp: taken_def intro: owes_fs)
  next
    case (Some i)
    then have t: "i < NR_INODES" "counted i (\<lambda>n. max n 0 + 1) (fsys s) x" using that by (auto simp: taken_def)
    show ?thesis by (rule owes_count [OF o t(2)]) (use Some t o refs_nonneg(4) [of s0 i] in \<open>auto simp: owes_def\<close>)
  qed
  then show ?thesis by (auto simp: iget_def intro!: yields_mono [OF counted_get_inode])
qed

lemma owes_idup: "owes s0 d M s \<Longrightarrow> i < NR_INODES \<Longrightarrow> owes s0 d (add_mset i M) (idup i s)"
  unfolding idup_def by (rule owes_count [OF _ counted_dup]) (auto simp: owes_def)

text \<open>The same when the debts are sums in another order.\<close>

lemma owes_perm: "owes s0 d M s \<Longrightarrow> M = N \<Longrightarrow> owes s0 d N s" by simp

lemma iput_held: "owes s0 d N s \<Longrightarrow> N = M + own r \<Longrightarrow> yields (iput e r s) (owes s0 d M)"
  using owes_iput by simp

lemma owes_in: "owes s0 d M s \<Longrightarrow> i \<in># M \<Longrightarrow> i < NR_INODES" by (simp add: owes_def)

section \<open>Searching directories\<close>

abbreviation with_fs3 :: "('a \<times> 'b \<times> fs) outcome option \<Rightarrow> (fs \<Rightarrow> bool) \<Rightarrow> bool" where
  "with_fs3 r P \<equiv> yields r (\<lambda>(x, y, s'). P s')"

lemma frame_scan_blocks: "with_fs3 (scan_blocks io rip flg cs old ks new s) (fs_frame s)"
proof (induction ks arbitrary: new s)
  case (Cons k ks)
  have step: "with_fs3 (case r of
        (Match i, n) \<Rightarrow> Some (Ret (Some (bp, Match i), n, t\<lparr>fs_cache := c\<rparr>)) | (Room i, n) \<Rightarrow> Some (Ret (Some (bp, Room i), n, t\<lparr>fs_cache := c\<rparr>))
      | (Searched, n) \<Rightarrow> scan_blocks io rip flg cs old ks n (t\<lparr>fs_cache := c'\<rparr>)) (fs_frame s)" if "fs_frame s t" for r bp t c c'
  proof -
    have "with_fs3 (scan_blocks io rip flg cs old ks n (t\<lparr>fs_cache := c'\<rparr>)) (fs_frame s)" for n
      by (rule yields_mono [OF Cons.IH]) (use that in \<open>auto intro: fs_frame_trans [of s "t\<lparr>fs_cache := c'\<rparr>"]\<close>)
    then show ?thesis using that by (cases r; cases "fst r") auto
  qed
  show ?case
    by (simp del: yields_then, rule yields_thenI [OF frame_read_map], simp only: split_paired_all prod.case)
      (rule yields_drop, simp only: split_paired_all prod.case, erule step)
qed simp

lemma frame_changed [simp]: "fs_frame s (dir_changed rip t) = fs_frame s t"
  by (simp add: dir_changed_def fs_frame_upd)

lemma frame_dir_enter: "fs_frame s t \<Longrightarrow> with_fs3 (dir_enter io now rip cs numb bp i new old ext t) (fs_frame s)"
  unfolding dir_enter_def Let_def
  by (auto simp: fs_frame_upd intro!: frame_after [OF _ frame_rw_inode])

lemma frame_dir_found: "fs_frame s t \<Longrightarrow> fs_frame s (snd (snd (dir_found io rip flg numb bp i t)))"
  by (simp add: dir_found_def Let_def)

lemma frame_dir_pass: "with_fs3 (dir_pass io now rip cs numb flg s) (fs_frame s)"
proof -
  have n: "with_fs3 (case bpo of None \<Rightarrow> Some (Ret (err_code t, numb, t)) | Some bp \<Rightarrow> dir_enter io now rip cs numb bp 0 k old True t) (fs_frame s)"
    if "fs_frame s t" for bpo k old t
    using that frame_dir_enter [OF that] by (cases bpo) simp_all
  have f: "with_fs3 (Some (Ret (dir_found io rip flg numb bp i t))) (fs_frame s)" if "fs_frame s t" for bp i t
    using frame_dir_found [OF that] by (simp add: case_prod_unfold)
  have d: "dir_found io rip fl numb bp i t = (a, b, u) \<Longrightarrow> fs_frame s t \<Longrightarrow> fs_frame s u" for fl bp i t a b u
    using frame_dir_found [of s t io rip fl numb bp i] by simp
  show ?thesis
    unfolding dir_pass_def Let_def
    by (rule yields_thenI [OF frame_scan_blocks], simp only: split_paired_all prod.case)
      (auto split: option.split slot_end.split simp del: yields_then yields_simps(3) intro!: f frame_dir_enter n yields_thenI [OF with_fs_after [OF _ frame_new_block]],
       auto dest: d)
qed

lemma owes_lone: "owes s0 d M s \<Longrightarrow> List.find (\<lambda>i. s_imount (super_blocks (fsys s) i) = Some k) [1 ..< NR_SUPERS] = None"
  by (auto simp: owes_def beside_def sys_inv_def inodes_ok_def lone_def find_None_iff)

lemma owes_forbidden: "owes s0 d M s \<Longrightarrow> yields (forbidden e rip a s) (\<lambda>(r, t). owes s0 d M t)"
  unfolding forbidden_def using owes_lone [of s0 d M s rip] by (auto simp: Let_def split: option.split)

lemma owes_dir_check: "owes s0 d M s \<Longrightarrow> yields (dir_check e rip string flg s) (\<lambda>(r, t). owes s0 d M t)"
  unfolding dir_check_def by (auto intro: owes_forbidden)

lemma owes_search_dir: "owes s0 d M s \<Longrightarrow> yields (search_dir e rip string numb flg s) (\<lambda>(r, n, t). owes s0 d M t)"
  unfolding search_dir_def with_sys_def
  by (rule yields_thenI [OF owes_dir_check], assumption)
    (auto intro!: yields_mono [OF frame_dir_pass] owes_fs)

lemma owes_search_only: "owes s0 d M s \<Longrightarrow> yields (search_only e rip string numb flg s) (\<lambda>(r, t). owes s0 d M t)"
  unfolding search_only_def by (rule yields_thenI [OF owes_search_dir]) auto

section \<open>Steps along a path\<close>

abbreviation took :: "sys \<Rightarrow> nat option \<Rightarrow> nat multiset \<Rightarrow> nat option \<times> sys \<Rightarrow> bool" where
  "took s0 d M \<equiv> \<lambda>(r, t). owes s0 d (M + own r) t"

lemma owes_to_mounted: "owes s0 d (M + own r) s \<Longrightarrow> yields (to_mounted e r s) (took s0 d M)"
proof -
  let ?P = "\<lambda>e r s y. \<forall>x. y = Ret x \<longrightarrow> owes s0 d (M + own r) s \<longrightarrow> took s0 d M x"
  have "?P e r s y" if "to_mounted e r s = Some y" for y
    using that
  proof (rule to_mounted.raw_induct [of ?P, rotated])
    fix f e r s y
    assume IH: "\<And>e r s z. f e r s = Some z \<Longrightarrow> ?P e r s z"
      and body: "(case r of None \<Rightarrow> Some (Ret (None, s)) | Some rip \<Rightarrow>
          if \<not> i_mount (ino_of s rip) then Some (Ret (Some rip, s))
          else case find (\<lambda>i. s_imount (super_blocks (fsys s) i) = Some rip) [0 ..< NR_SUPERS] of None \<Rightarrow> f e r s
            | Some i \<Rightarrow> and_then (iput e (Some rip) s)
                (\<lambda>s1. and_then (iget e (s_dev (super_blocks (fsys s1) i)) ROOT_INODE s1) (\<lambda>(r, s2). f e r s2))) = Some y"
    have go: "yields (f e r s) (took s0 d M)" if "owes s0 d (M + own r) s" for e r s
      using IH [of e r s] that by (auto intro!: yieldsI)
    have "yields (Some y) (took s0 d M)" if "owes s0 d (M + own r) s"
      unfolding body [symmetric] using that
      by (auto split: option.split simp: go simp del: yields_then intro!: yields_thenI [OF owes_iput] yields_thenI [OF owes_iget] go)
    then show "?P e r s y" by auto
  qed
  then show "yields (to_mounted e r s) (took s0 d M)" if "owes s0 d (M + own r) s"
    using that by (auto intro!: yieldsI)
qed

lemma owes_advance: "owes s0 d M s \<Longrightarrow> yields (advance e dirp string s) (took s0 d M)"
proof -
  let ?P = "\<lambda>e dirp (string :: name) s y. \<forall>x M. y = Ret x \<longrightarrow> owes s0 d M s \<longrightarrow> took s0 d M x"
  have "?P e dirp string s y" if "advance e dirp string s = Some y" for y
    using that
  proof (rule advance.raw_induct [of ?P, rotated])
    fix f e dirp string s y
    assume IH: "\<And>e dirp string s z. f e dirp string s = Some z \<Longrightarrow> ?P e dirp string s z"
      and body: "(let same = iget e (i_dev (ino_of s dirp)) (i_num (ino_of s dirp)) in
        if chars string = [] then same s
        else and_then (search_dir e dirp string 0 LOOK_UP s)
          (\<lambda>(r, numb, s1).
             if r \<noteq> OK then Some (Ret (None, file_err r s1))
             else if fp_rootdir (fproc s1 (fp s1)) = Some dirp \<and> chars string = chars Dot2 \<and> string \<noteq> Dot2 then same s1
             else and_then (iget e (i_dev (ino_of s1 dirp)) numb s1)
               (\<lambda>(ripo, s2). case ripo of None \<Rightarrow> Some (Ret (None, s2))
                  | Some rip \<Rightarrow>
                      (case going_up dirp rip string s2 of None \<Rightarrow> to_mounted e (Some rip) s2
                       | Some i \<Rightarrow> and_then (iput e (Some rip) s2)
                           (\<lambda>s3. case s_imount (super_blocks (fsys s3) i) of None \<Rightarrow> None
                              | Some mp \<Rightarrow> and_then (iget e (i_dev (ino_of s3 mp)) (i_num (ino_of s3 mp)) s3)
                                  (\<lambda>(rip2, s4). case rip2 of None \<Rightarrow> Some (Ret (None, s4))
                                     | Some r2 \<Rightarrow> and_then (f e r2 string s4) (\<lambda>(r3, s5). and_then (iput e (Some r2) s5) (to_mounted e r3)))))))) = Some y"
    have go: "yields (f e dirp string s) (took s0 d M)" if "owes s0 d M s" for e dirp string s M
      using IH [of e dirp string s] that by (auto intro!: yieldsI)
    have up: "yields (and_then (f e r2 string s4) (\<lambda>(r3, s5). and_then (iput e (Some r2) s5) (to_mounted e r3))) (took s0 d M)"
      if "owes s0 d (add_mset r2 M) s4" for e r2 string s4 M
    proof -
      have "yields (and_then (iput e (Some r2) s5) (to_mounted e r3)) (took s0 d M)" if "owes s0 d (add_mset r2 M + own r3) s5" for r3 s5
        by (rule yields_thenI [OF owes_iput owes_to_mounted]) (use that in \<open>simp add: ac_simps\<close>)
      then show ?thesis using that by (auto simp del: yields_then intro!: yields_thenI [OF go])
    qed
    have "yields (Some y) (took s0 d M)" if "owes s0 d M s" for M
      unfolding body [symmetric] Let_def using that
      by (auto split: option.split simp del: yields_then intro!: owes_iget yields_thenI [OF owes_search_dir] yields_thenI [OF owes_iget] yields_thenI [OF owes_iput] owes_to_mounted up)
    then show "?P e dirp string s y" by auto
  qed
  then show "yields (advance e dirp string s) (took s0 d M)" if "owes s0 d M s"
    using that by (auto intro!: yieldsI)
qed

lemma owes_root: "owes s0 d M s \<Longrightarrow> fp_rootdir (fproc s (fp s)) = Some i \<Longrightarrow> i < NR_INODES"
  by (auto simp: owes_def beside_def caller_def intro: dir_used)

lemma owes_path: "owes s0 d M s \<Longrightarrow> owes s0 d M (s\<lparr>user_path := u\<rparr>)"
  by (rule owes_soft, assumption) simp

lemma owes_slink_traverse:
  assumes o: "owes s0 d (M + own (Some rip)) s" and l: "ldip < NR_INODES"
  shows "yields (slink_traverse e rip path cs ldip s) (\<lambda>(r, t). owes s0 d (M + own (Some r)) t \<and> r < NR_INODES)"
proof -
  have fin: "yields (case r of None \<Rightarrow> None | Some r \<Rightarrow> Some (Ret (r, idup r t))) (\<lambda>(r, t). owes s0 d (M + own (Some r)) t \<and> r < NR_INODES)"
    if "owes s0 d M t" "\<And>i. r = Some i \<Longrightarrow> i < NR_INODES" for r t
    using that owes_idup [of s0 d M t] by (cases r) auto
  have m: "yields (case lp of None \<Rightarrow> None | Some mem \<Rightarrow> and_then (iput e (Some rip) (s\<lparr>fsys := x\<lparr>fs_cache := c\<rparr>\<rparr>\<lparr>user_path := mem\<rparr>))
      (\<lambda>s2. case (if mem path = SLASH then fp_rootdir (fproc s2 (fp s2)) else Some ldip) of None \<Rightarrow> None | Some r \<Rightarrow> Some (Ret (r, idup r s2))))
      (\<lambda>(r, t). owes s0 d (M + own (Some r)) t \<and> r < NR_INODES)" if "fs_frame (fsys s) x" for lp x c
  proof (cases lp)
    case (Some mem)
    have "owes s0 d (M + own (Some rip)) (s\<lparr>fsys := x\<lparr>fs_cache := c\<rparr>\<rparr>\<lparr>user_path := mem\<rparr>)"
      by (rule owes_path) (rule owes_fs, rule o, use that in simp)
    then show ?thesis unfolding Some option.case
      by (rule yields_thenI [OF owes_iput]) (rule fin, use l owes_root in \<open>auto split: if_splits\<close>)
  qed simp
  show ?thesis
    unfolding slink_traverse_def Let_def
    by (rule yields_thenI [OF frame_read_map], simp only: split_paired_all prod.case, rule yields_drop, simp only: split_paired_all prod.case) (rule m)
qed

section \<open>Walking\<close>

abbreviation took3 :: "sys \<Rightarrow> nat option \<Rightarrow> nat multiset \<Rightarrow> nat option \<times> 'a \<times> sys \<Rightarrow> bool" where
  "took3 s0 d M \<equiv> \<lambda>(r, cs, t). owes s0 d (M + own r) t"

lemma owes_walk: "owes s0 d (add_mset rip M) s \<Longrightarrow> yields (walk e rip path loops s) (took3 s0 d M)"
proof -
  let ?P = "\<lambda>e rip path (loops :: nat) s y. \<forall>x. y = Ret x \<longrightarrow> owes s0 d (add_mset rip M) s \<longrightarrow> took3 s0 d M x"
  have "?P e rip path loops s y" if "walk e rip path loops s = Some y" for y
    using that
  proof (rule walk.raw_induct [of ?P, rotated])
    fix f e rip path loops s y
    assume IH: "\<And>e rip path loops s z. f e rip path loops s = Some z \<Longrightarrow> ?P e rip path loops s z"
      and body: "(let fail = (\<lambda>s. and_then (iput e (Some rip) s) (\<lambda>s1. Some (Ret (None, [], s1)))) in
        case get_name (user_path s) path of None \<Rightarrow> None
        | Some (cs, None) \<Rightarrow> fail (file_err ENAMETOOLONG s)
        | Some (cs, Some new_name) \<Rightarrow>
            if user_path s new_name = 0 then
              if i_mode (ino_of s rip) AND I_TYPE = I_DIRECTORY then Some (Ret (Some rip, cs, s))
              else and_then (iput e (Some rip) s) (\<lambda>s1. Some (Ret (None, [], file_err ENOTDIR s1)))
            else and_then (advance e rip (Comp cs) s)
              (\<lambda>(ipo, s1). case ipo of None \<Rightarrow> fail s1
                 | Some new_ip \<Rightarrow>
                     if is_link new_ip s1 then
                       if 8 < loops + 1 then
                         and_then (iput e (Some rip) (file_err ELOOP s1))
                           (\<lambda>s2. and_then (iput e (Some new_ip) s2) (\<lambda>s3. Some (Ret (None, [], s3))))
                       else and_then (slink_traverse e new_ip path cs rip s1)
                              (\<lambda>(ip, s2). and_then (iput e (Some rip) s2) (f e ip path (loops + 1)))
                     else and_then (iput e (Some rip) s1) (f e new_ip new_name loops))) = Some y"
    have go: "yields (f e rip path loops s) (took3 s0 d M)" if "owes s0 d (add_mset rip M) s" for e rip path loops s
      using IH [of e rip path loops s] that by (auto intro!: yieldsI)
    have put: "yields (iput e (Some i) s) (owes s0 d N)" if "owes s0 d (add_mset i N) s" for e i s N
      using owes_iput [of s0 d N "Some i" s e] that by simp
    have fail: "yields (and_then (iput e (Some rip) s) (\<lambda>s1. Some (Ret (None, cs, h s1)))) (took3 s0 d M)"
      if "owes s0 d (add_mset rip M) s" "\<And>t. owes s0 d M t \<Longrightarrow> owes s0 d M (h t)" for e s cs h
      by (rule yields_thenI [OF put [OF that(1)]]) (simp add: that(2))
    have two: "owes s0 d (add_mset j (add_mset i M)) s" if "owes s0 d (add_mset i (add_mset j M)) s" for i j s
      using that by (simp add: add_mset_commute)
    have loop: "yields (and_then (iput e (Some rip) s2) (\<lambda>s3. and_then (iput e (Some k) s3) (\<lambda>s4. Some (Ret (None, [], s4))))) (took3 s0 d M)"
      if "owes s0 d (add_mset rip (add_mset k M)) s2" for k s2
      by (rule yields_thenI [OF put [OF that]]) (rule yields_thenI [OF put], auto)
    have traverse: "yields (and_then (slink_traverse e k path cs rip s1) (\<lambda>(ip, s2). and_then (iput e (Some rip) s2) (f e ip path (Suc loops)))) (took3 s0 d M)"
      if "owes s0 d (add_mset rip (add_mset k M)) s1" for k cs s1
      by (rule yields_thenI [OF owes_slink_traverse [of s0 d "add_mset rip M"]])
        (use two [OF that] in \<open>auto simp del: yields_then intro!: yields_thenI [OF put] go intro: two dest: owes_in\<close>)
    have step: "yields (and_then (iput e (Some rip) s1) (f e k new_name loops)) (took3 s0 d M)"
      if "owes s0 d (add_mset rip (add_mset k M)) s1" for k new_name s1
      by (rule yields_thenI [OF put [OF that] go])
    have "yields (Some y) (took3 s0 d M)" if o: "owes s0 d (add_mset rip M) s"
      unfolding body [symmetric] Let_def
      by (auto simp del: yields_then split: option.split intro!: fail yields_thenI [OF owes_advance [OF o]] loop traverse step simp: o)
    then show "?P e rip path loops s y" by auto
  qed
  then show "yields (walk e rip path loops s) (took3 s0 d M)" if "owes s0 d (add_mset rip M) s"
    using that by (auto intro!: yieldsI)
qed

lemma owes_cwd: "owes s0 d M s \<Longrightarrow> fp_workdir (fproc s (fp s)) = d" "owes s0 d M s \<Longrightarrow> d = Some i \<Longrightarrow> i < NR_INODES"
  by (auto simp: owes_def beside_def cwd_def)

lemma owes_last_dir: "owes s0 d M s \<Longrightarrow> yields (last_dir e path s) (took3 s0 d M)"
proof -
  assume o: "owes s0 d M s"
  have "owes s0 d (add_mset rip M) (idup rip s)" if "fp_rootdir (fproc s (fp s)) = Some rip \<or> fp_workdir (fproc s (fp s)) = Some rip" for rip
    by (rule owes_idup [OF o]) (use that owes_root [OF o] owes_cwd [OF o] in auto)
  then show ?thesis unfolding last_dir_def Let_def using o
    by (cases "user_path s path = SLASH") (auto split: option.split intro!: owes_walk)
qed

lemma owes_put: "owes s0 d (add_mset i M) s \<Longrightarrow> yields (iput e (Some i) s) (owes s0 d M)"
  using owes_iput [of s0 d M "Some i"] by simp

text \<open>\<^verbatim>\<open>eat_path\<close> may leave another working directory behind.\<close>

abbreviation strayed :: "sys \<Rightarrow> nat multiset \<Rightarrow> nat option \<times> sys \<Rightarrow> bool" where
  "strayed s0 M \<equiv> \<lambda>(r, t). \<exists>d. owes s0 d (M + own r) t"

lemma owes_eat_loop:
  assumes "owes s0 d M s" and old: "\<And>i. old = Some i \<Longrightarrow> i < NR_INODES"
  shows "yields (eat_loop e path old left s) (strayed s0 M)"
proof -
  have st: "\<exists>d. owes s0 d N (chdir_to old s)" "\<exists>d. owes s0 d N (file_err k (chdir_to old s))" if "owes s0 d N s" for d N s k
    using owes_chdir [OF that old] owes_err [OF owes_chdir [OF that old]] by blast+
  have ret: "yields (and_then (iput e (Some k) u) (\<lambda>v. Some (Ret (r, chdir_to old v)))) (strayed s0 M)"
    if "owes s0 d (add_mset k (M + own r)) u" for d k r u
    by (rule yields_thenI [OF owes_put [OF that]]) (auto intro: st)
  have loop: "yields (and_then (iput e (Some k) u) (\<lambda>v. and_then (iput e (Some l) v) (\<lambda>w. Some (Ret (None, file_err ELOOP (chdir_to old w))))))
      (strayed s0 M)" if "owes s0 d (add_mset k (add_mset l M)) u" for d k l u
    by (rule yields_thenI [OF owes_put [OF that]], rule yields_thenI [OF owes_put]) (auto intro: st)
  have round: "yields (and_then (last_dir e path s)
      (\<lambda>(ldipo, cs, s1). case ldipo of None \<Rightarrow> Some (Ret (None, chdir_to old s1))
         | Some ldip \<Rightarrow> if cs = [] then Some (Ret (Some ldip, s1))
             else and_then (advance e ldip (Comp cs) s1)
               (\<lambda>(ripo, s2). case ripo of None \<Rightarrow> and_then (iput e (Some ldip) s2) (\<lambda>s3. Some (Ret (None, chdir_to old s3)))
                  | Some rip \<Rightarrow> if \<not> is_link rip s2 then and_then (iput e (Some ldip) s2) (\<lambda>s3. Some (Ret (Some rip, chdir_to old s3)))
                      else K rip ldip cs s2))) (strayed s0 M)"
    if s: "owes s0 d M s" and K: "\<And>rip ldip cs u. owes s0 d (add_mset rip (add_mset ldip M)) u \<Longrightarrow> yields (K rip ldip cs u) (strayed s0 M)" for d s K
  proof (rule yields_thenI [OF owes_last_dir [OF s]], simp only: split_paired_all prod.case)
    fix ldipo cs s1
    assume o: "owes s0 d (M + own ldipo) s1"
    have inner: "yields (case ripo of None \<Rightarrow> and_then (iput e (Some ldip) u) (\<lambda>s3. Some (Ret (None, chdir_to old s3)))
        | Some rip \<Rightarrow> if \<not> is_link rip u then and_then (iput e (Some ldip) u) (\<lambda>s3. Some (Ret (Some rip, chdir_to old s3))) else K rip ldip cs u)
        (strayed s0 M)" if u: "owes s0 d (add_mset ldip M + own ripo) u" for ripo ldip u
    proof (cases ripo)
      case None
      show ?thesis unfolding None option.case by (rule ret) (use u None in simp)
    next
      case (Some rip)
      show ?thesis unfolding Some option.case by (rule yields_if; rule ret K) (use u Some in \<open>simp_all add: add_mset_commute\<close>)
    qed
    show "yields (case ldipo of None \<Rightarrow> Some (Ret (None, chdir_to old s1))
         | Some ldip \<Rightarrow> if cs = [] then Some (Ret (Some ldip, s1))
             else and_then (advance e ldip (Comp cs) s1)
               (\<lambda>(ripo, s2). case ripo of None \<Rightarrow> and_then (iput e (Some ldip) s2) (\<lambda>s3. Some (Ret (None, chdir_to old s3)))
                  | Some rip \<Rightarrow> if \<not> is_link rip s2 then and_then (iput e (Some ldip) s2) (\<lambda>s3. Some (Ret (Some rip, chdir_to old s3)))
                      else K rip ldip cs s2)) (strayed s0 M)"
    proof (cases ldipo)
      case None
      then show ?thesis using o st by auto
    next
      case (Some ldip)
      have "yields (Some (Ret (Some ldip, s1))) (strayed s0 M)" using o Some by auto
      moreover have "owes s0 d (add_mset ldip M) s1" using o Some by simp
      ultimately show ?thesis unfolding Some option.case
        by (intro yields_if) (assumption, rule yields_thenI [OF owes_advance], assumption, simp only: split_paired_all prod.case, rule inner)
    qed
  qed
  show ?thesis
    using assms(1)
  proof (induction left arbitrary: s d)
    case (0 s d)
    show ?case
      by (subst eat_loop.simps, unfold nat.case) (rule round [OF 0], rule loop)
  next
    case (Suc n s d)
    have link: "yields (and_then (slink_traverse e rip path cs ldip u) (\<lambda>(ip, v). and_then (iput e (Some ip) (chdir_to (Some ip) v))
        (\<lambda>w. and_then (iput e (Some ldip) w) (eat_loop e path old n)))) (strayed s0 M)"
      if u: "owes s0 d (add_mset rip (add_mset ldip M)) u" for rip ldip cs u
    proof -
      have "yields (and_then (iput e (Some ip) (chdir_to (Some ip) v)) (\<lambda>w. and_then (iput e (Some ldip) w) (eat_loop e path old n)))
          (strayed s0 M)" if "owes s0 d (add_mset ip (add_mset ldip M)) v" for ip v
        by (rule yields_thenI [OF owes_put [OF owes_chdir [OF that]]], use owes_in [OF that] in simp)
          (rule yields_thenI [OF owes_put], assumption, rule Suc.IH)
      then show ?thesis
        using u by (auto simp del: yields_then intro!: yields_thenI [OF owes_slink_traverse [of _ _ "add_mset ldip M"]] dest: owes_in)
    qed
    show ?case
      by (subst eat_loop.simps, unfold nat.case) (rule round [OF Suc.prems], rule link)
  qed
qed

definition home :: "env \<Rightarrow> sys \<Rightarrow> bool" where
  "home e s \<longleftrightarrow> (\<forall>r t. eat_path e 0 s = Some (Ret (r, t)) \<longrightarrow> fp_workdir (fproc t (fp t)) = fp_workdir (fproc s (fp s)))"

lemma owes_eat_path:
  assumes o: "owes s0 d M s" and b: "home e s"
  shows "yields (eat_path e 0 s) (took s0 d M)"
proof (rule yieldsI)
  fix x
  assume x: "eat_path e 0 s = Some (Ret x)"
  obtain r t where rt: "x = (r, t)" by (cases x)
  have "\<exists>d. owes s0 d (M + own r) t"
    using yieldsD [OF owes_eat_loop [OF o owes_cwd(2) [OF o]], of "fp_workdir (fproc s (fp s))"] x rt owes_cwd(1) [OF o] by (auto simp: eat_path_def)
  then obtain d' where d': "owes s0 d' (M + own r) t" by blast
  have "d' = d" using b x rt owes_cwd(1) [OF o] owes_cwd(1) [OF d'] by (simp add: home_def)
  then show "took s0 d M x" using d' rt by simp
qed

section \<open>New files\<close>

text \<open>
  \<^verbatim>\<open>new_node\<close> keeps the counts as long as the last component is not a symbolic link.
\<close>

definition direct :: "env \<Rightarrow> sys \<Rightarrow> bool" where
  "direct e s \<longleftrightarrow> (\<forall>dirp string t r u. last_dir e 0 s = Some (Ret (Some dirp, string, t)) \<longrightarrow>
     advance e dirp (Comp string) t = Some (Ret (Some r, u)) \<longrightarrow> \<not> is_link r u)"

lemma owes_node_loop:
  assumes o: "owes s0 d M s" and dir: "direct e s"
  shows "yields (node_loop e 0 d left s) (\<lambda>(dirpo, string, ripo, t). owes s0 d (M + own dirpo + own ripo) t)"
proof (rule yieldsI)
  fix x
  assume x: "node_loop e 0 d left s = Some (Ret x)"
  obtain dirpo string t where l: "last_dir e 0 s = Some (Ret (dirpo, string, t))"
    using x by (subst (asm) node_loop.simps) (auto simp: and_then_def split: option.splits outcome.splits)
  have t: "owes s0 d (M + own dirpo) t" using yieldsD [OF owes_last_dir [OF o] l] by simp
  show "case x of (dirpo, string, ripo, t) \<Rightarrow> owes s0 d (M + own dirpo + own ripo) t"
  proof (cases dirpo)
    case None
    then show ?thesis using x l t owes_chdir [OF t, of d] owes_cwd [OF t]
      by (subst (asm) node_loop.simps) auto
  next
    case (Some dirp)
    obtain ripo u where a: "advance e dirp (Comp string) t = Some (Ret (ripo, u))"
      using x l Some by (subst (asm) node_loop.simps) (auto simp: and_then_def split: option.splits outcome.splits)
    have "owes s0 d (M + own dirpo + own ripo) u" using yieldsD [OF owes_advance [OF t] a] Some by simp
    moreover have "r = ripo \<Longrightarrow> r = Some k \<Longrightarrow> \<not> is_link k u" for r k using dir l a Some by (auto simp: direct_def)
    ultimately show ?thesis using x l a Some by (subst (asm) node_loop.simps) (cases ripo; auto)
  qed
qed

lemma owes_in_fs: "owes s0 d M s \<Longrightarrow> yields (f (fsys s)) (fs_frame (fsys s)) \<Longrightarrow> yields (in_fs f s) (owes s0 d M)"
  by (auto simp: in_fs_def elim!: yields_mono intro: owes_fs)

lemma owes_rw_inode: "owes s0 d M s \<Longrightarrow> yields (in_fs (rw_inode io now rip rd) s) (owes s0 d M)"
  by (erule owes_in_fs) (rule frame_rw_inode)

lemma owes_truncate: "owes s0 d M s \<Longrightarrow> yields (in_fs (Fs_Map.truncate io rip) s) (owes s0 d M)"
  by (erule owes_in_fs) (rule frame_truncate)

lemma owes_alloc_inode:
  assumes o: "owes s0 d M s"
  shows "yields (alloc_inode io now uid gid dev bits (fsys s)) (\<lambda>(r, x). owes s0 d (M + own r) (s\<lparr>fsys := x\<rparr>))"
proof -
  have "owes s0 d (M + own r) (s\<lparr>fsys := x\<rparr>)" if "taken (fsys s) (r, x)" for r x
  proof (cases r)
    case (Some i)
    then have t: "i < NR_INODES" "counted i (\<lambda>n. max n 0 + 1) (fsys s) x" using that by (auto simp: taken_def)
    show ?thesis by (rule owes_count [OF o t(2)]) (use Some t o refs_nonneg(4) [of s0 i] in \<open>auto simp: owes_def\<close>)
  qed (use that o in \<open>auto simp: taken_def intro: owes_fs\<close>)
  then show ?thesis by (auto intro!: yields_mono [OF counted_alloc_inode])
qed

lemma owes_enter_node:
  assumes o: "owes s0 d (add_mset dirp M) s"
  shows "yields (enter_node e dirp string bits z0 s) (took s0 d M)"
proof -
  have two: "yields (if r \<noteq> OK then and_then (iput e (Some dirp) t) (\<lambda>s4. and_then (iput e (Some rip) (upd_ino rip g s4)) (\<lambda>s5. Some (Ret (None, file_err r s5))))
      else and_then (iput e (Some dirp) t) (\<lambda>s4. Some (Ret (Some rip, file_err r s4)))) (took s0 d M)"
    if t: "owes s0 d (add_mset dirp (add_mset rip M)) t" and g: "\<And>r. i_count (g r) = i_count r" for t rip g and r :: int
  proof (rule yields_if; rule yields_thenI [OF owes_put [OF t]])
    show "yields (and_then (iput e (Some rip) (upd_ino rip g x)) (\<lambda>s5. Some (Ret (None, file_err r s5)))) (took s0 d M)" if "owes s0 d (add_mset rip M) x" for x
      by (rule yields_thenI [OF owes_put [OF owes_ino [OF that g]]]) simp
  qed simp
  have new: "yields (and_then (in_fs (rw_inode (disk_io e) (time_now e) rip False) (upd_ino rip h t))
      (\<lambda>s2. and_then (search_only e dirp (Comp string) (i_num (ino_of s2 rip)) ENTER s2)
        (\<lambda>(r, s3). if r \<noteq> OK then and_then (iput e (Some dirp) s3) (\<lambda>s4. and_then (iput e (Some rip) (upd_ino rip g s4)) (\<lambda>s5. Some (Ret (None, file_err r s5))))
           else and_then (iput e (Some dirp) s3) (\<lambda>s4. Some (Ret (Some rip, file_err r s4)))))) (took s0 d M)"
    if t: "owes s0 d (add_mset dirp M + own (Some rip)) t" and g: "\<And>r. i_count (g r) = i_count r" "\<And>r. i_count (h r) = i_count r" for t rip g h
    by (rule yields_thenI [OF owes_rw_inode [OF owes_ino [OF t g(2)]]], rule yields_thenI [OF owes_search_only], assumption, simp only: split_paired_all prod.case)
      (rule two, use g in \<open>simp_all add: add_mset_commute\<close>)
  have none: "yields (and_then (iput e (Some dirp) t) (\<lambda>s2. Some (Ret (None, s2)))) (took s0 d M)" if "owes s0 d (add_mset dirp M + own None) t" for t
    by (rule yields_thenI [OF owes_put]) (use that in auto)
  have cs: "yields (case ripo of None \<Rightarrow> and_then (iput e (Some dirp) t) (\<lambda>s2. Some (Ret (None, s2)))
      | Some rip \<Rightarrow> and_then (in_fs (rw_inode (disk_io e) (time_now e) rip False) (upd_ino rip h t))
      (\<lambda>s2. and_then (search_only e dirp (Comp string) (i_num (ino_of s2 rip)) ENTER s2)
        (\<lambda>(r, s3). if r \<noteq> OK then and_then (iput e (Some dirp) s3) (\<lambda>s4. and_then (iput e (Some rip) (upd_ino rip g s4)) (\<lambda>s5. Some (Ret (None, file_err r s5))))
           else and_then (iput e (Some dirp) s3) (\<lambda>s4. Some (Ret (Some rip, file_err r s4)))))) (took s0 d M)"
    if "owes s0 d (add_mset dirp M + own ripo) t" "\<And>r. i_count (g r) = i_count r" "\<And>r. i_count (h r) = i_count r" for ripo t g h
    using that by (cases ripo) (simp_all only: option.case none new)
  show ?thesis
    unfolding enter_node_def Let_def
    by (rule yields_thenI [OF owes_alloc_inode [OF o]], simp only: split_paired_all prod.case) (rule cs, simp_all)
qed

lemma owes_new_node:
  assumes o: "owes s0 d M s" and dir: "direct e s"
  shows "yields (new_node e 0 bits z0 s) (took s0 d M)"
proof -
  have c: "yields (case dirpo of None \<Rightarrow> Some (Ret (None, t))
      | Some dirp \<Rightarrow> if ripo = None \<and> err_code (fsys t) = ENOENT then enter_node e dirp string bits z0 t
          else let r = (if ripo \<noteq> None then EEXIST else err_code (fsys t)) in and_then (iput e (Some dirp) t) (\<lambda>s2. Some (Ret (ripo, file_err r s2))))
      (took s0 d M)" if "owes s0 d (M + own dirpo + own ripo) t" "dirpo = None \<Longrightarrow> ripo = None" for dirpo string ripo t
  proof (cases dirpo)
    case (Some dirp)
    have "owes s0 d (add_mset dirp (M + own ripo)) t" using that Some by simp
    then show ?thesis unfolding Some option.case Let_def
      by (intro yields_if owes_enter_node yields_thenI [OF owes_put]) auto
  qed (use that in simp)
  have n: "yields (node_loop e 0 d 8 s) (\<lambda>(dirpo, string, ripo, t). dirpo = None \<longrightarrow> ripo = None)"
  proof -
    have "yields (node_loop e 0 d k t) (\<lambda>(dirpo, string, ripo, t). dirpo = None \<longrightarrow> ripo = None)" for k t
    proof (induction k arbitrary: t)
      case 0
      show ?case by (subst node_loop.simps) (auto intro!: yields_drop split: option.split simp del: yields_then)
    next
      case (Suc k)
      show ?case by (subst node_loop.simps) (auto intro!: yields_drop Suc.IH split: option.split simp del: yields_then node_loop.simps)
    qed
    then show ?thesis .
  qed
  have both: "yields (node_loop e 0 d 8 s) (\<lambda>(dirpo, string, ripo, t). owes s0 d (M + own dirpo + own ripo) t \<and> (dirpo = None \<longrightarrow> ripo = None))"
    using owes_node_loop [OF o dir, of 8] n by (auto simp: yields_def)
  show ?thesis
    unfolding new_node_def owes_cwd(1) [OF o]
    by (rule yields_thenI [OF both], simp only: split_paired_all prod.case) (rule c, simp_all)
qed

end
