(* ===== verification/Fs_Name_Counts.thy ===== *)
theory Fs_Name_Counts
  imports Fs_Walk Fs_Main
begin

unbundle bit_operations_syntax

text \<open>
  The calls that take names keep the counts: \<^verbatim>\<open>src/src/fs/link.c\<close>, \<^verbatim>\<open>open.c\<close>, \<^verbatim>\<open>stadir.c\<close>, \<^verbatim>\<open>protect.c\<close> and
  \<^verbatim>\<open>time.c\<close>, as long as the working directory of the caller is not lost on a symbolic link.
\<close>

section \<open>Common parts\<close>

declare finish.simps [simp del]

abbreviation paid :: "sys \<Rightarrow> nat option \<Rightarrow> nat multiset \<Rightarrow> 'a \<times> sys \<Rightarrow> bool" where
  "paid s0 d M \<equiv> \<lambda>(r, t). owes s0 d M t"

lemma paid_erring: "owes s0 d M s \<Longrightarrow> yields (erring s) (paid s0 d M)"
  by (simp add: erring_def)

lemma paid_finish: "owes s0 d (M + sum_list (map own rips)) s \<Longrightarrow> yields (finish e rips r s) (paid s0 d M)"
proof (induction rips arbitrary: s)
  case (Cons ripo rips)
  show ?case
    by (simp only: finish.simps, rule yields_thenI [OF owes_iput [of s0 d "M + sum_list (map own rips)"]])
      (use Cons in \<open>simp_all add: ac_simps\<close>)
qed (simp add: finish.simps)

lemma owes_fetch: "owes s0 d M s \<Longrightarrow> owes s0 d M (snd (fetch_name e path len flg s))"
  by (simp add: fetch_name_def Let_def owes_path)

lemma paid_name:
  assumes "owes s0 d M s" "\<And>t. owes s0 d M t \<Longrightarrow> t = snd (fetch_name e path len flg s) \<Longrightarrow> yields (k t) (paid s0 d N)"
    "\<And>t. owes s0 d M t \<Longrightarrow> yields (erring t) (paid s0 d N)"
  shows "yields (with_name e path len flg k s) (paid s0 d N)"
proof (cases "fetch_name e path len flg s")
  case (Pair r t)
  then have t: "owes s0 d M t" "t = snd (fetch_name e path len flg s)" using owes_fetch [OF assms(1), of e path len flg] by simp_all
  have "yields (k t) (paid s0 d N)" "yields (erring t) (paid s0 d N)" by (rule assms(2) [OF t], rule assms(3) [OF t(1)])
  then show ?thesis unfolding with_name_def Pair by simp
qed

lemma paid_file:
  assumes o: "owes s0 d M s" and h: "home e (snd (fetch_name e path len flg s))"
    and k: "\<And>rip t. owes s0 d (add_mset rip M) t \<Longrightarrow> yields (k rip t) (paid s0 d M)"
  shows "yields (with_file e path len flg k s) (paid s0 d M)"
  unfolding with_file_def
proof (rule paid_name [OF o])
  fix t
  assume t: "owes s0 d M t" "t = snd (fetch_name e path len flg s)"
  have "yields (case ripo of None \<Rightarrow> erring u | Some rip \<Rightarrow> k rip u) (paid s0 d M)" if "owes s0 d (M + own ripo) u" for ripo u
    using that k by (cases ripo) (simp_all add: paid_erring)
  then show "yields (and_then (eat_path e 0 t) (\<lambda>(ripo, s1). case ripo of None \<Rightarrow> erring s1 | Some rip \<Rightarrow> k rip s1)) (paid s0 d M)"
    using t h by (auto simp del: yields_then intro!: yields_thenI [OF owes_eat_path])
qed (rule paid_erring)

lemma paid_dir:
  assumes o: "owes s0 d M s"
    and k: "\<And>dirp string t u. owes s0 d (add_mset dirp M) t \<Longrightarrow>
      last_dir e 0 (snd (fetch_name e path len flg s)) = Some (Ret (Some dirp, string, t)) \<Longrightarrow> yields (k dirp string t) (paid s0 d M)"
  shows "yields (with_dir e path len flg k s) (paid s0 d M)"
  unfolding with_dir_def
proof (rule paid_name [OF o])
  fix t
  assume t: "owes s0 d M t" "t = snd (fetch_name e path len flg s)"
  have "yields (last_dir e 0 t) (\<lambda>(r, cs, u). owes s0 d (M + own r) u \<and> last_dir e 0 t = Some (Ret (r, cs, u)))"
    using owes_last_dir [OF t(1), of e 0] by (auto simp: yields_def)
  moreover have "yields (case r of None \<Rightarrow> erring u | Some dirp \<Rightarrow> k dirp cs u) (paid s0 d M)"
    if "owes s0 d (M + own r) u" "last_dir e 0 t = Some (Ret (r, cs, u))" for r cs u
    using that k t(2) by (cases r) (simp_all add: paid_erring)
  ultimately show "yields (and_then (last_dir e 0 t) (\<lambda>(dirpo, string, s1). case dirpo of None \<Rightarrow> erring s1 | Some dirp \<Rightarrow> k dirp string s1)) (paid s0 d M)"
    by (auto simp del: yields_then intro!: yields_thenI)
qed (rule paid_erring)

lemma paid_good:
  assumes "yields r (paid s (cwd s (fp s)) {#})"
  shows "yields r (good s)"
  using assms by (rule yields_mono) (auto simp: good_def dest: owes_end)

section \<open>Protection and times\<close>

lemmas finish_one = paid_finish [where rips = "[Some i]" for i, simplified]
lemmas finish_two = paid_finish [where rips = "[r, q]" for r q, simplified]

lemma paid_chmod: "owes s0 d {#} s \<Longrightarrow> home e (snd (fetch_name e (name_arg s) (m_i1 (mesg s)) M3 s)) \<Longrightarrow> yields (do_chmod e s) (paid s0 d {#})"
  unfolding do_chmod_def Let_def by (erule paid_file, assumption) (auto intro!: finish_one owes_ino)

lemma paid_chown: "owes s0 d {#} s \<Longrightarrow> home e (snd (fetch_name e (m_l1 (mesg s)) (m_i1 (mesg s)) M1 s)) \<Longrightarrow> yields (do_chown e s) (paid s0 d {#})"
  unfolding do_chown_def Let_def by (erule paid_file, assumption) (auto intro!: finish_one owes_ino)

lemma paid_access: "owes s0 d {#} s \<Longrightarrow> home e (snd (fetch_name e (name_arg s) (m_i1 (mesg s)) M3 s)) \<Longrightarrow> yields (do_access e s) (paid s0 d {#})"
  unfolding do_access_def Let_def
  by (rule yields_if, simp, erule paid_file, assumption) (auto simp del: yields_then intro!: finish_one yields_thenI [OF owes_forbidden])

lemma paid_utime:
  assumes "owes s0 d {#} s" "home e (snd (fetch_name e (m_p1 (mesg s)) (if m_i1 (mesg s) = 0 then m_i2 (mesg s) else m_i1 (mesg s)) M1 s))"
  shows "yields (do_utime e s) (paid s0 d {#})"
proof -
  have f: "yields (if b then forbidden e rip a t else Some (Ret (r, t))) (paid s0 d {#rip#})" if "owes s0 d {#rip#} t" for b rip a t r
    using that by (auto intro: owes_forbidden)
  have g: "yields (finish e [Some rip] r (if b then upd_ino rip h t else t)) (paid s0 d {#})"
    if "owes s0 d {#rip#} t" "\<And>r. i_count (h r) = i_count r" for rip r b h t
    using that by (auto intro!: finish_one owes_ino)
  show ?thesis
    unfolding do_utime_def Let_def
    by (rule paid_file, rule assms, rule assms, rule yields_thenI [OF f], assumption)
      (auto split: prod.split intro!: finish_one owes_ino)
qed

lemma paid_tims: "owes s0 d M s \<Longrightarrow> yields (simple (do_tims e) s) (paid s0 d M)"
  unfolding simple_def do_tims_def Let_def by (simp, erule owes_soft, simp)

section \<open>Status and directories\<close>

lemma owes_stat_inode: "owes s0 d M s \<Longrightarrow> owes s0 d M (snd (stat_inode e rip fo addr s))"
proof -
  assume o: "owes s0 d M s"
  have "owes s0 d M (s\<lparr>fsys := update_times (time_now e) rip (fsys s)\<rparr>)"
    by (rule owes_fs [OF o]) (simp add: update_times_def fs_frame_upd)
  moreover have "owes s0 d M (t\<lparr>sent := ev\<rparr>)" if "owes s0 d M t" for t ev by (rule owes_soft [OF that]) simp
  ultimately show ?thesis using o by (simp add: stat_inode_def Let_def)
qed

lemma paid_stat_finish: "owes s0 d {#rip#} s \<Longrightarrow> yields (let (r, s1) = stat_inode e rip None addr s in finish e [Some rip] r s1) (paid s0 d {#})"
  using owes_stat_inode [of s0 d "{#rip#}" s e rip None addr] by (cases "stat_inode e rip None addr s") (simp add: finish_one)

lemma paid_stat: "owes s0 d {#} s \<Longrightarrow> home e (snd (fetch_name e (m_l1 (mesg s)) (m_i1 (mesg s)) M1 s)) \<Longrightarrow> yields (do_stat e s) (paid s0 d {#})"
  unfolding do_stat_def by (erule paid_file, assumption) (rule paid_stat_finish)

lemma paid_fstat: "owes s0 d {#} s \<Longrightarrow> yields (do_fstat e s) (paid s0 d {#})"
  unfolding do_fstat_def
  by (cases "get_filp (m_i1 (mesg s)) s"; cases "fst (get_filp (m_i1 (mesg s)) s)")
    (auto dest!: get_filp_result simp: erring_def case_prod_unfold intro!: owes_stat_inode)

lemma paid_last:
  assumes o: "owes s0 d {#} s" and k: "\<And>rip t. owes s0 d {#rip#} t \<Longrightarrow> yields (k rip t) (paid s0 d {#})"
  shows "yields (with_last e path len k s) (paid s0 d {#})"
proof -
  have c: "yields (case ripo of None \<Rightarrow> erring u | Some rip \<Rightarrow> k rip u) (paid s0 d {#})" if "owes s0 d (own ripo) u" for ripo u
    using that k by (cases ripo) (simp_all add: erring_def)
  have p: "yields (and_then (iput e (Some ldip) t) (\<lambda>u. case ripo of None \<Rightarrow> erring u | Some rip \<Rightarrow> k rip u)) (paid s0 d {#})"
    if "owes s0 d ({#ldip#} + own ripo) t" for ldip ripo t
    by (rule yields_thenI [OF owes_iput [of s0 d "own ripo"] c]) (use that in \<open>simp_all add: ac_simps\<close>)
  show ?thesis
    unfolding with_last_def
    by (rule paid_dir [OF o], rule yields_thenI [OF owes_advance], assumption, simp only: split_paired_all prod.case) (rule p)
qed

lemma paid_lstat: "owes s0 d {#} s \<Longrightarrow> yields (do_lstat e s) (paid s0 d {#})"
  unfolding do_lstat_def by (erule paid_last) (rule paid_stat_finish)

lemma paid_rdlink: "owes s0 d {#} s \<Longrightarrow> yields (do_rdlink e s) (paid s0 d {#})"
proof -
  have umem: "soft s t \<Longrightarrow> soft s (if b then t\<lparr>umem := u\<rparr> else t)" for s t b u by simp
  have "yields (and_then (read_map (disk_io e) rip 0 (fsys t)) (\<lambda>(b, x). and_then (get_block (disk_io e) (i_dev (inode x rip)) b NORMAL (fs_cache x))
      (\<lambda>(bp, c). finish e [Some rip] (g x) ((h bp c)\<lparr>fsys := x\<lparr>fs_cache := k bp c\<rparr>\<rparr>)))) (paid s0 d {#})"
    if o: "owes s0 d {#rip#} t" and h: "\<And>bp c. h bp c = t \<or> (\<exists>u. h bp c = t\<lparr>umem := u\<rparr>)" for rip t g h k
  proof -
    have "owes s0 d {#rip#} ((h bp c)\<lparr>fsys := x\<lparr>fs_cache := y\<rparr>\<rparr>)" if "fs_frame (fsys t) x" for bp c x y
      using h [of bp c] o that owes_soft [of s0 d "{#rip#}" t "t\<lparr>umem := u\<rparr>" for u]
      by (auto intro!: owes_fs)
    then show ?thesis
      by (intro yields_thenI [OF frame_read_map], simp only: split_paired_all prod.case, intro yields_drop, simp only: split_paired_all prod.case) (rule finish_one)
  qed
  note r = this
  show "yields (do_rdlink e s) (paid s0 d {#})" if "owes s0 d {#} s"
    unfolding do_rdlink_def Let_def
    by (rule paid_last [OF that], rule yields_if, rule finish_one, simp) (rule r, auto)
qed

section \<open>Links\<close>

lemma paid_absent: "owes s0 d M s \<Longrightarrow> yields (absent_there e ip string s) (paid s0 d M)"
proof -
  have c: "yields (case newo of None \<Rightarrow> Some (Ret (k, t)) | Some new_ip \<Rightarrow> finish e [Some new_ip] EEXIST t) (paid s0 d M)"
    if "owes s0 d (M + own newo) t" for newo k t
    using that by (cases newo) (auto intro: finish_one)
  show "owes s0 d M s \<Longrightarrow> ?thesis"
    unfolding absent_there_def by (rule yields_thenI [OF owes_advance], assumption, simp only: split_paired_all prod.case) (rule c)
qed

lemma paid_link:
  assumes o: "owes s0 d {#} s" and h: "home e (snd (fetch_name e (m_l1 (mesg s)) (m_i1 (mesg s)) M1 s))"
  shows "yields (do_link e s) (paid s0 d {#})"
proof -
  have enter: "yields (and_then (absent_there e ip string t)
      (\<lambda>(r, s3). if r \<noteq> OK then Some (Ret (r, s3))
         else if i_dev (ino_of s3 rip) \<noteq> i_dev (ino_of s3 ip) then Some (Ret (EXDEV, s3))
         else and_then (search_only e ip (Comp string) (i_num (ino_of s3 rip)) ENTER s3) (\<lambda>(r, s4). Some (Ret (r, if r = OK then upd_ino rip g s4 else s4)))))
      (paid s0 d M)" if "owes s0 d M t" "\<And>r. i_count (g r) = i_count r" for ip string t rip g M
    using that by (auto simp del: yields_then intro!: yields_thenI [OF paid_absent] yields_thenI [OF owes_search_only] owes_ino)
  have c: "yields (and_then (case ipo of None \<Rightarrow> if err_code (fsys t) = OK then None else erring t
      | Some ip \<Rightarrow> and_then (absent_there e ip string t)
      (\<lambda>(r, s3). if r \<noteq> OK then Some (Ret (r, s3))
         else if i_dev (ino_of s3 rip) \<noteq> i_dev (ino_of s3 ip) then Some (Ret (EXDEV, s3))
         else and_then (search_only e ip (Comp string) (i_num (ino_of s3 rip)) ENTER s3) (\<lambda>(r, s4). Some (Ret (r, if r = OK then upd_ino rip g s4 else s4)))))
      (\<lambda>(r, s5). finish e [Some rip, ipo] r s5)) (paid s0 d {#})"
    if t: "owes s0 d ({#rip#} + own ipo) t" and g: "\<And>r. i_count (g r) = i_count r" for rip ipo string t g
  proof (rule yields_thenI [where P = "paid s0 d ({#rip#} + own ipo)"])
    show "yields (case ipo of None \<Rightarrow> if err_code (fsys t) = OK then None else erring t
      | Some ip \<Rightarrow> and_then (absent_there e ip string t)
      (\<lambda>(r, s3). if r \<noteq> OK then Some (Ret (r, s3))
         else if i_dev (ino_of s3 rip) \<noteq> i_dev (ino_of s3 ip) then Some (Ret (EXDEV, s3))
         else and_then (search_only e ip (Comp string) (i_num (ino_of s3 rip)) ENTER s3) (\<lambda>(r, s4). Some (Ret (r, if r = OK then upd_ino rip g s4 else s4)))))
      (paid s0 d ({#rip#} + own ipo))" using t g enter by (cases ipo) (auto simp: erring_def simp del: yields_then)
  qed (auto intro: finish_two)
  have second: "yields (let r = k; (r1, s1) = fetch_name e p l M1 t in
      if r \<noteq> OK then finish e [Some rip] r t else if r1 \<noteq> OK then and_then (iput e (Some rip) s1) erring
      else and_then (last_dir e 0 s1) (K s1)) (paid s0 d {#})"
    if t: "owes s0 d {#rip#} t" and K: "\<And>s1 x. took3 s0 d {#rip#} x \<Longrightarrow> yields (K s1 x) (paid s0 d {#})" for k p l t rip K
  proof -
    obtain r1 s1 where f: "fetch_name e p l M1 t = (r1, s1)" by fastforce
    have s1: "owes s0 d {#rip#} s1" using owes_fetch [OF t, of e p l M1] f by simp
    show ?thesis unfolding Let_def f prod.case
      by (intro yields_if finish_one t yields_thenI [OF owes_put [OF s1]] paid_erring yields_thenI [OF owes_last_dir [OF s1]] K)
  qed
  show ?thesis
    unfolding do_link_def
    by (rule paid_file [OF o h], rule second, assumption) (simp only: split_paired_all prod.case, rule c, simp_all)
qed

lemma paid_unlink_file:
  assumes o: "owes s0 d M s" and small: "\<And>rip. ripo = Some rip \<Longrightarrow> rip < NR_INODES"
  shows "yields (unlink_file e dirp ripo file_name s) (paid s0 d M)"
proof -
  have get: "yields (case ripo of Some rip \<Rightarrow> Some (Ret (Some rip, idup rip s))
      | None \<Rightarrow> and_then (search_dir e dirp file_name 0 LOOK_UP s)
          (\<lambda>(err, numb, s1). if err = OK then iget e (i_dev (ino_of s1 dirp)) numb (file_err OK s1) else Some (Ret (None, file_err err s1)))) (took s0 d M)"
    using small o by (cases ripo) (auto simp del: yields_then intro!: yields_thenI [OF owes_search_dir [OF o]] owes_iget owes_idup)
  have c: "yields (case rip1 of None \<Rightarrow> erring t
      | Some rip \<Rightarrow> and_then (search_only e dirp file_name 0 DELETE t) (\<lambda>(r, s2). finish e [Some rip] r (if r = OK then upd_ino rip g s2 else s2))) (paid s0 d M)"
    if "owes s0 d (M + own rip1) t" "\<And>r. i_count (g r) = i_count r" for rip1 t g
  proof (cases rip1)
    case (Some rip)
    have "yields (finish e [Some rip] r (if r = OK then upd_ino rip g u else u)) (paid s0 d M)" if "owes s0 d (add_mset rip M) u" for r u
      using that \<open>\<And>r. i_count (g r) = i_count r\<close> by (auto intro!: finish_one owes_ino)
    then show ?thesis using that Some by (auto simp del: yields_then intro!: yields_thenI [OF owes_search_only])
  qed (use that paid_erring in simp)
  show ?thesis
    unfolding unlink_file_def by (rule yields_thenI [OF get], simp only: split_paired_all prod.case) (rule c, simp_all)
qed

lemma paid_remove_dir:
  assumes o: "owes s0 d M s" and r: "rip < NR_INODES"
  shows "yields (remove_dir e rldirp rip dir_name s) (paid s0 d M)"
proof -
  have c: "yields (if r \<noteq> OK then Some (Ret (r, t))
      else and_then (unlink_file e rip None Dot1 t) (\<lambda>(_, s3). and_then (unlink_file e rip None Dot2 s3) (\<lambda>(_, s4). Some (Ret (OK, s4))))) (paid s0 d M)"
    if "owes s0 d M t" for r t
    using that by (auto simp del: yields_then intro!: yields_thenI [OF paid_unlink_file])
  show ?thesis
    unfolding remove_dir_def using o r
    by (auto simp del: yields_then intro!: yields_thenI [OF owes_search_only] yields_thenI [OF paid_unlink_file] c)
qed

lemma paid_unlink: "owes s0 d {#} s \<Longrightarrow> yields (do_unlink e s) (paid s0 d {#})"
proof -
  have f: "yields (finish e [Some k, Some l] r t) (paid s0 d {#})" if "owes s0 d {#k, l#} t \<or> owes s0 d {#l, k#} t" for k l r t
    by (rule finish_two) (use that in \<open>auto simp: add_mset_commute\<close>)
  have r: "yields (if b then if b' then Some (Ret (k, t)) else unlink_file e rldirp (Some rip) (Comp string) t else remove_dir e rldirp rip string t) (paid s0 d {#rip, rldirp#})"
    if t: "owes s0 d {#rip, rldirp#} t" for b b' k rip rldirp string t
    using owes_in [OF t] t by (auto intro!: paid_unlink_file paid_remove_dir)
  have c: "yields (case ripo of None \<Rightarrow> (let r = err_code (fsys t) in if r \<noteq> OK then finish e [Some rldirp] r t else None)
      | Some rip \<Rightarrow> if i_num (ino_of t rip) = ROOT_INODE then finish e [Some rldirp, Some rip] EBUSY t
          else and_then (if fs_call t = UNLINK then if is_dir rip t \<and> \<not> super_user t then Some (Ret (EPERM, t)) else unlink_file e rldirp (Some rip) (Comp string) t
              else remove_dir e rldirp rip string t) (\<lambda>(r, s2). finish e [Some rip, Some rldirp] r s2)) (paid s0 d {#})"
    if t: "owes s0 d ({#rldirp#} + own ripo) t" for ripo rldirp string t
  proof (cases ripo)
    case None
    then show ?thesis using t by (auto simp: Let_def intro!: finish_one)
  next
    case (Some rip)
    then have t: "owes s0 d {#rip, rldirp#} t" using t by (simp add: add_mset_commute)
    show ?thesis unfolding Some option.case
      by (rule yields_if, rule f, use t in simp, rule yields_thenI [OF r [OF t]]) (auto intro: f)
  qed
  show "owes s0 d {#} s \<Longrightarrow> ?thesis"
    unfolding do_unlink_def
    by (erule paid_dir, rule yields_thenI [OF owes_advance], assumption, simp only: split_paired_all prod.case) (rule c)
qed

section \<open>Renaming\<close>

lemma owes_superdirs: "owes s0 d (add_mset dirp M) s \<Longrightarrow> yields (superdirs e old dirp s) (\<lambda>((r, b), t). owes s0 d (M + own r) t)"
proof -
  let ?Q = "\<lambda>((r, b), t). owes s0 d (M + own r) t"
  let ?P = "\<lambda>e (old :: nat) dirp s y. \<forall>x. y = Ret x \<longrightarrow> owes s0 d (add_mset dirp M) s \<longrightarrow> ?Q x"
  have "?P e old dirp s y" if "superdirs e old dirp s = Some y" for y
    using that
  proof (rule superdirs.raw_induct [of ?P, rotated])
    fix f e old dirp s y
    assume IH: "\<And>e old dirp s z. f e old dirp s = Some z \<Longrightarrow> ?P e old dirp s z"
      and body: "(if dirp = old then Some (Ret ((Some dirp, True), s))
        else and_then (advance e dirp Dot2 s) (\<lambda>(nexto, s1). and_then (iput e (Some dirp) s1)
          (\<lambda>s2. case nexto of None \<Rightarrow> Some (Ret ((None, True), s2))
             | Some up \<Rightarrow> if up = dirp then Some (Ret ((Some up, False), s2)) else f e old up s2))) = Some y"
    have go: "yields (f e old dirp s) ?Q" if "owes s0 d (add_mset dirp M) s" for e old dirp s
      using IH [of e old dirp s] that by (auto intro!: yieldsI)
    have c: "yields (case nexto of None \<Rightarrow> Some (Ret ((None, True), t))
        | Some up \<Rightarrow> if up = dirp then Some (Ret ((Some up, False), t)) else f e old up t) ?Q" if "owes s0 d (M + own nexto) t" for nexto t
      using that go by (cases nexto) auto
    have p: "yields (and_then (iput e (Some dirp) t) (\<lambda>s2. case nexto of None \<Rightarrow> Some (Ret ((None, True), s2))
        | Some up \<Rightarrow> if up = dirp then Some (Ret ((Some up, False), s2)) else f e old up s2)) ?Q" if "owes s0 d (add_mset dirp M + own nexto) t" for nexto t
      by (rule yields_thenI [OF owes_put [of s0 d dirp "M + own nexto"] c]) (use that in simp)
    have "yields (Some y) ?Q" if o: "owes s0 d (add_mset dirp M) s"
      unfolding body [symmetric]
      by (rule yields_if, use o in simp, rule yields_thenI [OF owes_advance [OF o]], simp only: split_paired_all prod.case) (rule p)
    then show "?P e old dirp s y" by auto
  qed
  then show "yields (superdirs e old dirp s) ?Q" if "owes s0 d (add_mset dirp M) s"
    using that by (auto intro!: yieldsI)
qed

lemma paid_below: "owes s0 d M s \<Longrightarrow> new_dirp < NR_INODES \<Longrightarrow> yields (below e old_ip new_dirp s) (paid s0 d M)"
  unfolding below_def
  by (rule yields_thenI [OF owes_superdirs [OF owes_idup]], assumption, assumption, simp only: split_paired_all prod.case)
    (rule yields_thenI [OF owes_iput], auto)

lemma paid_rename_check:
  assumes o: "owes s0 d M s" and n: "new_dirp < NR_INODES"
  shows "yields (rename_check e old_dirp old_ip old_name new_dirp newo new_name s) (paid s0 d M)"
proof -
  have b: "yields (if c then below e old_ip new_dirp s else Some (Ret (False, s))) (paid s0 d M)" for c
    using o n by (auto intro: paid_below)
  have f: "yields (if c then Some (Ret (k, t)) else forbidden e new_dirp a t) (paid s0 d M)" if "owes s0 d M t" for c k a t
    using that by (auto intro: owes_forbidden)
  show ?thesis
    unfolding rename_check_def Let_def
    by (rule yields_thenI [OF b], simp only: split_paired_all prod.case, rule yields_thenI [OF owes_forbidden], assumption, simp only: split_paired_all prod.case,
        rule yields_thenI [OF f], assumption) auto
qed

lemma paid_rename_move: "owes s0 d M s \<Longrightarrow> yields (rename_move e old_dirp old_ip old_name new_dirp new_name s) (paid s0 d M)"
  unfolding rename_move_def Let_def
  by (auto simp del: yields_then intro!: yields_thenI [OF owes_search_only])

lemma owes_rename_parent: "owes s0 d M s \<Longrightarrow> yields (rename_parent e old_ip new_dirp s) (owes s0 d M)"
  unfolding rename_parent_def Let_def
  by (auto simp del: yields_then intro!: yields_thenI [OF owes_search_only] yields_thenI [OF paid_unlink_file] owes_ino)

lemma paid_rename_files:
  assumes o: "owes s0 d M s" and n: "new_dirp < NR_INODES" "\<And>i. newo = Some i \<Longrightarrow> i < NR_INODES"
  shows "yields (rename_files e old_dirp old_ip old_name new_dirp newo new_name s) (paid s0 d M)"
proof -
  have a: "yields (case newo of Some new_ip \<Rightarrow> if r \<noteq> OK then Some (Ret (r, t))
        else if b then remove_dir e new_dirp new_ip new_name t else unlink_file e new_dirp (Some new_ip) (Comp new_name) t
      | None \<Rightarrow> Some (Ret (r, t))) (paid s0 d M)" if "owes s0 d M t" for r b t
    using that n by (cases newo) (auto intro: paid_remove_dir paid_unlink_file)
  have m: "yields (if r = OK then rename_move e old_dirp old_ip old_name new_dirp new_name t else Some (Ret (r, t))) (paid s0 d M)" if "owes s0 d M t" for r t
    using that by (auto intro: paid_rename_move)
  have p: "yields (and_then (if c then rename_parent e old_ip new_dirp t else Some (Ret t)) (\<lambda>s4. Some (Ret (r, s4)))) (paid s0 d M)" if "owes s0 d M t" for c r t
    using owes_rename_parent [OF that] that by auto
  show ?thesis
    unfolding rename_files_def Let_def
    by (rule yields_thenI [OF paid_rename_check [OF o n(1)]], simp only: split_paired_all prod.case, rule yields_thenI [OF a], assumption,
        simp only: split_paired_all prod.case, rule yields_thenI [OF m], assumption, simp only: split_paired_all prod.case) (rule p)
qed

lemma finish_four: "owes s0 d (M + own a + own b + own c + own k) s \<Longrightarrow> yields (finish e [a, b, c, k] r s) (paid s0 d M)"
  by (rule paid_finish) (simp add: ac_simps)

lemma paid_rename: "owes s0 d {#} s \<Longrightarrow> yields (do_rename e s) (paid s0 d {#})"
proof -
  have last: "yields (and_then (if r3 \<noteq> OK then Some (Ret (r3, t))
      else case oldo of None \<Rightarrow> None | Some old_ip \<Rightarrow> case ndo of None \<Rightarrow> None | Some new_dirp \<Rightarrow> rename_files e old_dirp old_ip old_name new_dirp newo new_name t)
      (\<lambda>(r, s5). finish e [Some old_dirp, oldo, ndo, newo] (if r = SAME then OK else r) s5)) (paid s0 d {#})"
    if t: "owes s0 d ({#} + own (Some old_dirp) + own oldo + own ndo + own newo) t" for r3 oldo ndo newo old_dirp old_name new_name t
  proof (rule yields_thenI [where P = "paid s0 d ({#} + own (Some old_dirp) + own oldo + own ndo + own newo)"])
    show "yields (if r3 \<noteq> OK then Some (Ret (r3, t))
      else case oldo of None \<Rightarrow> None | Some old_ip \<Rightarrow> case ndo of None \<Rightarrow> None | Some new_dirp \<Rightarrow> rename_files e old_dirp old_ip old_name new_dirp newo new_name t)
      (paid s0 d ({#} + own (Some old_dirp) + own oldo + own ndo + own newo))"
      using t owes_in [OF t] by (cases oldo; cases ndo) (auto intro!: paid_rename_files)
  qed (simp only: split_paired_all prod.case, rule finish_four)
  have adv: "yields (case ndo of None \<Rightarrow> Some (Ret (None, t)) | Some nd \<Rightarrow> advance e nd (Comp new_name) t) (took s0 d M)"
    if "owes s0 d M t" for ndo new_name t M
    using that by (cases ndo) (auto intro: owes_advance)
  have second: "yields (let r1 = k; (f, s2) = fetch_name e p l M1 t; r2 = K1 f s2 r1 in
      and_then (last_dir e 0 s2) (\<lambda>(ndo, new_name, s3).
        let r3 = (if ndo = None then err_code (fsys s3) else r2) in
        and_then (case ndo of None \<Rightarrow> Some (Ret (None, s3)) | Some nd \<Rightarrow> advance e nd (Comp new_name) s3)
         (\<lambda>(newo, s4). and_then (if r3 \<noteq> OK then Some (Ret (r3, s4))
             else case oldo of None \<Rightarrow> None | Some old_ip \<Rightarrow> case ndo of None \<Rightarrow> None | Some new_dirp \<Rightarrow> rename_files e old_dirp old_ip old_name new_dirp newo new_name s4)
             (\<lambda>(r, s5). finish e [Some old_dirp, oldo, ndo, newo] (if r = SAME then OK else r) s5)))) (paid s0 d {#})"
    if t: "owes s0 d ({#old_dirp#} + own oldo) t" for k p l t K1 old_dirp oldo old_name
  proof -
    obtain f s2 where f: "fetch_name e p l M1 t = (f, s2)" by fastforce
    have s2: "owes s0 d ({#old_dirp#} + own oldo) s2" using owes_fetch [OF t, of e p l M1] f by simp
    show ?thesis unfolding Let_def f prod.case
      by (rule yields_thenI [OF owes_last_dir [OF s2]], simp only: split_paired_all prod.case, rule yields_thenI [OF adv], assumption, simp only: split_paired_all prod.case)
        (rule last, simp add: ac_simps)
  qed
  show "owes s0 d {#} s \<Longrightarrow> ?thesis"
    unfolding do_rename_def
    by (erule paid_dir, rule yields_thenI [OF owes_advance], assumption, simp only: split_paired_all prod.case) (rule second)
qed

section \<open>Creating files\<close>

lemma paid_mknod:
  assumes o: "owes s0 d {#} s" and n: "direct e (snd (fetch_name e (m_l1 (mesg s)) (m_i1 (mesg s)) M1 s))"
  shows "yields (do_mknod e s) (paid s0 d {#})"
proof -
  have f: "yields (and_then (iput e ip t) erring) (paid s0 d {#})" if "owes s0 d ({#} + own ip) t" for ip t
    by (rule yields_thenI [OF owes_iput [OF that]]) (rule paid_erring)
  have k: "yields (with_name e (m_l1 (mesg s)) (m_i1 (mesg s)) M1 (\<lambda>s. and_then (new_node e 0 (h s) (z s) s) (\<lambda>(ip, s1). and_then (iput e ip s1) erring)) s)
      (paid s0 d {#})" for h z
    by (rule paid_name [OF o], rule yields_thenI [OF owes_new_node], assumption, use n in simp, simp only: split_paired_all prod.case, rule f, assumption)
      (rule paid_erring)
  show ?thesis unfolding do_mknod_def Let_def using o k by auto
qed

lemma owes_enter_dots: "owes s0 d M s \<Longrightarrow> yields (enter_dots e ldirp rip string bits s) (owes s0 d M)"
  unfolding enter_dots_def Let_def
  by (auto simp del: yields_then intro!: yields_thenI [OF owes_search_only] owes_ino)

lemma paid_both: "owes s0 d (add_mset a (add_mset b M)) s \<Longrightarrow> yields (and_then (and_then (iput e (Some a) s) (iput e (Some b))) erring) (paid s0 d M)"
  by (rule yields_thenI [where P = "owes s0 d M"], rule yields_thenI [OF owes_put], assumption, erule owes_put) (rule paid_erring)

lemma paid_mkdir:
  assumes o: "owes s0 d {#} s"
    and n: "\<And>dirp string t. last_dir e 0 (snd (fetch_name e (m_l1 (mesg s)) (m_i1 (mesg s)) M1 s)) = Some (Ret (Some dirp, string, t)) \<Longrightarrow> direct e t"
  shows "yields (do_mkdir e s) (paid s0 d {#})"
proof -
  have c: "yields (case ripo of None \<Rightarrow> and_then (iput e (Some ldirp) t) erring
      | Some rip \<Rightarrow> if b then and_then (and_then (iput e (Some rip) t) (iput e (Some ldirp))) erring
          else and_then (enter_dots e ldirp rip string bits t) (\<lambda>s2. and_then (and_then (iput e (Some ldirp) s2) (iput e (Some rip))) erring)) (paid s0 d {#})"
    if t: "owes s0 d ({#ldirp#} + own ripo) t" for ripo b ldirp string bits t
  proof (cases ripo)
    case None
    then show ?thesis using t by (auto simp del: yields_then intro!: yields_thenI [OF owes_put] paid_erring)
  next
    case (Some rip)
    have o: "owes s0 d {#rip, ldirp#} t" "owes s0 d {#ldirp, rip#} t" using t Some by (simp_all add: add_mset_commute)
    show ?thesis unfolding Some option.case
      by (intro yields_if paid_both o yields_thenI [OF owes_enter_dots [OF o(2)]])
  qed
  show ?thesis
    unfolding do_mkdir_def Let_def
    by (rule paid_dir [OF o], rule yields_if, erule finish_one, rule yields_thenI [OF owes_new_node], assumption, erule n,
        simp only: split_paired_all prod.case) (rule c)
qed

lemma paid_fill_link: "owes s0 d {#i#} s \<Longrightarrow> yields (fill_link e i s) (paid s0 d {#})"
proof -
  have ret: "yields (and_then (iput e (Some i) t) erring) (paid s0 d {#})" if "owes s0 d {#i#} t" for t
    by (rule yields_thenI [OF owes_put [OF that]]) (rule paid_erring)
  have c: "yields (case bpo of None \<Rightarrow> and_then (iput e (Some i) (t\<lparr>fsys := x\<rparr>)) erring
      | Some bp \<Rightarrow> let c = k bp; s4 = t\<lparr>fsys := x\<lparr>fs_cache := h bp c\<rparr>\<rparr> in
          and_then (in_fs (rw_inode (disk_io e) (time_now e) i False) (upd_ino i (i_dirt_update (\<lambda>_. True)) s4)) (\<lambda>s5. and_then (iput e (Some i) s5) erring))
      (paid s0 d {#})" if t: "owes s0 d {#i#} t" and x: "fs_frame (fsys t) x" for bpo t x k h
  proof (cases bpo)
    case None
    show ?thesis unfolding None option.case by (rule ret, rule owes_fs [OF t x])
  next
    case (Some bp)
    have "owes s0 d {#i#} (upd_ino i (i_dirt_update (\<lambda>_. True)) (t\<lparr>fsys := x\<lparr>fs_cache := c\<rparr>\<rparr>))" for c
      by (rule owes_ino, rule owes_fs [OF t]) (use x in simp_all)
    then show ?thesis unfolding Some option.case Let_def
      by (intro yields_thenI [OF owes_rw_inode] ret)
  qed
  have m: "yields (let s2 = t; (f, s3) = fetch_name e (p s2) l M1 s2 in if f \<noteq> OK then and_then (iput e (Some i) s3) erring
      else and_then (new_block (disk_io e) i 0 (fsys s3)) (K s3)) (paid s0 d {#})"
    if t: "owes s0 d {#i#} t" and K: "\<And>u bpo x. owes s0 d {#i#} u \<Longrightarrow> fs_frame (fsys u) x \<Longrightarrow> yields (K u (bpo, x)) (paid s0 d {#})" for t p l K
  proof -
    obtain f u where f: "fetch_name e (p t) l M1 t = (f, u)" by fastforce
    have u: "owes s0 d {#i#} u" using owes_fetch [OF t, of e "p t" l M1] f by simp
    show ?thesis unfolding Let_def f prod.case
      by (rule yields_if, rule ret [OF u], rule yields_thenI [OF frame_new_block], simp only: split_paired_all prod.case) (rule K [OF u])
  qed
  show "owes s0 d {#i#} s \<Longrightarrow> ?thesis"
    unfolding fill_link_def Let_def [of "m_i1 _"]
    apply (rule yields_thenI [OF owes_truncate], assumption)
    apply (rule m)
     apply (rule owes_ino, rule owes_fs, assumption)
      apply (simp_all only: prod.case)
      apply (simp, simp)
    apply (rule c, assumption+)
    done
qed

lemma paid_symlink:
  assumes o: "owes s0 d {#} s"
    and n: "\<And>ip string t r u v. last_dir e 0 (snd (fetch_name e (m_l2 (mesg s)) (m_i2 (mesg s)) M1 s)) = Some (Ret (Some ip, string, t)) \<Longrightarrow>
      absent_there e ip string t = Some (Ret (r, u)) \<Longrightarrow> iput e (Some ip) u = Some (Ret v) \<Longrightarrow> direct e v"
  shows "yields (do_symlink e s) (paid s0 d {#})"
proof -
  have c: "yields (case newo of None \<Rightarrow> erring t | Some new_ip \<Rightarrow> fill_link e new_ip t) (paid s0 d {#})" if "owes s0 d ({#} + own newo) t" for newo t
    using that by (cases newo) (auto intro: paid_erring paid_fill_link)
  have v: "yields (if r \<noteq> OK then Some (Ret (r, v)) else and_then (new_node e 0 b z v) (\<lambda>(newo, s3). case newo of None \<Rightarrow> erring s3 | Some new_ip \<Rightarrow> fill_link e new_ip s3))
      (paid s0 d {#})" if "owes s0 d {#} v" "direct e v" for r b z v
    by (rule yields_if, use that in simp, rule yields_thenI [OF owes_new_node [OF that]], simp only: split_paired_all prod.case) (rule c)
  show ?thesis
    unfolding do_symlink_def
  proof (rule paid_dir [OF o])
    fix ip string t u
    assume t: "owes s0 d {#ip#} t" and l: "last_dir e 0 (snd (fetch_name e (m_l2 (mesg s)) (m_i2 (mesg s)) M1 s)) = Some (Ret (Some ip, string, t))"
    have "yields (absent_there e ip string t) (\<lambda>(r, u). owes s0 d {#ip#} u \<and> absent_there e ip string t = Some (Ret (r, u)))"
      using paid_absent [OF t, of e ip string] by (auto simp: yields_def)
    moreover have "yields (iput e (Some ip) u) (\<lambda>v. owes s0 d {#} v \<and> iput e (Some ip) u = Some (Ret v))" if "owes s0 d {#ip#} u" for u
      using owes_put [OF that, of e] by (auto simp: yields_def)
    ultimately show "yields (and_then (absent_there e ip string t) (\<lambda>(r, s1). and_then (iput e (Some ip) s1)
        (\<lambda>s2. if r \<noteq> OK then Some (Ret (r, s2)) else and_then (new_node e 0 (I_SYMBOLIC_LINK OR RWX_MODES) 0 s2)
            (\<lambda>(newo, s3). case newo of None \<Rightarrow> erring s3 | Some new_ip \<Rightarrow> fill_link e new_ip s3)))) (paid s0 d {#})"
      using n [OF l] by (elim yields_thenI, simp only: split_paired_all prod.case) (rule yields_thenI, blast, rule v, auto)
  qed
qed

end
