(* ===== verification/Fs_Open_Counts.thy ===== *)
theory Fs_Open_Counts
  imports Fs_Name_Counts
begin

unbundle bit_operations_syntax

text \<open>
  Calls on names that change the tables keep their counts: \<^verbatim>\<open>chdir\<close>, \<^verbatim>\<open>chroot\<close>, \<^verbatim>\<open>open\<close> and \<^verbatim>\<open>creat\<close>.
\<close>

section \<open>Directories of a process\<close>

text \<open>One of the two directories of the caller becomes \<open>rip\<close>; the counts of the inodes have been changed before.\<close>

lemma new_dir:
  assumes o: "owes s (cwd s (fp s)) M u" and rip: "rip < NR_INODES"
    and g: "(\<forall>r. fp_rootdir (g r) = Some rip \<and> fp_workdir (g r) = fp_workdir r \<and> dir r = fp_rootdir r) \<or>
      (\<forall>r. fp_workdir (g r) = Some rip \<and> fp_rootdir (g r) = fp_rootdir r \<and> dir r = fp_workdir r)"
    and keep: "\<And>r. fp_filp (g r) = fp_filp r \<and> fp_revived (g r) = fp_revived r \<and> fp_suspended (g r) = fp_suspended r"
    and x: "\<And>i. i_count (inode x i) = refs u i - of_bool (dir (fproc u (fp u)) = Some i) + of_bool (i = rip)"
      "\<And>k. s_isup (super_blocks x k) = s_isup (super_blocks (fsys u) k) \<and> s_imount (super_blocks x k) = s_imount (super_blocks (fsys u) k)"
  shows "sys_inv (upd_fproc (fp u) g (u\<lparr>fsys := x\<rparr>))" (is "sys_inv ?t")
proof -
  note p = owes_parts [OF o]
  have de: "desc ?t = desc u" using keep by (auto simp: desc_def fun_eq_iff)
  have us: "users ?t = users u" by (rule ext) (simp add: users_def de)
  have fr: "file_refs ?t = file_refs u" by (simp add: file_refs_def fun_eq_iff)
  have su: "super_refs ?t = super_refs u \<and> lone ?t = lone u" by (rule super_refs_cong) (use x(2) in simp)
  have dr: "dir_refs ?t i = dir_refs u i - of_bool (dir (fproc u (fp u)) = Some i) + of_bool (i = rip)" for i
    unfolding dir_refs_def
    by (subst sum_change [of procs "fp u"]) (use p(15) g in \<open>auto simp: caller_def in_dirs_def\<close>)
  have old: "i < NR_INODES" if "dir (fproc u (fp u)) = Some i" for i
  proof -
    have "1 \<le> in_dirs (fproc u (fp u)) i" using that g by (auto simp: in_dirs_def)
    also have "\<dots> \<le> dir_refs u i" unfolding dir_refs_def by (rule member_le_sum) (use p(15) in \<open>auto simp: caller_def in_dirs_def\<close>)
    finally show ?thesis using refs_nonneg(1,3) [of u i] p(11) [of i] by (cases "i < NR_INODES") (auto simp: refs_def)
  qed
  have "inodes_ok ?t"
    unfolding inodes_ok_def using p(4,11) old rip su by (auto simp: refs_def fr dr x ino_of_def)
  moreover have "filps_ok ?t" using p(1) by (simp add: filps_ok_def de us)
  moreover have "locks_ok ?t" using p(2) by (simp add: locks_ok_def used_locks_def)
  moreover have "revive_ok ?t" by (rule revive_ok_flag [OF p(3)]) (use keep p(3) in \<open>auto simp: revive_ok_def\<close>)
  ultimately show ?thesis by (simp add: sys_inv_def)
qed

lemma iput_result: "yields (iput e r s) (\<lambda>t. \<exists>x. t = s\<lparr>fsys := x\<rparr> \<and> (\<forall>i. i_count (inode x i) = i_count (ino_of s i) - of_bool (r = Some i)) \<and>
    (\<forall>k. s_isup (super_blocks x k) = s_isup (super_blocks (fsys s) k) \<and> s_imount (super_blocks x k) = s_imount (super_blocks (fsys s) k)))"
proof (cases r)
  case None
  then show ?thesis by (auto simp: iput_def in_fs_def fs_frame_def ino_of_def intro!: yields_mono [OF frame_put_None])
next
  case (Some i)
  then show ?thesis by (auto simp: iput_def in_fs_def counted_def ino_of_def intro!: yields_mono [OF counted_put_inode])
qed

lemma good_change:
  assumes inv: "sys_inv s" "caller s" and h: "home e (snd (fetch_name e name_ptr len M3 s))"
    and g: "(dir = fp_rootdir \<and> set_dir = set_rootdir) \<or> (dir = fp_workdir \<and> set_dir = set_workdir)"
  shows "yields (change e dir set_dir name_ptr len s) (good s)"
proof -
  let ?d = "cwd s (fp s)"
  have o: "owes s ?d {#} s" by (rule owes_start [OF inv])
  have paid: "yields r (paid s ?d {#}) \<Longrightarrow> yields r (good s)" for r by (rule paid_good)
  have set: "yields (and_then (iput e (dir (fproc t (fp t))) t) (\<lambda>s2. Some (Ret (OK, upd_fproc (fp s2) (set_dir (Some rip)) s2)))) (good s)"
    if t: "owes s ?d {#rip#} t" for rip t
  proof -
    note p = owes_parts [OF t]
    have "good s (OK, upd_fproc (fp t) (set_dir (Some rip)) (t\<lparr>fsys := x\<rparr>))"
      if "\<And>i. i_count (inode x i) = i_count (ino_of t i) - of_bool (dir (fproc t (fp t)) = Some i)"
        "\<And>k. s_isup (super_blocks x k) = s_isup (super_blocks (fsys t) k) \<and> s_imount (super_blocks x k) = s_imount (super_blocks (fsys t) k)" for x
    proof -
      have "sys_inv (upd_fproc (fp t) (set_dir (Some rip)) (t\<lparr>fsys := x\<rparr>))"
        by (rule new_dir [OF t, of rip _ dir]) (use g that p(10) owes_in [OF t] in auto)
      then show ?thesis using p(13) by (simp add: good_def)
    qed
    then show ?thesis by (auto simp del: yields_then intro!: yields_thenI [OF iput_result])
  qed
  have c: "yields (if r \<noteq> OK then finish e [Some rip] r t
      else and_then (iput e (dir (fproc t (fp t))) t) (\<lambda>s2. Some (Ret (OK, upd_fproc (fp s2) (set_dir (Some rip)) s2)))) (good s)"
    if t: "owes s ?d {#rip#} t" for r rip t
    by (rule yields_if, rule paid, rule finish_one, use t in simp, rule set [OF t])
  have f: "yields (if b then Some (Ret (ENOTDIR, t)) else forbidden e rip X_BIT t) (paid s ?d {#rip#})" if "owes s ?d {#rip#} t" for b rip t
    using that by (auto intro: owes_forbidden)
  have opened: "yields (case ripo of None \<Rightarrow> erring t | Some rip \<Rightarrow> and_then (if \<not> is_dir rip t then Some (Ret (ENOTDIR, t)) else forbidden e rip X_BIT t)
      (\<lambda>(r, s1). if r \<noteq> OK then finish e [Some rip] r s1
         else and_then (iput e (dir (fproc s1 (fp s1))) s1) (\<lambda>s2. Some (Ret (OK, upd_fproc (fp s2) (set_dir (Some rip)) s2))))) (good s)"
    if t: "owes s ?d ({#} + own ripo) t" for ripo t
  proof (cases ripo)
    case None
    show ?thesis unfolding None option.case by (rule paid, rule paid_erring) (use t None in simp)
  next
    case (Some rip)
    show ?thesis unfolding Some option.case
      by (rule yields_thenI [OF f], use t Some in simp, simp only: split_paired_all prod.case) (rule c)
  qed
  obtain r t where n: "fetch_name e name_ptr len M3 s = (r, t)" by fastforce
  have t: "owes s ?d {#} t" "home e t" using owes_fetch [OF o, of e name_ptr len M3] h n by simp_all
  show ?thesis
    unfolding change_def with_file_def with_name_def n Let_def prod.case
    by (rule yields_if, rule paid, rule paid_erring, rule t, rule yields_thenI [OF owes_eat_path [OF t]], simp only: split_paired_all prod.case) (rule opened)
qed

lemma inv_take_dir:
  assumes inv: "sys_inv s" "caller s" and p: "p \<in> procs"
    and g: "(dir = fp_rootdir \<and> set_dir = set_rootdir) \<or> (dir = fp_workdir \<and> set_dir = set_workdir)"
  shows "yields (take_dir e dir set_dir p s) (\<lambda>t. sys_inv t \<and> fp t = fp s \<and> who t = who s)"
proof -
  have o: "owes s (cwd s (fp s)) {#} s" by (rule owes_start [OF inv])
  have "sys_inv (idup rip (upd_fproc (fp s) (set_dir (Some rip)) (s\<lparr>fsys := x\<rparr>)))"
    if x: "\<And>i. i_count (inode x i) = i_count (ino_of s i) - of_bool (dir (fproc s (fp s)) = Some i)"
      "\<And>k. s_isup (super_blocks x k) = s_isup (super_blocks (fsys s) k) \<and> s_imount (super_blocks x k) = s_imount (super_blocks (fsys s) k)"
      and rip: "dir (fproc s p) = Some rip" for x rip
  proof -
    have "sys_inv (upd_fproc (fp s) (set_dir (Some rip)) (s\<lparr>fsys := dup_inode rip x\<rparr>))"
      by (rule new_dir [OF o, of rip _ dir]) (use g x owes_parts(10) [OF o] dir_used [OF inv(1) p] rip in \<open>auto simp: dup_inode_def upd_inode_def\<close>)
    moreover have "idup rip (upd_fproc (fp s) (set_dir (Some rip)) (s\<lparr>fsys := x\<rparr>)) = upd_fproc (fp s) (set_dir (Some rip)) (s\<lparr>fsys := dup_inode rip x\<rparr>)"
      by (simp add: idup_def upd_fproc_def)
    ultimately show ?thesis by simp
  qed
  then show ?thesis
    unfolding take_dir_def by (auto simp del: yields_then split: option.split simp: idup_def intro!: yields_thenI [OF iput_result])
qed

lemma good_chdir:
  assumes inv: "sys_inv s" "caller s" and mm: "who s = MM_PROC_NR \<Longrightarrow> m_i1 (mesg s) \<in> procs"
    and h: "who s \<noteq> MM_PROC_NR \<Longrightarrow> home e (snd (fetch_name e (name_arg s) (m_i1 (mesg s)) M3 s))"
  shows "yields (do_chdir e s) (good s)"
proof (cases "who s = MM_PROC_NR")
  case True
  let ?p = "m_i1 (mesg s)"
  have ids: "sys_inv (upd_fproc p g t) = sys_inv t" if "\<And>r. erase (g r) = erase r \<and> fp_revived (g r) = fp_revived r \<and> fp_suspended (g r) = fp_suspended r" for p g t
  proof -
    have r: "fp_filp (g r) = fp_filp r \<and> fp_rootdir (g r) = fp_rootdir r \<and> fp_workdir (g r) = fp_workdir r \<and> fp_revived (g r) = fp_revived r \<and> fp_suspended (g r) = fp_suspended r" for r
      using erase_sel [of "g r" r] that [of r] by simp
    have "fp_filp ((fproc (upd_fproc p g t)) q) = fp_filp (fproc t q)" "fp_rootdir ((fproc (upd_fproc p g t)) q) = fp_rootdir (fproc t q)"
      "fp_workdir ((fproc (upd_fproc p g t)) q) = fp_workdir (fproc t q)" "fp_revived ((fproc (upd_fproc p g t)) q) = fp_revived (fproc t q)"
      "fp_suspended ((fproc (upd_fproc p g t)) q) = fp_suspended (fproc t q)" for q using r by simp_all
    then show ?thesis
      unfolding inv_fields users_def desc_def revived_def used_locks_def in_dirs_def ino_of_def upd_fproc_sel(1,2,4,5) by (simp del: upd_fproc_sel(3))
  qed
  have two: "yields (and_then (take_dir e fp_rootdir set_rootdir ?p s) (take_dir e fp_workdir set_workdir ?p)) (\<lambda>t. sys_inv t \<and> who t = who s)"
    by (rule yields_thenI [OF inv_take_dir [OF inv mm [OF True]]], simp)
      (rule yields_mono [OF inv_take_dir], use inv mm True in \<open>auto simp: caller_def\<close>)
  show ?thesis
    unfolding do_chdir_def if_P [OF True] Let_def
    by (rule yields_thenI [OF two]) (simp add: good_def, subst ids, simp_all add: erase_def)
next
  case False
  then show ?thesis using good_change [OF inv h [OF False]] by (simp add: do_chdir_def)
qed

lemma good_chroot:
  assumes inv: "sys_inv s" "caller s" and h: "home e (snd (fetch_name e (name_arg s) (m_i1 (mesg s)) M3 s))"
  shows "yields (do_chroot e s) (good s)"
  using good_change [OF inv h] inv(1) by (simp add: do_chroot_def good_def)

section \<open>Claiming a descriptor\<close>

text \<open>The descriptor \<open>d\<close> of the caller is the only one that leads to the filp slot \<open>f\<close>, which is open for the inode \<open>rip\<close>.\<close>

definition holding :: "sys \<Rightarrow> nat \<Rightarrow> nat \<Rightarrow> nat \<Rightarrow> sys \<Rightarrow> bool" where
  "holding c d f rip t \<longleftrightarrow> sys_inv t \<and> caller t \<and> fp t = fp c \<and> who t = who c \<and> m_i1 (mesg t) = int d \<and> d < OPEN_MAX \<and>
     desc t (fp c, d) = Some f \<and> f < NR_FILPS \<and> filp_count (filp t f) = 1 \<and> filp_ino (filp t f) = rip"

lemma holding_claim:
  assumes o: "owes c (cwd c (fp c)) {#rip#} t" and d: "d < OPEN_MAX" "desc c (fp c, d) = None" "m_i1 (mesg c) = int d"
    and f: "f < NR_FILPS" "filp_count (filp c f) = 0"
  shows "holding c d f rip (claim_file d f rip fl t)" (is "holding c d f rip ?t")
proof -
  note p = owes_parts [OF o]
  have a: "(fp t, d) \<in> slots" using p(15) d by (simp add: slots_def caller_def)
  have de: "desc ?t = (desc t)((fp t, d) := Some f)" by (simp add: claim_file_def)
  have dn: "desc t (fp t, d) = None" using d p(9,12) by simp
  have us: "users ?t g = users t g + of_bool (g = f)" for g using users_change [OF de a] dn by auto
  have u0: "users t f = 0" using p(1,16) f by (simp add: filps_ok_def)
  have fl: "filp ?t = (filp t)(f := (filp t f)\<lparr>filp_count := 1, filp_ino := rip, filp_flags := fl\<rparr>)" by (simp add: claim_file_def)
  have "filps_ok ?t" unfolding filps_ok_def de us fl using p(1) f u0 by (auto simp: filps_ok_def)
  moreover have "file_refs ?t i = file_refs t i + of_bool (i = rip)" for i
    using file_refs_change [OF fl f(1)] f p(16) by (auto simp: opened_def)
  moreover have "dir_refs ?t = dir_refs t" by (rule dir_refs_cong) (simp add: claim_file_def set_desc_def)
  moreover have "super_refs ?t = super_refs t \<and> lone ?t = lone t" by (rule super_refs_cong) (simp add: claim_file_def)
  moreover have "ino_of ?t = ino_of t" by (simp add: claim_file_def ino_of_def fun_eq_iff)
  moreover have "rip < NR_INODES" using owes_in [OF o] by simp
  ultimately have "inodes_ok ?t" using p(4,10,11) by (auto simp: inodes_ok_def refs_def)
  moreover have "revive_ok ?t" by (rule revive_ok_flag [OF p(3)]) (use p(3) in \<open>auto simp: claim_file_def set_desc_def revive_ok_def\<close>)
  moreover have "locks_ok ?t" using p(2) by (simp add: locks_ok_def used_locks_def claim_file_def)
  ultimately have "sys_inv ?t" using \<open>filps_ok ?t\<close> by (simp add: sys_inv_def)
  then show ?thesis using p(12-15) d(1,3) f de fl by (simp add: holding_def caller_def claim_file_def)
qed

lemma holding_owes: "holding c d f rip s \<Longrightarrow> owes s (cwd s (fp s)) {#} t \<Longrightarrow> holding c d f rip t"
  using owes_end [of s t] owes_parts [of s "{#}" t] by (simp add: holding_def)

lemma holding_start: "holding c d f rip s \<Longrightarrow> owes s (cwd s (fp s)) {#} s"
  by (rule owes_start) (simp_all add: holding_def)

lemma holding_soft: "holding c d f rip s \<Longrightarrow> soft s t \<Longrightarrow> holding c d f rip t"
  by (rule holding_owes, assumption, rule owes_soft [OF holding_start])

lemma release_file:
  assumes h: "holding c d f rip t"
  shows "yields (iput e (Some rip) (upd_filp f (filp_count_update (\<lambda>_. 0)) (set_desc d None t))) (\<lambda>u. sys_inv u \<and> who u = who c)"
proof -
  have inv: "sys_inv t" and a: "(fp t, d) \<in> slots" "desc t (fp t, d) = Some f" and q: "filp_count (filp t f) = 1" "filp_ino (filp t f) = rip" "who t = who c"
    using h by (auto simp: holding_def slots_def caller_def)
  have "sys_inv (upd_filp f (filp_count_update (\<lambda>_. 0)) (set_desc d None t)\<lparr>fsys := x\<rparr>)" if x: "counted rip (\<lambda>n. n - 1) (fsys t) x" for x
  proof -
    let ?t = "(upd_filp f (filp_count_update (\<lambda>n. n - 1)) t)\<lparr>fsys := x\<rparr>"
    have "dropped f t ?t" unfolding dropped_def using x q by auto
    from close_counts [OF inv a this, of "\<lambda>w. w"]
    have "sys_inv (set_desc d None (upd_fproc (fp ?t) (fp_cloexec_update (\<lambda>w. w)) ?t))" .
    moreover have "set_desc d None (upd_fproc (fp ?t) (fp_cloexec_update (\<lambda>w. w)) ?t) = upd_filp f (filp_count_update (\<lambda>_. 0)) (set_desc d None t)\<lparr>fsys := x\<rparr>"
    proof -
      have c: "fp_cloexec_update (\<lambda>w. w) r = r" for r :: fproc by (cases r) simp
      have "filp_count_update (\<lambda>n. n - 1) (filp t f) = filp_count_update (\<lambda>_. 0) (filp t f)" using q(1) by (cases "filp t f") simp
      then show ?thesis by (cases t) (simp add: set_desc_def upd_fproc_def upd_filp_def c)
    qed
    ultimately show ?thesis by simp
  qed
  then show ?thesis using q(3)
    by (auto simp: iput_def in_fs_def intro!: yields_mono [OF counted_put_inode])
qed

section \<open>Opening\<close>

definition settled :: "sys \<Rightarrow> nat \<Rightarrow> nat \<Rightarrow> nat \<Rightarrow> int \<times> sys \<Rightarrow> bool" where
  "settled c d f rip = (\<lambda>(r, t). sys_inv t \<and> who t = who c \<and> (r \<noteq> OK \<longrightarrow> holding c d f rip t))"

lemma settled_holding: "holding c d f rip t \<Longrightarrow> settled c d f rip (r, t)"
  by (simp add: settled_def holding_def)

lemma soft_pipe_open: "yields (pipe_open rip bits fl s) (\<lambda>(r, t). soft s t)"
proof -
  have u: "soft s t \<Longrightarrow> soft s (upd_ino rip (i_pipe_update g) t)" for t g by (erule soft_trans) (simp add: soft_upd_ino)
  have w: "soft s t \<Longrightarrow> yields (release ip k n t) (soft s)" for t ip k n
    by (rule yields_mono [OF woken_release]) (auto dest: woken_soft intro: soft_trans)
  show ?thesis
    unfolding pipe_open_def Let_def
    by (auto simp del: yields_then intro!: u soft_suspend yields_thenI [OF w] w)
qed

lemma share_pipe:
  assumes h: "holding c d f rip s" and g: "g < NR_FILPS" "g \<noteq> f" "filp_count (filp s g) \<noteq> 0" "filp_ino (filp s g) = rip"
  shows "sys_inv (upd_ino rip (i_count_update (\<lambda>n. n - 1)) (upd_filp g (\<lambda>q. q\<lparr>filp_count := filp_count q + 1, filp_ino := rip, filp_flags := fl\<rparr>)
      (set_desc d (Some g) (upd_filp f (filp_count_update (\<lambda>_. 0)) s))))" (is "sys_inv ?t")
proof -
  have fo: "filps_ok s" and io: "inodes_ok s" and lo: "locks_ok s" and ro: "revive_ok s"
    and a: "(fp s, d) \<in> slots" "desc s (fp s, d) = Some f" and f: "f < NR_FILPS" "filp_count (filp s f) = 1" "filp_ino (filp s f) = rip"
    using h by (auto simp: holding_def sys_inv_def slots_def caller_def)
  have de: "desc ?t = (desc s)((fp s, d) := Some g)" by (simp add: upd_ino_def)
  have us: "users ?t k = users s k - of_bool (k = f) + of_bool (k = g)" for k using users_change [OF de a(1)] a(2) by auto
  have fl: "filp ?t = (filp s)(f := (filp s f)\<lparr>filp_count := 0\<rparr>, g := (filp s g)\<lparr>filp_count := filp_count (filp s g) + 1, filp_ino := rip, filp_flags := fl\<rparr>)"
    using g(2) by (simp add: upd_ino_def fun_upd_twist)
  have uf: "filp_count (filp s f) = users s f" "filp_count (filp s g) = users s g" using fo f(1) g(1) by (simp_all add: filps_ok_def)
  have pos: "filp_count (filp s g) + 1 \<noteq> 0" using uf users_nonneg [of s g] by simp
  have "filps_ok ?t" unfolding filps_ok_def de us fl using fo f g uf by (auto simp: filps_ok_def)
  moreover have "file_refs ?t i = file_refs s i - of_bool (i = rip)" for i
  proof -
    let ?m = "upd_filp f (filp_count_update (\<lambda>_. 0)) s"
    have "file_refs ?m i = file_refs s i - of_bool (i = rip)"
      using file_refs_change [of ?m s f _ i] f by (auto simp: opened_def)
    moreover have "file_refs ?t i = file_refs ?m i"
      using file_refs_change [of ?t ?m g _ i] fl g f pos by (auto simp: opened_def)
    ultimately show ?thesis by simp
  qed
  moreover have "dir_refs ?t = dir_refs s" by (rule dir_refs_cong) (simp add: upd_ino_def set_desc_def)
  moreover have "super_refs ?t = super_refs s \<and> lone ?t = lone s" by (rule super_refs_cong) (simp add: upd_ino_def upd_inode_def)
  moreover have "i_count (ino_of ?t i) = i_count (ino_of s i) - of_bool (i = rip)" for i by (simp add: upd_ino_def ino_of_def upd_inode_def)
  moreover have "rip < NR_INODES"
  proof (rule refs_small)
    show "sys_inv s" using h by (simp add: holding_def)
    have "1 \<le> file_refs s rip"
      unfolding file_refs_def using f member_le_sum [of f "{..< NR_FILPS}" "\<lambda>q. opened (filp s q) rip"] by (auto simp: opened_def)
    then show "refs s rip > 0" using refs_nonneg(2,3) [of s rip] by (simp add: refs_def)
  qed
  ultimately have "inodes_ok ?t" using io by (auto simp: inodes_ok_def refs_def)
  moreover have "revive_ok ?t" by (rule revive_ok_flag [OF ro]) (use ro in \<open>auto simp: upd_ino_def set_desc_def revive_ok_def\<close>)
  moreover have "locks_ok ?t" using lo by (simp add: locks_ok_def used_locks_def upd_ino_def)
  ultimately show ?thesis using \<open>filps_ok ?t\<close> by (simp add: sys_inv_def)
qed

lemma settled_open_pipe:
  assumes h: "holding c d f rip s"
  shows "yields (open_pipe rip bits fl d f s) (settled c d f rip)"
proof -
  have s1: "holding c d f rip (upd_filp f (filp_flags_update (\<lambda>_. k)) s)" for k
    by (rule holding_soft [OF h]) (simp add: soft_upd_filp)
  have fin: "settled c d f rip (OK, case find_filp rip b (upd_filp f (filp_count_update (\<lambda>_. 0)) t) of
        Some g \<Rightarrow> upd_ino rip (i_count_update (\<lambda>n. n - 1)) (upd_filp g (\<lambda>q. q\<lparr>filp_count := filp_count q + 1, filp_ino := rip, filp_flags := k\<rparr>)
           (set_desc d (Some g) (upd_filp f (filp_count_update (\<lambda>_. 0)) t)))
      | None \<Rightarrow> upd_filp f (\<lambda>q. q\<lparr>filp_count := 1, filp_pos := pos\<rparr>) (upd_filp f (filp_count_update (\<lambda>_. 0)) t))"
    if t: "holding c d f rip t" for t pos k and b :: "16 word"
  proof (cases "find_filp rip b (upd_filp f (filp_count_update (\<lambda>_. 0)) t)")
    case None
    have e: "upd_filp f (\<lambda>q. q\<lparr>filp_count := 1, filp_pos := pos\<rparr>) (upd_filp f (filp_count_update (\<lambda>_. 0)) t) = upd_filp f (\<lambda>q. q\<lparr>filp_count := 1, filp_pos := pos\<rparr>) t"
      by (simp add: upd_filp_def)
    have "soft t (upd_filp f (\<lambda>q. q\<lparr>filp_count := 1, filp_pos := pos\<rparr>) t)" by (rule soft_upd_filp) (use t in \<open>simp_all add: holding_def\<close>)
    then show ?thesis using None holding_soft [OF t] by (simp add: e settled_holding)
  next
    case (Some g)
    then have "g < NR_FILPS" "g \<noteq> f" "filp_count (filp t g) \<noteq> 0" "filp_ino (filp t g) = rip"
      by (auto simp: find_filp_def find_Some_iff split: if_splits dest: nth_mem)
    from share_pipe [OF t this] show ?thesis using Some t by (simp add: settled_def holding_def upd_ino_def)
  qed
  have c: "yields (case find_filp rip b (upd_filp f (filp_count_update (\<lambda>_. 0)) t) of
        Some g \<Rightarrow> Some (Ret (OK, upd_ino rip (i_count_update (\<lambda>n. n - 1)) (upd_filp g (\<lambda>q. q\<lparr>filp_count := filp_count q + 1, filp_ino := rip, filp_flags := k\<rparr>)
           (set_desc d (Some g) (upd_filp f (filp_count_update (\<lambda>_. 0)) t)))))
      | None \<Rightarrow> Some (Ret (OK, upd_filp f (\<lambda>q. q\<lparr>filp_count := 1, filp_pos := pos\<rparr>) (upd_filp f (filp_count_update (\<lambda>_. 0)) t)))) (settled c d f rip)"
    if "holding c d f rip t" for t pos k and b :: "16 word"
    using fin [OF that, of pos k b] by (auto split: option.splits)
  show ?thesis
    unfolding open_pipe_def Let_def
    by (rule yields_thenI [OF soft_pipe_open], simp only: split_paired_all prod.case, drule holding_soft [OF s1])
      (rule yields_if, simp add: settled_holding, erule c)
qed

text \<open>A network device: the filp slot is given the new inode, the old one is released.\<close>

lemma cloned_file:
  assumes h: "holding c d f rip s" and o: "owes s (cwd s (fp s)) {#nr#} t" and x: "counted rip (\<lambda>n. n - 1) (fsys t) x"
  shows "sys_inv (upd_filp f (filp_ino_update (\<lambda>_. nr)) (t\<lparr>fsys := x\<rparr>))" (is "sys_inv ?t")
proof -
  note p = owes_parts [OF o]
  have f: "f < NR_FILPS" "filp_count (filp t f) = 1" "filp_ino (filp t f) = rip" using h p(16,17) by (auto simp: holding_def)
  have us: "desc ?t = desc t" "users ?t = users t" by (simp_all add: desc_def fun_eq_iff users_def)
  have fl: "filp ?t = (filp t)(f := (filp t f)\<lparr>filp_ino := nr\<rparr>)" by simp
  have "filps_ok ?t" using p(1) by (simp add: filps_ok_def us)
  moreover have "file_refs ?t i = file_refs t i - of_bool (i = rip) + of_bool (i = nr)" for i
    using file_refs_change [OF fl f(1)] f by (auto simp: opened_def)
  moreover have "dir_refs ?t = dir_refs t" by (rule dir_refs_cong) simp
  moreover have "super_refs ?t = super_refs t \<and> lone ?t = lone t" by (rule super_refs_cong) (use x in \<open>simp add: counted_def\<close>)
  moreover have "i_count (ino_of ?t i) = i_count (ino_of t i) - of_bool (i = rip)" for i using x by (auto simp: counted_def ino_of_def)
  moreover have "nr < NR_INODES" using owes_in [OF o] by simp
  moreover have "rip < NR_INODES"
  proof (rule refs_small)
    show "sys_inv s" using h by (simp add: holding_def)
    have "1 \<le> file_refs s rip"
      unfolding file_refs_def using h member_le_sum [of f "{..< NR_FILPS}" "\<lambda>q. opened (filp s q) rip"] by (auto simp: opened_def holding_def)
    then show "refs s rip > 0" using refs_nonneg(2,3) [of s rip] by (simp add: refs_def)
  qed
  ultimately have "inodes_ok ?t" using p(4,10,11) by (auto simp: inodes_ok_def refs_def)
  moreover have "revive_ok ?t" by (rule revive_ok_flag [OF p(3)]) (use p(3) in \<open>auto simp: revive_ok_def\<close>)
  moreover have "locks_ok ?t" using p(2) by (simp add: locks_ok_def used_locks_def)
  ultimately show ?thesis using \<open>filps_ok ?t\<close> by (simp add: sys_inv_def)
qed

lemma settled_net_open:
  assumes h: "holding c d f rip s"
  shows "yields (net_open e mp s) (\<lambda>(m, t). settled c d f rip (m_i2 m, t))"
proof -
  have p: "fp_filp (fproc s (fp s)) (nat (m_i1 (mesg s))) = Some f" "filp_ino (filp s f) = rip"
    using h by (auto simp: holding_def desc_def)
  let ?d = "cwd s (fp s)"
  have err: "settled c d f rip (r, t)" if "owes s ?d {#} t" for r t by (rule settled_holding [OF holding_owes [OF h that]])
  have io: "yields (dev_io op nb dv pos n pr buff t) (\<lambda>(r, u). owes s ?d M u)" if "owes s ?d M t" for op nb dv pos n pr buff t M
    by (rule yields_mono [OF soft_dev_io]) (use that in \<open>auto intro: owes_soft\<close>)
  have ok: "yields (and_then (in_fs (put_inode (disk_io e) (time_now e) (Some rip)) (upd_ino nr g t))
      (\<lambda>s3. Some (Ret (mp\<lparr>m_i2 := k\<rparr>, upd_filp f (filp_ino_update (\<lambda>_. nr)) s3)))) (\<lambda>(m, t). k = OK \<longrightarrow> settled c d f rip (m_i2 m, t))"
    if t: "owes s ?d {#nr#} t" and g: "\<And>r. i_count (g r) = i_count r" for nr t g k
  proof -
    have o: "owes s ?d {#nr#} (upd_ino nr g t)" by (rule owes_ino [OF t g])
    have "settled c d f rip (OK, upd_filp f (filp_ino_update (\<lambda>_. nr)) ((upd_ino nr g t)\<lparr>fsys := x\<rparr>))"
      if "counted rip (\<lambda>n. n - 1) (fsys (upd_ino nr g t)) x" for x
      using cloned_file [OF h o that] owes_parts(13) [OF o] h by (simp add: settled_def holding_def)
    moreover have "yields (in_fs (put_inode (disk_io e) (time_now e) (Some rip)) (upd_ino nr g t))
        (\<lambda>u. \<exists>x. counted rip (\<lambda>n. n - 1) (fsys (upd_ino nr g t)) x \<and> u = (upd_ino nr g t)\<lparr>fsys := x\<rparr>)"
      unfolding in_fs_def by (rule yields_thenI [OF counted_put_inode]) auto
    ultimately show ?thesis by (auto simp del: yields_then elim!: yields_thenI)
  qed
  have opened: "yields (if b then and_then (in_fs (put_inode (disk_io e) (time_now e) (Some nr)) t) (\<lambda>s3. Some (Ret (mp\<lparr>m_i2 := r\<rparr>, s3)))
      else and_then (in_fs (put_inode (disk_io e) (time_now e) (Some rip)) (upd_ino nr (\<lambda>r. r\<lparr>i_zone := (i_zone r)(0 := z)\<rparr>) t))
        (\<lambda>s3. Some (Ret (mp\<lparr>m_i2 := OK\<rparr>, upd_filp f (filp_ino_update (\<lambda>_. nr)) s3)))) (\<lambda>(m, t). settled c d f rip (m_i2 m, t))"
    if t: "owes s ?d {#nr#} t" for b nr r z t
    by (rule yields_if, rule yields_thenI [OF owes_put [OF t, unfolded iput_def]], use err in simp, rule yields_mono [OF ok [OF t]]) auto
  have found: "yields (case nrip of None \<Rightarrow> Some (Ret (mp\<lparr>m_i2 := k\<rparr>, s\<lparr>fsys := x\<rparr>))
      | Some nr \<Rightarrow> and_then (dev_io DEV_OPEN nb dv 0 fl pr 0 (s\<lparr>fsys := x\<rparr>)) (\<lambda>(result, s2).
          if result < 0 then and_then (in_fs (put_inode (disk_io e) (time_now e) (Some nr)) s2) (\<lambda>s3. Some (Ret (mp\<lparr>m_i2 := result\<rparr>, s3)))
          else and_then (in_fs (put_inode (disk_io e) (time_now e) (Some rip)) (upd_ino nr (\<lambda>r. r\<lparr>i_zone := (i_zone r)(0 := z result s2)\<rparr>) s2))
            (\<lambda>s3. Some (Ret (mp\<lparr>m_i2 := OK\<rparr>, upd_filp f (filp_ino_update (\<lambda>_. nr)) s3))))) (\<lambda>(m, t). settled c d f rip (m_i2 m, t))"
    if t: "owes s ?d ({#} + own nrip) (s\<lparr>fsys := x\<rparr>)" for nrip x k nb dv fl pr z
  proof (cases nrip)
    case None
    then show ?thesis using t err by simp
  next
    case (Some nr)
    show ?thesis unfolding Some option.case
      by (rule yields_thenI [OF io], use t Some in simp, simp only: split_paired_all prod.case) (rule opened)
  qed
  show ?thesis
    unfolding net_open_def Let_def p option.case
    by (rule yields_thenI [OF owes_alloc_inode [OF holding_start [OF h]]], simp only: split_paired_all prod.case) (rule found)
qed

lemma settled_open_call:
  assumes h: "holding c d f rip s"
  shows "yields (dmap_open_call e g task mp s) (\<lambda>(m, t). settled c d f rip (m_i2 m, t))"
proof -
  have soft: "settled c d f rip (r, t)" if "soft s t" for r t by (rule settled_holding [OF holding_soft [OF h that]])
  have tty: "soft s (upd_fproc p (fp_tty_update w) t)" if "soft s t" for p w t
    by (rule soft_trans [OF that], rule soft_same) (simp add: erase_def)
  show ?thesis
  proof (cases g)
    case (Plain k)
    show ?thesis unfolding Plain dmap_open_call.simps by (rule yields_mono [OF soft_dmap_call]) (auto intro: soft)
  next
    case Tty_open
    show ?thesis unfolding Tty_open dmap_open_call.simps tty_open_def Let_def
      by (rule yields_thenI [OF soft_dev_io], simp only: split_paired_all prod.case) (rule yields_if, simp_all add: soft tty)
  next
    case Net_open
    show ?thesis unfolding Net_open dmap_open_call.simps by (rule settled_net_open [OF h])
  qed
qed

lemma settled_open_special: "holding c d f rip s \<Longrightarrow> yields (open_special e rip bits fl s) (settled c d f rip)"
  unfolding open_special_def Let_def
  by (auto split: option.split simp del: yields_then intro: settled_holding intro!: yields_thenI [OF settled_open_call])

lemma settled_owes:
  assumes "holding c d f rip s" "yields r (paid s (cwd s (fp s)) {#})"
  shows "yields r (settled c d f rip)"
  using assms(2) by (rule yields_mono) (auto intro: settled_holding holding_owes [OF assms(1)])

lemma paid_open_regular: "owes s0 k M s \<Longrightarrow> yields (open_regular e rip fl s) (paid s0 k M)"
  unfolding open_regular_def
  by (auto simp del: yields_then intro!: yields_thenI [OF owes_forbidden] yields_thenI [OF owes_truncate] yields_thenI [OF owes_rw_inode] owes_fs)

lemma settled_open_existing:
  assumes h: "holding c d f rip s"
  shows "yields (open_existing e rip bits fl d f s) (settled c d f rip)"
proof -
  have f: "yields (forbidden e rip bits s) (\<lambda>(r, t). holding c d f rip t)"
    by (rule yields_mono [OF owes_forbidden [OF holding_start [OF h]]]) (auto intro: holding_owes [OF h])
  have r: "yields (open_regular e rip fl t) (settled c d f rip)" if "holding c d f rip t" for t
    by (rule settled_owes [OF that paid_open_regular [OF holding_start [OF that]]])
  show ?thesis
    unfolding open_existing_def Let_def
    by (rule yields_thenI [OF f]) (auto intro: settled_holding settled_open_special settled_open_pipe r)
qed

lemma good_open_file:
  assumes o: "owes c (cwd c (fp c)) {#rip#} t" and d: "d < OPEN_MAX" "desc c (fp c, d) = None" "m_i1 (mesg c) = int d"
    and f: "f < NR_FILPS" "filp_count (filp c f) = 0"
  shows "yields (open_file e rip bits fl d f r exist t) (good c)"
proof -
  have h: "holding c d f rip (claim_file d f rip fl t)" by (rule holding_claim [OF assms])
  have s: "yields (if exist then open_existing e rip bits fl d f (claim_file d f rip fl t) else Some (Ret (r, claim_file d f rip fl t))) (settled c d f rip)"
    using settled_open_existing [OF h] settled_holding [OF h] by simp
  show ?thesis
    unfolding open_file_def Let_def
    by (rule yields_thenI [OF s])
      (auto simp del: yields_then simp: settled_def good_def intro!: yields_thenI [OF release_file])
qed

text \<open>The state in which the path is walked: the descriptor \<open>d\<close> has been chosen and stored in \<^verbatim>\<open>fd\<close>.\<close>

definition walks :: "env \<Rightarrow> 32 word \<Rightarrow> sys \<Rightarrow> bool" where
  "walks e oflags s \<longleftrightarrow> (\<forall>d f s0. get_fd 0 (mode_map oflags) s = (Inr (d, f), s0) \<longrightarrow>
     (if has oflags O_CREAT then direct e (set_i1 (int d) s0) else home e (set_i1 (int d) s0)))"

lemma new_node_err: "yields (new_node e path bits z s) (\<lambda>(r, t). r \<noteq> None \<longrightarrow> err_code (fsys t) \<in> {OK, EEXIST})"
proof -
  have n: "yields (node_loop e path old 8 s) (\<lambda>(dirpo, string, ripo, t). True)" for old by (rule yields_any) auto
  have c: "yields (enter_node e dirp string bits z t) (\<lambda>(r, t). r \<noteq> None \<longrightarrow> err_code (fsys t) \<in> {OK, EEXIST})" for dirp string t
    unfolding enter_node_def Let_def by (intro yields_drop) (auto intro!: yields_drop split: option.split simp del: yields_then simp: file_err_def)
  show ?thesis
    unfolding new_node_def Let_def
    by (intro yields_drop) (auto intro!: yields_drop c [simplified] split: option.split simp del: yields_then simp: file_err_def)
qed

lemma good_common_open:
  assumes inv: "sys_inv s" "caller s" and w: "walks e oflags s"
  shows "yields (common_open e oflags omode s) (good s)"
proof (cases "get_fd 0 (mode_map oflags) s")
  case (Pair x s0)
  have k: "soft s s0" by (rule get_fd_soft [OF Pair])
  show ?thesis
  proof (cases x)
    case (Inl r)
    then show ?thesis using Pair good_soft [OF inv(1) k] by (simp add: common_open_def)
  next
    case (Inr df)
    obtain d f where df: "df = (d, f)" by (cases df)
    let ?c = "set_i1 (int d) s0"
    have d: "d < OPEN_MAX" "desc ?c (fp ?c, d) = None" "m_i1 (mesg ?c) = int d" and f: "f < NR_FILPS" "filp_count (filp ?c f) = 0"
      using get_fd_result [OF Pair] Inr df softD(1,9) [OF k] by (auto simp: set_i1_soft) (simp_all add: set_i1_def)
    have c: "sys_inv ?c" "caller ?c" "who ?c = who s"
      using soft_inv [OF k inv(1)] inv(2) softD(9,13) [OF k] by (simp_all add: set_i1_soft caller_def)
    have o: "owes ?c (cwd ?c (fp ?c)) {#} ?c" by (rule owes_start [OF c(1,2)])
    have cs: "good ?c = good s" by (simp add: good_def c(3) fun_eq_iff)
    have open_it: "yields (open_file e rip bits oflags d f r ex t) (good s)" if "owes ?c (cwd ?c (fp ?c)) {#rip#} t" for rip bits r ex t
      using good_open_file [OF that d f] by (simp add: cs)
    have over: "good s (r, t)" if "owes ?c (cwd ?c (fp ?c)) {#} t" for r t
      using owes_end [OF that] c(3) by (simp add: good_def)
    have h: "if has oflags O_CREAT then direct e ?c else home e ?c" using w Pair Inr df unfolding walks_def by blast
    have created: "yields (case ripo of None \<Rightarrow> None | Some rip \<Rightarrow> open_file e rip bits oflags d f r ex t) (good s)"
      if "owes ?c (cwd ?c (fp ?c)) ({#} + own ripo) t" for ripo t bits r ex
      using that open_it by (cases ripo) auto
    have made: "yields (let r = err_code (fsys t) in if r \<noteq> OK \<and> r \<noteq> EEXIST then Some (Ret (r, t))
        else case ripo of None \<Rightarrow> None | Some rip \<Rightarrow> open_file e rip bits oflags d f r (r \<noteq> OK \<and> b) t) (good s)"
      if "owes ?c (cwd ?c (fp ?c)) ({#} + own ripo) t \<and> (ripo \<noteq> None \<longrightarrow> err_code (fsys t) \<in> {OK, EEXIST})" for ripo t bits b
      unfolding Let_def by (rule yields_if) (use that in \<open>auto intro!: over created\<close>)
    have new: "yields (new_node e 0 bits z ?c) (\<lambda>(ripo, t). owes ?c (cwd ?c (fp ?c)) ({#} + own ripo) t \<and> (ripo \<noteq> None \<longrightarrow> err_code (fsys t) \<in> {OK, EEXIST}))"
      if "has oflags O_CREAT" for bits z
      using owes_new_node [OF o, of e bits z] new_node_err [of e 0 bits z ?c] h that by (auto simp: yields_def)
    have eat: "yields (eat_path e 0 ?c) (took ?c (cwd ?c (fp ?c)) {#})" if "\<not> has oflags O_CREAT"
      using owes_eat_path [OF o] h that by simp
    have found: "yields (case ripo of None \<Rightarrow> erring t | Some rip \<Rightarrow> open_file e rip bits oflags d f OK True t) (good s)"
      if "owes ?c (cwd ?c (fp ?c)) ({#} + own ripo) t" for ripo t bits
      using that open_it over by (cases ripo) (auto simp: erring_def)
    show ?thesis
      unfolding common_open_def Let_def [of "mode_map _"] Let_def [of ?c] Pair Inr df prod.case sum.case Let_def [of "set_i1 _ _"]
      by (rule yields_if, rule yields_thenI [OF new], assumption, simp only: split_paired_all prod.case, rule made, assumption,
          rule yields_thenI [OF eat], assumption, simp only: split_paired_all prod.case) (rule found)
  qed
qed

text \<open>The two calls: the name has been fetched.\<close>

lemma good_opening:
  assumes inv: "sys_inv s" "caller s" and w: "\<And>t. fetch_name e path len flg s = (OK, t) \<Longrightarrow> walks e oflags t"
  shows "yields (with_name e path len flg (\<lambda>u. common_open e oflags (omode u) u) s) (good s)"
proof (cases "fetch_name e path len flg s")
  case (Pair r t)
  have o: "owes s (cwd s (fp s)) {#} t" using owes_fetch [OF owes_start [OF inv], of e path len flg] Pair by simp
  have t: "sys_inv t" "caller t" "who t = who s" using owes_end [OF o] owes_parts(15) [OF o] by simp_all
  have g: "good t = good s" by (simp add: good_def t(3) fun_eq_iff)
  show ?thesis
  proof (cases "r = OK")
    case True
    then have "walks e oflags t" using w Pair by simp
    then show ?thesis using True good_common_open [OF t(1,2)] Pair by (simp add: with_name_def g)
  next
    case False
    then show ?thesis using Pair t by (simp add: with_name_def erring_def good_def)
  qed
qed

end
