(* ===== verification/Fs_History.thy ===== *)
theory Fs_History
  imports Fs_Main Fs_Open_Counts
begin

unbundle bit_operations_syntax

text \<open>
  Histories of the file system: from the state that \<^verbatim>\<open>fs_init\<close> sets up, one round of the main loop of
  \<^verbatim>\<open>src/src/fs/main.c\<close> after the other. The counts of the tables are right in every state.
\<close>

section \<open>The first state\<close>

definition blank :: "sys \<Rightarrow> bool" where
  "blank s \<longleftrightarrow> (\<forall>i. i_count (ino_of s i) = 0) \<and> (\<forall>k. s_isup (super_blocks (fsys s) k) = None \<and> s_imount (super_blocks (fsys s) k) = None) \<and>
     (\<forall>f. filp_count (filp s f) = 0) \<and> (\<forall>k. lock_type (file_lock s k) = 0) \<and> nr_locks s = 0 \<and> reviving s = 0 \<and> rdahed_inode s = None \<and>
     (\<forall>p. (\<forall>d. fp_filp (fproc s p) d = None) \<and> fp_rootdir (fproc s p) = None \<and> fp_workdir (fproc s p) = None \<and>
          \<not> fp_suspended (fproc s p) \<and> \<not> fp_revived (fproc s p))"

lemma read_super_keeps:
  "yields (read_super io rest i s) (\<lambda>(r, t). inode t = inode s \<and> (\<forall>k. k \<noteq> i \<longrightarrow> super_blocks t k = super_blocks s k))"
  unfolding read_super_def Let_def by (rule yields_drop) (auto simp: upd_super_def split: option.split)

definition opened_root :: "fs \<Rightarrow> fs \<Rightarrow> bool" where
  "opened_root s t \<longleftrightarrow> (\<exists>rip < NR_INODES. (\<forall>j. i_count (inode t j) = i_count (inode s j) + (if j = rip then 2 else 0)) \<and>
     (\<forall>k. s_isup (super_blocks t k) = (if k = 0 then Some rip else s_isup (super_blocks s k)) \<and>
          s_imount (super_blocks t k) = (if k = 0 then Some rip else s_imount (super_blocks s k))))"

lemma load_super_result:
  assumes "\<And>i. i_count (inode s i) = 0"
  shows "yields (load_super e rest dev s) (opened_root s)"
proof -
  let ?s1 = "s\<lparr>super_blocks := (\<lambda>i. if i < NR_SUPERS then (super_blocks s i)\<lparr>s_dev := NO_DEV\<rparr> else super_blocks s i)\<rparr>"
  have fin: "opened_root s (upd_super 0 (\<lambda>sp. sp\<lparr>s_imount := Some rip, s_isup := Some rip, s_rd_only := False\<rparr>) (dup_inode rip u))"
    if t: "inode t = inode s" "\<And>k. k \<noteq> 0 \<Longrightarrow> super_blocks t k = super_blocks ?s1 k" and u: "taken t (Some rip, u)" for rip t u
  proof -
    have u: "rip < NR_INODES" "counted rip (\<lambda>n. max n 0 + 1) t u" using u by (auto simp: taken_def)
    show ?thesis
      unfolding opened_root_def using u assms t
      by (intro exI [of _ rip]) (auto simp: counted_def upd_super_def dup_inode_def upd_inode_def)
  qed
  have root: "yields (case ripo of None \<Rightarrow> None | Some rip \<Rightarrow> if P rip then Some (Panic msg)
      else Some (Ret (upd_super 0 (\<lambda>sp. sp\<lparr>s_imount := Some rip, s_isup := Some rip, s_rd_only := False\<rparr>) (dup_inode rip u)))) (opened_root s)"
    if "taken t (ripo, u)" "inode t = inode s" "\<And>k. k \<noteq> 0 \<Longrightarrow> super_blocks t k = super_blocks ?s1 k" for t ripo u P msg
  proof (cases ripo)
    case (Some rip)
    show ?thesis using fin [OF that(2,3)] that(1) Some by simp
  qed simp
  show ?thesis
    unfolding load_super_def Let_def
    apply (rule yields_thenI [OF read_super_keeps], simp only: split_paired_all prod.case)
    apply (rule yields_if, simp)
    apply (rule yields_thenI [OF counted_get_inode], simp only: split_paired_all prod.case)
    apply (erule conjE, rule root)
      apply assumption
     apply (simp_all add: upd_super_def)
    done
qed

lemma inv_load_super:
  assumes b: "blank s"
  shows "yields (in_fs (load_super e rest dev) s) (\<lambda>t. sys_inv t \<and> fproc t = fproc s \<and> reviving t = 0)"
proof -
  have fin: "sys_inv (s\<lparr>fsys := x\<rparr>)" (is "sys_inv ?t") if o: "opened_root (fsys s) x" for x
  proof -
    have b: "i_count (inode (fsys s) j) = 0" "s_isup (super_blocks (fsys s) k) = None" "s_imount (super_blocks (fsys s) k) = None" for j k
      using b by (simp_all add: blank_def ino_of_def)
    obtain rip where r: "rip < NR_INODES" "\<And>j. i_count (inode x j) = (if j = rip then 2 else 0)"
      "\<And>k. s_isup (super_blocks x k) = (if k = 0 then Some rip else None)" "\<And>k. s_imount (super_blocks x k) = (if k = 0 then Some rip else None)"
      using o unfolding opened_root_def b by auto
    have "super_refs ?t j = (if j = rip then 2 else 0)" for j
      unfolding super_refs_def by (subst sum.remove [of _ 0]) (auto simp: r NR_SUPERS_def intro!: sum.neutral)
    moreover have "lone ?t" by (simp add: lone_def r)
    ultimately show ?thesis using \<open>blank s\<close> r(1,2)
      by (auto simp: sys_inv_def filps_ok_def inodes_ok_def locks_ok_def revive_ok_def refs_def file_refs_def dir_refs_def users_def used_locks_def revived_def
          desc_def ino_of_def opened_def in_dirs_def blank_def)
  qed
  show ?thesis
    unfolding in_fs_def
    by (rule yields_thenI [OF load_super_result]) (use b fin in \<open>auto simp: blank_def ino_of_def\<close>)
qed

text \<open>A process gets its two directories.\<close>

lemma give_dirs:
  assumes inv: "sys_inv s" and p: "p \<in> procs" and none: "fp_rootdir (fproc s p) = None" "fp_workdir (fproc s p) = None"
    and rip: "rip < NR_INODES" and x: "\<And>j. i_count (inode x j) = i_count (ino_of s j) + (if j = rip then 2 else 0)"
    and sup: "\<And>k. s_isup (super_blocks x k) = s_isup (super_blocks (fsys s) k) \<and> s_imount (super_blocks x k) = s_imount (super_blocks (fsys s) k)"
    and g: "\<And>r. fp_rootdir (g r) = Some rip" "\<And>r. fp_workdir (g r) = Some rip" "\<And>r. fp_filp (g r) = fp_filp r" "\<And>r. fp_revived (g r) = fp_revived r"
      "\<And>r. fp_suspended (g r) = fp_suspended r"
  shows "sys_inv (upd_fproc p g (s\<lparr>fsys := x, fp := q\<rparr>))" (is "sys_inv ?t")
proof -
  have fo: "filps_ok s" and io: "inodes_ok s" and lo: "locks_ok s" and ro: "revive_ok s" using inv by (simp_all add: sys_inv_def)
  have de: "desc ?t = desc s" by (auto simp: desc_def fun_eq_iff g)
  have e: "filps_ok ?t" "locks_ok ?t" "file_refs ?t = file_refs s"
    using fo lo by (simp_all add: filps_ok_def users_def de locks_ok_def used_locks_def file_refs_def fun_eq_iff)
  have rv: "revive_ok ?t" by (rule revive_ok_flag [OF ro]) (use ro g in \<open>auto simp: revive_ok_def\<close>)
  have su: "super_refs ?t = super_refs s \<and> lone ?t = lone s" by (rule super_refs_cong) (use sup in auto)
  have dr: "dir_refs ?t i = dir_refs s i + (if i = rip then 2 else 0)" for i
    unfolding dir_refs_def by (subst sum_change [of procs p]) (use p none in \<open>auto simp: g in_dirs_def\<close>)
  have "inodes_ok ?t" using io rip x unfolding inodes_ok_def by (auto simp: refs_def e su dr ino_of_def)
  then show ?thesis using e rv by (simp add: sys_inv_def)
qed

definition booting :: "sys \<Rightarrow> int \<Rightarrow> sys \<Rightarrow> bool" where
  "booting s n t \<longleftrightarrow> sys_inv t \<and> reviving t = 0 \<and> (\<forall>p \<ge> n. fproc t p = fproc s p) \<and> (\<forall>p. \<not> fp_suspended (fproc t p))"

lemma booting_init_proc:
  assumes b: "blank s" and t: "booting s n t" and n: "0 \<le> n" "n < NR_PROCS"
  shows "yields (init_proc e n t) (booting s (n + 1))"
proof -
  have inv: "sys_inv t" and r: "reviving t = 0" and same: "fproc t n = fproc s n" and later: "\<And>p. p \<ge> n \<Longrightarrow> fproc t p = fproc s p"
    and run: "\<And>p. \<not> fp_suspended (fproc t p)"
    using t by (simp_all add: booting_def)
  have pos: "i_count (inode (fsys t) j) \<ge> 0" for j using inv refs_nonneg(4) [of t j] by (simp add: sys_inv_def inodes_ok_def ino_of_def)
  have fin: "booting s (n + 1) (upd_fproc n g (t\<lparr>fsys := dup_inode rip x, fp := n\<rparr>))"
    if x: "taken (fsys t) (Some rip, x)"
      and g: "\<And>r. fp_rootdir (g r) = Some rip" "\<And>r. fp_workdir (g r) = Some rip" "\<And>r. fp_filp (g r) = fp_filp r" "\<And>r. fp_revived (g r) = fp_revived r"
      "\<And>r. fp_suspended (g r) = fp_suspended r" for x rip g
  proof -
    have "rip < NR_INODES" "counted rip (\<lambda>n. max n 0 + 1) (fsys t) x" using x by (auto simp: taken_def)
    then have c: "i_count (inode (dup_inode rip x) j) = i_count (ino_of t j) + (if j = rip then 2 else 0)" for j
      using pos [of j] by (auto simp: counted_def dup_inode_def upd_inode_def ino_of_def)
    have "sys_inv (upd_fproc n g (t\<lparr>fsys := dup_inode rip x, fp := n\<rparr>))"
      by (rule give_dirs [OF inv _ _ _ \<open>rip < NR_INODES\<close> c])
        (use n same b g \<open>counted _ _ _ _\<close> in \<open>auto simp: procs_def blank_def counted_def dup_inode_def upd_inode_def\<close>)
    then show ?thesis using r later run run [of n] g same by (simp add: booting_def)
  qed
  have cs: "yields (case ripo of None \<Rightarrow> None | Some rip \<Rightarrow> Some (Ret (upd_fproc n (\<lambda>p. p\<lparr>fp_rootdir := Some rip, fp_workdir := Some rip, fp_realuid := 0,
      fp_effuid := 0, fp_realgid := 0, fp_effgid := 0, fp_umask := NOT 0\<rparr>) (t\<lparr>fsys := dup_inode rip x, fp := n\<rparr>)))) (booting s (n + 1))"
    if "taken (fsys t) (ripo, x)" for ripo x
    using that by (cases ripo) (auto intro!: fin)
  show ?thesis
    unfolding init_proc_def
    by (rule yields_thenI [OF counted_get_inode], simp only: split_paired_all prod.case) (rule cs)
qed

lemma fs_start_inv:
  assumes b: "blank s"
  shows "yields (fs_start e rest s) (\<lambda>t. sys_inv t \<and> reviving t = 0 \<and> \<not> fp_suspended (fproc t MM_PROC_NR))"
proof -
  have first: "yields (in_fs (load_super e rest dev) s) (booting s 0)" for dev
    by (rule yields_mono [OF inv_load_super [OF b]]) (use b in \<open>auto simp: booting_def blank_def\<close>)
  have list: "[0 .. LOW_USER] = [0, 1, 2, 3]" by (simp add: LOW_USER_def upto_rec2)
  have skip: "booting s 1 t \<Longrightarrow> booting s 2 t" for t by (auto simp: booting_def)
  have p: "yields (init_proc e n t) (booting s m)" if "booting s n t" "0 \<le> n" "n < NR_PROCS" "m = n + 1" for n m t
    using booting_init_proc [OF b that(1-3)] that(4) by simp
  show ?thesis
    unfolding fs_start_def list
    by (rule yields_thenI [OF first]) (auto simp: FS_PROC_NR_def NR_PROCS_def simp del: yields_then
        intro!: yields_thenI [OF p] yields_mono [OF p] skip, auto simp: booting_def)
qed

section \<open>One round\<close>

text \<open>
  What the other processes keep to: a message comes from a process or is a \<^verbatim>\<open>REVIVE\<close>, and MM passes
  existing processes, for \<^verbatim>\<open>fork\<close> with a free slot.
\<close>

definition FORK :: int where "FORK = 2"
definition EXIT :: int where "EXIT = 1"
definition CHDIR :: int where "CHDIR = 12"
definition EXEC :: int where "EXEC = 59"

definition protocol :: "mess \<Rightarrow> sys \<Rightarrow> bool" where
  "protocol m s \<longleftrightarrow>
     (msg_source m \<in> procs \<or> msg_type m = REVIVE) \<and>
     (msg_source m = MM_PROC_NR \<longrightarrow>
        (msg_type m \<in> {FORK, EXIT, CHDIR, EXEC} \<longrightarrow> m_i1 m \<in> procs) \<and>
        (msg_type m = FORK \<longrightarrow> vacant s (m_i2 m) \<and> m_i1 m \<noteq> m_i2 m))"

text \<open>
  What a call on names must not meet, as it would forget a use of the working directory: a symbolic link from which
  \<^verbatim>\<open>eat_path\<close> does not come back, or, where a file is made, a symbolic link of that name. \<^verbatim>\<open>mount\<close> and \<^verbatim>\<open>umount\<close> are left out.
\<close>

abbreviation named :: "env \<Rightarrow> 32 word \<Rightarrow> int \<Rightarrow> int \<Rightarrow> sys \<Rightarrow> sys" where
  "named e path len flg s \<equiv> snd (fetch_name e path len flg s)"

definition stays :: "env \<Rightarrow> nat \<Rightarrow> sys \<Rightarrow> bool" where
  "stays e k s \<longleftrightarrow>
     (let name1 = named e (m_l1 (mesg s)) (m_i1 (mesg s)) M1 s; name3 = named e (name_arg s) (m_i1 (mesg s)) M3 s;
          mode = word_of_int (m_i2 (mesg s)) in
      k \<notin> {21, 22} \<and>
      (k = 5 \<longrightarrow> walks e mode (if has mode O_CREAT then name1 else name3)) \<and>
      (k = 8 \<longrightarrow> walks e (O_WRONLY OR O_CREAT OR O_TRUNC) name3) \<and>
      (k \<in> {9, 16, 18} \<longrightarrow> home e name1) \<and>
      (k \<in> {15, 33, 61} \<or> k = 12 \<and> who s \<noteq> MM_PROC_NR \<longrightarrow> home e name3) \<and>
      (k = 14 \<longrightarrow> direct e name1) \<and>
      (k = 30 \<longrightarrow> home e (named e (m_p1 (mesg s)) (if m_i1 (mesg s) = 0 then m_i2 (mesg s) else m_i1 (mesg s)) M1 s)) \<and>
      (k = 39 \<longrightarrow> (\<forall>dirp string t. last_dir e 0 name1 = Some (Ret (Some dirp, string, t)) \<longrightarrow> direct e t)) \<and>
      (k = 57 \<longrightarrow> (\<forall>ip string t r u v. last_dir e 0 (named e (m_l2 (mesg s)) (m_i2 (mesg s)) M1 s) = Some (Ret (Some ip, string, t)) \<longrightarrow>
         absent_there e ip string t = Some (Ret (r, u)) \<longrightarrow> iput e (Some ip) u = Some (Ret v) \<longrightarrow> direct e v)))"

definition ready_call :: "env \<Rightarrow> nat \<Rightarrow> sys \<Rightarrow> bool" where
  "ready_call e k s \<longleftrightarrow> stays e k s \<and> sys_inv s \<and> (caller s \<or> k = 67) \<and> (who s \<le> MM_PROC_NR \<longrightarrow> reviving s = 0) \<and>
     (who s = MM_PROC_NR \<longrightarrow> (k \<in> {1, 2, 12, 59} \<longrightarrow> m_i1 (mesg s) \<in> procs) \<and> (k = 2 \<longrightarrow> vacant s (m_i2 (mesg s)) \<and> m_i1 (mesg s) \<noteq> m_i2 (mesg s)))"

lemma good_refl: "sys_inv s \<Longrightarrow> good s (r, s)" by (simp add: good_def)

lemma good_close: "sys_inv s \<Longrightarrow> caller s \<Longrightarrow> yields (do_close e s) (good s)"
  by (rule yields_mono [OF closed_do_close]) (auto simp: closed_def good_def)

lemma good_exec: "sys_inv s \<Longrightarrow> (who s = MM_PROC_NR \<Longrightarrow> m_i1 (mesg s) \<in> procs) \<Longrightarrow> yields (do_exec_fs e s) (good s)"
  by (cases "who s = MM_PROC_NR") (auto intro: good_do_exec, simp add: do_exec_fs_def good_refl)

lemma good_exit: "sys_inv s \<Longrightarrow> (who s = MM_PROC_NR \<Longrightarrow> reviving s = 0 \<and> m_i1 (mesg s) \<in> procs) \<Longrightarrow> yields (do_exit_fs e s) (good s)"
  by (cases "who s = MM_PROC_NR") (auto intro: good_do_exit, simp add: do_exit_fs_def good_refl)

lemma good_fork:
  "sys_inv s \<Longrightarrow> (who s = MM_PROC_NR \<Longrightarrow> reviving s = 0 \<and> m_i1 (mesg s) \<in> procs \<and> vacant s (m_i2 (mesg s)) \<and> m_i1 (mesg s) \<noteq> m_i2 (mesg s)) \<Longrightarrow>
   yields (do_fork_fs s) (good s)"
  by (cases "who s = MM_PROC_NR") (auto intro: good_do_fork, simp add: do_fork_fs_def good_refl)

lemma good_unpause: "sys_inv s \<Longrightarrow> (who s \<le> MM_PROC_NR \<Longrightarrow> reviving s = 0) \<Longrightarrow> yields (do_unpause s) (good s)"
  by (cases "who s \<le> MM_PROC_NR") (auto intro: good_do_unpause, simp add: do_unpause_def good_refl)

definition fine_call :: "env \<Rightarrow> nat \<Rightarrow> call \<Rightarrow> bool" where
  "fine_call e k f \<longleftrightarrow> (\<forall>s. ready_call e k s \<longrightarrow> yields (f s) (good s))"

lemma fine_mount: "fine_call e 21 f" "fine_call e 22 f"
  by (simp_all add: fine_call_def ready_call_def stays_def Let_def)

lemma ready_callD:
  assumes "ready_call e k s"
  shows "sys_inv s" "k \<noteq> 67 \<Longrightarrow> caller s" "who s \<le> MM_PROC_NR \<Longrightarrow> reviving s = 0"
    "k \<in> {1, 2, 12, 59} \<Longrightarrow> who s = MM_PROC_NR \<Longrightarrow> m_i1 (mesg s) \<in> procs"
    "k = 2 \<Longrightarrow> who s = MM_PROC_NR \<Longrightarrow> vacant s (m_i2 (mesg s)) \<and> m_i1 (mesg s) \<noteq> m_i2 (mesg s)"
  using assms by (simp_all add: ready_call_def)

lemma ready_call_names:
  assumes "ready_call e k s"
  shows "k \<in> {9, 16, 18} \<Longrightarrow> home e (named e (m_l1 (mesg s)) (m_i1 (mesg s)) M1 s)"
    "k \<in> {15, 33, 61} \<or> k = 12 \<and> who s \<noteq> MM_PROC_NR \<Longrightarrow> home e (named e (name_arg s) (m_i1 (mesg s)) M3 s)"
    "k = 14 \<Longrightarrow> direct e (named e (m_l1 (mesg s)) (m_i1 (mesg s)) M1 s)"
    "k = 30 \<Longrightarrow> home e (named e (m_p1 (mesg s)) (if m_i1 (mesg s) = 0 then m_i2 (mesg s) else m_i1 (mesg s)) M1 s)"
    "k = 39 \<Longrightarrow> last_dir e 0 (named e (m_l1 (mesg s)) (m_i1 (mesg s)) M1 s) = Some (Ret (Some dirp, string, t)) \<Longrightarrow> direct e t"
    "k = 57 \<Longrightarrow> last_dir e 0 (named e (m_l2 (mesg s)) (m_i2 (mesg s)) M1 s) = Some (Ret (Some ip, string, t)) \<Longrightarrow>
       absent_there e ip string t = Some (Ret (r, u)) \<Longrightarrow> iput e (Some ip) u = Some (Ret v) \<Longrightarrow> direct e v"
    "k = 8 \<Longrightarrow> walks e (O_WRONLY OR O_CREAT OR O_TRUNC) (named e (name_arg s) (m_i1 (mesg s)) M3 s)"
    "k = 5 \<Longrightarrow> mode = word_of_int (m_i2 (mesg s)) \<Longrightarrow>
       walks e mode (if has mode O_CREAT then named e (m_l1 (mesg s)) (m_i1 (mesg s)) M1 s else named e (name_arg s) (m_i1 (mesg s)) M3 s)"
proof -
  have st: "stays e k s" using assms by (simp add: ready_call_def)
  show "k \<in> {9, 16, 18} \<Longrightarrow> home e (named e (m_l1 (mesg s)) (m_i1 (mesg s)) M1 s)"
    "k \<in> {15, 33, 61} \<or> k = 12 \<and> who s \<noteq> MM_PROC_NR \<Longrightarrow> home e (named e (name_arg s) (m_i1 (mesg s)) M3 s)"
    using st unfolding stays_def Let_def by blast+
  show "direct e (named e (m_l1 (mesg s)) (m_i1 (mesg s)) M1 s)" if "k = 14"
    using st that by (simp add: stays_def Let_def)
  show "home e (named e (m_p1 (mesg s)) (if m_i1 (mesg s) = 0 then m_i2 (mesg s) else m_i1 (mesg s)) M1 s)" if "k = 30"
    using st that by (simp add: stays_def Let_def)
  show "direct e t" if "k = 39" "last_dir e 0 (named e (m_l1 (mesg s)) (m_i1 (mesg s)) M1 s) = Some (Ret (Some dirp, string, t))" for dirp string t
    using st that unfolding stays_def Let_def by blast
  show "direct e v" if "k = 57" "last_dir e 0 (named e (m_l2 (mesg s)) (m_i2 (mesg s)) M1 s) = Some (Ret (Some ip, string, t))"
    "absent_there e ip string t = Some (Ret (r, u))" "iput e (Some ip) u = Some (Ret v)" for ip string t r u v
    using st that unfolding stays_def Let_def by blast
  show "walks e (O_WRONLY OR O_CREAT OR O_TRUNC) (named e (name_arg s) (m_i1 (mesg s)) M3 s)" if "k = 8"
    using st that by (simp add: stays_def Let_def)
  show "walks e mode (if has mode O_CREAT then named e (m_l1 (mesg s)) (m_i1 (mesg s)) M1 s else named e (name_arg s) (m_i1 (mesg s)) M3 s)"
    if "k = 5" "mode = word_of_int (m_i2 (mesg s))" for mode
    using st that by (simp add: stays_def Let_def)
qed

text \<open>Calls that hold inodes while they work, first those that read a name.\<close>

lemma fine_paid:
  assumes "\<And>s. ready_call e k s \<Longrightarrow> owes s (cwd s (fp s)) {#} s \<Longrightarrow> yields (f s) (paid s (cwd s (fp s)) {#})" "k \<noteq> 67"
  shows "fine_call e k f"
  unfolding fine_call_def using ready_callD(1,2) assms by (blast intro: paid_good owes_start)

lemma fine_files:
  "fine_call e 9 (do_link e)" "fine_call e 14 (do_mknod e)" "fine_call e 15 (do_chmod e)" "fine_call e 16 (do_chown e)" "fine_call e 18 (do_stat e)"
  "fine_call e 30 (do_utime e)" "fine_call e 33 (do_access e)" "fine_call e 39 (do_mkdir e)" "fine_call e 57 (do_symlink e)"
  by (rule fine_paid, erule paid_link paid_mknod paid_chmod paid_chown paid_stat paid_utime paid_access paid_mkdir paid_symlink,
      erule ready_call_names; simp)+

lemma fine_links:
  assumes "k \<noteq> 67"
  shows "fine_call e k (do_unlink e)" "fine_call e k (do_fstat e)" "fine_call e k (do_rename e)" "fine_call e k (do_rdlink e)" "fine_call e k (do_lstat e)"
    "fine_call e k (simple (do_tims e))"
  by (rule fine_paid [OF _ assms], erule paid_unlink paid_fstat paid_rename paid_rdlink paid_lstat paid_tims)+

lemma fine_dirs: "fine_call e 12 (do_chdir e)" "fine_call e 61 (do_chroot e)"
  unfolding fine_call_def using ready_callD(1,2,4) ready_call_names(2) by (auto intro!: good_chdir good_chroot)

lemma fine_opens: "fine_call e 5 (do_open e)" "fine_call e 8 (do_creat e)"
proof -
  show "fine_call e 8 (do_creat e)"
    unfolding fine_call_def do_creat_def
  proof (intro allI impI good_opening)
    fix s t :: sys
    assume "ready_call e 8 s" "fetch_name e (name_arg s) (m_i1 (mesg s)) M3 s = (OK, t)"
    then show "walks e (O_WRONLY OR O_CREAT OR O_TRUNC) t" using ready_call_names(7) [of e 8 s] by simp
  qed (simp_all add: ready_callD)
  show "fine_call e 5 (do_open e)"
    unfolding fine_call_def do_open_def Let_def
  proof (intro allI impI good_opening)
    fix s t :: sys
    let ?mode = "word_of_int (m_i2 (mesg s)) :: 32 word"
    assume "ready_call e 5 s" "fetch_name e (if has ?mode O_CREAT then m_l1 (mesg s) else name_arg s) (m_i1 (mesg s)) (if has ?mode O_CREAT then M1 else M3) s = (OK, t)"
    then show "walks e ?mode t" using ready_call_names(8) [of e 5 s, OF _ refl refl] by (simp split: if_splits)
  qed (simp_all add: ready_callD)
qed

text \<open>The calls without names.\<close>

lemma fine_plain:
  "fine_call e k no_sys_fs" "fine_call e k (simple (do_time e))" "fine_call e k (simple do_lseek)" "fine_call e k (simple do_set)" "fine_call e k do_stime"
  "fine_call e k (do_sync e)" "fine_call e k do_ioctl" "fine_call e k (simple do_umask)" "fine_call e k (simple (do_setsid junk))" "fine_call e k do_revive"
  unfolding fine_call_def using ready_callD(1)
  by (auto simp: no_sys_fs_def good_refl simple_def good_simple intro: good_do_sync good_do_ioctl good_do_revive)

lemma fine_mm: "fine_call e k do_unpause" "fine_call e 1 (do_exit_fs e)" "fine_call e 2 do_fork_fs" "fine_call e 59 (do_exec_fs e)"
  unfolding fine_call_def
  by (safe intro!: good_unpause good_exit good_fork good_exec, simp_all add: ready_callD)

lemma fine_caller:
  assumes "k \<noteq> 67"
  shows "fine_call e k (do_close e)" "fine_call e k (do_dup e)" "fine_call e k (do_fcntl e)" "fine_call e k (do_pipe e)" "fine_call e k (do_read e)" "fine_call e k (do_write e)"
  unfolding fine_call_def do_read_def do_write_def using ready_callD(1) ready_callD(2) [OF _ assms]
  by (blast intro: good_close good_do_dup good_do_fcntl good_do_pipe good_read_write)+

lemma fine_vector: "list_all2 (fine_call e) [0 ..< 77] (call_vector e junk)"
proof -
  have "[0 ..< 77] = [0, 1, 2, 3, 4, 5, 6, 7, 8, 9, 10, 11, 12, 13, 14, 15, 16, 17, 18, 19, 20, 21, 22, 23, 24, 25, 26, 27, 28, 29, 30, 31,
    32, 33, 34, 35, 36, 37, 38, 39, 40, 41, 42, 43, 44, 45, 46, 47, 48, 49, 50, 51, 52, 53, 54, 55, 56, 57, 58, 59, 60, 61,
    62, 63, 64, 65, 66, 67, 68, 69, 70, 71, 72, 73, 74, 75, 76]"
    by (simp add: upt_rec)
  then show ?thesis
    unfolding call_vector_def
    apply (simp only: list_all2_Cons list_all2_Nil simp_thms)
    apply (intro conjI; (rule fine_plain | rule fine_mm | rule fine_caller | rule fine_files | rule fine_links | rule fine_dirs | rule fine_opens | rule fine_mount))
    apply simp_all
    done
qed

lemma good_dispatch:
  assumes "ready_call e (nat (fs_call s)) s"
  shows "yields (dispatch e junk s) (good s)"
proof -
  have "fine_call e k (call_vector e junk ! k)" if "k < 77" for k
    using list_all2_nthD [OF fine_vector, of k] that by simp
  moreover have "sys_inv s" using assms by (simp add: ready_call_def)
  ultimately show ?thesis using assms
    by (auto simp: dispatch_def NCALLS_def fine_call_def good_refl)
qed

lemma inv_globals [simp]:
  "sys_inv (t\<lparr>fp := p\<rparr>) = sys_inv t" "sys_inv (t\<lparr>super_user := b\<rparr>) = sys_inv t" "sys_inv (t\<lparr>dont_reply := b\<rparr>) = sys_inv t"
  "sys_inv (t\<lparr>who := p\<rparr>) = sys_inv t" "sys_inv (t\<lparr>fs_call := p\<rparr>) = sys_inv t" "sys_inv (t\<lparr>inbox := inb\<rparr>) = sys_inv t"
  by (simp_all add: inv_fields)

lemma inv_set_caller [simp]: "sys_inv (set_caller t) = sys_inv t"
proof -
  have "set_caller t = t\<lparr>fp := who t\<rparr>\<lparr>super_user := fp_effuid (fproc t (who t)) = SU_UID\<rparr>\<lparr>dont_reply := False\<rparr>" by (simp add: set_caller_def)
  then show ?thesis by (simp only: inv_globals)
qed

lemma get_work_result:
  assumes inv: "sys_inv s" and mm: "\<not> fp_suspended (fproc s MM_PROC_NR)" and pr: "reviving s = 0 \<Longrightarrow> protocol m s"
    and nm: "\<And>t. get_work k m s = Some (Ret t) \<Longrightarrow> stays e (nat (fs_call t)) (set_caller t)"
  shows "yields (get_work k m s) (\<lambda>t. ready_call e (nat (fs_call t)) (set_caller t))"
proof (cases "reviving s = 0")
  case True
  have p: "protocol m s" using pr True .
  have "sys_inv (set_caller (s\<lparr>mesg := m, who := msg_source m, fs_call := msg_type m\<rparr>))"
  proof -
    have "s\<lparr>mesg := m, who := msg_source m, fs_call := msg_type m\<rparr> = s\<lparr>mesg := m\<rparr>\<lparr>who := msg_source m\<rparr>\<lparr>fs_call := msg_type m\<rparr>" by simp
    then show ?thesis using inv by (simp only: inv_set_caller inv_globals inv_mesg)
  qed
  moreover have "nat (msg_type m) = k \<Longrightarrow> 0 < k \<Longrightarrow> msg_type m = int k" for k by auto
  ultimately show ?thesis
    using True p nm [of "s\<lparr>mesg := m, who := msg_source m, fs_call := msg_type m\<rparr>"]
    by (simp add: get_work_def ready_call_def) (auto simp: set_caller_def caller_def protocol_def FORK_def EXIT_def EXEC_def CHDIR_def REVIVE_def vacant_def)
next
  case False
  have ro: "revive_ok s" using inv by (simp add: sys_inv_def)
  show ?thesis
  proof (cases "List.find (\<lambda>rp. fp_revived (fproc s rp)) fproc_slots")
    case None
    then show ?thesis using False by (simp add: get_work_def)
  next
    case (Some rp)
    have rp: "rp \<in> procs" "fp_revived (fproc s rp)"
      using Some by (auto simp: find_Some_iff fproc_slots_def procs_def dest: nth_mem)
    then have "fp_suspended (fproc s rp)" using ro by (auto simp: revive_ok_def)
    then have ne: "rp \<noteq> MM_PROC_NR" using mm by auto
    define r where "r = fproc s rp"
    define t where "t = (upd_fproc rp (\<lambda>r. r\<lparr>fp_suspended := False, fp_revived := False\<rparr>) s)
              \<lparr>who := rp, fs_call := take_bit 8 (fp_fd r), reviving := reviving s - 1,
               mesg := (mesg s)\<lparr>m_i1 := take_bit 8 (drop_bit 8 (fp_fd r)), m_l1 := fp_buffer r, m_i2 := fp_nbytes r\<rparr>\<rparr>"
    have "revived t = revived s - 1"
      unfolding revived_def by (subst sum_change [of procs rp]) (use rp in \<open>auto simp: t_def\<close>)
    then have "revive_ok t" using ro by (auto simp: revive_ok_def t_def)
    moreover have de: "desc t = desc s" by (auto simp: fun_eq_iff t_def desc_def)
    moreover have "users t = users s" by (simp add: fun_eq_iff users_def de)
    moreover have "dir_refs t = dir_refs s" by (rule dir_refs_cong) (simp add: t_def)
    moreover have "file_refs t = file_refs s" "super_refs t = super_refs s" "used_locks t = used_locks s" "lone t = lone s"
      by (simp_all add: fun_eq_iff t_def file_refs_def super_refs_def lone_def used_locks_def)
    moreover have "filp t = filp s" "nr_locks t = nr_locks s" "ino_of t = ino_of s" by (simp_all add: t_def ino_of_def fun_eq_iff)
    ultimately have "filps_ok t = filps_ok s" "inodes_ok t = inodes_ok s" "locks_ok t = locks_ok s" "revive_ok t"
      by (simp_all add: filps_ok_def inodes_ok_def locks_ok_def refs_def)
    then have "sys_inv t" using inv by (simp add: sys_inv_def)
    then have "sys_inv (set_caller t)" by simp
    moreover have "get_work k m s = Some (Ret t)" using False Some by (simp add: get_work_def t_def r_def Let_def)
    ultimately show ?thesis using rp(1) ne nm [of t]
      by (simp add: ready_call_def) (auto simp: set_caller_def caller_def t_def procs_def MM_PROC_NR_def)
  qed
qed

lemma held_read_ahead: "held s t \<Longrightarrow> yields (read_ahead e t) (held s)"
proof -
  assume h: "held s t"
  have c: "held s (t\<lparr>rdahed_inode := None, fsys := x\<lparr>fs_cache := c\<rparr>\<rparr>)" if "fs_frame (fsys t) x" for x c
  proof -
    have "held s (t\<lparr>fsys := x\<lparr>fs_cache := c\<rparr>\<rparr>)" by (rule held_soft [OF h], rule soft_frame) (simp add: that)
    moreover have "t\<lparr>rdahed_inode := None, fsys := x\<lparr>fs_cache := c\<rparr>\<rparr> = t\<lparr>fsys := x\<lparr>fs_cache := c\<rparr>\<rparr>\<lparr>rdahed_inode := None\<rparr>" by simp
    ultimately show ?thesis unfolding held_def by (simp only: inv_rdahed) simp
  qed
  have c0: "held s (t\<lparr>rdahed_inode := None, fsys := x\<rparr>)" if "fs_frame (fsys t) x" for x
    using c [of x "fs_cache x"] that by simp
  show ?thesis
    unfolding read_ahead_def Let_def
    by (auto split: option.split simp del: yields_then intro!: yields_thenI [OF frame_read_map] yields_thenI [OF with_fs_after [OF _ frame_rahead]] c c0)
qed

lemma held_answer: "held s t \<Longrightarrow> yields (answer e error t) (held s)"
proof -
  assume h: "held s t"
  have r: "held s (reply_fs p k t)" for p k by (rule held_soft [OF h]) simp
  show ?thesis using h r by (auto simp: answer_def Let_def intro: held_read_ahead)
qed

lemma fs_main_keeps:
  assumes "sys_inv s" "\<not> fp_suspended (fproc s MM_PROC_NR)" "reviving s = 0 \<Longrightarrow> protocol m s"
    "\<And>t. get_work k m s = Some (Ret t) \<Longrightarrow> stays e (nat (fs_call t)) (set_caller t)"
  shows "yields (fs_main e junk k m s) sys_inv"
proof -
  have d: "yields (dispatch e junk (set_caller t)) (good (set_caller t))" if "ready_call e (nat (fs_call t)) (set_caller t)" for t
    using good_dispatch [of e "set_caller t"] that by (simp add: set_caller_def)
  have a: "yields (answer e error u) sys_inv" if "good t (error, u)" for t u error
    by (rule yields_mono [OF held_answer [of u u]]) (use that in \<open>auto simp: held_def good_def\<close>)
  show ?thesis
    unfolding fs_main_def
    by (rule yields_thenI [OF get_work_result [OF assms]], assumption+, rule yields_thenI [OF d], assumption)
      (simp only: split_paired_all prod.case, rule a)
qed

section \<open>Histories\<close>

text \<open>
  Rounds may see any disk, any answers from tasks and any messages that keep to the protocol, for all calls but \<^verbatim>\<open>mount\<close>
  and \<^verbatim>\<open>umount\<close>, as long as \<open>stays\<close> holds. MM is never made to wait: it opens ordinary files only.
\<close>

inductive fs_history :: "sys \<Rightarrow> sys \<Rightarrow> bool" for s0 :: sys where
  start: "fs_history s0 s0"
| round: "fs_history s0 s \<Longrightarrow> (reviving s = 0 \<longrightarrow> protocol m s) \<Longrightarrow>
    (\<forall>t. get_work k m (s\<lparr>inbox := inb\<rparr>) = Some (Ret t) \<longrightarrow> stays e (nat (fs_call t)) (set_caller t)) \<Longrightarrow> fs_main e junk k m (s\<lparr>inbox := inb\<rparr>) = Some (Ret t) \<Longrightarrow>
    \<not> fp_suspended (fproc t MM_PROC_NR) \<Longrightarrow> fs_history s0 t"

lemma fs_history_inv:
  assumes "fs_history s0 s" "sys_inv s0" "\<not> fp_suspended (fproc s0 MM_PROC_NR)"
  shows "sys_inv s \<and> \<not> fp_suspended (fproc s MM_PROC_NR)"
  using assms
proof (induction rule: fs_history.induct)
  case (round s m k inb e junk t)
  have "sys_inv s" "\<not> fp_suspended (fproc s MM_PROC_NR)" using round.IH round.prems by blast+
  then have "yields (fs_main e junk k m (s\<lparr>inbox := inb\<rparr>)) sys_inv"
    using round.hyps(2,3) by (intro fs_main_keeps) (simp_all add: protocol_def vacant_def)
  then show ?case using round.hyps(4,5) by (auto dest: yieldsD)
qed simp_all

end
