(* ===== verification/Fs_Sample.thy ===== *)
theory Fs_Sample
  imports Fs_Desc Fs_Zone
begin

text \<open>
  A state to compute on: the disk with the V2 file system of Fs_Zone and a root directory, and FS with
  no process, descriptor or lock.
\<close>

text \<open>A V2 file system of an Intel machine whose root directory has the mode \<^verbatim>\<open>0040755\<close> and three links.\<close>

definition root_disk :: "nat \<Rightarrow> data" where
  "root_disk b = (if b = SUPER_BLOCK then intel_super else (\<lambda>i. if i = 0 then 0xED else if i = 1 then 0x41 else if i = 2 then 3 else 0))"

definition boot_fs :: fs where
  "boot_fs = \<lparr>fs_cache = start 0 (\<lambda>_. root_disk), super_blocks = (\<lambda>_. sample_super), inode = (\<lambda>_. blank_inode), err_code = 0\<rparr>"

definition no_mess :: mess where
  "no_mess = \<lparr>msg_source = 0, msg_type = 0, m_i1 = 0, m_i2 = 0, m_i3 = 0, m_l1 = 0, m_l2 = 0, m_p1 = 0, m_tail = 0\<rparr>"

definition no_fproc :: fproc where
  "no_fproc = \<lparr>fp_umask = 0, fp_workdir = None, fp_rootdir = None, fp_filp = (\<lambda>_. None), fp_realuid = 0, fp_effuid = 0, fp_realgid = 0, fp_effgid = 0,
     fp_tty = 0, fp_fd = 0, fp_buffer = 0, fp_nbytes = 0, fp_cum_io_partial = 0, fp_suspended = False, fp_revived = False, fp_task = 0, fp_sesldr = False,
     fp_pid = 0, fp_cloexec = 0\<rparr>"

definition boot_sys :: sys where
  "boot_sys = \<lparr>fsys = boot_fs, filp = (\<lambda>_. \<lparr>filp_mode = 0, filp_flags = 0, filp_count = 0, filp_ino = 0, filp_pos = 0\<rparr>), fproc = (\<lambda>_. no_fproc),
     file_lock = (\<lambda>_. \<lparr>lock_type = 0, lock_pid = 0, lock_inode = 0, lock_first = 0, lock_last = 0\<rparr>), fp = 0, super_user = False, dont_reply = False,
     susp_count = 0, nr_locks = 0, reviving = 0, mesg = no_mess, reply_mess = no_mess, who = 1, fs_call = 0, root_dev = 768, rdahed_inode = None,
     rdahedpos = 0, umem = (\<lambda>_ _ _. 0), sent = [], inbox = [], user_path = (\<lambda>_. 0)\<rparr>"

definition boot_env :: env where
  "boot_env = \<lparr>disk_io = good_io, time_now = 0, user_flock = (\<lambda>_ _. None), copy_status = (\<lambda>_ _. 0), user_copy = (\<lambda>_ _ _ _. 0), proc_times = (\<lambda>_ _. 0),
     super_rest = (\<lambda>_ sp. sp)\<rparr>"

end
