(* ===== verification/Fs_Start.thy ===== *)
theory Fs_Start
  imports Fs_History Fs_Inodes Fs_Sample
begin

unbundle bit_operations_syntax

text \<open>
  The file system comes up: on a device with a root file system \<^verbatim>\<open>fs_init\<close> of \<^verbatim>\<open>src/src/fs/main.c\<close> returns,
  and from there every history keeps the counts.
\<close>

section \<open>Mounting the root\<close>

lemma get_inode_found:
  assumes "tab_ok s" "in_core s dev numb k"
  shows "get_inode io now dev numb s = Some (Ret (Some k, upd_inode k (i_count_update (\<lambda>n. n + 1)) s))"
proof -
  obtain f r where fr: "inode_search (inode s) dev numb [0 ..< NR_INODES] None = (f, r)" by force
  have "f \<and> r = Some k"
    using inode_search_cases [where tab = "inode s" and dev = dev and numb = numb and xs = "[0 ..< NR_INODES]" and xp = None] assms
    unfolding fr by (cases f; cases r) (auto simp: in_core_def tab_ok_def)
  then show ?thesis using fr by (simp add: get_inode_def)
qed

lemma copy_in_same: "i_mode (copy_in sp d n r) = i_mode (copy_in sp d n r')" "i_nlinks (copy_in sp d n r) = i_nlinks (copy_in sp d n r')"
  by (simp_all add: copy_in_def old_icopy_in_def new_icopy_in_def Let_def)

lemma judge_OK_dev: "judge_super rest d dev sp0 = (OK, sp) \<Longrightarrow> s_dev sp = dev"
  by (auto simp: judge_super_def Let_def errno_defs split: option.splits if_splits)

definition root_valid :: "env \<Rightarrow> (data \<Rightarrow> super_block \<Rightarrow> super_block) \<Rightarrow> int \<Rightarrow> super_block \<Rightarrow> fs \<Rightarrow> bool" where
  "root_valid e rest dev sp s \<longleftrightarrow> dev \<noteq> NO_DEV \<and> Fs_Bitmap.ready (disk_io e) dev (fs_cache s) \<and>
     judge_super rest (view (fs_cache s) dev SUPER_BLOCK) dev ((super_blocks s 0)\<lparr>s_dev := dev\<rparr>) = (OK, sp) \<and>
     (let r = copy_in sp (view (fs_cache s) dev (inode_block sp ROOT_INODE)) ROOT_INODE blank_inode
      in i_mode r AND I_TYPE = I_DIRECTORY \<and> 3 \<le> sint (i_nlinks r))"

lemma load_super_returns:
  assumes v: "root_valid e rest dev sp s" and b: "\<And>i. i_count (inode s i) = 0"
  shows "\<exists>k x. load_super e rest dev s = Some (Ret x) \<and> in_core x dev ROOT_INODE k \<and> i_count (inode x k) = 2 \<and> tab_ok x"
proof -
  define s1 where "s1 = upd_super 0 (s_dev_update (\<lambda>_. dev))
    (s\<lparr>super_blocks := (\<lambda>i. if i < NR_SUPERS then (super_blocks s i)\<lparr>s_dev := NO_DEV\<rparr> else super_blocks s i)\<rparr>)"
  have s1: "fs_cache s1 = fs_cache s" "inode s1 = inode s" "super_blocks s1 0 = (super_blocks s 0)\<lparr>s_dev := dev\<rparr>"
    by (simp_all add: s1_def upd_super_def NR_SUPERS_def)
  have rd: "Fs_Bitmap.ready (disk_io e) dev (fs_cache s1)" and ne: "dev \<noteq> NO_DEV"
    and j: "judge_super rest (view (fs_cache s1) dev SUPER_BLOCK) dev (super_blocks s1 0) = (OK, sp)"
    using v by (simp_all add: root_valid_def s1)
  obtain c where rs: "read_super (disk_io e) rest 0 s1 = Some (Ret (OK, upd_super 0 (\<lambda>_. sp) (s1\<lparr>fs_cache := c\<rparr>)))" and mv: "moved (fs_cache s1) c (view (fs_cache s1))"
    using read_super_judges [OF rd, of 0 rest] s1(3) unfolding j by auto
  define s2 where "s2 = upd_super 0 (\<lambda>_. sp) (s1\<lparr>fs_cache := c\<rparr>)"
  have s2: "inode s2 = inode s" "fs_cache s2 = c" "super_blocks s2 0 = sp" by (simp_all add: s2_def upd_super_def s1)
  have gs: "get_super dev s2 = Some (Ret 0)" using judge_OK_dev [OF j] by (simp add: get_super_def s2 NR_SUPERS_def upt_conv_Cons)
  have t0: "tab_ok s2" by (simp add: tab_ok_def s2 b)
  have rd2: "Fs_Bitmap.ready (disk_io e) dev (fs_cache s2)" using moved_ready [OF mv rd] by (simp add: s2)
  have vw: "view c dev n = view (fs_cache s) dev n" for n using mv rd by (simp add: moved_def Fs_Bitmap.ready_def s1)
  obtain r s3 where g: "get_inode (disk_io e) (time_now e) dev ROOT_INODE s2 = Some (Ret (r, s3))" "tab_ok s3"
    and full: "r = None \<longrightarrow> (\<forall>k < NR_INODES. i_count (inode s2 k) > 0) \<and> (\<forall>k. \<not> in_core s2 dev ROOT_INODE k) \<and> inode s3 = inode s2 \<and> err_code s3 = ENFILE"
    and new: "\<forall>k. r = Some k \<longrightarrow> in_core s3 dev ROOT_INODE k \<and> (\<forall>j. j \<noteq> k \<longrightarrow> inode s3 j = inode s2 j) \<and>
       (in_core s2 dev ROOT_INODE k \<longrightarrow> inode s3 k = (inode s2 k)\<lparr>i_count := i_count (inode s2 k) + 1\<rparr>) \<and>
       (\<not> in_core s2 dev ROOT_INODE k \<longrightarrow> (\<forall>j. \<not> in_core s2 dev ROOT_INODE j) \<and> \<not> i_count (inode s2 k) > 0 \<and> i_count (inode s3 k) = 1 \<and>
          (let from = copy_in (super_blocks s2 0) (view (fs_cache s2) dev (inode_block (super_blocks s2 0) ROOT_INODE)) ROOT_INODE (inode s2 k)
           in i_mode (inode s3 k) = i_mode from \<and> i_size (inode s3 k) = i_size from \<and> i_zone (inode s3 k) = i_zone from \<and> i_nlinks (inode s3 k) = i_nlinks from))"
    using get_inode_result [OF t0 ne rd2 gs, of "time_now e" ROOT_INODE] by (elim exE conjE) (rule that)
  have "r \<noteq> None"
  proof
    assume "r = None"
    then have "i_count (inode s2 0) > 0" using full by (simp add: NR_INODES_def)
    then show False by (simp add: s2 b)
  qed
  then obtain k where k: "r = Some k" by blast
  have no: "\<not> in_core s2 dev ROOT_INODE k" by (simp add: in_core_def s2 b)
  have ic: "in_core s3 dev ROOT_INODE k" "i_count (inode s3 k) = 1" "i_mode (inode s3 k) AND I_TYPE = I_DIRECTORY" "3 \<le> sint (i_nlinks (inode s3 k))"
    using new [rule_format, OF k] no v copy_in_same [of sp _ ROOT_INODE "inode s2 k" blank_inode]
    by (simp_all add: Let_def s2 vw root_valid_def)
  define x where "x = upd_super 0 (\<lambda>sp. sp\<lparr>s_imount := Some k, s_isup := Some k, s_rd_only := False\<rparr>) (dup_inode k s3)"
  have "load_super e rest dev s = Some (Ret x)"
    using rs g(1) k ic by (simp add: load_super_def Let_def s1_def [symmetric] s2_def [symmetric] x_def)
  moreover have "in_core x dev ROOT_INODE k" "i_count (inode x k) = 2" using ic by (simp_all add: x_def in_core_def upd_super_def dup_inode_def)
  moreover have "tab_ok x" using g(2) ic(2) by (auto simp: x_def tab_ok_def upd_super_def dup_inode_def upd_inode_def)
  ultimately show ?thesis by blast
qed

definition rooted :: "int \<Rightarrow> nat \<Rightarrow> int set \<Rightarrow> sys \<Rightarrow> bool" where
  "rooted dev k ps t \<longleftrightarrow> root_dev t = dev \<and> rdahed_inode t = None \<and> in_core (fsys t) dev ROOT_INODE k \<and> tab_ok (fsys t) \<and> i_count (ino_of t k) = 2 + 2 * int (card ps) \<and>
     (\<forall>p. fp_rootdir (fproc t p) = (if p \<in> ps then Some k else None) \<and> fp_workdir (fproc t p) = (if p \<in> ps then Some k else None))"

lemma init_proc_returns:
  assumes r: "rooted dev k ps t" and p: "p \<notin> ps" "finite ps"
  shows "\<exists>u. init_proc e p t = Some (Ret u) \<and> rooted dev k (insert p ps) u"
proof -
  have g: "get_inode (disk_io e) (time_now e) dev ROOT_INODE (fsys t) = Some (Ret (Some k, upd_inode k (i_count_update (\<lambda>n. n + 1)) (fsys t)))"
    using r by (intro get_inode_found) (simp_all add: rooted_def)
  define u where "u = upd_fproc p (\<lambda>p. p\<lparr>fp_rootdir := Some k, fp_workdir := Some k, fp_realuid := 0, fp_effuid := 0, fp_realgid := 0, fp_effgid := 0, fp_umask := NOT 0\<rparr>)
    (t\<lparr>fsys := dup_inode k (upd_inode k (i_count_update (\<lambda>n. n + 1)) (fsys t)), fp := p\<rparr>)"
  have "init_proc e p t = Some (Ret u)" using g r by (simp add: init_proc_def rooted_def u_def)
  moreover have "in_core (fsys u) dev ROOT_INODE k" "i_count (ino_of u k) = 2 + 2 * int (card (insert p ps))"
    using r p by (simp_all add: rooted_def in_core_def u_def dup_inode_def ino_of_def)
  moreover have "tab_ok (fsys u)" using r by (auto simp: rooted_def tab_ok_def in_core_def u_def dup_inode_def upd_inode_def)
  ultimately show ?thesis using r by (auto simp: rooted_def u_def upd_fproc_def)
qed

lemma fs_start_returns:
  assumes v: "root_valid e rest (root_dev s) sp (fsys s)" and b: "blank s"
  shows "\<exists>k t. fs_start e rest s = Some (Ret t) \<and> rooted (root_dev s) k {0, 2, 3} t"
proof -
  obtain k x where l: "load_super e rest (root_dev s) (fsys s) = Some (Ret x)" and x: "in_core x (root_dev s) ROOT_INODE k" "i_count (inode x k) = 2" "tab_ok x"
    using load_super_returns [OF v] b by (auto simp: blank_def ino_of_def)
  have r0: "rooted (root_dev s) k {} (s\<lparr>fsys := x\<rparr>)" using x b by (simp add: rooted_def ino_of_def blank_def)
  obtain t0 where t0: "init_proc e 0 (s\<lparr>fsys := x\<rparr>) = Some (Ret t0)" "rooted (root_dev s) k {0} t0" using init_proc_returns [OF r0, of 0] by auto
  obtain t2 where t2: "init_proc e 2 t0 = Some (Ret t2)" "rooted (root_dev s) k {2, 0} t2" using init_proc_returns [OF t0(2), of 2] by auto
  obtain t3 where t3: "init_proc e 3 t2 = Some (Ret t3)" "rooted (root_dev s) k {3, 2, 0} t3" using init_proc_returns [OF t2(2), of 3] by auto
  have list: "[0 .. LOW_USER] = [0, 1, 2, 3]" by (simp add: LOW_USER_def upto_rec2)
  have "fs_start e rest s = Some (Ret t3)"
    by (simp add: fs_start_def in_fs_def l list FS_PROC_NR_def and_then_def t0(1) t2(1) t3(1))
  moreover have "{3, 2, 0} = {0, 2, 3 :: int}" by auto
  ultimately show ?thesis using t3(2) by auto
qed

section \<open>A root file system\<close>

lemma blank_boot: "blank boot_sys"
  by (simp add: blank_def boot_sys_def boot_fs_def ino_of_def blank_inode_def sample_super_def no_fproc_def)

lemma boot_valid: "\<exists>sp. root_valid boot_env (\<lambda>d sp. sp) (root_dev boot_sys) sp (fsys boot_sys)"
proof -
  let ?c = "start 0 (\<lambda>_. root_disk)" and ?sp0 = "sample_super\<lparr>s_dev := 768\<rparr>"
  have v: "view ?c 768 b = root_disk b" for b using start_inv(2) [of 768 0 "\<lambda>_. root_disk" b] by (simp add: NO_DEV_def)
  have rd: "Fs_Bitmap.ready good_io 768 ?c"
    using start_inv [where n = 0 and D = "\<lambda>_. root_disk"] start_room [of 0 "\<lambda>_. root_disk"] good_io_sound
    by (simp add: Fs_Bitmap.ready_def store_inv_def usable_def NO_DEV_def DEV_RAM_def)
  have f: "get2 intel_super 0 = conv2h False 31" "get2 intel_super 2 = conv2h False 0" "get2 intel_super 4 = conv2h False 1" "get2 intel_super 6 = conv2h False 1"
    "get2 intel_super 8 = conv2h False 5" "get2 intel_super 10 = conv2h False 0" "get4 intel_super 12 = conv4 False 0" "get4 intel_super 20 = conv4 False 100"
    "get2 intel_super 16 = conv2h False SUPER_V2"
    by (simp_all add: get4_def get2_def intel_super_def conv2h_swap conv4_halves SUPER_V2_def push_bit_eq_mult)
  have mg: "super_magic (conv2h False SUPER_V2) = Some (2, False)" using super_magic_found [of False False] by simp
  obtain sp where sp: "judge_super (\<lambda>d sp. sp) intel_super 768 ?sp0 = (OK, sp)" "s_version sp = 2" "\<not> s_native sp" "s_inodes_per_block sp = 16"
    "s_imap_blocks sp = 1" "s_zmap_blocks sp = 1"
    by (simp add: judge_super_def decode_super_def swap_super_def Let_def f mg)
  have ib: "inode_block sp ROOT_INODE = 4" by (simp add: inode_block_def sp ROOT_INODE_def)
  have off: "inode_offset sp ROOT_INODE = 0" by (simp add: inode_offset_def sp ROOT_INODE_def)
  have m: "get2 (root_disk 4) 0 = 0xED41" "get2 (root_disk 4) 2 = 0x300" "root_disk SUPER_BLOCK = intel_super"
    by (simp_all add: get2_def root_disk_def SUPER_BLOCK_def push_bit_eq_mult)
  have mode: "i_mode (new_icopy_in False (root_disk 4) 0 r) AND I_TYPE = I_DIRECTORY" for r
    by (simp add: new_icopy_in_def m conv2h_def conv2_def I_TYPE_def I_DIRECTORY_def)
  have links: "sint (i_nlinks (new_icopy_in False (root_disk 4) 0 r)) = 3" for r
    by (simp add: new_icopy_in_def m [unfolded numeral_2_eq_2] conv2_def)
  show ?thesis
    by (rule exI [of _ sp]) (use rd sp(1) in \<open>simp add: root_valid_def boot_env_def boot_sys_def boot_fs_def v ib NO_DEV_def copy_in_def off sp mode links m(3)\<close>)
qed

lemma booted:
  obtains k t where "fs_start boot_env (\<lambda>d sp. sp) boot_sys = Some (Ret t)" "rooted 768 k {0, 2, 3} t"
proof -
  obtain sp where "root_valid boot_env (\<lambda>d sp. sp) (root_dev boot_sys) sp (fsys boot_sys)" using boot_valid by blast
  from fs_start_returns [OF this blank_boot] show ?thesis using that by (auto simp: boot_sys_def)
qed

lemma umask_round:
  assumes r: "rooted dev k ps t" and q: "reviving t = 0" and m: "m = no_mess\<lparr>msg_source := 3, msg_type := 60, m_i1 := 0x12\<rparr>"
  shows "\<exists>u. fs_main e junk OK m (t\<lparr>inbox := []\<rparr>) = Some (Ret u) \<and> fp_umask (fproc u 3) = NOT 0x12 \<and> fp_filp (fproc u 0) = fp_filp (fproc t 0) \<and>
    fp_suspended (fproc u 0) = fp_suspended (fproc t 0)"
proof -
  have "call_vector e junk ! 60 = simple do_umask" by (simp add: call_vector_def)
  then show ?thesis using r q
    by (simp add: fs_main_def get_work_def and_then_def dispatch_def NCALLS_def set_caller_def simple_def do_umask_def answer_def m no_mess_def reply_fs_def
        Let_def rooted_def upd_fproc_def RWX_MODES_def)
qed

section \<open>Properties\<close>

text \<open>
  (C32) The file system comes up on every device with a root file system. Started with empty tables on
  a device whose super block \<^verbatim>\<open>read_super\<close> accepts and whose inode 1 is a directory with at least three
  links, \<^verbatim>\<open>fs_init\<close> returns; one inode slot \<open>k\<close> then holds the root directory, which is the root and the
  working directory of MM, of the network server and of \<^verbatim>\<open>init\<close> and of no other process, and is counted
  for these six uses and for its two uses by the super block.
\<close>

theorem fs_start_mounts_root:
  assumes "blank s" "root_valid e rest (root_dev s) sp (fsys s)"
  shows "\<exists>k t. fs_start e rest s = Some (Ret t) \<and> k < NR_INODES \<and> i_dev (ino_of t k) = root_dev s \<and> i_num (ino_of t k) = 1 \<and> i_count (ino_of t k) = 8 \<and>
    (\<forall>p. fp_rootdir (fproc t p) = (if p \<in> {0, 2, 3} then Some k else None) \<and> fp_workdir (fproc t p) = (if p \<in> {0, 2, 3} then Some k else None))"
proof -
  obtain k t where "fs_start e rest s = Some (Ret t)" "rooted (root_dev s) k {0, 2, 3} t" using fs_start_returns [OF assms(2,1)] by blast
  then show ?thesis by (intro exI [of _ k] exI [of _ t]) (simp add: rooted_def in_core_def ino_of_def ROOT_INODE_def)
qed

theorem fs_start_mounts_root_witness:
  "\<exists>k t. fs_start boot_env (\<lambda>d sp. sp) boot_sys = Some (Ret t) \<and> i_count (ino_of t k) = 8 \<and> fp_workdir (fproc t 3) = Some k"
proof -
  obtain sp where "root_valid boot_env (\<lambda>d sp. sp) (root_dev boot_sys) sp (fsys boot_sys)" using boot_valid by blast
  from fs_start_mounts_root [OF blank_boot this] show ?thesis by auto
qed

text \<open>
  (C1) The counts of the file system are right in every state of every history: from the start, through
  any rounds of the main loop with any call but \<^verbatim>\<open>mount\<close> and \<^verbatim>\<open>umount\<close>, whatever the disk and the tasks do, as long as
  no call loses the working directory of its caller on a symbolic link (\<open>stays\<close> of Fs_History). A
  filp slot counts the descriptors that refer to it, an inode its open slots, the processes it is the
  root or the working directory of, and the super blocks that refer to it; \<^verbatim>\<open>nr_locks\<close> counts the locks
  and \<^verbatim>\<open>reviving\<close> the processes that are to be revived.
\<close>

theorem fs_history_counts:
  assumes "blank s0" "fs_start e rest s0 = Some (Ret s1)" "fs_history s1 s"
  shows "(\<forall>f < NR_FILPS. filp_count (filp s f) = int (card {x \<in> {0 ..< NR_PROCS} \<times> {..< OPEN_MAX}. fp_filp (fproc s (fst x)) (snd x) = Some f})) \<and>
    (\<forall>i. i_count (inode (fsys s) i) =
       int (card {f \<in> {..< NR_FILPS}. filp_count (filp s f) \<noteq> 0 \<and> filp_ino (filp s f) = i}) +
       int (card {p \<in> {0 ..< NR_PROCS}. fp_rootdir (fproc s p) = Some i}) + int (card {p \<in> {0 ..< NR_PROCS}. fp_workdir (fproc s p) = Some i}) +
       int (card {k \<in> {..< NR_SUPERS}. s_isup (super_blocks (fsys s) k) = Some i}) + int (card {k \<in> {..< NR_SUPERS}. s_imount (super_blocks (fsys s) k) = Some i})) \<and>
    nr_locks s = int (card {k \<in> {..< NR_LOCKS}. lock_type (file_lock s k) \<noteq> 0}) \<and>
    reviving s = int (card {p \<in> {0 ..< NR_PROCS}. fp_revived (fproc s p)})"
proof -
  have inv: "sys_inv s" using yieldsD [OF fs_start_inv [OF assms(1)] assms(2)] fs_history_inv [OF assms(3)] by blast
  have c: "(\<Sum>x \<in> A. of_bool (P x)) = int (card {x \<in> A. P x})" if "finite A" for A :: "'x set" and P
    using that by (simp add: Int_def conj_commute)
  show ?thesis
    using inv unfolding sys_inv_def filps_ok_def inodes_ok_def locks_ok_def revive_ok_def refs_def file_refs_def dir_refs_def super_refs_def users_def
      used_locks_def revived_def opened_def in_dirs_def slots_def procs_def desc_def ino_of_def sum.distrib
    by (simp only: c finite_atLeastLessThan_int finite_lessThan finite_cartesian_product) auto
qed

lemma umask_history:
  obtains t u where "fs_start boot_env (\<lambda>d sp. sp) boot_sys = Some (Ret t)" "fs_history t u" "fp_umask (fproc u 3) = NOT 0x12"
proof -
  obtain k t where t: "fs_start boot_env (\<lambda>d sp. sp) boot_sys = Some (Ret t)" "rooted 768 k {0, 2, 3} t" by (rule booted)
  from yieldsD [OF fs_start_inv [OF blank_boot] t(1)] have q: "reviving t = 0" "\<not> fp_suspended (fproc t MM_PROC_NR)" by simp_all
  let ?m = "no_mess\<lparr>msg_source := 3, msg_type := 60, m_i1 := 0x12\<rparr>"
  obtain u where u: "fs_main boot_env 0 OK ?m (t\<lparr>inbox := []\<rparr>) = Some (Ret u)" "fp_umask (fproc u 3) = NOT 0x12" "fp_suspended (fproc u 0) = fp_suspended (fproc t 0)"
    using umask_round [OF t(2) q(1) refl, of boot_env 0] by blast
  have "protocol ?m t" by (simp add: protocol_def procs_def no_mess_def NR_PROCS_def MM_PROC_NR_def FORK_def EXIT_def CHDIR_def EXEC_def)
  moreover have "\<forall>v. get_work OK ?m (t\<lparr>inbox := []\<rparr>) = Some (Ret v) \<longrightarrow> stays boot_env (nat (fs_call v)) (set_caller v)"
    using q(1) by (auto simp: get_work_def stays_def Let_def)
  ultimately have "fs_history t u" using u q(2) by (intro fs_history.round [OF fs_history.start _ _ u(1)]) (simp_all add: MM_PROC_NR_def)
  then show ?thesis using that t(1) u(2) by blast
qed

theorem fs_history_counts_witness:
  "\<exists>t u. fs_start boot_env (\<lambda>d sp. sp) boot_sys = Some (Ret t) \<and> fs_history t u \<and> fp_umask (fproc u 3) = NOT 0x12 \<and>
     nr_locks u = int (card {k \<in> {..< NR_LOCKS}. lock_type (file_lock u k) \<noteq> 0})"
proof -
  obtain t u where "fs_start boot_env (\<lambda>d sp. sp) boot_sys = Some (Ret t)" "fs_history t u" "fp_umask (fproc u 3) = NOT 0x12" by (rule umask_history)
  then show ?thesis using fs_history_counts [OF blank_boot, of boot_env "\<lambda>d sp. sp" t u] by blast
qed

text \<open>
  (C6) No pointer of the tables dangles in these histories, those of all calls but \<^verbatim>\<open>mount\<close> and \<^verbatim>\<open>umount\<close>, as long as no call
  loses the working directory on a symbolic link (\<open>stays\<close>) and MM is not made to wait. (A call that does lose it leaves a working directory that nothing counts.) An open descriptor names a filp slot of the table
  that is in use, the slot an inode of the inode table that is in use, and so do the root and working
  directories; a slot or an inode is never given away while something refers to it.
\<close>

theorem fs_history_no_dangling:
  assumes "blank s0" "fs_start e rest s0 = Some (Ret s1)" "fs_history s1 s" "0 \<le> p" "p < NR_PROCS"
  shows "(\<forall>d f. d < OPEN_MAX \<and> fp_filp (fproc s p) d = Some f \<longrightarrow>
      f < NR_FILPS \<and> filp_count (filp s f) > 0 \<and> filp_ino (filp s f) < NR_INODES \<and> i_count (inode (fsys s) (filp_ino (filp s f))) > 0) \<and>
    (\<forall>i. fp_rootdir (fproc s p) = Some i \<or> fp_workdir (fproc s p) = Some i \<longrightarrow> i < NR_INODES \<and> i_count (inode (fsys s) i) > 0)"
proof -
  have inv: "filps_ok s" "inodes_ok s"
    using yieldsD [OF fs_start_inv [OF assms(1)] assms(2)] fs_history_inv [OF assms(3)] by (auto simp: sys_inv_def)
  have p: "p \<in> procs" using assms(4,5) by (simp add: procs_def)
  have used: "i < NR_INODES \<and> i_count (inode (fsys s) i) > 0" if "refs s i > 0" for i
    using inv(2) that by (auto simp: inodes_ok_def ino_of_def not_less [symmetric])
  have slot: "f < NR_FILPS \<and> filp_count (filp s f) > 0 \<and> refs s (filp_ino (filp s f)) > 0"
    if d: "d < OPEN_MAX" "fp_filp (fproc s p) d = Some f" for d f
  proof -
    have x: "(p, d) \<in> slots" "desc s (p, d) = Some f" using d p by (simp_all add: slots_def desc_def)
    then have f: "f < NR_FILPS" "filp_count (filp s f) = users s f" using inv(1) by (auto simp: filps_ok_def)
    have "users s f > 0" using x unfolding users_def by (intro sum_pos2 [of slots "(p, d)"]) auto
    then have "opened (filp s f) (filp_ino (filp s f)) = 1" using f by (simp add: opened_def)
    moreover have "opened (filp s f) (filp_ino (filp s f)) \<le> file_refs s (filp_ino (filp s f))"
      unfolding file_refs_def using f(1) by (intro member_le_sum) (auto simp: opened_def)
    ultimately have "refs s (filp_ino (filp s f)) > 0" using refs_nonneg(2,3) [of s "filp_ino (filp s f)"] by (simp add: refs_def)
    then show ?thesis using f \<open>users s f > 0\<close> by simp
  qed
  have dir: "refs s i > 0" if "fp_rootdir (fproc s p) = Some i \<or> fp_workdir (fproc s p) = Some i" for i
  proof -
    have "in_dirs (fproc s p) i \<le> dir_refs s i" unfolding dir_refs_def using p by (intro member_le_sum) (auto simp: in_dirs_def)
    moreover have "in_dirs (fproc s p) i > 0" using that by (auto simp: in_dirs_def)
    ultimately show ?thesis using refs_nonneg(1,3) [of s i] by (simp add: refs_def)
  qed
  show ?thesis using slot dir used by blast
qed

theorem fs_history_no_dangling_witness:
  "\<exists>t u. fs_start boot_env (\<lambda>d sp. sp) boot_sys = Some (Ret t) \<and> fs_history t u \<and>
     (\<forall>i. fp_rootdir (fproc u 3) = Some i \<or> fp_workdir (fproc u 3) = Some i \<longrightarrow> i < NR_INODES \<and> i_count (inode (fsys u) i) > 0)"
proof -
  obtain t u where "fs_start boot_env (\<lambda>d sp. sp) boot_sys = Some (Ret t)" "fs_history t u" by (rule umask_history)
  then show ?thesis using fs_history_no_dangling [OF blank_boot, of boot_env "\<lambda>d sp. sp" t u 3] by (auto simp: NR_PROCS_def)
qed

end
