(* ===== verification/Fs_Locks.thy ===== *)
theory Fs_Locks
  imports Fs_Counts Fs_Sample
begin

unbundle bit_operations_syntax

text \<open>
  What the lock table of \<^verbatim>\<open>src/src/fs/lock.c\<close> means: which process holds which bytes of which file, and how.
  Setting and clearing of locks are described on these sets.
\<close>

section \<open>The bytes that are locked\<close>

definition grip :: "file_lock \<Rightarrow> (int \<times> int \<times> nat \<times> 32 word) set" where
  "grip l = {(p, t, i, b). lock_type l \<noteq> 0 \<and> p = lock_pid l \<and> t = lock_type l \<and> i = lock_inode l \<and> lock_first l \<le> b \<and> b \<le> lock_last l}"

definition grips :: "sys \<Rightarrow> (int \<times> int \<times> nat \<times> 32 word) set" where
  "grips s = (\<Union>k < NR_LOCKS. grip (file_lock s k))"

definition region :: "nat \<Rightarrow> 32 word \<Rightarrow> 32 word \<Rightarrow> (int \<times> int \<times> nat \<times> 32 word) set" where
  "region ino a z = {(p, t, i, b). i = ino \<and> a \<le> b \<and> b \<le> z}"

definition sane :: "file_lock \<Rightarrow> bool" where
  "sane l \<longleftrightarrow> lock_type l \<noteq> 0 \<longrightarrow> lock_type l \<in> {F_RDLCK, F_WRLCK} \<and> lock_first l \<le> lock_last l"

definition table_ok :: "sys \<Rightarrow> bool" where
  "table_ok s \<longleftrightarrow> locks_ok s \<and> (\<forall>k < NR_LOCKS. sane (file_lock s k))"

definition no_conflict :: "sys \<Rightarrow> bool" where
  "no_conflict s \<longleftrightarrow> (\<forall>p t i b p' t'. (p, t, i, b) \<in> grips s \<and> (p', t', i, b) \<in> grips s \<and> p \<noteq> p' \<longrightarrow> t = F_RDLCK \<and> t' = F_RDLCK)"

lemma lock_types [simp]: "F_RDLCK \<noteq> F_WRLCK" "F_RDLCK \<noteq> F_UNLCK" "F_WRLCK \<noteq> F_UNLCK" "F_WRLCK \<noteq> F_RDLCK" "F_UNLCK \<noteq> F_RDLCK" "F_UNLCK \<noteq> F_WRLCK"
  "F_RDLCK \<noteq> 0" "F_WRLCK \<noteq> 0" "F_GETLK \<noteq> F_SETLK" "F_SETLK \<noteq> F_GETLK" "F_SETLKW \<noteq> F_GETLK" "F_GETLK \<noteq> F_SETLKW" "F_SETLK \<noteq> F_SETLKW" "F_SETLKW \<noteq> F_SETLK"
  by (simp_all add: F_RDLCK_def F_WRLCK_def F_UNLCK_def F_GETLK_def F_SETLK_def F_SETLKW_def)

lemma overlap:
  fixes a z f l :: "32 word"
  assumes "a \<le> z" "f \<le> l"
  shows "\<not> (z < f \<or> a > l) \<longleftrightarrow> (\<exists>b. a \<le> b \<and> b \<le> z \<and> f \<le> b \<and> b \<le> l)"
  using assms by (auto intro: order_trans intro!: exI [of _ "max a f"] simp: not_less max_def)

text \<open>A lock stands in the way if another process holds one of the bytes and one of the two writes.\<close>

lemma harmless_set:
  assumes "a \<le> z" "sane l" "lock_type l \<noteq> 0" "lt \<in> {F_RDLCK, F_WRLCK}"
  shows "harmless ino lt a z pid l \<longleftrightarrow> (\<forall>p t b. (p, t, ino, b) \<in> grip l \<and> a \<le> b \<and> b \<le> z \<longrightarrow> p = pid \<or> lt = F_RDLCK \<and> t = F_RDLCK)"
proof -
  have "lock_first l \<le> lock_last l" using assms(2,3) by (simp add: sane_def)
  from overlap [OF assms(1) this] show ?thesis using assms(3,4) by (auto simp: harmless_def grip_def)
qed

lemma harmless_clear:
  assumes "a \<le> z" "sane l" "lock_type l \<noteq> 0"
  shows "harmless ino F_UNLCK a z pid l \<longleftrightarrow> grip l \<inter> region ino a z = {}"
proof -
  have "lock_first l \<le> lock_last l" using assms(2,3) by (simp add: sane_def)
  from overlap [OF assms(1) this] show ?thesis using assms(3) by (auto simp: harmless_def grip_def region_def)
qed

section \<open>Setting a lock\<close>

lemma scan_set:
  assumes "lt \<in> {F_RDLCK, F_WRLCK}" "req \<noteq> F_GETLK"
  shows "lock_scan ino req lt a z xs fr u s =
    (if \<exists>k \<in> set xs. lock_type (file_lock s k) \<noteq> 0 \<and> \<not> harmless ino lt a z (fp_pid (fproc s (fp s))) (file_lock s k)
     then (if req = F_SETLK then (Lock_return EAGAIN, s) else (Lock_return 0, suspend XLOCK s))
     else (Lock_end (if fr = None then List.find (\<lambda>k. lock_type (file_lock s k) = 0) xs else fr) u None, s))"
  using assms by (induction xs arbitrary: fr) auto

lemma table_full:
  assumes "locks_ok s"
  shows "List.find (\<lambda>k. lock_type (file_lock s k) = 0) [0 ..< NR_LOCKS] = None \<longleftrightarrow> nr_locks s = int NR_LOCKS"
proof
  assume "List.find (\<lambda>k. lock_type (file_lock s k) = 0) [0 ..< NR_LOCKS] = None"
  then have "\<forall>k < NR_LOCKS. lock_type (file_lock s k) \<noteq> 0" by (auto simp: find_None_iff)
  then show "nr_locks s = int NR_LOCKS" using assms by (simp add: locks_ok_def used_locks_def)
next
  assume full: "nr_locks s = int NR_LOCKS"
  have "lock_type (file_lock s k) \<noteq> 0" if k: "k < NR_LOCKS" for k
  proof
    assume z: "lock_type (file_lock s k) = 0"
    have "used_locks s = int (card ({..< NR_LOCKS} \<inter> {i. lock_type (file_lock s i) \<noteq> 0}))" by (simp add: used_locks_def)
    also have "\<dots> \<le> int (card ({..< NR_LOCKS} - {k}))" using z by (intro of_nat_mono card_mono) auto
    also have "\<dots> = int NR_LOCKS - 1" using k by (simp add: of_nat_diff)
    finally show False using full assms by (simp add: locks_ok_def)
  qed
  then show "List.find (\<lambda>k. lock_type (file_lock s k) = 0) [0 ..< NR_LOCKS] = None" by (auto simp: find_None_iff)
qed

definition clash :: "nat \<Rightarrow> int \<Rightarrow> 32 word \<Rightarrow> 32 word \<Rightarrow> int \<Rightarrow> sys \<Rightarrow> bool" where
  "clash ino lt a z pid s \<longleftrightarrow> (\<exists>p t b. (p, t, ino, b) \<in> grips s \<and> a \<le> b \<and> b \<le> z \<and> p \<noteq> pid \<and> \<not> (lt = F_RDLCK \<and> t = F_RDLCK))"

lemma clash_scan:
  assumes "table_ok s" "a \<le> z" "lt \<in> {F_RDLCK, F_WRLCK}"
  shows "(\<exists>k \<in> set [0 ..< NR_LOCKS]. lock_type (file_lock s k) \<noteq> 0 \<and> \<not> harmless ino lt a z pid (file_lock s k)) \<longleftrightarrow> clash ino lt a z pid s"
proof -
  have "lock_type (file_lock s k) \<noteq> 0 \<and> \<not> harmless ino lt a z pid (file_lock s k) \<longleftrightarrow>
      (\<exists>p t b. (p, t, ino, b) \<in> grip (file_lock s k) \<and> a \<le> b \<and> b \<le> z \<and> p \<noteq> pid \<and> \<not> (lt = F_RDLCK \<and> t = F_RDLCK))" if "k < NR_LOCKS" for k
  proof (cases "lock_type (file_lock s k) = 0")
    case False
    have sn: "sane (file_lock s k)" using assms(1) that by (simp add: table_ok_def)
    show ?thesis unfolding harmless_set [OF assms(2) sn False assms(3)] using False by blast
  qed (simp add: grip_def)
  then have "(\<exists>k \<in> set [0 ..< NR_LOCKS]. lock_type (file_lock s k) \<noteq> 0 \<and> \<not> harmless ino lt a z pid (file_lock s k)) \<longleftrightarrow>
      (\<exists>k < NR_LOCKS. \<exists>p t b. (p, t, ino, b) \<in> grip (file_lock s k) \<and> a \<le> b \<and> b \<le> z \<and> p \<noteq> pid \<and> \<not> (lt = F_RDLCK \<and> t = F_RDLCK))"
    unfolding set_upt by (meson atLeastLessThan_iff le0)
  also have "\<dots> \<longleftrightarrow> clash ino lt a z pid s" unfolding clash_def grips_def by blast
  finally show ?thesis .
qed

lemma grips_split: "k < NR_LOCKS \<Longrightarrow> grips s = grip (file_lock s k) \<union> (\<Union>j \<in> {..< NR_LOCKS} - {k}. grip (file_lock s j))"
  by (auto simp: grips_def)

lemma store_lock:
  assumes k: "k < NR_LOCKS" "lock_type (file_lock s k) = 0"
  shows "grips ((upd_lock k (\<lambda>_. l) s)\<lparr>nr_locks := n\<rparr>) = grips s \<union> grip l"
proof -
  have "grip (file_lock s k) = {}" using k(2) by (simp add: grip_def)
  then show ?thesis unfolding grips_split [OF k(1)] by (simp add: upd_lock_def Un_commute)
qed

lemma set_lock_result:
  assumes t: "table_ok s" and r: "a \<le> z" and lt: "l_type fl \<in> {F_RDLCK, F_WRLCK}" and req: "req = F_SETLK \<or> req = F_SETLKW"
  defines "pid \<equiv> fp_pid (fproc s (fp s))"
  shows "\<exists>v s'. lock_region_op e req fl ino a z s = Some (Ret (v, s')) \<and>
    (if clash ino (l_type fl) a z pid s then (if req = F_SETLK then v = EAGAIN \<and> s' = s else v = 0 \<and> s' = suspend XLOCK s)
     else if nr_locks s = int NR_LOCKS then v = ENOLCK \<and> s' = s
     else v = OK \<and> table_ok s' \<and> nr_locks s' = nr_locks s + 1 \<and> grips s' = grips s \<union> {(pid, l_type fl, ino, b) | b. a \<le> b \<and> b \<le> z})"
proof -
  have rq: "req \<noteq> F_GETLK" using req by auto
  note sc = scan_set [OF lt rq, of ino a z "[0 ..< NR_LOCKS]" None False s, unfolded clash_scan [OF t r lt] pid_def [symmetric]]
  have lo: "locks_ok s" using t by (simp add: table_ok_def)
  consider (clash) "clash ino (l_type fl) a z pid s"
    | (full) "\<not> clash ino (l_type fl) a z pid s" "nr_locks s = int NR_LOCKS"
    | (free) "\<not> clash ino (l_type fl) a z pid s" "nr_locks s \<noteq> int NR_LOCKS" by blast
  then show ?thesis
  proof cases
    case clash
    then have "lock_region_op e req fl ino a z s = Some (Ret (if req = F_SETLK then (EAGAIN, s) else (0, suspend XLOCK s)))"
      using sc by (simp add: lock_region_op_def)
    then show ?thesis using clash by (cases "req = F_SETLK") auto
  next
    case full
    then have "List.find (\<lambda>k. lock_type (file_lock s k) = 0) [0 ..< NR_LOCKS] = None" using table_full [OF lo] by simp
    then have "lock_region_op e req fl ino a z s = Some (Ret (ENOLCK, s))"
      using full sc rq lt by (auto simp: lock_region_op_def lock_store_def)
    then show ?thesis using full by simp
  next
    case free
    then obtain k where k: "List.find (\<lambda>k. lock_type (file_lock s k) = 0) [0 ..< NR_LOCKS] = Some k" using table_full [OF lo] by auto
    have kk: "k < NR_LOCKS" "lock_type (file_lock s k) = 0" using find_SomeD [OF k] by auto
    let ?l = "\<lparr>lock_type = l_type fl, lock_pid = pid, lock_inode = ino, lock_first = a, lock_last = z\<rparr>"
    let ?t = "(upd_lock k (\<lambda>_. ?l) s)\<lparr>nr_locks := nr_locks s + 1\<rparr>"
    have un: "l_type fl \<noteq> F_UNLCK" "l_type fl \<noteq> 0" using lt by auto
    have op: "lock_region_op e req fl ino a z s = Some (Ret (OK, ?t))"
      using free(1) sc rq un k by (simp add: lock_region_op_def lock_store_def pid_def)
    have "relock s ?t" by (rule relock_slot) (use kk un in auto)
    then have "locks_ok ?t" using lo by (simp add: relock_def)
    moreover have "\<forall>j < NR_LOCKS. sane (file_lock ?t j)" using t lt r by (auto simp: table_ok_def upd_lock_def sane_def)
    ultimately have tk: "table_ok ?t" by (simp add: table_ok_def)
    have "grip ?l = {(pid, l_type fl, ino, b) | b. a \<le> b \<and> b \<le> z}" using un by (auto simp: grip_def)
    then have "grips ?t = grips s \<union> {(pid, l_type fl, ino, b) | b. a \<le> b \<and> b \<le> z}"
      using store_lock [OF kk, where l = ?l and n = "nr_locks s + 1"] by simp
    then show ?thesis using op free tk by (intro exI [of _ OK] exI [of _ ?t]) simp
  qed
qed

section \<open>Waking the processes that wait for a lock\<close>

text \<open>The processes of \<open>A\<close> are marked; their calls are carried out again later.\<close>

definition roused :: "int set \<Rightarrow> sys \<Rightarrow> sys" where
  "roused A s = s\<lparr>fproc := (\<lambda>p. if p \<in> A then fproc s p\<lparr>fp_revived := True\<rparr> else fproc s p), reviving := reviving s + int (card A)\<rparr>"

lemma roused_fields [simp]:
  "file_lock (roused A s) = file_lock s" "nr_locks (roused A s) = nr_locks s" "fp (roused A s) = fp s" "filp (roused A s) = filp s"
  "fsys (roused A s) = fsys s" "susp_count (roused A s) = susp_count s" "mesg (roused A s) = mesg s" "sent (roused A s) = sent s"
  "fproc (roused A s) p = (if p \<in> A then fproc s p\<lparr>fp_revived := True\<rparr> else fproc s p)" "reviving (roused A s) = reviving s + int (card A)"
  by (simp_all add: roused_def)

lemma roused_none [simp]: "roused {} s = s"
  by (simp add: roused_def)

lemma roused_insert:
  assumes "p \<notin> A" "finite A"
  shows "(upd_fproc p (fp_revived_update (\<lambda>_. True)) (roused A s))\<lparr>reviving := reviving (roused A s) + 1\<rparr> = roused (insert p A) s"
  using assms by (simp add: roused_def upd_fproc_def fun_eq_iff)

definition lock_waiter :: "sys \<Rightarrow> int \<Rightarrow> bool" where
  "lock_waiter s p \<longleftrightarrow> fp_suspended (fproc s p) \<and> - fp_task (fproc s p) = XLOCK \<and> \<not> fp_revived (fproc s p)"

lemma lock_revive_all: "lock_revive s = Some (Ret (roused {p. INIT_PROC_NR < p \<and> p < NR_PROCS \<and> lock_waiter s p} s))"
proof -
  let ?f = "\<lambda>fptr s. if fp_suspended (fproc s fptr) \<and> - fp_task (fproc s fptr) = XLOCK then revive fptr 0 s else Some (Ret s)"
  have "each ?f xs (roused A s) = Some (Ret (roused (A \<union> {p \<in> set xs. lock_waiter s p}) s))"
    if "set xs \<subseteq> {0 ..< NR_PROCS}" "distinct xs" "A \<inter> set xs = {}" "finite A" for A xs
    using that
  proof (induction xs arbitrary: A)
    case (Cons x xs)
    have x: "0 \<le> x" "x < NR_PROCS" "x \<notin> A" using Cons.prems by auto
    have "?f x (roused A s) = Some (Ret (roused (A \<union> {p \<in> {x}. lock_waiter s p}) s))"
    proof (cases "lock_waiter s x")
      case True
      then have "A \<union> {p \<in> {x}. lock_waiter s p} = insert x A" by auto
      then show ?thesis using True x roused_insert [OF x(3) Cons.prems(4), of s] by (simp add: revive_def lock_waiter_def XLOCK_def XPIPE_def)
    next
      case False
      then have "A \<union> {p \<in> {x}. lock_waiter s p} = A" by auto
      then show ?thesis using False x by (auto simp: revive_def lock_waiter_def)
    qed
    moreover have "each ?f xs (roused (A \<union> {p \<in> {x}. lock_waiter s p}) s) =
        Some (Ret (roused (A \<union> {p \<in> {x}. lock_waiter s p} \<union> {p \<in> set xs. lock_waiter s p}) s))"
      by (rule Cons.IH) (use Cons.prems in auto)
    moreover have "A \<union> {p \<in> {x}. lock_waiter s p} \<union> {p \<in> set xs. lock_waiter s p} = A \<union> {p \<in> set (x # xs). lock_waiter s p}" by auto
    ultimately show ?case by simp
  qed simp
  from this [of "[INIT_PROC_NR + 1 .. NR_PROCS - 1]" "{}"] have
    "lock_revive s = Some (Ret (roused {p \<in> {INIT_PROC_NR + 1 .. NR_PROCS - 1}. lock_waiter s p} s))"
    unfolding lock_revive_def by (simp add: INIT_PROC_NR_def subset_iff del: upto_rec_numeral upto.simps)
  moreover have "{p \<in> {INIT_PROC_NR + 1 .. NR_PROCS - 1}. lock_waiter s p} = {p. INIT_PROC_NR < p \<and> p < NR_PROCS \<and> lock_waiter s p}" by auto
  ultimately show ?thesis by simp
qed

section \<open>Clearing a region\<close>

lemma not_top: "x < (y :: 32 word) \<Longrightarrow> x \<noteq> - 1"
  using word_order.extremum_strict by blast

lemma clear_lock_slot:
  assumes t: "table_ok s" and k: "k < NR_LOCKS" "lock_type (file_lock s k) \<noteq> 0" "lock_inode (file_lock s k) = ino"
    and o: "a \<le> z" "lock_first (file_lock s k) \<le> z" "a \<le> lock_last (file_lock s k)" and c: "clear_lock a z k s = Some s1"
  obtains j l m where "file_lock s1 = (file_lock s)(j := m, k := l)" "j < NR_LOCKS" "j \<noteq> k" "lock_type (file_lock s j) = 0"
    "sane l" "sane m" "grip m \<inter> region ino a z = {}" "grip l \<union> grip m = grip (file_lock s k) - region ino a z"
    "\<exists>f n. s1 = s\<lparr>file_lock := f, nr_locks := n\<rparr>"
  | l where "file_lock s1 = (file_lock s)(k := l)" "sane l" "grip l = grip (file_lock s k) - region ino a z" "\<exists>f n. s1 = s\<lparr>file_lock := f, nr_locks := n\<rparr>"
proof -
  let ?l = "file_lock s k"
  have s: "lock_first ?l \<le> lock_last ?l" "lock_type ?l \<in> {F_RDLCK, F_WRLCK}" using t k by (auto simp: table_ok_def sane_def)
  consider (whole) "a \<le> lock_first ?l" "lock_last ?l \<le> z" | (head) "a \<le> lock_first ?l" "z < lock_last ?l"
    | (tail) "lock_first ?l < a" "lock_last ?l \<le> z" | (middle) "lock_first ?l < a" "z < lock_last ?l" by fastforce
  then show thesis
  proof cases
    case whole
    then have s1: "s1 = (upd_lock k (lock_type_update (\<lambda>_. 0)) s)\<lparr>nr_locks := nr_locks s - 1\<rparr>" using c by (auto simp: clear_lock_def)
    show thesis
    proof (rule that(2) [of "?l\<lparr>lock_type := 0\<rparr>"])
      show "grip (?l\<lparr>lock_type := 0\<rparr>) = grip ?l - region ino a z" using whole k by (auto simp: grip_def region_def)
    qed (auto simp: s1 upd_lock_def sane_def)
  next
    case head
    then have s1: "s1 = upd_lock k (lock_first_update (\<lambda>_. z + 1)) s" using c by (auto simp: clear_lock_def Let_def split: if_splits)
    show thesis
    proof (rule that(2) [of "?l\<lparr>lock_first := z + 1\<rparr>"])
      show "grip (?l\<lparr>lock_first := z + 1\<rparr>) = grip ?l - region ino a z"
        using head k o not_top [OF head(2)] by (auto simp: grip_def region_def inc_less_eq_iff)
      show "sane (?l\<lparr>lock_first := z + 1\<rparr>)" using s head by (auto simp: sane_def inc_le)
    qed (auto simp: s1 upd_lock_def intro!: exI [of _ "nr_locks s"])
  next
    case tail
    then have s1: "s1 = upd_lock k (lock_last_update (\<lambda>_. a - 1)) s" using c by (auto simp: clear_lock_def Let_def split: if_splits)
    have "a \<noteq> 0" using tail by auto
    show thesis
    proof (rule that(2) [of "?l\<lparr>lock_last := a - 1\<rparr>"])
      show "grip (?l\<lparr>lock_last := a - 1\<rparr>) = grip ?l - region ino a z"
        using tail k o \<open>a \<noteq> 0\<close> by (auto simp: grip_def region_def less_eq_dec_iff)
      show "sane (?l\<lparr>lock_last := a - 1\<rparr>)" using s tail by (auto simp: sane_def less_eq_dec_iff)
    qed (auto simp: s1 upd_lock_def intro!: exI [of _ "nr_locks s"])
  next
    case middle
    then have n: "nr_locks s \<noteq> int NR_LOCKS" using c by (auto simp: clear_lock_def Let_def split: if_splits)
    have "a \<noteq> 0" using middle by auto
    obtain j where j: "j < NR_LOCKS" "List.find (\<lambda>i. lock_type (file_lock s i) = 0) [0 ..< NR_LOCKS] = Some j" "lock_type (file_lock s j) = 0"
      using free_lock [OF _ n] t by (auto simp: table_ok_def)
    have jk: "j \<noteq> k" using j k by auto
    have s1: "s1 = (upd_lock k (lock_last_update (\<lambda>_. a - 1)) (upd_lock j (\<lambda>_. ?l\<lparr>lock_first := z + 1\<rparr>) s))\<lparr>nr_locks := nr_locks s + 1\<rparr>"
      using c middle n j by (auto simp: clear_lock_def Let_def split: if_splits)
    show thesis
    proof (rule that(1) [of j "?l\<lparr>lock_first := z + 1\<rparr>" "?l\<lparr>lock_last := a - 1\<rparr>"])
      show "file_lock s1 = (file_lock s)(j := ?l\<lparr>lock_first := z + 1\<rparr>, k := ?l\<lparr>lock_last := a - 1\<rparr>)" using jk by (auto simp: s1 upd_lock_def)
      show "sane (?l\<lparr>lock_last := a - 1\<rparr>)" using s middle by (auto simp: sane_def less_eq_dec_iff)
      show "sane (?l\<lparr>lock_first := z + 1\<rparr>)" using s middle by (auto simp: sane_def inc_le)
      show "grip (?l\<lparr>lock_first := z + 1\<rparr>) \<inter> region ino a z = {}"
        using not_top [OF middle(2)] by (auto simp: grip_def region_def inc_less_eq_iff)
      show "grip (?l\<lparr>lock_last := a - 1\<rparr>) \<union> grip (?l\<lparr>lock_first := z + 1\<rparr>) = grip ?l - region ino a z"
        using middle k o \<open>a \<noteq> 0\<close> not_top [OF middle(2)] by (auto simp: grip_def region_def inc_less_eq_iff less_eq_dec_iff)
    qed (use j jk in \<open>auto simp: s1 upd_lock_def\<close>)
  qed
qed

text \<open>One step of the pass: the lock loses the bytes of the region, and what it loses no free slot gets.\<close>

lemma clear_lock_step:
  assumes t: "table_ok s" and k: "k < NR_LOCKS" "lock_type (file_lock s k) \<noteq> 0" "\<not> harmless ino F_UNLCK a z pid (file_lock s k)"
    and o: "a \<le> z" and c: "clear_lock a z k s = Some s1"
  shows "table_ok s1" "grips s1 - region ino a z = grips s - region ino a z" "grips s1 \<subseteq> grips s"
    "grip (file_lock s1 k) \<inter> region ino a z = {}"
    "\<And>j. j \<noteq> k \<Longrightarrow> file_lock s1 j = file_lock s j \<or> grip (file_lock s1 j) \<inter> region ino a z = {}"
    "\<exists>f n. s1 = s\<lparr>file_lock := f, nr_locks := n\<rparr>"
proof -
  have k': "lock_inode (file_lock s k) = ino" "lock_first (file_lock s k) \<le> z" "a \<le> lock_last (file_lock s k)"
    using k(3) by (auto simp: harmless_def)
  have lo: "locks_ok s1" using relock_clear [OF _ k(1,2) c] t by (auto simp: table_ok_def relock_def)
  have all: "table_ok s1 \<and> grips s1 - region ino a z = grips s - region ino a z \<and> grips s1 \<subseteq> grips s \<and>
    grip (file_lock s1 k) \<inter> region ino a z = {} \<and>
    (\<forall>j. j \<noteq> k \<longrightarrow> file_lock s1 j = file_lock s j \<or> grip (file_lock s1 j) \<inter> region ino a z = {}) \<and> (\<exists>f n. s1 = s\<lparr>file_lock := f, nr_locks := n\<rparr>)"
  proof (rule clear_lock_slot [OF t k(1,2) k'(1) o k'(2,3) c])
    fix j l m
    assume s1: "file_lock s1 = (file_lock s)(j := m, k := l)" and j: "j < NR_LOCKS" "j \<noteq> k" "lock_type (file_lock s j) = 0"
      and sn: "sane l" "sane m" and g: "grip m \<inter> region ino a z = {}" "grip l \<union> grip m = grip (file_lock s k) - region ino a z"
      and e: "\<exists>f n. s1 = s\<lparr>file_lock := f, nr_locks := n\<rparr>"
    let ?R = "\<Union>i \<in> {..< NR_LOCKS} - {k, j}. grip (file_lock s i)"
    have z: "grip (file_lock s j) = {}" using j(3) by (simp add: grip_def)
    have sp: "grips u = grip (file_lock u k) \<union> grip (file_lock u j) \<union> (\<Union>i \<in> {..< NR_LOCKS} - {k, j}. grip (file_lock u i))" for u
      using k j by (auto simp: grips_def)
    have "grips s = grip (file_lock s k) \<union> ?R" using sp [of s] z by simp
    moreover have "grips s1 = grip l \<union> grip m \<union> ?R" using sp [of s1] s1 j(2) by simp
    moreover have "table_ok s1" using lo t sn s1 by (auto simp: table_ok_def)
    ultimately show ?thesis using s1 g e j(2) by auto
  next
    fix l
    assume s1: "file_lock s1 = (file_lock s)(k := l)" and sn: "sane l" and g: "grip l = grip (file_lock s k) - region ino a z"
      and e: "\<exists>f n. s1 = s\<lparr>file_lock := f, nr_locks := n\<rparr>"
    let ?R = "\<Union>i \<in> {..< NR_LOCKS} - {k}. grip (file_lock s i)"
    have "grips s = grip (file_lock s k) \<union> ?R" by (rule grips_split [OF k(1)])
    moreover have "grips s1 = grip l \<union> ?R" unfolding grips_split [OF k(1), of s1] using s1 by simp
    moreover have "table_ok s1" using lo t sn s1 by (auto simp: table_ok_def)
    ultimately show ?thesis using s1 g e by auto
  qed
  then show "table_ok s1" "grips s1 - region ino a z = grips s - region ino a z" "grips s1 \<subseteq> grips s"
    "grip (file_lock s1 k) \<inter> region ino a z = {}" "\<exists>f n. s1 = s\<lparr>file_lock := f, nr_locks := n\<rparr>" by blast+
  from all show "file_lock s1 j = file_lock s j \<or> grip (file_lock s1 j) \<inter> region ino a z = {}" if "j \<noteq> k" for j using that by blast
qed

lemma scan_clear:
  assumes "table_ok s" "set xs \<subseteq> {..< NR_LOCKS}" "distinct xs" "a \<le> z" "req \<noteq> F_GETLK"
    and "\<And>j. j < NR_LOCKS \<Longrightarrow> j \<notin> set xs \<Longrightarrow> grip (file_lock s j) \<inter> region ino a z = {}"
  shows "\<exists>r s'. lock_scan ino req F_UNLCK a z xs fr u s = (r, s') \<and> table_ok s' \<and> grips s' - region ino a z = grips s - region ino a z \<and>
    grips s' \<subseteq> grips s \<and> (\<exists>f n. s' = s\<lparr>file_lock := f, nr_locks := n\<rparr>) \<and>
    (r = Lock_return ENOLCK \<and> nr_locks s' = int NR_LOCKS \<or>
     (\<exists>fr' u'. r = Lock_end fr' u' None \<and> grips s' \<inter> region ino a z = {} \<and>
        (u' \<longleftrightarrow> u \<or> (\<exists>k \<in> set xs. grip (file_lock s k) \<inter> region ino a z \<noteq> {}))))"
  using assms
proof (induction xs arbitrary: s fr u)
  case Nil
  then have "grips s \<inter> region ino a z = {}" by (auto simp: grips_def)
  then show ?case using Nil by (auto intro!: exI [of _ "file_lock s"] exI [of _ "nr_locks s"])
next
  case (Cons k xs)
  have kk: "k < NR_LOCKS" "k \<notin> set xs" using Cons.prems by auto
  show ?case
  proof (cases "lock_type (file_lock s k) = 0 \<or> harmless ino F_UNLCK a z (fp_pid (fproc s (fp s))) (file_lock s k)")
    case True
    have g: "grip (file_lock s k) \<inter> region ino a z = {}"
    proof (cases "lock_type (file_lock s k) = 0")
      case False
      have "sane (file_lock s k)" using Cons.prems(1) kk by (simp add: table_ok_def)
      from harmless_clear [OF Cons.prems(4) this False] show ?thesis using True False by blast
    qed (auto simp: grip_def)
    have out: "\<And>j. j < NR_LOCKS \<Longrightarrow> j \<notin> set xs \<Longrightarrow> grip (file_lock s j) \<inter> region ino a z = {}" using g Cons.prems(6) by fastforce
    let ?fr = "if lock_type (file_lock s k) = 0 \<and> fr = None then Some k else fr"
    have "lock_scan ino req F_UNLCK a z (k # xs) fr u s = lock_scan ino req F_UNLCK a z xs ?fr u s" using True by auto
    then show ?thesis using Cons.IH [OF Cons.prems(1) _ _ Cons.prems(4,5) out, of ?fr u] Cons.prems(2,3) g by (simp del: lock_scan.simps)
  next
    case False
    then have F: "lock_type (file_lock s k) \<noteq> 0" "\<not> harmless ino F_UNLCK a z (fp_pid (fproc s (fp s))) (file_lock s k)" by auto
    show ?thesis
    proof (cases "clear_lock a z k s")
      case None
      then have "nr_locks s = int NR_LOCKS" by (auto simp: clear_lock_def Let_def split: if_splits)
      then show ?thesis using None F Cons.prems by (auto intro!: exI [of _ "file_lock s"] exI [of _ "nr_locks s"])
    next
      case (Some s1)
      note st = clear_lock_step [OF Cons.prems(1) kk(1) F Cons.prems(4) Some]
      have sn: "sane (file_lock s k)" using Cons.prems(1) kk by (simp add: table_ok_def)
      have hit: "grip (file_lock s k) \<inter> region ino a z \<noteq> {}" using harmless_clear [OF Cons.prems(4) sn F(1)] F(2) by blast
      have out: "grip (file_lock s1 j) \<inter> region ino a z = {}" if j: "j < NR_LOCKS" "j \<notin> set xs" for j
      proof (cases "j = k")
        case False
        then show ?thesis using st(5) [OF False] Cons.prems(6) [of j] j by auto
      qed (use st(4) in simp)
      have step: "lock_scan ino req F_UNLCK a z (k # xs) fr u s = lock_scan ino req F_UNLCK a z xs fr True s1"
        using F Some Cons.prems(5) by simp
      from Cons.IH [OF st(1) _ _ Cons.prems(4,5) out, of fr True] Cons.prems(2,3)
      obtain r s' where r: "lock_scan ino req F_UNLCK a z xs fr True s1 = (r, s')" "table_ok s'" "grips s' - region ino a z = grips s1 - region ino a z"
        "grips s' \<subseteq> grips s1" "\<exists>f n. s' = s1\<lparr>file_lock := f, nr_locks := n\<rparr>"
        "r = Lock_return ENOLCK \<and> nr_locks s' = int NR_LOCKS \<or> (\<exists>fr'. r = Lock_end fr' True None \<and> grips s' \<inter> region ino a z = {})" by auto
      moreover obtain f n g m where "s1 = s\<lparr>file_lock := f, nr_locks := n\<rparr>" "s' = s1\<lparr>file_lock := g, nr_locks := m\<rparr>" using st(6) r(5) by blast
      then have "s' = s\<lparr>file_lock := g, nr_locks := m\<rparr>" by simp
      then have "\<exists>f n. s' = s\<lparr>file_lock := f, nr_locks := n\<rparr>" by blast
      ultimately show ?thesis unfolding step using st(2,3) hit by (intro exI [of _ r] exI [of _ s']) auto
    qed
  qed
qed

section \<open>The call\<close>

text \<open>A request that passes the checks of \<^verbatim>\<open>lock_op\<close>: the caller has asked for the bytes from \<open>a\<close> to \<open>z\<close>.\<close>

definition lock_request :: "env \<Rightarrow> nat \<Rightarrow> flock \<Rightarrow> 32 word \<Rightarrow> 32 word \<Rightarrow> sys \<Rightarrow> bool" where
  "lock_request e f fl a z s \<longleftrightarrow>
     user_flock e (who s) (m_l1 (mesg s)) = Some fl \<and> l_type fl \<in> {F_RDLCK, F_WRLCK, F_UNLCK} \<and>
     i_mode (ino_of s (filp_ino (filp s f))) AND I_TYPE = I_REGULAR \<and>
     (l_type fl = F_RDLCK \<longrightarrow> has (filp_mode (filp s f)) R_BIT) \<and> (l_type fl = F_WRLCK \<longrightarrow> has (filp_mode (filp s f)) W_BIT) \<and>
     lock_region fl (filp_pos (filp s f)) (i_size (ino_of s (filp_ino (filp s f)))) = Some (a, z)"

lemma lock_request_op:
  assumes "lock_request e f fl a z s" "req \<noteq> F_GETLK"
  shows "lock_op e f req s = lock_region_op e req fl (filp_ino (filp s f)) a z s"
  using assms by (auto simp: lock_request_def lock_op_def)

lemma lock_region_order: "lock_region fl pos eof = Some (a, z) \<Longrightarrow> a \<le> z"
  by (auto simp: lock_region_def Let_def split: if_splits)

definition my_pid :: "sys \<Rightarrow> int" where "my_pid s = fp_pid (fproc s (fp s))"

text \<open>An example: process 60 has locked the bytes 10 to 20 of file 1 for writing, process 7 waits, process 5 asks.\<close>

definition lock_state :: sys where
  "lock_state = boot_sys\<lparr>
     fsys := boot_fs\<lparr>inode := (\<lambda>_. blank_inode)(1 := blank_inode\<lparr>i_mode := 0x81A4, i_size := 100\<rparr>)\<rparr>,
     filp := (\<lambda>_. \<lparr>filp_mode = 6, filp_flags = 2, filp_count = 1, filp_ino = 1, filp_pos = 0\<rparr>),
     fproc := (\<lambda>_. no_fproc)(5 := no_fproc\<lparr>fp_pid := 50\<rparr>, 7 := no_fproc\<lparr>fp_pid := 70, fp_suspended := True, fp_task := - XLOCK\<rparr>),
     file_lock := (\<lambda>_. \<lparr>lock_type = 0, lock_pid = 0, lock_inode = 0, lock_first = 0, lock_last = 0\<rparr>)
       (0 := \<lparr>lock_type = F_WRLCK, lock_pid = 60, lock_inode = 1, lock_first = 10, lock_last = 20\<rparr>),
     fp := 5, who := 5, nr_locks := 1\<rparr>"

definition asks :: "int \<Rightarrow> 32 word \<Rightarrow> 32 word \<Rightarrow> flock" where
  "asks lt a n = \<lparr>l_type = lt, l_whence = SEEK_SET, l_start = a, l_len = n, l_pid = 0\<rparr>"

definition lock_env :: "flock \<Rightarrow> env" where
  "lock_env fl = boot_env\<lparr>user_flock := (\<lambda>_ _. Some fl)\<rparr>"

lemma NR_LOCKS_eval: "{..< NR_LOCKS} = {0, 1, 2, 3, 4, 5, 6, 7}"
  by (auto simp: NR_LOCKS_def)

lemma lock_state_grips: "grips lock_state = {(60, F_WRLCK, 1, b) | b. 10 \<le> b \<and> b \<le> 20}"
  unfolding grips_def NR_LOCKS_eval by (auto simp: lock_state_def grip_def boot_sys_def)

lemma lock_state_ok: "table_ok lock_state" "no_conflict lock_state"
proof -
  show "table_ok lock_state"
    unfolding table_ok_def locks_ok_def used_locks_def NR_LOCKS_eval by (simp add: lock_state_def sane_def)
  show "no_conflict lock_state" unfolding no_conflict_def lock_state_grips by auto
qed

lemma lock_state_request:
  assumes "lt \<in> {F_RDLCK, F_WRLCK, F_UNLCK}" "sint a \<ge> 0" "n \<noteq> 0" "a \<le> a + n - 1"
  shows "lock_request (lock_env (asks lt a n)) 0 (asks lt a n) a (a + n - 1) lock_state"
  using assms by (auto simp: lock_request_def lock_env_def asks_def lock_state_def lock_region_def ino_of_def has_def R_BIT_def W_BIT_def
      I_REGULAR_def I_TYPE_def Let_def)

text \<open>
  (C33) A request for a lock fails with \<^verbatim>\<open>EAGAIN\<close>, or waits when it is \<^verbatim>\<open>F_SETLKW\<close>, exactly when another process
  holds one of the bytes and one of the two locks is for writing. It fails with \<^verbatim>\<open>ENOLCK\<close> when the table is full. Otherwise
  the caller holds exactly the bytes that it asked for besides what was held before.
\<close>

theorem lock_granted:
  assumes "table_ok s" "lock_request e f fl a z s" "l_type fl \<noteq> F_UNLCK" "req = F_SETLK \<or> req = F_SETLKW"
  shows "\<exists>v s'. lock_op e f req s = Some (Ret (v, s')) \<and>
    (if clash (filp_ino (filp s f)) (l_type fl) a z (my_pid s) s
     then (if req = F_SETLK then v = EAGAIN \<and> s' = s else v = 0 \<and> s' = suspend XLOCK s)
     else if nr_locks s = int NR_LOCKS then v = ENOLCK \<and> s' = s
     else v = OK \<and> table_ok s' \<and> nr_locks s' = nr_locks s + 1 \<and>
       grips s' = grips s \<union> {(my_pid s, l_type fl, filp_ino (filp s f), b) | b. a \<le> b \<and> b \<le> z})"
proof -
  have "a \<le> z" "l_type fl \<in> {F_RDLCK, F_WRLCK}" and r: "req \<noteq> F_GETLK"
    using assms(2,3,4) lock_region_order by (auto simp: lock_request_def)
  from set_lock_result [OF assms(1) this(1,2) assms(4)] show ?thesis unfolding lock_request_op [OF assms(2) r] my_pid_def .
qed

theorem lock_granted_witness:
  "(\<exists>v s'. lock_op (lock_env (asks F_RDLCK 0 10)) 0 F_SETLK lock_state = Some (Ret (v, s')) \<and> v = OK \<and> nr_locks s' = 2 \<and> (50, F_RDLCK, 1, 3) \<in> grips s') \<and>
    (\<exists>v s'. lock_op (lock_env (asks F_RDLCK 15 1)) 0 F_SETLK lock_state = Some (Ret (v, s')) \<and> v = EAGAIN)"
proof -
  have f: "filp_ino (filp lock_state 0) = 1" "my_pid lock_state = 50" "nr_locks lock_state = 1" by (simp_all add: lock_state_def my_pid_def)
  have t: "l_type (asks lt a n) = lt" for lt a n by (simp add: asks_def)
  have free: "\<not> clash 1 F_RDLCK 0 9 50 lock_state" unfolding clash_def lock_state_grips by (auto simp: word_le_nat_alt)
  have taken: "clash 1 F_RDLCK 15 15 50 lock_state" unfolding clash_def lock_state_grips by (auto intro!: exI [of _ 15])
  have r: "lock_request (lock_env (asks F_RDLCK 0 10)) 0 (asks F_RDLCK 0 10) 0 9 lock_state"
    "lock_request (lock_env (asks F_RDLCK 15 1)) 0 (asks F_RDLCK 15 1) 15 15 lock_state"
    using lock_state_request [of F_RDLCK 0 10] lock_state_request [of F_RDLCK 15 1] by simp_all
  have n: "(1 :: int) \<noteq> int NR_LOCKS" by (simp add: NR_LOCKS_def)
  have 1: "\<exists>v s'. lock_op (lock_env (asks F_RDLCK 0 10)) 0 F_SETLK lock_state = Some (Ret (v, s')) \<and> v = OK \<and> nr_locks s' = 2 \<and> (50, F_RDLCK, 1, 3) \<in> grips s'"
    using lock_granted [OF lock_state_ok(1) r(1), of F_SETLK] free n by (auto simp: f t)
  have 2: "\<exists>v s'. lock_op (lock_env (asks F_RDLCK 15 1)) 0 F_SETLK lock_state = Some (Ret (v, s')) \<and> v = EAGAIN"
    using lock_granted [OF lock_state_ok(1) r(2), of F_SETLK] taken by (auto simp: f t)
  show ?thesis using 1 2 by blast
qed

lemma unlock_result:
  assumes t: "table_ok s" and r: "a \<le> z" and lt: "l_type fl = F_UNLCK" and req: "req \<noteq> F_GETLK"
  shows "\<exists>v s'. lock_region_op e req fl ino a z s = Some (Ret (v, s')) \<and> table_ok s' \<and> grips s' \<subseteq> grips s \<and>
    (v = ENOLCK \<and> nr_locks s' = int NR_LOCKS \<and> grips s' - region ino a z = grips s - region ino a z \<or>
     v = OK \<and> grips s' = grips s - region ino a z \<and>
       fproc s' = fproc (if grips s \<inter> region ino a z = {} then s else roused {p. INIT_PROC_NR < p \<and> p < NR_PROCS \<and> lock_waiter s p} s))"
proof -
  obtain r s1 where sc: "lock_scan ino req F_UNLCK a z [0 ..< NR_LOCKS] None False s = (r, s1)" "table_ok s1"
    "grips s1 - region ino a z = grips s - region ino a z" "grips s1 \<subseteq> grips s" "\<exists>f n. s1 = s\<lparr>file_lock := f, nr_locks := n\<rparr>"
    and res: "r = Lock_return ENOLCK \<and> nr_locks s1 = int NR_LOCKS \<or>
     (\<exists>fr' u'. r = Lock_end fr' u' None \<and> grips s1 \<inter> region ino a z = {} \<and> (u' \<longleftrightarrow> (\<exists>k \<in> set [0 ..< NR_LOCKS]. grip (file_lock s k) \<inter> region ino a z \<noteq> {})))"
    using scan_clear [OF t _ _ r req, of "[0 ..< NR_LOCKS]" ino None False] by (simp add: lessThan_atLeast0) blast
  from res show ?thesis
  proof (elim disjE exE conjE)
    assume "r = Lock_return ENOLCK" "nr_locks s1 = int NR_LOCKS"
    then show ?thesis using sc lt by (intro exI [of _ ENOLCK] exI [of _ s1]) (simp add: lock_region_op_def)
  next
    fix fr' u' assume e: "r = Lock_end fr' u' None" "grips s1 \<inter> region ino a z = {}"
      and u: "u' \<longleftrightarrow> (\<exists>k \<in> set [0 ..< NR_LOCKS]. grip (file_lock s k) \<inter> region ino a z \<noteq> {})"
    have u': "u' \<longleftrightarrow> grips s \<inter> region ino a z \<noteq> {}" unfolding u grips_def set_upt lessThan_atLeast0 by blast
    have w: "lock_waiter s1 = lock_waiter s" "fproc s1 = fproc s" using sc(5) by (auto simp: lock_waiter_def fun_eq_iff)
    let ?A = "{p. INIT_PROC_NR < p \<and> p < NR_PROCS \<and> lock_waiter s p}"
    let ?s2 = "if u' then roused ?A s1 else s1"
    have "lock_region_op e req fl ino a z s = Some (Ret (OK, ?s2))"
      using sc(1) e(1) lt req by (simp add: lock_region_op_def lock_revive_all w lock_store_def)
    moreover have "table_ok ?s2" "grips ?s2 = grips s1" using sc(2) by (auto simp: table_ok_def locks_ok_def used_locks_def grips_def)
    moreover have "fproc ?s2 = fproc (if grips s \<inter> region ino a z = {} then s else roused ?A s)" using u' w by (auto simp: fun_eq_iff)
    moreover have "grips s1 = grips s - region ino a z" using sc(3) e(2) by blast
    ultimately show ?thesis using sc(4) by (intro exI [of _ OK] exI [of _ ?s2]) simp
  qed
qed

text \<open>
  (C34) Unlocking returns, never grants a byte, and touches nothing outside the region. When it succeeds nobody holds
  a byte of the region any more -- also no other process: the owner of a lock is not looked at -- and if somebody did,
  every process that waits for a lock is woken up. It fails only when the table is full, with \<^verbatim>\<open>ENOLCK\<close>.
\<close>

theorem unlock_clears:
  assumes "table_ok s" "lock_request e f fl a z s" "l_type fl = F_UNLCK" "req = F_SETLK \<or> req = F_SETLKW"
  defines "rg \<equiv> region (filp_ino (filp s f)) a z"
  shows "\<exists>v s'. lock_op e f req s = Some (Ret (v, s')) \<and> table_ok s' \<and> grips s' \<subseteq> grips s \<and>
    (v = ENOLCK \<and> nr_locks s' = int NR_LOCKS \<and> grips s' - rg = grips s - rg \<or>
     v = OK \<and> grips s' = grips s - rg \<and>
       fproc s' = fproc (if grips s \<inter> rg = {} then s else roused {p. INIT_PROC_NR < p \<and> p < NR_PROCS \<and> lock_waiter s p} s))"
proof -
  have "a \<le> z" and r: "req \<noteq> F_GETLK" using assms(2,4) lock_region_order by (auto simp: lock_request_def)
  from unlock_result [OF assms(1) this(1) assms(3) r] show ?thesis unfolding lock_request_op [OF assms(2) r] rg_def .
qed

theorem unlock_clears_witness:
  "\<exists>v s'. lock_op (lock_env (asks F_UNLCK 12 3)) 0 F_SETLK lock_state = Some (Ret (v, s')) \<and>
    (v = ENOLCK \<and> nr_locks s' = 8 \<or> v = OK \<and> (60, F_WRLCK, 1, 13) \<notin> grips s' \<and> (60, F_WRLCK, 1, 15) \<in> grips s' \<and> fp_revived (fproc s' 7))"
proof -
  have f: "filp_ino (filp lock_state 0) = 1" by (simp add: lock_state_def)
  have r: "lock_request (lock_env (asks F_UNLCK 12 3)) 0 (asks F_UNLCK 12 3) 12 14 lock_state"
    using lock_state_request [of F_UNLCK 12 3] by simp
  have w: "lock_waiter lock_state 7" "INIT_PROC_NR < 7" "7 < NR_PROCS" by (simp_all add: lock_waiter_def lock_state_def no_fproc_def INIT_PROC_NR_def NR_PROCS_def)
  have hit: "grips lock_state \<inter> region 1 12 14 \<noteq> {}"
    unfolding lock_state_grips by (auto simp: region_def set_eq_iff intro!: exI [of _ 13])
  show ?thesis
    using unlock_clears [OF lock_state_ok(1) r, of F_SETLK] hit w by (auto simp: f asks_def lock_state_grips region_def NR_LOCKS_def)
qed

lemma scan_get: "\<exists>fr' c. lock_scan ino F_GETLK lt a z xs fr u s = (Lock_end fr' u c, s)"
  by (induction xs arbitrary: fr) auto

lemma no_conflict_fewer: "no_conflict s \<Longrightarrow> grips s' \<subseteq> grips s \<Longrightarrow> no_conflict s'"
  unfolding no_conflict_def by (meson subsetD)

lemma no_conflict_more:
  assumes "no_conflict s" "\<not> clash ino lt a z pid s" "grips s' = grips s \<union> {(pid, lt, ino, b) | b. a \<le> b \<and> b \<le> z}"
  shows "no_conflict s'"
  using assms(1,2) unfolding no_conflict_def clash_def assms(3) by blast

lemma table_fields:
  assumes "file_lock s' = file_lock s" "nr_locks s' = nr_locks s"
  shows "table_ok s' = table_ok s" "grips s' = grips s" "no_conflict s' = no_conflict s"
  using assms by (simp_all add: table_ok_def locks_ok_def used_locks_def grips_def no_conflict_def)

lemma suspend_table: "file_lock (suspend task s) = file_lock s" "nr_locks (suspend task s) = nr_locks s"
  by (auto simp: suspend_def)

lemma lock_region_keeps:
  assumes "table_ok s" "no_conflict s" "a \<le> z" "l_type fl \<in> {F_RDLCK, F_WRLCK, F_UNLCK}" "req = F_GETLK \<or> req = F_SETLK \<or> req = F_SETLKW"
  shows "\<exists>v s'. lock_region_op e req fl ino a z s = Some (Ret (v, s')) \<and> table_ok s' \<and> no_conflict s'"
proof -
  consider "req = F_GETLK" | "req = F_SETLK \<or> req = F_SETLKW" "l_type fl \<in> {F_RDLCK, F_WRLCK}"
    | "req \<noteq> F_GETLK" "l_type fl = F_UNLCK" using assms(4,5) by auto
  then show ?thesis
  proof cases
    case 1
    obtain fr c where sc: "lock_scan ino F_GETLK (l_type fl) a z [0 ..< NR_LOCKS] None False s = (Lock_end fr False c, s)"
      using scan_get by blast
    then have "lock_region_op e req fl ino a z s = Some (Ret (lock_report e fl c s))" using 1 by (simp add: lock_region_op_def)
    moreover have "file_lock (snd (lock_report e fl c s)) = file_lock s" "nr_locks (snd (lock_report e fl c s)) = nr_locks s" by (simp_all add: lock_report_def)
    ultimately show ?thesis using table_fields [of "snd (lock_report e fl c s)" s] assms(1,2)
      by (intro exI [of _ "fst (lock_report e fl c s)"] exI [of _ "snd (lock_report e fl c s)"]) simp
  next
    case 2
    obtain v s' where r: "lock_region_op e req fl ino a z s = Some (Ret (v, s'))"
      and c: "if clash ino (l_type fl) a z (fp_pid (fproc s (fp s))) s
         then (if req = F_SETLK then v = EAGAIN \<and> s' = s else v = 0 \<and> s' = suspend XLOCK s)
         else if nr_locks s = int NR_LOCKS then v = ENOLCK \<and> s' = s
         else v = OK \<and> table_ok s' \<and> nr_locks s' = nr_locks s + 1 \<and>
           grips s' = grips s \<union> {(fp_pid (fproc s (fp s)), l_type fl, ino, b) | b. a \<le> b \<and> b \<le> z}"
      using set_lock_result [OF assms(1,3) 2(2,1), of e ino] by (elim exE conjE) (rule that)
    have "table_ok s' \<and> no_conflict s'"
    proof (cases "clash ino (l_type fl) a z (fp_pid (fproc s (fp s))) s \<or> nr_locks s = int NR_LOCKS")
      case True
      then have "s' = s \<or> s' = suspend XLOCK s" using c by (simp split: if_split_asm)
      then show ?thesis using assms(1,2) table_fields [OF suspend_table, of XLOCK s] by auto
    next
      case False
      then have "table_ok s'" "grips s' = grips s \<union> {(fp_pid (fproc s (fp s)), l_type fl, ino, b) | b. a \<le> b \<and> b \<le> z}" using c by simp_all
      then show ?thesis using no_conflict_more [OF assms(2)] False by blast
    qed
    then show ?thesis using r by blast
  next
    case 3
    obtain v s' where "lock_region_op e req fl ino a z s = Some (Ret (v, s'))" "table_ok s'" "grips s' \<subseteq> grips s"
      using unlock_result [OF assms(1,3) 3(2,1), of e ino] by (elim exE conjE) (rule that)
    then show ?thesis using no_conflict_fewer [OF assms(2), of s'] by blast
  qed
qed

text \<open>
  (C35) \<^verbatim>\<open>lock_op\<close> always returns, whatever it is asked for, and keeps the table of locks consistent: \<^verbatim>\<open>nr_locks\<close> is the
  number of slots in use, every lock in use is for reading or writing and covers a range that is not empty, and no byte that a
  process holds for writing is held by another process.
\<close>

theorem lock_op_keeps:
  assumes "table_ok s" "no_conflict s" "req = F_GETLK \<or> req = F_SETLK \<or> req = F_SETLKW"
  shows "\<exists>v s'. lock_op e f req s = Some (Ret (v, s')) \<and> table_ok s' \<and> no_conflict s'"
proof (cases "user_flock e (who s) (m_l1 (mesg s))")
  case None
  then show ?thesis using assms by (simp add: lock_op_def)
next
  case (Some fl)
  let ?ino = "filp_ino (filp s f)"
  have keep: "\<exists>v s'. (case lock_region fl (filp_pos (filp s f)) (i_size (ino_of s ?ino)) of None \<Rightarrow> Some (Ret (EINVAL, s))
      | Some (frst, lastb) \<Rightarrow> lock_region_op e req fl ?ino frst lastb s) = Some (Ret (v, s')) \<and> table_ok s' \<and> no_conflict s'"
    if "l_type fl \<in> {F_RDLCK, F_WRLCK, F_UNLCK}"
    using assms lock_region_keeps [OF assms(1,2) lock_region_order that assms(3)] by (auto split: option.split)
  show ?thesis using assms Some keep by (auto simp: lock_op_def Let_def)
qed

theorem lock_op_keeps_witness:
  "\<exists>v s'. lock_op (lock_env (asks F_UNLCK 12 3)) 0 F_SETLK lock_state = Some (Ret (v, s')) \<and> table_ok s' \<and> no_conflict s'"
  by (rule lock_op_keeps [OF lock_state_ok]) simp

end
