(* ===== verification/Fs_Dirs.thy ===== *)
theory Fs_Dirs
  imports Fs_Dir Fs_Files Fs_Sample
begin

unbundle bit_operations_syntax

text \<open>
  Directories as maps from names to inode numbers: what \<^verbatim>\<open>search_dir\<close> of \<^verbatim>\<open>src/src/fs/path.c\<close> finds, enters and
  deletes, on the contents of the device that callers of the block cache see.
\<close>

section \<open>The contents of a directory\<close>

definition dir_block :: "fs \<Rightarrow> nat \<Rightarrow> nat \<Rightarrow> nat" where
  "dir_block s rip k =
     (let sc = scale_of s rip
      in file_block sc (file_zone (super_blocks s (i_sp (inode s rip))) sc (view (fs_cache s) (i_dev (inode s rip))) (inode s rip) (k div 2 ^ sc)) k)"

definition dir_data :: "fs \<Rightarrow> nat \<Rightarrow> nat \<Rightarrow> data" where
  "dir_data s rip k = view (fs_cache s) (i_dev (inode s rip)) (dir_block s rip k)"

definition dir_size :: "fs \<Rightarrow> nat \<Rightarrow> nat" where "dir_size s rip = unat (i_size (inode s rip))"
definition dir_blocks :: "fs \<Rightarrow> nat \<Rightarrow> nat" where "dir_blocks s rip = (dir_size s rip + 1023) div 1024"
definition dir_slots :: "fs \<Rightarrow> nat \<Rightarrow> nat" where "dir_slots s rip = dir_size s rip div DIR_ENTRY_SIZE"

definition slot_ino :: "fs \<Rightarrow> nat \<Rightarrow> nat \<Rightarrow> 16 word" where
  "slot_ino s rip j = d_ino (dir_data s rip (j div 64)) (j mod 64)"

definition slot_name :: "fs \<Rightarrow> nat \<Rightarrow> nat \<Rightarrow> 8 word list" where
  "slot_name s rip j = d_name (dir_data s rip (j div 64)) (j mod 64)"

text \<open>The first entry in use with a name, and the directory as a map.\<close>

definition slot_of :: "fs \<Rightarrow> nat \<Rightarrow> 8 word list \<Rightarrow> nat option" where
  "slot_of s rip cs = List.find (\<lambda>j. slot_ino s rip j \<noteq> 0 \<and> slot_name s rip j = cs) [0 ..< dir_slots s rip]"

definition dir_map :: "fs \<Rightarrow> nat \<Rightarrow> 8 word list \<Rightarrow> 16 word option" where
  "dir_map s rip cs = map_option (\<lambda>j. conv2h (native_of rip s) (slot_ino s rip j)) (slot_of s rip cs)"

text \<open>A directory that can be read: its device is ready and no zone number on the way is illegal.\<close>

definition dir_ok :: "(nat \<Rightarrow> int) \<Rightarrow> fs \<Rightarrow> nat \<Rightarrow> bool" where
  "dir_ok io s rip \<longleftrightarrow>
     Fs_Bitmap.ready io (i_dev (inode s rip)) (fs_cache s) \<and> get_super (i_dev (inode s rip)) s = Some (Ret (i_sp (inode s rip))) \<and>
     (\<forall>k < dir_blocks s rip. \<not> corrupt (super_blocks s (i_sp (inode s rip))) (scale_of s rip) (view (fs_cache s) (i_dev (inode s rip))) (inode s rip)
        (k div 2 ^ scale_of s rip))"

section \<open>Searching a block\<close>

definition hit :: "dir_flag \<Rightarrow> 8 word list \<Rightarrow> 16 word \<Rightarrow> 8 word list \<Rightarrow> bool" where
  "hit flg cs ino nm \<longleftrightarrow>
     flg \<noteq> ENTER \<and> ino \<noteq> 0 \<and> (if flg = IS_EMPTY then nm \<noteq> chars Dot1 \<and> nm \<noteq> chars Dot2 else nm = cs) \<or> flg = ENTER \<and> ino = 0"

definition ends :: "dir_flag \<Rightarrow> nat \<Rightarrow> nat \<Rightarrow> slot_end" where
  "ends flg old j = (if flg = ENTER then Room (j mod 64) else if j < old then Match (j mod 64) else Searched)"

lemma scan_slots_find:
  assumes "i \<le> 64"
  shows "scan_slots flg cs old d [i ..< 64] (64 * k + i) =
    (case List.find (\<lambda>j. 64 * k + j \<ge> old \<or> hit flg cs (d_ino d j) (d_name d j)) [i ..< 64] of
       None \<Rightarrow> (Searched, 64 * k + 64) | Some j \<Rightarrow> (ends flg old (64 * k + j), 64 * k + j + 1))"
  using assms
proof (induction "64 - i" arbitrary: i)
  case (Suc n)
  then have i: "i < 64" "n = 64 - (i + 1)" "i + 1 \<le> 64" by simp_all
  have "[i ..< 64] = i # [i + 1 ..< 64]" using i by (simp add: upt_conv_Cons)
  then show ?case using Suc.hyps(1) [OF i(2,3)] i by (auto simp: hit_def ends_def)
qed simp

lemma moved_view: "moved c c' (view c) \<Longrightarrow> usable c d \<Longrightarrow> view c' d = view c d"
  by (simp add: moved_def fun_eq_iff)

lemma moved_refl: "Fs_Bitmap.ready io d c \<Longrightarrow> moved c c (view c)"
  by (simp add: moved_def Fs_Bitmap.ready_def)

text \<open>Reading block \<open>k\<close> of a directory; \<open>c\<close> is the cache after some searching.\<close>

lemma read_dir_block:
  assumes ok: "dir_ok io s rip" and m: "moved (fs_cache s) c (view (fs_cache s))" and k: "k < dir_blocks s rip"
  obtains c1 where "read_map io rip (word_of_nat (k * 1024)) (s\<lparr>fs_cache := c\<rparr>) = Some (Ret (dir_block s rip k, s\<lparr>fs_cache := c1\<rparr>))"
    "moved (fs_cache s) c1 (view (fs_cache s))"
proof -
  let ?dev = "i_dev (inode s rip)" and ?s = "s\<lparr>fs_cache := c\<rparr>" and ?p = "word_of_nat (k * 1024) :: 32 word"
  have rd: "Fs_Bitmap.ready io ?dev (fs_cache s)" and gs: "get_super ?dev s = Some (Ret (i_sp (inode s rip)))" using ok by (simp_all add: dir_ok_def)
  have v: "view c ?dev = view (fs_cache s) ?dev" by (rule moved_view [OF m]) (use rd in \<open>simp add: Fs_Bitmap.ready_def\<close>)
  have "unat (i_size (inode s rip)) < 2 ^ 32" using word_bound [of "i_size (inode s rip)"] by simp
  then have "k * 1024 < 2 ^ 32" using k by (simp add: dir_blocks_def dir_size_def)
  then have p: "unat ?p = k * 1024" by (simp add: unat_of_nat del: of_nat_mult)
  have sc: "scale_of ?s rip = scale_of s rip" by (simp add: scale_of_def)
  have nc: "\<not> corrupt (super_blocks s (i_sp (inode s rip))) (scale_of s rip) (view (fs_cache s) ?dev) (inode s rip) (k div 2 ^ scale_of s rip)"
    using ok k by (simp add: dir_ok_def)
  have rd': "Fs_Bitmap.ready io (i_dev (inode ?s rip)) (fs_cache ?s)" using moved_ready [OF m rd] by simp
  have gs': "get_super (i_dev (inode ?s rip)) ?s = Some (Ret (i_sp (inode ?s rip)))" using gs by simp
  obtain c1 where "read_map io rip ?p ?s = Some (Ret (dir_block s rip k, ?s\<lparr>fs_cache := c1\<rparr>))" "moved c c1 (view c)"
    using read_map_result [OF rd' gs', of ?p] nc by (auto simp: p sc v dir_block_def Let_def simp del: of_nat_mult)
  moreover have "moved (fs_cache s) c1 (view (fs_cache s))"
    using moved_trans [OF m calculation(2)] m by (auto intro: moved_cong simp: moved_def)
  ultimately show thesis using that by simp
qed

section \<open>Searching a directory\<close>

definition hit_at :: "fs \<Rightarrow> nat \<Rightarrow> dir_flag \<Rightarrow> 8 word list \<Rightarrow> nat \<Rightarrow> bool" where
  "hit_at s rip flg cs j \<longleftrightarrow> hit flg cs (slot_ino s rip j) (slot_name s rip j)"

text \<open>Where the search stops: at the first entry that is wanted, with \<^verbatim>\<open>ENTER\<close> also at the first one behind the end.\<close>

definition stop_slot :: "fs \<Rightarrow> nat \<Rightarrow> dir_flag \<Rightarrow> 8 word list \<Rightarrow> nat \<Rightarrow> nat option" where
  "stop_slot s rip flg cs k =
     List.find (\<lambda>j. j < dir_slots s rip \<and> hit_at s rip flg cs j \<or> flg = ENTER \<and> dir_slots s rip \<le> j) [64 * k ..< 64 * dir_blocks s rip]"

lemma find_upt_None: "List.find P [a ..< b] = None \<longleftrightarrow> (\<forall>j. a \<le> j \<and> j < b \<longrightarrow> \<not> P j)"
  by (auto simp: find_None_iff)

lemma find_upt_Some: "List.find P [a ..< b] = Some j \<longleftrightarrow> a \<le> j \<and> j < b \<and> P j \<and> (\<forall>i. a \<le> i \<and> i < j \<longrightarrow> \<not> P i)"
proof (induction "b - a" arbitrary: a)
  case (Suc n)
  then have "[a ..< b] = a # [a + 1 ..< b]" by (simp add: upt_conv_Cons)
  then show ?case using Suc.hyps(1) [of "a + 1"] Suc.hyps(2) by (auto simp: Suc_le_eq) (metis Suc_leI le_antisym le_less_linear less_le_not_le)+
qed simp

lemma dir_slots_blocks: "dir_slots s rip \<le> 64 * dir_blocks s rip" "64 * (dir_blocks s rip - 1) \<le> dir_slots s rip"
  unfolding dir_slots_def dir_blocks_def DIR_ENTRY_SIZE_def by linarith+

text \<open>The result of the pass over the blocks from \<open>k\<close> on; \<open>c\<close> is the cache before it.\<close>

definition pass_ends :: "(nat \<Rightarrow> int) \<Rightarrow> fs \<Rightarrow> nat \<Rightarrow> dir_flag \<Rightarrow> nat option \<Rightarrow> ((nat \<times> slot_end) option \<times> nat \<times> fs) outcome option \<Rightarrow> bool" where
  "pass_ends io s rip flg jo r \<longleftrightarrow>
     (case jo of
        None \<Rightarrow> \<exists>n c. r = Some (Ret (None, n, s\<lparr>fs_cache := c\<rparr>)) \<and> moved (fs_cache s) c (view (fs_cache s)) \<and> (flg = ENTER \<longrightarrow> n = 64 * dir_blocks s rip)
      | Some j \<Rightarrow> \<exists>bp c1 c. r = Some (Ret (Some (bp, ends flg (dir_slots s rip) j), j + 1, s\<lparr>fs_cache := c\<rparr>)) \<and>
          moved (fs_cache s) c1 (view (fs_cache s)) \<and> get_block io (i_dev (inode s rip)) (dir_block s rip (j div 64)) NORMAL c1 = Some (Ret (bp, c)))"

lemma scan_blocks_find:
  assumes ok: "dir_ok io s rip" and m: "moved (fs_cache s) c (view (fs_cache s))" and k: "k \<le> dir_blocks s rip"
  shows "pass_ends io s rip flg (stop_slot s rip flg cs k) (scan_blocks io rip flg cs (dir_slots s rip) [k ..< dir_blocks s rip] (64 * k) (s\<lparr>fs_cache := c\<rparr>))"
  using m k
proof (induction "dir_blocks s rip - k" arbitrary: k c)
  case 0
  then have "k = dir_blocks s rip" by simp
  then show ?case using 0 by (auto simp: pass_ends_def stop_slot_def)
next
  case (Suc n)
  let ?old = "dir_slots s rip" and ?dev = "i_dev (inode s rip)"
  have k: "k < dir_blocks s rip" using Suc.hyps(2) by simp
  obtain c1 where rm: "read_map io rip (word_of_nat (k * 1024)) (s\<lparr>fs_cache := c\<rparr>) = Some (Ret (dir_block s rip k, s\<lparr>fs_cache := c1\<rparr>))"
    and m1: "moved (fs_cache s) c1 (view (fs_cache s))" by (rule read_dir_block [OF ok Suc.prems(1) k])
  have rd: "Fs_Bitmap.ready io ?dev (fs_cache s)" using ok by (simp add: dir_ok_def)
  have v1: "view c1 ?dev = view (fs_cache s) ?dev" by (rule moved_view [OF m1]) (use rd in \<open>simp add: Fs_Bitmap.ready_def\<close>)
  obtain bp c2 where g: "get_block io ?dev (dir_block s rip k) NORMAL c1 = Some (Ret (bp, c2))" "b_data (buf c2 bp) = view c1 ?dev (dir_block s rip k)"
    "\<And>t. moved c1 (put_block io (Some bp) t c2) (view c1)" by (rule transaction [OF moved_ready [OF m1 rd]]) blast
  have d: "b_data (buf c2 bp) = dir_data s rip k" using g(2) v1 by (simp add: dir_data_def)
  let ?F = "List.find (\<lambda>j. 64 * k + j \<ge> ?old \<or> hit flg cs (d_ino (dir_data s rip k) j) (d_name (dir_data s rip k) j)) [0 ..< 64]"
  have sl: "slot_ino s rip (64 * k + j) = d_ino (dir_data s rip k) j" "slot_name s rip (64 * k + j) = d_name (dir_data s rip k) j" if "j < 64" for j
    using that by (simp_all add: slot_ino_def slot_name_def)
  have scan: "scan_slots flg cs ?old (b_data (buf c2 bp)) [0 ..< NR_DIR_ENTRIES] (64 * k) =
      (case ?F of None \<Rightarrow> (Searched, 64 * k + 64) | Some j \<Rightarrow> (ends flg ?old (64 * k + j), 64 * k + j + 1))"
    using scan_slots_find [of 0 flg cs ?old "dir_data s rip k" k] by (simp add: d NR_DIR_ENTRIES_def)
  have up: "[k ..< dir_blocks s rip] = k # [k + 1 ..< dir_blocks s rip]" using k by (simp add: upt_conv_Cons)
  have next_m: "moved (fs_cache s) (put_block io (Some bp) DIRECTORY_BLOCK c2) (view (fs_cache s))"
    using moved_trans [OF m1 g(3) [of DIRECTORY_BLOCK]] m1 by (auto intro: moved_cong simp: moved_def)
  have range: "[64 * k ..< 64 * dir_blocks s rip] = [64 * k ..< 64 * k + 64] @ [64 * (k + 1) ..< 64 * dir_blocks s rip]"
    using upt_add_eq_append [of "64 * k" "64 * k + 64" "64 * dir_blocks s rip - 64 * (k + 1)"] k by (simp add: algebra_simps)
  show ?case
  proof (cases ?F)
    case None
    then have no: "64 * k + j < ?old \<and> \<not> hit_at s rip flg cs (64 * k + j)" if "j < 64" for j
      using that by (auto simp: find_upt_None hit_at_def sl not_le)
    have "List.find (\<lambda>j. j < ?old \<and> hit_at s rip flg cs j \<or> flg = ENTER \<and> ?old \<le> j) [64 * k ..< 64 * k + 64] = None"
      unfolding find_upt_None
    proof (intro allI impI)
      fix i assume i: "64 * k \<le> i \<and> i < 64 * k + 64"
      then obtain j where "i = 64 * k + j" "j < 64" by (metis add_less_cancel_left le_Suc_ex)
      then show "\<not> (i < ?old \<and> hit_at s rip flg cs i \<or> flg = ENTER \<and> ?old \<le> i)" using no [of j] by auto
    qed
    then have same: "stop_slot s rip flg cs k = stop_slot s rip flg cs (k + 1)" by (simp add: stop_slot_def range find_append)
    show ?thesis unfolding same using Suc.hyps(1) [of "k + 1", OF _ next_m] Suc.hyps(2) k
      by (simp add: up rm g(1) scan None del: of_nat_mult) (simp add: add.commute)
  next
    case (Some j)
    then have j: "j < 64" "64 * k + j \<ge> ?old \<or> hit_at s rip flg cs (64 * k + j)"
      and before: "\<And>i. i < j \<Longrightarrow> 64 * k + i < ?old \<and> \<not> hit_at s rip flg cs (64 * k + i)"
      by (auto simp: find_upt_Some hit_at_def sl not_le)
    have before': "\<not> (i < ?old \<and> hit_at s rip flg cs i \<or> flg = ENTER \<and> ?old \<le> i)" if "64 * k \<le> i" "i < 64 * k + j" for i
    proof -
      have "i - 64 * k < j" "64 * k + (i - 64 * k) = i" using that by linarith+
      then show ?thesis using before [of "i - 64 * k"] by auto
    qed
    show ?thesis
    proof (cases "flg = ENTER \<or> 64 * k + j < ?old")
      case True
      have "stop_slot s rip flg cs k = Some (64 * k + j)"
        unfolding stop_slot_def find_upt_Some using j before' True k by auto
      moreover have "ends flg ?old (64 * k + j) \<noteq> Searched" using True by (auto simp: ends_def)
      ultimately show ?thesis using m1 g(1) j(1)
        by (cases "ends flg ?old (64 * k + j)"; simp add: pass_ends_def up rm scan Some del: of_nat_mult; intro exI [of _ c1] exI [of _ c2]; simp)
    next
      case False
      then have last: "dir_blocks s rip = k + 1" using dir_slots_blocks(2) [of s rip] j(1) k by linarith
      have "stop_slot s rip flg cs k = None"
        unfolding stop_slot_def find_upt_None
      proof (intro allI impI notI)
        fix i assume i: "64 * k \<le> i \<and> i < 64 * dir_blocks s rip" and h: "i < ?old \<and> hit_at s rip flg cs i \<or> flg = ENTER \<and> ?old \<le> i"
        then have "i < 64 * k + j" using False by linarith
        then show False using before' i h by blast
      qed
      moreover have "ends flg ?old (64 * k + j) = Searched" using False by (simp add: ends_def)
      ultimately show ?thesis using False next_m by (auto simp: pass_ends_def up rm g(1) scan Some last simp del: of_nat_mult)
    qed
  qed
qed

section \<open>Looking a name up\<close>

lemma stop_slot_of: "stop_slot s rip LOOK_UP cs 0 = slot_of s rip cs" "stop_slot s rip DELETE cs 0 = slot_of s rip cs"
proof -
  have "stop_slot s rip flg cs 0 = slot_of s rip cs" if f: "flg = LOOK_UP \<or> flg = DELETE" for flg
  proof -
    have up: "[0 ..< 64 * dir_blocks s rip] = [0 ..< dir_slots s rip] @ [dir_slots s rip ..< 64 * dir_blocks s rip]"
      using dir_slots_blocks(1) [of s rip] upt_add_eq_append [of 0 "dir_slots s rip" "64 * dir_blocks s rip - dir_slots s rip"] by simp
    have "List.find (\<lambda>j. j < dir_slots s rip \<and> hit_at s rip flg cs j) [dir_slots s rip ..< 64 * dir_blocks s rip] = None"
      by (simp add: find_upt_None)
    moreover have "List.find (\<lambda>j. j < dir_slots s rip \<and> hit_at s rip flg cs j) [0 ..< dir_slots s rip] = slot_of s rip cs"
      unfolding slot_of_def by (rule find_cong) (use f in \<open>auto simp: hit_at_def hit_def\<close>)
    ultimately show ?thesis using f by (auto simp: stop_slot_def up find_append split: option.split)
  qed
  then show "stop_slot s rip LOOK_UP cs 0 = slot_of s rip cs" "stop_slot s rip DELETE cs 0 = slot_of s rip cs" by simp_all
qed

lemma slot_ofD: "slot_of s rip cs = Some j \<Longrightarrow> j < dir_slots s rip \<and> slot_ino s rip j \<noteq> 0 \<and> slot_name s rip j = cs"
  by (auto simp: slot_of_def find_upt_Some)

text \<open>The pass from the beginning.\<close>

lemma dir_scan:
  assumes "dir_ok io s rip"
  shows "pass_ends io s rip flg (stop_slot s rip flg cs 0) (scan_blocks io rip flg cs (dir_slots s rip) [0 ..< dir_blocks s rip] 0 s)"
proof -
  have "moved (fs_cache s) (fs_cache s) (view (fs_cache s))" using assms by (auto simp: dir_ok_def intro: moved_refl)
  from scan_blocks_find [OF assms this, of 0 flg cs] show ?thesis by simp
qed

lemma dir_pass_scan:
  "dir_pass io now rip cs numb flg s =
     and_then (scan_blocks io rip flg cs (dir_slots s rip) [0 ..< dir_blocks s rip] 0 s)
        (\<lambda>(r, new, s1).
           case r of
             Some (bp, Match i) \<Rightarrow> Some (Ret (dir_found io rip flg numb bp i s1))
           | Some (bp, Room i) \<Rightarrow> dir_enter io now rip cs numb bp i new (dir_slots s rip) False s1
           | _ \<Rightarrow>
               if flg \<noteq> ENTER then Some (Ret (if flg = IS_EMPTY then OK else ENOENT, numb, s1))
               else if (word_of_nat (new + 1) :: 32 word) = 0 then Some (Ret (EFBIG, numb, s1))
               else and_then (new_block io rip (i_size (inode s1 rip)) s1)
                      (\<lambda>(bpo, s2).
                         case bpo of
                           None \<Rightarrow> Some (Ret (err_code s2, numb, s2))
                         | Some bp \<Rightarrow> dir_enter io now rip cs numb bp 0 (new + 1) (dir_slots s rip) True s2))"
  unfolding dir_pass_def Let_def dir_slots_def dir_blocks_def dir_size_def by (rule refl)

lemma look_up_result:
  assumes ok: "dir_ok io s rip"
  shows "\<exists>c. dir_pass io now rip cs numb LOOK_UP s =
      Some (Ret (case dir_map s rip cs of None \<Rightarrow> (ENOENT, numb, s\<lparr>fs_cache := c\<rparr>) | Some ino \<Rightarrow> (OK, ino, s\<lparr>fs_cache := c\<rparr>))) \<and>
    moved (fs_cache s) c (view (fs_cache s))"
proof (cases "slot_of s rip cs")
  case None
  then show ?thesis using dir_scan [OF ok, of LOOK_UP cs] by (auto simp: dir_pass_scan pass_ends_def stop_slot_of dir_map_def)
next
  case (Some j)
  let ?dev = "i_dev (inode s rip)"
  have j: "j < dir_slots s rip" using slot_ofD [OF Some] by simp
  obtain bp c1 c where sc: "scan_blocks io rip LOOK_UP cs (dir_slots s rip) [0 ..< dir_blocks s rip] 0 s =
      Some (Ret (Some (bp, Match (j mod 64)), j + 1, s\<lparr>fs_cache := c\<rparr>))"
    and m: "moved (fs_cache s) c1 (view (fs_cache s))" and g: "get_block io ?dev (dir_block s rip (j div 64)) NORMAL c1 = Some (Ret (bp, c))"
    using dir_scan [OF ok, of LOOK_UP cs] j by (auto simp: pass_ends_def stop_slot_of Some ends_def)
  have rd: "Fs_Bitmap.ready io ?dev (fs_cache s)" using ok by (simp add: dir_ok_def)
  have v: "view c1 ?dev = view (fs_cache s) ?dev" by (rule moved_view [OF m]) (use rd in \<open>simp add: Fs_Bitmap.ready_def\<close>)
  obtain i c' where t: "get_block io ?dev (dir_block s rip (j div 64)) NORMAL c1 = Some (Ret (i, c'))" "b_data (buf c' i) = view c1 ?dev (dir_block s rip (j div 64))"
    "\<And>t. moved c1 (put_block io (Some i) t c') (view c1)" by (rule transaction [OF moved_ready [OF m rd]]) blast
  have d: "b_data (buf c bp) = dir_data s rip (j div 64)" "moved c1 (put_block io (Some bp) DIRECTORY_BLOCK c) (view c1)"
    using t g by (simp_all add: dir_data_def v)
  have "moved (fs_cache s) (put_block io (Some bp) DIRECTORY_BLOCK c) (view (fs_cache s))"
    using moved_trans [OF m d(2)] m by (auto intro: moved_cong simp: moved_def)
  then show ?thesis using Some sc d(1)
    by (auto simp: dir_pass_scan dir_found_def dir_map_def slot_ino_def native_of_def)
qed

section \<open>Changing one block\<close>

text \<open>The indirect blocks through which zone \<open>n\<close> of a file is found.\<close>

definition through :: "super_block \<Rightarrow> nat \<Rightarrow> (nat \<Rightarrow> data) \<Rightarrow> inode \<Rightarrow> nat \<Rightarrow> nat \<Rightarrow> bool" where
  "through sp sc D r n b \<longleftrightarrow>
     i_ndzones r \<le> n \<and>
     (let l = fst (slot r n); z = link sp sc D r l; z2 = i_zone r (i_ndzones r + 1)
      in z \<noteq> NO_ZONE \<and> b = block_of_zone z sc \<or> 2 \<le> l \<and> z2 \<noteq> NO_ZONE \<and> b = block_of_zone z2 sc)"

lemma file_zone_other:
  assumes "\<And>b. through sp sc D r n b \<Longrightarrow> D' b = D b"
  shows "file_zone sp sc D' r n = file_zone sp sc D r n" "i_ndzones r \<le> n \<Longrightarrow> link sp sc D' r (fst (slot r n)) = link sp sc D r (fst (slot r n))"
proof -
  show l: "link sp sc D' r (fst (slot r n)) = link sp sc D r (fst (slot r n))" if "i_ndzones r \<le> n"
    using assms that by (auto simp: through_def link_def thr_def Let_def not_less)
  show "file_zone sp sc D' r n = file_zone sp sc D r n"
  proof (cases "n < i_ndzones r")
    case False
    then have "i_ndzones r \<le> n" by simp
    then show ?thesis using l assms by (auto simp: file_zone_def thr_def through_def Let_def)
  qed (simp add: file_zone_def)
qed

text \<open>The blocks of a directory are different from each other and from its indirect blocks.\<close>

definition solid :: "fs \<Rightarrow> nat \<Rightarrow> bool" where
  "solid s rip \<longleftrightarrow>
     inj_on (dir_block s rip) {..< dir_blocks s rip} \<and>
     (\<forall>k < dir_blocks s rip. \<forall>m < dir_blocks s rip.
        \<not> through (super_blocks s (i_sp (inode s rip))) (scale_of s rip) (view (fs_cache s) (i_dev (inode s rip))) (inode s rip) (k div 2 ^ scale_of s rip) (dir_block s rip m))"

text \<open>No name is entered twice.\<close>

definition unique :: "fs \<Rightarrow> nat \<Rightarrow> bool" where
  "unique s rip \<longleftrightarrow>
     (\<forall>i < dir_slots s rip. \<forall>j < dir_slots s rip. slot_ino s rip i \<noteq> 0 \<longrightarrow> slot_ino s rip j \<noteq> 0 \<longrightarrow> slot_name s rip i = slot_name s rip j \<longrightarrow> i = j)"

definition dir_inv :: "(nat \<Rightarrow> int) \<Rightarrow> fs \<Rightarrow> nat \<Rightarrow> bool" where
  "dir_inv io s rip \<longleftrightarrow> dir_ok io s rip \<and> solid s rip \<and> unique s rip \<and> 1024 * dir_blocks s rip < 2 ^ 32"

text \<open>\<open>t\<close> is \<open>s\<close> with the data of block \<open>m\<close> of the directory replaced by \<open>v\<close>; flags and size of the inode may differ.\<close>

definition changed :: "fs \<Rightarrow> nat \<Rightarrow> nat \<Rightarrow> data \<Rightarrow> fs \<Rightarrow> bool" where
  "changed s rip m v t \<longleftrightarrow>
     moved (fs_cache s) (fs_cache t) (set_view (i_dev (inode s rip)) (dir_block s rip m) v (view (fs_cache s))) \<and>
     super_blocks t = super_blocks s \<and> dir_blocks t rip = dir_blocks s rip \<and>
     i_dev (inode t rip) = i_dev (inode s rip) \<and> i_sp (inode t rip) = i_sp (inode s rip) \<and> i_zone (inode t rip) = i_zone (inode s rip) \<and>
     i_ndzones (inode t rip) = i_ndzones (inode s rip) \<and> i_nindirs (inode t rip) = i_nindirs (inode s rip)"

lemma changed_dir:
  assumes c: "changed s rip m v t" and ok: "dir_ok io s rip" and sd: "solid s rip" and m: "m < dir_blocks s rip"
  shows "dir_ok io t rip" "solid t rip" "\<And>k. k < dir_blocks s rip \<Longrightarrow> dir_data t rip k = (if k = m then v else dir_data s rip k)"
    "native_of rip t = native_of rip s"
proof -
  let ?dev = "i_dev (inode s rip)" and ?sc = "scale_of s rip" and ?sp = "super_blocks s (i_sp (inode s rip))"
  let ?D = "view (fs_cache s) ?dev" and ?D' = "view (fs_cache t) ?dev" and ?r = "inode s rip" and ?r' = "inode t rip"
  have rd: "Fs_Bitmap.ready io ?dev (fs_cache s)" and gs: "get_super ?dev s = Some (Ret (i_sp ?r))" using ok by (simp_all add: dir_ok_def)
  have mv: "moved (fs_cache s) (fs_cache t) (set_view ?dev (dir_block s rip m) v (view (fs_cache s)))" and
    same: "super_blocks t = super_blocks s" "dir_blocks t rip = dir_blocks s rip" "i_dev ?r' = ?dev" "i_sp ?r' = i_sp ?r" "i_zone ?r' = i_zone ?r"
      "i_ndzones ?r' = i_ndzones ?r" "i_nindirs ?r' = i_nindirs ?r" using c by (simp_all add: changed_def)
  have D': "?D' = ?D(dir_block s rip m := v)" using mv rd by (auto simp: moved_def set_view_def fun_eq_iff Fs_Bitmap.ready_def)
  have sc: "scale_of t rip = ?sc" by (simp add: scale_of_def same)
  have slot: "slot ?r' n = slot ?r n" for n by (simp add: slot_def same Let_def)
  have link: "link sp sc D ?r' l = link sp sc D ?r l" for sp sc D l by (simp add: link_def same)
  have fz: "file_zone sp sc D ?r' n = file_zone sp sc D ?r n" for sp sc D n by (simp add: file_zone_def same slot link)
  have th: "through sp sc D ?r' n b = through sp sc D ?r n b" for sp sc D n b by (simp add: through_def same slot link)
  have keep: "?D' b = ?D b" if "k < dir_blocks s rip" "through ?sp ?sc ?D ?r (k div 2 ^ ?sc) b" for k b
    using that sd m unfolding solid_def D' by auto
  have zone: "file_zone ?sp ?sc ?D' ?r (k div 2 ^ ?sc) = file_zone ?sp ?sc ?D ?r (k div 2 ^ ?sc)"
    and lnk: "i_ndzones ?r \<le> k div 2 ^ ?sc \<Longrightarrow> link ?sp ?sc ?D' ?r (fst (slot ?r (k div 2 ^ ?sc))) = link ?sp ?sc ?D ?r (fst (slot ?r (k div 2 ^ ?sc)))"
    if "k < dir_blocks s rip" for k
    by (rule file_zone_other(1), rule keep [OF that], assumption) (rule file_zone_other(2), rule keep [OF that])
  have blk: "dir_block t rip k = dir_block s rip k" if "k < dir_blocks s rip" for k
    using zone [OF that] by (simp add: dir_block_def same sc fz)
  show "dir_data t rip k = (if k = m then v else dir_data s rip k)" if "k < dir_blocks s rip" for k
  proof -
    have "dir_block s rip k = dir_block s rip m \<longleftrightarrow> k = m" using sd m that by (auto simp: solid_def inj_on_def)
    then show ?thesis by (simp add: dir_data_def blk [OF that] same D')
  qed
  have co: "corrupt ?sp ?sc ?D' ?r (k div 2 ^ ?sc) = corrupt ?sp ?sc ?D ?r (k div 2 ^ ?sc)" if "k < dir_blocks s rip" for k
    using zone [OF that] lnk [OF that] by (auto simp: corrupt_def)
  have cr: "corrupt sp sc D ?r' n = corrupt sp sc D ?r n" for sp sc D n by (simp add: corrupt_def same slot link fz)
  have "get_super ?dev t = get_super ?dev s" by (rule get_super_cong) (simp add: same)
  then show "dir_ok io t rip" using ok co moved_ready [OF mv rd] gs by (simp add: dir_ok_def same sc cr)
  have tt: "through ?sp ?sc ?D' ?r (k div 2 ^ ?sc) b = through ?sp ?sc ?D ?r (k div 2 ^ ?sc) b" if "k < dir_blocks s rip" for k b
    using lnk [OF that] by (auto simp: through_def Let_def)
  have "inj_on (dir_block t rip) {..< dir_blocks s rip} = inj_on (dir_block s rip) {..< dir_blocks s rip}" by (rule inj_on_cong) (simp add: blk)
  then show "solid t rip" using sd by (simp add: solid_def same sc th tt blk)
  show "native_of rip t = native_of rip s" by (simp add: native_of_def same)
qed

section \<open>Changing one entry\<close>

lemma takeWhile_pad: "0 \<notin> set cs \<Longrightarrow> length cs \<le> n \<Longrightarrow> takeWhile (\<lambda>c. c \<noteq> 0) (map (\<lambda>j. if j < length cs then cs ! j else 0) [0 ..< n]) = (cs :: 8 word list)"
proof -
  assume cs: "0 \<notin> set cs" "length cs \<le> n"
  have "map (\<lambda>j. if j < length cs then cs ! j else 0) [0 ..< n] = cs @ replicate (n - length cs) 0"
    by (rule nth_equalityI) (use cs in \<open>auto simp: nth_append\<close>)
  moreover have "takeWhile (\<lambda>c. c \<noteq> 0) (cs @ replicate (n - length cs) 0) = cs" using cs
    by (subst takeWhile_append2) (auto simp: takeWhile_eq_Nil_iff hd_replicate)
  ultimately show ?thesis by simp
qed

lemma d_name_cong: "(\<And>p. 16 * i + 2 \<le> p \<Longrightarrow> p < 16 * i + 16 \<Longrightarrow> d p = e p) \<Longrightarrow> d_name d i = d_name e i"
  by (auto simp: d_name_def DIR_ENTRY_SIZE_def NAME_MAX_def intro!: arg_cong [where f = "takeWhile _"])

lemma d_ino_cong: "d (16 * i) = e (16 * i) \<Longrightarrow> d (16 * i + 1) = e (16 * i + 1) \<Longrightarrow> d_ino d i = d_ino e i"
  by (simp add: d_ino_def DIR_ENTRY_SIZE_def get2_def)

lemma put_slot_entry:
  assumes "0 \<notin> set cs" "length cs \<le> 14"
  shows "d_ino (put_slot i ino cs d) j = (if j = i then ino else d_ino d j)" "d_name (put_slot i ino cs d) j = (if j = i then cs else d_name d j)"
proof -
  show "d_ino (put_slot i ino cs d) j = (if j = i then ino else d_ino d j)"
  proof (cases "j = i")
    case True
    then show ?thesis by (simp add: d_ino_def put_slot_def)
  next
    case False
    then show ?thesis by (auto simp: put_slot_def set2_def DIR_ENTRY_SIZE_def NAME_MAX_def intro!: d_ino_cong)
  qed
  show "d_name (put_slot i ino cs d) j = (if j = i then cs else d_name d j)"
  proof (cases "j = i")
    case True
    have "map (\<lambda>k. put_slot i ino cs d (DIR_ENTRY_SIZE * i + 2 + k)) [0 ..< NAME_MAX] = map (\<lambda>k. if k < length cs then cs ! k else 0) [0 ..< NAME_MAX]"
      by (auto simp: put_slot_def set2_def DIR_ENTRY_SIZE_def NAME_MAX_def)
    moreover have "length cs \<le> NAME_MAX" using assms(2) by (simp add: NAME_MAX_def)
    ultimately show ?thesis using True takeWhile_pad [OF assms(1)] by (simp only: d_name_def if_True refl)
  next
    case False
    then have "16 * i + 16 \<le> 16 * j \<or> 16 * j + 16 \<le> 16 * i" by linarith
    then show ?thesis using False by (auto simp: put_slot_def set2_def DIR_ENTRY_SIZE_def NAME_MAX_def intro!: d_name_cong)
  qed
qed

lemma clear_slot_entry:
  "d_ino (clear_slot i d) j = (if j = i then 0 else d_ino d j)" "j \<noteq> i \<Longrightarrow> d_name (clear_slot i d) j = d_name d j"
proof -
  show "d_ino (clear_slot i d) j = (if j = i then 0 else d_ino d j)"
  proof (cases "j = i")
    case True
    then show ?thesis by (simp add: d_ino_def clear_slot_def)
  next
    case False
    then have "16 * i + 16 \<le> 16 * j \<or> 16 * j + 16 \<le> 16 * i" by linarith
    then show ?thesis using False by (auto simp: clear_slot_def set2_def DIR_ENTRY_SIZE_def NAME_MAX_def intro!: d_ino_cong)
  qed
  assume "j \<noteq> i"
  then have "16 * i + 16 \<le> 16 * j \<or> 16 * j + 16 \<le> 16 * i" by linarith
  then show "d_name (clear_slot i d) j = d_name d j" by (auto simp: clear_slot_def set2_def DIR_ENTRY_SIZE_def NAME_MAX_def intro!: d_name_cong)
qed

text \<open>With unique names the map of a directory is the set of its entries.\<close>

lemma dir_map_Some:
  assumes "unique s rip"
  shows "dir_map s rip cs = Some x \<longleftrightarrow> (\<exists>j < dir_slots s rip. slot_ino s rip j \<noteq> 0 \<and> slot_name s rip j = cs \<and> x = conv2h (native_of rip s) (slot_ino s rip j))"
proof
  assume "dir_map s rip cs = Some x"
  then show "\<exists>j < dir_slots s rip. slot_ino s rip j \<noteq> 0 \<and> slot_name s rip j = cs \<and> x = conv2h (native_of rip s) (slot_ino s rip j)"
    by (auto simp: dir_map_def dest: slot_ofD)
next
  assume "\<exists>j < dir_slots s rip. slot_ino s rip j \<noteq> 0 \<and> slot_name s rip j = cs \<and> x = conv2h (native_of rip s) (slot_ino s rip j)"
  then obtain j where j: "j < dir_slots s rip" "slot_ino s rip j \<noteq> 0" "slot_name s rip j = cs" "x = conv2h (native_of rip s) (slot_ino s rip j)" by blast
  then have "slot_of s rip cs \<noteq> None" by (auto simp: slot_of_def find_upt_None)
  then obtain i where i: "slot_of s rip cs = Some i" by blast
  then have "i = j" using slot_ofD [OF i] j assms by (auto simp: unique_def)
  then show "dir_map s rip cs = Some x" using i j by (simp add: dir_map_def)
qed

lemma dir_map_None: "dir_map s rip cs = None \<longleftrightarrow> (\<forall>j < dir_slots s rip. slot_ino s rip j \<noteq> 0 \<longrightarrow> slot_name s rip j \<noteq> cs)"
  by (auto simp: dir_map_def slot_of_def find_upt_None)

lemma delete_map:
  assumes u: "unique s rip" and i: "slot_of s rip cs = Some i" and n: "dir_slots t rip = dir_slots s rip" "native_of rip t = native_of rip s"
    and e: "\<And>j. j < dir_slots s rip \<Longrightarrow> slot_ino t rip j = (if j = i then 0 else slot_ino s rip j)"
      "\<And>j. j < dir_slots s rip \<Longrightarrow> j \<noteq> i \<Longrightarrow> slot_name t rip j = slot_name s rip j"
  shows "unique t rip" "dir_map t rip = (dir_map s rip)(cs := None)"
proof -
  show u': "unique t rip" using u e n by (simp add: unique_def)
  have key: "(dir_map t rip cs' = Some x) = (((dir_map s rip)(cs := None)) cs' = Some x)" for cs' x
  proof (cases "cs' = cs")
    case True
    have "\<not> (\<exists>j < dir_slots s rip. slot_ino t rip j \<noteq> 0 \<and> slot_name t rip j = cs)"
      using slot_ofD [OF i] u e unfolding unique_def by metis
    then show ?thesis using True dir_map_Some [OF u', of cs x] n by auto
  next
    case False
    have "(\<exists>j < dir_slots s rip. slot_ino t rip j \<noteq> 0 \<and> slot_name t rip j = cs' \<and> x = conv2h (native_of rip s) (slot_ino t rip j)) \<longleftrightarrow>
        (\<exists>j < dir_slots s rip. slot_ino s rip j \<noteq> 0 \<and> slot_name s rip j = cs' \<and> x = conv2h (native_of rip s) (slot_ino s rip j))"
      using slot_ofD [OF i] e False by metis
    then show ?thesis using False n by (simp add: dir_map_Some [OF u'] dir_map_Some [OF u])
  qed
  show "dir_map t rip = (dir_map s rip)(cs := None)"
  proof
    fix cs' show "dir_map t rip cs' = ((dir_map s rip)(cs := None)) cs'"
      using key [of cs'] by (metis option.exhaust)
  qed
qed

lemma enter_map:
  assumes u: "unique s rip" and c: "dir_map s rip cs = None" and i: "i \<le> dir_slots s rip" "i < dir_slots s rip \<Longrightarrow> slot_ino s rip i = 0" "ino \<noteq> 0"
    and n: "dir_slots t rip = max (dir_slots s rip) (i + 1)" "native_of rip t = native_of rip s"
    and e: "slot_ino t rip i = ino" "slot_name t rip i = cs"
      "\<And>j. j < dir_slots s rip \<Longrightarrow> j \<noteq> i \<Longrightarrow> slot_ino t rip j = slot_ino s rip j \<and> slot_name t rip j = slot_name s rip j"
  shows "unique t rip" "dir_map t rip = (dir_map s rip)(cs \<mapsto> conv2h (native_of rip s) ino)"
proof -
  have nj: "j < dir_slots t rip \<longleftrightarrow> j < dir_slots s rip \<or> j = i" for j using n i(1) by auto
  show u': "unique t rip"
    unfolding unique_def
  proof (intro allI impI)
    fix j k assume a: "j < dir_slots t rip" "k < dir_slots t rip" "slot_ino t rip j \<noteq> 0" "slot_ino t rip k \<noteq> 0" "slot_name t rip j = slot_name t rip k"
    have free: "slot_name s rip j \<noteq> cs" if "j < dir_slots s rip" "slot_ino s rip j \<noteq> 0" for j using c that by (auto simp: dir_map_None)
    show "j = k" using a u e free unfolding nj unique_def by metis
  qed
  have key: "(dir_map t rip cs' = Some x) = (((dir_map s rip)(cs \<mapsto> conv2h (native_of rip s) ino)) cs' = Some x)" for cs' x
  proof (cases "cs' = cs")
    case True
    have "(\<exists>j < dir_slots t rip. slot_ino t rip j \<noteq> 0 \<and> slot_name t rip j = cs \<and> x = conv2h (native_of rip s) (slot_ino t rip j)) \<longleftrightarrow> x = conv2h (native_of rip s) ino"
      using c e i(3) unfolding nj dir_map_None by metis
    then show ?thesis using True dir_map_Some [OF u', of cs x] n(2) by auto
  next
    case False
    have "(\<exists>j < dir_slots t rip. slot_ino t rip j \<noteq> 0 \<and> slot_name t rip j = cs' \<and> x = conv2h (native_of rip s) (slot_ino t rip j)) \<longleftrightarrow>
        (\<exists>j < dir_slots s rip. slot_ino s rip j \<noteq> 0 \<and> slot_name s rip j = cs' \<and> x = conv2h (native_of rip s) (slot_ino s rip j))"
      using e i(2) False unfolding nj by metis
    then show ?thesis using False n(2) by (simp add: dir_map_Some [OF u'] dir_map_Some [OF u])
  qed
  show "dir_map t rip = (dir_map s rip)(cs \<mapsto> conv2h (native_of rip s) ino)"
  proof
    fix cs' show "dir_map t rip cs' = ((dir_map s rip)(cs \<mapsto> conv2h (native_of rip s) ino)) cs'"
      using key [of cs'] by (metis option.exhaust)
  qed
qed

section \<open>Deleting and entering names\<close>

lemma slot_in_block: "j < dir_slots s rip \<Longrightarrow> j div 64 < dir_blocks s rip"
  using dir_slots_blocks(1) [of s rip] by (simp add: less_mult_imp_div_less mult.commute)

lemma slot_split: "j = i \<longleftrightarrow> j div 64 = i div 64 \<and> j mod 64 = i mod (64 :: nat)"
  by (metis div_mult_mod_eq)

text \<open>Writing block \<open>m\<close> back after the search, with new data.\<close>

lemma write_dir_block:
  assumes ok: "dir_ok io s rip" and m: "moved (fs_cache s) c1 (view (fs_cache s))"
    and g: "get_block io (i_dev (inode s rip)) (dir_block s rip m) NORMAL c1 = Some (Ret (bp, c))"
  shows "b_data (buf c bp) = dir_data s rip m"
    "moved (fs_cache s) (put_block io (Some bp) t (set_block bp v c)) (set_view (i_dev (inode s rip)) (dir_block s rip m) v (view (fs_cache s)))"
proof -
  let ?dev = "i_dev (inode s rip)"
  have rd: "Fs_Bitmap.ready io ?dev (fs_cache s)" using ok by (simp add: dir_ok_def)
  have v: "view c1 ?dev = view (fs_cache s) ?dev" by (rule moved_view [OF m]) (use rd in \<open>simp add: Fs_Bitmap.ready_def\<close>)
  obtain i c' where w: "get_block io ?dev (dir_block s rip m) NORMAL c1 = Some (Ret (i, c'))" "b_data (buf c' i) = view c1 ?dev (dir_block s rip m)"
    "\<And>t v. moved c1 (put_block io (Some i) t (set_block i v c')) (set_view ?dev (dir_block s rip m) v (view c1))"
    by (rule transaction [OF moved_ready [OF m rd]]) blast
  then have e: "i = bp" "c' = c" using g by auto
  show "b_data (buf c bp) = dir_data s rip m" using w(2) by (simp add: e v dir_data_def)
  have "moved (fs_cache s) (put_block io (Some bp) t (set_block bp v c)) (set_view ?dev (dir_block s rip m) v (view c1))"
    using moved_trans [OF m w(3)] by (simp add: e)
  then show "moved (fs_cache s) (put_block io (Some bp) t (set_block bp v c)) (set_view ?dev (dir_block s rip m) v (view (fs_cache s)))"
    by (rule moved_cong) (use m in \<open>auto simp: moved_def set_view_def\<close>)
qed

lemma delete_result:
  assumes inv: "dir_inv io s rip"
  shows "\<exists>t. dir_pass io now rip cs numb DELETE s = Some (Ret (if dir_map s rip cs = None then ENOENT else OK, numb, t)) \<and>
    dir_inv io t rip \<and> dir_map t rip = (dir_map s rip)(cs := None)"
proof (cases "slot_of s rip cs")
  case None
  have ok: "dir_ok io s rip" using inv by (simp add: dir_inv_def)
  obtain n c where sc: "scan_blocks io rip DELETE cs (dir_slots s rip) [0 ..< dir_blocks s rip] 0 s = Some (Ret (None, n, s\<lparr>fs_cache := c\<rparr>))"
    "moved (fs_cache s) c (view (fs_cache s))" using dir_scan [OF ok, of DELETE cs] None by (auto simp: pass_ends_def stop_slot_of)
  let ?t = "s\<lparr>fs_cache := c\<rparr>"
  have v: "view c (i_dev (inode s rip)) = view (fs_cache s) (i_dev (inode s rip))"
    by (rule moved_view [OF sc(2)]) (use ok in \<open>simp add: dir_ok_def Fs_Bitmap.ready_def\<close>)
  have d: "dir_block ?t rip = dir_block s rip" "dir_data ?t rip = dir_data s rip" "dir_blocks ?t rip = dir_blocks s rip" "dir_slots ?t rip = dir_slots s rip"
    "dir_size ?t rip = dir_size s rip" "native_of rip ?t = native_of rip s" "scale_of ?t rip = scale_of s rip"
    by (simp_all add: fun_eq_iff dir_block_def dir_data_def dir_blocks_def dir_slots_def dir_size_def native_of_def scale_of_def v)
  have sl: "slot_ino ?t rip = slot_ino s rip" "slot_name ?t rip = slot_name s rip" by (simp_all add: fun_eq_iff slot_ino_def slot_name_def d)
  have "dir_inv io ?t rip" using inv moved_ready [OF sc(2)] by (simp add: dir_inv_def dir_ok_def solid_def unique_def d sl v)
  moreover have "dir_map ?t rip = dir_map s rip" by (simp add: fun_eq_iff dir_map_def slot_of_def d sl)
  moreover have "(dir_map s rip)(cs := None) = dir_map s rip" using None by (simp add: fun_eq_iff dir_map_def)
  ultimately show ?thesis using sc None by (intro exI [of _ ?t]) (simp add: dir_pass_scan dir_map_def)
next
  case (Some j)
  let ?dev = "i_dev (inode s rip)"
  have ok: "dir_ok io s rip" and sd: "solid s rip" and u: "unique s rip" using inv by (simp_all add: dir_inv_def)
  have j: "j < dir_slots s rip" "j div 64 < dir_blocks s rip" using slot_ofD [OF Some] slot_in_block by simp_all
  obtain bp c1 c where sc: "scan_blocks io rip DELETE cs (dir_slots s rip) [0 ..< dir_blocks s rip] 0 s =
      Some (Ret (Some (bp, Match (j mod 64)), j + 1, s\<lparr>fs_cache := c\<rparr>))"
    and m: "moved (fs_cache s) c1 (view (fs_cache s))" and g: "get_block io ?dev (dir_block s rip (j div 64)) NORMAL c1 = Some (Ret (bp, c))"
    using dir_scan [OF ok, of DELETE cs] j by (auto simp: pass_ends_def stop_slot_of Some ends_def)
  note w = write_dir_block [OF ok m g]
  let ?v = "clear_slot (j mod 64) (dir_data s rip (j div 64))"
  define t where "t = dir_changed rip (s\<lparr>fs_cache := put_block io (Some bp) DIRECTORY_BLOCK (set_block bp ?v c)\<rparr>)"
  have f: "dir_found io rip DELETE numb bp (j mod 64) (s\<lparr>fs_cache := c\<rparr>) = (OK, numb, t)"
    by (simp add: dir_found_def Let_def w(1) t_def dir_changed_def upd_inode_def set_block_def)
  have ch: "changed s rip (j div 64) ?v t"
    using w(2) [of DIRECTORY_BLOCK ?v] by (simp add: changed_def t_def dir_changed_def upd_inode_def dir_blocks_def dir_size_def)
  note cd = changed_dir [OF ch ok sd j(2)]
  have n: "dir_slots t rip = dir_slots s rip" "dir_size t rip = dir_size s rip" by (simp_all add: t_def dir_changed_def upd_inode_def dir_slots_def dir_size_def)
  have e: "slot_ino t rip i = (if i = j then 0 else slot_ino s rip i)" "i \<noteq> j \<Longrightarrow> slot_name t rip i = slot_name s rip i" if "i < dir_slots s rip" for i
    using cd(3) [OF slot_in_block [OF that]] clear_slot_entry slot_split [of i j] by (auto simp: slot_ino_def slot_name_def)
  note dm = delete_map [OF u Some n(1) cd(4) e]
  have "dir_inv io t rip" using cd(1,2) dm(1) inv by (simp add: dir_inv_def n dir_blocks_def)
  then show ?thesis using sc f dm(2) Some by (intro exI [of _ t]) (simp add: dir_pass_scan dir_map_def)
qed

text \<open>Names that can be entered.\<close>

definition good_name :: "8 word list \<Rightarrow> bool" where
  "good_name cs \<longleftrightarrow> cs \<noteq> [] \<and> 0 \<notin> set cs \<and> length cs \<le> NAME_MAX"

lemma conv2h_zero [simp]: "conv2h n w = 0 \<longleftrightarrow> w = 0"
proof
  assume "conv2h n w = 0"
  then have "conv2h n (conv2h n w) = conv2h n 0" by simp
  then show "w = 0" by (simp add: conv2h_inv) (simp add: conv2h_def conv2_def)
qed (simp add: conv2h_def conv2_def)

text \<open>Whether a new entry fits without a new block, and where it goes.\<close>

definition room :: "fs \<Rightarrow> nat \<Rightarrow> nat option" where
  "room s rip = List.find (\<lambda>j. dir_slots s rip \<le> j \<or> slot_ino s rip j = 0) [0 ..< 64 * dir_blocks s rip]"

lemma stop_slot_room: "stop_slot s rip ENTER cs 0 = room s rip"
  unfolding stop_slot_def room_def by (rule find_cong) (auto simp: hit_at_def hit_def)

lemma room_Some: "room s rip = Some j \<Longrightarrow> j \<le> dir_slots s rip \<and> j < 64 * dir_blocks s rip \<and> (j < dir_slots s rip \<longrightarrow> slot_ino s rip j = 0)"
proof -
  assume "room s rip = Some j"
  then have j: "j < 64 * dir_blocks s rip" "dir_slots s rip \<le> j \<or> slot_ino s rip j = 0" "\<And>i. i < j \<Longrightarrow> \<not> dir_slots s rip \<le> i"
    unfolding room_def find_upt_Some by blast+
  have "j \<le> dir_slots s rip" using j(3) [of "dir_slots s rip"] by (meson le_refl not_le)
  then show ?thesis using j by auto
qed

lemma room_None: "room s rip = None \<Longrightarrow> dir_slots s rip = 64 * dir_blocks s rip"
proof (rule ccontr)
  assume n: "room s rip = None" and "dir_slots s rip \<noteq> 64 * dir_blocks s rip"
  then have "dir_slots s rip < 64 * dir_blocks s rip" using dir_slots_blocks(1) [of s rip] by simp
  then show False using n by (auto simp: room_def find_upt_None)
qed

lemma enter_room:
  assumes inv: "dir_inv io s rip" and nm: "good_name cs" and new: "dir_map s rip cs = None" and numb: "numb \<noteq> 0" and r: "room s rip = Some j"
  shows "\<exists>t. dir_pass io now rip cs numb ENTER s = Some (Ret (OK, numb, t)) \<and> dir_inv io t rip \<and> dir_map t rip = (dir_map s rip)(cs \<mapsto> numb)"
proof -
  let ?dev = "i_dev (inode s rip)" and ?ino = "conv2h (native_of rip s) numb"
  have ok: "dir_ok io s rip" and sd: "solid s rip" and u: "unique s rip" and small: "1024 * dir_blocks s rip < 2 ^ 32" using inv by (simp_all add: dir_inv_def)
  have j: "j \<le> dir_slots s rip" "j < 64 * dir_blocks s rip" "j < dir_slots s rip \<Longrightarrow> slot_ino s rip j = 0" using room_Some [OF r] by simp_all
  have jb: "j div 64 < dir_blocks s rip" using j(2) by (simp add: less_mult_imp_div_less mult.commute)
  obtain bp c1 c where sc: "scan_blocks io rip ENTER cs (dir_slots s rip) [0 ..< dir_blocks s rip] 0 s =
      Some (Ret (Some (bp, Room (j mod 64)), j + 1, s\<lparr>fs_cache := c\<rparr>))"
    and m: "moved (fs_cache s) c1 (view (fs_cache s))" and g: "get_block io ?dev (dir_block s rip (j div 64)) NORMAL c1 = Some (Ret (bp, c))"
    using dir_scan [OF ok, of ENTER cs] by (auto simp: pass_ends_def stop_slot_room r ends_def)
  note w = write_dir_block [OF ok m g]
  let ?v = "put_slot (j mod 64) ?ino cs (dir_data s rip (j div 64))"
  let ?t0 = "dir_changed rip (s\<lparr>fs_cache := put_block io (Some bp) DIRECTORY_BLOCK (set_block bp ?v c)\<rparr>)"
  define t where "t = (if j + 1 > dir_slots s rip then upd_inode rip (i_size_update (\<lambda>_. word_of_nat (j + 1) * word_of_nat DIR_ENTRY_SIZE)) ?t0 else ?t0)"
  have nat: "native_of rip (s\<lparr>fs_cache := c\<rparr>) = native_of rip s" by (simp add: native_of_def)
  have f: "dir_enter io now rip cs numb bp (j mod 64) (j + 1) (dir_slots s rip) False (s\<lparr>fs_cache := c\<rparr>) = Some (Ret (OK, numb, t))"
    by (simp add: dir_enter_def Let_def w(1) t_def nat dir_changed_def upd_inode_def set_block_def)
  have b: "dir_size s rip \<le> 1024 * dir_blocks s rip" "1024 * (dir_blocks s rip - 1) < dir_size s rip" "dir_slots s rip * 16 \<le> dir_size s rip"
    using jb unfolding dir_blocks_def dir_slots_def DIR_ENTRY_SIZE_def by auto
  have sz: "dir_size t rip = (if j + 1 > dir_slots s rip then 16 * (j + 1) else dir_size s rip)"
  proof (cases "j + 1 > dir_slots s rip")
    case True
    have "16 * (j + 1) < 2 ^ 32" using j(2) small by simp
    then have "unat (word_of_nat (j + 1) * word_of_nat DIR_ENTRY_SIZE :: 32 word) = 16 * (j + 1)"
      unfolding of_nat_mult [symmetric] by (subst unat_of_nat) (simp add: DIR_ENTRY_SIZE_def take_bit_nat_eq_self)
    then show ?thesis using True by (simp add: t_def dir_size_def upd_inode_def del: of_nat_mult of_nat_Suc of_nat_add)
  qed (simp add: t_def dir_size_def dir_changed_def upd_inode_def)
  have over: "dir_size s rip < 16 * (dir_slots s rip + 1)" unfolding dir_slots_def DIR_ENTRY_SIZE_def using dividend_less_times_div [of 16 "dir_size s rip"] by simp
  have blocks: "dir_blocks t rip = dir_blocks s rip"
  proof (cases "j + 1 > dir_slots s rip")
    case True
    then have "dir_size t rip \<le> 1024 * dir_blocks s rip" "1024 * (dir_blocks s rip - 1) < dir_size t rip" using sz j(1,2) b over by auto
    then show ?thesis using jb unfolding dir_blocks_def [of t] by simp
  qed (simp add: dir_blocks_def sz)
  have ch: "changed s rip (j div 64) ?v t"
    using w(2) [of DIRECTORY_BLOCK ?v] blocks by (simp add: changed_def t_def dir_changed_def upd_inode_def)
  note cd = changed_dir [OF ch ok sd jb]
  have n: "dir_slots t rip = max (dir_slots s rip) (j + 1)" using sz by (auto simp: dir_slots_def DIR_ENTRY_SIZE_def)
  have cs: "0 \<notin> set cs" "length cs \<le> 14" using nm by (simp_all add: good_name_def NAME_MAX_def)
  have e: "slot_ino t rip j = ?ino" "slot_name t rip j = cs"
    using cd(3) [OF jb] put_slot_entry [OF cs] by (simp_all add: slot_ino_def slot_name_def)
  have e': "slot_ino t rip i = slot_ino s rip i \<and> slot_name t rip i = slot_name s rip i" if "i < dir_slots s rip" "i \<noteq> j" for i
    using cd(3) [OF slot_in_block [OF that(1)]] put_slot_entry [OF cs] slot_split [of i j] that(2) by (auto simp: slot_ino_def slot_name_def)
  have "?ino \<noteq> 0" using numb by simp
  note em = enter_map [OF u new j(1,3) this n cd(4) e e']
  have "dir_inv io t rip" using cd(1,2) em(1) small by (simp add: dir_inv_def blocks)
  then show ?thesis using sc f em(2) by (intro exI [of _ t]) (simp add: dir_pass_scan conv2h_inv)
qed

section \<open>The empty directory\<close>

definition only_dots :: "fs \<Rightarrow> nat \<Rightarrow> bool" where
  "only_dots s rip \<longleftrightarrow> (\<forall>cs. dir_map s rip cs \<noteq> None \<longrightarrow> cs = chars Dot1 \<or> cs = chars Dot2)"

lemma only_dots_slots:
  "only_dots s rip \<longleftrightarrow> (\<forall>j < dir_slots s rip. slot_ino s rip j \<noteq> 0 \<longrightarrow> slot_name s rip j = chars Dot1 \<or> slot_name s rip j = chars Dot2)"
  unfolding only_dots_def dir_map_None by blast

lemma stop_slot_empty: "stop_slot s rip IS_EMPTY cs 0 = None \<longleftrightarrow> only_dots s rip"
proof -
  have "stop_slot s rip IS_EMPTY cs 0 = None \<longleftrightarrow> (\<forall>j < 64 * dir_blocks s rip. j < dir_slots s rip \<longrightarrow> \<not> hit_at s rip IS_EMPTY cs j)"
    unfolding stop_slot_def find_upt_None by auto
  also have "\<dots> \<longleftrightarrow> (\<forall>j < dir_slots s rip. \<not> hit_at s rip IS_EMPTY cs j)" using dir_slots_blocks(1) [of s rip] by (meson less_le_trans)
  finally show ?thesis by (auto simp: only_dots_slots hit_at_def hit_def)
qed

lemma empty_result:
  assumes ok: "dir_ok io s rip"
  shows "\<exists>c. dir_pass io now rip cs numb IS_EMPTY s = Some (Ret (if only_dots s rip then OK else ENOTEMPTY, numb, s\<lparr>fs_cache := c\<rparr>)) \<and>
    moved (fs_cache s) c (view (fs_cache s))"
proof (cases "stop_slot s rip IS_EMPTY cs 0")
  case None
  obtain n c where "scan_blocks io rip IS_EMPTY cs (dir_slots s rip) [0 ..< dir_blocks s rip] 0 s = Some (Ret (None, n, s\<lparr>fs_cache := c\<rparr>))"
    "moved (fs_cache s) c (view (fs_cache s))" using dir_scan [OF ok, of IS_EMPTY cs] unfolding pass_ends_def None by auto
  moreover have "only_dots s rip" using stop_slot_empty [of s rip cs] unfolding None by blast
  ultimately show ?thesis by (intro exI [of _ c]) (simp add: dir_pass_scan)
next
  case (Some j)
  let ?dev = "i_dev (inode s rip)"
  have j: "j < dir_slots s rip" using Some by (auto simp: stop_slot_def find_upt_Some)
  obtain bp c1 c where sc: "scan_blocks io rip IS_EMPTY cs (dir_slots s rip) [0 ..< dir_blocks s rip] 0 s =
      Some (Ret (Some (bp, Match (j mod 64)), j + 1, s\<lparr>fs_cache := c\<rparr>))"
    and m: "moved (fs_cache s) c1 (view (fs_cache s))" and g: "get_block io ?dev (dir_block s rip (j div 64)) NORMAL c1 = Some (Ret (bp, c))"
    using dir_scan [OF ok, of IS_EMPTY cs] j unfolding pass_ends_def Some by (auto simp: ends_def)
  have rd: "Fs_Bitmap.ready io ?dev (fs_cache s)" using ok by (simp add: dir_ok_def)
  obtain i c' where t: "get_block io ?dev (dir_block s rip (j div 64)) NORMAL c1 = Some (Ret (i, c'))"
    "\<And>t. moved c1 (put_block io (Some i) t c') (view c1)" by (rule transaction [OF moved_ready [OF m rd]]) blast
  then have "moved c1 (put_block io (Some bp) DIRECTORY_BLOCK c) (view c1)" using g by simp
  from moved_trans [OF m this] have "moved (fs_cache s) (put_block io (Some bp) DIRECTORY_BLOCK c) (view (fs_cache s))"
    by (rule moved_cong) (use m in \<open>simp add: moved_def\<close>)
  moreover have "\<not> only_dots s rip" using stop_slot_empty [of s rip cs] unfolding Some by blast
  ultimately show ?thesis using sc by (intro exI [of _ "put_block io (Some bp) DIRECTORY_BLOCK c"]) (simp add: dir_pass_scan dir_found_def)
qed

section \<open>The calls of search_dir\<close>

text \<open>
  (C9) Looking a name up in a directory is lookup in the map of the directory, read off the device: \<^verbatim>\<open>search_dir\<close>
  returns the inode number in the byte order of the processor, or \<^verbatim>\<open>ENOENT\<close>; when the caller may not search
  the directory it returns that error. Nothing that callers see of the device changes.
\<close>

theorem search_dir_looks_up:
  assumes "dir_check e rip string LOOK_UP s = Some (Ret (r, s1))" "r = OK \<Longrightarrow> dir_ok (disk_io e) (fsys s1) rip"
  shows "if r \<noteq> OK then search_dir e rip string numb LOOK_UP s = Some (Ret (r, numb, s1))
    else \<exists>c. moved (fs_cache (fsys s1)) c (view (fs_cache (fsys s1))) \<and>
      search_dir e rip string numb LOOK_UP s = Some (Ret (case dir_map (fsys s1) rip (chars string) of
        None \<Rightarrow> (ENOENT, numb, s1\<lparr>fsys := (fsys s1)\<lparr>fs_cache := c\<rparr>\<rparr>) | Some ino \<Rightarrow> (OK, ino, s1\<lparr>fsys := (fsys s1)\<lparr>fs_cache := c\<rparr>\<rparr>)))"
proof (cases "r = OK")
  case True
  show ?thesis
    using look_up_result [OF assms(2) [OF True], of "time_now e" "chars string" numb] True
    by (cases "dir_map (fsys s1) rip (chars string)") (auto simp: search_dir_def assms(1) with_sys_def)
qed (simp add: search_dir_def assms(1))

text \<open>
  (C8) Deleting a name removes exactly this name from the map of the directory, or returns \<^verbatim>\<open>ENOENT\<close> when it is not there;
  all other names keep their inodes, in all blocks, and the directory stays well formed.
\<close>

theorem search_dir_deletes:
  assumes "dir_check e rip string DELETE s = Some (Ret (OK, s1))" "dir_inv (disk_io e) (fsys s1) rip"
  shows "\<exists>t. search_dir e rip string numb DELETE s =
      Some (Ret (if dir_map (fsys s1) rip (chars string) = None then ENOENT else OK, numb, s1\<lparr>fsys := t\<rparr>)) \<and>
    dir_inv (disk_io e) t rip \<and> dir_map t rip = (dir_map (fsys s1) rip)(chars string := None)"
  using delete_result [OF assms(2), of "time_now e" "chars string" numb] by (auto simp: search_dir_def assms(1) with_sys_def)

text \<open>
  (C7) Entering a new name adds exactly this name to the map of the directory, in the first free entry or behind
  the last one, as long as an entry fits into the blocks that the directory has; all other names keep their inodes.
\<close>

theorem search_dir_enters:
  assumes "dir_check e rip string ENTER s = Some (Ret (OK, s1))" "dir_inv (disk_io e) (fsys s1) rip" "good_name (chars string)"
    "dir_map (fsys s1) rip (chars string) = None" "numb \<noteq> 0" "room (fsys s1) rip \<noteq> None"
  shows "\<exists>t. search_dir e rip string numb ENTER s = Some (Ret (OK, numb, s1\<lparr>fsys := t\<rparr>)) \<and>
    dir_inv (disk_io e) t rip \<and> dir_map t rip = (dir_map (fsys s1) rip)(chars string \<mapsto> numb)"
proof -
  obtain j where "room (fsys s1) rip = Some j" using assms(6) by blast
  from enter_room [OF assms(2-5) this, of "time_now e"] show ?thesis by (auto simp: search_dir_def assms(1) with_sys_def)
qed

text \<open>
  (C36) \<^verbatim>\<open>rmdir\<close> asks \<^verbatim>\<open>search_dir\<close> whether a directory is empty: the answer is \<^verbatim>\<open>OK\<close> exactly if the map of the directory has no
  name but \<^verbatim>\<open>.\<close> and \<^verbatim>\<open>..\<close>, otherwise \<^verbatim>\<open>ENOTEMPTY\<close>. No permission is needed.
\<close>

theorem search_dir_checks_empty:
  assumes "dir_ok (disk_io e) (fsys s) rip" "i_mode (ino_of s rip) AND I_TYPE = I_DIRECTORY"
  shows "\<exists>c. search_dir e rip string numb IS_EMPTY s =
      Some (Ret (if \<forall>cs. dir_map (fsys s) rip cs \<noteq> None \<longrightarrow> cs = chars Dot1 \<or> cs = chars Dot2 then OK else ENOTEMPTY, numb,
        s\<lparr>fsys := (fsys s)\<lparr>fs_cache := c\<rparr>\<rparr>)) \<and> moved (fs_cache (fsys s)) c (view (fs_cache (fsys s)))"
proof -
  obtain c where "dir_pass (disk_io e) (time_now e) rip (chars string) numb IS_EMPTY (fsys s) =
      Some (Ret (if only_dots (fsys s) rip then OK else ENOTEMPTY, numb, (fsys s)\<lparr>fs_cache := c\<rparr>))"
    "moved (fs_cache (fsys s)) c (view (fs_cache (fsys s)))" using empty_result [OF assms(1)] by blast
  then show ?thesis unfolding only_dots_def [symmetric]
    by (intro exI [of _ c]) (simp add: search_dir_def dir_check_def assms(2) with_sys_def del: chars.simps)
qed

text \<open>
  (C37) Entering a new name and deleting it again restores the map of the directory.
\<close>

theorem enter_delete_roundtrip:
  assumes "dir_inv io s rip" "good_name cs" "dir_map s rip cs = None" "numb \<noteq> 0" "room s rip \<noteq> None"
  shows "\<exists>t u. dir_pass io now rip cs numb ENTER s = Some (Ret (OK, numb, t)) \<and> dir_pass io now' rip cs numb' DELETE t = Some (Ret (OK, numb', u)) \<and>
    dir_map u rip = dir_map s rip"
proof -
  obtain j where j: "room s rip = Some j" using assms(5) by blast
  obtain t where t: "dir_pass io now rip cs numb ENTER s = Some (Ret (OK, numb, t))" "dir_inv io t rip" "dir_map t rip = (dir_map s rip)(cs \<mapsto> numb)"
    using enter_room [OF assms(1-4) j, of now] by blast
  obtain u where "dir_pass io now' rip cs numb' DELETE t = Some (Ret (if dir_map t rip cs = None then ENOENT else OK, numb', u))"
    "dir_map u rip = (dir_map t rip)(cs := None)" using delete_result [OF t(2), of now' cs numb'] by blast
  then show ?thesis using t assms(3) by (intro exI [of _ t] exI [of _ u]) (simp add: fun_upd_idem)
qed

section \<open>A directory to compute on\<close>

text \<open>The entries \<^verbatim>\<open>.\<close> and \<^verbatim>\<open>..\<close>, both for inode 1.\<close>

definition dots :: data where
  "dots = (\<lambda>p. if p = 1 \<or> p = 17 then 1 else if p = 2 \<or> p = 18 \<or> p = 19 then 0x2E else 0)"

definition dots_fs :: fs where
  "dots_fs = \<lparr>fs_cache = start 0 (\<lambda>_ b. if b = 10 then dots else (\<lambda>_. 0)), super_blocks = (\<lambda>_. sample_super),
     inode = (\<lambda>_. blank_inode\<lparr>i_mode := 0x41ED, i_nlinks := 2, i_size := 32, i_zone := (\<lambda>_. 0)(0 := 10), i_dev := 768, i_num := 1, i_count := 1, i_ndzones := 7,
       i_nindirs := 256\<rparr>), err_code = 0\<rparr>"

definition dots_sys :: sys where "dots_sys = boot_sys\<lparr>fsys := dots_fs\<rparr>"

lemma dots_sel:
  "super_blocks dots_fs = (\<lambda>_. sample_super)" "i_dev (inode dots_fs k) = 768" "i_sp (inode dots_fs k) = 0" "i_size (inode dots_fs k) = 32"
  "i_zone (inode dots_fs k) = (\<lambda>_. 0)(0 := 10)" "i_ndzones (inode dots_fs k) = 7" "i_mode (inode dots_fs k) = 0x41ED" "get_super 768 dots_fs = Some (Ret 0)"
  "fsys dots_sys = dots_fs" "disk_io boot_env = good_io" "scale_of dots_fs k = 0" "native_of k dots_fs"
  by (simp_all add: dots_fs_def blank_inode_def get_super_def sample_sizes NR_SUPERS_def upt_conv_Cons dots_sys_def boot_env_def scale_of_def native_of_def)
    (simp add: sample_super_def)

lemma dots_ready: "Fs_Bitmap.ready good_io 768 (fs_cache dots_fs)"
  using start_inv [where n = 0 and D = "\<lambda>_ b. if b = 10 then dots else (\<lambda>_. 0)"] start_room [of 0 "\<lambda>_ b. if b = 10 then dots else (\<lambda>_. 0)"] good_io_sound
  by (simp add: Fs_Bitmap.ready_def dots_fs_def store_inv_def usable_def NO_DEV_def DEV_RAM_def)

lemma dots_size: "dir_size dots_fs k = 32" "dir_blocks dots_fs k = 1" "dir_slots dots_fs k = 2" "dir_block dots_fs k 0 = 10"
  by (simp_all add: dir_size_def dir_blocks_def dir_slots_def dots_sel DIR_ENTRY_SIZE_def dir_block_def file_zone_def file_block_def block_of_zone_def NO_ZONE_def Let_def)

lemma dots_ok: "dir_ok good_io dots_fs k"
  by (simp add: dir_ok_def dots_sel dots_ready dots_size corrupt_def file_zone_def)


lemma dots_slots:
  "slot_ino dots_fs k 0 = 1" "slot_ino dots_fs k 1 = 1" "slot_name dots_fs k 0 = chars Dot1" "slot_name dots_fs k 1 = chars Dot2"
proof -
  have v: "view (fs_cache dots_fs) 768 10 = dots"
    using start_inv(2) [of 768 0 "\<lambda>_ b. if b = 10 then dots else (\<lambda>_. 0)" 10] by (simp add: dots_fs_def NO_DEV_def)
  have d: "dir_data dots_fs k 0 = dots" by (simp add: dir_data_def dots_sel dots_size v)
  show "slot_ino dots_fs k 0 = 1" "slot_ino dots_fs k 1 = 1"
    by (simp_all add: slot_ino_def d d_ino_def get2_def dots_def DIR_ENTRY_SIZE_def)
  show "slot_name dots_fs k 0 = chars Dot1" "slot_name dots_fs k 1 = chars Dot2"
    by (simp_all add: slot_name_def d d_name_def dots_def DIR_ENTRY_SIZE_def NAME_MAX_def upt_conv_Cons)
qed

lemma dots_map: "dir_map dots_fs k cs = (if cs = chars Dot1 \<or> cs = chars Dot2 then Some 1 else None)"
proof -
  have "List.find (\<lambda>j. slot_ino dots_fs k j \<noteq> 0 \<and> slot_name dots_fs k j = cs) [0, 1] = (if cs = chars Dot1 then Some 0 else if cs = chars Dot2 then Some 1 else None)"
    using dots_slots [of k] by auto
  then show ?thesis using dots_slots [of k] by (auto simp: dir_map_def slot_of_def dots_size upt_conv_Cons dots_sel magics)
qed

lemma dots_inv: "dir_inv good_io dots_fs k"
proof -
  have "unique dots_fs k" using dots_slots [of k] by (auto simp: unique_def dots_size less_2_cases_iff)
  moreover have "solid dots_fs k" by (simp add: solid_def dots_size through_def dots_sel lessThan_Suc)
  ultimately show ?thesis by (simp add: dir_inv_def dots_ok dots_size)
qed

lemma dots_check: "flg \<in> {LOOK_UP, ENTER, DELETE} \<Longrightarrow> dir_check boot_env k Dot2 flg dots_sys = Some (Ret (OK, dots_sys))"
  by (auto simp: dir_check_def dots_sel ino_of_def I_TYPE_def I_DIRECTORY_def read_only_def sample_sizes)

lemma dots_room: "room dots_fs k = Some 2"
proof -
  have "List.find (\<lambda>j. 2 \<le> j \<or> slot_ino dots_fs k j = 0) [0 ..< 64] = Some 2"
    unfolding find_upt_Some using dots_slots [of k] by (auto simp: less_2_cases_iff)
  then show ?thesis by (simp add: room_def dots_size)
qed

theorem search_dir_looks_up_witness:
  "\<exists>c. search_dir boot_env 0 Dot2 7 LOOK_UP dots_sys = Some (Ret (OK, 1, dots_sys\<lparr>fsys := dots_fs\<lparr>fs_cache := c\<rparr>\<rparr>))"
  using search_dir_looks_up [OF dots_check [of LOOK_UP 0], of 7] dots_ok [of 0] dots_map [of 0 "chars Dot2"] by (auto simp: dots_sel simp del: chars.simps)

theorem search_dir_deletes_witness:
  "\<exists>t. search_dir boot_env 0 Dot2 7 DELETE dots_sys = Some (Ret (OK, 7, dots_sys\<lparr>fsys := t\<rparr>)) \<and> dir_map t 0 = [chars Dot1 \<mapsto> 1]"
proof -
  have "(dir_map dots_fs 0)(chars Dot2 := None) = [chars Dot1 \<mapsto> 1]" by (auto simp: fun_eq_iff dots_map)
  then show ?thesis using search_dir_deletes [OF dots_check [of DELETE 0], of 7] dots_inv [of 0] dots_map [of 0 "chars Dot2"]
    by (auto simp: dots_sel simp del: chars.simps)
qed

theorem search_dir_enters_witness:
  "\<exists>t. search_dir boot_env 0 (Comp [0x74, 0x65, 0x61]) 7 ENTER dots_sys = Some (Ret (OK, 7, dots_sys\<lparr>fsys := t\<rparr>)) \<and>
     dir_map t 0 = (dir_map dots_fs 0)([0x74, 0x65, 0x61] \<mapsto> 7)"
proof -
  have "dir_check boot_env 0 (Comp [0x74, 0x65, 0x61]) ENTER dots_sys = Some (Ret (OK, dots_sys))"
  proof -
    have "\<not> i_mount (inode dots_fs 0)" "fp_effuid (fproc dots_sys (fp dots_sys)) = 0" "fs_call dots_sys = 0" "read_only 0 dots_sys = OK"
      by (simp_all add: dots_fs_def blank_inode_def dots_sys_def boot_sys_def no_fproc_def read_only_def ino_of_def sample_sizes)
    then have "forbidden boot_env 0 (W_BIT OR X_BIT) dots_sys = Some (Ret (OK, dots_sys))"
      by (simp add: forbidden_def Let_def ino_of_def dots_sel perm_bits_def SU_UID_def I_TYPE_def I_DIRECTORY_def R_BIT_def W_BIT_def X_BIT_def ACCESS_def)
    then show ?thesis by (simp add: dir_check_def dots_sel ino_of_def I_TYPE_def I_DIRECTORY_def)
  qed
  then show ?thesis using search_dir_enters [of boot_env 0 "Comp [0x74, 0x65, 0x61]" dots_sys dots_sys 7] dots_inv [of 0]
    by (auto simp: dots_sel dots_map dots_room good_name_def NAME_MAX_def)
qed

theorem search_dir_checks_empty_witness:
  "\<exists>c. search_dir boot_env 0 Dot1 7 IS_EMPTY dots_sys = Some (Ret (OK, 7, dots_sys\<lparr>fsys := dots_fs\<lparr>fs_cache := c\<rparr>\<rparr>))"
proof -
  have "\<forall>cs. dir_map dots_fs 0 cs \<noteq> None \<longrightarrow> cs = chars Dot1 \<or> cs = chars Dot2" by (simp add: dots_map)
  then show ?thesis using search_dir_checks_empty [of boot_env dots_sys 0 Dot1 7] dots_ok [of 0]
    unfolding dots_sel by (simp add: dots_sel ino_of_def I_TYPE_def I_DIRECTORY_def if_P del: chars.simps not_None_eq) blast
qed

theorem enter_delete_roundtrip_witness:
  "\<exists>t u. dir_pass good_io 0 0 [0x74, 0x65, 0x61] 5 ENTER dots_fs = Some (Ret (OK, 5, t)) \<and>
     dir_pass good_io 0 0 [0x74, 0x65, 0x61] 7 DELETE t = Some (Ret (OK, 7, u)) \<and> dir_map u 0 = dir_map dots_fs 0"
  by (rule enter_delete_roundtrip [OF dots_inv]) (simp_all add: good_name_def NAME_MAX_def dots_map dots_room)

end
