(* ===== verification/Fs_Paths.thy ===== *)
theory Fs_Paths
  imports Fs_Path Fs_Sample
begin

unbundle bit_operations_syntax

text \<open>
  What the parts of a path are: \<^verbatim>\<open>get_name\<close> of \<^verbatim>\<open>src/src/fs/path.c\<close> against the list of components, and the search of
  \<^verbatim>\<open>slink_traverse\<close> for the component that is a symbolic link.
\<close>

section \<open>Strings in memory\<close>

definition string_at :: "(nat \<Rightarrow> 8 word) \<Rightarrow> nat \<Rightarrow> 8 word list \<Rightarrow> bool" where
  "string_at mem p cs \<longleftrightarrow> (\<forall>i < length cs. mem (p + i) = cs ! i) \<and> mem (p + length cs) = 0 \<and> 0 \<notin> set cs"

lemma string_at_Nil [simp]: "string_at mem p [] \<longleftrightarrow> mem p = 0"
  by (simp add: string_at_def)

lemma string_at_Cons [simp]: "string_at mem p (c # cs) \<longleftrightarrow> mem p = c \<and> c \<noteq> 0 \<and> string_at mem (Suc p) cs"
proof -
  have "(\<forall>i < length (c # cs). mem (p + i) = (c # cs) ! i) \<longleftrightarrow> mem p = c \<and> (\<forall>i < length cs. mem (Suc p + i) = cs ! i)"
    by (auto simp: less_Suc_eq_0_disj)
  then show ?thesis by (auto simp: string_at_def)
qed

lemma string_at_append: "string_at mem p (xs @ ys) \<Longrightarrow> string_at mem (p + length xs) ys"
proof (induction xs arbitrary: p)
  case (Cons x xs)
  then show ?case using Cons.IH [of "Suc p"] by simp
qed simp

lemma string_at_zero: "string_at mem p cs \<Longrightarrow> mem p = 0 \<longleftrightarrow> cs = []"
  by (cases cs) auto

lemma string_at_map: "string_at mem p (xs @ ys) \<Longrightarrow> map mem [p ..< p + length xs] = xs"
proof (induction xs arbitrary: p)
  case (Cons x xs)
  have "[p ..< p + length (x # xs)] = p # [Suc p ..< Suc p + length xs]" by (subst upt_conv_Cons) simp_all
  then show ?case using Cons.IH [of "Suc p"] Cons.prems by simp
qed simp

section \<open>Components\<close>

abbreviation (input) no_slash :: "8 word \<Rightarrow> bool" where "no_slash c \<equiv> c \<noteq> SLASH"
abbreviation (input) is_slash :: "8 word \<Rightarrow> bool" where "is_slash c \<equiv> c = SLASH"

text \<open>The components of a path, those between slashes that are not empty.\<close>

function components :: "8 word list \<Rightarrow> 8 word list list" where
  "components [] = []"
| "components (c # cs) = (if c = SLASH then components cs else (c # takeWhile no_slash cs) # components (dropWhile no_slash cs))"
  by pat_completeness auto

termination components
  by (relation "measure length") (auto simp: le_imp_less_Suc length_dropWhile_le)

lemma components_skip: "components (dropWhile is_slash cs) = components cs"
  by (induction cs) auto

lemma components_first:
  assumes "dropWhile is_slash cs = r"
  shows "components cs = (if r = [] then [] else takeWhile no_slash r # components (dropWhile is_slash (dropWhile no_slash r)))"
proof -
  have "components r = (if r = [] then [] else takeWhile no_slash r # components (dropWhile no_slash r))"
    using hd_dropWhile [of is_slash cs] assms by (cases r) auto
  moreover have "components cs = components r" using components_skip [of cs] assms by simp
  ultimately show ?thesis by (simp add: components_skip)
qed

lemma components_Nil: "components (dropWhile is_slash cs) = [] \<longleftrightarrow> dropWhile is_slash cs = []"
  using components_first [of cs "dropWhile is_slash cs"] by (simp add: components_skip)

section \<open>The loops of get_name\<close>

lemma SLASH_not_zero [simp]: "SLASH \<noteq> 0" "0 \<noteq> SLASH"
  by (simp_all add: SLASH_def)

lemma skip_slashes_end: "string_at mem p cs \<Longrightarrow> skip_slashes mem p = Some (p + length (takeWhile is_slash cs))"
proof (induction cs arbitrary: p)
  case Nil
  then show ?case by (subst skip_slashes.simps) simp
next
  case (Cons c cs)
  show ?case by (subst skip_slashes.simps) (use Cons in auto)
qed

lemma name_end_end: "string_at mem p cs \<Longrightarrow> name_end mem n p = p + min n (length (takeWhile no_slash cs))"
proof (induction n arbitrary: p cs)
  case (Suc n)
  show ?case using Suc.prems Suc.IH [of "Suc p"] by (cases cs) auto
qed simp

lemma slashes_end_end: "string_at mem p cs \<Longrightarrow> slashes_end mem n p = p + min n (length (takeWhile is_slash cs))"
proof (induction n arbitrary: p cs)
  case (Suc n)
  show ?case using Suc.prems Suc.IH [of "Suc p"] by (cases cs) auto
qed simp

text \<open>One call: the first component, cut to 14 characters, and the string behind it and its slashes.\<close>

lemma get_name_first:
  assumes s: "string_at mem p cs" and n: "length cs < PATH_MAX"
  obtains q rest where "get_name mem p = Some (take NAME_MAX (if components cs = [] then [] else hd (components cs)), Some q)"
    "string_at mem q rest" "components rest = tl (components cs)" "mem q = 0 \<longleftrightarrow> tl (components cs) = []" "components cs \<noteq> [] \<longrightarrow> length rest < length cs"
proof -
  define a where "a = length (takeWhile is_slash cs)"
  define r where "r = dropWhile is_slash cs"
  define b where "b = length (takeWhile no_slash r)"
  define t where "t = dropWhile no_slash r"
  define c where "c = length (takeWhile is_slash t)"
  define rest where "rest = dropWhile is_slash t"
  have cs: "takeWhile is_slash cs @ r = cs" "takeWhile no_slash r @ t = r" "takeWhile is_slash t @ rest = t"
    by (simp_all add: r_def t_def rest_def)
  have len: "length cs = a + length r" "length r = b + length t" "length t = c + length rest"
    unfolding a_def b_def c_def using cs by (metis length_append)+
  have s1: "string_at mem (p + a) r" unfolding a_def by (rule string_at_append) (use s cs in simp)
  have s2: "string_at mem (p + a + b) t" unfolding b_def by (rule string_at_append) (use s1 cs in simp)
  have s3: "string_at mem (p + a + b + c) rest" unfolding c_def by (rule string_at_append) (use s2 cs in simp)
  have nm: "map mem [p + a ..< p + a + b] = takeWhile no_slash r"
    unfolding b_def by (rule string_at_map [where ys = t]) (use s1 cs in simp)
  have e1: "name_end mem (p + PATH_MAX - (p + a)) (p + a) = p + a + b" using name_end_end [OF s1] len n by (simp add: b_def)
  have e2: "slashes_end mem (p + PATH_MAX - (p + a + b)) (p + a + b) = p + a + b + c" using slashes_end_end [OF s2] len n by (simp add: c_def)
  have g: "get_name mem p = Some (take NAME_MAX (takeWhile no_slash r), Some (p + a + b + c))"
    using skip_slashes_end [OF s] e1 e2 nm len n by (simp add: get_name_def Let_def a_def [symmetric])
  have co: "components cs = (if r = [] then [] else takeWhile no_slash r # components rest)"
    using components_first [of cs r] by (simp add: r_def t_def rest_def)
  have em: "r = [] \<Longrightarrow> rest = []" using len by simp
  have "r \<noteq> [] \<Longrightarrow> no_slash (hd r)" unfolding r_def by (rule hd_dropWhile)
  then have "r \<noteq> [] \<longrightarrow> b \<noteq> 0" by (cases r) (simp_all add: b_def)
  moreover have "components cs \<noteq> [] \<longrightarrow> r \<noteq> []" using co by simp
  ultimately have less: "components cs \<noteq> [] \<longrightarrow> length rest < length cs" using len by linarith
  show thesis
  proof (rule that [OF _ s3])
    show "get_name mem p = Some (take NAME_MAX (if components cs = [] then [] else hd (components cs)), Some (p + a + b + c))"
      using g co by auto
    show tl: "components rest = tl (components cs)" using co em by auto
    show "mem (p + a + b + c) = 0 \<longleftrightarrow> tl (components cs) = []"
      using string_at_zero [OF s3] components_Nil [of t] tl by (auto simp: rest_def)
  qed (rule less)
qed

text \<open>The names that \<^verbatim>\<open>last_dir\<close> gets from one path, in order.\<close>

primrec path_names :: "nat \<Rightarrow> (nat \<Rightarrow> 8 word) \<Rightarrow> nat \<Rightarrow> 8 word list list option" where
  "path_names 0 mem p = None"
| "path_names (Suc n) mem p =
     (case get_name mem p of
        Some (c, Some q) \<Rightarrow> if mem q = 0 then Some [c] else map_option ((#) c) (path_names n mem q)
      | _ \<Rightarrow> None)"

lemma path_names_more: "path_names m mem x = Some v \<Longrightarrow> m \<le> k \<Longrightarrow> path_names k mem x = Some v"
proof (induction m arbitrary: k x v)
  case (Suc m)
  then obtain k' where k: "k = Suc k'" "m \<le> k'" by (cases k) auto
  show ?case using Suc.prems(1) Suc.IH [OF _ k(2)] unfolding k(1) by (auto split: option.splits prod.splits if_splits)
qed simp

text \<open>
  (C38) The successive calls of \<^verbatim>\<open>get_name\<close> on a path of fewer than \<^verbatim>\<open>PATH_MAX\<close> characters return its components, each cut to
  \<^verbatim>\<open>NAME_MAX\<close> characters, and then stop: so \<^verbatim>\<open>/usr/ast\<close>, \<^verbatim>\<open>/usr//ast\<close>, \<^verbatim>\<open>//usr///ast\<close> and \<^verbatim>\<open>/usr/ast/\<close> are the same
  path. A path of slashes only gives one empty name.
\<close>

theorem get_name_components:
  assumes "string_at mem p cs" "length cs < PATH_MAX"
  shows "path_names (Suc (length cs)) mem p = Some (if components cs = [] then [[]] else map (take NAME_MAX) (components cs))"
  using assms
proof (induction "length cs" arbitrary: p cs rule: less_induct)
  case less
  obtain q rest where g: "get_name mem p = Some (take NAME_MAX (if components cs = [] then [] else hd (components cs)), Some q)"
    and r: "string_at mem q rest" "components rest = tl (components cs)" "mem q = 0 \<longleftrightarrow> tl (components cs) = []" "components cs \<noteq> [] \<longrightarrow> length rest < length cs"
    by (rule get_name_first [OF less.prems])
  have more: "path_names n mem q = Some (map (take NAME_MAX) (tl (components cs)))" if ne: "tl (components cs) \<noteq> []" and n: "Suc (length rest) \<le> n" for n
  proof -
    have lt: "length rest < length cs" using r(4) ne by (cases "components cs") auto
    have "path_names (Suc (length rest)) mem q = Some (map (take NAME_MAX) (tl (components cs)))"
      using less.hyps [OF lt r(1)] less.prems(2) lt ne unfolding r(2) by auto
    then show ?thesis using n by (rule path_names_more)
  qed
  show ?case
  proof (cases "tl (components cs) = []")
    case True
    then show ?thesis using g r(3) by (cases "components cs") simp_all
  next
    case False
    then have "components cs \<noteq> []" by (cases "components cs") simp_all
    then show ?thesis using g r(3,4) more [of "length cs"] False by (cases "components cs") simp_all
  qed
qed

definition sample_path :: "nat \<Rightarrow> 8 word" where
  "sample_path k = (if k < 9 then [0x2F, 0x75, 0x73, 0x72, 0x2F, 0x2F, 0x61, 0x73, 0x74] ! k else 0)"

theorem get_name_components_witness:
  "path_names 10 sample_path 0 = Some [[0x75, 0x73, 0x72], [0x61, 0x73, 0x74]]"
proof -
  have s: "string_at sample_path 0 [0x2F, 0x75, 0x73, 0x72, 0x2F, 0x2F, 0x61, 0x73, 0x74]" by (simp add: sample_path_def)
  have l: "Suc (length [0x2F, 0x75, 0x73, 0x72, 0x2F, 0x2F, 0x61, 0x73, 0x74 :: 8 word]) = 10" by simp
  show ?thesis using get_name_components [OF s, unfolded l] by (simp add: PATH_MAX_def SLASH_def NAME_MAX_def del: path_names.simps)
qed

section \<open>The search for a link\<close>

lemma next_slash_end: "string_at mem p (w @ SLASH # ys) \<Longrightarrow> w \<noteq> [] \<Longrightarrow> SLASH \<notin> set w \<Longrightarrow> next_slash mem p = Some (p + length w)"
proof (induction w arbitrary: p)
  case (Cons c w)
  show ?case
  proof (cases w)
    case Nil
    then show ?thesis by (subst next_slash.simps) (use Cons.prems in simp)
  next
    case (Cons d v)
    then have "next_slash mem (Suc p) = Some (Suc p + length w)" using Cons.IH [of "Suc p"] Cons.prems by simp
    then show ?thesis by (subst next_slash.simps) (use Cons Cons.prems in auto)
  qed
qed simp

text \<open>From where the component starts, the search runs to its end.\<close>

lemma link_pos_match:
  assumes "string_at mem p (cs @ rest)" "i < length cs"
  shows "link_pos mem cs (Some old) (p + i) i = Some (p + length cs)"
  using assms(2)
proof (induction "length cs - i" arbitrary: i)
  case (Suc n)
  have "0 \<notin> set cs" using assms(1) by (simp add: string_at_def)
  then have nz: "\<And>i. i < length cs \<Longrightarrow> cs ! i \<noteq> 0" by (metis nth_mem)
  show ?case
  proof (cases "i + 1 < length cs")
    case True
    have "\<forall>j < length (cs @ rest). mem (p + j) = (cs @ rest) ! j" using assms(1) unfolding string_at_def by blast
    then have "mem (p + (i + 1)) = (cs @ rest) ! (i + 1)" using True by (auto simp del: add_Suc_right)
    then have "mem (p + (i + 1)) = cs ! (i + 1)" "cs ! (i + 1) \<noteq> 0" using nz True by (simp_all add: nth_append)
    moreover have "link_pos mem cs (Some old) (p + (i + 1)) (i + 1) = Some (p + length cs)" using Suc.hyps(1) [of "i + 1"] Suc.hyps(2) True by simp
    ultimately show ?thesis using nz [OF Suc.prems] True by (subst link_pos.simps) (simp add: at_def)
  next
    case False
    then show ?thesis using nz [OF Suc.prems] Suc.prems by (subst link_pos.simps) (simp add: at_def)
  qed
qed simp

text \<open>No component before the link starts with the same character.\<close>

lemma link_pos_found:
  assumes "string_at mem p (pre @ cs @ rest)" "cs \<noteq> []" "SLASH \<notin> set cs" "pre = [] \<or> last pre = SLASH" "\<forall>c \<in> set (components pre). hd c \<noteq> hd cs"
  shows "link_pos mem cs None p 0 = Some (p + length pre + length cs)"
  using assms(1,4,5)
proof (induction "length pre" arbitrary: p pre rule: less_induct)
  case less
  obtain c ds where cs: "cs = c # ds" "c \<noteq> SLASH" using assms(2,3) by (cases cs) auto
  define r where "r = dropWhile is_slash pre"
  define a where "a = length (takeWhile is_slash pre)"
  have pre: "takeWhile is_slash pre @ r = pre" by (simp add: r_def)
  have "takeWhile is_slash pre @ r @ cs @ rest = pre @ cs @ rest" unfolding append_assoc [symmetric] pre by (rule refl)
  then have s0: "string_at mem p (takeWhile is_slash pre @ r @ cs @ rest)" using less.prems(1) by (rule ssubst)
  have lenp: "length pre = a + length r" using arg_cong [OF pre, of length] by (simp add: a_def)
  have c0: "at cs 0 = c" "c \<noteq> 0" using less.prems(1) string_at_append [of mem p pre "cs @ rest"] by (simp_all add: at_def cs)
  have s1: "string_at mem (p + a) (r @ cs @ rest)" unfolding a_def by (rule string_at_append [OF s0])
  have "length (takeWhile is_slash (pre @ cs @ rest)) = a"
  proof (cases "r = []")
    case True
    then have all: "\<forall>x \<in> set pre. is_slash x" by (simp add: r_def)
    then have "length (takeWhile is_slash pre) = length pre" by (induct pre) simp_all
    then show ?thesis using all by (simp add: takeWhile_append2 a_def cs)
  next
    case False
    then obtain x where "x \<in> set pre" "no_slash x" by (auto simp: r_def)
    then show ?thesis by (simp add: takeWhile_append1 a_def)
  qed
  then have sk: "skip_slashes mem p = Some (p + a)" using skip_slashes_end [OF less.prems(1)] by simp
  show ?case
  proof (cases "r = []")
    case True
    then have "a = length pre" using lenp by simp
    then have "string_at mem (p + a) (cs @ rest)" "mem (p + a) = c" using s1 True by (simp_all add: cs)
    then have "link_pos mem cs None p 0 = link_pos mem cs (Some (p + a)) (p + a) 0" using sk c0 by (subst link_pos.simps) simp
    also have "\<dots> = Some (p + a + length cs)" using link_pos_match [of mem "p + a" cs rest 0 "p + a"] \<open>string_at mem (p + a) (cs @ rest)\<close> cs by simp
    finally show ?thesis using \<open>a = length pre\<close> by simp
  next
    case False
    define w where "w = takeWhile no_slash r"
    define t where "t = dropWhile no_slash r"
    have r: "r = w @ t" "SLASH \<notin> set w" by (auto simp: w_def t_def dest: set_takeWhileD)
    have "no_slash (hd r)" unfolding r_def by (rule hd_dropWhile) (use False in \<open>simp add: r_def\<close>)
    then have w: "w \<noteq> []" "hd r = hd w" using False by (cases r; simp add: w_def)+
    have co: "components pre = w # components t"
      using components_first [of pre r] False by (simp add: r_def [symmetric] w_def t_def components_skip)
    have "pre \<noteq> []" "last pre = last r" using False lenp arg_cong [OF pre, of last] by auto
    then have lr: "last r = SLASH" using less.prems(2) by simp
    then have "t \<noteq> []" using r w(1) lr last_in_set by (metis append_Nil2)
    then have "\<not> no_slash (hd t)" unfolding t_def by (rule hd_dropWhile)
    then obtain ts where t: "t = SLASH # ts" using \<open>t \<noteq> []\<close> by (cases t) simp_all
    have ns: "next_slash mem (p + a) = Some (p + a + length w)"
      by (rule next_slash_end [of _ _ _ "ts @ cs @ rest"]) (use s1 r t w in simp_all)
    have s2: "string_at mem (p + a + length w) (t @ cs @ rest)" by (rule string_at_append) (use s1 r in simp)
    have hd: "mem (p + a) = hd w" "hd w \<noteq> c" using s1 r w less.prems(3) co by (cases w; simp add: cs)+
    have nz: "mem (p + a + length w) = SLASH" using s2 by (simp add: t)
    have len: "length pre = a + length w + length t" using lenp r(1) by simp
    have "link_pos mem cs None p 0 = link_pos mem cs None (p + a + length w) 0"
      by (subst link_pos.simps) (use sk ns c0 hd nz in simp)
    also have "\<dots> = Some (p + a + length w + length t + length cs)"
      by (rule less.hyps [OF _ s2]) (use len w co less.prems(3) lr r \<open>t \<noteq> []\<close> in auto)
    finally show ?thesis using len by (simp add: add.assoc)
  qed
qed

lemma c_string_end: "string_at mem p cs \<Longrightarrow> c_string mem p = Some cs"
proof (induction cs arbitrary: p)
  case Nil
  then show ?case by (subst c_string.simps) simp
next
  case (Cons c cs)
  then show ?case by (subst c_string.simps) simp
qed

text \<open>Once the name has begun, characters that agree are passed over.\<close>

lemma link_pos_walk:
  assumes "\<forall>i < j. mem (p + i + 1) = at cs (q + i + 1)" "\<forall>i \<le> j. at cs (q + i) \<noteq> 0"
  shows "link_pos mem cs (Some old) p q = link_pos mem cs (Some old) (p + j) (q + j)"
  using assms
proof (induction j arbitrary: p q)
  case (Suc j)
  have z: "at cs q \<noteq> 0" "at cs (q + 1) \<noteq> 0" "mem (p + 1) = at cs (q + 1)"
    using Suc.prems(2) [rule_format, of 0] Suc.prems(2) [rule_format, of 1] Suc.prems(1) [rule_format, of 0] by simp_all
  have "link_pos mem cs (Some old) (p + 1) (q + 1) = link_pos mem cs (Some old) (p + 1 + j) (q + 1 + j)"
  proof (rule Suc.IH)
    show "\<forall>i < j. mem (p + 1 + i + 1) = at cs (q + 1 + i + 1)" using Suc.prems(1) by auto
    show "\<forall>i \<le> j. at cs (q + 1 + i) \<noteq> 0" using Suc.prems(2) by auto
  qed
  then show ?case using z by (subst link_pos.simps) simp
qed simp

text \<open>When the characters after position \<open>k\<close> disagree and the search goes back to \<open>k\<close>, it goes back for ever.\<close>

lemma link_pos_stuck:
  assumes k: "next_slash mem old = Some k" "mem k \<noteq> 0" and q: "\<forall>i \<le> Suc j. at cs i \<noteq> 0" and eq: "\<forall>i < j. mem (k + i + 1) = at cs (i + 1)"
    and ne: "mem (k + j + 1) \<noteq> at cs (j + 1)"
  shows "link_pos mem cs (Some old) k 0 = None"
proof -
  define bad where "bad = (\<lambda>m c o' p x. \<exists>i \<le> j. m = mem \<and> c = cs \<and> o' = Some old \<and> p = k + i \<and> x = i)"
  have never: "\<not> bad m c o' p x" if "link_pos m c o' p x = Some y" for m c o' p x y
    using that
  proof (rule link_pos.raw_induct [of "\<lambda>m c o' p x y. \<not> bad m c o' p x", rotated])
    fix link m c o' p x y
    assume IH: "\<And>m c o' p x y. link m c o' p x = Some y \<Longrightarrow> \<not> bad m c o' p x"
      and run: "(if at c x = 0 then Some p
        else case o' of
          None \<Rightarrow> Option.bind (skip_slashes m p) (\<lambda>p1. if m p1 \<noteq> at c x
            then Option.bind (next_slash m p1) (\<lambda>p2. if m p2 = 0 then Some p2 else link m c None p2 x) else link m c (Some p1) p1 x)
        | Some old \<Rightarrow> if at c (x + 1) = 0 then Some (p + 1)
            else if m (p + 1) \<noteq> at c (x + 1) then Option.bind (next_slash m old) (\<lambda>p2. if m p2 = 0 then link m c None p2 (x + 1) else link m c (Some old) p2 0)
            else link m c (Some old) (p + 1) (x + 1)) = Some y"
    show "\<not> bad m c o' p x"
    proof
      assume "bad m c o' p x"
      then obtain i where i: "i \<le> j" and e: "m = mem" "c = cs" "o' = Some old" "p = k + i" "x = i" by (auto simp: bad_def)
      have nz: "at cs i \<noteq> 0" "at cs (i + 1) \<noteq> 0" using q i by simp_all
      show False
      proof (cases "i = j")
        case True
        then have "link mem cs (Some old) k 0 = Some y" using run nz ne k by (simp add: e)
        from IH [OF this] show False unfolding bad_def by (metis add_0_right le0)
      next
        case False
        then have "link mem cs (Some old) (k + (i + 1)) (i + 1) = Some y" using run nz eq i by (simp add: e)
        from IH [OF this] show False unfolding bad_def using False i by (metis Suc_eq_plus1 Suc_leI le_neq_implies_less)
      qed
    qed
  qed
  show ?thesis
  proof (cases "link_pos mem cs (Some old) k 0")
    case (Some y)
    from never [OF this] have "\<not> bad mem cs (Some old) k 0" .
    then show ?thesis unfolding bad_def by (metis add_0_right le0)
  qed simp
qed

text \<open>Where a text that is in memory differs from a name.\<close>

lemma at_string: "string_at mem p zs \<Longrightarrow> i \<le> length zs \<Longrightarrow> mem (p + i) = at zs i"
  unfolding string_at_def at_def by (cases "i = length zs") auto

lemma first_difference:
  assumes s: "string_at mem p zs" and ds: "0 \<notin> set ds" "take (length ds) zs \<noteq> ds"
  obtains j where "j < length ds" "\<forall>i < j. mem (p + i) = ds ! i" "mem (p + j) \<noteq> ds ! j"
proof -
  define P where "P = (\<lambda>i. i < length ds \<and> mem (p + i) \<noteq> ds ! i)"
  have "\<exists>i. P i"
  proof (rule ccontr)
    assume "\<nexists>i. P i"
    then have all: "\<forall>i < length ds. mem (p + i) = ds ! i" by (auto simp: P_def)
    have "length ds \<le> length zs"
    proof (rule ccontr)
      assume "\<not> length ds \<le> length zs"
      then have "mem (p + length zs) = ds ! length zs" "ds ! length zs \<in> set ds" using all by auto
      then show False using s ds(1) unfolding string_at_def by auto
    qed
    then have "take (length ds) zs = ds" using all s unfolding string_at_def by (intro nth_equalityI) auto
    then show False using ds(2) by simp
  qed
  then have "P (Least P)" "\<forall>i < Least P. \<not> P i" by (auto intro: LeastI dest: not_less_Least)
  then show thesis by (intro that [of "Least P"]) (auto simp: P_def)
qed

text \<open>The search in a path whose first component starts with the character of the name.\<close>

lemma link_pos_first:
  assumes s: "string_at mem path (SLASH # c # w @ SLASH # ys)" and c: "c \<noteq> SLASH" and w: "SLASH \<notin> set w"
    and ds: "ds \<noteq> []" "SLASH \<notin> set ds" "0 \<notin> set ds"
  shows "link_pos mem (c # ds) None path 0 =
    (if take (length ds) w = ds then Some (path + 2 + length ds) else if take (length ds) ys = ds then Some (path + 3 + length w + length ds) else None)"
proof -
  let ?cs = "c # ds" and ?k = "path + 2 + length w"
  have m: "mem path = SLASH" "mem (path + 1) = c" "c \<noteq> 0" using s by simp_all
  have at: "at ?cs 0 = c" "\<And>i. i < length ds \<Longrightarrow> at ?cs (i + 1) = ds ! i" "\<And>i. i < length ds \<Longrightarrow> ds ! i \<noteq> 0"
    using ds(3) nth_mem by (fastforce simp: at_def)+
  have nz: "at ?cs i \<noteq> 0" if "i \<le> length ds" for i using at m(3) that by (cases i) auto
  have s1: "string_at mem (path + 1) ((c # w) @ SLASH # ys)" using s by simp
  have s2: "string_at mem (path + 2) (w @ SLASH # ys)" using s by simp
  have "string_at mem (path + 2 + length w) (SLASH # ys)" by (rule string_at_append [OF s2])
  then have s3: "string_at mem (?k + 1) ys" "mem ?k = SLASH" by simp_all
  have ns: "next_slash mem (path + 1) = Some ?k"
    using next_slash_end [OF s1] c w by auto
  have "skip_slashes mem path = Some (path + 1)" using m c by (subst skip_slashes.simps, simp, subst skip_slashes.simps, simp)
  then have l0: "link_pos mem ?cs None path 0 = link_pos mem ?cs (Some (path + 1)) (path + 1) 0" using m at(1) by (subst link_pos.simps) simp
  show ?thesis
  proof (cases "take (length ds) w = ds")
    case True
    then obtain w2 where w2: "w = ds @ w2" by (metis append_take_drop_id)
    have "string_at mem (path + 1) ((c # ds) @ w2 @ SLASH # ys)" using s1 w2 by simp
    then have "link_pos mem ?cs (Some (path + 1)) (path + 1 + 0) 0 = Some (path + 1 + length ?cs)" by (rule link_pos_match) simp
    then show ?thesis using l0 True by simp
  next
    case False
    have "take (length ds) (w @ SLASH # ys) \<noteq> ds"
    proof
      assume a: "take (length ds) (w @ SLASH # ys) = ds"
      then show False
      proof (cases "length ds \<le> length w")
        case True
        then show False using a \<open>take (length ds) w \<noteq> ds\<close> by simp
      next
        case False
        then obtain n where n: "length ds - length w = Suc n" by (metis Suc_diff_Suc not_le)
        have "SLASH \<in> set (take (length ds) (w @ SLASH # ys))" unfolding take_append n by simp
        then show False using ds(2) unfolding a by blast
      qed
    qed
    from first_difference [OF s2 ds(3) this] obtain j where j: "j < length ds" "\<forall>i < j. mem (path + 2 + i) = ds ! i" "mem (path + 2 + j) \<noteq> ds ! j" .
    have "link_pos mem ?cs (Some (path + 1)) (path + 1) 0 = link_pos mem ?cs (Some (path + 1)) (path + 1 + j) (0 + j)"
      by (rule link_pos_walk) (use j at(2) nz in auto)
    also have "\<dots> = link_pos mem ?cs (Some (path + 1)) ?k 0"
      using j at(2) [OF j(1)] at(3) [OF j(1)] nz [of j] ns s3(2) by (subst link_pos.simps) (simp add: add.commute add.left_commute)
    finally have l1: "link_pos mem ?cs None path 0 = link_pos mem ?cs (Some (path + 1)) ?k 0" using l0 by simp
    show ?thesis
    proof (cases "take (length ds) ys = ds")
      case True
      then obtain y2 where y2: "ys = ds @ y2" by (metis append_take_drop_id)
      have "mem (?k + 1 + i) = ds ! i" if "i < length ds" for i
        using at_string [OF s3(1), of i] that by (simp add: y2 at_def nth_append)
      then have "link_pos mem ?cs (Some (path + 1)) ?k 0 = link_pos mem ?cs (Some (path + 1)) (?k + length ds) (0 + length ds)"
        by (intro link_pos_walk) (use at(2) nz in \<open>auto simp: add.commute add.left_commute\<close>)
      also have "\<dots> = Some (?k + length ds + 1)" using nz [of "length ds"] by (subst link_pos.simps) (simp add: at_def)
      finally show ?thesis using l1 False True by simp
    next
      case ys: False
      from first_difference [OF s3(1) ds(3) ys] obtain i where i: "i < length ds" "\<forall>x < i. mem (?k + 1 + x) = ds ! x" "mem (?k + 1 + i) \<noteq> ds ! i" .
      have "link_pos mem ?cs (Some (path + 1)) ?k 0 = None"
        by (rule link_pos_stuck [OF ns, of i]) (use i at(2) nz s3(2) in \<open>auto simp: add.commute add.left_commute\<close>)
      then show ?thesis using l1 False ys by simp
    qed
  qed
qed

text \<open>
  (C39) \<open>link_path\<close>, the part of \<^verbatim>\<open>slink_traverse\<close> that rewrites the path, replaces the link in the path by its contents and keeps
  what follows it, provided that no component before the link starts with the same character (in \<^verbatim>\<open>last_dir\<close>, which passes the path
  from the link on, there is none), that the name of the link is shorter than 14 characters and that path, contents and rest together are shorter than
  \<^verbatim>\<open>PATH_MAX\<close>. The code tests neither length: beyond them it writes past \<^verbatim>\<open>string\<close> and \<^verbatim>\<open>temp\<close>, and \<open>link_path\<close> is None.
\<close>

theorem link_path_replaces:
  assumes "string_at mem path (pre @ cs @ rest)" "cs \<noteq> []" "SLASH \<notin> set cs" "length cs < NAME_MAX" "pre = [] \<or> last pre = SLASH"
    "\<forall>c \<in> set (components pre). hd c \<noteq> hd cs" "0 \<notin> set target" "path + length target + length rest < PATH_MAX"
  shows "\<exists>mem'. link_path mem path cs target = Some mem' \<and> string_at mem' path (target @ rest) \<and> (\<forall>k. k < path \<longrightarrow> mem' k = mem k)"
proof -
  let ?mem = "\<lambda>k. if path \<le> k \<and> k \<le> path + length (target @ rest) then at (target @ rest) (k - path) else mem k"
  have "link_pos mem cs None path 0 = Some (path + length (pre @ cs))" using link_pos_found [OF assms(1-3,5,6)] by simp
  moreover have r: "string_at mem (path + length (pre @ cs)) rest" by (rule string_at_append) (use assms(1) in simp)
  moreover have "c_string mem (path + length (pre @ cs)) = Some rest" by (rule c_string_end [OF r])
  moreover have "takeWhile (\<lambda>c. c \<noteq> 0) target = target" using assms(7) by (subst takeWhile_eq_all_conv) auto
  ultimately have l: "link_path mem path cs target = Some ?mem"
    using assms(4,8) unfolding link_path_def by (simp add: Let_def del: takeWhile_eq_all_conv)
  have "0 \<notin> set rest" using r unfolding string_at_def by blast
  moreover have "\<forall>i < length (target @ rest). ?mem (path + i) = (target @ rest) ! i" by (simp add: at_def)
  moreover have "?mem (path + length (target @ rest)) = 0" by (simp add: at_def)
  ultimately have "string_at ?mem path (target @ rest)" using assms(7) unfolding string_at_def by simp
  then show ?thesis using l by (intro exI [of _ ?mem]) simp
qed

definition link_sample :: "nat \<Rightarrow> 8 word" where
  "link_sample k = (if k < 8 then [0x2F, 0x75, 0x2F, 0x74, 0x65, 0x61, 0x2F, 0x78] ! k else 0)"

theorem link_path_replaces_witness:
  "\<exists>mem'. link_path link_sample 0 [0x74, 0x65, 0x61] [0x2F, 0x62] = Some mem' \<and> string_at mem' 0 [0x2F, 0x62, 0x2F, 0x78]"
proof -
  have "string_at link_sample 0 ([0x2F, 0x75, 0x2F] @ [0x74, 0x65, 0x61] @ [0x2F, 0x78])" by (simp add: link_sample_def)
  from link_path_replaces [OF this, of "[0x2F, 0x62]"] show ?thesis by (auto simp: SLASH_def NAME_MAX_def PATH_MAX_def simp del: string_at_Cons)
qed

text \<open>
  (C40) The search of \<^verbatim>\<open>slink_traverse\<close>, called by \<^verbatim>\<open>eat_path\<close> with the whole path, goes wrong whenever the path is absolute, the
  first component is not the link and starts with the same character as the name of the link, a name of at least two characters. When the first component begins with the whole name, or else the text after
  it goes on like the name without its first character, the search stops at a wrong place (as in \<^verbatim>\<open>/tmp/ttt\<close> for a link \<^verbatim>\<open>ttt\<close>,
  where the last \<^verbatim>\<open>t\<close> is taken for the rest of the path). In every other case, as in \<^verbatim>\<open>/tmp/tea\<close> for a link \<^verbatim>\<open>tea\<close>, it starts again
  at the same slash for ever: \<^verbatim>\<open>slink_traverse\<close> never returns, and the file system hangs.
\<close>

theorem slink_traverse_hangs:
  assumes "string_at (user_path s) path (SLASH # c # w @ SLASH # ys)" "c \<noteq> SLASH" "SLASH \<notin> set w"
    and "ds \<noteq> []" "SLASH \<notin> set ds" "0 \<notin> set ds"
  shows "link_pos (user_path s) (c # ds) None path 0 =
      (if take (length ds) w = ds then Some (path + 2 + length ds) else if take (length ds) ys = ds then Some (path + 3 + length w + length ds) else None) \<and>
    (take (length ds) w \<noteq> ds \<longrightarrow> take (length ds) ys \<noteq> ds \<longrightarrow> slink_traverse env rip path (c # ds) ldip s \<noteq> Some (Ret y))"
proof -
  note l = link_pos_first [OF assms]
  have "slink_traverse env rip path (c # ds) ldip s \<noteq> Some (Ret y)" if "take (length ds) w \<noteq> ds" "take (length ds) ys \<noteq> ds"
  proof -
    have "link_path (user_path s) path (c # ds) target = None" for target using that by (simp add: link_path_def l)
    then show ?thesis by (auto simp: slink_traverse_def and_then_def Let_def split: option.splits outcome.splits prod.splits)
  qed
  then show ?thesis using l by blast
qed

definition tmp_tea :: "nat \<Rightarrow> 8 word" where
  "tmp_tea k = (if k < 8 then [0x2F, 0x74, 0x6D, 0x70, 0x2F, 0x74, 0x65, 0x61] ! k else 0)"

theorem slink_traverse_hangs_witness:
  "link_pos tmp_tea [0x74, 0x65, 0x61] None 0 0 = None \<and>
   (\<forall>y. slink_traverse boot_env 0 0 [0x74, 0x65, 0x61] 0 (boot_sys\<lparr>user_path := tmp_tea\<rparr>) \<noteq> Some (Ret y))"
proof -
  have "string_at (user_path (boot_sys\<lparr>user_path := tmp_tea\<rparr>)) 0 (SLASH # 0x74 # [0x6D, 0x70] @ SLASH # [0x74, 0x65, 0x61])"
    by (simp add: tmp_tea_def SLASH_def)
  from slink_traverse_hangs [OF this, where ds = "[0x65, 0x61]"]
  have "link_pos tmp_tea [0x74, 0x65, 0x61] None 0 0 = None \<and> slink_traverse boot_env 0 0 [0x74, 0x65, 0x61] 0 (boot_sys\<lparr>user_path := tmp_tea\<rparr>) \<noteq> Some (Ret y)" for y
    by (simp add: SLASH_def)
  then show ?thesis by blast
qed

end
