(* ===== verification/Spec2Isabelle.thy ===== *)
theory Spec2Isabelle
  imports Kernel_Boot Mm_Calls Fs_Files Fs_Start Fs_Locks Fs_Dirs Fs_Paths
begin

text \<open>
  MINIX 2.0.2 for the Atari ST (\<^verbatim>\<open>src/src\<close>): its kernel, its memory manager and its file system,
  translated function by function and proved correct.

  \<^bold>\<open>The program.\<close> Three parts keep all state of the system. The kernel schedules processes and
  passes messages between them; it also turns interrupts into messages. The memory manager (MM) and
  the file system (FS) are ordinary processes that wait for a message, carry out one call and reply.
  MM owns processes, signals and memory, FS owns blocks, zones, inodes and files. They talk to each
  other and to the system task of the kernel by messages only, so each is modelled on its own.

  \<^bold>\<open>Configuration.\<close> \<^verbatim>\<open>include/minix/config.h\<close> as shipped: \<^verbatim>\<open>MACHINE\<close> is \<^verbatim>\<open>ATARI\<close>, so the processor is a
  68000 (high byte first, 32-bit \<^verbatim>\<open>int\<close>), \<^verbatim>\<open>SHADOWING\<close> and \<^verbatim>\<open>ALLOW_GAP_MESSAGES\<close> are 1, there are 256
  block buffers, \<^verbatim>\<open>ENABLE_CACHE2\<close> is 1 and \<^verbatim>\<open>ROBUST\<close> is 0.

  \<^bold>\<open>Conventions\<close> (theory Prelude). A C pointer into a static table is the index of the slot, a null
  pointer \<open>None\<close>. A structure is a record with the fields of the source, flag words and sizes that
  can wrap around are words of their width. A function that may call \<^verbatim>\<open>panic\<close> returns an \<open>outcome\<close>; one
  with a loop that follows pointers returns an \<open>option\<close> on top (\<open>partial_function\<close>), where \<open>None\<close>
  means that the loop does not end, and the theorems show that it does end. What is not under
  \<^verbatim>\<open>src/\<close> or is another process is an argument: the devices (\<open>disk\<close> and \<open>io\<close>), the answers of kernel,
  clock and file system to MM (\<open>env\<close>), the contents of memory.

  \<^bold>\<open>Kernel.\<close>
  \<^item> Kernel_Proc: \<^verbatim>\<open>kernel/proc.c\<close> and \<^verbatim>\<open>proc.h\<close>. The process table, the four ready queues threaded by
    \<^verbatim>\<open>p_nextready\<close>, the queues of blocked senders threaded by \<^verbatim>\<open>p_sendlink\<close>, the list of held interrupts;
    \<^verbatim>\<open>sys_call\<close>, \<^verbatim>\<open>mini_send\<close>, \<^verbatim>\<open>mini_rec\<close>, \<^verbatim>\<open>interrupt\<close>, \<^verbatim>\<open>unhold\<close>, \<^verbatim>\<open>ready\<close>, \<^verbatim>\<open>unready\<close>, \<^verbatim>\<open>sched\<close>,
    \<^verbatim>\<open>pick_proc\<close>, and \<^verbatim>\<open>cause_sig\<close> and \<^verbatim>\<open>inform\<close> of \<^verbatim>\<open>system.c\<close>, which they call.
  \<^item> Kernel_Sched: the ready queues are lists; every operation keeps them so and the running process
    is the head of the first non-empty queue. Round robin, and \<^verbatim>\<open>unready\<close> undoes \<^verbatim>\<open>ready\<close>.
  \<^item> Kernel_Ipc: the invariant of message passing. The caller queue of a process holds exactly the
    processes blocked on sending to it, the waits-for relation has no cycle, a process is ready if and
    only if its flags are zero. Each primitive keeps it and returns.
  \<^item> Kernel_Boot: the process table as \<^verbatim>\<open>main\<close> of \<^verbatim>\<open>stmain.c\<close> sets it up, and the histories that start
    there; the properties of the kernel.

  \<^bold>\<open>Memory manager.\<close>
  \<^item> Mm_Alloc: \<^verbatim>\<open>mm/alloc.c\<close>, the table of holes as a linked list, refined to a sorted list of
    disjoint, non-touching intervals. First fit, coalescing, conservation of memory.
  \<^item> Mm_Proc: \<^verbatim>\<open>mproc.h\<close>, \<^verbatim>\<open>break.c\<close>, \<^verbatim>\<open>getset.c\<close> and the shared helpers. Calls to other processes are
    events in \<open>out\<close>; what they answer is read from \<open>env\<close> and may depend on all events so far.
  \<^item> Mm_Signal: \<^verbatim>\<open>forkexit.c\<close>, \<^verbatim>\<open>signal.c\<close>, \<^verbatim>\<open>trace.c\<close>, \<^verbatim>\<open>main.c\<close> and the call vector of \<^verbatim>\<open>table.c\<close>.
    \<^verbatim>\<open>mm_exit\<close>, \<^verbatim>\<open>sig_proc\<close> and \<^verbatim>\<open>check_sig\<close> call each other; the knot is tied with fuel \<open>EXIT_FUEL\<close>. Every
    round of the recursion starts a \<^verbatim>\<open>mm_exit\<close> of a process that is not yet hanging, so that the number
    of processes bounds the depth, and Mm_Exit proves that the fuel never runs out.
  \<^item> Mm_Break: the stack and the data segment never meet; \<^verbatim>\<open>brk\<close>.
  \<^item> Mm_Exit: exit, wait and signal delivery keep the invariant of the process table and return. What is known of the
    hole list is a parameter \<open>J\<close> of these lemmas, a predicate of the calls made so far, the sizes of the live processes and the hole
    list; \<open>calm e J\<close> says that the environment \<open>e\<close> keeps it.
  \<^item> Mm_Memory: that predicate. \<open>account\<close> follows the block of every process through the calls to the kernel; \<open>ledger\<close> says that the
    blocks of the live processes and the holes divide up the memory. It is kept if the kernel works (\<open>kernel_ok\<close>: replies can be sent,
    the clock task answers, and what the kernel reports free at an exit is the block of the process or of one that shadows it), and then
    \<^verbatim>\<open>free_mem\<close> never finds the hole table full: every hole ends where a block starts or a bank of memory ends, and there
    are at most 64 processes and fewer than 64 banks for 128 holes.
  \<^item> Mm_Calls: every call that the main loop can receive keeps the invariant \<open>mm_ok\<close> and returns; fork, kill and tracing.

  \<^bold>\<open>File system.\<close>
  \<^item> Fs_Cache: \<^verbatim>\<open>fs/cache.c\<close>, \<^verbatim>\<open>cache2.c\<close> and \<^verbatim>\<open>buf_pool\<close>, the two levels of the block cache with LRU chain
    and hash chains. The \<open>n\<close>-th transfer moves \<open>io n\<close> bytes; one that moves less than a block changes
    nothing. \<open>sound io\<close> says that all transfers succeed.
  \<^item> Fs_Blocks: the chains are what they should be, the Shell sort sorts, the second level cache
    agrees with the disk on every block that no buffer holds. \<open>view\<close> is what callers see of a block.
  \<^item> Fs_Store: \<^verbatim>\<open>get_block\<close> and \<^verbatim>\<open>put_block\<close> implement the contract \<open>block_store\<close>, a locale with the
    transactions of its clients, interpreted on the cache; histories of the cache.
  \<^item> Fs_Super: \<^verbatim>\<open>fs/super.c\<close>, the byte order conversions of \<^verbatim>\<open>utility.c\<close>, \<^verbatim>\<open>alloc_zone\<close> and \<^verbatim>\<open>free_zone\<close>.
  \<^item> Fs_Bitmap: the bit maps as sets, by the transactions of \<open>block_store\<close>.
  \<^item> Fs_Zone: zones in use are never handed out; super blocks of both byte orders.
  \<^item> Fs_Inode: \<^verbatim>\<open>fs/inode.c\<close>, the inode table and the two formats of inodes on the disk. A disk inode is a
    range of bytes of its block.
  \<^item> Fs_Inodes: inodes survive the way to the disk and back, and the table holds none twice.
  \<^item> Fs_Map: where the bytes of a file are: \<^verbatim>\<open>read_map\<close>, \<^verbatim>\<open>write_map\<close>, \<^verbatim>\<open>new_block\<close>, \<^verbatim>\<open>clear_zone\<close>,
    \<^verbatim>\<open>truncate\<close> and \<^verbatim>\<open>put_inode\<close>. File positions are natural numbers here; a position is an unsigned long in
    the source. An index beyond the end of an
    indirect block, which \<^verbatim>\<open>read_map\<close> does not check, reads bytes after those of the block.
  \<^item> Fs_Files: the map of a file as a function from zone indices to zones, read off the device;
    \<^verbatim>\<open>read_map\<close> looks it up and \<^verbatim>\<open>write_map\<close> updates it, growing indirect blocks that are never shared.
  \<^item> Fs_Desc: the tables \<^verbatim>\<open>filp\<close> and \<^verbatim>\<open>fproc\<close>, the globals of \<^verbatim>\<open>glo.h\<close> (record \<open>sys\<close>), \<^verbatim>\<open>filedes.c\<close>, and of \<^verbatim>\<open>pipe.c\<close>
    suspending, reviving, \<^verbatim>\<open>release\<close> and \<^verbatim>\<open>pipe_check\<close>. Replies, signals and copies are events in \<open>sent\<close>.
  \<^item> Fs_Lock: \<^verbatim>\<open>lock.c\<close>. Fs_Device: \<^verbatim>\<open>device.c\<close> and the table \<^verbatim>\<open>dmap\<close>; the answers of the tasks are the list
    \<open>inbox\<close>. Fs_Calls: \<^verbatim>\<open>do_close\<close>, \<^verbatim>\<open>do_lseek\<close>, \<^verbatim>\<open>do_pipe\<close>, \<^verbatim>\<open>forbidden\<close>, the clock. Fs_Misc: \<^verbatim>\<open>misc.c\<close>, with fork,
    exec and exit as FS sees them. Fs_Rw: \<^verbatim>\<open>read_write\<close> with its chunks and the read-ahead.
  \<^item> Fs_Dir: \<^verbatim>\<open>search_dir\<close> of \<^verbatim>\<open>path.c\<close>. Fs_Path: the rest of \<^verbatim>\<open>path.c\<close> and \<^verbatim>\<open>fetch_name\<close>; \<^verbatim>\<open>user_path\<close> is an array of bytes. Loops
    that may run forever are partial functions; paths follow at most 8 symbolic links.
  \<^item> Fs_Names: the calls that take names, the rest of \<^verbatim>\<open>link.c\<close>, \<^verbatim>\<open>open.c\<close>, \<^verbatim>\<open>mount.c\<close>, \<^verbatim>\<open>stadir.c\<close>, \<^verbatim>\<open>protect.c\<close> and \<^verbatim>\<open>time.c\<close>.
  \<^item> Fs_Main: \<^verbatim>\<open>main.c\<close> and the call vector of \<^verbatim>\<open>table.c\<close>.
  \<^item> Fs_Frame, Fs_Counts, Fs_Rw_Counts: the invariant \<open>sys_inv\<close> of the tables: the count of every table entry is the
    number of descriptors that lead to it, the count of every inode the number of its users, the lock and
    revival counters are right. Every operation keeps it.
  \<^item> Fs_Walk, Fs_Name_Counts, Fs_Open_Counts: the same for the calls on names. A call that walks a path holds inodes that no table
    refers to; \<open>owes\<close> keeps the multiset of these debts, which is empty again when the call returns. \<open>home\<close> and \<open>direct\<close> say that
    \<^verbatim>\<open>eat_path\<close> and \<^verbatim>\<open>new_node\<close> leave the working directory as it was.
  \<^item> Fs_History, Fs_Start: the main loop from start-up on; the root is mounted and every history keeps \<open>sys_inv\<close>.
  \<^item> Fs_Locks: the lock table as the set of locked bytes; granting, refusing and clearing locks.
  \<^item> Fs_Dirs: a directory as a map from names to inode numbers, read off the disk; \<^verbatim>\<open>search_dir\<close> looks it up, adds to it and
    takes from it. Fs_Paths: \<^verbatim>\<open>get_name\<close> splits a path at its slashes; what \<^verbatim>\<open>slink_traverse\<close> makes of the path, and when it hangs.
    It copies names and paths without a look at their lengths; where this overruns an array, \<open>link_path\<close> is None.
  \<^item> Fs_Sample: a state for examples.

  \<^bold>\<open>Bounds of the model.\<close> Interrupts are masked where the source masks them, so the primitives of the
  kernel are atomic; the window in which \<^verbatim>\<open>unhold\<close> unlocks for a moment is not modelled. Table sizes are
  those of the source. The histories of the kernel leave out a task or server that sends to itself, which is fatal
  (a property of Kernel_Boot), and sends of theirs to ANY. Block numbers, reference counts and click counts of the hole list are
  unbounded numbers; the source keeps the first in 32 bits and the count of a buffer in a \<^verbatim>\<open>char\<close>.

  \<^bold>\<open>Not modelled.\<close> \<^verbatim>\<open>exec\<close> (a parameter of the dispatch of MM, since it reads files), the contents of
  core files (an event), the handlers of the system task and the clock, the device drivers, the RAM disk of \<^verbatim>\<open>fs_init\<close>,
  printing, and everything that runs as a user program: commands, libraries, network server, boot programs, tools and tests.
  \<^verbatim>\<open>mount\<close> and \<^verbatim>\<open>umount\<close> are part of the call vector; the histories of Fs_History leave them out. They also leave out the rounds
  in which a call forgets a use of the working directory, so that the counts would be wrong from then on: \<^verbatim>\<open>new_node\<close> never gives it
  back after a symbolic link in the last component, and \<^verbatim>\<open>eat_path\<close> does not when the path that remains is \<^verbatim>\<open>/\<close>.
\<close>

end
